(* ===== verification/Prelude.thy ===== *)
theory Prelude
  imports Main "HOL-Library.Word"
begin

text \<open>
  Shared vocabulary of the development: the C integer types of
  \<^verbatim>\<open>kernel/types.h\<close> as words, the ways a kernel routine can fail to return, sequencing of
  routines that can fail, and the generic list, option and word lemmas the component theories
  rely on.
\<close>

unbundle bit_operations_syntax

section \<open>C integer types\<close>

type_synonym u8 = "8 word"
type_synonym u16 = "16 word"
type_synonym u32 = "32 word"
type_synonym u64 = "64 word"

section \<open>Failing computations\<close>

text \<open>
  A kernel routine that does not return a value has called \<^verbatim>\<open>panic\<close> (with the message it
  prints), has dereferenced a null or wild pointer, has run past the end of an object, or sleeps on a lock that no one releases. These
  are values of the sum \<open>fault + 'a\<close>.
\<close>

datatype fault = Panic string | NullDeref | OutOfBounds | Blocked

type_synonym 'a result = "fault + 'a"

fun bindR :: "'a result \<Rightarrow> ('a \<Rightarrow> 'b result) \<Rightarrow> 'b result" where
  "bindR (Inl e) f = Inl e"
| "bindR (Inr x) f = f x"

lemma bindR_eq_Inr [simp]: "(bindR m f = Inr y) = (\<exists>x. m = Inr x \<and> f x = Inr y)"
  by (cases m) auto

lemma bindR_cong [fundef_cong]:
  "m = m' \<Longrightarrow> (\<And>x. m' = Inr x \<Longrightarrow> f x = f' x) \<Longrightarrow> bindR m f = bindR m' f'"
  by (cases m') auto

section \<open>String literals\<close>

text \<open>The bytes of a C string literal, without the terminating NUL.\<close>

definition bytes :: "string \<Rightarrow> u8 list" where "bytes s = map of_char s"

text \<open>A character constant, given as a string of one character.\<close>

definition chr :: "string \<Rightarrow> u8" where "chr s = hd (bytes s)"

lemma length_bytes [simp]: "length (bytes s) = length s"
  by (simp add: bytes_def)

section \<open>Lemma collections\<close>

named_theorems frame_simps \<open>fields an operation leaves alone\<close>
named_theorems geom \<open>facts about aligned blocks\<close>

section \<open>Lists\<close>

lemma remove1_not_in [simp]: "x \<notin> set xs \<Longrightarrow> remove1 x xs = xs"
  by (rule remove1_idem)

lemma set_remove1_distinct: "distinct xs \<Longrightarrow> set (remove1 x xs) = set xs - {x}"
  by (rule set_remove1_eq)

lemma nth_list_update_cases:
  "i < length xs \<Longrightarrow> (xs[i := v]) ! j = (if i = j then v else xs ! j)"
  by (cases "i = j") auto

section \<open>Words\<close>

lemma word_eqI_bits: "(\<And>n. n < LENGTH('a::len) \<Longrightarrow> bit x n = bit y n) \<Longrightarrow> x = (y :: 'a word)"
  by (rule bit_word_eqI) simp

lemma word_nonzero_bit: "(x :: 'a::len word) \<noteq> 0 \<longleftrightarrow> (\<exists>n < LENGTH('a). bit x n)"
  by (metis bit_0_eq bit_imp_le_length bot_apply bot_bool_def word_eqI_bits)

lemma unat_drop_bit_div: "unat (drop_bit k (a :: 'a::len word)) = unat a div 2 ^ k"
  unfolding unat_drop_bit_eq by (rule drop_bit_eq_div)

lemma and_not_mask_shift: "(a :: 'a::len word) AND NOT (mask k) = push_bit k (drop_bit k a)"
  by (rule bit_word_eqI) (auto simp: bit_simps)

text \<open>Clearing the low \<open>k\<close> bits rounds down to a multiple of \<open>2 ^ k\<close>.\<close>

lemma unat_and_not_mask: "unat ((a :: 'a::len word) AND NOT (mask k)) = unat a - unat a mod 2 ^ k"
proof -
  have "unat a div 2 ^ k * 2 ^ k < 2 ^ LENGTH('a)"
    by (rule order.strict_trans1 [OF div_times_less_eq_dividend unsigned_less])
  then have "unat (push_bit k (drop_bit k a)) = unat a div 2 ^ k * 2 ^ k"
    unfolding unsigned_push_bit_eq unat_drop_bit_div
    by (simp add: push_bit_eq_mult take_bit_nat_eq_self)
  then show ?thesis by (simp add: and_not_mask_shift minus_mod_eq_div_mult)
qed

end
