(* ===== verification/Bitops.thy ===== *)
theory Bitops
  imports Prelude
begin

text \<open>
  The bit operations of \<^verbatim>\<open>kernel/bitops.h\<close> and the page arithmetic of \<^verbatim>\<open>kernel/page.h\<close>.
  A pointer to an array of \<^verbatim>\<open>unsigned long\<close> is a function from indices to 64-bit words. The
  searches \<^verbatim>\<open>__ffs\<close>, \<^verbatim>\<open>ffs\<close> and \<^verbatim>\<open>__fls\<close> are shown to find the lowest and the highest set
  bit, \<^verbatim>\<open>find_next_bit\<close> and \<^verbatim>\<open>find_next_zero_bit\<close> to return the first match in range, and
  \<^verbatim>\<open>get_order\<close> to be the least order whose block holds the size. A leading double underscore
  of the source is spelled \<open>uu_\<close>.
\<close>

section \<open>Bits of an array of longs\<close>

definition BITS_PER_LONG :: nat where
  "BITS_PER_LONG = 64"

definition BIT_MASK :: "nat \<Rightarrow> u64" where
  "BIT_MASK nr = push_bit (nr mod BITS_PER_LONG) 1"

definition BIT_WORD :: "nat \<Rightarrow> nat" where
  "BIT_WORD nr = nr div BITS_PER_LONG"

definition set_bit_ul :: "nat \<Rightarrow> (nat \<Rightarrow> u64) \<Rightarrow> (nat \<Rightarrow> u64)" where
  "set_bit_ul nr p = p(BIT_WORD nr := p (BIT_WORD nr) OR BIT_MASK nr)"

definition clear_bit_ul :: "nat \<Rightarrow> (nat \<Rightarrow> u64) \<Rightarrow> (nat \<Rightarrow> u64)" where
  "clear_bit_ul nr p = p(BIT_WORD nr := p (BIT_WORD nr) AND NOT (BIT_MASK nr))"

definition get_bit_ul :: "nat \<Rightarrow> (nat \<Rightarrow> u64) \<Rightarrow> u64" where
  "get_bit_ul nr p = drop_bit (nr mod BITS_PER_LONG) (p (nr div BITS_PER_LONG)) AND 1"

text \<open>The old value of the bit, and the array with the bit set or cleared.\<close>

definition test_and_set_bit :: "nat \<Rightarrow> (nat \<Rightarrow> u64) \<Rightarrow> bool \<times> (nat \<Rightarrow> u64)" where
  "test_and_set_bit nr p =
     (let res = p (BIT_WORD nr)
      in (res AND BIT_MASK nr \<noteq> 0, p(BIT_WORD nr := res OR BIT_MASK nr)))"

definition test_and_clear_bit :: "nat \<Rightarrow> (nat \<Rightarrow> u64) \<Rightarrow> bool \<times> (nat \<Rightarrow> u64)" where
  "test_and_clear_bit nr p =
     (let res = p (BIT_WORD nr)
      in (res AND BIT_MASK nr \<noteq> 0, p(BIT_WORD nr := res AND NOT (BIT_MASK nr))))"

text \<open>
  \<^verbatim>\<open>find_next_bit_helper\<close> is two nested loops: the inner one scans the bits of one long up
  to \<open>max_bit\<close> and leaves either by returning \<open>res\<close> (\<open>Inl\<close>) or with the running
  \<open>res\<close> (\<open>Inr\<close>).
\<close>

function fnb_inner :: "u64 \<Rightarrow> nat \<Rightarrow> nat \<Rightarrow> bool \<Rightarrow> nat \<Rightarrow> nat + nat" where
  "fnb_inner w cur_bit max_bit invert res =
     (if cur_bit \<le> max_bit
      then let cur_bit_value = w AND push_bit cur_bit 1
           in if (if invert then cur_bit_value = 0 else cur_bit_value \<noteq> 0) then Inl res
              else fnb_inner w (cur_bit + 1) max_bit invert (res + 1)
      else Inr res)"
  by pat_completeness auto
termination
  by (relation "measure (\<lambda>(w, cur_bit, max_bit, invert, res). Suc max_bit - cur_bit)") auto

text \<open>\<open>sz - 1\<close> is unsigned: a size of 0 wraps.\<close>

definition size_minus_1 :: "nat \<Rightarrow> nat" where
  "size_minus_1 sz = (if sz = 0 then 2 ^ 64 - 1 else sz - 1)"

function fnb_outer :: "(nat \<Rightarrow> u64) \<Rightarrow> nat \<Rightarrow> nat \<Rightarrow> nat \<Rightarrow> bool \<Rightarrow> nat \<Rightarrow> nat" where
  "fnb_outer p sz cur_elem cur_bit invert res =
     (let max_elem = size_minus_1 sz div BITS_PER_LONG in
      if cur_elem \<le> max_elem
      then let max_bit = (if cur_elem < max_elem then BITS_PER_LONG - 1
                          else size_minus_1 sz mod BITS_PER_LONG)
           in case fnb_inner (p cur_elem) cur_bit max_bit invert res of
                Inl r \<Rightarrow> r
              | Inr res' \<Rightarrow> fnb_outer p sz (cur_elem + 1) 0 invert res'
      else sz)"
  by pat_completeness auto
termination
  by (relation "measure (\<lambda>(p, sz, cur_elem, _). Suc (size_minus_1 sz div BITS_PER_LONG) - cur_elem)")
     auto

declare fnb_inner.simps [simp del] fnb_outer.simps [simp del]

definition find_next_bit_helper :: "(nat \<Rightarrow> u64) \<Rightarrow> nat \<Rightarrow> nat \<Rightarrow> bool \<Rightarrow> nat" where
  "find_next_bit_helper p sz start invert =
     fnb_outer p sz (start div BITS_PER_LONG) (start mod BITS_PER_LONG) invert start"

definition find_next_zero_bit :: "(nat \<Rightarrow> u64) \<Rightarrow> nat \<Rightarrow> nat \<Rightarrow> nat" where
  "find_next_zero_bit p sz start = find_next_bit_helper p sz start True"

definition find_next_bit :: "(nat \<Rightarrow> u64) \<Rightarrow> nat \<Rightarrow> nat \<Rightarrow> nat" where
  "find_next_bit p sz start = find_next_bit_helper p sz start False"

section \<open>Lowest and highest set bit of a long\<close>

text \<open>Each routine is a cascade of \<^verbatim>\<open>if\<close> statements that move a counter and shift the word.\<close>

definition ffs :: "u64 \<Rightarrow> nat" where
  "ffs x =
     (if x = 0 then 0 else
      let r = 1;
          (r, x) = (if x AND 0xffffffff = 0 then (r + 32, drop_bit 32 x) else (r, x));
          (r, x) = (if x AND 0xffff = 0 then (r + 16, drop_bit 16 x) else (r, x));
          (r, x) = (if x AND 0xff = 0 then (r + 8, drop_bit 8 x) else (r, x));
          (r, x) = (if x AND 0xf = 0 then (r + 4, drop_bit 4 x) else (r, x));
          (r, x) = (if x AND 3 = 0 then (r + 2, drop_bit 2 x) else (r, x));
          (r, x) = (if x AND 1 = 0 then (r + 1, drop_bit 1 x) else (r, x))
      in r)"

definition uu_ffs :: "u64 \<Rightarrow> nat" where
  "uu_ffs word =
     (let num = 0;
          (num, word) = (if word AND 0xffffffff = 0 then (num + 32, drop_bit 32 word) else (num, word));
          (num, word) = (if word AND 0xffff = 0 then (num + 16, drop_bit 16 word) else (num, word));
          (num, word) = (if word AND 0xff = 0 then (num + 8, drop_bit 8 word) else (num, word));
          (num, word) = (if word AND 0xf = 0 then (num + 4, drop_bit 4 word) else (num, word));
          (num, word) = (if word AND 0x3 = 0 then (num + 2, drop_bit 2 word) else (num, word))
      in if word AND 0x1 = 0 then num + 1 else num)"

definition uu_fls :: "u64 \<Rightarrow> nat" where
  "uu_fls word =
     (let num = BITS_PER_LONG - 1;
          (num, word) = (if word AND push_bit 32 (NOT 0) = 0 then (num - 32, push_bit 32 word) else (num, word));
          (num, word) = (if word AND push_bit (BITS_PER_LONG - 16) (NOT 0) = 0 then (num - 16, push_bit 16 word) else (num, word));
          (num, word) = (if word AND push_bit (BITS_PER_LONG - 8) (NOT 0) = 0 then (num - 8, push_bit 8 word) else (num, word));
          (num, word) = (if word AND push_bit (BITS_PER_LONG - 4) (NOT 0) = 0 then (num - 4, push_bit 4 word) else (num, word));
          (num, word) = (if word AND push_bit (BITS_PER_LONG - 2) (NOT 0) = 0 then (num - 2, push_bit 2 word) else (num, word))
      in if word AND push_bit (BITS_PER_LONG - 1) (NOT 0) = 0 then num - 1 else num)"

definition fls64 :: "u64 \<Rightarrow> nat" where
  "fls64 x = (if x = 0 then 0 else uu_fls x + 1)"

section \<open>Page arithmetic\<close>

definition PGSIZE :: u64 where
  "PGSIZE = 4096"

definition PGSHIFT :: nat where
  "PGSHIFT = 12"

definition PAGE_MASK :: u64 where
  "PAGE_MASK = NOT (PGSIZE - 1)"

definition PGROUNDUP :: "u64 \<Rightarrow> u64" where
  "PGROUNDUP sz = (sz + PGSIZE - 1) AND NOT (PGSIZE - 1)"

definition PGROUNDDOWN :: "u64 \<Rightarrow> u64" where
  "PGROUNDDOWN a = a AND NOT (PGSIZE - 1)"

definition PAGE_ALIGN :: "u64 \<Rightarrow> u64" where
  "PAGE_ALIGN addr = (addr + PGSIZE - 1) AND PAGE_MASK"

definition PFN_UP :: "u64 \<Rightarrow> u64" where
  "PFN_UP x = drop_bit PGSHIFT (x + PGSIZE - 1)"

definition PFN_DOWN :: "u64 \<Rightarrow> u64" where
  "PFN_DOWN x = drop_bit PGSHIFT x"

definition get_order :: "u64 \<Rightarrow> nat" where
  "get_order sz = fls64 (drop_bit PGSHIFT (sz - 1))"

section \<open>Set and clear\<close>

lemma word_and_1_eq: "(w :: u64) AND 1 = of_bool (bit w 0)"
  by (simp add: and_one_eq mod2_eq_if bit_0)

lemma bit_BIT_MASK [simp]: "bit (BIT_MASK nr) i = (i = nr mod BITS_PER_LONG)"
  by (auto simp: BIT_MASK_def bit_simps BITS_PER_LONG_def possible_bit_def)

lemma get_bit_ul_iff: "get_bit_ul nr p = of_bool (bit (p (BIT_WORD nr)) (nr mod BITS_PER_LONG))"
  by (simp add: get_bit_ul_def BIT_WORD_def word_and_1_eq bit_simps)

lemma BIT_split: "nr = nr' \<longleftrightarrow> BIT_WORD nr = BIT_WORD nr' \<and> nr mod BITS_PER_LONG = nr' mod BITS_PER_LONG"
  by (metis BIT_WORD_def div_mult_mod_eq)

lemma get_set_bit_ul: "get_bit_ul nr (set_bit_ul nr' p) = (if nr = nr' then 1 else get_bit_ul nr p)"
  using BIT_split [of nr nr']
  by (auto simp: get_bit_ul_iff set_bit_ul_def bit_simps BITS_PER_LONG_def)

lemma get_clear_bit_ul: "get_bit_ul nr (clear_bit_ul nr' p) = (if nr = nr' then 0 else get_bit_ul nr p)"
  using BIT_split [of nr nr']
  by (auto simp: get_bit_ul_iff clear_bit_ul_def bit_simps BITS_PER_LONG_def)

section \<open>The bit searches\<close>

definition bit_of :: "(nat \<Rightarrow> u64) \<Rightarrow> nat \<Rightarrow> bool" where
  "bit_of p n = bit (p (n div BITS_PER_LONG)) (n mod BITS_PER_LONG)"

text \<open>The first position in \<open>[start, size)\<close> whose bit differs from \<open>invert\<close>, else \<open>size\<close>.\<close>

definition first_bit :: "(nat \<Rightarrow> u64) \<Rightarrow> nat \<Rightarrow> nat \<Rightarrow> bool \<Rightarrow> nat \<Rightarrow> bool" where
  "first_bit p sz start invert r \<longleftrightarrow>
     start \<le> r \<and> r \<le> sz \<and> (\<forall>n. start \<le> n \<longrightarrow> n < r \<longrightarrow> bit_of p n = invert) \<and>
     (r < sz \<longrightarrow> bit_of p r \<noteq> invert)"

lemma first_bit_extend:
  assumes "first_bit p sz m invert r" "start \<le> m"
    "\<And>n. start \<le> n \<Longrightarrow> n < m \<Longrightarrow> bit_of p n = invert"
  shows "first_bit p sz start invert r"
proof -
  have "bit_of p n = invert" if "start \<le> n" "n < r" for n
    using assms that by (cases "n < m") (auto simp: first_bit_def)
  with assms show ?thesis by (auto simp: first_bit_def)
qed

lemma fnb_inner_unfold:
  "fnb_inner w cur max_bit invert res =
     (if cur \<le> max_bit
      then if bit w cur \<noteq> invert then Inl res else fnb_inner w (Suc cur) max_bit invert (Suc res)
      else Inr res)"
  by (simp add: fnb_inner.simps [of w cur] and_exp_eq_0_iff_not_bit Let_def)

lemma fnb_inner_Inl:
  "fnb_inner w cur max_bit invert res = Inl r \<Longrightarrow>
    \<exists>k. r = res + k \<and> cur + k \<le> max_bit \<and> bit w (cur + k) \<noteq> invert \<and>
        (\<forall>j < k. bit w (cur + j) = invert)"
proof (induction "Suc max_bit - cur" arbitrary: cur res)
  case 0
  then show ?case by (simp add: fnb_inner_unfold)
next
  case (Suc d)
  show ?case
  proof (cases "bit w cur = invert")
    case True
    with Suc.prems have "fnb_inner w (Suc cur) max_bit invert (Suc res) = Inl r"
      by (auto simp: fnb_inner_unfold [of w cur] split: if_splits)
    moreover have "d = Suc max_bit - Suc cur" using Suc.hyps(2) by simp
    ultimately obtain k where k: "r = Suc res + k" "Suc cur + k \<le> max_bit"
      "bit w (Suc cur + k) \<noteq> invert" "\<forall>j < k. bit w (Suc cur + j) = invert"
      using Suc.hyps(1) by blast
    have "bit w (cur + j) = invert" if "j < Suc k" for j
      using that k(4) True by (cases j) auto
    with k show ?thesis by (intro exI [of _ "Suc k"]) auto
  next
    case False
    with Suc.prems show ?thesis
      by (auto simp: fnb_inner_unfold [of w cur] split: if_splits)
  qed
qed

lemma fnb_inner_Inr:
  "fnb_inner w cur max_bit invert res = Inr r \<Longrightarrow> cur \<le> Suc max_bit \<Longrightarrow>
    r + cur = res + Suc max_bit \<and> (\<forall>j. cur \<le> j \<longrightarrow> j \<le> max_bit \<longrightarrow> bit w j = invert)"
proof (induction "Suc max_bit - cur" arbitrary: cur res)
  case 0
  then show ?case by (auto simp: fnb_inner_unfold)
next
  case (Suc d)
  then have "bit w cur = invert" "fnb_inner w (Suc cur) max_bit invert (Suc res) = Inr r"
    by (auto simp: fnb_inner_unfold [of w cur] split: if_splits)
  moreover have "d = Suc max_bit - Suc cur" "Suc cur \<le> Suc max_bit" using Suc.hyps(2) by simp_all
  ultimately have IH: "r + Suc cur = Suc res + Suc max_bit"
    "\<forall>j. Suc cur \<le> j \<longrightarrow> j \<le> max_bit \<longrightarrow> bit w j = invert"
    using Suc.hyps(1) by blast+
  with \<open>bit w cur = invert\<close> show ?case
    by (metis Suc_leI add_Suc add_Suc_right nat.inject le_neq_implies_less)
qed

lemma bit_of_word: "k < 64 \<Longrightarrow> bit_of p (64 * e + k) = bit (p e) k"
  by (simp add: bit_of_def BITS_PER_LONG_def)

text \<open>One turn of the outer loop, over the bits \<open>[64 e + c, top]\<close> of long number \<open>e\<close>.\<close>

lemma fnb_outer_first:
  assumes "0 < sz" "c < 64" "64 * e + c \<le> sz"
  shows "first_bit p sz (64 * e + c) invert (fnb_outer p sz e c invert (64 * e + c))"
  using assms(2,3)
proof (induction "Suc ((sz - 1) div 64) - e" arbitrary: e c)
  case 0
  then have "sz \<le> 64 * e + c" using assms(1) by simp
  with 0 show ?case
    by (simp add: fnb_outer.simps [of p sz e] first_bit_def size_minus_1_def BITS_PER_LONG_def)
next
  case (Suc d)
  define top where "top = (if e < (sz - 1) div 64 then 63 else (sz - 1) mod 64)"
  have e: "e \<le> (sz - 1) div 64" using Suc.hyps(2) by arith
  have top: "top < 64" "64 * e + top < sz" "e < (sz - 1) div 64 \<or> 64 * e + Suc top = sz"
    using e assms(1) by (cases "e < (sz - 1) div 64"; simp add: top_def; presburger)+
  let ?i = "fnb_inner (p e) c top invert (64 * e + c)"
  have unfold: "fnb_outer p sz e c invert (64 * e + c) =
      (case ?i of Inl r \<Rightarrow> r | Inr r \<Rightarrow> fnb_outer p sz (Suc e) 0 invert r)"
    using e assms(1)
    by (simp add: fnb_outer.simps [of p sz e] size_minus_1_def BITS_PER_LONG_def top_def
             split: sum.split)
  show ?case
  proof (cases ?i)
    case (Inl r)
    from fnb_inner_Inl [OF Inl] obtain k where k: "r = 64 * e + c + k" "c + k \<le> top"
      "bit (p e) (c + k) \<noteq> invert" "\<forall>j < k. bit (p e) (c + j) = invert" by auto
    have "bit_of p n = invert" if "64 * e + c \<le> n" "n < r" for n
    proof -
      from that k(1) obtain j where j: "n = 64 * e + (c + j)" "j < k"
        by (metis add.assoc add_less_cancel_left le_Suc_ex)
      with k(2) top(1) bit_of_word [of "c + j" p e] k(4) show ?thesis by simp
    qed
    with k top bit_of_word [of "c + k" p e] show ?thesis
      by (auto simp: unfold Inl first_bit_def add.assoc)
  next
    case (Inr r)
    have "c \<le> Suc top" using Suc.prems top by (auto simp: top_def split: if_splits)
    from fnb_inner_Inr [OF Inr this] have r: "r = 64 * e + Suc top"
      and all: "\<And>j. c \<le> j \<Longrightarrow> j \<le> top \<Longrightarrow> bit (p e) j = invert" by auto
    have same: "bit_of p n = invert" if n: "64 * e + c \<le> n" "n < r" for n
    proof -
      from n(1) obtain j where j: "n = 64 * e + (c + j)" by (metis add.assoc le_Suc_ex)
      with n(2) r top(1) have "c + j \<le> top" "c + j < 64" by auto
      with all [of "c + j"] j bit_of_word [of "c + j" p e] show ?thesis by simp
    qed
    show ?thesis
    proof (cases "e < (sz - 1) div 64")
      case True
      then have r64: "r = 64 * Suc e + 0" "64 * Suc e + 0 \<le> sz" by (auto simp: r top_def)
      from Suc.hyps(1) [of "Suc e" 0] Suc.hyps(2) r64(2)
      have "first_bit p sz r invert (fnb_outer p sz (Suc e) 0 invert r)" by (simp add: r64)
      moreover have "64 * e + c \<le> r" using r \<open>c \<le> Suc top\<close> by simp
      ultimately show ?thesis using same by (simp add: unfold Inr first_bit_extend)
    next
      case False
      with e top(3) r have "r = sz" "\<not> Suc e \<le> (sz - 1) div 64" by auto
      with assms(1) have "fnb_outer p sz (Suc e) 0 invert r = sz"
        by (simp add: fnb_outer.simps [of p sz "Suc e"] size_minus_1_def BITS_PER_LONG_def)
      with same \<open>r = sz\<close> Suc.prems(2) show ?thesis by (simp add: first_bit_def unfold Inr)
    qed
  qed
qed

lemma find_next_bit_helper_first:
  "0 < sz \<Longrightarrow> start \<le> sz \<Longrightarrow> first_bit p sz start invert (find_next_bit_helper p sz start invert)"
  using fnb_outer_first [of sz "start mod 64" "start div 64" p invert]
  by (simp add: find_next_bit_helper_def BITS_PER_LONG_def)

section \<open>Lowest set bit\<close>

text \<open>One \<^verbatim>\<open>if\<close> of the cascade: skip \<open>k\<close> zero bits if the low \<open>k\<close> bits are all zero.\<close>

definition skip_low :: "nat \<Rightarrow> nat \<times> u64 \<Rightarrow> nat \<times> u64" where
  "skip_low k = (\<lambda>(n, w). if w AND mask k = 0 then (n + k, drop_bit k w) else (n, w))"

text \<open>\<open>n\<close> low bits of \<open>x\<close> are zero, \<open>w\<close> is the rest, and a set bit is among its low \<open>k\<close>.\<close>

definition low_inv :: "u64 \<Rightarrow> nat \<Rightarrow> nat \<times> u64 \<Rightarrow> bool" where
  "low_inv x k = (\<lambda>(n, w). w = drop_bit n x \<and> (\<forall>i < n. \<not> bit x i) \<and> (\<exists>i < k. bit w i))"

lemma and_mask_zero: "(w :: u64) AND mask k = 0 \<longleftrightarrow> (\<forall>i < k. \<not> bit w i)"
  using bit_imp_le_length [of w] by (force simp: bit_eq_iff bit_simps)

lemma skip_low_inv:
  assumes "low_inv x (2 * k) (n, w)"
  shows "low_inv x k (skip_low k (n, w))"
proof (cases "w AND mask k = 0")
  case True
  then have z: "\<forall>i < k. \<not> bit w i" by (simp add: and_mask_zero)
  from assms obtain j where j: "j < 2 * k" "bit w j" and w: "w = drop_bit n x" and n: "\<forall>i < n. \<not> bit x i"
    by (auto simp: low_inv_def)
  have "\<not> bit x i" if "i < n + k" for i
    using that n z w by (cases "i < n") (auto simp: bit_simps le_add_diff_inverse not_less dest!: spec [of _ "i - n"])
  moreover have "j - k < k \<and> bit (drop_bit k w) (j - k)"
    using j z by (auto simp: bit_simps not_less) (metis le_add_diff_inverse not_less)
  ultimately show ?thesis using True w
    by (auto simp: skip_low_def low_inv_def add.commute)
next
  case False
  with assms show ?thesis by (auto simp: skip_low_def low_inv_def and_mask_zero)
qed


lemma mask_consts:
  "(0xffffffff :: u64) = mask 32" "(0xffff :: u64) = mask 16" "(0xff :: u64) = mask 8"
  "(0xf :: u64) = mask 4" "(3 :: u64) = mask 2" "(1 :: u64) = mask 1"
  by (simp_all add: mask_eq_exp_minus_1)

lemma skip_low_eq:
  "(if w AND mask k = 0 then (n + k, drop_bit k w) else (n, w)) = skip_low k (n, w)"
  by (simp add: skip_low_def)

lemma skip_low_fst:
  "(if snd s AND mask k = 0 then fst s + k else fst s) = fst (skip_low k s)"
  by (cases s) (simp add: skip_low_def)

lemma uu_ffs_cascade:
  "uu_ffs x = fst (skip_low 1 (skip_low 2 (skip_low 4 (skip_low 8 (skip_low 16 (skip_low 32 (0, x)))))))"
  unfolding uu_ffs_def mask_consts skip_low_eq Let_def
  by (simp only: split_def prod.collapse skip_low_fst)

lemma skip_low_Suc: "skip_low k (Suc n, w) = (Suc (fst (skip_low k (n, w))), snd (skip_low k (n, w)))"
  by (simp add: skip_low_def)

lemma ffs_cascade: "x \<noteq> 0 \<Longrightarrow> ffs x = Suc (uu_ffs x)"
  unfolding uu_ffs_cascade ffs_def mask_consts skip_low_eq Let_def
  by (simp only: split_def prod.collapse if_False skip_low_Suc One_nat_def fst_conv snd_conv)

lemma low_inv_chain: "low_inv x (2 * k) s \<Longrightarrow> low_inv x k (skip_low k s)"
  using skip_low_inv by (cases s) auto

lemmas low_inv_steps = low_inv_chain [of _ 32, simplified] low_inv_chain [of _ 16, simplified]
  low_inv_chain [of _ 8, simplified] low_inv_chain [of _ 4, simplified]
  low_inv_chain [of _ 2, simplified] low_inv_chain [of _ 1, simplified]

lemma uu_ffs_lowest:
  assumes "x \<noteq> 0"
  shows "bit x (uu_ffs x) \<and> (\<forall>i < uu_ffs x. \<not> bit x i)"
proof -
  have "low_inv x 64 (0, x)" using assms by (auto simp: low_inv_def word_nonzero_bit)
  then have "low_inv x 1 (skip_low 1 (skip_low 2 (skip_low 4 (skip_low 8 (skip_low 16 (skip_low 32 (0, x)))))))"
    by (simp add: low_inv_steps)
  then show ?thesis unfolding uu_ffs_cascade
    by (auto simp: low_inv_def bit_simps split: prod.splits)
qed

section \<open>Highest set bit\<close>

definition skip_high :: "nat \<Rightarrow> nat \<times> u64 \<Rightarrow> nat \<times> u64" where
  "skip_high k = (\<lambda>(n, w). if w AND push_bit (64 - k) (NOT 0) = 0 then (n - k, push_bit k w) else (n, w))"

definition high_inv :: "u64 \<Rightarrow> nat \<Rightarrow> nat \<times> u64 \<Rightarrow> bool" where
  "high_inv x k = (\<lambda>(n, w). n < 64 \<and> w = push_bit (63 - n) x \<and> (\<forall>i > n. \<not> bit x i) \<and>
     (\<exists>i < k. bit w (63 - i)))"

lemma and_high_zero:
  "k \<le> 64 \<Longrightarrow> (w :: u64) AND push_bit (64 - k) (NOT 0) = 0 \<longleftrightarrow> (\<forall>i < 64. 64 - k \<le> i \<longrightarrow> \<not> bit w i)"
  by (auto simp: bit_eq_iff bit_simps)

lemma skip_high_inv:
  assumes inv: "high_inv x (2 * k) (n, w)" and k: "0 < k" "2 * k \<le> 64"
  shows "high_inv x k (skip_high k (n, w))"
proof (cases "w AND push_bit (64 - k) (NOT 0) = 0")
  case True
  then have z: "\<And>i. i < 64 \<Longrightarrow> 64 - k \<le> i \<Longrightarrow> \<not> bit w i" using k by (subst (asm) and_high_zero) auto
  from inv obtain j where j: "j < 2 * k" "bit w (63 - j)"
    and n: "n < 64" and w: "w = push_bit (63 - n) x" and top: "\<forall>i > n. \<not> bit x i"
    by (auto simp: high_inv_def)
  have jk: "k \<le> j"
  proof (rule ccontr)
    assume "\<not> k \<le> j"
    then have "64 - k \<le> 63 - j" using k by linarith
    with z j(2) show False by force
  qed
  have kn: "k \<le> n"
    using j(2) w jk k j(1) by (auto simp: bit_simps)
  have "\<not> bit x i" if "n - k < i" for i
  proof (cases "n < i")
    case False
    with z [of "i + (63 - n)"] that kn n w show ?thesis by (auto simp: bit_simps)
  qed (use top in auto)
  moreover have "bit (push_bit k w) (63 - (j - k))"
    using j jk k by (auto simp: bit_simps)
  moreover have "push_bit k w = push_bit (63 - (n - k)) x"
    using w kn n by (simp add: add.commute)
  ultimately show ?thesis using True n j jk k
    by (auto simp: skip_high_def high_inv_def intro!: exI [of _ "j - k"])
next
  case False
  with k obtain i where "i < 64" "64 - k \<le> i" "bit w i" by (subst (asm) and_high_zero) auto
  then have "63 - i < k \<and> bit w (63 - (63 - i))" by auto
  with inv False show ?thesis by (auto simp: skip_high_def high_inv_def)
qed


lemma skip_high_fst:
  "(if snd s AND push_bit (64 - k) (NOT 0) = 0 then fst s - k else fst s) = fst (skip_high k s)"
  by (cases s) (simp add: skip_high_def)

lemma skip_high_eq:
  "(if w AND push_bit (64 - k) (NOT 0) = 0 then (n - k, push_bit k w) else (n, w)) = skip_high k (n, w)"
  by (simp add: skip_high_def)

lemma uu_fls_cascade:
  "uu_fls x = fst (skip_high 1 (skip_high 2 (skip_high 4 (skip_high 8 (skip_high 16 (skip_high 32 (63, x)))))))"
proof -
  have 32: "push_bit 32 (NOT 0) = (push_bit (64 - 32) (NOT 0) :: u64)" by simp
  show ?thesis
    unfolding uu_fls_def BITS_PER_LONG_def Let_def 32
    by (simp only: skip_high_eq split_def prod.collapse skip_high_fst) simp
qed

lemma high_inv_chain:
  "high_inv x (2 * k) s \<Longrightarrow> 0 < k \<Longrightarrow> 2 * k \<le> 64 \<Longrightarrow> high_inv x k (skip_high k s)"
  using skip_high_inv by (cases s) auto

lemmas high_inv_steps = high_inv_chain [of _ 32, simplified] high_inv_chain [of _ 16, simplified]
  high_inv_chain [of _ 8, simplified] high_inv_chain [of _ 4, simplified]
  high_inv_chain [of _ 2, simplified] high_inv_chain [of _ 1, simplified]

lemma uu_fls_highest:
  assumes "x \<noteq> 0"
  shows "bit x (uu_fls x) \<and> (\<forall>i > uu_fls x. \<not> bit x i)"
proof -
  obtain i where i: "i < 64" "bit x i" using assms by (auto simp: word_nonzero_bit)
  have "\<exists>j < 64. bit x (63 - j)" using i by (intro exI [of _ "63 - i"]) auto
  then have "high_inv x 64 (63, x)" by (auto simp: high_inv_def dest: bit_imp_le_length)
  then have "high_inv x 1 (skip_high 1 (skip_high 2 (skip_high 4 (skip_high 8 (skip_high 16 (skip_high 32 (63, x)))))))"
    by (simp add: high_inv_steps)
  then show ?thesis unfolding uu_fls_cascade
    by (auto simp: high_inv_def bit_simps split: prod.splits)
qed

section \<open>Sizes in pages\<close>

lemma highest_bit_bounds:
  assumes "bit (x :: u64) n" "\<forall>i > n. \<not> bit x i"
  shows "2 ^ n \<le> unat x \<and> unat x < 2 ^ Suc n"
proof -
  have "take_bit (Suc n) x = x"
    by (rule bit_word_eqI) (use assms in \<open>auto simp: bit_simps not_less less_Suc_eq_le\<close>)
  then have lt: "unat x < 2 ^ Suc n"
    by (metis take_bit_nat_less_exp unsigned_take_bit_eq)
  have "odd (unat x div 2 ^ n)"
    using assms(1) by (simp add: bit_unsigned_iff flip: bit_iff_odd)
  then have "2 ^ n \<le> unat x" by (metis div_less even_zero not_less)
  with lt show ?thesis by simp
qed

lemma fls64_bounds: "unat x < 2 ^ fls64 x \<and> (fls64 x \<noteq> 0 \<longrightarrow> 2 ^ (fls64 x - 1) \<le> unat x)"
  using highest_bit_bounds [of x "uu_fls x"] uu_fls_highest [of x]
  by (auto simp: fls64_def)


text \<open>\<^verbatim>\<open>get_order\<close> is the least order of a block of pages that can hold \<open>size\<close> bytes.\<close>

lemma get_order_least:
  assumes "0 < sz"
  shows "unat sz \<le> 4096 * 2 ^ get_order sz \<and>
    (get_order sz \<noteq> 0 \<longrightarrow> 4096 * 2 ^ (get_order sz - 1) < unat sz)"
proof -
  define q where "q = drop_bit 12 (sz - 1)"
  have s: "unat (sz - 1) = unat sz - 1" "0 < unat sz"
    using assms by (auto simp: unat_minus_one word_gt_0 unat_gt_0)
  have q: "unat q = (unat sz - 1) div 4096" by (simp add: q_def unat_drop_bit_div s)
  from fls64_bounds [of q] have b: "(unat sz - 1) div 4096 < 2 ^ fls64 q"
    "fls64 q \<noteq> 0 \<Longrightarrow> 2 ^ (fls64 q - 1) \<le> (unat sz - 1) div 4096" by (auto simp: q)
  have "unat sz - 1 < 4096 * 2 ^ fls64 q"
    using b(1) by (simp add: div_less_iff_less_mult mult.commute)
  moreover have "4096 * 2 ^ (fls64 q - 1) \<le> unat sz - 1" if "fls64 q \<noteq> 0"
    using b(2) [OF that] by (simp add: less_eq_div_iff_mult_less_eq mult.commute)
  ultimately show ?thesis
    using s(2) unfolding get_order_def PGSHIFT_def q_def by fastforce
qed

lemma page_mask: "PGSIZE - 1 = mask 12" "PAGE_MASK = NOT (mask 12)"
  by (simp_all add: PGSIZE_def PAGE_MASK_def mask_eq_exp_minus_1)

lemma PGROUNDDOWN_unat: "unat (PGROUNDDOWN a) = unat a - unat a mod 4096"
  by (simp add: PGROUNDDOWN_def page_mask unat_and_not_mask)

lemma unat_plus_4095: "unat a + 4095 < 2 ^ 64 \<Longrightarrow> unat (a + PGSIZE - 1) = unat a + 4095"
  by (simp add: PGSIZE_def add_diff_eq flip: add_diff_eq) (simp add: unat_word_ariths)

text \<open>Rounding up gives the least multiple of the page size that is not below \<open>a\<close>.\<close>

lemma PGROUNDUP_unat:
  assumes "unat a + 4095 < 2 ^ 64"
  shows "unat (PGROUNDUP a) = (unat a + 4095) div 4096 * 4096"
proof -
  have "unat (PGROUNDUP a) = (unat a + 4095) - (unat a + 4095) mod 4096"
    by (simp add: PGROUNDUP_def page_mask unat_and_not_mask unat_plus_4095 [OF assms])
  then show ?thesis by (simp add: minus_mod_eq_div_mult)
qed

lemma PAGE_ALIGN_eq: "PAGE_ALIGN a = PGROUNDUP a"
  by (simp add: PAGE_ALIGN_def PGROUNDUP_def PAGE_MASK_def)

lemma PFN_UP_unat: "unat a + 4095 < 2 ^ 64 \<Longrightarrow> unat (PFN_UP a) = (unat a + 4095) div 4096"
  by (simp add: PFN_UP_def PGSHIFT_def unat_drop_bit_div unat_plus_4095)

lemma PFN_DOWN_unat: "unat (PFN_DOWN a) = unat a div 4096"
  by (simp add: PFN_DOWN_def PGSHIFT_def unat_drop_bit_div)

end
