(* ===== verification/Lists.thy ===== *)
theory Lists
  imports Prelude
begin

text \<open>
  The intrusive circular doubly linked lists of \<^verbatim>\<open>kernel/list.h\<close>, over an explicit store that
  maps addresses to \<^verbatim>\<open>struct list_head\<close> cells (address 0 is \<^verbatim>\<open>NULL\<close>). The predicate \<open>dll\<close>
  relates a list head in the store to the HOL list of the entries linked behind it; every
  operation is shown to act on that list as its name says. The contract is the locale
  \<open>kernel_list\<close>, which the components that keep such lists (the buddy free lists, the run queue,
  the wait queues, the timer list) rely on when they model a list as a HOL list.
\<close>

section \<open>Cells and operations\<close>

record list_head =
  nxt :: nat
  prv :: nat

type_synonym list_store = "nat \<Rightarrow> list_head"

definition set_next :: "nat \<Rightarrow> nat \<Rightarrow> list_store \<Rightarrow> list_store" where
  "set_next a v h = h(a := (h a)\<lparr>nxt := v\<rparr>)"

definition set_prev :: "nat \<Rightarrow> nat \<Rightarrow> list_store \<Rightarrow> list_store" where
  "set_prev a v h = h(a := (h a)\<lparr>prv := v\<rparr>)"

definition INIT_LIST_HEAD :: "nat \<Rightarrow> list_store \<Rightarrow> list_store" where
  "INIT_LIST_HEAD l h = set_prev l l (set_next l l h)"

definition list_is_head :: "nat \<Rightarrow> nat \<Rightarrow> bool" where
  "list_is_head l head = (l = head)"

definition uu_list_add :: "nat \<Rightarrow> nat \<Rightarrow> nat \<Rightarrow> list_store \<Rightarrow> list_store" where
  "uu_list_add new p n h = set_next p new (set_prev new p (set_next new n (set_prev n new h)))"

definition list_add :: "nat \<Rightarrow> nat \<Rightarrow> list_store \<Rightarrow> list_store" where
  "list_add new head h = uu_list_add new head (nxt (h head)) h"

definition list_add_tail :: "nat \<Rightarrow> nat \<Rightarrow> list_store \<Rightarrow> list_store" where
  "list_add_tail new head h = uu_list_add new (prv (h head)) head h"

definition uu_list_del :: "nat \<Rightarrow> nat \<Rightarrow> list_store \<Rightarrow> list_store" where
  "uu_list_del p n h = set_next p n (set_prev n p h)"

definition uu_list_del_entry :: "nat \<Rightarrow> list_store \<Rightarrow> list_store" where
  "uu_list_del_entry e h = uu_list_del (prv (h e)) (nxt (h e)) h"

definition list_del :: "nat \<Rightarrow> list_store \<Rightarrow> list_store" where
  "list_del e h = set_prev e 0 (set_next e 0 (uu_list_del_entry e h))"

definition list_replace :: "nat \<Rightarrow> nat \<Rightarrow> list_store \<Rightarrow> list_store" where
  "list_replace old new h =
     (let h = set_next new (nxt (h old)) h;
          h = set_prev (nxt (h new)) new h;
          h = set_prev new (prv (h old)) h
      in set_next (prv (h new)) new h)"

definition list_empty :: "nat \<Rightarrow> list_store \<Rightarrow> bool" where
  "list_empty head h = (nxt (h head) = head)"

definition list_del_init_careful :: "nat \<Rightarrow> list_store \<Rightarrow> list_store" where
  "list_del_init_careful e h = set_next e e (set_prev e e (uu_list_del_entry e h))"

definition list_empty_careful :: "nat \<Rightarrow> list_store \<Rightarrow> bool" where
  "list_empty_careful head h = (list_is_head (nxt (h head)) head \<and> nxt (h head) = prv (h head))"

definition list_del_init :: "nat \<Rightarrow> list_store \<Rightarrow> list_store" where
  "list_del_init e h = INIT_LIST_HEAD e (uu_list_del_entry e h)"

text \<open>
  The entries a \<^verbatim>\<open>list_for_each\<close> loop visits, in order; \<open>None\<close> when the fuel runs out before
  the head comes round again.
\<close>

fun list_for_each :: "nat \<Rightarrow> list_store \<Rightarrow> nat \<Rightarrow> nat \<Rightarrow> nat list option" where
  "list_for_each 0 h head pos = None"
| "list_for_each (Suc fuel) h head pos =
     (if list_is_head pos head then Some []
      else map_option (Cons pos) (list_for_each fuel h head (nxt (h pos))))"

section \<open>Abstraction to HOL lists\<close>

text \<open>\<open>seg h a xs b\<close>: from cell \<open>a\<close> the links lead through \<open>xs\<close> to cell \<open>b\<close> and back.\<close>

fun seg :: "list_store \<Rightarrow> nat \<Rightarrow> nat list \<Rightarrow> nat \<Rightarrow> bool" where
  "seg h a [] b \<longleftrightarrow> nxt (h a) = b \<and> prv (h b) = a"
| "seg h a (x # xs) b \<longleftrightarrow> nxt (h a) = x \<and> prv (h x) = a \<and> seg h x xs b"

definition dll :: "list_store \<Rightarrow> nat \<Rightarrow> nat list \<Rightarrow> bool" where
  "dll h head xs \<longleftrightarrow> distinct (head # xs) \<and> seg h head xs head"

lemmas link_defs = set_next_def set_prev_def

lemma seg_append: "seg h a (xs @ y # ys) b \<longleftrightarrow> seg h a xs y \<and> seg h y ys b"
  by (induction xs arbitrary: a) auto

text \<open>A segment only reads \<open>nxt\<close> of its start and inner cells and \<open>prv\<close> of its inner cells and end.\<close>

lemma seg_cong:
  "(\<And>c. c \<in> insert a (set xs) \<Longrightarrow> nxt (h' c) = nxt (h c)) \<Longrightarrow>
   (\<And>c. c \<in> insert b (set xs) \<Longrightarrow> prv (h' c) = prv (h c)) \<Longrightarrow> seg h' a xs b = seg h a xs b"
proof (induction xs arbitrary: a)
  case Nil
  then show ?case by simp
next
  case (Cons x xs)
  from Cons.prems have "seg h' x xs b = seg h x xs b" by (intro Cons.IH) auto
  with Cons.prems show ?case by simp
qed

lemma seg_set_next [simp]: "c \<notin> insert a (set xs) \<Longrightarrow> seg (set_next c v h) a xs b = seg h a xs b"
  by (rule seg_cong) (auto simp: set_next_def)

lemma seg_set_prev [simp]: "c \<notin> insert b (set xs) \<Longrightarrow> seg (set_prev c v h) a xs b = seg h a xs b"
  by (rule seg_cong) (auto simp: set_prev_def)

lemma nxt_upd [simp]: "nxt (set_next c v h a) = (if a = c then v else nxt (h a))"
    "prv (set_next c v h a) = prv (h a)" "nxt (set_prev c v h a) = nxt (h a)"
    "prv (set_prev c v h a) = (if a = c then v else prv (h a))"
  by (auto simp: link_defs)

lemma dll_frame:
  "dll h head xs \<Longrightarrow> (\<And>c. c \<in> insert head (set xs) \<Longrightarrow> h' c = h c) \<Longrightarrow> dll h' head xs"
  using seg_cong [of head xs h' h head] by (simp add: dll_def)

lemma dll_init: "dll (INIT_LIST_HEAD l h) l []"
  by (simp add: dll_def INIT_LIST_HEAD_def link_defs)

lemma dll_empty: "dll h head xs \<Longrightarrow> list_empty head h = (xs = [])"
  by (cases xs) (auto simp: dll_def list_empty_def)

lemma dll_first: "dll h head (x # xs) \<Longrightarrow> nxt (h head) = x"
  by (simp add: dll_def)

lemma dll_last: "dll h head (xs @ [x]) \<Longrightarrow> prv (h head) = x"
  by (simp add: dll_def seg_append)

text \<open>Linking a new cell between two neighbours, and unlinking a cell.\<close>

lemma dll_link:
  assumes "dll h head (xs @ ys)" "new \<notin> set (head # xs @ ys)"
  shows "dll (uu_list_add new (last (head # xs)) (hd (ys @ [head])) h) head (xs @ new # ys)"
  using assms
  by (cases xs rule: rev_cases; cases ys) (auto simp: dll_def uu_list_add_def seg_append)

lemma dll_neighbours:
  "dll h head (xs @ e # ys) \<Longrightarrow> prv (h e) = last (head # xs) \<and> nxt (h e) = hd (ys @ [head])"
  by (cases xs rule: rev_cases; cases ys) (auto simp: dll_def seg_append)

lemma dll_unlink:
  assumes "dll h head (xs @ e # ys)"
  shows "dll (uu_list_del_entry e h) head (xs @ ys)"
  using assms dll_neighbours [OF assms]
  by (cases xs rule: rev_cases; cases ys)
     (auto simp: dll_def uu_list_del_entry_def uu_list_del_def seg_append)

lemma dll_add: "dll h head xs \<Longrightarrow> new \<notin> set (head # xs) \<Longrightarrow> dll (list_add new head h) head (new # xs)"
  using dll_link [of h head "[]" xs new]
  by (cases xs) (auto simp: list_add_def dll_def)

lemma dll_add_tail:
  "dll h head xs \<Longrightarrow> new \<notin> set (head # xs) \<Longrightarrow> dll (list_add_tail new head h) head (xs @ [new])"
  using dll_link [of h head xs "[]" new] dll_last [of h head "butlast xs" "last xs"]
  by (cases xs rule: rev_cases) (auto simp: list_add_tail_def dll_def)

lemma dll_set_other: "dll h head xs \<Longrightarrow> e \<notin> set (head # xs) \<Longrightarrow> dll (set_prev e v (set_next e w h)) head xs"
  by (erule dll_frame) (auto simp: link_defs)

lemma dll_del_split: "dll h head (xs @ e # ys) \<Longrightarrow> dll (list_del e h) head (xs @ ys)"
  unfolding list_del_def by (rule dll_set_other, erule dll_unlink) (auto simp: dll_def)

lemma dll_del_init_split: "dll h head (xs @ e # ys) \<Longrightarrow> dll (list_del_init e h) head (xs @ ys)"
  unfolding list_del_init_def INIT_LIST_HEAD_def
  by (rule dll_set_other, erule dll_unlink) (auto simp: dll_def)

lemma dll_del:
  assumes "dll h head xs" "e \<in> set xs"
  shows "dll (list_del e h) head (remove1 e xs)"
proof -
  from assms(2) obtain us vs where xs: "xs = us @ e # vs" "e \<notin> set us"
    by (metis split_list_first)
  with assms(1) dll_del_split [of h head us e vs] show ?thesis
    by (simp add: remove1_append)
qed

text \<open>Removing and re-initialising an entry leaves it an empty list of its own.\<close>

lemma dll_del_init_self: "dll (list_del_init e h) e []"
  by (simp add: list_del_init_def dll_init)

lemma list_empty_careful_del_init: "list_empty_careful e (list_del_init_careful e h)"
  by (simp add: list_empty_careful_def list_is_head_def list_del_init_careful_def)

text \<open>\<^verbatim>\<open>list_replace\<close> puts the new cell where the old one was.\<close>

lemma dll_replace:
  assumes "dll h head (xs @ old # ys)" "new \<notin> set (head # xs @ old # ys)"
  shows "dll (list_replace old new h) head (xs @ new # ys)"
  using assms dll_neighbours [OF assms(1)]
  by (cases xs rule: rev_cases; cases ys)
     (auto simp: dll_def list_replace_def Let_def seg_append)

text \<open>Cells outside the list and the inserted or removed cell are not written.\<close>

lemma list_add_frame: "c \<notin> insert new (insert head (set xs)) \<Longrightarrow> dll h head xs \<Longrightarrow> list_add new head h c = h c"
  by (cases xs) (auto simp: list_add_def uu_list_add_def link_defs dll_def)

lemma list_add_tail_frame:
  "c \<notin> insert new (insert head (set xs)) \<Longrightarrow> dll h head xs \<Longrightarrow> list_add_tail new head h c = h c"
  by (cases xs rule: rev_cases) (auto simp: list_add_tail_def uu_list_add_def link_defs dll_def seg_append)

lemma list_del_frame:
  assumes "dll h head xs" "e \<in> set xs" "c \<notin> insert head (set xs)"
  shows "list_del e h c = h c"
proof -
  from assms(2) obtain us vs where xs: "xs = us @ e # vs" by (metis split_list)
  from assms dll_neighbours [of h head us e vs] show ?thesis
    by (cases us rule: rev_cases; cases vs)
       (auto simp: xs list_del_def uu_list_del_entry_def uu_list_del_def link_defs)
qed

lemma list_for_each_seg:
  "seg h a xs head \<Longrightarrow> head \<notin> set xs \<Longrightarrow> length xs < fuel \<Longrightarrow>
   list_for_each fuel h head (nxt (h a)) = Some xs"
proof (induction xs arbitrary: a fuel)
  case Nil
  then show ?case by (cases fuel) (auto simp: list_is_head_def)
next
  case (Cons x xs)
  then obtain n where "fuel = Suc n" by (cases fuel) auto
  with Cons show ?case by (auto simp: list_is_head_def)
qed

lemma list_for_each_dll:
  "dll h head xs \<Longrightarrow> length xs < fuel \<Longrightarrow> list_for_each fuel h head (nxt (h head)) = Some xs"
  by (rule list_for_each_seg) (auto simp: dll_def)

section \<open>The contract\<close>

text \<open>
  What a client may assume of a list: \<open>repr s head xs\<close> says that in store \<open>s\<close> the list at
  \<open>head\<close> holds \<open>xs\<close>.
\<close>

locale kernel_list =
  fixes repr :: "'s \<Rightarrow> 'a \<Rightarrow> 'a list \<Rightarrow> bool"
    and add add_tail :: "'a \<Rightarrow> 'a \<Rightarrow> 's \<Rightarrow> 's"
    and del :: "'a \<Rightarrow> 's \<Rightarrow> 's"
    and is_empty :: "'a \<Rightarrow> 's \<Rightarrow> bool"
    and first :: "'a \<Rightarrow> 's \<Rightarrow> 'a"
  assumes repr_distinct: "repr s head xs \<Longrightarrow> distinct (head # xs)"
    and repr_add: "repr s head xs \<Longrightarrow> x \<notin> set (head # xs) \<Longrightarrow> repr (add x head s) head (x # xs)"
    and repr_add_tail:
      "repr s head xs \<Longrightarrow> x \<notin> set (head # xs) \<Longrightarrow> repr (add_tail x head s) head (xs @ [x])"
    and repr_del: "repr s head xs \<Longrightarrow> x \<in> set xs \<Longrightarrow> repr (del x s) head (remove1 x xs)"
    and repr_is_empty: "repr s head xs \<Longrightarrow> is_empty head s = (xs = [])"
    and repr_first: "repr s head (x # xs) \<Longrightarrow> first head s = x"
    and frame_add: "repr s head xs \<Longrightarrow> repr s head' ys \<Longrightarrow>
      set (x # head # xs) \<inter> set (head' # ys) = {} \<Longrightarrow> repr (add x head s) head' ys"
    and frame_add_tail: "repr s head xs \<Longrightarrow> repr s head' ys \<Longrightarrow>
      set (x # head # xs) \<inter> set (head' # ys) = {} \<Longrightarrow> repr (add_tail x head s) head' ys"
    and frame_del: "repr s head xs \<Longrightarrow> x \<in> set xs \<Longrightarrow> repr s head' ys \<Longrightarrow>
      set (head # xs) \<inter> set (head' # ys) = {} \<Longrightarrow> repr (del x s) head' ys"
begin

text \<open>Taking the first entry off, as \<^verbatim>\<open>__rmqueue\<close> does.\<close>

lemma pop_first:
  "repr s head (x # xs) \<Longrightarrow> first head s = x \<and> repr (del (first head s) s) head xs"
  using repr_del [of s head "x # xs" x] by (simp add: repr_first)

text \<open>A batch appended at the tail comes out in order.\<close>

lemma add_tail_all:
  "repr s head xs \<Longrightarrow> distinct ys \<Longrightarrow> set ys \<inter> set (head # xs) = {} \<Longrightarrow>
   repr (fold (\<lambda>y. add_tail y head) ys s) head (xs @ ys)"
proof (induction ys arbitrary: s xs)
  case Nil
  then show ?case by simp
next
  case (Cons y ys)
  then have "repr (add_tail y head s) head (xs @ [y])" by (auto intro: repr_add_tail)
  with Cons.prems have "repr (fold (\<lambda>y. add_tail y head) ys (add_tail y head s)) head ((xs @ [y]) @ ys)"
    by (intro Cons.IH) auto
  then show ?case by simp
qed

text \<open>Moving an entry from one list to the front of another.\<close>

lemma move_entry:
  assumes "repr s src (us @ x # vs)" "repr s dst ys" "set (src # us @ x # vs) \<inter> set (dst # ys) = {}"
  shows "repr (add x dst (del x s)) src (us @ vs) \<and> repr (add x dst (del x s)) dst (x # ys)"
proof -
  from assms(1) have d: "distinct (src # us @ x # vs)" by (rule repr_distinct)
  then have rm: "remove1 x (us @ x # vs) = us @ vs" by (simp add: remove1_append)
  from assms(1) repr_del [of s src "us @ x # vs" x] have src: "repr (del x s) src (us @ vs)"
    by (simp only: rm) simp
  from assms frame_del [of s src "us @ x # vs" x dst ys] have dst: "repr (del x s) dst ys" by simp
  from src dst d assms(3) frame_add [of "del x s" dst ys src "us @ vs" x] repr_add [of "del x s" dst ys x]
  show ?thesis by auto
qed

end

text \<open>The code of \<^verbatim>\<open>kernel/list.h\<close> fulfils the contract.\<close>

interpretation kl: kernel_list dll list_add list_add_tail list_del list_empty "\<lambda>head h. nxt (h head)"
proof
  fix h :: list_store and head xs
  assume "dll h head xs"
  then show "distinct (head # xs)" by (simp add: dll_def)
next
  fix h :: list_store and head xs head' ys x
  assume a: "dll h head xs" and b: "dll h head' ys" and d: "set (x # head # xs) \<inter> set (head' # ys) = {}"
  show "dll (list_add x head h) head' ys"
    using b by (rule dll_frame) (rule list_add_frame [OF _ a], use d in auto)
  show "dll (list_add_tail x head h) head' ys"
    using b by (rule dll_frame) (rule list_add_tail_frame [OF _ a], use d in auto)
next
  fix h :: list_store and head xs head' ys x
  assume a: "dll h head xs" "x \<in> set xs" and b: "dll h head' ys" and d: "set (head # xs) \<inter> set (head' # ys) = {}"
  show "dll (list_del x h) head' ys"
    using b by (rule dll_frame) (rule list_del_frame [OF a], use d in auto)
qed (auto simp: dll_add dll_add_tail dll_del dll_empty dll_first)

end
