(* ===== verification/Page_alloc.thy ===== *)
theory Page_alloc
  imports Bitops Lists
begin

text \<open>
  The buddy allocator of \<^verbatim>\<open>kernel/page_alloc.c\<close> over the frame table \<^verbatim>\<open>mem_map\<close>. A
  \<^verbatim>\<open>struct page *\<close> is the number of the frame it describes (\<^verbatim>\<open>page_to_pfn\<close>), pointer
  arithmetic on it is arithmetic on frame numbers. The free lists are the HOL lists that the
  operations of theory Lists maintain (\<^verbatim>\<open>list_add\<close> is consing, \<^verbatim>\<open>list_del\<close> removes the
  entry from whichever list holds it). There is one node and one zone (\<^verbatim>\<open>MAX_NR_ZONES\<close> is 1),
  whose fields are fields of \<open>pg_data\<close>; \<open>zone->lock\<close> serialises the operations and is not
  modelled here.

  \<open>buddy_inv m A\<close> is the invariant, for the set \<open>A\<close> of blocks handed out: free and handed-out
  blocks are aligned and pairwise disjoint, free blocks carry the buddy flag and their order, and
  a flagged page that heads no free block lies strictly inside a larger block. The last clause is
  what makes merging sound although \<^verbatim>\<open>__free_one_page\<close> leaves stale flags behind.
\<close>

section \<open>State\<close>

definition MAX_ORDER :: nat where
  "MAX_ORDER = 11"

definition PG_reserved :: nat where "PG_reserved = 1"
definition PG_buddy :: nat where "PG_buddy = 2"
definition PG_slab :: nat where "PG_slab = 3"

record page =
  flags :: u64
  pg_private :: nat
  refcount :: u32
  freelist :: u64
  slob_left_units :: int

record free_area =
  free_list :: "nat list"
  nr_free :: u64

record pg_data =
  node_id :: nat
  node_start_pfn :: u64
  node_spanned_pages :: u64
  node_mem_map :: u64
  zone_start_pfn :: u64
  spanned_pages :: u64
  area :: "nat \<Rightarrow> free_area"
  mem_map :: "nat \<Rightarrow> page"

definition upd_page :: "nat \<Rightarrow> (page \<Rightarrow> page) \<Rightarrow> pg_data \<Rightarrow> pg_data" where
  "upd_page p f m = m\<lparr>mem_map := (mem_map m)(p := f (mem_map m p))\<rparr>"

definition PageReserved :: "page \<Rightarrow> bool" where
  "PageReserved pg = (get_bit_ul PG_reserved (\<lambda>_. flags pg) = 1)"

definition SetPageReserved :: "page \<Rightarrow> page" where
  "SetPageReserved pg = pg\<lparr>flags := set_bit_ul PG_reserved (\<lambda>_. flags pg) 0\<rparr>"

definition PageBuddy :: "page \<Rightarrow> bool" where
  "PageBuddy pg = (get_bit_ul PG_buddy (\<lambda>_. flags pg) = 1)"

definition SetPageBuddy :: "page \<Rightarrow> page" where
  "SetPageBuddy pg = pg\<lparr>flags := set_bit_ul PG_buddy (\<lambda>_. flags pg) 0\<rparr>"

definition ClearPageBuddy :: "page \<Rightarrow> page" where
  "ClearPageBuddy pg = pg\<lparr>flags := clear_bit_ul PG_buddy (\<lambda>_. flags pg) 0\<rparr>"

definition PageSlab :: "page \<Rightarrow> bool" where
  "PageSlab pg = (get_bit_ul PG_slab (\<lambda>_. flags pg) = 1)"

definition SetPageSlab :: "page \<Rightarrow> page" where
  "SetPageSlab pg = pg\<lparr>flags := set_bit_ul PG_slab (\<lambda>_. flags pg) 0\<rparr>"

definition ClearPageSlab :: "page \<Rightarrow> page" where
  "ClearPageSlab pg = pg\<lparr>flags := clear_bit_ul PG_slab (\<lambda>_. flags pg) 0\<rparr>"

text \<open>\<^verbatim>\<open>list_add(&page->lru, &area->free_list)\<close> and \<^verbatim>\<open>list_del(&page->lru)\<close>.\<close>

definition lru_add :: "nat \<Rightarrow> nat \<Rightarrow> pg_data \<Rightarrow> pg_data" where
  "lru_add p ord m =
     m\<lparr>area := (area m)(ord := (area m ord)\<lparr>free_list := p # free_list (area m ord)\<rparr>)\<rparr>"

definition lru_del :: "nat \<Rightarrow> pg_data \<Rightarrow> pg_data" where
  "lru_del p m = m\<lparr>area := \<lambda>ord. (area m ord)\<lparr>free_list := remove1 p (free_list (area m ord))\<rparr>\<rparr>"

definition upd_nr_free :: "nat \<Rightarrow> (u64 \<Rightarrow> u64) \<Rightarrow> pg_data \<Rightarrow> pg_data" where
  "upd_nr_free ord f m =
     m\<lparr>area := (area m)(ord := (area m ord)\<lparr>nr_free := f (nr_free (area m ord))\<rparr>)\<rparr>"

section \<open>Initialisation\<close>

fun zone_init_free_lists :: "nat list \<Rightarrow> pg_data \<Rightarrow> pg_data" where
  "zone_init_free_lists [] m = m"
| "zone_init_free_lists (ord # ords) m =
     zone_init_free_lists ords
       (m\<lparr>area := (area m)(ord := (area m ord)\<lparr>free_list := [], nr_free := 0\<rparr>)\<rparr>)"

definition init_zone_free_area_list :: "pg_data \<Rightarrow> pg_data" where
  "init_zone_free_area_list m = zone_init_free_lists [0..<MAX_ORDER] m"

definition calculate_node_totalpages :: "u64 \<Rightarrow> u64 \<Rightarrow> pg_data \<Rightarrow> pg_data" where
  "calculate_node_totalpages start_pfn zone_size m =
     m\<lparr>zone_start_pfn := start_pfn, spanned_pages := zone_size, node_spanned_pages := 0 + zone_size\<rparr>"

section \<open>Freeing\<close>

definition clear_page_order :: "nat \<Rightarrow> pg_data \<Rightarrow> pg_data" where
  "clear_page_order p m = upd_page p (\<lambda>pg. ClearPageBuddy (pg\<lparr>pg_private := 0\<rparr>)) m"

definition page_is_buddy :: "page \<Rightarrow> nat \<Rightarrow> bool" where
  "page_is_buddy pg ord = (PageBuddy pg \<and> pg_private pg = ord)"

definition set_page_order :: "nat \<Rightarrow> nat \<Rightarrow> pg_data \<Rightarrow> pg_data" where
  "set_page_order p ord m = upd_page p (\<lambda>pg. SetPageBuddy (pg\<lparr>pg_private := ord\<rparr>)) m"

definition find_buddy_pfn :: "nat \<Rightarrow> nat \<Rightarrow> nat" where
  "find_buddy_pfn pfn ord = pfn XOR (2 ^ ord)"

text \<open>
  The merging loop of \<^verbatim>\<open>__free_one_page\<close>: the page it ends at and its order. Note that the
  order of \<open>page\<close> is cleared, not that of the buddy just taken off its list.
\<close>

function free_merge :: "pg_data \<Rightarrow> nat \<Rightarrow> nat \<Rightarrow> pg_data \<times> nat \<times> nat" where
  "free_merge m pfn ord =
     (if ord < MAX_ORDER - 1
      then let buddy_pfn = find_buddy_pfn pfn ord
           in if \<not> page_is_buddy (mem_map m buddy_pfn) ord then (m, pfn, ord)
              else let m = lru_del buddy_pfn m;
                       m = upd_nr_free ord (\<lambda>n. n - 1) m;
                       m = clear_page_order pfn m;
                       combined_pfn = buddy_pfn AND pfn
                   in free_merge m combined_pfn (ord + 1)
      else (m, pfn, ord))"
  by pat_completeness auto
termination
  by (relation "measure (\<lambda>(m, pfn, ord). MAX_ORDER - ord)") (auto simp: MAX_ORDER_def)

declare free_merge.simps [simp del]

definition uu_free_one_page :: "nat \<Rightarrow> nat \<Rightarrow> pg_data \<Rightarrow> pg_data" where
  "uu_free_one_page pfn ord m =
     (let (m, page, ord) = free_merge m pfn ord;
          m = set_page_order page ord m;
          m = lru_add page ord m
      in upd_nr_free ord (\<lambda>n. n + 1) m)"

definition free_pages_ok :: "nat \<Rightarrow> nat \<Rightarrow> pg_data \<Rightarrow> pg_data" where
  "free_pages_ok page ord m = uu_free_one_page page ord m"

definition uu_free_pages :: "nat \<Rightarrow> nat \<Rightarrow> pg_data \<Rightarrow> pg_data" where
  "uu_free_pages page ord m =
     (let m = upd_page page (\<lambda>pg. pg\<lparr>refcount := refcount pg - 1\<rparr>) m
      in if refcount (mem_map m page) = 0 then free_pages_ok page ord m else m)"

definition set_page_count :: "nat \<Rightarrow> u32 \<Rightarrow> pg_data \<Rightarrow> pg_data" where
  "set_page_count page v m = upd_page page (\<lambda>pg. pg\<lparr>refcount := v\<rparr>) m"

fun memblock_free_loop :: "nat \<Rightarrow> nat \<Rightarrow> pg_data \<Rightarrow> pg_data" where
  "memblock_free_loop 0 p m = m"
| "memblock_free_loop (Suc n) p m =
     memblock_free_loop n (p + 1) (set_page_count p 0 (upd_page p ClearPageBuddy m))"

definition memblock_free_pages :: "nat \<Rightarrow> nat \<Rightarrow> pg_data \<Rightarrow> pg_data" where
  "memblock_free_pages page ord m =
     (let m = memblock_free_loop (2 ^ ord - 1) page m;
          m = set_page_count page 1 m
      in uu_free_pages page ord m)"

section \<open>Allocating\<close>

definition prev_new_page :: "nat \<Rightarrow> nat \<Rightarrow> pg_data \<Rightarrow> pg_data" where
  "prev_new_page page ord m =
     set_page_count page 1 (upd_page page (\<lambda>pg. pg\<lparr>pg_private := ord\<rparr>) m)"

text \<open>\<open>area\<close> points at the free area of order \<open>high\<close> throughout.\<close>

function expend :: "nat \<Rightarrow> nat \<Rightarrow> nat \<Rightarrow> nat \<Rightarrow> pg_data \<Rightarrow> pg_data" where
  "expend page low high sz m =
     (if high > low
      then let high = high - 1;
               sz = sz div 2;
               m = lru_add (page + sz) high m;
               m = upd_nr_free high (\<lambda>n. n + 1) m;
               m = set_page_order (page + sz) high m
           in expend page low high sz m
      else m)"
  by pat_completeness auto
termination
  by (relation "measure (\<lambda>(page, low, high, sz, m). high)") auto

declare expend.simps [simp del]

function uu_rmqueue :: "nat \<Rightarrow> nat \<Rightarrow> pg_data \<Rightarrow> nat option \<times> pg_data" where
  "uu_rmqueue ord current_order m =
     (if current_order < MAX_ORDER
      then case free_list (area m current_order) of
             [] \<Rightarrow> uu_rmqueue ord (current_order + 1) m
           | page # _ \<Rightarrow>
               let m = lru_del page m;
                   m = clear_page_order page m;
                   m = upd_nr_free current_order (\<lambda>n. n - 1) m;
                   m = expend page ord current_order (2 ^ current_order) m
               in (Some page, m)
      else (None, m))"
  by pat_completeness auto
termination
  by (relation "measure (\<lambda>(ord, current_order, m). MAX_ORDER - current_order)") auto

declare uu_rmqueue.simps [simp del]

definition alloc_pages :: "nat \<Rightarrow> pg_data \<Rightarrow> nat option \<times> pg_data" where
  "alloc_pages ord m =
     (case uu_rmqueue ord ord m of
        (Some page, m) \<Rightarrow> (Some page, prev_new_page page ord m)
      | (None, m) \<Rightarrow> (None, m))"

definition page_to_address :: "nat \<Rightarrow> u64" where
  "page_to_address pfn = push_bit PGSHIFT (of_nat pfn)"

definition virt_to_page :: "u64 \<Rightarrow> nat" where
  "virt_to_page addr = unat (drop_bit PGSHIFT addr)"

definition get_free_pages :: "nat \<Rightarrow> pg_data \<Rightarrow> u64 \<times> pg_data" where
  "get_free_pages ord m =
     (case alloc_pages ord m of (None, m) \<Rightarrow> (0, m) | (Some page, m) \<Rightarrow> (page_to_address page, m))"

definition get_free_page :: "pg_data \<Rightarrow> u64 \<times> pg_data" where
  "get_free_page m = get_free_pages 0 m"

definition free_pages :: "u64 \<Rightarrow> nat \<Rightarrow> pg_data \<Rightarrow> pg_data" where
  "free_pages addr ord m = uu_free_pages (virt_to_page addr) ord m"

definition free_page :: "u64 \<Rightarrow> pg_data \<Rightarrow> pg_data" where
  "free_page addr m = free_pages addr 0 m"

section \<open>Geometry of blocks\<close>

definition frames :: "nat \<times> nat \<Rightarrow> nat set" where
  "frames b = {fst b ..< fst b + 2 ^ snd b}"

definition aligned :: "nat \<times> nat \<Rightarrow> bool" where
  "aligned b \<longleftrightarrow> snd b < MAX_ORDER \<and> 2 ^ snd b dvd fst b"

lemma frames_head [simp]: "p \<in> frames (p, ord)"
  by (simp add: frames_def)

lemma frames_iff_div: "2 ^ k dvd p \<Longrightarrow> x \<in> frames (p, k) \<longleftrightarrow> x div 2 ^ k = p div (2 ^ k :: nat)"
proof -
  assume "2 ^ k dvd p"
  then obtain c where c: "p = 2 ^ k * c" by (auto elim: dvdE)
  have "x \<in> frames (p, k) \<longleftrightarrow> c * 2 ^ k \<le> x \<and> x < Suc c * 2 ^ k"
    by (auto simp: frames_def c mult.commute)
  also have "\<dots> \<longleftrightarrow> x div 2 ^ k = c"
    by (metis div_nat_eqI dividend_less_times_div div_times_less_eq_dividend mult.commute mult_Suc zero_less_numeral zero_less_power less_Suc_eq_le not_less)
  finally show ?thesis by (simp add: c)
qed

text \<open>Two aligned blocks that meet are nested.\<close>

lemma frames_nested:
  assumes "2 ^ j dvd p" "2 ^ k dvd q" "j \<le> k" "frames (p, j) \<inter> frames (q, k) \<noteq> {}"
  shows "frames (p, j) \<subseteq> frames (q, k)"
proof -
  obtain d where d: "k = j + d" using assms(3) le_Suc_ex by blast
  from assms(4) obtain x where x: "x div 2 ^ j = p div 2 ^ j" "x div 2 ^ k = q div 2 ^ k"
    using assms(1,2) by (auto simp: frames_iff_div)
  show ?thesis
    using x assms(1,2)
    by (auto simp: frames_iff_div d power_add div_mult2_eq)
qed

lemma frames_split: "frames (q, Suc k) = frames (q, k) \<union> frames (q + 2 ^ k, k)"
  by (auto simp: frames_def)

lemma frames_halves_disjoint: "frames (q, k) \<inter> frames (q + 2 ^ k, k) = {}"
  by (auto simp: frames_def)

lemma find_buddy_flip: "find_buddy_pfn p k = flip_bit k p"
  by (simp add: find_buddy_pfn_def flip_bit_eq_xor)

text \<open>The buddy of an aligned block is the other half of the block one order up.\<close>

lemma find_buddy_cases:
  assumes "2 ^ k dvd p"
  obtains q where "2 ^ Suc k dvd q" "find_buddy_pfn p k AND p = q"
    "p = q \<and> find_buddy_pfn p k = q + 2 ^ k \<or> p = q + 2 ^ k \<and> find_buddy_pfn p k = q"
proof -
  from assms obtain c where c: "p = 2 ^ k * c" by (auto elim: dvdE)
  note flip = find_buddy_flip [of p k]
  have bitp: "bit p k = odd c" by (simp add: c bit_iff_odd)
  show thesis
  proof (cases "even c")
    case True
    then have "flip_bit k p = p + 2 ^ k" by (simp add: flip_bit_eq_if set_bit_eq bitp)
    moreover have "flip_bit k p AND p = p"
      by (rule bit_eqI) (use True bitp in \<open>auto simp: bit_simps\<close>)
    moreover have "2 ^ Suc k dvd p" using True c by (auto elim!: evenE)
    ultimately show ?thesis using that [of p] flip by simp
  next
    case False
    then have "set_bit k (unset_bit k p) = p"
      by (intro bit_eqI) (use bitp in \<open>auto simp: bit_simps\<close>)
    then have "unset_bit k p + 2 ^ k = p" by (simp add: set_bit_eq bit_simps)
    then have "flip_bit k p = p - 2 ^ k" using False by (simp add: flip_bit_eq_if bitp)
    moreover have "2 ^ k \<le> p" using False c by (auto elim!: oddE)
    moreover have "flip_bit k p AND p = flip_bit k p"
      by (rule bit_eqI) (use False bitp in \<open>auto simp: bit_simps\<close>)
    moreover have "2 ^ Suc k dvd p - 2 ^ k" using False c by (auto elim!: oddE simp: algebra_simps)
    ultimately show ?thesis using that [of "p - 2 ^ k"] flip by simp
  qed
qed

lemma find_buddy_lower: "2 ^ Suc k dvd p \<Longrightarrow> find_buddy_pfn p k = p + 2 ^ k"
proof -
  assume "2 ^ Suc k dvd p"
  then obtain c where "p = 2 ^ Suc k * c" by (auto elim: dvdE)
  then have "\<not> bit p k" by (simp add: bit_iff_odd)
  then show ?thesis by (simp add: find_buddy_flip flip_bit_eq_if set_bit_eq)
qed

section \<open>The invariant\<close>

text \<open>The order a page is tagged with when it carries the buddy flag.\<close>

definition tag :: "pg_data \<Rightarrow> nat \<Rightarrow> nat option" where
  "tag m p = (if PageBuddy (mem_map m p) then Some (pg_private (mem_map m p)) else None)"

definition free_blocks :: "pg_data \<Rightarrow> (nat \<times> nat) set" where
  "free_blocks m = {b. snd b < MAX_ORDER \<and> fst b \<in> set (free_list (area m (snd b)))}"

definition disjoint_blocks :: "(nat \<times> nat) set \<Rightarrow> bool" where
  "disjoint_blocks B \<longleftrightarrow> (\<forall>b \<in> B. \<forall>c \<in> B. b \<noteq> c \<longrightarrow> frames b \<inter> frames c = {})"

definition lists_ok :: "pg_data \<Rightarrow> bool" where
  "lists_ok m \<longleftrightarrow> (\<forall>ord < MAX_ORDER. distinct (free_list (area m ord)) \<and>
     nr_free (area m ord) = of_nat (length (free_list (area m ord))))"

definition tags_ok :: "pg_data \<Rightarrow> (nat \<times> nat) set \<Rightarrow> bool" where
  "tags_ok m A \<longleftrightarrow>
     (\<forall>b \<in> free_blocks m. tag m (fst b) = Some (snd b)) \<and>
     (\<forall>q k. tag m q = Some k \<longrightarrow> aligned (q, k) \<longrightarrow>
        (q, k) \<in> free_blocks m \<or> (\<exists>b \<in> free_blocks m \<union> A. k < snd b \<and> q \<in> frames b))"

definition buddy_inv :: "pg_data \<Rightarrow> (nat \<times> nat) set \<Rightarrow> bool" where
  "buddy_inv m A \<longleftrightarrow>
     free_blocks m \<inter> A = {} \<and> (\<forall>b \<in> free_blocks m \<union> A. aligned b) \<and>
     disjoint_blocks (free_blocks m \<union> A) \<and> lists_ok m \<and> tags_ok m A"

definition block_frames :: "(nat \<times> nat) set \<Rightarrow> nat set" where
  "block_frames B = (\<Union>b \<in> B. frames b)"

definition free_frames :: "pg_data \<Rightarrow> nat set" where
  "free_frames m = block_frames (free_blocks m)"

text \<open>No two free buddies are left unmerged below the top order.\<close>

definition coalesced :: "pg_data \<Rightarrow> bool" where
  "coalesced m \<longleftrightarrow>
     (\<forall>b \<in> free_blocks m. snd b < MAX_ORDER - 1 \<longrightarrow> (find_buddy_pfn (fst b) (snd b), snd b) \<notin> free_blocks m)"

section \<open>What the elementary updates change\<close>

lemma PageBuddy_simps [simp]:
  "PageBuddy (SetPageBuddy pg)" "\<not> PageBuddy (ClearPageBuddy pg)"
  "PageBuddy (pg\<lparr>pg_private := v\<rparr>) = PageBuddy pg" "PageBuddy (pg\<lparr>refcount := r\<rparr>) = PageBuddy pg"
  "pg_private (SetPageBuddy pg) = pg_private pg" "pg_private (ClearPageBuddy pg) = pg_private pg"
  "refcount (SetPageBuddy pg) = refcount pg" "refcount (ClearPageBuddy pg) = refcount pg"
  using get_set_bit_ul [of PG_buddy PG_buddy "\<lambda>_. flags pg"]
    get_clear_bit_ul [of PG_buddy PG_buddy "\<lambda>_. flags pg"]
  by (simp_all add: PageBuddy_def SetPageBuddy_def ClearPageBuddy_def PG_buddy_def get_bit_ul_def
      BITS_PER_LONG_def)

lemma area_frame [frame_simps]:
  "area (upd_page p f m) = area m" "area (clear_page_order p m) = area m"
  "area (set_page_order p k m) = area m" "area (set_page_count p v m) = area m"
  "mem_map (lru_add p k m) = mem_map m" "mem_map (lru_del p m) = mem_map m"
  "mem_map (upd_nr_free k g m) = mem_map m"
  by (simp_all add: upd_page_def clear_page_order_def set_page_order_def set_page_count_def
      lru_add_def lru_del_def upd_nr_free_def)

lemma free_list_upd [frame_simps]:
  "free_list (area (lru_add p k m) j) = (if j = k then p # free_list (area m k) else free_list (area m j))"
  "free_list (area (lru_del p m) j) = remove1 p (free_list (area m j))"
  "free_list (area (upd_nr_free k g m) j) = free_list (area m j)"
  "nr_free (area (lru_add p k m) j) = nr_free (area m j)"
  "nr_free (area (lru_del p m) j) = nr_free (area m j)"
  "nr_free (area (upd_nr_free k g m) j) = (if j = k then g (nr_free (area m k)) else nr_free (area m j))"
  by (simp_all add: lru_add_def lru_del_def upd_nr_free_def)

lemma mem_map_upd [frame_simps]:
  "mem_map (upd_page p f m) q = (if q = p then f (mem_map m p) else mem_map m q)"
  "mem_map (clear_page_order p m) q = (if q = p then ClearPageBuddy (mem_map m p\<lparr>pg_private := 0\<rparr>) else mem_map m q)"
  "mem_map (set_page_order p k m) q = (if q = p then SetPageBuddy (mem_map m p\<lparr>pg_private := k\<rparr>) else mem_map m q)"
  "mem_map (set_page_count p v m) q = (if q = p then mem_map m p\<lparr>refcount := v\<rparr> else mem_map m q)"
  by (simp_all add: upd_page_def clear_page_order_def set_page_order_def set_page_count_def)

lemma tag_upd [frame_simps]:
  "tag (lru_add p k m) = tag m" "tag (lru_del p m) = tag m" "tag (upd_nr_free k g m) = tag m"
  "tag (clear_page_order p m) = (tag m)(p := None)"
  "tag (set_page_order p k m) = (tag m)(p := Some k)"
  "tag (set_page_count p v m) = tag m"
  by (auto simp: tag_def frame_simps)

lemma free_blocks_upd [frame_simps]:
  "free_blocks (upd_page p f m) = free_blocks m" "free_blocks (clear_page_order p m) = free_blocks m"
  "free_blocks (set_page_order p k m) = free_blocks m" "free_blocks (set_page_count p v m) = free_blocks m"
  "free_blocks (upd_nr_free k g m) = free_blocks m"
  "k < MAX_ORDER \<Longrightarrow> free_blocks (lru_add p k m) = insert (p, k) (free_blocks m)"
  by (auto simp: free_blocks_def frame_simps)


lemma lists_ok_distinct: "lists_ok m \<Longrightarrow> k < MAX_ORDER \<Longrightarrow> distinct (free_list (area m k))"
  by (simp add: lists_ok_def)

lemma buddy_invD:
  assumes "buddy_inv m A"
  shows "free_blocks m \<inter> A = {}" "b \<in> free_blocks m \<union> A \<Longrightarrow> aligned b"
    "disjoint_blocks (free_blocks m \<union> A)" "lists_ok m" "tags_ok m A"
  using assms by (auto simp: buddy_inv_def)

lemma disjoint_blocksD:
  "disjoint_blocks B \<Longrightarrow> b \<in> B \<Longrightarrow> c \<in> B \<Longrightarrow> x \<in> frames b \<Longrightarrow> x \<in> frames c \<Longrightarrow> b = c"
  by (auto simp: disjoint_blocks_def)

text \<open>A free page heads one block only, so unlinking it removes exactly that block.\<close>

lemma free_blocks_lru_del:
  assumes "buddy_inv m A" "(p, k) \<in> free_blocks m"
  shows "free_blocks (lru_del p m) = free_blocks m - {(p, k)}"
proof -
  have only: "(p, j) \<in> free_blocks m \<Longrightarrow> j = k" for j
    using disjoint_blocksD [OF buddy_invD(3) [OF assms(1)], of "(p, j)" "(p, k)" p] assms(2) by auto
  have "(q, j) \<in> free_blocks (lru_del p m) \<longleftrightarrow> (q, j) \<in> free_blocks m - {(p, k)}" for q j
    using only [of j] buddy_invD(4) [OF assms(1), THEN lists_ok_distinct, of j] assms(2)
    by (auto simp: free_blocks_def frame_simps set_remove1_eq dest: notin_set_remove1)
  then show ?thesis by auto
qed

lemma lists_ok_take:
  assumes "buddy_inv m A" "(p, k) \<in> free_blocks m"
  shows "lists_ok (upd_nr_free k (\<lambda>n. n - 1) (lru_del p m))"
proof -
  have k: "k < MAX_ORDER" "p \<in> set (free_list (area m k))" using assms(2) by (auto simp: free_blocks_def)
  have notin: "p \<notin> set (free_list (area m j))" if "j < MAX_ORDER" "j \<noteq> k" for j
    using that disjoint_blocksD [OF buddy_invD(3) [OF assms(1)], of "(p, j)" "(p, k)" p] assms(2)
    by (auto simp: free_blocks_def)
  have "0 < length (free_list (area m k))" using k by (cases "free_list (area m k)") auto
  then have "of_nat (length (free_list (area m k)) - 1) = (of_nat (length (free_list (area m k))) - 1 :: u64)"
    by (simp add: of_nat_diff Suc_leI)
  with buddy_invD(4) [OF assms(1)] notin k show ?thesis
    by (auto simp: lists_ok_def frame_simps length_remove1 distinct_remove1)
qed

lemma lists_ok_put:
  assumes "lists_ok m" "p \<notin> set (free_list (area m k))"
  shows "lists_ok (upd_nr_free k (\<lambda>n. n + 1) (lru_add p k m))"
  using assms by (auto simp: lists_ok_def frame_simps)

lemma lists_ok_cong: "area m' = area m \<Longrightarrow> lists_ok m' = lists_ok m"
  by (simp add: lists_ok_def)


section \<open>Freeing a block\<close>

lemma buddy_invI:
  assumes "free_blocks m \<inter> A = {}" "\<And>b. b \<in> free_blocks m \<union> A \<Longrightarrow> aligned b"
    "disjoint_blocks (free_blocks m \<union> A)" "lists_ok m"
    "\<And>p k. (p, k) \<in> free_blocks m \<Longrightarrow> tag m p = Some k"
    "\<And>q k. tag m q = Some k \<Longrightarrow> aligned (q, k) \<Longrightarrow>
       (q, k) \<in> free_blocks m \<or> (\<exists>b \<in> free_blocks m \<union> A. k < snd b \<and> q \<in> frames b)"
  shows "buddy_inv m A"
  using assms by (auto simp: buddy_inv_def tags_ok_def)

lemma tag_free: "buddy_inv m A \<Longrightarrow> (p, k) \<in> free_blocks m \<Longrightarrow> tag m p = Some k"
  by (auto simp: buddy_inv_def tags_ok_def)

lemma tag_cases:
  assumes "buddy_inv m A" "tag m q = Some k" "aligned (q, k)"
  obtains "(q, k) \<in> free_blocks m" | b where "b \<in> free_blocks m \<union> A" "k < snd b" "q \<in> frames b"
proof -
  have "(q, k) \<in> free_blocks m \<or> (\<exists>b \<in> free_blocks m \<union> A. k < snd b \<and> q \<in> frames b)"
    using buddy_invD(5) [OF assms(1)] assms(2,3) unfolding tags_ok_def by blast
  with that show thesis by blast
qed

text \<open>A buddy that passes \<^verbatim>\<open>page_is_buddy\<close> really heads a free block of that order.\<close>

lemma tagged_buddy_is_free:
  assumes inv: "buddy_inv m (insert (p, k) A)" and k: "k < MAX_ORDER - 1"
    and tagged: "tag m (find_buddy_pfn p k) = Some k"
  shows "(find_buddy_pfn p k, k) \<in> free_blocks m"
proof -
  let ?b = "find_buddy_pfn p k"
  have al: "2 ^ k dvd p" using buddy_invD(2) [OF inv, of "(p, k)"] by (simp add: aligned_def)
  obtain q where q: "2 ^ Suc k dvd q" "p = q \<and> ?b = q + 2 ^ k \<or> p = q + 2 ^ k \<and> ?b = q"
    using find_buddy_cases [OF al] by metis
  have "2 ^ k dvd q" using q(1) by (auto elim: dvd_mult_right)
  then have "2 ^ k dvd ?b" using q(2) al by auto
  then have "aligned (?b, k)" using k by (simp add: aligned_def)
  with inv tagged show ?thesis
  proof (rule tag_cases)
    fix c assume c: "c \<in> free_blocks m \<union> insert (p, k) A" "k < snd c" "?b \<in> frames c"
    obtain cp ck where cc: "c = (cp, ck)" by (cases c)
    have "2 ^ ck dvd cp" using buddy_invD(2) [OF inv c(1)] by (simp add: cc aligned_def)
    moreover have "?b \<in> frames (q, Suc k)" "p \<in> frames (q, Suc k)" using q(2) by (auto simp: frames_def)
    ultimately have "p \<in> frames c"
      using frames_nested [OF q(1), of ck cp] c(2,3) cc by (auto simp: Suc_le_eq)
    with disjoint_blocksD [OF buddy_invD(3) [OF inv], of c "(p, k)" p] c(1,2) have False by auto
    then show ?thesis ..
  qed
qed

text \<open>One turn of the loop: the two halves become one block in hand.\<close>

lemma merge_step:
  assumes inv: "buddy_inv m (insert (p, k) A)" and notin: "(p, k) \<notin> A" and k: "k < MAX_ORDER - 1"
    and fb: "(find_buddy_pfn p k, k) \<in> free_blocks m"
    and m': "m' = clear_page_order p (upd_nr_free k (\<lambda>n. n - 1) (lru_del (find_buddy_pfn p k) m))"
  shows "buddy_inv m' (insert (find_buddy_pfn p k AND p, Suc k) A)"
    "(find_buddy_pfn p k AND p, Suc k) \<notin> A"
    "free_blocks m' = free_blocks m - {(find_buddy_pfn p k, k)}"
    "frames (find_buddy_pfn p k AND p, Suc k) = frames (p, k) \<union> frames (find_buddy_pfn p k, k)"
proof -
  let ?b = "find_buddy_pfn p k"
  let ?F = "free_blocks m"
  have al: "2 ^ k dvd p" using buddy_invD(2) [OF inv, of "(p, k)"] by (simp add: aligned_def)
  obtain q where q: "2 ^ Suc k dvd q" "?b AND p = q"
    "p = q \<and> ?b = q + 2 ^ k \<or> p = q + 2 ^ k \<and> ?b = q"
    using find_buddy_cases [OF al] by blast
  show F': "free_blocks m' = ?F - {(?b, k)}"
    by (simp add: m' frame_simps free_blocks_lru_del [OF inv fb])
  show un: "frames (?b AND p, Suc k) = frames (p, k) \<union> frames (?b, k)"
    unfolding q(2) frames_split [of q k] using q(3) by (elim disjE conjE) (simp_all only: Un_commute)
  have dj: "disjoint_blocks (?F \<union> insert (p, k) A)" using buddy_invD(3) [OF inv] .
  have notF: "(p, k) \<notin> ?F" using buddy_invD(1) [OF inv] by auto
  have apart: "frames c \<inter> frames (q, Suc k) = {}" if "c \<in> (?F - {(?b, k)}) \<union> A" for c
  proof -
    have c: "c \<noteq> (p, k)" "c \<noteq> (?b, k)" "c \<in> ?F \<union> insert (p, k) A"
      using that notin notF fb buddy_invD(1) [OF inv] by auto
    have "x \<notin> frames (p, k)" "x \<notin> frames (?b, k)" if "x \<in> frames c" for x
      using disjoint_blocksD [OF dj c(3), of _ x] that c fb by auto
    then show ?thesis unfolding un [unfolded q(2)] by blast
  qed
  show notA: "(?b AND p, Suc k) \<notin> A" using apart [of "(q, Suc k)"] q(2) by (auto simp: frames_def)
  have pfree: "(p, j) \<notin> ?F" for j
    using disjoint_blocksD [OF dj, of "(p, j)" "(p, k)" p] notF by auto
  show "buddy_inv m' (insert (?b AND p, Suc k) A)"
  proof (rule buddy_invI)
    show "free_blocks m' \<inter> insert (?b AND p, Suc k) A = {}"
      using buddy_invD(1) [OF inv] apart [of "(q, Suc k)"] q(2) by (auto simp: F' frames_def)
    show "aligned c" if "c \<in> free_blocks m' \<union> insert (?b AND p, Suc k) A" for c
      using that buddy_invD(2) [OF inv, of c] q k by (auto simp: F' aligned_def)
    show "disjoint_blocks (free_blocks m' \<union> insert (?b AND p, Suc k) A)"
      using dj apart unfolding F' q(2) disjoint_blocks_def by (simp add: ball_Un Int_commute)
    show "lists_ok m'"
      using lists_ok_take [OF inv fb] by (simp add: m' lists_ok_def frame_simps)
    show "tag m' x = Some j" if "(x, j) \<in> free_blocks m'" for x j
      using that [unfolded F'] tag_free [OF inv, of x j] pfree by (auto simp: m' frame_simps)
    show "(x, j) \<in> free_blocks m' \<or> (\<exists>c \<in> free_blocks m' \<union> insert (?b AND p, Suc k) A. j < snd c \<and> x \<in> frames c)"
      if t: "tag m' x = Some j" and a: "aligned (x, j)" for x j
    proof -
      have "tag m x = Some j" using t by (auto simp: m' frame_simps split: if_splits)
      from inv this a show ?thesis
      proof (rule tag_cases)
        assume "(x, j) \<in> ?F"
        then show ?thesis by (cases "(x, j) = (?b, k)") (auto simp: F' un)
      next
        fix c assume "c \<in> ?F \<union> insert (p, k) A" "j < snd c" "x \<in> frames c"
        then show ?thesis by (cases "c = (?b, k) \<or> c = (p, k)") (auto simp: F' un)
      qed
    qed
  qed
qed


lemma free_finish:
  assumes inv: "buddy_inv m (insert (p, k) A)" and notin: "(p, k) \<notin> A"
    and m': "m' = upd_nr_free k (\<lambda>n. n + 1) (lru_add p k (set_page_order p k m))"
  shows "buddy_inv m' A" "free_blocks m' = insert (p, k) (free_blocks m)"
proof -
  let ?F = "free_blocks m"
  have k: "k < MAX_ORDER" using buddy_invD(2) [OF inv, of "(p, k)"] by (simp add: aligned_def)
  show F': "free_blocks m' = insert (p, k) ?F" using k by (simp add: m' frame_simps)
  have dj: "disjoint_blocks (?F \<union> insert (p, k) A)" using buddy_invD(3) [OF inv] .
  have notF: "(p, k) \<notin> ?F" using buddy_invD(1) [OF inv] by auto
  have pfree: "(p, j) \<notin> ?F" for j
    using disjoint_blocksD [OF dj, of "(p, j)" "(p, k)" p] notF by auto
  show "buddy_inv m' A"
  proof (rule buddy_invI)
    show "free_blocks m' \<inter> A = {}" using buddy_invD(1) [OF inv] notin by (auto simp: F')
    show "aligned c" if "c \<in> free_blocks m' \<union> A" for c
      using that buddy_invD(2) [OF inv, of c] by (auto simp: F')
    show "disjoint_blocks (free_blocks m' \<union> A)" using dj by (simp add: F')
    have "p \<notin> set (free_list (area m k))" using notF k by (auto simp: free_blocks_def)
    then show "lists_ok m'"
      using buddy_invD(4) [OF inv] by (auto simp: m' lists_ok_def frame_simps)
    show "tag m' x = Some j" if "(x, j) \<in> free_blocks m'" for x j
      using that [unfolded F'] tag_free [OF inv, of x j] pfree by (auto simp: m' frame_simps)
    show "(x, j) \<in> free_blocks m' \<or> (\<exists>c \<in> free_blocks m' \<union> A. j < snd c \<and> x \<in> frames c)"
      if t: "tag m' x = Some j" and a: "aligned (x, j)" for x j
    proof (cases "x = p")
      case True
      then have "j = k" using t by (simp add: m' frame_simps)
      then show ?thesis using True by (simp add: F')
    next
      case False
      then have "tag m x = Some j" using t by (simp add: m' frame_simps)
      from inv this a show ?thesis by (rule tag_cases) (auto simp: F')
    qed
  qed
qed

lemma page_is_buddy_tag: "page_is_buddy (mem_map m p) k \<longleftrightarrow> tag m p = Some k"
  by (auto simp: page_is_buddy_def tag_def)

lemma free_merge_inv:
  assumes "buddy_inv m (insert (p, k) A)" "(p, k) \<notin> A" "free_merge m p k = (m', p', k')"
  shows "buddy_inv m' (insert (p', k') A) \<and> (p', k') \<notin> A \<and> free_blocks m' \<subseteq> free_blocks m \<and>
     block_frames (insert (p', k') (free_blocks m')) = block_frames (insert (p, k) (free_blocks m)) \<and>
     (k' < MAX_ORDER - 1 \<longrightarrow> (find_buddy_pfn p' k', k') \<notin> free_blocks m') \<and>
     (\<forall>q. refcount (mem_map m' q) = refcount (mem_map m q))"
  using assms
proof (induction m p k rule: free_merge.induct)
  case (1 m p k)
  let ?b = "find_buddy_pfn p k"
  let ?m = "clear_page_order p (upd_nr_free k (\<lambda>n. n - 1) (lru_del ?b m))"
  show ?case
  proof (cases "k < MAX_ORDER - 1 \<and> page_is_buddy (mem_map m ?b) k")
    case False
    then have "m' = m" "p' = p" "k' = k" using "1.prems"(3) by (auto simp: free_merge.simps [of m] Let_def split: if_splits)
    moreover have "(?b, k) \<notin> free_blocks m" if "k < MAX_ORDER - 1"
      using False that tag_free [OF "1.prems"(1)] by (auto simp: page_is_buddy_tag)
    ultimately show ?thesis using "1.prems" by auto
  next
    case True
    then have fb: "(?b, k) \<in> free_blocks m"
      using tagged_buddy_is_free [OF "1.prems"(1)] by (simp add: page_is_buddy_tag)
    note step = merge_step [OF "1.prems"(1,2) _ fb refl]
    have "free_merge ?m (?b AND p) (Suc k) = (m', p', k')"
      using True "1.prems"(3) by (simp add: free_merge.simps [of m] Let_def)
    then have IH: "buddy_inv m' (insert (p', k') A) \<and> (p', k') \<notin> A \<and> free_blocks m' \<subseteq> free_blocks ?m \<and>
     block_frames (insert (p', k') (free_blocks m')) = block_frames (insert (?b AND p, Suc k) (free_blocks ?m)) \<and>
     (k' < MAX_ORDER - 1 \<longrightarrow> (find_buddy_pfn p' k', k') \<notin> free_blocks m') \<and>
     (\<forall>q. refcount (mem_map m' q) = refcount (mem_map ?m q))"
      using True step "1.IH" [OF _ refl _ refl refl refl refl] by simp
    have "block_frames (insert (?b AND p, Suc k) (free_blocks ?m)) = block_frames (insert (p, k) (free_blocks m))"
      using True step(3,4) fb by (auto simp: block_frames_def)
    then show ?thesis using IH True step(3) by (auto simp: frame_simps)
  qed
qed

lemma find_buddy_pfn_invol [simp]: "find_buddy_pfn (find_buddy_pfn p k) k = p"
  by (simp add: find_buddy_pfn_def xor.assoc)

lemma find_buddy_pfn_ne [simp]: "find_buddy_pfn p k \<noteq> p"
proof
  assume "find_buddy_pfn p k = p"
  then have "bit (p XOR 2 ^ k) k = bit p k" by (simp add: find_buddy_pfn_def)
  then show False by (simp add: bit_simps)
qed

lemma coalesced_insert:
  assumes "coalesced m" "free_blocks m' \<subseteq> insert (p, k) (free_blocks m)"
    "k < MAX_ORDER - 1 \<Longrightarrow> (find_buddy_pfn p k, k) \<notin> free_blocks m'"
  shows "coalesced m'"
  unfolding coalesced_def
proof (intro ballI impI notI)
  fix b assume b: "b \<in> free_blocks m'" "snd b < MAX_ORDER - 1"
    "(find_buddy_pfn (fst b) (snd b), snd b) \<in> free_blocks m'"
  obtain q j where bq: "b = (q, j)" by (cases b)
  have "(q, j) \<noteq> (p, k)" using b assms(3) by (auto simp: bq)
  moreover have "(find_buddy_pfn q j, j) \<noteq> (p, k)" using b assms(3) by (auto simp: bq)
  ultimately have "(q, j) \<in> free_blocks m" "(find_buddy_pfn q j, j) \<in> free_blocks m"
    using b assms(2) by (auto simp: bq)
  then show False using assms(1) b(2) by (auto simp: coalesced_def bq)
qed

text \<open>Freeing a block in hand: its frames become free, nothing else changes hands.\<close>

lemma uu_free_one_page_inv:
  assumes "buddy_inv m (insert (p, k) A)" "(p, k) \<notin> A"
  shows "buddy_inv (uu_free_one_page p k m) A"
    "free_frames (uu_free_one_page p k m) = free_frames m \<union> frames (p, k)"
    "coalesced m \<Longrightarrow> coalesced (uu_free_one_page p k m)"
    "refcount (mem_map (uu_free_one_page p k m) q) = refcount (mem_map m q)"
proof -
  obtain m' p' k' where fm: "free_merge m p k = (m', p', k')" by (cases "free_merge m p k")
  note inv = free_merge_inv [OF assms fm]
  have m'': "uu_free_one_page p k m = upd_nr_free k' (\<lambda>n. n + 1) (lru_add p' k' (set_page_order p' k' m'))"
    by (simp add: uu_free_one_page_def fm)
  note fin = free_finish [OF _ _ m'', of A]
  show "buddy_inv (uu_free_one_page p k m) A" using fin inv by blast
  show "free_frames (uu_free_one_page p k m) = free_frames m \<union> frames (p, k)"
    using fin(2) inv by (auto simp: free_frames_def block_frames_def)
  show "coalesced (uu_free_one_page p k m)" if "coalesced m"
    using inv fin(2) by (intro coalesced_insert [OF that, of _ p' k']) auto
  show "refcount (mem_map (uu_free_one_page p k m) q) = refcount (mem_map m q)"
    using inv by (auto simp: m'' frame_simps)
qed


section \<open>Allocating a block\<close>

text \<open>Unlinking the head of a free list takes that block in hand, with its flag cleared.\<close>

lemma take_block:
  assumes inv: "buddy_inv m A" and fb: "(p, k) \<in> free_blocks m"
    and m': "m' = upd_nr_free k (\<lambda>n. n - 1) (clear_page_order p (lru_del p m))"
  shows "buddy_inv m' (insert (p, k) A)" "(p, k) \<notin> A" "tag m' p = None"
    "free_blocks m' = free_blocks m - {(p, k)}"
proof -
  let ?F = "free_blocks m"
  show F': "free_blocks m' = ?F - {(p, k)}"
    by (simp add: m' frame_simps free_blocks_lru_del [OF inv fb])
  show notA: "(p, k) \<notin> A" using buddy_invD(1) [OF inv] fb by auto
  show "tag m' p = None" by (simp add: m' frame_simps)
  have un: "free_blocks m' \<union> insert (p, k) A = ?F \<union> A" using fb by (auto simp: F')
  have only: "(p, j) \<in> ?F \<Longrightarrow> j = k" for j
    using disjoint_blocksD [OF buddy_invD(3) [OF inv], of "(p, j)" "(p, k)" p] fb by auto
  show "buddy_inv m' (insert (p, k) A)"
  proof (rule buddy_invI, unfold un)
    show "free_blocks m' \<inter> insert (p, k) A = {}" using buddy_invD(1) [OF inv] by (auto simp: F')
    show "aligned c" if "c \<in> ?F \<union> A" for c using that buddy_invD(2) [OF inv] by blast
    show "disjoint_blocks (?F \<union> A)" using buddy_invD(3) [OF inv] .
    show "lists_ok m'" using lists_ok_take [OF inv fb] by (simp add: m' lists_ok_def frame_simps if_distrib cong: if_cong)
    show "tag m' x = Some j" if "(x, j) \<in> free_blocks m'" for x j
      using that [unfolded F'] tag_free [OF inv, of x j] only [of j] by (auto simp: m' frame_simps)
    show "(x, j) \<in> free_blocks m' \<or> (\<exists>c \<in> ?F \<union> A. j < snd c \<and> x \<in> frames c)"
      if t: "tag m' x = Some j" and a: "aligned (x, j)" for x j
    proof -
      have x: "x \<noteq> p" "tag m x = Some j" using t by (auto simp: m' frame_simps split: if_splits)
      from inv x(2) a show ?thesis by (rule tag_cases) (use x(1) F' in auto)
    qed
  qed
qed

text \<open>One turn of \<^verbatim>\<open>expend\<close>: the upper half goes to the free list one order down.\<close>

lemma expend_step:
  assumes inv: "buddy_inv m (insert (p, Suc h) A)" and notin: "(p, Suc h) \<notin> A" and untag: "tag m p = None"
    and m': "m' = set_page_order (p + 2 ^ h) h (upd_nr_free h (\<lambda>n. n + 1) (lru_add (p + 2 ^ h) h m))"
  shows "buddy_inv m' (insert (p, h) A)" "(p, h) \<notin> A" "tag m' p = None"
    "free_blocks m' = insert (p + 2 ^ h, h) (free_blocks m)"
proof -
  let ?F = "free_blocks m" and ?r = "p + 2 ^ h"
  have dvds: "2 ^ Suc h dvd p" and h: "Suc h < MAX_ORDER"
    using buddy_invD(2) [OF inv, of "(p, Suc h)"] by (simp_all add: aligned_def)
  have dvd: "2 ^ h dvd p" using dvds by (auto elim: dvd_mult_right)
  show F': "free_blocks m' = insert (?r, h) ?F" using h by (simp add: m' frame_simps)
  show "tag m' p = None" using untag by (simp add: m' frame_simps)
  have dj: "disjoint_blocks (?F \<union> insert (p, Suc h) A)" using buddy_invD(3) [OF inv] .
  have notF: "(p, Suc h) \<notin> ?F" using buddy_invD(1) [OF inv] by auto
  have apart: "frames c \<inter> frames (p, Suc h) = {}" if "c \<in> ?F \<union> A" for c
    using that notin notF disjoint_blocksD [OF dj, of c "(p, Suc h)"] by auto
  have aparts: "frames c \<inter> frames (p, h) = {}" "frames c \<inter> frames (?r, h) = {}" if "c \<in> ?F \<union> A" for c
    using apart [OF that] by (auto simp: frames_split)
  have fresh: "(p, h) \<notin> ?F \<union> A" "(?r, h) \<notin> ?F \<union> A"
    using aparts [of "(p, h)"] aparts [of "(?r, h)"] by (auto simp: frames_def)
  then show "(p, h) \<notin> A" by simp
  have halves: "frames (p, h) \<inter> frames (?r, h) = {}" "(?r, h) \<noteq> (p, h)"
    by (simp_all add: frames_halves_disjoint)
  show "buddy_inv m' (insert (p, h) A)"
  proof (rule buddy_invI)
    show "free_blocks m' \<inter> insert (p, h) A = {}"
      using buddy_invD(1) [OF inv] fresh by (auto simp: F')
    show "aligned c" if "c \<in> free_blocks m' \<union> insert (p, h) A" for c
      using that buddy_invD(2) [OF inv, of c] dvd h by (auto simp: F' aligned_def)
    show "disjoint_blocks (free_blocks m' \<union> insert (p, h) A)"
      using dj aparts halves unfolding F' disjoint_blocks_def
      by (simp add: ball_Un Int_commute)
    have "?r \<notin> set (free_list (area m h))" using fresh h by (auto simp: free_blocks_def)
    then show "lists_ok m'"
      using buddy_invD(4) [OF inv] by (auto simp: m' lists_ok_def frame_simps)
    have "(?r, j) \<notin> ?F" for j
      using aparts(2) [of "(?r, j)"] frames_head [of ?r j] frames_head [of ?r h] by blast
    then show "tag m' x = Some j" if "(x, j) \<in> free_blocks m'" for x j
      using that [unfolded F'] tag_free [OF inv, of x j] by (auto simp: m' frame_simps)
    show "(x, j) \<in> free_blocks m' \<or> (\<exists>c \<in> free_blocks m' \<union> insert (p, h) A. j < snd c \<and> x \<in> frames c)"
      if t: "tag m' x = Some j" and a: "aligned (x, j)" for x j
    proof (cases "x = ?r")
      case True
      then have "j = h" using t by (simp add: m' frame_simps)
      then show ?thesis using True by (simp add: F')
    next
      case False
      then have tx: "tag m x = Some j" using t by (simp add: m' frame_simps)
      from inv this a show ?thesis
      proof (rule tag_cases)
        fix c assume c: "c \<in> ?F \<union> insert (p, Suc h) A" "j < snd c" "x \<in> frames c"
        show ?thesis
        proof (cases "c = (p, Suc h)")
          case True
          then have "x \<in> frames (p, h) \<or> x \<in> frames (?r, h)" "j < Suc h"
            using c by (auto simp: frames_split)
          moreover have "j \<noteq> h"
          proof
            assume "j = h"
            then have "x div 2 ^ h = p div 2 ^ h \<or> x div 2 ^ h = ?r div 2 ^ h" "2 ^ h dvd x"
              using calculation(1) a dvd by (auto simp: frames_iff_div aligned_def)
            then have "x = p \<or> x = ?r" using dvd by (metis dvd_add dvd_div_mult_self dvd_refl)
            with False tx untag show False by auto
          qed
          ultimately have "j < h" by simp
          with \<open>x \<in> frames (p, h) \<or> x \<in> frames (?r, h)\<close> show ?thesis by (auto simp: F')
        qed (use c in \<open>auto simp: F'\<close>)
      qed (auto simp: F')
    qed
  qed
qed


lemma expend_inv:
  assumes "buddy_inv m (insert (p, high) A)" "(p, high) \<notin> A" "tag m p = None" "low \<le> high"
    "m' = expend p low high (2 ^ high) m"
  shows "buddy_inv m' (insert (p, low) A) \<and> (p, low) \<notin> A \<and> tag m' p = None \<and>
    block_frames (insert (p, low) (free_blocks m')) = block_frames (insert (p, high) (free_blocks m)) \<and>
    (coalesced m \<longrightarrow> coalesced m') \<and> (\<forall>q. refcount (mem_map m' q) = refcount (mem_map m q))"
  using assms
proof (induction high arbitrary: m)
  case 0
  then show ?case by (simp add: expend.simps)
next
  case (Suc h)
  show ?case
  proof (cases "low = Suc h")
    case True
    then show ?thesis using Suc.prems by (simp add: expend.simps)
  next
    case False
    let ?m = "set_page_order (p + 2 ^ h) h (upd_nr_free h (\<lambda>n. n + 1) (lru_add (p + 2 ^ h) h m))"
    note step = expend_step [OF Suc.prems(1-3) refl]
    have m': "m' = expend p low h (2 ^ h) ?m"
      using Suc.prems(4,5) False by (simp add: expend.simps [of p low "Suc h"] Let_def)
    have dvd: "2 ^ Suc h dvd p" using buddy_invD(2) [OF Suc.prems(1), of "(p, Suc h)"] by (simp add: aligned_def)
    then have "find_buddy_pfn p h = p + 2 ^ h" by (rule find_buddy_lower)
    then have "(find_buddy_pfn (p + 2 ^ h) h, h) \<notin> free_blocks ?m"
      using buddy_invD(1) [OF step(1)] by (metis (no_types, lifting) IntI empty_iff find_buddy_pfn_invol insertI1)
    then have "coalesced ?m" if "coalesced m"
      using coalesced_insert [OF that, of ?m "p + 2 ^ h" h] step(4) by auto
    moreover have "block_frames (insert (p, h) (free_blocks ?m)) = block_frames (insert (p, Suc h) (free_blocks m))"
      using step(4) frames_split by (auto simp: block_frames_def)
    ultimately show ?thesis
      using Suc.IH [OF step(1-3) _ m'] Suc.prems(4) False by (auto simp: frame_simps)
  qed
qed


text \<open>What \<^verbatim>\<open>__rmqueue\<close> promises when its scan is at order \<open>c\<close>.\<close>

lemma uu_rmqueue_inv:
  assumes "buddy_inv m A" "ord \<le> c" "uu_rmqueue ord c m = (r, m')"
  shows "case r of
      None \<Rightarrow> m' = m \<and> (\<forall>k. c \<le> k \<longrightarrow> k < MAX_ORDER \<longrightarrow> free_list (area m k) = [])
    | Some p \<Rightarrow> buddy_inv m' (insert (p, ord) A) \<and> (p, ord) \<notin> A \<and> tag m' p = None \<and>
        block_frames (insert (p, ord) (free_blocks m')) = free_frames m \<and>
        (coalesced m \<longrightarrow> coalesced m') \<and> (\<forall>q. refcount (mem_map m' q) = refcount (mem_map m q))"
  using assms
proof (induction ord c m rule: uu_rmqueue.induct)
  case (1 ord c m)
  show ?case
  proof (cases "c < MAX_ORDER")
    case False
    then show ?thesis using "1.prems"(3) by (auto simp: uu_rmqueue.simps [of ord c])
  next
    case True
    note c = True
    show ?thesis
    proof (cases "free_list (area m c)")
      case Nil
      then have "uu_rmqueue ord (c + 1) m = (r, m')" using "1.prems"(3) c by (simp add: uu_rmqueue.simps [of ord c])
      moreover have "ord \<le> c + 1" using "1.prems"(2) by simp
      ultimately have IH: "case r of
      None \<Rightarrow> m' = m \<and> (\<forall>k. c + 1 \<le> k \<longrightarrow> k < MAX_ORDER \<longrightarrow> free_list (area m k) = [])
    | Some p \<Rightarrow> buddy_inv m' (insert (p, ord) A) \<and> (p, ord) \<notin> A \<and> tag m' p = None \<and>
        block_frames (insert (p, ord) (free_blocks m')) = free_frames m \<and>
        (coalesced m \<longrightarrow> coalesced m') \<and> (\<forall>q. refcount (mem_map m' q) = refcount (mem_map m q))"
        using "1.IH" [OF c Nil "1.prems"(1)] by blast
      have "free_list (area m k) = []" if "\<forall>k. c + 1 \<le> k \<longrightarrow> k < MAX_ORDER \<longrightarrow> free_list (area m k) = []"
        "c \<le> k" "k < MAX_ORDER" for k
        using that Nil by (cases "k = c") auto
      with IH show ?thesis by (auto split: option.splits)
    next
      case (Cons p ps)
      let ?m = "upd_nr_free c (\<lambda>n. n - 1) (clear_page_order p (lru_del p m))"
      have fb: "(p, c) \<in> free_blocks m" using Cons c by (simp add: free_blocks_def)
      note tk = take_block [OF "1.prems"(1) fb refl]
      have "coalesced ?m" if "coalesced m"
        using that tk(4) by (auto simp: coalesced_def)
      moreover have "insert (p, c) (free_blocks ?m) = free_blocks m" using tk(4) fb by auto
      moreover have "r = Some p" "m' = expend p ord c (2 ^ c) ?m"
        using "1.prems"(3) Cons c by (auto simp: uu_rmqueue.simps [of ord c] Let_def)
      ultimately show ?thesis
        using expend_inv [OF tk(1-3) "1.prems"(2), of m'] "1.prems"(2) c
        by (auto simp: free_frames_def frame_simps)
    qed
  qed
qed

text \<open>Blocks handed out have reference count one.\<close>

definition alloc_inv :: "pg_data \<Rightarrow> (nat \<times> nat) set \<Rightarrow> bool" where
  "alloc_inv m A \<longleftrightarrow> buddy_inv m A \<and> (\<forall>b \<in> A. refcount (mem_map m (fst b)) = 1)"

lemma buddy_inv_cong:
  assumes "area m' = area m" "\<And>q. tag m' q = tag m q \<or> tag m' q = None \<and> (\<forall>k. (q, k) \<notin> free_blocks m)"
    "buddy_inv m A"
  shows "buddy_inv m' A"
proof -
  have F: "free_blocks m' = free_blocks m" using assms(1) by (simp add: free_blocks_def)
  have T: "tag m' q = Some k \<Longrightarrow> tag m q = Some k" for q k using assms(2) [of q] by auto
  show ?thesis
  proof (rule buddy_invI, unfold F)
    show "tag m' p = Some k" if "(p, k) \<in> free_blocks m" for p k
      using assms(2) [of p] tag_free [OF assms(3) that] that by auto
    show "(q, k) \<in> free_blocks m \<or> (\<exists>b \<in> free_blocks m \<union> A. k < snd b \<and> q \<in> frames b)"
      if "tag m' q = Some k" "aligned (q, k)" for q k
      by (rule tag_cases [OF assms(3) T [OF that(1)] that(2)]) auto
    show "aligned b" if "b \<in> free_blocks m \<union> A" for b by (rule buddy_invD(2) [OF assms(3) that])
  qed (use buddy_invD [OF assms(3)] assms(1) in \<open>auto simp: lists_ok_def\<close>)
qed


lemma in_hand_not_free: "buddy_inv m (insert (p, k) A) \<Longrightarrow> (p, j) \<notin> free_blocks m"
  using disjoint_blocksD [OF buddy_invD(3), of m "insert (p, k) A" "(p, j)" "(p, k)" p]
    buddy_invD(1) [of m "insert (p, k) A"] by auto

lemma block_frames_insert [simp]: "block_frames (insert b B) = frames b \<union> block_frames B"
  by (simp add: block_frames_def)

lemma tag_prev_new_page: "tag m p = None \<Longrightarrow> tag (prev_new_page p k m) = tag m"
  by (rule ext) (auto simp: tag_def prev_new_page_def frame_simps split: if_splits)

lemma prev_new_page_frame [frame_simps]:
  "area (prev_new_page p k m) = area m"
  "refcount (mem_map (prev_new_page p k m) q) = (if q = p then 1 else refcount (mem_map m q))"
  "free_blocks (prev_new_page p k m) = free_blocks m"
  by (simp_all add: prev_new_page_def frame_simps)

lemma alloc_pages_inv:
  assumes "alloc_inv m A" "alloc_pages ord m = (Some p, m')"
  shows "alloc_inv m' (insert (p, ord) A)" "(p, ord) \<notin> A" "frames (p, ord) \<inter> free_frames m' = {}"
    "frames (p, ord) \<union> free_frames m' = free_frames m" "coalesced m \<Longrightarrow> coalesced m'"
proof -
  obtain m1 where m1: "uu_rmqueue ord ord m = (Some p, m1)" "m' = prev_new_page p ord m1"
    using assms(2) by (auto simp: alloc_pages_def split: prod.splits option.splits)
  have "buddy_inv m A" using assms(1) by (simp add: alloc_inv_def)
  note rm = uu_rmqueue_inv [OF this order.refl m1(1), simplified]
  have inv: "buddy_inv m' (insert (p, ord) A)"
    by (rule buddy_inv_cong [of m' m1]) (use rm in \<open>auto simp: m1(2) frame_simps tag_prev_new_page\<close>)
  then show "alloc_inv m' (insert (p, ord) A)"
    using assms(1) rm by (auto simp: alloc_inv_def m1(2) frame_simps)
  show "(p, ord) \<notin> A" using rm by simp
  have "frames (p, ord) \<inter> frames b = {}" if "b \<in> free_blocks m'" for b
    using that buddy_invD(1,3) [OF inv] disjoint_blocksD [OF buddy_invD(3) [OF inv], of "(p, ord)" b] by auto
  then show "frames (p, ord) \<inter> free_frames m' = {}" by (auto simp: free_frames_def block_frames_def)
  show "frames (p, ord) \<union> free_frames m' = free_frames m"
    using rm by (simp add: free_frames_def m1(2) frame_simps)
  show "coalesced m \<Longrightarrow> coalesced m'" using rm by (simp add: coalesced_def m1(2) frame_simps)
qed

lemma uu_rmqueue_Some:
  "uu_rmqueue ord c m = (Some p, m') \<Longrightarrow> ord \<le> c \<Longrightarrow> \<exists>b \<in> free_blocks m. ord \<le> snd b"
proof (induction ord c m rule: uu_rmqueue.induct)
  case (1 ord c m)
  then have c: "c < MAX_ORDER" by (auto simp: uu_rmqueue.simps [of ord c] split: if_splits)
  show ?case
  proof (cases "free_list (area m c)")
    case Nil
    then show ?thesis using 1 c by (auto simp: uu_rmqueue.simps [of ord c])
  next
    case (Cons q qs)
    then have "(q, c) \<in> free_blocks m" using c by (simp add: free_blocks_def)
    then show ?thesis using "1.prems"(2) by (rule_tac bexI) auto
  qed
qed

lemma alloc_pages_None:
  assumes "buddy_inv m A"
  shows "fst (alloc_pages ord m) = None \<longleftrightarrow> (\<forall>b \<in> free_blocks m. snd b < ord)"
    "alloc_pages ord m = (None, m') \<Longrightarrow> m' = m"
proof -
  obtain r m1 where r: "uu_rmqueue ord ord m = (r, m1)" by (cases "uu_rmqueue ord ord m")
  note rm = uu_rmqueue_inv [OF assms order.refl r]
  have fst: "fst (alloc_pages ord m) = r" by (simp add: alloc_pages_def r split: option.splits)
  show "m' = m" if "alloc_pages ord m = (None, m')"
    using that rm by (auto simp: alloc_pages_def r split: option.splits)
  show "fst (alloc_pages ord m) = None \<longleftrightarrow> (\<forall>b \<in> free_blocks m. snd b < ord)"
  proof (cases r)
    case None
    then have empty: "free_list (area m k) = []" if "ord \<le> k" "k < MAX_ORDER" for k using rm that by simp
    have "snd b < ord" if "b \<in> free_blocks m" for b
      using that empty [of "snd b"] by (cases "ord \<le> snd b") (auto simp: free_blocks_def)
    then show ?thesis using fst None by simp
  next
    case (Some p)
    then have "\<exists>b \<in> free_blocks m. ord \<le> snd b" using uu_rmqueue_Some [of ord ord m p m1] r by simp
    then show ?thesis using fst Some by (metis not_less option.distinct(1))
  qed
qed


section \<open>Returning blocks\<close>

lemma tag_refcount [frame_simps]: "tag (upd_page p (\<lambda>pg. pg\<lparr>refcount := f pg\<rparr>) m) = tag m"
  by (auto simp: tag_def frame_simps)

lemma alloc_inv_buddy: "alloc_inv m A \<Longrightarrow> buddy_inv m A"
  by (simp add: alloc_inv_def)

lemma buddy_inv_refcount: "buddy_inv m A \<Longrightarrow> buddy_inv (upd_page p (\<lambda>pg. pg\<lparr>refcount := f pg\<rparr>) m) A"
  by (rule buddy_inv_cong [of _ m]) (simp_all add: frame_simps)

lemma uu_free_pages_buddy:
  assumes "buddy_inv m (insert (p, k) A)" "(p, k) \<notin> A" "refcount (mem_map m p) = 1"
  shows "buddy_inv (uu_free_pages p k m) A"
    "free_frames (uu_free_pages p k m) = free_frames m \<union> frames (p, k)"
    "coalesced m \<Longrightarrow> coalesced (uu_free_pages p k m)"
    "q \<noteq> p \<Longrightarrow> refcount (mem_map (uu_free_pages p k m) q) = refcount (mem_map m q)"
proof -
  let ?m = "upd_page p (\<lambda>pg. pg\<lparr>refcount := refcount pg - 1\<rparr>) m"
  have eq: "uu_free_pages p k m = uu_free_one_page p k ?m"
    using assms(3) by (auto simp: uu_free_pages_def free_pages_ok_def frame_simps)
  note free = uu_free_one_page_inv [OF buddy_inv_refcount [OF assms(1)] assms(2)]
  show "buddy_inv (uu_free_pages p k m) A" unfolding eq by (rule free(1))
  show "free_frames (uu_free_pages p k m) = free_frames m \<union> frames (p, k)"
    unfolding eq free(2) by (simp add: free_frames_def frame_simps)
  show "coalesced m \<Longrightarrow> coalesced (uu_free_pages p k m)"
    unfolding eq by (rule free(3)) (simp add: coalesced_def frame_simps)
  show "q \<noteq> p \<Longrightarrow> refcount (mem_map (uu_free_pages p k m) q) = refcount (mem_map m q)"
    unfolding eq free(4) by (simp add: frame_simps)
qed

lemma uu_free_pages_alloc:
  assumes "alloc_inv m (insert (p, k) A)" "(p, k) \<notin> A"
  shows "alloc_inv (uu_free_pages p k m) A"
proof -
  have inv: "buddy_inv m (insert (p, k) A)" and r: "refcount (mem_map m p) = 1"
    using assms(1) by (simp_all add: alloc_inv_def)
  have "fst b \<noteq> p" if "b \<in> A" for b
    using that assms(2) disjoint_blocksD [OF buddy_invD(3) [OF inv], of b "(p, k)" p] by (cases b) auto
  then show ?thesis
    using uu_free_pages_buddy [OF inv assms(2) r] assms(1) by (auto simp: alloc_inv_def)
qed

text \<open>Boot: \<^verbatim>\<open>memblock_free_pages\<close> resets the frames of a block and frees it.\<close>

lemma memblock_free_loop_frame:
  "area (memblock_free_loop n p m) = area m"
  "tag (memblock_free_loop n p m) q = (if p \<le> q \<and> q < p + n then None else tag m q)"
  "q < p \<or> p + n \<le> q \<Longrightarrow> mem_map (memblock_free_loop n p m) q = mem_map m q"
  by (induction n arbitrary: p m) (auto simp: frame_simps tag_def)

lemma memblock_free_pages_inv:
  assumes inv: "buddy_inv m (insert (p, k) A)" and notin: "(p, k) \<notin> A"
  shows "buddy_inv (memblock_free_pages p k m) A"
    "free_frames (memblock_free_pages p k m) = free_frames m \<union> frames (p, k)"
    "coalesced m \<Longrightarrow> coalesced (memblock_free_pages p k m)"
proof -
  let ?m = "set_page_count p 1 (memblock_free_loop (2 ^ k - 1) p m)"
  have "(q, j) \<notin> free_blocks m" if "p \<le> q" "q < p + (2 ^ k - 1)" for q j
  proof
    assume "(q, j) \<in> free_blocks m"
    moreover have "q \<in> frames (p, k)" using that by (auto simp: frames_def)
    ultimately show False
      using buddy_invD(1) [OF inv] disjoint_blocksD [OF buddy_invD(3) [OF inv], of "(q, j)" "(p, k)" q] by auto
  qed
  then have "buddy_inv ?m (insert (p, k) A)"
    by (intro buddy_inv_cong [OF _ _ inv]) (auto simp: frame_simps memblock_free_loop_frame)
  note free = uu_free_pages_buddy [OF this notin]
  have F: "free_blocks ?m = free_blocks m" by (simp add: free_blocks_def frame_simps memblock_free_loop_frame)
  have eq: "memblock_free_pages p k m = uu_free_pages p k ?m" by (simp add: memblock_free_pages_def)
  show "buddy_inv (memblock_free_pages p k m) A" unfolding eq by (rule free(1)) (simp add: frame_simps)
  show "free_frames (memblock_free_pages p k m) = free_frames m \<union> frames (p, k)"
    using free(2) F by (simp add: eq free_frames_def frame_simps)
  show "coalesced m \<Longrightarrow> coalesced (memblock_free_pages p k m)"
    using free(3) F by (simp add: eq coalesced_def frame_simps)
qed

lemma zone_init_free_lists_area:
  "free_list (area (zone_init_free_lists ords m) k) = (if k \<in> set ords then [] else free_list (area m k))"
  "nr_free (area (zone_init_free_lists ords m) k) = (if k \<in> set ords then 0 else nr_free (area m k))"
  "mem_map (zone_init_free_lists ords m) = mem_map m"
  by (induction ords arbitrary: m) auto

text \<open>With empty lists and no flags, any set of aligned disjoint blocks can be in hand.\<close>

lemma init_inv:
  assumes "\<And>p. \<not> PageBuddy (mem_map m p)" "\<And>b. b \<in> B \<Longrightarrow> aligned b" "disjoint_blocks B"
  shows "buddy_inv (init_zone_free_area_list m) B" "free_blocks (init_zone_free_area_list m) = {}"
proof -
  show F: "free_blocks (init_zone_free_area_list m) = {}"
    by (auto simp: free_blocks_def init_zone_free_area_list_def zone_init_free_lists_area)
  show "buddy_inv (init_zone_free_area_list m) B"
    by (rule buddy_invI, unfold F)
      (use assms in \<open>auto simp: lists_ok_def tag_def init_zone_free_area_list_def zone_init_free_lists_area\<close>)
qed


lemma boot_blocks:
  assumes "buddy_inv m (set bs)" "distinct bs" "coalesced m"
    "m' = fold (\<lambda>b. memblock_free_pages (fst b) (snd b)) bs m"
  shows "buddy_inv m' {} \<and> coalesced m' \<and> free_frames m' = free_frames m \<union> block_frames (set bs)"
  using assms
proof (induction bs arbitrary: m)
  case Nil
  then show ?case by (simp add: block_frames_def)
next
  case (Cons b bs)
  obtain p k where b: "b = (p, k)" by (cases b)
  note mf = memblock_free_pages_inv [of m p k "set bs"]
  show ?case
    using Cons.IH [of "memblock_free_pages p k m"] Cons.prems mf by (auto simp: b)
qed


section \<open>Addresses\<close>

lemma virt_to_page_to_address: "p < 2 ^ 52 \<Longrightarrow> virt_to_page (page_to_address p) = p"
proof -
  assume p: "p < 2 ^ 52"
  have "page_to_address p = word_of_nat (p * 4096)"
    by (simp add: page_to_address_def PGSHIFT_def push_bit_eq_mult)
  then have "unat (page_to_address p) = p * 4096"
    using p by (simp only: unat_of_nat) (simp add: take_bit_nat_eq_self)
  then show ?thesis by (simp add: virt_to_page_def PGSHIFT_def unat_drop_bit_div)
qed

lemma page_to_address_0: "p < 2 ^ 52 \<Longrightarrow> page_to_address p = 0 \<longleftrightarrow> p = 0"
  using virt_to_page_to_address [of p] by (auto simp: virt_to_page_def page_to_address_def)

lemma get_free_pages_Some:
  assumes "alloc_inv m A" "free_frames m \<subseteq> {1 ..< 2 ^ 52}" "get_free_pages ord m = (a, m')" "a \<noteq> 0"
  obtains p where "alloc_pages ord m = (Some p, m')" "virt_to_page a = p" "a = page_to_address p" "p < 2 ^ 52"
proof -
  obtain p where p: "alloc_pages ord m = (Some p, m')" "a = page_to_address p"
    using assms(3,4) by (auto simp: get_free_pages_def split: prod.splits option.splits)
  have "p \<in> free_frames m" using alloc_pages_inv(4) [OF assms(1) p(1)] frames_head by blast
  then have "p < 2 ^ 52" using assms(2) by auto
  with that p virt_to_page_to_address show thesis by blast
qed

section \<open>Single pages as an interface\<close>

text \<open>
  What the page-table code relies on: a page obtained is page-aligned, not null and not among the
  pages in use, and becomes one of them; giving it back takes it out again.
\<close>

locale page_provider =
  fixes get_page :: "'s \<Rightarrow> u64 \<times> 's"
    and put_page :: "u64 \<Rightarrow> 's \<Rightarrow> 's"
    and pages_inv :: "'s \<Rightarrow> u64 set \<Rightarrow> bool"
  assumes get_fresh: "pages_inv s U \<Longrightarrow> get_page s = (a, s') \<Longrightarrow> a \<noteq> 0 \<Longrightarrow>
      a \<notin> U \<and> 4096 dvd unat a \<and> pages_inv s' (insert a U)"
    and get_fail: "pages_inv s U \<Longrightarrow> get_page s = (0, s') \<Longrightarrow> s' = s"
    and put_back: "pages_inv s (insert a U) \<Longrightarrow> a \<notin> U \<Longrightarrow> pages_inv (put_page a s) U"
begin

text \<open>Two pages obtained one after the other do not overlap.\<close>

lemma get_twice_disjoint:
  assumes "pages_inv s U" "get_page s = (a, s')" "a \<noteq> 0" "get_page s' = (b, s'')" "b \<noteq> 0"
  shows "{unat a ..< unat a + 4096} \<inter> {unat b ..< unat b + 4096} = {}"
proof -
  have a: "4096 dvd unat a" "pages_inv s' (insert a U)" using get_fresh [OF assms(1-3)] by auto
  have b: "4096 dvd unat b" "b \<noteq> a" using get_fresh [OF a(2) assms(4,5)] by auto
  obtain x y where xy: "unat a = 4096 * x" "unat b = 4096 * y" using a(1) b(1) by (auto elim!: dvdE)
  have "x \<noteq> y" using b(2) xy by (metis unsigned_word_eqI)
  then show ?thesis unfolding xy by auto
qed

lemma get_put:
  assumes "pages_inv s U" "get_page s = (a, s')" "a \<noteq> 0"
  shows "pages_inv (put_page a s') U"
  using get_fresh [OF assms] put_back by blast

end

definition page_blocks :: "u64 set \<Rightarrow> (nat \<times> nat) set" where
  "page_blocks U = (\<lambda>a. (virt_to_page a, 0)) ` U"

definition pages_in_use :: "pg_data \<Rightarrow> u64 set \<Rightarrow> bool" where
  "pages_in_use m U \<longleftrightarrow>
     (\<exists>B. alloc_inv m (page_blocks U \<union> B) \<and> page_blocks U \<inter> B = {}) \<and> free_frames m \<subseteq> {1 ..< 2 ^ 52} \<and>
     (\<forall>a \<in> U. 4096 dvd unat a \<and> a \<noteq> 0)"

lemma page_blocks_insert: "page_blocks (insert a U) = insert (virt_to_page a, 0) (page_blocks U)"
  by (simp add: page_blocks_def)

lemma page_to_address_aligned: "4096 dvd unat (page_to_address p)"
proof -
  have "take_bit 12 (page_to_address p) = 0"
    by (rule bit_word_eqI) (auto simp: page_to_address_def PGSHIFT_def bit_simps)
  then have "unat (take_bit 12 (page_to_address p)) = 0" by simp
  then have "take_bit 12 (unat (page_to_address p)) = 0" by (simp only: unsigned_take_bit_eq)
  then show ?thesis by (simp add: take_bit_eq_mod dvd_eq_mod_eq_0)
qed

lemma page_blocks_mem:
  assumes "4096 dvd unat a" "\<forall>b \<in> U. 4096 dvd unat b" "(virt_to_page a, 0) \<in> page_blocks U"
  shows "a \<in> U"
proof -
  obtain b where b: "b \<in> U" "virt_to_page b = virt_to_page a" using assms(3) by (auto simp: page_blocks_def)
  then have "unat b div 4096 = unat a div 4096" by (simp add: virt_to_page_def PGSHIFT_def unat_drop_bit_div)
  moreover have "4096 dvd unat b" using assms(2) b(1) by blast
  ultimately have "unat b = unat a" using assms(1) by (metis dvd_div_mult_self)
  then show ?thesis using b(1) by (metis unsigned_word_eqI)
qed

interpretation pp: page_provider get_free_page free_page pages_in_use
proof (unfold_locales, goal_cases)
  case (1 m U a m')
  then obtain B where B: "alloc_inv m (page_blocks U \<union> B)" "page_blocks U \<inter> B = {}" by (auto simp: pages_in_use_def)
  have fr: "free_frames m \<subseteq> {1 ..< 2 ^ 52}" "\<forall>b \<in> U. 4096 dvd unat b \<and> b \<noteq> 0" using 1(1) by (auto simp: pages_in_use_def)
  have "get_free_pages 0 m = (a, m')" using 1(2) by (simp add: get_free_page_def)
  from get_free_pages_Some [OF B(1) fr(1) this 1(3)] obtain p where p: "alloc_pages 0 m = (Some p, m')"
    "virt_to_page a = p" "a = page_to_address p" .
  note al = alloc_pages_inv [OF B(1) p(1)]
  have a: "4096 dvd unat a" by (simp add: p(3) page_to_address_aligned)
  moreover have "a \<notin> U" using al(2) p(2) by (auto simp: page_blocks_def)
  moreover have "(p, 0) \<notin> page_blocks U" using al(2) by auto
  ultimately show ?case
    using al(1,2,4) B(2) fr p(2) 1(3) by (auto simp: pages_in_use_def page_blocks_insert intro!: exI [of _ B])
next
  case (2 m U m')
  then obtain B where B: "alloc_inv m (page_blocks U \<union> B)" by (auto simp: pages_in_use_def)
  have fr: "free_frames m \<subseteq> {1 ..< 2 ^ 52}" using 2(1) by (auto simp: pages_in_use_def)
  show ?case
  proof (cases "alloc_pages 0 m")
    case (Pair r m1)
    show ?thesis
    proof (cases r)
      case None
      then show ?thesis
        using Pair 2(2) alloc_pages_None(2) [OF alloc_inv_buddy [OF B]] by (auto simp: get_free_page_def get_free_pages_def)
    next
      case (Some p)
      then have "p \<in> free_frames m" using alloc_pages_inv(4) [OF B, of 0 p m1] Pair frames_head by blast
      then have "page_to_address p \<noteq> 0" using fr page_to_address_0 by auto
      then show ?thesis using Pair Some 2(2) by (simp add: get_free_page_def get_free_pages_def)
    qed
  qed
next
  case (3 m a U)
  then obtain B where B: "alloc_inv m (insert (virt_to_page a, 0) (page_blocks U \<union> B))"
    "insert (virt_to_page a, 0) (page_blocks U) \<inter> B = {}"
    by (auto simp: pages_in_use_def page_blocks_insert)
  have fr: "free_frames m \<subseteq> {1 ..< 2 ^ 52}" "\<forall>b \<in> insert a U. 4096 dvd unat b \<and> b \<noteq> 0" using 3(1) by (auto simp: pages_in_use_def)
  have notin: "(virt_to_page a, 0) \<notin> page_blocks U \<union> B"
    using page_blocks_mem [of a U] fr(2) 3(2) B(2) by auto
  have r: "refcount (mem_map m (virt_to_page a)) = 1" "buddy_inv m (insert (virt_to_page a, 0) (page_blocks U \<union> B))"
    using B(1) by (simp_all add: alloc_inv_def)
  have "unat a < 2 ^ 64" by (rule order.strict_trans2 [OF unsigned_less]) simp
  then have "virt_to_page a < 2 ^ 52" "virt_to_page a \<noteq> 0"
    using fr(2) dvd_imp_le [of 4096 "unat a"]
    by (auto simp: virt_to_page_def PGSHIFT_def unat_drop_bit_div unat_eq_zero div_eq_0_iff less_mult_imp_div_less)
  then have "frames (virt_to_page a, 0) \<subseteq> {1 ..< 2 ^ 52}" by (auto simp: frames_def)
  then show ?case
    using uu_free_pages_alloc [OF B(1) notin] uu_free_pages_buddy(2) [OF r(2) notin r(1)] fr B(2)
    by (auto simp: free_page_def free_pages_def pages_in_use_def intro!: exI [of _ B])
qed

section \<open>A small machine\<close>

definition zero_page :: page where
  "zero_page = \<lparr>flags = 0, pg_private = 0, refcount = 0, freelist = 0, slob_left_units = 0\<rparr>"

definition small_node :: pg_data where
  "small_node = \<lparr>node_id = 0, node_start_pfn = 0, node_spanned_pages = 16, node_mem_map = 0,
     zone_start_pfn = 0, spanned_pages = 16, area = \<lambda>_. \<lparr>free_list = [], nr_free = 0\<rparr>,
     mem_map = \<lambda>_. zero_page\<rparr>"

definition small_boot :: pg_data where
  "small_boot = fold (\<lambda>b. memblock_free_pages (fst b) (snd b)) [(8, 2), (2, 1)] (init_zone_free_area_list small_node)"

lemma small_blocks:
  "\<And>p. \<not> PageBuddy (mem_map small_node p)" "\<And>b. b \<in> set [(8, 2), (2, 1)] \<Longrightarrow> aligned b"
  "disjoint_blocks (set [(8, 2), (2, 1)])" "distinct [(8, 2), (2::nat, 1::nat)]"
     apply (simp add: small_node_def zero_page_def PageBuddy_def get_bit_ul_def BIT_MASK_def BIT_WORD_def)
    apply (auto simp: aligned_def MAX_ORDER_def) [1]
   apply (auto simp: disjoint_blocks_def frames_def)
  done

lemma small_boot_inv: "alloc_inv small_boot {}" "free_frames small_boot = {2, 3, 8, 9, 10, 11}" "coalesced small_boot"
proof -
  let ?m = "init_zone_free_area_list small_node" and ?bs = "[(8, 2), (2, 1)] :: (nat \<times> nat) list"
  note init = init_inv [of small_node "set ?bs", OF small_blocks(1-3)]
  have co: "coalesced ?m" by (simp only: coalesced_def init(2) ball_empty)
  note boot = boot_blocks [OF init(1) small_blocks(4) co, of small_boot]
  have bf: "block_frames (set ?bs) = {2, 3, 8, 9, 10, 11}" by (auto simp: block_frames_def frames_def)
  show "alloc_inv small_boot {}" "coalesced small_boot" using boot by (simp_all add: small_boot_def alloc_inv_def)
  show "free_frames small_boot = {2, 3, 8, 9, 10, 11}"
    using boot init(2) bf by (simp add: small_boot_def free_frames_def block_frames_def)
qed

lemma small_boot_alloc: "fst (alloc_pages 0 small_boot) = Some 2" by code_simp

section \<open>Correctness of the allocator\<close>

text \<open>
  C1: \<^verbatim>\<open>alloc_pages\<close>. When it returns a page, that page heads an aligned block of the order
  asked for that was entirely free and overlaps no block in use; the free frames are exactly the
  old ones less the block, the invariant holds with the block in use, and no mergeable buddies
  appear. It returns \<^verbatim>\<open>NULL\<close> exactly when no free block is large enough, changing nothing.
\<close>

theorem alloc_pages_correct:
  assumes "alloc_inv m A"
  shows "case alloc_pages ord m of
      (Some p, m') \<Rightarrow> alloc_inv m' (insert (p, ord) A) \<and> aligned (p, ord) \<and> (p, ord) \<notin> A \<and>
        frames (p, ord) \<subseteq> free_frames m \<and> free_frames m' = free_frames m - frames (p, ord) \<and>
        (coalesced m \<longrightarrow> coalesced m') \<and> (\<exists>b \<in> free_blocks m. ord \<le> snd b)
    | (None, m') \<Rightarrow> m' = m \<and> (\<forall>b \<in> free_blocks m. snd b < ord)"
proof (cases "alloc_pages ord m")
  case (Pair r m')
  show ?thesis
  proof (cases r)
    case None
    then show ?thesis using Pair alloc_pages_None [OF alloc_inv_buddy [OF assms], of ord] by auto
  next
    case (Some p)
    note inv = alloc_pages_inv [OF assms Pair [unfolded Some]]
    have "aligned (p, ord)" using buddy_invD(2) [OF alloc_inv_buddy [OF inv(1)], of "(p, ord)"] by simp
    moreover have "\<exists>b \<in> free_blocks m. ord \<le> snd b"
      using alloc_pages_None(1) [OF alloc_inv_buddy [OF assms], of ord] Pair Some by (auto simp: not_less)
    ultimately show ?thesis using inv Pair Some by auto
  qed
qed

theorem alloc_pages_correct_witness:
  "alloc_inv small_boot {} \<and> fst (alloc_pages 0 small_boot) = Some 2 \<and> aligned (2, 0) \<and>
   free_frames (snd (alloc_pages 0 small_boot)) = {3, 8, 9, 10, 11}"
proof -
  obtain m' where m': "alloc_pages 0 small_boot = (Some 2, m')"
    using small_boot_alloc by (cases "alloc_pages 0 small_boot") simp
  have "free_frames m' = {2, 3, 8, 9, 10, 11} - frames (2, 0)" "aligned (2, 0)"
    using alloc_pages_correct [OF small_boot_inv(1), of 0] unfolding m' small_boot_inv(2) by simp_all
  moreover have "frames (2, 0) = {2}" by (auto simp: frames_def)
  ultimately show ?thesis using small_boot_inv(1) m' by simp
qed

text \<open>
  C2: \<^verbatim>\<open>free_pages\<close> of the address \<^verbatim>\<open>get_free_pages\<close> returned undoes the allocation: the
  same frames are free and the same blocks in use as before, and buddies stay merged. (The frame
  numbers of the machine are positive and fit the 52 bits of a page frame number.)
\<close>

theorem get_free_pages_roundtrip:
  assumes "alloc_inv m A" "free_frames m \<subseteq> {1 ..< 2 ^ 52}" "get_free_pages ord m = (a, m')" "a \<noteq> 0"
  shows "alloc_inv (free_pages a ord m') A \<and> free_frames (free_pages a ord m') = free_frames m \<and>
    (coalesced m \<longrightarrow> coalesced (free_pages a ord m'))"
proof -
  obtain p where p: "alloc_pages ord m = (Some p, m')" "virt_to_page a = p"
    using get_free_pages_Some [OF assms] by blast
  note al = alloc_pages_inv [OF assms(1) p(1)]
  have r: "refcount (mem_map m' p) = 1" "buddy_inv m' (insert (p, ord) A)" using al(1) by (simp_all add: alloc_inv_def)
  show ?thesis
    unfolding free_pages_def p(2) uu_free_pages_buddy(2) [OF r(2) al(2) r(1)]
    using uu_free_pages_alloc [OF al(1,2)] uu_free_pages_buddy(3) [OF r(2) al(2) r(1)] al(4,5)
    by (simp add: Un_commute)
qed

theorem get_free_pages_roundtrip_witness:
  "free_frames (free_pages 0x2000 0 (snd (get_free_pages 0 small_boot))) = {2, 3, 8, 9, 10, 11}"
proof -
  have "get_free_pages 0 small_boot = (0x2000, snd (get_free_pages 0 small_boot))"
    using small_boot_alloc
    by (auto simp: get_free_pages_def page_to_address_def PGSHIFT_def push_bit_eq_mult split: prod.splits option.splits)
  from get_free_pages_roundtrip [OF small_boot_inv(1) _ this] show ?thesis
    using small_boot_inv(2) by simp
qed

text \<open>
  C3: \<^verbatim>\<open>__free_pages\<close> of any block in use (reference count one), in any order of frees: the block
  leaves the set in use, its frames join the free frames, the invariant is kept although stale
  buddy flags are left behind, and merging leaves no two free buddies side by side.
\<close>

theorem free_pages_correct:
  assumes "alloc_inv m (insert (p, ord) A)" "(p, ord) \<notin> A"
  shows "alloc_inv (uu_free_pages p ord m) A \<and>
    free_frames (uu_free_pages p ord m) = free_frames m \<union> frames (p, ord) \<and>
    (coalesced m \<longrightarrow> coalesced (uu_free_pages p ord m))"
proof -
  have "refcount (mem_map m p) = 1" "buddy_inv m (insert (p, ord) A)" using assms(1) by (simp_all add: alloc_inv_def)
  then show ?thesis
    using uu_free_pages_alloc [OF assms] uu_free_pages_buddy(2,3) [OF _ assms(2)] by blast
qed

theorem free_pages_correct_witness:
  "alloc_inv (uu_free_pages 2 0 (snd (alloc_pages 0 small_boot))) {}"
proof -
  have a: "alloc_pages 0 small_boot = (Some 2, snd (alloc_pages 0 small_boot))"
    using small_boot_alloc by (simp add: prod_eq_iff)
  show ?thesis using free_pages_correct [OF alloc_pages_inv(1,2) [OF small_boot_inv(1) a]] by blast
qed

text \<open>
  C4: boot. On a node with no page flagged, initialising the free lists and releasing any list of
  aligned disjoint blocks with \<^verbatim>\<open>memblock_free_pages\<close> establishes the allocator's invariant with
  nothing in use, exactly the frames of those blocks free, and all free buddies merged.
\<close>

theorem memblock_free_pages_boot:
  assumes "\<forall>p. \<not> PageBuddy (mem_map m p)" "\<forall>b \<in> set bs. aligned b" "disjoint_blocks (set bs)" "distinct bs"
    and "m' = fold (\<lambda>b. memblock_free_pages (fst b) (snd b)) bs (init_zone_free_area_list m)"
  shows "alloc_inv m' {} \<and> free_frames m' = block_frames (set bs) \<and> coalesced m'"
proof -
  note init = init_inv [of m "set bs"]
  have "coalesced (init_zone_free_area_list m)"
    using init(2) assms(1-3) unfolding coalesced_def by simp
  then show ?thesis
    using boot_blocks [OF init(1) assms(4) _ assms(5)] init(2) assms(1-3)
    by (simp add: alloc_inv_def free_frames_def block_frames_def)
qed

theorem memblock_free_pages_boot_witness:
  "alloc_inv small_boot {} \<and> free_frames small_boot = block_frames {(8, 2), (2, 1)} \<and> coalesced small_boot"
  using memblock_free_pages_boot [of small_node "[(8, 2), (2, 1)]" small_boot] small_blocks
  by (simp add: small_boot_def)

end
