(* ===== verification/Memblock.thy ===== *)
theory Memblock
  imports Page_alloc
begin

text \<open>
  The boot-time allocator of \<^verbatim>\<open>kernel/memblock.c\<close> and the memory initialisation of
  \<^verbatim>\<open>kernel/mm.c\<close> and \<^verbatim>\<open>kernel/page_alloc.c\<close> that drives it. The regions are a doubly
  linked list through the static array \<^verbatim>\<open>memblock_regions\<close>; the array is a store from
  pointers to records, since the code's entity allocator can hand out one entry twice and the
  claims depend on that aliasing. Pointer 0 is \<^verbatim>\<open>NULL\<close>, 1 is \<^verbatim>\<open>&memblock.head\<close> and \<open>2 + i\<close>
  is \<^verbatim>\<open>&memblock_regions[i]\<close>. Walks of the list take fuel; \<open>None\<close> is a walk that does not end.
\<close>

section \<open>State\<close>

definition MEMBLOCK_FREE :: u32 where "MEMBLOCK_FREE = 0"
definition MEMBLOCK_RESERVE :: u32 where "MEMBLOCK_RESERVE = 1"

definition MAX_MEMBLOCK_REGIONS :: nat where
  "MAX_MEMBLOCK_REGIONS = 64"

definition EINVAL :: int where "EINVAL = 22"

record memblock_region =
  mb_base :: u64
  mb_size :: u64
  mb_flags :: u32
  allocated :: u32
  mb_prev :: nat
  mb_next :: nat

record memblock =
  region :: "nat \<Rightarrow> memblock_region"
  num_regions :: u32
  total_size :: u64

definition mb_head :: nat where "mb_head = 1"

definition entry :: "nat \<Rightarrow> nat" where "entry i = 2 + i"

definition upd_region :: "nat \<Rightarrow> (memblock_region \<Rightarrow> memblock_region) \<Rightarrow> memblock \<Rightarrow> memblock" where
  "upd_region p f s = s\<lparr>region := (region s)(p := f (region s p))\<rparr>"

text \<open>Longest walk over a list without repetition, with the final \<^verbatim>\<open>NULL\<close> test.\<close>

definition walk_fuel :: nat where
  "walk_fuel = MAX_MEMBLOCK_REGIONS + 1"

section \<open>Regions\<close>

definition memblock_insert_new :: "nat \<Rightarrow> nat \<Rightarrow> nat \<Rightarrow> memblock \<Rightarrow> memblock" where
  "memblock_insert_new lst new mrg s =
     (let s = upd_region lst (\<lambda>r. r\<lparr>mb_next := new\<rparr>) s;
          s = upd_region new (\<lambda>r. r\<lparr>mb_prev := lst\<rparr>) s;
          s = upd_region new (\<lambda>r. r\<lparr>mb_next := mrg\<rparr>) s
      in upd_region mrg (\<lambda>r. r\<lparr>mb_prev := new\<rparr>) s)"

text \<open>The mark goes to \<^verbatim>\<open>memblock_regions->allocated\<close>, which is entry 0 whatever \<open>i\<close> is.\<close>

fun get_entity_loop :: "nat list \<Rightarrow> memblock \<Rightarrow> nat \<times> memblock" where
  "get_entity_loop [] s = (0, s)"
| "get_entity_loop (i # is) s =
     (if allocated (region s (entry i)) = 0
      then (entry i, upd_region (entry 0) (\<lambda>r. r\<lparr>allocated := 1\<rparr>) s)
      else get_entity_loop is s)"

definition memblock_get_region_entity :: "memblock \<Rightarrow> nat \<times> memblock" where
  "memblock_get_region_entity s = get_entity_loop [0..<MAX_MEMBLOCK_REGIONS] s"

definition memblock_free_region_entity :: "nat \<Rightarrow> memblock \<Rightarrow> memblock" where
  "memblock_free_region_entity mrg s =
     upd_region mrg (\<lambda>r. r\<lparr>allocated := 0, mb_prev := 0, mb_next := 0\<rparr>) s"

definition memblock_init_entity :: "u64 \<Rightarrow> u64 \<Rightarrow> u32 \<Rightarrow> memblock \<Rightarrow> nat \<times> memblock" where
  "memblock_init_entity base sz fl s =
     (let (mrg, s) = memblock_get_region_entity s
      in if mrg = 0 then (0, s)
         else (mrg, upd_region mrg
                (\<lambda>r. r\<lparr>mb_base := base, mb_size := sz, mb_flags := fl, mb_prev := 0, mb_next := 0\<rparr>) s))"

text \<open>How the scan of \<^verbatim>\<open>memblock_add_region\<close> ends.\<close>

datatype add_exit = Found | Found_tail | Fell_out

fun add_scan :: "nat \<Rightarrow> memblock \<Rightarrow> nat \<Rightarrow> u64 \<Rightarrow> u64 \<Rightarrow> (nat \<times> add_exit) option" where
  "add_scan 0 s mrg base end = None"
| "add_scan (Suc fuel) s mrg base end =
     (if mrg = 0 then Some (0, Fell_out)
      else let r = region s mrg; mend = mb_base r + mb_size r; nx = mb_next r
           in if mend < base
              then (if nx \<noteq> 0 then add_scan fuel s nx base end else Some (mrg, Found_tail))
              else if base < mend \<and> mend < end then Some (mrg, Fell_out)
              else if nx \<noteq> 0 \<and> mb_base (region s nx) < end then Some (mrg, Fell_out)
              else Some (mrg, Found))"

definition add_tail_part :: "nat \<Rightarrow> nat \<Rightarrow> memblock \<Rightarrow> memblock" where
  "add_tail_part mrg new s =
     upd_region new (\<lambda>r. r\<lparr>mb_prev := mrg\<rparr>) (upd_region mrg (\<lambda>r. r\<lparr>mb_next := new\<rparr>) s)"

text \<open>
  After the loop \<^verbatim>\<open>memblock_free_region_entity\<close> falls through to \<^verbatim>\<open>found\<close>, and \<^verbatim>\<open>found\<close> to
  \<^verbatim>\<open>found_tail\<close>: the labels do not end in a return.
\<close>

definition memblock_add_region :: "u64 \<Rightarrow> u64 \<Rightarrow> memblock \<Rightarrow> (int \<times> memblock) result option" where
  "memblock_add_region base sz s =
     (let end = base + sz;
          base = PGROUNDDOWN base;
          sz = PGROUNDUP sz;
          (new, s) = memblock_init_entity base sz MEMBLOCK_FREE s
      in if new = 0 then Some (Inr (- EINVAL, s))
         else if mb_next (region s mb_head) = 0
         then let s = upd_region mb_head (\<lambda>r. r\<lparr>mb_next := new\<rparr>) s;
                  s = upd_region new (\<lambda>r. r\<lparr>mb_prev := mb_head\<rparr>) s
              in Some (Inr (0, s\<lparr>total_size := sz, num_regions := num_regions s + 1\<rparr>))
         else case add_scan walk_fuel s (mb_next (region s mb_head)) base end of
                None \<Rightarrow> None
              | Some (mrg, Found_tail) \<Rightarrow> Some (Inr (0, add_tail_part mrg new s))
              | Some (mrg, ex) \<Rightarrow>
                  let s = (if ex = Fell_out then memblock_free_region_entity new s else s)
                  in if mrg = 0 \<or> mb_prev (region s mrg) = 0 then Some (Inl NullDeref)
                     else let s = memblock_insert_new (mb_prev (region s mrg)) new mrg s
                          in Some (Inr (0, add_tail_part mrg new s)))"

section \<open>Allocation and reservation\<close>

text \<open>\<^verbatim>\<open>memblock_alloc\<close> takes a 32-bit size, so the rounding is done at 32 bits.\<close>

definition PGROUNDUP32 :: "u32 \<Rightarrow> u32" where
  "PGROUNDUP32 sz = (sz + 4096 - 1) AND NOT (4096 - 1)"

fun alloc_loop :: "nat \<Rightarrow> u64 \<Rightarrow> u64 \<Rightarrow> nat \<Rightarrow> memblock \<Rightarrow> (u64 \<times> memblock) result option" where
  "alloc_loop 0 sz alloc_start mrg s = None"
| "alloc_loop (Suc fuel) sz alloc_start mrg s =
     (if mrg = 0 then Some (Inr (0, s))
      else let r = region s mrg; mbase = mb_base r; mend = mb_base r + mb_size r; prev = mb_prev r
           in if mb_flags r = MEMBLOCK_RESERVE then alloc_loop fuel sz alloc_start (mb_next r) s
              else if mbase < alloc_start \<or> mend \<le> alloc_start then alloc_loop fuel sz alloc_start (mb_next r) s
              else if mb_size r < sz then alloc_loop fuel sz alloc_start (mb_next r) s
              else if prev = 0 then Some (Inl NullDeref)
              else let pr = region s prev
                   in if mb_base pr + mb_size pr = mbase \<and> mb_flags pr = MEMBLOCK_RESERVE \<and> mb_flags r = MEMBLOCK_FREE
                      then let s = upd_region prev (\<lambda>r. r\<lparr>mb_size := mb_size r + sz\<rparr>) s;
                               s = upd_region mrg (\<lambda>r. r\<lparr>mb_base := mb_base r + sz, mb_size := mb_size r - sz\<rparr>) s
                           in Some (Inr (mbase, s))
                      else let (new, s) = memblock_init_entity mbase sz MEMBLOCK_RESERVE s
                           in if new = 0 then Some (Inr (0, s))
                              else let s = upd_region mrg (\<lambda>r. r\<lparr>mb_base := mbase + sz\<rparr>) s;
                                       s = upd_region mrg (\<lambda>r. r\<lparr>mb_size := mb_size r - sz\<rparr>) s;
                                       s = memblock_insert_new prev new mrg s;
                                       s = s\<lparr>num_regions := num_regions s + 1\<rparr>
                                   in Some (Inr (mb_base (region s new), s)))"

definition memblock_alloc :: "u64 \<Rightarrow> u32 \<Rightarrow> memblock \<Rightarrow> (u64 \<times> memblock) result option" where
  "memblock_alloc kernel_end sz s =
     (let sz = PGROUNDUP32 sz;
          alloc_start = PAGE_ALIGN kernel_end
      in alloc_loop walk_fuel (ucast sz) alloc_start (mb_next (region s mb_head)) s)"

definition memblock_virt_alloc :: "u64 \<Rightarrow> u64 \<Rightarrow> memblock \<Rightarrow> (u64 \<times> memblock) result option" where
  "memblock_virt_alloc kernel_end sz s = memblock_alloc kernel_end (ucast sz) s"

fun reserve_loop :: "nat \<Rightarrow> u64 \<Rightarrow> u64 \<Rightarrow> u64 \<Rightarrow> nat \<Rightarrow> memblock \<Rightarrow> (int \<times> memblock) result option" where
  "reserve_loop 0 base sz end mrg s = None"
| "reserve_loop (Suc fuel) base sz end mrg s =
     (if mrg = 0 then Some (Inr (- EINVAL, s))
      else let r = region s mrg; mbase = mb_base r; mend = mb_base r + mb_size r; prev = mb_prev r
           in if mbase > end then Some (Inr (- EINVAL, s))
              else if mend < base then reserve_loop fuel base sz end (mb_next r) s
              else if mb_flags r = MEMBLOCK_RESERVE then reserve_loop fuel base sz end (mb_next r) s
              else if mend = end \<and> mbase = base
              then Some (Inr (0, upd_region mrg (\<lambda>r. r\<lparr>mb_flags := MEMBLOCK_RESERVE\<rparr>) s))
              else if mbase = base
              then let (new, s) = memblock_init_entity base sz MEMBLOCK_RESERVE s
                   in if new = 0 then Some (Inr (- EINVAL, s))
                      else if prev = 0 then Some (Inl NullDeref)
                      else let s = upd_region mrg (\<lambda>r. r\<lparr>mb_base := mb_base r + sz, mb_size := mb_size r - sz\<rparr>) s;
                               s = memblock_insert_new prev new mrg s
                           in Some (Inr (0, s\<lparr>num_regions := num_regions s + 1\<rparr>))
              else if mend = base + sz
              then let (new, s) = memblock_init_entity mbase (mb_size r - sz) MEMBLOCK_FREE s
                   in if new = 0 then Some (Inr (- EINVAL, s))
                      else if prev = 0 then Some (Inl NullDeref)
                      else let s = upd_region mrg (\<lambda>r. r\<lparr>mb_size := mb_size r - sz, mb_base := mb_base r + sz,
                                                     mb_flags := MEMBLOCK_RESERVE\<rparr>) s;
                               s = memblock_insert_new prev new mrg s
                           in Some (Inr (0, s\<lparr>num_regions := num_regions s + 1\<rparr>))
              else if mbase < base \<and> mend > end
              then let (new, s) = memblock_init_entity mbase (base - mbase) MEMBLOCK_FREE s
                   in if new = 0 then Some (Inr (- EINVAL, s))
                      else let (new1, s) = memblock_init_entity base sz MEMBLOCK_RESERVE s
                           in if new1 = 0 then Some (Inr (- EINVAL, s))
                              else if prev = 0 then Some (Inl NullDeref)
                              else let s = upd_region mrg (\<lambda>r. r\<lparr>mb_base := base + sz\<rparr>) s;
                                       s = upd_region mrg (\<lambda>r. r\<lparr>mb_size := mb_size r - mb_size (region s new1)
                                                                              - mb_size (region s new)\<rparr>) s;
                                       s = upd_region mrg (\<lambda>r. r\<lparr>mb_flags := MEMBLOCK_FREE\<rparr>) s;
                                       s = memblock_insert_new prev new new1 s;
                                       s = s\<lparr>num_regions := num_regions s + 1\<rparr>;
                                       s = memblock_insert_new new new1 mrg s
                                   in Some (Inr (0, s\<lparr>num_regions := num_regions s + 1\<rparr>))
              else reserve_loop fuel base sz end (mb_next r) s)"

definition memblock_reserve :: "u64 \<Rightarrow> u64 \<Rightarrow> memblock \<Rightarrow> (int \<times> memblock) result option" where
  "memblock_reserve base sz s =
     (let end = base + sz;
          base = PGROUNDDOWN base;
          sz = PGROUNDUP sz
      in reserve_loop walk_fuel base sz end (mb_next (region s mb_head)) s)"

section \<open>Handing memory to the buddy allocator\<close>

text \<open>Frame numbers are addresses shifted right by 12, so additions to them do not wrap.\<close>

function reserve_pfns :: "nat \<Rightarrow> nat \<Rightarrow> pg_data \<Rightarrow> pg_data" where
  "reserve_pfns start_pfn end_pfn m =
     (if start_pfn < end_pfn then reserve_pfns (start_pfn + 1) end_pfn (upd_page start_pfn SetPageReserved m) else m)"
  by pat_completeness auto
termination
  by (relation "measure (\<lambda>(s, e, m). e - s)") auto

declare reserve_pfns.simps [simp del]

definition reserve_mem_region :: "u64 \<Rightarrow> u64 \<Rightarrow> pg_data \<Rightarrow> pg_data" where
  "reserve_mem_region start end m = reserve_pfns (unat (PFN_DOWN start)) (unat (PFN_UP end)) m"

text \<open>\<^verbatim>\<open>while ((start_pfn + (1 << order)) > end_pfn) order--;\<close> stops by order 0, as \<open>start_pfn < end_pfn\<close>.\<close>

fun fit_order :: "nat \<Rightarrow> nat \<Rightarrow> nat \<Rightarrow> nat" where
  "fit_order start_pfn end_pfn 0 = 0"
| "fit_order start_pfn end_pfn (Suc k) =
     (if start_pfn + 2 ^ Suc k > end_pfn then fit_order start_pfn end_pfn k else Suc k)"

definition free_order :: "nat \<Rightarrow> nat \<Rightarrow> nat" where
  "free_order start_pfn end_pfn = fit_order start_pfn end_pfn (min (MAX_ORDER - 1) (uu_ffs (of_nat start_pfn)))"

function free_pfns :: "nat \<Rightarrow> nat \<Rightarrow> pg_data \<Rightarrow> pg_data" where
  "free_pfns start_pfn end_pfn m =
     (if start_pfn < end_pfn
      then let ord = free_order start_pfn end_pfn
           in free_pfns (start_pfn + 2 ^ ord) end_pfn (memblock_free_pages start_pfn ord m)
      else m)"
  by pat_completeness auto
termination
  by (relation "measure (\<lambda>(s, e, m). e - s)") (auto simp: diff_less_mono2)

declare free_pfns.simps [simp del]

definition memblock_free_memory :: "u64 \<Rightarrow> u64 \<Rightarrow> pg_data \<Rightarrow> u64 \<times> pg_data" where
  "memblock_free_memory start end m =
     (let start_pfn = PFN_DOWN start; end_pfn = PFN_UP end
      in if start_pfn \<ge> end_pfn then (0, m)
         else (end - start, free_pfns (unat start_pfn) (unat end_pfn) m))"

fun free_all_loop :: "nat \<Rightarrow> memblock \<Rightarrow> nat \<Rightarrow> u64 \<Rightarrow> pg_data \<Rightarrow> (u64 \<times> pg_data) option" where
  "free_all_loop 0 s mrg count m = None"
| "free_all_loop (Suc fuel) s mrg count m =
     (if mrg = 0 then Some (count, m)
      else let r = region s mrg;
               m = (if mb_flags r = MEMBLOCK_RESERVE then reserve_mem_region (mb_base r) (mb_base r + mb_size r) m else m);
               (n, m) = (if mb_flags r = MEMBLOCK_FREE then memblock_free_memory (mb_base r) (mb_base r + mb_size r) m else (0, m))
           in free_all_loop fuel s (mb_next r) (count + n) m)"

definition memblock_free_all :: "memblock \<Rightarrow> pg_data \<Rightarrow> (u64 \<times> pg_data) option" where
  "memblock_free_all s m = free_all_loop walk_fuel s (mb_next (region s mb_head)) 0 m"


section \<open>Memory initialisation\<close>

definition KERNBASE :: u64 where "KERNBASE = 0x80000000"
definition PHYSTOP :: u64 where "PHYSTOP = KERNBASE + 128 * 1024 * 1024"

definition bootmem_get_start_ddr :: u64 where "bootmem_get_start_ddr = KERNBASE"
definition bootmem_get_end_ddr :: u64 where "bootmem_get_end_ddr = PHYSTOP"

text \<open>The linker symbols \<^verbatim>\<open>_text_boot\<close> and \<^verbatim>\<open>_end\<close> are arguments.\<close>

definition memblock_init :: "u64 \<Rightarrow> u64 \<Rightarrow> memblock \<Rightarrow> memblock result option" where
  "memblock_init text_boot kend s =
     (let start_mem = PAGE_ALIGN bootmem_get_start_ddr;
          end_mem = bootmem_get_end_ddr AND PAGE_MASK;
          free = end_mem - start_mem;
          kernel_start = text_boot;
          kernel_end = kend + PGSIZE
      in case memblock_add_region start_mem free s of
           None \<Rightarrow> None
         | Some (Inl e) \<Rightarrow> Some (Inl e)
         | Some (Inr (_, s)) \<Rightarrow>
             let kernel_size = kernel_end - kernel_start
             in case memblock_reserve kernel_start kernel_size s of
                  None \<Rightarrow> None
                | Some (Inl e) \<Rightarrow> Some (Inl e)
                | Some (Inr (_, s)) \<Rightarrow> Some (Inr s))"

definition MAX_ORDER_NR_PAGES :: u64 where
  "MAX_ORDER_NR_PAGES = push_bit (MAX_ORDER - 1) 1"

definition sizeof_page :: u64 where "sizeof_page = 64"

definition ALIGN :: "u64 \<Rightarrow> u64 \<Rightarrow> u64" where
  "ALIGN x a = (x + (a - 1)) AND NOT (a - 1)"

text \<open>\<^verbatim>\<open>memset(map, 0, size)\<close> clears the records of the frames from \<open>start\<close> to \<open>end\<close>.\<close>

definition zero_pages :: "nat \<Rightarrow> nat \<Rightarrow> pg_data \<Rightarrow> pg_data" where
  "zero_pages start end m = m\<lparr>mem_map := \<lambda>p. if start \<le> p \<and> p < end then zero_page else mem_map m p\<rparr>"

definition alloc_node_mem_map :: "u64 \<Rightarrow> memblock \<Rightarrow> pg_data \<Rightarrow> (int \<times> memblock \<times> pg_data) result option" where
  "alloc_node_mem_map kend s m =
     (let start = node_start_pfn m AND NOT (MAX_ORDER_NR_PAGES - 1);
          offset = node_start_pfn m - start
      in if node_mem_map m \<noteq> 0 then Some (Inr (0, s, m))
         else let end = ALIGN (node_start_pfn m + node_spanned_pages m) MAX_ORDER_NR_PAGES;
                  sz = (end - start) * sizeof_page
              in case memblock_virt_alloc kend sz s of
                   None \<Rightarrow> None
                 | Some (Inl e) \<Rightarrow> Some (Inl e)
                 | Some (Inr (mp, s)) \<Rightarrow>
                     if mp = 0 then Some (Inr (- EINVAL, s, m))
                     else Some (Inr (0, s, (zero_pages (unat start) (unat end) m)
                                             \<lparr>node_mem_map := mp + offset * sizeof_page\<rparr>)))"

definition free_area_init_node :: "u64 \<Rightarrow> nat \<Rightarrow> u64 \<Rightarrow> u64 \<Rightarrow> memblock \<Rightarrow> pg_data \<Rightarrow> (memblock \<times> pg_data) result option" where
  "free_area_init_node kend nid start_pfn zone_size s m =
     (let m = m\<lparr>node_id := nid, node_start_pfn := start_pfn\<rparr>;
          m = calculate_node_totalpages start_pfn zone_size m;
          m = init_zone_free_area_list m
      in case alloc_node_mem_map kend s m of
           None \<Rightarrow> None
         | Some (Inl e) \<Rightarrow> Some (Inl e)
         | Some (Inr (_, s, m)) \<Rightarrow> Some (Inr (s, m)))"

definition zone_sizes_init :: "u64 \<Rightarrow> u64 \<Rightarrow> u64 \<Rightarrow> memblock \<Rightarrow> pg_data \<Rightarrow> (memblock \<times> pg_data) result option" where
  "zone_sizes_init kend mn mx s m = free_area_init_node kend 0 mn (mx - mn) s m"

definition bootmem_init :: "u64 \<Rightarrow> memblock \<Rightarrow> pg_data \<Rightarrow> (memblock \<times> pg_data) result option" where
  "bootmem_init kend s m =
     (let mn = PFN_UP bootmem_get_start_ddr;
          mx = PFN_DOWN bootmem_get_end_ddr
      in zone_sizes_init kend mn mx s m)"

text \<open>\<^verbatim>\<open>mem_init\<close> up to the call of \<^verbatim>\<open>kmem_cache_init\<close>.\<close>

definition mem_init :: "u64 \<Rightarrow> u64 \<Rightarrow> memblock \<Rightarrow> pg_data \<Rightarrow> (u64 \<times> memblock \<times> pg_data) result option" where
  "mem_init text_boot kend s m =
     (case memblock_init text_boot kend s of
        None \<Rightarrow> None
      | Some (Inl e) \<Rightarrow> Some (Inl e)
      | Some (Inr s) \<Rightarrow>
          (case bootmem_init kend s m of
             None \<Rightarrow> None
           | Some (Inl e) \<Rightarrow> Some (Inl e)
           | Some (Inr (s, m)) \<Rightarrow>
               (case memblock_free_all s m of None \<Rightarrow> None | Some (count, m) \<Rightarrow> Some (Inr (count, s, m)))))"

section \<open>Releasing a range of frames\<close>

lemma fit_order_fits:
  "s < e \<Longrightarrow> s + 2 ^ fit_order s e k \<le> e" "fit_order s e k \<le> k"
  by (induction k) auto

lemma uu_ffs_dvd: "s < 2 ^ 64 \<Longrightarrow> s \<noteq> 0 \<Longrightarrow> 2 ^ uu_ffs (of_nat s) dvd s"
proof -
  assume s: "s < 2 ^ 64" "s \<noteq> 0"
  then have u: "unat (of_nat s :: u64) = s" by (simp add: unat_of_nat take_bit_nat_eq_self)
  then have "(of_nat s :: u64) \<noteq> 0" using s by (metis unat_0)
  then have low: "\<not> bit (of_nat s :: u64) i" if "i < uu_ffs (of_nat s)" for i
    using uu_ffs_lowest [of "of_nat s"] that by blast
  have "take_bit (uu_ffs (of_nat s)) (of_nat s :: u64) = 0"
    by (rule bit_word_eqI) (auto simp: bit_take_bit_iff low)
  then have "unat (take_bit (uu_ffs (of_nat s)) (of_nat s :: u64)) = 0" by simp
  then have "take_bit (uu_ffs (of_nat s)) s = 0" by (simp only: unsigned_take_bit_eq u)
  then show ?thesis by (simp add: take_bit_eq_mod dvd_eq_mod_eq_0)
qed

lemma free_order_aligned:
  assumes "s < e" "e \<le> 2 ^ 64"
  shows "aligned (s, free_order s e)" "s + 2 ^ free_order s e \<le> e"
proof -
  let ?k = "min (MAX_ORDER - 1) (uu_ffs (of_nat s))"
  have le: "free_order s e \<le> ?k" unfolding free_order_def by (rule fit_order_fits(2))
  have "2 ^ free_order s e dvd s"
  proof (cases "s = 0")
    case False
    then have "2 ^ uu_ffs (of_nat s) dvd s" using assms by (intro uu_ffs_dvd) auto
    moreover have "(2::nat) ^ free_order s e dvd 2 ^ uu_ffs (of_nat s)" using le by (intro le_imp_power_dvd) simp
    ultimately show ?thesis by (rule dvd_trans [rotated])
  qed simp
  moreover have "free_order s e < MAX_ORDER" using le by (simp add: MAX_ORDER_def)
  ultimately show "aligned (s, free_order s e)" by (simp add: aligned_def)
  show "s + 2 ^ free_order s e \<le> e" unfolding free_order_def by (rule fit_order_fits(1)) (rule assms(1))
qed

text \<open>The blocks the loop releases, as a list.\<close>

function block_list :: "nat \<Rightarrow> nat \<Rightarrow> (nat \<times> nat) list" where
  "block_list s e = (if s < e then (s, free_order s e) # block_list (s + 2 ^ free_order s e) e else [])"
  by pat_completeness auto
termination
  by (relation "measure (\<lambda>(s, e). e - s)") (auto simp: diff_less_mono2)

declare block_list.simps [simp del]

lemma free_pfns_fold: "free_pfns s e m = fold (\<lambda>b. memblock_free_pages (fst b) (snd b)) (block_list s e) m"
proof (induction s e m rule: free_pfns.induct)
  case (1 s e m)
  then show ?case by (subst free_pfns.simps, subst block_list.simps) (simp add: Let_def)
qed

lemma block_list_partition:
  "e \<le> 2 ^ 64 \<Longrightarrow> block_frames (set (block_list s e)) = {s..<e} \<and> distinct (block_list s e) \<and>
    disjoint_blocks (set (block_list s e)) \<and> (\<forall>b \<in> set (block_list s e). aligned b \<and> s \<le> fst b)"
proof (induction s e rule: block_list.induct)
  case (1 s e)
  show ?case
  proof (cases "s < e")
    case True
    let ?k = "free_order s e"
    let ?t = "s + 2 ^ ?k"
    let ?r = "block_list ?t e"
    note IH = "1.IH" [OF True "1.prems"]
    have al: "aligned (s, ?k)" "?t \<le> e" using free_order_aligned [OF True "1.prems"] by auto
    have eq: "block_list s e = (s, ?k) # ?r" using True by (subst block_list.simps) simp
    have apart: "frames b \<inter> frames (s, ?k) = {}" if "b \<in> set ?r" for b
      using that IH by (auto simp: frames_def)
    have "(s, ?k) \<notin> set ?r" using apart [of "(s, ?k)"] by (auto simp: frames_def)
    moreover have "disjoint_blocks (set (block_list s e))"
      using IH apart by (auto simp: eq disjoint_blocks_def)
    moreover have "block_frames (set (block_list s e)) = {s..<e}"
      using IH al by (auto simp: eq frames_def)
    moreover have "\<forall>b \<in> set (block_list s e). aligned b \<and> s \<le> fst b"
      using IH al by (auto simp: eq)
    ultimately show ?thesis using IH by (simp add: eq)
  qed (simp_all add: block_list.simps block_frames_def disjoint_blocks_def)
qed


lemma free_pfns_boot:
  assumes "e \<le> 2 ^ 64" "free_blocks m = {}" "lists_ok m" "\<And>p. tag m p = None"
  shows "buddy_inv (free_pfns s e m) {} \<and> coalesced (free_pfns s e m) \<and> free_frames (free_pfns s e m) = {s..<e}"
proof -
  note part = block_list_partition [OF assms(1), of s]
  have "buddy_inv m (set (block_list s e))"
    by (rule buddy_invI) (use part assms(2-4) in auto)
  moreover have "coalesced m" by (simp add: coalesced_def assms(2))
  ultimately show ?thesis
    using boot_blocks [of m "block_list s e" "free_pfns s e m"] part assms(2)
    by (simp add: free_pfns_fold free_frames_def block_frames_def [of "{}"])
qed

lemma reserve_pfns_frame:
  "area (reserve_pfns s e m) = area m \<and> tag (reserve_pfns s e m) = tag m"
proof (induction s e m rule: reserve_pfns.induct)
  case (1 s e m)
  have "tag (upd_page s SetPageReserved m) = tag m"
    by (rule ext) (auto simp: tag_def frame_simps SetPageReserved_def PageBuddy_def get_bit_ul_def set_bit_ul_def
        PG_reserved_def PG_buddy_def BIT_MASK_def BIT_WORD_def BITS_PER_LONG_def bit_simps simp flip: push_bit_and)
  then show ?case using 1 by (subst (1 2) reserve_pfns.simps) (simp add: frame_simps)
qed

section \<open>The region list after boot\<close>

definition zero_region :: memblock_region where
  "zero_region = \<lparr>mb_base = 0, mb_size = 0, mb_flags = 0, allocated = 0, mb_prev = 0, mb_next = 0\<rparr>"

definition boot_memblock :: memblock where
  "boot_memblock = \<lparr>region = \<lambda>_. zero_region, num_regions = 0, total_size = 0\<rparr>"

lemma get_region_entity_steps:
  "allocated (region s (entry 0)) = 0 \<Longrightarrow>
     memblock_get_region_entity s = (entry 0, upd_region (entry 0) (\<lambda>r. r\<lparr>allocated := 1\<rparr>) s)"
  "allocated (region s (entry 0)) \<noteq> 0 \<Longrightarrow> allocated (region s (entry 1)) = 0 \<Longrightarrow>
     memblock_get_region_entity s = (entry 1, upd_region (entry 0) (\<lambda>r. r\<lparr>allocated := 1\<rparr>) s)"
  by (simp_all add: memblock_get_region_entity_def MAX_MEMBLOCK_REGIONS_def upt_rec)

lemmas region_simps = upd_region_def memblock_insert_new_def entry_def mb_head_def

lemma add_region_empty:
  assumes "s = boot_memblock"
  shows "\<exists>s'. memblock_add_region base sz s = Some (Inr (0, s')) \<and>
     mb_next (region s' mb_head) = entry 0 \<and> mb_flags (region s' mb_head) = 0 \<and>
     region s' (entry 0) = \<lparr>mb_base = PGROUNDDOWN base, mb_size = PGROUNDUP sz, mb_flags = MEMBLOCK_FREE,
       allocated = 1, mb_prev = mb_head, mb_next = 0\<rparr> \<and>
     allocated (region s' (entry 1)) = 0"
  using assms
  by (simp add: memblock_add_region_def memblock_init_entity_def get_region_entity_steps(1) boot_memblock_def
      zero_region_def region_simps Let_def)

lemma walk_fuel_Suc: obtains f where "walk_fuel = Suc (Suc (Suc f))"
  by (rule that [of 62]) (simp add: walk_fuel_def MAX_MEMBLOCK_REGIONS_def)

text \<open>Reserving the low end of a lone free region splits it in two.\<close>

lemma reserve_low_end:
  assumes "mb_next (region s mb_head) = entry 0"
    "region s (entry 0) = \<lparr>mb_base = b, mb_size = z, mb_flags = MEMBLOCK_FREE, allocated = 1, mb_prev = mb_head, mb_next = 0\<rparr>"
    "allocated (region s (entry 1)) = 0" "PGROUNDDOWN b = b" "\<not> b + k < b" "\<not> b + z < b" "b + z \<noteq> b + k"
  shows "\<exists>s'. memblock_reserve b k s = Some (Inr (0, s')) \<and>
     mb_next (region s' mb_head) = entry 1 \<and>
     mb_base (region s' (entry 1)) = b \<and> mb_size (region s' (entry 1)) = PGROUNDUP k \<and>
     mb_flags (region s' (entry 1)) = MEMBLOCK_RESERVE \<and> mb_next (region s' (entry 1)) = entry 0 \<and>
     mb_base (region s' (entry 0)) = b + PGROUNDUP k \<and> mb_size (region s' (entry 0)) = z - PGROUNDUP k \<and>
     mb_flags (region s' (entry 0)) = MEMBLOCK_FREE \<and> mb_prev (region s' (entry 0)) = entry 1 \<and>
     mb_next (region s' (entry 0)) = 0"
proof -
  obtain f where f: "walk_fuel = Suc (Suc (Suc f))" by (rule walk_fuel_Suc)
  show ?thesis
    using assms unfolding memblock_reserve_def f
    by (simp add: memblock_init_entity_def get_region_entity_steps(2) region_simps Let_def
        MEMBLOCK_FREE_def MEMBLOCK_RESERVE_def)
qed

text \<open>Allocating extends the reserved region into the adjacent free one.\<close>

lemma alloc_extends:
  assumes "mb_next (region s mb_head) = entry 1" "mb_flags (region s (entry 1)) = MEMBLOCK_RESERVE"
    "mb_next (region s (entry 1)) = entry 0" "mb_flags (region s (entry 0)) = MEMBLOCK_FREE"
    "mb_prev (region s (entry 0)) = entry 1" "mb_next (region s (entry 0)) = 0"
    "mb_base (region s (entry 0)) = b" "mb_size (region s (entry 0)) = z"
    "mb_base (region s (entry 1)) + mb_size (region s (entry 1)) = b"
    "\<not> b < PAGE_ALIGN kend" "\<not> b + z \<le> PAGE_ALIGN kend" "\<not> z < ucast (PGROUNDUP32 (ucast sz))"
  shows "\<exists>s'. memblock_virt_alloc kend sz s = Some (Inr (b, s')) \<and>
     mb_next (region s' mb_head) = entry 1 \<and> mb_flags (region s' (entry 1)) = MEMBLOCK_RESERVE \<and>
     mb_base (region s' (entry 1)) = mb_base (region s (entry 1)) \<and>
     mb_size (region s' (entry 1)) = mb_size (region s (entry 1)) + ucast (PGROUNDUP32 (ucast sz)) \<and>
     mb_next (region s' (entry 1)) = entry 0 \<and> mb_flags (region s' (entry 0)) = MEMBLOCK_FREE \<and>
     mb_next (region s' (entry 0)) = 0 \<and>
     mb_base (region s' (entry 0)) = b + ucast (PGROUNDUP32 (ucast sz)) \<and>
     mb_size (region s' (entry 0)) = z - ucast (PGROUNDUP32 (ucast sz))"
proof -
  obtain f where f: "walk_fuel = Suc (Suc (Suc f))" by (rule walk_fuel_Suc)
  show ?thesis
    using assms unfolding memblock_virt_alloc_def memblock_alloc_def f
    by (simp add: region_simps Let_def
        MEMBLOCK_FREE_def MEMBLOCK_RESERVE_def)
qed


lemma free_all_two:
  assumes "mb_next (region s mb_head) = entry 1" "mb_flags (region s (entry 1)) = MEMBLOCK_RESERVE"
    "mb_next (region s (entry 1)) = entry 0" "mb_flags (region s (entry 0)) = MEMBLOCK_FREE"
    "mb_next (region s (entry 0)) = 0" "mb_base (region s (entry 0)) = b" "b + mb_size (region s (entry 0)) = e"
    "\<not> PFN_UP e \<le> PFN_DOWN b"
  shows "memblock_free_all s m = Some (e - b, free_pfns (unat (PFN_DOWN b)) (unat (PFN_UP e))
     (reserve_mem_region (mb_base (region s (entry 1)))
        (mb_base (region s (entry 1)) + mb_size (region s (entry 1))) m))"
proof -
  obtain f where f: "walk_fuel = Suc (Suc (Suc f))" by (rule walk_fuel_Suc)
  show ?thesis
    using assms unfolding memblock_free_all_def f
    by (simp add: memblock_free_memory_def region_simps Let_def
        MEMBLOCK_FREE_def MEMBLOCK_RESERVE_def)
qed

section \<open>Boot arithmetic\<close>

text \<open>\<open>kend\<close> is a plausible value of \<^verbatim>\<open>_end\<close>: in RAM, with room for the frame table above it.\<close>

definition kernel_fits :: "u64 \<Rightarrow> bool" where
  "kernel_fits kend \<longleftrightarrow> KERNBASE \<le> kend \<and> kend \<le> PHYSTOP - 0x400000"

lemma kernel_fits_unat: "kernel_fits kend \<longleftrightarrow> 0x80000000 \<le> unat kend \<and> unat kend \<le> 0x87C00000"
  by (simp add: kernel_fits_def KERNBASE_def PHYSTOP_def word_le_nat_alt)

lemma kernel_size_unat:
  assumes "kernel_fits kend"
  shows "unat (kend + PGSIZE - KERNBASE) = unat kend + 4096 - 0x80000000"
    "unat (PGROUNDUP (kend + PGSIZE - KERNBASE)) = (unat kend + 4095) div 4096 * 4096 + 4096 - 0x80000000"
    "unat (PAGE_ALIGN kend) = (unat kend + 4095) div 4096 * 4096"
proof -
  have n: "0x80000000 \<le> unat kend" "unat kend \<le> 0x87C00000" using assms by (simp_all add: kernel_fits_unat)
  have a: "unat (kend + PGSIZE) = unat kend + 4096"
    using n by (simp add: PGSIZE_def unat_word_ariths)
  have "unat KERNBASE \<le> unat (kend + PGSIZE)" using n a by (simp add: KERNBASE_def)
  then show k: "unat (kend + PGSIZE - KERNBASE) = unat kend + 4096 - 0x80000000"
    using a by (subst unat_sub) (simp_all add: word_le_nat_alt KERNBASE_def)
  show "unat (PGROUNDUP (kend + PGSIZE - KERNBASE)) = (unat kend + 4095) div 4096 * 4096 + 4096 - 0x80000000"
  proof -
    obtain d where d: "unat kend = 0x80000000 + d" using n(1) le_Suc_ex by blast
    have "(4095 + d + 1 * 4096) div 4096 = 1 + (4095 + d) div 4096"
      "(4095 + d + 524288 * 4096) div 4096 = 524288 + (4095 + d) div 4096"
      by (rule div_mult_self1, simp)+
    then have "(8191 + d) div 4096 * 4096 = (2147487743 + d) div 4096 * 4096 - 0x7FFFF000" by simp
    then show ?thesis using n by (subst PGROUNDUP_unat) (simp_all add: k d)
  qed
  show "unat (PAGE_ALIGN kend) = (unat kend + 4095) div 4096 * 4096"
    unfolding PAGE_ALIGN_eq using n by (intro PGROUNDUP_unat) simp
qed


text \<open>The base and size of the free region once the kernel image and the frame table are reserved.\<close>

definition free_base :: "u64 \<Rightarrow> u64" where
  "free_base kend = PAGE_ALIGN kend + PGSIZE + 0x200000"

lemma free_base_unat:
  assumes "kernel_fits kend"
  shows "unat (free_base kend) = (unat kend + 4095) div 4096 * 4096 + 0x201000"
    "KERNBASE + PGROUNDUP (kend + PGSIZE - KERNBASE) = PAGE_ALIGN kend + PGSIZE"
proof -
  have n: "0x80000000 \<le> unat kend" "unat kend \<le> 0x87C00000" using assms by (simp_all add: kernel_fits_unat)
  have le: "(unat kend + 4095) div 4096 * 4096 \<le> 0x87C01000"
    using div_times_less_eq_dividend [of "unat kend + 4095" 4096] n(2) by simp
  show "unat (free_base kend) = (unat kend + 4095) div 4096 * 4096 + 0x201000"
    using kernel_size_unat(3) [OF assms] le by (simp add: free_base_def PGSIZE_def unat_word_ariths)
  have "0x80000000 div 4096 \<le> (unat kend + 4095) div 4096" by (rule div_le_mono) (use n(1) in simp)
  then have ge: "0x80000000 \<le> (unat kend + 4095) div 4096 * 4096" by simp
  have "unat (KERNBASE + PGROUNDUP (kend + PGSIZE - KERNBASE)) = unat (PAGE_ALIGN kend + PGSIZE)"
    using kernel_size_unat(2,3) [OF assms] le ge by (simp add: KERNBASE_def PGSIZE_def unat_word_ariths)
  then show "KERNBASE + PGROUNDUP (kend + PGSIZE - KERNBASE) = PAGE_ALIGN kend + PGSIZE"
    by (rule unsigned_word_eqI)
qed


lemma boot_consts:
  "PAGE_ALIGN bootmem_get_start_ddr = KERNBASE" "(bootmem_get_end_ddr AND PAGE_MASK) - KERNBASE = 0x8000000"
  "PGROUNDDOWN KERNBASE = KERNBASE" "PGROUNDUP 0x8000000 = 0x8000000"
  "PFN_UP bootmem_get_start_ddr = 0x80000" "PFN_DOWN bootmem_get_end_ddr = 0x88000"
  "0x80000 AND NOT (MAX_ORDER_NR_PAGES - 1) = 0x80000" "ALIGN 0x88000 MAX_ORDER_NR_PAGES = 0x88000"
  "0x8000 * sizeof_page = 0x200000" "ucast (PGROUNDUP32 (ucast (0x200000 :: u64))) = (0x200000 :: u64)"
  by code_simp+

text \<open>The list \<^verbatim>\<open>memblock_init\<close> leaves: the kernel image reserved, the rest of RAM free.\<close>

definition two_regions :: "memblock \<Rightarrow> u64 \<Rightarrow> u64 \<Rightarrow> u64 \<Rightarrow> bool" where
  "two_regions s b z e \<longleftrightarrow>
     mb_next (region s mb_head) = entry 1 \<and> mb_flags (region s (entry 1)) = MEMBLOCK_RESERVE \<and>
     mb_next (region s (entry 1)) = entry 0 \<and> mb_flags (region s (entry 0)) = MEMBLOCK_FREE \<and>
     mb_next (region s (entry 0)) = 0 \<and> mb_base (region s (entry 1)) = b \<and> mb_size (region s (entry 1)) = z \<and>
     mb_base (region s (entry 0)) = b + z \<and> mb_base (region s (entry 0)) + mb_size (region s (entry 0)) = e"

lemma memblock_init_boot:
  assumes "kernel_fits kend"
  shows "\<exists>s. memblock_init KERNBASE kend boot_memblock = Some (Inr s) \<and> mb_prev (region s (entry 0)) = entry 1 \<and>
    two_regions s KERNBASE (PGROUNDUP (kend + PGSIZE - KERNBASE)) PHYSTOP"
proof -
  let ?k = "kend + PGSIZE - KERNBASE"
  have n: "0x80000000 \<le> unat kend" "unat kend \<le> 0x87C00000" using assms by (simp_all add: kernel_fits_unat)
  obtain s1 where s1: "memblock_add_region KERNBASE 0x8000000 boot_memblock = Some (Inr (0, s1))"
    "mb_next (region s1 mb_head) = entry 0" "allocated (region s1 (entry 1)) = 0"
    "region s1 (entry 0) = \<lparr>mb_base = KERNBASE, mb_size = 0x8000000, mb_flags = MEMBLOCK_FREE,
       allocated = 1, mb_prev = mb_head, mb_next = 0\<rparr>"
    using add_region_empty [OF refl, of KERNBASE "0x8000000"] by (auto simp: boot_consts)
  have "unat (KERNBASE + ?k) = unat kend + 4096"
    using n by (simp add: PGSIZE_def unat_word_ariths)
  then have k: "\<not> KERNBASE + ?k < KERNBASE" "KERNBASE + 0x8000000 \<noteq> KERNBASE + ?k"
    using n by (auto simp: word_less_nat_alt KERNBASE_def)
  have z: "\<not> KERNBASE + 0x8000000 < KERNBASE" by code_simp
  have e: "KERNBASE + PGROUNDUP ?k + (0x8000000 - PGROUNDUP ?k) = PHYSTOP" by (simp add: PHYSTOP_def)
  obtain s2 where "memblock_reserve KERNBASE ?k s1 = Some (Inr (0, s2))" "mb_prev (region s2 (entry 0)) = entry 1"
    "two_regions s2 KERNBASE (PGROUNDUP ?k) PHYSTOP"
    using reserve_low_end [OF s1(2,4,3) boot_consts(3) k(1) z k(2)] e unfolding two_regions_def by auto
  with s1(1) show ?thesis by (simp add: memblock_init_def boot_consts)
qed


lemma init_zone_frame:
  "node_start_pfn (init_zone_free_area_list m) = node_start_pfn m"
  "node_spanned_pages (init_zone_free_area_list m) = node_spanned_pages m"
  "node_mem_map (init_zone_free_area_list m) = node_mem_map m"
  "mem_map (init_zone_free_area_list m) = mem_map m"
proof -
  have "node_start_pfn (zone_init_free_lists os m) = node_start_pfn m \<and>
    node_spanned_pages (zone_init_free_lists os m) = node_spanned_pages m \<and>
    node_mem_map (zone_init_free_lists os m) = node_mem_map m \<and> mem_map (zone_init_free_lists os m) = mem_map m" for os
    by (induction os arbitrary: m) auto
  then show "node_start_pfn (init_zone_free_area_list m) = node_start_pfn m"
    "node_spanned_pages (init_zone_free_area_list m) = node_spanned_pages m"
    "node_mem_map (init_zone_free_area_list m) = node_mem_map m"
    "mem_map (init_zone_free_area_list m) = mem_map m"
    by (simp_all add: init_zone_free_area_list_def)
qed

lemma bootmem_init_boot:
  assumes "kernel_fits kend" "node_mem_map m = 0" "\<And>p. p \<notin> {0x80000 ..< 0x88000} \<Longrightarrow> \<not> PageBuddy (mem_map m p)"
    and s: "mb_prev (region s (entry 0)) = entry 1" "two_regions s KERNBASE (PGROUNDUP (kend + PGSIZE - KERNBASE)) PHYSTOP"
  shows "\<exists>s' m'. bootmem_init kend s m = Some (Inr (s', m')) \<and>
    two_regions s' KERNBASE (free_base kend - KERNBASE) PHYSTOP \<and>
    free_blocks m' = {} \<and> lists_ok m' \<and> (\<forall>p. tag m' p = None)"
proof -
  let ?b = "PAGE_ALIGN kend + PGSIZE"
  have n: "0x80000000 \<le> unat kend" "unat kend \<le> 0x87C00000" using assms(1) by (simp_all add: kernel_fits_unat)
  have le: "(unat kend + 4095) div 4096 * 4096 \<le> 0x87C01000"
    using div_times_less_eq_dividend [of "unat kend + 4095" 4096] n(2) by simp
  have ub: "unat ?b = (unat kend + 4095) div 4096 * 4096 + 4096"
    using kernel_size_unat(3) [OF assms(1)] le by (simp add: PGSIZE_def unat_word_ariths)
  have e: "KERNBASE + PGROUNDUP (kend + PGSIZE - KERNBASE) = ?b" by (rule free_base_unat(2) [OF assms(1)])
  have uz: "unat (PHYSTOP - ?b) = 0x88000000 - unat ?b"
    using ub le by (subst unat_sub) (simp_all add: word_le_nat_alt PHYSTOP_def KERNBASE_def)
  have side: "\<not> ?b < PAGE_ALIGN kend" "\<not> PHYSTOP \<le> PAGE_ALIGN kend" "\<not> PHYSTOP - ?b < 0x200000"
    using ub uz le kernel_size_unat(3) [OF assms(1)]
    by (simp_all add: word_less_nat_alt word_le_nat_alt PHYSTOP_def KERNBASE_def)
  have regs: "mb_next (region s mb_head) = entry 1" "mb_flags (region s (entry 1)) = MEMBLOCK_RESERVE"
    "mb_next (region s (entry 1)) = entry 0" "mb_flags (region s (entry 0)) = MEMBLOCK_FREE"
    "mb_next (region s (entry 0)) = 0" "mb_base (region s (entry 0)) = ?b"
    "mb_base (region s (entry 1)) = KERNBASE" "mb_size (region s (entry 1)) = PGROUNDUP (kend + PGSIZE - KERNBASE)"
    using s(2) by (simp_all only: two_regions_def e)
  have "?b + mb_size (region s (entry 0)) = PHYSTOP" using s(2) unfolding two_regions_def e by metis
  then have sz: "mb_size (region s (entry 0)) = PHYSTOP - ?b" by (metis add_diff_cancel_left')
  have adj: "mb_base (region s (entry 1)) + mb_size (region s (entry 1)) = ?b" by (simp only: regs e)
  have side2: "\<not> ?b + (PHYSTOP - ?b) \<le> PAGE_ALIGN kend" using side(2) by simp
  have fb: "KERNBASE + (free_base kend - KERNBASE) = ?b + 0x200000"
    "PGROUNDUP (kend + PGSIZE - KERNBASE) + 0x200000 = free_base kend - KERNBASE"
    by (simp_all add: free_base_def flip: e)
  have last: "?b + 0x200000 + (PHYSTOP - ?b - 0x200000) = PHYSTOP" by simp
  obtain s' where s': "memblock_virt_alloc kend 0x200000 s = Some (Inr (?b, s'))"
    "two_regions s' KERNBASE (free_base kend - KERNBASE) PHYSTOP"
    using alloc_extends [OF regs(1-4) s(1) regs(5,6) sz adj side(1) side2, of "0x200000", unfolded boot_consts, OF side(3)]
    unfolding two_regions_def regs(7,8) fb using last by metis
  have nz: "?b \<noteq> 0"
  proof
    assume "?b = 0"
    with ub show False by simp
  qed
  let ?m = "init_zone_free_area_list (calculate_node_totalpages 0x80000 0x8000 (m\<lparr>node_id := 0, node_start_pfn := 0x80000\<rparr>))"
  have flds: "node_start_pfn ?m = 0x80000" "node_spanned_pages ?m = 0x8000" "node_mem_map ?m = 0" "mem_map ?m = mem_map m"
    using assms(2) by (simp_all add: init_zone_frame calculate_node_totalpages_def)
  let ?m' = "(zero_pages 0x80000 0x88000 ?m)\<lparr>node_mem_map := ?b\<rparr>"
  have "bootmem_init kend s m = Some (Inr (s', ?m'))"
    using s'(1) nz
    by (simp add: bootmem_init_def zone_sizes_init_def free_area_init_node_def alloc_node_mem_map_def flds boot_consts Let_def)
  moreover have "free_blocks ?m' = {}" "lists_ok ?m'"
    by (simp_all add: free_blocks_def lists_ok_def zero_pages_def init_zone_free_area_list_def zone_init_free_lists_area)
  moreover have "tag ?m' p = None" for p
    using assms(3) [of p] small_blocks(1) by (auto simp: tag_def zero_pages_def flds small_node_def)
  ultimately show ?thesis using s'(2) by blast
qed


section \<open>Correctness\<close>

text \<open>
  C5: memory initialisation. With the kernel image at the bottom of RAM (where the linker script
  puts \<^verbatim>\<open>_text_boot\<close>) and \<^verbatim>\<open>_end\<close> at least 4 MB below the top, \<^verbatim>\<open>mem_init\<close> terminates without
  a fault and leaves the buddy allocator in its invariant, with nothing in use, all buddies
  merged, and free exactly the frames above the page-aligned image, its guard page and the 2 MB
  frame table, up to the top of RAM. It returns the number of those bytes.
\<close>

theorem mem_init_correct:
  assumes "kernel_fits kend" "node_mem_map m = 0" "\<forall>p. p \<notin> {0x80000 ..< 0x88000} \<longrightarrow> \<not> PageBuddy (mem_map m p)"
  shows "\<exists>s' m'. mem_init KERNBASE kend boot_memblock m = Some (Inr (PHYSTOP - free_base kend, s', m')) \<and>
    alloc_inv m' {} \<and> coalesced m' \<and>
    free_frames m' = {(unat kend + 4095) div 4096 + 513 ..< 0x88000}"
proof -
  obtain s1 where s1: "memblock_init KERNBASE kend boot_memblock = Some (Inr s1)" "mb_prev (region s1 (entry 0)) = entry 1"
    "two_regions s1 KERNBASE (PGROUNDUP (kend + PGSIZE - KERNBASE)) PHYSTOP"
    using memblock_init_boot [OF assms(1)] by blast
  obtain s2 m2 where s2: "bootmem_init kend s1 m = Some (Inr (s2, m2))"
    "two_regions s2 KERNBASE (free_base kend - KERNBASE) PHYSTOP"
    "free_blocks m2 = {}" "lists_ok m2" "\<And>p. tag m2 p = None"
    using bootmem_init_boot [OF assms(1,2) _ s1(2,3)] assms(3) by blast
  have n: "unat kend \<le> 0x87C00000" using assms(1) by (simp add: kernel_fits_unat)
  have fbu: "unat (free_base kend) = ((unat kend + 4095) div 4096 + 513) * 4096"
    using free_base_unat(1) [OF assms(1)] by simp
  then have lo: "unat (PFN_DOWN (free_base kend)) = (unat kend + 4095) div 4096 + 513"
    by (simp add: PFN_DOWN_unat)
  have "PFN_UP PHYSTOP = 0x88000" by code_simp
  then have hi: "unat (PFN_UP PHYSTOP) = 0x88000" by simp
  have "(unat kend + 4095) div 4096 \<le> (0x87C00000 + 4095) div 4096" by (rule div_le_mono) (use n in simp)
  then have less: "\<not> PFN_UP PHYSTOP \<le> PFN_DOWN (free_base kend)" by (simp add: word_le_nat_alt lo hi)
  have regs: "mb_next (region s2 mb_head) = entry 1" "mb_flags (region s2 (entry 1)) = MEMBLOCK_RESERVE"
    "mb_next (region s2 (entry 1)) = entry 0" "mb_flags (region s2 (entry 0)) = MEMBLOCK_FREE"
    "mb_next (region s2 (entry 0)) = 0" "mb_base (region s2 (entry 0)) = free_base kend"
    "free_base kend + mb_size (region s2 (entry 0)) = PHYSTOP"
    using s2(2) by (auto simp: two_regions_def)
  let ?r = "reserve_mem_region (mb_base (region s2 (entry 1)))
    (mb_base (region s2 (entry 1)) + mb_size (region s2 (entry 1))) m2"
  have r: "free_blocks ?r = {}" "lists_ok ?r" "tag ?r p = None" for p
    using s2(3-5) by (simp_all add: reserve_mem_region_def reserve_pfns_frame free_blocks_def lists_ok_def)
  have "mem_init KERNBASE kend boot_memblock m =
     Some (Inr (PHYSTOP - free_base kend, s2, free_pfns ((unat kend + 4095) div 4096 + 513) 0x88000 ?r))"
    using s1(1) s2(1) free_all_two [OF regs less, of m2] by (simp add: mem_init_def lo hi)
  then show ?thesis
    using free_pfns_boot [OF _ r, of "0x88000" "(unat kend + 4095) div 4096 + 513"] by (simp add: alloc_inv_def)
qed

theorem mem_init_correct_witness:
  "\<exists>s' m'. mem_init KERNBASE 0x80042010 boot_memblock small_node = Some (Inr (PHYSTOP - free_base 0x80042010, s', m')) \<and>
    alloc_inv m' {} \<and> coalesced m' \<and> free_frames m' = {0x80244 ..< 0x88000}"
proof -
  have "kernel_fits 0x80042010" by code_simp
  moreover have "node_mem_map small_node = 0" by (simp add: small_node_def)
  moreover have "(unat (0x80042010 :: u64) + 4095) div 4096 + 513 = 0x80244" by simp
  ultimately show ?thesis using mem_init_correct [of "0x80042010" small_node] small_blocks(1) by metis
qed

text \<open>
  The entity allocator marks entry 0 whatever entry it returns, so once entry 0 is taken every
  further call returns the same entry 1. Reserving a range strictly inside a lone region takes
  two entities, for the part below and for the range; both are entry 1. The call reports success,
  but the memory below the range is no longer in the list and the free region above it has lost
  the size of the range twice.
\<close>

theorem memblock_reserve_middle_aliases:
  assumes "mb_next (region s mb_head) = entry 0" "allocated (region s (entry 1)) = 0"
    "region s (entry 0) = \<lparr>mb_base = b, mb_size = z, mb_flags = MEMBLOCK_FREE, allocated = 1, mb_prev = mb_head, mb_next = 0\<rparr>"
    "PGROUNDDOWN r = r" "PGROUNDUP k = k" "b < r" "r \<le> r + k" "r + k < b + z"
  shows "\<exists>s'. memblock_reserve r k s = Some (Inr (0, s')) \<and> mb_next (region s' mb_head) = entry 1 \<and>
    mb_base (region s' (entry 1)) = r \<and> mb_size (region s' (entry 1)) = k \<and> mb_next (region s' (entry 1)) = entry 0 \<and>
    mb_prev (region s' (entry 1)) = entry 1 \<and>
    mb_base (region s' (entry 0)) = r + k \<and> mb_size (region s' (entry 0)) = z - 2 * k \<and> mb_next (region s' (entry 0)) = 0"
proof -
  obtain f where f: "walk_fuel = Suc (Suc (Suc f))" by (rule walk_fuel_Suc)
  have c: "\<not> r + k < b" "\<not> b + z < r" "b \<noteq> r" "b + z \<noteq> r + k" using assms(6-8) by auto
  show ?thesis
    using assms c unfolding memblock_reserve_def f
    by (simp add: memblock_init_entity_def get_region_entity_steps(2) region_simps Let_def
        MEMBLOCK_FREE_def MEMBLOCK_RESERVE_def)
qed

theorem memblock_reserve_middle_aliases_witness:
  "\<exists>s s'. memblock_add_region 0x80000000 0x8000000 boot_memblock = Some (Inr (0, s)) \<and>
    memblock_reserve 0x80200000 0x100000 s = Some (Inr (0, s')) \<and>
    mb_next (region s' mb_head) = entry 1 \<and> mb_base (region s' (entry 1)) = 0x80200000"
proof -
  obtain s where s: "memblock_add_region 0x80000000 0x8000000 boot_memblock = Some (Inr (0, s))"
    "mb_next (region s mb_head) = entry 0" "allocated (region s (entry 1)) = 0"
    "region s (entry 0) = \<lparr>mb_base = PGROUNDDOWN 0x80000000, mb_size = PGROUNDUP 0x8000000, mb_flags = MEMBLOCK_FREE,
       allocated = 1, mb_prev = mb_head, mb_next = 0\<rparr>"
    using add_region_empty [OF refl, of "0x80000000" "0x8000000"] by auto
  have a: "PGROUNDDOWN 0x80200000 = 0x80200000" "PGROUNDUP 0x100000 = 0x100000" "PGROUNDDOWN 0x80000000 < 0x80200000"
    "(0x80200000 :: u64) \<le> 0x80200000 + 0x100000" "0x80200000 + 0x100000 < PGROUNDDOWN 0x80000000 + PGROUNDUP 0x8000000"
    by code_simp+
  show ?thesis using memblock_reserve_middle_aliases [OF s(2-4) a] s(1) by blast
qed

end
