(* ===== verification/Strings.thy ===== *)
theory Strings
  imports Prelude
begin

text \<open>
  The memory and string routines of \<^verbatim>\<open>kernel/string.c\<close>, and those of \<^verbatim>\<open>user/string.c\<close> and
  \<^verbatim>\<open>user/ulib.c\<close> that the kernel does not have, over a byte memory. Pointers are naturals, 0 is
  \<^verbatim>\<open>NULL\<close>; \<^verbatim>\<open>char\<close> is unsigned on RISC-V. Loops that stop only at a NUL byte are partial
  functions: \<open>None\<close> is a run off the end of memory.
\<close>

type_synonym mem = "nat \<Rightarrow> u8"

section \<open>Memory blocks\<close>

fun memset_loop :: "nat \<Rightarrow> u8 \<Rightarrow> nat \<Rightarrow> nat \<Rightarrow> mem \<Rightarrow> mem" where
  "memset_loop cdst c i 0 m = m"
| "memset_loop cdst c i (Suc k) m = memset_loop cdst c (i + 1) k (m(cdst + i := c))"

definition memset :: "nat \<Rightarrow> u32 \<Rightarrow> nat \<Rightarrow> mem \<Rightarrow> mem" where
  "memset dst c n m = memset_loop dst (ucast c) 0 n m"

fun memcmp :: "mem \<Rightarrow> nat \<Rightarrow> nat \<Rightarrow> nat \<Rightarrow> int" where
  "memcmp m s1 s2 0 = 0"
| "memcmp m s1 s2 (Suc n) =
     (if m s1 \<noteq> m s2 then uint (m s1) - uint (m s2) else memcmp m (s1 + 1) (s2 + 1) n)"

fun move_down :: "nat \<Rightarrow> nat \<Rightarrow> nat \<Rightarrow> mem \<Rightarrow> mem" where
  "move_down d s 0 m = m"
| "move_down d s (Suc n) m = move_down (d - 1) (s - 1) n (m(d - 1 := m (s - 1)))"

fun move_up :: "nat \<Rightarrow> nat \<Rightarrow> nat \<Rightarrow> mem \<Rightarrow> mem" where
  "move_up d s 0 m = m"
| "move_up d s (Suc n) m = move_up (d + 1) (s + 1) n (m(d := m s))"

definition memmove :: "nat \<Rightarrow> nat \<Rightarrow> nat \<Rightarrow> mem \<Rightarrow> mem" where
  "memmove dst src n m =
     (if n = 0 then m
      else if src < dst \<and> src + n > dst then move_down (dst + n) (src + n) n m
      else move_up dst src n m)"

definition memcpy :: "nat \<Rightarrow> nat \<Rightarrow> nat \<Rightarrow> mem \<Rightarrow> mem" where
  "memcpy dst src n m = memmove dst src n m"

section \<open>Strings\<close>

fun strncmp :: "mem \<Rightarrow> nat \<Rightarrow> nat \<Rightarrow> nat \<Rightarrow> int" where
  "strncmp m p q 0 = 0"
| "strncmp m p q (Suc n) =
     (if m p \<noteq> 0 \<and> m p = m q then strncmp m (p + 1) (q + 1) n else uint (m p) - uint (m q))"

fun fill_zero :: "nat \<Rightarrow> nat \<Rightarrow> mem \<Rightarrow> mem" where
  "fill_zero s 0 m = m"
| "fill_zero s (Suc n) m = fill_zero (s + 1) n (m(s := 0))"

fun strncpy_loop :: "nat \<Rightarrow> nat \<Rightarrow> nat \<Rightarrow> mem \<Rightarrow> mem" where
  "strncpy_loop s t 0 m = m"
| "strncpy_loop s t (Suc n) m =
     (let c = m t; m = m(s := c)
      in if c \<noteq> 0 then strncpy_loop (s + 1) (t + 1) n m else fill_zero (s + 1) n m)"

definition strncpy :: "nat \<Rightarrow> nat \<Rightarrow> int \<Rightarrow> mem \<Rightarrow> mem" where
  "strncpy s t n m = strncpy_loop s t (nat n) m"

partial_function (option) strcpy :: "nat \<Rightarrow> nat \<Rightarrow> mem \<Rightarrow> mem option" where
  "strcpy s t m = (if m t = 0 then Some (m(s := 0)) else strcpy (s + 1) (t + 1) (m(s := m t)))"

fun safestrcpy_loop :: "nat \<Rightarrow> nat \<Rightarrow> nat \<Rightarrow> mem \<Rightarrow> nat \<times> mem" where
  "safestrcpy_loop s t 0 m = (s, m)"
| "safestrcpy_loop s t (Suc n) m =
     (let c = m t; m = m(s := c) in if c \<noteq> 0 then safestrcpy_loop (s + 1) (t + 1) n m else (s + 1, m))"

definition safestrcpy :: "nat \<Rightarrow> nat \<Rightarrow> int \<Rightarrow> mem \<Rightarrow> mem" where
  "safestrcpy s t n m =
     (if n \<le> 0 then m else let (s', m') = safestrcpy_loop s t (nat (n - 1)) m in m'(s' := 0))"

partial_function (option) strlen_loop :: "mem \<Rightarrow> nat \<Rightarrow> nat \<Rightarrow> nat option" where
  "strlen_loop m s n = (if m (s + n) = 0 then Some n else strlen_loop m s (n + 1))"

definition strlen :: "mem \<Rightarrow> nat \<Rightarrow> nat option" where
  "strlen m s = strlen_loop m s 0"

partial_function (option) strcmp :: "mem \<Rightarrow> nat \<Rightarrow> nat \<Rightarrow> int option" where
  "strcmp m p q =
     (if m p \<noteq> 0 \<and> m p = m q then strcmp m (p + 1) (q + 1) else Some (uint (m p) - uint (m q)))"

fun strchr_loop :: "mem \<Rightarrow> nat \<Rightarrow> u8 \<Rightarrow> nat \<Rightarrow> nat" where
  "strchr_loop m ptr c 0 = 0"
| "strchr_loop m ptr c (Suc k) = (if m ptr = c then ptr else strchr_loop m (ptr + 1) c k)"

definition strchr :: "mem \<Rightarrow> nat \<Rightarrow> u8 \<Rightarrow> nat option" where
  "strchr m src c =
     (if src = 0 then Some 0
      else case strlen m src of None \<Rightarrow> None | Some len \<Rightarrow> Some (strchr_loop m src c (len + 1)))"

text \<open>The inner \<^verbatim>\<open>do ... while (sc != 0)\<close> of \<^verbatim>\<open>strsep\<close>: does \<open>c\<close> occur in the delimiter string, its NUL included?\<close>

partial_function (option) span_loop :: "mem \<Rightarrow> nat \<Rightarrow> u8 \<Rightarrow> bool option" where
  "span_loop m spanp c =
     (if m spanp = c then Some True else if m spanp \<noteq> 0 then span_loop m (spanp + 1) c else Some False)"

text \<open>The token, the new value of \<^verbatim>\<open>*stringp\<close> and the memory.\<close>

partial_function (option) strsep_loop :: "nat \<Rightarrow> nat \<Rightarrow> nat \<Rightarrow> mem \<Rightarrow> (nat \<times> nat \<times> mem) option" where
  "strsep_loop tok s delim m =
     (case span_loop m delim (m s) of
        None \<Rightarrow> None
      | Some hit \<Rightarrow>
          (if hit then (if m s = 0 then Some (tok, 0, m) else Some (tok, s + 1, m(s := 0)))
           else strsep_loop tok (s + 1) delim m))"

definition strsep :: "nat \<Rightarrow> nat \<Rightarrow> mem \<Rightarrow> (nat \<times> nat \<times> mem) option" where
  "strsep stringp delim m = (if stringp = 0 then Some (0, 0, m) else strsep_loop stringp stringp delim m)"

section \<open>Dotted addresses\<close>

text \<open>The digits before \<open>p\<close>, read from right to left down to \<open>str\<close> or to a dot.\<close>

function first_field :: "mem \<Rightarrow> nat \<Rightarrow> nat \<Rightarrow> u32 \<Rightarrow> u32 \<Rightarrow> u32" where
  "first_field m str p i ipaddr =
     (if str < p then first_field m str (p - 1) (i * 10) (ipaddr + (ucast (m (p - 1)) - 48) * i) else ipaddr)"
  by pat_completeness auto
termination
  by (relation "measure (\<lambda>(m, str, p, i, ipaddr). p)") auto

declare first_field.simps [simp del]

fun dot_field :: "mem \<Rightarrow> nat \<Rightarrow> nat \<Rightarrow> u32 \<Rightarrow> u32 \<Rightarrow> u32" where
  "dot_field m j 0 i ipaddr = ipaddr"
| "dot_field m j (Suc p) i ipaddr =
     (if m p \<noteq> 46 then dot_field m j p (i * 10) (ipaddr + push_bit (8 * j) ((ucast (m p) - 48) * i)) else ipaddr)"

definition inet_addr :: "mem \<Rightarrow> nat \<Rightarrow> u32 option" where
  "inet_addr m str =
     (case strchr m str 46 of None \<Rightarrow> None | Some p0 \<Rightarrow>
      (case strchr m (p0 + 1) 46 of None \<Rightarrow> None | Some p1 \<Rightarrow>
      (case strchr m (p1 + 1) 46 of None \<Rightarrow> None | Some p2 \<Rightarrow>
      (case strchr m str 0 of None \<Rightarrow> None | Some p3 \<Rightarrow>
         let a = first_field m str p0 1 0;
             a = dot_field m 1 p1 1 a;
             a = dot_field m 2 p2 1 a
         in Some (dot_field m 3 p3 1 a)))))"

section \<open>Memory blocks are copied exactly\<close>

lemma memset_loop_eq:
  "memset_loop d c i n m = (\<lambda>a. if d + i \<le> a \<and> a < d + i + n then c else m a)"
  by (induction n arbitrary: i m) (auto simp: fun_eq_iff)

lemma memset_eq: "memset d c n m = (\<lambda>a. if d \<le> a \<and> a < d + n then ucast c else m a)"
  by (simp add: memset_def memset_loop_eq)

lemma move_up_eq:
  "d \<le> s \<or> s + n \<le> d \<Longrightarrow> move_up d s n m = (\<lambda>a. if d \<le> a \<and> a < d + n then m (s + (a - d)) else m a)"
proof (induction n arbitrary: d s m)
  case (Suc n)
  have "move_up (d + 1) (s + 1) n (m(d := m s)) =
     (\<lambda>a. if d + 1 \<le> a \<and> a < d + 1 + n then (m(d := m s)) (s + 1 + (a - (d + 1))) else (m(d := m s)) a)"
    using Suc.prems by (intro Suc.IH) auto
  then show ?case using Suc.prems by (auto simp: fun_eq_iff Suc_diff_Suc)
qed (auto simp: fun_eq_iff)

lemma move_down_eq:
  "s \<le> d \<Longrightarrow> move_down (d + n) (s + n) n m = (\<lambda>a. if d \<le> a \<and> a < d + n then m (s + (a - d)) else m a)"
proof (induction n arbitrary: m)
  case (Suc n)
  have "move_down (d + n) (s + n) n (m(d + n := m (s + n))) =
     (\<lambda>a. if d \<le> a \<and> a < d + n then (m(d + n := m (s + n))) (s + (a - d)) else (m(d + n := m (s + n))) a)"
    by (rule Suc.IH [OF Suc.prems])
  then show ?case using Suc.prems by (auto simp: fun_eq_iff)
qed (auto simp: fun_eq_iff)

lemma memmove_eq: "memmove d s n m = (\<lambda>a. if d \<le> a \<and> a < d + n then m (s + (a - d)) else m a)"
  by (auto simp: memmove_def move_down_eq move_up_eq fun_eq_iff)


section \<open>NUL-terminated strings\<close>

fun cstr :: "mem \<Rightarrow> nat \<Rightarrow> u8 list \<Rightarrow> bool" where
  "cstr m p [] = (m p = 0)"
| "cstr m p (x # xs) = (m p = x \<and> x \<noteq> 0 \<and> cstr m (p + 1) xs)"

lemma cstr_nth: "cstr m p xs \<longleftrightarrow> (\<forall>i < length xs. m (p + i) = xs ! i \<and> xs ! i \<noteq> 0) \<and> m (p + length xs) = 0"
proof (induction xs arbitrary: p)
  case (Cons x xs)
  show ?case by (auto simp: Cons.IH less_Suc_eq_0_disj)
qed simp

lemma cstr_nonzero: "cstr m p xs \<Longrightarrow> 0 \<notin> set xs"
  by (induction xs arbitrary: p) auto

lemma cstr_append: "cstr m p (xs @ ys) \<longleftrightarrow> (\<forall>i < length xs. m (p + i) = xs ! i \<and> xs ! i \<noteq> 0) \<and> cstr m (p + length xs) ys"
proof (induction xs arbitrary: p)
  case (Cons x xs)
  show ?case by (auto simp: Cons.IH less_Suc_eq_0_disj)
qed simp

lemma cstr_cong: "cstr m p xs \<Longrightarrow> (\<And>a. p \<le> a \<Longrightarrow> a \<le> p + length xs \<Longrightarrow> m' a = m a) \<Longrightarrow> cstr m' p xs"
  by (auto simp: cstr_nth)

lemma strlen_loop_cstr: "cstr m (s + n) xs \<Longrightarrow> strlen_loop m s n = Some (n + length xs)"
  by (induction xs arbitrary: n) (subst strlen_loop.simps; force)+

lemma strlen_cstr: "cstr m s xs \<Longrightarrow> strlen m s = Some (length xs)"
  using strlen_loop_cstr [of m s 0 xs] by (simp add: strlen_def)

lemma strcmp_cstr:
  "cstr m p xs \<Longrightarrow> cstr m q ys \<Longrightarrow> \<exists>r. strcmp m p q = Some r \<and> (r = 0 \<longleftrightarrow> xs = ys)"
proof (induction xs arbitrary: p q ys)
  case Nil
  then show ?case by (subst strcmp.simps) (cases ys; auto simp: word_uint_eq_iff)
next
  case (Cons x xs)
  then show ?case
  proof (cases ys)
    case (Cons y ys')
    then show ?thesis
      using Cons.prems Cons.IH [of "p + 1" "q + 1" ys'] by (subst strcmp.simps) (auto simp: word_uint_eq_iff)
  qed (subst strcmp.simps, auto simp: word_uint_eq_iff)
qed

lemma strncmp_cstr:
  "cstr m p xs \<Longrightarrow> cstr m q ys \<Longrightarrow> strncmp m p q n = 0 \<longleftrightarrow> take n xs = take n ys"
proof (induction n arbitrary: p q xs ys)
  case (Suc n)
  then show ?case by (cases xs; cases ys) (auto simp: word_uint_eq_iff)
qed simp

lemma fill_zero_eq: "fill_zero s n m = (\<lambda>a. if s \<le> a \<and> a < s + n then 0 else m a)"
  by (induction n arbitrary: s m) (auto simp: fun_eq_iff)

lemma strncpy_loop_cstr:
  assumes "cstr m t xs" "s + n \<le> t \<or> t + length xs < s"
  shows "strncpy_loop s t n m a =
    (if s \<le> a \<and> a < s + n then (if a - s < length xs then xs ! (a - s) else 0) else m a)"
  using assms
proof (induction n arbitrary: s t m xs)
  case (Suc n)
  show ?case
  proof (cases xs)
    case Nil
    then show ?thesis using Suc.prems(1) by (auto simp: fill_zero_eq Let_def)
  next
    case (Cons x ys)
    have "cstr (m(s := x)) (t + 1) ys" "s + 1 + n \<le> t + 1 \<or> t + 1 + length ys < s + 1"
      using Suc.prems Cons by (auto intro: cstr_cong)
    note IH = Suc.IH [OF this]
    have "strncpy_loop s t (Suc n) m a = strncpy_loop (s + 1) (t + 1) n (m(s := x)) a"
      using Suc.prems(1) Cons by (simp add: Let_def)
    then show ?thesis unfolding IH Cons by (cases "a - s") (auto simp: diff_Suc)
  qed
qed auto

lemma strcpy_cstr:
  assumes "cstr m t xs" "s + length xs < t \<or> t + length xs < s"
  shows "\<exists>m'. strcpy s t m = Some m' \<and> cstr m' s xs \<and> (\<forall>a. a < s \<or> s + length xs < a \<longrightarrow> m' a = m a)"
  using assms
proof (induction xs arbitrary: s t m)
  case Nil
  then show ?case by (subst strcpy.simps) auto
next
  case (Cons x xs)
  have "cstr (m(s := x)) (t + 1) xs" "s + 1 + length xs < t + 1 \<or> t + 1 + length xs < s + 1"
    using Cons.prems by (auto intro: cstr_cong)
  from Cons.IH [OF this] obtain m' where m': "strcpy (s + 1) (t + 1) (m(s := x)) = Some m'" "cstr m' (s + 1) xs"
    "\<forall>a. a < s + 1 \<or> s + 1 + length xs < a \<longrightarrow> m' a = (m(s := x)) a" by blast
  then show ?case using Cons.prems by (subst strcpy.simps) auto
qed

lemma safestrcpy_loop_cstr:
  assumes "cstr m t xs" "s + n < t \<or> t + length xs < s" "safestrcpy_loop s t n m = (s', m')"
  shows "cstr (m'(s' := 0)) s (take n xs) \<and> s \<le> s' \<and> s' \<le> s + n \<and> (\<forall>a. a < s \<or> s + n < a \<longrightarrow> (m'(s' := 0)) a = m a)"
  using assms
proof (induction n arbitrary: s t m xs)
  case (Suc n)
  show ?case
  proof (cases xs)
    case Nil
    then show ?thesis using Suc.prems by (auto simp: Let_def)
  next
    case (Cons x ys)
    have "cstr (m(s := x)) (t + 1) ys" "s + 1 + n < t + 1 \<or> t + 1 + length ys < s + 1"
      "safestrcpy_loop (s + 1) (t + 1) n (m(s := x)) = (s', m')"
      using Suc.prems Cons by (auto intro: cstr_cong simp: Let_def)
    from Suc.IH [OF this] show ?thesis using Suc.prems(1) Cons by auto
  qed
qed auto


lemma strchr_loop_cstr:
  "cstr m p xs \<Longrightarrow> c \<noteq> 0 \<Longrightarrow> strchr_loop m p c (length xs + 1) =
     (if c \<in> set xs then p + length (takeWhile (\<lambda>x. x \<noteq> c) xs) else 0)"
  by (induction xs arbitrary: p) auto

lemma strchr_loop_end: "cstr m p xs \<Longrightarrow> strchr_loop m p 0 (length xs + 1) = p + length xs"
  by (induction xs arbitrary: p) auto

lemma strchr_cstr:
  assumes "cstr m p xs" "p \<noteq> 0"
  shows "c \<noteq> 0 \<Longrightarrow> strchr m p c = Some (if c \<in> set xs then p + length (takeWhile (\<lambda>x. x \<noteq> c) xs) else 0)"
    "strchr m p 0 = Some (p + length xs)"
  using assms strchr_loop_cstr [OF assms(1)] strchr_loop_end [OF assms(1)]
  by (simp_all add: strchr_def strlen_cstr)

lemma span_loop_cstr: "cstr m d ds \<Longrightarrow> span_loop m d c = Some (c = 0 \<or> c \<in> set ds)"
  by (induction ds arbitrary: d) (subst span_loop.simps; auto)+

text \<open>\<^verbatim>\<open>strsep\<close> cuts the string at the first delimiter; at the last token the rest is \<^verbatim>\<open>NULL\<close>.\<close>

lemma strsep_loop_cstr:
  assumes "cstr m s (ys @ zs)" "cstr m delim ds" "\<forall>y \<in> set ys. y \<notin> set ds" "zs \<noteq> [] \<Longrightarrow> hd zs \<in> set ds"
  shows "strsep_loop tok s delim m =
    (if zs = [] then Some (tok, 0, m) else Some (tok, s + length ys + 1, m(s + length ys := 0)))"
  using assms
proof (induction ys arbitrary: s)
  case Nil
  then show ?case by (subst strsep_loop.simps) (cases zs; auto simp: span_loop_cstr)
next
  case (Cons y ys)
  have y: "m s = y" "y \<noteq> 0" "y \<notin> set ds" "cstr m (s + 1) (ys @ zs)" using Cons.prems by auto
  have "strsep_loop tok s delim m = strsep_loop tok (s + 1) delim m"
    using y Cons.prems(2) by (subst strsep_loop.simps) (simp add: span_loop_cstr)
  also have "\<dots> = (if zs = [] then Some (tok, 0, m) else Some (tok, s + 1 + length ys + 1, m(s + 1 + length ys := 0)))"
    by (rule Cons.IH [OF y(4) Cons.prems(2) _ Cons.prems(4)]) (use Cons.prems in auto)
  finally show ?case by (simp add: fun_upd_def)
qed

section \<open>Decimal fields\<close>

definition digit :: "u8 \<Rightarrow> bool" where
  "digit c \<longleftrightarrow> 48 \<le> c \<and> c \<le> 57"

fun dec_val :: "u8 list \<Rightarrow> u32" where
  "dec_val [] = 0"
| "dec_val (c # cs) = (ucast c - 48) * 10 ^ length cs + dec_val cs"

lemma dec_val_snoc: "dec_val (cs @ [c]) = dec_val cs * 10 + (ucast c - 48)"
  by (induction cs) (simp_all add: algebra_simps)

lemma first_field_digits:
  "(\<forall>i < length cs. m (str + i) = cs ! i) \<Longrightarrow>
     first_field m str (str + length cs) i a = a + dec_val cs * i"
proof (induction cs arbitrary: i a rule: rev_induct)
  case Nil
  then show ?case by (subst first_field.simps) simp
next
  case (snoc c cs)
  have last: "m (str + length cs) = c" using snoc.prems by (metis length_append_singleton lessI nth_append_length)
  have pre: "\<forall>i < length cs. m (str + i) = cs ! i" using snoc.prems by (metis length_append_singleton less_SucI nth_append)
  show ?case
    using snoc.IH [OF pre] by (subst first_field.simps) (simp add: last dec_val_snoc algebra_simps)
qed

lemma dot_field_digits:
  "(\<forall>i < length cs. m (Suc q + i) = cs ! i \<and> cs ! i \<noteq> 46) \<Longrightarrow> m q = 46 \<Longrightarrow>
     dot_field m j (Suc q + length cs) i a = a + push_bit (8 * j) (dec_val cs * i)"
proof (induction cs arbitrary: i a rule: rev_induct)
  case Nil
  then show ?case by simp
next
  case (snoc c cs)
  have last: "m (Suc q + length cs) = c" "c \<noteq> 46" using snoc.prems by (auto dest: spec [of _ "length cs"])
  have pre: "\<forall>i < length cs. m (Suc q + i) = cs ! i \<and> cs ! i \<noteq> 46"
    using snoc.prems(1) by (metis length_append_singleton less_SucI nth_append)
  show ?case
    using snoc.IH [OF pre snoc.prems(2)] last by (simp add: dec_val_snoc push_bit_eq_mult algebra_simps)
qed


lemma digit_nonzero: "digit c \<Longrightarrow> c \<noteq> 0 \<and> c \<noteq> 46"
  by (auto simp: digit_def)

lemma takeWhile_dot: "\<forall>c \<in> set xs. digit c \<Longrightarrow> takeWhile (\<lambda>x. x \<noteq> 46) (xs @ 46 # ys) = xs"
  by (subst takeWhile_append2) (auto dest: digit_nonzero)

lemma strchr_dot:
  "cstr m p (xs @ 46 # ys) \<Longrightarrow> p \<noteq> 0 \<Longrightarrow> \<forall>c \<in> set xs. digit c \<Longrightarrow> strchr m p 46 = Some (p + length xs)"
  using strchr_cstr(1) [of m p "xs @ 46 # ys" 46] by (simp add: takeWhile_dot)

section \<open>Correctness\<close>

text \<open>
  C7: \<^verbatim>\<open>memmove\<close> (and \<^verbatim>\<open>memcpy\<close>, which calls it) leaves in the destination the bytes the source
  held before the call, however the two blocks overlap, and touches nothing else.
\<close>

theorem memmove_correct:
  "memmove dst src n m a = (if dst \<le> a \<and> a < dst + n then m (src + (a - dst)) else m a) \<and>
   memcpy dst src n m = memmove dst src n m"
  by (simp add: memmove_eq memcpy_def)

text \<open>
  C8: \<^verbatim>\<open>safestrcpy\<close> into a buffer of \<open>n > 0\<close> bytes leaves there a NUL-terminated string, the source
  cut to \<open>n - 1\<close> characters, and writes nothing outside the buffer; \<^verbatim>\<open>strlen\<close> of it is its length.
\<close>

theorem safestrcpy_correct:
  assumes "cstr m t xs" "0 < n" "s + nat n \<le> t \<or> t + length xs < s"
  shows "cstr (safestrcpy s t n m) s (take (nat (n - 1)) xs) \<and>
    strlen (safestrcpy s t n m) s = Some (min (length xs) (nat (n - 1))) \<and>
    (\<forall>a. a < s \<or> s + nat n \<le> a \<longrightarrow> safestrcpy s t n m a = m a)"
proof -
  obtain s' m' where l: "safestrcpy_loop s t (nat (n - 1)) m = (s', m')" by fastforce
  have "s + nat (n - 1) < t \<or> t + length xs < s" using assms(2,3) by auto
  note c = safestrcpy_loop_cstr [OF assms(1) this l]
  have eq: "safestrcpy s t n m = m'(s' := 0)" using assms(2) by (simp add: safestrcpy_def l)
  show ?thesis
    using c strlen_cstr [of "m'(s' := 0)" s] assms(2) by (auto simp: eq min_def)
qed

definition str_mem :: mem where
  "str_mem = (\<lambda>a. if a = 10 then 104 else if a = 11 then 105 else if a = 12 then 33 else 0)"

theorem safestrcpy_correct_witness:
  "cstr (safestrcpy 20 10 3 str_mem) 20 [104, 105]"
proof -
  have c: "cstr str_mem 10 [104, 105, 33]" by (simp add: str_mem_def)
  show ?thesis using safestrcpy_correct [OF c, of 3 20] by simp
qed

text \<open>
  One call of \<^verbatim>\<open>strsep\<close>. If \<open>ys\<close> is the part of the string before the first delimiter, the call
  returns it as a NUL-terminated token and advances \<^verbatim>\<open>*stringp\<close> just past the delimiter; without a
  delimiter the whole string is the token and \<^verbatim>\<open>*stringp\<close> becomes \<^verbatim>\<open>NULL\<close>.
\<close>

theorem strsep_correct:
  assumes "cstr m p (ys @ zs)" "cstr m delim ds" "p \<noteq> 0" "\<forall>y \<in> set ys. y \<notin> set ds" "zs \<noteq> [] \<longrightarrow> hd zs \<in> set ds"
  shows "\<exists>nx m'. strsep p delim m = Some (p, nx, m') \<and> cstr m' p ys \<and>
    (if zs = [] then nx = 0 \<and> m' = m else nx = p + length ys + 1 \<and> cstr m' nx (tl zs))"
proof -
  have eq: "strsep p delim m =
    (if zs = [] then Some (p, 0, m) else Some (p, p + length ys + 1, m(p + length ys := 0)))"
    using strsep_loop_cstr [OF assms(1,2,4), of p] assms(3,5) by (simp add: strsep_def)
  have bytes: "\<forall>i < length ys. m (p + i) = ys ! i \<and> ys ! i \<noteq> 0" "cstr m (p + length ys) zs"
    using assms(1) by (auto simp: cstr_append)
  show ?thesis
  proof (cases zs)
    case Nil
    then show ?thesis using eq assms(1) by simp
  next
    case (Cons z ws)
    have "cstr (m(p + length ys := 0)) p ys" using bytes(1) by (auto simp: cstr_nth)
    moreover have "cstr (m(p + length ys := 0)) (p + length ys + 1) ws"
      using bytes(2) Cons by (auto intro: cstr_cong)
    ultimately show ?thesis using eq Cons by simp
  qed
qed

theorem strsep_correct_witness:
  "\<exists>nx m'. strsep 10 40 (str_mem(40 := 105)) = Some (10, nx, m') \<and> cstr m' 10 [104]"
  using strsep_correct [of "str_mem(40 := 105)" 10 "[104]" "[105, 33]" 40 "[105]"] by (force simp: str_mem_def)

text \<open>
  \<^verbatim>\<open>inet_addr\<close> of a dotted quad of decimal fields is the address with the first field in the
  low byte (network order on a little-endian machine).
\<close>

theorem inet_addr_correct:
  assumes "cstr m str (d0 @ 46 # d1 @ 46 # d2 @ 46 # d3)" "str \<noteq> 0"
    "\<forall>c \<in> set (d0 @ d1 @ d2 @ d3). digit c"
  shows "inet_addr m str = Some (dec_val d0 + push_bit 8 (dec_val d1) + push_bit 16 (dec_val d2) + push_bit 24 (dec_val d3))"
proof -
  let ?p0 = "str + length d0"
  let ?p1 = "?p0 + 1 + length d1"
  let ?p2 = "?p1 + 1 + length d2"
  have c: "cstr m (?p0 + 1) (d1 @ 46 # d2 @ 46 # d3)" "cstr m (?p1 + 1) (d2 @ 46 # d3)" "cstr m (?p2 + 1) d3"
    using assms(1) by (simp_all add: cstr_append add.assoc)
  have dots: "m ?p0 = 46" "m ?p1 = 46" "m ?p2 = 46"
    using assms(1) by (simp_all add: cstr_append add.assoc)
  have s: "strchr m str 46 = Some ?p0" "strchr m (?p0 + 1) 46 = Some ?p1" "strchr m (?p1 + 1) 46 = Some ?p2"
    "strchr m str 0 = Some (?p2 + 1 + length d3)"
    using strchr_dot [OF assms(1,2)] strchr_dot [OF c(1)] strchr_dot [OF c(2)] strchr_cstr(2) [OF assms(1,2)] assms(3)
    by (simp_all add: add.assoc)
  have b0: "\<forall>i < length d0. m (str + i) = d0 ! i" using assms(1) by (simp add: cstr_append)
  have b: "\<forall>i < length d1. m (Suc ?p0 + i) = d1 ! i \<and> d1 ! i \<noteq> 46"
    "\<forall>i < length d2. m (Suc ?p1 + i) = d2 ! i \<and> d2 ! i \<noteq> 46"
    "\<forall>i < length d3. m (Suc ?p2 + i) = d3 ! i \<and> d3 ! i \<noteq> 46"
    using c assms(3) by (auto simp: cstr_append cstr_nth [of m _ d3] dest!: nth_mem digit_nonzero)
  have f: "first_field m str ?p0 1 0 = dec_val d0" using first_field_digits [OF b0, of 1 0] by simp
  have g: "dot_field m 1 ?p1 1 a = a + push_bit 8 (dec_val d1)" "dot_field m 2 ?p2 1 a = a + push_bit 16 (dec_val d2)"
    "dot_field m 3 (?p2 + 1 + length d3) 1 a = a + push_bit 24 (dec_val d3)" for a
    using dot_field_digits [OF b(1) dots(1), of 1 1] dot_field_digits [OF b(2) dots(2), of 2 1]
      dot_field_digits [OF b(3) dots(3), of 3 1]
    by (simp_all del: dot_field.simps)
  show ?thesis unfolding inet_addr_def by (simp only: s option.case Let_def f g)
qed

definition quad_mem :: mem where
  "quad_mem = (\<lambda>a. if a = 1 then 49 else if a = 2 then 48 else if a = 3 then 46 else if a = 4 then 48 else
     if a = 5 then 46 else if a = 6 then 50 else if a = 7 then 46 else if a = 8 then 53 else 0)"

theorem inet_addr_correct_witness: "inet_addr quad_mem 1 = Some 0x0502000A"
proof -
  have c: "cstr quad_mem 1 ([49, 48] @ 46 # [48] @ 46 # [50] @ 46 # [53])" by (simp add: quad_mem_def)
  have d: "\<forall>c \<in> set ([49, 48] @ [48] @ [50] @ [53]). digit c" by (simp add: digit_def)
  show ?thesis using inet_addr_correct [OF c _ d] by (simp add: push_bit_eq_mult)
qed

end
