(* ===== verification/Vm.thy ===== *)
theory Vm
  imports Page_alloc Strings Memblock
begin

text \<open>
  The Sv39 page tables of \<^verbatim>\<open>kernel/vm.c\<close>. Physical memory is seen in two ways: as the 64-bit
  cells of page-table pages (\<open>cells\<close>, by the address of the cell) and as bytes (\<open>bytes\<close>); a page
  obtained from the allocator is cleared in both before use and is then used in one way only.
  Kernel virtual addresses are physical addresses (the kernel map is the identity). TLB flushes
  and messages are left out. A null \<^verbatim>\<open>pte_t *\<close> is 0.
\<close>

section \<open>Entries\<close>

definition MAXVA :: u64 where "MAXVA = push_bit (9 + 9 + 9 + 12 - 1) 1"
definition PTE_V :: u64 where "PTE_V = push_bit 0 1"
definition PTE_R :: u64 where "PTE_R = push_bit 1 1"
definition PTE_W :: u64 where "PTE_W = push_bit 2 1"
definition PTE_X :: u64 where "PTE_X = push_bit 3 1"
definition PTE_U :: u64 where "PTE_U = push_bit 4 1"

definition PXSHIFT :: "nat \<Rightarrow> nat" where "PXSHIFT level = PGSHIFT + 9 * level"

definition PX :: "nat \<Rightarrow> u64 \<Rightarrow> u64" where
  "PX level va = drop_bit (PXSHIFT level) va AND 0x1FF"

definition PA2PTE :: "u64 \<Rightarrow> u64" where "PA2PTE pa = push_bit 10 (drop_bit 12 pa)"
definition PTE2PA :: "u64 \<Rightarrow> u64" where "PTE2PA pte = push_bit 12 (drop_bit 10 pte)"
definition PTE_FLAGS :: "u64 \<Rightarrow> u64" where "PTE_FLAGS pte = pte AND 0x3FF"

record vm =
  node :: pg_data
  cells :: "u64 \<Rightarrow> u64"
  bytes :: mem

definition alloc_page :: "vm \<Rightarrow> u64 \<times> vm" where
  "alloc_page st = (let (a, n) = get_free_page (node st) in (a, st\<lparr>node := n\<rparr>))"

definition release_page :: "u64 \<Rightarrow> vm \<Rightarrow> vm" where
  "release_page a st = st\<lparr>node := free_page a (node st)\<rparr>"

text \<open>\<^verbatim>\<open>memset(page, 0, PGSIZE)\<close> in both views.\<close>

definition in_page :: "u64 \<Rightarrow> u64 \<Rightarrow> bool" where
  "in_page p x \<longleftrightarrow> PGROUNDDOWN x = p"

definition clear_page :: "u64 \<Rightarrow> vm \<Rightarrow> vm" where
  "clear_page p st = st\<lparr>cells := (\<lambda>x. if in_page p x then 0 else cells st x), bytes := memset (unat p) 0 4096 (bytes st)\<rparr>"

definition set_cell :: "u64 \<Rightarrow> u64 \<Rightarrow> vm \<Rightarrow> vm" where
  "set_cell a v st = st\<lparr>cells := (cells st)(a := v)\<rparr>"

section \<open>Walking\<close>

definition pte_addr :: "u64 \<Rightarrow> nat \<Rightarrow> u64 \<Rightarrow> u64" where
  "pte_addr pagetable level va = pagetable + 8 * PX level va"

fun walk_levels :: "nat \<Rightarrow> u64 \<Rightarrow> u64 \<Rightarrow> bool \<Rightarrow> vm \<Rightarrow> u64 \<times> vm" where
  "walk_levels 0 pagetable va alloc st = (pte_addr pagetable 0 va, st)"
| "walk_levels (Suc level) pagetable va alloc st =
     (let pte = pte_addr pagetable (Suc level) va
      in if cells st pte AND PTE_V \<noteq> 0 then walk_levels level (PTE2PA (cells st pte)) va alloc st
         else if \<not> alloc then (0, st)
         else let (pagetable, st) = alloc_page st
              in if pagetable = 0 then (0, st)
                 else let st = clear_page pagetable st;
                          st = set_cell pte (PA2PTE pagetable OR PTE_V) st
                      in walk_levels level pagetable va alloc st)"

definition walk :: "u64 \<Rightarrow> u64 \<Rightarrow> bool \<Rightarrow> vm \<Rightarrow> (u64 \<times> vm) result" where
  "walk pagetable va alloc st =
     (if va \<ge> MAXVA then Inl (Panic ''walk'') else Inr (walk_levels 2 pagetable va alloc st))"

definition walkaddr :: "u64 \<Rightarrow> u64 \<Rightarrow> vm \<Rightarrow> u64" where
  "walkaddr pagetable va st =
     (if va \<ge> MAXVA then 0
      else let pte = fst (walk_levels 2 pagetable va False st)
           in if pte = 0 then 0
              else if cells st pte AND PTE_V = 0 then 0
              else if cells st pte AND PTE_U = 0 then 0
              else PTE2PA (cells st pte))"

section \<open>Mapping\<close>

lemma walk_bound: "walk t a alloc st = Inr r \<Longrightarrow> unat (a + PGSIZE) = unat a + 4096 \<and> unat a < unat MAXVA"
proof -
  assume "walk t a alloc st = Inr r"
  then have "unat a < unat MAXVA" by (auto simp: walk_def word_le_nat_alt split: if_splits)
  moreover have "unat MAXVA = 2 ^ 38" by (simp add: MAXVA_def)
  ultimately show ?thesis by (simp add: PGSIZE_def unat_word_ariths)
qed

text \<open>\<open>a\<close> only grows, and \<^verbatim>\<open>walk\<close> stops the machine at \<^verbatim>\<open>MAXVA\<close>, so the loop ends.\<close>

function map_loop :: "u64 \<Rightarrow> u64 \<Rightarrow> u64 \<Rightarrow> u64 \<Rightarrow> u64 \<Rightarrow> vm \<Rightarrow> (int \<times> vm) result" where
  "map_loop pagetable a lastpg pa perm st =
     (case walk pagetable a True st of
        Inl e \<Rightarrow> Inl e
      | Inr (pte, st) \<Rightarrow>
          if pte = 0 then Inr (-1, st)
          else if cells st pte AND PTE_V \<noteq> 0 then Inr (-1, st)
          else let st = set_cell pte (PA2PTE pa OR perm OR PTE_V) st
               in if a = lastpg then Inr (0, st)
                  else map_loop pagetable (a + PGSIZE) lastpg (pa + PGSIZE) perm st)"
  by pat_completeness auto
termination
  by (relation "measure (\<lambda>(pagetable, a, lastpg, pa, perm, st). unat MAXVA - unat a)")
    (auto dest!: walk_bound intro!: diff_less_mono2)

declare map_loop.simps [simp del]

definition mappages :: "u64 \<Rightarrow> u64 \<Rightarrow> u64 \<Rightarrow> u64 \<Rightarrow> u64 \<Rightarrow> vm \<Rightarrow> (int \<times> vm) result" where
  "mappages pagetable va sz pa perm st =
     (if sz = 0 then Inl (Panic ''mappages: size'')
      else map_loop pagetable (PGROUNDDOWN va) (PGROUNDDOWN (va + sz - 1)) pa perm st)"

function unmap_loop :: "u64 \<Rightarrow> u64 \<Rightarrow> u64 \<Rightarrow> bool \<Rightarrow> vm \<Rightarrow> vm result" where
  "unmap_loop pagetable a end do_free st =
     (if a < end
      then case walk pagetable a False st of
             Inl e \<Rightarrow> Inl e
           | Inr (pte, st) \<Rightarrow>
               if pte = 0 then Inl (Panic ''uvmunmap: walk'')
               else if cells st pte AND PTE_V = 0 then Inl (Panic ''uvmunmap: not mapped'')
               else if PTE_FLAGS (cells st pte) = PTE_V then Inl (Panic ''uvmunmap: not a leaf'')
               else let st = (if do_free then release_page (PTE2PA (cells st pte)) st else st);
                        st = set_cell pte 0 st
                    in unmap_loop pagetable (a + PGSIZE) end do_free st
      else Inr st)"
  by pat_completeness auto
termination
  by (relation "measure (\<lambda>(pagetable, a, end, do_free, st). unat MAXVA - unat a)")
    (auto dest!: walk_bound intro!: diff_less_mono2)

declare unmap_loop.simps [simp del]

definition uvmunmap :: "u64 \<Rightarrow> u64 \<Rightarrow> u64 \<Rightarrow> bool \<Rightarrow> vm \<Rightarrow> vm result" where
  "uvmunmap pagetable va npages do_free st =
     (if va mod PGSIZE \<noteq> 0 then Inl (Panic ''uvmunmap: not aligned'')
      else unmap_loop pagetable va (va + npages * PGSIZE) do_free st)"

function unmap_valid_loop :: "u64 \<Rightarrow> u64 \<Rightarrow> u64 \<Rightarrow> vm \<Rightarrow> vm result" where
  "unmap_valid_loop pagetable a end st =
     (if a < end
      then case walk pagetable a False st of
             Inl e \<Rightarrow> Inl e
           | Inr (pte, st) \<Rightarrow>
               if pte = 0 \<or> cells st pte AND PTE_V = 0 \<or> PTE_FLAGS (cells st pte) = PTE_V
               then unmap_valid_loop pagetable (a + PGSIZE) end st
               else let st = release_page (PTE2PA (cells st pte)) st;
                        st = set_cell pte 0 st
                    in unmap_valid_loop pagetable (a + PGSIZE) end st
      else Inr st)"
  by pat_completeness auto
termination
  by (relation "measure (\<lambda>(pagetable, a, end, st). unat MAXVA - unat a)")
    (auto dest!: walk_bound intro!: diff_less_mono2)

declare unmap_valid_loop.simps [simp del]

definition unmap_validpages :: "u64 \<Rightarrow> u64 \<Rightarrow> u64 \<Rightarrow> vm \<Rightarrow> vm result" where
  "unmap_validpages pagetable va npages st =
     (if va mod PGSIZE \<noteq> 0 then Inl (Panic ''uvmunmap: not aligned'')
      else unmap_valid_loop pagetable va (va + npages * PGSIZE) st)"

section \<open>The kernel map\<close>

definition kvmmap :: "u64 \<Rightarrow> u64 \<Rightarrow> u64 \<Rightarrow> u64 \<Rightarrow> u64 \<Rightarrow> vm \<Rightarrow> vm result" where
  "kvmmap kpgtbl va pa sz perm st =
     bindR (mappages kpgtbl va sz pa perm st) (\<lambda>(r, st). if r \<noteq> 0 then Inl (Panic ''kvmmap'') else Inr st)"

definition UART0 :: u64 where "UART0 = 0x10000000"
definition VIRTIO0 :: u64 where "VIRTIO0 = 0x10001000"
definition PLIC :: u64 where "PLIC = 0x0c000000"
definition VIRT_PCIE_ADDR :: u64 where "VIRT_PCIE_ADDR = 0x30000000"
definition VIRT_E1000_ADDR :: u64 where "VIRT_E1000_ADDR = 0x40000000"

definition VIRT_PCIE_ADDR_LENGTH :: u64 where "VIRT_PCIE_ADDR_LENGTH = 0x10000000"
definition VIRT_E1000_ADDR_LENGTH :: u64 where "VIRT_E1000_ADDR_LENGTH = 0x20000"

text \<open>The linker symbol \<^verbatim>\<open>_etext\<close> is an argument.\<close>

definition kvmmake :: "u64 \<Rightarrow> vm \<Rightarrow> (u64 \<times> vm) result" where
  "kvmmake etext st =
     (let (kpgtbl, st) = alloc_page st;
          st = clear_page kpgtbl st
      in bindR (kvmmap kpgtbl UART0 UART0 PGSIZE (PTE_R OR PTE_W) st)
         (\<lambda>st. bindR (kvmmap kpgtbl VIRTIO0 VIRTIO0 PGSIZE (PTE_R OR PTE_W) st)
         (\<lambda>st. bindR (kvmmap kpgtbl PLIC PLIC 0x400000 (PTE_R OR PTE_W) st)
         (\<lambda>st. bindR (kvmmap kpgtbl VIRT_PCIE_ADDR VIRT_PCIE_ADDR VIRT_PCIE_ADDR_LENGTH (PTE_R OR PTE_W) st)
         (\<lambda>st. bindR (kvmmap kpgtbl VIRT_E1000_ADDR VIRT_E1000_ADDR VIRT_E1000_ADDR_LENGTH (PTE_R OR PTE_W) st)
         (\<lambda>st. bindR (kvmmap kpgtbl KERNBASE KERNBASE (etext - KERNBASE) (PTE_R OR PTE_X) st)
         (\<lambda>st. bindR (kvmmap kpgtbl etext etext (PHYSTOP - etext) (PTE_R OR PTE_W) st)
         (\<lambda>st. Inr (kpgtbl, st)))))))))"

section \<open>Freeing page tables\<close>

text \<open>\<open>free\<close> is 1 to release; the other call only prints.\<close>

definition entry_addr :: "u64 \<Rightarrow> nat \<Rightarrow> u64" where
  "entry_addr pagetable i = pagetable + 8 * of_nat i"

fun walk_pte_loop :: "u64 \<Rightarrow> bool \<Rightarrow> nat list \<Rightarrow> vm \<Rightarrow> vm" where
  "walk_pte_loop pagetable free [] st = st"
| "walk_pte_loop pagetable free (i # is) st =
     (let pte = cells st (entry_addr pagetable i);
          st = (if pte AND PTE_V \<noteq> 0 \<and> free
                then release_page (PTE2PA pte) (set_cell (entry_addr pagetable i) 0 st) else st)
      in walk_pte_loop pagetable free is st)"

definition walk_pte :: "u64 \<Rightarrow> bool \<Rightarrow> vm \<Rightarrow> vm" where
  "walk_pte pagetable free st = walk_pte_loop pagetable free [0..<512] st"

fun walk_pud_loop :: "u64 \<Rightarrow> bool \<Rightarrow> nat list \<Rightarrow> vm \<Rightarrow> vm" where
  "walk_pud_loop pagetable free [] st = st"
| "walk_pud_loop pagetable free (i # is) st =
     (let pte = cells st (entry_addr pagetable i);
          st = (if pte AND PTE_V \<noteq> 0
                then let st = walk_pte (PTE2PA pte) free st
                     in if free then release_page (PTE2PA pte) (set_cell (entry_addr pagetable i) 0 st) else st
                else st)
      in walk_pud_loop pagetable free is st)"

definition walk_pud :: "u64 \<Rightarrow> bool \<Rightarrow> vm \<Rightarrow> vm" where
  "walk_pud pagetable free st = walk_pud_loop pagetable free [0..<512] st"

definition USER_CODE_VM_START :: u64 where "USER_CODE_VM_START = 0x1000000000"

definition STACK_TOP :: u64 where "STACK_TOP = push_bit 30 1 * (PGSIZE div 8) div 2"

fun walk_user_loop :: "u64 \<Rightarrow> bool \<Rightarrow> nat list \<Rightarrow> vm \<Rightarrow> vm" where
  "walk_user_loop pagetable free [] st = st"
| "walk_user_loop pagetable free (i # is) st =
     (let pte = cells st (entry_addr pagetable i);
          st = (if pte AND PTE_V \<noteq> 0
                then let st = walk_pud (PTE2PA pte) free st
                     in if free then release_page (PTE2PA pte) (set_cell (entry_addr pagetable i) 0 st) else st
                else st)
      in walk_user_loop pagetable free is st)"

definition walk_user_page :: "u64 \<Rightarrow> bool \<Rightarrow> vm \<Rightarrow> vm" where
  "walk_user_page pagetable free st =
     walk_user_loop pagetable free [unat (PX 2 USER_CODE_VM_START)..<unat (PX 2 STACK_TOP)] st"

text \<open>The recursion of \<^verbatim>\<open>freewalk\<close> and \<^verbatim>\<open>free_map_mem\<close> (the same code) has the depth of the table as fuel.\<close>

fun freewalk :: "nat \<Rightarrow> u64 \<Rightarrow> vm \<Rightarrow> vm result option"
  and freewalk_loop :: "nat \<Rightarrow> u64 \<Rightarrow> nat list \<Rightarrow> vm \<Rightarrow> vm result option" where
  "freewalk 0 pagetable st = None"
| "freewalk (Suc d) pagetable st =
     (case freewalk_loop d pagetable [0..<512] st of
        Some (Inr st) \<Rightarrow> Some (Inr (release_page pagetable st))
      | r \<Rightarrow> r)"
| "freewalk_loop d pagetable [] st = Some (Inr st)"
| "freewalk_loop d pagetable (i # is) st =
     (let pte = cells st (entry_addr pagetable i)
      in if pte AND PTE_V \<noteq> 0 \<and> pte AND (PTE_R OR PTE_W OR PTE_X) = 0
         then case freewalk d (PTE2PA pte) st of
                Some (Inr st) \<Rightarrow> freewalk_loop d pagetable is (set_cell (entry_addr pagetable i) 0 st)
              | r \<Rightarrow> r
         else if pte AND PTE_V \<noteq> 0 then Some (Inl (Panic ''freewalk: leaf''))
         else freewalk_loop d pagetable is st)"

definition uvmcreate :: "vm \<Rightarrow> u64 \<times> vm" where
  "uvmcreate st = (let (p, st) = alloc_page st in if p = 0 then (0, st) else (p, clear_page p st))"

definition copy_page_cells :: "u64 \<Rightarrow> u64 \<Rightarrow> vm \<Rightarrow> vm" where
  "copy_page_cells dst src st =
     st\<lparr>cells := (\<lambda>x. if in_page dst x then cells st (src + (x - dst)) else cells st x),
        bytes := memcpy (unat dst) (unat src) 4096 (bytes st)\<rparr>"

definition copy_kernel_tbl :: "u64 \<Rightarrow> vm \<Rightarrow> u64 \<times> vm" where
  "copy_kernel_tbl kernel_pagetable st =
     (let (new, st) = alloc_page st
      in if new \<noteq> 0 then (new, copy_page_cells new kernel_pagetable (clear_page new st)) else (new, st))"

section \<open>Loading user memory\<close>

definition ENOMEM :: int where "ENOMEM = 12"

text \<open>
  The loop of \<^verbatim>\<open>vm_map_program\<close>: \<open>va\<close> is the same in every turn and \<^verbatim>\<open>perm\<close> is not used, as in the
  code. \<open>src\<close> is 0 for a null source.
\<close>

function map_program_loop :: "u64 \<Rightarrow> u64 \<Rightarrow> nat \<Rightarrow> nat \<Rightarrow> nat \<Rightarrow> int \<Rightarrow> vm \<Rightarrow> (int \<times> vm) result" where
  "map_program_loop pagetable va src i sz ret st =
     (if i < sz
      then let n = (if sz - i < 4096 then sz - i else 4096);
               pa = walkaddr pagetable va st;
               fill = (\<lambda>mp ret st.
                 let st = (if src \<noteq> 0 then st\<lparr>bytes := memmove (unat mp) src n (bytes st)\<rparr>
                           else st\<lparr>bytes := memset (unat mp) 0 n (bytes st)\<rparr>)
                 in map_program_loop pagetable va (if src \<noteq> 0 then src + n else src) (i + 4096) sz ret st)
           in if pa \<noteq> 0 then fill pa ret st
              else let (mp, st) = alloc_page st
                   in if mp = 0 then Inr (- ENOMEM, st)
                      else case mappages pagetable va PGSIZE mp (PTE_U OR PTE_R OR PTE_W OR PTE_X) (clear_page mp st) of
                             Inl e \<Rightarrow> Inl e
                           | Inr (_, st) \<Rightarrow> fill mp 1 st
      else Inr (ret, st))"
  by pat_completeness auto
termination
  by (relation "measure (\<lambda>(pagetable, va, src, i, sz, ret, st). sz - i)") auto

declare map_program_loop.simps [simp del]

definition vm_map_program :: "u64 \<Rightarrow> u64 \<Rightarrow> nat \<Rightarrow> u32 \<Rightarrow> u64 \<Rightarrow> vm \<Rightarrow> (int \<times> vm) result" where
  "vm_map_program pagetable va src sz perm st = map_program_loop pagetable va src 0 (unat sz) 0 st"

definition map_program_code :: "u64 \<Rightarrow> u64 \<Rightarrow> nat \<Rightarrow> u32 \<Rightarrow> vm \<Rightarrow> (int \<times> vm) result" where
  "map_program_code pagetable va src sz st = vm_map_program pagetable va src sz (PTE_R OR PTE_U OR PTE_X) st"

definition map_program_bss :: "u64 \<Rightarrow> u64 \<Rightarrow> nat \<Rightarrow> u32 \<Rightarrow> vm \<Rightarrow> (int \<times> vm) result" where
  "map_program_bss pagetable va src sz st = vm_map_program pagetable va src sz (PTE_R OR PTE_U OR PTE_W) st"

function map_normal_loop :: "u64 \<Rightarrow> u64 \<Rightarrow> nat \<Rightarrow> nat \<Rightarrow> nat \<Rightarrow> int \<Rightarrow> vm \<Rightarrow> (int \<times> vm) result" where
  "map_normal_loop pagetable vm_base src i sz ret st =
     (if i < sz
      then let n = (if sz - i < 4096 then sz - i else 4096);
               va = vm_base + of_nat i;
               pa = walkaddr pagetable va st;
               fill = (\<lambda>mp ret st.
                 map_normal_loop pagetable vm_base (src + n) (i + 4096) sz ret
                   (st\<lparr>bytes := memmove (unat mp) src n (bytes st)\<rparr>))
           in if pa \<noteq> 0 then fill pa ret st
              else let (mp, st) = alloc_page st
                   in if mp = 0 then Inr (- ENOMEM, st)
                      else case mappages pagetable va PGSIZE mp (PTE_W OR PTE_R OR PTE_U) (clear_page mp st) of
                             Inl e \<Rightarrow> Inl e
                           | Inr (_, st) \<Rightarrow> fill mp 1 st
      else Inr (ret, st))"
  by pat_completeness auto
termination
  by (relation "measure (\<lambda>(pagetable, vm_base, src, i, sz, ret, st). sz - i)") auto

declare map_normal_loop.simps [simp del]

definition vm_map_normal_mem :: "u64 \<Rightarrow> u64 \<Rightarrow> nat \<Rightarrow> u32 \<Rightarrow> vm \<Rightarrow> (int \<times> vm) result" where
  "vm_map_normal_mem pagetable vm_base src sz st = map_normal_loop pagetable vm_base src 0 (unat sz) 0 st"

section \<open>Copying between kernel and user space\<close>

lemma page_offset_less: "unat (a - PGROUNDDOWN a) = unat a mod 4096"
proof -
  have "PGROUNDDOWN a \<le> a" by (simp add: word_le_nat_alt PGROUNDDOWN_unat)
  then show ?thesis by (simp add: unat_sub PGROUNDDOWN_unat)
qed

lemma page_rest: "unat (PGSIZE - (a - PGROUNDDOWN a)) = 4096 - unat a mod 4096"
  by (subst unat_sub) (simp_all add: word_le_nat_alt page_offset_less PGSIZE_def less_imp_le)

function copy_out_loop :: "u64 \<Rightarrow> u64 \<Rightarrow> nat \<Rightarrow> u64 \<Rightarrow> vm \<Rightarrow> int \<times> vm" where
  "copy_out_loop pagetable dstva src len st =
     (if len > 0
      then let va0 = PGROUNDDOWN dstva;
               pa0 = walkaddr pagetable va0 st
           in if pa0 = 0 then (-1, st)
              else let n = PGSIZE - (dstva - va0);
                       n = (if n > len then len else n);
                       st = st\<lparr>bytes := memmove (unat (pa0 + (dstva - va0))) src (unat n) (bytes st)\<rparr>
                   in copy_out_loop pagetable (va0 + PGSIZE) (src + unat n) (len - n) st
      else (0, st))"
  by pat_completeness auto
termination
  by (relation "measure (\<lambda>(pagetable, dstva, src, len, st). unat len)")
    (auto simp: word_less_nat_alt unat_sub word_le_nat_alt page_rest not_less)

declare copy_out_loop.simps [simp del]

definition copy_data_kernel_to_user :: "u64 \<Rightarrow> u64 \<Rightarrow> nat \<Rightarrow> u64 \<Rightarrow> vm \<Rightarrow> int \<times> vm" where
  "copy_data_kernel_to_user pagetable dstva src len st = copy_out_loop pagetable dstva src len st"

function copy_in_loop :: "u64 \<Rightarrow> nat \<Rightarrow> u64 \<Rightarrow> u64 \<Rightarrow> vm \<Rightarrow> int \<times> vm" where
  "copy_in_loop pagetable dst srcva len st =
     (if len > 0
      then let va0 = PGROUNDDOWN srcva;
               pa0 = walkaddr pagetable va0 st
           in if pa0 = 0 then (-1, st)
              else let n = PGSIZE - (srcva - va0);
                       n = (if n > len then len else n);
                       st = st\<lparr>bytes := memmove dst (unat (pa0 + (srcva - va0))) (unat n) (bytes st)\<rparr>
                   in copy_in_loop pagetable (dst + unat n) (va0 + PGSIZE) (len - n) st
      else (0, st))"
  by pat_completeness auto
termination
  by (relation "measure (\<lambda>(pagetable, dst, srcva, len, st). unat len)")
    (auto simp: word_less_nat_alt unat_sub word_le_nat_alt page_rest not_less)

declare copy_in_loop.simps [simp del]

definition copy_data_user_to_kernel :: "u64 \<Rightarrow> nat \<Rightarrow> u64 \<Rightarrow> u64 \<Rightarrow> vm \<Rightarrow> int \<times> vm" where
  "copy_data_user_to_kernel pagetable dst srcva len st = copy_in_loop pagetable dst srcva len st"

definition user_space_address :: "u64 \<Rightarrow> bool" where
  "user_space_address addr \<longleftrightarrow> addr \<ge> USER_CODE_VM_START"

text \<open>\<open>pagetable\<close> is \<^verbatim>\<open>current->mm->pagetable\<close>.\<close>

definition space_data_copy_out :: "u64 \<Rightarrow> u64 \<Rightarrow> nat \<Rightarrow> u32 \<Rightarrow> vm \<Rightarrow> int \<times> vm" where
  "space_data_copy_out pagetable dst_va src len st =
     (if user_space_address dst_va then copy_data_kernel_to_user pagetable dst_va src (ucast len) st
      else (0, st\<lparr>bytes := memmove (unat dst_va) src (unat len) (bytes st)\<rparr>))"

definition spcae_data_copy_in :: "u64 \<Rightarrow> nat \<Rightarrow> u64 \<Rightarrow> u64 \<Rightarrow> vm \<Rightarrow> int \<times> vm" where
  "spcae_data_copy_in pagetable dst src_va len st =
     (if user_space_address src_va then copy_data_user_to_kernel pagetable dst src_va len st
      else (0, st\<lparr>bytes := memmove dst (unat src_va) (unat (ucast len :: u32)) (bytes st)\<rparr>))"


section \<open>Page tables as trees\<close>

abbreviation valid :: "u64 \<Rightarrow> bool" where
  "valid e \<equiv> e AND PTE_V \<noteq> 0"

fun desc :: "(u64 \<Rightarrow> u64) \<Rightarrow> nat \<Rightarrow> u64 \<Rightarrow> u64 \<Rightarrow> u64 option" where
  "desc c 0 t va = Some (pte_addr t 0 va)"
| "desc c (Suc l) t va =
     (let e = c (pte_addr t (Suc l) va) in if valid e then desc c l (PTE2PA e) va else None)"

text \<open>The valid leaf entry that translates \<open>va\<close>, or 0.\<close>

definition leaf :: "(u64 \<Rightarrow> u64) \<Rightarrow> nat \<Rightarrow> u64 \<Rightarrow> u64 \<Rightarrow> u64" where
  "leaf c l t va = (case desc c l t va of None \<Rightarrow> 0 | Some a \<Rightarrow> if valid (c a) then c a else 0)"

definition child :: "(u64 \<Rightarrow> u64) \<Rightarrow> u64 \<Rightarrow> nat \<Rightarrow> u64" where
  "child c t i = PTE2PA (c (entry_addr t i))"

definition kids :: "(u64 \<Rightarrow> u64) \<Rightarrow> u64 \<Rightarrow> nat set" where
  "kids c t = {i. i < 512 \<and> valid (c (entry_addr t i))}"

fun tables :: "(u64 \<Rightarrow> u64) \<Rightarrow> nat \<Rightarrow> u64 \<Rightarrow> u64 set" where
  "tables c 0 t = {t}"
| "tables c (Suc l) t = insert t (\<Union>i \<in> kids c t. tables c l (child c t i))"

text \<open>A well-formed table: page-aligned, and no page-table page is reached in two ways.\<close>

fun ptree :: "(u64 \<Rightarrow> u64) \<Rightarrow> nat \<Rightarrow> u64 \<Rightarrow> bool" where
  "ptree c 0 t \<longleftrightarrow> PGROUNDDOWN t = t"
| "ptree c (Suc l) t \<longleftrightarrow> PGROUNDDOWN t = t \<and>
     (\<forall>i \<in> kids c t. ptree c l (child c t i) \<and> t \<notin> tables c l (child c t i)) \<and>
     (\<forall>i \<in> kids c t. \<forall>j \<in> kids c t. i \<noteq> j \<longrightarrow> tables c l (child c t i) \<inter> tables c l (child c t j) = {})"

lemma ptree_aligned: "ptree c l t \<Longrightarrow> PGROUNDDOWN t = t"
  by (cases l) auto

lemma tables_root: "t \<in> tables c l t"
  by (cases l) auto

definition idx :: "nat \<Rightarrow> u64 \<Rightarrow> nat" where
  "idx l va = unat (PX l va)"

lemma idx_less: "idx l va < 512"
proof -
  have "PX l va = take_bit 9 (drop_bit (PXSHIFT l) va)"
    by (simp add: PX_def take_bit_eq_mask mask_eq_exp_minus_1)
  then have "unat (PX l va) = take_bit 9 (unat (drop_bit (PXSHIFT l) va))" by (simp only: unsigned_take_bit_eq)
  then show ?thesis using take_bit_nat_less_exp [of 9 "unat (drop_bit (PXSHIFT l) va)"] by (simp add: idx_def)
qed

lemma pte_addr_entry: "pte_addr t l va = entry_addr t (idx l va)"
  by (simp add: pte_addr_def entry_addr_def idx_def)

lemma entry_addr_unat:
  assumes "PGROUNDDOWN t = t" "i < 512"
  shows "unat (entry_addr t i) = unat t + 8 * i" "unat t mod 4096 = 0"
proof -
  have "unat t - unat t mod 4096 = unat t" using assms(1) by (metis PGROUNDDOWN_unat)
  then show m: "unat t mod 4096 = 0" using mod_less_eq_dividend [of "unat t" 4096] by arith
  then obtain q where q: "unat t = 4096 * q" by (auto elim!: dvdE simp flip: dvd_eq_mod_eq_0)
  have "unat t < 2 ^ 64" by (rule order.strict_trans2 [OF unsigned_less]) simp
  then have "q + 1 \<le> 2 ^ 52" using q by simp
  then have "unat t + 8 * i < 2 ^ 64" using assms(2) q by simp
  then show "unat (entry_addr t i) = unat t + 8 * i"
    using assms(2) by (simp add: entry_addr_def unat_word_ariths unat_of_nat take_bit_nat_eq_self)
qed

lemma entry_addr_page:
  assumes "PGROUNDDOWN t = t" "i < 512"
  shows "PGROUNDDOWN (entry_addr t i) = t"
proof -
  have "unat (PGROUNDDOWN (entry_addr t i)) = unat t + 8 * i - (unat t + 8 * i) mod 4096"
    by (simp add: PGROUNDDOWN_unat entry_addr_unat [OF assms])
  also have "(unat t + 8 * i) mod 4096 = 8 * i"
    using entry_addr_unat(2) [OF assms] assms(2) by (simp add: mod_add_left_eq [symmetric])
  finally show ?thesis by (intro unsigned_word_eqI) simp
qed

lemma entry_addr_inj:
  "PGROUNDDOWN t = t \<Longrightarrow> i < 512 \<Longrightarrow> j < 512 \<Longrightarrow> entry_addr t i = entry_addr t j \<longleftrightarrow> i = j"
  using entry_addr_unat(1) [of t i] entry_addr_unat(1) [of t j] by (metis add_left_cancel mult_left_cancel zero_neq_numeral)

lemma PTE2PA_aligned: "PGROUNDDOWN (PTE2PA e) = PTE2PA e"
  by (rule bit_word_eqI) (auto simp: PGROUNDDOWN_def page_mask PTE2PA_def bit_simps)

lemma pte_roundtrip:
  assumes "PGROUNDDOWN p = p"
  shows "PTE2PA (PA2PTE p OR PTE_V) = p" "valid (PA2PTE p OR PTE_V)"
proof -
  have low: "12 \<le> n" if "bit p n" for n
    using that arg_cong [OF assms, of "\<lambda>w. bit w n"] by (auto simp: PGROUNDDOWN_def page_mask bit_simps)
  show "PTE2PA (PA2PTE p OR PTE_V) = p"
  proof (rule bit_word_eqI)
    fix n assume "n < LENGTH(64)"
    then show "bit (PTE2PA (PA2PTE p OR PTE_V)) n = bit p n"
      using low [of n] by (cases "12 \<le> n") (auto simp: PTE2PA_def PA2PTE_def PTE_V_def bit_simps)
  qed
  have "bit ((PA2PTE p OR PTE_V) AND PTE_V) 0" by (simp add: bit_simps PTE_V_def)
  then show "valid (PA2PTE p OR PTE_V)" by (metis bit_0_eq bot_apply bot_bool_def)
qed


lemma leaf_Suc:
  "leaf c (Suc l) t va = (if idx (Suc l) va \<in> kids c t then leaf c l (child c t (idx (Suc l) va)) va else 0)"
  by (simp add: leaf_def kids_def idx_less pte_addr_entry child_def Let_def)

lemma desc_Suc:
  "desc c (Suc l) t va = (if idx (Suc l) va \<in> kids c t then desc c l (child c t (idx (Suc l) va)) va else None)"
  by (simp add: kids_def idx_less pte_addr_entry child_def Let_def)

text \<open>Changing cells outside the pages of a tree changes nothing about it.\<close>

lemma ptree_cong:
  assumes "ptree c l t" "\<And>x. PGROUNDDOWN x \<in> tables c l t \<Longrightarrow> c' x = c x"
  shows "ptree c' l t \<and> tables c' l t = tables c l t \<and> (\<forall>va. desc c' l t va = desc c l t va) \<and>
    (\<forall>va. leaf c' l t va = leaf c l t va)"
  using assms
proof (induction l arbitrary: t)
  case 0
  then show ?case by (auto simp: leaf_def pte_addr_entry entry_addr_page idx_less)
next
  case (Suc l)
  have al: "PGROUNDDOWN t = t" using Suc.prems(1) by simp
  have slot: "c' (entry_addr t i) = c (entry_addr t i)" if "i < 512" for i
    using Suc.prems(2) [of "entry_addr t i"] entry_addr_page [OF al that] by simp
  have k: "kids c' t = kids c t" and ch: "\<And>i. i \<in> kids c t \<Longrightarrow> child c' t i = child c t i"
    by (auto simp: kids_def child_def slot)
  have IH: "ptree c' l (child c t i) \<and> tables c' l (child c t i) = tables c l (child c t i) \<and>
      (\<forall>va. desc c' l (child c t i) va = desc c l (child c t i) va) \<and>
      (\<forall>va. leaf c' l (child c t i) va = leaf c l (child c t i) va)" if "i \<in> kids c t" for i
    using that Suc.prems by (intro Suc.IH) auto
  have d: "desc c' (Suc l) t va = desc c (Suc l) t va" "leaf c' (Suc l) t va = leaf c (Suc l) t va" for va
    using IH [of "idx (Suc l) va"] by (auto simp: desc_Suc leaf_Suc k ch simp del: desc.simps)
  have "ptree c' (Suc l) t" using Suc.prems(1) IH by (simp add: k ch)
  moreover have "tables c' (Suc l) t = tables c (Suc l) t" using IH by (simp add: k ch)
  ultimately show ?case using d by blast
qed

lemma desc_in_tables:
  "ptree c l t \<Longrightarrow> desc c l t va = Some a \<Longrightarrow> PGROUNDDOWN a \<in> tables c l t"
proof (induction l arbitrary: t)
  case 0
  then show ?case by (auto simp: pte_addr_entry entry_addr_page idx_less)
next
  case (Suc l)
  let ?i = "idx (Suc l) va"
  have i: "?i \<in> kids c t" "desc c l (child c t ?i) va = Some a"
    using Suc.prems(2) by (auto simp: desc_Suc simp del: desc.simps split: if_splits)
  then show ?case using Suc.IH [OF _ i(2)] Suc.prems(1) by auto
qed

text \<open>Two addresses share a leaf entry only if all their indices agree.\<close>

lemma desc_inj:
  assumes "ptree c l t" "desc c l t va = Some a" "desc c l t va' = Some a"
  shows "\<forall>j \<le> l. idx j va = idx j va'"
  using assms
proof (induction l arbitrary: t)
  case 0
  then show ?case using entry_addr_inj [OF _ idx_less idx_less] by (auto simp: pte_addr_entry)
next
  case (Suc l)
  let ?i = "idx (Suc l) va" and ?j = "idx (Suc l) va'"
  have i: "?i \<in> kids c t" "desc c l (child c t ?i) va = Some a"
    and j: "?j \<in> kids c t" "desc c l (child c t ?j) va' = Some a"
    using Suc.prems(2,3) by (auto simp: desc_Suc simp del: desc.simps split: if_splits)
  have pt: "ptree c l (child c t ?i)" "ptree c l (child c t ?j)" using Suc.prems(1) i j by auto
  have "tables c l (child c t ?i) \<inter> tables c l (child c t ?j) \<noteq> {}"
    using desc_in_tables [OF pt(1) i(2)] desc_in_tables [OF pt(2) j(2)] by blast
  then have ij: "?i = ?j" using Suc.prems(1) i(1) j(1) by auto
  then show ?case using Suc.IH [OF pt(1) i(2)] j(2) by (auto simp: le_Suc_eq)
qed


section \<open>Walking with allocation keeps every translation\<close>

text \<open>The table grows by pages not in \<open>U\<close>; the cells of other pages and all translations stay.\<close>

definition ext :: "nat \<Rightarrow> u64 \<Rightarrow> (u64 \<Rightarrow> u64) \<Rightarrow> u64 set \<Rightarrow> (u64 \<Rightarrow> u64) \<Rightarrow> u64 set \<Rightarrow> bool" where
  "ext l t c U c' U' \<longleftrightarrow> U \<subseteq> U' \<and> ptree c' l t \<and> tables c' l t \<subseteq> tables c l t \<union> (U' - U) \<and>
     (\<forall>x. PGROUNDDOWN x \<notin> tables c l t \<union> (U' - U) \<longrightarrow> c' x = c x) \<and> (\<forall>va. leaf c' l t va = leaf c l t va)"

lemma extD:
  assumes "ext l t c U c' U'"
  shows "U \<subseteq> U'" "ptree c' l t" "tables c' l t \<subseteq> tables c l t \<union> (U' - U)"
    "PGROUNDDOWN x \<notin> tables c l t \<Longrightarrow> PGROUNDDOWN x \<notin> U' - U \<Longrightarrow> c' x = c x" "leaf c' l t va = leaf c l t va"
  using assms unfolding ext_def by blast+

lemma ext_refl: "ptree c l t \<Longrightarrow> ext l t c U c U"
  by (simp add: ext_def)

lemma ext_trans:
  assumes "ext l t c U c1 U1" "ext l t c1 U1 c2 U2"
  shows "ext l t c U c2 U2"
  unfolding ext_def
proof (intro conjI allI impI)
  note a = extD [OF assms(1)] and b = extD [OF assms(2)]
  show "U \<subseteq> U2" "ptree c2 l t" using a(1) b(1,2) by auto
  show "tables c2 l t \<subseteq> tables c l t \<union> (U2 - U)" using a(1,3) b(1,3) by blast
  show "c2 x = c x" if "PGROUNDDOWN x \<notin> tables c l t \<union> (U2 - U)" for x
  proof -
    have "PGROUNDDOWN x \<notin> tables c1 l t" "PGROUNDDOWN x \<notin> U2 - U1" "PGROUNDDOWN x \<notin> U1 - U"
      using that a(1,3) b(1) by auto
    then show ?thesis using a(4) [of x] b(4) [of x] that by auto
  qed
  show "leaf c2 l t va = leaf c l t va" for va using a(5) b(5) by simp
qed

lemma ext_child:
  assumes pt: "ptree c (Suc l) t" and sub: "tables c (Suc l) t \<subseteq> U" and i: "i \<in> kids c t"
    and e: "ext l (child c t i) c U c' U'"
  shows "ext (Suc l) t c U c' U'" "kids c' t = kids c t" "\<And>j. j < 512 \<Longrightarrow> child c' t j = child c t j"
proof -
  note a = extD [OF e]
  have al: "PGROUNDDOWN t = t" using pt by simp
  have t: "t \<notin> tables c l (child c t i)" "t \<in> U" using pt i sub by auto
  have slot: "c' (entry_addr t j) = c (entry_addr t j)" if "j < 512" for j
    using a(4) [of "entry_addr t j"] entry_addr_page [OF al that] t by auto
  show k: "kids c' t = kids c t" by (auto simp: kids_def slot)
  show ch: "child c' t j = child c t j" if "j < 512" for j using slot [OF that] by (simp add: child_def)
  have chk: "child c' t j = child c t j" if "j \<in> kids c t" for j using ch that by (simp add: kids_def)
  have other: "ptree c' l (child c t j) \<and> tables c' l (child c t j) = tables c l (child c t j) \<and>
      (\<forall>va. leaf c' l (child c t j) va = leaf c l (child c t j) va)" if "j \<in> kids c t" "j \<noteq> i" for j
  proof -
    have pj: "ptree c l (child c t j)" "tables c l (child c t j) \<subseteq> U"
      "tables c l (child c t j) \<inter> tables c l (child c t i) = {}" using pt sub i that by auto
    have "c' x = c x" if "PGROUNDDOWN x \<in> tables c l (child c t j)" for x
      using a(4) [of x] that pj(2,3) by blast
    then show ?thesis using ptree_cong [OF pj(1), of c'] by blast
  qed
  have tab: "tables c' l (child c t j) \<subseteq> tables c l (child c t j) \<union> (U' - U)" if "j \<in> kids c t" for j
    using a(3) other [OF that] by (cases "j = i") auto
  show "ext (Suc l) t c U c' U'"
    unfolding ext_def
  proof (intro conjI allI impI)
    show "U \<subseteq> U'" by (rule a(1))
    have "ptree c' l (child c t j) \<and> t \<notin> tables c' l (child c t j)" if "j \<in> kids c t" for j
      using a(2) other [OF that] tab [OF that] pt that t(2) by (cases "j = i") auto
    moreover have "tables c' l (child c t j) \<inter> tables c' l (child c t j') = {}"
      if "j \<in> kids c t" "j' \<in> kids c t" "j \<noteq> j'" for j j'
    proof -
      have d: "tables c l (child c t j) \<inter> tables c l (child c t j') = {}" using pt that by auto
      have s: "tables c l (child c t j) \<subseteq> U" "tables c l (child c t j') \<subseteq> U" using sub that by auto
      show ?thesis
      proof (cases "j = i")
        case True
        then have "tables c' l (child c t j') = tables c l (child c t j')" using other [OF that(2)] that(3) by blast
        then show ?thesis using tab [OF that(1)] d s(2) by blast
      next
        case False
        then have "tables c' l (child c t j) = tables c l (child c t j)" using other [OF that(1)] by blast
        then show ?thesis using tab [OF that(2)] d s(1) by blast
      qed
    qed
    ultimately show "ptree c' (Suc l) t" using al by (simp add: k chk)
    show "tables c' (Suc l) t \<subseteq> tables c (Suc l) t \<union> (U' - U)" using tab by (auto simp: k chk)
    show "c' x = c x" if "PGROUNDDOWN x \<notin> tables c (Suc l) t \<union> (U' - U)" for x
      using a(4) [of x] that i by auto
    show "leaf c' (Suc l) t va = leaf c (Suc l) t va" for va
      using a(5) other [of "idx (Suc l) va"] by (cases "idx (Suc l) va = i") (auto simp: leaf_Suc k chk)
  qed
qed


lemma fresh_tree:
  assumes "PGROUNDDOWN p = p" "\<And>x. PGROUNDDOWN x = p \<Longrightarrow> c x = 0"
  shows "ptree c l p \<and> tables c l p = {p} \<and> (\<forall>va. leaf c l p va = 0)"
proof -
  have z: "c (entry_addr p i) = 0" if "i < 512" for i using assms(2) entry_addr_page [OF assms(1) that] by blast
  then have k: "kids c p = {}" by (auto simp: kids_def)
  show ?thesis
  proof (cases l)
    case 0
    then show ?thesis using assms(1) z [OF idx_less] by (simp add: leaf_def pte_addr_entry)
  next
    case (Suc n)
    then show ?thesis using assms(1) k by (simp add: leaf_Suc)
  qed
qed

lemma link_new:
  assumes pt: "ptree c (Suc l) t" and sub: "tables c (Suc l) t \<subseteq> U" and i: "i < 512" "i \<notin> kids c t"
    and p: "p \<notin> U" "PGROUNDDOWN p = p"
    and c': "c' = (\<lambda>x. if in_page p x then 0 else c x)(entry_addr t i := PA2PTE p OR PTE_V)"
  shows "ext (Suc l) t c U c' (insert p U)" "i \<in> kids c' t" "child c' t i = p"
proof -
  have al: "PGROUNDDOWN t = t" and tU: "t \<in> U" using pt sub by auto
  have slot: "c' (entry_addr t j) = (if j = i then PA2PTE p OR PTE_V else c (entry_addr t j))" if "j < 512" for j
    using entry_addr_page [OF al that] entry_addr_inj [OF al that i(1)] p(1) tU by (auto simp: c' in_page_def)
  show ki: "i \<in> kids c' t" and ci: "child c' t i = p"
    using slot [OF i(1)] pte_roundtrip [OF p(2)] i(1) by (simp_all add: kids_def child_def)
  have k: "kids c' t = insert i (kids c t)" using ki slot by (auto simp: kids_def split: if_splits)
  have ch: "child c' t j = child c t j" if "j \<in> kids c t" for j
    using that i(2) slot by (auto simp: child_def kids_def)
  have fresh: "ptree c' l p \<and> tables c' l p = {p} \<and> (\<forall>va. leaf c' l p va = 0)"
  proof (rule fresh_tree [OF p(2)])
    fix x assume x: "PGROUNDDOWN x = p"
    then have "x \<noteq> entry_addr t i" using entry_addr_page [OF al i(1)] p(1) tU by auto
    then show "c' x = 0" using x by (simp add: c' in_page_def)
  qed
  have old: "ptree c' l (child c t j) \<and> tables c' l (child c t j) = tables c l (child c t j) \<and>
      (\<forall>va. leaf c' l (child c t j) va = leaf c l (child c t j) va)" if "j \<in> kids c t" for j
  proof -
    have pj: "ptree c l (child c t j)" "tables c l (child c t j) \<subseteq> U" "t \<notin> tables c l (child c t j)"
      using pt sub that by auto
    have "c' x = c x" if "PGROUNDDOWN x \<in> tables c l (child c t j)" for x
      using that pj(2,3) p(1) entry_addr_page [OF al i(1)] by (auto simp: c' in_page_def)
    then show ?thesis using ptree_cong [OF pj(1), of c'] by blast
  qed
  show "ext (Suc l) t c U c' (insert p U)"
    unfolding ext_def
  proof (intro conjI allI impI)
    have new: "insert p U - U = {p}" using p(1) by auto
    show "U \<subseteq> insert p U" by auto
    have in_U: "tables c l (child c t j) \<subseteq> U" if "j \<in> kids c t" for j using sub that by auto
    have "ptree c' l (child c' t j) \<and> t \<notin> tables c' l (child c' t j)" if "j \<in> kids c' t" for j
      using that old [of j] fresh pt p(1) tU ci ch by (auto simp: k)
    moreover have "tables c' l (child c' t j) \<inter> tables c' l (child c' t j') = {}"
      if "j \<in> kids c' t" "j' \<in> kids c' t" "j \<noteq> j'" for j j'
    proof -
      have tabs: "tables c' l (child c' t m) = (if m = i then {p} else tables c l (child c t m))"
        if "m \<in> kids c' t" for m using that old [of m] fresh ci ch by (auto simp: k)
      show ?thesis
        using that i(2) in_U p(1) pt unfolding tabs [OF that(1)] tabs [OF that(2)] by (auto simp: k) blast
    qed
    ultimately show "ptree c' (Suc l) t" using al by simp
    show "tables c' (Suc l) t \<subseteq> tables c (Suc l) t \<union> (insert p U - U)"
      using old fresh ci ch by (auto simp: k new)
    show "c' x = c x" if "PGROUNDDOWN x \<notin> tables c (Suc l) t \<union> (insert p U - U)" for x
      using that entry_addr_page [OF al i(1)] by (auto simp: c' in_page_def new)
    show "leaf c' (Suc l) t va = leaf c (Suc l) t va" for va
      using old [of "idx (Suc l) va"] fresh ci ch i(2) by (auto simp: leaf_Suc k)
  qed
qed


lemma alloc_page_frame:
  "alloc_page st = (p, st') \<Longrightarrow> cells st' = cells st \<and> bytes st' = bytes st \<and> get_free_page (node st) = (p, node st')"
  by (auto simp: alloc_page_def split: prod.splits)

lemma aligned_PGROUNDDOWN: "4096 dvd unat p \<Longrightarrow> PGROUNDDOWN p = p"
proof -
  assume "4096 dvd unat p"
  then have "unat (PGROUNDDOWN p) = unat p" by (simp add: PGROUNDDOWN_unat dvd_eq_mod_eq_0)
  then show ?thesis by (rule unsigned_word_eqI)
qed

lemma cells_clear_page [simp]: "cells (clear_page p st) = (\<lambda>x. if in_page p x then 0 else cells st x)"
  "node (clear_page p st) = node st"
  by (simp_all add: clear_page_def)

lemma cells_set_cell [simp]: "cells (set_cell a v st) = (cells st)(a := v)" "node (set_cell a v st) = node st"
  "bytes (set_cell a v st) = bytes st"
  by (simp_all add: set_cell_def)

lemma walk_levels_read: "walk_levels l t va False st = (case desc (cells st) l t va of None \<Rightarrow> 0 | Some a \<Rightarrow> a, st)"
  by (induction l arbitrary: t) (auto simp: Let_def)

lemma walk_levels_ext:
  assumes "ptree (cells st) l t" "tables (cells st) l t \<subseteq> U" "pages_in_use (node st) U"
    "walk_levels l t va True st = (a, st')"
  shows "\<exists>U'. pages_in_use (node st') U' \<and> ext l t (cells st) U (cells st') U' \<and> tables (cells st') l t \<subseteq> U' \<and>
    (a \<noteq> 0 \<longrightarrow> desc (cells st') l t va = Some a)"
  using assms
proof (induction l arbitrary: t st U)
  case 0
  then show ?case by (intro exI [of _ U]) (auto simp: ext_refl)
next
  case (Suc l)
  let ?i = "idx (Suc l) va"
  text \<open>Once the entry is valid the walk goes on in the child.\<close>
  have down: "\<exists>U'. pages_in_use (node st') U' \<and> ext (Suc l) t (cells s) V (cells st') U' \<and> tables (cells st') (Suc l) t \<subseteq> U' \<and>
      (a \<noteq> 0 \<longrightarrow> desc (cells st') (Suc l) t va = Some a)"
    if pt: "ptree (cells s) (Suc l) t" and sub: "tables (cells s) (Suc l) t \<subseteq> V" and use: "pages_in_use (node s) V"
      and i: "?i \<in> kids (cells s) t" and w: "walk_levels l (child (cells s) t ?i) va True s = (a, st')" for s V
  proof -
    have "ptree (cells s) l (child (cells s) t ?i)" "tables (cells s) l (child (cells s) t ?i) \<subseteq> V" using pt sub i by auto
    from Suc.IH [OF this use w] obtain U' where U': "pages_in_use (node st') U'"
      "ext l (child (cells s) t ?i) (cells s) V (cells st') U'"
      "a \<noteq> 0 \<longrightarrow> desc (cells st') l (child (cells s) t ?i) va = Some a" by blast
    note ec = ext_child [OF pt sub i U'(2)]
    have "tables (cells st') (Suc l) t \<subseteq> U'" using extD(1,3) [OF ec(1)] sub by blast
    moreover have "desc (cells st') (Suc l) t va = desc (cells st') l (child (cells s) t ?i) va"
      using i ec(2) ec(3) [OF idx_less] by (simp add: desc_Suc del: desc.simps)
    ultimately show ?thesis using U'(1,3) ec(1) by auto
  qed
  show ?case
  proof (cases "?i \<in> kids (cells st) t")
    case True
    then have "walk_levels l (child (cells st) t ?i) va True st = (a, st')"
      using Suc.prems(4) by (simp add: pte_addr_entry kids_def child_def Let_def)
    then show ?thesis using down [OF Suc.prems(1-3) True] by blast
  next
    case False
    then have nv: "\<not> valid (cells st (entry_addr t ?i))" using idx_less by (simp add: kids_def)
    obtain p st1 where al: "alloc_page st = (p, st1)" by fastforce
    have f: "cells st1 = cells st" "get_free_page (node st) = (p, node st1)" using alloc_page_frame [OF al] by auto
    show ?thesis
    proof (cases "p = 0")
      case True
      then have "a = 0" "st' = st1" using Suc.prems(4) nv al by (simp_all add: pte_addr_entry Let_def)
      moreover have "node st1 = node st" using pp.get_fail [OF Suc.prems(3)] f True by auto
      ultimately show ?thesis using f Suc.prems ext_refl by (intro exI [of _ U]) auto
    next
      case False
      let ?s = "set_cell (entry_addr t ?i) (PA2PTE p OR PTE_V) (clear_page p st1)"
      have fr: "p \<notin> U" "PGROUNDDOWN p = p" "pages_in_use (node st1) (insert p U)"
        using pp.get_fresh [OF Suc.prems(3) _ False] f aligned_PGROUNDDOWN by auto
      have cs: "cells ?s = (\<lambda>x. if in_page p x then 0 else cells st x)(entry_addr t ?i := PA2PTE p OR PTE_V)"
        unfolding cells_set_cell cells_clear_page f(1) ..
      note ln = link_new [OF Suc.prems(1,2) idx_less \<open>?i \<notin> kids (cells st) t\<close> fr(1,2) cs]
      have w: "walk_levels l (child (cells ?s) t ?i) va True ?s = (a, st')"
        using Suc.prems(4) nv al False ln(3) by (simp add: pte_addr_entry Let_def)
      have "tables (cells ?s) (Suc l) t \<subseteq> insert p U" using extD(3) [OF ln(1)] Suc.prems(2) by auto
      moreover have "pages_in_use (node ?s) (insert p U)" using fr(3) by simp
      ultimately obtain U' where "pages_in_use (node st') U'" "ext (Suc l) t (cells ?s) (insert p U) (cells st') U'"
        "tables (cells st') (Suc l) t \<subseteq> U'" "a \<noteq> 0 \<longrightarrow> desc (cells st') (Suc l) t va = Some a"
        using down [OF extD(2) [OF ln(1)] _ _ ln(2) w] by blast
      then show ?thesis using ext_trans [OF ln(1)] by blast
    qed
  qed
qed


section \<open>Mapping and unmapping one page\<close>

lemma leaf_update:
  assumes "ptree c l t" "desc c l t va = Some a"
  shows "ptree (c(a := v)) l t \<and> tables (c(a := v)) l t = tables c l t \<and>
    (\<forall>va'. leaf (c(a := v)) l t va' =
       (if \<forall>j \<le> l. idx j va' = idx j va then (if valid v then v else 0) else leaf c l t va'))"
  using assms
proof (induction l arbitrary: t)
  case 0
  then show ?case
    using entry_addr_inj [OF _ idx_less idx_less] by (auto simp: leaf_def pte_addr_entry)
next
  case (Suc l)
  let ?c = "c(a := v)" and ?i = "idx (Suc l) va"
  have i: "?i \<in> kids c t" "desc c l (child c t ?i) va = Some a"
    using Suc.prems(2) by (auto simp: desc_Suc simp del: desc.simps split: if_splits)
  have pi: "ptree c l (child c t ?i)" "t \<notin> tables c l (child c t ?i)" and al: "PGROUNDDOWN t = t"
    using Suc.prems(1) i(1) by auto
  have aT: "PGROUNDDOWN a \<in> tables c l (child c t ?i)" by (rule desc_in_tables [OF pi(1) i(2)])
  have slot: "entry_addr t j \<noteq> a" if "j < 512" for j
    using entry_addr_page [OF al that] aT pi(2) by metis
  have k: "kids ?c t = kids c t" by (simp add: kids_def slot cong: conj_cong)
  have ch: "child ?c t j = child c t j" if "j \<in> kids c t" for j using slot that by (simp add: child_def kids_def)
  note IH = Suc.IH [OF pi(1) i(2)]
  have other: "ptree ?c l (child c t j) \<and> tables ?c l (child c t j) = tables c l (child c t j) \<and>
      (\<forall>va. leaf ?c l (child c t j) va = leaf c l (child c t j) va)" if "j \<in> kids c t" "j \<noteq> ?i" for j
  proof -
    have pj: "ptree c l (child c t j)" "tables c l (child c t j) \<inter> tables c l (child c t ?i) = {}"
      using Suc.prems(1) i(1) that by auto
    have "?c x = c x" if "PGROUNDDOWN x \<in> tables c l (child c t j)" for x using that pj(2) aT by auto
    then show ?thesis using ptree_cong [OF pj(1), of ?c] by blast
  qed
  have tabs: "tables ?c l (child c t j) = tables c l (child c t j)" "ptree ?c l (child c t j)" if "j \<in> kids c t" for j
  proof -
    have "tables ?c l (child c t j) = tables c l (child c t j) \<and> ptree ?c l (child c t j)"
    proof (cases "j = ?i")
      case True
      then show ?thesis using IH by blast
    next
      case False
      then show ?thesis using other [OF that] by blast
    qed
    then show "tables ?c l (child c t j) = tables c l (child c t j)" "ptree ?c l (child c t j)" by blast+
  qed
  have "leaf ?c (Suc l) t va' =
      (if \<forall>j \<le> Suc l. idx j va' = idx j va then (if valid v then v else 0) else leaf c (Suc l) t va')" for va'
    using IH other [of "idx (Suc l) va'"] i(1)
    by (cases "idx (Suc l) va' = ?i") (auto simp: leaf_Suc k ch le_Suc_eq simp del: fun_upd_apply)
  moreover have "ptree ?c (Suc l) t" using Suc.prems(1) tabs by (simp add: k ch del: fun_upd_apply)
  moreover have "tables ?c (Suc l) t = tables c (Suc l) t" using tabs by (simp add: k ch del: fun_upd_apply)
  ultimately show ?case by blast
qed

text \<open>Below \<^verbatim>\<open>MAXVA\<close> the three indices determine the page.\<close>

lemma idx_div: "idx j va = unat va div 4096 div 512 ^ j mod 512"
proof -
  have "PX j va = take_bit 9 (drop_bit (PXSHIFT j) va)"
    by (simp add: PX_def take_bit_eq_mask mask_eq_exp_minus_1)
  then have "unat (PX j va) = take_bit 9 (unat (drop_bit (PXSHIFT j) va))" by (simp only: unsigned_take_bit_eq)
  then have "idx j va = unat va div 2 ^ PXSHIFT j mod 512"
    by (simp add: idx_def unat_drop_bit_div take_bit_eq_mod)
  also have "(2::nat) ^ PXSHIFT j = 4096 * 512 ^ j"
    by (simp add: PXSHIFT_def PGSHIFT_def power_add power_mult)
  finally show ?thesis by (simp add: div_mult2_eq)
qed

lemma PGROUNDDOWN_eq_iff: "PGROUNDDOWN a = PGROUNDDOWN b \<longleftrightarrow> unat a div 4096 = unat b div 4096"
proof -
  have "PGROUNDDOWN a = PGROUNDDOWN b \<longleftrightarrow> unat (PGROUNDDOWN a) = unat (PGROUNDDOWN b)"
    by (metis unsigned_word_eqI)
  then show ?thesis by (simp add: PGROUNDDOWN_unat minus_mod_eq_div_mult)
qed

lemma base512: "x < 512 ^ 3 \<Longrightarrow> (x :: nat) = x mod 512 + 512 * (x div 512 mod 512) + 262144 * (x div 262144 mod 512)"
proof -
  assume "x < 512 ^ 3"
  then have "x div 262144 < 512" by (simp add: less_mult_imp_div_less)
  then have "x div 262144 mod 512 = x div 262144" by simp
  moreover have "x div 512 = 512 * (x div 262144) + x div 512 mod 512"
    using mult_div_mod_eq [of 512 "x div 512"] by (simp add: div_mult2_eq [symmetric])
  moreover have "x = 512 * (x div 512) + x mod 512" by (rule mult_div_mod_eq [symmetric])
  ultimately show ?thesis by linarith
qed

lemma idx_page_iff:
  assumes "va < MAXVA" "va' < MAXVA"
  shows "(\<forall>j \<le> 2. idx j va = idx j va') \<longleftrightarrow> PGROUNDDOWN va = PGROUNDDOWN va'"
proof
  have "unat MAXVA = 2 ^ 38" by (simp add: MAXVA_def)
  then have lt: "unat va div 4096 < 512 ^ 3" "unat va' div 4096 < 512 ^ 3"
    using assms by (simp_all add: word_less_nat_alt less_mult_imp_div_less)
  assume "\<forall>j \<le> 2. idx j va = idx j va'"
  then have "idx 0 va = idx 0 va'" "idx 1 va = idx 1 va'" "idx 2 va = idx 2 va'" by auto
  then show "PGROUNDDOWN va = PGROUNDDOWN va'"
    unfolding PGROUNDDOWN_eq_iff idx_div using base512 [OF lt(1)] base512 [OF lt(2)] by simp
next
  assume "PGROUNDDOWN va = PGROUNDDOWN va'"
  then show "\<forall>j \<le> 2. idx j va = idx j va'" by (simp add: PGROUNDDOWN_eq_iff idx_div)
qed


lemma leaf_same_idx: "\<forall>j \<le> l. idx j va = idx j va' \<Longrightarrow> leaf c l t va = leaf c l t va'"
proof (induction l arbitrary: t)
  case 0
  then show ?case by (simp add: leaf_def pte_addr_entry)
next
  case (Suc l)
  then show ?case by (simp add: leaf_Suc)
qed

text \<open>One turn of \<^verbatim>\<open>mappages\<close>: find or build the entry, check it, write it.\<close>

definition vm_inv :: "u64 \<Rightarrow> vm \<Rightarrow> u64 set \<Rightarrow> bool" where
  "vm_inv t st U \<longleftrightarrow> ptree (cells st) 2 t \<and> tables (cells st) 2 t \<subseteq> U \<and> pages_in_use (node st) U"

lemma valid_or_V: "valid (e OR PTE_V)"
proof -
  have "bit ((e OR PTE_V) AND PTE_V) 0" by (simp add: bit_simps PTE_V_def)
  then show ?thesis by (metis bit_0_eq bot_apply bot_bool_def)
qed

lemma map_one:
  assumes inv: "vm_inv t st U" and w: "walk t a True st = Inr (pte, st1)"
  shows "\<exists>U1. vm_inv t st1 U1 \<and> U \<subseteq> U1 \<and> (\<forall>va. leaf (cells st1) 2 t va = leaf (cells st) 2 t va) \<and>
    (pte \<noteq> 0 \<longrightarrow> leaf (cells st) 2 t a = (if valid (cells st1 pte) then cells st1 pte else 0) \<and>
      vm_inv t (set_cell pte v st1) U1 \<and>
      (\<forall>va < MAXVA. leaf (cells (set_cell pte v st1)) 2 t va =
         (if PGROUNDDOWN va = PGROUNDDOWN a then (if valid v then v else 0) else leaf (cells st) 2 t va)))"
proof -
  have a: "a < MAXVA" "walk_levels 2 t a True st = (pte, st1)" using w by (auto simp: walk_def not_le split: if_splits)
  obtain U1 where U1: "pages_in_use (node st1) U1" "ext 2 t (cells st) U (cells st1) U1" "tables (cells st1) 2 t \<subseteq> U1"
    "pte \<noteq> 0 \<longrightarrow> desc (cells st1) 2 t a = Some pte"
    using walk_levels_ext [OF _ _ _ a(2)] inv unfolding vm_inv_def by blast
  note e = extD [OF U1(2)]
  have inv1: "vm_inv t st1 U1" using U1(1,3) e(2) by (simp add: vm_inv_def)
  have "leaf (cells st) 2 t a = (if valid (cells st1 pte) then cells st1 pte else 0) \<and>
      vm_inv t (set_cell pte v st1) U1 \<and>
      (\<forall>va < MAXVA. leaf (cells (set_cell pte v st1)) 2 t va =
         (if PGROUNDDOWN va = PGROUNDDOWN a then (if valid v then v else 0) else leaf (cells st) 2 t va))"
    if "pte \<noteq> 0"
  proof -
    have d: "desc (cells st1) 2 t a = Some pte" using U1(4) that by blast
    note up = leaf_update [OF e(2) d, of v]
    have "leaf (cells st) 2 t a = leaf (cells st1) 2 t a" by (simp add: e(5))
    then have "leaf (cells st) 2 t a = (if valid (cells st1 pte) then cells st1 pte else 0)" by (simp add: leaf_def d)
    moreover have "vm_inv t (set_cell pte v st1) U1" using up U1(1,3) by (simp add: vm_inv_def del: fun_upd_apply)
    moreover have "leaf (cells (set_cell pte v st1)) 2 t va =
         (if PGROUNDDOWN va = PGROUNDDOWN a then (if valid v then v else 0) else leaf (cells st) 2 t va)" if "va < MAXVA" for va
      using up e(5) idx_page_iff [OF that a(1)] by (simp del: fun_upd_apply)
    ultimately show ?thesis by blast
  qed
  then show ?thesis using inv1 e(1,5) by blast
qed


definition pn :: "u64 \<Rightarrow> nat" where
  "pn va = unat va div 4096"

lemma pn_add: "unat (a + PGSIZE) = unat a + 4096 \<Longrightarrow> pn (a + PGSIZE) = pn a + 1"
  by (simp add: pn_def)

lemma PGROUNDDOWN_add:
  assumes "PGROUNDDOWN a = a" "unat (a + PGSIZE) = unat a + 4096"
  shows "PGROUNDDOWN (a + PGSIZE) = a + PGSIZE"
proof -
  have "unat a - unat a mod 4096 = unat a" using assms(1) by (metis PGROUNDDOWN_unat)
  then have "unat a mod 4096 = 0" using mod_less_eq_dividend [of "unat a" 4096] by arith
  then show ?thesis using assms(2) by (intro aligned_PGROUNDDOWN) (simp add: dvd_eq_mod_eq_0)
qed

definition map_entry :: "u64 \<Rightarrow> nat \<Rightarrow> u64 \<Rightarrow> u64" where
  "map_entry pa k perm = PA2PTE (pa + 4096 * of_nat k) OR perm OR PTE_V"

lemma map_loop_correct:
  assumes "vm_inv t st U" "map_loop t a z pa perm st = Inr (r, st')"
    "PGROUNDDOWN a = a" "PGROUNDDOWN z = z" "pn a \<le> pn z"
  shows "\<exists>U'. vm_inv t st' U' \<and> U \<subseteq> U' \<and>
    (\<forall>va < MAXVA. \<not> (pn a \<le> pn va \<and> pn va \<le> pn z) \<longrightarrow> leaf (cells st') 2 t va = leaf (cells st) 2 t va) \<and>
    (r = 0 \<longrightarrow> (\<forall>va < MAXVA. pn a \<le> pn va \<and> pn va \<le> pn z \<longrightarrow>
       leaf (cells st) 2 t va = 0 \<and> leaf (cells st') 2 t va = map_entry pa (pn va - pn a) perm))"
  using assms
proof (induction t a z pa perm st arbitrary: U rule: map_loop.induct)
  case (1 t a z pa perm st)
  obtain pte st1 where w: "walk t a True st = Inr (pte, st1)"
    using "1.prems"(2) by (cases "walk t a True st") (auto simp: map_loop.simps [of t a])
  let ?v = "PA2PTE pa OR perm OR PTE_V"
  let ?st2 = "set_cell pte ?v st1"
  obtain U1 where U1: "vm_inv t st1 U1" "U \<subseteq> U1" "\<forall>va. leaf (cells st1) 2 t va = leaf (cells st) 2 t va"
    "pte \<noteq> 0 \<longrightarrow> leaf (cells st) 2 t a = (if valid (cells st1 pte) then cells st1 pte else 0) \<and> vm_inv t ?st2 U1 \<and>
      (\<forall>va < MAXVA. leaf (cells ?st2) 2 t va =
         (if PGROUNDDOWN va = PGROUNDDOWN a then (if valid ?v then ?v else 0) else leaf (cells st) 2 t va))"
    using map_one [OF "1.prems"(1) w, of ?v] by blast
  have v: "valid ?v" using valid_or_V [of "PA2PTE pa OR perm"] by (simp add: or.assoc)
  note ml = "1.prems"(2) [unfolded map_loop.simps [of t a], simplified w, simplified]
  show ?case
  proof (cases "pte = 0 \<or> valid (cells st1 pte)")
    case True
    then have "r = -1" "st' = st1" using ml by (auto split: if_splits)
    then show ?thesis using U1(1-3) by auto
  next
    case False
    then have st2: "vm_inv t ?st2 U1" "leaf (cells st) 2 t a = 0"
      "\<And>va. va < MAXVA \<Longrightarrow> leaf (cells ?st2) 2 t va = (if pn va = pn a then ?v else leaf (cells st) 2 t va)"
      using U1(4) v by (auto simp: PGROUNDDOWN_eq_iff pn_def simp del: cells_set_cell)
    have st0: "leaf (cells st) 2 t va = 0" if "va < MAXVA" "pn va = pn a" for va
    proof -
      have "a < MAXVA" using walk_bound [OF w] by (simp add: word_less_nat_alt)
      then have "\<forall>j \<le> 2. idx j va = idx j a" using that idx_page_iff [of va a] by (simp add: PGROUNDDOWN_eq_iff pn_def)
      then have "leaf (cells st) 2 t va = leaf (cells st) 2 t a" by (rule leaf_same_idx)
      then show ?thesis using st2(2) by simp
    qed
    show ?thesis
    proof (cases "a = z")
      case True
      then have "st' = ?st2" using ml False by (auto simp: Let_def)
      then show ?thesis using st2 st0 U1(2) True by (intro exI [of _ U1]) (auto simp: map_entry_def simp del: cells_set_cell)
    next
      case ne: False
      have rec: "map_loop t (a + PGSIZE) z (pa + PGSIZE) perm ?st2 = Inr (r, st')" using ml False ne by (auto simp: Let_def)
      have b: "unat (a + PGSIZE) = unat a + 4096" using walk_bound [OF w] by simp
      have "pn a \<noteq> pn z" using ne "1.prems"(3,4) PGROUNDDOWN_eq_iff by (metis pn_def)
      then have le: "pn (a + PGSIZE) \<le> pn z" using "1.prems"(5) by (simp add: pn_add [OF b])
      obtain U' where U': "vm_inv t st' U'" "U1 \<subseteq> U'"
        "\<forall>va < MAXVA. \<not> (pn (a + PGSIZE) \<le> pn va \<and> pn va \<le> pn z) \<longrightarrow> leaf (cells st') 2 t va = leaf (cells ?st2) 2 t va"
        "r = 0 \<longrightarrow> (\<forall>va < MAXVA. pn (a + PGSIZE) \<le> pn va \<and> pn va \<le> pn z \<longrightarrow>
           leaf (cells ?st2) 2 t va = 0 \<and> leaf (cells st') 2 t va = map_entry (pa + PGSIZE) (pn va - pn (a + PGSIZE)) perm)"
        using "1.IH" [OF w refl _ _ refl ne st2(1) rec PGROUNDDOWN_add [OF "1.prems"(3) b] "1.prems"(4) le] False by blast
      have "leaf (cells st') 2 t va = leaf (cells st) 2 t va" if "va < MAXVA" "\<not> (pn a \<le> pn va \<and> pn va \<le> pn z)" for va
        using U'(3) st2(3) [OF that(1)] that le by (auto simp: pn_add [OF b] simp del: cells_set_cell)
      moreover have "leaf (cells st) 2 t va = 0 \<and> leaf (cells st') 2 t va = map_entry pa (pn va - pn a) perm"
        if q: "r = 0" "va < MAXVA" "pn a \<le> pn va" "pn va \<le> pn z" for va
      proof (cases "pn va = pn a")
        case True
        then show ?thesis using U'(3) st2(3) [OF q(2)] q(2) st0
          by (auto simp: pn_add [OF b] map_entry_def simp del: cells_set_cell)
      next
        case neq: False
        then obtain k where k: "pn va = pn a + 1 + k" using q(3) less_imp_Suc_add [of "pn a" "pn va"] by auto
        have "leaf (cells ?st2) 2 t va = 0 \<and> leaf (cells st') 2 t va = map_entry (pa + PGSIZE) k perm"
          using U'(4) q k by (auto simp: pn_add [OF b])
        moreover have "map_entry (pa + PGSIZE) k perm = map_entry pa (k + 1) perm"
          by (simp add: map_entry_def PGSIZE_def algebra_simps)
        ultimately show ?thesis using st2(3) [OF q(2)] neq k by (simp del: cells_set_cell)
      qed
      ultimately show ?thesis using U'(1,2) U1(2) by (intro exI [of _ U']) auto
    qed
  qed
qed


section \<open>Copying\<close>

text \<open>The physical address of byte \<open>x\<close> of user space (meaningful where \<^verbatim>\<open>walkaddr\<close> is not 0).\<close>

definition phys :: "u64 \<Rightarrow> vm \<Rightarrow> nat \<Rightarrow> nat" where
  "phys t st x = unat (walkaddr t (PGROUNDDOWN (of_nat x)) st) + x mod 4096"

definition mapped :: "u64 \<Rightarrow> vm \<Rightarrow> nat \<Rightarrow> nat \<Rightarrow> bool" where
  "mapped t st x n \<longleftrightarrow> (\<forall>i < n. walkaddr t (PGROUNDDOWN (of_nat (x + i))) st \<noteq> 0)"

lemma walkaddr_cong: "cells st' = cells st \<Longrightarrow> walkaddr t va st' = walkaddr t va st"
  by (simp add: walkaddr_def walk_levels_read Let_def)

lemma phys_cong: "cells st' = cells st \<Longrightarrow> phys t st' = phys t st \<and> mapped t st' = mapped t st"
  by (auto simp: phys_def mapped_def fun_eq_iff walkaddr_cong [of st' st])

lemma walkaddr_aligned: "PGROUNDDOWN (walkaddr t va st) = walkaddr t va st"
proof -
  have "PGROUNDDOWN 0 = 0" by (simp add: PGROUNDDOWN_def)
  then show ?thesis by (simp add: walkaddr_def PTE2PA_aligned Let_def)
qed

lemma unat_page_plus:
  assumes "PGROUNDDOWN p = p" "unat o' < 4096"
  shows "unat (p + o') = unat p + unat o'"
proof -
  have "unat p - unat p mod 4096 = unat p" using assms(1) by (metis PGROUNDDOWN_unat)
  then have "unat p mod 4096 = 0" using mod_less_eq_dividend [of "unat p" 4096] by arith
  then obtain q where q: "unat p = 4096 * q" by (auto elim!: dvdE simp flip: dvd_eq_mod_eq_0)
  have "unat p < 2 ^ 64" by (rule order.strict_trans2 [OF unsigned_less]) simp
  then have "q + 1 \<le> 2 ^ 52" using q by simp
  then have "unat p + unat o' < 2 ^ 64" using assms(2) q by simp
  then show ?thesis by (simp add: unat_word_ariths)
qed

text \<open>Within one page the physical addresses are consecutive.\<close>

lemma same_page_div: "x mod 4096 + i < 4096 \<Longrightarrow> (x + i) div 4096 = x div (4096 :: nat) \<and> (x + i) mod 4096 = x mod 4096 + i"
proof -
  assume h: "x mod 4096 + i < 4096"
  have "(4096 * q + r) div 4096 = q \<and> (4096 * q + r) mod 4096 = r" if "r < 4096" for q r :: nat
    using that by simp
  from this [OF h, of "x div 4096"] have "(4096 * (x div 4096) + x mod 4096 + i) div 4096 = x div 4096"
    "(4096 * (x div 4096) + x mod 4096 + i) mod 4096 = x mod 4096 + i" by (simp_all only: add.assoc)
  then show ?thesis by (simp only: mult_div_mod_eq)
qed

lemma phys_page:
  assumes "x + i < 2 ^ 64" "x mod 4096 + i < 4096"
  shows "phys t st (x + i) = phys t st x + i"
    "PGROUNDDOWN (of_nat (x + i) :: u64) = PGROUNDDOWN (of_nat x)"
proof -
  have "unat (of_nat (x + i) :: u64) = x + i" "unat (of_nat x :: u64) = x"
    using assms(1) by (simp_all only: unat_of_nat) (simp_all add: take_bit_nat_eq_self)
  then show eq: "PGROUNDDOWN (of_nat (x + i) :: u64) = PGROUNDDOWN (of_nat x)"
    using same_page_div [OF assms(2)] by (simp only: PGROUNDDOWN_eq_iff)
  show "phys t st (x + i) = phys t st x + i"
    unfolding phys_def eq using same_page_div [OF assms(2)] by simp
qed


text \<open>The first turn of a copy at \<open>va\<close>: it moves \<open>chunk\<close> bytes of one page.\<close>

definition chunk :: "nat \<Rightarrow> nat \<Rightarrow> nat" where
  "chunk x len = min (4096 - x mod 4096) len"

lemma chunk_unat:
  assumes "n = (if PGSIZE - (va - PGROUNDDOWN va) > len then len else PGSIZE - (va - PGROUNDDOWN va))"
  shows "unat n = chunk (unat va) (unat len)" "n \<le> len"
  using assms by (auto simp: chunk_def word_less_nat_alt word_le_nat_alt page_rest min_def)

lemma next_page:
  assumes "unat va + 4096 < 2 ^ 64"
  shows "unat (PGROUNDDOWN va + PGSIZE) = unat va + (4096 - unat va mod 4096)"
proof -
  have "unat (PGROUNDDOWN va) + 4096 < 2 ^ 64" using assms by (simp add: PGROUNDDOWN_unat)
  then have "unat (PGROUNDDOWN va + PGSIZE) = unat (PGROUNDDOWN va) + 4096" by (simp add: PGSIZE_def unat_word_ariths)
  then show ?thesis
    using mod_less_eq_dividend [of "unat va" 4096] mod_less_divisor [of 4096 "unat va"] by (simp add: PGROUNDDOWN_unat)
qed

lemma copy_out_step:
  assumes "0 < unat len" "mapped t st (unat va) (unat len)" "unat va + unat len + 4096 < 2 ^ 64"
  defines "k \<equiv> chunk (unat va) (unat len)"
  shows "\<exists>va'. copy_out_loop t va src len st =
      copy_out_loop t va' (src + k) (len - of_nat k) (st\<lparr>bytes := memmove (phys t st (unat va)) src k (bytes st)\<rparr>) \<and>
      (unat (len - of_nat k) = unat len - k) \<and> (k < unat len \<longrightarrow> unat va' = unat va + k)"
proof -
  define n where "n = (if PGSIZE - (va - PGROUNDDOWN va) > len then len else PGSIZE - (va - PGROUNDDOWN va))"
  have n: "unat n = k" "n \<le> len" using chunk_unat [OF n_def] by (simp_all add: k_def)
  have nk: "n = of_nat k" by (simp flip: n(1))
  have wa: "walkaddr t (PGROUNDDOWN va) st \<noteq> 0" using assms(1,2) by (auto simp: mapped_def)
  have ph: "unat (walkaddr t (PGROUNDDOWN va) st + (va - PGROUNDDOWN va)) = phys t st (unat va)"
    using unat_page_plus [OF walkaddr_aligned, of "va - PGROUNDDOWN va"] by (simp add: phys_def page_offset_less)
  have "copy_out_loop t va src len st = copy_out_loop t (PGROUNDDOWN va + PGSIZE) (src + k) (len - of_nat k)
      (st\<lparr>bytes := memmove (phys t st (unat va)) src k (bytes st)\<rparr>)"
    using assms(1) wa n(1) ph nk unfolding n_def
    by (subst copy_out_loop.simps) (simp add: word_less_nat_alt Let_def)
  moreover have "unat (len - of_nat k) = unat len - k" using n nk by (metis unat_sub)
  moreover have "unat (PGROUNDDOWN va + PGSIZE) = unat va + k" if "k < unat len"
    using next_page [of va] assms(3) that by (auto simp: k_def chunk_def)
  ultimately show ?thesis by blast
qed

lemma copy_in_step:
  assumes "0 < unat len" "mapped t st (unat va) (unat len)" "unat va + unat len + 4096 < 2 ^ 64"
  defines "k \<equiv> chunk (unat va) (unat len)"
  shows "\<exists>va'. copy_in_loop t dst va len st =
      copy_in_loop t (dst + k) va' (len - of_nat k) (st\<lparr>bytes := memmove dst (phys t st (unat va)) k (bytes st)\<rparr>) \<and>
      (unat (len - of_nat k) = unat len - k) \<and> (k < unat len \<longrightarrow> unat va' = unat va + k)"
proof -
  define n where "n = (if PGSIZE - (va - PGROUNDDOWN va) > len then len else PGSIZE - (va - PGROUNDDOWN va))"
  have n: "unat n = k" "n \<le> len" using chunk_unat [OF n_def] by (simp_all add: k_def)
  have nk: "n = of_nat k" by (simp flip: n(1))
  have wa: "walkaddr t (PGROUNDDOWN va) st \<noteq> 0" using assms(1,2) by (auto simp: mapped_def)
  have ph: "unat (walkaddr t (PGROUNDDOWN va) st + (va - PGROUNDDOWN va)) = phys t st (unat va)"
    using unat_page_plus [OF walkaddr_aligned, of "va - PGROUNDDOWN va"] by (simp add: phys_def page_offset_less)
  have "copy_in_loop t dst va len st = copy_in_loop t (dst + k) (PGROUNDDOWN va + PGSIZE) (len - of_nat k)
      (st\<lparr>bytes := memmove dst (phys t st (unat va)) k (bytes st)\<rparr>)"
    using assms(1) wa n(1) ph nk unfolding n_def
    by (subst copy_in_loop.simps) (simp add: word_less_nat_alt Let_def)
  moreover have "unat (len - of_nat k) = unat len - k" using n nk by (metis unat_sub)
  moreover have "unat (PGROUNDDOWN va + PGSIZE) = unat va + k" if "k < unat len"
    using next_page [of va] assms(3) that by (auto simp: k_def chunk_def)
  ultimately show ?thesis by blast
qed


text \<open>
  The user bytes from \<open>x\<close> on lie at distinct physical addresses and apart from the kernel buffer
  at \<open>b\<close>.
\<close>

definition separate :: "u64 \<Rightarrow> vm \<Rightarrow> nat \<Rightarrow> nat \<Rightarrow> nat \<Rightarrow> bool" where
  "separate t st x b n \<longleftrightarrow>
     (\<forall>i < n. \<forall>j < n. phys t st (x + i) = phys t st (x + j) \<longrightarrow> i = j) \<and>
     (\<forall>i < n. \<forall>j < n. phys t st (x + i) \<noteq> b + j)"

lemma chunk_bounds: "0 < n \<Longrightarrow> 0 < chunk x n \<and> chunk x n \<le> n \<and> (i < chunk x n \<longrightarrow> x mod 4096 + i < 4096)"
  using mod_less_divisor [of 4096 x] by (auto simp: chunk_def min_def)

lemma mapped_rest:
  assumes "mapped t st x n" "k \<le> n"
  shows "mapped t st (x + k) (n - k)"
  unfolding mapped_def
proof (intro allI impI)
  fix i assume "i < n - k"
  then have "k + i < n" by simp
  then show "walkaddr t (PGROUNDDOWN (of_nat (x + k + i))) st \<noteq> 0"
    using assms(1) unfolding mapped_def add.assoc by blast
qed

lemma separate_rest:
  assumes "separate t st x b n" "k \<le> n"
  shows "separate t st (x + k) (b + k) (n - k)"
  unfolding separate_def
proof (intro conjI allI impI)
  fix i j assume "i < n - k" "j < n - k"
  then have ij: "k + i < n" "k + j < n" by simp_all
  show "phys t st (x + k + i) \<noteq> b + k + j"
    using assms(1) ij unfolding separate_def add.assoc by blast
  show "i = j" if "phys t st (x + k + i) = phys t st (x + k + j)"
    using assms(1) ij that unfolding separate_def add.assoc by (metis add_left_cancel)
qed

lemma copy_out_loop_correct:
  assumes "mapped t st (unat va) (unat len)" "separate t st (unat va) src (unat len)"
    "unat va + unat len + 4096 < 2 ^ 64"
  shows "\<exists>st'. copy_out_loop t va src len st = (0, st') \<and> cells st' = cells st \<and> node st' = node st \<and>
    (\<forall>i < unat len. bytes st' (phys t st (unat va + i)) = bytes st (src + i)) \<and>
    (\<forall>a. (\<forall>i < unat len. a \<noteq> phys t st (unat va + i)) \<longrightarrow> bytes st' a = bytes st a)"
  using assms
proof (induction "unat len" arbitrary: va src len st rule: less_induct)
  case less
  show ?case
  proof (cases "unat len = 0")
    case True
    then have "len = 0" by (simp add: unat_eq_zero)
    then show ?thesis using True by (subst copy_out_loop.simps) simp
  next
    case False
    let ?x = "unat va" and ?n = "unat len"
    let ?k = "chunk ?x ?n"
    let ?st = "st\<lparr>bytes := memmove (phys t st ?x) src ?k (bytes st)\<rparr>"
    have k: "0 < ?k" "?k \<le> ?n" "\<And>i. i < ?k \<Longrightarrow> ?x mod 4096 + i < 4096" using chunk_bounds [of ?n ?x] False by auto
    obtain va' where va': "copy_out_loop t va src len st = copy_out_loop t va' (src + ?k) (len - of_nat ?k) ?st"
      "unat (len - of_nat ?k) = ?n - ?k" "?k < ?n \<longrightarrow> unat va' = ?x + ?k"
      using copy_out_step [of len t st va src] False less.prems by blast
    have pc: "phys t ?st = phys t st" "mapped t ?st = mapped t st" using phys_cong [of ?st st] by auto
    have ph: "phys t st (?x + i) = phys t st ?x + i" if "i < ?k" for i
      using phys_page(1) [of ?x i t st] k(2) k(3) [OF that] less.prems(3) that by simp
    have b1: "bytes ?st a = (if phys t st ?x \<le> a \<and> a < phys t st ?x + ?k then bytes st (src + (a - phys t st ?x)) else bytes st a)" for a
      by (simp add: memmove_eq)
    have chunk_done: "bytes ?st (phys t st (?x + i)) = bytes st (src + i)" if "i < ?k" for i using that by (simp add: ph memmove_eq)
    have outside: "bytes ?st a = bytes st a" if "\<forall>i < ?k. a \<noteq> phys t st (?x + i)" for a
    proof -
      have "\<not> (phys t st ?x \<le> a \<and> a < phys t st ?x + ?k)"
        using that ph by (metis add_less_cancel_left le_add_diff_inverse)
      then show ?thesis by (simp only: b1 if_False)
    qed
    show ?thesis
    proof (cases "?k = ?n")
      case True
      then have "len - of_nat ?k = 0" using va'(2) by (simp add: unat_eq_zero)
      then have "copy_out_loop t va src len st = (0, ?st)" using va'(1) by (subst (asm) copy_out_loop.simps) simp
      then show ?thesis using chunk_done outside True by (intro exI [of _ ?st]) simp
    next
      case False
      then have lt: "?k < ?n" using k(2) by simp
      then have v: "unat va' = ?x + ?k" using va'(3) by blast
      have m1: "mapped t ?st (unat va') (unat (len - of_nat ?k))" using mapped_rest [OF less.prems(1) k(2)] by (simp add: pc v va'(2))
      have m2: "separate t ?st (unat va') (src + ?k) (unat (len - of_nat ?k))"
        using separate_rest [OF less.prems(2) k(2)] by (simp add: separate_def pc v va'(2))
      have m3: "unat va' + unat (len - of_nat ?k) + 4096 < 2 ^ 64" using less.prems(3) lt by (simp add: v va'(2))
      have m4: "unat (len - of_nat ?k) < ?n" using k(1) lt by (simp add: va'(2))
      obtain st' where st': "copy_out_loop t va' (src + ?k) (len - of_nat ?k) ?st = (0, st')" "cells st' = cells ?st" "node st' = node ?st"
        "\<forall>i < ?n - ?k. bytes st' (phys t st (?x + ?k + i)) = bytes ?st (src + ?k + i)"
        "\<forall>a. (\<forall>i < ?n - ?k. a \<noteq> phys t st (?x + ?k + i)) \<longrightarrow> bytes st' a = bytes ?st a"
        using less.hyps [OF m4 m1 m2 m3] unfolding pc v va'(2) by blast
      have src_kept: "bytes ?st (src + j) = bytes st (src + j)" if "j < ?n" for j
      proof (intro outside allI impI)
        fix i assume "i < ?k"
        then have "i < ?n" using k(2) by simp
        then show "src + j \<noteq> phys t st (?x + i)" using less.prems(2) that unfolding separate_def by metis
      qed
      have "bytes st' (phys t st (?x + i)) = bytes st (src + i)" if i: "i < ?n" for i
      proof (cases "i < ?k")
        case True
        have "phys t st (?x + i) \<noteq> phys t st (?x + ?k + j)" if "j < ?n - ?k" for j
        proof
          assume "phys t st (?x + i) = phys t st (?x + ?k + j)"
          then have "phys t st (?x + i) = phys t st (?x + (?k + j))" by (simp only: add.assoc)
          moreover have "?k + j < ?n" using that by simp
          ultimately have "i = ?k + j" using less.prems(2) i unfolding separate_def by blast
          then show False using True by simp
        qed
        then show ?thesis using st'(5) chunk_done [OF True] by simp
      next
        case False
        then obtain j where j: "i = ?k + j" using le_Suc_ex not_less by blast
        then have "bytes st' (phys t st (?x + ?k + j)) = bytes ?st (src + ?k + j)" using st'(4) i by (simp add: less_diff_conv)
        then show ?thesis using src_kept [OF i] by (simp add: j add.assoc)
      qed
      moreover have "bytes st' a = bytes st a" if a: "\<forall>i < ?n. a \<noteq> phys t st (?x + i)" for a
      proof -
        have "\<forall>i < ?n - ?k. a \<noteq> phys t st (?x + (?k + i))" using a by simp
        then have "\<forall>i < ?n - ?k. a \<noteq> phys t st (?x + ?k + i)" by (simp only: add.assoc)
        then have "bytes st' a = bytes ?st a" using st'(5) by blast
        also have "\<dots> = bytes st a" using a k(2) by (intro outside) auto
        finally show ?thesis .
      qed
      ultimately show ?thesis using va'(1) st'(1-3) by (intro exI [of _ st']) simp
    qed
  qed
qed


lemma copy_in_loop_correct:
  assumes "mapped t st (unat va) (unat len)" "separate t st (unat va) dst (unat len)"
    "unat va + unat len + 4096 < 2 ^ 64"
  shows "\<exists>st'. copy_in_loop t dst va len st = (0, st') \<and> cells st' = cells st \<and> node st' = node st \<and>
    (\<forall>i < unat len. bytes st' (dst + i) = bytes st (phys t st (unat va + i))) \<and>
    (\<forall>a. a < dst \<or> dst + unat len \<le> a \<longrightarrow> bytes st' a = bytes st a)"
  using assms
proof (induction "unat len" arbitrary: va dst len st rule: less_induct)
  case less
  show ?case
  proof (cases "unat len = 0")
    case True
    then have "len = 0" by (simp add: unat_eq_zero)
    then show ?thesis using True by (subst copy_in_loop.simps) simp
  next
    case False
    let ?x = "unat va" and ?n = "unat len"
    let ?k = "chunk ?x ?n"
    let ?st = "st\<lparr>bytes := memmove dst (phys t st ?x) ?k (bytes st)\<rparr>"
    have k: "0 < ?k" "?k \<le> ?n" "\<And>i. i < ?k \<Longrightarrow> ?x mod 4096 + i < 4096" using chunk_bounds [of ?n ?x] False by auto
    obtain va' where va': "copy_in_loop t dst va len st = copy_in_loop t (dst + ?k) va' (len - of_nat ?k) ?st"
      "unat (len - of_nat ?k) = ?n - ?k" "?k < ?n \<longrightarrow> unat va' = ?x + ?k"
      using copy_in_step [of len t st va dst] False less.prems by blast
    have pc: "phys t ?st = phys t st" "mapped t ?st = mapped t st" using phys_cong [of ?st st] by auto
    have ph: "phys t st (?x + i) = phys t st ?x + i" if "i < ?k" for i
      using phys_page(1) [of ?x i t st] k(2) k(3) [OF that] less.prems(3) that by simp
    have chunk_done: "bytes ?st (dst + i) = bytes st (phys t st (?x + i))" if "i < ?k" for i
      using that by (simp add: ph memmove_eq)
    have outside: "bytes ?st a = bytes st a" if "a < dst \<or> dst + ?k \<le> a" for a using that by (auto simp: memmove_eq)
    show ?thesis
    proof (cases "?k = ?n")
      case True
      then have "len - of_nat ?k = 0" using va'(2) by (simp add: unat_eq_zero)
      then have "copy_in_loop t dst va len st = (0, ?st)" using va'(1) by (subst (asm) copy_in_loop.simps) simp
      then show ?thesis using chunk_done outside True by (intro exI [of _ ?st]) simp
    next
      case False
      then have lt: "?k < ?n" using k(2) by simp
      then have v: "unat va' = ?x + ?k" using va'(3) by blast
      have m1: "mapped t ?st (unat va') (unat (len - of_nat ?k))" using mapped_rest [OF less.prems(1) k(2)] by (simp add: pc v va'(2))
      have m2: "separate t ?st (unat va') (dst + ?k) (unat (len - of_nat ?k))"
        using separate_rest [OF less.prems(2) k(2)] by (simp add: separate_def pc v va'(2))
      have m3: "unat va' + unat (len - of_nat ?k) + 4096 < 2 ^ 64" using less.prems(3) lt by (simp add: v va'(2))
      have m4: "unat (len - of_nat ?k) < ?n" using k(1) lt by (simp add: va'(2))
      obtain st' where st': "copy_in_loop t (dst + ?k) va' (len - of_nat ?k) ?st = (0, st')" "cells st' = cells ?st" "node st' = node ?st"
        "\<forall>i < ?n - ?k. bytes st' (dst + ?k + i) = bytes ?st (phys t st (?x + ?k + i))"
        "\<forall>a. a < dst + ?k \<or> dst + ?k + (?n - ?k) \<le> a \<longrightarrow> bytes st' a = bytes ?st a"
        using less.hyps [OF m4 m1 m2 m3] unfolding pc v va'(2) by blast
      have user_kept: "bytes ?st (phys t st (?x + j)) = bytes st (phys t st (?x + j))" if "j < ?n" for j
      proof (rule outside, rule ccontr)
        assume "\<not> (phys t st (?x + j) < dst \<or> dst + ?k \<le> phys t st (?x + j))"
        then obtain i where "phys t st (?x + j) = dst + i" "i < ?k" by (metis add_less_cancel_left le_add_diff_inverse not_less)
        then show False using less.prems(2) that k(2) unfolding separate_def by (meson less_le_trans)
      qed
      have "bytes st' (dst + i) = bytes st (phys t st (?x + i))" if i: "i < ?n" for i
      proof (cases "i < ?k")
        case True
        then show ?thesis using st'(5) chunk_done [OF True] by simp
      next
        case False
        then obtain j where j: "i = ?k + j" using le_Suc_ex not_less by blast
        then have "bytes st' (dst + ?k + j) = bytes ?st (phys t st (?x + ?k + j))" using st'(4) i by simp
        then show ?thesis using user_kept [OF i] by (simp add: j add.assoc)
      qed
      moreover have "bytes st' a = bytes st a" if "a < dst \<or> dst + ?n \<le> a" for a
        using st'(5) outside [of a] that k(2) by auto
      ultimately show ?thesis using va'(1) st'(1-3) by (intro exI [of _ st']) simp
    qed
  qed
qed

section \<open>Correctness\<close>

text \<open>
  C11: \<^verbatim>\<open>mappages\<close>. On a well-formed table whose pages are in use, a range below \<^verbatim>\<open>MAXVA\<close> that maps
  successfully was unmapped before, and afterwards every address of its pages translates to the
  corresponding physical page with the permissions given; every other translation is as before,
  also when it fails half-way. The table stays a tree of pages in use, and pages taken for it were
  not in use.
\<close>

theorem mappages_correct:
  assumes "vm_inv t st U" "mappages t va sz pa perm st = Inr (r, st')" "unat va + unat sz \<le> 2 ^ 38"
  shows "\<exists>U'. vm_inv t st' U' \<and> U \<subseteq> U' \<and> (\<forall>x < MAXVA.
    let inside = pn va \<le> pn x \<and> pn x \<le> pn (va + sz - 1) in
      (\<not> inside \<longrightarrow> leaf (cells st') 2 t x = leaf (cells st) 2 t x) \<and>
      (r = 0 \<and> inside \<longrightarrow> leaf (cells st) 2 t x = 0 \<and> leaf (cells st') 2 t x = map_entry pa (pn x - pn va) perm))"
proof -
  have sz: "sz \<noteq> 0" and ml: "map_loop t (PGROUNDDOWN va) (PGROUNDDOWN (va + sz - 1)) pa perm st = Inr (r, st')"
    using assms(2) by (auto simp: mappages_def split: if_splits)
  have pd: "pn (PGROUNDDOWN a) = pn a" for a
  proof -
    have "PGROUNDDOWN (PGROUNDDOWN a) = PGROUNDDOWN a" by (simp add: PGROUNDDOWN_def and.assoc)
    then show ?thesis by (simp add: PGROUNDDOWN_eq_iff pn_def)
  qed
  have al: "PGROUNDDOWN (PGROUNDDOWN a) = PGROUNDDOWN a" for a by (simp add: PGROUNDDOWN_def and.assoc)
  have "0 < unat sz" using sz by (simp add: unat_gt_0)
  then have "unat (sz - 1) = unat sz - 1" by (subst unat_sub) (simp_all add: word_le_nat_alt)
  then have "unat (va + (sz - 1)) = unat va + (unat sz - 1)"
    using assms(3) \<open>0 < unat sz\<close> by (simp add: unat_plus_if')
  then have "pn va \<le> pn (va + sz - 1)" unfolding pn_def add_diff_eq by (intro div_le_mono) simp
  then show ?thesis
    using map_loop_correct [OF assms(1) ml al al] unfolding pd Let_def by blast
qed


text \<open>A concrete machine: 64 free pages above 0x80400000 and an empty root table.\<close>

definition small_vm :: vm where
  "small_vm = \<lparr>node = small_boot, cells = \<lambda>_. 0, bytes = \<lambda>_. 0\<rparr>"

lemma small_vm_root:
  obtains n where "get_free_page small_boot = (0x2000, n)" "vm_inv 0x2000 (small_vm\<lparr>node := n\<rparr>) {0x2000}"
proof -
  have init: "pages_in_use small_boot {}"
    using small_boot_inv by (auto simp: pages_in_use_def page_blocks_def intro!: exI [of _ "{}"])
  obtain n where n: "get_free_page small_boot = (0x2000, n)"
    using small_boot_alloc
    by (cases "alloc_pages 0 small_boot")
      (auto simp: get_free_page_def get_free_pages_def page_to_address_def PGSHIFT_def push_bit_eq_mult)
  have u: "pages_in_use n {0x2000}" using pp.get_fresh [OF init n] by simp
  have al: "PGROUNDDOWN 0x2000 = 0x2000" by code_simp
  have "ptree (\<lambda>_. 0) 2 0x2000 \<and> tables (\<lambda>_. 0) 2 0x2000 = {0x2000}" using fresh_tree [OF al, of "\<lambda>_. 0" 2] by blast
  then show thesis using that [OF n] u by (simp add: vm_inv_def small_vm_def)
qed

theorem mappages_correct_witness:
  "\<exists>st U r st' U'. vm_inv 0x2000 st U \<and> mappages 0x2000 0x1000005000 8192 0x80000000 (PTE_R OR PTE_U) st = Inr (r, st') \<and>
    vm_inv 0x2000 st' U' \<and> leaf (cells st') 2 0x2000 0x2000000000 = leaf (cells st) 2 0x2000 0x2000000000"
proof -
  obtain n where n: "vm_inv 0x2000 (small_vm\<lparr>node := n\<rparr>) {0x2000}" using small_vm_root by blast
  let ?st = "small_vm\<lparr>node := n\<rparr>"
  have w: "walk 0x2000 a True st \<noteq> Inl e" if "a = 0x1000005000 \<or> a = 0x1000006000" for a st e
    using that by (auto simp: walk_def MAXVA_def)
  have al: "PGROUNDDOWN 0x1000005000 = 0x1000005000" "PGROUNDDOWN 0x1000006FFF = 0x1000006000" by code_simp+
  have "\<exists>r st'. map_loop 0x2000 0x1000006000 0x1000006000 pa pm st = Inr (r, st')" for pa pm st
    using w [of "0x1000006000" st] by (subst map_loop.simps) (auto simp: Let_def split: sum.splits)
  then have "\<exists>r st'. map_loop 0x2000 0x1000005000 0x1000006000 0x80000000 (PTE_R OR PTE_U) ?st = Inr (r, st')"
    using w [of "0x1000005000" ?st] by (subst map_loop.simps) (auto simp: Let_def PGSIZE_def split: sum.splits)
  then obtain r st' where m: "mappages 0x2000 0x1000005000 8192 0x80000000 (PTE_R OR PTE_U) ?st = Inr (r, st')"
    by (auto simp: mappages_def al)
  obtain U' where U': "vm_inv 0x2000 st' U'" and eq: "\<forall>x < MAXVA.
    let inside = pn 0x1000005000 \<le> pn x \<and> pn x \<le> pn (0x1000005000 + 8192 - 1) in
      (\<not> inside \<longrightarrow> leaf (cells st') 2 0x2000 x = leaf (cells ?st) 2 0x2000 x) \<and>
      (r = 0 \<and> inside \<longrightarrow> leaf (cells ?st) 2 0x2000 x = 0 \<and>
         leaf (cells st') 2 0x2000 x = map_entry 0x80000000 (pn x - pn 0x1000005000) (PTE_R OR PTE_U))"
    using mappages_correct [OF n m] by (auto simp: Let_def)
  have "leaf (cells st') 2 0x2000 0x2000000000 = leaf (cells ?st) 2 0x2000 0x2000000000"
    using eq [rule_format, of "0x2000000000"] by (simp add: MAXVA_def pn_def Let_def)
  then show ?thesis using n m U' by blast
qed

text \<open>
  C12: \<^verbatim>\<open>copy_data_kernel_to_user\<close> followed by \<^verbatim>\<open>copy_data_user_to_kernel\<close> over any number of pages: when
  the user range is mapped, lies at distinct physical bytes and apart from both kernel buffers, both
  succeed and the destination buffer holds the bytes of the source buffer.
\<close>

theorem user_copy_roundtrip:
  assumes "mapped t st (unat va) (unat len)" "separate t st (unat va) src (unat len)"
    "separate t st (unat va) dst (unat len)" "unat va + unat len + 4096 < 2 ^ 64"
  shows "\<exists>st1 st2. copy_data_kernel_to_user t va src len st = (0, st1) \<and>
    copy_data_user_to_kernel t dst va len st1 = (0, st2) \<and>
    (\<forall>i < unat len. bytes st2 (dst + i) = bytes st (src + i))"
proof -
  obtain st1 where s1: "copy_out_loop t va src len st = (0, st1)" "cells st1 = cells st"
    "\<forall>i < unat len. bytes st1 (phys t st (unat va + i)) = bytes st (src + i)"
    using copy_out_loop_correct [OF assms(1,2,4)] by blast
  have pc: "phys t st1 = phys t st" "mapped t st1 = mapped t st" using phys_cong [OF s1(2)] by auto
  then have m: "mapped t st1 (unat va) (unat len)" "separate t st1 (unat va) dst (unat len)"
    using assms(1,3) by (simp_all add: separate_def)
  obtain st2 where "copy_in_loop t dst va len st1 = (0, st2)"
    "\<forall>i < unat len. bytes st2 (dst + i) = bytes st1 (phys t st1 (unat va + i))"
    using copy_in_loop_correct [OF m assms(4)] by blast
  then show ?thesis
    using s1(1,3) by (auto simp: copy_data_kernel_to_user_def copy_data_user_to_kernel_def pc)
qed


definition mapped_vm :: vm where
  "mapped_vm = \<lparr>node = small_boot,
     cells = (\<lambda>a. if a = 0x1200 then 0x801 else if a = 0x2000 then 0xC01 else if a = 0x3000 then 0x1417 else 0),
     bytes = (\<lambda>a. of_nat a)\<rparr>"

lemma mapped_vm_page:
  assumes "i < 16"
  shows "walkaddr 0x1000 (PGROUNDDOWN (of_nat (0x1000000000 + i))) mapped_vm = 0x5000"
    "phys 0x1000 mapped_vm (0x1000000000 + i) = 0x5000 + i"
proof -
  have w: "walkaddr 0x1000 (PGROUNDDOWN 0x1000000000) mapped_vm = 0x5000" by code_simp
  have "PGROUNDDOWN (of_nat (0x1000000000 + i) :: u64) = PGROUNDDOWN (of_nat 0x1000000000)"
    "phys 0x1000 mapped_vm (0x1000000000 + i) = phys 0x1000 mapped_vm 0x1000000000 + i"
    using assms by (intro phys_page; simp)+
  then show "walkaddr 0x1000 (PGROUNDDOWN (of_nat (0x1000000000 + i))) mapped_vm = 0x5000"
    "phys 0x1000 mapped_vm (0x1000000000 + i) = 0x5000 + i"
    using w by (simp_all add: phys_def)
qed

theorem user_copy_roundtrip_witness:
  "\<exists>st1 st2. copy_data_kernel_to_user 0x1000 0x1000000000 0x100 4 mapped_vm = (0, st1) \<and>
    copy_data_user_to_kernel 0x1000 0x200 0x1000000000 4 st1 = (0, st2) \<and> (\<forall>i < 4. bytes st2 (0x200 + i) = of_nat (0x100 + i))"
proof -
  have "mapped 0x1000 mapped_vm 0x1000000000 4" "separate 0x1000 mapped_vm 0x1000000000 0x100 4"
    "separate 0x1000 mapped_vm 0x1000000000 0x200 4"
    unfolding mapped_def separate_def using mapped_vm_page by (simp_all del: of_nat_add)
  then show ?thesis
    using user_copy_roundtrip [of "0x1000" mapped_vm "0x1000000000" 4 "0x100" "0x200"] by (simp add: mapped_vm_def)
qed

end
