(* ===== verification/Locks.thy ===== *)
theory Locks
  imports Prelude
begin

text \<open>
  The ticket spinlock of \<^verbatim>\<open>kernel/spinlock.c\<close> and the sleep lock of \<^verbatim>\<open>kernel/sleeplock.c\<close>. The
  spinlock is a state machine over any number of CPUs: \<^verbatim>\<open>lock\<close> is an atomic ticket draw
  (the load-reserved / store-conditional loop) followed by a wait, so each of these is a step of its
  own and steps of different CPUs interleave freely. Tickets are 32-bit and wrap. The other
  components run their critical sections without interruption and use the sleep lock only.
\<close>

section \<open>Spinlock\<close>

record spinlock =
  owner :: u32
  next_ticket :: u32

definition initlock :: spinlock where
  "initlock = \<lparr>owner = 1, next_ticket = 0\<rparr>"

definition unlock :: "spinlock \<Rightarrow> spinlock" where
  "unlock lk = lk\<lparr>owner := owner lk + 1\<rparr>"

text \<open>The draw: the ticket is the incremented value that is stored back.\<close>

definition lock_draw :: "spinlock \<Rightarrow> u32 \<times> spinlock" where
  "lock_draw lk = (let new_next = next_ticket lk + 1 in (new_next, lk\<lparr>next_ticket := new_next\<rparr>))"

definition lock_wait :: "u32 \<Rightarrow> spinlock \<Rightarrow> bool" where
  "lock_wait ticket lk \<longleftrightarrow> ticket \<noteq> owner lk"

text \<open>
  \<^verbatim>\<open>try_lock\<close>, with the store-conditional succeeding at once: 0 and the lock with a ticket drawn
  when \<open>owner = next\<close>, else -1.
\<close>

definition try_lock :: "spinlock \<Rightarrow> int \<times> spinlock" where
  "try_lock lk = (if owner lk \<noteq> next_ticket lk then (-1, lk) else (0, lk\<lparr>next_ticket := next_ticket lk + 1\<rparr>))"

text \<open>The \<^verbatim>\<open>cpu\<close> field and the preemption counter are bookkeeping of the same CPU.\<close>

definition try_acquire :: "spinlock \<times> int \<Rightarrow> int \<times> (spinlock \<times> int)" where
  "try_acquire s =
     (let (lk, preempt) = s;
          preempt = preempt + 1;
          (r, lk) = try_lock lk
      in if r = 0 then (0, (lk, preempt)) else (-1, (lk, preempt - 1)))"

datatype cpu = Idle | Waiting u32 | Holding u32

fun ticket :: "cpu \<Rightarrow> u32 option" where
  "ticket Idle = None"
| "ticket (Waiting t) = Some t"
| "ticket (Holding t) = Some t"

text \<open>One step of one CPU: \<^verbatim>\<open>acquire\<close> draws, \<^verbatim>\<open>acquire\<close> leaves its loop, \<^verbatim>\<open>release\<close>.\<close>

inductive lstep :: "spinlock \<times> (nat \<Rightarrow> cpu) \<Rightarrow> spinlock \<times> (nat \<Rightarrow> cpu) \<Rightarrow> bool" where
  draw: "c i = Idle \<Longrightarrow> lock_draw lk = (t, lk') \<Longrightarrow> lstep (lk, c) (lk', c(i := Waiting t))"
| enter: "c i = Waiting t \<Longrightarrow> \<not> lock_wait t lk \<Longrightarrow> lstep (lk, c) (lk, c(i := Holding t))"
| leave: "c i = Holding t \<Longrightarrow> lstep (lk, c) (unlock lk, c(i := Idle))"

inductive lreach :: "nat \<Rightarrow> spinlock \<times> (nat \<Rightarrow> cpu) \<Rightarrow> bool" for n where
  init: "lreach n (initlock, \<lambda>_. Idle)"
| step: "lreach n s \<Longrightarrow> lstep s s' \<Longrightarrow> \<forall>i \<ge> n. snd s' i = Idle \<Longrightarrow> lreach n s'"

inductive_cases lstepE: "lstep (lk, c) s'"

section \<open>The ticket invariant\<close>

text \<open>
  The CPUs that are not idle hold the tickets \<open>owner, owner + 1, \<dots>, next\<close>, each exactly once;
  \<open>q\<close> lists those CPUs in ticket order, and only its first one can be in the critical section.
\<close>

definition lock_inv :: "nat \<Rightarrow> spinlock \<times> (nat \<Rightarrow> cpu) \<Rightarrow> nat list \<Rightarrow> bool" where
  "lock_inv n s q \<longleftrightarrow> distinct q \<and> set q = {i. snd s i \<noteq> Idle} \<and> set q \<subseteq> {..<n} \<and>
     (\<forall>k < length q. ticket (snd s (q ! k)) = Some (owner (fst s) + of_nat k)) \<and>
     next_ticket (fst s) + 1 = owner (fst s) + of_nat (length q) \<and>
     (\<forall>k < length q. \<forall>t. snd s (q ! k) = Holding t \<longrightarrow> k = 0)"

lemma of_nat_small_inj: "j < 2 ^ 32 \<Longrightarrow> k < 2 ^ 32 \<Longrightarrow> (of_nat j :: u32) = of_nat k \<longleftrightarrow> j = k"
proof -
  assume "j < 2 ^ 32" "k < 2 ^ 32"
  then have "unat (of_nat j :: u32) = j" "unat (of_nat k :: u32) = k"
    by (simp_all only: unat_of_nat) (simp_all add: take_bit_nat_eq_self)
  then show ?thesis by metis
qed

lemma lock_inv_length:
  assumes "lock_inv n s q"
  shows "length q \<le> n"
proof -
  have "card (set q) \<le> card {..<n}" using assms by (intro card_mono) (auto simp: lock_inv_def)
  moreover have "distinct q" using assms by (simp add: lock_inv_def)
  ultimately show ?thesis by (simp add: distinct_card)
qed

lemma lock_inv_draw:
  assumes "lock_inv n (lk, c) q" "c i = Idle" "lock_draw lk = (t, lk')" "i < n"
  shows "lock_inv n (lk', c(i := Waiting t)) (q @ [i])"
proof -
  have t: "t = owner lk + of_nat (length q)" "owner lk' = owner lk" "next_ticket lk' = t"
    using assms(1,3) by (auto simp: lock_draw_def lock_inv_def Let_def)
  have i: "i \<notin> set q" using assms(1,2) by (auto simp: lock_inv_def)
  then have ne: "q ! k \<noteq> i" if "k < length q" for k using that nth_mem by metis
  show ?thesis
    using assms(1,2,4) i ne t by (auto simp: lock_inv_def nth_append less_Suc_eq algebra_simps)
qed

lemma lock_inv_enter:
  assumes "lock_inv n (lk, c) q" "c i = Waiting t" "\<not> lock_wait t lk" "n < 2 ^ 32"
  shows "lock_inv n (lk, c(i := Holding t)) q"
proof -
  have "i \<in> set q" using assms(1,2) by (auto simp: lock_inv_def)
  then obtain k where k: "k < length q" "q ! k = i" by (auto simp: in_set_conv_nth)
  have "t = owner lk + of_nat k" using assms(1,2) k by (force simp: lock_inv_def)
  then have "(of_nat k :: u32) = of_nat 0" using assms(3) by (simp add: lock_wait_def)
  moreover have "k < 2 ^ 32" using k(1) lock_inv_length [OF assms(1)] assms(4) by simp
  ultimately have "k = 0" using of_nat_small_inj [of k 0] by simp
  then show ?thesis
    using assms(1,2) k by (auto simp: lock_inv_def nth_eq_iff_index_eq)
qed

lemma lock_inv_leave:
  assumes "lock_inv n (lk, c) q" "c i = Holding t"
  shows "\<exists>q'. q = i # q' \<and> lock_inv n (unlock lk, c(i := Idle)) q'"
proof -
  have "i \<in> set q" using assms by (auto simp: lock_inv_def)
  then obtain k where k: "k < length q" "q ! k = i" by (auto simp: in_set_conv_nth)
  then have "k = 0" using assms by (auto simp: lock_inv_def)
  then obtain q' where q: "q = i # q'" using k by (cases q) auto
  have d: "distinct q" "set q = {j. c j \<noteq> Idle}" "set q \<subseteq> {..<n}" using assms(1) by (auto simp: lock_inv_def)
  have tk: "\<forall>k < length q'. ticket (c (q' ! k)) = Some (owner lk + 1 + of_nat k)"
    using assms(1) by (auto simp: lock_inv_def q dest!: spec [of _ "Suc _"])
  have hold: "\<forall>k < length q'. \<forall>t. c (q' ! k) \<noteq> Holding t"
    using assms(1) by (auto simp: lock_inv_def q dest!: spec [of _ "Suc _"])
  have ne: "q' ! k \<noteq> i" if "k < length q'" for k using d(1) that nth_mem unfolding q by (metis distinct.simps(2))
  have nx: "next_ticket lk + 1 = owner lk + 1 + of_nat (length q')" using assms(1) by (simp add: lock_inv_def q algebra_simps)
  have "lock_inv n (unlock lk, c(i := Idle)) q'"
    using d tk hold ne nx by (auto simp: lock_inv_def unlock_def q)
  with q show ?thesis by blast
qed

lemma lreach_inv: "lreach n s \<Longrightarrow> n < 2 ^ 32 \<Longrightarrow> \<exists>q. lock_inv n s q"
proof (induction rule: lreach.induct)
  case init
  show ?case by (intro exI [of _ "[]"]) (simp add: lock_inv_def initlock_def)
next
  case (step s s')
  then obtain q where q: "lock_inv n s q" by blast
  obtain lk c where s: "s = (lk, c)" by (cases s)
  show ?case
  proof (rule lstepE [OF step.hyps(2) [unfolded s]], goal_cases)
    case (1 i t lk')
    then have "i < n" using step.hyps(3) by (force simp: not_less [symmetric])
    then show ?thesis using lock_inv_draw [of n lk c q i t lk'] q 1 s by blast
  next
    case (2 i t)
    then show ?thesis using lock_inv_enter [of n lk c q i t] q s step.prems by blast
  next
    case (3 i t)
    then show ?thesis using lock_inv_leave [of n lk c q i t] q s by blast
  qed
qed


section \<open>Sleep lock\<close>

record sleeplock =
  sl_locked :: bool
  sl_pid :: int

definition initsleeplock :: sleeplock where
  "initsleeplock = \<lparr>sl_locked = False, sl_pid = 0\<rparr>"

text \<open>
  \<^verbatim>\<open>acquiresleep\<close> waits for the lock to be free; in a run of a single thread a lock that is held is
  never released during the wait, which is the fault \<open>Blocked\<close>.
\<close>

definition acquiresleep :: "int \<Rightarrow> sleeplock \<Rightarrow> sleeplock result" where
  "acquiresleep pid lk = (if sl_locked lk then Inl Blocked else Inr \<lparr>sl_locked = True, sl_pid = pid\<rparr>)"

definition releasesleep :: "sleeplock \<Rightarrow> sleeplock" where
  "releasesleep lk = \<lparr>sl_locked = False, sl_pid = 0\<rparr>"

definition holdingsleep :: "int \<Rightarrow> sleeplock \<Rightarrow> bool" where
  "holdingsleep pid lk \<longleftrightarrow> sl_locked lk \<and> sl_pid lk = pid"

lemma acquiresleep_holding: "acquiresleep pid lk = Inr lk' \<Longrightarrow> holdingsleep pid lk' \<and> \<not> sl_locked lk"
  by (auto simp: acquiresleep_def holdingsleep_def split: if_splits)

lemma releasesleep_free [simp]: "\<not> sl_locked (releasesleep lk)"
  by (simp add: releasesleep_def)

section \<open>Correctness\<close>

text \<open>
  C13: mutual exclusion and order of the ticket lock, for any number of CPUs below \<open>2 ^ 32\<close> and any
  interleaving: two CPUs are never in the critical section at once, tickets of waiting CPUs are
  distinct although they wrap, and whenever some CPU is waiting and none is inside, exactly one
  waiting CPU (the one that drew first) finds the lock open.
\<close>

theorem ticket_lock_correct:
  assumes "lreach n (lk, c)" "n < 2 ^ 32"
  shows "(c i = Holding t \<longrightarrow> c j = Holding t' \<longrightarrow> i = j) \<and>
    (ticket (c i) = ticket (c j) \<longrightarrow> c i \<noteq> Idle \<longrightarrow> i = j) \<and>
    ((\<exists>k. c k \<noteq> Idle) \<longrightarrow> (\<forall>k t. c k \<noteq> Holding t) \<longrightarrow> (\<exists>!k. \<exists>t. c k = Waiting t \<and> \<not> lock_wait t lk))"
proof -
  obtain q where q: "lock_inv n (lk, c) q" using lreach_inv [OF assms] by blast
  have d: "distinct q" "set q = {i. c i \<noteq> Idle}"
    and tk: "\<And>k. k < length q \<Longrightarrow> ticket (c (q ! k)) = Some (owner lk + of_nat k)"
    and hd0: "\<And>k t. k < length q \<Longrightarrow> c (q ! k) = Holding t \<Longrightarrow> k = 0"
    using q by (auto simp: lock_inv_def)
  have len: "length q < 2 ^ 32" using lock_inv_length [OF q] assms(2) by simp
  have pos: "\<exists>k < length q. q ! k = i" if "c i \<noteq> Idle" for i using that d(2) by (auto simp: in_set_conv_nth)
  have inj: "a = b" if "a < length q" "b < length q" "ticket (c (q ! a)) = ticket (c (q ! b))" for a b
    using that tk len of_nat_small_inj [of a b] by simp
  have "i = j" if h: "c i = Holding t" "c j = Holding t'"
  proof -
    obtain a b where "a < length q" "q ! a = i" "b < length q" "q ! b = j" using pos [of i] pos [of j] h by auto
    then show ?thesis using hd0 [of a t] hd0 [of b t'] h by auto
  qed
  moreover have "i = j" if "ticket (c i) = ticket (c j)" "c i \<noteq> Idle"
  proof -
    have "c j \<noteq> Idle" using that by (cases "c i") auto
    then show ?thesis using pos [of i] pos [of j] inj that by metis
  qed
  moreover have "\<exists>!k. \<exists>t. c k = Waiting t \<and> \<not> lock_wait t lk"
    if "\<exists>k. c k \<noteq> Idle" "\<forall>k t. c k \<noteq> Holding t"
  proof -
    have ne: "0 < length q" using that(1) pos by force
    have w: "\<exists>t. c k = Waiting t" if "c k \<noteq> Idle" for k using that \<open>\<forall>k t. c k \<noteq> Holding t\<close> by (cases "c k") auto
    obtain t0 where t0: "c (q ! 0) = Waiting t0" "t0 = owner lk"
      using w [of "q ! 0"] tk [OF ne] d(2) nth_mem [OF ne] by auto
    have "k = q ! 0" if "c k = Waiting t" "\<not> lock_wait t lk" for k t
    proof -
      obtain a where a: "a < length q" "q ! a = k" using pos [of k] \<open>c k = Waiting t\<close> by auto
      have "ticket (c (q ! a)) = ticket (c (q ! 0))" using that t0 a by (simp add: lock_wait_def)
      then show ?thesis using inj [OF a(1) ne] a(2) by simp
    qed
    then show ?thesis using t0 by (auto simp: lock_wait_def)
  qed
  ultimately show ?thesis by blast
qed

theorem ticket_lock_correct_witness:
  "\<exists>lk c. lreach 2 (lk, c) \<and> c 0 = Holding 1 \<and> c 1 = Waiting 2 \<and> (\<forall>t. c 1 \<noteq> Holding t)"
proof -
  let ?l1 = "\<lparr>owner = 1, next_ticket = 1\<rparr> :: spinlock" and ?l2 = "\<lparr>owner = 1, next_ticket = 2\<rparr> :: spinlock"
  let ?c1 = "(\<lambda>_. Idle)(0 := Waiting 1)"
  let ?c2 = "?c1(0 := Holding 1)"
  let ?c3 = "?c2(Suc 0 := Waiting 2)"
  have "lstep (initlock, \<lambda>_. Idle) (?l1, ?c1)"
    by (rule lstep.draw) (simp_all add: lock_draw_def initlock_def)
  then have "lreach 2 (?l1, ?c1)" by (rule lreach.step [OF lreach.init]) auto
  moreover have "lstep (?l1, ?c1) (?l1, ?c2)" by (rule lstep.enter) (simp_all add: lock_wait_def)
  ultimately have "lreach 2 (?l1, ?c2)" by (rule lreach.step) auto
  moreover have "lstep (?l1, ?c2) (?l2, ?c3)" by (rule lstep.draw) (simp_all add: lock_draw_def)
  ultimately have r: "lreach 2 (?l2, ?c3)" by (rule lreach.step) auto
  have "\<forall>t. ?c3 1 \<noteq> Holding t" using ticket_lock_correct [OF r, of 0 1 1] by auto
  with r show ?thesis by (intro exI [of _ ?l2] exI [of _ ?c3]) auto
qed

text \<open>
  \<^verbatim>\<open>try_lock\<close> compares \<^verbatim>\<open>owner\<close> with the last ticket drawn, which are equal exactly when the lock
  is held and nobody waits. So it fails on every free lock, and on a held lock without waiters it
  reports success: \<^verbatim>\<open>try_acquire\<close> then lets a second CPU in.
\<close>

theorem try_lock_inverted:
  assumes "lreach n (lk, c)" "n < 2 ^ 32"
  shows "((\<forall>k. c k = Idle) \<longrightarrow> fst (try_lock lk) = -1) \<and>
    (c i = Holding t \<longrightarrow> (\<forall>k. k \<noteq> i \<longrightarrow> c k = Idle) \<longrightarrow> fst (try_lock lk) = 0)"
proof -
  obtain q where q: "lock_inv n (lk, c) q" using lreach_inv [OF assms] by blast
  have nx: "next_ticket lk + 1 = owner lk + of_nat (length q)" and sq: "set q = {i. c i \<noteq> Idle}" "distinct q"
    using q by (simp_all add: lock_inv_def)
  have "fst (try_lock lk) = -1" if "\<forall>k. c k = Idle"
  proof -
    have "q = []" using sq(1) that by auto
    then have "next_ticket lk + 1 = owner lk" using nx by simp
    then have "owner lk \<noteq> next_ticket lk" by (metis add_cancel_right_right zero_neq_one)
    then show ?thesis by (simp add: try_lock_def)
  qed
  moreover have "fst (try_lock lk) = 0" if "c i = Holding t" "\<forall>k. k \<noteq> i \<longrightarrow> c k = Idle"
  proof -
    have "set q = {i}" using sq(1) that by auto
    then have "length q = 1" using sq(2) by (metis distinct_card card.empty card_insert_disjoint empty_iff finite.emptyI One_nat_def)
    then have "owner lk = next_ticket lk" using nx by simp
    then show ?thesis by (simp add: try_lock_def)
  qed
  ultimately show ?thesis by blast
qed

theorem try_lock_inverted_witness: "fst (try_lock initlock) = -1"
  using try_lock_inverted [OF lreach.init, of 1 0] by simp

end
