(* ===== verification/Bio.thy ===== *)
theory Bio
  imports Lists Locks
begin

text \<open>
  The block cache of \<^verbatim>\<open>kernel/bio.c\<close>. The least-recently-used list runs through the buffers by
  \<^verbatim>\<open>prev\<close> and \<^verbatim>\<open>next\<close>; it is kept in a store as in theory Lists, with the pointers 0 for
  \<^verbatim>\<open>NULL\<close>, 1 for \<^verbatim>\<open>&bcache.head\<close> and \<open>2 + i\<close> for \<^verbatim>\<open>&bcache.buf[i]\<close>. The disk is a map from
  device and block number to the block's bytes, and \<^verbatim>\<open>virtio_disk_rw\<close> reads or writes one block of
  it. \<open>pid\<close> is the current thread; \<^verbatim>\<open>bcache.lock\<close> makes each routine atomic.

  \<open>view\<close> is what the rest of the kernel sees: the cached copy of a block if there is a valid one,
  else the disk. The operations are specified by their effect on the view and on the disk.
\<close>

section \<open>State\<close>

definition NBUF :: nat where "NBUF = 30"
definition BSIZE :: nat where "BSIZE = 1024"

record buf =
  b_valid :: bool
  b_dev :: u32
  b_blockno :: u32
  b_lock :: sleeplock
  b_refcnt :: u32
  b_data :: "u8 list"

record bcache =
  bufs :: "nat \<Rightarrow> buf"
  links :: list_store
  disk :: "u32 \<Rightarrow> u32 \<Rightarrow> u8 list"

definition bc_head :: nat where "bc_head = 1"
definition buf_ptr :: "nat \<Rightarrow> nat" where "buf_ptr i = 2 + i"

definition upd_buf :: "nat \<Rightarrow> (buf \<Rightarrow> buf) \<Rightarrow> bcache \<Rightarrow> bcache" where
  "upd_buf b f c = c\<lparr>bufs := (bufs c)(b := f (bufs c b))\<rparr>"

section \<open>Operations\<close>

definition link_front :: "nat \<Rightarrow> list_store \<Rightarrow> list_store" where
  "link_front b h =
     (let h = set_next b (nxt (h bc_head)) h;
          h = set_prev b bc_head h;
          h = set_prev (nxt (h bc_head)) b h
      in set_next bc_head b h)"

fun binit_loop :: "nat list \<Rightarrow> bcache \<Rightarrow> bcache" where
  "binit_loop [] c = c"
| "binit_loop (i # is) c =
     (let c = c\<lparr>links := link_front (buf_ptr i) (links c)\<rparr>
      in binit_loop is (upd_buf (buf_ptr i) (\<lambda>b. b\<lparr>b_lock := initsleeplock\<rparr>) c))"

definition binit :: "bcache \<Rightarrow> bcache" where
  "binit c = binit_loop [0..<NBUF] (c\<lparr>links := INIT_LIST_HEAD bc_head (links c)\<rparr>)"

text \<open>The two scans of \<^verbatim>\<open>bget\<close>: 0 when the head comes round, \<open>None\<close> when it never does.\<close>

fun scan_next :: "nat \<Rightarrow> (nat \<Rightarrow> bool) \<Rightarrow> list_store \<Rightarrow> nat \<Rightarrow> nat option" where
  "scan_next 0 P h b = None"
| "scan_next (Suc fuel) P h b =
     (if b = bc_head then Some 0 else if P b then Some b else scan_next fuel P h (nxt (h b)))"

fun scan_prev :: "nat \<Rightarrow> (nat \<Rightarrow> bool) \<Rightarrow> list_store \<Rightarrow> nat \<Rightarrow> nat option" where
  "scan_prev 0 P h b = None"
| "scan_prev (Suc fuel) P h b =
     (if b = bc_head then Some 0 else if P b then Some b else scan_prev fuel P h (prv (h b)))"

definition lock_buf :: "int \<Rightarrow> nat \<Rightarrow> bcache \<Rightarrow> (nat \<times> bcache) result" where
  "lock_buf pid b c =
     bindR (acquiresleep pid (b_lock (bufs c b))) (\<lambda>lk. Inr (b, upd_buf b (\<lambda>x. x\<lparr>b_lock := lk\<rparr>) c))"

definition bget :: "int \<Rightarrow> u32 \<Rightarrow> u32 \<Rightarrow> bcache \<Rightarrow> (nat \<times> bcache) result option" where
  "bget pid dev blockno c =
     (case scan_next (NBUF + 1) (\<lambda>b. b_dev (bufs c b) = dev \<and> b_blockno (bufs c b) = blockno) (links c) (nxt (links c bc_head)) of
        None \<Rightarrow> None
      | Some b \<Rightarrow>
          if b \<noteq> 0 then Some (lock_buf pid b (upd_buf b (\<lambda>x. x\<lparr>b_refcnt := b_refcnt x + 1\<rparr>) c))
          else case scan_prev (NBUF + 1) (\<lambda>b. b_refcnt (bufs c b) = 0) (links c) (prv (links c bc_head)) of
                 None \<Rightarrow> None
               | Some b \<Rightarrow>
                   if b \<noteq> 0
                   then Some (lock_buf pid b
                          (upd_buf b (\<lambda>x. x\<lparr>b_dev := dev, b_blockno := blockno, b_valid := False, b_refcnt := 1\<rparr>) c))
                   else Some (Inl (Panic ''bget: no buffers'')))"

text \<open>The disk transfers the block named by the buffer.\<close>

definition virtio_disk_rw :: "nat \<Rightarrow> bool \<Rightarrow> bcache \<Rightarrow> bcache" where
  "virtio_disk_rw b write c =
     (let x = bufs c b
      in if write then c\<lparr>disk := (disk c)(b_dev x := (disk c (b_dev x))(b_blockno x := b_data x))\<rparr>
         else upd_buf b (\<lambda>x. x\<lparr>b_data := disk c (b_dev x) (b_blockno x)\<rparr>) c)"

definition bread :: "int \<Rightarrow> u32 \<Rightarrow> u32 \<Rightarrow> bcache \<Rightarrow> (nat \<times> bcache) result option" where
  "bread pid dev blockno c =
     (case bget pid dev blockno c of
        Some (Inr (b, c)) \<Rightarrow>
          if \<not> b_valid (bufs c b)
          then Some (Inr (b, upd_buf b (\<lambda>x. x\<lparr>b_valid := True\<rparr>) (virtio_disk_rw b False c)))
          else Some (Inr (b, c))
      | r \<Rightarrow> r)"

definition bwrite :: "int \<Rightarrow> nat \<Rightarrow> bcache \<Rightarrow> bcache result" where
  "bwrite pid b c =
     (if \<not> holdingsleep pid (b_lock (bufs c b)) then Inl (Panic ''bwrite'') else Inr (virtio_disk_rw b True c))"

definition brelse :: "int \<Rightarrow> nat \<Rightarrow> bcache \<Rightarrow> bcache result" where
  "brelse pid b c =
     (if \<not> holdingsleep pid (b_lock (bufs c b)) then Inl (Panic ''brelse'')
      else let c = upd_buf b (\<lambda>x. x\<lparr>b_lock := releasesleep (b_lock x)\<rparr>) c;
               c = upd_buf b (\<lambda>x. x\<lparr>b_refcnt := b_refcnt x - 1\<rparr>) c
           in if b_refcnt (bufs c b) = 0
              then let h = links c;
                       h = set_prev (nxt (h b)) (prv (h b)) h;
                       h = set_next (prv (h b)) (nxt (h b)) h
                   in Inr (c\<lparr>links := link_front b h\<rparr>)
              else Inr c)"

definition bpin :: "nat \<Rightarrow> bcache \<Rightarrow> bcache" where
  "bpin b c = upd_buf b (\<lambda>x. x\<lparr>b_refcnt := b_refcnt x + 1\<rparr>) c"

definition bunpin :: "nat \<Rightarrow> bcache \<Rightarrow> bcache" where
  "bunpin b c = upd_buf b (\<lambda>x. x\<lparr>b_refcnt := b_refcnt x - 1\<rparr>) c"

section \<open>Invariant and view\<close>

definition key :: "bcache \<Rightarrow> nat \<Rightarrow> u32 \<times> u32" where
  "key c b = (b_dev (bufs c b), b_blockno (bufs c b))"

definition bptrs :: "nat set" where
  "bptrs = buf_ptr ` {..<NBUF}"

text \<open>
  The list holds every buffer once, and no block of a device other than 0 (which has none) is
  cached twice. A locked buffer is referenced, and a valid buffer that is not referenced agrees
  with the disk (so that it can be recycled without being written).
\<close>

definition bcache_inv :: "bcache \<Rightarrow> bool" where
  "bcache_inv c \<longleftrightarrow> (\<exists>bs. dll (links c) bc_head bs \<and> set bs = bptrs) \<and>
     (\<forall>b \<in> bptrs. \<forall>b' \<in> bptrs. key c b = key c b' \<longrightarrow> fst (key c b) \<noteq> 0 \<longrightarrow> b = b') \<and>
     (\<forall>b \<in> bptrs. sl_locked (b_lock (bufs c b)) \<longrightarrow> b_refcnt (bufs c b) \<noteq> 0) \<and>
     (\<forall>b \<in> bptrs. b_valid (bufs c b) \<longrightarrow> b_refcnt (bufs c b) = 0 \<longrightarrow>
        b_data (bufs c b) = disk c (b_dev (bufs c b)) (b_blockno (bufs c b)))"

definition view :: "bcache \<Rightarrow> u32 \<Rightarrow> u32 \<Rightarrow> u8 list" where
  "view c dev bno =
     (if \<exists>b \<in> bptrs. key c b = (dev, bno) \<and> b_valid (bufs c b)
      then b_data (bufs c (THE b. b \<in> bptrs \<and> key c b = (dev, bno) \<and> b_valid (bufs c b))) else disk c dev bno)"

lemma bptrs_range: "b \<in> bptrs \<Longrightarrow> 2 \<le> b \<and> b \<noteq> bc_head \<and> b \<noteq> 0"
  by (auto simp: bptrs_def buf_ptr_def bc_head_def)

lemma card_bptrs: "card bptrs = NBUF" "finite bptrs"
proof -
  show "finite bptrs" by (simp add: bptrs_def)
  have "inj_on buf_ptr {..<NBUF}" by (simp add: inj_on_def buf_ptr_def)
  then show "card bptrs = NBUF" by (simp add: bptrs_def card_image)
qed

lemma view_cached:
  assumes "bcache_inv c" "b \<in> bptrs" "key c b = (dev, bno)" "b_valid (bufs c b)" "dev \<noteq> 0"
  shows "view c dev bno = b_data (bufs c b)"
proof -
  have "(THE b. b \<in> bptrs \<and> key c b = (dev, bno) \<and> b_valid (bufs c b)) = b"
    using assms by (intro the_equality) (auto simp: bcache_inv_def)
  then show ?thesis using assms by (auto simp: view_def)
qed

lemma view_uncached: "\<forall>b \<in> bptrs. key c b = (dev, bno) \<longrightarrow> \<not> b_valid (bufs c b) \<Longrightarrow> view c dev bno = disk c dev bno"
  by (auto simp: view_def)


section \<open>The scans\<close>

definition found :: "(nat \<Rightarrow> bool) \<Rightarrow> nat list \<Rightarrow> nat" where
  "found P bs = (case find P bs of None \<Rightarrow> 0 | Some b \<Rightarrow> b)"

lemma scan_next_seg:
  "seg h a bs bc_head \<Longrightarrow> bc_head \<notin> set bs \<Longrightarrow> length bs < fuel \<Longrightarrow>
     scan_next fuel P h (nxt (h a)) = Some (found P bs)"
proof (induction bs arbitrary: a fuel)
  case Nil
  then show ?case by (cases fuel) (auto simp: found_def)
next
  case (Cons b bs)
  then obtain f where f: "fuel = Suc f" by (cases fuel) auto
  show ?case using Cons by (auto simp: f found_def)
qed

lemma scan_prev_seg:
  "seg h bc_head bs e \<Longrightarrow> bc_head \<notin> set bs \<Longrightarrow> length bs < fuel \<Longrightarrow>
     scan_prev fuel P h (prv (h e)) = Some (found P (rev bs))"
proof (induction bs arbitrary: e fuel rule: rev_induct)
  case Nil
  then show ?case by (cases fuel) (auto simp: found_def)
next
  case (snoc b bs)
  then obtain f where f: "fuel = Suc f" by (cases fuel) auto
  have sg: "seg h bc_head bs b" "prv (h e) = b" using snoc.prems(1) by (auto simp: seg_append)
  show ?case using snoc.IH [OF sg(1)] snoc.prems sg(2) by (auto simp: f found_def)
qed

lemma bcache_list:
  assumes "bcache_inv c"
  obtains bs where "dll (links c) bc_head bs" "set bs = bptrs" "distinct bs" "length bs = NBUF" "bc_head \<notin> set bs"
proof -
  obtain bs where bs: "dll (links c) bc_head bs" "set bs = bptrs" using assms by (auto simp: bcache_inv_def)
  then have "distinct bs" "bc_head \<notin> set bs" by (auto simp: dll_def)
  moreover from this bs(2) have "length bs = NBUF" by (metis card_bptrs(1) distinct_card)
  ultimately show thesis using that bs by blast
qed

lemma found_0: "0 \<notin> set bs \<Longrightarrow> found P bs = 0 \<longleftrightarrow> (\<forall>b \<in> set bs. \<not> P b)"
  by (induction bs) (auto simp: found_def)

lemma found_in: "found P bs \<noteq> 0 \<Longrightarrow> found P bs \<in> set bs \<and> P (found P bs)"
  by (induction bs) (auto simp: found_def split: if_splits)

text \<open>\<^verbatim>\<open>bget\<close> always returns: a cached buffer, else a recycled one, else it panics.\<close>

lemma bget_cases [consumes 1, case_names cached recycled full]:
  assumes "bcache_inv c"
  obtains (cached) b where "b \<in> bptrs" "key c b = (dev, bno)"
      "bget pid dev bno c = Some (lock_buf pid b (upd_buf b (\<lambda>x. x\<lparr>b_refcnt := b_refcnt x + 1\<rparr>) c))"
  | (recycled) b where "\<forall>b \<in> bptrs. key c b \<noteq> (dev, bno)" "b \<in> bptrs" "b_refcnt (bufs c b) = 0"
      "bget pid dev bno c = Some (lock_buf pid b
         (upd_buf b (\<lambda>x. x\<lparr>b_dev := dev, b_blockno := bno, b_valid := False, b_refcnt := 1\<rparr>) c))"
  | (full) "\<forall>b \<in> bptrs. key c b \<noteq> (dev, bno)" "\<forall>b \<in> bptrs. b_refcnt (bufs c b) \<noteq> 0"
      "bget pid dev bno c = Some (Inl (Panic ''bget: no buffers''))"
proof -
  obtain bs where bs: "dll (links c) bc_head bs" "set bs = bptrs" "length bs = NBUF" "bc_head \<notin> set bs"
    using bcache_list [OF assms] by metis
  let ?P = "\<lambda>b. b_dev (bufs c b) = dev \<and> b_blockno (bufs c b) = bno" and ?Q = "\<lambda>b. b_refcnt (bufs c b) = 0"
  have n: "scan_next (NBUF + 1) ?P (links c) (nxt (links c bc_head)) = Some (found ?P bs)"
    using bs by (intro scan_next_seg) (auto simp: dll_def)
  have p: "scan_prev (NBUF + 1) ?Q (links c) (prv (links c bc_head)) = Some (found ?Q (rev bs))"
    using bs by (intro scan_prev_seg) (auto simp: dll_def)
  have z: "0 \<notin> set bs" "0 \<notin> set (rev bs)" using bptrs_range bs(2) by auto
  show thesis
  proof (cases "found ?P bs = 0")
    case False
    then show thesis using cached [of "found ?P bs"] found_in [OF False] n bs(2) by (simp add: bget_def key_def)
  next
    case True
    then have nk: "\<forall>b \<in> bptrs. key c b \<noteq> (dev, bno)" using found_0 [OF z(1)] bs(2) by (auto simp: key_def)
    show thesis
    proof (cases "found ?Q (rev bs) = 0")
      case False
      then show thesis using recycled [of "found ?Q (rev bs)"] nk found_in [OF False] n p True bs(2) by (simp add: bget_def)
    next
      case all: True
      then show thesis using full nk found_0 [OF z(2)] n p True bs(2) by (simp add: bget_def)
    qed
  qed
qed


section \<open>Effect on the view\<close>

lemma view_cong:
  assumes "disk c' = disk c" "\<And>b. b \<in> bptrs \<Longrightarrow> key c' b = key c b \<and> b_valid (bufs c' b) = b_valid (bufs c b) \<and>
    (b_valid (bufs c b) \<longrightarrow> b_data (bufs c' b) = b_data (bufs c b))"
    and inv: "bcache_inv c" and "dev \<noteq> 0"
  shows "view c' dev bno = view c dev bno"
proof -
  have eq: "(b \<in> bptrs \<and> key c' b = (dev, bno) \<and> b_valid (bufs c' b)) = (b \<in> bptrs \<and> key c b = (dev, bno) \<and> b_valid (bufs c b))" for b
    using assms(2) by metis
  show ?thesis
  proof (cases "\<exists>b \<in> bptrs. key c b = (dev, bno) \<and> b_valid (bufs c b)")
    case True
    then obtain b where b: "b \<in> bptrs" "key c b = (dev, bno)" "b_valid (bufs c b)" by blast
    have "(THE b. b \<in> bptrs \<and> key c b = (dev, bno) \<and> b_valid (bufs c b)) = b"
      using inv b assms(4) by (intro the_equality) (auto simp: bcache_inv_def)
    then have "view c' dev bno = b_data (bufs c' b)" using eq b by (auto simp: view_def)
    then show ?thesis using view_cached [OF inv b assms(4)] assms(2) [OF b(1)] b(3) by simp
  next
    case False
    then show ?thesis using assms(2) by (subst (1 2) view_uncached) (auto simp: assms(1))
  qed
qed

lemma bufs_upd [simp]:
  "bufs (upd_buf b f c) = (bufs c)(b := f (bufs c b))" "links (upd_buf b f c) = links c" "disk (upd_buf b f c) = disk c"
  by (simp_all add: upd_buf_def)

text \<open>The state a routine holds: buffer \<open>b\<close> is locked by this thread and holds block \<open>(dev, bno)\<close>.\<close>

definition held :: "int \<Rightarrow> bcache \<Rightarrow> nat \<Rightarrow> u32 \<Rightarrow> u32 \<Rightarrow> bool" where
  "held pid c b dev bno \<longleftrightarrow> b \<in> bptrs \<and> key c b = (dev, bno) \<and> b_valid (bufs c b) \<and> holdingsleep pid (b_lock (bufs c b))"

definition refs_bounded :: "bcache \<Rightarrow> bool" where
  "refs_bounded c \<longleftrightarrow> (\<forall>b \<in> bptrs. b_refcnt (bufs c b) + 1 \<noteq> 0)"

lemma install_buf:
  assumes inv: "bcache_inv c" and b: "b \<in> bptrs" and dev: "dev \<noteq> 0"
    and uniq: "\<And>a. a \<in> bptrs \<Longrightarrow> key c a = (dev, bno) \<Longrightarrow> a = b"
    and x: "b_dev x = dev" "b_blockno x = bno" "b_valid x" "b_refcnt x \<noteq> 0" "b_data x = view c dev bno"
    and old: "key c b \<noteq> (dev, bno) \<Longrightarrow> b_refcnt (bufs c b) = 0"
    and c': "c' = c\<lparr>bufs := (bufs c)(b := x)\<rparr>"
  shows "bcache_inv c'" "d \<noteq> 0 \<Longrightarrow> view c' d n = view c d n"
proof -
  have k: "key c' a = (if a = b then (dev, bno) else key c a)" for a by (simp add: key_def c' x)
  have other: "bufs c' a = bufs c a" if "a \<noteq> b" for a using that by (simp add: c')
  have xb: "bufs c' b = x" and dk: "disk c' = disk c" by (simp_all add: c')
  have "key c' a = key c' a' \<Longrightarrow> fst (key c' a) \<noteq> 0 \<Longrightarrow> a = a'" if "a \<in> bptrs" "a' \<in> bptrs" for a a'
    using that inv uniq by (auto simp: k bcache_inv_def split: if_splits)
  moreover have "b_refcnt (bufs c' a) \<noteq> 0" if "a \<in> bptrs" "sl_locked (b_lock (bufs c' a))" for a
    using that inv x(4) other xb by (cases "a = b") (auto simp: bcache_inv_def)
  moreover have "b_data (bufs c' a) = disk c' (b_dev (bufs c' a)) (b_blockno (bufs c' a))"
    if "a \<in> bptrs" "b_valid (bufs c' a)" "b_refcnt (bufs c' a) = 0" for a
    using that inv x(4) other xb dk by (cases "a = b") (auto simp: bcache_inv_def)
  moreover have "\<exists>bs. dll (links c') bc_head bs \<and> set bs = bptrs" using inv by (simp add: c' bcache_inv_def)
  ultimately show inv': "bcache_inv c'" by (auto simp: bcache_inv_def)
  show "view c' d n = view c d n" if d: "d \<noteq> 0"
  proof (cases "(d, n) = (dev, bno)")
    case True
    then show ?thesis using view_cached [OF inv' b _ _ dev, of bno] x xb by (simp add: k)
  next
    case ne: False
    show ?thesis
    proof (cases "\<exists>a \<in> bptrs. a \<noteq> b \<and> key c a = (d, n) \<and> b_valid (bufs c a)")
      case True
      then obtain a where a: "a \<in> bptrs" "a \<noteq> b" "key c a = (d, n)" "b_valid (bufs c a)" by blast
      then show ?thesis
        using view_cached [OF inv a(1,3,4) d] view_cached [OF inv' a(1) _ _ d, of n] other by (simp add: k)
    next
      case False
      then have "view c' d n = disk c d n" using ne by (subst view_uncached) (auto simp: k other dk)
      moreover have "view c d n = disk c d n"
      proof (cases "key c b = (d, n) \<and> b_valid (bufs c b)")
        case True
        then have "b_data (bufs c b) = disk c d n" using inv b old ne by (auto simp: bcache_inv_def key_def)
        then show ?thesis using view_cached [OF inv b _ _ d, of n] True by simp
      next
        case nb: False
        then show ?thesis using False by (intro view_uncached) auto
      qed
      ultimately show ?thesis by simp
    qed
  qed
qed

lemma bread_spec:
  assumes inv: "bcache_inv c" and dev: "dev \<noteq> 0"
    and refs: "\<forall>b \<in> bptrs. key c b = (dev, bno) \<longrightarrow> b_refcnt (bufs c b) + 1 \<noteq> 0"
    and r: "bread pid dev bno c = Some (Inr (b, c'))"
  shows "bcache_inv c'" "held pid c' b dev bno" "b_data (bufs c' b) = view c dev bno" "disk c' = disk c"
    "\<And>d n. d \<noteq> 0 \<Longrightarrow> view c' d n = view c d n" "\<And>a. a \<noteq> b \<Longrightarrow> bufs c' a = bufs c a"
    "b_refcnt (bufs c' b) = (if \<exists>a \<in> bptrs. key c a = (dev, bno) then b_refcnt (bufs c b) + 1 else 1)"
    "key c b \<noteq> (dev, bno) \<Longrightarrow> b_refcnt (bufs c b) = 0"
proof -
  have vun: "view c dev bno = disk c dev bno" if "\<And>a. a \<in> bptrs \<Longrightarrow> key c a = (dev, bno) \<Longrightarrow> \<not> b_valid (bufs c a)"
    using that by (intro view_uncached) auto
  have "\<exists>x. b \<in> bptrs \<and> c' = c\<lparr>bufs := (bufs c)(b := x)\<rparr> \<and> b_dev x = dev \<and> b_blockno x = bno \<and> b_valid x \<and>
     holdingsleep pid (b_lock x) \<and> b_data x = view c dev bno \<and> b_refcnt x \<noteq> 0 \<and>
     (key c b \<noteq> (dev, bno) \<longrightarrow> b_refcnt (bufs c b) = 0) \<and> (\<forall>a \<in> bptrs. key c a = (dev, bno) \<longrightarrow> a = b) \<and>
     b_refcnt x = (if \<exists>a \<in> bptrs. key c a = (dev, bno) then b_refcnt (bufs c b) + 1 else 1)"
    using inv
  proof (cases rule: bget_cases [where dev = dev and bno = bno and pid = pid])
    case (cached b0)
    have u: "\<forall>a \<in> bptrs. key c a = (dev, bno) \<longrightarrow> a = b0" using inv cached(1,2) dev by (auto simp: bcache_inv_def)
    have r0: "b_refcnt (bufs c b0) + 1 \<noteq> 0" using refs cached(1,2) by blast
    have ex: "\<exists>a \<in> bptrs. key c a = (dev, bno)" using cached(1,2) by blast
    have kb: "b_dev (bufs c b0) = dev" "b_blockno (bufs c b0) = bno" using cached(2) by (auto simp: key_def)
    have vc: "b_valid (bufs c b0) \<Longrightarrow> view c dev bno = b_data (bufs c b0)" using view_cached [OF inv cached(1,2) _ dev] by blast
    have vn: "\<not> b_valid (bufs c b0) \<Longrightarrow> view c dev bno = disk c dev bno" using u by (intro vun) auto
    obtain lk where lk: "acquiresleep pid (b_lock (bufs c b0)) = Inr lk"
      using r by (cases "acquiresleep pid (b_lock (bufs c b0))") (simp_all add: bread_def cached(3) lock_buf_def)
    let ?x = "(bufs c b0)\<lparr>b_refcnt := b_refcnt (bufs c b0) + 1, b_lock := lk\<rparr>"
    define x' where "x' = (if b_valid (bufs c b0) then ?x else ?x\<lparr>b_data := disk c dev bno, b_valid := True\<rparr>)"
    have bg: "bget pid dev bno c = Some (Inr (b0, c\<lparr>bufs := (bufs c)(b0 := ?x)\<rparr>))"
      by (simp add: cached(3) lock_buf_def lk upd_buf_def)
    have "b = b0 \<and> c' = c\<lparr>bufs := (bufs c)(b0 := x')\<rparr>"
    proof (cases "b_valid (bufs c b0)")
      case True
      then show ?thesis using r by (auto simp: bread_def bg x'_def)
    next
      case False
      then show ?thesis using r by (auto simp: bread_def bg virtio_disk_rw_def upd_buf_def kb x'_def)
    qed
    then have b: "b = b0" "c' = c\<lparr>bufs := (bufs c)(b0 := x')\<rparr>" by blast+
    have f: "b_dev x' = dev" "b_blockno x' = bno" "b_valid x'" "holdingsleep pid (b_lock x')"
        "b_data x' = view c dev bno" "b_refcnt x' = b_refcnt (bufs c b0) + 1"
      using kb vc vn acquiresleep_holding [OF lk] by (simp_all add: x'_def)
    have "b_refcnt x' \<noteq> 0" using f(6) r0 by simp
    moreover have "b_refcnt x' = (if \<exists>a \<in> bptrs. key c a = (dev, bno) then b_refcnt (bufs c b0) + 1 else 1)"
      using f(6) ex by (simp only: if_True)
    ultimately show ?thesis unfolding b(1) using cached(1,2) u b(2) f(1-5) by blast
  next
    case (recycled b0)
    have ex: "\<not> (\<exists>a \<in> bptrs. key c a = (dev, bno))" using recycled(1) by blast
    have vn: "view c dev bno = disk c dev bno" using recycled(1) by (intro vun) auto
    obtain lk where lk: "acquiresleep pid (b_lock (bufs c b0)) = Inr lk"
      using r by (cases "acquiresleep pid (b_lock (bufs c b0))") (simp_all add: bread_def recycled(4) lock_buf_def)
    let ?x = "(bufs c b0)\<lparr>b_dev := dev, b_blockno := bno, b_valid := False, b_refcnt := 1, b_lock := lk,
      b_data := disk c dev bno, b_valid := True\<rparr>"
    have "b = b0 \<and> c' = c\<lparr>bufs := (bufs c)(b0 := ?x)\<rparr>"
      using r lk by (auto simp: bread_def recycled(4) lock_buf_def virtio_disk_rw_def upd_buf_def Let_def split: if_splits)
    then show ?thesis using recycled(1-3) ex vn acquiresleep_holding [OF lk] by (intro exI [of _ ?x]) simp
  next
    case full
    then show ?thesis using r by (simp add: bread_def)
  qed
  then obtain x where x: "b \<in> bptrs" "c' = c\<lparr>bufs := (bufs c)(b := x)\<rparr>" "b_dev x = dev" "b_blockno x = bno" "b_valid x"
     "holdingsleep pid (b_lock x)" "b_data x = view c dev bno" "b_refcnt x \<noteq> 0"
     "key c b \<noteq> (dev, bno) \<longrightarrow> b_refcnt (bufs c b) = 0" "\<forall>a \<in> bptrs. key c a = (dev, bno) \<longrightarrow> a = b"
     "b_refcnt x = (if \<exists>a \<in> bptrs. key c a = (dev, bno) then b_refcnt (bufs c b) + 1 else 1)" by blast
  note ib = install_buf [OF inv x(1) dev _ x(3,4,5,8,7) _ x(2)]
  show "bcache_inv c'" using ib(1) x(9,10) by blast
  show "\<And>d n. d \<noteq> 0 \<Longrightarrow> view c' d n = view c d n" using ib(2) x(9,10) by blast
  show "held pid c' b dev bno" "b_data (bufs c' b) = view c dev bno" "disk c' = disk c"
    "\<And>a. a \<noteq> b \<Longrightarrow> bufs c' a = bufs c a"
    using x(1-7) by (simp_all add: held_def key_def)
  have "bufs c' b = x" by (simp add: x(2))
  then show "b_refcnt (bufs c' b) = (if \<exists>a \<in> bptrs. key c a = (dev, bno) then b_refcnt (bufs c b) + 1 else 1)"
    by (simp only: x(11))
  show "key c b \<noteq> (dev, bno) \<Longrightarrow> b_refcnt (bufs c b) = 0" using x(9) by blast
qed


text \<open>What the holder of a buffer does between \<^verbatim>\<open>bread\<close> and \<^verbatim>\<open>brelse\<close>: change its bytes.\<close>

definition set_data :: "nat \<Rightarrow> u8 list \<Rightarrow> bcache \<Rightarrow> bcache" where
  "set_data b d c = upd_buf b (\<lambda>x. x\<lparr>b_data := d\<rparr>) c"

lemma held_ref: "bcache_inv c \<Longrightarrow> held pid c b dev bno \<Longrightarrow> b_refcnt (bufs c b) \<noteq> 0"
  by (auto simp: bcache_inv_def held_def holdingsleep_def)

text \<open>Changing fields other than the key of one buffer, or the disk, keeps the invariant if \<open>b\<close> stays coherent.\<close>

lemma bcache_inv_upd:
  assumes inv: "bcache_inv c" and b: "b \<in> bptrs" and c': "bufs c' = (bufs c)(b := x)" "links c' = links c"
    and x: "b_dev x = b_dev (bufs c b)" "b_blockno x = b_blockno (bufs c b)" "sl_locked (b_lock x) \<Longrightarrow> b_refcnt x \<noteq> 0"
    and coh: "b_valid x \<Longrightarrow> b_refcnt x = 0 \<Longrightarrow> b_data x = disk c' (b_dev x) (b_blockno x)"
    and dk: "\<And>a. a \<in> bptrs \<Longrightarrow> a \<noteq> b \<Longrightarrow> b_valid (bufs c a) \<Longrightarrow> b_refcnt (bufs c a) = 0 \<Longrightarrow>
       disk c' (b_dev (bufs c a)) (b_blockno (bufs c a)) = disk c (b_dev (bufs c a)) (b_blockno (bufs c a))"
  shows "bcache_inv c'"
proof -
  have k: "key c' a = key c a" for a by (simp add: key_def c' x)
  show ?thesis
    unfolding bcache_inv_def k c'(2)
  proof (intro conjI ballI impI)
    show "\<exists>bs. dll (links c) bc_head bs \<and> set bs = bptrs" using inv by (simp add: bcache_inv_def)
    show "a = a'" if "a \<in> bptrs" "a' \<in> bptrs" "key c a = key c a'" "fst (key c a) \<noteq> 0" for a a'
      using that inv unfolding bcache_inv_def by blast
    show "b_refcnt (bufs c' a) \<noteq> 0" if "a \<in> bptrs" "sl_locked (b_lock (bufs c' a))" for a
      using that inv x(3) by (cases "a = b") (auto simp: c' bcache_inv_def)
    show "b_data (bufs c' a) = disk c' (b_dev (bufs c' a)) (b_blockno (bufs c' a))"
      if "a \<in> bptrs" "b_valid (bufs c' a)" "b_refcnt (bufs c' a) = 0" for a
      using that inv coh dk [of a] by (cases "a = b") (auto simp: c' bcache_inv_def)
  qed
qed

lemma held_frame:
  "held pid c b dev bno \<Longrightarrow> a \<noteq> b \<Longrightarrow> bufs c' b = bufs c b \<Longrightarrow> held pid c' b dev bno"
  by (simp add: held_def key_def)

lemma set_data_spec:
  assumes inv: "bcache_inv c" and h: "held pid c b dev bno" and dev: "dev \<noteq> 0"
  shows "bcache_inv (set_data b d c)" "held pid (set_data b d c) b dev bno"
    "d' \<noteq> 0 \<Longrightarrow> view (set_data b d c) d' n = (if d' = dev \<and> n = bno then d else view c d' n)"
    "disk (set_data b d c) = disk c"
proof -
  have b: "b \<in> bptrs" "key c b = (dev, bno)" "b_valid (bufs c b)" using h by (auto simp: held_def)
  show inv': "bcache_inv (set_data b d c)"
    using inv held_ref [OF inv h]
    by (intro bcache_inv_upd [OF inv b(1), where x = "(bufs c b)\<lparr>b_data := d\<rparr>"]) (auto simp: set_data_def bcache_inv_def)
  show h': "held pid (set_data b d c) b dev bno" using h by (simp add: held_def set_data_def key_def)
  show "disk (set_data b d c) = disk c" by (simp add: set_data_def)
  show "view (set_data b d c) d' n = (if d' = dev \<and> n = bno then d else view c d' n)" if d': "d' \<noteq> 0"
  proof (cases "d' = dev \<and> n = bno")
    case True
    then show ?thesis using view_cached [OF inv' b(1), of dev bno] h' dev by (auto simp: held_def set_data_def)
  next
    case False
    show ?thesis
    proof (cases "\<exists>a \<in> bptrs. key c a = (d', n) \<and> b_valid (bufs c a)")
      case True
      then obtain a where a: "a \<in> bptrs" "key c a = (d', n)" "b_valid (bufs c a)" by blast
      then have ne: "a \<noteq> b" using b(2) False by auto
      then have "key (set_data b d c) a = (d', n)" "b_valid (bufs (set_data b d c) a)" "bufs (set_data b d c) a = bufs c a"
        using a by (auto simp: set_data_def key_def)
      then show ?thesis using view_cached [OF inv a d'] view_cached [OF inv' a(1) _ _ d'] False by auto
    next
      case none: False
      then have "view c d' n = disk c d' n" by (intro view_uncached) auto
      moreover have "view (set_data b d c) d' n = disk c d' n"
        using none b(2) False by (subst view_uncached) (auto simp: set_data_def key_def)
      ultimately show ?thesis using False by auto
    qed
  qed
qed


lemma bwrite_spec:
  assumes inv: "bcache_inv c" and h: "held pid c b dev bno" and dev: "dev \<noteq> 0"
  shows "\<exists>c'. bwrite pid b c = Inr c' \<and> bcache_inv c' \<and> held pid c' b dev bno \<and> bufs c' = bufs c \<and> links c' = links c \<and>
    disk c' = (disk c)(dev := (disk c dev)(bno := view c dev bno)) \<and> (\<forall>d n. d \<noteq> 0 \<longrightarrow> view c' d n = view c d n)"
proof -
  have b: "b \<in> bptrs" "key c b = (dev, bno)" "b_valid (bufs c b)" and hl: "holdingsleep pid (b_lock (bufs c b))"
    using h by (auto simp: held_def)
  have kb: "b_dev (bufs c b) = dev" "b_blockno (bufs c b) = bno" using b(2) by (auto simp: key_def)
  have v: "view c dev bno = b_data (bufs c b)" by (rule view_cached [OF inv b dev])
  let ?c = "c\<lparr>disk := (disk c)(dev := (disk c dev)(bno := b_data (bufs c b)))\<rparr>"
  have bw: "bwrite pid b c = Inr ?c" using hl by (simp add: bwrite_def virtio_disk_rw_def kb Let_def)
  have inv': "bcache_inv ?c"
  proof (rule bcache_inv_upd [OF inv b(1), where x = "bufs c b"])
    show "sl_locked (b_lock (bufs c b)) \<Longrightarrow> b_refcnt (bufs c b) \<noteq> 0" using held_ref [OF inv h] by simp
    show "disk ?c (b_dev (bufs c a)) (b_blockno (bufs c a)) = disk c (b_dev (bufs c a)) (b_blockno (bufs c a))"
      if "a \<in> bptrs" "a \<noteq> b" for a
    proof -
      have "key c a \<noteq> (dev, bno)" using inv b that dev unfolding bcache_inv_def by (metis fst_conv)
      then show ?thesis by (auto simp: key_def)
    qed
  qed (simp_all add: kb)
  have h': "held pid ?c b dev bno" using h by (simp add: held_def key_def)
  have "view ?c d n = view c d n" if d: "d \<noteq> 0" for d n
  proof (cases "d = dev \<and> n = bno")
    case True
    then show ?thesis using view_cached [OF inv' b(1) _ _ dev, of bno] b v by (auto simp: key_def)
  next
    case False
    show ?thesis
    proof (cases "\<exists>a \<in> bptrs. key c a = (d, n) \<and> b_valid (bufs c a)")
      case True
      then obtain a where a: "a \<in> bptrs" "key c a = (d, n)" "b_valid (bufs c a)" by blast
      then show ?thesis using view_cached [OF inv a d] view_cached [OF inv' a(1) _ _ d, of n] by (auto simp: key_def)
    next
      case none: False
      then show ?thesis using False by (subst (1 2) view_uncached) (auto simp: key_def)
    qed
  qed
  then show ?thesis using bw inv' h' v by auto
qed

text \<open>Releasing puts an unreferenced buffer at the front of the list and changes nothing else.\<close>

lemma link_front_add: "b \<noteq> bc_head \<Longrightarrow> nxt (h bc_head) \<noteq> b \<Longrightarrow> link_front b h = list_add b bc_head h"
  by (rule ext) (auto simp: link_front_def list_add_def uu_list_add_def link_defs Let_def)

lemma bio_first: "dll h head xs \<Longrightarrow> nxt (h head) = hd (xs @ [head])"
  by (cases xs) (auto simp: dll_def)

lemma link_front_dll:
  assumes "dll h bc_head xs" "b \<noteq> bc_head" "b \<notin> set xs"
  shows "dll (link_front b h) bc_head (b # xs)"
proof -
  have "nxt (h bc_head) \<noteq> b" using bio_first [OF assms(1)] assms(2,3) by (cases xs) auto
  then show ?thesis using dll_add [OF assms(1)] assms(2,3) by (simp add: link_front_add)
qed

lemma relink_front:
  assumes "dll h bc_head (xs @ b # ys)" "h1 = set_prev (nxt (h b)) (prv (h b)) h"
  shows "dll (link_front b (set_next (prv (h1 b)) (nxt (h1 b)) h1)) bc_head (b # xs @ ys)"
proof -
  have b: "b \<noteq> bc_head" "b \<notin> set (xs @ ys)" using assms(1) by (auto simp: dll_def)
  have "nxt (h b) \<noteq> b" using dll_neighbours [OF assms(1)] b by (cases ys) auto
  then have "h1 b = h b" by (simp add: assms(2) link_defs)
  then have "set_next (prv (h1 b)) (nxt (h1 b)) h1 = uu_list_del_entry b h"
    by (simp add: uu_list_del_entry_def uu_list_del_def assms(2))
  then show ?thesis using link_front_dll [OF dll_unlink [OF assms(1)] b] by simp
qed

lemma bcache_inv_links: "bcache_inv c \<Longrightarrow> dll l bc_head bs \<Longrightarrow> set bs = bptrs \<Longrightarrow> bcache_inv (c\<lparr>links := l\<rparr>)"
  unfolding bcache_inv_def key_def by auto

lemma brelse_spec:
  assumes inv: "bcache_inv c" and h: "held pid c b dev bno" and dev: "dev \<noteq> 0"
    and coh: "b_refcnt (bufs c b) = 1 \<Longrightarrow> view c dev bno = disk c dev bno"
  shows "\<exists>c'. brelse pid b c = Inr c' \<and> bcache_inv c' \<and> disk c' = disk c \<and>
    (\<forall>d n. d \<noteq> 0 \<longrightarrow> view c' d n = view c d n) \<and> (\<forall>a. a \<noteq> b \<longrightarrow> bufs c' a = bufs c a) \<and>
    bufs c' b = (bufs c b)\<lparr>b_lock := releasesleep (b_lock (bufs c b)), b_refcnt := b_refcnt (bufs c b) - 1\<rparr> \<and>
    (\<forall>bs. dll (links c) bc_head bs \<longrightarrow>
       dll (links c') bc_head (if b_refcnt (bufs c b) = 1 then b # remove1 b bs else bs))"
proof -
  have b: "b \<in> bptrs" "key c b = (dev, bno)" "b_valid (bufs c b)" and hl: "holdingsleep pid (b_lock (bufs c b))"
    using h by (auto simp: held_def)
  let ?x = "(bufs c b)\<lparr>b_lock := releasesleep (b_lock (bufs c b)), b_refcnt := b_refcnt (bufs c b) - 1\<rparr>"
  let ?c = "c\<lparr>bufs := (bufs c)(b := ?x)\<rparr>"
  have kb: "b_dev (bufs c b) = dev" "b_blockno (bufs c b) = bno" using b(2) by (auto simp: key_def)
  have v: "view c dev bno = b_data (bufs c b)" by (rule view_cached [OF inv b dev])
  have one: "b_refcnt (bufs c b) - 1 = 0 \<longleftrightarrow> b_refcnt (bufs c b) = 1" by (metis eq_iff_diff_eq_0)
  have inv1: "bcache_inv ?c"
    using inv v coh kb one
    by (intro bcache_inv_upd [OF inv b(1), where x = ?x]) (auto simp: bcache_inv_def)
  have vw: "view ?c d n = view c d n" if "d \<noteq> 0" for d n
    by (rule view_cong [OF _ _ inv that]) (auto simp: key_def)
  show ?thesis
  proof (cases "b_refcnt (bufs c b) = 1")
    case False
    then have "brelse pid b c = Inr ?c" using hl one by (simp add: brelse_def upd_buf_def Let_def)
    then show ?thesis using inv1 vw False by auto
  next
    case True
    let ?h = "links c"
    let ?h1 = "set_prev (nxt (?h b)) (prv (?h b)) ?h"
    let ?l = "link_front b (set_next (prv (?h1 b)) (nxt (?h1 b)) ?h1)"
    have br: "brelse pid b c = Inr (?c\<lparr>links := ?l\<rparr>)" using hl True by (simp add: brelse_def upd_buf_def Let_def)
    have dl: "dll ?l bc_head (b # remove1 b bs)" if d: "dll ?h bc_head bs" and "b \<in> set bs" for bs
    proof -
      from that(2) obtain xs ys where bs: "bs = xs @ b # ys" "b \<notin> set xs" by (meson split_list_first)
      then show ?thesis using relink_front [OF _ refl, of ?h xs b ys] d by (simp add: remove1_append)
    qed
    obtain bs where bs: "dll ?h bc_head bs" "set bs = bptrs" "distinct bs" using bcache_list [OF inv] by metis
    have uniq: "bs' = bs" if "dll ?h bc_head bs'" for bs'
      using list_for_each_dll [OF that, of "Suc (max (length bs) (length bs'))"]
        list_for_each_dll [OF bs(1), of "Suc (max (length bs) (length bs'))"] by simp
    have "dll ?l bc_head (b # remove1 b bs)" "set (b # remove1 b bs) = bptrs"
      using dl [OF bs(1)] bs b(1) by auto
    then have inv2: "bcache_inv (?c\<lparr>links := ?l\<rparr>)" by (rule bcache_inv_links [OF inv1])
    have vw2: "view (?c\<lparr>links := ?l\<rparr>) d n = view c d n" if "d \<noteq> 0" for d n
      by (rule view_cong [OF _ _ inv that]) (auto simp: key_def)
    have dl2: "dll ?l bc_head (b # remove1 b bs')" if "dll ?h bc_head bs'" for bs'
      using dl [OF that] uniq [OF that] bs(2) b(1) by simp
    show ?thesis
      unfolding br using inv2 vw2 dl2 True by (intro exI [of _ "?c\<lparr>links := ?l\<rparr>"] conjI allI impI) simp_all
  qed
qed


lemma bpin_spec:
  assumes inv: "bcache_inv c" and h: "held pid c b dev bno" and r: "b_refcnt (bufs c b) + 1 \<noteq> 0"
  shows "bcache_inv (bpin b c)" "held pid (bpin b c) b dev bno" "d \<noteq> 0 \<Longrightarrow> view (bpin b c) d n = view c d n"
    "disk (bpin b c) = disk c" "b_refcnt (bufs (bpin b c) b) = b_refcnt (bufs c b) + 1"
proof -
  have b: "b \<in> bptrs" using h by (simp add: held_def)
  show "bcache_inv (bpin b c)"
    by (rule bcache_inv_upd [OF inv b, where x = "(bufs c b)\<lparr>b_refcnt := b_refcnt (bufs c b) + 1\<rparr>"])
      (use r in \<open>simp_all add: bpin_def\<close>)
  show "held pid (bpin b c) b dev bno" "disk (bpin b c) = disk c" "b_refcnt (bufs (bpin b c) b) = b_refcnt (bufs c b) + 1"
    using h by (simp_all add: bpin_def held_def key_def)
  show "d \<noteq> 0 \<Longrightarrow> view (bpin b c) d n = view c d n"
    by (rule view_cong [OF _ _ inv]) (auto simp: bpin_def key_def)
qed

section \<open>Initialisation\<close>

lemma binit_loop_spec:
  "dll (links c) bc_head xs \<Longrightarrow> distinct is \<Longrightarrow> set xs \<inter> buf_ptr ` set is = {} \<Longrightarrow>
     dll (links (binit_loop is c)) bc_head (rev (map buf_ptr is) @ xs) \<and> disk (binit_loop is c) = disk c \<and>
     (\<forall>a. bufs (binit_loop is c) a = (if a \<in> buf_ptr ` set is then (bufs c a)\<lparr>b_lock := initsleeplock\<rparr> else bufs c a))"
proof (induction "is" arbitrary: c xs)
  case (Cons i "is")
  let ?c = "upd_buf (buf_ptr i) (\<lambda>b. b\<lparr>b_lock := initsleeplock\<rparr>) (c\<lparr>links := link_front (buf_ptr i) (links c)\<rparr>)"
  have ne: "buf_ptr i \<noteq> bc_head" "inj buf_ptr" by (auto simp: buf_ptr_def bc_head_def inj_def)
  have d: "dll (links ?c) bc_head (buf_ptr i # xs)" using link_front_dll [OF Cons.prems(1)] ne Cons.prems(3) by auto
  have dj: "set (buf_ptr i # xs) \<inter> buf_ptr ` set is = {}" using Cons.prems(2,3) ne(2) by (auto dest: injD)
  have IH: "dll (links (binit_loop is ?c)) bc_head (rev (map buf_ptr is) @ buf_ptr i # xs)" "disk (binit_loop is ?c) = disk ?c"
    "\<And>a. bufs (binit_loop is ?c) a = (if a \<in> buf_ptr ` set is then (bufs ?c a)\<lparr>b_lock := initsleeplock\<rparr> else bufs ?c a)"
    using Cons.IH [OF d _ dj] Cons.prems(2) by auto
  have ni: "buf_ptr i \<notin> buf_ptr ` set is" using Cons.prems(2) ne(2) by (auto dest: injD)
  have "bufs (binit_loop is ?c) a = (if a \<in> buf_ptr ` set (i # is) then (bufs c a)\<lparr>b_lock := initsleeplock\<rparr> else bufs c a)" for a
    using IH(3) [of a] ni by auto
  then show ?case using IH(1,2) by (simp add: Let_def)
qed simp

lemma binit_bufs:
  "bufs (binit c) a = (if a \<in> bptrs then (bufs c a)\<lparr>b_lock := initsleeplock\<rparr> else bufs c a)"
proof -
  have "dll (links (c\<lparr>links := INIT_LIST_HEAD bc_head (links c)\<rparr>)) bc_head []" by (simp add: dll_init)
  from binit_loop_spec [OF this, of "[0..<NBUF]"] show ?thesis by (simp add: binit_def bptrs_def atLeast0LessThan)
qed

lemma binit_inv:
  assumes "\<And>a. \<not> b_valid (bufs c a)" "\<And>a. b_dev (bufs c a) = 0"
  shows "bcache_inv (binit c)" "d \<noteq> 0 \<Longrightarrow> view (binit c) d n = disk c d n"
proof -
  let ?c = "c\<lparr>links := INIT_LIST_HEAD bc_head (links c)\<rparr>"
  have d: "dll (links ?c) bc_head []" by (simp add: dll_init)
  have bl: "dll (links (binit_loop [0..<NBUF] ?c)) bc_head (rev (map buf_ptr [0..<NBUF]))" "disk (binit_loop [0..<NBUF] ?c) = disk c"
    "\<And>a. bufs (binit_loop [0..<NBUF] ?c) a = (if a \<in> buf_ptr ` set [0..<NBUF] then (bufs c a)\<lparr>b_lock := initsleeplock\<rparr> else bufs c a)"
    using binit_loop_spec [OF d, of "[0..<NBUF]"] by auto
  have ls: "set (rev (map buf_ptr [0..<NBUF])) = bptrs" by (auto simp: bptrs_def)
  have bf: "b_valid (bufs (binit c) a) = False" "b_dev (bufs (binit c) a) = 0"
    "a \<in> bptrs \<Longrightarrow> \<not> sl_locked (b_lock (bufs (binit c) a))" for a
    using bl(3) assms by (auto simp: binit_def bptrs_def initsleeplock_def atLeast0LessThan)
  have k: "fst (key (binit c) a) = 0" for a by (simp add: key_def bf(2))
  have "\<exists>bs. dll (links (binit c)) bc_head bs \<and> set bs = bptrs"
    using bl(1) ls unfolding binit_def by metis
  then show "bcache_inv (binit c)" unfolding bcache_inv_def k by (simp add: bf)
  show "view (binit c) d n = disk c d n" if "d \<noteq> 0"
    using bl(2) bf by (subst view_uncached) (auto simp: binit_def)
qed

section \<open>Correctness\<close>

lemma bread_lock:
  assumes "bget pid dev bno c = Some (lock_buf pid b c0)"
  shows "bread pid dev bno c \<noteq> None" "bread pid dev bno c = Some (Inl e) \<Longrightarrow> lock_buf pid b c0 = Inl e"
  using assms by (cases "lock_buf pid b c0"; simp add: bread_def split: prod.splits if_splits)+

lemma bread_total:
  assumes "bcache_inv c" "\<And>b. b \<in> bptrs \<Longrightarrow> key c b = (dev, bno) \<Longrightarrow> \<not> sl_locked (b_lock (bufs c b))"
    "\<exists>b \<in> bptrs. key c b = (dev, bno) \<or> b_refcnt (bufs c b) = 0"
  shows "\<exists>b c'. bread pid dev bno c = Some (Inr (b, c'))"
proof -
  have rb: "\<exists>b c'. bread pid dev bno c = Some (Inr (b, c'))" if "bget pid dev bno c = Some (lock_buf pid b c0)"
    "\<not> sl_locked (b_lock (bufs c0 b))" for b c0
    using that by (simp add: bread_def lock_buf_def acquiresleep_def)
  from assms(1) show ?thesis
  proof (cases rule: bget_cases [where dev = dev and bno = bno and pid = pid])
    case (cached b)
    show ?thesis using assms(2) [OF cached(1,2)] by (intro rb [OF cached(3)]) simp
  next
    case (recycled b)
    have "\<not> sl_locked (b_lock (bufs c b))" using assms(1) recycled(2,3) by (auto simp: bcache_inv_def)
    then show ?thesis by (intro rb [OF recycled(4)]) simp
  next
    case full
    then show ?thesis using assms(3) by blast
  qed
qed

text \<open>
  C15: \<^verbatim>\<open>bread\<close> of a block of a device other than 0. The scans of the cache always end. The call
  either returns a buffer locked by the caller that holds exactly the current contents of the
  block, without changing what any block reads as or the disk, and without caching any block
  twice; or it panics, which happens only if the block is not cached and every buffer is
  referenced; or it sleeps on a cached buffer that is locked.
\<close>

theorem bread_correct:
  assumes "bcache_inv c" "dev \<noteq> 0" "refs_bounded c"
  shows "case bread pid dev bno c of
      None \<Rightarrow> False
    | Some (Inr (b, c')) \<Rightarrow> bcache_inv c' \<and> held pid c' b dev bno \<and> b_data (bufs c' b) = view c dev bno \<and>
        disk c' = disk c \<and> (\<forall>d n. d \<noteq> 0 \<longrightarrow> view c' d n = view c d n)
    | Some (Inl e) \<Rightarrow> (e = Panic ''bget: no buffers'' \<and> (\<forall>b \<in> bptrs. key c b \<noteq> (dev, bno) \<and> b_refcnt (bufs c b) \<noteq> 0)) \<or>
        (e = Blocked \<and> (\<exists>b \<in> bptrs. sl_locked (b_lock (bufs c b))))"
proof (cases "bread pid dev bno c")
  case None
  from assms(1) show ?thesis
  proof (cases rule: bget_cases [where dev = dev and bno = bno and pid = pid])
    case (cached b)
    show ?thesis using bread_lock(1) [OF cached(3)] None by simp
  next
    case (recycled b)
    show ?thesis using bread_lock(1) [OF recycled(4)] None by simp
  next
    case full
    show ?thesis using None by (simp add: bread_def full(3))
  qed
next
  case (Some r)
  show ?thesis
  proof (cases r)
    case (Inr bc)
    obtain b c' where bc: "bc = (b, c')" by (cases bc)
    have "\<forall>b \<in> bptrs. key c b = (dev, bno) \<longrightarrow> b_refcnt (bufs c b) + 1 \<noteq> 0" using assms(3) by (simp add: refs_bounded_def)
    note sp = bread_spec [OF assms(1,2) this, of pid b c']
    show ?thesis using Some Inr bc sp by simp
  next
    case (Inl e)
    have lb: "e = Blocked \<and> sl_locked (b_lock (bufs c b))"
      if "lock_buf pid b (upd_buf b f c) = Inl e" "b_lock (f (bufs c b)) = b_lock (bufs c b)" for b f
      using that by (cases "sl_locked (b_lock (bufs c b))") (simp_all add: lock_buf_def acquiresleep_def)
    from assms(1) show ?thesis
    proof (cases rule: bget_cases [where dev = dev and bno = bno and pid = pid])
      case (cached b)
      have "lock_buf pid b (upd_buf b (\<lambda>x. x\<lparr>b_refcnt := b_refcnt x + 1\<rparr>) c) = Inl e"
        using Some Inl by (intro bread_lock(2) [OF cached(3)]) simp
      from lb [OF this] show ?thesis using Some Inl cached(1) by auto
    next
      case (recycled b)
      have "lock_buf pid b (upd_buf b (\<lambda>x. x\<lparr>b_dev := dev, b_blockno := bno, b_valid := False, b_refcnt := 1\<rparr>) c) = Inl e"
        using Some Inl by (intro bread_lock(2) [OF recycled(4)]) simp
      from lb [OF this] show ?thesis using Some Inl recycled(2) by auto
    next
      case full
      show ?thesis using Some Inl full by (simp add: bread_def)
    qed
  qed
qed

definition zero_bcache :: bcache where
  "zero_bcache = \<lparr>bufs = \<lambda>_. \<lparr>b_valid = False, b_dev = 0, b_blockno = 0, b_lock = initsleeplock, b_refcnt = 0, b_data = []\<rparr>,
     links = \<lambda>_. \<lparr>nxt = 0, prv = 0\<rparr>, disk = \<lambda>d n. if n = 5 then [7, 7] else []\<rparr>"

lemma zero_bufs:
  "b_dev (bufs (binit zero_bcache) a) = 0" "b_refcnt (bufs (binit zero_bcache) a) = 0"
  "a \<in> bptrs \<Longrightarrow> \<not> sl_locked (b_lock (bufs (binit zero_bcache) a))"
  by (simp_all add: binit_bufs zero_bcache_def initsleeplock_def)

lemma zero_binit: "bcache_inv (binit zero_bcache)" "refs_bounded (binit zero_bcache)" "view (binit zero_bcache) 1 n = disk zero_bcache 1 n"
proof -
  show "bcache_inv (binit zero_bcache)" "view (binit zero_bcache) 1 n = disk zero_bcache 1 n"
    using binit_inv [of zero_bcache] by (simp_all add: zero_bcache_def)
  show "refs_bounded (binit zero_bcache)" by (simp add: refs_bounded_def zero_bufs)
qed

theorem bread_correct_witness:
  "case bread 3 1 5 (binit zero_bcache) of Some (Inr (b, c')) \<Rightarrow> b_data (bufs c' b) = [7, 7] | _ \<Rightarrow> True"
proof -
  have "view (binit zero_bcache) 1 5 = [7, 7]" unfolding zero_binit(3) by (simp add: zero_bcache_def)
  then show ?thesis
    using bread_correct [OF zero_binit(1) _ zero_binit(2), where dev = 1 and bno = 5 and pid = 3]
    by (auto split: option.splits sum.splits)
qed

text \<open>
  C16: changing a block through the cache. After reading a block, replacing its bytes, \<^verbatim>\<open>bwrite\<close> and
  \<^verbatim>\<open>brelse\<close>, the block has the new bytes both on disk and for later readers, every other block is
  unchanged, and the cache invariant holds; an unreferenced buffer ends at the front of the
  least-recently-used list.
\<close>

theorem block_update_correct:
  assumes "bcache_inv c" "dev \<noteq> 0" "refs_bounded c" "bread pid dev bno c = Some (Inr (b, c1))"
  shows "\<exists>c2 c3. bwrite pid b (set_data b d c1) = Inr c2 \<and> brelse pid b c2 = Inr c3 \<and> bcache_inv c3 \<and>
    disk c3 = (disk c)(dev := (disk c dev)(bno := d)) \<and>
    (\<forall>d' n. d' \<noteq> 0 \<longrightarrow> view c3 d' n = (if d' = dev \<and> n = bno then d else view c d' n)) \<and>
    (b_refcnt (bufs c1 b) = 1 \<longrightarrow> nxt (links c3 bc_head) = b)"
proof -
  have "\<forall>b \<in> bptrs. key c b = (dev, bno) \<longrightarrow> b_refcnt (bufs c b) + 1 \<noteq> 0" using assms(3) by (simp add: refs_bounded_def)
  note r = bread_spec [OF assms(1,2) this assms(4)]
  note sd = set_data_spec [OF r(1,2) assms(2), where d = d]
  obtain c2 where c2: "bwrite pid b (set_data b d c1) = Inr c2" "bcache_inv c2" "held pid c2 b dev bno" "bufs c2 = bufs (set_data b d c1)"
    "disk c2 = (disk (set_data b d c1))(dev := (disk (set_data b d c1) dev)(bno := view (set_data b d c1) dev bno))"
    "\<forall>d' n. d' \<noteq> 0 \<longrightarrow> view c2 d' n = view (set_data b d c1) d' n"
    using bwrite_spec [OF sd(1,2) assms(2)] by blast
  have v: "view (set_data b d c1) dev bno = d" using sd(3) [OF assms(2), of bno] by simp
  have dk: "disk c2 = (disk c)(dev := (disk c dev)(bno := d))" using c2(5) sd(4) r(4) v by simp
  have "view c2 dev bno = disk c2 dev bno" using c2(6) assms(2) v dk by simp
  then obtain c3 where c3: "brelse pid b c2 = Inr c3" "bcache_inv c3" "disk c3 = disk c2" "\<forall>d' n. d' \<noteq> 0 \<longrightarrow> view c3 d' n = view c2 d' n"
    "\<forall>bs. dll (links c2) bc_head bs \<longrightarrow> dll (links c3) bc_head (if b_refcnt (bufs c2 b) = 1 then b # remove1 b bs else bs)"
    using brelse_spec [OF c2(2,3) assms(2)] by blast
  have "nxt (links c3 bc_head) = b" if "b_refcnt (bufs c1 b) = 1"
  proof -
    obtain bs where "dll (links c2) bc_head bs" using c2(2) by (auto simp: bcache_inv_def)
    moreover have "b_refcnt (bufs c2 b) = 1" using c2(4) that by (simp add: set_data_def)
    ultimately show ?thesis using c3(5) bio_first by fastforce
  qed
  moreover have "view c3 d' n = (if d' = dev \<and> n = bno then d else view c d' n)" if "d' \<noteq> 0" for d' n
    using c3(4) c2(6) sd(3) [OF that, of n] r(5) [OF that, of n] that by simp
  ultimately show ?thesis using c2(1) c3(1-3) dk by (intro exI [of _ c2] exI [of _ c3] conjI) simp_all
qed

lemma zero_bread: obtains b c1 where "bread 3 1 5 (binit zero_bcache) = Some (Inr (b, c1))"
proof -
  have "buf_ptr 0 \<in> bptrs" by (simp add: bptrs_def NBUF_def)
  then show thesis using bread_total [OF zero_binit(1), of 1 5 3] zero_bufs that by blast
qed

theorem block_update_correct_witness:
  "\<exists>b c1 c2 c3. bread 3 1 5 (binit zero_bcache) = Some (Inr (b, c1)) \<and> bwrite 3 b (set_data b [1] c1) = Inr c2 \<and>
     brelse 3 b c2 = Inr c3 \<and> view c3 1 5 = [1]"
proof -
  obtain b c1 where r: "bread 3 1 5 (binit zero_bcache) = Some (Inr (b, c1))" by (rule zero_bread)
  obtain c2 c3 where "bwrite 3 b (set_data b [1] c1) = Inr c2" "brelse 3 b c2 = Inr c3" "view c3 1 5 = [1]"
    using block_update_correct [OF zero_binit(1) _ zero_binit(2) r, of "[1]"] by auto
  then show ?thesis using r by (intro exI conjI)
qed

end
