(* ===== verification/Bcache_abs.thy ===== *)
theory Bcache_abs
  imports Bio
begin

text \<open>
  The abstract block cache the file system layers are written against, the locale \<open>block_cache\<close> that
  states its interface, and the interpretation by the operations of theory Bio. An abstract state
  says what each block reads as, what the disk holds, how often each block is referenced, which
  blocks are locked and how many buffers are free; each operation changes it by one equation.
  Device 0 does not exist and is left out.
\<close>

type_synonym blk = "u32 \<times> u32"

record acache =
  a_view :: "blk \<Rightarrow> u8 list"
  a_disk :: "blk \<Rightarrow> u8 list"
  a_refs :: "blk \<Rightarrow> nat"
  a_lock :: "blk set"
  a_free :: nat

section \<open>The abstract operations\<close>

definition sp_bread :: "blk \<Rightarrow> acache \<Rightarrow> acache" where
  "sp_bread k A = A\<lparr>a_refs := (a_refs A)(k := a_refs A k + 1), a_lock := insert k (a_lock A),
     a_free := (if a_refs A k = 0 then a_free A - 1 else a_free A)\<rparr>"

definition sp_set :: "blk \<Rightarrow> u8 list \<Rightarrow> acache \<Rightarrow> acache" where
  "sp_set k d A = A\<lparr>a_view := (a_view A)(k := d)\<rparr>"

definition sp_bwrite :: "blk \<Rightarrow> acache \<Rightarrow> acache" where
  "sp_bwrite k A = A\<lparr>a_disk := (a_disk A)(k := a_view A k)\<rparr>"

definition sp_brelse :: "blk \<Rightarrow> acache \<Rightarrow> acache" where
  "sp_brelse k A = A\<lparr>a_refs := (a_refs A)(k := a_refs A k - 1), a_lock := a_lock A - {k},
     a_free := (if a_refs A k = 1 then a_free A + 1 else a_free A)\<rparr>"

definition sp_ref :: "blk \<Rightarrow> nat \<Rightarrow> acache \<Rightarrow> acache" where
  "sp_ref k r A = A\<lparr>a_refs := (a_refs A)(k := r)\<rparr>"

lemma sp_bread_swap: "s \<noteq> t \<Longrightarrow> sp_bread s (sp_bread t A) = sp_bread t (sp_bread s A)"
  by (rule acache.equality) (auto simp: sp_bread_def)

lemmas sp_defs = sp_bread_def sp_set_def sp_bwrite_def sp_brelse_def sp_ref_def

section \<open>The interface\<close>

text \<open>
  A handle \<open>h\<close> with \<open>holds c h k\<close> is a buffer locked by the caller that holds block \<open>k\<close>. Handles of
  other blocks survive every operation.
\<close>

locale block_cache =
  fixes inv :: "'s \<Rightarrow> bool"
    and abs :: "'s \<Rightarrow> acache"
    and holds :: "'s \<Rightarrow> 'h \<Rightarrow> blk \<Rightarrow> bool"
    and bdata :: "'s \<Rightarrow> 'h \<Rightarrow> u8 list"
    and rd :: "u32 \<Rightarrow> u32 \<Rightarrow> 's \<Rightarrow> ('h \<times> 's) result option"
    and st :: "'h \<Rightarrow> u8 list \<Rightarrow> 's \<Rightarrow> 's"
    and wr :: "'h \<Rightarrow> 's \<Rightarrow> 's result"
    and rl :: "'h \<Rightarrow> 's \<Rightarrow> 's result"
    and unpin :: "'h \<Rightarrow> 's \<Rightarrow> 's"
  assumes rd_ok: "inv c \<Longrightarrow> dev \<noteq> 0 \<Longrightarrow> (dev, n) \<notin> a_lock (abs c) \<Longrightarrow> 0 < a_refs (abs c) (dev, n) \<or> 0 < a_free (abs c) \<Longrightarrow>
      a_refs (abs c) (dev, n) + 1 < 2 ^ 32 \<Longrightarrow>
      \<exists>h c'. rd dev n c = Some (Inr (h, c')) \<and> inv c' \<and> holds c' h (dev, n) \<and> abs c' = sp_bread (dev, n) (abs c) \<and>
        (\<forall>h' k'. holds c h' k' \<and> k' \<noteq> (dev, n) \<longrightarrow> holds c' h' k')"
    and st_ok: "inv c \<Longrightarrow> holds c h k \<Longrightarrow> inv (st h d c) \<and> holds (st h d c) h k \<and> abs (st h d c) = sp_set k d (abs c) \<and>
      (\<forall>h' k'. holds c h' k' \<and> k' \<noteq> k \<longrightarrow> holds (st h d c) h' k')"
    and wr_ok: "inv c \<Longrightarrow> holds c h k \<Longrightarrow> \<exists>c'. wr h c = Inr c' \<and> inv c' \<and> abs c' = sp_bwrite k (abs c) \<and>
      (\<forall>h' k'. holds c h' k' \<longrightarrow> holds c' h' k')"
    and rl_ok: "inv c \<Longrightarrow> holds c h k \<Longrightarrow> a_refs (abs c) k = 1 \<longrightarrow> a_view (abs c) k = a_disk (abs c) k \<Longrightarrow>
      \<exists>c'. rl h c = Inr c' \<and> inv c' \<and> abs c' = sp_brelse k (abs c) \<and>
        (\<forall>h' k'. holds c h' k' \<and> k' \<noteq> k \<longrightarrow> holds c' h' k')"
    and unpin_ok: "inv c \<Longrightarrow> holds c h k \<Longrightarrow> 1 < a_refs (abs c) k \<Longrightarrow>
      inv (unpin h c) \<and> abs (unpin h c) = sp_ref k (a_refs (abs c) k - 1) (abs c) \<and>
      (\<forall>h' k'. holds c h' k' \<longrightarrow> holds (unpin h c) h' k')"
    and bdata_ok: "inv c \<Longrightarrow> holds c h k \<Longrightarrow> bdata c h = a_view (abs c) k"
    and coherent: "inv c \<Longrightarrow> fst k \<noteq> 0 \<Longrightarrow> a_refs (abs c) k = 0 \<Longrightarrow> a_view (abs c) k = a_disk (abs c) k"
    and holds_lock: "inv c \<Longrightarrow> holds c h k \<Longrightarrow> k \<in> a_lock (abs c) \<and> 0 < a_refs (abs c) k"
begin

text \<open>
  Two blocks can be held at once if there are buffers for both.
\<close>

lemma read2_ok:
  assumes inv: "inv c" and d: "dev \<noteq> 0" and ne: "s \<noteq> t" and unl: "a_lock (abs c) = {}" and fr: "2 \<le> a_free (abs c)"
    and bnd: "a_refs (abs c) (dev, s) + 1 < 2 ^ 32" "a_refs (abs c) (dev, t) + 1 < 2 ^ 32"
  obtains hs c1 ht c2 where "rd dev s c = Some (Inr (hs, c1))" "rd dev t c1 = Some (Inr (ht, c2))" "inv c2"
    "holds c2 hs (dev, s)" "holds c2 ht (dev, t)" "abs c2 = sp_bread (dev, t) (sp_bread (dev, s) (abs c))"
proof -
  let ?s = "(dev, s)" and ?t = "(dev, t)"
  have "0 < a_refs (abs c) ?s \<or> 0 < a_free (abs c)" using fr by simp
  then obtain hs c1 where 1: "rd dev s c = Some (Inr (hs, c1))" "inv c1" "holds c1 hs ?s" "abs c1 = sp_bread ?s (abs c)"
    using rd_ok [OF inv d _ _ bnd(1)] unl by auto
  have "0 < a_refs (abs c1) ?t \<or> 0 < a_free (abs c1)" "a_refs (abs c1) ?t + 1 < 2 ^ 32" "?t \<notin> a_lock (abs c1)"
    using fr bnd(2) ne unl by (auto simp: 1(4) sp_bread_def)
  then obtain ht c2 where "rd dev t c1 = Some (Inr (ht, c2))" "inv c2" "holds c2 ht ?t" "abs c2 = sp_bread ?t (abs c1)" "holds c2 hs ?s"
    using rd_ok [OF 1(2) d, of t] 1(3) ne by fastforce
  then show thesis using that 1 by simp
qed

text \<open>
  Copying a held block over another held block: store the bytes, write, release both. \<open>p\<close> says
  whether the target was pinned and is unpinned on the way.
\<close>

lemma copy_ok:
  assumes c2: "inv c2" "holds c2 hs s" "holds c2 ht t" "abs c2 = sp_bread t (sp_bread s A)"
    and ne: "s \<noteq> t" and unl: "a_lock A = {}" and fr: "2 \<le> a_free A" and pin: "p \<Longrightarrow> 0 < a_refs A t"
    and coh: "a_refs A s = 0 \<Longrightarrow> a_view A s = a_disk A s"
  obtains c3 c4 c5 where "wr ht (st ht (bdata c2 hs) c2) = Inr c3"
    "rl hs (if p then unpin ht c3 else c3) = Inr c4" "rl ht c4 = Inr c5"
    "inv c5" "abs c5 = A\<lparr>a_view := (a_view A)(t := a_view A s), a_disk := (a_disk A)(t := a_view A s),
       a_refs := (a_refs A)(t := a_refs A t - (if p then 1 else 0)),
       a_free := a_free A + (if p \<and> a_refs A t = 1 then 1 else 0)\<rparr>"
proof -
  define c2' where "c2' = st ht (bdata c2 hs) c2"
  have dt: "bdata c2 hs = a_view A s" using bdata_ok [OF c2(1,2)] by (simp add: c2(4) sp_bread_def)
  have 3: "inv c2'" "holds c2' ht t" "abs c2' = sp_set t (bdata c2 hs) (abs c2)" "holds c2' hs s"
    unfolding c2'_def using st_ok [OF c2(1,3), of "bdata c2 hs"] c2(2) ne by blast+
  obtain c3 where 4: "wr ht c2' = Inr c3" "inv c3" "abs c3 = sp_bwrite t (abs c2')" "holds c3 ht t" "holds c3 hs s"
    using wr_ok [OF 3(1,2)] 3(2,4) by blast
  define c3' where "c3' = (if p then unpin ht c3 else c3)"
  have r3: "a_refs (abs c3) t = a_refs A t + 1" using ne by (simp add: 4(3) 3(3) c2(4) sp_defs)
  have 5: "inv c3'" "holds c3' ht t" "holds c3' hs s" "abs c3' = (if p then sp_ref t (a_refs A t) (abs c3) else abs c3)"
    using unpin_ok [OF 4(2,4)] 4(2,4,5) pin r3 by (auto simp: c3'_def simp del: split_paired_All)
  have "a_refs (abs c3') s = 1 \<longrightarrow> a_view (abs c3') s = a_disk (abs c3') s"
    using ne coh by (simp add: 5(4) 4(3) 3(3) c2(4) sp_defs)
  then obtain c4 where 6: "rl hs c3' = Inr c4" "inv c4" "abs c4 = sp_brelse s (abs c3')" "holds c4 ht t"
    using rl_ok [OF 5(1,3)] 5(2) ne by fastforce
  have "a_view (abs c4) t = a_disk (abs c4) t" by (simp add: 6(3) 5(4) 4(3) sp_defs)
  then obtain c5 where 7: "rl ht c4 = Inr c5" "inv c5" "abs c5 = sp_brelse t (abs c4)"
    using rl_ok [OF 6(2,4)] by blast
  let ?A = "A\<lparr>a_view := (a_view A)(t := a_view A s), a_disk := (a_disk A)(t := a_view A s),
       a_refs := (a_refs A)(t := a_refs A t - (if p then 1 else 0)),
       a_free := a_free A + (if p \<and> a_refs A t = 1 then 1 else 0)\<rparr>"
  have "abs c5 = ?A"
  proof (rule acache.equality)
    note steps = 7(3) 6(3) 5(4) 4(3) 3(3) c2(4) sp_defs
    show "a_free (abs c5) = a_free ?A" using ne fr pin by (auto simp: steps)
    show "a_refs (abs c5) = a_refs ?A" using ne pin by (auto simp: steps fun_eq_iff)
    show "a_lock (abs c5) = a_lock ?A" using unl by (auto simp: steps)
    show "a_view (abs c5) = a_view ?A" "a_disk (abs c5) = a_disk ?A" using dt ne by (auto simp: steps)
  qed simp
  then show thesis using that 4(1) 6(1) 7(1,2) unfolding c2'_def c3'_def by blast
qed

text \<open>Changing one block through the cache: read, store, write, release.\<close>

lemma update_ok:
  assumes inv: "inv c" and d: "dev \<noteq> 0" and unl: "a_lock (abs c) = {}" and fr: "0 < a_free (abs c)"
    and bnd: "a_refs (abs c) (dev, n) + 1 < 2 ^ 32"
  obtains h c1 c2 c3 where "rd dev n c = Some (Inr (h, c1))" "bdata c1 h = a_view (abs c) (dev, n)"
    "wr h (st h (f (a_view (abs c) (dev, n))) c1) = Inr c2" "rl h c2 = Inr c3" "inv c3"
    "abs c3 = (abs c)\<lparr>a_view := (a_view (abs c))((dev, n) := f (a_view (abs c) (dev, n))),
       a_disk := (a_disk (abs c))((dev, n) := f (a_view (abs c) (dev, n)))\<rparr>"
proof -
  let ?k = "(dev, n)" and ?d = "f (a_view (abs c) (dev, n))"
  obtain h c1 where 1: "rd dev n c = Some (Inr (h, c1))" "inv c1" "holds c1 h ?k" "abs c1 = sp_bread ?k (abs c)"
    using rd_ok [OF inv d _ _ bnd] fr unl by auto
  have b: "bdata c1 h = a_view (abs c) ?k" using bdata_ok [OF 1(2,3)] by (simp add: 1(4) sp_bread_def)
  have 2: "inv (st h ?d c1)" "holds (st h ?d c1) h ?k" "abs (st h ?d c1) = sp_set ?k ?d (abs c1)" using st_ok [OF 1(2,3)] by auto
  obtain c2 where 3: "wr h (st h ?d c1) = Inr c2" "inv c2" "holds c2 h ?k" "abs c2 = sp_bwrite ?k (sp_set ?k ?d (abs c1))"
    using wr_ok [OF 2(1,2)] 2 by auto
  have "a_view (abs c2) ?k = a_disk (abs c2) ?k" by (simp add: 3(4) sp_defs)
  then obtain c3 where 4: "rl h c2 = Inr c3" "inv c3" "abs c3 = sp_brelse ?k (abs c2)" using rl_ok [OF 3(2,3)] by blast
  have "abs c3 = (abs c)\<lparr>a_view := (a_view (abs c))(?k := ?d), a_disk := (a_disk (abs c))(?k := ?d)\<rparr>"
    using fr unl by (intro acache.equality) (auto simp: 4(3) 3(4) 1(4) sp_defs)
  then show thesis using that 1(1) b 3(1) 4(1,2) by blast
qed

end

section \<open>The block cache provides the interface\<close>

definition acache_of :: "bcache \<Rightarrow> acache" where
  "acache_of c = \<lparr>a_view = \<lambda>(d, n). if d = 0 then [] else view c d n, a_disk = \<lambda>(d, n). disk c d n,
     a_refs = \<lambda>k. if fst k = 0 then 0 else \<Sum>b \<in> {b \<in> bptrs. key c b = k}. unat (b_refcnt (bufs c b)),
     a_lock = {k. fst k \<noteq> 0 \<and> (\<exists>b \<in> bptrs. key c b = k \<and> sl_locked (b_lock (bufs c b)))},
     a_free = card {b \<in> bptrs. b_refcnt (bufs c b) = 0}\<rparr>"

definition holds :: "int \<Rightarrow> bcache \<Rightarrow> nat \<Rightarrow> blk \<Rightarrow> bool" where
  "holds pid c b k \<longleftrightarrow> fst k \<noteq> 0 \<and> held pid c b (fst k) (snd k)"

lemma bcache_uniq: "bcache_inv c \<Longrightarrow> a \<in> bptrs \<Longrightarrow> b \<in> bptrs \<Longrightarrow> key c a = key c b \<Longrightarrow> fst (key c b) \<noteq> 0 \<Longrightarrow> a = b"
  unfolding bcache_inv_def by metis

lemma refs_cached: "bcache_inv c \<Longrightarrow> b \<in> bptrs \<Longrightarrow> key c b = k \<Longrightarrow> fst k \<noteq> 0 \<Longrightarrow> a_refs (acache_of c) k = unat (b_refcnt (bufs c b))"
proof -
  assume "bcache_inv c" "b \<in> bptrs" "key c b = k" "fst k \<noteq> 0"
  moreover from this have "{b \<in> bptrs. key c b = k} = {b}" using bcache_uniq by auto
  ultimately show ?thesis by (simp add: acache_of_def)
qed

lemma refs_uncached: "\<forall>b \<in> bptrs. key c b \<noteq> k \<Longrightarrow> a_refs (acache_of c) k = 0"
  by (auto simp: acache_of_def intro!: sum.neutral)

text \<open>Replacing one buffer, which either keeps its block or was unreferenced.\<close>

lemma acache_upd:
  assumes inv: "bcache_inv c" and inv': "bcache_inv c'" and b: "b \<in> bptrs" and o: "\<And>a. a \<noteq> b \<Longrightarrow> bufs c' a = bufs c a"
    and k: "key c' b = k" "fst k \<noteq> 0" and old: "key c b \<noteq> k \<Longrightarrow> b_refcnt (bufs c b) = 0"
  shows "a_refs (acache_of c') = (a_refs (acache_of c))(k := unat (b_refcnt (bufs c' b)))"
    "a_lock (acache_of c') = (if sl_locked (b_lock (bufs c' b)) then insert k (a_lock (acache_of c)) else a_lock (acache_of c) - {k})"
    "a_free (acache_of c') = a_free (acache_of c) - (if b_refcnt (bufs c b) = 0 then 1 else 0) + (if b_refcnt (bufs c' b) = 0 then 1 else 0)"
proof -
  have ko: "key c' a = key c a" if "a \<noteq> b" for a using o [OF that] by (simp add: key_def)
  have kb: "a = b" if "a \<in> bptrs" "key c a = k" for a using bcache_uniq [OF inv' that(1) b] ko [of a] that k by auto
  have nl: "\<not> sl_locked (b_lock (bufs c b))" if "key c b \<noteq> k" using inv b old [OF that] by (auto simp: bcache_inv_def)
  have "a_refs (acache_of c') j = a_refs (acache_of c) j" if j: "j \<noteq> k" "fst j \<noteq> 0" for j
  proof (cases "\<exists>a \<in> bptrs. a \<noteq> b \<and> key c a = j")
    case True
    then show ?thesis using refs_cached [OF inv _ _ j(2)] refs_cached [OF inv' _ _ j(2)] ko o by metis
  next
    case False
    then have "a_refs (acache_of c') j = 0" using ko k(1) j(1) by (intro refs_uncached) metis
    moreover have "a_refs (acache_of c) j = 0"
    proof (cases "key c b = j")
      case True
      then show ?thesis using refs_cached [OF inv b True j(2)] old j(1) by auto
    next
      case nj: False
      then show ?thesis using False by (intro refs_uncached) auto
    qed
    ultimately show ?thesis by simp
  qed
  moreover have "a_refs (acache_of c') k = unat (b_refcnt (bufs c' b))" by (rule refs_cached [OF inv' b k])
  moreover have "a_refs (acache_of x) j = 0" if "fst j = 0" for x j using that by (simp add: acache_of_def)
  ultimately show "a_refs (acache_of c') = (a_refs (acache_of c))(k := unat (b_refcnt (bufs c' b)))"
    by (intro ext) (metis fun_upd_apply)
  have "j \<in> a_lock (acache_of c') \<longleftrightarrow> (if j = k then sl_locked (b_lock (bufs c' b)) else j \<in> a_lock (acache_of c))" for j
  proof (cases "j = k")
    case True
    then show ?thesis using kb k b ko o by (auto simp: acache_of_def) metis
  next
    case False
    then show ?thesis using k nl ko o by (auto simp: acache_of_def) metis+
  qed
  then show "a_lock (acache_of c') = (if sl_locked (b_lock (bufs c' b)) then insert k (a_lock (acache_of c)) else a_lock (acache_of c) - {k})"
    by (intro set_eqI) (simp split: if_splits)
  define F where "F = (\<lambda>x :: bcache. {a \<in> bptrs - {b}. b_refcnt (bufs x a) = 0})"
  have sp: "{a \<in> bptrs. b_refcnt (bufs x a) = 0} = (if b_refcnt (bufs x b) = 0 then insert b (F x) else F x)" for x
    using b by (auto simp: F_def)
  have "finite (F x)" "b \<notin> F x" for x using card_bptrs by (auto simp: F_def)
  moreover have "F c' = F c" using o by (auto simp: F_def)
  ultimately show "a_free (acache_of c') = a_free (acache_of c) - (if b_refcnt (bufs c b) = 0 then 1 else 0) + (if b_refcnt (bufs c' b) = 0 then 1 else 0)"
    by (simp add: acache_of_def sp [of c] sp [of c'])
qed

text \<open>The operations refine the abstract ones.\<close>

lemma holds_key: "holds pid c b k \<Longrightarrow> b \<in> bptrs \<and> key c b = k \<and> fst k \<noteq> 0 \<and> b_valid (bufs c b) \<and> sl_locked (b_lock (bufs c b))"
  by (auto simp: holds_def held_def holdingsleep_def)

lemma holds_cong: "holds pid c b k \<Longrightarrow> bufs c' b = bufs c b \<Longrightarrow> holds pid c' b k"
  by (simp add: holds_def held_def key_def)

lemma holds_other: "holds pid c b k \<Longrightarrow> key c a = k' \<Longrightarrow> k \<noteq> k' \<Longrightarrow> (\<And>b. b \<noteq> a \<Longrightarrow> bufs c' b = bufs c b) \<Longrightarrow> holds pid c' b k"
  using holds_cong holds_key by metis

lemma acache_of_sel [simp]:
  "a_view (acache_of c) = (\<lambda>(d, n). if d = 0 then [] else view c d n)" "a_disk (acache_of c) = (\<lambda>(d, n). disk c d n)"
  by (simp_all add: acache_of_def)

lemma unat_inc:
  fixes r :: u32
  shows "unat r + 1 < 2 ^ 32 \<Longrightarrow> unat (r + 1) = unat r + 1" "unat r + 1 < 2 ^ 32 \<Longrightarrow> r + 1 \<noteq> 0"
proof -
  assume "unat r + 1 < 2 ^ 32"
  then show "unat (r + 1) = unat r + 1" by (simp add: unat_plus_if')
  then show "r + 1 \<noteq> 0" by (metis add_is_0 one_neq_zero unat_0)
qed

lemma bread_abs:
  assumes inv: "bcache_inv c" and dev: "dev \<noteq> 0" and lk: "(dev, n) \<notin> a_lock (acache_of c)"
    and av: "0 < a_refs (acache_of c) (dev, n) \<or> 0 < a_free (acache_of c)"
    and rb: "a_refs (acache_of c) (dev, n) + 1 < 2 ^ 32"
  shows "\<exists>h c'. bread pid dev n c = Some (Inr (h, c')) \<and> bcache_inv c' \<and> holds pid c' h (dev, n) \<and>
    acache_of c' = sp_bread (dev, n) (acache_of c) \<and> (\<forall>h' k'. holds pid c h' k' \<and> k' \<noteq> (dev, n) \<longrightarrow> holds pid c' h' k')"
proof -
  have "\<exists>b \<in> bptrs. key c b = (dev, n) \<or> b_refcnt (bufs c b) = 0"
  proof (cases "0 < a_free (acache_of c)")
    case True
    then have "card {b \<in> bptrs. b_refcnt (bufs c b) = 0} \<noteq> 0" by (simp add: acache_of_def)
    then show ?thesis by (metis (mono_tags, lifting) Collect_empty_eq card.empty)
  next
    case False
    then show ?thesis using av refs_uncached [of c "(dev, n)"] by auto
  qed
  then obtain b c' where r: "bread pid dev n c = Some (Inr (b, c'))"
    using bread_total [OF inv, of dev n pid] lk dev by (auto simp: acache_of_def)
  have "\<forall>b \<in> bptrs. key c b = (dev, n) \<longrightarrow> b_refcnt (bufs c b) + 1 \<noteq> 0"
    using refs_cached [OF inv] dev rb by (auto intro!: unat_inc)
  note sp = bread_spec [OF inv dev this r]
  have h: "holds pid c' b (dev, n)" using sp(2) dev by (simp add: holds_def)
  then have b: "b \<in> bptrs" "key c' b = (dev, n)" "sl_locked (b_lock (bufs c' b))" by (auto dest: holds_key)
  have ho: "holds pid c' h' k'" if "holds pid c h' k'" "k' \<noteq> (dev, n)" for h' k'
  proof (rule holds_cong [OF that(1)])
    have "b_refcnt (bufs c h') \<noteq> 0" "key c h' = k'" using that(1) inv by (auto dest!: holds_key simp: bcache_inv_def)
    then have "h' \<noteq> b" using sp(8) that(2) by auto
    then show "bufs c' h' = bufs c h'" by (rule sp(6))
  qed
  note up = acache_upd [OF inv sp(1) b(1) sp(6) b(2) _ sp(8), simplified]
  have kb: "key c b = (dev, n)" if "\<exists>a \<in> bptrs. key c a = (dev, n)"
    using sp(6) b bcache_uniq [OF sp(1)] dev that by (metis fst_conv key_def)
  have rf: "unat (b_refcnt (bufs c' b)) = a_refs (acache_of c) (dev, n) + 1 \<and>
    (b_refcnt (bufs c b) = 0 \<longleftrightarrow> a_refs (acache_of c) (dev, n) = 0)"
  proof (cases "\<exists>a \<in> bptrs. key c a = (dev, n)")
    case True
    show ?thesis using sp(7) True refs_cached [OF inv b(1) kb [OF True]] dev rb by (simp add: unat_inc unsigned_eq_0_iff)
  next
    case False
    then have "key c b \<noteq> (dev, n)" using b(1) by blast
    then show ?thesis using sp(7,8) False refs_uncached [of c "(dev, n)"] by auto
  qed
  have nz: "b_refcnt (bufs c' b) \<noteq> 0" using rf by (metis Suc_eq_plus1 nat.distinct(1) unat_0)
  have "acache_of c' = sp_bread (dev, n) (acache_of c)"
    using sp(4,5) rf nz b(3) dev up by (intro acache.equality) (auto simp: sp_bread_def fun_eq_iff)
  then show ?thesis using r sp(1) h ho by blast
qed

lemma holds_refs:
  assumes "bcache_inv c" "holds pid c b k"
  shows "insert k (a_lock (acache_of c)) = a_lock (acache_of c)" "a_refs (acache_of c) k = unat (b_refcnt (bufs c b))"
    "b_refcnt (bufs c b) \<noteq> 0"
proof -
  note k = holds_key [OF assms(2)]
  show "insert k (a_lock (acache_of c)) = a_lock (acache_of c)" using k by (auto simp: acache_of_def)
  show "a_refs (acache_of c) k = unat (b_refcnt (bufs c b))" using refs_cached [OF assms(1)] k by blast
  show "b_refcnt (bufs c b) \<noteq> 0" using assms held_ref unfolding holds_def by blast
qed

lemma set_data_abs:
  assumes inv: "bcache_inv c" and h: "holds pid c b k"
  shows "bcache_inv (set_data b d c) \<and> holds pid (set_data b d c) b k \<and> acache_of (set_data b d c) = sp_set k d (acache_of c) \<and>
    (\<forall>h' k'. holds pid c h' k' \<and> k' \<noteq> k \<longrightarrow> holds pid (set_data b d c) h' k')"
proof -
  have k: "b \<in> bptrs" "key c b = k" "fst k \<noteq> 0" using h by (auto dest: holds_key)
  have hd: "held pid c b (fst k) (snd k)" using h by (simp add: holds_def)
  note sp = set_data_spec [OF inv hd k(3), where d = d]
  have "key (set_data b d c) b = k" using k by (simp add: set_data_def key_def)
  from acache_upd [OF inv sp(1) k(1) _ this k(3)] holds_refs [OF inv h] holds_key [OF h]
  have up: "a_refs (acache_of (set_data b d c)) = a_refs (acache_of c)" "a_lock (acache_of (set_data b d c)) = a_lock (acache_of c)"
    "a_free (acache_of (set_data b d c)) = a_free (acache_of c)"
    by (simp_all add: set_data_def fun_eq_iff)
  have "acache_of (set_data b d c) = sp_set k d (acache_of c)"
    using k(3) sp(3,4) up by (intro acache.equality) (auto simp: sp_set_def fun_eq_iff)
  then show ?thesis using sp(1,2) k(3) h by (auto simp: holds_def set_data_def held_def key_def)
qed

lemma bwrite_abs:
  assumes inv: "bcache_inv c" and h: "holds pid c b k"
  shows "\<exists>c'. bwrite pid b c = Inr c' \<and> bcache_inv c' \<and> acache_of c' = sp_bwrite k (acache_of c) \<and>
    (\<forall>h' k'. holds pid c h' k' \<longrightarrow> holds pid c' h' k')"
proof -
  have k: "b \<in> bptrs" "key c b = k" "fst k \<noteq> 0" "held pid c b (fst k) (snd k)" using h holds_key [OF h] by (simp_all add: holds_def)
  obtain c' where c': "bwrite pid b c = Inr c'" "bcache_inv c'" "bufs c' = bufs c"
    "disk c' = (disk c)(fst k := (disk c (fst k))(snd k := view c (fst k) (snd k)))" "\<And>d n. d \<noteq> 0 \<Longrightarrow> view c' d n = view c d n"
    using bwrite_spec [OF inv k(4,3)] by blast
  have "key c' = key c" by (rule ext) (simp add: key_def c'(3))
  then have "acache_of c' = sp_bwrite k (acache_of c)"
    using k(3) c'(3-5) by (cases k, intro acache.equality) (auto simp: acache_of_def sp_bwrite_def fun_eq_iff)
  then show ?thesis using c' holds_cong [of pid c _ _ c'] by auto
qed

lemma brelse_abs:
  assumes inv: "bcache_inv c" and h: "holds pid c b k" and coh: "a_refs (acache_of c) k = 1 \<longrightarrow> a_view (acache_of c) k = a_disk (acache_of c) k"
  shows "\<exists>c'. brelse pid b c = Inr c' \<and> bcache_inv c' \<and> acache_of c' = sp_brelse k (acache_of c) \<and>
    (\<forall>h' k'. holds pid c h' k' \<and> k' \<noteq> k \<longrightarrow> holds pid c' h' k')"
proof -
  have k: "b \<in> bptrs" "key c b = k" "fst k \<noteq> 0" "held pid c b (fst k) (snd k)" using h holds_key [OF h] by (simp_all add: holds_def)
  let ?r = "b_refcnt (bufs c b)"
  have r: "a_refs (acache_of c) k = unat ?r" "?r \<noteq> 0" using refs_cached [OF inv k(1-3)] held_ref [OF inv k(4)] by auto
  have one: "?r = 1 \<longleftrightarrow> a_refs (acache_of c) k = 1" unfolding r(1) by (metis unat_1 unsigned_word_eqI)
  obtain c' where c': "brelse pid b c = Inr c'" "bcache_inv c'" "disk c' = disk c" "\<And>d n. d \<noteq> 0 \<Longrightarrow> view c' d n = view c d n"
    "\<And>a. a \<noteq> b \<Longrightarrow> bufs c' a = bufs c a" "bufs c' b = (bufs c b)\<lparr>b_lock := releasesleep (b_lock (bufs c b)), b_refcnt := ?r - 1\<rparr>"
    using brelse_spec [OF inv k(4,3)] coh one k(3) by (cases k) auto
  have kb: "key c' b = k" using k(2) by (simp add: key_def c'(6))
  note up = acache_upd [OF inv c'(2) k(1) c'(5) kb k(3)]
  have u: "unat (?r - 1) = unat ?r - 1" using r(2) by (simp add: unat_minus_one)
  have z: "?r - 1 = 0 \<longleftrightarrow> unat ?r = 1" using one r(1) by auto
  have "acache_of c' = sp_brelse k (acache_of c)"
    using c'(3,4,6) up k(2) r u z by (intro acache.equality) (auto simp: sp_brelse_def fun_eq_iff)
  moreover have "holds pid c' h' k'" if "holds pid c h' k'" "k' \<noteq> k" for h' k'
    using holds_other [OF that(1) k(2) that(2) c'(5)] .
  ultimately show ?thesis using c' by blast
qed

lemma bunpin_abs:
  assumes inv: "bcache_inv c" and h: "holds pid c b k" and r: "1 < a_refs (acache_of c) k"
  shows "bcache_inv (bunpin b c) \<and> acache_of (bunpin b c) = sp_ref k (a_refs (acache_of c) k - 1) (acache_of c) \<and>
    (\<forall>h' k'. holds pid c h' k' \<longrightarrow> holds pid (bunpin b c) h' k')"
proof -
  have k: "b \<in> bptrs" "key c b = k" "fst k \<noteq> 0" using holds_key [OF h] by simp_all
  let ?r = "b_refcnt (bufs c b)"
  have ra: "a_refs (acache_of c) k = unat ?r" using refs_cached [OF inv k] .
  have nz: "?r \<noteq> 0" using r ra by auto
  have u: "unat (?r - 1) = unat ?r - 1" by (rule unat_minus_one [OF nz])
  then have u0: "?r - 1 \<noteq> 0" using r ra by auto
  have inv': "bcache_inv (bunpin b c)"
    by (rule bcache_inv_upd [OF inv k(1), where x = "(bufs c b)\<lparr>b_refcnt := ?r - 1\<rparr>"])
      (use u0 in \<open>simp_all add: bunpin_def\<close>)
  have kb: "key (bunpin b c) b = k" using k(2) by (simp add: key_def bunpin_def)
  have vw: "view (bunpin b c) d n = view c d n" if "d \<noteq> 0" for d n
    by (rule view_cong [OF _ _ inv that]) (auto simp: bunpin_def key_def)
  note up = acache_upd [OF inv inv' k(1) _ kb k(3)]
  have lk: "insert k (a_lock (acache_of c)) = a_lock (acache_of c)" by (rule holds_refs [OF inv h])
  have "acache_of (bunpin b c) = sp_ref k (a_refs (acache_of c) k - 1) (acache_of c)"
    using vw up k(2) ra u nz u0 lk holds_key [OF h] by (intro acache.equality) (auto simp: sp_ref_def bunpin_def fun_eq_iff)
  moreover have "holds pid (bunpin b c) h' k'" if "holds pid c h' k'" for h' k'
    using that by (auto simp: holds_def held_def key_def bunpin_def)
  ultimately show ?thesis using inv' by blast
qed

lemma bpin_abs:
  assumes inv: "bcache_inv c" and h: "holds pid c b k" and r: "a_refs (acache_of c) k + 1 < 2 ^ 32"
  shows "bcache_inv (bpin b c) \<and> acache_of (bpin b c) = sp_ref k (a_refs (acache_of c) k + 1) (acache_of c) \<and>
    (\<forall>h' k'. holds pid c h' k' \<longrightarrow> holds pid (bpin b c) h' k')"
proof -
  have k: "b \<in> bptrs" "key c b = k" "fst k \<noteq> 0" "held pid c b (fst k) (snd k)" using h holds_key [OF h] by (simp_all add: holds_def)
  let ?r = "b_refcnt (bufs c b)"
  have ra: "a_refs (acache_of c) k = unat ?r" "?r \<noteq> 0" using holds_refs [OF inv h] by simp_all
  have u: "unat (?r + 1) = unat ?r + 1" "?r + 1 \<noteq> 0" using r ra unat_inc [of ?r] by auto
  note sp = bpin_spec [OF inv k(4) u(2)]
  have kb: "key (bpin b c) b = k" using k(2) by (simp add: key_def bpin_def)
  note up = acache_upd [OF inv sp(1) k(1) _ kb k(3)]
  have "acache_of (bpin b c) = sp_ref k (a_refs (acache_of c) k + 1) (acache_of c)"
    using sp(3,4) up k(2) ra u holds_refs [OF inv h] holds_key [OF h]
    by (intro acache.equality) (auto simp: sp_ref_def bpin_def fun_eq_iff)
  moreover have "holds pid (bpin b c) h' k'" if "holds pid c h' k'" for h' k'
    using that by (auto simp: holds_def held_def key_def bpin_def)
  ultimately show ?thesis using sp(1) by blast
qed

lemma acache_coherent:
  assumes "bcache_inv c" "fst k \<noteq> 0" "a_refs (acache_of c) k = 0"
  shows "a_view (acache_of c) k = a_disk (acache_of c) k"
proof (cases "\<exists>b \<in> bptrs. key c b = k \<and> b_valid (bufs c b)")
  case True
  then obtain b where b: "b \<in> bptrs" "key c b = k" "b_valid (bufs c b)" by blast
  have "b_refcnt (bufs c b) = 0" using refs_cached [OF assms(1) b(1,2) assms(2)] assms(3) by (simp add: unat_0_iff)
  then have "b_data (bufs c b) = disk c (fst k) (snd k)" using assms(1) b by (auto simp: bcache_inv_def key_def)
  then show ?thesis using view_cached [OF assms(1) b(1) _ b(3)] b(2) assms(2) by (cases k) simp
next
  case False
  then show ?thesis using assms(2) view_uncached [of c "fst k" "snd k"] by (cases k) auto
qed

interpretation bc: block_cache bcache_inv acache_of "holds pid" "\<lambda>c b. b_data (bufs c b)" "bread pid" set_data "bwrite pid"
  "brelse pid" bunpin for pid
proof
  show "a_view (acache_of c) k = a_disk (acache_of c) k" if "bcache_inv c" "fst k \<noteq> 0" "a_refs (acache_of c) k = 0" for c k
    by (rule acache_coherent [OF that])
  show "b_data (bufs c h) = a_view (acache_of c) k" if "bcache_inv c" "holds pid c h k" for c h k
    using view_cached [OF that(1), of h "fst k" "snd k"] holds_key [OF that(2)] by (cases k) simp
  show "k \<in> a_lock (acache_of c) \<and> 0 < a_refs (acache_of c) k" if "bcache_inv c" "holds pid c h k" for c h k
    using holds_refs [OF that] by (metis insertI1 unat_gt_0)
qed (fact bread_abs set_data_abs bwrite_abs brelse_abs bunpin_abs)+

end
