(* ===== verification/Bytes.thy ===== *)
theory Bytes
  imports Prelude
begin

text \<open>
  Fields of on-disk and on-wire structures inside a byte array, little-endian as on RISC-V: reading
  and writing a run of bytes at an offset, and 16-bit and 32-bit fields.
\<close>

definition get :: "nat \<Rightarrow> nat \<Rightarrow> u8 list \<Rightarrow> u8 list" where
  "get off n d = take n (drop off d)"

definition put :: "nat \<Rightarrow> u8 list \<Rightarrow> u8 list \<Rightarrow> u8 list" where
  "put off bs d = take off d @ bs @ drop (off + length bs) d"

lemma length_put [simp]: "off + length bs \<le> length d \<Longrightarrow> length (put off bs d) = length d"
  by (simp add: put_def)

lemma length_get [simp]: "off + n \<le> length d \<Longrightarrow> length (get off n d) = n"
  by (simp add: get_def)

lemma nth_put: "off + length bs \<le> length d \<Longrightarrow> i < length d \<Longrightarrow>
    put off bs d ! i = (if off \<le> i \<and> i < off + length bs then bs ! (i - off) else d ! i)"
  by (auto simp: put_def nth_append)

lemma get_put_same: "off + length bs \<le> length d \<Longrightarrow> length bs = n \<Longrightarrow> get off n (put off bs d) = bs"
  by (simp add: get_def put_def)

lemma get_put_other:
  assumes "off + length bs \<le> length d" "o' + n \<le> off \<or> off + length bs \<le> o'"
  shows "get o' n (put off bs d) = get o' n d"
  by (rule nth_equalityI) (use assms in \<open>auto simp: get_def nth_put\<close>)

lemma put_get: "off + n \<le> length d \<Longrightarrow> put off (get off n d) d = d"
  by (simp add: put_def get_def) (metis add.commute append_take_drop_id drop_drop)

section \<open>Little-endian fields\<close>

definition le32 :: "u32 \<Rightarrow> u8 list" where
  "le32 w = [ucast w, ucast (drop_bit 8 w), ucast (drop_bit 16 w), ucast (drop_bit 24 w)]"

definition le16 :: "u16 \<Rightarrow> u8 list" where
  "le16 w = [ucast w, ucast (drop_bit 8 w)]"

definition un_le32 :: "u8 list \<Rightarrow> u32" where
  "un_le32 bs = ucast (bs ! 0) OR push_bit 8 (ucast (bs ! 1)) OR push_bit 16 (ucast (bs ! 2)) OR push_bit 24 (ucast (bs ! 3))"

definition un_le16 :: "u8 list \<Rightarrow> u16" where
  "un_le16 bs = ucast (bs ! 0) OR push_bit 8 (ucast (bs ! 1))"

lemma length_le [simp]: "length (le32 w) = 4" "length (le16 v) = 2"
  by (simp_all add: le32_def le16_def)

lemma un_le32_le32 [simp]: "un_le32 (le32 w) = w"
proof (rule bit_word_eqI)
  fix n assume "n < LENGTH(32)"
  then consider "n < 8" | "8 \<le> n" "n < 16" | "16 \<le> n" "n < 24" | "24 \<le> n" "n < 32" by fastforce
  then show "bit (un_le32 (le32 w)) n \<longleftrightarrow> bit w n"
    by cases (auto simp: un_le32_def le32_def bit_simps)
qed

lemma un_le16_le16 [simp]: "un_le16 (le16 w) = w"
proof (rule bit_word_eqI)
  fix n assume "n < LENGTH(16)"
  then consider "n < 8" | "8 \<le> n" "n < 16" by fastforce
  then show "bit (un_le16 (le16 w)) n \<longleftrightarrow> bit w n"
    by cases (auto simp: un_le16_def le16_def bit_simps)
qed

lemma le16_un_le16: "length bs = 2 \<Longrightarrow> le16 (un_le16 bs) = bs"
proof -
  assume "length bs = 2"
  then obtain a b where bs: "bs = [a, b]" by (auto simp: length_Suc_conv numeral_2_eq_2)
  have "ucast (ucast a OR push_bit 8 (ucast b) :: u16) = a" by (rule bit_word_eqI) (auto simp: bit_simps)
  moreover have "ucast (drop_bit 8 (ucast a OR push_bit 8 (ucast b)) :: u16) = b"
    by (rule bit_word_eqI) (auto simp: bit_simps dest: bit_imp_le_length)
  ultimately show ?thesis by (simp add: bs le16_def un_le16_def)
qed

definition get32 :: "nat \<Rightarrow> u8 list \<Rightarrow> u32" where "get32 off d = un_le32 (get off 4 d)"
definition put32 :: "nat \<Rightarrow> u32 \<Rightarrow> u8 list \<Rightarrow> u8 list" where "put32 off v d = put off (le32 v) d"
definition get16 :: "nat \<Rightarrow> u8 list \<Rightarrow> u16" where "get16 off d = un_le16 (get off 2 d)"
definition put16 :: "nat \<Rightarrow> u16 \<Rightarrow> u8 list \<Rightarrow> u8 list" where "put16 off v d = put off (le16 v) d"

lemma length_puts [simp]:
  "off + 4 \<le> length d \<Longrightarrow> length (put32 off v d) = length d" "off + 2 \<le> length d \<Longrightarrow> length (put16 off w d) = length d"
  by (simp_all add: put32_def put16_def)

lemma get_put32:
  "off + 4 \<le> length d \<Longrightarrow> get32 off (put32 off v d) = v"
  "off + 4 \<le> length d \<Longrightarrow> o' + 4 \<le> off \<or> off + 4 \<le> o' \<Longrightarrow> get32 o' (put32 off v d) = get32 o' d"
  "off + 4 \<le> length d \<Longrightarrow> o' + 2 \<le> off \<or> off + 4 \<le> o' \<Longrightarrow> get16 o' (put32 off v d) = get16 o' d"
  by (simp_all add: get32_def get16_def put32_def get_put_same get_put_other)

lemma get_put16:
  "off + 2 \<le> length d \<Longrightarrow> get16 off (put16 off w d) = w"
  "off + 2 \<le> length d \<Longrightarrow> o' + 2 \<le> off \<or> off + 2 \<le> o' \<Longrightarrow> get16 o' (put16 off w d) = get16 o' d"
  "off + 2 \<le> length d \<Longrightarrow> o' + 4 \<le> off \<or> off + 2 \<le> o' \<Longrightarrow> get32 o' (put16 off w d) = get32 o' d"
  by (simp_all add: get32_def get16_def put16_def get_put_same get_put_other)

end
