(* ===== verification/Log.thy ===== *)
theory Log
  imports Bcache_abs Bytes
begin

text \<open>
  The write-ahead log of \<^verbatim>\<open>kernel/log.c\<close> over the block cache. \<open>log.start\<close> and the block numbers
  are taken modulo \<open>2 ^ 32\<close>, as \<^verbatim>\<open>bread\<close> takes them; \<open>log.lh.block\<close> is the list of its
  \<^verbatim>\<open>LOGSIZE\<close> entries. A buffer holds a whole block, so that \<^verbatim>\<open>memmove\<close> of \<^verbatim>\<open>BSIZE\<close> bytes replaces
  its contents. Panic
  messages are given without the final newline. Waiting in \<^verbatim>\<open>log_begin_op\<close> is the fault \<open>Blocked\<close>.
\<close>

section \<open>State\<close>

definition MAXOPBLOCKS :: nat where "MAXOPBLOCKS = 10"
definition LOGSIZE :: nat where "LOGSIZE = MAXOPBLOCKS * 3"

record log =
  l_start :: u32
  l_size :: int
  l_outstanding :: int
  l_committing :: bool
  l_dev :: u32
  l_n :: nat
  l_block :: "u32 list"

type_synonym lstate = "log \<times> bcache"

text \<open>A buffer read, then the rest with it; \<open>None\<close> only if the cache list is broken.\<close>

definition with_buf :: "int \<Rightarrow> u32 \<Rightarrow> u32 \<Rightarrow> bcache \<Rightarrow> (nat \<Rightarrow> bcache \<Rightarrow> 'a result option) \<Rightarrow> 'a result option" where
  "with_buf pid dev n c f = (case bread pid dev n c of None \<Rightarrow> None | Some (Inl e) \<Rightarrow> Some (Inl e) | Some (Inr (b, c)) \<Rightarrow> f b c)"

section \<open>Operations\<close>

text \<open>The bodies of the loops of \<^verbatim>\<open>write_log\<close> and \<^verbatim>\<open>install_trans\<close>.\<close>

definition write_log_step :: "int \<Rightarrow> log \<Rightarrow> nat \<Rightarrow> bcache \<Rightarrow> bcache result option" where
  "write_log_step pid l i c =
     with_buf pid (l_dev l) (l_start l + of_nat i + 1) c (\<lambda>to c.
       with_buf pid (l_dev l) (l_block l ! i) c (\<lambda>from c.
         Some (bindR (bwrite pid to (set_data to (b_data (bufs c from)) c)) (\<lambda>c.
           bindR (brelse pid from c) (brelse pid to)))))"

definition install_step :: "int \<Rightarrow> bool \<Rightarrow> log \<Rightarrow> nat \<Rightarrow> bcache \<Rightarrow> bcache result option" where
  "install_step pid recovering l i c =
     with_buf pid (l_dev l) (l_start l + of_nat i + 1) c (\<lambda>bsrc c.
       with_buf pid (l_dev l) (l_block l ! i) c (\<lambda>bdst c.
         Some (bindR (bwrite pid bdst (set_data bdst (b_data (bufs c bsrc)) c)) (\<lambda>c.
           let c = (if \<not> recovering then bunpin bdst c else c)
           in bindR (brelse pid bsrc c) (brelse pid bdst)))))"

text \<open>\<open>for (i = 0; i < n; i++)\<close> over steps that can fail.\<close>

fun for_steps :: "(nat \<Rightarrow> 's \<Rightarrow> 's result option) \<Rightarrow> nat list \<Rightarrow> 's \<Rightarrow> 's result option" where
  "for_steps f [] c = Some (Inr c)"
| "for_steps f (i # is) c = (case f i c of Some (Inr c) \<Rightarrow> for_steps f is c | r \<Rightarrow> r)"

definition write_log :: "int \<Rightarrow> lstate \<Rightarrow> bcache result option" where
  "write_log pid s = for_steps (write_log_step pid (fst s)) [0..<l_n (fst s)] (snd s)"

definition install_trans :: "int \<Rightarrow> bool \<Rightarrow> lstate \<Rightarrow> bcache result option" where
  "install_trans pid recovering s = for_steps (install_step pid recovering (fst s)) [0..<l_n (fst s)] (snd s)"

definition log_write :: "nat \<Rightarrow> lstate \<Rightarrow> lstate result" where
  "log_write b s =
     (let (l, c) = s
      in if l_n l \<ge> LOGSIZE \<or> int (l_n l) \<ge> l_size l - 1 then Inl (Panic ''too big a transaction'')
         else if l_outstanding l < 1 then Inl (Panic ''log_write outside of trans'')
         else let bno = b_blockno (bufs c b);
                  i = (case find (\<lambda>i. l_block l ! i = bno) [0..<l_n l] of None \<Rightarrow> l_n l | Some i \<Rightarrow> i);
                  l = l\<lparr>l_block := (l_block l)[i := bno]\<rparr>
              in if i = l_n l then Inr (l\<lparr>l_n := l_n l + 1\<rparr>, bpin b c) else Inr (l, c))"

text \<open>The header block: \<open>n\<close> and then the block numbers.\<close>

fun put_blocks :: "u32 list \<Rightarrow> nat list \<Rightarrow> u8 list \<Rightarrow> u8 list" where
  "put_blocks bl [] d = d"
| "put_blocks bl (i # is) d = put_blocks bl is (put32 (4 + 4 * i) (bl ! i) d)"

definition write_head :: "int \<Rightarrow> lstate \<Rightarrow> bcache result option" where
  "write_head pid s =
     (let (l, c) = s
      in with_buf pid (l_dev l) (l_start l) c (\<lambda>b c.
           let d = put32 0 (of_nat (l_n l)) (b_data (bufs c b));
               d = put_blocks (l_block l) [0..<l_n l] d
           in Some (bindR (bwrite pid b (set_data b d c)) (brelse pid b))))"

definition read_head :: "int \<Rightarrow> lstate \<Rightarrow> lstate result option" where
  "read_head pid s =
     (let (l, c) = s
      in with_buf pid (l_dev l) (l_start l) c (\<lambda>b c.
           let c = set_data b (put32 0 (of_nat (l_n l)) (b_data (bufs c b))) c;
               l = l\<lparr>l_block := fold (\<lambda>i bl. bl[i := get32 (4 + 4 * i) (b_data (bufs c b))]) [0..<l_n l] (l_block l)\<rparr>
           in Some (bindR (brelse pid b c) (\<lambda>c. Inr (l, c)))))"

definition log_begin_op :: "lstate \<Rightarrow> lstate result" where
  "log_begin_op s =
     (let (l, c) = s
      in if l_committing l then Inl Blocked
         else if int (l_n l) + (l_outstanding l + 1) * int MAXOPBLOCKS > int LOGSIZE then Inl Blocked
         else Inr (l\<lparr>l_outstanding := l_outstanding l + 1\<rparr>, c))"

text \<open>Sequencing for calls that return a cache: the log record is unchanged.\<close>

definition then_cache :: "bcache result option \<Rightarrow> (bcache \<Rightarrow> 'a result option) \<Rightarrow> 'a result option" where
  "then_cache r f = (case r of None \<Rightarrow> None | Some (Inl e) \<Rightarrow> Some (Inl e) | Some (Inr c) \<Rightarrow> f c)"

definition commit :: "int \<Rightarrow> lstate \<Rightarrow> lstate result option" where
  "commit pid s =
     (let (l, c) = s
      in if 0 < l_n l
         then then_cache (write_log pid (l, c)) (\<lambda>c.
                then_cache (write_head pid (l, c)) (\<lambda>c.
                  then_cache (install_trans pid False (l, c)) (\<lambda>c.
                    let l = l\<lparr>l_n := 0\<rparr>
                    in then_cache (write_head pid (l, c)) (\<lambda>c. Some (Inr (l, c))))))
         else Some (Inr (l, c)))"

definition log_end_op :: "int \<Rightarrow> lstate \<Rightarrow> lstate result option" where
  "log_end_op pid s =
     (let (l, c) = s;
          l = l\<lparr>l_outstanding := l_outstanding l - 1\<rparr>
      in if l_committing l then Some (Inl (Panic ''log.committing''))
         else if l_outstanding l = 0
         then (case commit pid (l\<lparr>l_committing := True\<rparr>, c) of
                 Some (Inr (l, c)) \<Rightarrow> Some (Inr (l\<lparr>l_committing := False\<rparr>, c))
               | r \<Rightarrow> r)
         else Some (Inr (l, c)))"

definition recover_from_log :: "int \<Rightarrow> lstate \<Rightarrow> lstate result option" where
  "recover_from_log pid s =
     (case read_head pid s of
        Some (Inr (l, c)) \<Rightarrow>
          then_cache (install_trans pid True (l, c)) (\<lambda>c.
            let l = l\<lparr>l_n := 0\<rparr>
            in then_cache (write_head pid (l, c)) (\<lambda>c. Some (Inr (l, c))))
      | r \<Rightarrow> r)"

text \<open>
  \<^verbatim>\<open>initlog\<close> on the zero-initialised \<^verbatim>\<open>struct log\<close>. The check that the header fits a block is on
  constants: \<open>sizeof(struct logheader) = 4 + 4 * LOGSIZE\<close>.
\<close>

definition initlog :: "int \<Rightarrow> u32 \<Rightarrow> u32 \<Rightarrow> u32 \<Rightarrow> lstate \<Rightarrow> lstate result option" where
  "initlog pid dev logstart nlog s =
     (let (l, c) = s
      in if 4 + 4 * LOGSIZE \<ge> BSIZE then Some (Inl (Panic ''initlog : too big logheader''))
         else recover_from_log pid (l\<lparr>l_start := logstart, l_size := sint nlog, l_dev := dev\<rparr>, c))"

definition zero_log :: log where
  "zero_log = \<lparr>l_start = 0, l_size = 0, l_outstanding = 0, l_committing = False, l_dev = 0, l_n = 0,
     l_block = replicate LOGSIZE 0\<rparr>"

section \<open>The abstract effect of the phases of a commit\<close>

definition ls :: "log \<Rightarrow> nat \<Rightarrow> u32" where
  "ls l i = l_start l + of_nat i + 1"

definition home :: "log \<Rightarrow> nat \<Rightarrow> blk" where "home l i = (l_dev l, l_block l ! i)"
definition slot :: "log \<Rightarrow> nat \<Rightarrow> blk" where "slot l i = (l_dev l, ls l i)"
definition log_area :: "log \<Rightarrow> blk set" where
  "log_area l = insert (l_dev l, l_start l) (slot l ` {..<LOGSIZE})"

text \<open>
  When a commit starts no file operation is in progress: no block is locked, the logged blocks are
  distinct, outside the log area and pinned, and two buffers are free to work with.
\<close>

definition log_ready :: "log \<Rightarrow> acache \<Rightarrow> bool" where
  "log_ready l A \<longleftrightarrow> l_dev l \<noteq> 0 \<and> l_n l \<le> LOGSIZE \<and> length (l_block l) = LOGSIZE \<and> distinct (take (l_n l) (l_block l)) \<and>
     (\<forall>i < l_n l. home l i \<notin> log_area l \<and> 0 < a_refs A (home l i) \<and> a_refs A (home l i) + 1 < 2 ^ 32) \<and>
     (\<forall>k \<in> log_area l. a_refs A k + 1 < 2 ^ 32) \<and> a_lock A = {} \<and> 2 \<le> a_free A"

fun sp_write_log :: "log \<Rightarrow> nat \<Rightarrow> acache \<Rightarrow> acache" where
  "sp_write_log l 0 A = A"
| "sp_write_log l (Suc m) A =
     (let A = sp_write_log l m A; d = a_view A (home l m)
      in A\<lparr>a_view := (a_view A)(slot l m := d), a_disk := (a_disk A)(slot l m := d)\<rparr>)"

fun sp_install :: "log \<Rightarrow> nat \<Rightarrow> acache \<Rightarrow> acache" where
  "sp_install l 0 A = A"
| "sp_install l (Suc m) A =
     (let A = sp_install l m A; d = a_view A (slot l m)
      in A\<lparr>a_view := (a_view A)(home l m := d), a_disk := (a_disk A)(home l m := d),
           a_refs := (a_refs A)(home l m := a_refs A (home l m) - 1),
           a_free := a_free A + (if a_refs A (home l m) = 1 then 1 else 0)\<rparr>)"

lemma slot_inj: "i < LOGSIZE \<Longrightarrow> j < LOGSIZE \<Longrightarrow> slot l i = slot l j \<Longrightarrow> i = j"
proof -
  assume lt: "i < LOGSIZE" "j < LOGSIZE" and "slot l i = slot l j"
  then have "unat (of_nat i :: u32) = unat (of_nat j :: u32)" by (simp add: slot_def ls_def)
  moreover have "i mod 2 ^ 32 = i" "j mod 2 ^ 32 = j" using lt by (auto simp: LOGSIZE_def MAXOPBLOCKS_def)
  ultimately show "i = j" by (simp add: unat_of_nat)
qed

lemma slot_not_head: "i < LOGSIZE \<Longrightarrow> slot l i \<noteq> (l_dev l, l_start l)"
proof
  assume lt: "i < LOGSIZE" and "slot l i = (l_dev l, l_start l)"
  then have "(of_nat (i + 1) :: u32) = 0" by (simp add: slot_def ls_def add.commute)
  then have "(i + 1) mod 2 ^ LENGTH(32) = 0" by (metis unat_0 unat_of_nat)
  then show False using lt by (simp add: LOGSIZE_def MAXOPBLOCKS_def)
qed

lemma home_inj:
  assumes "log_ready l A" "i < l_n l" "j < l_n l" "home l i = home l j" shows "i = j"
proof -
  have "take (l_n l) (l_block l) ! i = take (l_n l) (l_block l) ! j" using assms by (simp add: home_def)
  moreover have "length (take (l_n l) (l_block l)) = l_n l" using assms(1) by (simp add: log_ready_def)
  ultimately show ?thesis using assms(1-3) nth_eq_iff_index_eq by (metis log_ready_def)
qed

lemma home_slot: "log_ready l A \<Longrightarrow> i < l_n l \<Longrightarrow> j < LOGSIZE \<Longrightarrow> home l i \<noteq> slot l j"
  unfolding log_ready_def log_area_def by blast

lemma sp_write_log_frame:
  "a_refs (sp_write_log l m A) = a_refs A" "a_lock (sp_write_log l m A) = a_lock A" "a_free (sp_write_log l m A) = a_free A"
  by (induction m) (simp_all add: Let_def)

lemma sp_write_log_at:
  "log_ready l A \<Longrightarrow> m \<le> l_n l \<Longrightarrow>
     (\<forall>i < m. a_view (sp_write_log l m A) (slot l i) = a_view A (home l i) \<and> a_disk (sp_write_log l m A) (slot l i) = a_view A (home l i)) \<and>
     (\<forall>k. k \<notin> slot l ` {..<m} \<longrightarrow> a_view (sp_write_log l m A) k = a_view A k \<and> a_disk (sp_write_log l m A) k = a_disk A k)"
proof (induction m)
  case (Suc m)
  let ?B = "sp_write_log l m A"
  have n: "l_n l \<le> LOGSIZE" using Suc.prems(1) by (simp add: log_ready_def)
  have IH: "\<And>i. i < m \<Longrightarrow> a_view ?B (slot l i) = a_view A (home l i) \<and> a_disk ?B (slot l i) = a_view A (home l i)"
    "\<And>k. k \<notin> slot l ` {..<m} \<Longrightarrow> a_view ?B k = a_view A k \<and> a_disk ?B k = a_disk A k"
    using Suc.IH [OF Suc.prems(1)] Suc.prems(2) by auto
  have "home l m \<noteq> slot l j" if "j < m" for j using home_slot [OF Suc.prems(1), of m j] that Suc.prems(2) n by simp
  then have "home l m \<notin> slot l ` {..<m}" by blast
  then have hm: "a_view ?B (home l m) = a_view A (home l m)" using IH(2) by blast
  have ne: "slot l i \<noteq> slot l m" if "i < m" for i using slot_inj [of i m l] that n Suc.prems(2) by auto
  show ?case using IH hm ne by (auto simp: Let_def less_Suc_eq lessThan_Suc simp del: split_paired_All)
qed simp

lemma sp_install_at:
  "log_ready l A \<Longrightarrow> m \<le> l_n l \<Longrightarrow>
     (\<forall>i < m. a_view (sp_install l m A) (home l i) = a_view A (slot l i) \<and> a_disk (sp_install l m A) (home l i) = a_view A (slot l i) \<and>
       a_refs (sp_install l m A) (home l i) = a_refs A (home l i) - 1) \<and>
     (\<forall>k. k \<notin> home l ` {..<m} \<longrightarrow> a_view (sp_install l m A) k = a_view A k \<and> a_disk (sp_install l m A) k = a_disk A k \<and>
       a_refs (sp_install l m A) k = a_refs A k) \<and>
     a_lock (sp_install l m A) = a_lock A \<and> a_free A \<le> a_free (sp_install l m A)"
proof (induction m)
  case (Suc m)
  let ?B = "sp_install l m A"
  have n: "l_n l \<le> LOGSIZE" using Suc.prems(1) by (simp add: log_ready_def)
  have IH: "\<And>i. i < m \<Longrightarrow> a_view ?B (home l i) = a_view A (slot l i) \<and> a_disk ?B (home l i) = a_view A (slot l i) \<and>
       a_refs ?B (home l i) = a_refs A (home l i) - 1"
    "\<And>k. k \<notin> home l ` {..<m} \<Longrightarrow> a_view ?B k = a_view A k \<and> a_disk ?B k = a_disk A k \<and> a_refs ?B k = a_refs A k"
    "a_lock ?B = a_lock A" "a_free A \<le> a_free ?B"
    using Suc.IH [OF Suc.prems(1)] Suc.prems(2) by auto
  have ne: "home l i \<noteq> home l m" if "i < m" for i using home_inj [OF Suc.prems(1), of i m] that Suc.prems(2) by auto
  have "slot l m \<noteq> home l i" if "i < m" for i
    using home_slot [OF Suc.prems(1), of i m] that Suc.prems(2) n by fastforce
  then have hm: "a_view ?B (slot l m) = a_view A (slot l m)" using IH(2) [of "slot l m"] by blast
  have rm: "a_refs ?B (home l m) = a_refs A (home l m)" using IH(2) [of "home l m"] ne by (metis imageE lessThan_iff)
  show ?case using IH hm rm ne by (auto simp: Let_def less_Suc_eq lessThan_Suc simp del: split_paired_All)
qed simp

section \<open>The phases refine their abstract effect\<close>

lemma for_steps_append:
  "for_steps f (xs @ ys) c = (case for_steps f xs c of Some (Inr c) \<Rightarrow> for_steps f ys c | r \<Rightarrow> r)"
  by (induction xs arbitrary: c) (auto split: option.splits sum.splits)

lemma for_steps_upt_Suc: "for_steps f [0..<m] c = Some (Inr c') \<Longrightarrow> for_steps f [0..<Suc m] c = f m c'"
  by (auto simp: for_steps_append split: option.splits sum.splits)

lemma log_ready_keep:
  assumes "log_ready l A" "a_refs B = a_refs A" "a_lock B = a_lock A" "a_free B = a_free A" shows "log_ready l B"
  using assms by (simp add: log_ready_def)

lemma write_log_step_abs:
  assumes inv: "bcache_inv c" and rd: "log_ready l (acache_of c)" and i: "i < l_n l"
  obtains c' where "write_log_step pid l i c = Some (Inr c')" "bcache_inv c'"
    "acache_of c' = (acache_of c)\<lparr>a_view := (a_view (acache_of c))(slot l i := a_view (acache_of c) (home l i)),
       a_disk := (a_disk (acache_of c))(slot l i := a_view (acache_of c) (home l i))\<rparr>"
proof -
  let ?A = "acache_of c"
  have n: "i < LOGSIZE" "l_dev l \<noteq> 0" using rd i by (auto simp: log_ready_def)
  have ar: "slot l i \<in> log_area l" using n by (auto simp: log_area_def)
  have ne: "ls l i \<noteq> l_block l ! i" "home l i \<noteq> slot l i" using home_slot [OF rd i n(1)] by (auto simp: home_def slot_def)
  have b: "a_refs ?A (home l i) + 1 < 2 ^ 32" "a_refs ?A (slot l i) + 1 < 2 ^ 32" "a_lock ?A = {}" "2 \<le> a_free ?A" "0 < a_refs ?A (home l i)"
    using rd i ar by (auto simp: log_ready_def)
  obtain ht c1 hs c2 where 1: "bread pid (l_dev l) (ls l i) c = Some (Inr (ht, c1))" "bread pid (l_dev l) (l_block l ! i) c1 = Some (Inr (hs, c2))"
    "bcache_inv c2" "holds pid c2 ht (slot l i)" "holds pid c2 hs (home l i)" "acache_of c2 = sp_bread (home l i) (sp_bread (slot l i) ?A)"
    using bc.read2_ok [OF inv n(2) ne(1) b(3,4), of pid] b(1,2) unfolding home_def slot_def by metis
  obtain c3 c4 c5 where 2: "bwrite pid ht (set_data ht (b_data (bufs c2 hs)) c2) = Inr c3"
    "brelse pid hs (if False then bunpin ht c3 else c3) = Inr c4" "brelse pid ht c4 = Inr c5" "bcache_inv c5"
    "acache_of c5 = ?A\<lparr>a_view := (a_view ?A)(slot l i := a_view ?A (home l i)), a_disk := (a_disk ?A)(slot l i := a_view ?A (home l i)),
       a_refs := (a_refs ?A)(slot l i := a_refs ?A (slot l i) - (if False then 1 else 0)),
       a_free := a_free ?A + (if False \<and> a_refs ?A (slot l i) = 1 then 1 else 0)\<rparr>"
    by (rule bc.copy_ok [OF 1(3,5,4) _ ne(2) b(3,4), where p = False]) (use 1(6) b(5) sp_bread_swap [OF ne(2)] in simp_all)
  have "write_log_step pid l i c = Some (Inr c5)"
    using 1(1,2) 2(1-3) by (simp add: write_log_step_def with_buf_def ls_def)
  then show thesis using that 2(4,5) by simp
qed

lemma install_step_abs:
  assumes inv: "bcache_inv c" and i: "i < LOGSIZE" "l_dev l \<noteq> 0" and ne: "home l i \<noteq> slot l i"
    and b: "0 < a_refs (acache_of c) (home l i)" "a_refs (acache_of c) (home l i) + 1 < 2 ^ 32" "a_refs (acache_of c) (slot l i) + 1 < 2 ^ 32"
      "a_lock (acache_of c) = {}" "2 \<le> a_free (acache_of c)"
  obtains c' where "install_step pid False l i c = Some (Inr c')" "bcache_inv c'"
    "acache_of c' = (acache_of c)\<lparr>a_view := (a_view (acache_of c))(home l i := a_view (acache_of c) (slot l i)),
       a_disk := (a_disk (acache_of c))(home l i := a_view (acache_of c) (slot l i)),
       a_refs := (a_refs (acache_of c))(home l i := a_refs (acache_of c) (home l i) - 1),
       a_free := a_free (acache_of c) + (if a_refs (acache_of c) (home l i) = 1 then 1 else 0)\<rparr>"
proof -
  let ?A = "acache_of c"
  have ne': "ls l i \<noteq> l_block l ! i" "slot l i \<noteq> home l i" using ne by (auto simp: home_def slot_def)
  obtain hs c1 ht c2 where 1: "bread pid (l_dev l) (ls l i) c = Some (Inr (hs, c1))" "bread pid (l_dev l) (l_block l ! i) c1 = Some (Inr (ht, c2))"
    "bcache_inv c2" "holds pid c2 hs (slot l i)" "holds pid c2 ht (home l i)" "acache_of c2 = sp_bread (home l i) (sp_bread (slot l i) ?A)"
    using bc.read2_ok [OF inv i(2) ne'(1) b(4,5), of pid] b(2,3) unfolding home_def slot_def by metis
  have coh: "a_refs ?A (slot l i) = 0 \<Longrightarrow> a_view ?A (slot l i) = a_disk ?A (slot l i)"
    using acache_coherent [OF inv, of "slot l i"] i(2) by (simp add: slot_def)
  obtain c3 c4 c5 where 2: "bwrite pid ht (set_data ht (b_data (bufs c2 hs)) c2) = Inr c3"
    "brelse pid hs (if True then bunpin ht c3 else c3) = Inr c4" "brelse pid ht c4 = Inr c5" "bcache_inv c5"
    "acache_of c5 = ?A\<lparr>a_view := (a_view ?A)(home l i := a_view ?A (slot l i)), a_disk := (a_disk ?A)(home l i := a_view ?A (slot l i)),
       a_refs := (a_refs ?A)(home l i := a_refs ?A (home l i) - (if True then 1 else 0)),
       a_free := a_free ?A + (if True \<and> a_refs ?A (home l i) = 1 then 1 else 0)\<rparr>"
    by (rule bc.copy_ok [OF 1(3-6) ne'(2) b(4,5) _ coh, where p = True]) (use b(1) in auto)
  have "install_step pid False l i c = Some (Inr c5)"
    using 1(1,2) 2(1-3) by (simp add: install_step_def with_buf_def ls_def Let_def)
  then show thesis using that 2(4,5) by simp
qed

lemma write_log_abs:
  "bcache_inv c \<Longrightarrow> log_ready l (acache_of c) \<Longrightarrow> m \<le> l_n l \<Longrightarrow>
     \<exists>c'. for_steps (write_log_step pid l) [0..<m] c = Some (Inr c') \<and> bcache_inv c' \<and> acache_of c' = sp_write_log l m (acache_of c)"
proof (induction m)
  case (Suc m)
  then obtain c1 where c1: "for_steps (write_log_step pid l) [0..<m] c = Some (Inr c1)" "bcache_inv c1" "acache_of c1 = sp_write_log l m (acache_of c)"
    by auto
  have "log_ready l (acache_of c1)" using log_ready_keep [OF Suc.prems(2)] by (simp add: c1(3) sp_write_log_frame)
  then obtain c2 where "write_log_step pid l m c1 = Some (Inr c2)" "bcache_inv c2" "acache_of c2 = sp_write_log l (Suc m) (acache_of c)"
    using write_log_step_abs [OF c1(2), of l m pid] Suc.prems(3) by (auto simp: c1(3) Let_def)
  then show ?case using for_steps_upt_Suc [OF c1(1)] by auto
qed simp

lemma install_abs:
  "bcache_inv c \<Longrightarrow> log_ready l (acache_of c) \<Longrightarrow> m \<le> l_n l \<Longrightarrow>
     \<exists>c'. for_steps (install_step pid False l) [0..<m] c = Some (Inr c') \<and> bcache_inv c' \<and> acache_of c' = sp_install l m (acache_of c)"
proof (induction m)
  case (Suc m)
  then obtain c1 where c1: "for_steps (install_step pid False l) [0..<m] c = Some (Inr c1)" "bcache_inv c1" "acache_of c1 = sp_install l m (acache_of c)"
    by auto
  let ?A = "acache_of c" and ?B = "acache_of c1"
  have n: "m < LOGSIZE" "l_dev l \<noteq> 0" "m < l_n l" using Suc.prems(2,3) by (auto simp: log_ready_def)
  have at: "a_refs ?B k = a_refs ?A k" if "k \<notin> home l ` {..<m}" for k
    using sp_install_at [OF Suc.prems(2), of m] n(3) that unfolding c1(3) by (simp del: split_paired_All acache_of_sel)
  have lf: "a_lock ?B = {}" "2 \<le> a_free ?B"
    using sp_install_at [OF Suc.prems(2), of m] n(3) Suc.prems(2) by (auto simp: c1(3) log_ready_def)
  have ne: "home l i \<noteq> home l m" if "i < m" for i using home_inj [OF Suc.prems(2), of i m] that n(3) by auto
  have ns: "home l i \<noteq> slot l m" if "i \<le> m" for i using home_slot [OF Suc.prems(2), of i m] that n by simp
  have rh: "a_refs ?B (home l m) = a_refs ?A (home l m)" by (rule at) (use ne in \<open>metis imageE lessThan_iff\<close>)
  have rs: "a_refs ?B (slot l m) = a_refs ?A (slot l m)" by (rule at) (use ns in \<open>metis imageE lessThan_iff less_imp_le\<close>)
  have "slot l m \<in> log_area l" using n(1) by (auto simp: log_area_def)
  then have b: "0 < a_refs ?A (home l m)" "a_refs ?A (home l m) + 1 < 2 ^ 32" "a_refs ?A (slot l m) + 1 < 2 ^ 32"
    using Suc.prems(2) n(3) by (auto simp: log_ready_def)
  obtain c2 where "install_step pid False l m c1 = Some (Inr c2)" "bcache_inv c2" "acache_of c2 = sp_install l (Suc m) ?A"
    using install_step_abs [OF c1(2) n(1,2) ns [of m] _ _ _ lf, of pid] b rh rs by (auto simp: c1(3) Let_def)
  then show ?case using for_steps_upt_Suc [OF c1(1)] by auto
qed simp

definition head_bytes :: "log \<Rightarrow> u8 list \<Rightarrow> u8 list" where
  "head_bytes l d = put_blocks (l_block l) [0..<l_n l] (put32 0 (of_nat (l_n l)) d)"

lemma put_blocks_at:
  "m \<le> LOGSIZE \<Longrightarrow> length d = BSIZE \<Longrightarrow>
     length (put_blocks bl [0..<m] d) = BSIZE \<and> get32 0 (put_blocks bl [0..<m] d) = get32 0 d \<and>
     (\<forall>i < m. get32 (4 + 4 * i) (put_blocks bl [0..<m] d) = bl ! i)"
proof (induction m)
  case (Suc m)
  have snoc: "put_blocks bl (xs @ [i]) d = put32 (4 + 4 * i) (bl ! i) (put_blocks bl xs d)" for xs i
    by (induction xs arbitrary: d) auto
  have m: "4 + 4 * m + 4 \<le> BSIZE" using Suc.prems(1) by (simp add: BSIZE_def LOGSIZE_def MAXOPBLOCKS_def)
  show ?case using Suc m by (auto simp: snoc get_put32 less_Suc_eq)
qed simp

lemma head_bytes_at:
  assumes "l_n l \<le> LOGSIZE" "length d = BSIZE"
  shows "get32 0 (head_bytes l d) = of_nat (l_n l)" "i < l_n l \<Longrightarrow> get32 (4 + 4 * i) (head_bytes l d) = l_block l ! i"
    "length (head_bytes l d) = BSIZE"
  using put_blocks_at [OF assms(1), of "put32 0 (of_nat (l_n l)) d" "l_block l"] assms(2)
  by (simp_all add: head_bytes_def BSIZE_def get_put32)

lemma write_head_abs:
  assumes inv: "bcache_inv c" and r: "l_dev l \<noteq> 0" "a_lock (acache_of c) = {}" "0 < a_free (acache_of c)"
    "a_refs (acache_of c) (l_dev l, l_start l) + 1 < 2 ^ 32"
  obtains c' where "write_head pid (l, c) = Some (Inr c')" "bcache_inv c'"
    "acache_of c' = (acache_of c)\<lparr>a_view := (a_view (acache_of c))((l_dev l, l_start l) := head_bytes l (a_view (acache_of c) (l_dev l, l_start l))),
       a_disk := (a_disk (acache_of c))((l_dev l, l_start l) := head_bytes l (a_view (acache_of c) (l_dev l, l_start l)))\<rparr>"
proof -
  let ?k = "(l_dev l, l_start l)"
  obtain h c1 c2 c3 where "bread pid (l_dev l) (l_start l) c = Some (Inr (h, c1))" "b_data (bufs c1 h) = a_view (acache_of c) ?k"
    "bwrite pid h (set_data h (head_bytes l (a_view (acache_of c) ?k)) c1) = Inr c2" "brelse pid h c2 = Inr c3" "bcache_inv c3"
    "acache_of c3 = (acache_of c)\<lparr>a_view := (a_view (acache_of c))(?k := head_bytes l (a_view (acache_of c) ?k)),
       a_disk := (a_disk (acache_of c))(?k := head_bytes l (a_view (acache_of c) ?k))\<rparr>"
    by (rule bc.update_ok [OF inv r])
  then show thesis using that [of c3] by (simp add: write_head_def with_buf_def head_bytes_def Let_def)
qed

section \<open>Correctness of a commit\<close>

text \<open>The first two phases: the data and then the header go to the log area.\<close>

lemma log_phases:
  assumes inv: "bcache_inv c" and r: "log_ready l (acache_of c)"
  obtains c1 c2 where "write_log pid (l, c) = Some (Inr c1)" "write_head pid (l, c1) = Some (Inr c2)"
    "bcache_inv c2" "log_ready l (acache_of c2)"
    "a_disk (acache_of c2) (l_dev l, l_start l) = head_bytes l (a_view (acache_of c) (l_dev l, l_start l))"
    "\<And>i. i < l_n l \<Longrightarrow> a_view (acache_of c2) (slot l i) = a_view (acache_of c) (home l i)"
    "\<And>i. i < l_n l \<Longrightarrow> a_disk (acache_of c2) (slot l i) = a_view (acache_of c) (home l i)"
    "\<And>k. k \<notin> log_area l \<Longrightarrow> a_view (acache_of c2) k = a_view (acache_of c) k"
    "\<And>k. k \<notin> log_area l \<Longrightarrow> a_disk (acache_of c2) k = a_disk (acache_of c) k"
    "a_refs (acache_of c2) = a_refs (acache_of c)" 
    "a_view (acache_of c2) (l_dev l, l_start l) = head_bytes l (a_view (acache_of c) (l_dev l, l_start l))"
proof -
  let ?A = "acache_of c" and ?hd = "(l_dev l, l_start l)"
  have n: "l_n l \<le> LOGSIZE" "l_dev l \<noteq> 0" "a_lock ?A = {}" "2 \<le> a_free ?A" "a_refs ?A ?hd + 1 < 2 ^ 32"
    using r by (auto simp: log_ready_def log_area_def)
  obtain c1 where c1: "write_log pid (l, c) = Some (Inr c1)" "bcache_inv c1" "acache_of c1 = sp_write_log l (l_n l) ?A"
    using write_log_abs [OF inv r order.refl, of pid] by (auto simp: write_log_def)
  note fr = sp_write_log_frame [of l "l_n l" ?A, folded c1(3)]
  have at: "a_view (acache_of c1) (slot l i) = a_view ?A (home l i) \<and> a_disk (acache_of c1) (slot l i) = a_view ?A (home l i)" if "i < l_n l" for i
    using sp_write_log_at [OF r order.refl] that unfolding c1(3) by blast
  have away: "a_view (acache_of c1) k = a_view ?A k \<and> a_disk (acache_of c1) k = a_disk ?A k" if "k \<notin> slot l ` {..<l_n l}" for k
    using sp_write_log_at [OF r order.refl] that unfolding c1(3) by blast
  have hd: "?hd \<notin> slot l ` {..<l_n l}" using slot_not_head [of _ l] n(1) by (metis imageE lessThan_iff order.strict_trans2)
  have sl: "slot l ` {..<l_n l} \<subseteq> log_area l" using n(1) by (auto simp: log_area_def)
  obtain c2 where c2: "write_head pid (l, c1) = Some (Inr c2)" "bcache_inv c2"
    "acache_of c2 = (acache_of c1)\<lparr>a_view := (a_view (acache_of c1))(?hd := head_bytes l (a_view (acache_of c1) ?hd)),
       a_disk := (a_disk (acache_of c1))(?hd := head_bytes l (a_view (acache_of c1) ?hd))\<rparr>"
    by (rule write_head_abs [OF c1(2) n(2)]) (use n fr in auto)
  have r2: "log_ready l (acache_of c2)" by (rule log_ready_keep [OF r]) (simp_all add: c2(3) fr)
  have vd: "a_view (acache_of c1) ?hd = a_view ?A ?hd" using away [OF hd] by blast
  have ns: "slot l i \<noteq> ?hd" if "i < l_n l" for i using slot_not_head that n(1) by simp
  have na: "k \<noteq> ?hd" "k \<notin> slot l ` {..<l_n l}" if "k \<notin> log_area l" for k using that sl by (auto simp: log_area_def)
  have v2: "a_view (acache_of c2) = (a_view (acache_of c1))(?hd := head_bytes l (a_view ?A ?hd))"
    "a_disk (acache_of c2) = (a_disk (acache_of c1))(?hd := head_bytes l (a_view ?A ?hd))" "a_refs (acache_of c2) = a_refs ?A"
    unfolding c2(3) vd by (simp_all add: fr del: acache_of_sel)
  show thesis
    by (rule that [OF c1(1) c2(1,2) r2]) (use at away ns na v2 in \<open>auto simp del: acache_of_sel\<close>)
qed

lemma commit_phases:
  assumes inv: "bcache_inv c" and r: "log_ready l (acache_of c)" and n0: "0 < l_n l"
  obtains c' where "commit pid (l, c) = Some (Inr (l\<lparr>l_n := 0\<rparr>, c'))" "bcache_inv c'"
    "\<And>i. i < l_n l \<Longrightarrow> a_disk (acache_of c') (home l i) = a_view (acache_of c) (home l i)"
    "\<And>i. i < l_n l \<Longrightarrow> a_refs (acache_of c') (home l i) = a_refs (acache_of c) (home l i) - 1"
    "\<And>k. k \<notin> log_area l \<Longrightarrow> a_view (acache_of c') k = a_view (acache_of c) k"
    "\<And>k. k \<notin> log_area l \<Longrightarrow> k \<notin> home l ` {..<l_n l} \<Longrightarrow> a_disk (acache_of c') k = a_disk (acache_of c) k"
    "a_disk (acache_of c') (l_dev l, l_start l) =
       head_bytes (l\<lparr>l_n := 0\<rparr>) (head_bytes l (a_view (acache_of c) (l_dev l, l_start l)))"
proof -
  let ?A = "acache_of c" and ?hd = "(l_dev l, l_start l)"
  obtain c1 c2 where p: "write_log pid (l, c) = Some (Inr c1)" "write_head pid (l, c1) = Some (Inr c2)"
    "bcache_inv c2" "log_ready l (acache_of c2)"
    "\<And>i. i < l_n l \<Longrightarrow> a_view (acache_of c2) (slot l i) = a_view ?A (home l i)"
    "\<And>k. k \<notin> log_area l \<Longrightarrow> a_view (acache_of c2) k = a_view ?A k"
    "\<And>k. k \<notin> log_area l \<Longrightarrow> a_disk (acache_of c2) k = a_disk ?A k"
    "a_refs (acache_of c2) = a_refs ?A" "a_view (acache_of c2) ?hd = head_bytes l (a_view ?A ?hd)"
    by (rule log_phases [OF inv r, of pid]) blast
  obtain c3 where c3: "install_trans pid False (l, c2) = Some (Inr c3)" "bcache_inv c3" "acache_of c3 = sp_install l (l_n l) (acache_of c2)"
    using install_abs [OF p(3,4) order.refl, of pid] by (auto simp: install_trans_def)
  note at = sp_install_at [OF p(4) order.refl, folded c3(3)]
  have nh: "home l i \<notin> log_area l" if "i < l_n l" for i using r that by (simp add: log_ready_def)
  have "?hd \<in> log_area l" by (simp add: log_area_def)
  then have hh: "?hd \<notin> home l ` {..<l_n l}" using nh by (metis imageE lessThan_iff)
  have dv: "l_dev l \<noteq> 0" "a_lock (acache_of c3) = {}" "0 < a_free (acache_of c3)" "a_refs (acache_of c3) ?hd + 1 < 2 ^ 32"
    using at p(4) hh by (auto simp: log_ready_def log_area_def simp del: split_paired_All acache_of_sel)
  let ?l = "l\<lparr>l_n := 0\<rparr>"
  obtain c4 where c4: "write_head pid (?l, c3) = Some (Inr c4)" "bcache_inv c4"
    "acache_of c4 = (acache_of c3)\<lparr>a_view := (a_view (acache_of c3))(?hd := head_bytes ?l (a_view (acache_of c3) ?hd)),
       a_disk := (a_disk (acache_of c3))(?hd := head_bytes ?l (a_view (acache_of c3) ?hd))\<rparr>"
    by (rule write_head_abs [OF c3(2), of ?l pid]) (use dv in \<open>simp_all del: acache_of_sel\<close>)
  have v4: "a_view (acache_of c4) = (a_view (acache_of c3))(?hd := head_bytes ?l (a_view (acache_of c3) ?hd))"
    "a_disk (acache_of c4) = (a_disk (acache_of c3))(?hd := head_bytes ?l (a_view (acache_of c3) ?hd))" "a_refs (acache_of c4) = a_refs (acache_of c3)"
    unfolding c4(3) by simp_all
  have cm: "commit pid (l, c) = Some (Inr (?l, c4))" using n0 p(1,2) c3(1) c4(1) by (simp add: commit_def then_cache_def Let_def)
  have hd3: "a_view (acache_of c3) ?hd = head_bytes l (a_view ?A ?hd)" using at hh p(9) by metis
  have hm: "home l i \<noteq> ?hd" if "i < l_n l" for i using nh [OF that] by (auto simp: log_area_def)
  have A: "a_disk (acache_of c4) (home l i) = a_view ?A (home l i) \<and> a_refs (acache_of c4) (home l i) = a_refs ?A (home l i) - 1"
    if "i < l_n l" for i using at that p(5,8) hm [OF that] unfolding v4 by (simp del: acache_of_sel)
  have B: "a_view (acache_of c4) k = a_view ?A k" if "k \<notin> log_area l" for k
  proof (cases "k \<in> home l ` {..<l_n l}")
    case True
    then obtain i where "i < l_n l" "k = home l i" by blast
    then show ?thesis using at p(5) hm unfolding v4 by (simp del: acache_of_sel)
  next
    case False
    then show ?thesis using at p(6) [OF that] that unfolding v4 by (simp add: log_area_def del: acache_of_sel split_paired_All)
  qed
  have C: "a_disk (acache_of c4) k = a_disk ?A k" if "k \<notin> log_area l" "k \<notin> home l ` {..<l_n l}" for k
    using at p(7) [OF that(1)] that unfolding v4 by (simp add: log_area_def del: acache_of_sel split_paired_All)
  show thesis
    by (rule that [OF cm c4(2)]) (use A B C v4 hd3 in \<open>auto simp del: acache_of_sel\<close>)
qed

section \<open>Recovery\<close>

text \<open>\<^verbatim>\<open>bread\<close> returns a buffer of the block asked for and does not write the disk, in any cache.\<close>

lemma scan_next_P: "scan_next fuel P h b = Some r \<Longrightarrow> r \<noteq> 0 \<Longrightarrow> P r"
  by (induction fuel P h b rule: scan_next.induct) (auto split: if_splits)

lemma lock_buf_Inr: "lock_buf pid b c = Inr (b', c') \<Longrightarrow> b' = b \<and> key c' b = key c b \<and> disk c' = disk c"
  by (auto simp: lock_buf_def key_def)

lemma bread_key:
  assumes "bread pid dev bno c = Some (Inr (b, c'))"
  shows "key c' b = (dev, bno) \<and> disk c' = disk c"
proof -
  obtain c1 where c1: "bget pid dev bno c = Some (Inr (b, c1))" and c': "key c' b = key c1 b" "disk c' = disk c1"
    using assms by (auto simp: bread_def virtio_disk_rw_def key_def Let_def split: option.splits sum.splits if_splits)
  have "key c1 b = (dev, bno) \<and> disk c1 = disk c"
    using c1 by (auto simp: bget_def key_def split: option.splits if_splits dest!: lock_buf_Inr scan_next_P)
  then show ?thesis using c' by simp
qed

lemma brelse_disk: "brelse pid b c = Inr c' \<Longrightarrow> disk c' = disk c"
  by (auto simp: brelse_def Let_def split: if_splits)

lemma write_head_disk:
  assumes "write_head pid (l, c) = Some (Inr c')"
  shows "\<exists>d. disk c' = (disk c)(l_dev l := (disk c (l_dev l))(l_start l := head_bytes l d))"
proof -
  obtain b c1 c2 where b: "bread pid (l_dev l) (l_start l) c = Some (Inr (b, c1))"
    "bwrite pid b (set_data b (head_bytes l (b_data (bufs c1 b))) c1) = Inr c2" "brelse pid b c2 = Inr c'"
    using assms by (auto simp: write_head_def with_buf_def head_bytes_def Let_def split: option.splits sum.splits)
  note k = bread_key [OF b(1)]
  have "disk c2 = (disk c)(l_dev l := (disk c (l_dev l))(l_start l := head_bytes l (b_data (bufs c1 b))))"
    using b(2) k by (auto simp: bwrite_def virtio_disk_rw_def set_data_def key_def Let_def split: if_splits)
  then show ?thesis using brelse_disk [OF b(3)] by auto
qed

lemma read_head_disk:
  "read_head pid (l, c) = Some (Inr (l', c')) \<Longrightarrow> disk c' = disk c \<and> l_n l' = l_n l \<and> l_dev l' = l_dev l \<and> l_start l' = l_start l"
  by (auto simp: read_head_def with_buf_def set_data_def Let_def split: option.splits sum.splits dest!: brelse_disk bread_key)

section \<open>A small example\<close>

text \<open>A cache right after \<^verbatim>\<open>binit\<close>, over a given disk.\<close>

definition disk_cache :: "(u32 \<Rightarrow> u32 \<Rightarrow> u8 list) \<Rightarrow> bcache" where
  "disk_cache D = binit (zero_bcache\<lparr>disk := D\<rparr>)"

definition zero_disk :: "u32 \<Rightarrow> u32 \<Rightarrow> u8 list" where "zero_disk d n = replicate BSIZE 0"

lemma disk_cache_ok:
  "bcache_inv (disk_cache D)" "d \<noteq> 0 \<Longrightarrow> view (disk_cache D) d n = D d n" "disk (disk_cache D) d n = D d n"
  "b_dev (bufs (disk_cache D) a) = 0" "b_refcnt (bufs (disk_cache D) a) = 0" "a \<in> bptrs \<Longrightarrow> \<not> sl_locked (b_lock (bufs (disk_cache D) a))"
  "a_refs (acache_of (disk_cache D)) = (\<lambda>_. 0)" "a_lock (acache_of (disk_cache D)) = {}" "a_free (acache_of (disk_cache D)) = NBUF"
proof -
  show "bcache_inv (disk_cache D)" "d \<noteq> 0 \<Longrightarrow> view (disk_cache D) d n = D d n"
    unfolding disk_cache_def by (simp_all add: binit_inv zero_bcache_def)
  have "dll (links (zero_bcache\<lparr>disk := D, links := INIT_LIST_HEAD bc_head (links zero_bcache)\<rparr>)) bc_head []" by (simp add: dll_init)
  from binit_loop_spec [OF this, of "[0..<NBUF]"] show "disk (disk_cache D) d n = D d n" by (simp add: disk_cache_def binit_def)
  show bf: "b_dev (bufs (disk_cache D) a) = 0" "b_refcnt (bufs (disk_cache D) a) = 0" "a \<in> bptrs \<Longrightarrow> \<not> sl_locked (b_lock (bufs (disk_cache D) a))" for a
    by (simp_all add: disk_cache_def binit_bufs zero_bcache_def initsleeplock_def)
  show "a_refs (acache_of (disk_cache D)) = (\<lambda>_. 0)" "a_lock (acache_of (disk_cache D)) = {}" "a_free (acache_of (disk_cache D)) = NBUF"
    using bf card_bptrs by (auto simp: acache_of_def)
qed

definition sample_cache :: bcache where
  "sample_cache = (disk_cache zero_disk)\<lparr>bufs := (bufs (disk_cache zero_disk))(buf_ptr 0 :=
     \<lparr>b_valid = True, b_dev = 1, b_blockno = 100, b_lock = initsleeplock, b_refcnt = 1, b_data = replicate BSIZE 0\<rparr>)\<rparr>"

definition sample_log :: log where
  "sample_log = zero_log\<lparr>l_start := 2, l_size := 31, l_dev := 1, l_n := 1, l_block := 100 # replicate (LOGSIZE - 1) 0\<rparr>"

lemma sample_ready:
  "bcache_inv sample_cache" "log_ready sample_log (acache_of sample_cache)" "view sample_cache 1 n = replicate BSIZE 0"
proof -
  define x where "x = \<lparr>b_valid = True, b_dev = 1, b_blockno = 100, b_lock = initsleeplock, b_refcnt = 1, b_data = replicate BSIZE 0\<rparr>"
  note ci = disk_cache_ok(1,2) [where D = zero_disk] and bf = disk_cache_ok(4-6) [where D = zero_disk]
    and A = disk_cache_ok(7-9) [where D = zero_disk]
  have b0: "buf_ptr 0 \<in> bptrs" by (simp add: bptrs_def NBUF_def)
  have sc: "sample_cache = (disk_cache zero_disk)\<lparr>bufs := (bufs (disk_cache zero_disk))(buf_ptr 0 := x)\<rparr>" by (simp add: sample_cache_def x_def)
  have ib: "bcache_inv sample_cache" "d \<noteq> 0 \<Longrightarrow> view sample_cache d n = view (disk_cache zero_disk) d n" for d n
    by (rule install_buf [OF ci(1) b0, where dev = 1 and bno = 100 and x = x and c' = sample_cache];
        use ci(2) bf in \<open>simp add: key_def x_def sc zero_disk_def\<close>)+
  show "bcache_inv sample_cache" by (rule ib(1))
  show "view sample_cache 1 n = replicate BSIZE 0" using ib(2) ci(2) by (simp add: zero_disk_def)
  note up = acache_upd [OF ci(1) ib(1) b0, where k = "(1, 100)"]
  have B: "a_refs (acache_of sample_cache) = (\<lambda>_. 0)((1, 100) := 1)" "a_lock (acache_of sample_cache) = {}" "a_free (acache_of sample_cache) = NBUF - 1"
    using up A bf by (simp_all add: sc key_def x_def initsleeplock_def)
  have ns: "100 \<noteq> (2 + of_nat i + 1 :: u32)" if "i < 30" for i
  proof
    assume "100 = (2 + of_nat i + 1 :: u32)"
    then have "(of_nat 100 :: u32) = of_nat (3 + i)" by simp
    then have "unat (of_nat 100 :: u32) = unat (of_nat (3 + i) :: u32)" by (rule arg_cong)
    then show False using that by (simp add: unat_of_nat del: of_nat_add of_nat_numeral)
  qed
  have nh: "(100 :: u32) \<noteq> 2" by simp
  have "slot sample_log i = (1, 2 + of_nat i + 1)" for i by (simp add: slot_def ls_def sample_log_def)
  moreover have "(l_dev sample_log, l_start sample_log) = (1, 2)" "LOGSIZE = 30"
    by (simp_all add: sample_log_def LOGSIZE_def MAXOPBLOCKS_def)
  ultimately have na: "(1, 100) \<notin> log_area sample_log" using ns nh by (fastforce simp only: log_area_def image_iff insert_iff lessThan_iff prod.inject)
  show "log_ready sample_log (acache_of sample_cache)"
    unfolding log_ready_def B using na
    by (auto simp: sample_log_def zero_log_def home_def NBUF_def LOGSIZE_def MAXOPBLOCKS_def)
qed

section \<open>Properties\<close>

text \<open>
  C17: a commit of a log that is ready (no file operation in progress) always completes. It brings the disk up to date
  with what the logged blocks read as in the cache, changes no other block outside the log area and
  not what any such block reads as, keeps the cache invariant, drops the pins, and leaves an empty
  log in memory and in the header on disk.
\<close>

theorem commit_correct:
  assumes "bcache_inv c" "log_ready l (acache_of c)" "0 < l_n l" "length (view c (l_dev l) (l_start l)) = BSIZE"
  shows "\<exists>c'. commit pid (l, c) = Some (Inr (l\<lparr>l_n := 0\<rparr>, c')) \<and> bcache_inv c' \<and>
    (\<forall>i < l_n l. disk c' (l_dev l) (l_block l ! i) = view c (l_dev l) (l_block l ! i)) \<and>
    (\<forall>i < l_n l. a_refs (acache_of c') (home l i) = a_refs (acache_of c) (home l i) - 1) \<and>
    (\<forall>d n. d \<noteq> 0 \<longrightarrow> (d, n) \<notin> log_area l \<longrightarrow> view c' d n = view c d n) \<and>
    (\<forall>d n. (d, n) \<notin> log_area l \<longrightarrow> (d, n) \<notin> home l ` {..<l_n l} \<longrightarrow> disk c' d n = disk c d n) \<and>
    get32 0 (disk c' (l_dev l) (l_start l)) = 0"
proof -
  have n: "l_n l \<le> LOGSIZE" "l_dev l \<noteq> 0" using assms(2) by (auto simp: log_ready_def)
  obtain c' where c': "commit pid (l, c) = Some (Inr (l\<lparr>l_n := 0\<rparr>, c'))" "bcache_inv c'"
    "\<And>i. i < l_n l \<Longrightarrow> a_disk (acache_of c') (home l i) = a_view (acache_of c) (home l i)"
    "\<And>i. i < l_n l \<Longrightarrow> a_refs (acache_of c') (home l i) = a_refs (acache_of c) (home l i) - 1"
    "\<And>k. k \<notin> log_area l \<Longrightarrow> a_view (acache_of c') k = a_view (acache_of c) k"
    "\<And>k. k \<notin> log_area l \<Longrightarrow> k \<notin> home l ` {..<l_n l} \<Longrightarrow> a_disk (acache_of c') k = a_disk (acache_of c) k"
    "a_disk (acache_of c') (l_dev l, l_start l) = head_bytes (l\<lparr>l_n := 0\<rparr>) (head_bytes l (a_view (acache_of c) (l_dev l, l_start l)))"
    by (rule commit_phases [OF assms(1-3), of pid]) blast
  have "length (head_bytes l (view c (l_dev l) (l_start l))) = BSIZE" by (rule head_bytes_at(3) [OF n(1) assms(4)])
  then have h: "get32 0 (disk c' (l_dev l) (l_start l)) = 0"
    using head_bytes_at(1) [of "l\<lparr>l_n := 0\<rparr>"] c'(7) n by simp
  have v: "view c' d n = view c d n" if "d \<noteq> 0" "(d, n) \<notin> log_area l" for d n using c'(5) [OF that(2)] that(1) by simp
  have dk: "disk c' d n = disk c d n" if "(d, n) \<notin> log_area l" "(d, n) \<notin> home l ` {..<l_n l}" for d n using c'(6) [OF that] by simp
  have hm: "disk c' (l_dev l) (l_block l ! i) = view c (l_dev l) (l_block l ! i)" if "i < l_n l" for i
    using c'(3) [OF that] n(2) by (simp add: home_def)
  show ?thesis using c'(1,2,4) h v dk hm by blast
qed

theorem commit_correct_witness:
  "\<exists>c'. commit 3 (sample_log, sample_cache) = Some (Inr (sample_log\<lparr>l_n := 0\<rparr>, c')) \<and> disk c' 1 100 = replicate BSIZE 0"
proof -
  have s: "l_dev sample_log = 1" "l_n sample_log = 1" "l_block sample_log ! 0 = 100" by (simp_all add: sample_log_def)
  show ?thesis using commit_correct [OF sample_ready(1,2), of 3] s sample_ready(3) by auto
qed

text \<open>
  C18: the commit point. When \<^verbatim>\<open>write_log\<close> and \<^verbatim>\<open>write_head\<close> have run, the disk holds in the log area
  everything needed to redo the transaction: the header records the number of blocks and each block
  number, and log block \<open>i\<close> holds the new contents of block \<open>i\<close>; nothing outside the log area has
  been written yet.
\<close>

theorem commit_point:
  assumes "bcache_inv c" "log_ready l (acache_of c)" "length (view c (l_dev l) (l_start l)) = BSIZE"
  shows "\<exists>c1 c2. write_log pid (l, c) = Some (Inr c1) \<and> write_head pid (l, c1) = Some (Inr c2) \<and>
    get32 0 (disk c2 (l_dev l) (l_start l)) = of_nat (l_n l) \<and>
    (\<forall>i < l_n l. get32 (4 + 4 * i) (disk c2 (l_dev l) (l_start l)) = l_block l ! i \<and>
       disk c2 (l_dev l) (l_start l + of_nat i + 1) = view c (l_dev l) (l_block l ! i)) \<and>
    (\<forall>d n. (d, n) \<notin> log_area l \<longrightarrow> disk c2 d n = disk c d n)"
proof -
  have n: "l_n l \<le> LOGSIZE" "l_dev l \<noteq> 0" using assms(2) by (auto simp: log_ready_def)
  obtain c1 c2 where p: "write_log pid (l, c) = Some (Inr c1)" "write_head pid (l, c1) = Some (Inr c2)"
    "a_disk (acache_of c2) (l_dev l, l_start l) = head_bytes l (a_view (acache_of c) (l_dev l, l_start l))"
    "\<And>i. i < l_n l \<Longrightarrow> a_disk (acache_of c2) (slot l i) = a_view (acache_of c) (home l i)"
    "\<And>k. k \<notin> log_area l \<Longrightarrow> a_disk (acache_of c2) k = a_disk (acache_of c) k"
    by (rule log_phases [OF assms(1,2), of pid]) blast
  have hd: "disk c2 (l_dev l) (l_start l) = head_bytes l (view c (l_dev l) (l_start l))" using p(3) n(2) by simp
  have sl: "disk c2 (l_dev l) (l_start l + of_nat i + 1) = view c (l_dev l) (l_block l ! i)" if "i < l_n l" for i
    using p(4) [OF that] n(2) by (simp add: slot_def home_def ls_def)
  have dk: "disk c2 d n = disk c d n" if "(d, n) \<notin> log_area l" for d n using p(5) [OF that] by simp
  show ?thesis using p(1,2) sl dk head_bytes_at [OF n(1) assms(3)] by (intro exI [of _ c1] exI [of _ c2]) (simp add: hd)
qed

theorem commit_point_witness:
  "\<exists>c1 c2. write_log 3 (sample_log, sample_cache) = Some (Inr c1) \<and> write_head 3 (sample_log, c1) = Some (Inr c2) \<and>
     get32 0 (disk c2 1 2) = 1 \<and> get32 4 (disk c2 1 2) = 100"
proof -
  have s: "l_dev sample_log = 1" "l_n sample_log = 1" "l_block sample_log ! 0 = 100" "l_start sample_log = 2" by (simp_all add: sample_log_def)
  show ?thesis using commit_point [OF sample_ready(1,2), of 3] s sample_ready(3) by auto
qed

text \<open>
  C19: recovery replays nothing. \<^verbatim>\<open>read_head\<close> stores the number of logged blocks of the
  zero-initialised \<^verbatim>\<open>struct log\<close> into the header instead of loading it, so that after a crash between
  the commit point and the installation \<^verbatim>\<open>initlog\<close> leaves every block but the log header as it was
  on disk and then erases the header: the committed transaction is lost.
\<close>

theorem recovery_discards_log:
  assumes "initlog pid dev logstart nlog (zero_log, c) = Some (Inr (l', c'))"
  shows "\<exists>d. disk c' = (disk c)(dev := (disk c dev)(logstart := put32 0 0 d)) \<and> l_n l' = 0"
proof -
  let ?l = "zero_log\<lparr>l_start := logstart, l_size := sint nlog, l_dev := dev\<rparr>"
  have "recover_from_log pid (?l, c) = Some (Inr (l', c'))"
    using assms by (simp add: initlog_def LOGSIZE_def MAXOPBLOCKS_def BSIZE_def)
  then obtain l1 c1 c2 where r: "read_head pid (?l, c) = Some (Inr (l1, c1))" "install_trans pid True (l1, c1) = Some (Inr c2)"
    "write_head pid (l1\<lparr>l_n := 0\<rparr>, c2) = Some (Inr c')" "l' = l1\<lparr>l_n := 0\<rparr>"
    by (auto simp: recover_from_log_def then_cache_def Let_def split: option.splits sum.splits)
  note h = read_head_disk [OF r(1)]
  have c2: "c2 = c1" using r(2) h by (simp add: install_trans_def zero_log_def)
  then show ?thesis using write_head_disk [OF r(3)] h r(4) by (auto simp: head_bytes_def)
qed

text \<open>
  A crash right after the commit point: the header on disk says that block 100 is logged, with new
  contents 5, and block 100 still holds 6.
\<close>

definition crashed :: bcache where
  "crashed = \<lparr>bufs = \<lambda>_. \<lparr>b_valid = False, b_dev = 0, b_blockno = 0, b_lock = initsleeplock, b_refcnt = 0, b_data = []\<rparr>,
     links = \<lambda>a. if a = bc_head then \<lparr>nxt = buf_ptr 0, prv = buf_ptr 0\<rparr> else \<lparr>nxt = bc_head, prv = bc_head\<rparr>,
     disk = \<lambda>d n. if n = 2 then [1, 0, 0, 0, 100, 0, 0, 0] else if n = 3 then [5] else [6]\<rparr>"

lemma initlog_crashed: "case initlog 3 1 2 31 (zero_log, crashed) of Some (Inr _) \<Rightarrow> True | _ \<Rightarrow> False"
  by code_simp

theorem recovery_discards_log_witness:
  "\<exists>l' c' d. initlog 3 1 2 31 (zero_log, crashed) = Some (Inr (l', c')) \<and> disk c' 1 100 = [6] \<and> disk c' 1 2 = put32 0 0 d"
proof -
  obtain l' c' where i: "initlog 3 1 2 31 (zero_log, crashed) = Some (Inr (l', c'))"
    using initlog_crashed by (auto split: option.splits sum.splits)
  have "disk crashed 1 100 = [6]" by (simp add: crashed_def)
  then show ?thesis using recovery_discards_log [OF i] i by auto
qed

section \<open>Admission of file operations\<close>

text \<open>
  Any interleaving of file operations. The second component of a state is the number of blocks each
  operation in progress may still log, \<^verbatim>\<open>MAXOPBLOCKS\<close> when it begins.
\<close>

inductive op_step :: "lstate \<times> nat list \<Rightarrow> lstate \<times> nat list \<Rightarrow> bool" where
  begin_op: "log_begin_op s = Inr s' \<Longrightarrow> op_step (s, bs) (s', MAXOPBLOCKS # bs)"
| write_blk: "log_write b s = Inr s' \<Longrightarrow> i < length bs \<Longrightarrow> 0 < bs ! i \<Longrightarrow> op_step (s, bs) (s', bs[i := bs ! i - 1])"
| end_op: "log_end_op pid s = Some (Inr s') \<Longrightarrow> i < length bs \<Longrightarrow> op_step (s, bs) (s', take i bs @ drop (Suc i) bs)"

definition adm_inv :: "lstate \<times> nat list \<Rightarrow> bool" where
  "adm_inv = (\<lambda>((l, c), bs). l_outstanding l = int (length bs) \<and> \<not> l_committing l \<and> l_n l + sum_list bs \<le> LOGSIZE \<and>
     (\<forall>b \<in> set bs. b \<le> MAXOPBLOCKS))"

lemma log_write_fields:
  "log_write b (l, c) = Inr (l', c') \<Longrightarrow> l_n l \<le> l_n l' \<and> l_n l' \<le> l_n l + 1 \<and> l_outstanding l' = l_outstanding l \<and>
     l_committing l' = l_committing l \<and> l_size l' = l_size l"
  by (auto simp: log_write_def Let_def split: if_splits)

lemma commit_fields:
  "commit pid (l, c) = Some (Inr (l', c')) \<Longrightarrow> l' = l\<lparr>l_n := 0\<rparr> \<or> (l_n l = 0 \<and> l' = l)"
  by (auto simp: commit_def then_cache_def Let_def split: if_splits option.splits sum.splits)

lemma log_end_fields:
  "log_end_op pid (l, c) = Some (Inr (l', c')) \<Longrightarrow> l_n l' \<le> l_n l \<and> l_outstanding l' = l_outstanding l - 1 \<and>
     (\<not> l_committing l \<longrightarrow> \<not> l_committing l') \<and> l_size l' = l_size l"
  by (auto simp: log_end_op_def Let_def split: if_splits option.splits sum.splits dest!: commit_fields)

lemma adm_inv_step:
  assumes "op_step x y" "adm_inv x"
  shows "adm_inv y \<and> l_size (fst (fst y)) = l_size (fst (fst x))"
  using assms
proof (induction rule: op_step.induct)
  case (begin_op s s' bs)
  obtain l c where s: "s = (l, c)" by (cases s)
  have ns: "sum_list bs \<le> length bs * MAXOPBLOCKS" if "\<forall>b \<in> set bs. b \<le> MAXOPBLOCKS" using that by (induction bs) auto
  have lt: "int (l_n l) + (int (length bs) + 1) * int MAXOPBLOCKS \<le> int LOGSIZE" "s' = (l\<lparr>l_outstanding := l_outstanding l + 1\<rparr>, c)"
    using begin_op by (auto simp: s log_begin_op_def adm_inv_def Let_def split: if_splits)
  then have "l_n l + (length bs + 1) * MAXOPBLOCKS \<le> LOGSIZE" by (simp add: MAXOPBLOCKS_def)
  then show ?case using begin_op.prems ns lt(2) by (auto simp: s adm_inv_def)
next
  case (write_blk b s s' i bs)
  obtain l c l' c' where s: "s = (l, c)" "s' = (l', c')" by (cases s, cases s')
  have "bs ! i \<le> sum_list bs" using write_blk.hyps(2) by (intro member_le_sum_list) auto
  then have "sum_list (bs[i := bs ! i - 1]) + 1 = sum_list bs" using write_blk.hyps(2,3) by (simp add: sum_list_update)
  moreover have "set (bs[i := bs ! i - 1]) \<subseteq> insert (bs ! i - 1) (set bs)" by (rule set_update_subset_insert)
  moreover have "\<forall>x \<in> set bs. x \<le> MAXOPBLOCKS" "bs ! i \<in> set bs" using write_blk.prems write_blk.hyps(2) by (auto simp: s adm_inv_def)
  then have "\<forall>x \<in> insert (bs ! i - 1) (set bs). x \<le> MAXOPBLOCKS" by fastforce
  ultimately have "\<forall>x \<in> set (bs[i := bs ! i - 1]). x \<le> MAXOPBLOCKS" "sum_list (bs[i := bs ! i - 1]) + 1 = sum_list bs" by blast+
  then show ?case using write_blk.prems log_write_fields [of b l c l' c'] write_blk.hyps(1) by (auto simp: s adm_inv_def)
next
  case (end_op pid s s' i bs)
  obtain l c l' c' where s: "s = (l, c)" "s' = (l', c')" by (cases s, cases s')
  have "sum_list (take i bs @ drop (Suc i) bs) \<le> sum_list bs"
    by (metis append_take_drop_id Cons_nth_drop_Suc end_op.hyps(2) le_add2 nat_add_left_cancel_le sum_list.Cons sum_list_append)
  moreover have "set (take i bs @ drop (Suc i) bs) \<subseteq> set bs" by (auto dest: in_set_takeD in_set_dropD)
  moreover have "length (take i bs @ drop (Suc i) bs) = length bs - 1" using end_op.hyps(2) by simp
  ultimately show ?case using end_op.prems end_op.hyps log_end_fields [of pid l c l' c'] by (auto simp: s adm_inv_def)
qed

lemma adm_inv_reachable:
  assumes "op_step\<^sup>*\<^sup>* ((l0, c0), []) ((l, c), bs)" "l_n l0 = 0" "l_outstanding l0 = 0" "\<not> l_committing l0"
  shows "adm_inv ((l, c), bs) \<and> l_size l = l_size l0"
  using assms(1)
proof (induction "((l, c), bs)" arbitrary: l c bs rule: rtranclp_induct)
  case base
  show ?case using assms(2-4) by (simp add: adm_inv_def)
next
  case (step y)
  obtain l1 c1 bs1 where y: "y = ((l1, c1), bs1)" by (metis surj_pair)
  show ?case using adm_inv_step [OF step.hyps(2)] step.hyps(3) [OF y] by (simp add: y)
qed

text \<open>The number of log blocks, header included, in the images that \<^verbatim>\<open>mkfs\<close> makes.\<close>

definition nlog :: nat where "nlog = LOGSIZE"

text \<open>A run that logs the blocks of the buffers \<open>ps\<close>, all different and none of them in the log yet.\<close>

lemma log_new_block:
  assumes "l_n l < LOGSIZE" "int (l_n l) < l_size l - 1" "1 \<le> l_outstanding l" "length (l_block l) = LOGSIZE"
    "b_blockno (bufs c b) \<notin> set (take (l_n l) (l_block l))"
  obtains l' where "log_write b (l, c) = Inr (l', bpin b c)" "l_n l' = Suc (l_n l)" "l_size l' = l_size l" "l_outstanding l' = l_outstanding l"
    "length (l_block l') = LOGSIZE" "set (take (l_n l') (l_block l')) = insert (b_blockno (bufs c b)) (set (take (l_n l) (l_block l)))"
proof
  let ?l = "l\<lparr>l_block := (l_block l)[l_n l := b_blockno (bufs c b)], l_n := Suc (l_n l)\<rparr>"
  have "l_block l ! i \<noteq> b_blockno (bufs c b)" if "i < l_n l" for i
    using assms(1,4,5) that by (metis in_set_conv_nth length_take min.absorb2 nth_take order_less_imp_le)
  then have "find (\<lambda>i. l_block l ! i = b_blockno (bufs c b)) [0..<l_n l] = None" by (auto simp: find_None_iff)
  then show "log_write b (l, c) = Inr (?l, bpin b c)" using assms(1-3) by (simp add: log_write_def Let_def)
  show "set (take (l_n ?l) (l_block ?l)) = insert (b_blockno (bufs c b)) (set (take (l_n l) (l_block l)))"
    using assms(1,4) by (simp add: take_Suc_conv_app_nth)
qed (use assms in simp_all)

lemma log_run:
  assumes "distinct (map (\<lambda>b. b_blockno (bufs c b)) ps)" "(\<lambda>b. b_blockno (bufs c b)) ` set ps \<inter> set (take (l_n l) (l_block l)) = {}"
    "length (l_block l) = LOGSIZE" "1 \<le> l_outstanding l" "l_n l + length ps \<le> LOGSIZE" "int (l_n l + length ps) \<le> l_size l - 1"
    "length ps \<le> sum_list bs"
  shows "\<exists>l' c' bs'. op_step\<^sup>*\<^sup>* ((l, c), bs) ((l', c'), bs') \<and> l_n l' = l_n l + length ps \<and> sum_list bs' + length ps = sum_list bs"
  using assms
proof (induction ps arbitrary: l c bs)
  case Nil
  then show ?case by auto
next
  case (Cons b ps)
  obtain l1 where l1: "log_write b (l, c) = Inr (l1, bpin b c)" "l_n l1 = Suc (l_n l)" "l_size l1 = l_size l" "l_outstanding l1 = l_outstanding l"
    "length (l_block l1) = LOGSIZE" "set (take (l_n l1) (l_block l1)) = insert (b_blockno (bufs c b)) (set (take (l_n l) (l_block l)))"
    by (rule log_new_block [of l c b]) (use Cons.prems in auto)
  have "\<exists>i < length bs. 0 < bs ! i" using Cons.prems(7) by (metis in_set_conv_nth gr0I sum_list_eq_0_iff le_zero_eq length_Cons nat.distinct(1))
  then obtain i where i: "i < length bs" "0 < bs ! i" by blast
  then have "bs ! i \<le> sum_list bs" by (intro member_le_sum_list) auto
  then have sm: "sum_list (bs[i := bs ! i - 1]) + 1 = sum_list bs" using i by (simp add: sum_list_update)
  have bn: "b_blockno (bufs (bpin b c) x) = b_blockno (bufs c x)" for x by (simp add: bpin_def)
  have "\<exists>l' c' bs'. op_step\<^sup>*\<^sup>* ((l1, bpin b c), bs[i := bs ! i - 1]) ((l', c'), bs') \<and> l_n l' = l_n l1 + length ps \<and>
      sum_list bs' + length ps = sum_list (bs[i := bs ! i - 1])"
    by (rule Cons.IH) (use Cons.prems l1(2-6) sm in \<open>auto simp: bn\<close>)
  then show ?case using op_step.write_blk [OF l1(1) i] l1(2) sm by (metis add_Suc_shift add_Suc_right add.commute converse_rtranclp_into_rtranclp length_Cons plus_1_eq_Suc)
qed

lemma three_begins:
  assumes "l_n l0 = 0" "l_outstanding l0 = 0" "\<not> l_committing l0"
  shows "op_step\<^sup>*\<^sup>* ((l0, c0), []) ((l0\<lparr>l_outstanding := 3\<rparr>, c0), [MAXOPBLOCKS, MAXOPBLOCKS, MAXOPBLOCKS])"
proof -
  have b: "log_begin_op (l0\<lparr>l_outstanding := n\<rparr>, c0) = Inr (l0\<lparr>l_outstanding := n + 1\<rparr>, c0)" if "n \<le> 2" for n
    using that assms by (simp add: log_begin_op_def LOGSIZE_def MAXOPBLOCKS_def)
  have "l0\<lparr>l_outstanding := 0\<rparr> = l0" using assms(2) by simp
  then have "op_step ((l0, c0), []) ((l0\<lparr>l_outstanding := 1\<rparr>, c0), [MAXOPBLOCKS])" using op_step.begin_op [OF b [of 0]] by simp
  moreover have "op_step ((l0\<lparr>l_outstanding := 1\<rparr>, c0), [MAXOPBLOCKS]) ((l0\<lparr>l_outstanding := 2\<rparr>, c0), [MAXOPBLOCKS, MAXOPBLOCKS])"
    using op_step.begin_op [OF b [of 1]] by simp
  moreover have "op_step ((l0\<lparr>l_outstanding := 2\<rparr>, c0), [MAXOPBLOCKS, MAXOPBLOCKS]) ((l0\<lparr>l_outstanding := 3\<rparr>, c0), [MAXOPBLOCKS, MAXOPBLOCKS, MAXOPBLOCKS])"
    using op_step.begin_op [OF b [of 2]] by simp
  ultimately show ?thesis by (meson converse_rtranclp_into_rtranclp rtranclp.rtrancl_refl)
qed

text \<open>
  C20: what the admission control of \<^verbatim>\<open>log_begin_op\<close> gives. In every state reachable by any
  interleaving of file operations from an idle log, an operation that has logged fewer than \<^verbatim>\<open>MAXOPBLOCKS\<close> blocks can log
  another while fewer than \<^verbatim>\<open>log.size - 1\<close> blocks are logged, and \<^verbatim>\<open>log_write\<close> panics otherwise. So it never panics
  on a log of more than \<^verbatim>\<open>LOGSIZE\<close> blocks. But the log of the images that \<^verbatim>\<open>mkfs\<close> makes has
  \<^verbatim>\<open>nlog = LOGSIZE\<close> blocks, one too few: there three admitted operations that log \<^verbatim>\<open>nlog - 1\<close> different blocks, of any cache, bring the
  system to a state in which one of them is still within its \<^verbatim>\<open>MAXOPBLOCKS\<close> and its next \<^verbatim>\<open>log_write\<close> panics, whatever block it is given.
\<close>

theorem log_write_admitted:
  assumes "l_n l0 = 0" "l_outstanding l0 = 0" "\<not> l_committing l0"
  shows "(\<forall>l c bs i b. op_step\<^sup>*\<^sup>* ((l0, c0), []) ((l, c), bs) \<and> i < length bs \<and> 0 < bs ! i \<longrightarrow>
      (if int (l_n l) < l_size l0 - 1 then \<exists>s'. log_write b (l, c) = Inr s' else log_write b (l, c) = Inl (Panic ''too big a transaction'')) \<and>
      (int LOGSIZE < l_size l0 \<longrightarrow> int (l_n l) < l_size l0 - 1)) \<and>
    (l_size l0 = int nlog \<and> length (l_block l0) = LOGSIZE \<and> length ps = nlog - 1 \<and> distinct (map (\<lambda>b. b_blockno (bufs c0 b)) ps) \<longrightarrow>
      (\<exists>l c bs i. op_step\<^sup>*\<^sup>* ((l0, c0), []) ((l, c), bs) \<and> i < length bs \<and> 0 < bs ! i \<and>
        (\<forall>b. log_write b (l, c) = Inl (Panic ''too big a transaction''))))"
proof (intro conjI allI impI, goal_cases)
  case (1 l c bs i b)
  then have r: "op_step\<^sup>*\<^sup>* ((l0, c0), []) ((l, c), bs)" "i < length bs" "0 < bs ! i" by blast+
  note inv = adm_inv_reachable [OF r(1) assms]
  have "bs ! i \<le> sum_list bs" using r(2) by (intro member_le_sum_list) auto
  then have "l_n l < LOGSIZE" "\<not> l_outstanding l < 1" using inv r(2,3) by (auto simp: adm_inv_def)
  then show ?case using inv by (auto simp: log_write_def Let_def)
next
  case (2 l c bs i b)
  then have r: "op_step\<^sup>*\<^sup>* ((l0, c0), []) ((l, c), bs)" "i < length bs" "0 < bs ! i" by blast+
  have "bs ! i \<le> sum_list bs" using r(2) by (intro member_le_sum_list) auto
  then show ?case using adm_inv_reachable [OF r(1) assms] r(3) 2 by (auto simp: adm_inv_def)
next
  case 3
  let ?l = "l0\<lparr>l_outstanding := 3\<rparr>"
  obtain l c bs where r: "op_step\<^sup>*\<^sup>* ((?l, c0), [MAXOPBLOCKS, MAXOPBLOCKS, MAXOPBLOCKS]) ((l, c), bs)"
    "l_n l = l_n ?l + length ps" "sum_list bs + length ps = sum_list [MAXOPBLOCKS, MAXOPBLOCKS, MAXOPBLOCKS]"
    using log_run [of c0 ps ?l "[MAXOPBLOCKS, MAXOPBLOCKS, MAXOPBLOCKS]"] 3 assms(1) by (auto simp: nlog_def LOGSIZE_def MAXOPBLOCKS_def)
  have r0: "op_step\<^sup>*\<^sup>* ((l0, c0), []) ((l, c), bs)" using rtranclp_trans [OF three_begins [OF assms] r(1)] .
  have "0 < sum_list bs" "int (l_n l) = l_size l0 - 1" using r(2,3) 3 assms(1) by (auto simp: nlog_def LOGSIZE_def MAXOPBLOCKS_def)
  moreover have "\<exists>i < length bs. 0 < bs ! i" using \<open>0 < sum_list bs\<close> by (metis in_set_conv_nth gr0I less_numeral_extra(3) sum_list_eq_0_iff)
  moreover have "l_size l = l_size l0" using adm_inv_reachable [OF r0 assms] by simp
  ultimately show ?case using r0 by (intro exI [of _ l] exI [of _ c] exI [of _ bs]) (auto simp: log_write_def Let_def)
qed

text \<open>A cache whose buffers hold different blocks, and a log as \<^verbatim>\<open>mkfs\<close> makes it.\<close>

theorem log_write_admitted_witness:
  "(\<exists>l c bs i. op_step\<^sup>*\<^sup>* ((zero_log\<lparr>l_size := 30\<rparr>, crashed\<lparr>bufs := \<lambda>a. (bufs crashed a)\<lparr>b_blockno := of_nat a\<rparr>\<rparr>), []) ((l, c), bs) \<and>
      i < length bs \<and> 0 < bs ! i \<and> (\<forall>b. log_write b (l, c) = Inl (Panic ''too big a transaction''))) \<and>
   (\<exists>s'. log_write (buf_ptr 0) (zero_log\<lparr>l_size := 31, l_outstanding := 1\<rparr>, crashed) = Inr s')"
proof
  let ?c = "crashed\<lparr>bufs := \<lambda>a. (bufs crashed a)\<lparr>b_blockno := of_nat a\<rparr>\<rparr>"
  have e: "map (\<lambda>b. b_blockno (bufs ?c b)) [0..<29] = map of_nat [0..<29]" by simp
  have "distinct (map of_nat [0..<29] :: u32 list)" by (simp add: upt_rec)
  then show "\<exists>l c bs i. op_step\<^sup>*\<^sup>* ((zero_log\<lparr>l_size := 30\<rparr>, ?c), []) ((l, c), bs) \<and>
      i < length bs \<and> 0 < bs ! i \<and> (\<forall>b. log_write b (l, c) = Inl (Panic ''too big a transaction''))"
    using log_write_admitted [of "zero_log\<lparr>l_size := 30\<rparr>" ?c "[0..<29]", THEN conjunct2] unfolding e
    by (simp add: zero_log_def nlog_def LOGSIZE_def MAXOPBLOCKS_def)
  have "op_step ((zero_log\<lparr>l_size := 31\<rparr>, crashed), []) ((zero_log\<lparr>l_size := 31, l_outstanding := 1\<rparr>, crashed), [MAXOPBLOCKS])"
    by (rule op_step.begin_op) (simp add: log_begin_op_def zero_log_def LOGSIZE_def MAXOPBLOCKS_def)
  from log_write_admitted [of "zero_log\<lparr>l_size := 31\<rparr>" crashed, THEN conjunct1, rule_format, OF _ _ _ conjI, OF _ _ _ r_into_rtranclp [of op_step, OF this], of 0 "buf_ptr 0"]
  show "\<exists>s'. log_write (buf_ptr 0) (zero_log\<lparr>l_size := 31, l_outstanding := 1\<rparr>, crashed) = Inr s'"
    by (simp add: zero_log_def LOGSIZE_def MAXOPBLOCKS_def)
qed

end
