(* ===== verification/Monad.thy ===== *)
theory Monad
  imports Prelude
begin

text \<open>
  Routines that change a state, can fail and might not return: \<open>None\<close> is a loop that does not end
  (or a fuel that is too small), \<open>Inl\<close> a fault. Sequencing, loops with an early return, and the rules
  that evaluate them.
\<close>

type_synonym ('s, 'a) comp = "'s \<Rightarrow> ('a \<times> 's) result option"

definition retC :: "'a \<Rightarrow> ('s, 'a) comp" where "retC x s = Some (Inr (x, s))"
definition failC :: "fault \<Rightarrow> ('s, 'a) comp" where "failC e s = Some (Inl e)"

definition bindC :: "('s, 'a) comp \<Rightarrow> ('a \<Rightarrow> ('s, 'b) comp) \<Rightarrow> ('s, 'b) comp" where
  "bindC m f s = (case m s of None \<Rightarrow> None | Some (Inl e) \<Rightarrow> Some (Inl e) | Some (Inr (x, s')) \<Rightarrow> f x s')"

definition thenC :: "('s, 'a) comp \<Rightarrow> ('s, 'b) comp \<Rightarrow> ('s, 'b) comp" where
  "thenC m k = bindC m (\<lambda>_. k)"

definition getC :: "('s \<Rightarrow> 'a) \<Rightarrow> ('s, 'a) comp" where "getC f s = Some (Inr (f s, s))"
definition modC :: "('s \<Rightarrow> 's) \<Rightarrow> ('s, unit) comp" where "modC f s = Some (Inr ((), f s))"

lemma bindC_cong [fundef_cong]:
  "m s = m' s' \<Longrightarrow> (\<And>x t. m' s' = Some (Inr (x, t)) \<Longrightarrow> f x t = f' x t) \<Longrightarrow> bindC m f s = bindC m' f' s'"
  by (auto simp: bindC_def split: option.splits sum.splits)

lemma bindC_Inr [simp]: "m s = Some (Inr (x, t)) \<Longrightarrow> bindC m f s = f x t"
  by (simp add: bindC_def)

lemma thenC_Inr [simp]: "m s = Some (Inr (x, t)) \<Longrightarrow> thenC m k s = k t"
  by (simp add: thenC_def)

lemma bindC_Inl [simp]: "m s = Some (Inl e) \<Longrightarrow> bindC m f s = Some (Inl e)"
  by (simp add: bindC_def)

lemma thenC_Inl [simp]: "m s = Some (Inl e) \<Longrightarrow> thenC m k s = Some (Inl e)"
  by (simp add: thenC_def)

lemma bind_simple [simp]:
  "bindC (retC x) f s = f x s" "bindC (getC g) f' s = f' (g s) s" "bindC (modC u) f'' s = f'' () (u s)" "bindC (failC e) f3 s = Some (Inl e)"
  by (simp_all add: retC_def getC_def modC_def failC_def bindC_def)

lemma then_simple [simp]:
  "thenC (retC x) k s = k s" "thenC (modC u) k s = k (u s)" "thenC (getC g) k s = k s" "thenC (failC e) k s = Some (Inl e)"
  by (simp_all add: retC_def getC_def modC_def failC_def bindC_def thenC_def)

lemma bindC_eq_Inr: "bindC m f s = Some (Inr (y, t)) \<longleftrightarrow> (\<exists>x u. m s = Some (Inr (x, u)) \<and> f x u = Some (Inr (y, t)))"
  by (auto simp: bindC_def split: option.splits sum.splits)

lemma thenC_eq_Inr: "thenC m k s = Some (Inr (y, t)) \<longleftrightarrow> (\<exists>x u. m s = Some (Inr (x, u)) \<and> k u = Some (Inr (y, t)))"
  by (simp add: thenC_def bindC_eq_Inr)

text \<open>Sequencing is monotone, so that partial functions can be defined with it.\<close>

lemma bindC_mono [partial_function_mono]:
  assumes "mono_option (\<lambda>f. B f s)" "\<And>x t. mono_option (\<lambda>f. C x f t)"
  shows "mono_option (\<lambda>f. bindC (B f) (\<lambda>x. C x f) s)"
proof -
  have eq: "bindC (B f) (\<lambda>x. C x f) s =
      Option.bind (B f s) (\<lambda>r. case r of Inl e \<Rightarrow> Some (Inl e) | Inr p \<Rightarrow> C (fst p) f (snd p))" for f
    by (auto simp: bindC_def split: option.splits sum.splits)
  have "mono_option (\<lambda>f. case r of Inl e \<Rightarrow> Some (Inl e) | Inr p \<Rightarrow> C (fst p) f (snd p))" for r
    using assms(2) by (cases r) (auto intro: option.const_mono)
  then show ?thesis unfolding eq by (rule bind_mono [OF assms(1)])
qed

section \<open>Loops\<close>

text \<open>A loop whose body returns \<open>Some r\<close> to leave the routine with \<open>r\<close>, else goes on.\<close>

fun searchC :: "('i \<Rightarrow> ('s, 'r option) comp) \<Rightarrow> 'i list \<Rightarrow> ('s, 'r option) comp" where
  "searchC f [] s = Some (Inr (None, s))"
| "searchC f (i # is) s = bindC (f i) (\<lambda>r. case r of Some x \<Rightarrow> retC (Some x) | None \<Rightarrow> searchC f is) s"

fun forC :: "('i \<Rightarrow> ('s, unit) comp) \<Rightarrow> 'i list \<Rightarrow> ('s, unit) comp" where
  "forC f [] s = Some (Inr ((), s))"
| "forC f (i # is) s = bindC (f i) (\<lambda>_. forC f is) s"

lemma searchC_append: "searchC f (xs @ ys) s = bindC (searchC f xs) (\<lambda>r. case r of Some x \<Rightarrow> retC (Some x) | None \<Rightarrow> searchC f ys) s"
proof (induction xs arbitrary: s)
  case (Cons x xs)
  show ?case
  proof (cases "f x s")
    case (Some r)
    show ?thesis
    proof (cases r)
      case (Inr p)
      then show ?thesis using Some Cons by (cases p; cases "fst p") (simp_all add: bindC_def retC_def)
    qed (use Some in \<open>simp add: bindC_def\<close>)
  qed (simp add: bindC_def)
qed (simp add: bindC_def)

text \<open>A search over a prefix that goes on and keeps an invariant.\<close>

lemma searchC_prefix:
  assumes "\<And>i s. i \<in> set xs \<Longrightarrow> I s \<Longrightarrow> \<exists>s'. f i s = Some (Inr (None, s')) \<and> I s'" "I s"
  shows "\<exists>s'. searchC f (xs @ ys) s = searchC f ys s' \<and> I s'"
  using assms
proof (induction xs arbitrary: s)
  case (Cons x xs)
  obtain s1 where "f x s = Some (Inr (None, s1))" "I s1" using Cons.prems by (meson list.set_intros(1))
  moreover obtain s2 where "searchC f (xs @ ys) s1 = searchC f ys s2" "I s2"
    using Cons.IH [of s1] Cons.prems(1) calculation(2) by auto
  ultimately show ?case by auto
qed auto

lemma forC_inv:
  assumes "\<And>i s. i \<in> set xs \<Longrightarrow> I s \<Longrightarrow> \<exists>s'. f i s = Some (Inr ((), s')) \<and> I s'" "I s"
  shows "\<exists>s'. forC f xs s = Some (Inr ((), s')) \<and> I s'"
  using assms
proof (induction xs arbitrary: s)
  case (Cons x xs)
  obtain s1 where "f x s = Some (Inr ((), s1))" "I s1" using Cons.prems by (meson list.set_intros(1))
  moreover obtain s2 where "forC f xs s1 = Some (Inr ((), s2))" "I s2"
    using Cons.IH [of s1] Cons.prems(1) calculation(2) by auto
  ultimately show ?case by auto
qed simp

end
