(* ===== verification/Fs.thy ===== *)
theory Fs
  imports Log Monad
begin

text \<open>
  The file system of \<^verbatim>\<open>kernel/fs.c\<close>: block allocation, inodes, file contents, directories and path
  names, over the log and the block cache. The in-memory inode table is a list; a pointer to
  \<^verbatim>\<open>itable.inode[i]\<close> is \<open>i + 1\<close> and 0 is \<^verbatim>\<open>NULL\<close>. On-disk structures are fields of a block's bytes
  (theory Bytes), at the offsets the C layout gives them. Path names and directory entry names are
  byte lists without the terminating NUL. Panic messages are given without the final newline.
\<close>

section \<open>Data\<close>

definition ROOTDEV :: u32 where "ROOTDEV = 1"
definition ROOTINO :: u32 where "ROOTINO = 1"
definition FSMAGIC :: u32 where "FSMAGIC = 0x10203040"
definition NDIRECT :: nat where "NDIRECT = 12"
definition NINDIRECT :: nat where "NINDIRECT = BSIZE div 4"
definition MAXFILE :: nat where "MAXFILE = NDIRECT + NINDIRECT"
definition IPB :: nat where "IPB = BSIZE div 64"
definition BPB :: nat where "BPB = BSIZE * 8"
definition DIRSIZ :: nat where "DIRSIZ = 14"
definition NINODE :: nat where "NINODE = 50"
definition T_DIR :: u16 where "T_DIR = 1"
definition T_FILE :: u16 where "T_FILE = 2"
definition T_DEVICE :: u16 where "T_DEVICE = 3"

record superblock =
  sb_magic :: u32
  sb_size :: u32
  sb_nblocks :: u32
  sb_ninodes :: u32
  sb_nlog :: u32
  sb_logstart :: u32
  sb_inodestart :: u32
  sb_bmapstart :: u32

record inode =
  i_dev :: u32
  i_inum :: u32
  i_ref :: int
  i_lock :: sleeplock
  i_valid :: bool
  i_type :: u16
  i_major :: u16
  i_minor :: u16
  i_nlink :: u16
  i_size :: u32
  i_addrs :: "u32 list"

record stat =
  st_dev :: u32
  st_ino :: u32
  st_type :: u16
  st_nlink :: u16
  st_size :: u64

record fs =
  fs_log :: log
  fs_cache :: bcache
  fs_sb :: superblock
  fs_itable :: "inode list"
  fs_pid :: int
  fs_cwd :: nat

definition IBLOCK :: "u32 \<Rightarrow> superblock \<Rightarrow> u32" where "IBLOCK i sb = i div of_nat IPB + sb_inodestart sb"
definition BBLOCK :: "u32 \<Rightarrow> superblock \<Rightarrow> u32" where "BBLOCK b sb = b div of_nat BPB + sb_bmapstart sb"

text \<open>The on-disk inode: 64 bytes, \<open>inum mod IPB\<close> of them into the block.\<close>

definition dinode_off :: "u32 \<Rightarrow> nat" where "dinode_off inum = 64 * (unat inum mod IPB)"

fun get_addrs :: "nat \<Rightarrow> nat \<Rightarrow> u8 list \<Rightarrow> u32 list" where
  "get_addrs off 0 d = []"
| "get_addrs off (Suc n) d = get32 off d # get_addrs (off + 4) n d"

fun put_addrs :: "nat \<Rightarrow> u32 list \<Rightarrow> u8 list \<Rightarrow> u8 list" where
  "put_addrs off [] d = d"
| "put_addrs off (a # as) d = put_addrs (off + 4) as (put32 off a d)"

section \<open>The calls into the layers below\<close>

abbreviation inode_at :: "fs \<Rightarrow> nat \<Rightarrow> inode" where
  "inode_at s p \<equiv> fs_itable s ! (p - 1)"

definition upd_inode :: "nat \<Rightarrow> (inode \<Rightarrow> inode) \<Rightarrow> fs \<Rightarrow> fs" where
  "upd_inode p f s = s\<lparr>fs_itable := (fs_itable s)[p - 1 := f (inode_at s p)]\<rparr>"

definition f_bread :: "u32 \<Rightarrow> u32 \<Rightarrow> (fs, nat) comp" where
  "f_bread dev b s = (case bread (fs_pid s) dev b (fs_cache s) of
       None \<Rightarrow> None | Some (Inl e) \<Rightarrow> Some (Inl e) | Some (Inr (h, c)) \<Rightarrow> Some (Inr (h, s\<lparr>fs_cache := c\<rparr>)))"

definition f_brelse :: "nat \<Rightarrow> (fs, unit) comp" where
  "f_brelse h s = (case brelse (fs_pid s) h (fs_cache s) of Inl e \<Rightarrow> Some (Inl e) | Inr c \<Rightarrow> Some (Inr ((), s\<lparr>fs_cache := c\<rparr>)))"

definition f_data :: "nat \<Rightarrow> (fs, u8 list) comp" where
  "f_data h = getC (\<lambda>s. b_data (bufs (fs_cache s) h))"

definition f_set :: "nat \<Rightarrow> u8 list \<Rightarrow> (fs, unit) comp" where
  "f_set h d = modC (\<lambda>s. s\<lparr>fs_cache := set_data h d (fs_cache s)\<rparr>)"

definition f_log_write :: "nat \<Rightarrow> (fs, unit) comp" where
  "f_log_write h s = (case log_write h (fs_log s, fs_cache s) of
       Inl e \<Rightarrow> Some (Inl e) | Inr (l, c) \<Rightarrow> Some (Inr ((), s\<lparr>fs_log := l, fs_cache := c\<rparr>)))"

section \<open>Super block and block allocation\<close>

definition decode_sb :: "u8 list \<Rightarrow> superblock" where
  "decode_sb d = \<lparr>sb_magic = get32 0 d, sb_size = get32 4 d, sb_nblocks = get32 8 d, sb_ninodes = get32 12 d,
     sb_nlog = get32 16 d, sb_logstart = get32 20 d, sb_inodestart = get32 24 d, sb_bmapstart = get32 28 d\<rparr>"

definition readsb :: "u32 \<Rightarrow> (fs, unit) comp" where
  "readsb dev =
     bindC (f_bread dev 1) (\<lambda>b.
     bindC (f_data b) (\<lambda>d.
     thenC (modC (\<lambda>s. s\<lparr>fs_sb := decode_sb d\<rparr>))
     (f_brelse b)))"

definition fsinit :: "u32 \<Rightarrow> (fs, unit) comp" where
  "fsinit dev =
     thenC (readsb dev)
     (bindC (getC fs_sb) (\<lambda>sb.
      if sb_magic sb \<noteq> FSMAGIC then failC (Panic ''invalid file system'')
      else (\<lambda>s. case initlog (fs_pid s) dev (sb_logstart sb) (sb_nlog sb) (fs_log s, fs_cache s) of
              None \<Rightarrow> None | Some (Inl e) \<Rightarrow> Some (Inl e)
            | Some (Inr (l, c)) \<Rightarrow> Some (Inr ((), s\<lparr>fs_log := l, fs_cache := c\<rparr>)))))"

definition bzero :: "u32 \<Rightarrow> u32 \<Rightarrow> (fs, unit) comp" where
  "bzero dev bno =
     bindC (f_bread dev bno) (\<lambda>b.
     thenC (f_set b (replicate BSIZE 0))
     (thenC (f_log_write b) (f_brelse b)))"

text \<open>
  \<^verbatim>\<open>balloc\<close>: the inner loop over the bits of one bitmap block. It tests \<open>b * BPB + bi < sb.size\<close>,
  where \<open>b\<close> already counts blocks; the arithmetic is modulo \<open>2 ^ 32\<close>.
\<close>

definition bit_free :: "u8 list \<Rightarrow> nat \<Rightarrow> bool" where
  "bit_free d bi \<longleftrightarrow> d ! (bi div 8) AND push_bit (bi mod 8) 1 = 0"

definition mark_bit :: "u8 list \<Rightarrow> nat \<Rightarrow> u8 list" where
  "mark_bit d bi = d[bi div 8 := d ! (bi div 8) OR push_bit (bi mod 8) 1]"

definition clear_bit :: "u8 list \<Rightarrow> nat \<Rightarrow> u8 list" where
  "clear_bit d bi = d[bi div 8 := d ! (bi div 8) AND NOT (push_bit (bi mod 8) 1)]"

definition balloc_scan :: "superblock \<Rightarrow> u32 \<Rightarrow> u8 list \<Rightarrow> nat option" where
  "balloc_scan sb b d =
     find (bit_free d) (takeWhile (\<lambda>bi. b * of_nat BPB + of_nat bi < sb_size sb) [0..<BPB])"

definition balloc_block :: "u32 \<Rightarrow> u32 \<Rightarrow> (fs, u32 option) comp" where
  "balloc_block dev b =
     bindC (getC fs_sb) (\<lambda>sb.
     bindC (f_bread dev (BBLOCK b sb)) (\<lambda>bp.
     bindC (f_data bp) (\<lambda>d.
     case balloc_scan sb b d of
       Some bi \<Rightarrow>
         thenC (f_set bp (mark_bit d bi))
         (thenC (f_log_write bp)
         (thenC (f_brelse bp)
         (thenC (bzero dev (b + of_nat bi))
         (retC (Some (b + of_nat bi))))))
     | None \<Rightarrow> thenC (f_brelse bp) (retC None))))"

text \<open>The outer loop counts \<open>b\<close> up by \<open>BPB\<close> while it is below \<open>sb.size\<close>.\<close>

definition balloc_starts :: "superblock \<Rightarrow> u32 list" where
  "balloc_starts sb = map (\<lambda>i. of_nat (BPB * i)) [0..<(unat (sb_size sb) + BPB - 1) div BPB]"

definition balloc :: "u32 \<Rightarrow> (fs, u32) comp" where
  "balloc dev =
     bindC (getC fs_sb) (\<lambda>sb.
     bindC (searchC (balloc_block dev) (balloc_starts sb)) (\<lambda>r.
     case r of Some b \<Rightarrow> retC b | None \<Rightarrow> failC (Panic ''balloc: out of blocks'')))"

definition bfree :: "u32 \<Rightarrow> u32 \<Rightarrow> (fs, unit) comp" where
  "bfree dev bn =
     bindC (getC fs_sb) (\<lambda>sb.
     bindC (f_bread dev (BBLOCK bn sb)) (\<lambda>bp.
     bindC (f_data bp) (\<lambda>d.
     let bi = unat bn mod BPB
     in if bit_free d bi then failC (Panic ''freeing free block'')
        else thenC (f_set bp (clear_bit d bi))
             (thenC (f_log_write bp) (f_brelse bp)))))"

section \<open>Inodes\<close>

definition iinit :: "(fs, unit) comp" where
  "iinit = modC (\<lambda>s. s\<lparr>fs_itable := map (\<lambda>ip. ip\<lparr>i_lock := initsleeplock\<rparr>) (fs_itable s)\<rparr>)"

definition find_empty :: "inode list \<Rightarrow> nat option" where
  "find_empty ips = find (\<lambda>i. i_ref (ips ! i) = 0) [0..<NINODE]"

definition iget :: "u32 \<Rightarrow> u32 \<Rightarrow> (fs, nat) comp" where
  "iget dev inum s =
     (let ips = fs_itable s
      in case find (\<lambda>i. i_ref (ips ! i) > 0 \<and> i_dev (ips ! i) = dev \<and> i_inum (ips ! i) = inum) [0..<NINODE] of
           Some i \<Rightarrow> Some (Inr (i + 1, upd_inode (i + 1) (\<lambda>ip. ip\<lparr>i_ref := i_ref ip + 1\<rparr>) s))
         | None \<Rightarrow> (case find_empty ips of
               None \<Rightarrow> Some (Inl (Panic ''iget: no inodes''))
             | Some i \<Rightarrow> Some (Inr (i + 1,
                 upd_inode (i + 1) (\<lambda>ip. ip\<lparr>i_dev := dev, i_inum := inum, i_ref := 1, i_valid := False\<rparr>) s))))"

definition ialloc_try :: "u32 \<Rightarrow> u16 \<Rightarrow> u32 \<Rightarrow> (fs, nat option) comp" where
  "ialloc_try dev ty inum =
     bindC (getC fs_sb) (\<lambda>sb.
     bindC (f_bread dev (IBLOCK inum sb)) (\<lambda>bp.
     bindC (f_data bp) (\<lambda>d.
     let off = dinode_off inum
     in if get16 off d = 0
        then thenC (f_set bp (put16 off ty (put off (replicate 64 0) d)))
             (thenC (f_log_write bp)
             (thenC (f_brelse bp)
             (bindC (iget dev inum) (\<lambda>ip. retC (Some ip)))))
        else thenC (f_brelse bp) (retC None))))"

definition ialloc :: "u32 \<Rightarrow> u16 \<Rightarrow> (fs, nat) comp" where
  "ialloc dev ty =
     bindC (getC fs_sb) (\<lambda>sb.
     bindC (searchC (ialloc_try dev ty) (map of_nat [1..<unat (sb_ninodes sb)])) (\<lambda>r.
     case r of Some ip \<Rightarrow> retC ip | None \<Rightarrow> failC (Panic ''ialloc: no inodes'')))"

text \<open>Sleep locks of inodes.\<close>

definition ilock_acquire :: "nat \<Rightarrow> (fs, unit) comp" where
  "ilock_acquire p s = (case acquiresleep (fs_pid s) (i_lock (inode_at s p)) of
       Inl e \<Rightarrow> Some (Inl e) | Inr lk \<Rightarrow> Some (Inr ((), upd_inode p (\<lambda>ip. ip\<lparr>i_lock := lk\<rparr>) s)))"

definition load_dinode :: "nat \<Rightarrow> u8 list \<Rightarrow> inode \<Rightarrow> inode" where
  "load_dinode off d ip = ip\<lparr>i_type := get16 off d, i_major := get16 (off + 2) d, i_minor := get16 (off + 4) d,
     i_nlink := get16 (off + 6) d, i_size := get32 (off + 8) d, i_addrs := get_addrs (off + 12) (NDIRECT + 1) d\<rparr>"

definition ilock :: "nat \<Rightarrow> (fs, unit) comp" where
  "ilock p =
     bindC (getC id) (\<lambda>s.
     if p = 0 \<or> i_ref (inode_at s p) < 1 then failC (Panic ''ilock'')
     else thenC (ilock_acquire p)
       (bindC (getC (\<lambda>s. inode_at s p)) (\<lambda>ip.
        if i_valid ip then retC ()
        else bindC (f_bread (i_dev ip) (IBLOCK (i_inum ip) (fs_sb s))) (\<lambda>bp.
             bindC (f_data bp) (\<lambda>d.
             thenC (modC (upd_inode p (load_dinode (dinode_off (i_inum ip)) d)))
             (thenC (f_brelse bp)
             (thenC (modC (upd_inode p (\<lambda>ip. ip\<lparr>i_valid := True\<rparr>)))
             (bindC (getC (\<lambda>s. i_type (inode_at s p))) (\<lambda>ty.
              if ty = 0 then failC (Panic ''ilock: no type'') else retC ())))))))))"

definition iunlock :: "nat \<Rightarrow> (fs, unit) comp" where
  "iunlock p =
     bindC (getC id) (\<lambda>s.
     if p = 0 \<or> \<not> holdingsleep (fs_pid s) (i_lock (inode_at s p)) \<or> i_ref (inode_at s p) < 1 then failC (Panic ''iunlock'')
     else modC (upd_inode p (\<lambda>ip. ip\<lparr>i_lock := releasesleep (i_lock ip)\<rparr>)))"

definition store_dinode :: "nat \<Rightarrow> inode \<Rightarrow> u8 list \<Rightarrow> u8 list" where
  "store_dinode off ip d =
     put_addrs (off + 12) (i_addrs ip) (put32 (off + 8) (i_size ip) (put16 (off + 6) (i_nlink ip)
       (put16 (off + 4) (i_minor ip) (put16 (off + 2) (i_major ip) (put16 off (i_type ip) d)))))"

definition iupdate :: "nat \<Rightarrow> (fs, unit) comp" where
  "iupdate p =
     bindC (getC id) (\<lambda>s.
     let ip = inode_at s p
     in bindC (f_bread (i_dev ip) (IBLOCK (i_inum ip) (fs_sb s))) (\<lambda>bp.
        bindC (f_data bp) (\<lambda>d.
        thenC (f_set bp (store_dinode (dinode_off (i_inum ip)) ip d))
        (thenC (f_log_write bp) (f_brelse bp)))))"

definition itrunc_direct :: "nat \<Rightarrow> nat \<Rightarrow> (fs, unit) comp" where
  "itrunc_direct p i =
     bindC (getC (\<lambda>s. inode_at s p)) (\<lambda>ip.
     if i_addrs ip ! i \<noteq> 0
     then thenC (bfree (i_dev ip) (i_addrs ip ! i)) (modC (upd_inode p (\<lambda>ip. ip\<lparr>i_addrs := (i_addrs ip)[i := 0]\<rparr>)))
     else retC ())"

definition itrunc_entry :: "u32 \<Rightarrow> u8 list \<Rightarrow> nat \<Rightarrow> (fs, unit) comp" where
  "itrunc_entry dev a j = (if get32 (4 * j) a \<noteq> 0 then bfree dev (get32 (4 * j) a) else retC ())"

definition itrunc :: "nat \<Rightarrow> (fs, unit) comp" where
  "itrunc p =
     thenC (forC (itrunc_direct p) [0..<NDIRECT])
     (thenC
       (bindC (getC (\<lambda>s. inode_at s p)) (\<lambda>ip.
        if i_addrs ip ! NDIRECT \<noteq> 0
        then bindC (f_bread (i_dev ip) (i_addrs ip ! NDIRECT)) (\<lambda>bp.
             bindC (f_data bp) (\<lambda>a.
             thenC (forC (itrunc_entry (i_dev ip) a) [0..<NINDIRECT])
             (thenC (f_brelse bp)
             (thenC (bfree (i_dev ip) (i_addrs ip ! NDIRECT))
             (modC (upd_inode p (\<lambda>ip. ip\<lparr>i_addrs := (i_addrs ip)[NDIRECT := 0]\<rparr>)))))))
        else retC ()))
     (thenC (modC (upd_inode p (\<lambda>ip. ip\<lparr>i_size := 0\<rparr>))) (iupdate p)))"

definition iput :: "nat \<Rightarrow> (fs, unit) comp" where
  "iput p =
     bindC (getC (\<lambda>s. inode_at s p)) (\<lambda>ip.
     thenC
       (if i_ref ip = 1 \<and> i_valid ip \<and> i_nlink ip = 0
        then thenC (ilock_acquire p)
             (thenC (itrunc p)
             (thenC (modC (upd_inode p (\<lambda>ip. ip\<lparr>i_type := 0\<rparr>)))
             (thenC (iupdate p)
             (modC (upd_inode p (\<lambda>ip. ip\<lparr>i_valid := False, i_lock := releasesleep (i_lock ip)\<rparr>))))))
        else retC ())
       (modC (upd_inode p (\<lambda>ip. ip\<lparr>i_ref := i_ref ip - 1\<rparr>))))"

definition idup :: "nat \<Rightarrow> (fs, nat) comp" where
  "idup p = thenC (modC (upd_inode p (\<lambda>ip. ip\<lparr>i_ref := i_ref ip + 1\<rparr>))) (retC p)"

definition iunlockput :: "nat \<Rightarrow> (fs, unit) comp" where
  "iunlockput p = thenC (iunlock p) (iput p)"

definition stati :: "nat \<Rightarrow> (fs, stat) comp" where
  "stati p = getC (\<lambda>s. let ip = inode_at s p in
     \<lparr>st_dev = i_dev ip, st_ino = i_inum ip, st_type = i_type ip, st_nlink = i_nlink ip, st_size = ucast (i_size ip)\<rparr>)"

section \<open>File contents\<close>

definition bmap :: "nat \<Rightarrow> u32 \<Rightarrow> (fs, u32) comp" where
  "bmap p bn =
     bindC (getC (\<lambda>s. inode_at s p)) (\<lambda>ip.
     if unat bn < NDIRECT
     then if i_addrs ip ! unat bn = 0
          then bindC (balloc (i_dev ip)) (\<lambda>addr.
               thenC (modC (upd_inode p (\<lambda>ip. ip\<lparr>i_addrs := (i_addrs ip)[unat bn := addr]\<rparr>))) (retC addr))
          else retC (i_addrs ip ! unat bn)
     else let bn = bn - of_nat NDIRECT
     in if unat bn < NINDIRECT
     then bindC (if i_addrs ip ! NDIRECT = 0
                 then bindC (balloc (i_dev ip)) (\<lambda>addr.
                      thenC (modC (upd_inode p (\<lambda>ip. ip\<lparr>i_addrs := (i_addrs ip)[NDIRECT := addr]\<rparr>))) (retC addr))
                 else retC (i_addrs ip ! NDIRECT)) (\<lambda>addr.
          bindC (f_bread (i_dev ip) addr) (\<lambda>bp.
          bindC (f_data bp) (\<lambda>a.
          bindC (if get32 (4 * unat bn) a = 0
                 then bindC (balloc (i_dev ip)) (\<lambda>addr.
                      thenC (f_set bp (put32 (4 * unat bn) addr a))
                      (thenC (f_log_write bp) (retC addr)))
                 else retC (get32 (4 * unat bn) a)) (\<lambda>addr.
          thenC (f_brelse bp) (retC addr)))))
     else failC (Panic ''bmap: out of range''))"

text \<open>
  \<^verbatim>\<open>readi\<close> and \<^verbatim>\<open>writei\<close> copy to and from an address that is in user space or in the kernel; the copy
  routine is an argument. \<open>cout dst bs\<close> is \<^verbatim>\<open>space_data_copy_out(dst, bs, m)\<close>: it returns 0 or -1 and
  the destination after the copy. \<open>cin src old\<close> is \<^verbatim>\<open>spcae_data_copy_in\<close>: it returns 0 or -1 and the
  bytes that replace \<open>old\<close>. The loops advance by at least one byte, so that \<open>n\<close> turns are enough.
\<close>

definition chunk_len :: "u32 \<Rightarrow> u32 \<Rightarrow> u32 \<Rightarrow> u32" where
  "chunk_len n tot off = min (n - tot) (of_nat BSIZE - off mod of_nat BSIZE)"

fun readi_loop :: "nat \<Rightarrow> (u64 \<Rightarrow> u8 list \<Rightarrow> 'd \<Rightarrow> int \<times> 'd) \<Rightarrow> nat \<Rightarrow> u32 \<Rightarrow> u32 \<Rightarrow> u64 \<Rightarrow> u32 \<Rightarrow> 'd \<Rightarrow> (fs, u32 \<times> 'd) comp" where
  "readi_loop 0 cout p n tot dst off m s = (if tot < n then None else Some (Inr ((tot, m), s)))"
| "readi_loop (Suc fuel) cout p n tot dst off m s =
     (if tot < n
      then bindC (bmap p (off div of_nat BSIZE)) (\<lambda>addr.
           bindC (getC (\<lambda>s. i_dev (inode_at s p))) (\<lambda>dev.
           bindC (f_bread dev addr) (\<lambda>bp.
           bindC (f_data bp) (\<lambda>d.
           let k = chunk_len n tot off;
               (r, m) = cout dst (get (unat (off mod of_nat BSIZE)) (unat k) d) m
           in if r = -1 then thenC (f_brelse bp) (retC (-1, m))
              else thenC (f_brelse bp) (readi_loop fuel cout p n (tot + k) (dst + ucast k) (off + k) m))))) s
      else Some (Inr ((tot, m), s)))"

definition readi :: "(u64 \<Rightarrow> u8 list \<Rightarrow> 'd \<Rightarrow> int \<times> 'd) \<Rightarrow> nat \<Rightarrow> u64 \<Rightarrow> u32 \<Rightarrow> u32 \<Rightarrow> 'd \<Rightarrow> (fs, u32 \<times> 'd) comp" where
  "readi cout p dst off n m =
     bindC (getC (\<lambda>s. i_size (inode_at s p))) (\<lambda>sz.
     if off > sz \<or> off + n < off then retC (0, m)
     else let n = (if off + n > sz then sz - off else n)
          in readi_loop (unat n) cout p n 0 dst off m)"

fun writei_loop :: "nat \<Rightarrow> (u64 \<Rightarrow> u8 list \<Rightarrow> int \<times> u8 list) \<Rightarrow> nat \<Rightarrow> u32 \<Rightarrow> u32 \<Rightarrow> u64 \<Rightarrow> u32 \<Rightarrow> (fs, u32 \<times> u32) comp" where
  "writei_loop 0 cin p n tot src off s = (if tot < n then None else Some (Inr ((tot, off), s)))"
| "writei_loop (Suc fuel) cin p n tot src off s =
     (if tot < n
      then bindC (bmap p (off div of_nat BSIZE)) (\<lambda>addr.
           bindC (getC (\<lambda>s. i_dev (inode_at s p))) (\<lambda>dev.
           bindC (f_bread dev addr) (\<lambda>bp.
           bindC (f_data bp) (\<lambda>d.
           let k = chunk_len n tot off;
               o' = unat (off mod of_nat BSIZE);
               (r, bs) = cin src (get o' (unat k) d)
           in thenC (f_set bp (put o' bs d))
              (if r = -1 then thenC (f_brelse bp) (retC (tot, off))
               else thenC (f_log_write bp)
                    (thenC (f_brelse bp) (writei_loop fuel cin p n (tot + k) (src + ucast k) (off + k)))))))) s
      else Some (Inr ((tot, off), s)))"

definition writei :: "(u64 \<Rightarrow> u8 list \<Rightarrow> int \<times> u8 list) \<Rightarrow> nat \<Rightarrow> u64 \<Rightarrow> u32 \<Rightarrow> u32 \<Rightarrow> (fs, u32) comp" where
  "writei cin p src off n =
     bindC (getC (\<lambda>s. i_size (inode_at s p))) (\<lambda>sz.
     if off > sz \<or> off + n < off then retC (-1)
     else if off + n > of_nat (MAXFILE * BSIZE) then retC (-1)
     else bindC (writei_loop (unat n) cin p n 0 src off) (\<lambda>(tot, off).
          bindC (getC (\<lambda>s. i_size (inode_at s p))) (\<lambda>sz.
          thenC (if off > sz then modC (upd_inode p (\<lambda>ip. ip\<lparr>i_size := off\<rparr>)) else retC ())
          (thenC (iupdate p) (retC tot)))))"

section \<open>Directories and paths\<close>

text \<open>\<^verbatim>\<open>skipelem\<close>: \<open>None\<close> for the null result, else the element (cut to \<^verbatim>\<open>DIRSIZ\<close> bytes) and the rest.\<close>

definition slash :: u8 where "slash = 47"

definition skipelem :: "u8 list \<Rightarrow> (u8 list \<times> u8 list) option" where
  "skipelem path =
     (let path = dropWhile (\<lambda>c. c = slash) path
      in if path = [] then None
         else let s = takeWhile (\<lambda>c. c \<noteq> slash) path;
                  path = dropWhile (\<lambda>c. c \<noteq> slash) path
              in Some (take DIRSIZ s, dropWhile (\<lambda>c. c = slash) path))"

text \<open>\<^verbatim>\<open>strncmp\<close> of a name and the name field of an entry, equal when both end.\<close>

fun strncmp_l :: "nat \<Rightarrow> u8 list \<Rightarrow> u8 list \<Rightarrow> int" where
  "strncmp_l 0 s t = 0"
| "strncmp_l (Suc n) s t =
     (let p = (if s = [] then 0 else hd s); q = (if t = [] then 0 else hd t)
      in if p \<noteq> 0 \<and> p = q then strncmp_l n (tl s) (tl t) else uint p - uint q)"

definition namecmp :: "u8 list \<Rightarrow> u8 list \<Rightarrow> int" where
  "namecmp s t = strncmp_l DIRSIZ s t"

text \<open>A kernel structure as the destination of a copy: the address is an offset into it.\<close>

definition struct_out :: "u64 \<Rightarrow> u8 list \<Rightarrow> u8 list \<Rightarrow> int \<times> u8 list" where
  "struct_out dst bs m = (0, put (unat dst) bs m)"

definition struct_in :: "u8 list \<Rightarrow> u64 \<Rightarrow> u8 list \<Rightarrow> int \<times> u8 list" where
  "struct_in m src old = (0, get (unat src) (length old) m)"

definition dir_offsets :: "u32 \<Rightarrow> u32 list" where
  "dir_offsets sz = map (\<lambda>i. of_nat (16 * i)) [0..<(unat sz + 15) div 16]"

definition dirlookup_entry :: "nat \<Rightarrow> u8 list \<Rightarrow> u32 \<Rightarrow> (fs, (nat \<times> u32) option) comp" where
  "dirlookup_entry dp name off =
     bindC (readi struct_out dp 0 off 16 (replicate 16 0)) (\<lambda>(r, de).
     if r \<noteq> 16 then failC (Panic ''dirlookup read'')
     else if get16 0 de = 0 then retC None
     else if namecmp name (get 2 DIRSIZ de) = 0
     then bindC (getC (\<lambda>s. i_dev (inode_at s dp))) (\<lambda>dev.
          bindC (iget dev (ucast (get16 0 de))) (\<lambda>ip. retC (Some (ip, off))))
     else retC None)"

definition dirlookup :: "nat \<Rightarrow> u8 list \<Rightarrow> (fs, (nat \<times> u32) option) comp" where
  "dirlookup dp name =
     bindC (getC (\<lambda>s. inode_at s dp)) (\<lambda>ip.
     if i_type ip \<noteq> T_DIR then failC (Panic ''dirlookup not DIR'')
     else searchC (dirlookup_entry dp name) (dir_offsets (i_size ip)))"

function namex_loop :: "nat \<Rightarrow> u8 list \<Rightarrow> bool \<Rightarrow> u8 list \<Rightarrow> (fs, nat \<times> u8 list) comp" where
  "namex_loop ip path parent name s =
     (case skipelem path of
        None \<Rightarrow> if parent then bindC (iput ip) (\<lambda>_. retC (0, name)) s else Some (Inr ((ip, name), s))
      | Some (name, path) \<Rightarrow>
          bindC (ilock ip) (\<lambda>_.
          bindC (getC (\<lambda>s. i_type (inode_at s ip))) (\<lambda>ty.
          if ty \<noteq> T_DIR then bindC (iunlockput ip) (\<lambda>_. retC (0, name))
          else if parent \<and> path = [] then bindC (iunlock ip) (\<lambda>_. retC (ip, name))
          else bindC (dirlookup ip name) (\<lambda>r.
               case r of
                 None \<Rightarrow> bindC (iunlockput ip) (\<lambda>_. retC (0, name))
               | Some (nx, _) \<Rightarrow> bindC (iunlockput ip) (\<lambda>_. namex_loop nx path parent name)))) s)"
  by pat_completeness simp

lemma skipelem_shorter: "skipelem path = Some (name, rest) \<Longrightarrow> length rest < length path"
proof -
  assume sk: "skipelem path = Some (name, rest)"
  define q where "q = dropWhile (\<lambda>c. c = slash) path"
  have q: "q \<noteq> []" "rest = dropWhile (\<lambda>c. c = slash) (dropWhile (\<lambda>c. c \<noteq> slash) q)"
    using sk by (auto simp: skipelem_def q_def Let_def split: if_splits)
  have "hd q \<noteq> slash" using q(1) hd_dropWhile [of "\<lambda>c. c = slash" path] by (simp add: q_def)
  then have "dropWhile (\<lambda>c. c \<noteq> slash) q = dropWhile (\<lambda>c. c \<noteq> slash) (tl q)" using q(1) by (cases q) auto
  then have "length rest \<le> length (dropWhile (\<lambda>c. c \<noteq> slash) (tl q))" unfolding q(2) by (simp only: length_dropWhile_le)
  also have "\<dots> \<le> length (tl q)" by (rule length_dropWhile_le)
  also have "\<dots> < length q" using q(1) by simp
  also have "\<dots> \<le> length path" by (simp add: q_def length_dropWhile_le)
  finally show ?thesis .
qed

termination namex_loop
proof (relation "measure (\<lambda>(_, path, _, _, _). length path)", goal_cases)
  case 1
  show ?case by simp
next
  case (2 ip path parent name s a name' rest)
  then show ?case using skipelem_shorter [of path name' rest] by (simp only: in_measure split_conv)
qed

definition namex :: "u8 list \<Rightarrow> bool \<Rightarrow> (fs, nat \<times> u8 list) comp" where
  "namex path parent =
     bindC (if path \<noteq> [] \<and> hd path = slash then iget ROOTDEV ROOTINO else bindC (getC fs_cwd) idup) (\<lambda>ip.
     namex_loop ip path parent [])"

definition namei :: "u8 list \<Rightarrow> (fs, nat) comp" where
  "namei path = bindC (namex path False) (\<lambda>(ip, _). retC ip)"

definition nameiparent :: "u8 list \<Rightarrow> (fs, nat \<times> u8 list) comp" where
  "nameiparent path = namex path True"

text \<open>\<^verbatim>\<open>strncpy(de.name, name, DIRSIZ)\<close>: the name, padded with NUL to the field.\<close>

definition pad_name :: "u8 list \<Rightarrow> u8 list" where
  "pad_name name = take DIRSIZ (name @ replicate DIRSIZ 0)"

definition dirlink_slot :: "nat \<Rightarrow> u32 \<Rightarrow> (fs, u32 option) comp" where
  "dirlink_slot dp off =
     bindC (readi struct_out dp 0 off 16 (replicate 16 0)) (\<lambda>(r, de).
     if r \<noteq> 16 then failC (Panic ''dirlink read'')
     else retC (if get16 0 de = 0 then Some off else None))"

definition dirlink :: "nat \<Rightarrow> u8 list \<Rightarrow> u32 \<Rightarrow> (fs, int) comp" where
  "dirlink dp name inum =
     bindC (dirlookup dp name) (\<lambda>r.
     case r of
       Some (ip, _) \<Rightarrow> bindC (iput ip) (\<lambda>_. retC (-1))
     | None \<Rightarrow>
         bindC (getC (\<lambda>s. i_size (inode_at s dp))) (\<lambda>sz.
         bindC (searchC (dirlink_slot dp) (dir_offsets sz)) (\<lambda>r.
         let off = (case r of Some off \<Rightarrow> off | None \<Rightarrow> of_nat (16 * ((unat sz + 15) div 16)));
             de = le16 (ucast inum) @ pad_name name
         in bindC (writei (struct_in de) dp 0 off 16) (\<lambda>w.
            if w \<noteq> 16 then failC (Panic ''dirlink'') else retC 0))))"

end
