(* ===== verification/Fs_blocks.thy ===== *)
theory Fs_blocks
  imports Fs
begin

text \<open>
  Working inside a file operation: the state in which block numbers \<open>H\<close> are held and \<open>K\<close> more blocks
  may be logged, and how reading, changing and releasing a block act on what blocks read as
  (\<open>fview\<close>). On top of it, correctness of the block allocator.
\<close>

section \<open>The state of a file operation\<close>

abbreviation fdev :: "fs \<Rightarrow> u32" where "fdev s \<equiv> l_dev (fs_log s)"
abbreviation fabs :: "fs \<Rightarrow> acache" where "fabs s \<equiv> acache_of (fs_cache s)"

definition logged :: "fs \<Rightarrow> u32 set" where
  "logged s = set (take (l_n (fs_log s)) (l_block (fs_log s)))"

definition fview :: "fs \<Rightarrow> u32 \<Rightarrow> u8 list" where
  "fview s b = a_view (fabs s) (fdev s, b)"

definition fholds :: "fs \<Rightarrow> nat \<Rightarrow> u32 \<Rightarrow> bool" where
  "fholds s h b = holds (fs_pid s) (fs_cache s) h (fdev s, b)"

text \<open>
  Every reference to a block is a pin of the log or a lock of this operation; a block that is not
  logged agrees with the disk.
\<close>

definition fs_ok :: "nat \<Rightarrow> u32 set \<Rightarrow> fs \<Rightarrow> bool" where
  "fs_ok K H s \<longleftrightarrow> bcache_inv (fs_cache s) \<and> fdev s \<noteq> 0 \<and> finite H \<and> a_lock (fabs s) = Pair (fdev s) ` H \<and>
     (\<forall>b. a_refs (fabs s) (fdev s, b) = of_bool (b \<in> logged s) + of_bool (b \<in> H)) \<and>
     a_free (fabs s) + card (logged s \<union> H) = NBUF \<and>
     l_n (fs_log s) + K + 3 \<le> NBUF \<and> int (l_n (fs_log s) + K) \<le> l_size (fs_log s) - 1 \<and> l_outstanding (fs_log s) \<ge> 1 \<and>
     length (l_block (fs_log s)) = LOGSIZE \<and> distinct (take (l_n (fs_log s)) (l_block (fs_log s))) \<and>
     (\<forall>b. b \<notin> logged s \<longrightarrow> fview s b = a_disk (fabs s) (fdev s, b))"

text \<open>What an operation on a block leaves alone: everything but the cache and the log's block list.\<close>

definition same_fs :: "fs \<Rightarrow> fs \<Rightarrow> bool" where
  "same_fs s t \<longleftrightarrow> fs_sb t = fs_sb s \<and> fs_itable t = fs_itable s \<and> fs_pid t = fs_pid s \<and> fs_cwd t = fs_cwd s \<and>
     l_dev (fs_log t) = l_dev (fs_log s) \<and> l_start (fs_log t) = l_start (fs_log s)"

lemma same_fs_refl [simp]: "same_fs s s" and same_fs_trans: "same_fs s t \<Longrightarrow> same_fs t u \<Longrightarrow> same_fs s u"
  by (simp_all add: same_fs_def)

lemma fs_ok_weaken: "fs_ok K H s \<Longrightarrow> K' \<le> K \<Longrightarrow> fs_ok K' H s"
  by (auto simp: fs_ok_def)

lemma logged_card: "fs_ok K H s \<Longrightarrow> card (logged s) \<le> l_n (fs_log s) \<and> finite (logged s)"
  by (simp add: fs_ok_def logged_def) (metis card_length length_take min.bounded_iff order_refl)

section \<open>The primitive operations\<close>

lemma f_bread_ok:
  assumes ok: "fs_ok K H s" and b: "b \<notin> H" "card H \<le> 2"
  obtains h s' where "f_bread (fdev s) b s = Some (Inr (h, s'))" "fs_ok K (insert b H) s'" "fholds s' h b" "fview s' = fview s"
    "same_fs s s'" "fs_log s' = fs_log s" "\<And>h' b'. fholds s h' b' \<Longrightarrow> b' \<noteq> b \<Longrightarrow> fholds s' h' b'"
proof -
  let ?A = "fabs s" and ?k = "(fdev s, b)"
  have f: "bcache_inv (fs_cache s)" "fdev s \<noteq> 0" "?k \<notin> a_lock ?A" "finite H" using ok b(1) by (auto simp: fs_ok_def)
  have rf: "a_refs ?A ?k = of_bool (b \<in> logged s)" using ok b(1) by (simp add: fs_ok_def)
  have "card (logged s \<union> H) \<le> l_n (fs_log s) + 2" using logged_card [OF ok] card_Un_le [of "logged s" H] b(2) by linarith
  then have fr: "0 < a_free ?A" using ok by (auto simp: fs_ok_def)
  have bnd: "a_refs ?A ?k + 1 < 2 ^ 32" by (simp add: rf)
  obtain h c' where r: "bread (fs_pid s) (fdev s) b (fs_cache s) = Some (Inr (h, c'))" "bcache_inv c'" "holds (fs_pid s) c' h ?k"
    "acache_of c' = sp_bread ?k ?A" "\<And>h' k'. holds (fs_pid s) (fs_cache s) h' k' \<Longrightarrow> k' \<noteq> ?k \<Longrightarrow> holds (fs_pid s) c' h' k'"
    using bread_abs [OF f(1-3) _ bnd, of "fs_pid s"] fr by blast
  let ?s = "s\<lparr>fs_cache := c'\<rparr>"
  have lg: "logged ?s = logged s" by (simp add: logged_def)
  have v: "fview ?s = fview s" using r(4) by (auto simp: fview_def sp_bread_def simp del: acache_of_sel)
  have cd: "card (logged s \<union> insert b H) = card (logged s \<union> H) + (if b \<in> logged s then 0 else 1)"
    using logged_card [OF ok] f(4) b(1) by (auto simp: insert_absorb)
  have "fs_ok K (insert b H) ?s"
    unfolding fs_ok_def lg v
    using ok r(2,4) cd fr rf b(1) by (auto simp: fs_ok_def sp_bread_def simp del: acache_of_sel)
  then show thesis using that [of h ?s] r v by (simp add: f_bread_def fholds_def same_fs_def)
qed

lemma f_data_ok: "fs_ok K H s \<Longrightarrow> fholds s h b \<Longrightarrow> b_data (bufs (fs_cache s) h) = fview s b"
  using bc.bdata_ok [of "fs_cache s" "fs_pid s" h "(fdev s, b)"] by (simp add: fholds_def fview_def fs_ok_def)

lemma f_brelse_ok:
  assumes ok: "fs_ok K H s" and h: "fholds s h b" and b: "b \<in> H"
  obtains s' where "f_brelse h s = Some (Inr ((), s'))" "fs_ok K (H - {b}) s'" "fview s' = fview s"
    "same_fs s s'" "fs_log s' = fs_log s" "\<And>h' b'. fholds s h' b' \<Longrightarrow> b' \<noteq> b \<Longrightarrow> fholds s' h' b'"
proof -
  let ?A = "fabs s" and ?k = "(fdev s, b)"
  have f: "bcache_inv (fs_cache s)" "finite H" using ok by (auto simp: fs_ok_def)
  have coh: "b \<notin> logged s \<Longrightarrow> fview s b = a_disk (fabs s) (fdev s, b)" using ok by (simp add: fs_ok_def)
  have rf: "a_refs ?A ?k = of_bool (b \<in> logged s) + 1" using ok b by (simp add: fs_ok_def)
  obtain c' where r: "brelse (fs_pid s) h (fs_cache s) = Inr c'" "bcache_inv c'" "acache_of c' = sp_brelse ?k ?A"
    "\<And>h' k'. holds (fs_pid s) (fs_cache s) h' k' \<Longrightarrow> k' \<noteq> ?k \<Longrightarrow> holds (fs_pid s) c' h' k'"
    using brelse_abs [OF f(1) h [unfolded fholds_def]] rf coh by (auto simp: fview_def simp del: acache_of_sel)
  let ?s = "s\<lparr>fs_cache := c'\<rparr>"
  have lg: "logged ?s = logged s" by (simp add: logged_def)
  have v: "fview ?s = fview s" using r(3) by (auto simp: fview_def sp_brelse_def simp del: acache_of_sel)
  have cd: "card (logged s \<union> H) = card (logged s \<union> (H - {b})) + (if b \<in> logged s then 0 else 1)"
  proof (cases "b \<in> logged s")
    case True
    then have "logged s \<union> (H - {b}) = logged s \<union> H" by auto
    then show ?thesis using True by simp
  next
    case False
    then have "logged s \<union> H = insert b (logged s \<union> (H - {b}))" using b by auto
    then show ?thesis using False logged_card [OF ok] f(2) by simp
  qed
  have "fs_ok K (H - {b}) ?s"
    unfolding fs_ok_def lg v
    using ok r(2,3) cd rf b coh by (auto simp: fs_ok_def sp_brelse_def fview_def simp del: acache_of_sel)
  then show thesis using that [of ?s] r v by (simp add: f_brelse_def fholds_def same_fs_def)
qed

text \<open>Changing the bytes of a held block and logging it.\<close>

lemma f_modify_ok:
  assumes ok: "fs_ok (Suc K) H s" and h: "fholds s h b" and b: "b \<in> H"
  obtains s' where "\<And>k. thenC (f_set h d) (thenC (f_log_write h) k) s = k s'" "fs_ok K H s'" "fview s' = (fview s)(b := d)"
    "same_fs s s'" "\<And>h' b'. fholds s h' b' \<Longrightarrow> fholds s' h' b'"
proof -
  let ?k = "(fdev s, b)" and ?c1 = "set_data h d (fs_cache s)" and ?l = "fs_log s"
  let ?s1 = "s\<lparr>fs_cache := ?c1\<rparr>"
  note h' = h [unfolded fholds_def]
  have inv: "bcache_inv (fs_cache s)" "fdev s \<noteq> 0" using ok by (auto simp: fs_ok_def)
  have sd: "bcache_inv ?c1" "holds (fs_pid s) ?c1 h ?k" "acache_of ?c1 = sp_set ?k d (fabs s)"
    using set_data_abs [OF inv(1) h', of d] by auto
  have hs: "holds (fs_pid s) ?c1 a k'" if "holds (fs_pid s) (fs_cache s) a k'" for a k'
    using that by (auto simp: holds_def held_def set_data_def key_def)
  have bn: "b_blockno (bufs ?c1 h) = b" using holds_key [OF sd(2)] by (simp add: key_def)
  have n: "l_n ?l < LOGSIZE" "int (l_n ?l) < l_size ?l - 1" "1 \<le> l_outstanding ?l" "length (l_block ?l) = LOGSIZE"
    using ok by (auto simp: fs_ok_def NBUF_def LOGSIZE_def MAXOPBLOCKS_def)
  have lgd: "b \<in> logged s \<longleftrightarrow> (\<exists>i < l_n ?l. l_block ?l ! i = b)"
    using n(1,4) by (auto simp: logged_def in_set_conv_nth)
  have v1: "fview ?s1 = (fview s)(b := d)" using sd(3) by (auto simp: fview_def sp_set_def simp del: acache_of_sel)
  show thesis
  proof (cases "b \<in> logged s")
    case True
    then have "find (\<lambda>i. l_block ?l ! i = b) [0..<l_n ?l] \<noteq> None" using lgd by (auto simp: find_None_iff)
    then obtain i where fi: "find (\<lambda>i. l_block ?l ! i = b) [0..<l_n ?l] = Some i" by blast
    then have fi': "l_block ?l ! i = b" "i < l_n ?l" by (auto simp: find_Some_iff)
    have lw: "log_write h (?l, ?c1) = Inr (?l, ?c1)"
      using n fi fi' bn by (simp add: log_write_def Let_def) (metis list_update_id log.surjective log.update_convs(7))
    have lg: "logged ?s1 = logged s" by (simp add: logged_def)
    have "fs_ok K H ?s1" unfolding fs_ok_def lg v1 using ok sd(1,3) True
      by (auto simp: fs_ok_def sp_set_def simp del: acache_of_sel)
    then show thesis using that [of ?s1] lw v1 hs
      by (simp add: f_set_def f_log_write_def thenC_def bindC_def modC_def same_fs_def fholds_def)
  next
    case False
    then have fi: "find (\<lambda>i. l_block ?l ! i = b) [0..<l_n ?l] = None" using lgd by (auto simp: find_None_iff)
    let ?l2 = "?l\<lparr>l_block := (l_block ?l)[l_n ?l := b], l_n := l_n ?l + 1\<rparr>" and ?c2 = "bpin h ?c1"
    let ?s2 = "s\<lparr>fs_log := ?l2, fs_cache := ?c2\<rparr>"
    have lw: "log_write h (?l, ?c1) = Inr (?l2, ?c2)" using n fi bn by (simp add: log_write_def Let_def)
    have rf: "a_refs (acache_of ?c1) ?k = 1" using ok b False sd(3) by (simp add: fs_ok_def sp_set_def)
    have bp: "bcache_inv ?c2" "acache_of ?c2 = sp_ref ?k 2 (acache_of ?c1)"
      "\<And>h' k'. holds (fs_pid s) ?c1 h' k' \<Longrightarrow> holds (fs_pid s) ?c2 h' k'"
      using bpin_abs [OF sd(1,2)] unfolding rf one_add_one by (auto simp del: split_paired_All)
    have tk: "take (Suc (l_n ?l)) ((l_block ?l)[l_n ?l := b]) = take (l_n ?l) (l_block ?l) @ [b]"
      using n by (simp add: take_Suc_conv_app_nth)
    have lg: "logged ?s2 = insert b (logged s)" by (auto simp: logged_def tk simp del: take_update_swap)
    have v2: "fview ?s2 = (fview s)(b := d)" using sd(3) bp(2) by (auto simp: fview_def sp_set_def sp_ref_def simp del: acache_of_sel)
    have un: "insert b (logged s) \<union> H = logged s \<union> H" using b by auto
    have dt: "distinct (take (l_n ?l) (l_block ?l) @ [b])" using ok False by (simp add: fs_ok_def logged_def)
    have "fs_ok K H ?s2" unfolding fs_ok_def lg v2 un using ok sd(3) bp(1,2) b False dt n tk
      by (auto simp: fs_ok_def sp_set_def sp_ref_def simp del: acache_of_sel)
    then show thesis using that [of ?s2] lw v2 hs bp(3)
      by (simp add: f_set_def f_log_write_def thenC_def bindC_def modC_def same_fs_def fholds_def)
  qed
qed

text \<open>Reading a block, and reading, changing, logging and releasing a block.\<close>

lemma f_read_ok:
  assumes ok: "fs_ok K H s" and b: "b \<notin> H" "card H \<le> 2"
  obtains h s' where "\<And>F. bindC (f_bread (fdev s) b) (\<lambda>h. bindC (f_data h) (F h)) s = F h (fview s b) s'"
    "fs_ok K (insert b H) s'" "fholds s' h b" "fview s' = fview s" "same_fs s s'" "fs_log s' = fs_log s"
    "\<And>h' b'. fholds s h' b' \<Longrightarrow> b' \<noteq> b \<Longrightarrow> fholds s' h' b'"
proof -
  obtain h s' where r: "f_bread (fdev s) b s = Some (Inr (h, s'))" "fs_ok K (insert b H) s'" "fholds s' h b" "fview s' = fview s"
    "same_fs s s'" "fs_log s' = fs_log s" "\<And>h' b'. fholds s h' b' \<Longrightarrow> b' \<noteq> b \<Longrightarrow> fholds s' h' b'"
    by (rule f_bread_ok [OF ok b]) blast
  have "bindC (f_bread (fdev s) b) (\<lambda>h. bindC (f_data h) (F h)) s = F h (fview s b) s'" for F
    using r(1,4) f_data_ok [OF r(2,3)] by (simp add: f_data_def)
  then show thesis using that r by blast
qed

lemma f_finish_ok:
  assumes ok: "fs_ok (Suc K) H s" and h: "fholds s h b" "b \<in> H"
  obtains s' where "\<And>k. thenC (f_set h d) (thenC (f_log_write h) (thenC (f_brelse h) k)) s = k s'"
    "thenC (f_set h d) (thenC (f_log_write h) (f_brelse h)) s = Some (Inr ((), s'))"
    "fs_ok K (H - {b}) s'" "fview s' = (fview s)(b := d)" "same_fs s s'"
    "\<And>h' b'. fholds s h' b' \<Longrightarrow> b' \<noteq> b \<Longrightarrow> fholds s' h' b'"
proof -
  obtain s1 where 1: "\<And>k :: (fs, 'a) comp. thenC (f_set h d) (thenC (f_log_write h) k) s = k s1"
    "\<And>k :: (fs, unit) comp. thenC (f_set h d) (thenC (f_log_write h) k) s = k s1" "fs_ok K H s1" "fview s1 = (fview s)(b := d)"
    "same_fs s s1" "\<And>h' b'. fholds s h' b' \<Longrightarrow> fholds s1 h' b'"
  proof -
    obtain s1 where "thenC (f_set h d) (thenC (f_log_write h) (retC ())) s = retC () s1" "fs_ok K H s1" "fview s1 = (fview s)(b := d)"
      "same_fs s s1" "\<And>h' b'. fholds s h' b' \<Longrightarrow> fholds s1 h' b'"
      by (rule f_modify_ok [OF ok h, of d]) blast
    then show thesis
      using that [of s1] by (auto simp: f_set_def f_log_write_def thenC_def bindC_def modC_def retC_def split: sum.splits option.splits)
  qed
  obtain s2 where 2: "f_brelse h s1 = Some (Inr ((), s2))" "fs_ok K (H - {b}) s2" "fview s2 = fview s1" "same_fs s1 s2"
    "\<And>h' b'. fholds s1 h' b' \<Longrightarrow> b' \<noteq> b \<Longrightarrow> fholds s2 h' b'"
    by (rule f_brelse_ok [OF 1(3) 1(6) [OF h(1)] h(2)]) blast
  show thesis
    by (rule that [of s2]) (use 1 2 same_fs_trans in auto)
qed

section \<open>Bitmaps\<close>

lemma bit_free_bit: "bit_free d i \<longleftrightarrow> \<not> bit (d ! (i div 8)) (i mod 8)"
proof -
  have "i mod 8 < 8" by simp
  then show ?thesis unfolding bit_free_def by (metis and_exp_eq_0_iff_not_bit push_bit_of_1)
qed

lemma same_bit: "(i :: nat) = j \<longleftrightarrow> i div 8 = j div 8 \<and> i mod 8 = j mod 8"
  by (metis div_mult_mod_eq)

lemma bit_flag: "bit (push_bit (i mod 8) 1 :: u8) (j mod 8) \<longleftrightarrow> i mod 8 = j mod 8"
proof -
  have "j mod 8 < LENGTH(8)" by simp
  then show ?thesis by (auto simp: bit_push_bit_iff bit_1_iff simp del: push_bit_of_1)
qed

lemma bit_free_mark: "i < 8 * length d \<Longrightarrow> bit_free (mark_bit d i) j \<longleftrightarrow> j \<noteq> i \<and> bit_free d j"
  unfolding bit_free_bit mark_bit_def
  by (cases "j div 8 = i div 8") (auto simp: nth_list_update bit_or_iff bit_flag same_bit [of j i] simp del: push_bit_of_1)

lemma bit_free_clear: "i < 8 * length d \<Longrightarrow> bit_free (clear_bit d i) j \<longleftrightarrow> j = i \<or> bit_free d j"
  unfolding bit_free_bit clear_bit_def
  by (cases "j div 8 = i div 8") (auto simp: nth_list_update bit_and_iff bit_not_iff bit_flag same_bit [of j i] simp del: push_bit_of_1)

lemma clear_mark:
  assumes "bit_free d i" "i < 8 * length d" shows "clear_bit (mark_bit d i) i = d"
proof -
  let ?x = "d ! (i div 8)" and ?m = "push_bit (i mod 8) 1 :: u8"
  have "(?x OR ?m) AND NOT ?m = ?x AND NOT ?m" by (rule bit_word_eqI) (auto simp: bit_simps)
  also have "\<dots> = ?x"
  proof (rule bit_word_eqI)
    fix n assume n: "n < LENGTH(8)"
    then have "n mod 8 = n" by simp
    then have "bit ?m n \<longleftrightarrow> i mod 8 = n" using bit_flag [of i n] by simp
    then show "bit (?x AND NOT ?m) n = bit ?x n" using assms(1) n by (auto simp: bit_free_bit bit_and_iff bit_not_iff simp del: push_bit_of_1)
  qed
  finally show ?thesis using assms(2) by (simp add: clear_bit_def mark_bit_def del: push_bit_of_1)
qed

lemma length_mark [simp]: "length (mark_bit d i) = length d" "length (clear_bit d i) = length d"
  by (simp_all add: mark_bit_def clear_bit_def)

section \<open>The block allocator\<close>

text \<open>The bitmap block of a file system that fits one, and the first free block number.\<close>

abbreviation bmap_blk :: "fs \<Rightarrow> u32" where "bmap_blk s \<equiv> sb_bmapstart (fs_sb s)"

definition first_free :: "fs \<Rightarrow> nat option" where
  "first_free s = find (bit_free (fview s (bmap_blk s))) [0..<min (unat (sb_size (fs_sb s))) BPB]"

lemma balloc_scan_0: "balloc_scan (fs_sb s) 0 (fview s (bmap_blk s)) = first_free s"
proof -
  have tw: "takeWhile (\<lambda>bi. (of_nat bi :: u32) < sz) [0..<n] = [0..<min (unat sz) n]" if "n \<le> 2 ^ 31" for sz n
    using that
  proof (induction n)
    case (Suc n)
    have lt: "(of_nat n :: u32) < sz \<longleftrightarrow> n < unat sz" using Suc.prems by (simp add: word_less_nat_alt unat_of_nat)
    show ?case
    proof (cases "n < unat sz")
      case True
      have all: "x \<in> set [0..<n] \<Longrightarrow> (of_nat x :: u32) < sz" for x using True Suc.prems by (simp add: word_less_nat_alt unat_of_nat)
      have "takeWhile (\<lambda>bi. (of_nat bi :: u32) < sz) ([0..<n] @ [n]) = [0..<n] @ [n]"
        using all lt True by (subst takeWhile_append2) auto
      moreover have "min (unat sz) (Suc n) = Suc n" using True by simp
      ultimately show ?thesis by simp
    next
      case False
      then have "takeWhile (\<lambda>bi. (of_nat bi :: u32) < sz) ([0..<n] @ [n]) = takeWhile (\<lambda>bi. (of_nat bi :: u32) < sz) [0..<n]"
        using lt by (metis (no_types, lifting) append.right_neutral takeWhile.simps(1,2) takeWhile_append takeWhile_eq_all_conv)
      then show ?thesis using Suc False by (simp add: min_def)
    qed
  qed simp
  show ?thesis unfolding balloc_scan_def first_free_def using tw [of BPB "sb_size (fs_sb s)"] by (simp add: BPB_def BSIZE_def)
qed

lemma bzero_ok:
  assumes ok: "fs_ok (Suc K) H s" and b: "b \<notin> H" "card H \<le> 2"
  obtains s' where "bzero (fdev s) b s = Some (Inr ((), s'))" "fs_ok K H s'" "fview s' = (fview s)(b := replicate BSIZE 0)" "same_fs s s'"
    "\<And>h' b'. fholds s h' b' \<Longrightarrow> b' \<noteq> b \<Longrightarrow> fholds s' h' b'"
proof -
  obtain h s1 where 1: "f_bread (fdev s) b s = Some (Inr (h, s1))" "fs_ok (Suc K) (insert b H) s1" "fholds s1 h b" "fview s1 = fview s"
    "same_fs s s1" "\<And>h' b'. fholds s h' b' \<Longrightarrow> b' \<noteq> b \<Longrightarrow> fholds s1 h' b'"
    by (rule f_bread_ok [OF ok b]) blast
  obtain s2 where 2: "thenC (f_set h (replicate BSIZE 0)) (thenC (f_log_write h) (f_brelse h)) s1 = Some (Inr ((), s2))"
    "fs_ok K (insert b H - {b}) s2" "fview s2 = (fview s1)(b := replicate BSIZE 0)" "same_fs s1 s2"
    "\<And>h' b'. fholds s1 h' b' \<Longrightarrow> b' \<noteq> b \<Longrightarrow> fholds s2 h' b'"
    by (rule f_finish_ok [OF 1(2,3), of "replicate BSIZE 0"]) auto
  have "insert b H - {b} = H" using b(1) by simp
  then show thesis using that [of s2] 1 2 same_fs_trans [of s s1 s2] by (simp add: bzero_def)
qed

lemma balloc_ok:
  assumes ok: "fs_ok (Suc (Suc K)) H s" and H: "card H \<le> 2" "bmap_blk s \<notin> H" and ff: "first_free s = Some bi" "of_nat bi \<notin> H"
  obtains s' where "balloc (fdev s) s = Some (Inr (of_nat bi, s'))" "fs_ok K H s'" "same_fs s s'"
    "fview s' = (fview s)(bmap_blk s := mark_bit (fview s (bmap_blk s)) bi, of_nat bi := replicate BSIZE 0)"
    "\<And>h' b'. fholds s h' b' \<Longrightarrow> b' \<in> H \<Longrightarrow> fholds s' h' b'"
proof -
  let ?bm = "bmap_blk s" and ?d = "fview s (bmap_blk s)"
  have sz: "0 < unat (sb_size (fs_sb s))" using ff(1) by (auto simp: first_free_def find_Some_iff)
  then obtain rest where st: "balloc_starts (fs_sb s) = 0 # rest"
    by (simp add: balloc_starts_def BPB_def BSIZE_def upt_conv_Cons)
  have bb: "BBLOCK 0 (fs_sb s) = ?bm" by (simp add: BBLOCK_def)
  obtain h s1 where 1: "\<And>F :: nat \<Rightarrow> u8 list \<Rightarrow> (fs, u32 option) comp. bindC (f_bread (fdev s) ?bm) (\<lambda>h. bindC (f_data h) (F h)) s = F h ?d s1"
    "fs_ok (Suc (Suc K)) (insert ?bm H) s1" "fholds s1 h ?bm" "fview s1 = fview s" "same_fs s s1"
    "\<And>h' b'. fholds s h' b' \<Longrightarrow> b' \<noteq> ?bm \<Longrightarrow> fholds s1 h' b'"
    by (rule f_read_ok [OF ok H(2,1)]) blast
  obtain s2 where 2: "\<And>k :: (fs, u32 option) comp. thenC (f_set h (mark_bit ?d bi)) (thenC (f_log_write h) (thenC (f_brelse h) k)) s1 = k s2"
    "fs_ok (Suc K) (insert ?bm H - {?bm}) s2" "fview s2 = (fview s1)(?bm := mark_bit ?d bi)" "same_fs s1 s2"
    "\<And>h' b'. fholds s1 h' b' \<Longrightarrow> b' \<noteq> ?bm \<Longrightarrow> fholds s2 h' b'"
    by (rule f_finish_ok [OF 1(2,3), of "mark_bit ?d bi"]) auto
  have H': "insert ?bm H - {?bm} = H" using H(2) by simp
  obtain s3 where 3: "bzero (fdev s2) (of_nat bi) s2 = Some (Inr ((), s3))" "fs_ok K H s3"
    "fview s3 = (fview s2)(of_nat bi := replicate BSIZE 0)" "same_fs s2 s3" "\<And>h' b'. fholds s2 h' b' \<Longrightarrow> b' \<noteq> of_nat bi \<Longrightarrow> fholds s3 h' b'"
    by (rule bzero_ok [OF 2(2) [unfolded H'] ff(2) H(1)]) blast
  have dv: "fdev s2 = fdev s" using 1(5) 2(4) by (simp add: same_fs_def)
  have "balloc_block (fdev s) 0 s = Some (Inr (Some (of_nat bi), s3))"
    using 1(1) 2(1) 3(1) dv balloc_scan_0 [of s] ff(1) by (simp add: balloc_block_def bb retC_def)
  then have "balloc (fdev s) s = Some (Inr (of_nat bi, s3))" by (simp add: balloc_def st retC_def)
  moreover have "same_fs s s3" using 1(5) 2(4) 3(4) same_fs_trans by blast
  ultimately show thesis using that [of s3] 1(4,6) 2(3,5) 3(2,3,5) H(2) ff(2) by metis
qed

lemma bfree_ok:
  assumes ok: "fs_ok (Suc K) H s" and H: "card H \<le> 2" "BBLOCK bn (fs_sb s) \<notin> H"
    and nf: "\<not> bit_free (fview s (BBLOCK bn (fs_sb s))) (unat bn mod BPB)"
  obtains s' where "bfree (fdev s) bn s = Some (Inr ((), s'))" "fs_ok K H s'" "same_fs s s'"
    "fview s' = (fview s)(BBLOCK bn (fs_sb s) := clear_bit (fview s (BBLOCK bn (fs_sb s))) (unat bn mod BPB))"
    "\<And>h' b'. fholds s h' b' \<Longrightarrow> b' \<in> H \<Longrightarrow> fholds s' h' b'"
proof -
  let ?bm = "BBLOCK bn (fs_sb s)" and ?d = "fview s (BBLOCK bn (fs_sb s))"
  obtain h s1 where 1: "\<And>F :: nat \<Rightarrow> u8 list \<Rightarrow> (fs, unit) comp. bindC (f_bread (fdev s) ?bm) (\<lambda>h. bindC (f_data h) (F h)) s = F h ?d s1"
    "fs_ok (Suc K) (insert ?bm H) s1" "fholds s1 h ?bm" "fview s1 = fview s" "same_fs s s1"
    "\<And>h' b'. fholds s h' b' \<Longrightarrow> b' \<noteq> ?bm \<Longrightarrow> fholds s1 h' b'"
    by (rule f_read_ok [OF ok H(2,1)]) blast
  obtain s2 where 2: "thenC (f_set h (clear_bit ?d (unat bn mod BPB))) (thenC (f_log_write h) (f_brelse h)) s1 = Some (Inr ((), s2))"
    "fs_ok K (insert ?bm H - {?bm}) s2" "fview s2 = (fview s1)(?bm := clear_bit ?d (unat bn mod BPB))" "same_fs s1 s2"
    "\<And>h' b'. fholds s1 h' b' \<Longrightarrow> b' \<noteq> ?bm \<Longrightarrow> fholds s2 h' b'"
    by (rule f_finish_ok [OF 1(2,3), of "clear_bit ?d (unat bn mod BPB)"]) auto
  have "bfree (fdev s) bn s = Some (Inr ((), s2))" using 1(1) 2(1) nf by (simp add: bfree_def Let_def)
  moreover have "insert ?bm H - {?bm} = H" using H(2) by simp
  ultimately show thesis using that [of s2] 1(4-6) 2(2-5) H(2) same_fs_trans [of s s1 s2] by (metis (no_types, lifting))
qed

section \<open>Properties\<close>

text \<open>A small file system: blocks 0 to 63 are in use, inode 1 is an empty file.\<close>

definition sample_disk :: "u32 \<Rightarrow> u32 \<Rightarrow> u8 list" where
  "sample_disk d n = (if n = 46 then replicate 8 (-1) @ replicate (BSIZE - 8) 0 else replicate BSIZE 0)"

definition sample_fs :: fs where
  "sample_fs = \<lparr>fs_log = zero_log\<lparr>l_start := 2, l_size := 31, l_dev := 1, l_outstanding := 1\<rparr>, fs_cache = disk_cache sample_disk,
     fs_sb = \<lparr>sb_magic = FSMAGIC, sb_size = 100, sb_nblocks = 54, sb_ninodes = 200, sb_nlog = 31, sb_logstart = 2,
       sb_inodestart = 33, sb_bmapstart = 46\<rparr>,
     fs_itable = [\<lparr>i_dev = 1, i_inum = 1, i_ref = 1, i_lock = initsleeplock, i_valid = True, i_type = T_FILE, i_major = 0, i_minor = 0,
       i_nlink = 1, i_size = 0, i_addrs = replicate 13 0\<rparr>],
     fs_pid = 3, fs_cwd = 1\<rparr>"

lemma sample_fs_ok: "K \<le> 20 \<Longrightarrow> fs_ok K {} sample_fs" "fview sample_fs b = sample_disk 1 b"
proof -
  have lg: "logged sample_fs = {}" by (simp add: logged_def sample_fs_def zero_log_def)
  have c: "fs_cache sample_fs = disk_cache sample_disk" "fdev sample_fs = 1" by (simp_all add: sample_fs_def)
  show v: "fview sample_fs b = sample_disk 1 b" for b using disk_cache_ok(2) by (simp add: fview_def c)
  show "K \<le> 20 \<Longrightarrow> fs_ok K {} sample_fs" unfolding fs_ok_def lg c v using disk_cache_ok(1,3,7-9)
    by (simp add: sample_fs_def zero_log_def NBUF_def LOGSIZE_def MAXOPBLOCKS_def)
qed

lemma sample_bits: "i < BPB \<Longrightarrow> bit_free (sample_disk 1 46) i \<longleftrightarrow> 64 \<le> i" "length (sample_disk d n) = BSIZE"
proof -
  show "length (sample_disk d n) = BSIZE" by (simp add: sample_disk_def BSIZE_def)
  assume i: "i < BPB"
  then have "sample_disk 1 46 ! (i div 8) = (if i < 64 then -1 else 0)"
    by (auto simp: sample_disk_def nth_append BSIZE_def BPB_def)
  moreover have "i mod 8 < 8" by simp
  ultimately show "bit_free (sample_disk 1 46) i \<longleftrightarrow> 64 \<le> i" by (simp add: bit_free_bit)
qed

lemma sample_fs_free: "first_free sample_fs = Some 64" "unat (sb_size (fs_sb sample_fs)) = 100" "bmap_blk sample_fs = 46"
proof -
  show sz: "unat (sb_size (fs_sb sample_fs)) = 100" "bmap_blk sample_fs = 46" by (simp_all add: sample_fs_def)
  have m: "min 100 BPB = 100" "100 \<le> BPB" by (simp_all add: BSIZE_def BPB_def)
  show "first_free sample_fs = Some 64"
    unfolding first_free_def sample_fs_ok(2) sz m(1) find_Some_iff using m(2) by (auto simp: sample_bits intro!: exI [of _ 64])
qed

text \<open>
  C21: \<^verbatim>\<open>balloc\<close> on a file system whose bitmap is one block, within a file operation that can
  log two more blocks. If a block number below the size is free, the call returns the smallest one;
  afterwards it is marked in use, it reads as zeros, and no other block and no other bit has
  changed. If none is free the call panics.
\<close>

theorem balloc_correct:
  assumes "fs_ok 2 {} s" "0 < unat (sb_size (fs_sb s))" "unat (sb_size (fs_sb s)) \<le> BPB" "length (fview s (bmap_blk s)) = BSIZE"
  shows "case first_free s of
      Some bi \<Rightarrow> \<exists>s'. balloc (fdev s) s = Some (Inr (of_nat bi, s')) \<and> fs_ok 0 {} s' \<and> same_fs s s' \<and>
        bi < unat (sb_size (fs_sb s)) \<and> bit_free (fview s (bmap_blk s)) bi \<and> (\<forall>j < bi. \<not> bit_free (fview s (bmap_blk s)) j) \<and>
        fview s' (of_nat bi) = replicate BSIZE 0 \<and>
        (of_nat bi \<noteq> bmap_blk s \<longrightarrow> (\<forall>j. bit_free (fview s' (bmap_blk s)) j \<longleftrightarrow> j \<noteq> bi \<and> bit_free (fview s (bmap_blk s)) j)) \<and>
        (\<forall>b. b \<noteq> of_nat bi \<longrightarrow> b \<noteq> bmap_blk s \<longrightarrow> fview s' b = fview s b)
    | None \<Rightarrow> balloc (fdev s) s = Some (Inl (Panic ''balloc: out of blocks''))"
proof (cases "first_free s")
  case (Some bi)
  obtain s' where s': "balloc (fdev s) s = Some (Inr (of_nat bi, s'))" "fs_ok 0 {} s'" "same_fs s s'"
    "fview s' = (fview s)(bmap_blk s := mark_bit (fview s (bmap_blk s)) bi, of_nat bi := replicate BSIZE 0)"
    by (rule balloc_ok [of 0 "{}" s bi]) (use assms(1) Some in \<open>auto simp: numeral_2_eq_2\<close>)
  have bi: "bi < min (unat (sb_size (fs_sb s))) BPB" "bit_free (fview s (bmap_blk s)) bi" "\<forall>j < bi. \<not> bit_free (fview s (bmap_blk s)) j"
    using Some by (auto simp: first_free_def find_Some_iff)
  have "bi < 8 * length (fview s (bmap_blk s))" using bi(1) assms(4) by (simp add: BPB_def)
  then show ?thesis using Some s' bi by (simp add: bit_free_mark)
next
  case None
  let ?bm = "bmap_blk s"
  have "(unat (sb_size (fs_sb s)) + BPB - 1) div BPB = 1" using assms(2,3) by (simp add: BPB_def BSIZE_def)
  then have st: "balloc_starts (fs_sb s) = [0]" by (simp add: balloc_starts_def)
  obtain h s1 where 1: "\<And>F :: nat \<Rightarrow> u8 list \<Rightarrow> (fs, u32 option) comp. bindC (f_bread (fdev s) ?bm) (\<lambda>h. bindC (f_data h) (F h)) s = F h (fview s ?bm) s1"
    "fs_ok 2 {?bm} s1" "fholds s1 h ?bm"
    by (rule f_read_ok [OF assms(1), of ?bm]) auto
  obtain s2 where 2: "f_brelse h s1 = Some (Inr ((), s2))" by (rule f_brelse_ok [OF 1(2,3)]) auto
  have "balloc_block (fdev s) 0 s = Some (Inr (None, s2))"
    using 1(1) 2 balloc_scan_0 [of s] None by (simp add: balloc_block_def BBLOCK_def retC_def)
  then show ?thesis using None by (simp add: balloc_def st retC_def failC_def)
qed

theorem balloc_correct_witness:
  "\<exists>s'. balloc 1 sample_fs = Some (Inr (64, s')) \<and> \<not> bit_free (fview s' 46) 64 \<and> bit_free (fview s' 46) 65"
proof -
  have d: "fdev sample_fs = 1" by (simp add: sample_fs_def)
  have "bit_free (sample_disk 1 46) 65" "100 \<le> BPB" by (simp_all add: sample_bits BPB_def BSIZE_def)
  moreover have "(64 :: u32) \<noteq> 46" by simp
  ultimately show ?thesis using balloc_correct [OF sample_fs_ok(1)] sample_fs_free by (auto simp: sample_fs_ok(2) sample_bits d)
qed

text \<open>
  C22: freeing the block that \<^verbatim>\<open>balloc\<close> returned restores the bitmap exactly, and freeing it a second
  time panics.
\<close>

theorem balloc_bfree_roundtrip:
  assumes "fs_ok 3 {} s" "0 < unat (sb_size (fs_sb s))" "unat (sb_size (fs_sb s)) \<le> BPB" "length (fview s (bmap_blk s)) = BSIZE"
    "first_free s = Some bi" "of_nat bi \<noteq> bmap_blk s"
  shows "\<exists>s1 s2. balloc (fdev s) s = Some (Inr (of_nat bi, s1)) \<and> bfree (fdev s) (of_nat bi) s1 = Some (Inr ((), s2)) \<and>
    fview s2 = (fview s)(of_nat bi := replicate BSIZE 0) \<and> fs_ok 0 {} s2 \<and>
    bfree (fdev s) (of_nat bi) s2 = Some (Inl (Panic ''freeing free block''))"
proof -
  let ?bm = "bmap_blk s" and ?d = "fview s (bmap_blk s)"
  have k: "fs_ok (Suc (Suc 1)) {} s" using assms(1) by (simp add: numeral_3_eq_3)
  obtain s1 where s1: "balloc (fdev s) s = Some (Inr (of_nat bi, s1))" "fs_ok 1 {} s1" "same_fs s s1"
    "fview s1 = (fview s)(?bm := mark_bit ?d bi, of_nat bi := replicate BSIZE 0)"
    by (rule balloc_ok [OF k _ _ assms(5)]) auto
  have bi: "bi < BPB" "bit_free ?d bi" using assms(5) by (auto simp: first_free_def find_Some_iff)
  have lt: "bi < 8 * length ?d" using bi(1) assms(4) by (simp add: BPB_def)
  have u: "unat (of_nat bi :: u32) = bi" using bi(1) by (simp add: unat_of_nat BPB_def BSIZE_def)
  have dz: "(of_nat bi :: u32) div of_nat BPB = 0"
    using bi(1) u by (simp add: word_arith_nat_div unat_of_nat BPB_def BSIZE_def)
  have sb: "fs_sb s1 = fs_sb s" "fdev s1 = fdev s" using s1(3) by (simp_all add: same_fs_def)
  have bb: "BBLOCK (of_nat bi) (fs_sb s1) = ?bm" "unat (of_nat bi :: u32) mod BPB = bi" using dz u bi(1) sb by (simp_all add: BBLOCK_def)
  have d1: "fview s1 ?bm = mark_bit ?d bi" using s1(4) assms(6) by simp
  obtain s2 where s2: "bfree (fdev s1) (of_nat bi) s1 = Some (Inr ((), s2))" "fs_ok 0 {} s2" "same_fs s1 s2"
    "fview s2 = (fview s1)(?bm := clear_bit (fview s1 ?bm) bi)"
    using bfree_ok [of 0 "{}" s1 "of_nat bi"] s1(2) bb d1 bit_free_mark [OF lt] by (auto simp: One_nat_def)
  have v2: "fview s2 = (fview s)(of_nat bi := replicate BSIZE 0)"
    unfolding s2(4) d1 clear_mark [OF bi(2) lt] using s1(4) assms(6) by (auto simp: fun_eq_iff)
  have sb2: "fs_sb s2 = fs_sb s" "fdev s2 = fdev s" using s2(3) sb by (simp_all add: same_fs_def)
  have bb2: "BBLOCK (of_nat bi) (fs_sb s2) = ?bm" using bb sb sb2 by simp
  have "fview s2 ?bm = ?d" using v2 assms(6) by simp
  moreover obtain h s3 where "\<And>F :: nat \<Rightarrow> u8 list \<Rightarrow> (fs, unit) comp. bindC (f_bread (fdev s2) ?bm) (\<lambda>h. bindC (f_data h) (F h)) s2 = F h (fview s2 ?bm) s3"
    by (rule f_read_ok [OF s2(2), of ?bm]) auto
  ultimately have "bfree (fdev s2) (of_nat bi) s2 = Some (Inl (Panic ''freeing free block''))"
    using bi(2) bb2 bb(2) by (simp add: bfree_def Let_def failC_def)
  then show ?thesis using s1(1) s2(1,2) v2 sb sb2 by auto
qed

theorem balloc_bfree_roundtrip_witness:
  "\<exists>s1 s2. balloc 1 sample_fs = Some (Inr (64, s1)) \<and> bfree 1 64 s1 = Some (Inr ((), s2)) \<and>
     bfree 1 64 s2 = Some (Inl (Panic ''freeing free block''))"
proof -
  have d: "fdev sample_fs = 1" by (simp add: sample_fs_def)
  have "100 \<le> BPB" "(64 :: u32) \<noteq> 46" by (simp_all add: BPB_def BSIZE_def)
  then show ?thesis using balloc_bfree_roundtrip [OF sample_fs_ok(1) _ _ _ sample_fs_free(1)] sample_fs_free
    by (auto simp: sample_fs_ok(2) sample_bits d)
qed

end
