(* ===== verification/Fs_file.thy ===== *)
theory Fs_file
  imports Fs_blocks
begin

text \<open>
  The contents of a file. The first part is about block maps as pure data: \<open>blk as v i\<close> is the block
  number of block \<open>i\<close> of a file with address array \<open>as\<close> when blocks read as \<open>v\<close>, and \<open>content\<close> is
  the byte at an offset, 0 where no block is allocated. The second part shows what \<^verbatim>\<open>bmap\<close>,
  \<^verbatim>\<open>readi\<close> and \<^verbatim>\<open>writei\<close> do to them.
\<close>

section \<open>Block maps\<close>

definition blk :: "u32 list \<Rightarrow> (u32 \<Rightarrow> u8 list) \<Rightarrow> nat \<Rightarrow> u32" where
  "blk as v i = (if i < NDIRECT then as ! i else if as ! NDIRECT = 0 then 0 else get32 (4 * (i - NDIRECT)) (v (as ! NDIRECT)))"

definition content :: "u32 list \<Rightarrow> (u32 \<Rightarrow> u8 list) \<Rightarrow> nat \<Rightarrow> u8" where
  "content as v x = (if blk as v (x div BSIZE) = 0 then 0 else v (blk as v (x div BSIZE)) ! (x mod BSIZE))"

definition used :: "u32 list \<Rightarrow> (u32 \<Rightarrow> u8 list) \<Rightarrow> u32 set" where
  "used as v = (insert (as ! NDIRECT) (blk as v ` {..<MAXFILE})) - {0}"

text \<open>
  A well-formed map: the blocks of the file are distinct, in use according to the bitmap block \<open>bm\<close>, and
  not among the metadata blocks \<open>M\<close>, which are in use too.
\<close>

definition marked :: "u32 \<Rightarrow> (u32 \<Rightarrow> u8 list) \<Rightarrow> u32 \<Rightarrow> bool" where
  "marked bm v b \<longleftrightarrow> unat b < BPB \<and> \<not> bit_free (v bm) (unat b)"

definition fmap_ok :: "u32 \<Rightarrow> u32 set \<Rightarrow> u32 list \<Rightarrow> (u32 \<Rightarrow> u8 list) \<Rightarrow> bool" where
  "fmap_ok bm M as v \<longleftrightarrow> length as = NDIRECT + 1 \<and> bm \<in> M \<and> 0 \<in> M \<and> (\<forall>b. length (v b) = BSIZE) \<and>
     (\<forall>i < MAXFILE. \<forall>j < MAXFILE. blk as v i = blk as v j \<longrightarrow> blk as v i \<noteq> 0 \<longrightarrow> i = j) \<and>
     (\<forall>i < MAXFILE. blk as v i \<noteq> 0 \<longrightarrow> blk as v i \<noteq> as ! NDIRECT) \<and>
     (\<forall>b \<in> used as v \<union> M. marked bm v b) \<and> used as v \<inter> M = {}"

definition free_count :: "u32 \<Rightarrow> nat \<Rightarrow> (u32 \<Rightarrow> u8 list) \<Rightarrow> nat" where
  "free_count bm n v = card {j. j < n \<and> bit_free (v bm) j}"

text \<open>The effect of \<^verbatim>\<open>balloc\<close>.\<close>

definition alloc_v :: "u32 \<Rightarrow> nat \<Rightarrow> (u32 \<Rightarrow> u8 list) \<Rightarrow> u32 \<Rightarrow> u8 list" where
  "alloc_v bm bi v = v(bm := mark_bit (v bm) bi, of_nat bi := replicate BSIZE 0)"

lemma get32_zeros: "off + 4 \<le> BSIZE \<Longrightarrow> get32 off (replicate BSIZE 0) = 0"
proof -
  assume "off + 4 \<le> BSIZE"
  then have "get off 4 (replicate BSIZE 0) = [0, 0, 0, 0]" by (simp add: get_def) (simp add: numeral_eq_Suc)
  then show ?thesis by (simp add: get32_def un_le32_def)
qed

lemma file_consts: "NDIRECT = 12" "NINDIRECT = 256" "MAXFILE = 268" "BSIZE = 1024" "BPB = 8192"
  by (simp_all add: NDIRECT_def NINDIRECT_def MAXFILE_def BSIZE_def BPB_def)

lemma alloc_fresh:
  assumes ok: "fmap_ok bm M as v" and bi: "bi < BPB" "bit_free (v bm) bi"
  shows "of_nat bi \<notin> used as v" "of_nat bi \<notin> M" "(of_nat bi :: u32) \<noteq> 0" "(of_nat bi :: u32) \<noteq> bm" "unat (of_nat bi :: u32) = bi"
proof -
  show u: "unat (of_nat bi :: u32) = bi" using bi(1) by (simp add: unat_of_nat file_consts)
  have "\<not> marked bm v (of_nat bi)" using bi(2) u by (simp add: marked_def)
  then show "of_nat bi \<notin> used as v" and nM: "of_nat bi \<notin> M" using ok by (auto simp: fmap_ok_def)
  then show "(of_nat bi :: u32) \<noteq> 0" "(of_nat bi :: u32) \<noteq> bm" using ok by (auto simp: fmap_ok_def)
qed

lemma alloc_v_at:
  assumes ok: "fmap_ok bm M as v" and bi: "bi < BPB" "bit_free (v bm) bi"
  shows "b \<noteq> bm \<Longrightarrow> b \<noteq> of_nat bi \<Longrightarrow> alloc_v bm bi v b = v b" "alloc_v bm bi v (of_nat bi) = replicate BSIZE 0"
    "marked bm v b \<Longrightarrow> marked bm (alloc_v bm bi v) b" "marked bm (alloc_v bm bi v) (of_nat bi)" "length (alloc_v bm bi v b) = BSIZE"
    "free_count bm n (alloc_v bm bi v) + 1 \<ge> free_count bm n v"
proof -
  note fr = alloc_fresh [OF ok bi]
  have l: "\<And>b. length (v b) = BSIZE" using ok by (simp add: fmap_ok_def)
  have lt: "bi < 8 * length (v bm)" using bi(1) l by (simp add: file_consts)
  have bm: "alloc_v bm bi v bm = mark_bit (v bm) bi" using fr(4) by (simp add: alloc_v_def)
  show "b \<noteq> bm \<Longrightarrow> b \<noteq> of_nat bi \<Longrightarrow> alloc_v bm bi v b = v b" "alloc_v bm bi v (of_nat bi) = replicate BSIZE 0"
    "length (alloc_v bm bi v b) = BSIZE" by (simp_all add: alloc_v_def l)
  show "marked bm v b \<Longrightarrow> marked bm (alloc_v bm bi v) b" by (simp add: marked_def bm bit_free_mark [OF lt])
  show "marked bm (alloc_v bm bi v) (of_nat bi)" using bi(1) fr(5) by (simp add: marked_def bm bit_free_mark [OF lt])
  have "{j. j < n \<and> bit_free (v bm) j} \<subseteq> insert bi {j. j < n \<and> bit_free (alloc_v bm bi v bm) j}" by (auto simp: bm bit_free_mark [OF lt])
  then have "free_count bm n v \<le> card (insert bi {j. j < n \<and> bit_free (alloc_v bm bi v bm) j})" unfolding free_count_def by (intro card_mono) auto
  also have "\<dots> \<le> Suc (free_count bm n (alloc_v bm bi v))" unfolding free_count_def by (rule card_insert_le_m1) auto
  finally show "free_count bm n (alloc_v bm bi v) + 1 \<ge> free_count bm n v" by simp
qed

text \<open>Changing the view away from the file's blocks keeps the map and the contents.\<close>

lemma blk_cong: "(as ! NDIRECT \<noteq> 0 \<Longrightarrow> v' (as ! NDIRECT) = v (as ! NDIRECT)) \<Longrightarrow> blk as v' i = blk as v i"
  by (auto simp: blk_def)

lemma blk_used: "i < MAXFILE \<Longrightarrow> blk as v i \<noteq> 0 \<Longrightarrow> blk as v i \<in> used as v"
  by (auto simp: used_def)

lemma content_cong:
  assumes "\<And>b. b \<in> used as v \<Longrightarrow> v' b = v b" "x < MAXFILE * BSIZE" shows "content as v' x = content as v x"
proof -
  have b: "blk as v' i = blk as v i" for i by (rule blk_cong) (use assms(1) in \<open>auto simp: used_def\<close>)
  have "x div BSIZE < MAXFILE" using assms(2) by (simp add: file_consts)
  then show ?thesis using assms(1) blk_used by (auto simp: content_def b)
qed

lemma alloc_frame:
  assumes ok: "fmap_ok bm M as v" and bi: "bi < BPB" "bit_free (v bm) bi"
  shows "b \<in> used as v \<Longrightarrow> alloc_v bm bi v b = v b" "blk as (alloc_v bm bi v) i = blk as v i"
    "x < MAXFILE * BSIZE \<Longrightarrow> content as (alloc_v bm bi v) x = content as v x" "fmap_ok bm M as (alloc_v bm bi v)"
proof -
  have nu: "b \<noteq> bm" "b \<noteq> of_nat bi" if "b \<in> used as v" for b
    using that ok alloc_fresh(1) [OF ok bi] by (auto simp: fmap_ok_def)
  show u: "b \<in> used as v \<Longrightarrow> alloc_v bm bi v b = v b" for b using alloc_v_at(1) [OF ok bi] nu by blast
  show bl: "blk as (alloc_v bm bi v) i = blk as v i" for i by (rule blk_cong) (use u in \<open>auto simp: used_def\<close>)
  show "x < MAXFILE * BSIZE \<Longrightarrow> content as (alloc_v bm bi v) x = content as v x" using u by (rule content_cong)
  have us: "used as (alloc_v bm bi v) = used as v" by (simp add: used_def bl)
  show "fmap_ok bm M as (alloc_v bm bi v)"
    using ok alloc_v_at(3,5) [OF ok bi] unfolding fmap_ok_def bl us by blast
qed

text \<open>A fresh zero block can become a data block of the file, or its indirect block.\<close>

definition fresh :: "u32 \<Rightarrow> u32 set \<Rightarrow> u32 list \<Rightarrow> (u32 \<Rightarrow> u8 list) \<Rightarrow> u32 \<Rightarrow> bool" where
  "fresh bm M as v b \<longleftrightarrow> b \<notin> used as v \<and> b \<notin> M \<and> marked bm v b \<and> v b = replicate BSIZE 0"

lemma alloc_v_fresh:
  assumes ok: "fmap_ok bm M as v" and bi: "bi < BPB" "bit_free (v bm) bi"
  shows "fresh bm M as (alloc_v bm bi v) (of_nat bi)"
proof -
  have "used as (alloc_v bm bi v) = used as v" by (simp add: used_def alloc_frame(2) [OF ok bi])
  then show ?thesis using alloc_fresh(1,2) [OF ok bi] alloc_v_at(2,4) [OF ok bi] by (simp add: fresh_def)
qed

lemma adopt_data:
  assumes ok: "fmap_ok bm M as v" and fr: "fresh bm M as v b" and i0: "i0 < MAXFILE" "blk as v i0 = 0"
    and bl: "\<And>i. i < MAXFILE \<Longrightarrow> blk as' v' i = (if i = i0 then b else blk as v i)"
    and as': "as' ! NDIRECT = as ! NDIRECT" "length as' = length as"
    and v': "\<And>c. c \<noteq> as ! NDIRECT \<Longrightarrow> v' c = v c" "\<And>c. length (v' c) = BSIZE" "as ! NDIRECT = 0 \<Longrightarrow> v' 0 = v 0"
  shows "fmap_ok bm M as' v'" "x < MAXFILE * BSIZE \<Longrightarrow> content as' v' x = content as v x"
proof -
  have b: "b \<noteq> 0" "b \<noteq> as ! NDIRECT" "b \<notin> used as v" "b \<notin> M" "marked bm v b"
    using fr ok by (auto simp: fresh_def fmap_ok_def used_def)
  have bm: "bm \<noteq> as ! NDIRECT \<or> as ! NDIRECT = 0" using ok by (auto simp: fmap_ok_def used_def)
  then have vb: "v' bm = v bm" using v'(1,3) by (cases "bm = as ! NDIRECT") auto
  have img: "blk as' v' ` {..<MAXFILE} \<subseteq> insert b (blk as v ` {..<MAXFILE})" using bl by auto
  then have us: "used as' v' \<subseteq> insert b (used as v)" by (auto simp: used_def as')
  have inj: "i = j" if "i < MAXFILE" "j < MAXFILE" "blk as' v' i = blk as' v' j" "blk as' v' i \<noteq> 0" for i j
    using that bl b(3) blk_used [of _ as v] ok by (auto simp: fmap_ok_def split: if_splits)
  have mk: "marked bm v' c \<longleftrightarrow> marked bm v c" for c by (simp add: marked_def vb)
  have nd: "blk as' v' i \<noteq> as' ! NDIRECT" if "i < MAXFILE" "blk as' v' i \<noteq> 0" for i
    using that bl [OF that(1)] b(2) ok unfolding fmap_ok_def as'(1) by (cases "i = i0") auto
  show "fmap_ok bm M as' v'"
    unfolding fmap_ok_def mk
  proof (intro conjI allI impI ballI)
    show "bm \<in> M" "0 \<in> M" "length as' = NDIRECT + 1" "length (v' c) = BSIZE" for c using ok as'(2) v'(2) by (simp_all add: fmap_ok_def)
    show "marked bm v c" if "c \<in> used as' v' \<union> M" for c using that us b(5) ok by (auto simp: fmap_ok_def)
    show "used as' v' \<inter> M = {}" using us b(4) ok by (auto simp: fmap_ok_def)
  qed (use inj nd in blast)+
  show "content as' v' x = content as v x" if x: "x < MAXFILE * BSIZE"
  proof -
    have i: "x div BSIZE < MAXFILE" using x by (simp add: file_consts)
    have z: "v' b ! (x mod BSIZE) = 0" using v'(1) [OF b(2)] fr by (simp add: fresh_def file_consts)
    have o: "v' c = v c" if "c = blk as v (x div BSIZE)" "c \<noteq> 0" for c
      using that ok i v'(1) by (auto simp: fmap_ok_def)
    show ?thesis using bl [OF i] i0(2) z o b(1) by (auto simp: content_def)
  qed
qed

lemma adopt_direct:
  assumes ok: "fmap_ok bm M as v" and fr: "fresh bm M as v b" and i0: "i0 < NDIRECT" "as ! i0 = 0"
  shows "blk (as[i0 := b]) v i = (if i = i0 then b else blk as v i)" "fmap_ok bm M (as[i0 := b]) v"
    "x < MAXFILE * BSIZE \<Longrightarrow> content (as[i0 := b]) v x = content as v x"
proof -
  have l: "length as = NDIRECT + 1" "\<And>c. length (v c) = BSIZE" using ok by (simp_all add: fmap_ok_def)
  show bl: "blk (as[i0 := b]) v i = (if i = i0 then b else blk as v i)" for i using i0 l by (auto simp: blk_def)
  show "fmap_ok bm M (as[i0 := b]) v" "x < MAXFILE * BSIZE \<Longrightarrow> content (as[i0 := b]) v x = content as v x"
    using adopt_data [OF ok fr, of i0 "as[i0 := b]" v] i0 l bl by (auto simp: blk_def MAXFILE_def)
qed

lemma adopt_indirect:
  assumes ok: "fmap_ok bm M as v" and fr: "fresh bm M as v b" and z: "as ! NDIRECT = 0"
  shows "i < MAXFILE \<Longrightarrow> blk (as[NDIRECT := b]) v i = blk as v i" "fmap_ok bm M (as[NDIRECT := b]) v"
    "x < MAXFILE * BSIZE \<Longrightarrow> content (as[NDIRECT := b]) v x = content as v x"
proof -
  have l: "length as = NDIRECT + 1" using ok by (simp add: fmap_ok_def)
  have b: "b \<noteq> 0" "v b = replicate BSIZE 0" using fr ok by (auto simp: fresh_def fmap_ok_def)
  show bl: "blk (as[NDIRECT := b]) v i = blk as v i" if "i < MAXFILE" for i
  proof (cases "i < NDIRECT")
    case False
    then have "4 * (i - NDIRECT) + 4 \<le> BSIZE" using that by (simp add: file_consts)
    then show ?thesis using False l z b get32_zeros by (simp add: blk_def)
  qed (use l in \<open>simp add: blk_def\<close>)
  have us: "used (as[NDIRECT := b]) v \<subseteq> insert b (used as v)" using bl l by (auto simp: used_def)
  have nb: "blk as v i \<noteq> b" if "i < MAXFILE" "blk as v i \<noteq> 0" for i using fr blk_used [OF that] by (auto simp: fresh_def)
  show "fmap_ok bm M (as[NDIRECT := b]) v"
    unfolding fmap_ok_def
  proof (intro conjI allI impI ballI)
    show "bm \<in> M" "0 \<in> M" "length (as[NDIRECT := b]) = NDIRECT + 1" "length (v c) = BSIZE" for c using ok l by (simp_all add: fmap_ok_def)
    show "i = j" if "i < MAXFILE" "j < MAXFILE" "blk (as[NDIRECT := b]) v i = blk (as[NDIRECT := b]) v j" "blk (as[NDIRECT := b]) v i \<noteq> 0" for i j
      using that ok bl by (simp add: fmap_ok_def)
    show "blk (as[NDIRECT := b]) v i \<noteq> as[NDIRECT := b] ! NDIRECT" if "i < MAXFILE" "blk (as[NDIRECT := b]) v i \<noteq> 0" for i
      using that bl nb l by simp
    show "marked bm v c" if "c \<in> used (as[NDIRECT := b]) v \<union> M" for c using that us fr ok by (auto simp: fmap_ok_def fresh_def)
    show "used (as[NDIRECT := b]) v \<inter> M = {}" using us fr ok by (auto simp: fmap_ok_def fresh_def)
  qed
  show "content (as[NDIRECT := b]) v x = content as v x" if "x < MAXFILE * BSIZE"
    using bl [of "x div BSIZE"] that by (simp add: content_def file_consts)
qed

lemma adopt_entry:
  assumes ok: "fmap_ok bm M as v" and fr: "fresh bm M as v b" and a: "as ! NDIRECT \<noteq> 0" and i0: "NDIRECT \<le> i0" "i0 < MAXFILE" "blk as v i0 = 0"
    and v': "v' = v(as ! NDIRECT := put32 (4 * (i0 - NDIRECT)) b (v (as ! NDIRECT)))"
  shows "i < MAXFILE \<Longrightarrow> blk as v' i = (if i = i0 then b else blk as v i)" "fmap_ok bm M as v'"
    "x < MAXFILE * BSIZE \<Longrightarrow> content as v' x = content as v x"
proof -
  have l: "length (v (as ! NDIRECT)) = BSIZE" "\<And>c. length (v c) = BSIZE" using ok by (simp_all add: fmap_ok_def)
  have off: "4 * (i - NDIRECT) + 4 \<le> BSIZE" if "i < MAXFILE" for i using that by (simp add: file_consts)
  show bl: "blk as v' i = (if i = i0 then b else blk as v i)" if "i < MAXFILE" for i
  proof (cases "i < NDIRECT")
    case False
    have ne: "4 * (i - NDIRECT) + 4 \<le> 4 * (i0 - NDIRECT) \<or> 4 * (i0 - NDIRECT) + 4 \<le> 4 * (i - NDIRECT)" if "i \<noteq> i0"
      using that False i0(1) by auto
    show ?thesis using False a ne off [OF i0(2)] l(1) by (auto simp: blk_def v' get_put32)
  qed (use i0 in \<open>auto simp: blk_def v'\<close>)
  have lv: "length (v' c) = BSIZE" for c using l off [OF i0(2)] by (auto simp: v')
  show "fmap_ok bm M as v'" "x < MAXFILE * BSIZE \<Longrightarrow> content as v' x = content as v x"
    using adopt_data [OF ok fr i0(2,3), of as v'] bl lv a v' by auto
qed

section \<open>The block map of an inode\<close>

abbreviation addrs :: "fs \<Rightarrow> nat \<Rightarrow> u32 list" where "addrs s p \<equiv> i_addrs (inode_at s p)"
abbreviation s_blk :: "fs \<Rightarrow> nat \<Rightarrow> nat \<Rightarrow> u32" where "s_blk s p \<equiv> blk (addrs s p) (fview s)"
abbreviation s_content :: "fs \<Rightarrow> nat \<Rightarrow> nat \<Rightarrow> u8" where "s_content s p \<equiv> content (addrs s p) (fview s)"
abbreviation s_free :: "fs \<Rightarrow> nat" where "s_free s \<equiv> free_count (bmap_blk s) (unat (sb_size (fs_sb s))) (fview s)"

definition inode_ok :: "u32 set \<Rightarrow> fs \<Rightarrow> nat \<Rightarrow> bool" where
  "inode_ok M s p \<longleftrightarrow> 0 < p \<and> p \<le> length (fs_itable s) \<and> i_dev (inode_at s p) = fdev s \<and>
     unat (sb_size (fs_sb s)) \<le> BPB \<and> fmap_ok (bmap_blk s) M (addrs s p) (fview s)"

definition same_ip :: "nat \<Rightarrow> fs \<Rightarrow> fs \<Rightarrow> bool" where
  "same_ip p s t \<longleftrightarrow> fs_sb t = fs_sb s \<and> fs_pid t = fs_pid s \<and> fs_cwd t = fs_cwd s \<and> fdev t = fdev s \<and>
     length (fs_itable t) = length (fs_itable s) \<and> (\<forall>q. q \<noteq> p - 1 \<longrightarrow> fs_itable t ! q = fs_itable s ! q) \<and>
     (inode_at t p)\<lparr>i_addrs := []\<rparr> = (inode_at s p)\<lparr>i_addrs := []\<rparr>"

definition keeps :: "u32 set \<Rightarrow> nat \<Rightarrow> fs \<Rightarrow> fs \<Rightarrow> bool" where
  "keeps M p s t \<longleftrightarrow> inode_ok M t p \<and> same_ip p s t \<and> (\<forall>x < MAXFILE * BSIZE. s_content t p x = s_content s p x)"

lemma same_ip_fields:
  assumes "same_ip p s t"
  shows "i_size (inode_at t p) = i_size (inode_at s p)" "i_dev (inode_at t p) = i_dev (inode_at s p)"
    "i_inum (inode_at t p) = i_inum (inode_at s p)" "fs_sb t = fs_sb s" "fdev t = fdev s" "fs_pid t = fs_pid s"
proof -
  have e: "(inode_at t p)\<lparr>i_addrs := []\<rparr> = (inode_at s p)\<lparr>i_addrs := []\<rparr>" using assms by (simp add: same_ip_def)
  show "i_size (inode_at t p) = i_size (inode_at s p)" using arg_cong [OF e, of i_size] by simp
  show "i_dev (inode_at t p) = i_dev (inode_at s p)" using arg_cong [OF e, of i_dev] by simp
  show "i_inum (inode_at t p) = i_inum (inode_at s p)" using arg_cong [OF e, of i_inum] by simp
  show "fs_sb t = fs_sb s" "fdev t = fdev s" "fs_pid t = fs_pid s" using assms by (simp_all add: same_ip_def)
qed

lemma same_ip_trans: "same_ip p s t \<Longrightarrow> same_ip p t u \<Longrightarrow> same_ip p s u"
  by (simp add: same_ip_def)

lemma keeps_trans: "keeps M p s t \<Longrightarrow> keeps M p t u \<Longrightarrow> keeps M p s u"
  using same_ip_trans by (auto simp: keeps_def)

lemma same_fs_ip: "same_fs s t \<Longrightarrow> same_ip p s t"
  by (simp add: same_fs_def same_ip_def)

lemma keeps_view: "inode_ok M s p \<Longrightarrow> same_fs s t \<Longrightarrow> fview t = fview s \<Longrightarrow> keeps M p s t"
  by (simp add: keeps_def same_fs_ip) (simp add: inode_ok_def same_fs_def)

lemma upd_inode_at: "0 < p \<Longrightarrow> p \<le> length (fs_itable s) \<Longrightarrow> inode_at (upd_inode p f s) p = f (inode_at s p)"
  by (cases p) (auto simp: upd_inode_def)

lemma upd_inode_frame [simp]:
  "fs_ok K H (upd_inode p f s) = fs_ok K H s" "fview (upd_inode p f s) = fview s" "fholds (upd_inode p f s) = fholds s"
  "fs_sb (upd_inode p f s) = fs_sb s" "fs_log (upd_inode p f s) = fs_log s" "length (fs_itable (upd_inode p f s)) = length (fs_itable s)"
  "fs_cache (upd_inode p f s) = fs_cache s" "fs_pid (upd_inode p f s) = fs_pid s"
  by (auto simp: upd_inode_def fs_ok_def logged_def fview_def fholds_def fun_eq_iff)

lemma same_ip_addrs: "0 < p \<Longrightarrow> p \<le> length (fs_itable s) \<Longrightarrow> same_ip p s (upd_inode p (\<lambda>ip. ip\<lparr>i_addrs := f (i_addrs ip)\<rparr>) s)"
  by (cases p) (auto simp: same_ip_def upd_inode_def)

lemma first_free_exists:
  assumes "0 < s_free s" "unat (sb_size (fs_sb s)) \<le> BPB"
  obtains bi where "first_free s = Some bi" "bi < BPB" "bit_free (fview s (bmap_blk s)) bi"
proof -
  have "{j. j < unat (sb_size (fs_sb s)) \<and> bit_free (fview s (bmap_blk s)) j} \<noteq> {}" using assms(1) by (auto simp: free_count_def card_gt_0_iff)
  then have "first_free s \<noteq> None" using assms(2) by (auto simp: first_free_def find_None_iff)
  then obtain bi where bi: "first_free s = Some bi" by blast
  then have "bi < BPB" "bit_free (fview s (bmap_blk s)) bi" by (auto simp: first_free_def find_Some_iff)
  then show thesis using that bi by blast
qed

lemma balloc_file:
  assumes ok: "fs_ok (Suc (Suc K)) H s" and H: "card H \<le> 2" "H \<subseteq> used (addrs s p) (fview s)" and ip: "inode_ok M s p" and fr: "0 < s_free s"
  obtains b t where "balloc (fdev s) s = Some (Inr (b, t))" "fs_ok K H t" "same_fs s t" "keeps M p s t" "s_free s \<le> s_free t + 1"
    "fresh (bmap_blk s) M (addrs s p) (fview t) b" "\<And>i. s_blk t p i = s_blk s p i"
    "\<And>h' b'. fholds s h' b' \<Longrightarrow> b' \<in> H \<Longrightarrow> fholds t h' b'" "\<And>c. c \<in> used (addrs s p) (fview s) \<Longrightarrow> fview t c = fview s c" "b \<noteq> 0"
proof -
  have fo: "fmap_ok (bmap_blk s) M (addrs s p) (fview s)" and sz: "unat (sb_size (fs_sb s)) \<le> BPB" using ip by (auto simp: inode_ok_def)
  obtain bi where bi: "first_free s = Some bi" "bi < BPB" "bit_free (fview s (bmap_blk s)) bi" by (rule first_free_exists [OF fr sz])
  note al = alloc_fresh [OF fo bi(2,3)]
  have nH: "bmap_blk s \<notin> H" "of_nat bi \<notin> H" using H(2) al(1) fo by (auto simp: fmap_ok_def)
  obtain t where t: "balloc (fdev s) s = Some (Inr (of_nat bi, t))" "fs_ok K H t" "same_fs s t"
    "fview t = (fview s)(bmap_blk s := mark_bit (fview s (bmap_blk s)) bi, of_nat bi := replicate BSIZE 0)"
    "\<And>h' b'. fholds s h' b' \<Longrightarrow> b' \<in> H \<Longrightarrow> fholds t h' b'"
    by (rule balloc_ok [OF ok H(1) nH(1) bi(1) nH(2)]) blast
  have vt: "fview t = alloc_v (bmap_blk s) bi (fview s)" using t(4) by (simp add: alloc_v_def)
  note af = alloc_frame [OF fo bi(2,3)]
  have sb: "fs_sb t = fs_sb s" "fs_itable t = fs_itable s" "fdev t = fdev s" using t(3) by (simp_all add: same_fs_def)
  have "keeps M p s t" using ip af(3,4) same_fs_ip [OF t(3)] by (simp add: keeps_def inode_ok_def sb vt)
  moreover have "s_free s \<le> s_free t + 1" using alloc_v_at(6) [OF fo bi(2,3)] by (simp add: vt sb)
  moreover have "s_blk t p i = s_blk s p i" for i using af(2) by (simp add: vt sb)
  ultimately show thesis
    using that [OF t(1-3)] alloc_v_fresh [OF fo bi(2,3)] t(5) af(1) al(3) unfolding vt by blast
qed

text \<open>\<^verbatim>\<open>bmap\<close> of a direct block.\<close>

lemma bmap_direct:
  assumes ok: "fs_ok (Suc (Suc K)) {} s" and ip: "inode_ok M s p" and fr: "0 < s_free s" and bn: "bn < NDIRECT"
  obtains t where "bmap p (of_nat bn) s = Some (Inr (s_blk t p bn, t))" "fs_ok K {} t" "keeps M p s t" "s_blk t p bn \<noteq> 0"
    "\<And>i. i \<noteq> bn \<Longrightarrow> s_blk t p i = s_blk s p i" "s_free s \<le> s_free t + 1"
proof -
  have u: "unat (of_nat bn :: u32) = bn" using bn by (simp add: unat_of_nat file_consts)
  have p: "0 < p" "p \<le> length (fs_itable s)" "i_dev (inode_at s p) = fdev s" using ip by (auto simp: inode_ok_def)
  have bl: "s_blk s p bn = addrs s p ! bn" using bn by (simp add: blk_def)
  show thesis
  proof (cases "addrs s p ! bn = 0")
    case False
    then have "bmap p (of_nat bn) s = Some (Inr (s_blk s p bn, s))" using bn u bl by (simp add: bmap_def retC_def)
    then show thesis using that [of s] fs_ok_weaken [OF ok, of K] keeps_view [OF ip] False bl by simp
  next
    case True
    obtain b t where t: "balloc (fdev s) s = Some (Inr (b, t))" "fs_ok K {} t" "same_fs s t" "keeps M p s t" "s_free s \<le> s_free t + 1"
      "fresh (bmap_blk s) M (addrs s p) (fview t) b" "\<And>i. s_blk t p i = s_blk s p i" "b \<noteq> 0"
      by (rule balloc_file [OF ok _ _ ip fr]) auto
    let ?u = "upd_inode p (\<lambda>ip. ip\<lparr>i_addrs := (i_addrs ip)[bn := b]\<rparr>) t"
    have tb: "fs_itable t = fs_itable s" "fs_sb t = fs_sb s" using t(3) by (simp_all add: same_fs_def)
    have fo: "fmap_ok (bmap_blk s) M (addrs s p) (fview t)" using t(4) by (simp add: keeps_def inode_ok_def tb)
    note ad = adopt_direct [OF fo t(6) bn True]
    have au: "addrs ?u p = (addrs s p)[bn := b]" using upd_inode_at [of p t] p by (simp add: tb)
    have su: "same_ip p t ?u" using p tb by (intro same_ip_addrs) auto
    have "keeps M p t ?u" unfolding keeps_def inode_ok_def au using t(4) ad(2,3) su same_ip_fields [OF su] by (simp add: keeps_def inode_ok_def tb)
    then have "keeps M p s ?u" by (rule keeps_trans [OF t(4)])
    moreover have "bmap p (of_nat bn) s = Some (Inr (b, ?u))" using bn u t(1) p(3) True by (simp add: bmap_def retC_def)
    moreover have "s_blk ?u p i = (if i = bn then b else s_blk s p i)" for i unfolding au using ad(1) t(7) by (simp add: tb)
    ultimately show thesis using that [of ?u] t(2,5,8) by simp
  qed
qed

lemma bmap_indirect_block:
  assumes ok: "fs_ok (Suc (Suc K)) {} s" and ip: "inode_ok M s p" and fr: "0 < s_free s"
  obtains t where "(if addrs s p ! NDIRECT = 0
       then bindC (balloc (fdev s)) (\<lambda>addr. thenC (modC (upd_inode p (\<lambda>ip. ip\<lparr>i_addrs := (i_addrs ip)[NDIRECT := addr]\<rparr>))) (retC addr))
       else retC (addrs s p ! NDIRECT)) s = Some (Inr (addrs t p ! NDIRECT, t))" "fs_ok K {} t" "keeps M p s t" "addrs t p ! NDIRECT \<noteq> 0"
    "\<And>i. i < MAXFILE \<Longrightarrow> s_blk t p i = s_blk s p i" "s_free s \<le> s_free t + 1"
proof (cases "addrs s p ! NDIRECT = 0")
  case False
  then show thesis using that [of s] fs_ok_weaken [OF ok, of K] keeps_view [OF ip] by (simp add: retC_def)
next
  case True
  have p: "0 < p" "p \<le> length (fs_itable s)" using ip by (auto simp: inode_ok_def)
  obtain b t where t: "balloc (fdev s) s = Some (Inr (b, t))" "fs_ok K {} t" "same_fs s t" "keeps M p s t" "s_free s \<le> s_free t + 1"
    "fresh (bmap_blk s) M (addrs s p) (fview t) b" "\<And>i. s_blk t p i = s_blk s p i" "b \<noteq> 0"
    by (rule balloc_file [OF ok _ _ ip fr]) auto
  let ?u = "upd_inode p (\<lambda>ip. ip\<lparr>i_addrs := (i_addrs ip)[NDIRECT := b]\<rparr>) t"
  have tb: "fs_itable t = fs_itable s" "fs_sb t = fs_sb s" using t(3) by (simp_all add: same_fs_def)
  have fo: "fmap_ok (bmap_blk s) M (addrs s p) (fview t)" using t(4) by (simp add: keeps_def inode_ok_def tb)
  then have l: "length (addrs s p) = NDIRECT + 1" by (simp add: fmap_ok_def)
  note ad = adopt_indirect [OF fo t(6) True]
  have au: "addrs ?u p = (addrs s p)[NDIRECT := b]" using upd_inode_at [of p t] p by (simp add: tb)
  have su: "same_ip p t ?u" using p tb by (intro same_ip_addrs) auto
  have "keeps M p t ?u" unfolding keeps_def inode_ok_def au using t(4) ad(2,3) su same_ip_fields [OF su] by (simp add: keeps_def inode_ok_def tb)
  then have "keeps M p s ?u" by (rule keeps_trans [OF t(4)])
  moreover have "s_blk ?u p i = s_blk s p i" if "i < MAXFILE" for i unfolding au using ad(1) [OF that] t(7) by (simp add: tb)
  moreover have "addrs ?u p ! NDIRECT = b" unfolding au using l by simp
  ultimately show thesis using that [of ?u] t(1,2,5,8) True by (simp add: retC_def)
qed

lemma bmap_entry:
  assumes ok: "fs_ok (Suc (Suc (Suc K))) {} s" and ip: "inode_ok M s p" and fr: "0 < s_free s"
    and a: "addrs s p ! NDIRECT \<noteq> 0" and bn: "NDIRECT \<le> bn" "bn < MAXFILE"
  obtains t where "bindC (f_bread (fdev s) (addrs s p ! NDIRECT)) (\<lambda>bp.
       bindC (f_data bp) (\<lambda>a.
       bindC (if get32 (4 * (bn - NDIRECT)) a = 0
              then bindC (balloc (fdev s)) (\<lambda>addr. thenC (f_set bp (put32 (4 * (bn - NDIRECT)) addr a)) (thenC (f_log_write bp) (retC addr)))
              else retC (get32 (4 * (bn - NDIRECT)) a)) (\<lambda>addr.
       thenC (f_brelse bp) (retC addr)))) s = Some (Inr (s_blk t p bn, t))" "fs_ok K {} t" "keeps M p s t" "s_blk t p bn \<noteq> 0"
    "\<And>i. i < MAXFILE \<Longrightarrow> i \<noteq> bn \<Longrightarrow> s_blk t p i = s_blk s p i" "s_free s \<le> s_free t + 1"
proof -
  let ?a = "addrs s p ! NDIRECT" and ?off = "4 * (bn - NDIRECT)"
  have bl: "s_blk s p bn = get32 ?off (fview s ?a)" using bn a by (simp add: blk_def)
  obtain h s1 where 1: "\<And>F :: nat \<Rightarrow> u8 list \<Rightarrow> (fs, u32) comp. bindC (f_bread (fdev s) ?a) (\<lambda>h. bindC (f_data h) (F h)) s = F h (fview s ?a) s1"
    "fs_ok (Suc (Suc (Suc K))) {?a} s1" "fholds s1 h ?a" "fview s1 = fview s" "same_fs s s1"
    by (rule f_read_ok [OF ok, of ?a]) auto
  have k1: "keeps M p s s1" by (rule keeps_view [OF ip 1(5,4)])
  have sb: "fs_itable s1 = fs_itable s" "fs_sb s1 = fs_sb s" "fdev s1 = fdev s" using 1(5) by (simp_all add: same_fs_def)
  show thesis
  proof (cases "get32 ?off (fview s ?a) = 0")
    case False
    obtain t where t: "f_brelse h s1 = Some (Inr ((), t))" "fs_ok (Suc (Suc (Suc K))) ({?a} - {?a}) t" "fview t = fview s1" "same_fs s1 t"
      by (rule f_brelse_ok [OF 1(2,3)]) auto
    have v: "fview t = fview s" "same_fs s t" using t(3,4) 1(4,5) same_fs_trans by auto
    have "fs_itable t = fs_itable s" "fs_sb t = fs_sb s" using v(2) by (simp_all add: same_fs_def)
    then show thesis using that [of t] 1(1) t(1,2) False bl keeps_view [OF ip v(2,1)] fs_ok_weaken [of _ "{}" t K] by (simp add: retC_def v(1))
  next
    case True
    have ip1: "inode_ok M s1 p" using k1 by (simp add: keeps_def)
    have us: "{?a} \<subseteq> used (addrs s1 p) (fview s1)" using a by (simp add: used_def sb 1(4))
    obtain b s2 where 2: "balloc (fdev s1) s1 = Some (Inr (b, s2))" "fs_ok (Suc K) {?a} s2" "same_fs s1 s2" "keeps M p s1 s2" "s_free s1 \<le> s_free s2 + 1"
      "fresh (bmap_blk s1) M (addrs s1 p) (fview s2) b" "\<And>i. s_blk s2 p i = s_blk s1 p i"
      "\<And>h' b'. fholds s1 h' b' \<Longrightarrow> b' \<in> {?a} \<Longrightarrow> fholds s2 h' b'" "\<And>c. c \<in> used (addrs s1 p) (fview s1) \<Longrightarrow> fview s2 c = fview s1 c" "b \<noteq> 0"
      by (rule balloc_file [OF 1(2) _ us ip1]) (use fr 1(4) sb in auto)
    have sb2: "fs_itable s2 = fs_itable s" "fs_sb s2 = fs_sb s" "fdev s2 = fdev s" using 2(3) sb by (simp_all add: same_fs_def)
    have va: "fview s2 ?a = fview s ?a" using 2(9) us 1(4) by auto
    let ?d = "put32 ?off b (fview s ?a)"
    obtain s3 where 3: "\<And>k :: (fs, u32) comp. thenC (f_set h ?d) (thenC (f_log_write h) k) s2 = k s3" "fs_ok K {?a} s3"
      "fview s3 = (fview s2)(?a := ?d)" "same_fs s2 s3" "\<And>h' b'. fholds s2 h' b' \<Longrightarrow> fholds s3 h' b'"
      by (rule f_modify_ok [OF 2(2) 2(8) [OF 1(3)], of ?d]) auto
    obtain t where t: "f_brelse h s3 = Some (Inr ((), t))" "fs_ok K ({?a} - {?a}) t" "fview t = fview s3" "same_fs s3 t"
      by (rule f_brelse_ok [OF 3(2) 3(5) [OF 2(8) [OF 1(3)]]]) auto
    have tb: "fs_itable t = fs_itable s" "fs_sb t = fs_sb s" "fdev t = fdev s" using t(4) 3(4) sb2 by (simp_all add: same_fs_def)
    have fo: "fmap_ok (bmap_blk s) M (addrs s p) (fview s2)" using 2(4) by (simp add: keeps_def inode_ok_def sb2)
    have fh: "fresh (bmap_blk s) M (addrs s p) (fview s2) b" using 2(6) by (simp add: sb)
    have z: "blk (addrs s p) (fview s2) bn = 0" using 2(7) [of bn] bl True by (simp add: sb sb2 1(4))
    have vt: "fview t = (fview s2)(?a := put32 ?off b (fview s2 ?a))" using t(3) 3(3) va by simp
    note ad = adopt_entry [OF fo fh a bn z vt]
    have bk: "s_blk t p i = (if i = bn then b else s_blk s p i)" if "i < MAXFILE" for i
      using ad(1) [OF that] 2(7) [of i] by (simp add: tb sb sb2 1(4))
    have st: "same_ip p s t" using same_fs_ip same_fs_trans 1(5) 2(3) 3(4) t(4) by meson
    have "keeps M p s2 t" unfolding keeps_def inode_ok_def
      using 2(4) ad(2,3) same_fs_ip [OF same_fs_trans [OF 3(4) t(4)], of p] by (simp add: keeps_def inode_ok_def tb sb2)
    then have kt: "keeps M p s t" using keeps_trans k1 2(4) by blast
    have nb: "bmap_blk s \<noteq> ?a" using fo a by (auto simp: fmap_ok_def used_def)
    have "s_free t = s_free s2" unfolding free_count_def using nb by (simp add: vt tb sb2)
    then have sf: "s_free s \<le> s_free t + 1" using 2(5) by (simp add: sb 1(4))
    show thesis
      by (rule that [of t]) (use 1(1) 2(1,10) 3(1) t(1,2) True bk [OF bn(2)] bk kt sf sb in \<open>simp_all add: retC_def\<close>)
  qed
qed

lemma bmap_ok:
  assumes ok: "fs_ok (K + 5) {} s" and ip: "inode_ok M s p" and fr: "2 \<le> s_free s" and bn: "bn < MAXFILE"
  obtains t where "bmap p (of_nat bn) s = Some (Inr (s_blk t p bn, t))" "fs_ok K {} t" "keeps M p s t" "s_blk t p bn \<noteq> 0"
    "\<And>i. i < MAXFILE \<Longrightarrow> i \<noteq> bn \<Longrightarrow> s_blk t p i = s_blk s p i" "s_free s \<le> s_free t + 2"
proof (cases "bn < NDIRECT")
  case True
  have "fs_ok (Suc (Suc K)) {} s" by (rule fs_ok_weaken [OF ok]) simp
  then obtain t where t: "bmap p (of_nat bn) s = Some (Inr (s_blk t p bn, t))" "fs_ok K {} t" "keeps M p s t" "s_blk t p bn \<noteq> 0"
    "\<And>i. i \<noteq> bn \<Longrightarrow> s_blk t p i = s_blk s p i" "s_free s \<le> s_free t + 1"
    by (rule bmap_direct [OF _ ip _ True]) (use fr in auto)
  show thesis by (rule that [OF t(1-4)]) (use t(5,6) in auto)
next
  case False
  have k5: "fs_ok (Suc (Suc (Suc (Suc (Suc K))))) {} s" using ok by (simp add: numeral_eq_Suc)
  have u: "unat (of_nat bn :: u32) = bn" "unat (of_nat bn - of_nat NDIRECT :: u32) = bn - NDIRECT"
  proof -
    show "unat (of_nat bn :: u32) = bn" using bn by (simp add: unat_of_nat file_consts)
    have "(of_nat bn - of_nat NDIRECT :: u32) = of_nat (bn - NDIRECT)" using False by simp
    then show "unat (of_nat bn - of_nat NDIRECT :: u32) = bn - NDIRECT" using bn by (simp add: unat_of_nat file_consts del: of_nat_diff)
  qed
  obtain s1 where 1: "(if addrs s p ! NDIRECT = 0
       then bindC (balloc (fdev s)) (\<lambda>addr. thenC (modC (upd_inode p (\<lambda>ip. ip\<lparr>i_addrs := (i_addrs ip)[NDIRECT := addr]\<rparr>))) (retC addr))
       else retC (addrs s p ! NDIRECT)) s = Some (Inr (addrs s1 p ! NDIRECT, s1))" "fs_ok (Suc (Suc (Suc K))) {} s1" "keeps M p s s1"
    "addrs s1 p ! NDIRECT \<noteq> 0" "\<And>i. i < MAXFILE \<Longrightarrow> s_blk s1 p i = s_blk s p i" "s_free s \<le> s_free s1 + 1"
    by (rule bmap_indirect_block [OF k5 ip]) (use fr in auto)
  have ip1: "inode_ok M s1 p" "fdev s1 = fdev s" "i_dev (inode_at s p) = fdev s" using 1(3) ip by (auto simp: keeps_def same_ip_def inode_ok_def)
  have f1: "0 < s_free s1" using 1(6) fr by simp
  obtain t where t: "bindC (f_bread (fdev s1) (addrs s1 p ! NDIRECT)) (\<lambda>bp.
       bindC (f_data bp) (\<lambda>a.
       bindC (if get32 (4 * (bn - NDIRECT)) a = 0
              then bindC (balloc (fdev s1)) (\<lambda>addr. thenC (f_set bp (put32 (4 * (bn - NDIRECT)) addr a)) (thenC (f_log_write bp) (retC addr)))
              else retC (get32 (4 * (bn - NDIRECT)) a)) (\<lambda>addr.
       thenC (f_brelse bp) (retC addr)))) s1 = Some (Inr (s_blk t p bn, t))" "fs_ok K {} t" "keeps M p s1 t" "s_blk t p bn \<noteq> 0"
    "\<And>i. i < MAXFILE \<Longrightarrow> i \<noteq> bn \<Longrightarrow> s_blk t p i = s_blk s1 p i" "s_free s1 \<le> s_free t + 1"
    by (rule bmap_entry [OF 1(2) ip1(1) f1 1(4) _ bn]) (use False in auto)
  have lt: "bn - NDIRECT < NINDIRECT" using bn False by (simp add: MAXFILE_def)
  have "bmap p (of_nat bn) s = Some (Inr (s_blk t p bn, t))"
    by (simp only: bmap_def bind_simple u ip1(3) Let_def False lt if_False if_True)
      (subst bindC_Inr [where s = s and t = s1], rule 1(1), rule t(1) [unfolded ip1(2)])
  then show thesis using that [of t] t 1(5,6) keeps_trans [OF 1(3) t(3)] by simp
qed

end
