(* ===== verification/Fs_rw.thy ===== *)
theory Fs_rw
  imports Fs_file
begin

text \<open>
  Reading and writing files: \<^verbatim>\<open>writei\<close> puts the given bytes into the contents of the file and changes
  nothing else of it, and \<^verbatim>\<open>readi\<close> returns the contents.
\<close>

section \<open>Writing inside a block\<close>

lemma nth_put_in: "off + length bs \<le> length d \<Longrightarrow> off \<le> i \<Longrightarrow> i < off + length bs \<Longrightarrow> put off bs d ! i = bs ! (i - off)"
  by (simp add: nth_put)

lemma content_put:
  assumes ok: "fmap_ok bm M as v" and i: "i < MAXFILE" "blk as v i \<noteq> 0" and o: "o' + length bs \<le> BSIZE"
    and v': "v' = v(blk as v i := put o' bs (v (blk as v i)))"
  shows "blk as v' j = blk as v j" "fmap_ok bm M as v'"
    "x < MAXFILE * BSIZE \<Longrightarrow> content as v' x =
       (if i * BSIZE + o' \<le> x \<and> x < i * BSIZE + o' + length bs then bs ! (x - (i * BSIZE + o')) else content as v x)"
proof -
  let ?b = "blk as v i"
  have l: "\<And>c. length (v c) = BSIZE" using ok by (simp add: fmap_ok_def)
  have nd: "?b \<noteq> as ! NDIRECT" using ok i by (simp add: fmap_ok_def)
  show bl: "blk as v' j = blk as v j" for j by (rule blk_cong) (use nd v' in auto)
  have us: "used as v' = used as v" by (simp add: used_def bl)
  have bm: "?b \<noteq> bm" using ok blk_used [OF i] by (auto simp: fmap_ok_def)
  have lv: "length (v' c) = BSIZE" for c using l o by (auto simp: v')
  have "marked bm v' c = marked bm v c" for c using bm by (simp add: marked_def v')
  then show "fmap_ok bm M as v'" using ok lv unfolding fmap_ok_def bl us by blast
  show "content as v' x = (if i * BSIZE + o' \<le> x \<and> x < i * BSIZE + o' + length bs then bs ! (x - (i * BSIZE + o')) else content as v x)"
    if x: "x < MAXFILE * BSIZE"
  proof -
    let ?q = "x div BSIZE" and ?r = "x mod BSIZE"
    have r: "?r < BSIZE" "?q < MAXFILE" "x = ?q * BSIZE + ?r" using x by (simp_all add: file_consts)
    show ?thesis
    proof (cases "?q = i")
      case True
      have "v' ?b ! ?r = (if o' \<le> ?r \<and> ?r < o' + length bs then bs ! (?r - o') else v ?b ! ?r)"
        using r(1) l o by (simp add: v' nth_put)
      moreover have xe: "x = i * BSIZE + ?r" using r(3) True by simp
      have "y + o' \<le> y + z \<longleftrightarrow> o' \<le> z" "y + z < y + o' + length bs \<longleftrightarrow> z < o' + length bs" "y + z - (y + o') = z - o'" for y z by auto
      note this [of "i * BSIZE" ?r, folded xe]
      then have "i * BSIZE + o' \<le> x \<longleftrightarrow> o' \<le> ?r" "x < i * BSIZE + o' + length bs \<longleftrightarrow> ?r < o' + length bs" "x - (i * BSIZE + o') = ?r - o'"
        by blast+
      ultimately show ?thesis using i(2) True by (simp add: content_def bl)
    next
      case False
      have "\<not> (i * BSIZE + o' \<le> x \<and> x < i * BSIZE + o' + length bs)"
      proof
        assume a: "i * BSIZE + o' \<le> x \<and> x < i * BSIZE + o' + length bs"
        then have "i * BSIZE \<le> x" "x < (i + 1) * BSIZE" using o by (simp_all add: algebra_simps)
        then have "?q = i" by (simp add: div_nat_eqI mult.commute)
        then show False using False by simp
      qed
      moreover have "v' (blk as v ?q) = v (blk as v ?q)" if "blk as v ?q \<noteq> 0"
        using ok i that r(2) False by (auto simp: v' fmap_ok_def)
      ultimately show ?thesis by (auto simp: content_def bl)
    qed
  qed
qed

section \<open>Chunks\<close>

definition chunks :: "nat \<Rightarrow> nat \<Rightarrow> nat" where
  "chunks off n = (if n = 0 then 0 else (off mod BSIZE + n - 1) div BSIZE + 1)"

lemma chunk_len_unat:
  assumes "tot < n"
  shows "unat (chunk_len n tot off) = min (unat n - unat tot) (BSIZE - unat off mod BSIZE)"
proof -
  have m: "unat (off mod of_nat BSIZE) = unat off mod BSIZE" by (simp add: unat_mod file_consts)
  have lt: "unat off mod BSIZE < BSIZE" by (simp add: file_consts)
  have b: "unat (of_nat BSIZE :: u32) = BSIZE" by (simp add: file_consts)
  have "unat (of_nat BSIZE - off mod of_nat BSIZE) = BSIZE - unat off mod BSIZE"
    using lt m b by (simp add: unat_sub word_le_nat_alt)
  moreover have "unat (n - tot) = unat n - unat tot" using assms by (simp add: unat_sub order_less_imp_le)
  moreover have "unat (min a c) = min (unat a) (unat c)" for a c :: u32 by (simp add: min_def word_le_nat_alt)
  ultimately show ?thesis by (simp add: chunk_len_def)
qed

lemma chunks_step:
  assumes "0 < r" "k = min r (BSIZE - off mod BSIZE)"
  shows "0 < k" "k \<le> r" "off mod BSIZE + k \<le> BSIZE" "chunks off r = Suc (chunks (off + k) (r - k))"
proof -
  have B: "0 < BSIZE" "off mod BSIZE < BSIZE" by (simp_all add: file_consts)
  show "0 < k" "k \<le> r" "off mod BSIZE + k \<le> BSIZE" using assms B by auto
  show "chunks off r = Suc (chunks (off + k) (r - k))"
  proof (cases "k = r")
    case True
    then have "off mod BSIZE + r - 1 < BSIZE" using assms B by auto
    then show ?thesis using True assms(1) by (simp add: chunks_def)
  next
    case False
    then have k: "k = BSIZE - off mod BSIZE" "k < r" using assms by auto
    then have m: "(off + k) mod BSIZE = 0"
    proof -
      have "off + k = off div BSIZE * BSIZE + BSIZE" using k(1) B(2) div_mult_mod_eq [of off BSIZE] by linarith
      then show ?thesis by simp
    qed
    have "off mod BSIZE + r - 1 = (r - k - 1) + BSIZE" using k B by auto
    then have "(off mod BSIZE + r - 1) div BSIZE = (r - k - 1) div BSIZE + 1" using B(1) by (metis div_add_self2 less_numeral_extra(3))
    then show ?thesis using m k(2) assms(1) by (simp add: chunks_def)
  qed
qed

section \<open>Writing\<close>

text \<open>The source of a write and the destination of a read, when the copies succeed.\<close>

definition fetches :: "(u64 \<Rightarrow> u8 list \<Rightarrow> int \<times> u8 list) \<Rightarrow> (u64 \<Rightarrow> u8) \<Rightarrow> bool" where
  "fetches cin m \<longleftrightarrow> (\<forall>a old. cin a old = (0, map (\<lambda>j. m (a + of_nat j)) [0..<length old]))"

definition copies :: "(u64 \<Rightarrow> u8 list \<Rightarrow> (u64 \<Rightarrow> u8) \<Rightarrow> int \<times> (u64 \<Rightarrow> u8)) \<Rightarrow> bool" where
  "copies cout \<longleftrightarrow> (\<forall>a bs d. cout a bs d = (0, \<lambda>x. if unat (x - a) < length bs then bs ! unat (x - a) else d x))"

text \<open>One turn of the loop of \<^verbatim>\<open>writei\<close>.\<close>

lemma writei_turn:
  assumes ok: "fs_ok (K + 6) {} s" and ip: "inode_ok M s p" and fr: "2 \<le> s_free s" and ci: "fetches cin m"
    and tot: "tot < n" and mx: "unat off + (unat n - unat tot) \<le> MAXFILE * BSIZE" and k: "k = chunk_len n tot off"
  obtains t where "writei_loop (Suc fuel) cin p n tot src off s = writei_loop fuel cin p n (tot + k) (src + ucast k) (off + k) t"
    "fs_ok K {} t" "inode_ok M t p" "same_ip p s t" "s_free s \<le> s_free t + 2"
    "\<And>x. x < MAXFILE * BSIZE \<Longrightarrow> s_content t p x = (if unat off \<le> x \<and> x < unat off + unat k then m (src + of_nat (x - unat off)) else s_content s p x)"
    "\<And>i. i < MAXFILE \<Longrightarrow> s_blk s p i \<noteq> 0 \<or> i = unat off div BSIZE \<Longrightarrow> s_blk t p i \<noteq> 0"
proof -
  let ?i = "unat off div BSIZE" and ?o = "unat off mod BSIZE"
  have uk: "unat k = min (unat n - unat tot) (BSIZE - ?o)" using chunk_len_unat [OF tot] k by simp
  have r0: "0 < unat n - unat tot" using tot by (simp add: word_less_nat_alt)
  note ck = chunks_step [OF r0 uk]
  have bi: "?i < MAXFILE" using mx r0 by (simp add: file_consts)
  have ud: "off div of_nat BSIZE = of_nat ?i" by (simp add: word_arith_nat_div file_consts)
  have um: "unat (off mod of_nat BSIZE) = ?o" by (simp add: unat_mod file_consts)
  have k6: "fs_ok (Suc K + 5) {} s" using ok by (simp add: numeral_eq_Suc)
  obtain s1 where 1: "bmap p (of_nat ?i) s = Some (Inr (s_blk s1 p ?i, s1))" "fs_ok (Suc K) {} s1" "keeps M p s s1" "s_blk s1 p ?i \<noteq> 0"
    "\<And>j. j < MAXFILE \<Longrightarrow> j \<noteq> ?i \<Longrightarrow> s_blk s1 p j = s_blk s p j" "s_free s \<le> s_free s1 + 2"
    by (rule bmap_ok [OF k6 ip fr bi]) blast
  let ?b = "s_blk s1 p ?i" and ?as = "addrs s1 p"
  have ip1: "inode_ok M s1 p" "i_dev (inode_at s1 p) = fdev s1" "fmap_ok (bmap_blk s1) M ?as (fview s1)"
    using 1(3) by (auto simp: keeps_def inode_ok_def)
  obtain h s2 where 2: "\<And>F :: nat \<Rightarrow> u8 list \<Rightarrow> (fs, u32 \<times> u32) comp. bindC (f_bread (fdev s1) ?b) (\<lambda>h. bindC (f_data h) (F h)) s1 = F h (fview s1 ?b) s2"
    "fs_ok (Suc K) {?b} s2" "fholds s2 h ?b" "fview s2 = fview s1" "same_fs s1 s2"
    by (rule f_read_ok [OF 1(2), of ?b]) auto
  define bs where "bs = map (\<lambda>j. m (src + of_nat j)) [0..<unat k]"
  let ?d = "put ?o bs (fview s1 ?b)"
  have l: "length (fview s1 ?b) = BSIZE" using ip1(3) by (simp add: fmap_ok_def)
  have cin: "cin src (get ?o (unat k) (fview s1 ?b)) = (0, bs)" using ci l ck(3) by (simp add: fetches_def bs_def)
  obtain t where t: "\<And>k :: (fs, u32 \<times> u32) comp. thenC (f_set h ?d) (thenC (f_log_write h) (thenC (f_brelse h) k)) s2 = k t"
    "fs_ok K ({?b} - {?b}) t" "fview t = (fview s2)(?b := ?d)" "same_fs s2 t"
    by (rule f_finish_ok [OF 2(2,3), of ?d]) auto
  have lb: "?o + length bs \<le> BSIZE" using ck(3) by (simp add: bs_def)
  have vt: "fview t = (fview s1)(?b := put ?o bs (fview s1 ?b))" using t(3) 2(4) by simp
  note cp = content_put [OF ip1(3) bi 1(4) lb vt]
  have tb: "fs_itable t = fs_itable s1" "fs_sb t = fs_sb s1" "fdev t = fdev s1" using t(4) 2(5) by (simp_all add: same_fs_def)
  have ipt: "inode_ok M t p" using ip1(1) cp(2) by (simp add: inode_ok_def tb)
  have st: "same_ip p s t" using 1(3) same_fs_ip [OF same_fs_trans [OF 2(5) t(4)], of p] same_ip_trans by (auto simp: keeps_def)
  have nb: "?b \<noteq> bmap_blk s1" using ip1(3) blk_used [OF bi 1(4)] by (auto simp: fmap_ok_def)
  have sf: "s_free t = s_free s1" unfolding free_count_def vt tb using nb by simp
  have ct: "s_content t p x = (if unat off \<le> x \<and> x < unat off + unat k then m (src + of_nat (x - unat off)) else s_content s p x)"
    if x: "x < MAXFILE * BSIZE" for x
  proof -
    have e: "?i * BSIZE + ?o = unat off" by (rule div_mult_mod_eq)
    have lbs: "length bs = unat k" by (simp add: bs_def)
    have c1: "s_content s1 p x = s_content s p x" using 1(3) x by (simp add: keeps_def)
    have nb: "bs ! (x - unat off) = m (src + of_nat (x - unat off))" if "unat off \<le> x" "x < unat off + unat k"
      unfolding bs_def using that by (subst nth_map) auto
    show ?thesis using cp(3) [OF x] unfolding e lbs tb c1 using nb by auto
  qed
  have "writei_loop (Suc fuel) cin p n tot src off s = writei_loop fuel cin p n (tot + k) (src + ucast k) (off + k) t"
    using tot 1(1) 2(1) t(1) cin ip1(2) unfolding writei_loop.simps ud um k [symmetric] by (simp add: Let_def)
  moreover have "s_blk t p i \<noteq> 0" if "i < MAXFILE" "s_blk s p i \<noteq> 0 \<or> i = ?i" for i
    using cp(1) [of i] 1(4,5) that by (cases "i = ?i") (auto simp: tb)
  ultimately show thesis using that [of t] t(2) ipt st ct 1(6) sf by simp
qed

lemma writei_loop_ok:
  assumes "fetches cin m"
  shows "fs_ok (K + 6 * chunks (unat off) (unat n - unat tot)) {} s \<Longrightarrow> inode_ok M s p \<Longrightarrow>
     2 * chunks (unat off) (unat n - unat tot) \<le> s_free s \<Longrightarrow> tot \<le> n \<Longrightarrow> unat n - unat tot \<le> fuel \<Longrightarrow>
     unat off + (unat n - unat tot) \<le> MAXFILE * BSIZE \<Longrightarrow>
     \<exists>t. writei_loop fuel cin p n tot src off s = Some (Inr ((n, off + (n - tot)), t)) \<and> fs_ok K {} t \<and> inode_ok M t p \<and> same_ip p s t \<and>
       (\<forall>x < MAXFILE * BSIZE. s_content t p x =
          (if unat off \<le> x \<and> x < unat off + (unat n - unat tot) then m (src + of_nat (x - unat off)) else s_content s p x)) \<and>
       (\<forall>i < MAXFILE. s_blk s p i \<noteq> 0 \<or> (0 < unat n - unat tot \<and> unat off div BSIZE \<le> i \<and> i * BSIZE < unat off + (unat n - unat tot)) \<longrightarrow> s_blk t p i \<noteq> 0)"
proof (induction fuel arbitrary: tot src off s)
  case 0
  then have "unat tot = unat n" by (simp add: word_le_nat_alt)
  then have "tot = n" by (rule unsigned_word_eqI)
  then show ?case using 0 by (auto simp: chunks_def same_ip_def)
next
  case (Suc fuel)
  let ?r = "unat n - unat tot" and ?o = "unat off"
  show ?case
  proof (cases "tot = n")
    case True
    then show ?thesis using Suc.prems by (auto simp: chunks_def same_ip_def)
  next
    case False
    then have lt: "tot < n" using Suc.prems(4) by simp
    define k where "k = chunk_len n tot off"
    have uk: "unat k = min ?r (BSIZE - ?o mod BSIZE)" using chunk_len_unat [OF lt] by (simp add: k_def)
    have r0: "0 < ?r" using lt by (simp add: word_less_nat_alt)
    note ck = chunks_step [OF r0 uk]
    let ?c = "chunks (?o + unat k) (?r - unat k)"
    have ok: "fs_ok ((K + 6 * ?c) + 6) {} s" using Suc.prems(1) unfolding ck(4) by (simp add: algebra_simps)
    have fr: "2 \<le> s_free s" using Suc.prems(3) unfolding ck(4) by simp
    obtain t where t: "writei_loop (Suc fuel) cin p n tot src off s = writei_loop fuel cin p n (tot + k) (src + ucast k) (off + k) t"
      "fs_ok (K + 6 * ?c) {} t" "inode_ok M t p" "same_ip p s t" "s_free s \<le> s_free t + 2"
      "\<And>x. x < MAXFILE * BSIZE \<Longrightarrow> s_content t p x = (if ?o \<le> x \<and> x < ?o + unat k then m (src + of_nat (x - ?o)) else s_content s p x)"
      "\<And>i. i < MAXFILE \<Longrightarrow> s_blk s p i \<noteq> 0 \<or> i = ?o div BSIZE \<Longrightarrow> s_blk t p i \<noteq> 0"
      by (rule writei_turn [OF ok Suc.prems(2) fr assms lt Suc.prems(6) k_def]) blast
    have nl: "unat n < 2 ^ LENGTH(32)" by (rule unsigned_less)
    have ut: "unat (tot + k) = unat tot + unat k"
      using ck(2) nl r0 by (intro unat_add_lem [THEN iffD1]) linarith
    have "?o + unat k < 2 ^ 32" using Suc.prems(6) ck(2) by (simp add: file_consts)
    then have uo: "unat (off + k) = ?o + unat k" by (intro unat_add_lem [THEN iffD1]) simp
    have r': "unat n - unat (tot + k) = ?r - unat k" using ut by simp
    have le: "tot + k \<le> n" using ut ck(2) r0 by (simp add: word_le_nat_alt)
    have f2: "2 * ?c \<le> s_free t" using Suc.prems(3) t(5) unfolding ck(4) by simp
    have pf: "?r - unat k \<le> fuel" "?o + unat k + (?r - unat k) \<le> MAXFILE * BSIZE" using Suc.prems(5,6) ck(1,2) by linarith+
    note IH = Suc.IH [of "off + k" "tot + k" t "src + ucast k", unfolded r' uo, OF t(2,3) f2 le pf]
    obtain u where u: "writei_loop fuel cin p n (tot + k) (src + ucast k) (off + k) t = Some (Inr ((n, off + k + (n - (tot + k))), u))"
      "fs_ok K {} u" "inode_ok M u p" "same_ip p t u"
      "\<And>x. x < MAXFILE * BSIZE \<Longrightarrow> s_content u p x = (if ?o + unat k \<le> x \<and> x < ?o + unat k + (?r - unat k) then m (src + ucast k + of_nat (x - (?o + unat k))) else s_content t p x)"
      "\<And>i. i < MAXFILE \<Longrightarrow> s_blk t p i \<noteq> 0 \<or> (0 < ?r - unat k \<and> (?o + unat k) div BSIZE \<le> i \<and> i * BSIZE < ?o + unat k + (?r - unat k)) \<Longrightarrow> s_blk u p i \<noteq> 0"
      using IH by blast
    have m1: "m (src + ucast k + of_nat (x - (?o + unat k))) = m (src + of_nat (x - ?o))" if "?o + unat k \<le> x" for x
    proof -
      have "(ucast k :: u64) = of_nat (unat k)" by (simp add: unsigned_of_nat [symmetric]) 
      then have "ucast k + of_nat (x - (?o + unat k)) = (of_nat (unat k + (x - (?o + unat k))) :: u64)" by (simp only: of_nat_add)
      also have "unat k + (x - (?o + unat k)) = x - ?o" using that by simp
      finally have "ucast k + of_nat (x - (?o + unat k)) = (of_nat (x - ?o) :: u64)" .
      then show ?thesis by (simp add: add.assoc)
    qed
    have ct: "s_content u p x = (if ?o \<le> x \<and> x < ?o + ?r then m (src + of_nat (x - ?o)) else s_content s p x)" if "x < MAXFILE * BSIZE" for x
      using u(5) [OF that] t(6) [OF that] m1 [of x] ck(2) by auto
    have bk: "s_blk u p i \<noteq> 0" if "i < MAXFILE" "s_blk s p i \<noteq> 0 \<or> (0 < ?r \<and> ?o div BSIZE \<le> i \<and> i * BSIZE < ?o + ?r)" for i
    proof (cases "s_blk s p i \<noteq> 0 \<or> i = ?o div BSIZE")
      case True
      then show ?thesis using t(7) u(6) that(1) by blast
    next
      case False
      then have i: "?o div BSIZE < i" "i * BSIZE < ?o + ?r" using that(2) by auto
      have ge: "?o + unat k \<le> ?o div BSIZE * BSIZE + BSIZE" using ck(3) div_mult_mod_eq [of ?o BSIZE] by linarith
      have "(?o div BSIZE + 1) * BSIZE \<le> i * BSIZE" using i(1) by (intro mult_le_mono1) simp
      then have le: "?o + unat k \<le> i * BSIZE" using ge by (simp add: algebra_simps)
      then have "(?o + unat k) div BSIZE \<le> i * BSIZE div BSIZE" by (rule div_le_mono)
      then have "(?o + unat k) div BSIZE \<le> i" by (simp add: file_consts)
      moreover have "0 < ?r - unat k" using le i(2) by linarith
      ultimately show ?thesis using i ck(2) u(6) [OF that(1)] by auto
    qed
    have "off + k + (n - (tot + k)) = off + (n - tot)" by simp
    then show ?thesis using t(1) u(1-3) same_ip_trans [OF t(4) u(4)] ct bk by auto
  qed
qed

lemma length_put_addrs: "off + 4 * length as \<le> length d \<Longrightarrow> length (put_addrs off as d) = length d"
  by (induction as arbitrary: off d) auto

lemma length_store_dinode: "length d = BSIZE \<Longrightarrow> length (i_addrs ip) = NDIRECT + 1 \<Longrightarrow> length (store_dinode (dinode_off inum) ip d) = BSIZE"
proof -
  assume d: "length d = BSIZE" "length (i_addrs ip) = NDIRECT + 1"
  have "unat inum mod IPB < IPB" by (simp add: IPB_def BSIZE_def)
  then have "dinode_off inum + 64 \<le> BSIZE" by (simp add: dinode_off_def IPB_def BSIZE_def)
  then show ?thesis using d by (simp add: store_dinode_def length_put_addrs file_consts)
qed

lemma fmap_frame:
  assumes ok: "fmap_ok bm M as v" and v': "\<And>c. c \<in> used as v \<Longrightarrow> v' c = v c" "v' bm = v bm" "\<And>c. length (v' c) = BSIZE"
  shows "fmap_ok bm M as v'" "blk as v' i = blk as v i"
proof -
  show bl: "blk as v' i = blk as v i" for i by (rule blk_cong) (use v'(1) in \<open>auto simp: used_def\<close>)
  have us: "used as v' = used as v" by (simp add: used_def bl)
  have "marked bm v' c = marked bm v c" for c by (simp add: marked_def v'(2))
  then show "fmap_ok bm M as v'" using ok v'(3) unfolding fmap_ok_def bl us by blast
qed

lemma iupdate_ok:
  assumes ok: "fs_ok (Suc K) {} s" and ip: "inode_ok M s p" and ib: "IBLOCK (i_inum (inode_at s p)) (fs_sb s) \<in> M - {bmap_blk s}"
  obtains t where "iupdate p s = Some (Inr ((), t))" "fs_ok K {} t" "same_fs s t" "inode_ok M t p"
    "\<And>x. x < MAXFILE * BSIZE \<Longrightarrow> s_content t p x = s_content s p x" "\<And>i. s_blk t p i = s_blk s p i"
    "fview t (IBLOCK (i_inum (inode_at s p)) (fs_sb s)) =
       store_dinode (dinode_off (i_inum (inode_at s p))) (inode_at s p) (fview s (IBLOCK (i_inum (inode_at s p)) (fs_sb s)))"
proof -
  let ?ip = "inode_at s p" and ?b = "IBLOCK (i_inum (inode_at s p)) (fs_sb s)"
  let ?d = "store_dinode (dinode_off (i_inum ?ip)) ?ip (fview s ?b)"
  have fo: "fmap_ok (bmap_blk s) M (addrs s p) (fview s)" and dv: "i_dev ?ip = fdev s" using ip by (auto simp: inode_ok_def)
  obtain h s1 where 1: "\<And>F :: nat \<Rightarrow> u8 list \<Rightarrow> (fs, unit) comp. bindC (f_bread (fdev s) ?b) (\<lambda>h. bindC (f_data h) (F h)) s = F h (fview s ?b) s1"
    "fs_ok (Suc K) {?b} s1" "fholds s1 h ?b" "fview s1 = fview s" "same_fs s s1"
    by (rule f_read_ok [OF ok, of ?b]) auto
  obtain t where t: "thenC (f_set h ?d) (thenC (f_log_write h) (f_brelse h)) s1 = Some (Inr ((), t))"
    "fs_ok K ({?b} - {?b}) t" "fview t = (fview s1)(?b := ?d)" "same_fs s1 t"
    by (rule f_finish_ok [OF 1(2,3), of ?d]) auto
  have st: "same_fs s t" by (rule same_fs_trans [OF 1(5) t(4)])
  have tb: "fs_itable t = fs_itable s" "fs_sb t = fs_sb s" "fdev t = fdev s" using st by (simp_all add: same_fs_def)
  have nu: "?b \<notin> used (addrs s p) (fview s)" using fo ib by (auto simp: fmap_ok_def)
  have vu: "fview t c = fview s c" if "c \<noteq> ?b" for c using that t(3) 1(4) by simp
  have vb: "fview t ?b = ?d" using t(3) by simp
  have ct: "s_content t p x = s_content s p x" if "x < MAXFILE * BSIZE" for x
    unfolding tb by (rule content_cong [OF _ that]) (use vu nu in metis)
  have lv: "length (fview t c) = BSIZE" for c
    using vu [of c] vb length_store_dinode fo by (cases "c = ?b") (auto simp: fmap_ok_def)
  have vm: "fview t (bmap_blk s) = fview s (bmap_blk s)" using ib vu by auto
  have nuc: "fview t c = fview s c" if "c \<in> used (addrs s p) (fview s)" for c using that vu nu by metis
  note ff = fmap_frame [OF fo nuc vm lv]
  have bl: "s_blk t p i = s_blk s p i" for i unfolding tb by (rule ff(2))
  have "fmap_ok (bmap_blk t) M (addrs t p) (fview t)" unfolding tb by (rule ff(1))
  then have "inode_ok M t p" using ip by (simp add: inode_ok_def tb)
  moreover have "iupdate p s = Some (Inr ((), t))" using 1(1) t(1) dv by (simp add: iupdate_def Let_def)
  ultimately show thesis using that [of t] t(2) st ct bl vb by simp
qed

definition max_bytes :: nat where "max_bytes = MAXFILE * BSIZE"

text \<open>Blocks below the size are allocated.\<close>

definition filled :: "fs \<Rightarrow> nat \<Rightarrow> bool" where
  "filled s p \<longleftrightarrow> (\<forall>i < MAXFILE. i * BSIZE < unat (i_size (inode_at s p)) \<longrightarrow> s_blk s p i \<noteq> 0)"

lemma inode_ok_upd_size:
  assumes "inode_ok M s p"
  shows "inode_ok M (upd_inode p (\<lambda>ip. ip\<lparr>i_size := z\<rparr>) s) p" "addrs (upd_inode p (\<lambda>ip. ip\<lparr>i_size := z\<rparr>) s) p = addrs s p"
    "i_size (inode_at (upd_inode p (\<lambda>ip. ip\<lparr>i_size := z\<rparr>) s) p) = z" "i_inum (inode_at (upd_inode p (\<lambda>ip. ip\<lparr>i_size := z\<rparr>) s) p) = i_inum (inode_at s p)"
proof -
  have p: "0 < p" "p \<le> length (fs_itable s)" using assms by (auto simp: inode_ok_def)
  note at = upd_inode_at [OF p, of "\<lambda>ip. ip\<lparr>i_size := z\<rparr>"]
  show "addrs (upd_inode p (\<lambda>ip. ip\<lparr>i_size := z\<rparr>) s) p = addrs s p" "i_size (inode_at (upd_inode p (\<lambda>ip. ip\<lparr>i_size := z\<rparr>) s) p) = z"
    "i_inum (inode_at (upd_inode p (\<lambda>ip. ip\<lparr>i_size := z\<rparr>) s) p) = i_inum (inode_at s p)" unfolding at by simp_all
  show "inode_ok M (upd_inode p (\<lambda>ip. ip\<lparr>i_size := z\<rparr>) s) p" using assms unfolding inode_ok_def at by simp
qed

lemma writei_ok:
  assumes ok: "fs_ok (K + 6 * chunks (unat off) (unat n) + 1) {} s" and ip: "inode_ok M s p" and fr: "2 * chunks (unat off) (unat n) \<le> s_free s"
    and ci: "fetches cin m" and off: "off \<le> i_size (inode_at s p)" "unat off + unat n \<le> max_bytes" and fl: "filled s p"
    and ib: "IBLOCK (i_inum (inode_at s p)) (fs_sb s) \<in> M - {bmap_blk s}"
  obtains t where "writei cin p src off n s = Some (Inr (n, t))" "fs_ok K {} t" "inode_ok M t p" "filled t p"
    "unat (i_size (inode_at t p)) = max (unat (i_size (inode_at s p))) (unat off + unat n)"
    "\<And>x. x < max_bytes \<Longrightarrow> s_content t p x = (if unat off \<le> x \<and> x < unat off + unat n then m (src + of_nat (x - unat off)) else s_content s p x)"
    "fs_sb t = fs_sb s" "fdev t = fdev s" "i_inum (inode_at t p) = i_inum (inode_at s p)"
proof -
  let ?z = "i_size (inode_at s p)"
  have k: "fs_ok (K + 1 + 6 * chunks (unat off) (unat n - unat (0 :: u32))) {} s" using ok by (simp add: algebra_simps)
  obtain s1 where 1: "writei_loop (unat n) cin p n 0 src off s = Some (Inr ((n, off + n), s1))" "fs_ok (K + 1) {} s1" "inode_ok M s1 p" "same_ip p s s1"
    "\<And>x. x < MAXFILE * BSIZE \<Longrightarrow> s_content s1 p x = (if unat off \<le> x \<and> x < unat off + unat n then m (src + of_nat (x - unat off)) else s_content s p x)"
    "\<And>i. i < MAXFILE \<Longrightarrow> s_blk s p i \<noteq> 0 \<or> (0 < unat n \<and> unat off div BSIZE \<le> i \<and> i * BSIZE < unat off + unat n) \<Longrightarrow> s_blk s1 p i \<noteq> 0"
    using writei_loop_ok [OF ci k ip, where fuel = "unat n" and src = src] fr off(2) by (auto simp: max_bytes_def)
  have z1: "i_size (inode_at s1 p) = ?z" "fs_sb s1 = fs_sb s" "fdev s1 = fdev s" "i_inum (inode_at s1 p) = i_inum (inode_at s p)"
    using same_ip_fields [OF 1(4)] by simp_all
  have uo: "unat (off + n) = unat off + unat n" using off(2) by (intro unat_add_lem [THEN iffD1]) (simp add: max_bytes_def file_consts)
  define s2 where "s2 = (if off + n > ?z then upd_inode p (\<lambda>ip. ip\<lparr>i_size := off + n\<rparr>) s1 else s1)"
  note us = inode_ok_upd_size [OF 1(3), of "off + n"]
  have s2: "fs_ok (Suc K) {} s2" "inode_ok M s2 p" "addrs s2 p = addrs s1 p" "fview s2 = fview s1" "fs_sb s2 = fs_sb s" "fdev s2 = fdev s"
    "i_inum (inode_at s2 p) = i_inum (inode_at s p)" "i_size (inode_at s2 p) = (if off + n > ?z then off + n else ?z)"
    using 1(2,3) us z1 by (simp_all add: s2_def)
  obtain t where t: "iupdate p s2 = Some (Inr ((), t))" "fs_ok K {} t" "same_fs s2 t" "inode_ok M t p"
    "\<And>x. x < MAXFILE * BSIZE \<Longrightarrow> s_content t p x = s_content s2 p x" "\<And>i. s_blk t p i = s_blk s2 p i"
    by (rule iupdate_ok [OF s2(1,2)]) (use ib s2(5,7) in auto)
  have tb: "fs_itable t = fs_itable s2" "fs_sb t = fs_sb s2" "fdev t = fdev s2" using t(3) by (simp_all add: same_fs_def)
  have sz: "unat (i_size (inode_at t p)) = max (unat ?z) (unat off + unat n)"
    unfolding tb s2(8) using uo by (simp add: max_def word_less_nat_alt)
  have w: "writei cin p src off n s = Some (Inr (n, t))"
  proof -
    have "\<not> off + n < off" using uo by (simp add: word_less_nat_alt)
    moreover have "\<not> off + n > of_nat (MAXFILE * BSIZE)" using uo off(2) by (simp add: word_less_nat_alt max_bytes_def file_consts)
    ultimately show ?thesis using off(1) 1(1) t(1) z1(1) unfolding s2_def by (auto simp: writei_def retC_def not_less split: if_splits)
  qed
  have fl': "filled t p"
    unfolding filled_def
  proof (intro allI impI)
    fix i assume i: "i < MAXFILE" "i * BSIZE < unat (i_size (inode_at t p))"
    have "s_blk s p i \<noteq> 0 \<or> (0 < unat n \<and> unat off div BSIZE \<le> i \<and> i * BSIZE < unat off + unat n)"
    proof (cases "i * BSIZE < unat ?z")
      case True
      then show ?thesis using fl i(1) by (simp add: filled_def)
    next
      case False
      then have "unat off \<le> i * BSIZE" using off(1) by (simp add: word_le_nat_alt)
      then have "unat off div BSIZE \<le> i * BSIZE div BSIZE" by (rule div_le_mono)
      then have "unat off div BSIZE \<le> i" by (simp add: file_consts)
      moreover have "i * BSIZE < unat off + unat n" using i(2) False sz by (simp add: max_def split: if_splits)
      ultimately show ?thesis using \<open>unat off \<le> i * BSIZE\<close> by linarith
    qed
    then have "s_blk s1 p i \<noteq> 0" by (rule 1(6) [OF i(1)])
    then show "s_blk t p i \<noteq> 0" unfolding t(6) s2(3,4) .
  qed
  have ct: "s_content t p x = (if unat off \<le> x \<and> x < unat off + unat n then m (src + of_nat (x - unat off)) else s_content s p x)" if "x < max_bytes" for x
    using t(5) [of x] 1(5) [of x] that unfolding s2(3,4) max_bytes_def by simp
  have "i_inum (inode_at t p) = i_inum (inode_at s p)" unfolding tb by (rule s2(7))
  then show thesis using that [OF w t(2,4) fl' sz ct] tb s2(5,6) by simp
qed

section \<open>Reading\<close>

lemma bmap_present:
  assumes ok: "fs_ok K {} s" and ip: "inode_ok M s p" and bn: "bn < MAXFILE" "s_blk s p bn \<noteq> 0"
  obtains t where "bmap p (of_nat bn) s = Some (Inr (s_blk s p bn, t))" "fs_ok K {} t" "fview t = fview s" "same_fs s t"
proof -
  have u: "unat (of_nat bn :: u32) = bn" using bn by (simp add: unat_of_nat file_consts)
  have dv: "i_dev (inode_at s p) = fdev s" using ip by (simp add: inode_ok_def)
  show thesis
  proof (cases "bn < NDIRECT")
    case True
    then have "addrs s p ! bn \<noteq> 0" "s_blk s p bn = addrs s p ! bn" using bn(2) by (simp_all add: blk_def)
    then have "bmap p (of_nat bn) s = Some (Inr (s_blk s p bn, s))" using True u by (simp add: bmap_def retC_def)
    then show thesis using that ok by simp
  next
    case False
    let ?a = "addrs s p ! NDIRECT"
    have a: "?a \<noteq> 0" "s_blk s p bn = get32 (4 * (bn - NDIRECT)) (fview s ?a)" using bn(2) False by (auto simp: blk_def split: if_splits)
    have lt: "bn - NDIRECT < NINDIRECT" using bn(1) False by (simp add: MAXFILE_def)
    have "(of_nat bn - of_nat NDIRECT :: u32) = of_nat (bn - NDIRECT)" using False by simp
    then have u2: "unat (of_nat bn - of_nat NDIRECT :: u32) = bn - NDIRECT" using bn by (simp add: unat_of_nat file_consts del: of_nat_diff)
    obtain h s1 where 1: "\<And>F :: nat \<Rightarrow> u8 list \<Rightarrow> (fs, u32) comp. bindC (f_bread (fdev s) ?a) (\<lambda>h. bindC (f_data h) (F h)) s = F h (fview s ?a) s1"
      "fs_ok K {?a} s1" "fholds s1 h ?a" "fview s1 = fview s" "same_fs s s1"
      by (rule f_read_ok [OF ok, of ?a]) auto
    obtain t where t: "f_brelse h s1 = Some (Inr ((), t))" "fs_ok K ({?a} - {?a}) t" "fview t = fview s1" "same_fs s1 t"
      by (rule f_brelse_ok [OF 1(2,3)]) auto
    have "bmap p (of_nat bn) s = Some (Inr (s_blk s p bn, t))"
      using False lt u u2 a 1(1) t(1) dv bn(2) by (simp add: bmap_def Let_def retC_def)
    then show thesis using that t(2-4) 1(4,5) same_fs_trans by simp
  qed
qed

lemma readi_turn:
  assumes ok: "fs_ok K {} s" and ip: "inode_ok M s p" and co: "copies cout" and tot: "tot < n"
    and mx: "unat off + (unat n - unat tot) \<le> MAXFILE * BSIZE" and k: "k = chunk_len n tot off" and al: "s_blk s p (unat off div BSIZE) \<noteq> 0"
    and d': "d' = (\<lambda>x. if unat (x - dst) < unat k then s_content s p (unat off + unat (x - dst)) else d x)"
  obtains t where "readi_loop (Suc fuel) cout p n tot dst off d s = readi_loop fuel cout p n (tot + k) (dst + ucast k) (off + k) d' t"
    "fs_ok K {} t" "fview t = fview s" "same_fs s t"
proof -
  let ?i = "unat off div BSIZE" and ?o = "unat off mod BSIZE"
  have uk: "unat k = min (unat n - unat tot) (BSIZE - ?o)" using chunk_len_unat [OF tot] k by simp
  have r0: "0 < unat n - unat tot" using tot by (simp add: word_less_nat_alt)
  note ck = chunks_step [OF r0 uk]
  have bi: "?i < MAXFILE" using mx r0 by (simp add: file_consts)
  have ud: "off div of_nat BSIZE = of_nat ?i" by (simp add: word_arith_nat_div file_consts)
  have um: "unat (off mod of_nat BSIZE) = ?o" by (simp add: unat_mod file_consts)
  let ?b = "s_blk s p ?i"
  obtain s1 where 1: "bmap p (of_nat ?i) s = Some (Inr (?b, s1))" "fs_ok K {} s1" "fview s1 = fview s" "same_fs s s1"
    by (rule bmap_present [OF ok ip bi al])
  have dv: "i_dev (inode_at s1 p) = fdev s1" using ip 1(4) by (simp add: inode_ok_def same_fs_def)
  obtain h s2 where 2: "\<And>F :: nat \<Rightarrow> u8 list \<Rightarrow> (fs, u32 \<times> (u64 \<Rightarrow> u8)) comp. bindC (f_bread (fdev s1) ?b) (\<lambda>h. bindC (f_data h) (F h)) s1 = F h (fview s1 ?b) s2"
    "fs_ok K {?b} s2" "fholds s2 h ?b" "fview s2 = fview s1" "same_fs s1 s2"
    by (rule f_read_ok [OF 1(2), of ?b]) auto
  obtain t where t: "f_brelse h s2 = Some (Inr ((), t))" "fs_ok K ({?b} - {?b}) t" "fview t = fview s2" "same_fs s2 t"
    by (rule f_brelse_ok [OF 2(2,3)]) auto
  have l: "length (fview s ?b) = BSIZE" using ip by (simp add: inode_ok_def fmap_ok_def)
  let ?bs = "get ?o (unat k) (fview s ?b)"
  have lb: "length ?bs = unat k" using l ck(3) by simp
  have ct: "?bs ! j = s_content s p (unat off + j)" if j: "j < unat k" for j
  proof -
    have "?o + j < BSIZE" using j ck(3) by simp
    moreover have "unat off + j = ?i * BSIZE + (?o + j)" using div_mult_mod_eq [of "unat off" BSIZE] by linarith
    ultimately have "(unat off + j) div BSIZE = ?i" "(unat off + j) mod BSIZE = ?o + j"
      by (metis div_mult_self3 div_less add.right_neutral file_consts(4) zero_neq_numeral, metis mod_mult_self3 mod_less)
    then show ?thesis using al j l ck(3) by (simp add: content_def get_def)
  qed
  have "cout dst ?bs d = (0, d')"
    using co lb ct unfolding copies_def d' by (auto simp: fun_eq_iff)
  then have "readi_loop (Suc fuel) cout p n tot dst off d s = readi_loop fuel cout p n (tot + k) (dst + ucast k) (off + k) d' t"
    using tot 1(1,3) 2(1) t(1) dv unfolding readi_loop.simps ud um k [symmetric] by (simp add: Let_def)
  then show thesis using that [of t] t 2(4,5) 1(3,4) same_fs_trans by auto
qed

lemma readi_loop_ok:
  assumes co: "copies cout"
  shows "fs_ok K {} s \<Longrightarrow> inode_ok M s p \<Longrightarrow> tot \<le> n \<Longrightarrow> unat n - unat tot \<le> fuel \<Longrightarrow>
     unat off + (unat n - unat tot) \<le> MAXFILE * BSIZE \<Longrightarrow>
     (\<forall>i < MAXFILE. i * BSIZE < unat off + (unat n - unat tot) \<longrightarrow> s_blk s p i \<noteq> 0) \<Longrightarrow>
     \<exists>d' t. readi_loop fuel cout p n tot dst off d s = Some (Inr ((n, d'), t)) \<and> fs_ok K {} t \<and> fview t = fview s \<and> same_fs s t \<and>
       (\<forall>x. d' x = (if unat (x - dst) < unat n - unat tot then s_content s p (unat off + unat (x - dst)) else d x))"
proof (induction fuel arbitrary: tot dst off d s)
  case 0
  then have "unat tot = unat n" by (simp add: word_le_nat_alt)
  then have "tot = n" by (rule unsigned_word_eqI)
  then show ?case using 0 by auto
next
  case (Suc fuel)
  let ?r = "unat n - unat tot" and ?o = "unat off"
  show ?case
  proof (cases "tot = n")
    case True
    then show ?thesis using Suc.prems by auto
  next
    case False
    then have lt: "tot < n" using Suc.prems(3) by simp
    define k where "k = chunk_len n tot off"
    have uk: "unat k = min ?r (BSIZE - ?o mod BSIZE)" using chunk_len_unat [OF lt] by (simp add: k_def)
    have r0: "0 < ?r" using lt by (simp add: word_less_nat_alt)
    note ck = chunks_step [OF r0 uk]
    have bi: "?o div BSIZE < MAXFILE" "?o div BSIZE * BSIZE < ?o + ?r" using Suc.prems(5) r0 by (auto simp: file_consts)
    then have al: "s_blk s p (?o div BSIZE) \<noteq> 0" using Suc.prems(6) by blast
    define d1 where "d1 = (\<lambda>x. if unat (x - dst) < unat k then s_content s p (?o + unat (x - dst)) else d x)"
    obtain t where t: "readi_loop (Suc fuel) cout p n tot dst off d s = readi_loop fuel cout p n (tot + k) (dst + ucast k) (off + k) d1 t"
      "fs_ok K {} t" "fview t = fview s" "same_fs s t"
      by (rule readi_turn [OF Suc.prems(1,2) co lt Suc.prems(5) k_def al d1_def])
    have tb: "fs_itable t = fs_itable s" "fs_sb t = fs_sb s" "fdev t = fdev s" using t(4) by (simp_all add: same_fs_def)
    have ipt: "inode_ok M t p" using keeps_view [OF Suc.prems(2) t(4,3)] by (simp add: keeps_def)
    have nl: "unat n < 2 ^ LENGTH(32)" by (rule unsigned_less)
    have ut: "unat (tot + k) = unat tot + unat k" using ck(2) nl r0 by (intro unat_add_lem [THEN iffD1]) linarith
    have "?o + unat k < 2 ^ 32" using Suc.prems(5) ck(2) by (simp add: file_consts)
    then have uo: "unat (off + k) = ?o + unat k" by (intro unat_add_lem [THEN iffD1]) simp
    have r': "unat n - unat (tot + k) = ?r - unat k" using ut by simp
    have le: "tot + k \<le> n" using ut ck(2) r0 by (simp add: word_le_nat_alt)
    have pf: "?r - unat k \<le> fuel" "?o + unat k + (?r - unat k) \<le> MAXFILE * BSIZE" "?o + unat k + (?r - unat k) = ?o + ?r"
      using Suc.prems(4,5) ck(1,2) by linarith+
    have al': "\<forall>i < MAXFILE. i * BSIZE < ?o + unat k + (?r - unat k) \<longrightarrow> s_blk t p i \<noteq> 0" using Suc.prems(6) unfolding pf(3) tb t(3) .
    obtain d' u where u: "readi_loop fuel cout p n (tot + k) (dst + ucast k) (off + k) d1 t = Some (Inr ((n, d'), u))" "fs_ok K {} u"
      "fview u = fview t" "same_fs t u"
      "\<And>x. d' x = (if unat (x - (dst + ucast k)) < ?r - unat k then s_content t p (?o + unat k + unat (x - (dst + ucast k))) else d1 x)"
      using Suc.IH [of t "tot + k" "off + k" "dst + ucast k" d1, unfolded r' uo, OF t(2) ipt le pf(1,2) al'] by blast
    have "d' x = (if unat (x - dst) < ?r then s_content s p (?o + unat (x - dst)) else d x)" for x
    proof -
      define y where "y = x - dst"
      have rl: "?r < 2 ^ 32" using nl by simp
      then have "unat k < 2 ^ 64" using ck(2) by simp
      then have k64: "unat (ucast k :: u64) = unat k" by (simp add: unsigned_ucast_eq take_bit_nat_eq_self)
      have e: "x - (dst + ucast k) = y - ucast k" by (simp add: y_def algebra_simps)
      show ?thesis
      proof (cases "unat y < unat k")
        case True
        have "unat (y - ucast k) = unat y + 2 ^ 64 - unat k" using True k64 by (simp add: unat_sub_if_size word_size word_le_nat_alt)
        moreover have "?r + unat k < 2 ^ 64" using rl ck(2) by simp
        ultimately have "\<not> unat (y - ucast k) < ?r - unat k" by linarith
        then show ?thesis using u(5) [of x] True ck(2) by (simp add: e d1_def y_def [symmetric])
      next
        case False
        then have "unat (y - ucast k) = unat y - unat k" using k64 by (simp add: unat_sub word_le_nat_alt)
        then show ?thesis using u(5) [of x] False ck(2) by (auto simp: e d1_def y_def [symmetric] tb t(3))
      qed
    qed
    then show ?thesis using t(1) u(1-4) t(3,4) same_fs_trans by auto
  qed
qed

section \<open>Properties\<close>

text \<open>
  C23: writing a file and reading it back. Inside a file operation with enough log and disk space,
  \<^verbatim>\<open>writei\<close> of \<open>n\<close> bytes at an offset within the file writes all of them, allocating direct and
  indirect blocks as needed; the rest of the contents is unchanged, the size grows to the end of the
  write, and the block map stays well-formed with no hole below the size. \<^verbatim>\<open>readi\<close> of the same range
  then returns all \<open>n\<close> bytes as they were written.
\<close>

theorem writei_readi_roundtrip:
  assumes "fs_ok (6 * chunks (unat off) (unat n) + 1) {} s" "inode_ok M s p" "2 * chunks (unat off) (unat n) \<le> s_free s" "filled s p"
    "IBLOCK (i_inum (inode_at s p)) (fs_sb s) \<in> M - {bmap_blk s}" "off \<le> i_size (inode_at s p)" "unat off + unat n \<le> max_bytes"
    "fetches cin m" "copies cout"
  shows "\<exists>s1 s2 d'. writei cin p src off n s = Some (Inr (n, s1)) \<and> readi cout p dst off n d s1 = Some (Inr ((n, d'), s2)) \<and>
    (\<forall>j < unat n. d' (dst + of_nat j) = m (src + of_nat j)) \<and>
    (\<forall>x < max_bytes. x < unat off \<or> unat off + unat n \<le> x \<longrightarrow> s_content s1 p x = s_content s p x) \<and>
    unat (i_size (inode_at s1 p)) = max (unat (i_size (inode_at s p))) (unat off + unat n) \<and> inode_ok M s1 p \<and> filled s1 p"
proof -
  have k: "fs_ok (0 + 6 * chunks (unat off) (unat n) + 1) {} s" using assms(1) by simp
  obtain t where t: "writei cin p src off n s = Some (Inr (n, t))" "fs_ok 0 {} t" "inode_ok M t p" "filled t p"
    "unat (i_size (inode_at t p)) = max (unat (i_size (inode_at s p))) (unat off + unat n)"
    "\<And>x. x < max_bytes \<Longrightarrow> s_content t p x = (if unat off \<le> x \<and> x < unat off + unat n then m (src + of_nat (x - unat off)) else s_content s p x)"
    by (rule writei_ok [OF k assms(2,3,8,6,7,4,5), of src]) blast
  have uo: "unat (off + n) = unat off + unat n" using assms(7) by (intro unat_add_lem [THEN iffD1]) (simp add: max_bytes_def file_consts)
  let ?z = "i_size (inode_at t p)"
  have g: "\<not> off > ?z" "\<not> off + n < off" "\<not> off + n > ?z" using t(5) uo by (simp_all add: word_less_nat_alt)
  have "\<forall>i < MAXFILE. i * BSIZE < unat off + (unat n - unat (0 :: u32)) \<longrightarrow> s_blk t p i \<noteq> 0"
    using t(4,5) unfolding filled_def by (simp add: max_def)
  then obtain d' u where u: "readi_loop (unat n) cout p n 0 dst off d t = Some (Inr ((n, d'), u))"
    "\<And>x. d' x = (if unat (x - dst) < unat n then s_content t p (unat off + unat (x - dst)) else d x)"
    using readi_loop_ok [OF assms(9) t(2,3), of 0 n "unat n" off dst d] assms(7) by (auto simp: max_bytes_def)
  have "readi cout p dst off n d t = Some (Inr ((n, d'), u))" using u(1) g by (simp add: readi_def Let_def)
  moreover have "d' (dst + of_nat j) = m (src + of_nat j)" if j: "j < unat n" for j
  proof -
    have "unat n < 2 ^ LENGTH(32)" by (rule unsigned_less)
    then have "unat (of_nat j :: u64) = j" using j by (simp add: unat_of_nat)
    then show ?thesis using u(2) [of "dst + of_nat j"] t(6) [of "unat off + j"] j assms(7) by simp
  qed
  ultimately show ?thesis using t by (intro exI [of _ t] exI [of _ u] exI [of _ d']) auto
qed

text \<open>Kernel memory as source and destination: the copies are plain \<^verbatim>\<open>memmove\<close>.\<close>

definition kernel_in :: "(u64 \<Rightarrow> u8) \<Rightarrow> u64 \<Rightarrow> u8 list \<Rightarrow> int \<times> u8 list" where
  "kernel_in m a old = (0, map (\<lambda>j. m (a + of_nat j)) [0..<length old])"

definition kernel_out :: "u64 \<Rightarrow> u8 list \<Rightarrow> (u64 \<Rightarrow> u8) \<Rightarrow> int \<times> (u64 \<Rightarrow> u8)" where
  "kernel_out a bs d = (0, \<lambda>x. if unat (x - a) < length bs then bs ! unat (x - a) else d x)"

lemma sample_file:
  "inode_ok {0, 33, 46} sample_fs 1" "filled sample_fs 1" "2 \<le> s_free sample_fs" "IBLOCK (i_inum (inode_at sample_fs 1)) (fs_sb sample_fs) = 33"
proof -
  have ip: "fdev sample_fs = 1" "i_dev (inode_at sample_fs 1) = 1" "addrs sample_fs 1 = replicate 13 0" "i_size (inode_at sample_fs 1) = 0"
    by (simp_all add: sample_fs_def)
  have bl: "blk (replicate 13 0) v i = 0" for v i by (auto simp: blk_def file_consts simp del: replicate_Suc)
  have us: "used (replicate 13 0) v = {}" for v by (auto simp: used_def bl file_consts simp del: replicate_Suc)
  have mk: "marked 46 (fview sample_fs) b" if "b = 0 \<or> b = 33 \<or> b = 46" for b
    using that sample_bits(1) by (auto simp: marked_def sample_fs_ok(2) file_consts)
  show "inode_ok {0, 33, 46} sample_fs 1"
    unfolding inode_ok_def ip fmap_ok_def us bl using sample_fs_free(2,3) mk sample_bits(2)
    by (simp add: sample_fs_ok(2) file_consts) (simp add: sample_fs_def)
  show "filled sample_fs 1" by (simp add: filled_def sample_fs_def)
  have "card {64, 65 :: nat} \<le> s_free sample_fs"
    unfolding free_count_def sample_fs_free(2,3) sample_fs_ok(2) by (rule card_mono) (auto simp: sample_bits file_consts)
  then show "2 \<le> s_free sample_fs" by simp
  show "IBLOCK (i_inum (inode_at sample_fs 1)) (fs_sb sample_fs) = 33" by (simp add: sample_fs_def IBLOCK_def IPB_def BSIZE_def)
qed

theorem writei_readi_roundtrip_witness:
  "\<exists>s1 s2 d'. writei (kernel_in (\<lambda>a. ucast a)) 1 200 0 3 sample_fs = Some (Inr (3, s1)) \<and>
     readi kernel_out 1 500 0 3 (\<lambda>_. 0) s1 = Some (Inr ((3, d'), s2)) \<and> d' 501 = 201"
proof -
  have n: "unat (0 :: u32) = 0" "unat (3 :: u32) = 3" by simp_all
  have c: "chunks 0 3 = 1" by (simp add: chunks_def file_consts)
  have k: "fetches (kernel_in (\<lambda>a. ucast a)) (\<lambda>a. ucast a)" "copies kernel_out" by (simp_all add: fetches_def copies_def kernel_in_def kernel_out_def)
  have h: "fs_ok (6 * chunks (unat (0 :: u32)) (unat (3 :: u32)) + 1) {} sample_fs" "2 * chunks (unat (0 :: u32)) (unat (3 :: u32)) \<le> s_free sample_fs"
    "IBLOCK (i_inum (inode_at sample_fs 1)) (fs_sb sample_fs) \<in> {0, 33, 46} - {bmap_blk sample_fs}"
    "0 \<le> i_size (inode_at sample_fs 1)" "unat (0 :: u32) + unat (3 :: u32) \<le> max_bytes"
    using sample_fs_ok(1) [of 7] sample_file(3) unfolding n c sample_file(4) sample_fs_free(3) by (simp_all add: max_bytes_def file_consts)
  from writei_readi_roundtrip [OF h(1) sample_file(1) h(2) sample_file(2) h(3-5) k, of 200 500 "\<lambda>_. 0"]
  obtain s1 s2 d' where s: "writei (kernel_in (\<lambda>a. ucast a)) 1 200 0 3 sample_fs = Some (Inr (3, s1))"
    "readi kernel_out 1 500 0 3 (\<lambda>_. 0) s1 = Some (Inr ((3, d'), s2))" "\<And>j. j < 3 \<Longrightarrow> d' (500 + of_nat j) = ucast (200 + of_nat j :: u64)" by auto
  from s(3) [of 1] have "d' 501 = 201" by simp
  then show ?thesis using s(1,2) by blast
qed

end
