(* ===== verification/Kallsyms.thy ===== *)
theory Kallsyms
  imports Bytes
begin

text \<open>
  The build-time generator of the kernel's symbol table, \<^verbatim>\<open>scripts/kallsyms.c\<close>: it reads the output
  of \<^verbatim>\<open>nm\<close>, drops and sorts symbols, compresses their names by giving unused byte values to the most
  frequent pairs of bytes, and writes the tables that \<^verbatim>\<open>kernel/kallsyms.c\<close> is linked with. The two
  arrays indexed by a byte are functions on bytes. A symbol's buffer has one byte more than its
  first length, as it is allocated; memory never runs out. The lines that \<^verbatim>\<open>fscanf\<close> reads are given as
  the fields it scans.
\<close>

section \<open>Data\<close>

definition KSYM_NAME_LEN :: nat where "KSYM_NAME_LEN = 128"

record sym_entry =
  se_addr :: u64
  se_len :: nat
  se_start_pos :: nat
  se_sym :: "u8 list"

record addr_range =
  ar_start_sym :: "u8 list"
  ar_end_sym :: "u8 list"
  ar_start :: u64
  ar_end :: u64

text \<open>The options of \<^verbatim>\<open>main\<close>.\<close>

record kopts =
  all_symbols :: bool
  absolute_percpu :: bool
  symbol_prefix_char :: u8
  kernel_start_addr :: u64

record kst =
  k_text :: u64
  text_ranges :: "addr_range list"
  percpu_range :: "addr_range list"
  table :: "sym_entry list"
  token_profit :: "nat \<Rightarrow> int"
  best_table :: "u8 \<Rightarrow> u8 \<times> u8"
  best_table_len :: "u8 \<Rightarrow> nat"

definition kst_init :: kst where
  "kst_init = \<lparr>k_text = 0,
     text_ranges = map (\<lambda>(a, b). \<lparr>ar_start_sym = bytes a, ar_end_sym = bytes b, ar_start = 0, ar_end = 0\<rparr>)
       [(''_stext'', ''_etext''), (''_sinittext'', ''_einittext''), (''_stext_l1'', ''_etext_l1''), (''_stext_l2'', ''_etext_l2'')],
     percpu_range = [\<lparr>ar_start_sym = bytes ''__per_cpu_start'', ar_end_sym = bytes ''__per_cpu_end'', ar_start = -1, ar_end = 0\<rparr>],
     table = [], token_profit = (\<lambda>_. 0), best_table = (\<lambda>_. (0, 0)), best_table_len = (\<lambda>_. 0)\<rparr>"

section \<open>C strings\<close>

text \<open>The characters of a buffer up to its first NUL; a byte of a string, NUL from its end on.\<close>

definition cstr :: "u8 list \<Rightarrow> u8 list" where "cstr b = takeWhile (\<lambda>c. c \<noteq> 0) b"
definition ch :: "u8 list \<Rightarrow> nat \<Rightarrow> u8" where "ch s i = (if i < length s then s ! i else 0)"

definition toupper :: "u8 \<Rightarrow> u8" where "toupper c = (if 97 \<le> c \<and> c \<le> 122 then c - 32 else c)"

definition strstr :: "u8 list \<Rightarrow> u8 list \<Rightarrow> bool" where
  "strstr hay needle = list_ex (\<lambda>i. take (length needle) (drop i hay) = needle) [0..<length hay + 1]"

section \<open>Reading the map\<close>

definition is_arm_mapping_symbol :: "u8 list \<Rightarrow> bool" where
  "is_arm_mapping_symbol s \<longleftrightarrow>
     ch s 0 = chr ''$'' \<and> ch s 1 \<in> set (bytes ''axtd'' @ [0]) \<and> (ch s 2 = 0 \<or> ch s 2 = chr ''.'')"

fun check_symbol_range :: "u8 list \<Rightarrow> u64 \<Rightarrow> addr_range list \<Rightarrow> nat \<times> addr_range list" where
  "check_symbol_range sy addr [] = (1, [])"
| "check_symbol_range sy addr (ar # ars) =
     (if sy = ar_start_sym ar then (0, ar\<lparr>ar_start := addr\<rparr> # ars)
      else if sy = ar_end_sym ar then (0, ar\<lparr>ar_end := addr\<rparr> # ars)
      else let (r, ars) = check_symbol_range sy addr ars in (r, ar # ars))"

text \<open>A line of the map: the three fields, or a line that does not scan.\<close>

datatype scan = Scan u64 u8 "u8 list" | NoScan

definition kept_absolute :: "u8 list list" where
  "kept_absolute = map bytes [''__kernel_syscall_via_break'', ''__kernel_syscall_via_epc'', ''__kernel_sigtramp'', ''__gp'']"

text \<open>\<open>None\<close> is the result \<open>-1\<close>; the new entry has no \<^verbatim>\<open>start_pos\<close> yet.\<close>

definition read_symbol :: "kopts \<Rightarrow> scan \<Rightarrow> kst \<Rightarrow> sym_entry option \<times> kst" where
  "read_symbol opt line s =
     (case line of
        NoScan \<Rightarrow> (None, s)
      | Scan addr stype str \<Rightarrow>
          if length str > KSYM_NAME_LEN then (None, s)
          else
            let sym = (if symbol_prefix_char opt \<noteq> 0 \<and> ch str 0 = symbol_prefix_char opt then tl str else str);
                (r, ranges) = check_symbol_range sym addr (text_ranges s);
                (keep, s) =
                  (if sym = bytes ''_text'' then (True, s\<lparr>k_text := addr\<rparr>)
                   else if r = 0 then (True, s\<lparr>text_ranges := ranges\<rparr>)
                   else if toupper stype = chr ''A'' then (sym \<in> set kept_absolute, s)
                   else if toupper stype = chr ''U'' \<or> is_arm_mapping_symbol sym then (False, s)
                   else if ch str 0 = chr ''$'' then (False, s)
                   else if stype = chr ''N'' then (False, s)
                   else (True, s))
            in if keep
               then (Some \<lparr>se_addr = addr, se_len = length str + 1, se_start_pos = 0, se_sym = stype # str @ [0]\<rparr>,
                     s\<lparr>percpu_range := snd (check_symbol_range sym addr (percpu_range s))\<rparr>)
               else (None, s))"

fun read_map :: "kopts \<Rightarrow> scan list \<Rightarrow> kst \<Rightarrow> kst" where
  "read_map opt [] s = s"
| "read_map opt (l # ls) s =
     (case read_symbol opt l s of
        (None, s) \<Rightarrow> read_map opt ls s
      | (Some e, s) \<Rightarrow> read_map opt ls (s\<lparr>table := table s @ [e\<lparr>se_start_pos := length (table s)\<rparr>]\<rparr>))"

section \<open>Choosing and sorting symbols\<close>

definition symbol_in_range :: "sym_entry \<Rightarrow> addr_range list \<Rightarrow> bool" where
  "symbol_in_range e ranges = list_ex (\<lambda>ar. ar_start ar \<le> se_addr e \<and> se_addr e \<le> ar_end ar) ranges"

definition special_symbols :: "u8 list list" where
  "special_symbols = map bytes [''kallsyms_addresses'', ''kallsyms_num_syms'', ''kallsyms_names'', ''kallsyms_markers'',
     ''kallsyms_token_table'', ''kallsyms_token_index'', ''_SDA_BASE_'', ''_SDA2_BASE_'']"

definition symbol_valid :: "kopts \<Rightarrow> kst \<Rightarrow> sym_entry \<Rightarrow> bool" where
  "symbol_valid opt s e =
     (let offset = (if symbol_prefix_char opt \<noteq> 0 \<and> ch (se_sym e) 1 = symbol_prefix_char opt then 2 else 1);
          name = cstr (drop offset (se_sym e));
          text = text_ranges s ! 0; inittext = text_ranges s ! 1
      in if se_addr e < kernel_start_addr opt then False
         else if \<not> all_symbols opt \<and> \<not> symbol_in_range e (text_ranges s) then False
         else if \<not> all_symbols opt \<and>
              (se_addr e = ar_end text \<and> name \<noteq> ar_end_sym text \<or>
               se_addr e = ar_end inittext \<and> name \<noteq> ar_end_sym inittext) then False
         else if strstr name (bytes ''_compiled.'') then False
         else name \<notin> set special_symbols)"

definition symbol_absolute :: "sym_entry \<Rightarrow> bool" where
  "symbol_absolute e \<longleftrightarrow> toupper (ch (se_sym e) 0) = chr ''A''"

definition may_be_linker_script_provide_symbol :: "sym_entry \<Rightarrow> bool" where
  "may_be_linker_script_provide_symbol e =
     (let symbol = drop 1 (se_sym e); len = se_len e - 1
      in if len < 8 then False
         else if ch symbol 0 \<noteq> chr ''_'' \<or> ch symbol 1 \<noteq> chr ''_'' then False
         else get 2 6 symbol = bytes ''start_'' \<or> get 2 5 symbol = bytes ''stop_'' \<or> get 2 4 symbol = bytes ''end_'' \<or>
              get (len - 6) 6 symbol = bytes ''_start'' \<or> get (len - 4) 4 symbol = bytes ''_end'')"

definition prefix_underscores_count :: "u8 list \<Rightarrow> nat" where
  "prefix_underscores_count s = length (takeWhile (\<lambda>c. c = chr ''_'') s)"

definition compare_symbols :: "sym_entry \<Rightarrow> sym_entry \<Rightarrow> int" where
  "compare_symbols sa sb =
     (let w = (\<lambda>e. of_bool (ch (se_sym e) 0 = chr ''w'' \<or> ch (se_sym e) 0 = chr ''W''));
          l = (\<lambda>e. of_bool (may_be_linker_script_provide_symbol e));
          p = (\<lambda>e. int (prefix_underscores_count (drop 1 (se_sym e))))
      in if se_addr sa > se_addr sb then 1
         else if se_addr sa < se_addr sb then -1
         else if w sa \<noteq> w sb then w sa - w sb
         else if l sa \<noteq> l sb then l sa - l sb
         else if p sa \<noteq> p sb then p sa - p sb
         else int (se_start_pos sa) - int (se_start_pos sb))"

text \<open>\<^verbatim>\<open>qsort\<close> of the standard library, with the comparison function of the program.\<close>

fun insert_by :: "('a \<Rightarrow> 'a \<Rightarrow> int) \<Rightarrow> 'a \<Rightarrow> 'a list \<Rightarrow> 'a list" where
  "insert_by cmp x [] = [x]"
| "insert_by cmp x (y # ys) = (if cmp x y \<le> 0 then x # y # ys else y # insert_by cmp x ys)"

definition qsort_by :: "('a \<Rightarrow> 'a \<Rightarrow> int) \<Rightarrow> 'a list \<Rightarrow> 'a list" where
  "qsort_by cmp xs = foldr (insert_by cmp) xs []"

definition sort_symbols :: "kst \<Rightarrow> kst" where
  "sort_symbols s = s\<lparr>table := qsort_by compare_symbols (table s)\<rparr>"

definition make_percpus_absolute :: "kst \<Rightarrow> kst" where
  "make_percpus_absolute s = s\<lparr>table := map (\<lambda>e. if symbol_in_range e (percpu_range s)
       then e\<lparr>se_sym := (se_sym e)[0 := chr ''A'']\<rparr> else e) (table s)\<rparr>"

section \<open>Compression\<close>

definition token_at :: "u8 list \<Rightarrow> nat \<Rightarrow> nat" where
  "token_at sy i = unat (sy ! i) + 256 * unat (sy ! (i + 1))"

definition learn_symbol :: "u8 list \<Rightarrow> nat \<Rightarrow> (nat \<Rightarrow> int) \<Rightarrow> (nat \<Rightarrow> int)" where
  "learn_symbol sy len tp = fold (\<lambda>i tp. tp(token_at sy i := tp (token_at sy i) + 1)) [0..<len - 1] tp"

definition forget_symbol :: "u8 list \<Rightarrow> nat \<Rightarrow> (nat \<Rightarrow> int) \<Rightarrow> (nat \<Rightarrow> int)" where
  "forget_symbol sy len tp = fold (\<lambda>i tp. tp(token_at sy i := tp (token_at sy i) - 1)) [0..<len - 1] tp"

definition build_initial_tok_table :: "kopts \<Rightarrow> kst \<Rightarrow> kst" where
  "build_initial_tok_table opt s =
     (let t = filter (symbol_valid opt s) (table s)
      in s\<lparr>table := t, token_profit := fold (\<lambda>e. learn_symbol (se_sym e) (se_len e)) t (token_profit s)\<rparr>)"

definition find_token :: "u8 list \<Rightarrow> nat \<Rightarrow> u8 \<times> u8 \<Rightarrow> nat option" where
  "find_token str len tok = find (\<lambda>i. str ! i = fst tok \<and> str ! (i + 1) = snd tok) [0..<len - 1]"

text \<open>
  The inner loop of \<^verbatim>\<open>compress_symbols\<close>: \<^verbatim>\<open>p1\<close> is an offset into the symbol's buffer and the token is \<open>j\<close>
  bytes further, at \<^verbatim>\<open>p2\<close>.
\<close>

function compress_loop :: "u8 \<times> u8 \<Rightarrow> u8 \<Rightarrow> u8 list \<Rightarrow> nat \<Rightarrow> nat \<Rightarrow> nat \<Rightarrow> nat \<Rightarrow> u8 list \<times> nat" where
  "compress_loop tok idx buf p1 j sz len =
     (let p2 = p1 + j + 1;
          buf = buf[p1 + j := idx];
          sz = sz - (j + 1);
          buf = put p2 (get (p2 + 1) sz buf) buf;
          len = len - 1
      in if sz < 2 then (buf, len)
         else case find_token (drop p2 buf) sz tok of
                None \<Rightarrow> (buf, len)
              | Some j \<Rightarrow> compress_loop tok idx buf p2 j sz len)"
  by pat_completeness auto

termination compress_loop
  by (relation "measure (\<lambda>(_, _, _, _, _, sz, _). sz)") auto

definition compress_entry :: "u8 \<times> u8 \<Rightarrow> u8 \<Rightarrow> sym_entry \<times> (nat \<Rightarrow> int) \<Rightarrow> sym_entry \<times> (nat \<Rightarrow> int)" where
  "compress_entry tok idx = (\<lambda>(e, tp).
     case find_token (se_sym e) (se_len e) tok of
       None \<Rightarrow> (e, tp)
     | Some p2 \<Rightarrow>
         let tp = forget_symbol (se_sym e) (se_len e) tp;
             (buf, len) = compress_loop tok idx (se_sym e) 0 p2 (se_len e) (se_len e)
         in (e\<lparr>se_sym := buf, se_len := len\<rparr>, learn_symbol buf len tp))"

fun compress_list :: "u8 \<times> u8 \<Rightarrow> u8 \<Rightarrow> sym_entry list \<Rightarrow> (nat \<Rightarrow> int) \<Rightarrow> sym_entry list \<times> (nat \<Rightarrow> int)" where
  "compress_list tok idx [] tp = ([], tp)"
| "compress_list tok idx (e # es) tp =
     (let (e, tp) = compress_entry tok idx (e, tp); (es, tp) = compress_list tok idx es tp in (e # es, tp))"

definition compress_symbols :: "u8 \<times> u8 \<Rightarrow> u8 \<Rightarrow> kst \<Rightarrow> kst" where
  "compress_symbols str idx s =
     (let (t, tp) = compress_list str idx (table s) (token_profit s) in s\<lparr>table := t, token_profit := tp\<rparr>)"

definition find_best_token :: "(nat \<Rightarrow> int) \<Rightarrow> nat" where
  "find_best_token tp =
     fst (fold (\<lambda>i (best, bestprofit). if tp i > bestprofit then (i, tp i) else (best, bestprofit)) [0..<0x10000] (0, -10000))"

text \<open>The loop for the slots \<open>n - 1\<close> down to 0.\<close>

fun optimize_loop :: "nat \<Rightarrow> kst \<Rightarrow> kst" where
  "optimize_loop 0 s = s"
| "optimize_loop (Suc i) s =
     (if best_table_len s (of_nat i) = 0
      then let best = find_best_token (token_profit s)
           in if token_profit s best = 0 then s
              else let tok = (of_nat (best mod 256), of_nat (best div 256 mod 256));
                       s = s\<lparr>best_table_len := (best_table_len s)(of_nat i := 2), best_table := (best_table s)(of_nat i := tok)\<rparr>
                   in optimize_loop i (compress_symbols tok (of_nat i) s)
      else optimize_loop i s)"

definition optimize_result :: "kst \<Rightarrow> kst" where
  "optimize_result s = optimize_loop 256 s"

definition mark_real :: "u8 \<Rightarrow> kst \<Rightarrow> kst" where
  "mark_real c s = s\<lparr>best_table := (best_table s)(c := (c, snd (best_table s c))), best_table_len := (best_table_len s)(c := 1)\<rparr>"

definition insert_real_symbols_in_table :: "kst \<Rightarrow> kst" where
  "insert_real_symbols_in_table s =
     fold (\<lambda>e s. fold mark_real (take (se_len e) (se_sym e)) s) (table s)
       (s\<lparr>best_table := (\<lambda>_. (0, 0)), best_table_len := (\<lambda>_. 0)\<rparr>)"

text \<open>\<open>None\<close> is the exit with \<^verbatim>\<open>No valid symbol\<close>.\<close>

definition optimize_token_table :: "kopts \<Rightarrow> kst \<Rightarrow> kst option" where
  "optimize_token_table opt s =
     (let s = insert_real_symbols_in_table (build_initial_tok_table opt s)
      in if table s = [] then None else Some (optimize_result s))"

section \<open>Writing the tables\<close>

text \<open>
  \<^verbatim>\<open>expand_symbol\<close> expands codes through the table recursively; the fuel bounds the depth and \<open>None\<close> is
  a depth beyond it. A code that stands for two codes is added after both, so that the depth is at
  most the number of slots and one.
\<close>

fun expand_symbol :: "(u8 \<Rightarrow> u8 \<times> u8) \<Rightarrow> (u8 \<Rightarrow> nat) \<Rightarrow> nat \<Rightarrow> u8 list \<Rightarrow> u8 list option" where
  "expand_symbol bt bl f [] = Some []"
| "expand_symbol bt bl 0 (c # cs) = None"
| "expand_symbol bt bl (Suc f) (c # cs) =
     (case (if fst (bt c) = c \<and> bl c = 1 then Some [c] else expand_symbol bt bl f (take (bl c) [fst (bt c), snd (bt c)])) of
        None \<Rightarrow> None
      | Some r \<Rightarrow> (case expand_symbol bt bl (Suc f) cs of None \<Rightarrow> None | Some rs \<Rightarrow> Some (r @ rs)))"

definition expand_fuel :: nat where "expand_fuel = 257"

text \<open>
  The tables as the kernel sees them. The assembler turns the text between the quotes of an \<^verbatim>\<open>.asciz\<close>
  directive into bytes, which is the argument \<open>asciz\<close>; \<open>base\<close> is the address of \<^verbatim>\<open>_text\<close> in the linked kernel.
\<close>

record ksyms =
  kallsyms_addresses :: "u64 list"
  kallsyms_num_syms :: nat
  kallsyms_names :: "u8 list"
  kallsyms_markers :: "nat list"
  kallsyms_token_table :: "u8 list"
  kallsyms_token_index :: "u16 list"

definition sym_address :: "u64 \<Rightarrow> u64 \<Rightarrow> sym_entry \<Rightarrow> u64" where
  "sym_address text base e =
     (if \<not> symbol_absolute e
      then if text \<le> se_addr e then base + (se_addr e - text) else base - (text - se_addr e)
      else se_addr e)"

definition sym_record :: "sym_entry \<Rightarrow> u8 list" where
  "sym_record e = of_nat (se_len e) # take (se_len e) (se_sym e)"

text \<open>The loop over the symbols: the bytes of the names and, for every 256th symbol, its offset.\<close>

fun write_names :: "nat \<Rightarrow> nat \<Rightarrow> sym_entry list \<Rightarrow> u8 list \<times> nat list" where
  "write_names i off [] = ([], [])"
| "write_names i off (e # es) =
     (let (ns, ms) = write_names (i + 1) (off + se_len e + 1) es
      in (sym_record e @ ns, if i mod 256 = 0 then off # ms else ms))"

text \<open>The loop over the 256 codes; the expansion of a code goes to a buffer of \<^verbatim>\<open>KSYM_NAME_LEN\<close> bytes.\<close>

fun write_tokens :: "(u8 list \<Rightarrow> u8 list) \<Rightarrow> kst \<Rightarrow> nat \<Rightarrow> u8 list \<Rightarrow> (u8 list \<times> u16 list) result option" where
  "write_tokens asciz s off [] = Some (Inr ([], []))"
| "write_tokens asciz s off (c # cs) =
     (case expand_symbol (best_table s) (best_table_len s) expand_fuel
             (take (best_table_len s c) [fst (best_table s c), snd (best_table s c)]) of
        None \<Rightarrow> None
      | Some buf \<Rightarrow>
          if length buf + 1 > KSYM_NAME_LEN then Some (Inl OutOfBounds)
          else (case write_tokens asciz s (off + length (cstr (buf @ [0])) + 1) cs of
                  Some (Inr (tt, ti)) \<Rightarrow> Some (Inr (asciz (cstr (buf @ [0])) @ tt, of_nat off # ti))
                | r \<Rightarrow> r))"

definition codes :: "u8 list" where "codes = map of_nat [0..<256]"

definition write_src :: "(u8 list \<Rightarrow> u8 list) \<Rightarrow> u64 \<Rightarrow> kst \<Rightarrow> ksyms result option" where
  "write_src asciz base s =
     (let (names, markers) = write_names 0 0 (table s)
      in case write_tokens asciz s 0 codes of
           Some (Inr (tt, ti)) \<Rightarrow>
             Some (Inr \<lparr>kallsyms_addresses = map (sym_address (k_text s) base) (table s), kallsyms_num_syms = length (table s),
               kallsyms_names = names, kallsyms_markers = markers, kallsyms_token_table = tt, kallsyms_token_index = ti\<rparr>)
         | Some (Inl e) \<Rightarrow> Some (Inl e)
         | None \<Rightarrow> None)"

text \<open>\<^verbatim>\<open>main\<close> after its options: the symbols that go into the table, and the tables.\<close>

definition read_sorted :: "kopts \<Rightarrow> scan list \<Rightarrow> kst" where
  "read_sorted opt ls =
     (let s = read_map opt ls kst_init;
          s = (if absolute_percpu opt then make_percpus_absolute s else s)
      in sort_symbols s)"

definition kallsyms_main :: "(u8 list \<Rightarrow> u8 list) \<Rightarrow> u64 \<Rightarrow> kopts \<Rightarrow> scan list \<Rightarrow> ksyms result option option" where
  "kallsyms_main asciz base opt ls =
     (case optimize_token_table opt (read_sorted opt ls) of
        None \<Rightarrow> None
      | Some s \<Rightarrow> Some (write_src asciz base s))"

end
