(* ===== verification/Ksyms.thy ===== *)
theory Ksyms
  imports Kallsyms
begin

text \<open>
  Symbol lookup in the running kernel, \<^verbatim>\<open>kernel/kallsyms.c\<close>, over the tables of theory Kallsyms. A read
  beyond the end of a table and a write beyond the end of the name buffer are the fault \<open>OutOfBounds\<close>.
\<close>

definition rd :: "'a list \<Rightarrow> nat \<Rightarrow> 'a result" where
  "rd xs i = (if i < length xs then Inr (xs ! i) else Inl OutOfBounds)"

definition is_kernel :: "u64 \<Rightarrow> u64 \<Rightarrow> u64 \<Rightarrow> bool" where
  "is_kernel text etext addr \<longleftrightarrow> text \<le> addr \<and> addr \<le> etext"

fun skip_names :: "u8 list \<Rightarrow> nat \<Rightarrow> nat \<Rightarrow> nat result" where
  "skip_names names 0 name = Inr name"
| "skip_names names (Suc k) name = bindR (rd names name) (\<lambda>len. skip_names names k (name + unat len + 1))"

definition get_symbol_offset :: "ksyms \<Rightarrow> nat \<Rightarrow> nat result" where
  "get_symbol_offset ks pos =
     bindR (rd (kallsyms_markers ks) (pos div 256)) (skip_names (kallsyms_names ks) (pos mod 256))"

text \<open>The inner loop over one token: the characters that follow, and those written so far.\<close>

fun copy_token :: "u8 list \<Rightarrow> bool \<Rightarrow> u8 list \<Rightarrow> (bool \<times> u8 list) result" where
  "copy_token [] skipped_first out = Inl OutOfBounds"
| "copy_token (t # ts) skipped_first out =
     (if t = 0 then Inr (skipped_first, out)
      else copy_token ts True (if skipped_first then out @ [t] else out))"

fun expand_codes :: "ksyms \<Rightarrow> nat \<Rightarrow> nat \<Rightarrow> bool \<Rightarrow> u8 list \<Rightarrow> u8 list result" where
  "expand_codes ks data 0 skipped_first out = Inr out"
| "expand_codes ks data (Suc len) skipped_first out =
     bindR (rd (kallsyms_names ks) data) (\<lambda>c.
     bindR (rd (kallsyms_token_index ks) (unat c)) (\<lambda>ti.
     bindR (copy_token (drop (unat ti) (kallsyms_token_table ks)) skipped_first out) (\<lambda>(skipped_first, out).
     expand_codes ks (data + 1) len skipped_first out)))"

text \<open>The new offset and the name buffer.\<close>

definition kallsyms_expand_symbol :: "ksyms \<Rightarrow> nat \<Rightarrow> u8 list \<Rightarrow> (nat \<times> u8 list) result" where
  "kallsyms_expand_symbol ks off namebuf =
     bindR (rd (kallsyms_names ks) off) (\<lambda>len.
     bindR (expand_codes ks (off + 1) (unat len) False []) (\<lambda>out.
     if length out + 1 > length namebuf then Inl OutOfBounds
     else Inr (off + unat len + 1, put 0 (out @ [0]) namebuf)))"

function sym_bsearch :: "u64 list \<Rightarrow> u64 \<Rightarrow> nat \<Rightarrow> nat \<Rightarrow> nat result" where
  "sym_bsearch as addr low high =
     (if high - low > 1
      then let mid = (low + high) div 2
           in bindR (rd as mid) (\<lambda>a. if a \<le> addr then sym_bsearch as addr mid high else sym_bsearch as addr low mid)
      else Inr low)"
  by pat_completeness auto

termination sym_bsearch
  by (relation "measure (\<lambda>(_, _, low, high). high - low)") auto

text \<open>\<^verbatim>\<open>symbol_end\<close>: the first address beyond the symbol's own, 0 without one.\<close>

definition symbol_end :: "u64 list \<Rightarrow> nat \<Rightarrow> u64" where
  "symbol_end as low = (case find (\<lambda>a. a > as ! low) (drop (low + 1) as) of Some a \<Rightarrow> a | None \<Rightarrow> 0)"

text \<open>\<open>None\<close> is the null result; else size, offset and the name buffer.\<close>

definition kallsyms_lookup :: "ksyms \<Rightarrow> u64 \<Rightarrow> u64 \<Rightarrow> u64 \<Rightarrow> u8 list \<Rightarrow> (u64 \<times> u64 \<times> u8 list) option result" where
  "kallsyms_lookup ks text etext addr namebuf =
     (if length namebuf < KSYM_NAME_LEN then Inl OutOfBounds
      else let namebuf = namebuf[KSYM_NAME_LEN - 1 := 0, 0 := 0]
      in if is_kernel text etext addr
         then bindR (sym_bsearch (kallsyms_addresses ks) addr 0 (kallsyms_num_syms ks)) (\<lambda>low.
              bindR (get_symbol_offset ks low) (\<lambda>off.
              bindR (kallsyms_expand_symbol ks off namebuf) (\<lambda>(_, namebuf).
              bindR (rd (kallsyms_addresses ks) low) (\<lambda>a.
              Inr (Some (symbol_end (take (kallsyms_num_syms ks) (kallsyms_addresses ks)) low - a, addr - a, namebuf))))))
         else Inr None)"

end
