(* ===== verification/Ksyms_codes.thy ===== *)
theory Ksyms_codes
  imports Ksyms
begin

text \<open>
  The compression of symbol names is reversible: every step of the generator keeps a decoding of the
  codes under which each compressed name is its original, and the recursive expansion of a code
  computes that decoding.
\<close>

declare compress_loop.simps [simp del] sym_bsearch.simps [simp del]

section \<open>Replacing a pair in one symbol\<close>

definition codes_of :: "sym_entry \<Rightarrow> u8 list" where "codes_of e = take (se_len e) (se_sym e)"

text \<open>The bytes of a buffer from its length on are NUL, and there is at least one of them.\<close>

definition padded :: "u8 list \<Rightarrow> nat \<Rightarrow> bool" where
  "padded buf len \<longleftrightarrow> len < length buf \<and> (\<forall>i < length buf. len \<le> i \<longrightarrow> buf ! i = 0)"

text \<open>\<open>ys\<close> is \<open>xs\<close> with some occurrences of the pair \<open>a b\<close> replaced by \<open>c\<close>.\<close>

inductive replaced :: "u8 \<Rightarrow> u8 \<Rightarrow> u8 \<Rightarrow> u8 list \<Rightarrow> u8 list \<Rightarrow> bool" for a b c where
  same: "replaced a b c xs xs"
| pair: "replaced a b c (xs @ c # ys) zs \<Longrightarrow> replaced a b c (xs @ a # b # ys) zs"

lemma replaced_set: "replaced a b c xs ys \<Longrightarrow> set ys \<subseteq> insert c (set xs)"
  by (induction rule: replaced.induct) auto

lemma replaced_length: "replaced a b c xs ys \<Longrightarrow> length ys \<le> length xs"
  by (induction rule: replaced.induct) auto

lemma replaced_decode: "replaced a b c xs ys \<Longrightarrow> D c = D a @ D b \<Longrightarrow> concat (map D ys) = concat (map D xs)"
  by (induction rule: replaced.induct) auto

lemma replace_step:
  fixes c :: u8
  assumes "padded buf len" "p + j + 1 < len" "len \<le> p + sz" "p + sz < length buf" "j + 1 < sz"
    "buf ! (p + j) = a" "buf ! (p + j + 1) = b"
  defines "buf' \<equiv> put (p + j + 1) (get (p + j + 2) (sz - (j + 1)) (buf[p + j := c])) (buf[p + j := c])"
  shows "padded buf' (len - 1)" "length buf' = length buf"
    "take len buf = take (p + j) buf @ a # b # drop (p + j + 2) (take len buf)"
    "take (len - 1) buf' = take (p + j) buf @ c # drop (p + j + 2) (take len buf)"
proof -
  let ?n = "sz - (j + 1)" let ?g = "get (p + j + 2) ?n (buf[p + j := c])"
  have lg: "length ?g = ?n" using assms(4,5) by (intro length_get) simp
  show l: "length buf' = length buf" unfolding buf'_def using assms(4,5) lg by (subst length_put) auto
  have nth: "buf' ! i = (if i = p + j then c else if p + j < i \<and> i < p + sz then buf ! (i + 1) else buf ! i)" if "i < length buf" for i
  proof -
    have "buf' ! i = (if p + j + 1 \<le> i \<and> i < p + j + 1 + ?n then ?g ! (i - (p + j + 1)) else buf[p + j := c] ! i)"
      unfolding buf'_def using assms(4,5) lg that by (subst nth_put) auto
    then show ?thesis using assms(4,5) that by (auto simp: get_def nth_list_update)
  qed
  show "padded buf' (len - 1)" using assms(1-5) nth l by (auto simp: padded_def)
  have pl: "p + j + 1 < length (take len buf)" using assms(1,2) by (simp add: padded_def)
  have "take len buf = take (p + j) (take len buf) @ take len buf ! (p + j) # drop (Suc (p + j)) (take len buf)"
    using pl by (intro id_take_nth_drop) simp
  also have "drop (Suc (p + j)) (take len buf) = take len buf ! Suc (p + j) # drop (p + j + 2) (take len buf)"
    using pl by (simp add: Cons_nth_drop_Suc [symmetric])
  finally show "take len buf = take (p + j) buf @ a # b # drop (p + j + 2) (take len buf)"
    using assms(2,6,7) by (simp add: min_def)
  show "take (len - 1) buf' = take (p + j) buf @ c # drop (p + j + 2) (take len buf)"
  proof (rule nth_equalityI)
    show "length (take (len - 1) buf') = length (take (p + j) buf @ c # drop (p + j + 2) (take len buf))"
      using assms(1,2) l by (auto simp: padded_def)
    fix i assume "i < length (take (len - 1) buf')"
    then have i: "i < len - 1" "i < length buf" using l by auto
    consider "i < p + j" | "i = p + j" | "p + j < i" by linarith
    then show "take (len - 1) buf' ! i = (take (p + j) buf @ c # drop (p + j + 2) (take len buf)) ! i"
    proof cases
      case 3
      then have "i < p + sz" using i assms(3) by simp
      moreover have "i - (p + j) = Suc (i - (p + j) - 1)" using 3 by simp
      ultimately show ?thesis using 3 i assms(1,2) by (simp add: nth nth_append padded_def)
    qed (use i assms(1,2) in \<open>simp_all add: nth nth_append padded_def\<close>)
  qed
qed

lemma find_token_Some:
  "find_token str len (a, b) = Some j \<Longrightarrow> j + 1 < len \<and> str ! j = a \<and> str ! (j + 1) = b"
  by (auto simp: find_token_def find_Some_iff)

lemma compress_loop_ok:
  assumes "padded buf len" "p + j + 1 < len" "len \<le> p + sz" "p + sz < length buf" "j + 1 < sz"
    "buf ! (p + j) = a" "buf ! (p + j + 1) = b" "b \<noteq> 0" "compress_loop (a, b) c buf p j sz len = (buf', len')"
  shows "padded buf' len' \<and> length buf' = length buf \<and> replaced a b c (take len buf) (take len' buf')"
  using assms
proof (induction "(a, b)" c buf p j sz len arbitrary: buf' len' rule: compress_loop.induct)
  case (1 c buf p j sz len)
  note st = replace_step(1,2,4) [OF 1(2-8), where c = c] and st3 = replace_step(3) [OF 1(2-8)]
  define q where "q = p + j + 1"
  define sz1 where "sz1 = sz - (j + 1)"
  define b1 where "b1 = put q (get (q + 1) sz1 (buf[p + j := c])) (buf[p + j := c])"
  have b1: "padded b1 (len - 1)" "length b1 = length buf" and tk: "take (len - 1) b1 = take (p + j) buf @ c # drop (p + j + 2) (take len buf)"
    using st by (simp_all add: b1_def q_def sz1_def)
  have rp: "replaced a b c (take len buf) zs" if "replaced a b c (take (len - 1) b1) zs" for zs
    using pair [of a b c "take (p + j) buf" "drop (p + j + 2) (take len buf)" zs] that unfolding tk st3 [symmetric] by blast
  have run: "(if sz1 < 2 then (b1, len - 1) else case find_token (drop q b1) sz1 (a, b) of None \<Rightarrow> (b1, len - 1)
       | Some j \<Rightarrow> compress_loop (a, b) c b1 q j sz1 (len - 1)) = (buf', len')"
    using 1(10) by (simp only: compress_loop.simps [of "(a, b)" c buf p j sz len] Let_def q_def sz1_def b1_def)
  show ?case
  proof (cases "\<exists>j'. \<not> sz1 < 2 \<and> find_token (drop q b1) sz1 (a, b) = Some j'")
    case False
    then have "buf' = b1" "len' = len - 1" using run by (auto split: if_splits option.splits)
    then show ?thesis using b1 rp same by blast
  next
    case True
    then obtain j' where j': "\<not> sz1 < 2" "find_token (drop q b1) sz1 (a, b) = Some j'" by blast
    have e: "q + sz1 = p + sz" using 1(6) by (simp add: q_def sz1_def)
    have t: "j' + 1 < sz1" "b1 ! (q + j') = a" "b1 ! (q + j' + 1) = b"
      using find_token_Some [OF j'(2)] e 1(5) b1(2) by auto
    have "q + j' + 1 < length b1" using t(1) e 1(5) b1(2) by linarith
    then have "q + j' + 1 < len - 1" using b1(1) t(3) 1(9) by (metis padded_def not_less)
    moreover have "len - 1 \<le> q + sz1" "q + sz1 < length b1" using e 1(4,5) b1(2) by simp_all
    moreover have "compress_loop (a, b) c b1 q j' sz1 (len - 1) = (buf', len')" using run j' by simp
    moreover have "\<not> sz - (j + 1) < 2" "find_token (drop (p + j + 1) b1) (sz - (j + 1)) (a, b) = Some j'"
      using j' by (simp_all add: q_def sz1_def)
    ultimately have "padded buf' len' \<and> length buf' = length b1 \<and> replaced a b c (take (len - 1) b1) (take len' buf')"
      using 1(1) [OF refl refl refl refl refl, of j' buf' len'] b1(1) t 1(9) by (simp add: q_def sz1_def b1_def)
    then show ?thesis using b1(2) rp by simp
  qed
qed

lemma compress_entry_ok:
  assumes "padded (se_sym e) (se_len e)" "b \<noteq> 0" "compress_entry (a, b) c (e, tp) = (e', tp')"
  shows "padded (se_sym e') (se_len e') \<and> replaced a b c (codes_of e) (codes_of e') \<and> se_addr e' = se_addr e"
proof (cases "find_token (se_sym e) (se_len e) (a, b)")
  case None
  then show ?thesis using assms same by (auto simp: compress_entry_def)
next
  case (Some p)
  note t = find_token_Some [OF Some]
  obtain buf len where r: "compress_loop (a, b) c (se_sym e) 0 p (se_len e) (se_len e) = (buf, len)" by fastforce
  then have "e' = e\<lparr>se_sym := buf, se_len := len\<rparr>" using assms(3) Some by (simp add: compress_entry_def)
  moreover have "padded buf len \<and> length buf = length (se_sym e) \<and> replaced a b c (take (se_len e) (se_sym e)) (take len buf)"
    using compress_loop_ok [OF assms(1) _ _ _ _ _ _ assms(2) r] t assms(1) by (simp add: padded_def)
  ultimately show ?thesis by (simp add: codes_of_def)
qed

section \<open>Counts of pairs\<close>

definition pair_count :: "u8 list \<Rightarrow> nat \<Rightarrow> nat \<Rightarrow> int" where
  "pair_count sy len t = int (length (filter (\<lambda>i. token_at sy i = t) [0..<len - 1]))"

lemma fold_count:
  "fold (\<lambda>i tp. tp(f i := tp (f i) + d)) is tp t = tp t + d * int (length (filter (\<lambda>i. f i = t) is))"
  by (induction "is" arbitrary: tp) (auto simp: algebra_simps)

lemma learn_symbol_count: "learn_symbol sy len tp t = tp t + pair_count sy len t"
  by (simp add: learn_symbol_def fold_count pair_count_def)

lemma forget_symbol_count: "forget_symbol sy len tp t = tp t - pair_count sy len t"
  using fold_count [of "token_at sy" "- 1" "[0..<len - 1]" tp t] by (simp add: forget_symbol_def pair_count_def)

definition entry_pairs :: "sym_entry \<Rightarrow> nat \<Rightarrow> int" where "entry_pairs e t = pair_count (se_sym e) (se_len e) t"

definition profit_ok :: "kst \<Rightarrow> bool" where
  "profit_ok s \<longleftrightarrow> (\<forall>t. token_profit s t = (\<Sum>e\<leftarrow>table s. entry_pairs e t))"

lemma learn_all: "fold (\<lambda>e. learn_symbol (se_sym e) (se_len e)) es tp t = tp t + (\<Sum>e\<leftarrow>es. entry_pairs e t)"
  by (induction es arbitrary: tp) (simp_all add: learn_symbol_count entry_pairs_def)

lemma compress_entry_count:
  "compress_entry tok c (e, tp) = (e', tp') \<Longrightarrow> tp' t = tp t - entry_pairs e t + entry_pairs e' t"
  by (auto simp: compress_entry_def entry_pairs_def learn_symbol_count forget_symbol_count Let_def split: option.splits prod.splits)

lemma compress_list_count:
  "compress_list tok c es tp = (es', tp') \<Longrightarrow> tp' t = tp t - (\<Sum>e\<leftarrow>es. entry_pairs e t) + (\<Sum>e\<leftarrow>es'. entry_pairs e t)"
proof (induction es arbitrary: tp es' tp')
  case (Cons e es)
  obtain e1 tp1 es1 where 1: "compress_entry tok c (e, tp) = (e1, tp1)" "compress_list tok c es tp1 = (es1, tp')" "es' = e1 # es1"
    using Cons.prems by (auto simp: Let_def split: prod.splits)
  then show ?case using compress_entry_count [OF 1(1), of t] Cons.IH [OF 1(2)] by simp
qed simp

text \<open>A pair with a profit occurs in a symbol.\<close>

lemma profit_pair:
  assumes "profit_ok s" "token_profit s t \<noteq> 0" "\<forall>e \<in> set (table s). se_len e < length (se_sym e)"
  obtains e a b xs ys where "e \<in> set (table s)" "codes_of e = xs @ a # b # ys" "a = of_nat (t mod 256)" "b = of_nat (t div 256 mod 256)"
proof -
  have "\<exists>e \<in> set (table s). entry_pairs e t \<noteq> 0"
  proof (rule ccontr)
    assume "\<not> ?thesis"
    then have "(\<Sum>e\<leftarrow>table s. entry_pairs e t) = (\<Sum>e\<leftarrow>table s. 0)" by (intro arg_cong [of _ _ sum_list] map_cong) auto
    then show False using assms(1,2) by (simp add: profit_ok_def)
  qed
  then obtain e where e: "e \<in> set (table s)" "entry_pairs e t \<noteq> 0" by blast
  then obtain i where i: "i < se_len e - 1" "token_at (se_sym e) i = t"
    by (auto simp: entry_pairs_def pair_count_def filter_empty_conv)
  let ?c = "codes_of e"
  have l: "length ?c = se_len e" "?c ! i = se_sym e ! i" "?c ! Suc i = se_sym e ! Suc i" using assms(3) e i by (auto simp: codes_of_def)
  have "?c = take i ?c @ ?c ! i # drop (Suc i) ?c" using l i by (intro id_take_nth_drop) simp
  also have "drop (Suc i) ?c = ?c ! Suc i # drop (Suc (Suc i)) ?c" using l i by (intro Cons_nth_drop_Suc [symmetric]) simp
  finally have sp: "?c = take i ?c @ ?c ! i # ?c ! Suc i # drop (Suc (Suc i)) ?c" .
  have u: "unat (x :: u8) < 256" for x using unsigned_less [of x] by simp
  have "t = unat (?c ! i) + 256 * unat (?c ! Suc i)" using i(2) l by (simp add: token_at_def)
  then have "t mod 256 = unat (?c ! i)" "t div 256 mod 256 = unat (?c ! Suc i)" using u [of "?c ! i"] u [of "?c ! Suc i"] by simp_all
  then show ?thesis using that [OF e(1) sp] by simp
qed

section \<open>The decoding\<close>

abbreviation used :: "kst \<Rightarrow> u8 \<Rightarrow> bool" where "used s c \<equiv> best_table_len s c \<noteq> 0"

lemma expand_append:
  "expand_symbol bt bl f xs = Some us \<Longrightarrow> expand_symbol bt bl f ys = Some vs \<Longrightarrow> expand_symbol bt bl f (xs @ ys) = Some (us @ vs)"
proof (induction bt bl f xs arbitrary: us rule: expand_symbol.induct)
  case (3 bt bl f c cs)
  then show ?case by (auto split: option.splits if_splits)
qed auto

lemma expand_Cons:
  "expand_symbol bt bl f [x] = Some us \<Longrightarrow> expand_symbol bt bl f ys = Some vs \<Longrightarrow> expand_symbol bt bl f (x # ys) = Some (us @ vs)"
  using expand_append [of bt bl f "[x]" us ys vs] by simp

text \<open>The expansion only looks at codes that its argument leads to.\<close>

lemma expand_cong:
  assumes "\<forall>x. bl x \<noteq> 0 \<longrightarrow> bt' x = bt x \<and> bl' x = bl x \<and> (bl x = 1 \<and> fst (bt x) = x \<or> bl x = 2 \<and> bl (fst (bt x)) \<noteq> 0 \<and> bl (snd (bt x)) \<noteq> 0)"
    "\<forall>x \<in> set xs. bl x \<noteq> 0"
  shows "expand_symbol bt' bl' f xs = expand_symbol bt bl f xs"
  using assms
proof (induction bt bl f xs rule: expand_symbol.induct)
  case (3 bt bl f c cs)
  have c: "bt' c = bt c" "bl' c = bl c" "bl c = 1 \<and> fst (bt c) = c \<or> bl c = 2 \<and> bl (fst (bt c)) \<noteq> 0 \<and> bl (snd (bt c)) \<noteq> 0"
    using 3(3,4) by auto
  have rest: "expand_symbol bt' bl' (Suc f) cs = expand_symbol bt bl (Suc f) cs"
    if "\<exists>r. (if fst (bt c) = c \<and> bl c = 1 then Some [c] else expand_symbol bt bl f (take (bl c) [fst (bt c), snd (bt c)])) = Some r"
    using 3(2) that 3(3,4) by auto
  show ?case
  proof (cases "fst (bt c) = c \<and> bl c = 1")
    case True
    then show ?thesis using rest c by simp
  next
    case False
    then have "bl c = 2" "\<forall>x \<in> set (take (bl c) [fst (bt c), snd (bt c)]). bl x \<noteq> 0" using c(3) by auto
    then have "expand_symbol bt' bl' f (take (bl c) [fst (bt c), snd (bt c)]) = expand_symbol bt bl f (take (bl c) [fst (bt c), snd (bt c)])"
      using 3(1) [OF False 3(3)] by blast
    then show ?thesis using rest c False by (auto split: option.splits)
  qed
qed auto

text \<open>
  The invariant of the optimisation: \<open>i\<close> slots are left to fill, \<open>ns\<close> are the original names, \<open>D\<close> decodes
  the codes in use. A code stands for itself or for two codes in use, and for a part of a name.
\<close>

definition part_of :: "'a list list \<Rightarrow> 'a list \<Rightarrow> bool" where
  "part_of ns w \<longleftrightarrow> (\<exists>n \<in> set ns. \<exists>u v. n = u @ w @ v)"

definition entry_codes :: "kst \<Rightarrow> (u8 \<Rightarrow> u8 list) \<Rightarrow> sym_entry \<Rightarrow> u8 list \<Rightarrow> bool" where
  "entry_codes s D e n \<longleftrightarrow> padded (se_sym e) (se_len e) \<and> concat (map D (codes_of e)) = n \<and> (\<forall>c \<in> set (codes_of e). used s c) \<and>
     se_len e \<le> length n"

definition code_ok :: "u8 list list \<Rightarrow> (u8 \<Rightarrow> u8 list) \<Rightarrow> kst \<Rightarrow> u8 \<Rightarrow> bool" where
  "code_ok ns D s c \<longleftrightarrow> part_of ns (D c) \<and>
     (best_table_len s c = 1 \<and> fst (best_table s c) = c \<and> D c = [c] \<or>
      best_table_len s c = 2 \<and> used s (fst (best_table s c)) \<and> used s (snd (best_table s c)) \<and>
      D c = D (fst (best_table s c)) @ D (snd (best_table s c)))"

definition coded :: "nat \<Rightarrow> u8 list list \<Rightarrow> (u8 \<Rightarrow> u8 list) \<Rightarrow> kst \<Rightarrow> bool" where
  "coded i ns D s \<longleftrightarrow> list_all2 (entry_codes s D) (table s) ns \<and> profit_ok s \<and> (0 < i \<longrightarrow> \<not> used s 0) \<and>
     (\<forall>c. used s c \<longrightarrow> code_ok ns D s c \<and> (\<forall>f \<ge> 257 - i. expand_symbol (best_table s) (best_table_len s) f [c] = Some (D c)))"

lemma coded_less: "coded (Suc i) ns D s \<Longrightarrow> coded i ns D s"
  by (auto simp: coded_def)

lemma compress_list_ok:
  assumes "list_all2 (entry_codes s D) es ns" "b \<noteq> 0" "D' c = D' a @ D' b" "\<forall>x. used s x \<longrightarrow> D' x = D x \<and> used s' x" "used s' c"
    "compress_list (a, b) c es tp = (es', tp')"
  shows "list_all2 (entry_codes s' D') es' ns"
  using assms(1,6)
proof (induction es arbitrary: tp es' ns)
  case (Cons e es)
  obtain n ns1 where ns: "ns = n # ns1" "entry_codes s D e n" "list_all2 (entry_codes s D) es ns1"
    using Cons.prems(1) by (auto simp: list_all2_Cons1)
  obtain e1 tp1 es1 where 1: "compress_entry (a, b) c (e, tp) = (e1, tp1)" "compress_list (a, b) c es tp1 = (es1, tp')" "es' = e1 # es1"
    using Cons.prems(2) by (auto simp: Let_def split: prod.splits)
  have e: "padded (se_sym e) (se_len e)" "concat (map D (codes_of e)) = n" "\<forall>c \<in> set (codes_of e). used s c" "se_len e \<le> length n"
    using ns(2) by (simp_all add: entry_codes_def)
  have r: "padded (se_sym e1) (se_len e1)" "replaced a b c (codes_of e) (codes_of e1)" using compress_entry_ok [OF e(1) assms(2) 1(1)] by blast+
  have "concat (map D' (codes_of e1)) = concat (map D' (codes_of e))" by (rule replaced_decode [OF r(2) assms(3)])
  also have "map D' (codes_of e) = map D (codes_of e)" using e(3) assms(4) by auto
  finally have d: "concat (map D' (codes_of e1)) = n" using e(2) by simp
  have "length (codes_of e1) \<le> length (codes_of e)" by (rule replaced_length [OF r(2)])
  then have "se_len e1 \<le> length n" using e(1,4) r(1) by (simp add: codes_of_def padded_def)
  moreover have "\<forall>x \<in> set (codes_of e1). used s' x" using replaced_set [OF r(2)] e(3) assms(4,5) by blast
  ultimately have "entry_codes s' D' e1 n" using r(1) d by (simp add: entry_codes_def)
  then show ?case using Cons.IH [OF ns(3) 1(2)] ns(1) 1(3) by simp
qed simp

lemma coded_step:
  assumes "coded (Suc i) ns D s" "i < 256" "\<not> used s (of_nat i)" "token_profit s t \<noteq> 0"
  defines "a \<equiv> of_nat (t mod 256)" and "b \<equiv> of_nat (t div 256 mod 256)" and "c \<equiv> of_nat i"
  defines "s1 \<equiv> s\<lparr>best_table_len := (best_table_len s)(c := 2), best_table := (best_table s)(c := (a, b))\<rparr>"
  shows "coded i ns (D(c := D a @ D b)) (compress_symbols (a, b) c s1)"
proof -
  let ?D = "D(c := D a @ D b)" let ?s = "compress_symbols (a, b) c s1"
  have c: "list_all2 (entry_codes s D) (table s) ns" "profit_ok s" "\<not> used s 0" "\<And>x. used s x \<Longrightarrow> code_ok ns D s x"
    "\<And>x f. used s x \<Longrightarrow> 257 - Suc i \<le> f \<Longrightarrow> expand_symbol (best_table s) (best_table_len s) f [x] = Some (D x)"
    using assms(1) by (auto simp: coded_def)
  have nu: "\<not> used s c" using assms(3) by (simp add: c_def)
  have en: "\<exists>n \<in> set ns. entry_codes s D e n" if "e \<in> set (table s)" for e
    using c(1) that unfolding list_all2_conv_all_nth by (metis in_set_conv_nth)
  obtain e xs ys where e: "e \<in> set (table s)" "codes_of e = xs @ a # b # ys"
    using profit_pair [OF c(2) assms(4)] en unfolding a_def b_def entry_codes_def padded_def by metis
  obtain n where n: "n \<in> set ns" "concat (map D (codes_of e)) = n" "\<forall>x \<in> set (codes_of e). used s x"
    using en [OF e(1)] by (auto simp: entry_codes_def)
  have ab: "used s a" "used s b" "a \<noteq> c" "b \<noteq> c" "b \<noteq> 0" using n(3) e(2) nu c(3) by auto
  have part: "part_of ns (D a @ D b)" using n(1,2) e(2) by (auto simp: part_of_def)
  obtain es' tp' where r: "compress_list (a, b) c (table s) (token_profit s) = (es', tp')" by fastforce
  have s': "table ?s = es'" "token_profit ?s = tp'" "best_table ?s = (best_table s)(c := (a, b))" "best_table_len ?s = (best_table_len s)(c := 2)"
    using r by (simp_all add: compress_symbols_def s1_def)
  have u: "\<forall>x. used s x \<longrightarrow> ?D x = D x \<and> used ?s x" using nu by (simp add: s')
  have t: "list_all2 (entry_codes ?s ?D) (table ?s) ns"
    unfolding s'(1) by (rule compress_list_ok [OF c(1) ab(5) _ u _ r]) (use ab in \<open>simp_all add: s'\<close>)
  have p: "profit_ok ?s" using c(2) compress_list_count [OF r] by (simp add: profit_ok_def s')
  have z: "0 < i \<Longrightarrow> \<not> used ?s 0"
  proof -
    assume "0 < i"
    then have "unat c \<noteq> 0" using assms(2) by (simp add: c_def unat_of_nat)
    then show "\<not> used ?s 0" using c(3) by (auto simp: s')
  qed
  have x: "code_ok ns ?D ?s x" if ux: "used ?s x" for x
  proof (cases "x = c")
    case True
    then show ?thesis using part ab by (simp add: code_ok_def s')
  next
    case False
    then have "used s x" using ux by (simp add: s')
    then show ?thesis using c(4) [of x] False nu by (auto simp: code_ok_def s')
  qed
  have old: "\<forall>x. used s x \<longrightarrow> best_table ?s x = best_table s x \<and> best_table_len ?s x = best_table_len s x \<and>
      (best_table_len s x = 1 \<and> fst (best_table s x) = x \<or> best_table_len s x = 2 \<and> used s (fst (best_table s x)) \<and> used s (snd (best_table s x)))"
    using nu c(4) by (auto simp: s' code_ok_def)
  have oldx: "expand_symbol (best_table ?s) (best_table_len ?s) f [x] = Some (D x)" if "used s x" "257 - Suc i \<le> f" for x f
    using expand_cong [OF old, of "[x]" f] c(5) [OF that] that(1) by simp
  have "expand_symbol (best_table ?s) (best_table_len ?s) f [x] = Some (?D x)" if ux: "used ?s x" and f: "257 - i \<le> f" for x f
  proof (cases "x = c")
    case True
    obtain g where g: "f = Suc g" "257 - Suc i \<le> g" using f assms(2) by (cases f) auto
    have "expand_symbol (best_table ?s) (best_table_len ?s) g [a, b] = Some (D a @ D b)"
      by (rule expand_Cons [OF oldx oldx]) (use ab g in auto)
    then show ?thesis using True g(1) by (simp add: s' numeral_2_eq_2)
  next
    case False
    then have "used s x" using ux by (simp add: s')
    then show ?thesis using oldx [of x f] f False by simp
  qed
  then show ?thesis unfolding coded_def using t p z x by blast
qed

lemma optimize_ok: "coded i ns D s \<Longrightarrow> i \<le> 256 \<Longrightarrow> \<exists>D'. coded 0 ns D' (optimize_loop i s)"
proof (induction i arbitrary: D s)
  case (Suc i)
  have c0: "coded 0 ns D s"
    using Suc.prems(1) by (auto simp: coded_def)
  show ?case
  proof (cases "used s (of_nat i)")
    case True
    then show ?thesis using Suc.IH [OF coded_less [OF Suc.prems(1)]] Suc.prems(2) by simp
  next
    case False
    let ?t = "find_best_token (token_profit s)"
    show ?thesis
    proof (cases "token_profit s ?t = 0")
      case True
      then show ?thesis using c0 False by (auto simp: Let_def)
    next
      case nz: False
      show ?thesis using Suc.IH [OF coded_step [OF Suc.prems(1) _ False nz]] Suc.prems(2) False nz by (simp add: Let_def)
    qed
  qed
qed auto

lemma compress_list_addr: "compress_list tok c es tp = (es', tp') \<Longrightarrow> map se_addr es' = map se_addr es"
  by (induction es arbitrary: tp es') (auto simp: compress_entry_def Let_def split: prod.splits option.splits)

lemma optimize_frame: "map se_addr (table (optimize_loop i s)) = map se_addr (table s) \<and> k_text (optimize_loop i s) = k_text s"
proof (induction i arbitrary: s)
  case (Suc i)
  then show ?case by (auto simp: Let_def compress_symbols_def dest: compress_list_addr split: prod.splits)
qed simp

end
