(* ===== verification/Ksyms_tables.thy ===== *)
theory Ksyms_tables
  imports Ksyms_codes
begin

text \<open>
  The tables the generator writes and the kernel's walk through them: offsets of symbol records,
  offsets of tokens, the binary search; and the end-to-end statement that the kernel prints the
  symbol the generator read.
\<close>

section \<open>Symbol records\<close>

definition rec_off :: "sym_entry list \<Rightarrow> nat \<Rightarrow> nat" where
  "rec_off es k = length (concat (map sym_record (take k es)))"

lemma rec_off_Suc: "k < length es \<Longrightarrow> rec_off es (Suc k) = rec_off es k + length (sym_record (es ! k))"
  by (simp add: rec_off_def take_Suc_conv_app_nth)

lemma drop_records: "k < length es \<Longrightarrow> drop (rec_off es k) (concat (map sym_record es)) = sym_record (es ! k) @ concat (map sym_record (drop (Suc k) es))"
proof -
  assume "k < length es"
  then have "es = take k es @ es ! k # drop (Suc k) es" by (rule id_take_nth_drop)
  then have "concat (map sym_record es) = concat (map sym_record (take k es)) @ sym_record (es ! k) @ concat (map sym_record (drop (Suc k) es))"
    by (metis append_assoc concat.simps(2) concat_append list.simps(9) map_append)
  then show ?thesis by (simp add: rec_off_def)
qed

lemma write_names_fst: "fst (write_names i off es) = concat (map sym_record es)"
  by (induction i off es rule: write_names.induct) (auto simp: Let_def split: prod.splits)

lemma div_256_Suc: "(i + 256) div 256 = Suc (i div (256 :: nat))" "(i + 255) div 256 = (if i mod 256 = 0 then i div 256 else Suc (i div 256))"
proof -
  show "(i + 256) div 256 = Suc (i div (256 :: nat))" by simp
  define q r where "q = i div 256" and "r = i mod 256"
  have i: "i = r + q * 256" "r < 256" by (simp_all add: q_def r_def)
  have "(r + 255) div 256 = (if r = 0 then 0 else 1)" using i(2) by (auto intro!: div_nat_eqI)
  then show "(i + 255) div 256 = (if i mod 256 = 0 then i div 256 else Suc (i div 256))"
    unfolding q_def [symmetric] r_def [symmetric] unfolding i(1) using div_mult_self1 [of 256 "r + 255" q] by (simp add: ac_simps)
qed

lemma write_names_markers:
  assumes "k < length es" "(i + k) mod 256 = 0" "\<forall>e \<in> set es. se_len e \<le> length (se_sym e)"
  shows "(i + k) div 256 - (i + 255) div 256 < length (snd (write_names i off es)) \<and>
    snd (write_names i off es) ! ((i + k) div 256 - (i + 255) div 256) = off + rec_off es k"
  using assms
proof (induction es arbitrary: i off k)
  case (Cons e es)
  obtain ns ms where w: "write_names (i + 1) (off + se_len e + 1) es = (ns, ms)" by fastforce
  have r: "write_names i off (e # es) = (sym_record e @ ns, if i mod 256 = 0 then off # ms else ms)" using w by simp
  show ?case
  proof (cases k)
    case 0
    then show ?thesis using Cons.prems(2) by (simp add: r rec_off_def div_256_Suc del: write_names.simps)
  next
    case (Suc k')
    have ih: "(i + 1 + k') div 256 - (i + 1 + 255) div 256 < length ms" "ms ! ((i + 1 + k') div 256 - (i + 1 + 255) div 256) = off + se_len e + 1 + rec_off es k'"
      using Cons.IH [of k' "i + 1" "off + se_len e + 1"] Cons.prems Suc w by auto
    have o: "rec_off (e # es) k = se_len e + 1 + rec_off es k'" using Cons.prems(3) by (simp add: rec_off_def Suc sym_record_def)
    have "Suc (i div 256) \<le> (i + k) div 256" if "i mod 256 = 0" 
    proof -
      have "k mod 256 = 0" using that Cons.prems(2) by (metis add_0 mod_add_left_eq)
      then have "256 \<le> k" using Suc by (metis mod_less nat.distinct(1) not_less)
      then have "(i + 256) div 256 \<le> (i + k) div 256" by (intro div_le_mono) simp
      then show ?thesis by (simp only: div_256_Suc)
    qed
    moreover have ik: "(i + 1 + 255) div 256 = Suc (i div 256)" "i + 1 + k' = i + k" using Suc by simp_all
    ultimately show ?thesis using ih [unfolded ik] unfolding r o by (cases "i mod 256 = 0") (auto simp: div_256_Suc(2))
  qed
qed simp

lemma get_symbol_offset_ok:
  assumes "k < length es" "\<forall>e \<in> set es. se_len e < 256 \<and> se_len e \<le> length (se_sym e)"
    "kallsyms_names ks = concat (map sym_record es)" "kallsyms_markers ks = snd (write_names 0 0 es)"
  shows "get_symbol_offset ks k = Inr (rec_off es k)"
proof -
  let ?m = "k div 256 * 256"
  have m: "?m \<le> k" "?m div 256 = k div 256" "?m mod 256 = 0" by simp_all
  have mk: "rd (kallsyms_markers ks) (k div 256) = Inr (rec_off es ?m)"
    using write_names_markers [of ?m es 0 0] m assms(1,2,4) by (simp add: rd_def)
  have "skip_names (kallsyms_names ks) r (rec_off es j) = Inr (rec_off es (j + r))" if "j + r \<le> k" for r j
    using that
  proof (induction r arbitrary: j)
    case (Suc r)
    have j: "j < length es" using Suc.prems assms(1) by simp
    have d: "drop (rec_off es j) (kallsyms_names ks) = of_nat (se_len (es ! j)) # drop (Suc (rec_off es j)) (kallsyms_names ks)"
      using drop_records [OF j] unfolding assms(3) by (simp add: sym_record_def drop_Suc drop_tl)
    then have l: "rec_off es j < length (kallsyms_names ks)" by (metis drop_all list.distinct(1) not_less)
    then have "kallsyms_names ks ! rec_off es j = of_nat (se_len (es ! j))" using d Cons_nth_drop_Suc [OF l] by simp
    moreover have "unat (of_nat (se_len (es ! j)) :: u8) = se_len (es ! j)" using assms(2) j by (simp add: unat_of_nat)
    moreover have "rec_off es (Suc j) = rec_off es j + se_len (es ! j) + 1" using rec_off_Suc [OF j] assms(2) nth_mem [OF j] by (simp add: sym_record_def)
    ultimately show ?case using Suc.IH [of "Suc j"] Suc.prems l by (simp add: rd_def)
  qed simp
  from this [of ?m "k mod 256"] show ?thesis unfolding get_symbol_offset_def mk by simp
qed

section \<open>Tokens\<close>

definition tok_off :: "(u8 \<Rightarrow> u8 list) \<Rightarrow> u8 list \<Rightarrow> nat \<Rightarrow> nat" where
  "tok_off T cs k = length (concat (map (\<lambda>c. T c @ [0]) (take k cs)))"

lemma write_tokens_ok:
  assumes "\<forall>c. expand_symbol (best_table s) (best_table_len s) expand_fuel (take (best_table_len s c) [fst (best_table s c), snd (best_table s c)]) = Some (T c)"
    "\<forall>c. length (T c) < KSYM_NAME_LEN \<and> 0 \<notin> set (T c) \<and> asciz (T c) = T c @ [0]"
  shows "write_tokens asciz s off cs =
    Some (Inr (concat (map (\<lambda>c. T c @ [0]) cs), map (\<lambda>k. of_nat (off + tok_off T cs k)) [0..<length cs]))"
proof (induction cs arbitrary: off)
  case (Cons c cs)
  have "cstr (T c @ [0]) = T c" using assms(2) by (auto simp: cstr_def takeWhile_append takeWhile_eq_all_conv)
  moreover have "map (\<lambda>k. of_nat (off + tok_off T (c # cs) k)) [0..<length (c # cs)] =
      (of_nat off :: u16) # map (\<lambda>k. of_nat (off + length (T c) + 1 + tok_off T cs k)) [0..<length cs]"
    by (simp add: upt_conv_Cons map_Suc_upt [symmetric] comp_def tok_off_def add.assoc del: upt_Suc)
  moreover have "\<not> KSYM_NAME_LEN < length (T c) + 1" "asciz (T c) = T c @ [0]" using assms(2) by (simp_all add: not_less Suc_le_eq)
  ultimately show ?case using assms(1) Cons [of "off + length (T c) + 1"] by (simp del: of_nat_add upt_Suc)
qed simp

lemma tok_off_le: "\<forall>c. length (T c) < K \<Longrightarrow> tok_off T cs k \<le> k * K"
proof (induction k)
  case (Suc k)
  show ?case
  proof (cases "k < length cs")
    case True
    then have "tok_off T cs (Suc k) = tok_off T cs k + length (T (cs ! k)) + 1" by (simp add: tok_off_def take_Suc_conv_app_nth)
    moreover have "length (T (cs ! k)) + 1 \<le> K" using Suc.prems by (simp add: Suc_le_eq)
    ultimately show ?thesis using Suc.IH [OF Suc.prems] by simp
  next
    case False
    then have "tok_off T cs (Suc k) = tok_off T cs k" by (simp add: tok_off_def)
    then show ?thesis using Suc by simp
  qed
qed (simp add: tok_off_def)

lemma nth_codes: "codes ! unat c = c" "unat c < length codes" "length codes = 256"
proof -
  have u: "unat c < 256" for c :: u8 using unsigned_less [of c] by simp
  then show "codes ! unat c = c" by (simp add: codes_def del: upt_conv_Cons upt_Suc)
  show "unat c < length codes" "length codes = 256" using u by (simp_all add: codes_def)
qed

lemma drop_token:
  "\<exists>r. drop (tok_off T codes (unat c)) (concat (map (\<lambda>c. T c @ [0]) codes)) = T c @ 0 # r"
proof -
  have "codes = take (unat c) codes @ c # drop (Suc (unat c)) codes" using id_take_nth_drop [OF nth_codes(2)] nth_codes(1) by simp
  then have "concat (map (\<lambda>c. T c @ [0]) codes) =
      concat (map (\<lambda>c. T c @ [0]) (take (unat c) codes)) @ (T c @ [0]) @ concat (map (\<lambda>c. T c @ [0]) (drop (Suc (unat c)) codes))"
    by (metis (no_types, lifting) concat.simps(2) concat_append list.simps(9) map_append)
  then show ?thesis by (simp add: tok_off_def)
qed

lemma copy_token_ok: "0 \<notin> set w \<Longrightarrow> copy_token (w @ 0 # r) sk out = Inr (sk \<or> w \<noteq> [], out @ (if sk then w else tl w))"
  by (induction w arbitrary: sk out) auto

lemma expand_codes_ok:
  assumes "kallsyms_token_table ks = concat (map (\<lambda>c. T c @ [0]) codes)" "kallsyms_token_index ks = map (\<lambda>k. of_nat (tok_off T codes k)) [0..<256]"
    "\<forall>c. length (T c) < KSYM_NAME_LEN \<and> 0 \<notin> set (T c)" "drop data (kallsyms_names ks) = xs @ rest"
  shows "expand_codes ks data (length xs) sk out = Inr (out @ (if sk then concat (map T xs) else tl (concat (map T xs))))"
  using assms(4)
proof (induction xs arbitrary: data sk out)
  case (Cons c xs)
  have l: "data < length (kallsyms_names ks)" using Cons.prems by (metis append_Cons drop_all list.distinct(1) not_less)
  have n: "kallsyms_names ks ! data = c" "drop (data + 1) (kallsyms_names ks) = xs @ rest"
    using Cons.prems Cons_nth_drop_Suc [OF l] by auto
  have u: "unat c < 256" using nth_codes by simp
  have "tok_off T codes (unat c) \<le> unat c * KSYM_NAME_LEN" by (rule tok_off_le) (use assms(3) in blast)
  then have o: "unat (of_nat (tok_off T codes (unat c)) :: u16) = tok_off T codes (unat c)"
    using u by (simp add: unat_of_nat KSYM_NAME_LEN_def)
  obtain r where r: "drop (tok_off T codes (unat c)) (kallsyms_token_table ks) = T c @ 0 # r"
    using drop_token [of T c] assms(1) by auto
  have cp: "copy_token (T c @ 0 # r) sk out = Inr (sk \<or> T c \<noteq> [], out @ (if sk then T c else tl (T c)))"
    by (rule copy_token_ok) (use assms(3) in simp)
  show ?case using Cons.IH [OF n(2)] by (simp add: rd_def l n(1) assms(2) u o r cp)
qed simp

section \<open>The binary search\<close>

lemma sym_bsearch_ok:
  assumes "sorted as" "low < high" "high \<le> length as" "as ! low \<le> addr" "high < length as \<longrightarrow> addr < as ! high"
  shows "\<exists>k. sym_bsearch as addr low high = Inr k \<and> k < length as \<and> as ! k \<le> addr \<and> (\<forall>j < length as. k < j \<longrightarrow> addr < as ! j)"
  using assms
proof (induction as addr low high rule: sym_bsearch.induct)
  case (1 as addr low high)
  show ?case
  proof (cases "high - low > 1")
    case False
    then have h: "high = Suc low" using 1(4) by simp
    have "addr < as ! j" if "j < length as" "low < j" for j
    proof -
      have "as ! high \<le> as ! j" using sorted_nth_mono [OF 1(3), of high j] that h by simp
      then show ?thesis using 1(7) that h by auto
    qed
    then show ?thesis using False 1(4-6) by (simp add: sym_bsearch.simps)
  next
    case True
    let ?m = "(low + high) div 2"
    have m: "low < ?m" "?m < high" using True by linarith+
    then have r: "rd as ?m = Inr (as ! ?m)" using 1(5) by (simp add: rd_def)
    show ?thesis
    proof (cases "as ! ?m \<le> addr")
      case le: True
      then show ?thesis using 1(1) [OF True refl r le 1(3) _ 1(5) _ 1(7)] m True r
        by (simp add: sym_bsearch.simps [of as addr low high] Let_def)
    next
      case gt: False
      then show ?thesis using 1(2) [OF True refl r gt 1(3) _ _ 1(6)] m True r 1(5)
        by (simp add: sym_bsearch.simps [of as addr low high] Let_def)
    qed
  qed
qed

section \<open>The symbols read\<close>

text \<open>A character that the assembler takes as it is; an entry as it was read.\<close>

definition plain :: "u8 \<Rightarrow> bool" where "plain x \<longleftrightarrow> x \<noteq> 0 \<and> x \<noteq> 34 \<and> x \<noteq> 92"

definition read_entry :: "sym_entry \<Rightarrow> bool" where
  "read_entry e \<longleftrightarrow> (\<exists>n. se_sym e = n @ [0] \<and> se_len e = length n \<and> n \<noteq> [] \<and> length n < KSYM_NAME_LEN \<and> (\<forall>x \<in> set n. plain x))"

text \<open>Lines whose names fit the kernel's buffer and need no quoting.\<close>

definition line_ok :: "scan \<Rightarrow> bool" where
  "line_ok l = (case l of NoScan \<Rightarrow> True | Scan addr stype str \<Rightarrow> length str + 2 \<le> KSYM_NAME_LEN \<and> (\<forall>x \<in> set (stype # str). plain x))"

lemma read_symbol_entry:
  assumes "read_symbol opt l s = (r, s')" "line_ok l"
  shows "(\<forall>e. r = Some e \<longrightarrow> read_entry (e\<lparr>se_start_pos := k\<rparr>)) \<and> table s' = table s \<and> token_profit s' = token_profit s"
proof (cases l)
  case (Scan addr stype str)
  define sy where "sy = (if symbol_prefix_char opt \<noteq> 0 \<and> ch str 0 = symbol_prefix_char opt then tl str else str)"
  obtain rr ranges where c: "check_symbol_range sy addr (text_ranges s) = (rr, ranges)" by fastforce
  have ne: "read_entry \<lparr>se_addr = addr, se_len = length str + 1, se_start_pos = k, se_sym = stype # str @ [0]\<rparr>"
    unfolding read_entry_def using assms(2) by (intro exI [of _ "stype # str"]) (auto simp: Scan line_ok_def)
  show ?thesis using assms(1) c ne unfolding read_symbol_def Scan scan.case sy_def [symmetric] Let_def
    by (auto split: if_splits)
qed (use assms in \<open>auto simp: read_symbol_def\<close>)

lemma read_map_entries:
  "\<forall>l \<in> set ls. line_ok l \<Longrightarrow> \<forall>e \<in> set (table s). read_entry e \<Longrightarrow>
    (\<forall>e \<in> set (table (read_map opt ls s)). read_entry e) \<and> token_profit (read_map opt ls s) = token_profit s"
proof (induction ls arbitrary: s)
  case (Cons l ls)
  obtain r s1 where r: "read_symbol opt l s = (r, s1)" by fastforce
  have f: "\<And>e. r = Some e \<Longrightarrow> read_entry (e\<lparr>se_start_pos := length (table s1)\<rparr>)" "table s1 = table s" "token_profit s1 = token_profit s"
    using read_symbol_entry [OF r, of "length (table s1)"] Cons.prems(1) by auto
  show ?case
  proof (cases r)
    case None
    then show ?thesis using Cons.IH [of s1] Cons.prems r f by simp
  next
    case (Some e)
    then show ?thesis using Cons.IH [of "s1\<lparr>table := table s1 @ [e\<lparr>se_start_pos := length (table s1)\<rparr>]\<rparr>"] Cons.prems r f by auto
  qed
qed simp

lemma set_insert_by: "set (insert_by cmp x ys) = insert x (set ys)"
  by (induction ys) auto

lemma set_qsort_by: "set (qsort_by cmp xs) = set xs"
  unfolding qsort_by_def by (induction xs) (auto simp: set_insert_by)

lemma compare_symbols_addr:
  "compare_symbols x y \<le> 0 \<Longrightarrow> se_addr x \<le> se_addr y" "\<not> compare_symbols x y \<le> 0 \<Longrightarrow> se_addr y \<le> se_addr x"
  by (auto simp: compare_symbols_def Let_def not_less split: if_splits)

lemma sorted_insert_by: "sorted (map se_addr ys) \<Longrightarrow> sorted (map se_addr (insert_by compare_symbols x ys))"
proof (induction ys)
  case (Cons y ys)
  then show ?case using compare_symbols_addr [of x y] by (auto simp: set_insert_by)
qed simp

lemma sorted_qsort: "sorted (map se_addr (qsort_by compare_symbols xs))"
  unfolding qsort_by_def by (induction xs) (simp_all add: sorted_insert_by)

lemma read_sorted_ok:
  assumes "\<forall>l \<in> set ls. line_ok l"
  shows "\<forall>e \<in> set (table (read_sorted opt ls)). read_entry e" "sorted (map se_addr (table (read_sorted opt ls)))"
    "token_profit (read_sorted opt ls) = (\<lambda>_. 0)"
proof -
  define s where "s = read_map opt ls kst_init"
  define s' where "s' = (if absolute_percpu opt then make_percpus_absolute s else s)"
  have r: "read_sorted opt ls = sort_symbols s'" by (simp add: read_sorted_def s_def s'_def Let_def)
  have s: "\<forall>e \<in> set (table s). read_entry e" "token_profit s = (\<lambda>_. 0)"
    using read_map_entries [OF assms, of kst_init opt] by (auto simp: s_def kst_init_def)
  have "read_entry (e\<lparr>se_sym := (se_sym e)[0 := chr ''A'']\<rparr>)" if e: "read_entry e" for e
  proof -
    obtain n where n: "se_sym e = n @ [0]" "se_len e = length n" "n \<noteq> []" "length n < KSYM_NAME_LEN" "\<forall>x \<in> set n. plain x"
      using e by (auto simp: read_entry_def)
    have "plain (chr ''A'')" by (simp add: plain_def chr_def bytes_def)
    then have "\<forall>x \<in> set (n[0 := chr ''A'']). plain x" using n(5) set_update_subset_insert [of n 0] by fastforce
    then show ?thesis unfolding read_entry_def using n by (intro exI [of _ "n[0 := chr ''A'']"]) (simp add: list_update_append)
  qed
  then have "\<forall>e \<in> set (table s'). read_entry e" using s(1) by (auto simp: s'_def make_percpus_absolute_def)
  then show "\<forall>e \<in> set (table (read_sorted opt ls)). read_entry e" by (simp add: r sort_symbols_def set_qsort_by)
  show "sorted (map se_addr (table (read_sorted opt ls)))" by (simp add: r sort_symbols_def sorted_qsort)
  show "token_profit (read_sorted opt ls) = (\<lambda>_. 0)" using s(2) by (simp add: r sort_symbols_def s'_def make_percpus_absolute_def)
qed

section \<open>The first codes\<close>

lemma fold_mark_real:
  "table (fold mark_real cs s) = table s \<and> token_profit (fold mark_real cs s) = token_profit s \<and> k_text (fold mark_real cs s) = k_text s \<and>
   best_table_len (fold mark_real cs s) c = (if c \<in> set cs then 1 else best_table_len s c) \<and>
   fst (best_table (fold mark_real cs s) c) = (if c \<in> set cs then c else fst (best_table s c))"
  by (induction cs arbitrary: s) (auto simp: mark_real_def)

lemma fold_mark_entries:
  "table (fold (\<lambda>e s. fold mark_real (f e) s) es s) = table s \<and> token_profit (fold (\<lambda>e s. fold mark_real (f e) s) es s) = token_profit s \<and>
   k_text (fold (\<lambda>e s. fold mark_real (f e) s) es s) = k_text s \<and>
   best_table_len (fold (\<lambda>e s. fold mark_real (f e) s) es s) c = (if \<exists>e \<in> set es. c \<in> set (f e) then 1 else best_table_len s c) \<and>
   fst (best_table (fold (\<lambda>e s. fold mark_real (f e) s) es s) c) = (if \<exists>e \<in> set es. c \<in> set (f e) then c else fst (best_table s c))"
  by (induction es arbitrary: s) (auto simp: fold_mark_real)

lemma codes_of_read: "read_entry e \<Longrightarrow> codes_of e @ [0] = se_sym e \<and> padded (se_sym e) (se_len e) \<and> length (codes_of e) = se_len e \<and>
    codes_of e \<noteq> [] \<and> se_len e < KSYM_NAME_LEN \<and> (\<forall>x \<in> set (codes_of e). plain x)"
  by (auto simp: read_entry_def codes_of_def padded_def nth_append)

lemma coded_init:
  fixes opt :: kopts
  assumes "\<forall>e \<in> set (table s). read_entry e" "token_profit s = (\<lambda>_. 0)"
  defines "es \<equiv> filter (symbol_valid opt s) (table s)"
  defines "s0 \<equiv> insert_real_symbols_in_table (build_initial_tok_table opt s)"
  shows "table s0 = es" "k_text s0 = k_text s" "coded 256 (map codes_of es) (\<lambda>c. [c]) s0"
proof -
  define s1 where "s1 = build_initial_tok_table opt s"
  have s1: "table s1 = es" "k_text s1 = k_text s" by (simp_all add: s1_def build_initial_tok_table_def es_def Let_def)
  have tp: "token_profit s1 t = (\<Sum>e\<leftarrow>es. entry_pairs e t)" for t
    using assms(2) by (simp add: s1_def build_initial_tok_table_def es_def Let_def learn_all)
  have s0: "s0 = fold (\<lambda>e s. fold mark_real (codes_of e) s) es (s1\<lparr>best_table := (\<lambda>_. (0, 0)), best_table_len := (\<lambda>_. 0)\<rparr>)"
    unfolding s0_def s1_def [symmetric] insert_real_symbols_in_table_def s1(1) codes_of_def ..
  note F = fold_mark_entries [of codes_of es "s1\<lparr>best_table := (\<lambda>_. (0, 0)), best_table_len := (\<lambda>_. 0)\<rparr>", folded s0]
  have f: "table s0 = es" "token_profit s0 = token_profit s1" "k_text s0 = k_text s"
    "\<And>c. best_table_len s0 c = (if \<exists>e \<in> set es. c \<in> set (codes_of e) then 1 else 0)"
    "\<And>c. \<exists>e \<in> set es. c \<in> set (codes_of e) \<Longrightarrow> fst (best_table s0 c) = c"
    using F s1 by simp_all
  show "table s0 = es" "k_text s0 = k_text s" using f by simp_all
  have re: "\<And>e. e \<in> set es \<Longrightarrow> read_entry e" using assms(1) by (simp add: es_def)
  have "list_all2 (entry_codes s0 (\<lambda>c. [c])) es (map codes_of es)"
    using codes_of_read [OF re] f(4) by (auto simp: list_all2_conv_all_nth entry_codes_def)
  moreover have "\<not> used s0 0" using codes_of_read [OF re] f(4) by (auto simp: plain_def)
  moreover have "code_ok (map codes_of es) (\<lambda>c. [c]) s0 c \<and> (\<forall>g \<ge> 257 - 256. expand_symbol (best_table s0) (best_table_len s0) g [c] = Some [c])" if u: "used s0 c" for c
  proof -
    have c: "\<exists>e \<in> set es. c \<in> set (codes_of e)" using u f(4) by (auto split: if_splits)
    then have "part_of (map codes_of es) [c]" by (auto simp: part_of_def in_set_conv_decomp)
    moreover have "expand_symbol (best_table s0) (best_table_len s0) g [c] = Some [c]" if "1 \<le> g" for g
      using that f(4,5) c by (cases g) auto
    ultimately show ?thesis using f(4,5) c by (auto simp: code_ok_def)
  qed
  ultimately show "coded 256 (map codes_of es) (\<lambda>c. [c]) s0" using tp f(1,2) by (auto simp: coded_def profit_ok_def)
qed

lemma sym_address_same: "sym_address text text e = se_addr e"
  by (simp add: sym_address_def)

lemma put_0_append: "length w \<le> length d \<Longrightarrow> put 0 w d = w @ drop (length w) d"
  by (simp add: put_def)

section \<open>What the tables describe\<close>

text \<open>Tables for the symbols \<open>syms\<close>, whose compressed records are \<open>es\<close>, with the tokens \<open>T\<close>.\<close>

definition describes :: "ksyms \<Rightarrow> sym_entry list \<Rightarrow> sym_entry list \<Rightarrow> (u8 \<Rightarrow> u8 list) \<Rightarrow> bool" where
  "describes ks syms es T \<longleftrightarrow>
     kallsyms_addresses ks = map se_addr syms \<and> kallsyms_num_syms ks = length syms \<and>
     kallsyms_names ks = concat (map sym_record es) \<and> kallsyms_markers ks = snd (write_names 0 0 es) \<and>
     kallsyms_token_table ks = concat (map (\<lambda>c. T c @ [0]) codes) \<and>
     kallsyms_token_index ks = map (\<lambda>k. of_nat (tok_off T codes k)) [0..<256] \<and>
     (\<forall>c. length (T c) < KSYM_NAME_LEN \<and> 0 \<notin> set (T c)) \<and>
     list_all2 (\<lambda>e sy. se_len e < 256 \<and> se_len e \<le> length (se_sym e) \<and> concat (map T (codes_of e)) = codes_of sy) es syms"

definition token_of :: "kst \<Rightarrow> (u8 \<Rightarrow> u8 list) \<Rightarrow> u8 \<Rightarrow> u8 list" where
  "token_of s D c = (if used s c then D c else [])"

lemma token_of_bounds:
  assumes "coded 0 (map codes_of syms) D s" "\<forall>e \<in> set syms. read_entry e"
  shows "length (token_of s D c) < KSYM_NAME_LEN \<and> (\<forall>x \<in> set (token_of s D c). plain x)"
proof (cases "used s c")
  case True
  then have "part_of (map codes_of syms) (D c)" using assms(1) by (simp add: coded_def code_ok_def)
  then obtain e u v where e: "e \<in> set syms" "codes_of e = u @ D c @ v" by (auto simp: part_of_def)
  have "length (D c) \<le> length (codes_of e)" unfolding e(2) by simp
  then show ?thesis using codes_of_read [of e] e assms(2) True by (auto simp: token_of_def)
qed (simp add: token_of_def KSYM_NAME_LEN_def)

lemma token_of_expand:
  assumes "coded 0 ns D s"
  shows "expand_symbol (best_table s) (best_table_len s) expand_fuel (take (best_table_len s c) [fst (best_table s c), snd (best_table s c)]) = Some (token_of s D c)"
proof (cases "used s c")
  case True
  have E: "expand_symbol (best_table s) (best_table_len s) expand_fuel [x] = Some (D x)" if "used s x" for x
    using assms that by (auto simp: coded_def expand_fuel_def)
  have "code_ok ns D s c" using assms True by (simp add: coded_def)
  then consider "best_table_len s c = 1" "fst (best_table s c) = c" "D c = [c]"
    | "best_table_len s c = 2" "used s (fst (best_table s c))" "used s (snd (best_table s c))" "D c = D (fst (best_table s c)) @ D (snd (best_table s c))"
    by (auto simp: code_ok_def)
  then show ?thesis
  proof cases
    case 1
    then show ?thesis using E [OF True] True by (simp add: token_of_def)
  next
    case 2
    then show ?thesis using expand_Cons [OF E [OF 2(2)] E [OF 2(3)]] True by (simp add: token_of_def)
  qed
qed (simp add: token_of_def)

lemma coded_records:
  assumes "coded 0 (map codes_of syms) D s" "\<forall>e \<in> set syms. read_entry e"
  shows "list_all2 (\<lambda>e sy. se_len e < 256 \<and> se_len e \<le> length (se_sym e) \<and> concat (map (token_of s D) (codes_of e)) = codes_of sy) (table s) syms"
proof -
  have la: "length (table s) = length syms" "\<And>j. j < length syms \<Longrightarrow> entry_codes s D (table s ! j) (codes_of (syms ! j))"
    using assms(1) by (auto simp: coded_def list_all2_conv_all_nth)
  have k: "se_len e < 256 \<and> se_len e \<le> length (se_sym e) \<and> concat (map (token_of s D) (codes_of e)) = codes_of sy"
    if es: "entry_codes s D e (codes_of sy)" "sy \<in> set syms" for e sy
  proof -
    have "map (token_of s D) (codes_of e) = map D (codes_of e)" using es(1) by (simp add: entry_codes_def token_of_def)
    then have "concat (map (token_of s D) (codes_of e)) = codes_of sy" using es(1) by (simp only: entry_codes_def)
    then show ?thesis using es codes_of_read [of sy] assms(2) by (simp add: entry_codes_def padded_def KSYM_NAME_LEN_def)
  qed
  show ?thesis unfolding list_all2_conv_all_nth la(1) using k [OF la(2) nth_mem] by blast
qed

lemma generator_describes:
  assumes lines: "\<forall>l \<in> set ls. line_ok l"
    and syms: "syms = filter (symbol_valid opt (read_sorted opt ls)) (table (read_sorted opt ls))" "syms \<noteq> []"
    and asm: "\<forall>w. (\<forall>x \<in> set w. plain x) \<longrightarrow> asciz w = w @ [0]"
  shows "\<exists>ks es T. kallsyms_main asciz (k_text (read_sorted opt ls)) opt ls = Some (Some (Inr ks)) \<and> describes ks syms es T"
proof -
  define s where "s = read_sorted opt ls"
  note rs = read_sorted_ok [OF lines, of opt, folded s_def]
  define s0 where "s0 = insert_real_symbols_in_table (build_initial_tok_table opt s)"
  have sy: "syms = filter (symbol_valid opt s) (table s)" using syms(1) by (simp add: s_def)
  note ci = coded_init [OF rs(1,3), of opt, folded s0_def sy]
  define s1 where "s1 = optimize_loop 256 s0"
  obtain D where D: "coded 0 (map codes_of syms) D s1" using optimize_ok [OF ci(3)] by (auto simp: s1_def)
  have main: "kallsyms_main asciz (k_text s) opt ls = Some (write_src asciz (k_text s) s1)"
    using ci(1) syms(2) by (simp add: kallsyms_main_def optimize_token_table_def optimize_result_def s_def [symmetric] s0_def [symmetric] s1_def)
  have fr: "map se_addr (table s1) = map se_addr syms" "k_text s1 = k_text s"
    using optimize_frame [of 256 s0] ci(1,2) by (simp_all add: s1_def)
  then have len: "length (table s1) = length syms" by (metis length_map)
  have re: "\<forall>e \<in> set syms. read_entry e" using rs(1) by (simp add: sy)
  define T where "T = token_of s1 D"
  have T: "\<forall>c. length (T c) < KSYM_NAME_LEN \<and> 0 \<notin> set (T c) \<and> asciz (T c) = T c @ [0]"
    using token_of_bounds [OF D re] asm by (auto simp: plain_def T_def)
  define ks where "ks = \<lparr>kallsyms_addresses = map se_addr syms, kallsyms_num_syms = length syms, kallsyms_names = concat (map sym_record (table s1)),
    kallsyms_markers = snd (write_names 0 0 (table s1)), kallsyms_token_table = concat (map (\<lambda>c. T c @ [0]) codes),
    kallsyms_token_index = map (\<lambda>k. of_nat (tok_off T codes k)) [0..<256]\<rparr>"
  have wt: "write_tokens asciz s1 0 codes = Some (Inr (kallsyms_token_table ks, kallsyms_token_index ks))"
    using write_tokens_ok [OF _ T, of s1 0 codes] token_of_expand [OF D] by (simp add: ks_def nth_codes(3) T_def del: of_nat_add)
  have "map (sym_address (k_text s) (k_text s)) (table s1) = map se_addr syms" using fr(1) sym_address_same [of "k_text s"] by (metis map_cong)
  then have "write_src asciz (k_text s) s1 = Some (Inr ks)"
    using wt fr len write_names_fst [of 0 0 "table s1"] by (auto simp: write_src_def ks_def split: prod.splits)
  moreover have "describes ks syms (table s1) T" unfolding describes_def using T coded_records [OF D re] by (simp add: ks_def T_def)
  ultimately show ?thesis using main unfolding s_def [symmetric] by auto
qed

lemma expand_described:
  assumes "describes ks syms es T" "k < length syms" "read_entry (syms ! k)" "length nb = KSYM_NAME_LEN"
  shows "get_symbol_offset ks k = Inr (rec_off es k) \<and>
    (\<exists>n. kallsyms_expand_symbol ks (rec_off es k) nb = Inr (n, put 0 (tl (codes_of (syms ! k)) @ [0]) nb))"
proof
  have la: "list_all2 (\<lambda>e sy. se_len e < 256 \<and> se_len e \<le> length (se_sym e) \<and> concat (map T (codes_of e)) = codes_of sy) es syms"
    and ks: "kallsyms_names ks = concat (map sym_record es)" "kallsyms_markers ks = snd (write_names 0 0 es)"
      "kallsyms_token_table ks = concat (map (\<lambda>c. T c @ [0]) codes)" "kallsyms_token_index ks = map (\<lambda>k. of_nat (tok_off T codes k)) [0..<256]"
      "\<forall>c. length (T c) < KSYM_NAME_LEN \<and> 0 \<notin> set (T c)"
    using assms(1) by (simp_all add: describes_def)
  let ?e = "es ! k" let ?o = "rec_off es k"
  have kt: "k < length es" using list_all2_lengthD [OF la] assms(2) by simp
  have bounds: "\<forall>e \<in> set es. se_len e < 256 \<and> se_len e \<le> length (se_sym e)"
    using la unfolding list_all2_conv_all_nth by (metis in_set_conv_nth)
  show "get_symbol_offset ks k = Inr ?o" by (rule get_symbol_offset_ok [OF kt bounds ks(1,2)])
  have d: "drop ?o (kallsyms_names ks) = of_nat (se_len ?e) # codes_of ?e @ concat (map sym_record (drop (Suc k) es))"
    using drop_records [OF kt] by (simp add: ks sym_record_def codes_of_def)
  then have l: "?o < length (kallsyms_names ks)" by (metis drop_all list.distinct(1) not_less)
  have n: "kallsyms_names ks ! ?o = of_nat (se_len ?e)" "drop (?o + 1) (kallsyms_names ks) = codes_of ?e @ concat (map sym_record (drop (Suc k) es))"
    using d Cons_nth_drop_Suc [OF l] by auto
  have le: "unat (of_nat (se_len ?e) :: u8) = length (codes_of ?e)" using bounds nth_mem [OF kt] by (simp add: unat_of_nat codes_of_def)
  have "concat (map T (codes_of ?e)) = codes_of (syms ! k)" using list_all2_nthD [OF la kt] by simp
  then have xp: "expand_codes ks (?o + 1) (length (codes_of ?e)) False [] = Inr (tl (codes_of (syms ! k)))"
    using expand_codes_ok [OF ks(3,4,5) n(2), of False "[]"] by simp
  have "length (tl (codes_of (syms ! k))) + 1 \<le> length nb" using codes_of_read [OF assms(3)] assms(4) by auto
  then show "\<exists>n. kallsyms_expand_symbol ks ?o nb = Inr (n, put 0 (tl (codes_of (syms ! k)) @ [0]) nb)"
    using xp by (simp add: kallsyms_expand_symbol_def rd_def l n(1) le)
qed

lemma cstr_named:
  assumes "read_entry e" "length nb = KSYM_NAME_LEN"
  shows "cstr (put 0 (tl (codes_of e) @ [0]) nb) = cstr (drop 1 (se_sym e))"
proof -
  note c = codes_of_read [OF assms(1)]
  have p: "\<forall>x \<in> set (tl (codes_of e)). x \<noteq> 0" using c list.set_sel(2) [of "codes_of e"] by (auto simp: plain_def)
  have "cstr (put 0 (tl (codes_of e) @ [0]) nb) = tl (codes_of e)"
    using c assms(2) p by (subst put_0_append) (auto simp: cstr_def takeWhile_tail)
  moreover have "drop 1 (se_sym e) = tl (codes_of e) @ [0]" using c by (metis drop0 drop_Suc One_nat_def tl_append2)
  ultimately show ?thesis using p by (simp add: cstr_def takeWhile_tail)
qed

section \<open>Properties\<close>

text \<open>
  C24: the symbol table, from the linker map to the kernel's lookup. For a map whose names fit the
  kernel's buffer (at most 126 characters) and need no quoting in the assembler, the generator
  succeeds, and the tables it writes let the kernel find, for every address from the first symbol
  on, the last of the chosen symbols at or below the address. The lookup returns that symbol's
  name exactly as it was read, whatever byte pairs the compression chose, the distance to the
  symbol and, when a symbol follows, its size.
\<close>

theorem kallsyms_roundtrip:
  assumes lines: "\<forall>l \<in> set ls. line_ok l"
    and syms: "syms = filter (symbol_valid opt (read_sorted opt ls)) (table (read_sorted opt ls))" "syms \<noteq> []"
    and asm: "\<forall>w. (\<forall>x \<in> set w. plain x) \<longrightarrow> asciz w = w @ [0]"
    and addr: "is_kernel text etext addr" "se_addr (syms ! 0) \<le> addr" and nb: "length namebuf = KSYM_NAME_LEN"
  shows "\<exists>ks k sz buf. kallsyms_main asciz (k_text (read_sorted opt ls)) opt ls = Some (Some (Inr ks)) \<and>
    kallsyms_lookup ks text etext addr namebuf = Inr (Some (sz, addr - se_addr (syms ! k), buf)) \<and>
    k < length syms \<and> se_addr (syms ! k) \<le> addr \<and> (\<forall>j < length syms. k < j \<longrightarrow> addr < se_addr (syms ! j)) \<and>
    cstr buf = cstr (drop 1 (se_sym (syms ! k))) \<and>
    (Suc k < length syms \<longrightarrow> sz = se_addr (syms ! Suc k) - se_addr (syms ! k))"
proof -
  note rs = read_sorted_ok [OF lines, of opt]
  obtain ks es T where ks: "kallsyms_main asciz (k_text (read_sorted opt ls)) opt ls = Some (Some (Inr ks))" "describes ks syms es T"
    using generator_describes [OF lines syms asm] by blast
  have "sorted (map se_addr syms)" unfolding syms(1) using sorted_filter [of se_addr "table (read_sorted opt ls)"] rs(2) by blast
  then obtain k where k: "sym_bsearch (map se_addr syms) addr 0 (length syms) = Inr k" "k < length syms" "se_addr (syms ! k) \<le> addr"
    "\<And>j. j < length syms \<Longrightarrow> k < j \<Longrightarrow> addr < se_addr (syms ! j)"
    using sym_bsearch_ok [of "map se_addr syms" 0 "length syms" addr] syms(2) addr(2) by auto
  have re: "read_entry (syms ! k)" using rs(1) nth_mem [OF k(2)] unfolding syms(1) by simp
  let ?nb = "namebuf[KSYM_NAME_LEN - 1 := 0, 0 := 0]" let ?buf = "put 0 (tl (codes_of (syms ! k)) @ [0]) ?nb"
  have nb': "length ?nb = KSYM_NAME_LEN" using nb by simp
  note xp = expand_described [OF ks(2) k(2) re nb']
  define sz where "sz = symbol_end (map se_addr syms) k - se_addr (syms ! k)"
  have "kallsyms_addresses ks = map se_addr syms" "kallsyms_num_syms ks = length syms" using ks(2) by (simp_all add: describes_def)
  then have lk: "kallsyms_lookup ks text etext addr namebuf = Inr (Some (sz, addr - se_addr (syms ! k), ?buf))"
    using addr(1) k(1,2) xp nb by (auto simp: kallsyms_lookup_def sz_def rd_def)
  have "sz = se_addr (syms ! Suc k) - se_addr (syms ! k)" if "Suc k < length syms"
  proof -
    have "drop (k + 1) (map se_addr syms) = se_addr (syms ! Suc k) # drop (Suc (Suc k)) (map se_addr syms)"
      using that by (simp add: Cons_nth_drop_Suc [symmetric])
    moreover have "se_addr (syms ! k) < se_addr (syms ! Suc k)" using k(3) k(4) [OF that] by simp
    ultimately show ?thesis using k(2) by (simp add: sz_def symbol_end_def)
  qed
  then show ?thesis using ks(1) lk k(2-4) cstr_named [OF re nb'] by blast
qed

text \<open>A map with two symbols, inside a text section from 16 to 80.\<close>

definition sample_map :: "scan list" where
  "sample_map = [Scan 16 84 (bytes ''_stext''), Scan 32 84 (bytes ''start''), Scan 80 84 (bytes ''_etext'')]"

definition sample_opts :: kopts where
  "sample_opts = \<lparr>all_symbols = False, absolute_percpu = False, symbol_prefix_char = 0, kernel_start_addr = 0\<rparr>"

theorem kallsyms_roundtrip_witness:
  "\<exists>ks sz buf. kallsyms_main (\<lambda>w. w @ [0]) 0 sample_opts sample_map = Some (Some (Inr ks)) \<and>
     kallsyms_lookup ks 16 80 40 (replicate KSYM_NAME_LEN 0) = Inr (Some (sz, 8, buf)) \<and> cstr buf = bytes ''start'' \<and> sz = 48"
proof -
  have t: "map (\<lambda>e. (se_addr e, cstr (drop 1 (se_sym e)))) (filter (symbol_valid sample_opts (read_sorted sample_opts sample_map)) (table (read_sorted sample_opts sample_map))) =
      [(16, bytes ''_stext''), (32, bytes ''start''), (80, bytes ''_etext'')]" "k_text (read_sorted sample_opts sample_map) = 0"
    by code_simp+
  define syms where "syms = filter (symbol_valid sample_opts (read_sorted sample_opts sample_map)) (table (read_sorted sample_opts sample_map))"
  have l: "length syms = 3" using arg_cong [OF t(1), of length] by (simp add: syms_def)
  have sy: "se_addr (syms ! j) = [16, 32, 80] ! j" "cstr (drop 1 (se_sym (syms ! j))) = [bytes ''_stext'', bytes ''start'', bytes ''_etext''] ! j" if "j < 3" for j
    using that l arg_cong [OF t(1), of "\<lambda>xs. xs ! j", folded syms_def] by (auto simp: nth_map less_Suc_eq numeral_3_eq_3 numeral_2_eq_2)
  have ok: "\<forall>l \<in> set sample_map. line_ok l" unfolding sample_map_def line_ok_def KSYM_NAME_LEN_def plain_def bytes_def by simp
  have k40: "is_kernel 16 80 40" by (simp add: is_kernel_def)
  have first: "se_addr (syms ! 0) \<le> 40" using sy(1) [of 0] by simp
  have ne: "syms \<noteq> []" and lb: "length (replicate KSYM_NAME_LEN (0 :: u8)) = KSYM_NAME_LEN"
    and asm: "\<forall>w. (\<forall>x \<in> set w. plain x) \<longrightarrow> (\<lambda>w. w @ [0]) w = w @ [0]" using l by auto
  obtain ks k sz buf where r: "kallsyms_main (\<lambda>w. w @ [0]) 0 sample_opts sample_map = Some (Some (Inr ks))"
    "kallsyms_lookup ks 16 80 40 (replicate KSYM_NAME_LEN 0) = Inr (Some (sz, 40 - se_addr (syms ! k), buf))" "k < length syms"
    "se_addr (syms ! k) \<le> 40" "\<forall>j < length syms. k < j \<longrightarrow> 40 < se_addr (syms ! j)" "cstr buf = cstr (drop 1 (se_sym (syms ! k)))"
    "Suc k < length syms \<longrightarrow> sz = se_addr (syms ! Suc k) - se_addr (syms ! k)"
    using kallsyms_roundtrip [OF ok syms_def ne asm k40 first lb, unfolded t(2)] by blast
  have "k = 1"
  proof -
    have "k < 3" using r(3) l by simp
    then consider "k = 0" | "k = 1" | "k = 2" by linarith
    then show ?thesis using r(4) r(5) [rule_format, of 1] sy(1) [of 1] sy(1) [of 2] l by cases auto
  qed
  then show ?thesis using r sy [of 1] sy(1) [of 2] l by (simp add: numeral_2_eq_2)
qed

end
