(* ===== verification/Printk.thy ===== *)
theory Printk
  imports Strings Monad
begin

text \<open>
  Formatted output, \<^verbatim>\<open>kernel/printk.c\<close>. Output goes to a buffer (\<open>v_out\<close> is the value of \<^verbatim>\<open>*out\<close>) or, when
  \<^verbatim>\<open>out\<close> is null, to the console. A format is the bytes of its string literal with the terminating NUL:
  reading on behind it is the fault \<open>OutOfBounds\<close>. The variable arguments are the 64-bit slots of
  the RISC-V calling convention, of which \<^verbatim>\<open>va_arg\<close> takes the low bits; taking more than were passed is
  \<open>OutOfBounds\<close> as well. The union \<^verbatim>\<open>u\<close> is a 64-bit cell, of which a store to a narrow member replaces the low bits only.
  The local array \<^verbatim>\<open>print_buf\<close> of \<^verbatim>\<open>printk_write_num\<close> is \<open>v_buf\<close>, the bytes of the stack by their offset from its start: the array has
  the offsets 0 to 63, and what the code stores at other offsets is seen there.
\<close>

record vst =
  v_out :: "nat option"
  v_mem :: mem
  v_con :: "u8 list"
  v_args :: "u64 list"
  v_u :: u64
  v_buf :: "int \<Rightarrow> u8"

definition simple_outputchar :: "u8 \<Rightarrow> vst \<Rightarrow> vst" where
  "simple_outputchar c s =
     (case v_out s of
        Some p \<Rightarrow> s\<lparr>v_mem := (v_mem s)(p := c), v_out := Some (p + 1)\<rparr>
      | None \<Rightarrow> s\<lparr>v_con := v_con s @ [c]\<rparr>)"

definition PAD_ZERO :: u32 where "PAD_ZERO = 1"
definition PAD_RIGHT :: u32 where "PAD_RIGHT = 2"

section \<open>Strings\<close>

text \<open>
  A string argument is given by the byte it has at each offset, which for a pointer depends on the
  memory. The loops end at the first NUL.
\<close>

type_synonym source = "vst \<Rightarrow> nat \<Rightarrow> u8"

definition lit :: "u8 list \<Rightarrow> source" where "lit w s i = (if i < length w then w ! i else 0)"
definition at_ptr :: "nat \<Rightarrow> source" where "at_ptr p s i = v_mem s (p + i)"
definition at_buf :: "int \<Rightarrow> source" where "at_buf p s i = v_buf s (p + int i)"

partial_function (option) put_string :: "source \<Rightarrow> nat \<Rightarrow> vst \<Rightarrow> (nat \<times> vst) option" where
  "put_string g i s = (if g s i = 0 then Some (i, s) else put_string g (i + 1) (simple_outputchar (g s i) s))"

definition prints :: "source \<Rightarrow> int \<Rightarrow> u32 \<Rightarrow> (vst, int) comp" where
  "prints g width flags s =
     (case (if width > 0 then strlen_loop (g s) 0 0 else Some 0) of
        None \<Rightarrow> None
      | Some len \<Rightarrow>
          let w = (if width > 0 then if int len \<ge> width then 0 else nat (width - int len) else 0);
              padchar = (if width > 0 \<and> flags AND PAD_ZERO \<noteq> 0 then chr ''0'' else chr '' '');
              left = (if flags AND PAD_RIGHT = 0 then w else 0);
              s = (simple_outputchar padchar ^^ left) s
          in case put_string g 0 s of
               None \<Rightarrow> None
             | Some (n, s) \<Rightarrow> Some (Inr (int left + int n + int (w - left), (simple_outputchar padchar ^^ (w - left)) s)))"

section \<open>Numbers\<close>

definition PRINT_BUF_LEN :: int where "PRINT_BUF_LEN = 64"

definition put_buf :: "int \<Rightarrow> u8 \<Rightarrow> vst \<Rightarrow> vst" where
  "put_buf p c s = s\<lparr>v_buf := (v_buf s)(p := c)\<rparr>"

text \<open>The digits are stored from the end of the buffer backwards; \<open>p\<close> is the pointer \<^verbatim>\<open>s\<close> as an offset.\<close>

partial_function (option) digits_loop :: "u64 \<Rightarrow> u8 \<Rightarrow> u64 \<Rightarrow> int \<Rightarrow> vst \<Rightarrow> (int \<times> vst) option" where
  "digits_loop base letbase u p s =
     (if u = 0 then Some (p, s)
      else let t = u mod base
           in digits_loop base letbase (u div base) (p - 1)
                (put_buf (p - 1) (if t < 10 then chr ''0'' + ucast t else letbase + (ucast t - 10)) s))"

definition printk_write_num :: "u64 \<Rightarrow> u64 \<Rightarrow> bool \<Rightarrow> int \<Rightarrow> u32 \<Rightarrow> u8 \<Rightarrow> (vst, int) comp" where
  "printk_write_num i base sign width flags letbase s =
     (if i = 0 then prints (at_buf 0) width flags (put_buf 1 0 (put_buf 0 (chr ''0'') s))
      else
        let neg = (sign \<and> base = 10 \<and> sint i < 0);
            u = (if neg then - i else i)
        in case digits_loop base letbase u PRINT_BUF_LEN (put_buf PRINT_BUF_LEN 0 s) of
             None \<Rightarrow> None
           | Some (p, s) \<Rightarrow>
               if neg
               then if width \<noteq> 0 \<and> flags AND PAD_ZERO \<noteq> 0
                    then bindC (prints (at_buf p) (width - 1) flags) (\<lambda>n. retC (1 + n)) (simple_outputchar (chr ''-'') s)
                    else prints (at_buf (p - 1)) width flags (put_buf (p - 1) (chr ''-'') s)
               else prints (at_buf p) width flags s)"

section \<open>Formats\<close>

definition va_arg :: "(vst, u64) comp" where
  "va_arg s = (case v_args s of [] \<Rightarrow> Some (Inl OutOfBounds) | a # as \<Rightarrow> Some (Inr (a, s\<lparr>v_args := as\<rparr>)))"

text \<open>A store of the low \<open>n\<close> bits of an argument to a member of the union; the whole cell afterwards.\<close>

definition take_u :: "nat \<Rightarrow> (vst, u64) comp" where
  "take_u n = bindC va_arg (\<lambda>a.
     thenC (modC (\<lambda>s. s\<lparr>v_u := (v_u s AND NOT (mask n)) OR (a AND mask n)\<rparr>)) (getC v_u))"

definition num :: "(u64 \<Rightarrow> u64) \<Rightarrow> nat \<Rightarrow> u64 \<Rightarrow> bool \<Rightarrow> int \<Rightarrow> u32 \<Rightarrow> u8 \<Rightarrow> (vst, int) comp" where
  "num conv n base sign width flags letbase = bindC (take_u n) (\<lambda>u. printk_write_num (conv u) base sign width flags letbase)"

definition as_i :: "u64 \<Rightarrow> u64" where "as_i u = scast (ucast u :: u32)"
definition as_u :: "u64 \<Rightarrow> u64" where "as_u u = ucast (ucast u :: u32)"
definition as_hi :: "u64 \<Rightarrow> u64" where "as_hi u = scast (ucast u :: u16)"
definition as_hhi :: "u64 \<Rightarrow> u64" where "as_hhi u = scast (ucast u :: u8)"

text \<open>The conversions for one length: \<^verbatim>\<open>d\<close>, \<^verbatim>\<open>u\<close>, \<^verbatim>\<open>o\<close>, \<^verbatim>\<open>x\<close>, \<^verbatim>\<open>X\<close>; \<open>None\<close> for another character.\<close>

definition int_conv :: "(u64 \<Rightarrow> u64) \<Rightarrow> (u64 \<Rightarrow> u64) \<Rightarrow> nat \<Rightarrow> int \<Rightarrow> u32 \<Rightarrow> u8 \<Rightarrow> (vst, int) comp option" where
  "int_conv sconv uconv n width flags c =
     (if c = chr ''d'' then Some (num sconv n 10 True width flags (chr ''a''))
      else if c = chr ''u'' then Some (num uconv n 10 False width flags (chr ''a''))
      else if c = chr ''o'' then Some (num uconv n 8 False width flags (chr ''a''))
      else if c = chr ''x'' then Some (num uconv n 16 False width flags (chr ''a''))
      else if c = chr ''X'' then Some (num uconv n 16 False width flags (chr ''A''))
      else None)"

definition or_skip :: "(vst, int) comp option \<Rightarrow> (vst, int) comp" where
  "or_skip m = (case m of Some m \<Rightarrow> m | None \<Rightarrow> retC 0)"

text \<open>The character at the format pointer; the count printed and the pointer at the last character used.\<close>

definition fmt_char :: "u8 list \<Rightarrow> (u8 \<Rightarrow> (vst, 'a) comp) \<Rightarrow> (vst, 'a) comp" where
  "fmt_char f k = (case f of [] \<Rightarrow> failC OutOfBounds | c # _ \<Rightarrow> k c)"

definition conv_hh :: "int \<Rightarrow> u32 \<Rightarrow> u8 list \<Rightarrow> (vst, int \<times> u8 list) comp" where
  "conv_hh width flags f = fmt_char f (\<lambda>c.
     bindC (or_skip (int_conv as_hhi id 8 width flags c)) (\<lambda>n. retC (n, f)))"

definition conv_h :: "int \<Rightarrow> u32 \<Rightarrow> u8 list \<Rightarrow> (vst, int \<times> u8 list) comp" where
  "conv_h width flags f = fmt_char f (\<lambda>c.
     case int_conv as_hi id 16 width flags c of
       Some m \<Rightarrow> bindC m (\<lambda>n. retC (n, f))
     | None \<Rightarrow> if c = chr ''h'' then conv_hh width flags (tl f) else retC (0, f))"

definition conv_ll :: "int \<Rightarrow> u32 \<Rightarrow> u8 list \<Rightarrow> (vst, int \<times> u8 list) comp" where
  "conv_ll width flags f = fmt_char f (\<lambda>c.
     bindC (or_skip (int_conv id id 64 width flags c)) (\<lambda>n. retC (n, f)))"

definition conv_l :: "int \<Rightarrow> u32 \<Rightarrow> u8 list \<Rightarrow> (vst, int \<times> u8 list) comp" where
  "conv_l width flags f = fmt_char f (\<lambda>c.
     case int_conv id id 64 width flags c of
       Some m \<Rightarrow> bindC m (\<lambda>n. retC (n, f))
     | None \<Rightarrow> if c = chr ''l'' then conv_ll width flags (tl f) else retC (0, f))"

definition convert :: "int \<Rightarrow> u32 \<Rightarrow> u8 list \<Rightarrow> (vst, int \<times> u8 list) comp" where
  "convert width flags f = fmt_char f (\<lambda>c.
     case int_conv as_i as_u 32 width flags c of
       Some m \<Rightarrow> bindC m (\<lambda>n. retC (n, f))
     | None \<Rightarrow>
         if c = chr ''p'' then bindC (num id 64 16 False width flags (chr ''a'')) (\<lambda>n. retC (n, f))
         else if c = chr ''c'' then bindC (take_u 8) (\<lambda>u. bindC (prints (lit [ucast u]) width flags) (\<lambda>n. retC (n, f)))
         else if c = chr ''s'' then bindC (take_u 64) (\<lambda>u.
              bindC (prints (if u \<noteq> 0 then at_ptr (unat u) else lit (bytes ''(null)'')) width flags) (\<lambda>n. retC (n, f)))
         else if c = chr ''l'' then conv_l width flags (tl f)
         else if c = chr ''h'' then conv_h width flags (tl f)
         else retC (0, f))"

text \<open>The flags and the width between \<^verbatim>\<open>%\<close> and the conversion character.\<close>

definition is_digit :: "u8 \<Rightarrow> bool" where "is_digit c \<longleftrightarrow> 48 \<le> c \<and> c \<le> 57"

definition parse_flags :: "u8 list \<Rightarrow> u32 \<times> u8 list" where
  "parse_flags f =
     (let (flags, f) = (if f \<noteq> [] \<and> hd f = chr ''-'' then (PAD_RIGHT, tl f) else (0, f));
          g = dropWhile (\<lambda>c. c = chr ''0'') f
      in (if g = f then flags else flags OR PAD_ZERO, g))"

definition parse_width :: "u8 list \<Rightarrow> int" where
  "parse_width ds = foldl (\<lambda>w c. 10 * w + (uint c - 48)) 0 ds"

text \<open>The main loop, from the format pointer \<open>f\<close> on; the result is the count.\<close>

lemma conv_suffix:
  "convert width flags f s = Some (Inr ((n, f'), s')) \<Longrightarrow> length f' \<le> length f"
  by (auto simp: convert_def conv_l_def conv_ll_def conv_h_def conv_hh_def fmt_char_def failC_def retC_def bindC_eq_Inr
      split: list.splits option.splits if_splits)

lemma parse_flags_length: "parse_flags f = (flags, g) \<Longrightarrow> length g \<le> length f"
  using length_dropWhile_le [of "\<lambda>c. c = chr ''0''" f] length_dropWhile_le [of "\<lambda>c. c = chr ''0''" "tl f"]
  by (auto simp: parse_flags_def Let_def split: if_splits)

function vsprintf_loop :: "u8 list \<Rightarrow> int \<Rightarrow> vst \<Rightarrow> (int \<times> vst) result option" where
  "vsprintf_loop f pc s =
     (case f of
        [] \<Rightarrow> Some (Inl OutOfBounds)
      | c # f1 \<Rightarrow>
          if c = 0 then Some (Inr (pc, s))
          else if c \<noteq> chr ''%'' then vsprintf_loop f1 (pc + 1) (simple_outputchar c s)
          else (case f1 of
                  [] \<Rightarrow> Some (Inl OutOfBounds)
                | c1 # f2 \<Rightarrow>
                    if c1 = 0 then Some (Inr (pc, s))
                    else if c1 = chr ''%'' then vsprintf_loop f2 (pc + 1) (simple_outputchar c1 s)
                    else (case parse_flags f1 of (flags, g) \<Rightarrow>
                      bindC (if g \<noteq> [] \<and> hd g = chr ''*''
                             then bindC va_arg (\<lambda>a. convert (sint (ucast a :: u32)) flags (tl g))
                             else convert (parse_width (takeWhile is_digit g)) flags (dropWhile is_digit g))
                        (\<lambda>(n, g). vsprintf_loop (tl g) (pc + n)) s)))"
  by pat_completeness auto

lemma spec_length:
  assumes "(flags, g) = parse_flags f" "(n, h) = r"
    "(if g \<noteq> [] \<and> hd g = chr ''*'' then bindC va_arg (\<lambda>a. convert (sint (ucast a :: u32)) flags (tl g))
      else convert (parse_width (takeWhile is_digit g)) flags (dropWhile is_digit g)) s = Some (Inr (r, t))"
  shows "length (tl h) \<le> length f"
proof -
  have "length g \<le> length f" using parse_flags_length [of f flags g] assms(1) by simp
  moreover have "length (tl g) \<le> length g" "length (dropWhile is_digit g) \<le> length g" by (simp_all add: length_dropWhile_le)
  moreover have "length h \<le> length (tl g) \<or> length h \<le> length (dropWhile is_digit g)"
    using assms(2,3) by (auto simp: bindC_eq_Inr dest: conv_suffix split: if_splits)
  ultimately show ?thesis by auto
qed

termination vsprintf_loop
proof (relation "measure (\<lambda>(f, _, _). length f)", goal_cases)
  case 4
  from spec_length [OF 4(7,9,8)] 4(1) show ?case by simp
qed auto

declare vsprintf_loop.simps [simp del]

definition simple_vsprintf :: "u8 list \<Rightarrow> (vst, int) comp" where
  "simple_vsprintf format = bindC (vsprintf_loop format 0) (\<lambda>pc.
     thenC (modC (\<lambda>s. case v_out s of Some p \<Rightarrow> s\<lparr>v_mem := (v_mem s)(p := 0)\<rparr> | None \<Rightarrow> s)) (retC pc))"

text \<open>
  The callers: \<open>junk\<close> is what the stack slot of the union holds, \<open>buf\<close> what the stack holds around \<^verbatim>\<open>print_buf\<close>. The results are the memory
  and the console, and the stack.
\<close>

definition sprintf :: "u64 \<Rightarrow> (int \<Rightarrow> u8) \<Rightarrow> nat \<Rightarrow> u8 list \<Rightarrow> u64 list \<Rightarrow> mem \<Rightarrow> (int \<times> mem \<times> (int \<Rightarrow> u8)) result option" where
  "sprintf junk buf str fmt va m =
     (case simple_vsprintf fmt \<lparr>v_out = Some str, v_mem = m, v_con = [], v_args = va, v_u = junk, v_buf = buf\<rparr> of
        None \<Rightarrow> None | Some (Inl e) \<Rightarrow> Some (Inl e) | Some (Inr (c, s)) \<Rightarrow> Some (Inr (c, v_mem s, v_buf s)))"

text \<open>\<^verbatim>\<open>printk\<close> holds the print lock around the call; what is new on the console.\<close>

definition printk :: "u64 \<Rightarrow> (int \<Rightarrow> u8) \<Rightarrow> u8 list \<Rightarrow> u64 list \<Rightarrow> mem \<Rightarrow> (u8 list \<times> (int \<Rightarrow> u8)) result option" where
  "printk junk buf fmt va m =
     (case simple_vsprintf fmt \<lparr>v_out = None, v_mem = m, v_con = [], v_args = va, v_u = junk, v_buf = buf\<rparr> of
        None \<Rightarrow> None | Some (Inl e) \<Rightarrow> Some (Inl e) | Some (Inr (_, s)) \<Rightarrow> Some (Inr (v_con s, v_buf s)))"

end
