(* ===== verification/Printk_fmt.thy ===== *)
theory Printk_fmt
  imports Printk
begin

text \<open>
  What the formatted output of theory Printk prints: padded strings, numerals in bases 8, 10 and
  16, and what comes of the union that the conversions share.
\<close>

section \<open>Output\<close>

definition emit :: "u8 list \<Rightarrow> vst \<Rightarrow> vst" where "emit t s = fold simple_outputchar t s"

lemma emit_simps [simp]: "emit [] s = s" "emit (c # t) s = emit t (simple_outputchar c s)" "emit (t @ u) s = emit u (emit t s)"
  by (simp_all add: emit_def)

lemma emit_replicate: "(simple_outputchar c ^^ n) s = emit (replicate n c) s"
  by (induction n arbitrary: s) (simp_all add: funpow_Suc_right del: funpow.simps(2))

lemma emit_console: "v_out s = None \<Longrightarrow> emit t s = s\<lparr>v_con := v_con s @ t\<rparr>"
  by (induction t arbitrary: s) (simp_all add: simple_outputchar_def)

lemma emit_buffer:
  "v_out s = Some p \<Longrightarrow> emit t s = s\<lparr>v_out := Some (p + length t), v_mem := (\<lambda>a. if p \<le> a \<and> a < p + length t then t ! (a - p) else v_mem s a)\<rparr>"
proof (induction t arbitrary: s p)
  case (Cons c t)
  then have "emit t (simple_outputchar c s) = (simple_outputchar c s)\<lparr>v_out := Some (p + 1 + length t),
      v_mem := (\<lambda>a. if p + 1 \<le> a \<and> a < p + 1 + length t then t ! (a - (p + 1)) else v_mem (simple_outputchar c s) a)\<rparr>"
    by (intro Cons.IH) (simp add: simple_outputchar_def)
  moreover have "(if p + 1 \<le> a \<and> a < p + 1 + length t then t ! (a - (p + 1)) else v_mem (simple_outputchar c s) a) =
      (if p \<le> a \<and> a < p + length (c # t) then (c # t) ! (a - p) else v_mem s a)" for a
    using Cons.prems by (auto simp: simple_outputchar_def nth_Cons')
  ultimately show ?case using Cons.prems by (simp add: simple_outputchar_def)
next
  case Nil
  have "(\<lambda>a. if p \<le> a \<and> a < p + length [] then [] ! (a - p) else v_mem s a) = v_mem s" by (auto simp: fun_eq_iff)
  then show ?case using Nil by (cases s) simp
qed

lemma emit_frame [simp]: "v_args (emit t s) = v_args s" "v_u (emit t s) = v_u s" "v_buf (emit t s) = v_buf s"
  by (induction t arbitrary: s) (simp_all add: simple_outputchar_def split: option.splits)

section \<open>Padded strings\<close>

definition pad_text :: "int \<Rightarrow> u32 \<Rightarrow> u8 list \<Rightarrow> u8 list" where
  "pad_text width flags w =
     (let pad = replicate (nat (width - int (length w))) (if flags AND PAD_ZERO \<noteq> 0 then chr ''0'' else chr '' '')
      in if flags AND PAD_RIGHT \<noteq> 0 then w @ pad else pad @ w)"

lemma pad_text_0 [simp]: "pad_text 0 flags w = w"
  by (simp add: pad_text_def Let_def)

lemma length_pad_text: "length (pad_text width flags w) = max (nat width) (length w)"
  by (auto simp: pad_text_def Let_def)

text \<open>A source that reads as the string \<open>w\<close>, whatever is printed meanwhile.\<close>

definition reads :: "source \<Rightarrow> u8 list \<Rightarrow> vst \<Rightarrow> bool" where
  "reads g w s \<longleftrightarrow> (\<forall>t i. i \<le> length w \<longrightarrow> g (emit t s) i = (if i < length w then w ! i else 0))"

lemma readsD: "reads g w s \<Longrightarrow> i \<le> length w \<Longrightarrow> g s i = (if i < length w then w ! i else 0)"
  unfolding reads_def by (metis emit_simps(1))

lemma reads_emit: "reads g w s \<Longrightarrow> reads g w (emit t s)"
  unfolding reads_def by (metis emit_simps(3))

lemma reads_buf:
  assumes "\<forall>i < length w. v_buf s (p + int i) = w ! i" "v_buf s (p + int (length w)) = 0"
  shows "reads (at_buf p) w s"
  using assms by (auto simp: reads_def at_buf_def le_less)

lemma put_string_from: "reads g w s \<Longrightarrow> 0 \<notin> set w \<Longrightarrow> i \<le> length w \<Longrightarrow> put_string g i s = Some (length w, emit (drop i w) s)"
proof (induction "length w - i" arbitrary: i s)
  case 0
  then show ?case using readsD [OF 0(2), of i] by (subst put_string.simps) simp
next
  case (Suc k)
  then have i: "i < length w" by simp
  have g: "g s i = w ! i" using readsD [OF Suc.prems(1), of i] i by simp
  have "w ! i \<noteq> 0" using Suc.prems(2) nth_mem [OF i] by metis
  moreover have "reads g w (simple_outputchar (w ! i) s)" using reads_emit [OF Suc.prems(1), of "[w ! i]"] by simp
  then have "put_string g (i + 1) (simple_outputchar (w ! i) s) = Some (length w, emit (drop (i + 1) w) (simple_outputchar (w ! i) s))"
    using Suc i by (intro Suc.hyps(1)) auto
  ultimately show ?case using i g by (subst put_string.simps) (simp add: Cons_nth_drop_Suc [symmetric])
qed

lemma strlen_from: "reads g w s \<Longrightarrow> 0 \<notin> set w \<Longrightarrow> i \<le> length w \<Longrightarrow> strlen_loop (g s) 0 i = Some (length w)"
proof (induction "length w - i" arbitrary: i)
  case 0
  then show ?case using readsD [OF 0(2), of i] by (subst strlen_loop.simps) simp
next
  case (Suc k)
  then have i: "i < length w" by simp
  have "g s i \<noteq> 0" using Suc.prems(2) nth_mem [OF i] readsD [OF Suc.prems(1), of i] i by (metis less_imp_le)
  then show ?case using Suc i by (subst strlen_loop.simps) simp
qed

lemma prints_reads:
  assumes "reads g w s" "0 \<notin> set w"
  shows "prints g width flags s = Some (Inr (int (length (pad_text width flags w)), emit (pad_text width flags w) s))"
proof -
  have n: "nat width - length w = 0" if "width \<le> int (length w)" using that by simp
  have l: "strlen_loop (g s) 0 0 = Some (length w)" by (rule strlen_from [OF assms]) simp
  have put: "put_string g 0 (emit t s) = Some (length w, emit w (emit t s))" for t
    using put_string_from [OF reads_emit [OF assms(1)] assms(2), of 0] by simp
  have put0: "put_string g 0 s = Some (length w, emit w s)" using put [of "[]"] by simp
  show ?thesis
    by (auto simp: prints_def l Let_def put put0 emit_replicate pad_text_def nat_diff_distrib n)
qed

section \<open>Numerals\<close>

definition digit_val :: "u8 \<Rightarrow> nat" where
  "digit_val c = (if 48 \<le> c \<and> c \<le> 57 then unat c - 48 else if 97 \<le> c then unat c - 87 else unat c - 55)"

definition text_val :: "nat \<Rightarrow> u8 list \<Rightarrow> nat" where
  "text_val b t = foldl (\<lambda>a c. a * b + digit_val c) 0 t"

lemma text_val_snoc [simp]: "text_val b (t @ [c]) = text_val b t * b + digit_val c"
  by (simp add: text_val_def)

text \<open>A numeral: digits of the base only, without leading zeros.\<close>

definition is_digit_char :: "u8 \<Rightarrow> bool" where
  "is_digit_char c \<longleftrightarrow> 48 \<le> c \<and> c \<le> 57 \<or> 65 \<le> c \<and> c \<le> 70 \<or> 97 \<le> c \<and> c \<le> 102"

definition is_numeral :: "nat \<Rightarrow> u8 list \<Rightarrow> bool" where
  "is_numeral b t \<longleftrightarrow> t \<noteq> [] \<and> (\<forall>c \<in> set t. is_digit_char c \<and> digit_val c < b) \<and> (hd t = chr ''0'' \<longrightarrow> t = [chr ''0''])"

definition digit_char :: "u8 \<Rightarrow> u64 \<Rightarrow> u8" where
  "digit_char letbase t = (if t < 10 then chr ''0'' + ucast t else letbase + (ucast t - 10))"

fun num_text :: "nat \<Rightarrow> u8 \<Rightarrow> nat \<Rightarrow> u8 list" where
  "num_text b l n = (if n = 0 \<or> b < 2 then [] else num_text b l (n div b) @ [digit_char l (of_nat (n mod b))])"

declare num_text.simps [simp del]

lemma chr_codes: "chr ''0'' = 48" "chr ''a'' = 97" "chr ''A'' = 65" "chr ''-'' = 45" "chr '' '' = 32" "chr ''%'' = 37" "chr ''*'' = 42"
  "chr ''d'' = 100" "chr ''u'' = 117" "chr ''o'' = 111" "chr ''x'' = 120" "chr ''X'' = 88" "chr ''p'' = 112" "chr ''c'' = 99"
  "chr ''s'' = 115" "chr ''l'' = 108" "chr ''h'' = 104"
  by (simp_all add: chr_def bytes_def)

lemma digit_char_val:
  assumes "d < 16" "letbase = chr ''a'' \<or> letbase = chr ''A''"
  shows "digit_val (digit_char letbase (of_nat d)) = d" "is_digit_char (digit_char letbase (of_nat d))"
    "digit_char letbase (of_nat d) = chr ''0'' \<longleftrightarrow> d = 0"
proof -
  have "d \<in> {0,1,2,3,4,5,6,7,8,9,10,11,12,13,14,15}" using assms(1) by (simp only: insert_iff empty_iff) presburger
  then have "digit_val (digit_char letbase (of_nat d)) = d \<and> is_digit_char (digit_char letbase (of_nat d)) \<and>
      (digit_char letbase (of_nat d) = chr ''0'' \<longleftrightarrow> d = 0)"
    using assms(2) unfolding chr_codes by (elim insertE disjE) (simp_all add: digit_val_def is_digit_char_def digit_char_def chr_codes word_le_nat_alt)
  then show "digit_val (digit_char letbase (of_nat d)) = d" "is_digit_char (digit_char letbase (of_nat d))"
    "digit_char letbase (of_nat d) = chr ''0'' \<longleftrightarrow> d = 0" by blast+
qed

lemma num_text_ok:
  assumes "2 \<le> b" "b \<le> 16" "l = chr ''a'' \<or> l = chr ''A''"
  shows "text_val b (num_text b l n) = n \<and> (0 < n \<longrightarrow> is_numeral b (num_text b l n))"
proof (induction n rule: less_induct)
  case (less n)
  show ?case
  proof (cases "n = 0")
    case True
    then show ?thesis by (simp add: num_text.simps text_val_def)
  next
    case False
    have e: "num_text b l n = num_text b l (n div b) @ [digit_char l (of_nat (n mod b))]" using False assms(1) by (subst num_text.simps) simp
    have "n mod b < b" using assms(1) by simp
    then have "n mod b < 16" using assms(2) by linarith
    note d = digit_char_val [OF this assms(3)]
    have ih: "text_val b (num_text b l (n div b)) = n div b" "0 < n div b \<Longrightarrow> is_numeral b (num_text b l (n div b))"
      using less [of "n div b"] False assms(1) by simp_all
    have "is_numeral b (num_text b l n)"
    proof (cases "n div b = 0")
      case True
      then have "num_text b l (n div b) = []" "n mod b = n" by (simp_all add: num_text.simps) (metis True add_0 mult_zero_left div_mult_mod_eq)
      then show ?thesis using d \<open>n mod b < b\<close> False unfolding e by (simp add: is_numeral_def)
    next
      case nz: False
      then have "num_text b l (n div b) \<noteq> [chr ''0'']" using ih(1) by (auto simp: text_val_def digit_val_def chr_codes)
      then show ?thesis using ih(2) nz d \<open>n mod b < b\<close> unfolding e by (auto simp: is_numeral_def)
    qed
    moreover have "text_val b (num_text b l n) = n" unfolding e using ih(1) d(1) by simp
    ultimately show ?thesis by simp
  qed
qed

lemma num_text_length: "2 \<le> b \<Longrightarrow> n < b ^ k \<Longrightarrow> length (num_text b l n) \<le> k"
proof (induction k arbitrary: n)
  case 0
  then show ?case by (simp add: num_text.simps)
next
  case (Suc k)
  then have "n div b < b ^ k" by (simp add: less_mult_imp_div_less mult.commute)
  then have "length (num_text b l (n div b)) \<le> k" using Suc by simp
  then show ?case by (subst num_text.simps) simp
qed

text \<open>The stack with the bytes \<open>ds\<close> from offset \<open>p\<close> on.\<close>

definition fill :: "int \<Rightarrow> u8 list \<Rightarrow> (int \<Rightarrow> u8) \<Rightarrow> int \<Rightarrow> u8" where
  "fill p ds f x = (if p \<le> x \<and> x < p + int (length ds) then ds ! nat (x - p) else f x)"

lemma fill_snoc: "fill p (ds @ [d]) f = fill p ds (f(p + int (length ds) := d))"
  by (auto simp: fill_def nth_append fun_eq_iff)

lemma fill_Cons: "fill p (d # ds) f = (fill (p + 1) ds f)(p := d)"
proof
  fix x
  show "fill p (d # ds) f x = ((fill (p + 1) ds f)(p := d)) x"
  proof (cases "x = p")
    case False
    then have "nat (x - p) = Suc (nat (x - (p + 1)))" if "p \<le> x" using that by linarith
    then show ?thesis using False by (auto simp: fill_def)
  qed (simp add: fill_def)
qed

lemma digits_loop_ok:
  "2 \<le> unat base \<Longrightarrow> digits_loop base l u p s =
    (let ds = num_text (unat base) l (unat u) in Some (p - int (length ds), s\<lparr>v_buf := fill (p - int (length ds)) ds (v_buf s)\<rparr>))"
proof (induction "unat u" arbitrary: u p s rule: less_induct)
  case less
  show ?case
  proof (cases "u = 0")
    case True
    have "fill p [] (v_buf s) = v_buf s" by (auto simp: fill_def fun_eq_iff)
    then show ?thesis using True by (subst digits_loop.simps) (simp add: num_text.simps)
  next
    case False
    define ds where "ds = num_text (unat base) l (unat (u div base))"
    define d where "d = digit_char l (u mod base)"
    have "unat (u div base) < unat u" using False less.prems by (simp add: unat_div unat_gt_0)
    then have "digits_loop base l (u div base) (p - 1) (put_buf (p - 1) d s) =
        Some (p - 1 - int (length ds), (put_buf (p - 1) d s)\<lparr>v_buf := fill (p - 1 - int (length ds)) ds (v_buf (put_buf (p - 1) d s))\<rparr>)"
      using less by (simp add: ds_def Let_def)
    moreover have "num_text (unat base) l (unat u) = num_text (unat base) l (unat u div unat base) @ [digit_char l (of_nat (unat u mod unat base))]"
      using False less.prems by (subst num_text.simps) (simp add: unat_gt_0)
    moreover have "(of_nat (unat u mod unat base) :: u64) = u mod base" by (simp add: unat_mod [symmetric])
    ultimately have "num_text (unat base) l (unat u) = ds @ [d]" "digits_loop base l u p s =
        Some (p - 1 - int (length ds), s\<lparr>v_buf := fill (p - 1 - int (length ds)) ds ((v_buf s)(p - 1 := d))\<rparr>)"
      using False by (simp_all add: ds_def d_def unat_div digits_loop.simps [of base l u] Let_def digit_char_def put_buf_def)
    moreover have "fill (p - 1 - int (length ds)) ds ((v_buf s)(p - 1 := d)) = fill (p - int (length (ds @ [d]))) (ds @ [d]) (v_buf s)"
      unfolding fill_snoc by (simp add: algebra_simps)
    ultimately show ?thesis by (simp add: Let_def algebra_simps)
  qed
qed

lemma reads_fill:
  assumes "v_buf s = fill p ds f" "f (p + int (length ds)) = 0"
  shows "reads (at_buf p) ds s"
  by (rule reads_buf) (use assms in \<open>simp_all add: fill_def\<close>)

section \<open>Properties\<close>

text \<open>The number that a conversion shows, and its sign.\<close>

definition shown :: "bool \<Rightarrow> u64 \<Rightarrow> u64 \<Rightarrow> int" where
  "shown sign base i = (if sign \<and> base = 10 then sint i else uint i)"

lemma sint_scast_32: "sint (scast (x :: u32) :: u64) = sint x"
proof -
  have "- (2 ^ 31) \<le> sint x" "sint x < 2 ^ 31" using sint_ge [of x] sint_lt [of x] by simp_all
  then have "signed_take_bit 63 (sint x) = sint x" by (intro signed_take_bit_int_eq_self) simp_all
  then show ?thesis by (simp add: signed_scast_eq)
qed

lemma unat_minus_neg: "sint (i :: u64) < 0 \<Longrightarrow> unat (- i) = nat (- sint i)"
proof -
  assume neg: "sint i < 0"
  have "- i = word_of_int (- sint i)" by simp
  then have "uint (- i) = (- sint i) mod 2 ^ 64" by (simp only: uint_word_of_int) simp
  moreover have "- sint i < 2 ^ 64" "0 \<le> - sint i" using sint_ge [of i] neg by auto
  ultimately have "uint (- i) = - sint i" by simp
  then show ?thesis by (metis unat_eq_nat_uint)
qed

text \<open>The layout of a number: a minus sign goes before zero padding and is padded as a digit otherwise.\<close>

definition num_layout :: "bool \<Rightarrow> int \<Rightarrow> u32 \<Rightarrow> u8 list \<Rightarrow> u8 list" where
  "num_layout neg width flags ds =
     (if neg \<and> width \<noteq> 0 \<and> flags AND PAD_ZERO \<noteq> 0 then chr ''-'' # pad_text (width - 1) flags ds
      else pad_text width flags ((if neg then [chr ''-''] else []) @ ds))"

lemma shown_abs:
  defines "neg sign base i \<equiv> sign \<and> base = 10 \<and> sint i < 0"
  shows "shown sign base i < 0 \<longleftrightarrow> neg sign base i" "unat (if neg sign base i then - i else i) = nat \<bar>shown sign base i\<bar>"
proof -
  show "shown sign base i < 0 \<longleftrightarrow> neg sign base i" by (auto simp: shown_def neg_def uint_ge_0 [THEN leD])
  show "unat (if neg sign base i then - i else i) = nat \<bar>shown sign base i\<bar>"
  proof (cases "neg sign base i")
    case True
    then show ?thesis using unat_minus_neg [of i] by (simp add: neg_def shown_def)
  next
    case nn: False
    have "sint i = uint i" if "0 \<le> sint i"
    proof -
      have "uint (word_of_int (sint i) :: u64) = sint i mod 2 ^ 64" by (simp only: uint_word_of_int) simp
      moreover have "sint i < 2 ^ 64" using sint_lt [of i] by simp
      ultimately show ?thesis using that by (simp only: mod_pos_pos_trivial of_int_sint scast_id)
    qed
    then have "shown sign base i = uint i" using nn by (auto simp: shown_def neg_def)
    then show ?thesis using nn by simp
  qed
qed

text \<open>What a call leaves on the stack: only the array and, for a number other than 0, the byte behind it are touched.\<close>

definition buf_touched :: "u64 \<Rightarrow> (int \<Rightarrow> u8) \<Rightarrow> (int \<Rightarrow> u8) \<Rightarrow> bool" where
  "buf_touched i f g \<longleftrightarrow> (\<forall>x. x < 0 \<or> PRINT_BUF_LEN < x \<longrightarrow> g x = f x) \<and> g PRINT_BUF_LEN = (if i = 0 then f PRINT_BUF_LEN else 0)"

lemma fill_touched:
  assumes "0 \<le> p" "p + int (length ds) = PRINT_BUF_LEN" "i \<noteq> 0"
  shows "buf_touched i f (fill p ds (f(PRINT_BUF_LEN := 0)))"
  using assms by (auto simp: buf_touched_def fill_def)

lemma write_num_ok:
  assumes "base \<in> {8, 10, 16}" "letbase = chr ''a'' \<or> letbase = chr ''A''"
  shows "\<exists>ds g. is_numeral (unat base) ds \<and> text_val (unat base) ds = nat \<bar>shown sign base i\<bar> \<and> buf_touched i (v_buf s) g \<and>
    printk_write_num i base sign width flags letbase s =
      Some (Inr (int (length (num_layout (shown sign base i < 0) width flags ds)), emit (num_layout (shown sign base i < 0) width flags ds) (s\<lparr>v_buf := g\<rparr>)))"
proof (cases "i = 0")
  case True
  define g where "g = (v_buf s)(0 := chr ''0'', 1 := 0)"
  have n: "is_numeral (unat base) [chr ''0'']" "text_val (unat base) [chr ''0''] = 0" "0 \<notin> set [chr ''0'']"
    using assms(1) by (auto simp: is_numeral_def is_digit_char_def text_val_def digit_val_def chr_codes)
  have s: "put_buf 1 0 (put_buf 0 (chr ''0'') s) = s\<lparr>v_buf := g\<rparr>" by (simp add: put_buf_def g_def)
  have "reads (at_buf 0) [chr ''0''] (s\<lparr>v_buf := g\<rparr>)" by (rule reads_buf) (simp_all add: g_def)
  from prints_reads [OF this n(3), of width flags] have p: "printk_write_num i base sign width flags letbase s =
      Some (Inr (int (length (num_layout (shown sign base i < 0) width flags [chr ''0''])), emit (num_layout (shown sign base i < 0) width flags [chr ''0'']) (s\<lparr>v_buf := g\<rparr>)))"
    using True by (simp add: printk_write_num_def s num_layout_def shown_def)
  have "buf_touched i (v_buf s) g" using True by (simp add: buf_touched_def g_def PRINT_BUF_LEN_def)
  then show ?thesis using n(1,2) p True by (auto simp: shown_def)
next
  case False
  define neg where "neg = (sign \<and> base = 10 \<and> sint i < 0)"
  define u where "u = (if neg then - i else i)"
  define ds where "ds = num_text (unat base) letbase (unat u)"
  define q where "q = PRINT_BUF_LEN - int (length ds)"
  define f where "f = (v_buf s)(PRINT_BUF_LEN := 0)"
  have b: "2 \<le> unat base" "unat base \<le> 16" "8 \<le> unat base" using assms(1) by auto
  have ng: "(shown sign base i < 0) = neg" and u: "unat u = nat \<bar>shown sign base i\<bar>" unfolding neg_def u_def by (rule shown_abs)+
  have "u \<noteq> 0" using False by (auto simp: u_def)
  then have ds: "is_numeral (unat base) ds" "text_val (unat base) ds = unat u"
    using num_text_ok [OF b(1,2) assms(2), of "unat u"] by (simp_all add: ds_def unat_gt_0)
  have z: "0 \<notin> set ds" "0 \<notin> set (chr ''-'' # ds)" using ds(1) by (auto simp: is_numeral_def is_digit_char_def chr_codes)
  have "unat u < 2 ^ 64" using unsigned_less [of u] by simp
  moreover have "(2 :: nat) ^ 64 \<le> 8 ^ 22" by simp
  moreover have "(8 :: nat) ^ 22 \<le> unat base ^ 22" using b(3) by (rule power_mono) simp
  ultimately have "unat u < unat base ^ 22" by linarith
  then have len: "length ds \<le> 22" unfolding ds_def by (rule num_text_length [OF b(1)])
  have q: "1 \<le> q" "q + int (length ds) = PRINT_BUF_LEN" using len by (simp_all add: q_def PRINT_BUF_LEN_def)
  have d: "digits_loop base letbase u PRINT_BUF_LEN (put_buf PRINT_BUF_LEN 0 s) = Some (q, s\<lparr>v_buf := fill q ds f\<rparr>)"
    by (simp add: digits_loop_ok [OF b(1)] ds_def [symmetric] q_def put_buf_def f_def)
  have f0: "f (q + int (length ds)) = 0" by (simp add: q(2) f_def)
  have rd: "reads (at_buf q) ds t" if "v_buf t = fill q ds f" for t by (rule reads_fill [OF that f0])
  have rm: "reads (at_buf (q - 1)) (chr ''-'' # ds) (s\<lparr>v_buf := fill (q - 1) (chr ''-'' # ds) f\<rparr>)"
    by (rule reads_fill [where f = f]) (use f0 in simp_all)
  have pm: "put_buf (q - 1) (chr ''-'') (s\<lparr>v_buf := fill q ds f\<rparr>) = s\<lparr>v_buf := fill (q - 1) (chr ''-'' # ds) f\<rparr>"
    by (simp add: put_buf_def fill_Cons)
  have to: "buf_touched i (v_buf s) (fill q ds f)" "buf_touched i (v_buf s) (fill (q - 1) (chr ''-'' # ds) f)"
    unfolding f_def using q False by (auto intro!: fill_touched)
  have out: "v_buf (simple_outputchar c t) = v_buf t" for c t using emit_frame(3) [of "[c]" t] by simp
  define g where "g = (if neg \<and> \<not> (width \<noteq> 0 \<and> flags AND PAD_ZERO \<noteq> 0) then fill (q - 1) (chr ''-'' # ds) f else fill q ds f)"
  have "printk_write_num i base sign width flags letbase s =
      Some (Inr (int (length (num_layout neg width flags ds)), emit (num_layout neg width flags ds) (s\<lparr>v_buf := g\<rparr>)))"
    unfolding printk_write_num_def neg_def [symmetric] Let_def u_def [symmetric] d
    using False by (auto simp: num_layout_def g_def pm prints_reads [OF rm z(2)] prints_reads [OF rd z(1)] out retC_def)
  moreover have "buf_touched i (v_buf s) g" using to by (simp add: g_def)
  ultimately show ?thesis using ds u unfolding ng by auto
qed

text \<open>
  C25: numbers. In the bases 8, 10 and 16, \<^verbatim>\<open>printk_write_num\<close> prints the numeral of its argument, signed
  only in base 10 when asked to: digits of the base, most significant first, no leading zeros, with
  the value of the argument. The result is padded to the width on the left or right with blanks or zeros,
  a minus sign coming before zero padding, and the count returned is the number of characters
  printed. On the stack it writes to the array \<^verbatim>\<open>print_buf\<close> and, for every argument other than 0, a NUL to the byte behind
  the array, which does not belong to it; and nowhere else.
\<close>

theorem printk_write_num_correct:
  assumes "base \<in> {8, 10, 16}" "letbase = chr ''a'' \<or> letbase = chr ''A''"
  shows "\<exists>ds g. is_numeral (unat base) ds \<and> text_val (unat base) ds = nat \<bar>shown sign base i\<bar> \<and> buf_touched i (v_buf s) g \<and>
    printk_write_num i base sign width flags letbase s =
      Some (Inr (int (length (num_layout (shown sign base i < 0) width flags ds)), emit (num_layout (shown sign base i < 0) width flags ds) (s\<lparr>v_buf := g\<rparr>)))"
  using assms by (rule write_num_ok)

definition sample_vst :: vst where
  "sample_vst = \<lparr>v_out = None, v_mem = (\<lambda>_. 0), v_con = [], v_args = [], v_u = 0, v_buf = (\<lambda>_. 7)\<rparr>"

theorem printk_write_num_correct_witness:
  "\<exists>ds g. is_numeral 16 ds \<and> text_val 16 ds = 255 \<and> g 64 = 0 \<and> g 65 = 7 \<and>
    printk_write_num 255 16 False 0 0 (chr ''a'') sample_vst = Some (Inr (int (length ds), emit ds (sample_vst\<lparr>v_buf := g\<rparr>)))"
proof -
  have e: "shown False 16 255 = 255" "unat (16 :: u64) = 16" "num_layout False 0 0 ds = ds" for ds by (simp_all add: shown_def num_layout_def)
  obtain ds g where "is_numeral 16 ds" "text_val 16 ds = 255" "buf_touched 255 (v_buf sample_vst) g"
    "printk_write_num 255 16 False 0 0 (chr ''a'') sample_vst = Some (Inr (int (length ds), emit ds (sample_vst\<lparr>v_buf := g\<rparr>)))"
    using printk_write_num_correct [of 16 "chr ''a''" False 255 sample_vst 0 0] e by auto
  then show ?thesis by (intro exI [of _ ds] exI [of _ g]) (simp add: buf_touched_def PRINT_BUF_LEN_def, simp add: sample_vst_def)
qed

section \<open>Whole formats\<close>

text \<open>Evaluation of the main loop on the formats below.\<close>

lemma vsprintf_end: "vsprintf_loop (0 # f) pc s = Some (Inr (pc, s))"
  by (subst vsprintf_loop.simps) simp

lemma vsprintf_plain: "c \<noteq> 0 \<Longrightarrow> c \<noteq> 37 \<Longrightarrow> vsprintf_loop (c # f) pc s = vsprintf_loop f (pc + 1) (simple_outputchar c s)"
  by (subst vsprintf_loop.simps) (simp add: chr_codes)

lemma vsprintf_text:
  "\<forall>c \<in> set t. c \<noteq> 0 \<and> c \<noteq> 37 \<Longrightarrow> vsprintf_loop (t @ f) pc s = vsprintf_loop f (pc + int (length t)) (emit t s)"
  by (induction t arbitrary: pc s) (simp_all add: vsprintf_plain algebra_simps)

text \<open>A conversion with neither flags nor width.\<close>

lemma vsprintf_conv:
  assumes "c \<noteq> 0" "c \<noteq> 37" "c \<noteq> 45" "c \<noteq> 42" "\<not> (48 \<le> c \<and> c \<le> 57)"
  shows "vsprintf_loop (37 # c # f) pc s = bindC (convert 0 0 (c # f)) (\<lambda>(n, g). vsprintf_loop (tl g) (pc + n)) s"
proof -
  have "parse_flags (c # f) = (0, c # f)" using assms by (auto simp: parse_flags_def chr_codes)
  moreover have "\<not> is_digit c" using assms(5) by (simp add: is_digit_def)
  ultimately show ?thesis using assms by (subst vsprintf_loop.simps) (simp add: chr_codes parse_width_def)
qed

lemma convert_d: "convert width flags (100 # f) = bindC (num as_i 32 10 True width flags 97) (\<lambda>n. retC (n, 100 # f))"
  by (simp add: convert_def fmt_char_def int_conv_def chr_codes)

lemma convert_lx: "convert width flags (108 # 120 # f) = bindC (num id 64 16 False width flags 97) (\<lambda>n. retC (n, 120 # f))"
  by (simp add: convert_def fmt_char_def int_conv_def conv_l_def chr_codes)

lemma convert_hx: "convert width flags (104 # 120 # f) = bindC (num id 16 16 False width flags 97) (\<lambda>n. retC (n, 120 # f))"
  by (simp add: convert_def fmt_char_def int_conv_def conv_h_def chr_codes)

lemma num_eval:
  "v_args s = a # as \<Longrightarrow> num conv n base sign width flags l s =
    (let u = (v_u s AND NOT (mask n)) OR (a AND mask n) in printk_write_num (conv u) base sign width flags l (s\<lparr>v_args := as, v_u := u\<rparr>))"
  by (simp add: num_def take_u_def va_arg_def bindC_def thenC_def modC_def getC_def Let_def)

lemma bytes_codes: "bytes ''%d'' = [37, 100]" "bytes ''%lx %hx'' = [37, 108, 120, 32, 37, 104, 120]"
  by (simp_all add: bytes_def)

text \<open>
  C26: \<^verbatim>\<open>sprintf(str, "%d", a)\<close> writes the decimal text of the signed 32-bit argument and a NUL to the
  buffer, touches no other byte of the memory and returns the length of the text, whatever the stack held: the
  text is a minus sign for a negative argument and then decimal digits without leading zeros, and reading it back gives the argument. On the
  stack it writes to \<^verbatim>\<open>print_buf\<close> and, unless the argument is 0, a NUL to the byte behind that array.
\<close>

definition parse_int :: "u8 list \<Rightarrow> int" where
  "parse_int t = (if t \<noteq> [] \<and> hd t = chr ''-'' then - int (text_val 10 (tl t)) else int (text_val 10 t))"

definition decimal_text :: "int \<Rightarrow> u8 list \<Rightarrow> bool" where
  "decimal_text x t = (let ds = (if x < 0 then tl t else t) in
     (x < 0 \<longrightarrow> take 1 t = [chr ''-'']) \<and> ds \<noteq> [] \<and> (\<forall>c \<in> set ds. 48 \<le> c \<and> c \<le> 57) \<and> (hd ds = chr ''0'' \<longrightarrow> t = [chr ''0'']) \<and> parse_int t = x)"

lemma decimal_textI:
  assumes "is_numeral 10 ds" "text_val 10 ds = nat \<bar>x\<bar>"
  shows "decimal_text x ((if x < 0 then [chr ''-''] else []) @ ds)"
proof -
  have dig: "48 \<le> c \<and> c \<le> 57" if "is_digit_char c" "digit_val c < 10" for c
    using that by (auto simp: is_digit_char_def digit_val_def word_le_nat_alt split: if_splits)
  have d: "ds \<noteq> []" "\<forall>c \<in> set ds. 48 \<le> c \<and> c \<le> 57" "hd ds = 48 \<longrightarrow> ds = [48]"
    using assms(1) dig by (auto simp: is_numeral_def chr_codes)
  then have "48 \<le> hd ds" by simp
  then have "hd ds \<noteq> 45" by auto
  moreover have "x = 0" if "ds = [48]" using assms(2) that by (simp add: text_val_def digit_val_def)
  ultimately show ?thesis using d assms(2) by (auto simp: decimal_text_def Let_def parse_int_def chr_codes)
qed

theorem sprintf_decimal_roundtrip:
  "\<exists>t m' g. sprintf junk buf str (bytes ''%d'' @ [0]) [a] m = Some (Inr (int (length t), m', g)) \<and>
     decimal_text (sint (ucast a :: u32)) t \<and> buf_touched (scast (ucast a :: u32)) buf g \<and>
     (\<forall>x. m' x = (if str \<le> x \<and> x < str + length t then t ! (x - str) else if x = str + length t then 0 else m x))"
proof -
  define s where "s = \<lparr>v_out = Some str, v_mem = m, v_con = [], v_args = [a], v_u = junk, v_buf = buf\<rparr>"
  define u where "u = (junk AND NOT (mask 32)) OR (a AND mask 32)"
  define s1 where "s1 = s\<lparr>v_args := [], v_u := u\<rparr>"
  have "(ucast u :: u32) = ucast a" by (rule bit_word_eqI) (auto simp: u_def bit_simps)
  then have ai: "as_i u = scast (ucast a :: u32)" by (simp add: as_i_def)
  then have sh: "shown True 10 (as_i u) = sint (ucast a :: u32)" by (simp add: shown_def sint_scast_32)
  obtain ds g where d: "is_numeral 10 ds" "text_val 10 ds = nat \<bar>sint (ucast a :: u32)\<bar>" "buf_touched (as_i u) (v_buf s1) g"
    "printk_write_num (as_i u) 10 True 0 0 97 s1 = Some (Inr (int (length (num_layout (sint (ucast a :: u32) < 0) 0 0 ds)),
       emit (num_layout (sint (ucast a :: u32) < 0) 0 0 ds) (s1\<lparr>v_buf := g\<rparr>)))"
    using write_num_ok [of 10 97 True "as_i u" s1 0 0] unfolding sh by (auto simp: chr_codes)
  define t where "t = (if sint (ucast a :: u32) < 0 then [chr ''-''] else []) @ ds"
  define s2 where "s2 = s1\<lparr>v_buf := g\<rparr>"
  have t: "num_layout (sint (ucast a :: u32) < 0) 0 0 ds = t" by (simp add: num_layout_def t_def)
  have "num as_i 32 10 True 0 0 97 s = Some (Inr (int (length t), emit t s2))"
    using num_eval [of s a "[]"] d(4) unfolding t by (simp add: s_def s1_def s2_def u_def Let_def)
  then have "vsprintf_loop (bytes ''%d'' @ [0]) 0 s = Some (Inr (int (length t), emit t s2))"
    by (simp add: bytes_codes vsprintf_conv convert_d bindC_def retC_def vsprintf_end)
  moreover have "emit t s2 = s2\<lparr>v_out := Some (str + length t), v_mem := (\<lambda>x. if str \<le> x \<and> x < str + length t then t ! (x - str) else m x)\<rparr>"
    by (rule emit_buffer [of s2 str t, THEN trans]) (simp_all add: s2_def s1_def s_def cong: if_cong)
  ultimately have "sprintf junk buf str (bytes ''%d'' @ [0]) [a] m =
      Some (Inr (int (length t), (\<lambda>x. if str \<le> x \<and> x < str + length t then t ! (x - str) else m x)(str + length t := 0), g))"
    by (simp add: sprintf_def simple_vsprintf_def s_def [symmetric] retC_def) (simp add: s2_def)
  moreover have "decimal_text (sint (ucast a :: u32)) t" unfolding t_def by (rule decimal_textI [OF d(1,2)])
  moreover have "buf_touched (scast (ucast a :: u32)) buf g" using d(3) by (simp add: ai s1_def s_def)
  ultimately show ?thesis by (intro exI [of _ t] exI) auto
qed

text \<open>
  The short conversions print what an earlier conversion left in the union. After \<^verbatim>\<open>%lx\<close> has stored a
  64-bit argument \<open>a\<close>, \<^verbatim>\<open>%hx\<close> replaces its low 16 bits by those of the next argument and prints the
  whole cell: the upper 48 bits are those of \<open>a\<close>.
\<close>

theorem short_hex_prints_stale_bits:
  "\<exists>t1 t2 g. printk junk buf (bytes ''%lx %hx'' @ [0]) [a, b] m = Some (Inr (t1 @ [32] @ t2, g)) \<and>
     is_numeral 16 t1 \<and> text_val 16 t1 = unat a \<and> is_numeral 16 t2 \<and> text_val 16 t2 = unat ((a AND NOT (mask 16)) OR (b AND mask 16))"
proof -
  define s where "s = \<lparr>v_out = None, v_mem = m, v_con = [], v_args = [a, b], v_u = junk, v_buf = buf\<rparr>"
  have w: "\<exists>t g. is_numeral 16 t \<and> text_val 16 t = unat i \<and> printk_write_num i 16 False 0 0 97 r = Some (Inr (int (length t), emit t (r\<lparr>v_buf := g\<rparr>)))" for i r
  proof -
    have "nat \<bar>shown False 16 i\<bar> = unat i" "\<not> shown False 16 i < 0" by (simp_all add: shown_def uint_ge_0 [THEN leD])
    moreover have "num_layout False 0 0 ds = ds" for ds by (simp add: num_layout_def)
    ultimately show ?thesis using write_num_ok [of 16 97 False i r 0 0] by (auto simp: chr_codes)
  qed
  define s1 where "s1 = s\<lparr>v_args := [b], v_u := a\<rparr>"
  obtain t1 g1 where t1: "is_numeral 16 t1" "text_val 16 t1 = unat a"
    "printk_write_num a 16 False 0 0 97 s1 = Some (Inr (int (length t1), emit t1 (s1\<lparr>v_buf := g1\<rparr>)))"
    using w by blast
  define u where "u = (a AND NOT (mask 16)) OR (b AND mask 16)"
  define s2 where "s2 = simple_outputchar 32 (emit t1 (s1\<lparr>v_buf := g1\<rparr>))"
  have s2: "s2 = s1\<lparr>v_buf := g1, v_con := t1 @ [32]\<rparr>" unfolding s2_def by (simp add: emit_console s1_def s_def simple_outputchar_def)
  define s3 where "s3 = s2\<lparr>v_args := [], v_u := u\<rparr>"
  obtain t2 g2 where t2: "is_numeral 16 t2" "text_val 16 t2 = unat u"
    "printk_write_num u 16 False 0 0 97 s3 = Some (Inr (int (length t2), emit t2 (s3\<lparr>v_buf := g2\<rparr>)))"
    using w by blast
  define s4 where "s4 = s3\<lparr>v_buf := g2\<rparr>"
  have m: "(junk AND NOT (mask 64)) OR (a AND mask 64) = a" by (rule bit_word_eqI) (auto simp: bit_simps)
  have n1: "num id 64 16 False 0 0 97 s = Some (Inr (int (length t1), emit t1 (s1\<lparr>v_buf := g1\<rparr>)))"
    using num_eval [of s a "[b]" id 64] t1(3) by (simp add: s_def s1_def m Let_def)
  have n2: "num id 16 16 False 0 0 97 s2 = Some (Inr (int (length t2), emit t2 s4))"
    using num_eval [of s2 b "[]" id 16] t2(3) by (simp add: s2 s1_def s_def s3_def s4_def u_def Let_def)
  have "vsprintf_loop (bytes ''%lx %hx'' @ [0]) 0 s = Some (Inr (int (length t1) + 1 + int (length t2), emit t2 s4))"
    by (simp add: bytes_codes vsprintf_conv convert_lx convert_hx n1 n2 s2_def [symmetric] bindC_def retC_def vsprintf_plain vsprintf_end)
  moreover have "emit t2 s4 = s4\<lparr>v_con := v_con s4 @ t2\<rparr>" by (rule emit_console) (simp add: s4_def s3_def s2 s1_def s_def)
  ultimately have "printk junk buf (bytes ''%lx %hx'' @ [0]) [a, b] m = Some (Inr (t1 @ [32] @ t2, g2))"
    by (simp add: printk_def simple_vsprintf_def s_def [symmetric] s3_def s4_def s2 retC_def) (simp add: s1_def s_def)
  then show ?thesis using t1 t2 u_def by blast
qed

text \<open>A format that ends inside a conversion makes the loop run on behind its terminating NUL.\<close>

lemma format_runs_off: "simple_vsprintf (bytes ''%l'' @ [0]) s = Some (Inl OutOfBounds)"
proof -
  have "vsprintf_loop [] pc s = Some (Inl OutOfBounds)" for pc s by (subst vsprintf_loop.simps) simp
  moreover have "convert 0 0 [108, 0] s = Some (Inr ((0, [0]), s))"
    by (simp add: convert_def fmt_char_def int_conv_def conv_l_def chr_codes retC_def)
  moreover have "bytes ''%l'' = [37, 108]" by (simp add: bytes_def)
  ultimately show ?thesis by (simp add: simple_vsprintf_def vsprintf_conv)
qed

end
