(* ===== verification/Ring.thy ===== *)
theory Ring
  imports Prelude
begin

text \<open>
  Ring buffers with free-running counters, as the pipe, the console and the serial line use them:
  the slot of a counter value, the bytes between two counters, and the interface of a bounded queue.
  The size of the buffer divides the range of the counter, so that slots go on evenly when it wraps around.
\<close>

section \<open>Windows\<close>

definition slot :: "nat \<Rightarrow> 'w::len word \<Rightarrow> nat" where "slot N w = unat w mod N"

definition window :: "nat \<Rightarrow> 'a list \<Rightarrow> 'w::len word \<Rightarrow> nat \<Rightarrow> 'a list" where
  "window N buf lo k = map (\<lambda>j. buf ! slot N (lo + of_nat j)) [0..<k]"

lemma length_window [simp]: "length (window N buf lo k) = k"
  by (simp add: window_def)

lemma window_0 [simp]: "window N buf lo 0 = []"
  by (simp add: window_def)

lemma word_diff_nat: "unat (a - b) = k \<Longrightarrow> a = b + of_nat k"
  by auto

lemma slot_less: "0 < N \<Longrightarrow> slot N w < N"
  by (simp add: slot_def)

lemma slot_add: "N dvd 2 ^ LENGTH('w) \<Longrightarrow> slot N (w + of_nat j :: 'w::len word) = (unat w + j) mod N"
proof -
  assume N: "N dvd 2 ^ LENGTH('w)"
  have "unat (w + of_nat j) = (unat w + j) mod 2 ^ LENGTH('w)" by (simp add: unat_word_ariths unat_of_nat mod_add_right_eq)
  then show ?thesis using N by (simp add: slot_def mod_mod_cancel)
qed

text \<open>Slots of counters less than a buffer apart are different, across the wrap-around.\<close>

lemma ring_slot_inj:
  assumes "N dvd 2 ^ LENGTH('w)" "j < k" "k < N"
  shows "slot N (w + of_nat j :: 'w::len word) \<noteq> slot N (w + of_nat k)"
proof
  assume "slot N (w + of_nat j) = slot N (w + of_nat k)"
  then have "(unat w + k) mod N = (unat w + j) mod N" using slot_add [OF assms(1)] by simp
  then have "N dvd (unat w + k) - (unat w + j)" using assms(2) by (simp only: mod_eq_dvd_iff_nat)
  then show False using assms(2,3) by (auto dest: dvd_imp_le)
qed

lemma window_snoc:
  assumes "N dvd 2 ^ LENGTH('w)" "k < N" "length buf = N"
  shows "window N (buf[slot N (lo + of_nat k) := x]) (lo :: 'w::len word) (Suc k) = window N buf lo k @ [x]"
proof -
  have "slot N (lo + of_nat k) < length buf" using assms(2,3) by (simp add: slot_less)
  moreover have "\<forall>j \<in> {0..<k}. slot N (lo + of_nat k) \<noteq> slot N (lo + of_nat j)"
    using ring_slot_inj [OF assms(1) _ assms(2)] by (metis atLeastLessThan_iff)
  ultimately show ?thesis by (simp add: window_def nth_list_update del: of_nat_Suc)
qed

lemma window_Cons: "window N buf lo (Suc k) = buf ! slot N lo # window N buf (lo + 1) k"
  by (simp add: window_def upt_conv_Cons map_Suc_upt [symmetric] comp_def add.assoc del: upt_Suc)

lemma window_append: "window N buf lo (j + k) = window N buf lo j @ window N buf (lo + of_nat j) k"
  by (induction j arbitrary: lo) (simp_all add: window_Cons window_def [of _ _ _ 0] add.assoc)

section \<open>Queues\<close>

text \<open>An interface of bounded queues: what the client of a ring buffer relies on.\<close>

locale bounded_queue =
  fixes valid :: "'q \<Rightarrow> bool" and contents :: "'q \<Rightarrow> 'a list" and cap :: nat
    and full :: "'q \<Rightarrow> bool" and empty :: "'q \<Rightarrow> bool" and enq :: "'a \<Rightarrow> 'q \<Rightarrow> 'q" and first :: "'q \<Rightarrow> 'a" and deq :: "'q \<Rightarrow> 'q"
  assumes full: "valid q \<Longrightarrow> full q \<longleftrightarrow> length (contents q) = cap"
    and le_cap: "valid q \<Longrightarrow> length (contents q) \<le> cap"
    and empty: "valid q \<Longrightarrow> empty q \<longleftrightarrow> contents q = []"
    and enq: "valid q \<Longrightarrow> \<not> full q \<Longrightarrow> valid (enq x q) \<and> contents (enq x q) = contents q @ [x]"
    and deq: "valid q \<Longrightarrow> \<not> empty q \<Longrightarrow> valid (deq q) \<and> contents q = first q # contents (deq q)"
begin

text \<open>Adding and removing runs of elements.\<close>

fun enqs :: "'a list \<Rightarrow> 'q \<Rightarrow> 'q" where
  "enqs [] q = q"
| "enqs (x # xs) q = enqs xs (enq x q)"

fun deqs :: "nat \<Rightarrow> 'q \<Rightarrow> 'q" where
  "deqs 0 q = q"
| "deqs (Suc n) q = deqs n (deq q)"

lemma enqs_contents: "valid q \<Longrightarrow> length (contents q) + length xs \<le> cap \<Longrightarrow> valid (enqs xs q) \<and> contents (enqs xs q) = contents q @ xs"
proof (induction xs arbitrary: q)
  case (Cons x xs)
  then have "valid (enq x q) \<and> contents (enq x q) = contents q @ [x]" using full enq by auto
  then show ?case using Cons.IH [of "enq x q"] Cons.prems by auto
qed simp

lemma deqs_contents: "valid q \<Longrightarrow> n \<le> length (contents q) \<Longrightarrow> valid (deqs n q) \<and> contents (deqs n q) = drop n (contents q)"
proof (induction n arbitrary: q)
  case (Suc n)
  then have "\<not> empty q" using empty by auto
  then have "valid (deq q) \<and> contents q = first q # contents (deq q)" using deq Suc.prems by blast
  then show ?case using Suc.IH [of "deq q"] Suc.prems by (metis Suc_le_mono deqs.simps(2) drop_Suc_Cons length_Cons)
qed simp

lemma full_not_empty: "valid q \<Longrightarrow> full q \<Longrightarrow> 0 < cap \<Longrightarrow> \<not> empty q"
  using full empty by auto

end

text \<open>
  A buffer of \<open>N\<close> places with a read and a write counter, and the operations on it as the code
  writes them, is such a queue: its elements are those between the counters.
\<close>

locale ring_buffer =
  fixes N :: nat and buf :: "'q \<Rightarrow> 'a list" and rd wr :: "'q \<Rightarrow> 'w::len word"
    and valid :: "'q \<Rightarrow> bool" and contents :: "'q \<Rightarrow> 'a list" and full empty :: "'q \<Rightarrow> bool"
    and enq :: "'a \<Rightarrow> 'q \<Rightarrow> 'q" and first :: "'q \<Rightarrow> 'a" and deq :: "'q \<Rightarrow> 'q"
  assumes ring_size: "N dvd 2 ^ LENGTH('w)" "N < 2 ^ LENGTH('w)"
    and ring_valid: "valid q \<longleftrightarrow> length (buf q) = N \<and> unat (wr q - rd q) \<le> N"
    and ring_contents: "contents q = window N (buf q) (rd q) (unat (wr q - rd q))"
    and ring_full: "full q \<longleftrightarrow> wr q = rd q + of_nat N"
    and ring_empty: "empty q \<longleftrightarrow> wr q = rd q"
    and ring_enq: "buf (enq x q) = (buf q)[slot N (wr q) := x]" "rd (enq x q) = rd q" "wr (enq x q) = wr q + 1"
    and ring_first: "first q = buf q ! slot N (rd q)"
    and ring_deq: "buf (deq q) = buf q" "rd (deq q) = rd q + 1" "wr (deq q) = wr q"
begin

lemma wr_eq: "wr q = rd q + of_nat (length (contents q))"
  by (simp add: ring_contents)

lemma fill_eq: "n \<le> N \<Longrightarrow> wr q - rd q = of_nat n \<Longrightarrow> unat (wr q - rd q) = n"
  using ring_size(2) by (simp add: unat_of_nat)

end

sublocale ring_buffer \<subseteq> bounded_queue valid contents N full empty enq first deq
proof
  fix q x assume v: "valid q"
  define k where "k = unat (wr q - rd q)"
  have k: "wr q = rd q + of_nat k" "k \<le> N" "length (buf q) = N" using v by (simp_all add: k_def ring_valid)
  have c: "contents q = window N (buf q) (rd q) k" by (simp add: ring_contents k_def)
  show full: "full q \<longleftrightarrow> length (contents q) = N"
    using fill_eq [of N q] by (auto simp: ring_full c k_def diff_eq_eq add.commute)
  show "length (contents q) \<le> N" using k(2) by (simp add: c)
  show "empty q \<longleftrightarrow> contents q = []" by (auto simp: ring_empty ring_contents window_def unsigned_eq_0_iff)
  show "valid (enq x q) \<and> contents (enq x q) = contents q @ [x]" if "\<not> full q"
  proof -
    have lt: "k < N" using that full k(2) by (simp add: c)
    have "wr (enq x q) - rd (enq x q) = of_nat (Suc k)" using k(1) by (simp add: ring_enq)
    then have k': "unat (wr (enq x q) - rd (enq x q)) = Suc k" using lt by (intro fill_eq) simp_all
    then have "contents (enq x q) = window N (buf (enq x q)) (rd q) (Suc k)" unfolding ring_contents by (simp only: ring_enq)
    then show ?thesis unfolding ring_valid k' c using k(3) lt window_snoc [OF ring_size(1) lt k(3)]
      by (simp only: ring_enq k(1) length_list_update Suc_leI)
  qed
  show "valid (deq q) \<and> contents q = first q # contents (deq q)" if "\<not> empty q"
  proof -
    have "k \<noteq> 0" using that by (simp add: ring_empty k_def unsigned_eq_0_iff)
    then obtain j where j: "k = Suc j" by (cases k) auto
    have "wr (deq q) - rd (deq q) = of_nat j" using k(1) j by (simp add: ring_deq)
    then have k': "unat (wr (deq q) - rd (deq q)) = j" using k(2) j by (intro fill_eq) simp_all
    then have "contents (deq q) = window N (buf q) (rd q + 1) j" unfolding ring_contents by (simp only: ring_deq)
    then show ?thesis unfolding ring_valid k' c j window_Cons using k(2,3) j by (simp add: ring_deq ring_first)
  qed
qed

end
