(* ===== verification/Pipe.thy ===== *)
theory Pipe
  imports Ring
begin

text \<open>
  Pipes, \<^verbatim>\<open>kernel/pipe.c\<close>: a ring buffer of \<^verbatim>\<open>PIPESIZE\<close> bytes with free-running 32-bit counters. A call runs
  under the pipe's lock up to its return or to a wait, where it gives up the lock; it is resumed
  from there, and other calls run in between. Copies from and to the caller's address space are arguments.
\<close>

definition PIPESIZE :: nat where "PIPESIZE = 4096"

record pipe =
  pi_data :: "u8 list"
  nread :: u32
  nwrite :: u32
  readopen :: bool
  writeopen :: bool

definition new_pipe :: "u8 list \<Rightarrow> pipe" where
  "new_pipe data = \<lparr>pi_data = data, nread = 0, nwrite = 0, readopen = True, writeopen = True\<rparr>"

definition ring :: "u32 \<Rightarrow> nat" where "ring w = unat (w mod of_nat PIPESIZE)"

section \<open>Operations\<close>

text \<open>The end of a run: the call returns a value, or waits with \<open>i\<close> bytes done.\<close>

datatype 'a run = Returns 'a | Waits nat

text \<open>\<open>cin a\<close> is the byte that \<^verbatim>\<open>spcae_data_copy_in\<close> finds at the address, \<open>None\<close> when it fails.\<close>

function pipewrite :: "(u64 \<Rightarrow> u8 option) \<Rightarrow> u64 \<Rightarrow> int \<Rightarrow> nat \<Rightarrow> pipe \<Rightarrow> int run \<times> pipe" where
  "pipewrite cin addr n i p =
     (if int i < n
      then if \<not> readopen p then (Returns (-1), p)
           else if nwrite p = nread p + of_nat PIPESIZE then (Waits i, p)
           else case cin (addr + of_nat i) of
                  None \<Rightarrow> (Returns (int i), p)
                | Some ch \<Rightarrow> pipewrite cin addr n (i + 1)
                    (p\<lparr>pi_data := (pi_data p)[ring (nwrite p) := ch], nwrite := nwrite p + 1\<rparr>)
      else (Returns (int i), p))"
  by pat_completeness auto

termination pipewrite
  by (relation "measure (\<lambda>(_, _, n, i, _). nat (n - int i))") auto

declare pipewrite.simps [simp del]

text \<open>\<open>cout a ch d\<close> is \<^verbatim>\<open>space_data_copy_out\<close> of one byte to the destination \<open>d\<close>.\<close>

function piperead_loop :: "(u64 \<Rightarrow> u8 \<Rightarrow> 'd \<Rightarrow> int \<times> 'd) \<Rightarrow> u64 \<Rightarrow> int \<Rightarrow> nat \<Rightarrow> pipe \<Rightarrow> 'd \<Rightarrow> int \<times> pipe \<times> 'd" where
  "piperead_loop cout addr n i p d =
     (if int i < n
      then if nread p = nwrite p then (int i, p, d)
           else let ch = pi_data p ! ring (nread p);
                    p = p\<lparr>nread := nread p + 1\<rparr>;
                    (r, d) = cout (addr + of_nat i) ch d
                in if r = -1 then (int i, p, d) else piperead_loop cout addr n (i + 1) p d
      else (int i, p, d))"
  by pat_completeness auto

termination piperead_loop
  by (relation "measure (\<lambda>(_, _, n, i, _, _). nat (n - int i))") auto

declare piperead_loop.simps [simp del]

definition piperead :: "(u64 \<Rightarrow> u8 \<Rightarrow> 'd \<Rightarrow> int \<times> 'd) \<Rightarrow> u64 \<Rightarrow> int \<Rightarrow> pipe \<Rightarrow> 'd \<Rightarrow> int run \<times> pipe \<times> 'd" where
  "piperead cout addr n p d =
     (if nread p = nwrite p \<and> writeopen p then (Waits 0, p, d)
      else let (r, p, d) = piperead_loop cout addr n 0 p d in (Returns r, p, d))"

text \<open>The flag says whether the pipe and its page are freed.\<close>

definition pipeclose :: "bool \<Rightarrow> pipe \<Rightarrow> bool \<times> pipe" where
  "pipeclose writable p =
     (let p = (if writable then p\<lparr>writeopen := False\<rparr> else p\<lparr>readopen := False\<rparr>)
      in (\<not> readopen p \<and> \<not> writeopen p, p))"

section \<open>The pipe as a queue\<close>

definition pvalid :: "pipe \<Rightarrow> bool" where
  "pvalid p \<longleftrightarrow> length (pi_data p) = PIPESIZE \<and> unat (nwrite p - nread p) \<le> PIPESIZE"

definition pcontents :: "pipe \<Rightarrow> u8 list" where
  "pcontents p = map (\<lambda>j. pi_data p ! ring (nread p + of_nat j)) [0..<unat (nwrite p - nread p)]"

definition pput :: "u8 \<Rightarrow> pipe \<Rightarrow> pipe" where
  "pput ch p = p\<lparr>pi_data := (pi_data p)[ring (nwrite p) := ch], nwrite := nwrite p + 1\<rparr>"

definition pget :: "pipe \<Rightarrow> pipe" where "pget p = p\<lparr>nread := nread p + 1\<rparr>"

definition pfull :: "pipe \<Rightarrow> bool" where "pfull p \<longleftrightarrow> nwrite p = nread p + of_nat PIPESIZE"
definition pempty :: "pipe \<Rightarrow> bool" where "pempty p \<longleftrightarrow> nread p = nwrite p"

lemma ring_slot: "ring w = slot PIPESIZE w"
  by (simp add: ring_def slot_def unat_mod PIPESIZE_def)

lemma pipe_ring: "PIPESIZE dvd 2 ^ LENGTH(32)" "0 < PIPESIZE"
  by (simp_all add: PIPESIZE_def)

lemma pcontents_window: "pcontents p = window PIPESIZE (pi_data p) (nread p) (unat (nwrite p - nread p))"
  by (simp add: pcontents_def window_def ring_slot)

interpretation pq: ring_buffer PIPESIZE pi_data nread nwrite pvalid pcontents pfull pempty pput "\<lambda>p. pi_data p ! ring (nread p)" pget
  by unfold_locales
    (simp_all add: pipe_ring PIPESIZE_def pvalid_def pcontents_window pfull_def pempty_def eq_commute pput_def pget_def
      ring_slot [unfolded PIPESIZE_def])

section \<open>Runs\<close>

text \<open>What a run does to the queue, in terms of the interface.\<close>

lemma pipewrite_step:
  "pipewrite cin addr n i p =
     (if int i < n
      then if \<not> readopen p then (Returns (-1), p)
           else if pfull p then (Waits i, p)
           else case cin (addr + of_nat i) of
                  None \<Rightarrow> (Returns (int i), p)
                | Some ch \<Rightarrow> pipewrite cin addr n (i + 1) (pput ch p)
      else (Returns (int i), p))"
  by (subst pipewrite.simps) (auto simp: pfull_def pput_def split: option.splits)

lemma piperead_step:
  "piperead_loop cout addr n i p d =
     (if int i < n
      then if pempty p then (int i, p, d)
           else let ch = pi_data p ! ring (nread p);
                    (r, d) = cout (addr + of_nat i) ch d
                in if r = -1 then (int i, pget p, d) else piperead_loop cout addr n (i + 1) (pget p) d
      else (int i, p, d))"
  by (subst piperead_loop.simps) (auto simp: pempty_def pget_def Let_def split: prod.splits)

lemma pput_flags [simp]: "readopen (pput ch p) = readopen p" "writeopen (pput ch p) = writeopen p"
  and pget_flags [simp]: "readopen (pget p) = readopen p" "writeopen (pget p) = writeopen p"
  by (simp_all add: pput_def pget_def)

text \<open>The bytes of a buffer that can be read.\<close>

definition buffer :: "(u64 \<Rightarrow> u8 option) \<Rightarrow> u64 \<Rightarrow> (nat \<Rightarrow> u8) \<Rightarrow> nat \<Rightarrow> bool" where
  "buffer cin addr bs n \<longleftrightarrow> (\<forall>j < n. cin (addr + of_nat j) = Some (bs j))"

lemma pipewrite_run:
  assumes "pvalid p" "readopen p" "buffer cin addr bs (nat n)" "i \<le> nat n"
  defines "m \<equiv> min (nat n - i) (PIPESIZE - length (pcontents p))"
  shows "\<exists>p'. pipewrite cin addr n i p = (if i + m = nat n then Returns (int (i + m)) else Waits (i + m), p') \<and>
    pvalid p' \<and> pcontents p' = pcontents p @ map bs [i..<i + m] \<and> readopen p' \<and> writeopen p' = writeopen p"
  using assms(1,2,4) unfolding m_def
proof (induction "nat n - i" arbitrary: i p)
  case 0
  then have "i = nat n" "\<not> int i < n" by linarith+
  then show ?case using 0 by (subst pipewrite_step) auto
next
  case (Suc k)
  then have i: "i < nat n" "int i < n" by linarith+
  show ?case
  proof (cases "pfull p")
    case True
    then have "length (pcontents p) = PIPESIZE" using pq.full Suc.prems(1) by blast
    then show ?thesis using True Suc.prems i by (subst pipewrite_step) auto
  next
    case False
    then have l: "length (pcontents p) < PIPESIZE" using pq.full pq.le_cap Suc.prems(1) by (metis le_neq_implies_less)
    have e: "pvalid (pput (bs i) p)" "pcontents (pput (bs i) p) = pcontents p @ [bs i]" using pq.enq [OF Suc.prems(1) False] by auto
    have st: "pipewrite cin addr n i p = pipewrite cin addr n (i + 1) (pput (bs i) p)"
      using False Suc.prems i assms(3) by (subst pipewrite_step) (simp add: buffer_def)
    define m' where "m' = min (nat n - (i + 1)) (PIPESIZE - length (pcontents (pput (bs i) p)))"
    have m: "min (nat n - i) (PIPESIZE - length (pcontents p)) = Suc m'"
      using i(1) l by (simp add: e(2) m'_def min_def) linarith
    have "k = nat n - (i + 1)" "i + 1 \<le> nat n" using Suc.hyps(2) i by simp_all
    then obtain p' where "pipewrite cin addr n (i + 1) (pput (bs i) p) = (if i + 1 + m' = nat n then Returns (int (i + 1 + m')) else Waits (i + 1 + m'), p')"
      "pvalid p'" "pcontents p' = pcontents (pput (bs i) p) @ map bs [i + 1..<i + 1 + m']" "readopen p'" "writeopen p' = writeopen (pput (bs i) p)"
      using Suc.hyps(1) [OF _ e(1)] Suc.prems(2) unfolding m'_def pput_flags by blast
    moreover have "[i..<i + Suc m'] = i # [i + 1..<i + 1 + m']" by (simp add: upt_conv_Cons)
    ultimately show ?thesis unfolding st m by (simp add: e(2))
  qed
qed

text \<open>A destination that takes every byte: a list that grows.\<close>

definition append_out :: "u64 \<Rightarrow> u8 \<Rightarrow> u8 list \<Rightarrow> int \<times> u8 list" where "append_out a ch d = (0, d @ [ch])"

lemma piperead_run:
  assumes "pvalid p" "i \<le> nat n"
  defines "m \<equiv> min (nat n - i) (length (pcontents p))"
  shows "\<exists>p'. piperead_loop append_out addr n i p d = (int (i + m), p', d @ take m (pcontents p)) \<and>
    pvalid p' \<and> pcontents p' = drop m (pcontents p) \<and> readopen p' = readopen p \<and> writeopen p' = writeopen p"
  using assms(1,2) unfolding m_def
proof (induction "nat n - i" arbitrary: i p d)
  case 0
  then have "i = nat n" "\<not> int i < n" by linarith+
  then show ?case using 0 by (subst piperead_step) auto
next
  case (Suc k)
  then have i: "i < nat n" "int i < n" by linarith+
  show ?case
  proof (cases "pempty p")
    case True
    then show ?thesis using i pq.empty [OF Suc.prems(1)] Suc.prems(1) by (subst piperead_step) auto
  next
    case False
    let ?c = "pi_data p ! ring (nread p)"
    have e: "pvalid (pget p)" "pcontents p = ?c # pcontents (pget p)" using pq.deq [OF Suc.prems(1) False] by auto
    have st: "piperead_loop append_out addr n i p d = piperead_loop append_out addr n (i + 1) (pget p) (d @ [?c])"
      using False i by (subst piperead_step) (simp add: append_out_def)
    have m: "min (nat n - i) (length (pcontents p)) = Suc (min (nat n - (i + 1)) (length (pcontents (pget p))))" using i by (subst e(2)) simp
    have "k = nat n - (i + 1)" "i + 1 \<le> nat n" using Suc.hyps(2) i by simp_all
    then obtain p' where p': "piperead_loop append_out addr n (i + 1) (pget p) (d @ [?c]) =
        (int (i + 1 + min (nat n - (i + 1)) (length (pcontents (pget p)))), p', (d @ [?c]) @ take (min (nat n - (i + 1)) (length (pcontents (pget p)))) (pcontents (pget p)))"
      "pvalid p'" "pcontents p' = drop (min (nat n - (i + 1)) (length (pcontents (pget p)))) (pcontents (pget p))" "readopen p' = readopen p" "writeopen p' = writeopen p"
      using Suc.hyps(1) [OF _ e(1), of "i + 1" "d @ [?c]"] by auto
    show ?thesis unfolding st m using p' by (subst (1 2) e(2)) simp
  qed
qed

section \<open>Properties\<close>

text \<open>
  C28: one run of a call, as an operation on the queue of bytes in the pipe. A write of a readable
  buffer, resumed after \<open>i\<close> bytes, appends the next bytes in order until all are written, when it
  returns the length, or the pipe is full, when it waits. A read from a pipe that holds bytes
  removes as many from the front as it asks for and delivers them in order; on an empty pipe it
  waits while the write end is open and returns 0 after. So a writer that waits and a reader
  that waits never face the same pipe: one of them can go on. The counters wrap around at \<open>2 ^ 32\<close>.
\<close>

theorem pipe_refines_queue:
  assumes "pvalid p" "readopen p" "buffer cin addr bs (nat n)" "i < nat n" "0 < k"
  shows "\<exists>p1 p2 m r. m = min (nat n - i) (PIPESIZE - length (pcontents p)) \<and> r = min (nat k) (length (pcontents p)) \<and>
    pipewrite cin addr n i p = (if i + m = nat n then Returns n else Waits (i + m), p1) \<and>
    pvalid p1 \<and> pcontents p1 = pcontents p @ map bs [i..<i + m] \<and>
    piperead append_out dst k p [] = (if pcontents p = [] \<and> writeopen p then Waits 0 else Returns (int r), p2, take r (pcontents p)) \<and>
    pvalid p2 \<and> pcontents p2 = drop r (pcontents p) \<and> (m = 0 \<longrightarrow> r \<noteq> 0)"
proof -
  define m where "m = min (nat n - i) (PIPESIZE - length (pcontents p))"
  define r where "r = min (nat k) (length (pcontents p))"
  obtain p1 where w: "pipewrite cin addr n i p = (if i + m = nat n then Returns (int (i + m)) else Waits (i + m), p1)"
    "pvalid p1" "pcontents p1 = pcontents p @ map bs [i..<i + m]"
    using pipewrite_run [OF assms(1-3) less_imp_le [OF assms(4)], folded m_def] by blast
  obtain p2 where rd: "piperead_loop append_out dst k 0 p [] = (int r, p2, take r (pcontents p))" "pvalid p2" "pcontents p2 = drop r (pcontents p)"
    using piperead_run [OF assms(1), of 0 k dst "[]"] unfolding r_def by auto
  have e: "nread p = nwrite p \<longleftrightarrow> pcontents p = []" using pq.empty [OF assms(1)] by (simp add: pempty_def)
  have pr: "piperead append_out dst k p [] = (if pcontents p = [] \<and> writeopen p then Waits 0 else Returns (int r), if pcontents p = [] \<and> writeopen p then p else p2, take r (pcontents p))"
    using rd(1) by (simp add: piperead_def e)
  have p2: "pvalid (if pcontents p = [] \<and> writeopen p then p else p2)" "pcontents (if pcontents p = [] \<and> writeopen p then p else p2) = drop r (pcontents p)"
    using rd(2,3) assms(1) by simp_all
  have mr: "m = 0 \<longrightarrow> r \<noteq> 0" using assms(4,5) by (auto simp: m_def r_def PIPESIZE_def)
  have "(if i + m = nat n then Returns (int (i + m)) else Waits (i + m)) = (if i + m = nat n then Returns n else Waits (i + m))"
    using assms(4) by (cases "0 \<le> n") simp_all
  then have w1: "pipewrite cin addr n i p = (if i + m = nat n then Returns n else Waits (i + m), p1)" using w(1) by simp
  show ?thesis
    by (rule exI [of _ p1], rule exI [of _ "if pcontents p = [] \<and> writeopen p then p else p2"], rule exI [of _ m], rule exI [of _ r])
      (intro conjI m_def r_def w1 w(2,3) pr p2 mr)
qed

definition sample_pipe :: pipe where "sample_pipe = new_pipe (replicate PIPESIZE 0)"

lemma sample_pipe_ok: "pvalid sample_pipe" "pcontents sample_pipe = []" "readopen sample_pipe" "writeopen sample_pipe"
  by (simp_all add: sample_pipe_def new_pipe_def pvalid_def pcontents_def)

theorem pipe_refines_queue_witness:
  "\<exists>p1. pipewrite (\<lambda>a. Some (ucast a)) 7 3 0 sample_pipe = (Returns 3, p1) \<and> pcontents p1 = [7, 8, 9]"
proof -
  have b: "buffer (\<lambda>a. Some (ucast a)) 7 (\<lambda>j. 7 + of_nat j) (nat 3)"
    unfolding buffer_def by (auto simp: less_Suc_eq numeral_3_eq_3)
  have "min (nat 3 - 0) (PIPESIZE - length (pcontents sample_pipe)) = 3" by (simp add: sample_pipe_ok PIPESIZE_def)
  then show ?thesis
    using pipe_refines_queue [OF sample_pipe_ok(1,3) b, of 0 1 0] by (auto simp: sample_pipe_ok upt_rec)
qed

text \<open>
  A history of calls on one pipe: each run of a write, begun or resumed after some bytes, from a buffer any part of which
  may be unreadable; each run of a read to a destination that can be written at the addresses \<open>ok\<close> only; and
  the closing of either end. The results are the bytes taken into the pipe in order, for each read the bytes
  delivered and those that it removed from the pipe behind them, and the pipe.
\<close>

datatype pcall = Write_run "u64 \<Rightarrow> u8 option" u64 int nat | Read_run "u64 \<Rightarrow> bool" u64 int | Close bool

definition out_if :: "(u64 \<Rightarrow> bool) \<Rightarrow> u64 \<Rightarrow> u8 \<Rightarrow> u8 list \<Rightarrow> int \<times> u8 list" where
  "out_if ok a ch d = (if ok a then (0, d @ [ch]) else (-1, d))"

fun accepted :: "int run \<Rightarrow> nat" where
  "accepted (Returns r) = nat r"
| "accepted (Waits i) = i"

definition removed :: "pipe \<Rightarrow> pipe \<Rightarrow> u8 list" where
  "removed p p' = take (length (pcontents p) - length (pcontents p')) (pcontents p)"

fun pipe_history :: "pcall list \<Rightarrow> pipe \<Rightarrow> u8 list \<times> (u8 list \<times> u8 list) list \<times> pipe" where
  "pipe_history [] p = ([], [], p)"
| "pipe_history (Write_run cin addr n i # cs) p =
     (let (r, p) = pipewrite cin addr n i p; (sent, got, p) = pipe_history cs p
      in (map (\<lambda>j. the (cin (addr + of_nat j))) [i..<accepted r] @ sent, got, p))"
| "pipe_history (Read_run ok addr n # cs) p =
     (let (_, p1, d) = piperead (out_if ok) addr n p []; (sent, got, p2) = pipe_history cs p1
      in (sent, (d, drop (length d) (removed p p1)) # got, p2))"
| "pipe_history (Close w # cs) p = pipe_history cs (snd (pipeclose w p))"

text \<open>A write takes the bytes of its buffer in order, up to the first that cannot be read.\<close>

lemma pipewrite_any:
  "pvalid p \<Longrightarrow> pipewrite cin addr n i p = (r, p') \<Longrightarrow>
    pvalid p' \<and> pcontents p' = pcontents p @ map (\<lambda>j. the (cin (addr + of_nat j))) [i..<accepted r] \<and> (readopen p \<longrightarrow> i \<le> accepted r)"
proof (induction "nat n - i" arbitrary: i p)
  case 0
  then show ?case by (subst (asm) (1) pipewrite_step) (auto split: if_splits)
next
  case (Suc k)
  show ?case
  proof (cases "readopen p \<and> \<not> pfull p \<and> cin (addr + of_nat i) \<noteq> None")
    case True
    then obtain ch where ch: "cin (addr + of_nat i) = Some ch" by auto
    have i: "int i < n" using Suc.hyps(2) by linarith
    have e: "pvalid (pput ch p)" "pcontents (pput ch p) = pcontents p @ [ch]" using pq.enq Suc.prems(1) True by auto
    have st: "pipewrite cin addr n (i + 1) (pput ch p) = (r, p')" using Suc.prems(2) True ch i by (subst (asm) pipewrite_step) simp
    have ih: "pvalid p'" "pcontents p' = pcontents (pput ch p) @ map (\<lambda>j. the (cin (addr + of_nat j))) [i + 1..<accepted r]"
      "readopen (pput ch p) \<longrightarrow> i + 1 \<le> accepted r"
      using Suc.hyps(1) [OF _ e(1) st] Suc.hyps(2) by auto
    have "i + 1 \<le> accepted r" using ih(3) True by simp
    then have "[i..<accepted r] = i # [i + 1..<accepted r]" "i \<le> accepted r" by (simp_all add: upt_conv_Cons)
    then show ?thesis using ih e ch by simp
  next
    case False
    then show ?thesis using Suc.prems by (subst (asm) pipewrite_step) (auto split: if_splits option.splits)
  qed
qed

text \<open>A read delivers the front of the pipe in order; when a copy fails, the byte it was given is gone.\<close>

lemma piperead_any:
  "pvalid p \<Longrightarrow> piperead_loop (out_if ok) addr n i p d = (r, p', d') \<Longrightarrow>
    \<exists>g x. d' = d @ g \<and> pcontents p = g @ x @ pcontents p' \<and> pvalid p' \<and> length x \<le> 1 \<and>
      (x \<noteq> [] \<longrightarrow> int (i + length g) < n \<and> \<not> ok (addr + of_nat (i + length g)))"
proof (induction "nat n - i" arbitrary: i p d)
  case 0
  then show ?case by (subst (asm) (1) piperead_step) (auto split: if_splits)
next
  case (Suc k)
  have i: "int i < n" using Suc.hyps(2) by linarith
  show ?case
  proof (cases "pempty p")
    case True
    then show ?thesis using Suc.prems i by (subst (asm) piperead_step) auto
  next
    case False
    let ?c = "pi_data p ! ring (nread p)"
    have e: "pvalid (pget p)" "pcontents p = ?c # pcontents (pget p)" using pq.deq [OF Suc.prems(1) False] by auto
    show ?thesis
    proof (cases "ok (addr + of_nat i)")
      case True
      have st: "piperead_loop (out_if ok) addr n (i + 1) (pget p) (d @ [?c]) = (r, p', d')"
        using Suc.prems(2) False i True by (subst (asm) piperead_step) (simp add: out_if_def)
      have "k = nat n - (i + 1)" using Suc.hyps(2) by simp
      from Suc.hyps(1) [OF this e(1) st] obtain g x where "d' = (d @ [?c]) @ g" "pcontents (pget p) = g @ x @ pcontents p'" "pvalid p'" "length x \<le> 1"
        "x \<noteq> [] \<longrightarrow> int (i + 1 + length g) < n \<and> \<not> ok (addr + of_nat (i + 1 + length g))"
        by blast
      then show ?thesis using e(2) by (intro exI [of _ "?c # g"] exI [of _ x]) simp
    next
      case no: False
      then have "p' = pget p" "d' = d" using Suc.prems(2) False i by (auto simp: piperead_step [of _ _ _ i] out_if_def)
      then show ?thesis using e no i by (intro exI [of _ "[]"] exI [of _ "[?c]"]) simp
    qed
  qed
qed

definition lost_ok :: "(u64 \<Rightarrow> bool) \<times> u64 \<times> int \<Rightarrow> u8 list \<times> u8 list \<Rightarrow> bool" where
  "lost_ok = (\<lambda>(ok, addr, n) (d, x). length x \<le> 1 \<and> (x \<noteq> [] \<longrightarrow> int (length d) < n \<and> \<not> ok (addr + of_nat (length d))))"

lemma read_run_ok:
  assumes "pvalid p" "piperead (out_if ok) addr n p [] = (r, p', d)"
  shows "pvalid p' \<and> d @ drop (length d) (removed p p') @ pcontents p' = pcontents p \<and> lost_ok (ok, addr, n) (d, drop (length d) (removed p p'))"
proof (cases "nread p = nwrite p \<and> writeopen p")
  case True
  then show ?thesis using assms by (auto simp: piperead_def removed_def lost_ok_def)
next
  case False
  then obtain r0 where "piperead_loop (out_if ok) addr n 0 p [] = (r0, p', d)" using assms(2) by (auto simp: piperead_def split: prod.splits)
  from piperead_any [OF assms(1) this] obtain x where x: "pcontents p = d @ x @ pcontents p'" "pvalid p'" "length x \<le> 1"
    "x \<noteq> [] \<longrightarrow> int (length d) < n \<and> \<not> ok (addr + of_nat (length d))" by auto
  have "drop (length d) (removed p p') = x" by (simp add: removed_def x(1))
  then show ?thesis using x by (simp add: lost_ok_def)
qed

fun reads_of :: "pcall list \<Rightarrow> ((u64 \<Rightarrow> bool) \<times> u64 \<times> int) list" where
  "reads_of [] = []"
| "reads_of (Read_run ok addr n # cs) = (ok, addr, n) # reads_of cs"
| "reads_of (c # cs) = reads_of cs"

text \<open>
  C29: a pipe is a stream, less the bytes that failing copies lose. Whatever calls run on a pipe, in whatever order, however often they wait in
  between and wherever copies from and to user memory fail, the bytes that the reads removed and those still in the pipe are together the
  bytes that were in it and those taken in, in the order they were taken in: none is repeated or overtaken, and at
  most \<^verbatim>\<open>PIPESIZE\<close> bytes are ever in it. Of what a read removed it delivers all, except that
  one byte is lost when the copy of that byte to the destination failed (\<^verbatim>\<open>piperead\<close> advances \<^verbatim>\<open>nread\<close> before the copy). So nothing is lost when every
  destination can be written.
\<close>

theorem pipe_stream:
  assumes "pvalid p" "pipe_history cs p = (sent, got, p')"
  shows "concat (map (\<lambda>(d, x). d @ x) got) @ pcontents p' = pcontents p @ sent \<and> length (pcontents p') \<le> PIPESIZE \<and>
    list_all2 lost_ok (reads_of cs) got \<and>
    ((\<forall>(ok, addr, n) \<in> set (reads_of cs). \<forall>j. int j < n \<longrightarrow> ok (addr + of_nat j)) \<longrightarrow> concat (map fst got) @ pcontents p' = pcontents p @ sent)"
  using assms
proof (induction cs p arbitrary: sent got rule: pipe_history.induct)
  case (1 p)
  then show ?case using pq.le_cap by simp
next
  case (2 cin addr n i cs p)
  obtain r p1 sent1 where 1: "pipewrite cin addr n i p = (r, p1)" "pipe_history cs p1 = (sent1, got, p')"
    "sent = map (\<lambda>j. the (cin (addr + of_nat j))) [i..<accepted r] @ sent1"
    using 2(3) by (auto split: prod.splits)
  then show ?case using pipewrite_any [OF 2(2) 1(1)] 2(1) [OF 1(1) [symmetric] refl _ 1(2)] by simp
next
  case (3 ok addr n cs p)
  obtain r p1 d got1 where 1: "piperead (out_if ok) addr n p [] = (r, p1, d)" "pipe_history cs p1 = (sent, got1, p')"
    "got = (d, drop (length d) (removed p p1)) # got1"
    using 3(3) by (auto split: prod.splits)
  note r = read_run_ok [OF 3(2) 1(1)]
  note ih = 3(1) [OF 1(1) [symmetric] refl refl conjunct1 [OF r] 1(2)]
  define x where "x = drop (length d) (removed p p1)"
  have x: "d @ x @ pcontents p1 = pcontents p" "lost_ok (ok, addr, n) (d, x)" using r by (simp_all add: x_def)
  have "x = []" if "\<forall>j. int j < n \<longrightarrow> ok (addr + of_nat j)" using x(2) that by (auto simp: lost_ok_def)
  then show ?case using ih x(2) unfolding 1(3) x_def [symmetric] x(1) [symmetric] by simp
next
  case (4 w cs p)
  have "pvalid (snd (pipeclose w p))" "pcontents (snd (pipeclose w p)) = pcontents p"
    using 4(2) by (simp_all add: pipeclose_def pvalid_def pcontents_def Let_def)
  then show ?case using 4 by simp
qed

text \<open>A write of three bytes, a read whose destination ends after one byte, and a read of the rest: the second byte is lost.\<close>

theorem pipe_stream_witness:
  "\<exists>p'. pipe_history [Write_run (\<lambda>a. Some (ucast a)) 7 3 0, Read_run (\<lambda>a. a < 101) 100 2, Close True, Read_run (\<lambda>_. True) 0 5] sample_pipe =
      ([7, 8, 9], [([7], [8]), ([9], [])], p') \<and> concat (map (\<lambda>(d, x). d @ x) [([7], [8]), ([9], [])]) @ pcontents p' = [7, 8, 9]"
proof -
  let ?cs = "[Write_run (\<lambda>a. Some (ucast a)) 7 3 0, Read_run (\<lambda>a. a < 101) 100 2, Close True, Read_run (\<lambda>_. True) 0 5]"
  have "\<exists>p'. pipe_history ?cs (new_pipe w) = ([7, 8, 9], [([7], [8]), ([9], [])], p')" if "length w = 4096" for w
    using that by (simp add: new_pipe_def pipewrite.simps piperead_def piperead_loop.simps PIPESIZE_def out_if_def ring_def pipeclose_def
        removed_def pcontents_def) (simp add: upt_rec)
  then have "\<exists>p'. pipe_history ?cs sample_pipe = ([7, 8, 9], [([7], [8]), ([9], [])], p')" unfolding sample_pipe_def by (simp only: length_replicate PIPESIZE_def)
  then obtain p' where h: "pipe_history ?cs sample_pipe = ([7, 8, 9], [([7], [8]), ([9], [])], p')" by blast
  from pipe_stream [OF sample_pipe_ok(1) h] have "concat (map (\<lambda>(d, x). d @ x) [([7], [8]), ([9], [])]) @ pcontents p' = [7, 8, 9 :: u8]"
    unfolding sample_pipe_ok(2) by (elim conjE) simp
  with h show ?thesis by blast
qed

end
