(* ===== verification/Console.thy ===== *)
theory Console
  imports Ring
begin

text \<open>
  The console and the serial line under it, \<^verbatim>\<open>kernel/console.c\<close> and \<^verbatim>\<open>kernel/uart.c\<close>: input is edited in
  a ring buffer by the interrupt handler and read by lines, output goes through a transmit ring.
  The device is the list of characters written to its transmit register; how often its status
  register says that it can take one more is an argument. A call that waits ends its run, and is run again when it is
  woken up.
\<close>

section \<open>Data\<close>

definition INPUT_BUF :: nat where "INPUT_BUF = 128"
definition UART_TX_BUF_SIZE :: nat where "UART_TX_BUF_SIZE = 32"
definition BACKSPACE :: int where "BACKSPACE = 256"

text \<open>\<^verbatim>\<open>C(x)\<close>, the control characters.\<close>

definition ctrl :: "string \<Rightarrow> int" where "ctrl x = uint (chr x) - 64"

record uart =
  tx_buf :: "u8 list"
  tx_w :: u64
  tx_r :: u64
  uart_wait_condition :: bool
  thr :: "u8 list"

record console =
  c_buf :: "u8 list"
  c_r :: u32
  c_w :: u32
  c_e :: u32
  console_wait_condition :: bool

record tty =
  cons :: console
  ua :: uart

section \<open>The serial line\<close>

text \<open>\<open>k\<close> counts how often the transmitter is found idle.\<close>

fun uartstart :: "nat \<Rightarrow> uart \<Rightarrow> uart" where
  "uartstart 0 u = u"
| "uartstart (Suc k) u =
     (if tx_w u = tx_r u then u
      else uartstart k (u\<lparr>tx_r := tx_r u + 1, thr := thr u @ [tx_buf u ! slot UART_TX_BUF_SIZE (tx_r u)], uart_wait_condition := True\<rparr>))"

text \<open>A run of \<^verbatim>\<open>uartpuc\<close>: false when the buffer is full and the call waits for the flag.\<close>

definition uartpuc :: "nat \<Rightarrow> u8 \<Rightarrow> uart \<Rightarrow> bool \<times> uart" where
  "uartpuc k c u =
     (if tx_w u = tx_r u + of_nat UART_TX_BUF_SIZE then (False, u)
      else let u = u\<lparr>tx_buf := (tx_buf u)[slot UART_TX_BUF_SIZE (tx_w u) := c], tx_w := tx_w u + 1\<rparr>
           in (True, (uartstart k u)\<lparr>uart_wait_condition := False\<rparr>))"

text \<open>It spins until the transmitter is idle.\<close>

definition uartputc_sync :: "int \<Rightarrow> uart \<Rightarrow> uart" where
  "uartputc_sync c u = u\<lparr>thr := thr u @ [of_int c]\<rparr>"

section \<open>The console\<close>

definition consputc :: "int \<Rightarrow> tty \<Rightarrow> tty" where
  "consputc c t =
     (if c = BACKSPACE
      then t\<lparr>ua := uartputc_sync 8 (uartputc_sync 32 (uartputc_sync 8 (ua t)))\<rparr>
      else t\<lparr>ua := uartputc_sync c (ua t)\<rparr>)"

definition upd_cons :: "(console \<Rightarrow> console) \<Rightarrow> tty \<Rightarrow> tty" where
  "upd_cons f t = t\<lparr>cons := f (cons t)\<rparr>"

definition consoleintr :: "int \<Rightarrow> tty \<Rightarrow> tty" where
  "consoleintr c t =
     (if c = ctrl ''H'' \<or> c = 127
      then if c_e (cons t) \<noteq> c_w (cons t)
           then consputc BACKSPACE (upd_cons (\<lambda>co. co\<lparr>c_e := c_e co - 1\<rparr>) t)
           else t
      else if c \<noteq> 0 \<and> unat (c_e (cons t) - c_r (cons t)) < INPUT_BUF
      then let c = (if c = 13 then 10 else c);
               t = consputc c t;
               t = upd_cons (\<lambda>co. co\<lparr>c_buf := (c_buf co)[slot INPUT_BUF (c_e co) := of_int c], c_e := c_e co + 1\<rparr>) t
           in if c = 10 \<or> c = ctrl ''D'' \<or> c_e (cons t) = c_r (cons t) + of_nat INPUT_BUF
              then upd_cons (\<lambda>co. co\<lparr>c_w := c_e co, console_wait_condition := True\<rparr>) t
              else t
      else t)"

text \<open>The interrupt handler: the characters the device has received, then the transmit buffer.\<close>

definition uartintr :: "int list \<Rightarrow> nat \<Rightarrow> tty \<Rightarrow> tty" where
  "uartintr input k t = (let t = fold consoleintr input t in t\<lparr>ua := uartstart k (ua t)\<rparr>)"

text \<open>
  A run of \<^verbatim>\<open>consoleread\<close> with \<open>n\<close> of \<open>target\<close> bytes to go: it ends with the number of bytes left when it
  waits, or with the result. \<open>cout\<close> copies one byte out and returns -1 when that fails.
\<close>

datatype read_run = Read_waits int u64 | Read_returns int

function consoleread_run :: "(u64 \<Rightarrow> u8 \<Rightarrow> 'd \<Rightarrow> int \<times> 'd) \<Rightarrow> int \<Rightarrow> u64 \<Rightarrow> int \<Rightarrow> console \<Rightarrow> 'd \<Rightarrow> read_run \<times> console \<times> 'd" where
  "consoleread_run cout target dst n co d =
     (if n > 0
      then if c_r co = c_w co then (Read_waits n dst, co, d)
           else let c = c_buf co ! slot INPUT_BUF (c_r co);
                    co = co\<lparr>c_r := c_r co + 1\<rparr>
                in if uint c = ctrl ''D''
                   then (Read_returns (target - n), (if n < target then co\<lparr>c_r := c_r co - 1\<rparr> else co)\<lparr>console_wait_condition := False\<rparr>, d)
                   else (case cout dst c d of (r, d) \<Rightarrow>
                     if r = -1 then (Read_returns (target - n), co\<lparr>console_wait_condition := False\<rparr>, d)
                     else if c = 10 then (Read_returns (target - (n - 1)), co\<lparr>console_wait_condition := False\<rparr>, d)
                     else consoleread_run cout target (dst + 1) (n - 1) co d)
      else (Read_returns (target - n), co\<lparr>console_wait_condition := False\<rparr>, d))"
  by pat_completeness auto

termination consoleread_run
  by (relation "measure (\<lambda>(_, _, _, n, _, _). nat n)") auto

declare consoleread_run.simps [simp del]

definition consoleread :: "(u64 \<Rightarrow> u8 \<Rightarrow> 'd \<Rightarrow> int \<times> 'd) \<Rightarrow> u64 \<Rightarrow> int \<Rightarrow> console \<Rightarrow> 'd \<Rightarrow> read_run \<times> console \<times> 'd" where
  "consoleread cout dst n co d = consoleread_run cout n dst n co d"

text \<open>A run of \<^verbatim>\<open>consolewrite\<close> from byte \<open>i\<close> on; \<open>ks\<close> are the readings of the device for each character.\<close>

fun consolewrite_run :: "(u64 \<Rightarrow> u8 option) \<Rightarrow> u64 \<Rightarrow> int \<Rightarrow> int \<Rightarrow> nat list \<Rightarrow> uart \<Rightarrow> int \<times> bool \<times> uart" where
  "consolewrite_run cin src n i [] u = (i, i \<ge> n, u)"
| "consolewrite_run cin src n i (k # ks) u =
     (if i < n
      then case cin (src + of_int i) of
             None \<Rightarrow> (i, True, u)
           | Some c \<Rightarrow> (case uartpuc k c u of
               (False, u) \<Rightarrow> (i, False, u)
             | (True, u) \<Rightarrow> consolewrite_run cin src n (i + 1) ks u)
      else (i, True, u))"

section \<open>The line discipline\<close>

text \<open>Input that can be read, and the line being typed.\<close>

definition ready :: "console \<Rightarrow> u8 list" where
  "ready co = window INPUT_BUF (c_buf co) (c_r co) (unat (c_w co - c_r co))"

definition line :: "console \<Rightarrow> u8 list" where
  "line co = window INPUT_BUF (c_buf co) (c_w co) (unat (c_e co - c_w co))"

definition cons_inv :: "console \<Rightarrow> bool" where
  "cons_inv co \<longleftrightarrow> length (c_buf co) = INPUT_BUF \<and> unat (c_w co - c_r co) + unat (c_e co - c_w co) \<le> INPUT_BUF"

text \<open>What a key does to the two.\<close>

definition key :: "int \<Rightarrow> u8 list \<times> u8 list \<Rightarrow> u8 list \<times> u8 list" where
  "key c = (\<lambda>(rdy, ln).
     if c = 8 \<or> c = 127 then (rdy, butlast ln)
     else if c \<noteq> 0 \<and> length rdy + length ln < INPUT_BUF
     then let c = (if c = 13 then 10 else c); ln = ln @ [of_int c]
          in if c = 10 \<or> c = 4 \<or> length rdy + length ln = INPUT_BUF then (rdy @ ln, []) else (rdy, ln)
     else (rdy, ln))"

text \<open>
  Reading at most \<open>n\<close> bytes: up to the end of a line; an end-of-file character ends the read, and is left
  for the next one when bytes were read before. The result is the bytes, what is left, and whether
  the reader waits.
\<close>

fun read_line :: "bool \<Rightarrow> nat \<Rightarrow> u8 list \<Rightarrow> u8 list \<times> u8 list \<times> bool" where
  "read_line started 0 rdy = ([], rdy, False)"
| "read_line started (Suc n) [] = ([], [], True)"
| "read_line started (Suc n) (c # rdy) =
     (if c = 4 then ([], if started then c # rdy else rdy, False)
      else if c = 10 then ([c], rdy, False)
      else let (got, rest, waits) = read_line True n rdy in (c # got, rest, waits))"

lemma ctrl_codes: "ctrl ''H'' = 8" "ctrl ''D'' = 4"
  by (simp_all add: ctrl_def chr_def bytes_def)

lemma input_ring: "INPUT_BUF dvd 2 ^ LENGTH(32)"
  by (simp add: INPUT_BUF_def)

lemma cons_total:
  assumes "cons_inv co"
  shows "unat (c_e co - c_r co) = length (ready co) + length (line co)"
    "window INPUT_BUF (c_buf co) (c_r co) (length (ready co) + length (line co)) = ready co @ line co"
    "c_w co = c_r co + of_nat (length (ready co))" "c_e co = c_w co + of_nat (length (line co))"
proof -
  let ?a = "unat (c_w co - c_r co)" let ?b = "unat (c_e co - c_w co)"
  have l: "length (ready co) = ?a" "length (line co) = ?b" by (simp_all add: ready_def line_def)
  show w: "c_w co = c_r co + of_nat (length (ready co))" "c_e co = c_w co + of_nat (length (line co))" by (simp_all add: l)
  have "c_e co - c_r co = of_nat (?a + ?b)" by simp
  then show "unat (c_e co - c_r co) = length (ready co) + length (line co)"
    using assms unfolding l by (simp add: cons_inv_def INPUT_BUF_def unat_of_nat del: of_nat_add)
  show "window INPUT_BUF (c_buf co) (c_r co) (length (ready co) + length (line co)) = ready co @ line co"
    unfolding window_append w(1) [symmetric] by (simp add: l ready_def line_def)
qed

text \<open>Each kind of step on the buffer.\<close>

lemma cons_push:
  fixes x :: u8
  assumes "cons_inv co" "length (ready co) + length (line co) < INPUT_BUF"
  defines "co' \<equiv> co\<lparr>c_buf := (c_buf co)[slot INPUT_BUF (c_e co) := x], c_e := c_e co + 1\<rparr>"
  shows "cons_inv co'" "ready co' = ready co" "line co' = line co @ [x]"
proof -
  let ?k = "length (ready co) + length (line co)"
  have e: "c_e co = c_r co + of_nat ?k" using cons_total(3,4) [OF assms(1)] by simp
  have l: "length (c_buf co) = INPUT_BUF" using assms(1) by (simp add: cons_inv_def)
  have "c_e co' - c_w co' = of_nat (Suc (length (line co)))" using cons_total(4) [OF assms(1)] by (simp add: co'_def)
  then have f: "unat (c_e co' - c_w co') = Suc (length (line co))" using assms(2) by (simp add: unat_of_nat INPUT_BUF_def del: of_nat_Suc)
  have "length (ready co) = unat (c_w co - c_r co)" by (simp add: ready_def)
  then show inv: "cons_inv co'" using assms(2) l unfolding cons_inv_def f by (simp add: co'_def)
  have len: "length (ready co') = length (ready co)" "length (line co') = Suc (length (line co))" by (simp_all add: ready_def line_def f) (simp add: co'_def)
  have "ready co' @ line co' = window INPUT_BUF (c_buf co') (c_r co') (Suc ?k)" using cons_total(2) [OF inv] by (simp add: len)
  also have "\<dots> = window INPUT_BUF (c_buf co) (c_r co) ?k @ [x]"
    using window_snoc [OF input_ring assms(2) l, of "c_r co" x] unfolding co'_def e by simp
  also have "\<dots> = ready co @ line co @ [x]" using cons_total(2) [OF assms(1)] by simp
  finally show "ready co' = ready co" "line co' = line co @ [x]" using len by auto
qed

lemma cons_commit:
  assumes "cons_inv co"
  shows "cons_inv (co\<lparr>c_w := c_e co, console_wait_condition := b\<rparr>)"
    "ready (co\<lparr>c_w := c_e co, console_wait_condition := b\<rparr>) = ready co @ line co"
    "line (co\<lparr>c_w := c_e co, console_wait_condition := b\<rparr>) = []"
  using assms cons_total(1,2) [OF assms] by (simp_all add: cons_inv_def ready_def line_def window_def [of _ _ _ 0])

lemma cons_erase:
  assumes "cons_inv co" "c_e co \<noteq> c_w co"
  shows "cons_inv (co\<lparr>c_e := c_e co - 1\<rparr>)" "ready (co\<lparr>c_e := c_e co - 1\<rparr>) = ready co" "line (co\<lparr>c_e := c_e co - 1\<rparr>) = butlast (line co)"
proof -
  have "unat (c_e co - c_w co) \<noteq> 0" using assms(2) by (simp add: unsigned_eq_0_iff)
  then obtain j where j: "unat (c_e co - c_w co) = Suc j" by (cases "unat (c_e co - c_w co)") auto
  then have "c_e co = c_w co + of_nat (Suc j)" by (rule word_diff_nat)
  then have "c_e co - 1 - c_w co = of_nat j" by simp
  moreover have "j < 2 ^ 32" using j assms(1) by (simp add: cons_inv_def INPUT_BUF_def)
  ultimately have f: "unat (c_e co - 1 - c_w co) = j" by (simp add: unat_of_nat)
  show "cons_inv (co\<lparr>c_e := c_e co - 1\<rparr>)" "ready (co\<lparr>c_e := c_e co - 1\<rparr>) = ready co"
    using assms(1) j by (simp_all add: cons_inv_def f ready_def)
  show "line (co\<lparr>c_e := c_e co - 1\<rparr>) = butlast (line co)" by (simp add: line_def f j window_def)
qed

lemma cons_pop:
  assumes "cons_inv co" "c_r co \<noteq> c_w co"
  shows "cons_inv (co\<lparr>c_r := c_r co + 1\<rparr>)" "ready co = c_buf co ! slot INPUT_BUF (c_r co) # ready (co\<lparr>c_r := c_r co + 1\<rparr>)" "line (co\<lparr>c_r := c_r co + 1\<rparr>) = line co"
proof -
  have "unat (c_w co - c_r co) \<noteq> 0" using assms(2) by (simp add: unsigned_eq_0_iff)
  then obtain j where j: "unat (c_w co - c_r co) = Suc j" by (cases "unat (c_w co - c_r co)") auto
  then have "c_w co = c_r co + of_nat (Suc j)" by (rule word_diff_nat)
  then have "c_w co - (c_r co + 1) = of_nat j" by simp
  moreover have "j < 2 ^ 32" using j assms(1) by (simp add: cons_inv_def INPUT_BUF_def)
  ultimately have f: "unat (c_w co - (c_r co + 1)) = j" by (simp add: unat_of_nat)
  show "cons_inv (co\<lparr>c_r := c_r co + 1\<rparr>)" "line (co\<lparr>c_r := c_r co + 1\<rparr>) = line co"
    using assms(1) j by (simp_all add: cons_inv_def f line_def)
  show "ready co = c_buf co ! slot INPUT_BUF (c_r co) # ready (co\<lparr>c_r := c_r co + 1\<rparr>)" by (simp add: ready_def f j window_Cons)
qed

lemma cons_flag [simp]:
  "cons_inv (co\<lparr>console_wait_condition := b\<rparr>) = cons_inv co" "ready (co\<lparr>console_wait_condition := b\<rparr>) = ready co"
  "line (co\<lparr>console_wait_condition := b\<rparr>) = line co"
  by (simp_all add: cons_inv_def ready_def line_def)

text \<open>A key, and a read.\<close>

lemma consputc_cons [simp]: "cons (consputc c t) = cons t"
  by (simp add: consputc_def)

lemma consoleintr_key:
  assumes "cons_inv (cons t)"
  shows "cons_inv (cons (consoleintr c t)) \<and> (ready (cons (consoleintr c t)), line (cons (consoleintr c t))) = key c (ready (cons t), line (cons t))"
proof -
  let ?co = "cons t"
  note total = cons_total [OF assms]
  consider "c = 8 \<or> c = 127" | "\<not> (c = 8 \<or> c = 127)" "c = 0 \<or> \<not> length (ready ?co) + length (line ?co) < INPUT_BUF"
    | "\<not> (c = 8 \<or> c = 127)" "c \<noteq> 0" "length (ready ?co) + length (line ?co) < INPUT_BUF" by blast
  then show ?thesis
  proof cases
    case 1
    have "line ?co = [] \<longleftrightarrow> c_e ?co = c_w ?co" by (auto simp: line_def window_def unsigned_eq_0_iff)
    then show ?thesis using 1 assms cons_erase [OF assms] by (auto simp: consoleintr_def key_def ctrl_codes upd_cons_def)
  next
    case 2
    then show ?thesis using assms by (auto simp: consoleintr_def key_def ctrl_codes total(1))
  next
    case 3
    define d where "d = (if c = 13 then 10 else c)"
    define co1 where "co1 = ?co\<lparr>c_buf := (c_buf ?co)[slot INPUT_BUF (c_e ?co) := of_int d], c_e := c_e ?co + 1\<rparr>"
    note p = cons_push [OF assms 3(3), of "of_int d", folded co1_def]
    have len: "length (line co1) = Suc (length (line ?co))" by (simp add: p)
    have w: "c_e co1 = c_r co1 + of_nat INPUT_BUF \<longleftrightarrow> length (ready co1) + length (line co1) = INPUT_BUF"
    proof -
      have "c_e co1 = c_r co1 + of_nat INPUT_BUF \<longleftrightarrow> c_e co1 - c_r co1 = of_nat INPUT_BUF" by (simp add: diff_eq_eq add.commute)
      also have "\<dots> \<longleftrightarrow> unat (c_e co1 - c_r co1) = INPUT_BUF" by (simp add: word_unat_eq_iff INPUT_BUF_def)
      finally show ?thesis using cons_total(1) [OF p(1)] by simp
    qed
    have "cons (consoleintr c t) = (if d = 10 \<or> d = 4 \<or> c_e co1 = c_r co1 + of_nat INPUT_BUF
        then co1\<lparr>c_w := c_e co1, console_wait_condition := True\<rparr> else co1)"
      using 3 unfolding co1_def by (simp add: consoleintr_def ctrl_codes total(1) Let_def d_def [symmetric] upd_cons_def cong: if_cong)
    then show ?thesis using 3 cons_commit [OF p(1)] p unfolding w by (simp add: key_def Let_def d_def [symmetric])
  qed
qed

lemma consoleintr_keys:
  "cons_inv (cons t) \<Longrightarrow> cons_inv (cons (fold consoleintr cs t)) \<and>
    (ready (cons (fold consoleintr cs t)), line (cons (fold consoleintr cs t))) = fold key cs (ready (cons t), line (cons t))"
  by (induction cs arbitrary: t) (simp_all add: consoleintr_key)

text \<open>A destination that takes every byte.\<close>

definition deliver :: "u64 \<Rightarrow> u8 \<Rightarrow> u8 list \<Rightarrow> int \<times> u8 list" where "deliver a ch d = (0, d @ [ch])"

lemma consoleread_line:
  assumes "cons_inv co" "n \<le> target" "read_line (n < target) (nat n) (ready co) = (got, rest, waits)" "0 \<le> n"
  shows "\<exists>co'. consoleread_run deliver target dst n co d =
      (if waits then Read_waits (n - int (length got)) (dst + of_nat (length got)) else Read_returns (target - n + int (length got)), co', d @ got) \<and>
    cons_inv co' \<and> ready co' = rest \<and> line co' = line co"
  using assms
proof (induction "nat n" arbitrary: n dst co d got rest waits)
  case 0
  then show ?case by (subst consoleread_run.simps) auto
next
  case (Suc k)
  have n: "0 < n" "nat n = Suc k" using Suc.hyps(2) by simp_all
  show ?case
  proof (cases "c_r co = c_w co")
    case True
    then have "ready co = []" by (simp add: ready_def)
    then show ?thesis using True n Suc.prems by (subst consoleread_run.simps) auto
  next
    case False
    define c where "c = c_buf co ! slot INPUT_BUF (c_r co)"
    define co1 where "co1 = co\<lparr>c_r := c_r co + 1\<rparr>"
    note p = cons_pop [OF Suc.prems(1) False, folded c_def co1_def]
    have d4: "uint c = 4 \<longleftrightarrow> c = 4" by (simp add: word_uint_eq_iff)
    have undo: "co1\<lparr>c_r := c_r co1 - 1\<rparr> = co" by (simp add: co1_def)
    have st: "consoleread_run deliver target dst n co d =
      (if c = 4 then (Read_returns (target - n), (if n < target then co else co1)\<lparr>console_wait_condition := False\<rparr>, d)
       else if c = 10 then (Read_returns (target - (n - 1)), co1\<lparr>console_wait_condition := False\<rparr>, d @ [c])
       else consoleread_run deliver target (dst + 1) (n - 1) co1 (d @ [c]))"
      using False n by (subst consoleread_run.simps) (simp add: ctrl_codes deliver_def Let_def c_def [symmetric] d4 co1_def [symmetric] undo)
    show ?thesis
    proof (cases "c = 4 \<or> c = 10")
      case True
      then show ?thesis using Suc.prems p unfolding st n(2) by auto
    next
      case False
      obtain got1 where g: "read_line (n - 1 < target) (nat (n - 1)) (ready co1) = (got1, rest, waits)" "got = c # got1"
        using Suc.prems(2,3) False unfolding n(2) p(2) using n by (auto split: prod.splits simp: nat_diff_distrib)
      have "k = nat (n - 1)" "n - 1 \<le> target" "0 \<le> n - 1" using n Suc.prems(2) by auto
      from Suc.hyps(1) [OF this(1) p(1) this(2) g(1) this(3), of "dst + 1" "d @ [c]"] show ?thesis
        unfolding st using False g(2) p(3) by (auto simp: algebra_simps)
    qed
  qed
qed

section \<open>The transmit buffer\<close>

definition uvalid :: "uart \<Rightarrow> bool" where
  "uvalid u \<longleftrightarrow> length (tx_buf u) = UART_TX_BUF_SIZE \<and> unat (tx_w u - tx_r u) \<le> UART_TX_BUF_SIZE"

definition pending :: "uart \<Rightarrow> u8 list" where
  "pending u = window UART_TX_BUF_SIZE (tx_buf u) (tx_r u) (unat (tx_w u - tx_r u))"

definition uput :: "u8 \<Rightarrow> uart \<Rightarrow> uart" where
  "uput c u = u\<lparr>tx_buf := (tx_buf u)[slot UART_TX_BUF_SIZE (tx_w u) := c], tx_w := tx_w u + 1\<rparr>"

definition ufirst :: "uart \<Rightarrow> u8" where "ufirst u = tx_buf u ! slot UART_TX_BUF_SIZE (tx_r u)"

definition usend :: "uart \<Rightarrow> uart" where
  "usend u = u\<lparr>tx_r := tx_r u + 1, thr := thr u @ [ufirst u], uart_wait_condition := True\<rparr>"

interpretation uq: ring_buffer UART_TX_BUF_SIZE tx_buf tx_r tx_w uvalid pending
  "\<lambda>u. tx_w u = tx_r u + of_nat UART_TX_BUF_SIZE" "\<lambda>u. tx_w u = tx_r u" uput ufirst usend
  by unfold_locales (simp_all add: uvalid_def pending_def uput_def ufirst_def usend_def UART_TX_BUF_SIZE_def)

lemma uartstart_step: "uartstart (Suc k) u = (if tx_w u = tx_r u then u else uartstart k (usend u))"
  by (simp add: usend_def ufirst_def)

lemma uartpuc_step:
  "uartpuc k c u = (if tx_w u = tx_r u + of_nat UART_TX_BUF_SIZE then (False, u) else (True, (uartstart k (uput c u))\<lparr>uart_wait_condition := False\<rparr>))"
  by (simp add: uartpuc_def uput_def)

lemma uflag [simp]: "uvalid (u\<lparr>uart_wait_condition := b\<rparr>) = uvalid u" "pending (u\<lparr>uart_wait_condition := b\<rparr>) = pending u"
  by (simp_all add: uvalid_def pending_def)

text \<open>The transmitter takes the pending bytes in order, as many as it has room for.\<close>

lemma uartstart_sends:
  assumes "uvalid u"
  shows "uvalid (uartstart k u) \<and> thr (uartstart k u) = thr u @ take k (pending u) \<and> pending (uartstart k u) = drop k (pending u) \<and>
    uart_wait_condition (uartstart k u) = (uart_wait_condition u \<or> (0 < k \<and> pending u \<noteq> []))"
  using assms
proof (induction k arbitrary: u)
  case (Suc k)
  show ?case
  proof (cases "tx_w u = tx_r u")
    case True
    then show ?thesis using Suc.prems uq.empty by simp
  next
    case False
    have d: "uvalid (usend u)" "pending u = ufirst u # pending (usend u)" using uq.deq [OF Suc.prems False] by auto
    have "uart_wait_condition (usend u)" "thr (usend u) = thr u @ [ufirst u]" by (simp_all add: usend_def)
    then show ?thesis using Suc.IH [OF d(1)] unfolding uartstart_step d(2) by (simp add: False)
  qed
qed simp

lemma uartpuc_puts:
  assumes "uvalid u" "uartpuc k c u = (True, u')"
  shows "uvalid u' \<and> thr u' @ pending u' = thr u @ pending u @ [c] \<and> \<not> uart_wait_condition u' \<and> pending u' = drop k (pending u @ [c])"
proof -
  have f: "tx_w u \<noteq> tx_r u + of_nat UART_TX_BUF_SIZE" "u' = (uartstart k (uput c u))\<lparr>uart_wait_condition := False\<rparr>"
    using assms(2) by (auto simp: uartpuc_step split: if_splits)
  have "uvalid (uput c u)" "pending (uput c u) = pending u @ [c]" "thr (uput c u) = thr u"
    using uq.enq [OF assms(1) f(1)] by (simp_all add: uput_def)
  then show ?thesis using uartstart_sends [of "uput c u" k] append_take_drop_id [of k "pending u @ [c]"]
    by (simp only: f(2) uflag append_assoc) simp
qed

section \<open>Properties\<close>

text \<open>
  C30: the console is a line discipline. An interrupt that delivers the characters \<open>cs\<close> does to the lines
  ready to be read and to the line being typed what the keys do one after the other: a backspace
  or delete takes back the last character of the line, never one of an earlier line, a carriage return counts as a newline, and a newline,
  a control-D or a full buffer makes the line ready; characters that find the buffer full are dropped. A read of \<open>n\<close> bytes then delivers
  the front of what is ready up to the first newline or control-D, and waits only when all that is ready was
  taken before it has \<open>n\<close> bytes. The counters wrap around at \<open>2 ^ 32\<close>.
\<close>

theorem console_line_discipline:
  assumes "cons_inv (cons t)" "0 \<le> n" "read_line False (nat n) (ready (cons (uartintr cs k t))) = (got, rest, waits)"
  shows "(ready (cons (uartintr cs k t)), line (cons (uartintr cs k t))) = fold key cs (ready (cons t), line (cons t)) \<and>
    (\<exists>co'. consoleread deliver dst n (cons (uartintr cs k t)) [] =
        (if waits then Read_waits (n - int (length got)) (dst + of_nat (length got)) else Read_returns (int (length got)), co', got) \<and>
      cons_inv co' \<and> ready co' = rest \<and> line co' = line (cons (uartintr cs k t)))"
proof -
  have e: "cons (uartintr cs k t) = cons (fold consoleintr cs t)" by (simp add: uartintr_def Let_def)
  note keys = consoleintr_keys [OF assms(1), of cs]
  have "read_line (n < n) (nat n) (ready (cons (fold consoleintr cs t))) = (got, rest, waits)" using assms(3) by (simp add: e)
  from consoleread_line [OF conjunct1 [OF keys] order_refl this assms(2), of dst "[]"] show ?thesis
    unfolding e consoleread_def using keys by auto
qed

definition sample_tty :: tty where
  "sample_tty = \<lparr>cons = \<lparr>c_buf = replicate INPUT_BUF 0, c_r = - 2, c_w = - 2, c_e = - 2, console_wait_condition = False\<rparr>,
     ua = \<lparr>tx_buf = replicate UART_TX_BUF_SIZE 0, tx_w = 32, tx_r = 0, uart_wait_condition = False, thr = []\<rparr>\<rparr>"

text \<open>The keys a, b, backspace, c, return and x on an empty console whose counters are about to wrap around.\<close>

theorem console_line_discipline_witness:
  "\<exists>co'. consoleread deliver 0 10 (cons (uartintr [97, 98, 127, 99, 13, 120] 0 sample_tty)) [] = (Read_returns 3, co', [97, 99, 10]) \<and> ready co' = []"
proof -
  let ?t = "uartintr [97, 98, 127, 99, 13, 120] 0 sample_tty"
  have inv: "cons_inv (cons sample_tty)" by (simp add: cons_inv_def sample_tty_def)
  have empty: "ready (cons sample_tty) = []" "line (cons sample_tty) = []" by (simp_all add: ready_def line_def sample_tty_def)
  have keys: "fold key [97, 98, 127, 99, 13, 120] ([], []) = ([97, 99, 10], [120])" by (simp add: key_def INPUT_BUF_def)
  obtain got rest waits where r: "read_line False (nat 10) (ready (cons ?t)) = (got, rest, waits)" by (metis prod_cases3)
  note p = console_line_discipline [OF inv _ r, of 0]
  have "ready (cons ?t) = [97, 99, 10]" using p unfolding empty keys by simp
  moreover have "read_line False (Suc (Suc (Suc 7))) [97, 99, 10] = ([97, 99, 10], [], False)" 
    by (simp only: read_line.simps Let_def prod.case) simp
  then have "read_line False (nat 10) [97, 99, 10] = ([97, 99, 10], [], False)" by (simp add: eval_nat_numeral)
  ultimately have "got = [97, 99, 10]" "rest = []" "\<not> waits" using r by auto
  then show ?thesis using p by auto
qed

text \<open>
  C31: what is written to the console comes out in order. A run of a write from byte \<open>i\<close> on, at whatever
  rate the transmitter takes characters, appends a run of the caller's bytes to those sent and those in the transmit buffer together,
  and keeps the buffer well formed; it stops early only at a full buffer.
\<close>

theorem consolewrite_order:
  assumes "uvalid u" "\<forall>j. cin (src + of_int j) = Some (bs j)" "consolewrite_run cin src n i ks u = (j, fin, u')"
  shows "i \<le> j \<and> uvalid u' \<and> thr u' @ pending u' = thr u @ pending u @ map bs [i..j - 1] \<and>
    (fin \<longrightarrow> n \<le> j) \<and> (\<not> fin \<longrightarrow> length (pending u') = UART_TX_BUF_SIZE \<or> j = i + int (length ks))"
  using assms
proof (induction cin src n i ks u rule: consolewrite_run.induct)
  case (2 cin src n i k ks u)
  show ?case
  proof (cases "i < n")
    case True
    have c: "cin (src + of_int i) = Some (bs i)" using 2(3) by blast
    show ?thesis
    proof (cases "tx_w u = tx_r u + of_nat UART_TX_BUF_SIZE")
      case full: True
      then have "(j, fin, u') = (i, False, u)" using 2(4) True c by (simp add: uartpuc_step)
      then show ?thesis using 2(2) full uq.full by simp
    next
      case space: False
      obtain u1 where u1: "uartpuc k (bs i) u = (True, u1)" using space by (simp add: uartpuc_step)
      note put = uartpuc_puts [OF 2(2) u1]
      have "consolewrite_run cin src n (i + 1) ks u1 = (j, fin, u')" using 2(4) True c u1 by simp
      note ih = 2(1) [OF True c u1 [symmetric] refl conjunct1 [OF put] 2(3) this]
      then have "[i..j - 1] = i # [i + 1..j - 1]" by (simp add: upto_rec1)
      then show ?thesis using ih put by auto
    qed
  next
    case False
    then show ?thesis using 2 by auto
  qed
qed auto

theorem consolewrite_order_witness:
  "\<exists>j fin u'. consolewrite_run (\<lambda>a. Some (ucast a)) 0 5 0 [1, 1, 1] (usend (ua sample_tty)) = (j, fin, u') \<and> 0 \<le> j \<and>
    thr u' @ pending u' = replicate 32 0 @ map of_int [0..j - 1]"
proof -
  obtain j fin u' where w: "consolewrite_run (\<lambda>a. Some (ucast a)) 0 5 0 [1, 1, 1] (usend (ua sample_tty)) = (j, fin, u')" by (metis prod_cases3)
  have v: "uvalid (ua sample_tty)" "pending (ua sample_tty) = replicate 32 0" "thr (ua sample_tty) = []" "tx_w (ua sample_tty) \<noteq> tx_r (ua sample_tty)"
    by (simp_all add: sample_tty_def uvalid_def pending_def window_def UART_TX_BUF_SIZE_def slot_def list_eq_iff_nth_eq)
  have s: "uvalid (usend (ua sample_tty))" "pending (ua sample_tty) = ufirst (ua sample_tty) # pending (usend (ua sample_tty))"
    using uq.deq [OF v(1,4)] by auto
  have t: "thr (usend (ua sample_tty)) = [ufirst (ua sample_tty)]" by (simp add: usend_def v(3))
  have "\<forall>j. Some (ucast (0 + of_int j :: u64)) = Some (of_int j :: u8)" by (auto simp: unsigned_of_int intro!: bit_word_eqI simp: bit_simps)
  note p = consolewrite_order [OF s(1) this w]
  then show ?thesis using w s(2) t unfolding v(2) by simp
qed

text \<open>
  A wake-up of a waiting writer can be lost. A writer that finds the transmit buffer full waits for the flag
  \<^verbatim>\<open>uart_wait_condition\<close>. The interrupt that empties the buffer sets it, but when another write comes first,
  \<^verbatim>\<open>uartpuc\<close> clears it after its own character has been sent: the buffer is then empty, the flag is false, and no later
  transmit interrupt sets it, since \<^verbatim>\<open>uartstart\<close> does so only when it sends a character. The first writer waits, with
  the whole buffer free, until somebody else writes.
\<close>

theorem uart_lost_wakeup:
  assumes "uvalid u" "tx_w u = tx_r u + of_nat UART_TX_BUF_SIZE" "UART_TX_BUF_SIZE \<le> k"
  shows "uartpuc k c u = (False, u) \<and> uart_wait_condition (uartstart k u) \<and>
    (\<exists>u'. uartpuc k d (uartstart k u) = (True, u') \<and> pending u' = [] \<and> \<not> uart_wait_condition u' \<and> (\<forall>j. uartstart j u' = u'))"
proof -
  have len: "length (pending u) = UART_TX_BUF_SIZE" using uq.full assms(1,2) by blast
  then have k: "0 < k" "pending u \<noteq> []" using assms(3) by (auto simp: UART_TX_BUF_SIZE_def)
  have s: "uvalid (uartstart k u)" "pending (uartstart k u) = []" "uart_wait_condition (uartstart k u)"
    using uartstart_sends [OF assms(1), of k] len assms(3) k by simp_all
  then have "tx_w (uartstart k u) \<noteq> tx_r (uartstart k u) + of_nat UART_TX_BUF_SIZE" using uq.full by (auto simp: UART_TX_BUF_SIZE_def)
  then obtain u' where u': "uartpuc k d (uartstart k u) = (True, u')" by (simp add: uartpuc_step)
  have p: "uvalid u'" "pending u' = []" "\<not> uart_wait_condition u'" using uartpuc_puts [OF s(1) u'] s(2) k(1) by auto
  have "uartstart j u' = u'" for j using uq.empty [OF p(1)] p(2) by (cases j) simp_all
  then show ?thesis using s u' p assms(2) by (simp add: uartpuc_step)
qed

theorem uart_lost_wakeup_witness:
  "\<exists>u'. uartpuc 32 65 (ua sample_tty) = (False, ua sample_tty) \<and> uartpuc 32 66 (uartstart 32 (ua sample_tty)) = (True, u') \<and>
    pending u' = [] \<and> \<not> uart_wait_condition u'"
proof -
  have "uvalid (ua sample_tty)" "tx_w (ua sample_tty) = tx_r (ua sample_tty) + of_nat UART_TX_BUF_SIZE" "UART_TX_BUF_SIZE \<le> 32"
    by (simp_all add: sample_tty_def uvalid_def UART_TX_BUF_SIZE_def)
  from uart_lost_wakeup [OF this] show ?thesis by blast
qed

end
