(* ===== verification/Chains.thy ===== *)
theory Chains
  imports Prelude
begin

text \<open>
  Doubly linked lists that end in null pointers, given by the functions \<open>nx\<close> and \<open>pv\<close> of their two pointers: the areas of an
  address space (theory Mmap) and the free blocks of the user heap (theory Umalloc). A list is abstracted to the sequence of its nodes.
\<close>

text \<open>Neighbours in \<open>ps\<close> point to each other; 0 has no pointers.\<close>

fun nlinked :: "(nat \<Rightarrow> nat) \<Rightarrow> (nat \<Rightarrow> nat) \<Rightarrow> nat list \<Rightarrow> bool" where
  "nlinked nx pv (a # b # ps) \<longleftrightarrow> (a \<noteq> 0 \<longrightarrow> nx a = b) \<and> (b \<noteq> 0 \<longrightarrow> pv b = a) \<and> nlinked nx pv (b # ps)"
| "nlinked nx pv ps \<longleftrightarrow> True"

definition chained :: "(nat \<Rightarrow> nat) \<Rightarrow> (nat \<Rightarrow> nat) \<Rightarrow> nat \<Rightarrow> nat list \<Rightarrow> bool" where
  "chained nx pv head xs \<longleftrightarrow> nlinked nx pv (0 # xs @ [0]) \<and> head = hd (xs @ [0]) \<and> distinct xs \<and> 0 \<notin> set xs"

lemma last_zero: "0 \<notin> set xs \<Longrightarrow> last (0 # xs) = (0 :: nat) \<longleftrightarrow> xs = []"
  by (cases xs rule: rev_cases) auto

lemma linked_append: "nlinked nx pv (ps @ a # qs) \<longleftrightarrow> nlinked nx pv (ps @ [a]) \<and> nlinked nx pv (a # qs)"
  by (induction nx pv ps rule: nlinked.induct) auto

lemma linked_cong:
  "\<forall>x \<in> set (butlast ps) - {0}. nx' x = nx x \<Longrightarrow> \<forall>x \<in> set (tl ps) - {0}. pv' x = pv x \<Longrightarrow> nlinked nx' pv' ps = nlinked nx pv ps"
proof (induction nx pv ps rule: nlinked.induct)
  case (1 nx pv a b ps)
  then show ?case by (cases ps) auto
qed simp_all

lemma linked_split: "nlinked nx pv (0 # xs @ ys @ [0]) \<Longrightarrow> nlinked nx pv (0 # xs) \<and> nlinked nx pv (ys @ [0])"
proof (induction xs rule: rev_induct)
  case Nil
  then show ?case by (cases ys) auto
next
  case (snoc x xs)
  then have "nlinked nx pv ((0 # xs) @ [x])" "nlinked nx pv (x # ys @ [0])" using linked_append [of nx pv "0 # xs" x "ys @ [0]"] by auto
  then show ?case by (cases ys) auto
qed

text \<open>The two parts of a list around nodes \<open>ms\<close> that link them anew, with the pointers of the parts unchanged but at the cut.\<close>

lemma relinked:
  assumes l: "nlinked nx pv (0 # xs)" "nlinked nx pv (ys @ [0])" and "distinct (xs @ ys)" "0 \<notin> set (xs @ ys)" "nlinked nx' pv' (last (0 # xs) # ms @ [hd (ys @ [0])])"
    "\<forall>x \<in> set xs. x \<noteq> last xs \<longrightarrow> nx' x = nx x" "\<forall>x \<in> set xs. pv' x = pv x"
    "\<forall>y \<in> set ys. nx' y = nx y" "\<forall>y \<in> set ys. y \<noteq> hd ys \<longrightarrow> pv' y = pv y"
  shows "nlinked nx' pv' (0 # xs @ ms @ ys @ [0])"
proof -
  have "\<forall>x \<in> set (butlast (0 # xs)) - {0}. nx' x = nx x"
    using assms(3,6) by (cases xs rule: rev_cases) auto
  then have l1: "nlinked nx' pv' (0 # xs)" using l(1) linked_cong [of "0 # xs" nx' nx pv' pv] assms(7) by simp
  have "\<forall>x \<in> set (tl (ys @ [0])) - {0}. pv' x = pv x"
    using assms(3,9) by (cases ys) auto
  then have l2: "nlinked nx' pv' (ys @ [0])" using l(2) linked_cong [of "ys @ [0]" nx' nx pv' pv] assms(8) by simp
  have xs: "0 # xs = butlast (0 # xs) @ [last (0 # xs)]" by (rule append_butlast_last_id [symmetric]) simp
  have ys: "ys @ [0] = hd (ys @ [0]) # tl (ys @ [0])" by simp
  have "nlinked nx' pv' ((last (0 # xs) # ms) @ hd (ys @ [0]) # tl (ys @ [0]))"
    using linked_append [of nx' pv' "last (0 # xs) # ms" "hd (ys @ [0])" "tl (ys @ [0])"] assms(5) l2 ys by (metis append_Cons)
  then have "nlinked nx' pv' (butlast (0 # xs) @ last (0 # xs) # ms @ ys @ [0])"
    using l1 xs ys linked_append [of nx' pv' "butlast (0 # xs)" "last (0 # xs)"] by (metis append_Cons)
  moreover have "butlast (0 # xs) @ last (0 # xs) # ms @ ys @ [0] = 0 # xs @ ms @ ys @ [0]" using xs by (metis append_Cons append_Nil append_assoc)
  ultimately show ?thesis by (simp only:)
qed

text \<open>The pointers around an element of a list.\<close>

lemma chained_at:
  assumes "chained nx pv head (xs @ v # ys)"
  shows "v \<noteq> 0" "pv v = last (0 # xs)" "nx v = hd (ys @ [0])" "last (0 # xs) = 0 \<longleftrightarrow> xs = []" "hd (ys @ [0]) = 0 \<longleftrightarrow> ys = []"
proof -
  show v: "v \<noteq> 0" using assms by (auto simp: chained_def)
  have "nlinked nx pv ((0 # xs) @ v # ys @ [0])" using assms by (simp add: chained_def)
  then have l: "nlinked nx pv ((0 # xs) @ [v])" "nlinked nx pv (v # ys @ [0])" using linked_append by blast+
  show "nx v = hd (ys @ [0])" using l(2) v by (cases ys) auto
  have "(0 # xs) @ [v] = butlast (0 # xs) @ last (0 # xs) # [v]" by (metis append_butlast_last_id append_Cons append_Nil append_assoc list.distinct(1))
  then have "nlinked nx pv (last (0 # xs) # [v])" using l(1) linked_append [of nx pv "butlast (0 # xs)" "last (0 # xs)" "[v]"] by simp
  then show "pv v = last (0 # xs)" using v by simp
  show "last (0 # xs) = 0 \<longleftrightarrow> xs = []" using assms by (intro last_zero) (simp add: chained_def)
  show "hd (ys @ [0]) = 0 \<longleftrightarrow> ys = []" using assms by (cases ys) (auto simp: chained_def)
qed

text \<open>A new node between two parts, and a node taken out; either part can be empty.\<close>

lemma chained_insert:
  assumes "chained nx pv head (xs @ ys)" "new \<noteq> 0" "new \<notin> set (xs @ ys)" and p: "p = last (0 # xs)" and q: "q = hd (ys @ [0])"
    and h: "\<And>x. x \<noteq> 0 \<Longrightarrow> nx' x = (if x = p then new else if x = new then q else nx x)" "\<And>x. x \<noteq> 0 \<Longrightarrow> pv' x = (if x = q then new else if x = new then p else pv x)"
    and "head' = (if xs = [] then new else head)"
  shows "chained nx' pv' head' (xs @ new # ys)"
proof -
  have dis: "distinct (xs @ ys)" "0 \<notin> set (xs @ ys)" using assms(1) by (auto simp: chained_def)
  have p0: "p = 0 \<longleftrightarrow> xs = []" unfolding p using dis(2) by (intro last_zero) simp
  have q0: "q = 0 \<longleftrightarrow> ys = []" unfolding q using dis(2) by (cases ys) auto
  have pq: "p \<noteq> 0 \<Longrightarrow> p \<in> set xs" "q \<noteq> 0 \<Longrightarrow> q \<in> set ys" by (auto simp: p q hd_append split: if_splits)
  have d: "p \<noteq> 0 \<Longrightarrow> p \<noteq> q \<and> p \<noteq> new" "q \<noteq> 0 \<Longrightarrow> q \<noteq> p \<and> q \<noteq> new" using pq dis(1) assms(2,3) p0 q0 by auto
  have nz: "x \<noteq> 0" if "x \<in> set xs \<union> set ys" for x using that dis(2) by (metis Un_iff set_append)
  have "nlinked nx' pv' (0 # xs @ [new] @ ys @ [0])"
  proof (rule relinked)
    have "nlinked nx pv (0 # xs @ ys @ [0])" using assms(1) by (simp add: chained_def)
    then show "nlinked nx pv (0 # xs)" "nlinked nx pv (ys @ [0])" using linked_split by blast+
    show "nlinked nx' pv' (last (0 # xs) # [new] @ [hd (ys @ [0])])" unfolding p [symmetric] q [symmetric] using d h assms(2) by auto
    show "\<forall>x \<in> set xs. x \<noteq> last xs \<longrightarrow> nx' x = nx x" using h nz assms(3) by (auto simp: p)
    show "\<forall>y \<in> set ys. y \<noteq> hd ys \<longrightarrow> pv' y = pv y" using h nz assms(3) by (auto simp: q hd_append)
    show "\<forall>x \<in> set xs. pv' x = pv x" using h nz assms(3) pq dis(1) by auto
    show "\<forall>y \<in> set ys. nx' y = nx y" using h nz assms(3) pq dis(1) by auto
  qed (use dis in auto)
  moreover have "head' = hd ((xs @ new # ys) @ [0])" using assms(1) assms(8) by (cases xs) (simp_all add: chained_def)
  ultimately show ?thesis using assms(2,3) dis unfolding chained_def by auto
qed

lemma chained_remove:
  assumes "chained nx pv head (xs @ v # ys)" and p: "p = last (0 # xs)" and q: "q = hd (ys @ [0])"
    and h: "\<And>x. x \<noteq> 0 \<Longrightarrow> x \<noteq> v \<Longrightarrow> nx' x = (if x = p then q else nx x)" "\<And>x. x \<noteq> 0 \<Longrightarrow> x \<noteq> v \<Longrightarrow> pv' x = (if x = q then p else pv x)"
    and "head' = (if xs = [] then q else head)"
  shows "chained nx' pv' head' (xs @ ys)"
proof -
  note c = chained_at [OF assms(1)]
  have dis: "distinct (xs @ ys)" "0 \<notin> set (xs @ ys)" "v \<notin> set (xs @ ys)" using assms(1) by (auto simp: chained_def)
  have pq: "p \<noteq> 0 \<Longrightarrow> p \<in> set xs" "q \<noteq> 0 \<Longrightarrow> q \<in> set ys" by (auto simp: p q hd_append split: if_splits)
  have d: "p \<noteq> 0 \<Longrightarrow> p \<noteq> q \<and> p \<noteq> v" "q \<noteq> 0 \<Longrightarrow> q \<noteq> p \<and> q \<noteq> v" using pq dis(1,3) by (metis Un_iff disjoint_iff distinct_append set_append)+
  have nz: "x \<noteq> 0 \<and> x \<noteq> v" if "x \<in> set xs \<union> set ys" for x using that dis(2,3) by (metis Un_iff set_append)
  have "nlinked nx' pv' (0 # xs @ [] @ ys @ [0])"
  proof (rule relinked)
    have "nlinked nx pv (0 # xs @ (v # ys) @ [0])" using assms(1) by (simp add: chained_def)
    then have "nlinked nx pv (0 # xs)" "nlinked nx pv ((v # ys) @ [0])" using linked_split by blast+
    then show "nlinked nx pv (0 # xs)" "nlinked nx pv (ys @ [0])" by (simp_all, cases ys) simp_all
    show "nlinked nx' pv' (last (0 # xs) # [] @ [hd (ys @ [0])])" unfolding p [symmetric] q [symmetric] using d h by auto
    show "\<forall>x \<in> set xs. x \<noteq> last xs \<longrightarrow> nx' x = nx x" using h nz by (auto simp: p)
    show "\<forall>y \<in> set ys. y \<noteq> hd ys \<longrightarrow> pv' y = pv y" using h nz by (auto simp: q hd_append)
    show "\<forall>x \<in> set xs. pv' x = pv x" using h nz pq dis(1) by auto
    show "\<forall>y \<in> set ys. nx' y = nx y" using h nz pq dis(1) by auto
  qed (use dis in auto)
  moreover have "head' = hd ((xs @ ys) @ [0])" using assms(1) assms(6) by (cases xs) (simp_all add: chained_def q)
  ultimately show ?thesis using dis unfolding chained_def by auto
qed

lemma chained_cong:
  assumes "chained nx pv head xs" "\<And>x. x \<in> set xs \<Longrightarrow> nx' x = nx x \<and> pv' x = pv x"
  shows "chained nx' pv' head xs"
proof -
  have "nlinked nx' pv' (0 # xs @ [0]) = nlinked nx pv (0 # xs @ [0])" using assms(2) by (intro linked_cong) (auto simp: butlast_append)
  then show ?thesis using assms(1) by (simp add: chained_def)
qed

end
