(* ===== verification/Mmap.thy ===== *)
theory Mmap
  imports Vm Monad Chains
begin

text \<open>
  Address spaces of processes, \<^verbatim>\<open>kernel/mmap.c\<close>, and the page fault handler of \<^verbatim>\<open>kernel/trap.c\<close>: a doubly linked
  list of areas that ends in null pointers, and the heap that \<^verbatim>\<open>brk\<close> and \<^verbatim>\<open>sbrk\<close> move. The areas are a store
  by address; the object that \<^verbatim>\<open>kmalloc\<close> returns for a new one is an argument, and the objects given to \<^verbatim>\<open>kfree\<close> are
  recorded. The page tables are those of theory Vm. Messages are left out.
\<close>

section \<open>Data\<close>

record vma =
  vm_start :: u64
  vm_end :: u64
  vm_next :: nat
  vm_prev :: nat
  vm_pgoff :: u64
  vm_flags :: u64

record space =
  areas :: "nat \<Rightarrow> vma"
  mmap :: nat
  start_brk :: u64
  brk :: u64
  pagetable :: u64
  freed :: "nat list"
  pmem :: vm

definition USER_MEM_START :: u64 where "USER_MEM_START = push_bit 32 1 * 8 + USER_CODE_VM_START"
definition USER_MEM_END :: u64 where "USER_MEM_END = USER_MEM_START + push_bit 32 1 * 30"
definition STACK_BOTTOM :: u64 where "STACK_BOTTOM = STACK_TOP - push_bit 32 10"

definition VM_READ :: u64 where "VM_READ = 1"
definition VM_WRITE :: u64 where "VM_WRITE = 2"
definition VM_EXEC :: u64 where "VM_EXEC = 4"
definition VM_MAYREAD :: u64 where "VM_MAYREAD = 0x10"
definition VM_MAYWRITE :: u64 where "VM_MAYWRITE = 0x20"
definition VM_MAYEXEC :: u64 where "VM_MAYEXEC = 0x40"
definition VM_GROWSDOWN :: u64 where "VM_GROWSDOWN = 0x100"
definition VM_DATA_FLAGS_NON_EXEC :: u64 where
  "VM_DATA_FLAGS_NON_EXEC = VM_READ OR VM_WRITE OR VM_MAYREAD OR VM_MAYWRITE OR VM_MAYEXEC"

definition EPERM :: int where "EPERM = 1"
definition ENOMEM :: int where "ENOMEM = 12"
definition EINVAL :: int where "EINVAL = 22"

definition upd_area :: "nat \<Rightarrow> (vma \<Rightarrow> vma) \<Rightarrow> space \<Rightarrow> space" where
  "upd_area p f st = st\<lparr>areas := (areas st)(p := f (areas st p))\<rparr>"

section \<open>The list of areas\<close>

partial_function (option) find_vma_from :: "(nat \<Rightarrow> vma) \<Rightarrow> u64 \<Rightarrow> nat \<Rightarrow> nat option" where
  "find_vma_from h addr vma =
     (if vma = 0 then Some 0
      else if vm_start (h vma) \<le> addr \<and> vm_end (h vma) > addr then Some vma
      else if vm_prev (h vma) = 0 \<and> addr < vm_start (h vma) then Some vma
      else if vm_prev (h vma) \<noteq> 0 \<and> vm_end (h (vm_prev (h vma))) \<le> addr \<and> vm_end (h vma) > addr then Some vma
      else find_vma_from h addr (vm_next (h vma)))"

definition find_vma :: "u64 \<Rightarrow> space \<Rightarrow> nat option" where
  "find_vma addr st = find_vma_from (areas st) addr (mmap st)"

definition find_vma_intersection :: "u64 \<Rightarrow> u64 \<Rightarrow> space \<Rightarrow> nat option" where
  "find_vma_intersection start end st =
     map_option (\<lambda>vma. if vma \<noteq> 0 \<and> end \<le> vm_start (areas st vma) then 0 else vma) (find_vma start st)"

text \<open>The two ways to put an area into the list: before \<open>v\<close> and after \<open>v\<close>.\<close>

definition link_before :: "nat \<Rightarrow> nat \<Rightarrow> space \<Rightarrow> space" where
  "link_before vma v st =
     (let prev = vm_prev (areas st v);
          st = upd_area vma (\<lambda>a. a\<lparr>vm_next := v, vm_prev := prev\<rparr>) st;
          st = upd_area v (\<lambda>a. a\<lparr>vm_prev := vma\<rparr>) st
      in if prev \<noteq> 0 then upd_area prev (\<lambda>a. a\<lparr>vm_next := vma\<rparr>) st else st\<lparr>mmap := vma\<rparr>)"

definition link_after :: "nat \<Rightarrow> nat \<Rightarrow> space \<Rightarrow> space" where
  "link_after vma v st =
     (let after = vm_next (areas st v);
          st = upd_area v (\<lambda>a. a\<lparr>vm_next := vma\<rparr>) st;
          st = upd_area vma (\<lambda>a. a\<lparr>vm_prev := v, vm_next := after\<rparr>) st
      in if after \<noteq> 0 then upd_area after (\<lambda>a. a\<lparr>vm_prev := vma\<rparr>) st else st)"

partial_function (option) insert_from :: "nat \<Rightarrow> nat \<Rightarrow> space \<Rightarrow> (int \<times> space) option" where
  "insert_from vma v st =
     (if v = 0 then Some (- ENOMEM, st)
      else let a = areas st v; new = areas st vma
           in if vm_end new \<le> vm_start a
              then if vm_prev a \<noteq> 0 \<and> vm_end (areas st (vm_prev a)) > vm_start new
                   then insert_from vma (vm_next a) st
                   else Some (0, link_before vma v st)
              else if vm_next a \<noteq> 0 \<and> vm_end new > vm_start (areas st (vm_next a))
                   then insert_from vma (vm_next a) st
                   else Some (0, link_after vma v st))"

definition insert_vm_struct :: "nat \<Rightarrow> space \<Rightarrow> (int \<times> space) option" where
  "insert_vm_struct vma st =
     (if mmap st = 0 then Some (0, upd_area vma (\<lambda>a. a\<lparr>vm_next := 0, vm_prev := 0\<rparr>) (st\<lparr>mmap := vma\<rparr>))
      else insert_from vma (mmap st) st)"

definition remove_vma :: "nat \<Rightarrow> space \<Rightarrow> (nat \<times> space) result" where
  "remove_vma vma st =
     (let after = vm_next (areas st vma); prev = vm_prev (areas st vma)
      in if prev = 0
         then let st = st\<lparr>mmap := after\<rparr>;
                  st = (if after \<noteq> 0 then upd_area after (\<lambda>a. a\<lparr>vm_prev := 0\<rparr>) st else st)
              in Inr (after, st\<lparr>freed := vma # freed st\<rparr>)
         else let st = upd_area prev (\<lambda>a. a\<lparr>vm_next := after\<rparr>) st
              in if after = 0 then Inl NullDeref
                 else let st = upd_area after (\<lambda>a. a\<lparr>vm_prev := prev\<rparr>) st
                      in Inr (after, st\<lparr>freed := vma # freed st\<rparr>))"

definition expand_downwards :: "nat \<Rightarrow> u64 \<Rightarrow> space \<Rightarrow> int \<times> space" where
  "expand_downwards vma address st =
     (let address = address AND PAGE_MASK
      in if address < STACK_BOTTOM then (- EPERM, st)
         else if address < vm_start (areas st vma) then (0, upd_area vma (\<lambda>a. a\<lparr>vm_start := PGROUNDDOWN address\<rparr>) st)
         else (0, st))"

section \<open>Unmapping\<close>

definition unmap_region :: "u64 \<Rightarrow> u64 \<Rightarrow> space \<Rightarrow> space result" where
  "unmap_region start end st =
     bindR (unmap_validpages (pagetable st) start ((end - start) div PGSIZE) (pmem st)) (\<lambda>p. Inr (st\<lparr>pmem := p\<rparr>))"

partial_function (option) remove_vma_region_from :: "nat \<Rightarrow> nat \<Rightarrow> u64 \<Rightarrow> u64 \<Rightarrow> space \<Rightarrow> space result option" where
  "remove_vma_region_from head tmp start end st =
     (if tmp = 0 then Some (Inr st)
      else let a = areas st tmp
           in case (if vm_start a \<ge> start \<and> vm_end a \<le> end
                    then bindR (unmap_region (vm_start a) (vm_end a) st) (\<lambda>st. bindR (remove_vma tmp st) (\<lambda>(_, st). Inr st))
                    else Inr st) of
                Inl e \<Rightarrow> Some (Inl e)
              | Inr st \<Rightarrow> if tmp = head then Some (Inr st) else remove_vma_region_from head (vm_next (areas st tmp)) start end st)"

definition remove_vma_region :: "nat \<Rightarrow> u64 \<Rightarrow> u64 \<Rightarrow> space \<Rightarrow> space result option" where
  "remove_vma_region head start end st = remove_vma_region_from head head start end st"

definition do_munmap :: "u64 \<Rightarrow> u64 \<Rightarrow> space \<Rightarrow> (int \<times> space) result option" where
  "do_munmap start len st =
     (if start > USER_MEM_END \<or> len > USER_MEM_END - start \<or> USER_MEM_START > start then Some (Inr (- EINVAL, st))
      else let len = PAGE_ALIGN len; end = start + len
           in if len = 0 then Some (Inr (- EINVAL, st))
              else case find_vma_intersection start end st of
                     None \<Rightarrow> None
                   | Some vma \<Rightarrow>
                       if vma = 0 then Some (Inr (0, st))
                       else if vm_start (areas st vma) > start then Some (Inr (- EINVAL, st))
                       else Some (bindR (unmap_region start end st) (\<lambda>st.
                              if start_brk st = start then bindR (remove_vma vma st) (\<lambda>(_, st). Inr (0, st))
                              else Inr (0, upd_area vma (\<lambda>a. a\<lparr>vm_end := start\<rparr>) st))))"

section \<open>The heap\<close>

text \<open>\<open>new\<close> is what \<^verbatim>\<open>kmalloc\<close> returns; the code does not test it.\<close>

definition do_brk_flags :: "nat \<Rightarrow> u64 \<Rightarrow> u64 \<Rightarrow> space \<Rightarrow> (int \<times> space) result option" where
  "do_brk_flags new addr len st =
     (let end = addr + PGROUNDUP len
      in case find_vma (start_brk st) st of
           None \<Rightarrow> None
         | Some vma \<Rightarrow>
             if vma = 0 \<or> vm_start (areas st vma) > end
             then if new = 0 then Some (Inl NullDeref)
                  else let st = upd_area new (\<lambda>_. \<lparr>vm_start = addr, vm_end = end, vm_next = 0, vm_prev = 0,
                                  vm_pgoff = drop_bit PGSHIFT addr, vm_flags = VM_DATA_FLAGS_NON_EXEC\<rparr>) st
                       in map_option (\<lambda>(_, st). Inr (0, st)) (insert_vm_struct new st)
             else if vm_end (areas st vma) \<le> end then Some (Inr (0, upd_area vma (\<lambda>a. a\<lparr>vm_end := end\<rparr>) st))
             else Some (Inr (0, st)))"

definition do_brk :: "nat \<Rightarrow> u64 \<Rightarrow> space \<Rightarrow> (u64 \<times> space) result option" where
  "do_brk new b st =
     (let origbrk = brk st; newbrk = PGROUNDDOWN b; oldbrk = brk st
      in if b < start_brk st then Some (Inr (origbrk, st))
         else if oldbrk = newbrk then Some (Inr (b, st\<lparr>brk := b\<rparr>))
         else if b < brk st
         then map_option (\<lambda>r. bindR r (\<lambda>(ret, st). if ret < 0 then Inr (origbrk, st\<lparr>brk := origbrk\<rparr>) else Inr (b, st)))
                (do_munmap newbrk (oldbrk - newbrk) (st\<lparr>brk := newbrk\<rparr>))
         else map_option (\<lambda>r. bindR r (\<lambda>(ret, st). if ret < 0 then Inr (origbrk, st) else Inr (b, st\<lparr>brk := b\<rparr>)))
                (do_brk_flags new oldbrk (PGROUNDUP b - oldbrk) st))"

definition sbrk :: "nat \<Rightarrow> u64 \<Rightarrow> space \<Rightarrow> (u64 \<times> space) result option" where
  "sbrk new sz st =
     (let old_brk = brk st
      in if sz = 0 then Some (Inr (old_brk, st))
         else map_option (\<lambda>r. bindR r (\<lambda>(new_brk, st). Inr (if old_brk = new_brk then 0 else new_brk - PGROUNDUP sz, st)))
                (do_brk new (brk st + PGROUNDUP sz) st))"

definition sys_brk :: "nat \<Rightarrow> u64 \<Rightarrow> space \<Rightarrow> (bool \<times> space) result option" where
  "sys_brk new addr st =
     (let old_brk = brk st in map_option (\<lambda>r. bindR r (\<lambda>(new_brk, st). Inr (old_brk = new_brk, st))) (do_brk new addr st))"

section \<open>Page faults\<close>

definition handle_mm_fault :: "nat \<Rightarrow> u64 \<Rightarrow> bool \<Rightarrow> space \<Rightarrow> (int \<times> space) result" where
  "handle_mm_fault vma address user st =
     (let fl = vm_flags (areas st vma);
          perm = (if user then PTE_U else 0) OR (if fl AND VM_EXEC \<noteq> 0 then PTE_X else 0) OR
            (if fl AND VM_READ \<noteq> 0 then PTE_R else 0) OR (if fl AND VM_WRITE \<noteq> 0 then PTE_W else 0);
          (mem, p) = alloc_page (pmem st)
      in if mem = 0 then Inr (- ENOMEM, st\<lparr>pmem := p\<rparr>)
         else bindR (mappages (pagetable st) (address AND PAGE_MASK) PGSIZE mem perm (clear_page mem p)) (\<lambda>(_, p). Inr (0, st\<lparr>pmem := p\<rparr>)))"

text \<open>A fault of a process with an address space, outside atomic sections; \<open>uaccess\<close> is the access bit of the status register.\<close>

definition do_page_fault :: "bool \<Rightarrow> bool \<Rightarrow> u64 \<Rightarrow> space \<Rightarrow> space result option" where
  "do_page_fault user uaccess addr st =
     (if \<not> user \<and> addr < USER_MEM_START \<and> \<not> uaccess then Some (Inl (Panic ''access to user memory without uaccess routines''))
      else case find_vma addr st of
             None \<Rightarrow> None
           | Some vma \<Rightarrow>
               let bad = Some (Inl (Panic (if user then ''do_trap'' else ''bad_area'')));
                   good = (\<lambda>st. Some (bindR (handle_mm_fault vma addr user st) (\<lambda>(_, st). Inr st)))
               in if vma = 0 then bad
                  else if vm_start (areas st vma) \<le> addr then good st
                  else if vm_flags (areas st vma) AND VM_GROWSDOWN = 0 then bad
                  else case expand_downwards vma addr st of (r, st) \<Rightarrow> if r \<noteq> 0 then bad else good st)"

section \<open>The list as a sequence\<close>

abbreviation vnext :: "space \<Rightarrow> nat \<Rightarrow> nat" where "vnext st x \<equiv> vm_next (areas st x)"
abbreviation vprev :: "space \<Rightarrow> nat \<Rightarrow> nat" where "vprev st x \<equiv> vm_prev (areas st x)"

definition chain :: "space \<Rightarrow> nat list \<Rightarrow> bool" where
  "chain st xs \<longleftrightarrow> chained (vnext st) (vprev st) (mmap st) xs"

definition before :: "vma \<Rightarrow> vma \<Rightarrow> bool" where "before a b \<longleftrightarrow> vm_end a \<le> vm_start b"

definition area_ok :: "vma \<Rightarrow> bool" where
  "area_ok a \<longleftrightarrow> vm_start a < vm_end a \<and> vm_start a mod PGSIZE = 0 \<and> vm_end a mod PGSIZE = 0"

text \<open>A well-formed address space: areas are not empty, begin and end at page boundaries and lie in order without overlap.\<close>

definition space_inv :: "space \<Rightarrow> nat list \<Rightarrow> bool" where
  "space_inv st xs \<longleftrightarrow> chain st xs \<and> (\<forall>x \<in> set xs. area_ok (areas st x)) \<and> sorted_wrt (\<lambda>x y. before (areas st x) (areas st y)) xs"

text \<open>Both ways to insert are the same: between a predecessor and a successor, each of which can be missing.\<close>

definition link_between :: "nat \<Rightarrow> nat \<Rightarrow> nat \<Rightarrow> space \<Rightarrow> space" where
  "link_between p new q st =
     (let h = (areas st)(new := (areas st new)\<lparr>vm_prev := p, vm_next := q\<rparr>);
          h = (if p \<noteq> 0 then h(p := (h p)\<lparr>vm_next := new\<rparr>) else h);
          h = (if q \<noteq> 0 then h(q := (h q)\<lparr>vm_prev := new\<rparr>) else h)
      in st\<lparr>areas := h, mmap := (if p = 0 then new else mmap st)\<rparr>)"

lemma link_between_chain:
  assumes "chain st (xs @ ys)" "new \<noteq> 0" "new \<notin> set (xs @ ys)"
  shows "chain (link_between (last (0 # xs)) new (hd (ys @ [0])) st) (xs @ new # ys)"
proof -
  have dis: "distinct (xs @ ys)" "0 \<notin> set (xs @ ys)" using assms(1) by (auto simp: chain_def chained_def)
  have z: "last (0 # xs) = 0 \<longleftrightarrow> xs = []" using dis(2) by (intro last_zero) simp
  have d: "last (0 # xs) = 0 \<or> last (0 # xs) \<notin> set (new # ys)" "hd (ys @ [0]) = 0 \<or> hd (ys @ [0]) \<notin> set (new # xs)"
    using assms dis by (auto simp: chain_def chained_def hd_append split: if_splits dest: last_in_set hd_in_set)
  show ?thesis unfolding chain_def
    by (rule chained_insert [OF assms(1) [unfolded chain_def] assms(2,3) refl refl]) (use d z in \<open>auto simp: link_between_def Let_def\<close>)
qed

text \<open>The pointers around an element of the list.\<close>

lemmas chain_at = chained_at [where nx = "vnext st" and pv = "vprev st" and head = "mmap st" for st, folded chain_def]

lemma find_vma_rest:
  assumes "chain st (xs @ ys)" "\<forall>x \<in> set (xs @ ys). vm_start (areas st x) \<le> vm_end (areas st x)" "\<forall>x \<in> set xs. vm_end (areas st x) \<le> addr"
  shows "find_vma_from (areas st) addr (hd (ys @ [0])) = Some (hd (filter (\<lambda>x. addr < vm_end (areas st x)) ys @ [0]))"
  using assms
proof (induction ys arbitrary: xs)
  case Nil
  then show ?case by (simp add: find_vma_from.simps)
next
  case (Cons v ys)
  note c = chain_at [OF Cons.prems(1)]
  have le: "vm_start (areas st v) \<le> vm_end (areas st v)" using Cons.prems(2) by simp
  have prev: "xs = [] \<or> vm_end (areas st (last (0 # xs))) \<le> addr" using Cons.prems(3) by (cases "xs = []") auto
  show ?case
  proof (cases "addr < vm_end (areas st v)")
    case True
    then show ?thesis using c prev by (subst find_vma_from.simps) auto
  next
    case False
    then have "find_vma_from (areas st) addr v = find_vma_from (areas st) addr (hd (ys @ [0]))" using c le by (subst find_vma_from.simps) auto
    then show ?thesis using Cons.IH [of "xs @ [v]"] Cons.prems False by auto
  qed
qed

lemma find_vma_first:
  assumes "space_inv st xs"
  shows "find_vma addr st = Some (hd (filter (\<lambda>x. addr < vm_end (areas st x)) xs @ [0]))"
proof -
  have "mmap st = hd (xs @ [0])" using assms by (simp add: space_inv_def chain_def chained_def)
  then show ?thesis using find_vma_rest [of st "[]" xs addr] assms by (simp add: find_vma_def space_inv_def area_ok_def less_imp_le)
qed

text \<open>Insertion between two areas.\<close>

lemma link_before_eq:
  "vm_prev (areas st v) = p \<Longrightarrow> v \<noteq> 0 \<Longrightarrow> p \<noteq> v \<Longrightarrow> new \<noteq> v \<Longrightarrow> new \<noteq> p \<Longrightarrow> link_before new v st = link_between p new v st"
  by (auto simp: link_before_def link_between_def upd_area_def Let_def fun_eq_iff intro!: space.equality)

lemma link_after_eq:
  "vm_next (areas st v) = q \<Longrightarrow> v \<noteq> 0 \<Longrightarrow> q \<noteq> v \<Longrightarrow> new \<noteq> v \<Longrightarrow> new \<noteq> q \<Longrightarrow> link_after new v st = link_between v new q st"
  by (auto simp: link_after_def link_between_def upd_area_def Let_def fun_eq_iff intro!: space.equality)

lemma link_eq:
  assumes "chain st (xs @ ys)" "new \<noteq> 0" "new \<notin> set (xs @ ys)"
  shows "ys \<noteq> [] \<Longrightarrow> link_before new (hd ys) st = link_between (last (0 # xs)) new (hd (ys @ [0])) st"
    "xs \<noteq> [] \<Longrightarrow> link_after new (last xs) st = link_between (last (0 # xs)) new (hd (ys @ [0])) st"
proof -
  have d: "last (0 # xs) = 0 \<or> last (0 # xs) \<notin> set (new # ys)" "hd (ys @ [0]) = 0 \<or> hd (ys @ [0]) \<notin> set (new # xs)"
    using assms by (auto simp: chain_def chained_def hd_append split: if_splits dest: last_in_set hd_in_set)
  show "link_before new (hd ys) st = link_between (last (0 # xs)) new (hd (ys @ [0])) st" if ne: "ys \<noteq> []"
  proof -
    obtain v ys' where ys: "ys = v # ys'" using ne by (cases ys) auto
    note c = chain_at [OF assms(1) [unfolded ys]]
    show ?thesis using link_before_eq [OF c(2,1)] d c(1) assms(2,3) unfolding ys by auto
  qed
  show "link_after new (last xs) st = link_between (last (0 # xs)) new (hd (ys @ [0])) st" if ne: "xs \<noteq> []"
  proof -
    obtain xs' v where xs: "xs = xs' @ [v]" using ne by (cases xs rule: rev_cases) auto
    have "chain st (xs' @ v # ys)" using assms(1) xs by simp
    note c = chain_at [OF this]
    show ?thesis using link_after_eq [OF c(3,1)] d c(1) assms(2,3) unfolding xs by auto
  qed
qed

lemma insert_scan:
  assumes "chain st (xs @ v # ys @ zs)" "new \<noteq> 0"
    "\<forall>x \<in> set (v # ys). vm_start (areas st x) < vm_end (areas st new)" "zs = [] \<or> vm_end (areas st new) \<le> vm_start (areas st (hd zs))"
  shows "insert_from new v st = Some (0, link_after new (last (v # ys)) st)"
  using assms
proof (induction ys arbitrary: xs v)
  case Nil
  note c = chain_at [OF Nil.prems(1)]
  show ?case using c Nil.prems by (subst insert_from.simps) (cases zs; auto simp: Let_def)
next
  case (Cons y ys)
  note c = chain_at [OF Cons.prems(1)]
  have "insert_from new v st = insert_from new y st" using c Cons.prems by (subst insert_from.simps) (auto simp: Let_def)
  then show ?case using Cons.IH [of "xs @ [v]" y] Cons.prems by simp
qed

lemma link_between_same [simp]:
  "vm_start (areas (link_between p new q st) x) = vm_start (areas st x)" "vm_end (areas (link_between p new q st) x) = vm_end (areas st x)"
  "vm_flags (areas (link_between p new q st) x) = vm_flags (areas st x)" "start_brk (link_between p new q st) = start_brk st"
  "brk (link_between p new q st) = brk st" "pagetable (link_between p new q st) = pagetable st" "pmem (link_between p new q st) = pmem st"
  by (simp_all add: link_between_def Let_def)

text \<open>Invariants speak about the bounds of areas only.\<close>

lemma space_inv_cong:
  assumes "chain st' xs" "\<forall>x \<in> set xs. vm_start (areas st' x) = vm_start (areas st x) \<and> vm_end (areas st' x) = vm_end (areas st x)"
    "\<forall>x \<in> set xs. area_ok (areas st x)" "sorted_wrt (\<lambda>x y. before (areas st x) (areas st y)) xs"
  shows "space_inv st' xs"
proof -
  have "sorted_wrt (\<lambda>x y. before (areas st' x) (areas st' y)) xs"
    using assms(4) by (rule sorted_wrt_mono_rel [rotated]) (use assms(2) in \<open>auto simp: before_def\<close>)
  then show ?thesis using assms(1-3) by (auto simp: space_inv_def area_ok_def)
qed

lemma insert_between:
  assumes "chain st (xs @ ys)" "new \<noteq> 0" "new \<notin> set (xs @ ys)" "\<forall>x \<in> set xs. vm_start (areas st x) < vm_end (areas st new)"
    "ys = [] \<or> vm_end (areas st new) \<le> vm_start (areas st (hd ys))"
  shows "insert_vm_struct new st = Some (0, link_between (last (0 # xs)) new (hd (ys @ [0])) st)"
proof (cases xs)
  case Nil
  show ?thesis
  proof (cases ys)
    case ys: Nil
    then show ?thesis using Nil assms(1,2)
      by (auto simp: insert_vm_struct_def chain_def chained_def link_between_def upd_area_def fun_eq_iff intro!: space.equality)
  next
    case (Cons v ys')
    have "chain st ([] @ v # ys')" using assms(1) Nil Cons by simp
    note c = chain_at [OF this]
    have "insert_from new v st = Some (0, link_before new v st)" using assms(5) c Cons by (subst insert_from.simps) (simp add: Let_def)
    then show ?thesis using link_eq(1) [OF assms(1-3)] Nil Cons assms(1) c(1) by (simp add: insert_vm_struct_def chain_def chained_def)
  qed
next
  case (Cons v xs')
  have "chain st ([] @ v # xs' @ ys)" using assms(1) Cons by simp
  then have "insert_from new v st = Some (0, link_after new (last xs) st)" using insert_scan [OF _ assms(2), of st "[]" v xs' ys] assms(4,5) Cons by simp
  moreover have "mmap st = v" "v \<noteq> 0" using assms(1) Cons by (auto simp: chain_def chained_def)
  ultimately show ?thesis using link_eq(2) [OF assms(1-3)] Cons by (simp add: insert_vm_struct_def)
qed

lemma insert_ordered:
  assumes "space_inv st (xs @ ys)" "new \<noteq> 0" "new \<notin> set (xs @ ys)" "area_ok (areas st new)"
    "\<forall>x \<in> set xs. before (areas st x) (areas st new)" "\<forall>y \<in> set ys. before (areas st new) (areas st y)"
  shows "\<exists>st'. insert_vm_struct new st = Some (0, st') \<and> st' = link_between (last (0 # xs)) new (hd (ys @ [0])) st \<and> space_inv st' (xs @ new # ys)"
proof -
  have c: "chain st (xs @ ys)" using assms(1) by (simp add: space_inv_def)
  have ok: "\<forall>x \<in> set (xs @ ys). area_ok (areas st x)" using assms(1) by (simp add: space_inv_def)
  have "vm_start (areas st x) < vm_end (areas st new)" if "x \<in> set xs" for x
  proof -
    have "vm_start (areas st x) < vm_end (areas st x)" "vm_end (areas st x) \<le> vm_start (areas st new)" "vm_start (areas st new) < vm_end (areas st new)"
      using that ok assms(4,5) by (auto simp: area_ok_def before_def)
    then show ?thesis by order
  qed
  moreover have "ys = [] \<or> vm_end (areas st new) \<le> vm_start (areas st (hd ys))" using assms(6) by (cases ys) (auto simp: before_def)
  ultimately have i: "insert_vm_struct new st = Some (0, link_between (last (0 # xs)) new (hd (ys @ [0])) st)" using insert_between [OF c assms(2,3)] by blast
  have "space_inv (link_between (last (0 # xs)) new (hd (ys @ [0])) st) (xs @ new # ys)"
    using assms ok by (intro space_inv_cong [OF link_between_chain [OF c assms(2,3)], of st]) (auto simp: space_inv_def sorted_wrt_append)
  then show ?thesis using i by blast
qed

lemma remove_between:
  assumes "chain st (xs @ v # ys)" "xs = [] \<or> ys \<noteq> []"
  shows "\<exists>st'. remove_vma v st = Inr (hd (ys @ [0]), st') \<and> chain st' (xs @ ys) \<and>
    (\<forall>x. vm_start (areas st' x) = vm_start (areas st x) \<and> vm_end (areas st' x) = vm_end (areas st x) \<and> vm_flags (areas st' x) = vm_flags (areas st x)) \<and>
    start_brk st' = start_brk st \<and> brk st' = brk st \<and> pagetable st' = pagetable st \<and> pmem st' = pmem st \<and> freed st' = v # freed st"
proof -
  define p where "p = last (0 # xs)"
  define q where "q = hd (ys @ [0])"
  note c = chain_at [OF assms(1), folded p_def q_def]
  have dis: "distinct (xs @ ys)" "0 \<notin> set (xs @ ys)" "v \<notin> set (xs @ ys)" using assms(1) by (auto simp: chain_def chained_def)
  have pq: "p \<noteq> 0 \<Longrightarrow> p \<in> set xs" "q \<noteq> 0 \<Longrightarrow> q \<in> set ys" by (auto simp: p_def q_def hd_append split: if_splits)
  then have d: "p \<noteq> 0 \<Longrightarrow> q \<noteq> p" using dis c(5) by (cases "q = 0") auto
  define h where "h = (\<lambda>x. (areas st x)\<lparr>vm_next := (if p \<noteq> 0 \<and> x = p then q else vm_next (areas st x)), vm_prev := (if q \<noteq> 0 \<and> x = q then p else vm_prev (areas st x))\<rparr>)"
  define st' where "st' = st\<lparr>areas := h, mmap := (if p = 0 then q else mmap st), freed := v # freed st\<rparr>"
  have "remove_vma v st = Inr (q, st')"
    using c assms(2) d by (auto simp: remove_vma_def Let_def upd_area_def st'_def h_def fun_eq_iff intro!: space.equality vma.equality)
  moreover have "chain st' (xs @ ys)" unfolding chain_def
    by (rule chained_remove [OF assms(1) [unfolded chain_def] refl refl]) (use c(4) d in \<open>auto simp: st'_def h_def p_def q_def\<close>)
  ultimately show ?thesis unfolding q_def [symmetric] by (intro exI [of _ st']) (simp add: st'_def, simp add: h_def)
qed

text \<open>A sorted list of areas falls into those before and those after a new one.\<close>

lemma space_split:
  assumes "space_inv st xs" "\<forall>x \<in> set xs. before (areas st x) a \<or> before a (areas st x)"
  shows "\<forall>x \<in> set (dropWhile (\<lambda>x. before (areas st x) a) xs). before a (areas st x)"
proof (cases "dropWhile (\<lambda>x. before (areas st x) a) xs")
  case (Cons z zs)
  have z: "\<not> before (areas st z) a" using Cons by (simp add: dropWhile_eq_Cons_conv)
  have zs: "z \<in> set xs" using set_dropWhileD [of z "\<lambda>x. before (areas st x) a" xs] by (simp add: Cons)
  have "sorted_wrt (\<lambda>x y. before (areas st x) (areas st y)) (takeWhile (\<lambda>x. before (areas st x) a) xs @ z # zs)"
    using assms(1) Cons [symmetric] by (simp add: space_inv_def)
  then have s: "\<forall>y \<in> set zs. before (areas st z) (areas st y)" by (simp add: sorted_wrt_append)
  have "before a (areas st z)" using z zs assms(2) by blast
  moreover have "vm_start (areas st z) < vm_end (areas st z)" using zs assms(1) by (simp add: space_inv_def area_ok_def)
  ultimately show ?thesis using s Cons by (auto simp: before_def)
next
  case Nil
  show ?thesis unfolding Nil by simp
qed

lemma chain_same:
  assumes "\<forall>x \<in> set xs. vm_next (areas st' x) = vm_next (areas st x) \<and> vm_prev (areas st' x) = vm_prev (areas st x)" "mmap st' = mmap st"
  shows "chain st' xs = chain st xs"
  unfolding chain_def assms(2) using assms(1) by (intro iffI; elim chained_cong) auto

section \<open>Growing and shrinking the heap\<close>

lemma page_aligned: "a mod PGSIZE = 0 \<longleftrightarrow> 4096 dvd unat a"
  by (simp add: word_unat_eq_iff unat_mod PGSIZE_def dvd_eq_mod_eq_0)

lemma page_aligned_minus: "a mod PGSIZE = 0 \<Longrightarrow> - a mod PGSIZE = 0"
proof -
  assume "a mod PGSIZE = 0"
  then have a: "4096 dvd unat a" by (simp only: page_aligned)
  have "(unat a + unat (- a)) mod 2 ^ 64 = 0" using unat_word_ariths(1) [of a "- a"] by simp
  then have "2 ^ 64 dvd unat a + unat (- a)" by (simp only: dvd_eq_mod_eq_0)
  moreover have "(2 :: nat) ^ 12 dvd 2 ^ 64" by (rule le_imp_power_dvd) simp
  ultimately have "2 ^ 12 dvd unat a + unat (- a)" by (rule dvd_trans [rotated])
  then have "4096 dvd unat a + unat (- a)" by simp
  then show ?thesis using a unfolding page_aligned by (simp only: dvd_add_right_iff)
qed

lemma page_round [simp]:
  "a mod PGSIZE = 0 \<Longrightarrow> PGROUNDDOWN a = a" "a mod PGSIZE = 0 \<Longrightarrow> PGROUNDUP a = a"
  "PGROUNDUP a mod PGSIZE = 0" "PGROUNDDOWN a mod PGSIZE = 0"
proof -
  have m: "NOT (PGSIZE - 1) = NOT (mask 12)" by (simp add: page_mask)
  have al: "a AND NOT (mask 12) = a \<longleftrightarrow> 4096 dvd unat a" for a :: u64
  proof -
    have "a AND NOT (mask 12) = a \<longleftrightarrow> unat (a AND NOT (mask 12)) = unat a" by (simp add: word_unat_eq_iff)
    then show ?thesis unfolding unat_and_not_mask using mod_less_eq_dividend [of "unat a" 4096] by (auto simp: dvd_eq_mod_eq_0)
  qed
  have dv: "4096 dvd unat (a AND NOT (mask 12))" for a :: u64 by (subst al [symmetric]) (simp add: and.assoc)
  show "PGROUNDUP a mod PGSIZE = 0" "PGROUNDDOWN a mod PGSIZE = 0" unfolding page_aligned PGROUNDUP_def PGROUNDDOWN_def m by (rule dv)+
  show down: "PGROUNDDOWN a = a" if "a mod PGSIZE = 0" for a using that al by (simp add: page_aligned PGROUNDDOWN_def m)
  show "PGROUNDUP a = a" if al0: "a mod PGSIZE = 0"
  proof -
    obtain k where k: "unat a = 4096 * k" using al0 unfolding page_aligned by blast
    have "unat a < 2 ^ 64" using unsigned_less [of a] by simp
    then have "unat a + 4095 < 2 ^ 64" using k by simp
    then have "unat (PGROUNDUP a) = unat a" using PGROUNDUP_unat [of a] k by simp
    then show ?thesis by (simp add: word_unat_eq_iff)
  qed
qed

lemma unmap_valid_total: "e \<le> MAXVA \<Longrightarrow> \<exists>st'. unmap_valid_loop t a e st = Inr st'"
proof (induction t a e st rule: unmap_valid_loop.induct)
  case (1 t a e st)
  show ?case
  proof (cases "a < e")
    case True
    then obtain pte st1 where w: "walk t a False st = Inr (pte, st1)" using "1.prems" by (cases "walk t a False st") (auto simp: walk_def split: if_splits)
    then show ?thesis using 1 True by (subst unmap_valid_loop.simps) (auto simp: Let_def)
  qed (simp add: unmap_valid_loop.simps)
qed

text \<open>An area can change its bounds between its neighbours.\<close>

lemma space_resize:
  assumes "space_inv st (xs @ h # ys)" "area_ok (f (areas st h))"
    "\<forall>x \<in> set xs. before (areas st x) (f (areas st h))" "\<forall>y \<in> set ys. before (f (areas st h)) (areas st y)"
    "\<And>a. vm_next (f a) = vm_next a \<and> vm_prev (f a) = vm_prev a"
  shows "space_inv (upd_area h f st) (xs @ h # ys)"
proof -
  have d: "x \<noteq> h" if "x \<in> set xs \<union> set ys" for x using that assms(1) by (auto simp: space_inv_def chain_def chained_def)
  have "chain (upd_area h f st) (xs @ h # ys)"
    using chain_same [of "xs @ h # ys" "upd_area h f st" st] assms(1,5) by (simp add: space_inv_def upd_area_def)
  moreover have "sorted_wrt (\<lambda>x y. before (areas (upd_area h f st) x) (areas (upd_area h f st) y)) zs"
    if "sorted_wrt (\<lambda>x y. before (areas st x) (areas st y)) zs" "set zs \<subseteq> set xs \<union> set ys" for zs
    using that(1) by (rule sorted_wrt_mono_rel [rotated]) (use that(2) d in \<open>auto simp: upd_area_def\<close>)
  ultimately show ?thesis using assms d by (auto simp: space_inv_def sorted_wrt_append upd_area_def)
qed

text \<open>
  The state of the heap between calls of \<^verbatim>\<open>sbrk\<close>: areas \<open>xs\<close> below it, the heap's own area \<open>hp\<close>, which exists only when
  the heap is not empty, and areas \<open>ys\<close> above, the stack among them.
\<close>

definition heap_inv :: "space \<Rightarrow> nat list \<Rightarrow> nat list \<Rightarrow> nat list \<Rightarrow> bool" where
  "heap_inv st xs hp ys \<longleftrightarrow>
     space_inv st (xs @ hp @ ys) \<and> start_brk st mod PGSIZE = 0 \<and> brk st mod PGSIZE = 0 \<and>
     USER_MEM_START \<le> start_brk st \<and> start_brk st \<le> brk st \<and> brk st \<le> USER_MEM_END \<and>
     (\<forall>x \<in> set xs. vm_end (areas st x) \<le> start_brk st) \<and> (\<forall>y \<in> set ys. brk st \<le> vm_start (areas st y)) \<and> ys \<noteq> [] \<and>
     (if start_brk st = brk st then hp = [] else \<exists>h. hp = [h] \<and> vm_start (areas st h) = start_brk st \<and> vm_end (areas st h) = brk st)"

lemma heap_find:
  assumes "heap_inv st xs hp ys"
  shows "find_vma (start_brk st) st = Some (hd (hp @ ys))"
proof -
  have inv: "space_inv st (xs @ hp @ ys)" using assms by (simp add: heap_inv_def)
  have "filter (\<lambda>x. start_brk st < vm_end (areas st x)) xs = []" using assms by (auto simp: heap_inv_def filter_empty_conv)
  moreover have "\<forall>x \<in> set (hp @ ys). start_brk st < vm_end (areas st x)"
  proof
    fix x assume x: "x \<in> set (hp @ ys)"
    then have "vm_start (areas st x) < vm_end (areas st x)" using inv by (auto simp: space_inv_def area_ok_def)
    moreover have "start_brk st \<le> vm_start (areas st x)" using x assms by (auto simp: heap_inv_def split: if_splits)
    ultimately show "start_brk st < vm_end (areas st x)" by order
  qed
  then have "filter (\<lambda>x. start_brk st < vm_end (areas st x)) (hp @ ys) = hp @ ys" by (simp only: filter_id_conv)
  ultimately have "filter (\<lambda>x. start_brk st < vm_end (areas st x)) (xs @ hp @ ys) = hp @ ys" unfolding filter_append [of _ xs] by (simp only: append_Nil)
  then show ?thesis unfolding find_vma_first [OF inv] using assms by (simp only: heap_inv_def) (simp add: hd_append)
qed

lemma word_add_unat: "unat (a :: u64) + unat b < 2 ^ 64 \<Longrightarrow> unat (a + b) = unat a + unat b"
  by (simp add: unat_word_ariths)

lemma brk_grow:
  assumes "heap_inv st xs hp ys" "new \<noteq> 0" "new \<notin> set (xs @ hp @ ys)" "R mod PGSIZE = 0" "R \<noteq> 0"
    "unat (brk st) + unat R \<le> unat USER_MEM_END" "\<forall>y \<in> set ys. brk st + R < vm_start (areas st y)"
  defines "b \<equiv> brk st + R"
  shows "\<exists>st'. do_brk new b st = Some (Inr (b, st')) \<and> heap_inv st' xs (if hp = [] then [new] else hp) ys \<and> brk st' = b \<and> start_brk st' = start_brk st"
proof -
  have bounds: "unat USER_MEM_END < 2 ^ 63" by (simp add: USER_MEM_END_def USER_MEM_START_def USER_CODE_VM_START_def)
  have ub: "unat b = unat (brk st) + unat R" unfolding b_def using assms(6) bounds by (intro word_add_unat) simp
  have al: "b mod PGSIZE = 0" using assms(1,4) ub by (simp add: page_aligned heap_inv_def)
  have inv: "space_inv st (xs @ hp @ ys)" "start_brk st \<le> brk st" "brk st \<le> USER_MEM_END" "ys \<noteq> []" using assms(1) by (simp_all add: heap_inv_def)
  have "0 < unat R" using assms(5) by (simp add: unat_gt_0)
  then have ord: "brk st < b" "start_brk st \<le> b" "b \<le> USER_MEM_END" using ub inv(2) assms(6) by (simp_all add: word_less_nat_alt word_le_nat_alt)
  have ne: "brk st \<noteq> PGROUNDDOWN b" "\<not> b < start_brk st" "\<not> b < brk st" using ord al by auto
  have R: "PGROUNDUP b - brk st = R" using al by (simp add: b_def)
  have e: "brk st + PGROUNDUP R = b" using assms(4) by (simp add: b_def)
  show ?thesis
  proof (cases hp)
    case Nil
    have eq: "start_brk st = brk st" using assms(1) Nil by (auto simp: heap_inv_def split: if_splits)
    define a where "a = \<lparr>vm_start = brk st, vm_end = b, vm_next = 0, vm_prev = 0, vm_pgoff = drop_bit PGSHIFT (brk st), vm_flags = VM_DATA_FLAGS_NON_EXEC\<rparr>"
    define st1 where "st1 = upd_area new (\<lambda>_. a) st"
    have same: "areas st1 x = areas st x" if "x \<in> set (xs @ ys)" for x using that assms(3) by (auto simp: st1_def upd_area_def)
    have a: "areas st1 new = a" "brk st1 = brk st" "start_brk st1 = start_brk st" "mmap st1 = mmap st" by (simp_all add: st1_def upd_area_def)
    have i1: "space_inv st1 (xs @ ys)"
    proof (rule space_inv_cong)
      show "chain st1 (xs @ ys)" using chain_same [of "xs @ ys" st1 st] same a(4) inv(1) Nil by (simp add: space_inv_def)
    qed (use inv(1) Nil same in \<open>auto simp: space_inv_def\<close>)
    have fl: "do_brk_flags new (brk st) R st = map_option (\<lambda>(_, st). Inr (0, st)) (insert_vm_struct new st1)"
      using heap_find [OF assms(1)] Nil inv(4) assms(2,7) unfolding do_brk_flags_def e st1_def a_def b_def [symmetric] by (simp add: Let_def)
    have bx: "\<forall>x \<in> set xs. before (areas st1 x) (areas st1 new)" using assms(1) same eq by (simp add: before_def a(1) a_def heap_inv_def)
    have by': "\<forall>y \<in> set ys. before (areas st1 new) (areas st1 y)" using assms(7) same by (simp add: before_def a(1) a_def b_def less_imp_le)
    have ok: "area_ok (areas st1 new)" using ord(1) al assms(1) by (simp add: a(1) a_def area_ok_def heap_inv_def)
    obtain st2 where s2: "insert_vm_struct new st1 = Some (0, st2)" "st2 = link_between (last (0 # xs)) new (hd (ys @ [0])) st1" "space_inv st2 (xs @ new # ys)"
      using insert_ordered [OF i1 assms(2) _ ok bx by'] assms(3) Nil by auto
    have "do_brk new b st = Some (Inr (b, st2\<lparr>brk := b\<rparr>))" using ne unfolding do_brk_def Let_def R fl s2(1) by simp
    moreover have "heap_inv (st2\<lparr>brk := b\<rparr>) xs [new] ys"
    proof -
      have "space_inv (st2\<lparr>brk := b\<rparr>) (xs @ new # ys)" using s2(3) by (simp add: space_inv_def chain_def chained_def)
      then show ?thesis using assms(1,7) al ord eq same by (auto simp: heap_inv_def s2(2) a a_def b_def less_imp_le)
    qed
    ultimately show ?thesis using Nil a(3) by (auto simp: s2(2))
  next
    case (Cons h hp')
    then have h: "hp = [h]" "start_brk st \<noteq> brk st" "vm_start (areas st h) = start_brk st" "vm_end (areas st h) = brk st"
      using assms(1) by (auto simp: heap_inv_def split: if_splits)
    define st1 where "st1 = upd_area h (\<lambda>a. a\<lparr>vm_end := b\<rparr>) st"
    have d: "x \<noteq> h" if "x \<in> set xs \<union> set ys" for x using that inv(1) h(1) by (auto simp: space_inv_def chain_def chained_def)
    have h0: "h \<noteq> 0" using inv(1) h(1) by (auto simp: space_inv_def chain_def chained_def)
    have i1: "space_inv st1 (xs @ h # ys)" unfolding st1_def
    proof (rule space_resize)
      show "space_inv st (xs @ h # ys)" using inv(1) h(1) by simp
      show "area_ok ((areas st h)\<lparr>vm_end := b\<rparr>)" using assms(1) al h ord inv(2) by (auto simp: area_ok_def heap_inv_def)
      show "\<forall>x \<in> set xs. before (areas st x) ((areas st h)\<lparr>vm_end := b\<rparr>)" using assms(1) h(3) by (simp add: before_def heap_inv_def)
      show "\<forall>y \<in> set ys. before ((areas st h)\<lparr>vm_end := b\<rparr>) (areas st y)" using assms(7) by (simp add: before_def b_def less_imp_le)
    qed simp
    have "do_brk_flags new (brk st) R st = Some (Inr (0, st1))"
      using heap_find [OF assms(1)] h h0 ord unfolding do_brk_flags_def e st1_def by (auto simp: Let_def)
    then have "do_brk new b st = Some (Inr (b, st1\<lparr>brk := b\<rparr>))" using ne unfolding do_brk_def Let_def R by simp
    moreover have "heap_inv (st1\<lparr>brk := b\<rparr>) xs [h] ys"
    proof -
      have "space_inv (st1\<lparr>brk := b\<rparr>) (xs @ h # ys)" using i1 by (simp add: space_inv_def chain_def chained_def)
      then show ?thesis using assms(1,7) al ord h d by (auto simp: heap_inv_def st1_def upd_area_def b_def less_imp_le)
    qed
    ultimately show ?thesis using h(1) by (auto simp: st1_def upd_area_def)
  qed
qed

lemma heap_area:
  assumes "heap_inv st xs hp ys" "start_brk st \<noteq> brk st"
  obtains h where "hp = [h]" "h \<noteq> 0" "vm_start (areas st h) = start_brk st" "vm_end (areas st h) = brk st"
    "\<And>addr. start_brk st \<le> addr \<Longrightarrow> addr < brk st \<Longrightarrow> find_vma addr st = Some h"
proof -
  obtain h where h: "hp = [h]" "vm_start (areas st h) = start_brk st" "vm_end (areas st h) = brk st" using assms by (auto simp: heap_inv_def)
  have inv: "space_inv st (xs @ h # ys)" using assms(1) h(1) by (simp add: heap_inv_def)
  have "find_vma addr st = Some h" if "start_brk st \<le> addr" "addr < brk st" for addr
  proof -
    have "\<not> addr < vm_end (areas st x)" if "x \<in> set xs" for x using that assms(1) \<open>start_brk st \<le> addr\<close> by (force simp: heap_inv_def)
    then have "filter (\<lambda>x. addr < vm_end (areas st x)) xs = []" by (simp add: filter_empty_conv)
    then show ?thesis unfolding find_vma_first [OF inv] using that h(3) by simp
  qed
  moreover have "h \<noteq> 0" using inv by (auto simp: space_inv_def chain_def chained_def)
  ultimately show thesis using that h by blast
qed

lemma unmap_region_total:
  assumes "start mod PGSIZE = 0" "end mod PGSIZE = 0" "start \<le> end" "end \<le> USER_MEM_END"
  shows "\<exists>p. unmap_region start end st = Inr (st\<lparr>pmem := p\<rparr>)"
proof -
  have d: "unat (end - start) = unat end - unat start" using assms(3) by (simp add: unat_sub word_le_nat_alt)
  then have "(end - start) mod PGSIZE = 0" using assms(1,2) by (simp add: page_aligned dvd_diff_nat)
  then have "(end - start) div PGSIZE * PGSIZE = end - start" by (metis add.right_neutral div_mult_mod_eq)
  then have "start + (end - start) div PGSIZE * PGSIZE = end" by simp
  moreover have "end \<le> MAXVA" using assms(4) by (simp add: USER_MEM_END_def USER_MEM_START_def USER_CODE_VM_START_def MAXVA_def word_le_nat_alt)
  ultimately show ?thesis using unmap_valid_total [of "end" "pagetable st" start "pmem st"] assms(1) by (auto simp: unmap_region_def unmap_validpages_def)
qed

lemma brk_shrink:
  assumes "heap_inv st xs hp ys" "R mod PGSIZE = 0" "R \<noteq> 0" "R \<le> brk st - start_brk st"
  defines "b \<equiv> brk st - R"
  shows "\<exists>st'. do_brk new b st = Some (Inr (b, st')) \<and> heap_inv st' xs (if b = start_brk st then [] else hp) ys \<and> brk st' = b \<and> start_brk st' = start_brk st"
proof -
  have inv: "space_inv st (xs @ hp @ ys)" "start_brk st \<le> brk st" "brk st \<le> USER_MEM_END" "USER_MEM_START \<le> start_brk st" "ys \<noteq> []"
    using assms(1) by (simp_all add: heap_inv_def)
  have le: "unat R \<le> unat (brk st) - unat (start_brk st)" using assms(4) inv(2) by (simp add: word_le_nat_alt unat_sub)
  then have "R \<le> brk st" by (simp add: word_le_nat_alt)
  then have ub: "unat b = unat (brk st) - unat R" unfolding b_def by (rule unat_sub)
  have r0: "0 < unat R" using assms(3) by (simp add: unat_gt_0)
  have ord: "b < brk st" "start_brk st \<le> b" "start_brk st < brk st" using le r0 ub inv(2) by (auto simp: word_less_nat_alt word_le_nat_alt)
  have al: "b mod PGSIZE = 0" using assms(1,2) ub by (simp add: page_aligned heap_inv_def dvd_diff_nat)
  have e: "brk st - b = R" "b + R = brk st" by (simp_all add: b_def)
  have len: "\<not> R > USER_MEM_END - b" "\<not> b > USER_MEM_END" "\<not> USER_MEM_START > b"
    using inv ord ub le by (auto simp: word_less_nat_alt word_le_nat_alt unat_sub)
  obtain h where h: "hp = [h]" "h \<noteq> 0" "vm_start (areas st h) = start_brk st" "vm_end (areas st h) = brk st" "find_vma b st = Some h"
    using heap_area [OF assms(1)] ord by (metis order.strict_implies_not_eq)
  define st0 where "st0 = st\<lparr>brk := b\<rparr>"
  have bal: "brk st mod PGSIZE = 0" using assms(1) by (simp add: heap_inv_def)
  obtain p where p: "unmap_region b (brk st) st0 = Inr (st0\<lparr>pmem := p\<rparr>)"
    by (rule exE [OF unmap_region_total [where st = st0, OF al bal less_imp_le [OF ord(1)] inv(3)]])
  have f: "find_vma_intersection b (brk st) st0 = Some h" using h ord by (auto simp: find_vma_intersection_def find_vma_def st0_def)
  define st1 where "st1 = st0\<lparr>pmem := p\<rparr>"
  have i1: "space_inv st1 (xs @ h # ys)" using inv(1) h(1) by (simp add: space_inv_def chain_def chained_def st1_def st0_def)
  have d: "x \<noteq> h" if "x \<in> set xs \<union> set ys" for x using that i1 by (auto simp: space_inv_def chain_def chained_def)
  have mu: "do_munmap b R st0 = Some (if start_brk st = b then bindR (remove_vma h st1) (\<lambda>(_, st). Inr (0, st)) else Inr (0, upd_area h (\<lambda>a. a\<lparr>vm_end := b\<rparr>) st1))"
    using len assms(2,3) f h ord p unfolding do_munmap_def PAGE_ALIGN_eq Let_def
    by (auto simp: e st0_def st1_def)
  have db: "do_brk new b st = map_option (\<lambda>r. bindR r (\<lambda>(ret, st'). if ret < 0 then Inr (brk st, st'\<lparr>brk := brk st\<rparr>) else Inr (b, st'))) (do_munmap b R st0)"
    using ord al unfolding do_brk_def Let_def st0_def e(1) [symmetric] by auto
  show ?thesis
  proof (cases "start_brk st = b")
    case True
    obtain st2 where s2: "remove_vma h st1 = Inr (hd (ys @ [0]), st2)" "chain st2 (xs @ ys)"
      "\<forall>x. vm_start (areas st2 x) = vm_start (areas st1 x) \<and> vm_end (areas st2 x) = vm_end (areas st1 x)" "start_brk st2 = start_brk st1" "brk st2 = brk st1"
      using remove_between [of st1 xs h ys] i1 inv(5) by (auto simp: space_inv_def)
    have "space_inv st2 (xs @ ys)"
      using i1 s2(3) by (intro space_inv_cong [OF s2(2), of st1]) (auto simp: space_inv_def sorted_wrt_append)
    then have "heap_inv st2 xs [] ys"
      using assms(1) True al s2 ord by (auto simp: heap_inv_def st1_def st0_def intro: order_trans less_imp_le)
    moreover have "do_brk new b st = Some (Inr (b, st2))" unfolding db mu using True s2(1) by simp
    ultimately show ?thesis using True s2 by (auto simp: st1_def st0_def)
  next
    case False
    have lt: "start_brk st < b" using False ord(2) by auto
    let ?st2 = "upd_area h (\<lambda>a. a\<lparr>vm_end := b\<rparr>) st1"
    have "space_inv ?st2 (xs @ h # ys)"
    proof (rule space_resize [OF i1])
      show "area_ok ((areas st1 h)\<lparr>vm_end := b\<rparr>)" using lt al h(3) assms(1) by (simp add: area_ok_def heap_inv_def st1_def st0_def)
      show "\<forall>x \<in> set xs. before (areas st1 x) ((areas st1 h)\<lparr>vm_end := b\<rparr>)" using assms(1) h(3) by (simp add: before_def heap_inv_def st1_def st0_def)
      show "\<forall>y \<in> set ys. before ((areas st1 h)\<lparr>vm_end := b\<rparr>) (areas st1 y)" using assms(1) ord(1)
        by (auto simp: before_def heap_inv_def st1_def st0_def intro: order_trans less_imp_le)
    qed simp
    then have "heap_inv ?st2 xs [h] ys" using assms(1) lt al h d ord
      by (auto simp: heap_inv_def st1_def st0_def upd_area_def intro: order_trans less_imp_le)
    moreover have "do_brk new b st = Some (Inr (b, ?st2))" unfolding db mu using False by simp
    ultimately show ?thesis using False h(1) by (auto simp: st1_def st0_def upd_area_def)
  qed
qed

section \<open>Properties\<close>

text \<open>
  C33: the list of areas. In a well-formed address space a lookup ends and returns the first area that ends above the address, or null when
  there is none; so it is the area that contains the address, if one does. Inserting a new area that overlaps none of
  the others succeeds, puts it at its place in the order and leaves every other area as it is; the result is well formed again.
\<close>

theorem vma_list_correct:
  assumes "space_inv st xs" "new \<noteq> 0" "new \<notin> set xs" "area_ok (areas st new)"
    "\<forall>x \<in> set xs. before (areas st x) (areas st new) \<or> before (areas st new) (areas st x)"
  shows "find_vma addr st = Some (hd (filter (\<lambda>x. addr < vm_end (areas st x)) xs @ [0])) \<and>
    (\<exists>st' xs'. insert_vm_struct new st = Some (0, st') \<and> space_inv st' xs' \<and>
       xs' = takeWhile (\<lambda>x. before (areas st x) (areas st new)) xs @ new # dropWhile (\<lambda>x. before (areas st x) (areas st new)) xs \<and>
       (\<forall>x. vm_start (areas st' x) = vm_start (areas st x) \<and> vm_end (areas st' x) = vm_end (areas st x)))"
proof -
  let ?P = "\<lambda>x. before (areas st x) (areas st new)"
  have inv: "space_inv st (takeWhile ?P xs @ dropWhile ?P xs)" "new \<notin> set (takeWhile ?P xs @ dropWhile ?P xs)" using assms(1,3) by simp_all
  have "\<forall>x \<in> set (takeWhile ?P xs). ?P x" by (auto dest: set_takeWhileD)
  from insert_ordered [OF inv(1) assms(2) inv(2) assms(4) this space_split [OF assms(1,5)]]
  show ?thesis using find_vma_first [OF assms(1)] by auto
qed

text \<open>An address space with a program and a stack, as \<^verbatim>\<open>move_to_user_mode\<close> sets it up, with an empty heap.\<close>

definition sample_space :: space where
  "sample_space =
     \<lparr>areas = (\<lambda>_. \<lparr>vm_start = 0, vm_end = 0, vm_next = 0, vm_prev = 0, vm_pgoff = 0, vm_flags = 0\<rparr>)
       (1 := \<lparr>vm_start = USER_CODE_VM_START, vm_end = USER_CODE_VM_START + PGSIZE, vm_next = 2, vm_prev = 0, vm_pgoff = 0, vm_flags = VM_EXEC OR VM_READ\<rparr>,
        2 := \<lparr>vm_start = STACK_TOP - PGSIZE, vm_end = STACK_TOP, vm_next = 0, vm_prev = 1, vm_pgoff = 0, vm_flags = VM_GROWSDOWN\<rparr>,
        3 := \<lparr>vm_start = USER_MEM_START, vm_end = USER_MEM_START + PGSIZE, vm_next = 0, vm_prev = 0, vm_pgoff = 0, vm_flags = 0\<rparr>),
      mmap = 1, start_brk = USER_MEM_START, brk = USER_MEM_START, pagetable = 0, freed = [],
      pmem = \<lparr>node = undefined, cells = (\<lambda>_. 0), bytes = (\<lambda>_. 0)\<rparr>\<rparr>"

lemmas layout_defs = USER_MEM_START_def USER_MEM_END_def USER_CODE_VM_START_def STACK_TOP_def PGSIZE_def

lemma sample_space_inv: "space_inv sample_space [1, 2]"
  by (simp add: space_inv_def chain_def chained_def sample_space_def area_ok_def before_def layout_defs)

theorem vma_list_correct_witness:
  "\<exists>st'. insert_vm_struct 3 sample_space = Some (0, st') \<and> space_inv st' [1, 3, 2]"
proof -
  have "area_ok (areas sample_space 3)" "before (areas sample_space 1) (areas sample_space 3)" "before (areas sample_space 3) (areas sample_space 2)"
    "\<not> before (areas sample_space 2) (areas sample_space 3)"
    by (simp_all add: area_ok_def before_def sample_space_def layout_defs)
  then show ?thesis using vma_list_correct [OF sample_space_inv, of 3] by auto
qed

text \<open>
  \<^verbatim>\<open>insert_vm_struct\<close> does not refuse an overlap. An area that ends above the start of the last area of a
  well-formed list is accepted behind it wherever it starts; when it starts below the end of the last area
  the result has two areas for the same addresses.
\<close>

theorem insert_accepts_overlap:
  assumes "space_inv st (xs @ [v])" "new \<noteq> 0" "new \<notin> set (xs @ [v])" "vm_start (areas st v) < vm_end (areas st new)"
    "vm_start (areas st new) < vm_end (areas st v)"
  shows "\<exists>st'. insert_vm_struct new st = Some (0, st') \<and> chain st' (xs @ [v, new]) \<and> \<not> before (areas st' v) (areas st' new) \<and> \<not> space_inv st' (xs @ [v, new])"
proof -
  have c: "chain st ((xs @ [v]) @ [])" using assms(1) by (simp add: space_inv_def)
  have "vm_start (areas st x) < vm_end (areas st new)" if "x \<in> set (xs @ [v])" for x
  proof -
    have "x = v \<or> vm_start (areas st x) < vm_end (areas st x) \<and> vm_end (areas st x) \<le> vm_start (areas st v)"
      using that assms(1) by (auto simp: space_inv_def sorted_wrt_append area_ok_def before_def)
    then show ?thesis using assms(4) by auto
  qed
  then have i: "insert_vm_struct new st = Some (0, link_between (last (0 # xs @ [v])) new (hd ([] @ [0])) st)"
    using insert_between [OF c assms(2)] assms(3) by auto
  have "chain (link_between (last (0 # xs @ [v])) new (hd ([] @ [0])) st) (xs @ [v, new])" using link_between_chain [OF c assms(2)] assms(3) by simp
  then show ?thesis using i assms(5) by (auto simp: before_def space_inv_def sorted_wrt_append)
qed

theorem insert_accepts_overlap_witness:
  "\<exists>st'. insert_vm_struct 3 (upd_area 3 (\<lambda>a. a\<lparr>vm_start := STACK_TOP - PGSIZE, vm_end := STACK_TOP\<rparr>) sample_space) = Some (0, st') \<and>
    \<not> before (areas st' 2) (areas st' 3)"
proof -
  let ?st = "upd_area 3 (\<lambda>a. a\<lparr>vm_start := STACK_TOP - PGSIZE, vm_end := STACK_TOP\<rparr>) sample_space"
  have "space_inv ?st ([1] @ [2])"
    by (simp add: space_inv_def chain_def chained_def sample_space_def area_ok_def before_def layout_defs upd_area_def)
  moreover have "vm_start (areas ?st 2) < vm_end (areas ?st 3)" "vm_start (areas ?st 3) < vm_end (areas ?st 2)"
    by (simp_all add: sample_space_def layout_defs upd_area_def)
  ultimately show ?thesis using insert_accepts_overlap [of ?st "[1]" 2 3] by auto
qed

text \<open>
  C35: the heap. From a well-formed heap, \<^verbatim>\<open>sbrk\<close> of a size that leaves room below the next area returns the old end of
  the heap, which becomes the start of the new memory, and moves the end up by the size rounded up to pages; \<^verbatim>\<open>sbrk\<close> of a negative size not larger
  than the heap returns the old end and moves it down, after unmapping the pages given up. In both cases the address space stays well formed, the heap is exactly
  one area, or none when it is empty, and the areas below and above it stay. Hence giving back what was asked for restores the end of the heap.
\<close>

theorem sbrk_correct:
  assumes "heap_inv st xs hp ys" "PGROUNDUP sz \<noteq> 0"
    "new \<noteq> 0 \<and> new \<notin> set (xs @ hp @ ys) \<and> unat (brk st) + unat (PGROUNDUP sz) \<le> unat USER_MEM_END \<and> (\<forall>y \<in> set ys. brk st + PGROUNDUP sz < vm_start (areas st y)) \<or>
     - PGROUNDUP sz \<le> brk st - start_brk st"
  shows "\<exists>st' hp'. sbrk new sz st = Some (Inr (brk st, st')) \<and> heap_inv st' xs hp' ys \<and>
    start_brk st' = start_brk st \<and> brk st' = brk st + PGROUNDUP sz \<and> hp' \<in> {[], [new], hp}"
proof -
  define R where "R = PGROUNDUP sz"
  have al: "R mod PGSIZE = 0" by (simp add: R_def)
  have "sz \<noteq> 0"
  proof
    assume "sz = 0"
    then have "PGROUNDUP sz = 0" by (intro trans [OF page_round(2)]) simp_all
    then show False using assms(2) by simp
  qed
  have step: "\<exists>st' hp'. do_brk new (brk st + R) st = Some (Inr (brk st + R, st')) \<and> heap_inv st' xs hp' ys \<and> brk st' = brk st + R \<and>
    start_brk st' = start_brk st \<and> hp' \<in> {[], [new], hp}"
    using assms(3)
  proof
    assume a: "new \<noteq> 0 \<and> new \<notin> set (xs @ hp @ ys) \<and> unat (brk st) + unat (PGROUNDUP sz) \<le> unat USER_MEM_END \<and> (\<forall>y \<in> set ys. brk st + PGROUNDUP sz < vm_start (areas st y))"
    have "\<exists>st'. do_brk new (brk st + R) st = Some (Inr (brk st + R, st')) \<and> heap_inv st' xs (if hp = [] then [new] else hp) ys \<and>
        brk st' = brk st + R \<and> start_brk st' = start_brk st"
      using a assms(2) by (intro brk_grow [OF assms(1) _ _ al]) (simp_all add: R_def)
    then obtain st' where "do_brk new (brk st + R) st = Some (Inr (brk st + R, st')) \<and> heap_inv st' xs (if hp = [] then [new] else hp) ys \<and>
        brk st' = brk st + R \<and> start_brk st' = start_brk st" ..
    then show ?thesis by (intro exI [of _ st'] exI [of _ "if hp = [] then [new] else hp"]) simp
  next
    assume a: "- PGROUNDUP sz \<le> brk st - start_brk st"
    have "- R mod PGSIZE = 0" by (rule page_aligned_minus [OF al])
    then have "\<exists>st'. do_brk new (brk st - (- R)) st = Some (Inr (brk st - (- R), st')) \<and> heap_inv st' xs (if brk st - (- R) = start_brk st then [] else hp) ys \<and>
        brk st' = brk st - (- R) \<and> start_brk st' = start_brk st"
      using a assms(2) by (intro brk_shrink [OF assms(1)]) (simp_all add: R_def)
    then obtain st' where "do_brk new (brk st + R) st = Some (Inr (brk st + R, st')) \<and> heap_inv st' xs (if brk st + R = start_brk st then [] else hp) ys \<and>
        brk st' = brk st + R \<and> start_brk st' = start_brk st" by auto
    then show ?thesis by (intro exI [of _ st'] exI [of _ "if brk st + R = start_brk st then [] else hp"]) simp
  qed
  then obtain st' hp' where s: "do_brk new (brk st + R) st = Some (Inr (brk st + R, st'))" "heap_inv st' xs hp' ys" "brk st' = brk st + R"
    "start_brk st' = start_brk st" "hp' \<in> {[], [new], hp}" by blast
  have "sbrk new sz st = Some (Inr (brk st, st'))" using \<open>sz \<noteq> 0\<close> s(1) assms(2) by (simp add: sbrk_def R_def)
  then show ?thesis using s unfolding R_def by blast
qed

theorem sbrk_correct_witness:
  "\<exists>st' hp'. sbrk 4 5000 sample_space = Some (Inr (USER_MEM_START, st')) \<and> heap_inv st' [1] hp' [2] \<and> brk st' = USER_MEM_START + 8192"
proof -
  have i: "heap_inv sample_space [1] [] [2]"
    using sample_space_inv by (simp add: heap_inv_def) (simp add: sample_space_def layout_defs)
  have r: "PGROUNDUP 5000 = 8192" by (simp add: PGROUNDUP_def PGSIZE_def)
  have b: "brk sample_space = USER_MEM_START" "unat (brk sample_space) + unat (8192 :: u64) \<le> unat USER_MEM_END" "brk sample_space + 8192 < vm_start (areas sample_space 2)"
    by (simp_all add: sample_space_def layout_defs)
  show ?thesis using sbrk_correct [OF i, of 5000 4] b unfolding r by auto
qed

text \<open>The end of an area at or below an address is at or below the start of its page.\<close>

lemma aligned_below: "e mod PGSIZE = 0 \<Longrightarrow> e \<le> a \<Longrightarrow> e \<le> PGROUNDDOWN a"
proof -
  assume e: "e mod PGSIZE = 0" "e \<le> a"
  obtain k where k: "unat e = 4096 * k" using e(1) unfolding page_aligned by blast
  have "4096 * k \<le> unat a" using e(2) k by (simp add: word_le_nat_alt)
  then have "k \<le> unat a div 4096" by (simp add: less_eq_div_iff_mult_less_eq mult.commute)
  then have "4096 * k \<le> unat a - unat a mod 4096" by (simp add: minus_mod_eq_mult_div)
  then show ?thesis by (simp add: word_le_nat_alt PGROUNDDOWN_unat k)
qed

lemma fault_areas: "handle_mm_fault v a u st = Inr (r, st') \<Longrightarrow> areas st' = areas st \<and> mmap st' = mmap st"
  by (auto simp: handle_mm_fault_def Let_def split: prod.splits if_splits)

text \<open>
  C36: a page fault keeps the address space well formed. When the handler returns, the address lies in an area; the list of areas is the
  same, all areas end where they did, and only the area of the address can have grown, down to the page of the
  address: it is then an area that grows down, it starts at or above \<^verbatim>\<open>STACK_BOTTOM\<close>, and it does not run into the area below it.
\<close>

theorem page_fault_well_formed:
  assumes "space_inv st xs" "do_page_fault user uaccess addr st = Some (Inr st')"
  shows "space_inv st' xs \<and> (\<exists>v \<in> set xs. vm_start (areas st' v) \<le> addr \<and> addr < vm_end (areas st' v) \<and>
    (\<forall>x. x \<noteq> v \<longrightarrow> areas st' x = areas st x) \<and>
    (areas st' v = areas st v \<or> vm_flags (areas st v) AND VM_GROWSDOWN \<noteq> 0 \<and> STACK_BOTTOM \<le> vm_start (areas st' v) \<and>
       areas st' v = (areas st v)\<lparr>vm_start := PGROUNDDOWN addr\<rparr>))"
proof -
  let ?ys = "filter (\<lambda>x. addr < vm_end (areas st x)) xs"
  note f = find_vma_first [OF assms(1), of addr]
  have "?ys \<noteq> []" using assms(2) f by (auto simp: do_page_fault_def split: if_splits)
  then obtain v ys' where ys: "?ys = v # ys'" by (cases ?ys) auto
  then obtain as bs where xs: "xs = as @ v # bs" "\<forall>x \<in> set as. \<not> addr < vm_end (areas st x)" "addr < vm_end (areas st v)"
    unfolding filter_eq_Cons_iff by blast
  have fv: "find_vma addr st = Some v" using f ys by simp
  have inv: "space_inv st (as @ v # bs)" using assms(1) xs(1) by simp
  have v0: "v \<noteq> 0" using inv by (auto simp: space_inv_def chain_def chained_def)
  show ?thesis
  proof (cases "vm_start (areas st v) \<le> addr")
    case True
    then obtain r where "handle_mm_fault v addr user st = Inr (r, st')" using assms(2) fv v0 by (auto simp: do_page_fault_def Let_def split: if_splits)
    note a = fault_areas [OF this]
    then have "space_inv st' xs" using assms(1) by (simp add: space_inv_def chain_def chained_def)
    then show ?thesis using a True xs by auto
  next
    case False
    define b where "b = PGROUNDDOWN addr"
    have m: "addr AND PAGE_MASK = b" "PGROUNDDOWN b = b" by (simp_all add: b_def PGROUNDDOWN_def PAGE_MASK_def and.assoc)
    have lt: "b \<le> addr" by (simp add: b_def word_le_nat_alt PGROUNDDOWN_unat)
    then have lt': "b < vm_start (areas st v)" using False by order
    have g: "vm_flags (areas st v) AND VM_GROWSDOWN \<noteq> 0" "\<not> b < STACK_BOTTOM"
      using assms(2) fv v0 False m by (auto simp: do_page_fault_def Let_def expand_downwards_def EPERM_def split: if_splits)
    define st1 where "st1 = upd_area v (\<lambda>a. a\<lparr>vm_start := b\<rparr>) st"
    have "expand_downwards v addr st = (0, st1)" using g(2) lt' by (simp add: expand_downwards_def m st1_def)
    then obtain r where "handle_mm_fault v addr user st1 = Inr (r, st')" using assms(2) fv v0 False g(1) by (auto simp: do_page_fault_def Let_def split: if_splits)
    note a = fault_areas [OF this]
    have "space_inv st1 (as @ v # bs)" unfolding st1_def
    proof (rule space_resize [OF inv])
      show "area_ok ((areas st v)\<lparr>vm_start := b\<rparr>)" using inv lt' by (auto simp: area_ok_def space_inv_def b_def)
      show "\<forall>x \<in> set as. before (areas st x) ((areas st v)\<lparr>vm_start := b\<rparr>)"
        using xs(2) inv aligned_below [of _ addr] by (auto simp: before_def b_def space_inv_def area_ok_def)
      show "\<forall>y \<in> set bs. before ((areas st v)\<lparr>vm_start := b\<rparr>) (areas st y)" using inv by (simp add: before_def space_inv_def sorted_wrt_append)
    qed simp
    then have "space_inv st' xs" using a xs(1) by (simp add: space_inv_def chain_def chained_def)
    then show ?thesis using a xs g lt by (auto simp: st1_def upd_area_def b_def [symmetric])
  qed
qed

text \<open>The handler itself ends for every user address.\<close>

lemma handle_mm_fault_total:
  assumes "addr < MAXVA"
  shows "\<exists>r st'. handle_mm_fault v addr user st = Inr (r, st')"
proof -
  define b where "b = addr AND PAGE_MASK"
  have b: "b = PGROUNDDOWN addr" "b mod PGSIZE = 0" by (simp_all add: b_def PGROUNDDOWN_def [symmetric] PAGE_MASK_def)
  have "b \<le> addr" unfolding b(1) by (simp add: word_le_nat_alt PGROUNDDOWN_unat)
  then have m: "b < MAXVA" using assms by order
  have eq: "PGROUNDDOWN (b + PGSIZE - 1) = b" using page_round(2) [OF b(2)] by (simp add: PGROUNDUP_def PGROUNDDOWN_def)
  have ne: "PGSIZE \<noteq> 0" by (simp add: PGSIZE_def)
  have "\<exists>r p'. mappages t b PGSIZE mem perm p = Inr (r, p')" for t mem perm p
  proof -
    have "walk t b True p = Inr (walk_levels 2 t b True p)" using m by (simp add: walk_def not_le)
    then show ?thesis by (cases "walk_levels 2 t b True p") (auto simp: mappages_def eq b(2) ne map_loop.simps [of t b b] Let_def)
  qed
  then show ?thesis unfolding handle_mm_fault_def b_def [symmetric] Let_def by (auto split: prod.splits)
qed

theorem page_fault_well_formed_witness:
  "\<exists>st'. do_page_fault True False (STACK_TOP - 5000) sample_space = Some (Inr st') \<and> space_inv st' [1, 2]"
proof -
  let ?a = "STACK_TOP - 5000"
  have a: "?a < MAXVA" "\<not> ?a < vm_end (areas sample_space 1)" "?a < vm_end (areas sample_space 2)" "\<not> vm_start (areas sample_space 2) \<le> ?a"
    "vm_flags (areas sample_space 2) AND VM_GROWSDOWN \<noteq> 0"
    by (simp_all add: sample_space_def layout_defs MAXVA_def VM_GROWSDOWN_def)
  have f: "find_vma ?a sample_space = Some 2" using find_vma_first [OF sample_space_inv, of ?a] a by simp
  have "fst (expand_downwards 2 ?a sample_space) = 0" by (simp add: expand_downwards_def Let_def STACK_BOTTOM_def layout_defs PAGE_MASK_def)
  then obtain st1 where e: "expand_downwards 2 ?a sample_space = (0, st1)" by (metis prod.collapse)
  obtain r st' where "handle_mm_fault 2 ?a True st1 = Inr (r, st')" using handle_mm_fault_total [OF a(1)] by blast
  then have d: "do_page_fault True False ?a sample_space = Some (Inr st')" using f a e by (simp add: do_page_fault_def Let_def)
  then show ?thesis using page_fault_well_formed [OF sample_space_inv d] by blast
qed

end
