(* ===== verification/Slab.thy ===== *)
theory Slab
  imports Page_alloc Monad Strings Bytes
begin

text \<open>
  The object allocator of \<^verbatim>\<open>kernel/slab.c\<close>: \<^verbatim>\<open>kmalloc\<close>, \<^verbatim>\<open>kfree\<close> and the object caches over a
  list of partly used pages. The state holds the page allocator, the bytes of memory and the
  \<^verbatim>\<open>struct list_head\<close> cells of the list. A \<^verbatim>\<open>struct page *\<close> is a frame number as in theory
  Page_alloc; the list head, which the code also uses as a \<^verbatim>\<open>struct page *\<close> when the list has been
  walked to its end, has the number \<open>slob_head\<close>, which is the number of no frame, and its entry of
  \<open>mem_map\<close> stands for the words around \<^verbatim>\<open>free_slob_list\<close>. The first page of memory is not mapped:
  an access to it is the fault \<open>NullDeref\<close>. \<open>slob_lock\<close> serialises the operations and is not
  modelled here. The caches themselves are records by their address, and \<^verbatim>\<open>g_slab_caches\<close> is the HOL list
  of their addresses.
\<close>

section \<open>State\<close>

record kmem_cache =
  object_size :: u32
  kc_size :: u32
  kc_align :: u32
  kc_flags :: u64
  kc_name :: u64
  kc_refcount :: int

record slab =
  sl_pg :: pg_data
  sl_mem :: mem
  sl_links :: list_store
  sl_cache :: "u64 \<Rightarrow> kmem_cache"
  g_slab_caches :: "u64 list"

definition slob_head :: nat where "slob_head = 2 ^ 52"

definition on_page :: "nat \<Rightarrow> (page \<Rightarrow> page) \<Rightarrow> slab \<Rightarrow> slab" where
  "on_page page f s = s\<lparr>sl_pg := upd_page page f (sl_pg s)\<rparr>"

definition page_of :: "nat \<Rightarrow> slab \<Rightarrow> page" where "page_of page s = mem_map (sl_pg s) page"

text \<open>Conversion to \<^verbatim>\<open>short\<close> and to \<^verbatim>\<open>int\<close>.\<close>

definition to_short :: "int \<Rightarrow> int" where "to_short x = sint (word_of_int x :: u16)"
definition to_int :: "int \<Rightarrow> int" where "to_int x = sint (word_of_int x :: u32)"

text \<open>A load and a store of one unit of two bytes, and of an \<^verbatim>\<open>unsigned int\<close>; clearing memory.\<close>

definition load_units :: "u64 \<Rightarrow> (slab, int) comp" where
  "load_units a s = (if a < PGSIZE then Some (Inl NullDeref)
     else Some (Inr (sint (un_le16 [sl_mem s (unat a), sl_mem s (unat a + 1)]), s)))"

definition store_bytes :: "u64 \<Rightarrow> u8 list \<Rightarrow> (slab, unit) comp" where
  "store_bytes a bs s = (if a < PGSIZE then Some (Inl NullDeref)
     else Some (Inr ((), s\<lparr>sl_mem := \<lambda>x. if unat a \<le> x \<and> x < unat a + length bs then bs ! (x - unat a) else sl_mem s x\<rparr>)))"

definition store_units :: "u64 \<Rightarrow> int \<Rightarrow> (slab, unit) comp" where
  "store_units a v = store_bytes a (le16 (word_of_int v))"

definition load_uint :: "u64 \<Rightarrow> (slab, u32) comp" where
  "load_uint a s = (if a < PGSIZE then Some (Inl NullDeref)
     else Some (Inr (un_le32 (map (\<lambda>i. sl_mem s (unat a + i)) [0, 1, 2, 3]), s)))"

definition clear_mem :: "u64 \<Rightarrow> u64 \<Rightarrow> (slab, unit) comp" where
  "clear_mem b n s = (if n = 0 then Some (Inr ((), s)) else if b < PGSIZE then Some (Inl NullDeref)
     else Some (Inr ((), s\<lparr>sl_mem := memset (unat b) 0 (unat n) (sl_mem s)\<rparr>)))"

section \<open>Free blocks inside a page\<close>

definition SLOB_UNITS :: "u64 \<Rightarrow> u64" where "SLOB_UNITS sz = (sz + 2 - 1) div 2"

text \<open>Pointer arithmetic on units of two bytes.\<close>

definition unit_plus :: "u64 \<Rightarrow> int \<Rightarrow> u64" where "unit_plus a n = a + word_of_int (2 * n)"
definition unit_diff :: "u64 \<Rightarrow> u64 \<Rightarrow> int" where "unit_diff a b = sint (a - b) div 2"

definition set_slob :: "u64 \<Rightarrow> int \<Rightarrow> u64 \<Rightarrow> (slab, unit) comp" where
  "set_slob b sz nx =
     (let base = b AND PAGE_MASK;
          offset = to_short (unit_diff nx base)
      in if sz > 1 then thenC (store_units b sz) (store_units (unit_plus b 1) offset)
         else store_units b (- offset))"

definition slob_next :: "u64 \<Rightarrow> (slab, u64) comp" where
  "slob_next b =
     (let base = b AND PAGE_MASK
      in bindC (load_units b) (\<lambda>u.
           if u < 0 then retC (unit_plus base (to_short (- u)))
           else bindC (load_units (unit_plus b 1)) (\<lambda>n. retC (unit_plus base n))))"

definition slob_units :: "u64 \<Rightarrow> (slab, int) comp" where
  "slob_units b = bindC (load_units b) (\<lambda>u. retC (if u > 0 then u else 1))"

definition slob_last :: "u64 \<Rightarrow> (slab, bool) comp" where
  "slob_last b = bindC (slob_next b) (\<lambda>n. retC (n AND NOT PAGE_MASK = 0))"

text \<open>The body of the loop of \<^verbatim>\<open>slob_page_alloc\<close> once a block that is large enough has been found.\<close>

definition slob_take :: "nat \<Rightarrow> int \<Rightarrow> u64 \<Rightarrow> int \<Rightarrow> (slab, u64) comp" where
  "slob_take page osz cur avail =
     bindC (slob_next cur) (\<lambda>nx.
       thenC (if avail = osz then modC (on_page page (\<lambda>pg. pg\<lparr>freelist := nx\<rparr>))
              else thenC (modC (on_page page (\<lambda>pg. pg\<lparr>freelist := unit_plus cur osz\<rparr>)))
                     (set_slob (unit_plus cur osz) (to_short (avail - osz)) nx))
         (thenC (modC (on_page page (\<lambda>pg. pg\<lparr>slob_left_units := to_int (slob_left_units pg - osz)\<rparr>)))
           (retC cur)))"

partial_function (option) slob_page_loop :: "nat \<Rightarrow> int \<Rightarrow> u64 \<Rightarrow> slab \<Rightarrow> (u64 \<times> slab) result option" where
  "slob_page_loop page osz cur s =
     bindC (slob_units cur) (\<lambda>avail s.
       if avail \<ge> osz then slob_take page osz cur avail s
       else bindC (slob_last cur) (\<lambda>l s.
              if l then Some (Inr (0, s))
              else bindC (slob_next cur) (\<lambda>nx s. slob_page_loop page osz nx s) s) s) s"

definition slob_page_alloc :: "nat \<Rightarrow> u64 \<Rightarrow> (slab, u64) comp" where
  "slob_page_alloc page sz s =
     slob_page_loop page (sint (ucast (SLOB_UNITS sz) :: u32)) (freelist (page_of page s)) s"

text \<open>The search of \<^verbatim>\<open>slob_free\<close> for the free blocks around \<open>b\<close>.\<close>

partial_function (option) slob_seek :: "u64 \<Rightarrow> u64 \<Rightarrow> u64 \<Rightarrow> slab \<Rightarrow> ((u64 \<times> u64) \<times> slab) result option" where
  "slob_seek b pv nx s =
     (if b > nx then bindC (slob_next nx) (\<lambda>nx' s. slob_seek b nx nx' s) s else Some (Inr ((pv, nx), s)))"

definition slob_free_low :: "nat \<Rightarrow> u64 \<Rightarrow> int \<Rightarrow> (slab, unit) comp" where
  "slob_free_low page b osz =
     thenC (bindC (getC (\<lambda>s. freelist (page_of page s))) (\<lambda>fl.
              if unit_plus b osz = fl
              then bindC (slob_units fl) (\<lambda>_.
                     bindC (slob_next fl) (\<lambda>nx. modC (on_page page (\<lambda>pg. pg\<lparr>freelist := nx\<rparr>))))
              else retC ()))
       (bindC (getC (\<lambda>s. freelist (page_of page s))) (\<lambda>fl.
          thenC (set_slob b osz fl) (modC (on_page page (\<lambda>pg. pg\<lparr>freelist := b\<rparr>)))))"

definition slob_free_high :: "nat \<Rightarrow> u64 \<Rightarrow> int \<Rightarrow> (slab, unit) comp" where
  "slob_free_high page b osz =
     bindC (getC (\<lambda>s. freelist (page_of page s))) (\<lambda>pv.
     bindC (slob_next pv) (\<lambda>nx.
     bindC (slob_seek b pv nx) (\<lambda>(pv, nx).
     thenC (bindC (slob_last pv) (\<lambda>l.
              if \<not> l \<and> unit_plus b osz = nx
              then bindC (slob_units nx) (\<lambda>u. bindC (slob_next nx) (\<lambda>nn. set_slob b (to_short (osz + u)) nn))
              else set_slob b osz nx))
       (bindC (slob_units pv) (\<lambda>pu.
          if unit_plus pv pu = b
          then bindC (slob_units b) (\<lambda>bu. bindC (slob_next b) (\<lambda>bn. set_slob pv (to_short (bu + pu)) bn))
          else set_slob pv pu b)))))"

definition slob_free :: "u64 \<Rightarrow> int \<Rightarrow> (slab, unit) comp" where
  "slob_free b sz s =
     (let page = virt_to_page b;
          osz = to_short (uint (SLOB_UNITS (word_of_int sz)))
      in if (word_of_int (to_int (slob_left_units (page_of page s) + osz)) :: u64) = SLOB_UNITS PGSIZE
         then let s = (if PageSlab (page_of page s)
                       then on_page page ClearPageSlab (s\<lparr>sl_links := list_del page (sl_links s)\<rparr>) else s)
              in Some (Inr ((), s\<lparr>sl_pg := free_page b (sl_pg s)\<rparr>))
         else let s = on_page page (\<lambda>pg. pg\<lparr>slob_left_units := to_int (slob_left_units pg + osz)\<rparr>) s
              in if b < freelist (page_of page s) then slob_free_low page b osz s
                 else slob_free_high page b osz s)"

section \<open>Allocating objects\<close>

definition slob_alloc_new_page :: "nat \<Rightarrow> (slab, u64) comp" where
  "slob_alloc_new_page ord s =
     (case get_free_pages ord (sl_pg s) of (b, m) \<Rightarrow> Some (Inr (b, s\<lparr>sl_pg := m\<rparr>)))"

definition check_alloc_scope :: "u64 \<Rightarrow> u64 \<Rightarrow> u64 \<Rightarrow> (slab, unit) comp" where
  "check_alloc_scope start_pa alloc_pa sz =
     (let end_pa = start_pa + PGSIZE;
          alloc_pa_end = sz + alloc_pa
      in if alloc_pa < start_pa \<or> alloc_pa_end > end_pa then failC (Panic ''beyond the scope'') else retC ())"

text \<open>
  The walk of \<^verbatim>\<open>slob_alloc\<close> over the list: the block it found, or 0, and the page it stands at. A walk
  that finds nothing stands at the list head.
\<close>

partial_function (option) slob_scan :: "u64 \<Rightarrow> nat \<Rightarrow> slab \<Rightarrow> ((u64 \<times> nat) \<times> slab) result option" where
  "slob_scan sz page s =
     (if list_is_head page slob_head then Some (Inr ((0, page), s))
      else if (word_of_int (slob_left_units (page_of page s)) :: u64) < SLOB_UNITS sz
           then slob_scan sz (nxt (sl_links s page)) s
           else bindC (slob_page_alloc page sz) (\<lambda>b s.
                  if b = 0 then slob_scan sz (nxt (sl_links s page)) s
                  else bindC (check_alloc_scope (page_to_address page) b sz) (\<lambda>_. retC (b, page)) s) s)"

text \<open>The part of \<^verbatim>\<open>slob_alloc\<close> that takes a new page, \<open>page\<close> being where the walk ended; \<open>None\<close> is the early return.\<close>

definition slob_new :: "nat \<Rightarrow> u64 \<Rightarrow> (slab, u64 option) comp" where
  "slob_new page sz =
     bindC (slob_alloc_new_page 0) (\<lambda>b.
       if b = 0 then retC None
       else thenC (modC (on_page page (\<lambda>pg. (SetPageSlab pg)\<lparr>slob_left_units := uint (SLOB_UNITS PGSIZE), freelist := b\<rparr>)))
           (thenC (modC (\<lambda>s. s\<lparr>sl_links := INIT_LIST_HEAD page (sl_links s)\<rparr>))
           (thenC (set_slob b (to_short (uint (SLOB_UNITS PGSIZE))) (unit_plus b (uint (SLOB_UNITS PGSIZE))))
           (thenC (modC (\<lambda>s. s\<lparr>sl_links := list_add page slob_head (sl_links s)\<rparr>))
           (bindC (slob_page_alloc page sz) (\<lambda>b. retC (Some b)))))))"

definition slob_alloc :: "u64 \<Rightarrow> (slab, u64) comp" where
  "slob_alloc sz =
     bindC (bindC (getC (\<lambda>s. nxt (sl_links s slob_head))) (slob_scan sz)) (\<lambda>(b, page).
     bindC (if b = 0 then slob_new page sz else retC (Some b)) (\<lambda>r.
       case r of None \<Rightarrow> retC 0 | Some b \<Rightarrow> thenC (clear_mem b sz) (retC b)))"

definition kmem_cache_zalloc :: "kmem_cache \<Rightarrow> (slab, u64) comp" where
  "kmem_cache_zalloc c =
     bindC (if ucast (kc_size c) < PGSIZE then slob_alloc (ucast (kc_size c))
            else slob_alloc_new_page (get_order (ucast (kc_size c)))) (\<lambda>b.
       if b \<noteq> 0 then thenC (clear_mem b (ucast (kc_size c))) (retC b) else retC b)"

definition kmalloc :: "u64 \<Rightarrow> (slab, u64) comp" where
  "kmalloc sz =
     (let sz = (sz + 3) AND NOT 3
      in if sz < PGSIZE - 8
         then bindC (slob_alloc (sz + 8)) (\<lambda>b.
                if b = 0 then retC 0
                else thenC (store_bytes b (le32 (ucast sz))) (retC (b + 8)))
         else bindC (slob_alloc_new_page (get_order sz)) (\<lambda>r.
                thenC (clear_mem r sz)
                (thenC (modC (on_page (virt_to_page r) (\<lambda>pg. pg\<lparr>slob_left_units := int (get_order sz)\<rparr>)))
                (retC r))))"

definition kfree :: "u64 \<Rightarrow> (slab, unit) comp" where
  "kfree block s =
     (let page = virt_to_page block
      in if PageSlab (page_of page s)
         then bindC (load_uint (block - 8)) (\<lambda>n. slob_free (block - 8) (sint (n + 8))) s
         else modC (\<lambda>s. s\<lparr>sl_pg := free_pages block (unat (word_of_int (slob_left_units (page_of page s)) :: u32)) (sl_pg s)\<rparr>) s)"

definition kmem_cache_free :: "kmem_cache \<Rightarrow> u64 \<Rightarrow> (slab, unit) comp" where
  "kmem_cache_free c b =
     (if ucast (kc_size c) < PGSIZE then slob_free b (sint (kc_size c))
      else modC (\<lambda>s. s\<lparr>sl_pg := free_pages b (get_order (ucast (kc_size c))) (sl_pg s)\<rparr>))"

definition uu_kmem_cache_create :: "u64 \<Rightarrow> u64 \<Rightarrow> (slab, int) comp" where
  "uu_kmem_cache_create c fl =
     thenC (modC (\<lambda>s. s\<lparr>sl_cache := (sl_cache s)(c := (sl_cache s c)\<lparr>kc_flags := fl\<rparr>)\<rparr>)) (retC 0)"

text \<open>\<^verbatim>\<open>sizeof(struct kmem_cache)\<close> is 56.\<close>

definition kmem_cache_boot :: "u64 \<Rightarrow> kmem_cache" where
  "kmem_cache_boot name = \<lparr>object_size = 0, kc_size = 56, kc_align = 0, kc_flags = 0, kc_name = name, kc_refcount = 0\<rparr>"

definition kmem_cache_create :: "kmem_cache \<Rightarrow> u64 \<Rightarrow> u64 \<Rightarrow> u64 \<Rightarrow> u64 \<Rightarrow> (slab, u64) comp" where
  "kmem_cache_create boot name sz al fl =
     bindC (kmem_cache_zalloc boot) (\<lambda>c.
       if c = 0 then retC 0
       else thenC (modC (\<lambda>s. s\<lparr>sl_cache := (sl_cache s)(c := \<lparr>object_size = ucast sz, kc_size = ucast sz, kc_align = ucast al,
                    kc_flags = 0, kc_name = name, kc_refcount = 0\<rparr>)\<rparr>))
         (bindC (uu_kmem_cache_create c fl) (\<lambda>ret.
            if ret \<noteq> 0 then thenC (kmem_cache_free boot c) (retC 0)
            else thenC (modC (\<lambda>s. s\<lparr>sl_cache := (sl_cache s)(c := (sl_cache s c)\<lparr>kc_refcount := 1\<rparr>),
                                     g_slab_caches := c # g_slab_caches s\<rparr>))
                   (retC c))))"

section \<open>What the page allocator leaves alone\<close>

text \<open>The page allocator neither reads nor writes the fields and the flag of the object allocator.\<close>

definition slob_view :: "pg_data \<Rightarrow> nat \<Rightarrow> int \<times> bool" where
  "slob_view m p = (slob_left_units (mem_map m p), PageSlab (mem_map m p))"

lemma PageSlab_simps [simp]:
  "PageSlab (SetPageBuddy pg) = PageSlab pg" "PageSlab (ClearPageBuddy pg) = PageSlab pg"
  "PageSlab (pg\<lparr>pg_private := v\<rparr>) = PageSlab pg" "PageSlab (pg\<lparr>refcount := r\<rparr>) = PageSlab pg"
  "PageSlab (pg\<lparr>slob_left_units := u\<rparr>) = PageSlab pg" "PageSlab (pg\<lparr>freelist := f\<rparr>) = PageSlab pg"
  "slob_left_units (SetPageBuddy pg) = slob_left_units pg" "slob_left_units (ClearPageBuddy pg) = slob_left_units pg"
  "PageBuddy (SetPageSlab pg) = PageBuddy pg" "pg_private (SetPageSlab pg) = pg_private pg"
  "refcount (SetPageSlab pg) = refcount pg"
  "PageBuddy (pg\<lparr>slob_left_units := u\<rparr>) = PageBuddy pg" "PageBuddy (pg\<lparr>freelist := f\<rparr>) = PageBuddy pg"
  using get_set_bit_ul [of PG_slab PG_buddy "\<lambda>_. flags pg"] get_clear_bit_ul [of PG_slab PG_buddy "\<lambda>_. flags pg"]
    get_set_bit_ul [of PG_buddy PG_slab "\<lambda>_. flags pg"]
  by (simp_all add: PageBuddy_def PageSlab_def SetPageSlab_def SetPageBuddy_def ClearPageBuddy_def PG_buddy_def
      PG_slab_def get_bit_ul_def BITS_PER_LONG_def)

lemma slob_view_steps [simp]:
  "slob_view (lru_add p k m) = slob_view m" "slob_view (lru_del p m) = slob_view m"
  "slob_view (upd_nr_free k g m) = slob_view m" "slob_view (clear_page_order p m) = slob_view m"
  "slob_view (set_page_order p k m) = slob_view m" "slob_view (set_page_count p v m) = slob_view m"
  "slob_view (prev_new_page p k m) = slob_view m" "slob_view (upd_page p (\<lambda>pg. pg\<lparr>refcount := f pg\<rparr>) m) = slob_view m"
  by (auto simp: slob_view_def fun_eq_iff frame_simps prev_new_page_def)

lemma slob_view_free_merge [simp]: "slob_view (fst (free_merge m p k)) = slob_view m"
proof (induction m p k rule: free_merge.induct)
  case (1 m p k)
  show ?case by (subst free_merge.simps) (use 1 in \<open>simp add: Let_def\<close>)
qed

lemma slob_view_free [simp]: "slob_view (uu_free_pages p k m) = slob_view m"
proof -
  have "slob_view (uu_free_one_page p k m') = slob_view m'" for m'
    using slob_view_free_merge [of m' p k] by (auto simp: uu_free_one_page_def simp del: slob_view_free_merge split: prod.splits)
  then show ?thesis by (simp add: uu_free_pages_def free_pages_ok_def Let_def)
qed

lemma slob_free_frame [simp]:
  "slob_left_units (mem_map (uu_free_pages p k m) q) = slob_left_units (mem_map m q)"
  "PageSlab (mem_map (uu_free_pages p k m) q) = PageSlab (mem_map m q)"
  using fun_cong [OF slob_view_free, of p k m q] unfolding slob_view_def by simp_all

lemma slob_view_expend [simp]: "slob_view (expend p low high sz m) = slob_view m"
proof (induction p low high sz m rule: expend.induct)
  case (1 p low high sz m)
  show ?case by (subst expend.simps) (use 1 in \<open>simp add: Let_def\<close>)
qed

lemma slob_view_rmqueue: "slob_view (snd (uu_rmqueue ord c m)) = slob_view m"
proof (induction ord c m rule: uu_rmqueue.induct)
  case (1 ord c m)
  show ?case by (subst uu_rmqueue.simps) (use 1 in \<open>simp add: Let_def split: list.splits\<close>)
qed

lemma slob_view_alloc: "alloc_pages ord m = (r, m') \<Longrightarrow> slob_view m' = slob_view m"
  using slob_view_rmqueue [of ord ord m]
  by (auto simp: alloc_pages_def split: prod.splits option.splits)

section \<open>Inside a fresh page\<close>

text \<open>The address of a page that is not the first one, and the bytes of the page.\<close>

definition page_addr :: "u64 \<Rightarrow> bool" where "page_addr b \<longleftrightarrow> 4096 dvd unat b \<and> b \<noteq> 0"

definition page_bytes :: "u64 \<Rightarrow> nat set" where "page_bytes b = {unat b ..< unat b + 4096}"

lemma page_addr_bounds:
  assumes "page_addr b"
  shows "4096 \<le> unat b" "unat b + 4096 \<le> 2 ^ 64"
proof -
  obtain c where c: "unat b = 4096 * c" using assms by (auto simp: page_addr_def)
  have "unat b \<noteq> 0" using assms by (simp add: page_addr_def unat_eq_zero)
  with c show "4096 \<le> unat b" by simp
  have "unat b < 2 ^ 64" using unsigned_less [of b] by simp
  with c show "unat b + 4096 \<le> 2 ^ 64" by simp
qed

lemma unit_plus_page:
  assumes "page_addr b" "0 \<le> n" "n < 2048"
  shows "unat (unit_plus b n) = unat b + 2 * nat n" "\<not> unit_plus b n < PGSIZE" "unit_plus b n AND PAGE_MASK = b"
proof -
  have "unit_plus b n = b + word_of_nat (2 * nat n)" using assms(2) by (simp add: unit_plus_def)
  moreover have "unat (word_of_nat (2 * nat n) :: u64) = 2 * nat n"
    using assms(3) by (simp only: unat_of_nat) (simp add: take_bit_nat_eq_self)
  ultimately show u: "unat (unit_plus b n) = unat b + 2 * nat n"
    using page_addr_bounds [OF assms(1)] assms(3) by (simp add: unat_word_ariths)
  show "\<not> unit_plus b n < PGSIZE"
    using u page_addr_bounds [OF assms(1)] by (simp add: word_less_nat_alt PGSIZE_def)
  have "unat b mod 4096 = 0" using assms(1) by (simp add: page_addr_def)
  then have "(unat b + 2 * nat n) mod 4096 = 2 * nat n" using assms(3) by (simp add: mod_add_left_eq [symmetric, of "unat b"])
  then have "unat (unit_plus b n AND PAGE_MASK) = unat b" by (simp add: page_mask unat_and_not_mask u)
  then show "unit_plus b n AND PAGE_MASK = b" by (rule unsigned_word_eqI)
qed

text \<open>An update of the memory inside the page at \<open>b\<close> only.\<close>

definition mem_within :: "u64 \<Rightarrow> slab \<Rightarrow> slab \<Rightarrow> bool" where
  "mem_within b s t \<longleftrightarrow> (\<exists>m. t = s\<lparr>sl_mem := m\<rparr> \<and> (\<forall>x. x \<notin> page_bytes b \<longrightarrow> m x = sl_mem s x))"

lemma mem_within_refl: "mem_within b s s"
  unfolding mem_within_def by (rule exI [of _ "sl_mem s"]) simp

lemma mem_within_trans: "mem_within b s t \<Longrightarrow> mem_within b t u \<Longrightarrow> mem_within b s u"
  unfolding mem_within_def by force

lemma mem_within_fields:
  "mem_within b s t \<Longrightarrow> sl_pg t = sl_pg s" "mem_within b s t \<Longrightarrow> sl_links t = sl_links s"
  "mem_within b s t \<Longrightarrow> sl_cache t = sl_cache s" "mem_within b s t \<Longrightarrow> g_slab_caches t = g_slab_caches s"
  "mem_within b s t \<Longrightarrow> x \<notin> page_bytes b \<Longrightarrow> sl_mem t x = sl_mem s x"
  by (auto simp: mem_within_def)

lemma store_bytes_page:
  assumes "unat b \<le> unat a" "unat a + length bs \<le> unat b + 4096" "\<not> a < PGSIZE"
  shows "\<exists>t. store_bytes a bs s = Some (Inr ((), t)) \<and> mem_within b s t"
  using assms by (auto simp: store_bytes_def mem_within_def page_bytes_def)

lemma store_units_page:
  assumes "page_addr b" "0 \<le> n" "n < 2048"
  shows "\<exists>t. store_units (unit_plus b n) v s = Some (Inr ((), t)) \<and> mem_within b s t"
  unfolding store_units_def
  by (rule store_bytes_page) (use unit_plus_page [OF assms] assms(3) in auto)

lemma unit_plus_add: "0 \<le> n \<Longrightarrow> unit_plus (unit_plus b n) 1 = unit_plus b (n + 1)"
  by (simp add: unit_plus_def algebra_simps)

lemma set_slob_page:
  assumes "page_addr b" "0 \<le> n" "n < 2048" "sz > 1 \<longrightarrow> n < 2047"
  shows "\<exists>t. set_slob (unit_plus b n) sz nx s = Some (Inr ((), t)) \<and> mem_within b s t"
proof (cases "sz > 1")
  case True
  obtain t where t: "store_units (unit_plus b n) sz s = Some (Inr ((), t))" "mem_within b s t"
    using store_units_page [OF assms(1-3)] by blast
  obtain u where "store_units (unit_plus b (n + 1)) (to_short (unit_diff nx b)) t = Some (Inr ((), u))" "mem_within b t u"
    using store_units_page [OF assms(1), of "n + 1"] assms True by auto
  then show ?thesis
    using True t by (auto simp: set_slob_def Let_def unit_plus_page [OF assms(1-3)] unit_plus_add assms(2) intro: mem_within_trans)
next
  case False
  then show ?thesis using store_units_page [OF assms(1-3)] by (simp add: set_slob_def Let_def)
qed

text \<open>The header of the one free block of a fresh page.\<close>

lemma set_slob_fresh:
  assumes "page_addr b"
  shows "\<exists>t. set_slob b 2048 nx s = Some (Inr ((), t)) \<and> mem_within b s t \<and> load_units b t = Some (Inr (2048, t))"
proof -
  have b0: "unit_plus b 0 = b" by (simp add: unit_plus_def)
  note u0 = unit_plus_page [OF assms, of 0, simplified b0] and u1 = unit_plus_page [OF assms, of 1]
  obtain t where t: "set_slob b 2048 nx s = Some (Inr ((), t))" "mem_within b s t"
    using set_slob_page [OF assms, of 0 2048 nx s] b0 by auto
  have "sint (un_le16 (le16 (2048 :: u16))) = 2048" by simp
  moreover have "le16 (2048 :: u16) = [le16 2048 ! 0, le16 2048 ! 1]" by (simp add: le16_def)
  ultimately have "load_units b t = Some (Inr (2048, t))"
    using t(1) u0 u1
    by (auto simp: set_slob_def store_units_def store_bytes_def load_units_def thenC_def bindC_def Let_def)
  with t show ?thesis by blast
qed

lemma slob_take_page:
  assumes "page_addr b" "0 \<le> osz" "osz \<le> 2048" "load_units b s = Some (Inr (2048, s))"
  shows "\<exists>f t. slob_take page osz b 2048 s = Some (Inr (b, on_page page (\<lambda>pg. pg\<lparr>freelist := f, slob_left_units := to_int (slob_left_units pg - osz)\<rparr>) t)) \<and> mem_within b s t"
proof -
  obtain nx where nx: "slob_next b s = Some (Inr (nx, s))"
    using assms(4) unit_plus_page [OF assms(1), of 1]
    by (simp add: slob_next_def Let_def) (simp add: load_units_def retC_def bindC_def)
  show ?thesis
  proof (cases "osz = 2048")
    case True
    show ?thesis using nx True mem_within_refl [of b s] by (auto simp: slob_take_def on_page_def upd_page_def retC_def)
  next
    case False
    have sh: "to_short (2048 - osz) = 2048 - osz"
      using assms(2,3) unfolding to_short_def sint_sbintrunc' by (intro signed_take_bit_int_eq_self) auto
    let ?s = "on_page page (\<lambda>pg. pg\<lparr>freelist := unit_plus b osz\<rparr>) s"
    obtain t where t: "set_slob (unit_plus b osz) (2048 - osz) nx ?s = Some (Inr ((), t))" "mem_within b ?s t"
      using set_slob_page [OF assms(1,2), of "2048 - osz" nx ?s] assms(3) False by auto
    define t' where "t' = t\<lparr>sl_pg := sl_pg s\<rparr>"
    have "t = on_page page (\<lambda>pg. pg\<lparr>freelist := unit_plus b osz\<rparr>) t'" "mem_within b s t'"
      using t(2) by (auto simp: t'_def mem_within_def on_page_def)
    then show ?thesis using nx False t(1) sh by (auto simp: slob_take_def on_page_def upd_page_def retC_def)
  qed
qed

section \<open>What an allocation does\<close>

text \<open>
  The walk over an empty list stands at the head, which then receives the book-keeping meant for the
  new page.
\<close>

lemma slob_scan_empty: "dll (sl_links s) slob_head [] \<Longrightarrow> slob_scan sz (nxt (sl_links s slob_head)) s = Some (Inr ((0, slob_head), s))"
  by (simp add: slob_scan.simps [of sz] list_is_head_def dll_def)

lemma dll_readd_head: "dll (list_add h h (INIT_LIST_HEAD h st)) h []"
  by (simp add: dll_def list_add_def uu_list_add_def INIT_LIST_HEAD_def)

text \<open>The state after an object of a page of its own at \<open>b\<close> has been taken.\<close>

definition took_page :: "u64 \<Rightarrow> pg_data \<Rightarrow> slab \<Rightarrow> slab \<Rightarrow> bool" where
  "took_page b m s t \<longleftrightarrow>
     (\<exists>f. sl_pg t = upd_page slob_head f m \<and>
        (\<forall>pg. PageBuddy (f pg) = PageBuddy pg \<and> pg_private (f pg) = pg_private pg \<and> refcount (f pg) = refcount pg)) \<and>
     dll (sl_links t) slob_head [] \<and> sl_cache t = sl_cache s \<and> g_slab_caches t = g_slab_caches s \<and>
     (\<forall>x. x \<notin> page_bytes b \<longrightarrow> sl_mem t x = sl_mem s x)"

lemma SLOB_UNITS_page: "unat sz \<le> 4096 \<Longrightarrow> sint (ucast (SLOB_UNITS sz) :: u32) = int ((unat sz + 1) div 2)"
proof -
  assume sz: "unat sz \<le> 4096"
  have "unat (sz + 2 - 1) = unat sz + 1" using sz by (simp add: unat_word_ariths)
  then have u: "unat (SLOB_UNITS sz) = (unat sz + 1) div 2" by (simp add: SLOB_UNITS_def unat_div_distrib)
  then have "unat (ucast (SLOB_UNITS sz) :: u32) = (unat sz + 1) div 2"
    using sz by (simp add: unsigned_ucast_eq take_bit_nat_eq_self)
  moreover have "(unat sz + 1) div 2 < 2 ^ 31" using sz by simp
  ultimately show ?thesis by (simp add: sint_uint uint_nat signed_take_bit_int_eq_self)
qed

lemma slob_new_page:
  assumes "get_free_pages 0 (sl_pg s) = (b, m)" "page_addr b" "unat sz \<le> 4096"
  shows "\<exists>t. slob_new slob_head sz s = Some (Inr (Some b, t)) \<and> took_page b m s t"
proof -
  let ?g = "\<lambda>pg. (SetPageSlab pg)\<lparr>slob_left_units := 2048, freelist := b\<rparr>"
  define osz where "osz = sint (ucast (SLOB_UNITS sz) :: u32)"
  have osz: "0 \<le> osz" "osz \<le> 2048" using SLOB_UNITS_page [OF assms(3)] assms(3) by (auto simp: osz_def)
  have U: "uint (SLOB_UNITS PGSIZE) = 2048" "to_short 2048 = 2048" by (simp_all add: SLOB_UNITS_def PGSIZE_def to_short_def)
  define s1 where "s1 = on_page slob_head ?g (s\<lparr>sl_pg := m\<rparr>)\<lparr>sl_links := INIT_LIST_HEAD slob_head (sl_links s)\<rparr>"
  obtain t where t: "set_slob b 2048 (unit_plus b 2048) s1 = Some (Inr ((), t))" "mem_within b s1 t" "load_units b t = Some (Inr (2048, t))"
    using set_slob_fresh [OF assms(2)] by blast
  define t1 where "t1 = t\<lparr>sl_links := list_add slob_head slob_head (sl_links t)\<rparr>"
  have l1: "load_units b t1 = Some (Inr (2048, t1))" using t(3) by (auto simp: load_units_def t1_def split: if_splits)
  have fl: "freelist (page_of slob_head t1) = b"
    using mem_within_fields(1) [OF t(2)] by (simp add: t1_def page_of_def s1_def on_page_def frame_simps)
  obtain f u where u: "slob_take slob_head osz b 2048 t1 = Some (Inr (b, on_page slob_head (\<lambda>pg. pg\<lparr>freelist := f, slob_left_units := to_int (slob_left_units pg - osz)\<rparr>) u))"
    "mem_within b t1 u"
    using slob_take_page [OF assms(2) osz l1] by blast
  let ?r = "on_page slob_head (\<lambda>pg. pg\<lparr>freelist := f, slob_left_units := to_int (slob_left_units pg - osz)\<rparr>) u"
  have "slob_page_alloc slob_head sz t1 = Some (Inr (b, ?r))"
    using u(1) osz l1 by (simp add: slob_page_alloc_def fl osz_def [symmetric] slob_page_loop.simps [of slob_head] slob_units_def bindC_def retC_def)
  then have "slob_new slob_head sz s = Some (Inr (Some b, ?r))"
    using t(1) assms(1,2) U
    by (simp add: slob_new_def slob_alloc_new_page_def bindC_def thenC_def modC_def retC_def s1_def t1_def on_page_def page_addr_def)
  moreover have "sl_pg ?r = upd_page slob_head ((\<lambda>pg. pg\<lparr>freelist := f, slob_left_units := to_int (slob_left_units pg - osz)\<rparr>) \<circ> ?g) m"
    using mem_within_fields(1) [OF u(2)] mem_within_fields(1) [OF t(2)] by (simp add: on_page_def t1_def s1_def upd_page_def)
  moreover have "dll (sl_links ?r) slob_head []"
    using mem_within_fields(2) [OF u(2)] mem_within_fields(2) [OF t(2)] by (simp add: on_page_def t1_def s1_def dll_readd_head)
  ultimately show ?thesis
    using mem_within_fields(3-5) [OF u(2)] mem_within_fields(3-5) [OF t(2)]
    by (fastforce simp: took_page_def on_page_def t1_def s1_def)
qed

lemma took_page_mem:
  "took_page b m s t \<Longrightarrow> (\<And>x. x \<notin> page_bytes b \<Longrightarrow> g x = sl_mem t x) \<Longrightarrow> took_page b m s (t\<lparr>sl_mem := g\<rparr>)"
  by (simp add: took_page_def)

lemma slob_alloc_page:
  assumes "dll (sl_links s) slob_head []" "get_free_pages 0 (sl_pg s) = (b, m)" "page_addr b" "unat sz \<le> 4096"
  shows "\<exists>t. slob_alloc sz s = Some (Inr (b, t)) \<and> took_page b m s t \<and> (\<forall>i < unat sz. sl_mem t (unat b + i) = 0)"
proof -
  obtain t where t: "slob_new slob_head sz s = Some (Inr (Some b, t))" "took_page b m s t"
    using slob_new_page [OF assms(2-4)] by blast
  have b: "\<not> b < PGSIZE" using page_addr_bounds [OF assms(3)] by (simp add: word_less_nat_alt PGSIZE_def)
  let ?t = "if sz = 0 then t else t\<lparr>sl_mem := memset (unat b) 0 (unat sz) (sl_mem t)\<rparr>"
  have "slob_alloc sz s = Some (Inr (b, ?t))"
    using t(1) slob_scan_empty [OF assms(1), of sz] b by (simp add: slob_alloc_def bindC_def thenC_def getC_def clear_mem_def retC_def)
  moreover have "took_page b m s ?t"
    using t(2) took_page_mem [OF t(2), of "memset (unat b) 0 (unat sz) (sl_mem t)"] assms(4)
    by (simp add: memset_eq page_bytes_def split: if_splits) force
  moreover have "\<forall>i < unat sz. sl_mem ?t (unat b + i) = 0" by (auto simp: memset_eq)
  ultimately show ?thesis by blast
qed

lemma slob_alloc_none:
  assumes "dll (sl_links s) slob_head []" "get_free_pages 0 (sl_pg s) = (0, sl_pg s)"
  shows "slob_alloc sz s = Some (Inr (0, s))"
  using slob_scan_empty [OF assms(1), of sz] assms(2)
  by (simp add: slob_alloc_def slob_new_def slob_alloc_new_page_def bindC_def thenC_def getC_def retC_def)

text \<open>The size \<^verbatim>\<open>kmalloc\<close> rounds to.\<close>

definition align4 :: "u64 \<Rightarrow> u64" where "align4 sz = (sz + 3) AND NOT 3"

lemma align4_unat:
  assumes "unat sz + 3 < 2 ^ 64"
  shows "unat (align4 sz) = (unat sz + 3) div 4 * 4"
proof -
  have "unat (sz + 3) = unat sz + 3" using assms by (simp add: unat_word_ariths)
  moreover have "(3 :: u64) = mask 2" by (simp add: mask_eq_exp_minus_1)
  ultimately have "unat (align4 sz) = (unat sz + 3) - (unat sz + 3) mod 4"
    unfolding align4_def by (metis (no_types) unat_and_not_mask power2_eq_square mult_2_right numeral_Bit0 numeral_times_numeral semiring_norm(11) semiring_norm(13))
  then show ?thesis by (simp add: minus_mod_eq_div_mult)
qed

lemma align4_small: "unat sz + 3 < 2 ^ 64 \<Longrightarrow> align4 sz < PGSIZE - 8 \<longleftrightarrow> unat sz \<le> 4084"
  using align4_unat [of sz] by (auto simp: PGSIZE_def word_less_nat_alt)

lemma kmalloc_small:
  assumes "dll (sl_links s) slob_head []" "get_free_pages 0 (sl_pg s) = (b, m)" "page_addr b" "unat sz \<le> 4084"
  shows "\<exists>t. kmalloc sz s = Some (Inr (b + 8, t)) \<and> took_page b m s t \<and> unat (b + 8) = unat b + 8 \<and>
    (\<forall>i < unat sz. sl_mem t (unat (b + 8) + i) = 0)"
proof -
  have n: "unat (align4 sz) \<le> 4084" "unat sz \<le> unat (align4 sz)" using align4_unat [of sz] assms(4) by auto
  then have n8: "unat (align4 sz + 8) = unat (align4 sz) + 8" by (simp add: unat_word_ariths)
  have lt: "align4 sz < PGSIZE - 8" using n(1) by (simp add: PGSIZE_def word_less_nat_alt)
  have b8: "unat (b + 8) = unat b + 8" using page_addr_bounds [OF assms(3)] by (simp add: unat_word_ariths)
  obtain t where t: "slob_alloc (align4 sz + 8) s = Some (Inr (b, t))" "took_page b m s t"
    "\<forall>i < unat (align4 sz + 8). sl_mem t (unat b + i) = 0"
    using slob_alloc_page [OF assms(1-3), of "align4 sz + 8"] n(1) n8 by auto
  have b: "\<not> b < PGSIZE" "b \<noteq> 0" using page_addr_bounds [OF assms(3)] assms(3) by (auto simp: word_less_nat_alt PGSIZE_def page_addr_def)
  define g where "g = (\<lambda>x. if unat b \<le> x \<and> x < unat b + 4 then le32 (ucast (align4 sz)) ! (x - unat b) else sl_mem t x)"
  have "kmalloc sz s = Some (Inr (b + 8, t\<lparr>sl_mem := g\<rparr>))"
    using t(1) lt b unfolding kmalloc_def align4_def [symmetric] Let_def
    by (simp add: bindC_def thenC_def store_bytes_def retC_def g_def)
  moreover have "took_page b m s (t\<lparr>sl_mem := g\<rparr>)" by (rule took_page_mem [OF t(2)]) (auto simp: g_def page_bytes_def)
  moreover have "\<forall>i < unat sz. g (unat (b + 8) + i) = 0" using t(3) n(2) n8 by (auto simp: g_def b8 add.assoc)
  ultimately show ?thesis using b8 by auto
qed

section \<open>Objects and their pages\<close>

text \<open>
  The objects in use are pairs of the address \<^verbatim>\<open>kmalloc\<close> returned and the order of the block they
  lie in; \<open>B\<close> are the blocks other clients of the page allocator hold. Every object owns its block.
  \<open>slab_core\<close> is what the operations need, \<open>slab_inv\<close> adds that no page an object may get
  next carries an order left over from an earlier large object.
\<close>

definition obj_block :: "u64 \<times> nat \<Rightarrow> nat \<times> nat" where
  "obj_block x = (virt_to_page (fst x), snd x)"

definition slab_core :: "slab \<Rightarrow> (u64 \<times> nat) set \<Rightarrow> (nat \<times> nat) set \<Rightarrow> bool" where
  "slab_core s L B \<longleftrightarrow>
     alloc_inv (sl_pg s) (obj_block ` L \<union> B) \<and> obj_block ` L \<inter> B = {} \<and> inj_on obj_block L \<and>
     free_frames (sl_pg s) \<union> block_frames (obj_block ` L \<union> B) \<subseteq> {1 ..< 2 ^ 52} \<and> dll (sl_links s) slob_head [] \<and>
     (\<forall>p < 2 ^ 52. \<not> PageSlab (mem_map (sl_pg s) p)) \<and>
     (\<forall>x \<in> L. slob_left_units (mem_map (sl_pg s) (virt_to_page (fst x))) = int (snd x))"

definition left_clean :: "slab \<Rightarrow> (nat \<times> nat) set \<Rightarrow> bool" where
  "left_clean s B \<longleftrightarrow> (\<forall>p \<in> free_frames (sl_pg s) \<union> block_frames B. slob_left_units (mem_map (sl_pg s) p) = 0)"

definition slab_inv :: "slab \<Rightarrow> (u64 \<times> nat) set \<Rightarrow> (nat \<times> nat) set \<Rightarrow> bool" where
  "slab_inv s L B \<longleftrightarrow> slab_core s L B \<and> left_clean s B"

lemma virt_to_page_less: "virt_to_page a < 2 ^ 52"
proof -
  have "unat a < 2 ^ 64" using unsigned_less [of a] by simp
  then show ?thesis by (simp add: virt_to_page_def PGSHIFT_def unat_drop_bit_div less_mult_imp_div_less)
qed

lemma alloc_inv_upd:
  assumes "alloc_inv m A" "\<And>pg. PageBuddy (f pg) = PageBuddy pg \<and> pg_private (f pg) = pg_private pg \<and> refcount (f pg) = refcount pg"
  shows "alloc_inv (upd_page p f m) A"
proof -
  have "buddy_inv (upd_page p f m) A"
    by (rule buddy_inv_cong [of _ m]) (use assms in \<open>auto simp: frame_simps tag_def alloc_inv_def\<close>)
  then show ?thesis using assms by (auto simp: alloc_inv_def frame_simps)
qed

lemma took_page_pg:
  assumes "took_page b m s t"
  shows "alloc_inv m A \<Longrightarrow> alloc_inv (sl_pg t) A" "free_frames (sl_pg t) = free_frames m"
    "p < 2 ^ 52 \<Longrightarrow> mem_map (sl_pg t) p = mem_map m p"
proof -
  obtain f where f: "sl_pg t = upd_page slob_head f m"
    "\<And>pg. PageBuddy (f pg) = PageBuddy pg \<and> pg_private (f pg) = pg_private pg \<and> refcount (f pg) = refcount pg"
    using assms by (auto simp: took_page_def)
  show "alloc_inv m A \<Longrightarrow> alloc_inv (sl_pg t) A" using alloc_inv_upd f by simp
  show "free_frames (sl_pg t) = free_frames m" by (simp add: f(1) free_frames_def frame_simps)
  show "p < 2 ^ 52 \<Longrightarrow> mem_map (sl_pg t) p = mem_map m p" by (simp add: f(1) frame_simps slob_head_def)
qed

text \<open>Taking a block of the page allocator for a new object at \<open>a\<close> whose page carries the order.\<close>

lemma slab_core_add:
  assumes "slab_core s L B" "alloc_pages k (sl_pg s) = (Some p, m)" "virt_to_page a = p"
    "alloc_inv m (insert (p, k) (obj_block ` L \<union> B)) \<Longrightarrow> alloc_inv (sl_pg t) (insert (p, k) (obj_block ` L \<union> B))"
    "free_frames (sl_pg t) = free_frames m" "dll (sl_links t) slob_head []"
    "\<And>q. q < 2 ^ 52 \<Longrightarrow> q \<noteq> p \<Longrightarrow> mem_map (sl_pg t) q = mem_map m q"
    "slob_left_units (mem_map (sl_pg t) p) = int k" "\<not> PageSlab (mem_map (sl_pg t) p)"
  shows "slab_core t (insert (a, k) L) B" "(a, k) \<notin> L"
proof -
  have inv: "alloc_inv (sl_pg s) (obj_block ` L \<union> B)" using assms(1) by (simp add: slab_core_def)
  note al = alloc_pages_inv [OF inv assms(2)]
  have sv: "slob_view m = slob_view (sl_pg s)" by (rule slob_view_alloc [OF assms(2)])
  have old: "slob_left_units (mem_map (sl_pg t) q) = slob_left_units (mem_map (sl_pg s) q)"
    "PageSlab (mem_map (sl_pg t) q) = PageSlab (mem_map (sl_pg s) q)" if "q < 2 ^ 52" "q \<noteq> p" for q
    using fun_cong [OF sv, of q] assms(7) [OF that] by (simp_all add: slob_view_def)
  have new: "obj_block (a, k) = (p, k)" using assms(3) by (simp add: obj_block_def)
  have ne: "fst (obj_block x) \<noteq> p" if "x \<in> L" for x
  proof
    assume "fst (obj_block x) = p"
    moreover have "obj_block x \<noteq> (p, k)" using al(2) that by (metis UnI1 image_eqI)
    moreover have "obj_block x \<in> obj_block ` L" using that by (rule imageI)
    ultimately show False
      using disjoint_blocksD [OF buddy_invD(3) [OF alloc_inv_buddy [OF al(1)]], of "obj_block x" "(p, k)" p]
      by (metis UnI1 UnI2 frames_head insertCI prod.collapse)
  qed
  show "(a, k) \<notin> L" using ne new by force
  have noslab: "\<not> PageSlab (mem_map (sl_pg t) q)" if "q < 2 ^ 52" for q
    using old(2) [OF that] assms(1,9) that by (cases "q = p") (auto simp: slab_core_def)
  have "slob_left_units (mem_map (sl_pg t) (virt_to_page (fst x))) = int (snd x)" if "x \<in> insert (a, k) L" for x
  proof (cases "x = (a, k)")
    case False
    then have "x \<in> L" "virt_to_page (fst x) \<noteq> p" using that ne [of x] by (auto simp: obj_block_def)
    then show ?thesis using old(1) [OF virt_to_page_less] assms(1) by (auto simp: slab_core_def)
  qed (simp add: assms(3,8))
  moreover have "free_frames (sl_pg t) \<union> block_frames (insert (p, k) (obj_block ` L \<union> B)) \<subseteq> {1 ..< 2 ^ 52}"
    using assms(1,5) al(4) unfolding block_frames_insert slab_core_def by auto
  moreover have "inj_on obj_block (insert (a, k) L)" using assms(1) al(2) new by (auto simp: slab_core_def)
  ultimately show "slab_core t (insert (a, k) L) B"
    using assms(1,4,6) al(1,2) noslab by (auto simp: slab_core_def new)
qed

lemma slab_inv_parts:
  assumes "slab_inv s L B"
  shows "slab_core s L B" "alloc_inv (sl_pg s) (obj_block ` L \<union> B)" "free_frames (sl_pg s) \<subseteq> {1 ..< 2 ^ 52}"
    "dll (sl_links s) slob_head []" "p \<in> free_frames (sl_pg s) \<Longrightarrow> slob_left_units (mem_map (sl_pg s) p) = 0"
    "p < 2 ^ 52 \<Longrightarrow> \<not> PageSlab (mem_map (sl_pg s) p)" "block_frames B \<subseteq> {1 ..< 2 ^ 52}"
  using assms by (auto simp: slab_inv_def slab_core_def left_clean_def block_frames_def)

text \<open>\<^verbatim>\<open>get_free_pages\<close> in the terms of the objects: a page address, or nothing and no change.\<close>

lemma get_free_pages_cases:
  assumes "alloc_inv m A" "free_frames m \<subseteq> {1 ..< 2 ^ 52}"
  obtains (none) "get_free_pages ord m = (0, m)" "\<forall>b \<in> free_blocks m. snd b < ord"
  | (page) p m' where "get_free_pages ord m = (page_to_address p, m')" "alloc_pages ord m = (Some p, m')"
      "page_addr (page_to_address p)" "virt_to_page (page_to_address p) = p" "p \<in> free_frames m" "p < 2 ^ 52"
proof (cases "alloc_pages ord m")
  case (Pair r m')
  show thesis
  proof (cases r)
    case None
    then show thesis
      using Pair alloc_pages_None(1) [OF alloc_inv_buddy [OF assms(1)], of ord] alloc_pages_None(2) [OF alloc_inv_buddy [OF assms(1)], of ord m'] by (intro none) (auto simp: get_free_pages_def)
  next
    case (Some p)
    have "p \<in> free_frames m" using alloc_pages_inv(4) [OF assms(1), of ord p m'] Pair Some frames_head by blast
    then show thesis
      using Pair Some assms(2) page_to_address_0 [of p] page_to_address_aligned [of p] virt_to_page_to_address [of p]
      by (intro page [of p m']) (auto simp: get_free_pages_def page_addr_def)
  qed
qed

lemma virt_to_page_inside:
  assumes "page_addr b" "unat a < unat b + 4096" "unat b \<le> unat a"
  shows "virt_to_page a = virt_to_page b"
proof -
  obtain c where c: "unat b = 4096 * c" using assms(1) by (auto simp: page_addr_def)
  then have "unat a div 4096 = c" using assms(2,3) by (intro div_nat_eqI) auto
  then show ?thesis using c by (simp add: virt_to_page_def PGSHIFT_def unat_drop_bit_div)
qed

lemma left_clean_took:
  assumes "left_clean s B" "alloc_inv (sl_pg s) (A \<union> B)" "alloc_pages k (sl_pg s) = (Some p, m)" "B \<inter> {(p, k)} = {}"
    "free_frames (sl_pg t) = free_frames m" "free_frames (sl_pg s) \<subseteq> {1 ..< 2 ^ 52}"
    "\<And>q. q \<noteq> p \<Longrightarrow> q \<in> free_frames m \<union> block_frames B \<Longrightarrow> slob_left_units (mem_map (sl_pg t) q) = slob_left_units (mem_map m q)"
  shows "left_clean t B"
  unfolding left_clean_def
proof
  fix q assume q: "q \<in> free_frames (sl_pg t) \<union> block_frames B"
  note al = alloc_pages_inv [OF assms(2,3)]
  have "p \<notin> free_frames m" using al(3) frames_head by blast
  moreover have "p \<notin> block_frames B"
  proof
    assume "p \<in> block_frames B"
    then obtain b where b: "b \<in> B" "p \<in> frames b" by (auto simp: block_frames_def)
    then have "b \<noteq> (p, k)" using assms(4) by auto
    then show False
      using disjoint_blocksD [OF buddy_invD(3) [OF alloc_inv_buddy [OF al(1)]], of b "(p, k)" p] b by auto
  qed
  ultimately have "q \<noteq> p" using q assms(5) by auto
  moreover have "slob_left_units (mem_map m q) = slob_left_units (mem_map (sl_pg s) q)"
    using fun_cong [OF slob_view_alloc [OF assms(3)], of q] by (simp add: slob_view_def)
  moreover have "q \<in> free_frames (sl_pg s) \<union> block_frames B" using q assms(5) al(4) by blast
  ultimately show "slob_left_units (mem_map (sl_pg t) q) = 0"
    using assms(1,5) assms(7) [of q] q by (auto simp: left_clean_def)
qed

text \<open>An object of at most a page, and a larger one.\<close>

lemma kmalloc_small_inv:
  assumes "slab_inv s L B" "unat sz \<le> 4084"
  obtains (none) "kmalloc sz s = Some (Inr (0, s))" "free_frames (sl_pg s) = {}"
  | (page) a t p where "kmalloc sz s = Some (Inr (a, t))" "slab_inv t (insert (a, 0) L) B" "(a, 0) \<notin> L"
      "a = page_to_address p + 8" "unat a = 4096 * p + 8" "p \<in> free_frames (sl_pg s)" "free_frames (sl_pg t) = free_frames (sl_pg s) - {p}"
      "\<forall>i < unat sz. sl_mem t (unat a + i) = 0" "\<forall>x. x div 4096 \<noteq> p \<longrightarrow> sl_mem t x = sl_mem s x"
proof -
  note P = slab_inv_parts [OF assms(1)]
  from P(2,3) show thesis
  proof (cases rule: get_free_pages_cases [where ord = 0])
    case none
    then have "free_frames (sl_pg s) = {}" by (auto simp: free_frames_def block_frames_def)
    moreover have "align4 sz < PGSIZE - 8" using align4_unat [of sz] assms(2) by (simp add: PGSIZE_def word_less_nat_alt)
    then have "kmalloc sz s = Some (Inr (0, s))"
      using slob_alloc_none [OF P(4) none(1), of "align4 sz + 8"]
      unfolding kmalloc_def align4_def [symmetric] Let_def by (simp add: bindC_def retC_def)
    ultimately show thesis using that(1) by blast
  next
    case (page p m)
    let ?b = "page_to_address p"
    obtain t where t: "kmalloc sz s = Some (Inr (?b + 8, t))" "took_page ?b m s t" "unat (?b + 8) = unat ?b + 8"
      "\<forall>i < unat sz. sl_mem t (unat (?b + 8) + i) = 0"
      using kmalloc_small [OF P(4) page(1,3) assms(2)] by blast
    have bp: "unat ?b = 4096 * p"
    proof -
      have "unat ?b div 4096 = p" using page(4) by (simp add: virt_to_page_def PGSHIFT_def unat_drop_bit_div)
      then show ?thesis using page(3) by (auto simp: page_addr_def)
    qed
    have v: "virt_to_page (?b + 8) = p" using virt_to_page_inside [OF page(3), of "?b + 8"] t(3) page(4) by simp
    note tk = took_page_pg [OF t(2)]
    have sv: "slob_left_units (mem_map m p) = 0" "\<not> PageSlab (mem_map m p)"
      using fun_cong [OF slob_view_alloc [OF page(2)], of p] P(5) [OF page(5)] P(6) [OF page(6)] by (simp_all add: slob_view_def)
    have dl: "dll (sl_links t) slob_head []" using t(2) by (simp add: took_page_def)
    have add: "slab_core t (insert (?b + 8, 0) L) B" "(?b + 8, 0) \<notin> L"
      using slab_core_add [OF P(1) page(2) v, of t] tk sv page(6) dl by simp_all
    note al = alloc_pages_inv [OF P(2) page(2)]
    have "q < 2 ^ 52" if "q \<in> free_frames m \<union> block_frames B" for q using that P(3,7) al(4) by auto
    moreover have cl: "left_clean t B"
      by (rule left_clean_took [OF _ P(2) page(2), of t]) (use assms(1) al tk(2,3) P(3) calculation in \<open>auto simp: slab_inv_def\<close>)
    have "frames (p, 0) = {p}" by (auto simp: frames_def)
    then have ff: "free_frames (sl_pg t) = free_frames (sl_pg s) - {p}" using al(3,4) tk(2) by auto
    have "x div 4096 = p" if "x \<in> page_bytes ?b" for x using that bp by (intro div_nat_eqI) (auto simp: page_bytes_def)
    then have "\<forall>x. x div 4096 \<noteq> p \<longrightarrow> sl_mem t x = sl_mem s x" using t(2) by (auto simp: took_page_def)
    then show thesis
      using that(2) [of "?b + 8" t p] t(1,3,4) add cl bp page(5) ff by (simp add: slab_inv_def)
  qed
qed

lemma kmalloc_large_inv:
  assumes "slab_inv s L B" "4084 < unat sz" "unat sz + 3 < 2 ^ 64"
  obtains (none) "kmalloc sz s = Some (Inl NullDeref)" "\<forall>b \<in> free_blocks (sl_pg s). snd b < get_order (align4 sz)"
  | (page) a t p where "kmalloc sz s = Some (Inr (a, t))" "slab_inv t (insert (a, get_order (align4 sz)) L) B"
      "(a, get_order (align4 sz)) \<notin> L" "a = page_to_address p" "unat sz \<le> 4096 * 2 ^ get_order (align4 sz)"
      "frames (p, get_order (align4 sz)) \<subseteq> free_frames (sl_pg s)"
      "free_frames (sl_pg t) = free_frames (sl_pg s) - frames (p, get_order (align4 sz))"
      "\<forall>i < unat sz. sl_mem t (unat a + i) = 0"
      "\<forall>x. x < unat a \<or> unat a + unat (align4 sz) \<le> x \<longrightarrow> sl_mem t x = sl_mem s x"
proof -
  note P = slab_inv_parts [OF assms(1)]
  have n: "unat (align4 sz) = (unat sz + 3) div 4 * 4" by (rule align4_unat [OF assms(3)])
  have n4: "4085 \<le> unat (align4 sz)" "unat sz \<le> unat (align4 sz)" using n assms(2) by auto
  then have lt: "\<not> align4 sz < PGSIZE - 8" "align4 sz \<noteq> 0" using n assms(2) by (auto simp: PGSIZE_def word_less_nat_alt)
  have ord: "unat sz \<le> 4096 * 2 ^ get_order (align4 sz)" using get_order_least [of "align4 sz"] lt(2) n4(2) by (auto simp: word_gt_0)
  let ?k = "get_order (align4 sz)"
  from P(2,3) show thesis
  proof (cases rule: get_free_pages_cases [where ord = ?k])
    case none
    then have "kmalloc sz s = Some (Inl NullDeref)"
      using lt unfolding kmalloc_def align4_def [symmetric] Let_def
      by (simp add: bindC_def slob_alloc_new_page_def thenC_def clear_mem_def PGSIZE_def)
    then show thesis using that(1) none(2) by blast
  next
    case (page p m)
    let ?b = "page_to_address p"
    let ?f = "\<lambda>pg. pg\<lparr>slob_left_units := int ?k\<rparr>"
    define t where "t = s\<lparr>sl_pg := upd_page p ?f m, sl_mem := memset (unat ?b) 0 (unat (align4 sz)) (sl_mem s)\<rparr>"
    have b: "\<not> ?b < PGSIZE" using page_addr_bounds [OF page(3)] by (simp add: word_less_nat_alt PGSIZE_def)
    have km: "kmalloc sz s = Some (Inr (?b, t))"
      using lt page(1,4) b unfolding kmalloc_def align4_def [symmetric] Let_def
      by (simp add: bindC_def slob_alloc_new_page_def thenC_def clear_mem_def modC_def retC_def on_page_def t_def)
    have pg: "sl_pg t = upd_page p ?f m" "sl_links t = sl_links s" by (simp_all add: t_def)
    have sv: "\<not> PageSlab (mem_map m p)"
      using fun_cong [OF slob_view_alloc [OF page(2)], of p] P(6) [OF page(6)] by (simp add: slob_view_def)
    have ff: "free_frames (sl_pg t) = free_frames m" by (simp add: pg free_frames_def frame_simps)
    have add: "slab_core t (insert (?b, ?k) L) B" "(?b, ?k) \<notin> L"
      using slab_core_add [OF P(1) page(2,4), of t] P(4) ff sv alloc_inv_upd [of m _ ?f p] by (simp_all add: pg frame_simps)
    note al = alloc_pages_inv [OF P(2) page(2)]
    have cl: "left_clean t B"
      by (rule left_clean_took [OF _ P(2) page(2), of t]) (use assms(1) al ff P(3) in \<open>auto simp: slab_inv_def pg frame_simps\<close>)
    have "free_frames (sl_pg t) = free_frames (sl_pg s) - frames (p, ?k)" "frames (p, ?k) \<subseteq> free_frames (sl_pg s)"
      using al(3,4) ff by auto
    then show thesis
      using that(2) [of ?b t p] km add cl ord n4(2) by (simp add: slab_inv_def t_def memset_eq)
  qed
qed

lemma kfree_core:
  assumes "slab_core s (insert (a, k) L) B" "(a, k) \<notin> L"
  obtains t where "kfree a s = Some (Inr ((), t))" "slab_core t L B"
    "free_frames (sl_pg t) = free_frames (sl_pg s) \<union> frames (virt_to_page a, k)"
    "sl_mem t = sl_mem s" "slob_view (sl_pg t) = slob_view (sl_pg s)"
proof -
  let ?p = "virt_to_page a"
  let ?A = "obj_block ` L \<union> B"
  have ob: "obj_block (a, k) = (?p, k)" by (simp add: obj_block_def)
  have inv: "alloc_inv (sl_pg s) (insert (?p, k) ?A)" using assms(1) by (simp add: slab_core_def ob)
  have nin: "(?p, k) \<notin> ?A"
    using assms by (auto simp: slab_core_def ob inj_on_def)
  have k: "k < MAX_ORDER" using buddy_invD(2) [OF alloc_inv_buddy [OF inv], of "(?p, k)"] by (simp add: aligned_def)
  have "unat (word_of_int (int k) :: u32) = k" using k by (simp add: MAX_ORDER_def unat_of_nat take_bit_nat_eq_self)
  then have kf: "kfree a s = Some (Inr ((), s\<lparr>sl_pg := uu_free_pages ?p k (sl_pg s)\<rparr>))"
    using assms(1) virt_to_page_less [of a] by (auto simp: kfree_def Let_def page_of_def slab_core_def free_pages_def modC_def)
  have r: "refcount (mem_map (sl_pg s) ?p) = 1" using inv by (simp add: alloc_inv_def)
  have ff: "free_frames (uu_free_pages ?p k (sl_pg s)) = free_frames (sl_pg s) \<union> frames (?p, k)"
    by (rule uu_free_pages_buddy(2) [OF alloc_inv_buddy [OF inv] nin r])
  have "slab_core (s\<lparr>sl_pg := uu_free_pages ?p k (sl_pg s)\<rparr>) L B"
    using assms(1) uu_free_pages_alloc [OF inv nin] ff by (auto simp: slab_core_def ob block_frames_def)
  then show thesis using that kf ff by simp
qed

section \<open>Histories\<close>

definition obj_order :: "u64 \<Rightarrow> nat" where
  "obj_order sz = (if align4 sz < PGSIZE - 8 then 0 else get_order (align4 sz))"

text \<open>
  One event: an allocation of any size, the return of an object of one page, another client taking
  or returning a block of pages, or anybody writing to memory.
\<close>

inductive slab_step :: "slab \<Rightarrow> (u64 \<times> nat) set \<Rightarrow> (nat \<times> nat) set \<Rightarrow> slab \<Rightarrow> (u64 \<times> nat) set \<Rightarrow> (nat \<times> nat) set \<Rightarrow> bool" where
  alloc: "unat sz + 3 < 2 ^ 64 \<Longrightarrow> kmalloc sz s = Some (Inr (a, t)) \<Longrightarrow>
    slab_step s L B t (if a = 0 then L else insert (a, obj_order sz) L) B"
| release: "(a, 0) \<in> L \<Longrightarrow> kfree a s = Some (Inr ((), t)) \<Longrightarrow> slab_step s L B t (L - {(a, 0)}) B"
| take_pages: "get_free_pages k (sl_pg s) = (a, m) \<Longrightarrow> a \<noteq> 0 \<Longrightarrow>
    slab_step s L B (s\<lparr>sl_pg := m\<rparr>) L (insert (virt_to_page a, k) B)"
| return_pages: "(virt_to_page a, k) \<in> B \<Longrightarrow>
    slab_step s L B (s\<lparr>sl_pg := free_pages a k (sl_pg s)\<rparr>) L (B - {(virt_to_page a, k)})"
| write_mem: "slab_step s L B (s\<lparr>sl_mem := g\<rparr>) L B"

inductive slab_steps :: "slab \<Rightarrow> (u64 \<times> nat) set \<Rightarrow> (nat \<times> nat) set \<Rightarrow> slab \<Rightarrow> (u64 \<times> nat) set \<Rightarrow> (nat \<times> nat) set \<Rightarrow> bool" where
  none: "slab_steps s L B s L B"
| more: "slab_steps s L B t L' B' \<Longrightarrow> slab_step t L' B' u L'' B'' \<Longrightarrow> slab_steps s L B u L'' B''"

lemma slab_inv_release:
  assumes "slab_inv s (insert (a, 0) L) B" "(a, 0) \<notin> L"
  obtains t where "kfree a s = Some (Inr ((), t))" "slab_inv t L B" "sl_mem t = sl_mem s"
    "free_frames (sl_pg t) = free_frames (sl_pg s) \<union> {virt_to_page a}"
proof -
  from kfree_core [OF slab_inv_parts(1) [OF assms(1)] assms(2)] obtain t where t: "kfree a s = Some (Inr ((), t))"
    "slab_core t L B" "free_frames (sl_pg t) = free_frames (sl_pg s) \<union> frames (virt_to_page a, 0)" "sl_mem t = sl_mem s"
    "slob_view (sl_pg t) = slob_view (sl_pg s)" .
  have fr: "frames (virt_to_page a, 0) = {virt_to_page a}" by (auto simp: frames_def)
  have "slob_left_units (mem_map (sl_pg t) q) = slob_left_units (mem_map (sl_pg s) q)" for q
    using fun_cong [OF t(5), of q] by (simp add: slob_view_def)
  then have "left_clean t B"
    using assms(1) t(3) fr by (auto simp: slab_inv_def left_clean_def slab_core_def)
  then show thesis using that t(1-4) fr by (simp add: slab_inv_def)
qed

lemma slab_inv_take:
  assumes "slab_inv s L B" "get_free_pages k (sl_pg s) = (a, m)" "a \<noteq> 0"
  shows "slab_inv (s\<lparr>sl_pg := m\<rparr>) L (insert (virt_to_page a, k) B)"
proof -
  note P = slab_inv_parts [OF assms(1)]
  from get_free_pages_Some [OF P(2,3) assms(2,3)] obtain p where p: "alloc_pages k (sl_pg s) = (Some p, m)" "virt_to_page a = p" .
  note al = alloc_pages_inv [OF P(2) p(1)]
  have sv: "slob_left_units (mem_map m q) = slob_left_units (mem_map (sl_pg s) q)"
    "PageSlab (mem_map m q) = PageSlab (mem_map (sl_pg s) q)" for q
    using fun_cong [OF slob_view_alloc [OF p(1)], of q] by (simp_all add: slob_view_def)
  have "free_frames m \<subseteq> free_frames (sl_pg s)" "frames (p, k) \<subseteq> free_frames (sl_pg s)" using al(4) by auto
  then show ?thesis
    using assms(1) al(1,2) by (auto simp: slab_inv_def slab_core_def left_clean_def sv p(2) block_frames_def)
qed

lemma slab_inv_return:
  assumes "slab_inv s L B" "(virt_to_page a, k) \<in> B"
  shows "slab_inv (s\<lparr>sl_pg := free_pages a k (sl_pg s)\<rparr>) L (B - {(virt_to_page a, k)})"
proof -
  let ?p = "virt_to_page a" and ?A = "obj_block ` L \<union> (B - {(virt_to_page a, k)})"
  note P = slab_inv_parts [OF assms(1)]
  have nin: "(?p, k) \<notin> ?A" using assms by (auto simp: slab_inv_def slab_core_def)
  have "insert (?p, k) ?A = obj_block ` L \<union> B" using assms(2) by auto
  then have inv: "alloc_inv (sl_pg s) (insert (?p, k) ?A)" using P(2) by simp
  have r: "refcount (mem_map (sl_pg s) ?p) = 1" using inv by (simp add: alloc_inv_def)
  have ff: "free_frames (uu_free_pages ?p k (sl_pg s)) = free_frames (sl_pg s) \<union> frames (?p, k)"
    by (rule uu_free_pages_buddy(2) [OF alloc_inv_buddy [OF inv] nin r])
  have "frames (?p, k) \<subseteq> block_frames B" using assms(2) by (auto simp: block_frames_def)
  then show ?thesis
    using assms(1) uu_free_pages_alloc [OF inv nin] ff
    by (auto simp: slab_inv_def slab_core_def left_clean_def block_frames_def free_pages_def)
qed

lemma slab_step_inv: "slab_step s L B t L' B' \<Longrightarrow> slab_inv s L B \<Longrightarrow> slab_inv t L' B'"
proof (induction rule: slab_step.induct)
  case (alloc sz s a t L B)
  show ?case
  proof (cases "unat sz \<le> 4084")
    case True
    have o: "obj_order sz = 0"
      using align4_small [OF alloc.hyps(1)] True by (simp add: obj_order_def)
    from alloc.prems True show ?thesis
    proof (cases rule: kmalloc_small_inv)
      case none
      then show ?thesis using alloc by simp
    next
      case (page a' t' p)
      then have "a \<noteq> 0" "a' = a" "t' = t" using alloc.hyps(2) by auto
      then show ?thesis using page(2) o by simp
    qed
  next
    case False
    then have o: "obj_order sz = get_order (align4 sz)"
      using align4_small [OF alloc.hyps(1)] by (simp add: obj_order_def)
    from alloc.prems False [unfolded not_le] alloc.hyps(1) show ?thesis
    proof (cases rule: kmalloc_large_inv)
      case none
      then show ?thesis using alloc.hyps(2) by simp
    next
      case (page a' t' p)
      have eq: "a' = a" "t' = t" using page(1) alloc.hyps(2) by auto
      have "p \<in> free_frames (sl_pg s)" using page(6) frames_head by blast
      then have "a \<noteq> 0" using page(4) eq slab_inv_parts(3) [OF alloc.prems] page_to_address_0 [of p] by auto
      then show ?thesis using page(2) o eq by simp
    qed
  qed
next
  case (release a L s t B)
  have ins: "insert (a, 0) (L - {(a, 0)}) = L" using release.hyps(1) by blast
  with release.prems have "slab_inv s (insert (a, 0) (L - {(a, 0)})) B" by simp
  from slab_inv_release [OF this] show ?case using release.hyps(2) by auto
next
  case (take_pages k s a m L B)
  then show ?case by (rule slab_inv_take [rotated])
next
  case (return_pages a k B s L)
  then show ?case by (rule slab_inv_return [rotated])
next
  case (write_mem s L B g)
  then show ?case by (simp add: slab_inv_def slab_core_def left_clean_def)
qed

lemma slab_steps_inv: "slab_steps s L B t L' B' \<Longrightarrow> slab_inv s L B \<Longrightarrow> slab_inv t L' B'"
  by (induction rule: slab_steps.induct) (auto intro: slab_step_inv)

section \<open>Where the pages carry the wrong order\<close>

text \<open>
  A large object that is returned leaves its order in the record of its first page, which is then free:
  the next small object that gets this page breaks the invariant.
\<close>

lemma kfree_leaves_order:
  assumes "slab_inv s L B" "4084 < unat sz" "unat sz + 3 < 2 ^ 64" "kmalloc sz s = Some (Inr (a, t))"
  shows "\<exists>u. kfree a t = Some (Inr ((), u)) \<and> virt_to_page a \<in> free_frames (sl_pg u) \<and>
    slob_left_units (mem_map (sl_pg u) (virt_to_page a)) = int (get_order (align4 sz))"
  using assms(1-3)
proof (cases rule: kmalloc_large_inv)
  case none
  then show ?thesis using assms(4) by simp
next
  case (page a' t' p)
  let ?k = "get_order (align4 sz)"
  have eq: "a' = a" "t' = t" using page(1) assms(4) by auto
  note core = slab_inv_parts(1) [OF page(2)] and nin = page(3)
  from kfree_core [OF core nin] obtain u where u: "kfree a' t' = Some (Inr ((), u))"
    "free_frames (sl_pg u) = free_frames (sl_pg t') \<union> frames (virt_to_page a', ?k)" "slob_view (sl_pg u) = slob_view (sl_pg t')" .
  have "slob_left_units (mem_map (sl_pg t') (virt_to_page a')) = int ?k" using core by (simp add: slab_core_def)
  then have "slob_left_units (mem_map (sl_pg u) (virt_to_page a')) = int ?k"
    using fun_cong [OF u(3), of "virt_to_page a'"] by (simp add: slob_view_def)
  then show ?thesis using u(1,2) eq by auto
qed

text \<open>
  \<^verbatim>\<open>kfree\<close> of a small object whose page carries order 1 also frees the page behind it, although that
  page belongs to another object in use.
\<close>

lemma buddy_inv_join:
  assumes "buddy_inv m (insert (p, 0) (insert (Suc p, 0) A))" "even p" "(p, 0) \<notin> A" "(Suc p, 0) \<notin> A"
  shows "buddy_inv m (insert (p, 1) A)" "(p, 1) \<notin> A"
proof -
  let ?A = "insert (p, 0) (insert (Suc p, 0) A)"
  note D = disjoint_blocksD [OF buddy_invD(3) [OF assms(1)]]
  have fr: "frames (p, 1) = {p, Suc p}" "frames (p, 0) = {p}" "frames (Suc p, 0) = {Suc p}" by (auto simp: frames_def)
  have out: "frames b \<inter> {p, Suc p} = {}" if "b \<in> free_blocks m \<union> A" for b
    using D [of b "(p, 0)" p] D [of b "(Suc p, 0)" "Suc p"] that fr assms(3,4) buddy_invD(1) [OF assms(1)] by blast
  show nin: "(p, 1) \<notin> A" using out [of "(p, 1)"] fr by auto
  have dis: "disjoint_blocks (free_blocks m \<union> insert (p, 1) A)"
    unfolding disjoint_blocks_def
  proof (intro ballI impI)
    fix b c assume bc: "b \<in> free_blocks m \<union> insert (p, 1) A" "c \<in> free_blocks m \<union> insert (p, 1) A" "b \<noteq> c"
    show "frames b \<inter> frames c = {}"
    proof (cases "b = (p, 1) \<or> c = (p, 1)")
      case True
      then show ?thesis using bc out [of b] out [of c] fr(1) by auto
    next
      case False
      then show ?thesis using bc D [of b c] by blast
    qed
  qed
  show "buddy_inv m (insert (p, 1) A)"
  proof (rule buddy_invI)
    show "free_blocks m \<inter> insert (p, 1) A = {}" using buddy_invD(1) [OF assms(1)] out [of "(p, 1)"] fr by auto
    show "aligned b" if "b \<in> free_blocks m \<union> insert (p, 1) A" for b
      using that buddy_invD(2) [OF assms(1), of b] assms(2) by (auto simp: aligned_def MAX_ORDER_def)
    show "disjoint_blocks (free_blocks m \<union> insert (p, 1) A)" by (rule dis)
    show "lists_ok m" by (rule buddy_invD(4) [OF assms(1)])
    show "tag m q = Some k" if "(q, k) \<in> free_blocks m" for q k by (rule tag_free [OF assms(1) that])
    show "(q, k) \<in> free_blocks m \<or> (\<exists>b \<in> free_blocks m \<union> insert (p, 1) A. k < snd b \<and> q \<in> frames b)"
      if "tag m q = Some k" "aligned (q, k)" for q k
      by (rule tag_cases [OF assms(1) that]) auto
  qed
qed

lemma kfree_stale_order:
  assumes "alloc_inv (sl_pg s) (insert (virt_to_page a, 0) (insert (virt_to_page b, 0) A))"
    "(virt_to_page a, 0) \<notin> A" "(virt_to_page b, 0) \<notin> A"
    "virt_to_page b = Suc (virt_to_page a)" "even (virt_to_page a)"
    "\<not> PageSlab (page_of (virt_to_page a) s)" "slob_left_units (page_of (virt_to_page a) s) = 1"
  shows "\<exists>t. kfree a s = Some (Inr ((), t)) \<and> virt_to_page b \<in> free_frames (sl_pg t)"
proof -
  let ?p = "virt_to_page a"
  have inv: "buddy_inv (sl_pg s) (insert (?p, 1) A)" "(?p, 1) \<notin> A"
    using buddy_inv_join [of "sl_pg s" ?p A] assms by (simp_all add: alloc_inv_def)
  have r: "refcount (mem_map (sl_pg s) ?p) = 1" using assms(1) by (simp add: alloc_inv_def)
  have "kfree a s = Some (Inr ((), s\<lparr>sl_pg := uu_free_pages ?p 1 (sl_pg s)\<rparr>))"
    using assms(6,7) by (simp add: kfree_def Let_def page_of_def free_pages_def modC_def)
  moreover have "virt_to_page b \<in> frames (?p, 1)" using assms(4) by (simp add: frames_def)
  ultimately show ?thesis using uu_free_pages_buddy(2) [OF inv r] by auto
qed

text \<open>
  Returning an object to its cache finds no free list in the record of its page and dereferences the null
  pointer, unless the object has the size of a page less one byte.
\<close>

lemma kmem_cache_free_faults:
  assumes "kc_size c < 4095" "b \<noteq> 0" "freelist (page_of (virt_to_page b) s) = 0" "slob_left_units (page_of (virt_to_page b) s) = 0"
  shows "kmem_cache_free c b s = Some (Inl NullDeref)"
proof -
  have u: "unat (kc_size c) < 4095" using assms(1) by (simp add: word_less_nat_alt)
  have sz: "word_of_int (sint (kc_size c)) = (ucast (kc_size c) :: u64)"
  proof -
    have "uint (kc_size c) < 4095" using assms(1) by (simp add: word_less_def)
    then have "sint (kc_size c) = uint (kc_size c)" 
      unfolding sint_uint by (intro signed_take_bit_int_eq_self) (auto intro: order.trans [OF _ uint_ge_0])
    then show ?thesis by simp
  qed
  have uc: "unat (ucast (kc_size c) :: u64) = unat (kc_size c)" using u by (simp add: unsigned_ucast_eq take_bit_nat_eq_self)
  have "unat (SLOB_UNITS (ucast (kc_size c))) = (unat (kc_size c) + 1) div 2"
    using u uc by (simp add: SLOB_UNITS_def unat_div_distrib unat_word_ariths)
  then have n: "uint (SLOB_UNITS (ucast (kc_size c))) = int ((unat (kc_size c) + 1) div 2)" unfolding uint_nat by simp
  define n' where "n' = uint (SLOB_UNITS (ucast (kc_size c) :: u64))"
  have n': "0 \<le> n'" "n' < 2048" using u n by (auto simp: n'_def)
  have U: "SLOB_UNITS 4096 = 2048" by (simp add: SLOB_UNITS_def)
  have sh: "to_short n' = n'" "to_int n' = n'"
    using n' unfolding to_short_def to_int_def sint_sbintrunc' by (auto intro!: signed_take_bit_int_eq_self)
  have "(word_of_int n' :: u64) \<noteq> 2048"
  proof
    assume "(word_of_int n' :: u64) = 2048"
    then have "uint (word_of_int n' :: u64) = uint (2048 :: u64)" by simp
    moreover have "uint (word_of_int n' :: u64) = n'" using n' unfolding uint_word_of_int_eq by (intro take_bit_int_eq_self) auto
    ultimately show False using n' by simp
  qed
  then show ?thesis
    using assms u sz sh U
    by (simp add: kmem_cache_free_def slob_free_def Let_def PGSIZE_def word_less_nat_alt uc n'_def [symmetric]
        page_of_def on_page_def frame_simps slob_free_high_def slob_next_def bindC_def getC_def load_units_def)
qed

section \<open>A small machine\<close>

definition small_slab :: slab where
  "small_slab = \<lparr>sl_pg = small_boot, sl_mem = (\<lambda>_. 255), sl_links = (\<lambda>_. \<lparr>nxt = slob_head, prv = slob_head\<rparr>),
     sl_cache = (\<lambda>_. kmem_cache_boot 0), g_slab_caches = []\<rparr>"

lemma slob_view_memblock_free_loop [simp]: "slob_view (memblock_free_loop n p m) = slob_view m"
  by (induction n p m rule: memblock_free_loop.induct) (simp_all add: slob_view_def fun_eq_iff frame_simps)

lemma slob_view_memblock_free_pages [simp]: "slob_view (memblock_free_pages p k m) = slob_view m"
  by (simp add: memblock_free_pages_def Let_def)

lemma slob_view_zone_init [simp]: "slob_view (zone_init_free_lists ords m) = slob_view m"
proof (induction ords arbitrary: m)
  case (Cons k ks)
  show ?case unfolding zone_init_free_lists.simps Cons by (simp add: slob_view_def fun_eq_iff)
qed simp

lemma small_slab_inv: "slab_inv small_slab {} {}"
proof -
  have sv: "slob_view small_boot q = (0, False)" for q
    by (simp add: small_boot_def init_zone_free_area_list_def) (simp add: small_node_def slob_view_def zero_page_def PageSlab_def get_bit_ul_def)
  have "slob_left_units (mem_map small_boot q) = 0" "\<not> PageSlab (mem_map small_boot q)" for q
    using sv [of q] by (simp_all add: slob_view_def)
  then show ?thesis
    using small_boot_inv by (auto simp: slab_inv_def slab_core_def left_clean_def small_slab_def dll_def block_frames_def)
qed

lemma free_not_object:
  assumes "slab_inv s L B" "p \<in> free_frames (sl_pg s)" "x \<in> L"
  shows "p \<notin> frames (obj_block x)"
proof
  assume p: "p \<in> frames (obj_block x)"
  obtain b where b: "b \<in> free_blocks (sl_pg s)" "p \<in> frames b" using assms(2) by (auto simp: free_frames_def block_frames_def)
  note inv = alloc_inv_buddy [OF slab_inv_parts(2) [OF assms(1)]]
  have "b \<noteq> obj_block x" using buddy_invD(1) [OF inv] b(1) assms(3) by blast
  then show False using disjoint_blocksD [OF buddy_invD(3) [OF inv], of b "obj_block x"] b p assms(3) by blast
qed

text \<open>
  C10: small objects never share a page, against the design that \<^verbatim>\<open>slab.c\<close> describes (objects of any size are packed into one page, and an
  allocation looks for a page with free space). \<^verbatim>\<open>slob_alloc\<close> loses the record of every page it takes, so that \<^verbatim>\<open>kmalloc\<close> of any size
  up to 4084 bytes, however many objects of whatever sizes are in use, takes one more whole page: either no page is free at all, it returns 0 and
  changes nothing, even when pages of small objects are nearly empty; or it returns an address eight bytes into a page that was free and in which no other object lies, which becomes the
  only page no longer free. The bytes of the object are zero, no byte outside that page has changed,
  and the invariant holds with the new object.
\<close>

theorem kmalloc_one_page_each:
  assumes "slab_inv s L B" "unat sz \<le> 4084"
  shows "kmalloc sz s = Some (Inr (0, s)) \<and> free_frames (sl_pg s) = {} \<or>
    (\<exists>a t p. kmalloc sz s = Some (Inr (a, t)) \<and> p \<in> free_frames (sl_pg s) \<and> unat a = 4096 * p + 8 \<and> (a, 0) \<notin> L \<and>
       (\<forall>x \<in> L. p \<notin> frames (obj_block x)) \<and>
       slab_inv t (insert (a, 0) L) B \<and> free_frames (sl_pg t) = free_frames (sl_pg s) - {p} \<and>
       (\<forall>i < unat sz. sl_mem t (unat a + i) = 0) \<and> (\<forall>x. x div 4096 \<noteq> p \<longrightarrow> sl_mem t x = sl_mem s x))"
  using assms
proof (cases rule: kmalloc_small_inv)
  case (page a t p)
  then show ?thesis using free_not_object [OF assms(1)] by blast
qed blast

theorem kmalloc_one_page_each_witness:
  "\<exists>a t p. kmalloc 16 small_slab = Some (Inr (a, t)) \<and> p \<in> {2, 3, 8, 9, 10, 11} \<and> unat a = 4096 * p + 8 \<and>
     slab_inv t {(a, 0)} {} \<and> (\<forall>i < 16. sl_mem t (unat a + i) = 0)"
proof -
  have "free_frames (sl_pg small_slab) = {2, 3, 8, 9, 10, 11}" using small_boot_inv(2) by (simp add: small_slab_def)
  then show ?thesis using kmalloc_one_page_each [OF small_slab_inv, of 16] by auto
qed

text \<open>
  C40: Starting from a state that satisfies the invariant, after any history of allocations of every
  size, returns of objects of one page, page allocations and returns by other clients and writes to
  memory, the objects in use lie in pairwise disjoint blocks of pages that are neither free nor held
  by another client, and \<^verbatim>\<open>kfree\<close> of any object of one page returns and frees exactly its page.
\<close>

theorem slab_history:
  assumes "slab_steps s L B t L' B'" "slab_inv s L B"
  shows "slab_inv t L' B' \<and>
    (\<forall>x \<in> L'. \<forall>y \<in> L' - {x}. frames (obj_block x) \<inter> frames (obj_block y) = {}) \<and>
    (\<forall>x \<in> L'. frames (obj_block x) \<inter> (free_frames (sl_pg t) \<union> block_frames B') = {}) \<and>
    (\<forall>a. (a, 0) \<in> L' \<longrightarrow> (\<exists>u. kfree a t = Some (Inr ((), u)) \<and> slab_inv u (L' - {(a, 0)}) B' \<and>
       free_frames (sl_pg u) = insert (virt_to_page a) (free_frames (sl_pg t))))"
proof (intro conjI ballI allI impI)
  show inv: "slab_inv t L' B'" by (rule slab_steps_inv [OF assms])
  note D = disjoint_blocksD [OF buddy_invD(3) [OF alloc_inv_buddy [OF slab_inv_parts(2) [OF inv]]]]
  have nf: "free_blocks (sl_pg t) \<inter> (obj_block ` L' \<union> B') = {}"
    by (rule buddy_invD(1) [OF alloc_inv_buddy [OF slab_inv_parts(2) [OF inv]]])
  have ij: "inj_on obj_block L'" "obj_block ` L' \<inter> B' = {}" using inv by (simp_all add: slab_inv_def slab_core_def)
  show "frames (obj_block x) \<inter> frames (obj_block y) = {}" if "x \<in> L'" "y \<in> L' - {x}" for x y
  proof -
    have "obj_block x \<noteq> obj_block y" using that ij(1) by (auto dest: inj_onD)
    then show ?thesis using D [of "obj_block x" "obj_block y"] that by blast
  qed
  show "frames (obj_block x) \<inter> (free_frames (sl_pg t) \<union> block_frames B') = {}" if "x \<in> L'" for x
  proof -
    have "q \<notin> frames b" if "q \<in> frames (obj_block x)" "b \<in> free_blocks (sl_pg t) \<union> B'" for q b
      using D [of "obj_block x" b q] that \<open>x \<in> L'\<close> nf ij(2) by blast
    then show ?thesis by (auto simp: free_frames_def block_frames_def)
  qed
  show "\<exists>u. kfree a t = Some (Inr ((), u)) \<and> slab_inv u (L' - {(a, 0)}) B' \<and>
       free_frames (sl_pg u) = insert (virt_to_page a) (free_frames (sl_pg t))" if "(a, 0) \<in> L'" for a
  proof -
    have "slab_inv t (insert (a, 0) (L' - {(a, 0)})) B'" using inv that by (simp add: insert_absorb)
    from slab_inv_release [OF this] show ?thesis by fastforce
  qed
qed

theorem slab_history_witness:
  "\<exists>a t u. kmalloc 16 small_slab = Some (Inr (a, t)) \<and> kfree a t = Some (Inr ((), u)) \<and>
     free_frames (sl_pg u) = insert (virt_to_page a) (free_frames (sl_pg t))"
proof -
  have ff: "free_frames (sl_pg small_slab) \<noteq> {}" using small_boot_inv(2) by (simp add: small_slab_def)
  have "unat (16 :: u64) \<le> 4084" by simp
  from small_slab_inv this show ?thesis
  proof (cases rule: kmalloc_small_inv)
    case (page a t p)
    then have "a \<noteq> 0" by auto
    moreover have "obj_order 16 = 0" using align4_small [of 16] by (simp add: obj_order_def)
    ultimately have "slab_step small_slab {} {} t {(a, 0)} {}"
      using slab_step.alloc [of 16 small_slab a t "{}" "{}"] page(1) by simp
    then have "slab_steps small_slab {} {} t {(a, 0)} {}" by (rule slab_steps.more [OF slab_steps.none])
    from slab_history [OF this small_slab_inv] page(1) show ?thesis by auto
  qed (use ff in simp)
qed

end
