(* ===== verification/Fork.thy ===== *)
theory Fork
  imports Mmap Slab
begin

text \<open>
  The copy of an address space that \<^verbatim>\<open>fork\<close> makes, \<^verbatim>\<open>kernel/fork.c\<close>: the areas, and page by page the
  memory that the parent has in them. Both page tables are in the memory of one machine. The child's root table
  begins as a copy of the kernel's, so that the two trees share the tables of the kernel; that the
  parent's memory is left alone therefore needs the separation of the part below the root entries of user
  addresses. The records of areas are kept by their address as in theory Mmap; their memory comes from \<^verbatim>\<open>kmalloc\<close> of theory Slab, which
  works on the page allocator and the bytes of the same machine. Messages are left out.
\<close>

section \<open>The code\<close>

function dup_vma_loop :: "u64 \<Rightarrow> u64 \<Rightarrow> u64 \<Rightarrow> u64 \<Rightarrow> u64 \<Rightarrow> vm \<Rightarrow> (int \<times> vm) result" where
  "dup_vma_loop oldpt newpt va end newva st =
     (if va < end
      then case walk oldpt va False st of
             Inl e \<Rightarrow> Inl e
           | Inr (pte, st) \<Rightarrow>
               if pte = 0 then dup_vma_loop oldpt newpt (va + PGSIZE) end (newva + PGSIZE) st
               else if cells st pte AND PTE_V = 0 then Inl (Panic ''dup_vma: page not present'')
               else let pa = PTE2PA (cells st pte);
                        flags = PTE_FLAGS (cells st pte);
                        (mem, st) = alloc_page st
                    in if mem = 0 then Inr (-1, st)
                       else let st = copy_page_cells mem pa st
                            in case mappages newpt newva PGSIZE mem flags st of
                                 Inl e \<Rightarrow> Inl e
                               | Inr (r, st) \<Rightarrow>
                                   if r \<noteq> 0 then Inr (-1, release_page mem st)
                                   else dup_vma_loop oldpt newpt (va + PGSIZE) end (newva + PGSIZE) st
      else Inr (0, st))"
  by pat_completeness auto
termination
  by (relation "measure (\<lambda>(oldpt, newpt, va, end, newva, st). unat MAXVA - unat va)")
    (auto dest!: walk_bound intro!: diff_less_mono2)

declare dup_vma_loop.simps [simp del]

text \<open>The third argument of \<^verbatim>\<open>unmap_validpages\<close> is a number of pages, to which the code adds the address.\<close>

definition dup_vma_mmap :: "u64 \<Rightarrow> u64 \<Rightarrow> u64 \<Rightarrow> u64 \<Rightarrow> u64 \<Rightarrow> vm \<Rightarrow> (int \<times> vm) result" where
  "dup_vma_mmap oldpt newpt oldva newva sz st =
     bindR (dup_vma_loop oldpt newpt oldva (oldva + sz) newva st) (\<lambda>(r, st).
       if r = 0 then Inr (0, st)
       else bindR (unmap_validpages newpt newva (newva + sz div PGSIZE) st) (\<lambda>st. Inr (-1, st)))"

text \<open>The object allocator on the memory of the machine; \<open>sl\<close> is its own state.\<close>

definition vm_kmalloc :: "u64 \<Rightarrow> slab \<Rightarrow> vm \<Rightarrow> (u64 \<times> slab \<times> vm) result option" where
  "vm_kmalloc sz sl st =
     (case kmalloc sz (sl\<lparr>sl_pg := node st, sl_mem := bytes st\<rparr>) of
        None \<Rightarrow> None
      | Some (Inl e) \<Rightarrow> Some (Inl e)
      | Some (Inr (a, sl)) \<Rightarrow> Some (Inr (a, sl, st\<lparr>node := sl_pg sl, bytes := sl_mem sl\<rparr>)))"

definition vm_kfree :: "u64 \<Rightarrow> slab \<Rightarrow> vm \<Rightarrow> (slab \<times> vm) result option" where
  "vm_kfree a sl st =
     (case kfree a (sl\<lparr>sl_pg := node st, sl_mem := bytes st\<rparr>) of
        None \<Rightarrow> None
      | Some (Inl e) \<Rightarrow> Some (Inl e)
      | Some (Inr (_, sl)) \<Rightarrow> Some (Inr (sl, st\<lparr>node := sl_pg sl, bytes := sl_mem sl\<rparr>)))"

text \<open>The sizes of \<^verbatim>\<open>struct vm_area_struct\<close> and \<^verbatim>\<open>struct mm_struct\<close>: seven and six words.\<close>

definition VMA_SIZE :: u64 where "VMA_SIZE = 56"
definition MM_SIZE :: u64 where "MM_SIZE = 48"

definition copy_area :: "nat \<Rightarrow> nat \<Rightarrow> space \<Rightarrow> space" where
  "copy_area orig new st =
     (if new \<noteq> 0 then upd_area new (\<lambda>_. (areas st orig)\<lparr>vm_next := 0, vm_prev := 0\<rparr>) st else st)"

definition vm_area_dup :: "nat \<Rightarrow> slab \<Rightarrow> space \<Rightarrow> (nat \<times> slab \<times> space) result option" where
  "vm_area_dup orig sl st =
     (case vm_kmalloc VMA_SIZE sl (pmem st) of
        None \<Rightarrow> None
      | Some (Inl e) \<Rightarrow> Some (Inl e)
      | Some (Inr (new, sl, p)) \<Rightarrow> Some (Inr (unat new, sl, copy_area orig (unat new) (st\<lparr>pmem := p\<rparr>))))"

text \<open>
  The loop of \<^verbatim>\<open>dup_mmap\<close>: \<open>st\<close> is the child's address space, in whose store the parent's areas are too.
  The results of insertion and of copying are not looked at.
\<close>

partial_function (option) dup_mmap_loop :: "u64 \<Rightarrow> nat \<Rightarrow> slab \<Rightarrow> space \<Rightarrow> (int \<times> slab \<times> space) result option" where
  "dup_mmap_loop oldpt oldvma sl st =
     (if oldvma = 0 then Some (Inr (0, sl, st))
      else case vm_area_dup oldvma sl st of
             None \<Rightarrow> None
           | Some (Inl e) \<Rightarrow> Some (Inl e)
           | Some (Inr (new, sl, st)) \<Rightarrow>
               if new = 0 then Some (Inl NullDeref)
               else case insert_vm_struct new st of
                      None \<Rightarrow> None
                    | Some (_, st) \<Rightarrow>
                        (case dup_vma_mmap oldpt (pagetable st) (vm_start (areas st oldvma)) (vm_start (areas st new))
                                (vm_end (areas st oldvma) - vm_start (areas st oldvma)) (pmem st) of
                           Inl e \<Rightarrow> Some (Inl e)
                         | Inr (_, p) \<Rightarrow> dup_mmap_loop oldpt (vm_next (areas st oldvma)) sl (st\<lparr>pmem := p\<rparr>)))"

text \<open>A new address space begins with the kernel's part of the page table and no area.\<close>

definition mm_alloc_pgd :: "u64 \<Rightarrow> space \<Rightarrow> int \<times> space" where
  "mm_alloc_pgd kernel_pagetable st =
     (let (new, p) = copy_kernel_tbl kernel_pagetable (pmem st);
          st = st\<lparr>pagetable := new, pmem := p\<rparr>
      in if new = 0 then (- ENOMEM, st) else (0, st))"

definition mm_init :: "u64 \<Rightarrow> nat \<Rightarrow> space \<Rightarrow> nat \<times> space" where
  "mm_init kernel_pagetable mm st =
     (let st = st\<lparr>mmap := 0\<rparr>;
          (r, st) = mm_alloc_pgd kernel_pagetable st
      in if r \<noteq> 0 then (0, st) else (mm, st))"

text \<open>
  \<^verbatim>\<open>dup_mm\<close>: the state that is returned is the child's, which
  begins as a copy of the parent's fields; the areas of both and the memory are in it. The result is 0 when there
  is no memory for the structure or for the root table.
\<close>

definition dup_mm :: "u64 \<Rightarrow> slab \<Rightarrow> space \<Rightarrow> (nat \<times> slab \<times> space) result option" where
  "dup_mm kernel_pagetable sl parent =
     (case vm_kmalloc MM_SIZE sl (pmem parent) of
        None \<Rightarrow> None
      | Some (Inl e) \<Rightarrow> Some (Inl e)
      | Some (Inr (new_mm, sl, p)) \<Rightarrow>
          let parent = parent\<lparr>pmem := p\<rparr>
          in if new_mm = 0 then Some (Inr (0, sl, parent))
             else let (r, child) = mm_init kernel_pagetable (unat new_mm) parent
                  in if r = 0
                     then (case vm_kfree new_mm sl (pmem child) of
                             None \<Rightarrow> None
                           | Some (Inl e) \<Rightarrow> Some (Inl e)
                           | Some (Inr (sl, p)) \<Rightarrow> Some (Inr (0, sl, child\<lparr>pmem := p\<rparr>)))
                     else map_option (\<lambda>r. bindR r (\<lambda>(err, sl, child). Inr (if err \<noteq> 0 then 0 else unat new_mm, sl, child)))
                            (dup_mmap_loop (pagetable parent) (mmap parent) sl child))"

section \<open>Pages that are in use are left alone\<close>

lemma pages_aligned: "pages_in_use n U \<Longrightarrow> p \<in> U \<Longrightarrow> 4096 dvd unat p"
  by (simp add: pages_in_use_def)

lemma page_bytes_disjoint:
  assumes "4096 dvd unat p" "4096 dvd unat q" "p \<noteq> q"
  shows "page_bytes p \<inter> page_bytes q = {}"
proof -
  obtain x y where xy: "unat p = 4096 * x" "unat q = 4096 * y" using assms(1,2) by (auto elim!: dvdE)
  have "x \<noteq> y" using assms(3) xy by (metis unsigned_word_eqI)
  then show ?thesis unfolding page_bytes_def xy by auto
qed

lemma alloc_page_fresh:
  assumes "alloc_page st = (p, st')" "pages_in_use (node st) U" "p \<noteq> 0"
  shows "p \<notin> U" "4096 dvd unat p" "PGROUNDDOWN p = p" "pages_in_use (node st') (insert p U)"
    "q \<in> U \<Longrightarrow> page_bytes p \<inter> page_bytes q = {}" "cells st' = cells st" "bytes st' = bytes st"
proof -
  have f: "get_free_page (node st) = (p, node st')" "cells st' = cells st" "bytes st' = bytes st"
    using alloc_page_frame [OF assms(1)] by auto
  note g = pp.get_fresh [OF assms(2) f(1) assms(3)]
  show "p \<notin> U" "4096 dvd unat p" "pages_in_use (node st') (insert p U)" using g by auto
  then show "PGROUNDDOWN p = p" by (simp add: aligned_PGROUNDDOWN)
  show "page_bytes p \<inter> page_bytes q = {}" if "q \<in> U"
    using page_bytes_disjoint [of p q] g pages_aligned [OF assms(2) that] that by blast
  show "cells st' = cells st" "bytes st' = bytes st" using f by auto
qed

lemma walk_levels_bytes:
  assumes "pages_in_use (node st) U" "walk_levels l t va True st = (a, st')" "q \<in> U" "y \<in> page_bytes q"
  shows "bytes st' y = bytes st y"
  using assms
proof (induction l arbitrary: t st U)
  case (Suc l)
  let ?pte = "pte_addr t (Suc l) va"
  show ?case
  proof (cases "valid (cells st ?pte)")
    case True
    then show ?thesis using Suc by (simp add: Let_def)
  next
    case False
    obtain p st1 where al: "alloc_page st = (p, st1)" by fastforce
    show ?thesis
    proof (cases "p = 0")
      case True
      then show ?thesis using Suc.prems(2) False al alloc_page_frame [OF al] by (simp add: Let_def)
    next
      case p: False
      note f = alloc_page_fresh [OF al Suc.prems(1) p]
      let ?s = "set_cell ?pte (PA2PTE p OR PTE_V) (clear_page p st1)"
      have "walk_levels l p va True ?s = (a, st')" using Suc.prems(2) False al p by (simp add: Let_def)
      moreover have "pages_in_use (node ?s) (insert p U)" using f(4) by simp
      ultimately have "bytes st' y = bytes ?s y" using Suc.IH [of ?s "insert p U" p] Suc.prems(3,4) by auto
      moreover have "y \<notin> page_bytes p" using f(5) [OF Suc.prems(3)] Suc.prems(4) by auto
      then have "bytes ?s y = bytes st y" using f(7) by (auto simp: set_cell_def clear_page_def memset_eq page_bytes_def)
      ultimately show ?thesis by simp
    qed
  qed
qed simp

text \<open>
  A walk with allocation in a root table changes cells only in the root entry of the address, in the
  tables below this entry and in new pages.
\<close>

definition below :: "(u64 \<Rightarrow> u64) \<Rightarrow> u64 \<Rightarrow> nat \<Rightarrow> u64 set" where
  "below c t i = (if i \<in> kids c t then tables c 1 (child c t i) else {})"

lemma two_levels: "(2 :: nat) = Suc 1"
  by simp

lemmas walk_levels_two = walk_levels.simps(2) [of 1, folded two_levels]

lemma walk_root_frame:
  assumes inv: "vm_inv t st U" and w: "walk_levels 2 t va True st = (a, st')"
  obtains U' where "vm_inv t st' U'" "U \<subseteq> U'" "\<And>x. leaf (cells st') 2 t x = leaf (cells st) 2 t x"
    "a \<noteq> 0 \<Longrightarrow> desc (cells st') 2 t va = Some a"
    "\<And>x. PGROUNDDOWN x \<notin> below (cells st) t (idx 2 va) \<union> (U' - U) \<Longrightarrow> PGROUNDDOWN x \<noteq> t \<Longrightarrow> cells st' x = cells st x"
    "\<And>j. j < 512 \<Longrightarrow> j \<noteq> idx 2 va \<Longrightarrow> cells st' (entry_addr t j) = cells st (entry_addr t j)"
    "below (cells st') t (idx 2 va) \<subseteq> below (cells st) t (idx 2 va) \<union> (U' - U)"
proof -
  note goal = that
  let ?i = "idx 2 va" and ?c = "cells st"
  have pt: "ptree ?c 2 t" and sub: "tables ?c 2 t \<subseteq> U" and use: "pages_in_use (node st) U" using inv by (auto simp: vm_inv_def)
  have al: "PGROUNDDOWN t = t" and tU: "t \<in> U" using pt sub ptree_aligned tables_root by blast+
  have i: "?i < 512" by (rule idx_less)
  have down: thesis if s: "ptree (cells s) 2 t" "tables (cells s) 2 t \<subseteq> V" "pages_in_use (node s) V" "?i \<in> kids (cells s) t"
      "walk_levels 1 (child (cells s) t ?i) va True s = (a, st')" and V: "U \<subseteq> V"
      and leaf: "\<And>x. leaf (cells s) 2 t x = leaf ?c 2 t x"
      and cs: "\<And>x. PGROUNDDOWN x \<notin> V - U \<Longrightarrow> PGROUNDDOWN x \<noteq> t \<Longrightarrow> cells s x = ?c x"
      and root: "\<And>j. j < 512 \<Longrightarrow> j \<noteq> ?i \<Longrightarrow> cells s (entry_addr t j) = ?c (entry_addr t j)"
      and bl: "tables (cells s) 1 (child (cells s) t ?i) \<subseteq> below ?c t ?i \<union> (V - U)" for s V
  proof -
    let ?k = "child (cells s) t ?i"
    have ck: "ptree (cells s) 1 ?k" "tables (cells s) 1 ?k \<subseteq> V" "t \<notin> tables (cells s) 1 ?k"
      using s(1,2,4) unfolding two_levels by auto
    obtain U' where U': "pages_in_use (node st') U'" "ext 1 ?k (cells s) V (cells st') U'" "tables (cells st') 1 ?k \<subseteq> U'"
      "a \<noteq> 0 \<longrightarrow> desc (cells st') 1 ?k va = Some a"
      using walk_levels_ext [OF ck(1,2) s(3,5)] by blast
    note e = extD [OF U'(2)]
    note ec = ext_child [OF s(1,2) [unfolded two_levels] s(4) U'(2), folded two_levels]
    note e2 = extD [OF ec(1)]
    have tV: "t \<in> V" using tU V by auto
    have slot: "cells st' (entry_addr t j) = cells s (entry_addr t j)" if "j < 512" for j
      using e(4) [of "entry_addr t j"] entry_addr_page [OF al that] ck(3) tV by auto
    show thesis
    proof (rule goal)
      show "vm_inv t st' U'" using e2(1,2,3) s(2) U'(1) by (auto simp: vm_inv_def)
      show "U \<subseteq> U'" using V e(1) by blast
      show "leaf (cells st') 2 t x = leaf ?c 2 t x" for x using e2(5) leaf by simp
      show "desc (cells st') 2 t va = Some a" if "a \<noteq> 0"
        using U'(4) that s(4) ec(2) ec(3) [OF i] unfolding two_levels desc_Suc by simp
      show "cells st' x = ?c x" if x: "PGROUNDDOWN x \<notin> below ?c t ?i \<union> (U' - U)" "PGROUNDDOWN x \<noteq> t" for x
      proof -
        have "PGROUNDDOWN x \<notin> V - U" "PGROUNDDOWN x \<notin> U' - V" using x(1) V e(1) by auto
        then have "cells st' x = cells s x" using e(4) [of x] bl x(1) by blast
        then show ?thesis using cs [OF \<open>PGROUNDDOWN x \<notin> V - U\<close> x(2)] by simp
      qed
      show "cells st' (entry_addr t j) = ?c (entry_addr t j)" if "j < 512" "j \<noteq> ?i" for j using slot [OF that(1)] root that by simp
      have "below (cells st') t ?i \<subseteq> tables (cells st') 1 ?k" using ec(3) [OF i] by (auto simp: below_def)
      then show "below (cells st') t ?i \<subseteq> below ?c t ?i \<union> (U' - U)" using e(1,3) bl V by blast
    qed
  qed
  show thesis
  proof (cases "?i \<in> kids ?c t")
    case True
    then have "walk_levels 1 (child ?c t ?i) va True st = (a, st')"
      using w unfolding walk_levels_two by (simp add: pte_addr_entry kids_def child_def Let_def)
    from down [OF pt sub use True this] True show thesis by (auto simp: below_def)
  next
    case False
    then have nv: "\<not> valid (?c (entry_addr t ?i))" using i by (simp add: kids_def)
    obtain p st1 where ap: "alloc_page st = (p, st1)" by fastforce
    show thesis
    proof (cases "p = 0")
      case True
      then have "a = 0" "st' = st1" using w nv ap unfolding walk_levels_two by (simp_all add: pte_addr_entry Let_def)
      moreover have "cells st1 = ?c" "node st1 = node st" using alloc_page_frame [OF ap] pp.get_fail [OF use] True by auto
      ultimately show thesis using inv by (intro goal [of U]) (auto simp: vm_inv_def)
    next
      case p: False
      note f = alloc_page_fresh [OF ap use p]
      let ?s = "set_cell (entry_addr t ?i) (PA2PTE p OR PTE_V) (clear_page p st1)"
      have cs: "cells ?s = (\<lambda>x. if in_page p x then 0 else ?c x)(entry_addr t ?i := PA2PTE p OR PTE_V)"
        unfolding cells_set_cell cells_clear_page f(6) ..
      note ln = link_new [OF pt [unfolded two_levels] sub [unfolded two_levels] i False f(1,3) cs, folded two_levels]
      have fresh: "tables (cells ?s) 1 p = {p}"
      proof -
        have "cells ?s x = 0" if "PGROUNDDOWN x = p" for x
          using that entry_addr_page [OF al i] f(1) tU unfolding cs by (auto simp: in_page_def)
        then show ?thesis using fresh_tree [OF f(3), of "cells ?s" 1] by blast
      qed
      have "walk_levels 1 p va True ?s = (a, st')"
        using w nv ap p unfolding walk_levels_two by (simp add: pte_addr_entry Let_def del: walk_levels.simps One_nat_def)
      then have ws: "walk_levels 1 (child (cells ?s) t ?i) va True ?s = (a, st')" using ln(3) by simp
      have "tables (cells ?s) 2 t \<subseteq> insert p U" using extD(3) [OF ln(1)] sub by auto
      moreover have "pages_in_use (node ?s) (insert p U)" using f(4) by simp
      moreover have "cells ?s x = ?c x" if "PGROUNDDOWN x \<notin> insert p U - U" "PGROUNDDOWN x \<noteq> t" for x
        using that f(1) entry_addr_page [OF al i] unfolding cs by (auto simp: in_page_def)
      moreover have "cells ?s (entry_addr t j) = ?c (entry_addr t j)" if "j < 512" "j \<noteq> ?i" for j
        using that f(1) tU entry_addr_page [OF al that(1)] entry_addr_inj [OF al that(1) i] unfolding cs by (auto simp: in_page_def)
      moreover have "tables (cells ?s) 1 (child (cells ?s) t ?i) \<subseteq> below ?c t ?i \<union> (insert p U - U)"
        using fresh ln(3) f(1) by auto
      ultimately show thesis
        by (intro down [OF extD(2) [OF ln(1)] _ _ ln(2) ws subset_insertI extD(5) [OF ln(1)]]) auto
    qed
  qed
qed

lemma ptree_below:
  assumes "ptree c 2 t"
  shows "i \<in> kids c t \<Longrightarrow> ptree c 1 (child c t i)" "t \<notin> below c t i" "below c t i \<subseteq> tables c 2 t"
    "i \<noteq> j \<Longrightarrow> below c t i \<inter> below c t j = {}"
  using assms unfolding two_levels by (auto simp: below_def)

text \<open>What is below a root entry stays when the root entry and the tables below it do.\<close>

lemma below_cong:
  assumes "ptree c 2 t" "i < 512" "c' (entry_addr t i) = c (entry_addr t i)" "\<And>x. PGROUNDDOWN x \<in> below c t i \<Longrightarrow> c' x = c x"
  shows "below c' t i = below c t i"
proof -
  have k: "i \<in> kids c' t \<longleftrightarrow> i \<in> kids c t" "child c' t i = child c t i" using assms(3) by (simp_all add: kids_def child_def)
  show ?thesis
  proof (cases "i \<in> kids c t")
    case True
    then have "tables c' 1 (child c t i) = tables c 1 (child c t i)"
      using ptree_cong [OF ptree_below(1) [OF assms(1) True], of c'] assms(4) by (simp add: below_def)
    then show ?thesis using k by (simp add: below_def)
  qed (simp add: below_def k)
qed

section \<open>One page\<close>

text \<open>
  While the child's table \<open>new\<close> is filled: the pages \<open>U0\<close> that were in use at the beginning are as they
  were, but for the child's root table, and what is below the root entries \<open>I\<close> of user addresses is new.
\<close>

definition dup_inv :: "(u64 \<Rightarrow> u64) \<Rightarrow> mem \<Rightarrow> u64 set \<Rightarrow> u64 \<Rightarrow> nat set \<Rightarrow> vm \<Rightarrow> u64 set \<Rightarrow> bool" where
  "dup_inv c0 b0 U0 new I st U \<longleftrightarrow> vm_inv new st U \<and> U0 \<subseteq> U \<and> new \<in> U0 \<and>
     (\<forall>i \<in> I. i < 512 \<longrightarrow> below (cells st) new i \<inter> U0 = {}) \<and>
     (\<forall>x. PGROUNDDOWN x \<in> U0 - {new} \<longrightarrow> cells st x = c0 x) \<and> (\<forall>p \<in> U0. \<forall>y \<in> page_bytes p. bytes st y = b0 y)"

lemma mappages_one:
  assumes "PGROUNDDOWN va = va" "va < MAXVA"
  shows "mappages t va PGSIZE pa perm st =
    (let (pte, s) = walk_levels 2 t va True st
     in if pte = 0 \<or> valid (cells s pte) then Inr (-1, s) else Inr (0, set_cell pte (PA2PTE pa OR perm OR PTE_V) s))"
proof -
  have "PGROUNDDOWN (va + PGSIZE - 1) = va"
  proof -
    have m: "unat MAXVA = 2 ^ 38" by (simp add: MAXVA_def)
    have "4096 dvd unat va" using assms(1) by (metis PGROUNDDOWN_unat dvd_minus_mod)
    moreover have "unat (va + PGSIZE - 1) = unat va + 4095" using assms(2) m by (intro unat_plus_4095) (simp add: word_less_nat_alt)
    ultimately have "unat (va + PGSIZE - 1) div 4096 = unat va div 4096" by (auto elim!: dvdE)
    then show ?thesis using assms(1) PGROUNDDOWN_eq_iff [of "va + PGSIZE - 1" va] by simp
  qed
  then have "mappages t va PGSIZE pa perm st = map_loop t va va pa perm st" using assms(1) by (simp add: mappages_def PGSIZE_def)
  then show ?thesis using assms(2) by (subst (asm) map_loop.simps) (simp add: walk_def Let_def not_le split: prod.split)
qed

lemma mappages_page:
  assumes "mappages t va PGSIZE pa perm st = Inr (0, st')" "PGROUNDDOWN va = va" "va < MAXVA"
  obtains pte s where "walk_levels 2 t va True st = (pte, s)" "pte \<noteq> 0" "\<not> valid (cells s pte)" "st' = set_cell pte (PA2PTE pa OR perm OR PTE_V) s"
  using assms(1) that unfolding mappages_one [OF assms(2,3)] by (auto simp: Let_def split: prod.splits if_splits)

lemma map_fresh_page:
  assumes inv: "dup_inv c0 b0 U0 new I st U" and mp: "mappages new va PGSIZE mem fl st = Inr (0, st')"
    and va: "PGROUNDDOWN va = va" "va < MAXVA" "idx 2 va \<in> I"
  obtains U' where "dup_inv c0 b0 U0 new I st' U'" "U \<subseteq> U'" "\<And>p y. p \<in> U \<Longrightarrow> y \<in> page_bytes p \<Longrightarrow> bytes st' y = bytes st y"
    "\<And>x. x < MAXVA \<Longrightarrow> leaf (cells st') 2 new x = (if pn x = pn va then PA2PTE mem OR fl OR PTE_V else leaf (cells st) 2 new x)"
    "leaf (cells st) 2 new va = 0"
proof -
  let ?v = "PA2PTE mem OR fl OR PTE_V" and ?i = "idx 2 va"
  obtain pte s where w: "walk_levels 2 new va True st = (pte, s)" "pte \<noteq> 0" "\<not> valid (cells s pte)" "st' = set_cell pte ?v s"
    by (rule mappages_page [OF mp va(1,2)])
  have D: "vm_inv new st U" "U0 \<subseteq> U" "new \<in> U0" "\<And>i. i \<in> I \<Longrightarrow> i < 512 \<Longrightarrow> below (cells st) new i \<inter> U0 = {}"
    "\<And>x. PGROUNDDOWN x \<in> U0 - {new} \<Longrightarrow> cells st x = c0 x" "\<And>p y. p \<in> U0 \<Longrightarrow> y \<in> page_bytes p \<Longrightarrow> bytes st y = b0 y"
    using inv by (auto simp: dup_inv_def)
  have V: "ptree (cells st) 2 new" "tables (cells st) 2 new \<subseteq> U" "pages_in_use (node st) U" using D(1) by (auto simp: vm_inv_def)
  have i5: "?i < 512" by (rule idx_less)
  have al: "PGROUNDDOWN new = new" by (rule ptree_aligned [OF V(1)])
  obtain U' where U': "vm_inv new s U'" "U \<subseteq> U'" "\<And>x. leaf (cells s) 2 new x = leaf (cells st) 2 new x"
    "pte \<noteq> 0 \<Longrightarrow> desc (cells s) 2 new va = Some pte"
    "\<And>x. PGROUNDDOWN x \<notin> below (cells st) new ?i \<union> (U' - U) \<Longrightarrow> PGROUNDDOWN x \<noteq> new \<Longrightarrow> cells s x = cells st x"
    "\<And>j. j < 512 \<Longrightarrow> j \<noteq> ?i \<Longrightarrow> cells s (entry_addr new j) = cells st (entry_addr new j)"
    "below (cells s) new ?i \<subseteq> below (cells st) new ?i \<union> (U' - U)"
    using walk_root_frame [OF D(1) w(1)] by metis
  have ps: "ptree (cells s) 2 new" "tables (cells s) 2 new \<subseteq> U'" "pages_in_use (node s) U'" using U'(1) by (auto simp: vm_inv_def)
  have d: "desc (cells s) 2 new va = Some pte" by (rule U'(4) [OF w(2)])
  then have ik: "?i \<in> kids (cells s) new" "desc (cells s) 1 (child (cells s) new ?i) va = Some pte"
    unfolding two_levels desc_Suc by (auto split: if_splits)
  have pB: "PGROUNDDOWN pte \<in> below (cells s) new ?i"
    using desc_in_tables [OF ptree_below(1) [OF ps(1) ik(1)] ik(2)] ik(1) by (simp add: below_def)
  have pN: "PGROUNDDOWN pte \<notin> U0" using pB U'(7) D(2) D(4) [OF va(3) i5] by blast
  note up = leaf_update [OF ps(1) d, of ?v]
  have slot: "cells st' (entry_addr new j) = cells s (entry_addr new j)" if "j < 512" for j
    using entry_addr_page [OF al that] pN D(3) by (auto simp: w(4))
  have bj: "below (cells st') new j \<inter> U0 = {}" if j: "j \<in> I" "j < 512" for j
  proof (cases "j = ?i")
    case True
    have "tables (cells st') 1 (child (cells s) new ?i) = tables (cells s) 1 (child (cells s) new ?i)"
      using leaf_update [OF ptree_below(1) [OF ps(1) ik(1)] ik(2), of ?v] by (simp add: w(4))
    then have "below (cells st') new ?i = below (cells s) new ?i"
      using ik(1) slot [OF i5] by (simp add: below_def kids_def child_def)
    then show ?thesis using U'(7) D(2) D(4) [OF va(3) i5] True by blast
  next
    case False
    have "below (cells s) new j = below (cells st) new j"
    proof (rule below_cong [of "cells st" new j "cells s", OF V(1) j(2) U'(6) [OF j(2) False]])
      fix x assume x: "PGROUNDDOWN x \<in> below (cells st) new j"
      then have "PGROUNDDOWN x \<notin> below (cells st) new ?i" "PGROUNDDOWN x \<in> U" "PGROUNDDOWN x \<noteq> new"
        using ptree_below(2-4) [OF V(1)] False V(2) by blast+
      then show "cells s x = cells st x" using U'(5) by blast
    qed
    moreover have "below (cells st') new j = below (cells s) new j"
    proof (rule below_cong [of "cells s" new j "cells st'", OF ps(1) j(2) slot [OF j(2)]])
      fix x assume "PGROUNDDOWN x \<in> below (cells s) new j"
      then have "x \<noteq> pte" using ptree_below(4) [OF ps(1) False] pB by blast
      then show "cells st' x = cells s x" by (simp add: w(4))
    qed
    ultimately show ?thesis using D(4) [OF j] by simp
  qed
  have byt: "bytes st' y = bytes st y" if "p \<in> U" "y \<in> page_bytes p" for p y
    using walk_levels_bytes [OF V(3) w(1) that] by (simp add: w(4) set_cell_def)
  show thesis
  proof (rule that)
    have "vm_inv new st' U'" using up ps by (simp add: vm_inv_def w(4) del: fun_upd_apply)
    moreover have "cells st' x = c0 x" if x: "PGROUNDDOWN x \<in> U0 - {new}" for x
    proof -
      have "x \<noteq> pte" using x pN by auto
      moreover have "cells s x = cells st x" using U'(5) [of x] x D(2) D(4) [OF va(3) i5] by blast
      ultimately show ?thesis using D(5) [OF x] by (simp add: w(4))
    qed
    ultimately show "dup_inv c0 b0 U0 new I st' U'"
      using D(2,3,6) U'(2) bj byt by (auto simp: dup_inv_def)
    show "U \<subseteq> U'" by (rule U'(2))
    show "bytes st' y = bytes st y" if "p \<in> U" "y \<in> page_bytes p" for p y by (rule byt [OF that])
    show "leaf (cells st') 2 new x = (if pn x = pn va then ?v else leaf (cells st) 2 new x)" if "x < MAXVA" for x
    proof -
      have "(\<forall>j \<le> 2. idx j x = idx j va) \<longleftrightarrow> pn x = pn va" using idx_page_iff [OF that va(2)] by (simp add: PGROUNDDOWN_eq_iff pn_def)
      moreover have "valid ?v" using valid_or_V [of "PA2PTE mem OR fl"] by (simp add: or.assoc)
      ultimately show ?thesis using up U'(3) by (simp add: w(4) del: fun_upd_apply)
    qed
    show "leaf (cells st) 2 new va = 0" using U'(3) [of va] d w(3) by (simp add: leaf_def)
  qed
qed

section \<open>Memory that suffices\<close>

abbreviation free_count :: "vm \<Rightarrow> nat" where
  "free_count st \<equiv> card (free_frames (node st))"

lemma alloc_page_enough:
  assumes use: "pages_in_use (node st) U" and al: "alloc_page st = (p, st')" and free: "0 < free_count st"
  shows "p \<noteq> 0" "free_count st = Suc (free_count st')"
proof -
  let ?m = "node st"
  obtain B where B: "alloc_inv ?m (page_blocks U \<union> B)" and fr: "free_frames ?m \<subseteq> {1 ..< 2 ^ 52}"
    using use by (auto simp: pages_in_use_def)
  have g: "get_free_pages 0 ?m = (p, node st')" using alloc_page_frame [OF al] by (simp add: get_free_page_def)
  have ne: "free_frames ?m \<noteq> {}" using free by auto
  show p: "p \<noteq> 0"
  proof (cases "alloc_pages 0 ?m")
    case (Pair r m')
    show ?thesis
    proof (cases r)
      case None
      then have "free_blocks ?m = {}" using alloc_pages_None(1) [OF alloc_inv_buddy [OF B], of 0] Pair by auto
      then show ?thesis using ne by (simp add: free_frames_def block_frames_def)
    next
      case (Some q)
      then have "q \<in> free_frames ?m" using alloc_pages_inv(4) [OF B, of 0 q m'] Pair frames_head by blast
      then show ?thesis using g Pair Some fr page_to_address_0 [of q] by (auto simp: get_free_pages_def)
    qed
  qed
  obtain q where q: "alloc_pages 0 ?m = (Some q, node st')" using get_free_pages_Some [OF B fr g p] by metis
  have "frames (q, 0) = {q}" by (auto simp: frames_def)
  then have "free_frames ?m = insert q (free_frames (node st'))" "q \<notin> free_frames (node st')"
    using alloc_pages_inv(3,4) [OF B q] by auto
  moreover have "finite (free_frames ?m)" by (rule finite_subset [OF fr]) simp
  ultimately show "free_count st = Suc (free_count st')" by simp
qed

text \<open>An object takes one page, which nothing else has.\<close>

lemma vm_kmalloc_page:
  assumes sl: "dll (sl_links sl) slob_head []" and use: "pages_in_use (node st) U" and free: "0 < free_count st" and sz: "unat sz \<le> 4084"
  obtains a sl' st' b where "vm_kmalloc sz sl st = Some (Inr (a, sl', st'))" "dll (sl_links sl') slob_head []" "a \<noteq> 0" "unat a \<in> page_bytes b"
    "b \<notin> U" "pages_in_use (node st') (insert b U)" "cells st' = cells st" "\<forall>p \<in> U. \<forall>y \<in> page_bytes p. bytes st' y = bytes st y \<and> y \<noteq> unat a"
    "free_count st = Suc (free_count st')"
proof -
  let ?s = "sl\<lparr>sl_pg := node st, sl_mem := bytes st\<rparr>"
  obtain b s1 where al: "alloc_page st = (b, s1)" by fastforce
  note en = alloc_page_enough [OF use al free]
  note f = alloc_page_fresh [OF al use en(1)]
  have g: "get_free_pages 0 (sl_pg ?s) = (b, node s1)" using alloc_page_frame [OF al] by (simp add: get_free_page_def)
  have pb: "page_addr b" using f(2) en(1) by (simp add: page_addr_def)
  obtain t where t: "kmalloc sz ?s = Some (Inr (b + 8, t))" "took_page b (node s1) ?s t" "unat (b + 8) = unat b + 8"
    using kmalloc_small [OF _ g pb sz] sl by auto
  note tk = took_page_pg [OF t(2)]
  have in_b: "unat (b + 8) \<in> page_bytes b" using t(3) by (simp add: page_bytes_def)
  show thesis
  proof (rule that [of "b + 8" t "st\<lparr>node := sl_pg t, bytes := sl_mem t\<rparr>" b])
    show "vm_kmalloc sz sl st = Some (Inr (b + 8, t, st\<lparr>node := sl_pg t, bytes := sl_mem t\<rparr>))" using t(1) by (simp add: vm_kmalloc_def)
    show "dll (sl_links t) slob_head []" using t(2) by (simp add: took_page_def)
    show "b + 8 \<noteq> 0" using t(3) by auto
    show "unat (b + 8) \<in> page_bytes b" "b \<notin> U" by (rule in_b, rule f(1))
    show "pages_in_use (node (st\<lparr>node := sl_pg t, bytes := sl_mem t\<rparr>)) (insert b U)" using f(4) tk(1,2) by (auto simp: pages_in_use_def)
    show "\<forall>p \<in> U. \<forall>y \<in> page_bytes p. bytes (st\<lparr>node := sl_pg t, bytes := sl_mem t\<rparr>) y = bytes st y \<and> y \<noteq> unat (b + 8)"
    proof (intro ballI)
      fix p y assume p: "p \<in> U" "y \<in> page_bytes p"
      then have y: "y \<notin> page_bytes b" using f(5) [OF p(1)] by auto
      then show "bytes (st\<lparr>node := sl_pg t, bytes := sl_mem t\<rparr>) y = bytes st y \<and> y \<noteq> unat (b + 8)"
        using t(2) y in_b by (auto simp: took_page_def)
    qed
    show "free_count st = Suc (free_count (st\<lparr>node := sl_pg t, bytes := sl_mem t\<rparr>))" using en(2) tk(2) by simp
  qed simp
qed

lemma dup_inv_kmalloc:
  assumes "dup_inv c0 b0 U0 new I st U" "pages_in_use (node st') (insert b U)" "cells st' = cells st"
    "\<forall>p \<in> U. \<forall>y \<in> page_bytes p. bytes st' y = bytes st y"
  shows "dup_inv c0 b0 U0 new I st' (insert b U)"
  using assms by (auto simp: dup_inv_def vm_inv_def)

lemma walk_levels_enough:
  assumes "ptree (cells st) l t" "tables (cells st) l t \<subseteq> U" "pages_in_use (node st) U"
    "walk_levels l t va True st = (a, st')" "l \<le> free_count st"
  shows "a \<noteq> 0 \<and> free_count st \<le> free_count st' + l"
  using assms
proof (induction l arbitrary: t st U)
  case 0
  have t: "PGROUNDDOWN t = t" "t \<in> U" "a = entry_addr t (idx 0 va)" "st' = st" using "0.prems"(1,2,4) by (auto simp: pte_addr_entry)
  have "t \<noteq> 0" using "0.prems"(3) t(2) by (auto simp: pages_in_use_def)
  then have "a \<noteq> 0" using entry_addr_page [OF t(1) idx_less [of 0 va]] t(3) by (auto simp: PGROUNDDOWN_def)
  then show ?case using t(4) by simp
next
  case (Suc l)
  let ?i = "idx (Suc l) va" and ?c = "cells st"
  have i: "?i < 512" by (rule idx_less)
  have al: "PGROUNDDOWN t = t" and tU: "t \<in> U" using Suc.prems(1,2) ptree_aligned tables_root by blast+
  show ?case
  proof (cases "?i \<in> kids ?c t")
    case True
    then have "walk_levels l (child ?c t ?i) va True st = (a, st')"
      using Suc.prems(4) by (simp add: pte_addr_entry kids_def child_def Let_def)
    moreover have "ptree ?c l (child ?c t ?i)" "tables ?c l (child ?c t ?i) \<subseteq> U" using Suc.prems(1,2) True by auto
    ultimately show ?thesis using Suc.IH [of st "child ?c t ?i" U] Suc.prems(3,5) by auto
  next
    case False
    then have nv: "\<not> valid (?c (entry_addr t ?i))" using i by (simp add: kids_def)
    obtain p st1 where ap: "alloc_page st = (p, st1)" by fastforce
    have free: "0 < free_count st" using Suc.prems(5) by simp
    note e = alloc_page_enough [OF Suc.prems(3) ap free] and f = alloc_page_fresh [OF ap Suc.prems(3)]
    let ?s = "set_cell (entry_addr t ?i) (PA2PTE p OR PTE_V) (clear_page p st1)"
    have "cells ?s x = 0" if "PGROUNDDOWN x = p" for x
      using that entry_addr_page [OF al i] f(1) [OF e(1)] tU by (auto simp: in_page_def)
    then have tr: "ptree (cells ?s) l p" "tables (cells ?s) l p \<subseteq> insert p U"
      using fresh_tree [OF f(3) [OF e(1)], of "cells ?s" l] by blast+
    have wl: "walk_levels l p va True ?s = (a, st')" using Suc.prems(4) nv ap e(1) by (simp add: pte_addr_entry Let_def)
    have us: "pages_in_use (node ?s) (insert p U)" and le: "l \<le> free_count ?s" using f(4) [OF e(1)] Suc.prems(5) e(2) by simp_all
    have "a \<noteq> 0 \<and> free_count ?s \<le> free_count st' + l" by (rule Suc.IH [OF tr us wl le])
    then show ?thesis using e(2) by simp
  qed
qed

lemma mappages_enough:
  assumes inv: "vm_inv t st U" and va: "PGROUNDDOWN va = va" "va < MAXVA" and none: "leaf (cells st) 2 t va = 0"
    and free: "2 \<le> free_count st"
  obtains st' where "mappages t va PGSIZE pa perm st = Inr (0, st')" "free_count st \<le> free_count st' + 2"
proof -
  obtain pte s where w: "walk_levels 2 t va True st = (pte, s)" by fastforce
  have "pte \<noteq> 0" "free_count st \<le> free_count s + 2"
    using walk_levels_enough [OF _ _ _ w free] inv unfolding vm_inv_def by blast+
  moreover have "walk t va True st = Inr (pte, s)" using w va(2) by (simp add: walk_def)
  then have "pte \<noteq> 0 \<longrightarrow> leaf (cells st) 2 t va = (if valid (cells s pte) then cells s pte else 0)" using map_one [OF inv] by blast
  then have "pte \<noteq> 0 \<Longrightarrow> \<not> valid (cells s pte)" using none by (auto split: if_splits)
  ultimately show thesis using that unfolding mappages_one [OF va] w by simp
qed

section \<open>An area\<close>

lemma dup_entry:
  assumes "PGROUNDDOWN p = p" "valid e"
  shows "PTE2PA (PA2PTE p OR PTE_FLAGS e OR PTE_V) = p" "PTE_FLAGS (PA2PTE p OR PTE_FLAGS e OR PTE_V) = PTE_FLAGS e"
proof -
  have low: "12 \<le> n" if "bit p n" for n
    using that arg_cong [OF assms(1), of "\<lambda>w. bit w n"] by (auto simp: PGROUNDDOWN_def page_mask bit_simps)
  have fl: "PTE_FLAGS x = take_bit 10 x" for x by (simp add: PTE_FLAGS_def take_bit_eq_mask mask_eq_exp_minus_1)
  have V: "bit PTE_V n \<longleftrightarrow> n = 0" for n by (simp add: PTE_V_def bit_simps)
  have e0: "bit e 0"
  proof (rule ccontr)
    assume "\<not> bit e 0"
    then have "e AND PTE_V = 0" by (intro bit_word_eqI) (auto simp: V bit_and_iff intro!: gr0I)
    then show False using assms(2) by simp
  qed
  show "PTE2PA (PA2PTE p OR PTE_FLAGS e OR PTE_V) = p"
  proof (rule bit_word_eqI)
    fix n assume "n < LENGTH(64)"
    then show "bit (PTE2PA (PA2PTE p OR PTE_FLAGS e OR PTE_V)) n = bit p n"
      unfolding fl using low [of n] by (cases "12 \<le> n") (auto simp: PTE2PA_def PA2PTE_def V bit_simps)
  qed
  show "PTE_FLAGS (PA2PTE p OR PTE_FLAGS e OR PTE_V) = PTE_FLAGS e"
    unfolding fl using e0 by (intro bit_word_eqI) (auto simp: PA2PTE_def V bit_simps)
qed

text \<open>The page that is taken for the copy is apart from all that is in use.\<close>

lemma copy_fresh_page:
  assumes inv: "dup_inv c0 b0 U0 new I st U" and al: "alloc_page st = (mem, s)" "mem \<noteq> 0" and pa: "pa \<in> U"
  defines "s' \<equiv> copy_page_cells mem pa s"
  shows "dup_inv c0 b0 U0 new I s' (insert mem U)" "leaf (cells s') 2 new x = leaf (cells st) 2 new x"
    "p \<in> U \<Longrightarrow> y \<in> page_bytes p \<Longrightarrow> bytes s' y = bytes st y"
    "k < 4096 \<Longrightarrow> bytes s' (unat mem + k) = bytes st (unat pa + k)"
proof -
  have D: "vm_inv new st U" "U0 \<subseteq> U" "new \<in> U0" "\<And>i. i \<in> I \<Longrightarrow> i < 512 \<Longrightarrow> below (cells st) new i \<inter> U0 = {}"
    "\<And>x. PGROUNDDOWN x \<in> U0 - {new} \<Longrightarrow> cells st x = c0 x" "\<And>p y. p \<in> U0 \<Longrightarrow> y \<in> page_bytes p \<Longrightarrow> bytes st y = b0 y"
    using inv by (auto simp: dup_inv_def)
  have V: "ptree (cells st) 2 new" "tables (cells st) 2 new \<subseteq> U" "pages_in_use (node st) U" using D(1) by (auto simp: vm_inv_def)
  note f = alloc_page_fresh [OF al(1) V(3) al(2)]
  have c: "cells s' x = cells st x" if "PGROUNDDOWN x \<in> U" for x
    using that f(1) by (auto simp: s'_def copy_page_cells_def in_page_def f(6))
  have pt: "ptree (cells s') 2 new \<and> tables (cells s') 2 new = tables (cells st) 2 new \<and>
      (\<forall>x. desc (cells s') 2 new x = desc (cells st) 2 new x) \<and> (\<forall>x. leaf (cells s') 2 new x = leaf (cells st) 2 new x)"
    using V(2) by (intro ptree_cong [OF V(1)] c) auto
  then show "leaf (cells s') 2 new x = leaf (cells st) 2 new x" by blast
  have mc: "bytes s' y = (if y \<in> page_bytes mem then bytes st (unat pa + (y - unat mem)) else bytes st y)" for y
    by (auto simp: s'_def copy_page_cells_def memcpy_def memmove_eq page_bytes_def f(7))
  then show "k < 4096 \<Longrightarrow> bytes s' (unat mem + k) = bytes st (unat pa + k)" by (simp add: page_bytes_def)
  show b: "bytes s' y = bytes st y" if "p \<in> U" "y \<in> page_bytes p" for p y using mc [of y] f(5) [OF that(1)] that(2) by auto
  have "below (cells s') new i = below (cells st) new i" if "i < 512" for i
  proof (rule below_cong [of "cells st" new i "cells s'", OF V(1) that])
    show "cells s' (entry_addr new i) = cells st (entry_addr new i)"
      using entry_addr_page [OF ptree_aligned [OF V(1)] that] D(2,3) by (intro c) auto
    show "cells s' x = cells st x" if "PGROUNDDOWN x \<in> below (cells st) new i" for x
      using that ptree_below(3) [OF V(1), of i] V(2) by (intro c) blast
  qed
  moreover have "vm_inv new s' (insert mem U)" using pt V(2) f(4) by (auto simp: vm_inv_def s'_def copy_page_cells_def)
  moreover have "cells s' x = c0 x" if "PGROUNDDOWN x \<in> U0 - {new}" for x using c [of x] D(5) [OF that] that D(2) by auto
  moreover have "bytes s' y = b0 y" if "p \<in> U0" "y \<in> page_bytes p" for p y using b [of p y] D(6) [OF that] that D(2) by auto
  ultimately show "dup_inv c0 b0 U0 new I s' (insert mem U)" using D(2-4) by (auto simp: dup_inv_def)
qed

text \<open>The parent's tables read as they did at the beginning.\<close>

lemma parent_same:
  assumes "dup_inv c0 b0 U0 new I st U" "ptree c0 2 old" "tables c0 2 old \<subseteq> U0 - {new}"
  shows "desc (cells st) 2 old x = desc c0 2 old x" "leaf (cells st) 2 old x = leaf c0 2 old x"
    "desc c0 2 old x = Some a \<Longrightarrow> a \<noteq> 0 \<and> cells st a = c0 a"
proof -
  have D: "\<And>x. PGROUNDDOWN x \<in> U0 - {new} \<Longrightarrow> cells st x = c0 x" and U: "U0 \<subseteq> U" "0 \<notin> U"
    using assms(1) by (auto simp: dup_inv_def vm_inv_def pages_in_use_def)
  have "ptree (cells st) 2 old \<and> tables (cells st) 2 old = tables c0 2 old \<and>
      (\<forall>x. desc (cells st) 2 old x = desc c0 2 old x) \<and> (\<forall>x. leaf (cells st) 2 old x = leaf c0 2 old x)"
    using assms(3) by (intro ptree_cong [OF assms(2)] D) auto
  then show "desc (cells st) 2 old x = desc c0 2 old x" "leaf (cells st) 2 old x = leaf c0 2 old x" by blast+
  assume "desc c0 2 old x = Some a"
  then have "PGROUNDDOWN a \<in> U0 - {new}" using desc_in_tables [OF assms(2)] assms(3) by blast
  then show "a \<noteq> 0 \<and> cells st a = c0 a" using D [of a] U by (auto simp: PGROUNDDOWN_def)
qed

text \<open>
  The entry \<open>e'\<close> is that of a copy: a page of \<open>P\<close>, with the flags of \<open>e\<close> and the bytes \<open>b\<close> of the page of \<open>e\<close>.
\<close>

definition copied :: "mem \<Rightarrow> u64 \<Rightarrow> vm \<Rightarrow> u64 set \<Rightarrow> u64 \<Rightarrow> bool" where
  "copied b e st P e' \<longleftrightarrow> PTE2PA e' \<in> P \<and> valid e' \<and> PTE_FLAGS e' = PTE_FLAGS e \<and>
     (\<forall>k < 4096. bytes st (unat (PTE2PA e') + k) = b (unat (PTE2PA e) + k))"

definition has_page :: "(u64 \<Rightarrow> u64) \<Rightarrow> u64 \<Rightarrow> u64 set \<Rightarrow> u64 \<Rightarrow> bool" where
  "has_page c t R x \<longleftrightarrow> x \<in> R \<and> leaf c 2 t x \<noteq> 0"

definition area_copied :: "(u64 \<Rightarrow> u64) \<Rightarrow> mem \<Rightarrow> u64 \<Rightarrow> u64 \<Rightarrow> u64 set \<Rightarrow> vm \<Rightarrow> u64 set \<Rightarrow> vm \<Rightarrow> u64 set \<Rightarrow> bool" where
  "area_copied c b old new R st U st' U' \<longleftrightarrow>
     (\<forall>x < MAXVA. if has_page c old R x
        then copied b (leaf c 2 old x) st' (U' - U) (leaf (cells st') 2 new x)
        else leaf (cells st') 2 new x = leaf (cells st) 2 new x) \<and>
     (\<forall>x y. has_page c old R x \<and> has_page c old R y \<and> pn x \<noteq> pn y \<longrightarrow>
        PTE2PA (leaf (cells st') 2 new x) \<noteq> PTE2PA (leaf (cells st') 2 new y))"

text \<open>What the code relies on: the child has nothing yet in the area, and the pages of the parent there are in use.\<close>

definition area_ready :: "(u64 \<Rightarrow> u64) \<Rightarrow> u64 set \<Rightarrow> u64 \<Rightarrow> u64 \<Rightarrow> nat set \<Rightarrow> u64 \<Rightarrow> u64 \<Rightarrow> vm \<Rightarrow> bool" where
  "area_ready c U0 old new I va end st \<longleftrightarrow> (\<forall>x. va \<le> x \<and> x < end \<longrightarrow> idx 2 x \<in> I \<and> leaf (cells st) 2 new x = 0 \<and>
     (leaf c 2 old x \<noteq> 0 \<longrightarrow> PTE2PA (leaf c 2 old x) \<in> U0))"

text \<open>
  The parent has a page wherever it has a table for the addresses around it. Where it has not, the loop stops the machine: it skips only pages
  without a table.
\<close>

definition touched :: "(u64 \<Rightarrow> u64) \<Rightarrow> u64 \<Rightarrow> u64 set \<Rightarrow> bool" where
  "touched c t R \<longleftrightarrow> (\<forall>x \<in> R. desc c 2 t x \<noteq> None \<longrightarrow> leaf c 2 t x \<noteq> 0)"

lemma touched_Un: "touched c t (R \<union> S) \<longleftrightarrow> touched c t R \<and> touched c t S"
  by (auto simp: touched_def)

lemma desc_same_idx: "\<forall>j \<le> l. idx j va = idx j va' \<Longrightarrow> desc c l t va = desc c l t va'"
proof (induction l arbitrary: t)
  case 0
  then show ?case by (simp add: pte_addr_entry)
next
  case (Suc l)
  then show ?case by (simp add: desc_Suc del: desc.simps)
qed

lemma desc_page:
  assumes "x < MAXVA" "y < MAXVA" "pn x = pn y"
  shows "desc c 2 t x = desc c 2 t y"
  using assms idx_page_iff [OF assms(1,2)] by (intro desc_same_idx) (simp add: PGROUNDDOWN_eq_iff pn_def)

lemma leaf_page:
  assumes "x < MAXVA" "y < MAXVA" "pn x = pn y"
  shows "leaf c 2 t x = leaf c 2 t y"
  using assms idx_page_iff [OF assms(1,2)] by (intro leaf_same_idx) (simp add: PGROUNDDOWN_eq_iff pn_def)

lemma page_range:
  assumes "PGROUNDDOWN va = va" "unat e = unat va + 4096 * Suc n" "e \<le> MAXVA"
  shows "va < e" "va < MAXVA" "unat (va + PGSIZE) = unat va + 4096" "PGROUNDDOWN (va + PGSIZE) = va + PGSIZE"
    "va \<le> x \<and> x < e \<longleftrightarrow> pn x = pn va \<or> va + PGSIZE \<le> x \<and> x < e" "pn x = pn va \<Longrightarrow> \<not> va + PGSIZE \<le> x"
    "pn x = pn va \<Longrightarrow> va \<le> x \<and> x < e"
proof -
  have m: "unat MAXVA = 2 ^ 38" by (simp add: MAXVA_def)
  have ve: "unat va + 4096 \<le> unat e" "unat e \<le> 2 ^ 38" using assms(2,3) m by (simp_all add: word_le_nat_alt)
  show "va < e" "va < MAXVA" using ve m by (simp_all add: word_less_nat_alt)
  show u: "unat (va + PGSIZE) = unat va + 4096" using ve by (simp add: PGSIZE_def unat_word_ariths)
  show "PGROUNDDOWN (va + PGSIZE) = va + PGSIZE" by (rule PGROUNDDOWN_add [OF assms(1) u])
  have "4096 dvd unat va" using assms(1) by (metis PGROUNDDOWN_unat dvd_minus_mod)
  then obtain k where k: "unat va = 4096 * k" by (auto elim!: dvdE)
  have p: "pn x = pn va \<longleftrightarrow> unat va \<le> unat x \<and> unat x < unat va + 4096" by (auto simp: pn_def k)
  show "va \<le> x \<and> x < e \<longleftrightarrow> pn x = pn va \<or> va + PGSIZE \<le> x \<and> x < e" "pn x = pn va \<Longrightarrow> \<not> va + PGSIZE \<le> x"
    "pn x = pn va \<Longrightarrow> va \<le> x \<and> x < e"
    unfolding p word_le_nat_alt word_less_nat_alt u using ve(1) by auto
qed

lemma has_page_step:
  assumes rg: "PGROUNDDOWN va = va" "unat e = unat va + 4096 * Suc n" "e \<le> MAXVA"
  shows "has_page c t {va ..< e} x \<longleftrightarrow> (if pn x = pn va then leaf c 2 t va \<noteq> 0 else has_page c t {va + PGSIZE ..< e} x)"
    "has_page c t {va + PGSIZE ..< e} x \<Longrightarrow> pn x \<noteq> pn va"
proof -
  show "has_page c t {va + PGSIZE ..< e} x \<Longrightarrow> pn x \<noteq> pn va" using page_range(6) [OF rg, of x] by (auto simp: has_page_def)
  show "has_page c t {va ..< e} x \<longleftrightarrow> (if pn x = pn va then leaf c 2 t va \<noteq> 0 else has_page c t {va + PGSIZE ..< e} x)"
  proof (cases "pn x = pn va")
    case True
    then have "va \<le> x" "x < e" using page_range(7) [OF rg] by blast+
    then show ?thesis using leaf_page [of x va c t] page_range(2) [OF rg] rg(3) True by (simp add: has_page_def)
  next
    case False
    then show ?thesis using page_range(5) [OF rg, of x] by (auto simp: has_page_def)
  qed
qed

lemma touched_step:
  assumes rg: "PGROUNDDOWN va = va" "unat e = unat va + 4096 * Suc n" "e \<le> MAXVA"
  shows "touched c t {va ..< e} \<longleftrightarrow> (desc c 2 t va \<noteq> None \<longrightarrow> leaf c 2 t va \<noteq> 0) \<and> touched c t {va + PGSIZE ..< e}"
proof -
  have here: "desc c 2 t x = desc c 2 t va" "leaf c 2 t x = leaf c 2 t va" if "pn x = pn va" for x
    using desc_page [of x va c t] leaf_page [of x va c t] page_range(2) [OF rg] page_range(7) [OF rg that] rg(3) that by auto
  have "x \<in> {va ..< e} \<longleftrightarrow> pn x = pn va \<or> x \<in> {va + PGSIZE ..< e}" for x using page_range(5) [OF rg, of x] by auto
  then show ?thesis unfolding touched_def using here by metis
qed

text \<open>At a page that was not touched.\<close>

lemma dup_vma_loop_untouched:
  assumes inv: "dup_inv c0 b0 U0 new I st U" and old: "ptree c0 2 old" "tables c0 2 old \<subseteq> U0 - {new}"
    and va: "va < MAXVA" "va < e" and d: "desc c0 2 old va = Some a" "leaf c0 2 old va = 0"
  shows "dup_vma_loop old new va e va' st = Inl (Panic ''dup_vma: page not present'')"
proof -
  note ps = parent_same [OF inv old]
  have "a \<noteq> 0" "\<not> valid (cells st a)" using ps(3) [OF d(1)] d by (auto simp: leaf_def split: if_splits)
  moreover have "walk old va False st = Inr (a, st)" using va(1) d(1) ps(1) by (simp add: walk_def walk_levels_read)
  ultimately show ?thesis using va(2) by (subst dup_vma_loop.simps) simp
qed

lemma area_copied_skip:
  assumes rg: "PGROUNDDOWN va = va" "unat e = unat va + 4096 * Suc n" "e \<le> MAXVA"
    and none: "leaf c 2 old va = 0" and rest: "area_copied c b old new {va + PGSIZE ..< e} st U st' U'"
  shows "area_copied c b old new {va ..< e} st U st' U'"
proof -
  have "has_page c old {va ..< e} = has_page c old {va + PGSIZE ..< e}" using has_page_step [OF rg, of c old] none by (intro ext) auto
  then show ?thesis using rest by (simp add: area_copied_def)
qed

lemma area_copiedD:
  assumes "area_copied c b old new R st U st' U'" "x < MAXVA"
  shows "has_page c old R x \<Longrightarrow> copied b (leaf c 2 old x) st' (U' - U) (leaf (cells st') 2 new x)"
    "\<not> has_page c old R x \<Longrightarrow> leaf (cells st') 2 new x = leaf (cells st) 2 new x"
  using assms unfolding area_copied_def by (meson)+

lemma area_copied_step:
  assumes rg: "PGROUNDDOWN va = va" "unat e = unat va + 4096 * Suc n" "e \<le> MAXVA"
    and lf: "\<And>x. x < MAXVA \<Longrightarrow> leaf (cells s) 2 new x = (if pn x = pn va then e' else leaf (cells st) 2 new x)"
    and ce: "leaf c 2 old va \<noteq> 0" "copied b (leaf c 2 old va) st' (U' - U) e'" "PTE2PA e' \<in> V" and V: "U \<subseteq> V"
    and rest: "area_copied c b old new {va + PGSIZE ..< e} s V st' U'"
  shows "area_copied c b old new {va ..< e} st U st' U'"
proof -
  note hp = has_page_step [OF rg, of c old]
  have mx: "has_page c old {va' ..< e} x \<Longrightarrow> x < MAXVA" for va' x using rg(3) by (auto simp: has_page_def)
  have px: "x < MAXVA" "leaf c 2 old x = leaf c 2 old va" if "pn x = pn va" for x
    using leaf_page [of x va c old] page_range(2) [OF rg] page_range(7) [OF rg that] rg(3) that by auto
  have here: "leaf (cells st') 2 new x = e'" if "pn x = pn va" for x
    using area_copiedD(2) [OF rest px(1) [OF that]] lf [OF px(1) [OF that]] hp(2) that by metis
  have later: "copied b (leaf c 2 old x) st' (U' - V) (leaf (cells st') 2 new x)" if "has_page c old {va + PGSIZE ..< e} x" for x
    by (rule area_copiedD(1) [OF rest mx [OF that] that])
  have mono: "copied b d st' (U' - V) d' \<Longrightarrow> copied b d st' (U' - U) d'" for d d' using V by (auto simp: copied_def)
  have "if has_page c old {va ..< e} x then copied b (leaf c 2 old x) st' (U' - U) (leaf (cells st') 2 new x)
      else leaf (cells st') 2 new x = leaf (cells st) 2 new x" if x: "x < MAXVA" for x
  proof (cases "pn x = pn va")
    case True
    then show ?thesis using here [OF True] px(2) [OF True] ce(1,2) hp(1) [of x] by simp
  next
    case False
    then show ?thesis using hp(1) [of x] later [of x] mono area_copiedD(2) [OF rest x] lf [OF x] by simp
  qed
  moreover have "PTE2PA (leaf (cells st') 2 new x) \<noteq> PTE2PA (leaf (cells st') 2 new y)"
    if xy: "has_page c old {va ..< e} x" "has_page c old {va ..< e} y" "pn x \<noteq> pn y" for x y
  proof -
    have fresh: "PTE2PA (leaf (cells st') 2 new z) \<notin> V" if "has_page c old {va + PGSIZE ..< e} z" for z
      using later [OF that] by (auto simp: copied_def)
    have both: "PTE2PA (leaf (cells st') 2 new x) \<noteq> PTE2PA (leaf (cells st') 2 new y)"
      if "has_page c old {va + PGSIZE ..< e} x" "has_page c old {va + PGSIZE ..< e} y" using rest that xy(3) unfolding area_copied_def by blast
    show ?thesis
      using xy hp(1) [of x] hp(1) [of y] here [of x] here [of y] fresh [of x] fresh [of y] both ce(3)
      by (cases "pn x = pn va"; cases "pn y = pn va") auto
  qed
  ultimately show ?thesis unfolding area_copied_def by blast
qed

text \<open>One turn of the loop, at a page that the parent has.\<close>

lemma dup_page:
  assumes inv: "dup_inv c0 b0 U0 new I st U" and old: "ptree c0 2 old" "tables c0 2 old \<subseteq> U0 - {new}"
    and va: "PGROUNDDOWN va = va" "va < MAXVA" "va < e" and rd: "area_ready c0 U0 old new I va e st"
    and free: "3 \<le> free_count st" and d: "desc c0 2 old va = Some a" "leaf c0 2 old va \<noteq> 0"
  defines "l \<equiv> leaf c0 2 old va"
  obtains s U' e' where "dup_vma_loop old new va e va st = dup_vma_loop old new (va + PGSIZE) e (va + PGSIZE) s"
    "dup_inv c0 b0 U0 new I s U'" "U \<subseteq> U'" "\<And>p y. p \<in> U \<Longrightarrow> y \<in> page_bytes p \<Longrightarrow> bytes s y = bytes st y"
    "\<And>x. x < MAXVA \<Longrightarrow> leaf (cells s) 2 new x = (if pn x = pn va then e' else leaf (cells st) 2 new x)"
    "copied b0 l s (U' - U) e'" "free_count st \<le> free_count s + 3"
proof -
  have r: "idx 2 va \<in> I" "leaf (cells st) 2 new va = 0" "l \<noteq> 0" "PTE2PA l \<in> U0"
    using rd va(3) d unfolding area_ready_def l_def by auto
  have D: "vm_inv new st U" "U0 \<subseteq> U" "\<And>p y. p \<in> U0 \<Longrightarrow> y \<in> page_bytes p \<Longrightarrow> bytes st y = b0 y"
    using inv by (auto simp: dup_inv_def)
  have use: "pages_in_use (node st) U" using D(1) by (simp add: vm_inv_def)
  note ps = parent_same [OF inv old]
  have a: "a \<noteq> 0" "cells st a = l" "valid l" using ps(3) [OF d(1)] r(3) d(1) by (auto simp: l_def leaf_def split: if_splits)
  obtain mem s1 where al: "alloc_page st = (mem, s1)" by fastforce
  note en = alloc_page_enough [OF use al] and fr = alloc_page_fresh [OF al use]
  have m: "mem \<noteq> 0" "2 \<le> free_count s1" "free_count st = Suc (free_count s1)" using en free by auto
  let ?s2 = "copy_page_cells mem (PTE2PA l) s1" and ?e' = "PA2PTE mem OR PTE_FLAGS l OR PTE_V"
  have pU: "PTE2PA l \<in> U" using r(4) D(2) by blast
  note cp = copy_fresh_page [OF inv al m(1) pU]
  have v2: "vm_inv new ?s2 (insert mem U)" using cp(1) by (simp add: dup_inv_def)
  have l2: "leaf (cells ?s2) 2 new va = 0" using cp(2) r(2) by simp
  have n2: "node ?s2 = node s1" by (simp add: copy_page_cells_def)
  then have "2 \<le> free_count ?s2" using m(2) by simp
  from mappages_enough [OF v2 va(1,2) l2 this, of mem "PTE_FLAGS l"] obtain s3 where
    s3: "mappages new va PGSIZE mem (PTE_FLAGS l) ?s2 = Inr (0, s3)" "free_count ?s2 \<le> free_count s3 + 2" by blast
  obtain U' where U': "dup_inv c0 b0 U0 new I s3 U'" "insert mem U \<subseteq> U'"
    "\<forall>p y. p \<in> insert mem U \<longrightarrow> y \<in> page_bytes p \<longrightarrow> bytes s3 y = bytes ?s2 y"
    "\<forall>x < MAXVA. leaf (cells s3) 2 new x = (if pn x = pn va then ?e' else leaf (cells ?s2) 2 new x)"
    using map_fresh_page [OF cp(1) s3(1) va(1,2) r(1)] by metis
  show thesis
  proof (rule that [of s3 U' ?e'])
    have "walk old va False st = Inr (a, st)" using va(2) d(1) ps(1) by (simp add: walk_def walk_levels_read)
    then show "dup_vma_loop old new va e va st = dup_vma_loop old new (va + PGSIZE) e (va + PGSIZE) s3"
      using va(3) a al m(1) s3(1) by (subst dup_vma_loop.simps) simp
    show "dup_inv c0 b0 U0 new I s3 U'" "U \<subseteq> U'" using U'(1,2) by auto
    show "bytes s3 y = bytes st y" if "p \<in> U" "y \<in> page_bytes p" for p y using U'(3) cp(3) that by auto
    show "leaf (cells s3) 2 new x = (if pn x = pn va then ?e' else leaf (cells st) 2 new x)" if "x < MAXVA" for x
      using U'(4) that cp(2) by simp
    have "bytes s3 (unat mem + k) = b0 (unat (PTE2PA l) + k)" if "k < 4096" for k
    proof -
      have "unat mem + k \<in> page_bytes mem" "unat (PTE2PA l) + k \<in> page_bytes (PTE2PA l)" using that by (simp_all add: page_bytes_def)
      then show ?thesis using U'(3) cp(4) [OF that] D(3) [OF r(4)] by simp
    qed
    then show "copied b0 l s3 (U' - U) ?e'"
      using dup_entry [OF fr(3) [OF m(1)] a(3)] valid_or_V [of "PA2PTE mem OR PTE_FLAGS l"] U'(2) fr(1) [OF m(1)]
      by (simp add: copied_def or.assoc)
    show "free_count st \<le> free_count s3 + 3" using s3(2) m(3) n2 by simp
  qed
qed

definition area_done :: "(u64 \<Rightarrow> u64) \<Rightarrow> mem \<Rightarrow> u64 set \<Rightarrow> u64 \<Rightarrow> u64 \<Rightarrow> nat set \<Rightarrow> u64 set \<Rightarrow> nat \<Rightarrow> vm \<Rightarrow> u64 set \<Rightarrow> vm \<Rightarrow> u64 set \<Rightarrow> bool" where
  "area_done c0 b0 U0 old new I R n st U st' U' \<longleftrightarrow> dup_inv c0 b0 U0 new I st' U' \<and> U \<subseteq> U' \<and>
     (\<forall>p \<in> U. \<forall>y \<in> page_bytes p. bytes st' y = bytes st y) \<and> area_copied c0 b0 old new R st U st' U' \<and>
     free_count st \<le> free_count st' + n"

lemma dup_vma_loop_correct:
  assumes "dup_inv c0 b0 U0 new I st U" and old: "ptree c0 2 old" "tables c0 2 old \<subseteq> U0 - {new}"
    and "PGROUNDDOWN va = va" "unat e = unat va + 4096 * n" "e \<le> MAXVA" "area_ready c0 U0 old new I va e st"
    and "3 * n \<le> free_count st"
  shows "if touched c0 old {va ..< e}
    then \<exists>st' U'. dup_vma_loop old new va e va st = Inr (0, st') \<and> area_done c0 b0 U0 old new I {va ..< e} (3 * n) st U st' U'
    else dup_vma_loop old new va e va st = Inl (Panic ''dup_vma: page not present'')"
  using assms(1,4-8)
proof (induction n arbitrary: va st U)
  case 0
  then have "\<not> va < e" by (simp add: word_less_nat_alt)
  moreover from this have "\<not> has_page c0 old {va ..< e} x" for x by (auto simp: has_page_def)
  then have "area_copied c0 b0 old new {va ..< e} st U st U" by (simp add: area_copied_def)
  moreover have "touched c0 old {va ..< e}" using \<open>\<not> va < e\<close> by (auto simp: touched_def)
  ultimately show ?case using "0.prems"(1) by (subst dup_vma_loop.simps) (auto simp: area_done_def)
next
  case (Suc n)
  note rg = page_range [OF Suc.prems(2-4)]
  have ue: "unat e = unat (va + PGSIZE) + 4096 * n" using Suc.prems(3) rg(3) by simp
  have rd': "area_ready c0 U0 old new I (va + PGSIZE) e s"
    if "\<And>x. va + PGSIZE \<le> x \<Longrightarrow> x < e \<Longrightarrow> leaf (cells s) 2 new x = leaf (cells st) 2 new x" for s
    using Suc.prems(5) rg(5) that unfolding area_ready_def by metis
  note ts = touched_step [OF Suc.prems(2-4), of c0 old]
  consider (none) "desc c0 2 old va = None" | (bad) a where "desc c0 2 old va = Some a" "leaf c0 2 old va = 0"
    | (page) a where "desc c0 2 old va = Some a" "leaf c0 2 old va \<noteq> 0" by fastforce
  then show ?case
  proof cases
    case none
    have "walk old va False st = Inr (0, st)"
      using rg(2) none parent_same(1) [OF Suc.prems(1) old] by (simp add: walk_def walk_levels_read)
    then have lp: "dup_vma_loop old new va e va st = dup_vma_loop old new (va + PGSIZE) e (va + PGSIZE) st"
      using rg(1) by (subst dup_vma_loop.simps) simp
    have "3 * n \<le> free_count st" using Suc.prems(6) by simp
    note ih = Suc.IH [OF Suc.prems(1) rg(4) ue Suc.prems(4) rd' this]
    have "leaf c0 2 old va = 0" using none by (simp add: leaf_def)
    then have "area_done c0 b0 U0 old new I {va ..< e} (3 * Suc n) st U st' U'"
      if "area_done c0 b0 U0 old new I {va + PGSIZE ..< e} (3 * n) st U st' U'" for st' U'
      using that area_copied_skip [OF Suc.prems(2-4)] by (auto simp: area_done_def)
    then show ?thesis using ih none unfolding lp ts by (auto split: if_splits)
  next
    case (bad a)
    then show ?thesis using dup_vma_loop_untouched [OF Suc.prems(1) old rg(2,1)] ts by simp
  next
    case (page a)
    have "3 \<le> free_count st" using Suc.prems(6) by simp
    from dup_page [OF Suc.prems(1) old Suc.prems(2) rg(2,1) Suc.prems(5) this page] obtain s V e' where
      s: "dup_vma_loop old new va e va st = dup_vma_loop old new (va + PGSIZE) e (va + PGSIZE) s"
      "dup_inv c0 b0 U0 new I s V" "U \<subseteq> V" "\<forall>p y. p \<in> U \<longrightarrow> y \<in> page_bytes p \<longrightarrow> bytes s y = bytes st y"
      "\<forall>x. x < MAXVA \<longrightarrow> leaf (cells s) 2 new x = (if pn x = pn va then e' else leaf (cells st) 2 new x)"
      "copied b0 (leaf c0 2 old va) s (V - U) e'" "free_count st \<le> free_count s + 3" by metis
    have fs: "3 * n \<le> free_count s" using Suc.prems(6) s(7) by simp
    have "leaf (cells s) 2 new x = leaf (cells st) 2 new x" if "va + PGSIZE \<le> x" "x < e" for x
      using s(5) that rg(6) [of x] Suc.prems(4) by auto
    note ih = Suc.IH [OF s(2) rg(4) ue Suc.prems(4) rd' [OF this] fs]
    have "area_done c0 b0 U0 old new I {va ..< e} (3 * Suc n) st U st' U'"
      if "area_done c0 b0 U0 old new I {va + PGSIZE ..< e} (3 * n) s V st' U'" for st' U'
    proof -
      have r: "dup_inv c0 b0 U0 new I st' U'" "V \<subseteq> U'"
        "\<forall>p \<in> V. \<forall>y \<in> page_bytes p. bytes st' y = bytes s y" "area_copied c0 b0 old new {va + PGSIZE ..< e} s V st' U'"
        "free_count s \<le> free_count st' + 3 * n" using that by (auto simp: area_done_def)
      have "PTE2PA e' \<in> V" using s(6) by (simp add: copied_def)
      moreover have "copied b0 (leaf c0 2 old va) st' (U' - U) e'"
        using s(6) r(2,3) by (auto simp: copied_def page_bytes_def)
      ultimately have "area_copied c0 b0 old new {va ..< e} st U st' U'"
        using s(3,5) page(2) r(4) by (intro area_copied_step [OF Suc.prems(2-4), of s new e' st]) auto
      moreover have "\<forall>p \<in> U. \<forall>y \<in> page_bytes p. bytes st' y = bytes st y" using r(3) s(3,4) by auto
      moreover have "free_count st \<le> free_count st' + 3 * Suc n" using r(5) s(7) by simp
      ultimately show ?thesis using r(1,2) s(3) by (auto simp: area_done_def)
    qed
    then show ?thesis using ih page unfolding s(1) ts by (auto split: if_splits)
  qed
qed

section \<open>All areas\<close>

definition same_area :: "vma \<Rightarrow> vma \<Rightarrow> bool" where
  "same_area a b \<longleftrightarrow> vm_start a = vm_start b \<and> vm_end a = vm_end b \<and> vm_flags a = vm_flags b \<and> vm_pgoff a = vm_pgoff b"

definition area_pages :: "vma \<Rightarrow> nat" where
  "area_pages a = (unat (vm_end a) - unat (vm_start a)) div 4096"

definition area_range :: "vma \<Rightarrow> u64 set" where
  "area_range a = {vm_start a ..< vm_end a}"

lemma same_areaD: "same_area a b \<Longrightarrow> area_ok a = area_ok b \<and> area_pages a = area_pages b \<and> area_range a = area_range b \<and>
    before c a = before c b \<and> before a c = before b c"
  by (simp add: same_area_def area_ok_def area_pages_def area_range_def before_def)

lemma same_area_trans [trans]: "same_area a b \<Longrightarrow> same_area b c \<Longrightarrow> same_area a c"
  by (simp add: same_area_def)

text \<open>A copy of an area that lies behind all areas of the child becomes the last one.\<close>

lemma dup_insert:
  assumes inv: "space_inv st cs" and n: "n \<noteq> 0" "n \<notin> set cs" and q: "q \<notin> set cs" "q \<noteq> n" "area_ok (areas st q)"
    and bf: "\<forall>c \<in> set cs. before (areas st c) (areas st q)"
  shows "\<exists>st'. insert_vm_struct n (copy_area q n st) = Some (0, st') \<and> space_inv st' (cs @ [n]) \<and>
    same_area (areas st' n) (areas st q) \<and> (\<forall>x. x \<noteq> n \<longrightarrow> same_area (areas st' x) (areas st x)) \<and>
    (\<forall>x. x \<noteq> n \<and> x \<notin> set cs \<longrightarrow> areas st' x = areas st x) \<and> pmem st' = pmem st \<and> pagetable st' = pagetable st \<and>
    start_brk st' = start_brk st \<and> brk st' = brk st"
proof -
  let ?s = "copy_area q n st" and ?p = "last (0 # cs)"
  have s: "areas ?s = (areas st)(n := (areas st q)\<lparr>vm_next := 0, vm_prev := 0\<rparr>)" "mmap ?s = mmap st" "pmem ?s = pmem st"
    "pagetable ?s = pagetable st" "start_brk ?s = start_brk st" "brk ?s = brk st"
    using n(1) by (simp_all add: copy_area_def upd_area_def)
  have eq: "areas ?s x = areas st x" if "x \<in> set cs" for x using that n(2) by (auto simp: s(1))
  have "space_inv ?s (cs @ [])"
    using inv eq chain_same [of cs ?s st] s(2) by (intro space_inv_cong [where st = st]) (auto simp: space_inv_def)
  moreover have "\<forall>c \<in> set cs. before (areas ?s c) (areas ?s n)" using bf eq by (auto simp: s(1) before_def)
  ultimately obtain st' where st': "insert_vm_struct n ?s = Some (0, st')" "st' = link_between ?p n 0 ?s" "space_inv st' (cs @ [n])"
    using insert_ordered [of ?s cs "[]" n] n q(3) by (auto simp: s(1) area_ok_def)
  have p: "?p = 0 \<or> ?p \<in> set cs" by (cases cs rule: rev_cases) auto
  have a: "areas st' x = (if x = n then (areas st q)\<lparr>vm_next := 0, vm_prev := ?p\<rparr>
      else if x = ?p \<and> ?p \<noteq> 0 then (areas st x)\<lparr>vm_next := n\<rparr> else areas st x)" for x
    using p n by (auto simp: st'(2) link_between_def s(1) Let_def)
  show ?thesis
  proof (intro exI [of _ st'] conjI allI impI)
    show "insert_vm_struct n ?s = Some (0, st')" "space_inv st' (cs @ [n])" by (rule st'(1), rule st'(3))
    show "same_area (areas st' n) (areas st q)" by (simp add: a same_area_def)
    show "same_area (areas st' x) (areas st x)" if "x \<noteq> n" for x using that by (simp add: a same_area_def)
    show "areas st' x = areas st x" if "x \<noteq> n \<and> x \<notin> set cs" for x using that p by (auto simp: a)
  qed (simp_all add: st'(2) s)
qed

lemma area_ok_pages:
  assumes "area_ok a"
  shows "PGROUNDDOWN (vm_start a) = vm_start a" "unat (vm_end a) = unat (vm_start a) + 4096 * area_pages a"
proof -
  have d: "4096 dvd unat (vm_start a)" "4096 dvd unat (vm_end a)" using assms by (auto simp: area_ok_def page_aligned)
  then show "PGROUNDDOWN (vm_start a) = vm_start a" by (simp add: aligned_PGROUNDDOWN)
  have "unat (vm_start a) \<le> unat (vm_end a)" using assms by (simp add: area_ok_def word_less_nat_alt)
  then show "unat (vm_end a) = unat (vm_start a) + 4096 * area_pages a" using d by (simp add: area_pages_def dvd_diff_nat)
qed

text \<open>The copies of two disjoint ranges are together a copy of both.\<close>

lemma area_copied_union:
  assumes 1: "area_copied c b old new R st U s V" and 2: "area_copied c b old new S s V st' U'" and dis: "R \<inter> S = {}"
    and max: "R \<subseteq> {..< MAXVA}" "S \<subseteq> {..< MAXVA}" and UV: "U \<subseteq> V" "V \<subseteq> U'"
    and kept: "\<forall>p \<in> V. \<forall>y \<in> page_bytes p. bytes st' y = bytes s y"
  shows "area_copied c b old new (R \<union> S) st U st' U'"
proof -
  have R: "leaf (cells st') 2 new x = leaf (cells s) 2 new x" "x < MAXVA" if "has_page c old R x" for x
    using that dis max(1) area_copiedD(2) [OF 2, of x] by (auto simp: has_page_def)
  have cR: "copied b (leaf c 2 old x) s (V - U) (leaf (cells s) 2 new x)" if "has_page c old R x" for x
    by (rule area_copiedD(1) [OF 1 R(2) [OF that] that])
  have cS: "copied b (leaf c 2 old x) st' (U' - V) (leaf (cells st') 2 new x)" "x < MAXVA" if "has_page c old S x" for x
    using that max(2) area_copiedD(1) [OF 2 _ that] by (auto simp: has_page_def)
  have RS: "has_page c old (R \<union> S) x \<longleftrightarrow> has_page c old R x \<or> has_page c old S x" for x by (auto simp: has_page_def)
  have "if has_page c old (R \<union> S) x then copied b (leaf c 2 old x) st' (U' - U) (leaf (cells st') 2 new x)
      else leaf (cells st') 2 new x = leaf (cells st) 2 new x" if x: "x < MAXVA" for x
  proof (cases "has_page c old R x")
    case True
    have "copied b (leaf c 2 old x) st' (U' - U) (leaf (cells s) 2 new x)"
      using cR [OF True] kept UV by (auto simp: copied_def page_bytes_def)
    then show ?thesis using True RS [of x] R(1) [OF True] by simp
  next
    case False
    have "copied b (leaf c 2 old x) st' (U' - V) d \<Longrightarrow> copied b (leaf c 2 old x) st' (U' - U) d" for d using UV by (auto simp: copied_def)
    then show ?thesis using False RS [of x] cS(1) [of x] area_copiedD(2) [OF 1 x] area_copiedD(2) [OF 2 x] by auto
  qed
  moreover have "PTE2PA (leaf (cells st') 2 new x) \<noteq> PTE2PA (leaf (cells st') 2 new y)"
    if xy: "has_page c old (R \<union> S) x" "has_page c old (R \<union> S) y" "pn x \<noteq> pn y" for x y
  proof -
    have r: "PTE2PA (leaf (cells st') 2 new z) \<in> V" if "has_page c old R z" for z using cR [OF that] R(1) [OF that] by (simp add: copied_def)
    have s: "PTE2PA (leaf (cells st') 2 new z) \<notin> V" if "has_page c old S z" for z using cS(1) [OF that] by (simp add: copied_def)
    have "PTE2PA (leaf (cells s) 2 new x) \<noteq> PTE2PA (leaf (cells s) 2 new y)" if "has_page c old R x" "has_page c old R y"
      using 1 that xy(3) unfolding area_copied_def by blast
    moreover have "PTE2PA (leaf (cells st') 2 new x) \<noteq> PTE2PA (leaf (cells st') 2 new y)" if "has_page c old S x" "has_page c old S y"
      using 2 that xy(3) unfolding area_copied_def by blast
    ultimately show ?thesis using xy(1,2) RS r s R(1) by metis
  qed
  ultimately show ?thesis unfolding area_copied_def by blast
qed

text \<open>The pages taken for records do not matter to the copies.\<close>

lemma area_done_weaken:
  assumes "area_done c b U0 old new I R n s V st' U'" "U \<subseteq> V" "cells s = cells st" "\<forall>p \<in> U. \<forall>y \<in> page_bytes p. bytes s y = bytes st y"
    "free_count st \<le> free_count s + k"
  shows "area_done c b U0 old new I R (k + n) st U st' U'"
proof -
  have "copied b d st' (U' - V) d' \<Longrightarrow> copied b d st' (U' - U) d'" for d d' using assms(2) by (auto simp: copied_def)
  then have "area_copied c b old new R st U st' U'" using assms(1,3) unfolding area_done_def area_copied_def by metis
  then show ?thesis using assms unfolding area_done_def by (auto simp: subset_iff)
qed

lemma dup_vma_mmap_area:
  assumes "dup_inv c0 b0 U0 new I st U" "ptree c0 2 old" "tables c0 2 old \<subseteq> U0 - {new}" "area_ok a" "vm_end a \<le> MAXVA"
    "area_ready c0 U0 old new I (vm_start a) (vm_end a) st" "3 * area_pages a \<le> free_count st"
  shows "if touched c0 old (area_range a)
    then \<exists>st' U'. dup_vma_mmap old new (vm_start a) (vm_start a) (vm_end a - vm_start a) st = Inr (0, st') \<and>
      area_done c0 b0 U0 old new I (area_range a) (3 * area_pages a) st U st' U'
    else dup_vma_mmap old new (vm_start a) (vm_start a) (vm_end a - vm_start a) st = Inl (Panic ''dup_vma: page not present'')"
proof -
  have e: "vm_start a + (vm_end a - vm_start a) = vm_end a" by simp
  show ?thesis
    using dup_vma_loop_correct [OF assms(1-3) area_ok_pages [OF assms(4)] assms(5-7)] unfolding area_range_def dup_vma_mmap_def e
    by (auto split: if_splits)
qed

fun follows :: "(nat \<Rightarrow> vma) \<Rightarrow> nat list \<Rightarrow> nat \<Rightarrow> bool" where
  "follows h [] v \<longleftrightarrow> v = 0"
| "follows h (x # xs) v \<longleftrightarrow> v = x \<and> x \<noteq> 0 \<and> follows h xs (vm_next (h x))"

lemma follows_cong: "\<forall>x \<in> set xs. h' x = h x \<Longrightarrow> follows h' xs v = follows h xs v"
  by (induction xs arbitrary: v) auto

lemma chain_follows:
  assumes "chain st (xs @ ys)"
  shows "follows (areas st) ys (hd (ys @ [0]))"
  using assms
proof (induction ys arbitrary: xs)
  case (Cons y ys)
  then show ?case using chain_at [OF Cons.prems] Cons.IH [of "xs @ [y]"] by simp
qed simp

definition ranges :: "(nat \<Rightarrow> vma) \<Rightarrow> nat list \<Rightarrow> u64 set" where
  "ranges h qs = (\<Union>q \<in> set qs. area_range (h q))"

text \<open>What is left to copy: the areas \<open>qs\<close> of the parent, all behind the areas \<open>cs\<close> of the child, in ascending order.\<close>

definition to_copy :: "(u64 \<Rightarrow> u64) \<Rightarrow> u64 set \<Rightarrow> u64 \<Rightarrow> nat set \<Rightarrow> nat list \<Rightarrow> nat list \<Rightarrow> space \<Rightarrow> bool" where
  "to_copy c U0 old I cs qs st \<longleftrightarrow> set cs \<inter> set qs = {} \<and> (\<forall>a \<in> set cs. \<forall>q \<in> set qs. before (areas st a) (areas st q)) \<and>
     sorted_wrt (\<lambda>x y. before (areas st x) (areas st y)) qs \<and>
     (\<forall>q \<in> set qs. area_ok (areas st q) \<and> vm_end (areas st q) \<le> MAXVA \<and>
        area_ready c U0 old (pagetable st) I (vm_start (areas st q)) (vm_end (areas st q)) (pmem st)) \<and>
     sum_list (map (\<lambda>q. 1 + 3 * area_pages (areas st q)) qs) \<le> free_count (pmem st)"

lemma to_copy_step:
  assumes tc: "to_copy c U0 old I cs (q # qs) st" and cp: "area_copied c b old (pagetable st) (area_range (areas st q)) (pmem st) U (pmem st') U'"
    and fc: "free_count (pmem st) \<le> free_count (pmem st') + (1 + 3 * area_pages (areas st q))" and pt: "pagetable st' = pagetable st"
    and eq: "\<forall>x \<in> set (q # qs). areas st' x = areas st x" and cs: "\<forall>x \<in> set cs. same_area (areas st' x) (areas st x)"
    and n: "same_area (areas st' n) (areas st q)" "n \<notin> set (q # qs)"
  shows "to_copy c U0 old I (cs @ [n]) qs st'"
proof -
  have t: "set cs \<inter> set qs = {}" "\<forall>a \<in> set cs. \<forall>x \<in> set qs. before (areas st a) (areas st x)" "\<forall>x \<in> set qs. before (areas st q) (areas st x)"
    "sorted_wrt (\<lambda>x y. before (areas st x) (areas st y)) qs"
    "\<And>x. x \<in> set qs \<Longrightarrow> area_ok (areas st x) \<and> vm_end (areas st x) \<le> MAXVA \<and>
        area_ready c U0 old (pagetable st) I (vm_start (areas st x)) (vm_end (areas st x)) (pmem st)"
    "sum_list (map (\<lambda>q. 1 + 3 * area_pages (areas st q)) qs) \<le> free_count (pmem st')"
    using tc fc by (auto simp: to_copy_def)
  have "before (areas st' a) (areas st' x)" if "a \<in> set (cs @ [n])" "x \<in> set qs" for a x
    using that t(2,3) eq cs n(1) by (auto simp: before_def same_area_def)
  moreover have "sorted_wrt (\<lambda>x y. before (areas st' x) (areas st' y)) qs"
    using t(4) by (rule sorted_wrt_mono_rel [rotated]) (use eq in auto)
  moreover have "area_ready c U0 old (pagetable st') I (vm_start (areas st' x)) (vm_end (areas st' x)) (pmem st')" if x: "x \<in> set qs" for x
  proof -
    have "leaf (cells (pmem st')) 2 (pagetable st) y = leaf (cells (pmem st)) 2 (pagetable st) y"
      if y: "vm_start (areas st x) \<le> y" "y < vm_end (areas st x)" for y
    proof (rule area_copiedD(2) [OF cp])
      show "y < MAXVA" using y(2) t(5) [OF x] by auto
      show "\<not> has_page c old (area_range (areas st q)) y" using t(3) x y(1) by (auto simp: has_page_def area_range_def before_def)
    qed
    then show ?thesis using t(5) [OF x] eq x unfolding area_ready_def pt by auto
  qed
  moreover have "sum_list (map (\<lambda>q. 1 + 3 * area_pages (areas st' q)) qs) \<le> free_count (pmem st')" using t(6) eq by (simp cong: map_cong)
  ultimately show ?thesis using t(1,5) n(2) eq unfolding to_copy_def by auto
qed

text \<open>Records in pages that are in use.\<close>

definition held :: "u64 set \<Rightarrow> nat \<Rightarrow> bool" where "held U x \<longleftrightarrow> (\<exists>p \<in> U. x \<in> page_bytes p)"

lemma held_mono: "held U x \<Longrightarrow> U \<subseteq> V \<Longrightarrow> held V x"
  by (auto simp: held_def)

lemma held_new:
  assumes "x \<in> page_bytes b" "b \<notin> U" "insert b U \<subseteq> V"
  shows "held (V - U) x"
  using assms by (auto simp: held_def)

text \<open>The state \<open>st'\<close> after the areas \<open>qs\<close> have been copied to new records \<open>ns\<close> behind the areas \<open>cs\<close>.\<close>

definition areas_done :: "nat list \<Rightarrow> nat list \<Rightarrow> nat list \<Rightarrow> space \<Rightarrow> space \<Rightarrow> bool" where
  "areas_done cs ns qs st st' \<longleftrightarrow> space_inv st' (cs @ ns) \<and>
     list_all2 (\<lambda>n q. same_area (areas st' n) (areas st q)) ns qs \<and> (\<forall>x. x \<notin> set ns \<longrightarrow> same_area (areas st' x) (areas st x)) \<and>
     (\<forall>x. x \<notin> set cs \<union> set ns \<longrightarrow> areas st' x = areas st x) \<and> pagetable st' = pagetable st \<and> start_brk st' = start_brk st \<and> brk st' = brk st"

lemma areas_done_step:
  assumes r: "areas_done (cs @ [n]) ns qs s st'" and n: "n \<notin> set ns"
    and s: "same_area (areas s n) (areas st q)" "\<forall>x. x \<noteq> n \<longrightarrow> same_area (areas s x) (areas st x)"
      "\<forall>x. x \<noteq> n \<and> x \<notin> set cs \<longrightarrow> areas s x = areas st x" "pagetable s = pagetable st" "start_brk s = start_brk st" "brk s = brk st"
    and sq: "\<forall>x \<in> set qs. areas s x = areas st x"
  shows "areas_done cs (n # ns) (q # qs) st st'"
proof -
  have R: "space_inv st' (cs @ n # ns)" "list_all2 (\<lambda>n q. same_area (areas st' n) (areas s q)) ns qs"
    "\<forall>x. x \<notin> set ns \<longrightarrow> same_area (areas st' x) (areas s x)" "\<forall>x. x \<notin> set (cs @ [n]) \<union> set ns \<longrightarrow> areas st' x = areas s x"
    "pagetable st' = pagetable s" "start_brk st' = start_brk s" "brk st' = brk s"
    using r by (simp_all add: areas_done_def)
  have "same_area (areas st' n) (areas st q)" using R(3) n s(1) same_area_trans by blast
  moreover have "list_all2 (\<lambda>n q. same_area (areas st' n) (areas st q)) ns qs"
    using R(2) by (rule list.rel_mono_strong) (use sq in auto)
  moreover have "\<forall>x. x \<notin> set (n # ns) \<longrightarrow> same_area (areas st' x) (areas st x)" using R(3) s(2) same_area_trans by fastforce
  moreover have "\<forall>x. x \<notin> set cs \<union> set (n # ns) \<longrightarrow> areas st' x = areas st x" using R(4) s(3) by simp
  ultimately show ?thesis using R s(4-6) by (simp add: areas_done_def)
qed

lemma dup_mmap_loop_correct:
  assumes "dup_inv c0 b0 U0 new I (pmem st) U" and old: "ptree c0 2 old" "tables c0 2 old \<subseteq> U0 - {new}"
    and "follows (areas st) qs v" "space_inv st cs" "pagetable st = new" "to_copy c0 U0 old I cs qs st"
    and "\<forall>x \<in> set cs \<union> set qs. held U x" "dll (sl_links sl) slob_head []"
  shows "if touched c0 old (ranges (areas st) qs)
    then \<exists>ns sl' st' U'. dup_mmap_loop old v sl st = Some (Inr (0, sl', st')) \<and>
      area_done c0 b0 U0 old new I (ranges (areas st) qs) (free_count (pmem st)) (pmem st) U (pmem st') U' \<and>
      areas_done cs ns qs st st' \<and> (\<forall>n \<in> set ns. held (U' - U) n)
    else dup_mmap_loop old v sl st = Some (Inl (Panic ''dup_vma: page not present''))"
  using assms(1,4-)
proof (induction qs arbitrary: v cs st U sl)
  case Nil
  have "area_done c0 b0 U0 old new I (ranges (areas st) []) (free_count (pmem st)) (pmem st) U (pmem st) U"
    using Nil(1) by (simp add: area_done_def area_copied_def has_page_def ranges_def)
  moreover have "areas_done cs [] [] st st" using Nil(3) by (simp add: areas_done_def same_area_def)
  moreover have "touched c0 old (ranges (areas st) [])" by (simp add: touched_def ranges_def)
  moreover have "dup_mmap_loop old v sl st = Some (Inr (0, sl, st))" using Nil(2) by (subst dup_mmap_loop.simps) simp
  ultimately show ?case by (auto intro!: exI [of _ "[] :: nat list"] exI [of _ U])
next
  case (Cons q qs)
  have q: "q \<notin> set cs" "v = q" "q \<noteq> 0" "follows (areas st) qs (vm_next (areas st q))"
    using Cons.prems(2,5) by (auto simp: to_copy_def)
  have tc: "area_ok (areas st q)" "vm_end (areas st q) \<le> MAXVA" "\<forall>c \<in> set cs. before (areas st c) (areas st q)"
      "area_ready c0 U0 old new I (vm_start (areas st q)) (vm_end (areas st q)) (pmem st)" "1 + 3 * area_pages (areas st q) \<le> free_count (pmem st)"
    using Cons.prems(4,5) by (auto simp: to_copy_def)
  have use: "pages_in_use (node (pmem st)) U" using Cons.prems(1) by (simp add: dup_inv_def vm_inv_def)
  have "0 < free_count (pmem st)" "unat VMA_SIZE \<le> 4084" using tc(5) by (simp_all add: VMA_SIZE_def)
  from vm_kmalloc_page [OF Cons.prems(7) use this] obtain a sl1 m b where
    k: "vm_kmalloc VMA_SIZE sl (pmem st) = Some (Inr (a, sl1, m))" "dll (sl_links sl1) slob_head []" "a \<noteq> 0" "unat a \<in> page_bytes b"
      "b \<notin> U" "pages_in_use (node m) (insert b U)" "cells m = cells (pmem st)"
      "\<forall>p \<in> U. \<forall>y \<in> page_bytes p. bytes m y = bytes (pmem st) y \<and> y \<noteq> unat a" "free_count (pmem st) = Suc (free_count m)"
    by metis
  define nn where "nn = unat a"
  let ?st = "st\<lparr>pmem := m\<rparr>"
  have kn: "nn \<noteq> 0" "nn \<in> page_bytes b" "\<forall>p \<in> U. \<forall>y \<in> page_bytes p. bytes m y = bytes (pmem st) y \<and> y \<noteq> nn"
    using k(3,4,8) by (simp_all add: nn_def unat_eq_zero)
  have fresh: "x \<noteq> nn" if "held U x" for x using that kn(3) by (auto simp: held_def)
  have n: "nn \<noteq> 0" "nn \<notin> set cs" "nn \<notin> set (q # qs)" "q \<noteq> nn"
    using kn(1) Cons.prems(6) fresh by auto
  have inv1: "space_inv ?st cs" using Cons.prems(3) by (simp add: space_inv_def chain_def)
  have t1: "area_ok (areas ?st q)" "\<forall>c \<in> set cs. before (areas ?st c) (areas ?st q)" using tc(1,3) by simp_all
  from dup_insert [OF inv1 n(1,2) q(1) n(4) t1] obtain s where
    s0: "insert_vm_struct nn (copy_area q nn ?st) = Some (0, s)" "space_inv s (cs @ [nn])" "same_area (areas s nn) (areas ?st q)"
      "\<forall>x. x \<noteq> nn \<longrightarrow> same_area (areas s x) (areas ?st x)" "\<forall>x. x \<noteq> nn \<and> x \<notin> set cs \<longrightarrow> areas s x = areas ?st x"
      "pmem s = pmem ?st" "pagetable s = pagetable ?st" "start_brk s = start_brk ?st" "brk s = brk ?st" by (elim exE conjE)
  have s: "insert_vm_struct nn (copy_area q nn ?st) = Some (0, s)" "space_inv s (cs @ [nn])" "same_area (areas s nn) (areas st q)"
      "\<forall>x. x \<noteq> nn \<longrightarrow> same_area (areas s x) (areas st x)" "\<forall>x. x \<noteq> nn \<and> x \<notin> set cs \<longrightarrow> areas s x = areas st x"
      "pmem s = m" "pagetable s = pagetable st" "start_brk s = start_brk st" "brk s = brk st" using s0 by simp_all
  have ds: "set cs \<inter> set (q # qs) = {}" using Cons.prems(5) unfolding to_copy_def by (elim conjE)
  have sq: "areas s x = areas st x" if x: "x \<in> set (q # qs)" for x
  proof -
    have "x \<noteq> nn \<and> x \<notin> set cs" using x n(3) ds by auto
    then show ?thesis using s(5) by simp
  qed
  have nq: "vm_start (areas s nn) = vm_start (areas st q)" using s(3) by (simp add: same_area_def)
  have d: "dup_inv c0 b0 U0 new I m (insert b U)" using kn(3) by (intro dup_inv_kmalloc [OF Cons.prems(1) k(6,7)]) auto
  have rd: "area_ready c0 U0 old new I (vm_start (areas st q)) (vm_end (areas st q)) m" using tc(4) by (simp add: area_ready_def k(7))
  have "3 * area_pages (areas st q) \<le> free_count m" using tc(5) k(9) by simp
  note vma = dup_vma_mmap_area [OF d old tc(1,2) rd this]
  have step: "dup_mmap_loop old v sl st =
      (case dup_vma_mmap old new (vm_start (areas st q)) (vm_start (areas st q)) (vm_end (areas st q) - vm_start (areas st q)) m of
         Inl e \<Rightarrow> Some (Inl e) | Inr (_, p) \<Rightarrow> dup_mmap_loop old (vm_next (areas st q)) sl1 (s\<lparr>pmem := p\<rparr>))"
    using n(1) q(2,3) s(1,6,7) sq [of q] nq Cons.prems(4) by (subst dup_mmap_loop.simps) (simp add: vm_area_dup_def k(1) nn_def [symmetric] split: sum.split prod.split)
  have rc: "ranges (areas st) (q # qs) = area_range (areas st q) \<union> ranges (areas st) qs" by (simp add: ranges_def)
  show ?case
  proof (cases "touched c0 old (area_range (areas st q))")
    case False
    then show ?thesis using vma step by (simp add: rc touched_Un)
  next
    case True
    then obtain p V where p: "dup_vma_mmap old new (vm_start (areas st q)) (vm_start (areas st q)) (vm_end (areas st q) - vm_start (areas st q)) m = Inr (0, p)"
      "area_done c0 b0 U0 old new I (area_range (areas st q)) (3 * area_pages (areas st q)) m (insert b U) p V" using vma by auto
    have done1: "area_done c0 b0 U0 old new I (area_range (areas st q)) (1 + 3 * area_pages (areas st q)) (pmem st) U p V"
      by (rule area_done_weaken [OF p(2)]) (use k(7,9) kn(3) in auto)
    then have P: "dup_inv c0 b0 U0 new I p V" "U \<subseteq> V" "\<forall>r \<in> U. \<forall>y \<in> page_bytes r. bytes p y = bytes (pmem st) y"
      "area_copied c0 b0 old new (area_range (areas st q)) (pmem st) U p V" "free_count (pmem st) \<le> free_count p + (1 + 3 * area_pages (areas st q))"
      by (auto simp: area_done_def)
    have bV: "insert b U \<subseteq> V" using p(2) by (auto simp: area_done_def)
    let ?s = "s\<lparr>pmem := p\<rparr>"
    have "\<forall>x \<in> set cs. same_area (areas ?s x) (areas st x)" using s(4) n(2) by auto
    then have tc': "to_copy c0 U0 old I (cs @ [nn]) qs ?s"
      using P(4,5) s(3,7) sq n(3) Cons.prems(4) by (intro to_copy_step [OF Cons.prems(5), of b0 U _ V]) auto
    have inv': "space_inv ?s (cs @ [nn])" using s(2) by (simp add: space_inv_def chain_def)
    have fl: "follows (areas ?s) qs (vm_next (areas st q))" using q(4) sq follows_cong [of qs "areas st" "areas s"] by simp
    have pt: "dup_inv c0 b0 U0 new I (pmem ?s) V" "pagetable ?s = new" using P(1) s(7) Cons.prems(4) by simp_all
    have hn: "held (V - U) nn" by (rule held_new [OF kn(2) k(5) bV])
    then have hV: "\<forall>x \<in> set (cs @ [nn]) \<union> set qs. held V x" using Cons.prems(6) held_mono [OF _ P(2)] by (auto intro: held_mono)
    have rg: "ranges (areas ?s) qs = ranges (areas st) qs" using sq by (simp add: ranges_def)
    note ih = Cons.IH [OF pt(1) fl inv' pt(2) tc' hV k(2), unfolded rg]
    have eq: "dup_mmap_loop old v sl st = dup_mmap_loop old (vm_next (areas st q)) sl1 ?s" using step p(1) by simp
    show ?thesis
    proof (cases "touched c0 old (ranges (areas st) qs)")
      case False
      then show ?thesis using ih eq by (simp add: rc touched_Un)
    next
      case more: True
      then obtain ns sl' st' U' where r: "dup_mmap_loop old v sl st = Some (Inr (0, sl', st'))"
        "area_done c0 b0 U0 old new I (ranges (areas st) qs) (free_count p) p V (pmem st') U'"
        "areas_done (cs @ [nn]) ns qs ?s st'" "\<forall>n \<in> set ns. held (U' - V) n"
        using ih eq by auto
      have R: "dup_inv c0 b0 U0 new I (pmem st') U'" "V \<subseteq> U'" "\<forall>r \<in> V. \<forall>y \<in> page_bytes r. bytes (pmem st') y = bytes p y"
        "area_copied c0 b0 old new (ranges (areas st) qs) p V (pmem st') U'" using r(2) by (auto simp: area_done_def)
      have dis: "area_range (areas st q) \<inter> ranges (areas st) qs = {}"
        using Cons.prems(5) by (fastforce simp: to_copy_def before_def area_range_def ranges_def)
      have max: "area_range (areas st x) \<subseteq> {..< MAXVA}" if "x \<in> set (q # qs)" for x
        using that Cons.prems(5) by (fastforce simp: to_copy_def area_range_def)
      then have mx: "area_range (areas st q) \<subseteq> {..< MAXVA}" "ranges (areas st) qs \<subseteq> {..< MAXVA}" by (auto simp: ranges_def)
      have "area_copied c0 b0 old new (ranges (areas st) (q # qs)) (pmem st) U (pmem st') U'"
        unfolding rc by (rule area_copied_union [OF P(4) R(4) dis mx P(2) R(2,3)])
      moreover have "\<forall>r \<in> U. \<forall>y \<in> page_bytes r. bytes (pmem st') y = bytes (pmem st) y" using P(2,3) R(3) by auto
      ultimately have "area_done c0 b0 U0 old new I (ranges (areas st) (q # qs)) (free_count (pmem st)) (pmem st) U (pmem st') U'"
        using R(1,2) P(2) by (auto simp: area_done_def)
      moreover have "nn \<notin> set ns"
      proof
        assume "nn \<in> set ns"
        have "distinct ((cs @ [nn]) @ ns)" using r(3) by (auto simp: areas_done_def space_inv_def chain_def chained_def)
        then show False using \<open>nn \<in> set ns\<close> by simp
      qed
      then have "areas_done cs (nn # ns) (q # qs) st st'"
        using r(3) s(3-5,7-9) sq by (intro areas_done_step [of _ _ _ _ ?s]) auto
      moreover have "\<forall>n \<in> set (nn # ns). held (U' - U) n" using r(4) hn P(2) R(2) by (auto intro: held_mono)
      ultimately have "\<exists>ns sl' st' U'. dup_mmap_loop old v sl st = Some (Inr (0, sl', st')) \<and>
          area_done c0 b0 U0 old new I (ranges (areas st) (q # qs)) (free_count (pmem st)) (pmem st) U (pmem st') U' \<and>
          areas_done cs ns (q # qs) st st' \<and> (\<forall>n \<in> set ns. held (U' - U) n)"
        using r(1) by blast
      then show ?thesis using True more by (simp add: rc touched_Un)
    qed
  qed
qed

section \<open>The child's root table\<close>

lemma copy_kernel_tbl_inv:
  assumes inv: "vm_inv kpt st U" and free: "0 < free_count st"
  obtains new st' where "copy_kernel_tbl kpt st = (new, st')" "new \<noteq> 0" "new \<notin> U" "vm_inv new st' (insert new U)"
    "\<And>x. PGROUNDDOWN x \<in> U \<Longrightarrow> cells st' x = cells st x" "\<And>p y. p \<in> U \<Longrightarrow> y \<in> page_bytes p \<Longrightarrow> bytes st' y = bytes st y"
    "kids (cells st') new = kids (cells st) kpt" "\<And>x. leaf (cells st') 2 new x = leaf (cells st) 2 kpt x"
    "free_count st = Suc (free_count st')"
proof -
  have K: "ptree (cells st) 2 kpt" "tables (cells st) 2 kpt \<subseteq> U" "pages_in_use (node st) U" using inv by (auto simp: vm_inv_def)
  obtain new s where al: "alloc_page st = (new, s)" by fastforce
  note en = alloc_page_enough [OF K(3) al free]
  note f = alloc_page_fresh [OF al K(3) en(1)]
  define st' where "st' = copy_page_cells new kpt (clear_page new s)"
  have kU: "kpt \<in> U" using K(2) tables_root by blast
  have c: "cells st' x = cells st x" if "PGROUNDDOWN x \<in> U" for x
    using that f(1) by (auto simp: st'_def copy_page_cells_def in_page_def f(6))
  have al2: "PGROUNDDOWN kpt = kpt" by (rule ptree_aligned [OF K(1)])
  have slot: "cells st' (entry_addr new i) = cells st (entry_addr kpt i)" if "i < 512" for i
  proof -
    have "in_page new (entry_addr new i)" using entry_addr_page [OF f(3) that] by (simp add: in_page_def)
    moreover have "kpt + (entry_addr new i - new) = entry_addr kpt i" by (simp add: entry_addr_def)
    moreover have "\<not> in_page new (entry_addr kpt i)" using entry_addr_page [OF al2 that] kU f(1) by (auto simp: in_page_def)
    ultimately show ?thesis by (simp add: st'_def copy_page_cells_def f(6))
  qed
  have k: "kids (cells st') new = kids (cells st) kpt" using slot by (auto simp: kids_def)
  have ch: "child (cells st') new i = child (cells st) kpt i" if "i \<in> kids (cells st) kpt" for i
    using that slot by (simp add: kids_def child_def)
  have sub: "ptree (cells st') 1 (child (cells st) kpt i) \<and> tables (cells st') 1 (child (cells st) kpt i) = tables (cells st) 1 (child (cells st) kpt i) \<and>
      (\<forall>x. desc (cells st') 1 (child (cells st) kpt i) x = desc (cells st) 1 (child (cells st) kpt i) x) \<and>
      (\<forall>x. leaf (cells st') 1 (child (cells st) kpt i) x = leaf (cells st) 1 (child (cells st) kpt i) x)"
    if i: "i \<in> kids (cells st) kpt" for i
  proof (rule ptree_cong [OF ptree_below(1) [OF K(1) i]])
    fix x assume "PGROUNDDOWN x \<in> tables (cells st) 1 (child (cells st) kpt i)"
    then show "cells st' x = cells st x" using i K(2) unfolding two_levels by (intro c) auto
  qed
  have tU: "tables (cells st) 1 (child (cells st) kpt i) \<subseteq> U" if "i \<in> kids (cells st) kpt" for i
    using that K(2) unfolding two_levels by auto
  have dj: "tables (cells st) 1 (child (cells st) kpt i) \<inter> tables (cells st) 1 (child (cells st) kpt j) = {}"
    if "i \<in> kids (cells st) kpt" "j \<in> kids (cells st) kpt" "i \<noteq> j" for i j
    using K(1) that unfolding two_levels ptree.simps(2) by blast
  have "ptree (cells st') 2 new" unfolding two_levels ptree.simps(2) k
  proof (intro conjI ballI impI)
    show "PGROUNDDOWN new = new" by (rule f(3))
    fix i assume i: "i \<in> kids (cells st) kpt"
    show "ptree (cells st') 1 (child (cells st') new i)" "new \<notin> tables (cells st') 1 (child (cells st') new i)"
      unfolding ch [OF i] using sub [OF i] tU [OF i] f(1) by blast+
    fix j assume j: "j \<in> kids (cells st) kpt" and "i \<noteq> j"
    then show "tables (cells st') 1 (child (cells st') new i) \<inter> tables (cells st') 1 (child (cells st') new j) = {}"
      unfolding ch [OF i] ch [OF j] using sub [OF i] sub [OF j] dj [OF i j] by metis
  qed
  moreover have "tables (cells st') 2 new \<subseteq> insert new U"
  proof -
    have "tables (cells st') 1 (child (cells st') new i) \<subseteq> U" if "i \<in> kids (cells st) kpt" for i
      unfolding ch [OF that] using sub [OF that] tU [OF that] by metis
    then show ?thesis unfolding two_levels tables.simps(2) k by blast
  qed
  ultimately have "vm_inv new st' (insert new U)" using f(4) by (simp add: vm_inv_def st'_def copy_page_cells_def)
  moreover have "leaf (cells st') 2 new x = leaf (cells st) 2 kpt x" for x
    unfolding two_levels leaf_Suc k using sub [of "idx (Suc 1) x"] ch [of "idx (Suc 1) x"] by metis
  moreover have "bytes st' y = bytes st y" if "p \<in> U" "y \<in> page_bytes p" for p y
  proof -
    have "y \<notin> page_bytes new" using f(5) [OF that(1)] that(2) by auto
    then show ?thesis by (auto simp: st'_def copy_page_cells_def clear_page_def memcpy_def memmove_eq memset_eq page_bytes_def f(7))
  qed
  moreover have "copy_kernel_tbl kpt st = (new, st')" using al en(1) by (simp add: copy_kernel_tbl_def st'_def)
  moreover have "free_count st = Suc (free_count st')" using en(2) by (simp add: st'_def copy_page_cells_def)
  ultimately show thesis using that [OF _ en(1) f(1) _ _ _ k] c by blast
qed

section \<open>Correctness\<close>

text \<open>
  What \<^verbatim>\<open>fork\<close> relies on: the parent's areas are well formed and lie below the limit of user addresses and outside the root entries of
  the kernel's table, both tables are trees of pages in use, the pages of the areas are in use, and the records of the areas lie in pages in use.
\<close>

definition fork_ready :: "u64 \<Rightarrow> nat list \<Rightarrow> u64 set \<Rightarrow> space \<Rightarrow> bool" where
  "fork_ready kpt ps U st \<longleftrightarrow> space_inv st ps \<and> vm_inv kpt (pmem st) U \<and> vm_inv (pagetable st) (pmem st) U \<and>
     (\<forall>q \<in> set ps. vm_end (areas st q) \<le> MAXVA \<and> held U q) \<and>
     (\<forall>x \<in> ranges (areas st) ps. idx 2 x \<notin> kids (cells (pmem st)) kpt \<and>
        (leaf (cells (pmem st)) 2 (pagetable st) x \<noteq> 0 \<longrightarrow> PTE2PA (leaf (cells (pmem st)) 2 (pagetable st) x) \<in> U))"

lemma fork_ready_kmalloc:
  assumes "fork_ready kpt ps U st" "pages_in_use (node m) (insert b U)" "cells m = cells (pmem st)"
  shows "fork_ready kpt ps (insert b U) (st\<lparr>pmem := m\<rparr>)"
  using assms unfolding fork_ready_def by (auto simp: vm_inv_def space_inv_def chain_def intro: held_mono)

lemma fork_begin:
  assumes rd: "fork_ready kpt ps U parent" and mm: "mm \<noteq> 0" and free: "1 + sum_list (map (\<lambda>q. 1 + 3 * area_pages (areas parent q)) ps) \<le> free_count (pmem parent)"
  obtains child where "mm_init kpt mm parent = (mm, child)" "areas child = areas parent" "start_brk child = start_brk parent" "brk child = brk parent"
    "pagetable child \<notin> U" "space_inv child []" "\<And>x. leaf (cells (pmem child)) 2 (pagetable child) x = leaf (cells (pmem parent)) 2 kpt x"
    "dup_inv (cells (pmem child)) (bytes (pmem child)) (insert (pagetable child) U) (pagetable child) (- kids (cells (pmem parent)) kpt) (pmem child) (insert (pagetable child) U)"
    "\<And>x. PGROUNDDOWN x \<in> U \<Longrightarrow> cells (pmem child) x = cells (pmem parent) x"
    "\<And>p y. p \<in> U \<Longrightarrow> y \<in> page_bytes p \<Longrightarrow> bytes (pmem child) y = bytes (pmem parent) y"
    "to_copy (cells (pmem child)) (insert (pagetable child) U) (pagetable parent) (- kids (cells (pmem parent)) kpt) [] ps child"
proof -
  let ?m = "pmem parent" and ?old = "pagetable parent"
  have R: "space_inv parent ps" "vm_inv kpt ?m U" "vm_inv ?old ?m U" "\<forall>q \<in> set ps. vm_end (areas parent q) \<le> MAXVA"
    using rd by (auto simp: fork_ready_def)
  have "0 < free_count ?m" using free by simp
  from copy_kernel_tbl_inv [OF R(2) this] obtain new p where k: "copy_kernel_tbl kpt ?m = (new, p)" "new \<noteq> 0" "new \<notin> U" "vm_inv new p (insert new U)"
    "\<forall>x. PGROUNDDOWN x \<in> U \<longrightarrow> cells p x = cells ?m x" "\<forall>q y. q \<in> U \<longrightarrow> y \<in> page_bytes q \<longrightarrow> bytes p y = bytes ?m y"
    "kids (cells p) new = kids (cells ?m) kpt" "\<forall>x. leaf (cells p) 2 new x = leaf (cells ?m) 2 kpt x" "free_count ?m = Suc (free_count p)" by metis
  let ?child = "parent\<lparr>mmap := 0, pagetable := new, pmem := p\<rparr>" and ?I = "- kids (cells ?m) kpt"
  have O: "ptree (cells ?m) 2 ?old" "tables (cells ?m) 2 ?old \<subseteq> U" using R(3) by (auto simp: vm_inv_def)
  have same: "ptree (cells p) 2 ?old \<and> tables (cells p) 2 ?old = tables (cells ?m) 2 ?old \<and>
      (\<forall>x. desc (cells p) 2 ?old x = desc (cells ?m) 2 ?old x) \<and> (\<forall>x. leaf (cells p) 2 ?old x = leaf (cells ?m) 2 ?old x)"
    using O(2) k(5) by (intro ptree_cong [OF O(1)]) auto
  show thesis
  proof (rule that [of ?child])
    show "mm_init kpt mm parent = (mm, ?child)" using k(1,2) by (simp add: mm_init_def mm_alloc_pgd_def)
    show "space_inv ?child []" by (simp add: space_inv_def chain_def chained_def)
    have "below (cells p) new i = {}" if "i \<in> ?I" for i using that k(7) by (simp add: below_def)
    then show "dup_inv (cells (pmem ?child)) (bytes (pmem ?child)) (insert (pagetable ?child) U) (pagetable ?child) ?I (pmem ?child) (insert (pagetable ?child) U)"
      using k(4) by (simp add: dup_inv_def)
    have "area_ready (cells p) (insert new U) ?old new ?I (vm_start (areas parent q)) (vm_end (areas parent q)) p" if q: "q \<in> set ps" for q
      unfolding area_ready_def
    proof (intro allI impI)
      fix x assume "vm_start (areas parent q) \<le> x \<and> x < vm_end (areas parent q)"
      then have "x \<in> ranges (areas parent) ps" using q by (auto simp: ranges_def area_range_def)
      then have x: "idx 2 x \<in> ?I" "leaf (cells ?m) 2 ?old x \<noteq> 0 \<longrightarrow> PTE2PA (leaf (cells ?m) 2 ?old x) \<in> U"
        using rd by (auto simp: fork_ready_def)
      then have "leaf (cells p) 2 new x = 0" using k(7) unfolding two_levels leaf_Suc by simp
      then show "idx 2 x \<in> ?I \<and> leaf (cells p) 2 new x = 0 \<and>
          (leaf (cells p) 2 ?old x \<noteq> 0 \<longrightarrow> PTE2PA (leaf (cells p) 2 ?old x) \<in> insert new U)"
        using x same by simp
    qed
    then show "to_copy (cells (pmem ?child)) (insert (pagetable ?child) U) ?old ?I [] ps ?child"
      using R(1,4) free k(9) by (auto simp: to_copy_def space_inv_def)
  qed (use k in auto)
qed

text \<open>
  What the copy of \<open>parent\<close> is: \<open>copy\<close> with areas \<open>news\<close>, when the pages in use have grown from \<open>U\<close> to \<open>U'\<close>.
\<close>

definition fork_copy :: "u64 \<Rightarrow> nat list \<Rightarrow> u64 set \<Rightarrow> space \<Rightarrow> nat list \<Rightarrow> u64 set \<Rightarrow> space \<Rightarrow> bool" where
  "fork_copy kpt ps U parent news U' copy \<longleftrightarrow>
     space_inv copy news \<and> list_all2 (\<lambda>n q. same_area (areas copy n) (areas parent q)) news ps \<and>
     start_brk copy = start_brk parent \<and> brk copy = brk parent \<and> vm_inv (pagetable copy) (pmem copy) U' \<and> U \<subseteq> U' \<and>
     (\<forall>x < MAXVA. let e = leaf (cells (pmem parent)) 2 (pagetable parent) x; e' = leaf (cells (pmem copy)) 2 (pagetable copy) x
        in if x \<in> ranges (areas parent) ps \<and> e \<noteq> 0 then copied (bytes (pmem parent)) e (pmem copy) (U' - U) e'
           else e' = leaf (cells (pmem parent)) 2 kpt x) \<and>
     (\<forall>x y. has_page (cells (pmem parent)) (pagetable parent) (ranges (areas parent) ps) x \<and>
        has_page (cells (pmem parent)) (pagetable parent) (ranges (areas parent) ps) y \<and> pn x \<noteq> pn y \<longrightarrow>
        PTE2PA (leaf (cells (pmem copy)) 2 (pagetable copy) x) \<noteq> PTE2PA (leaf (cells (pmem copy)) 2 (pagetable copy) y)) \<and>
     (\<forall>x \<in> set ps. areas copy x = areas parent x) \<and>
     (\<forall>x. leaf (cells (pmem copy)) 2 (pagetable parent) x = leaf (cells (pmem parent)) 2 (pagetable parent) x) \<and>
     (\<forall>p \<in> U. \<forall>y \<in> page_bytes p. bytes (pmem copy) y = bytes (pmem parent) y)"

text \<open>A page taken before for another object belongs to what is new.\<close>

lemma fork_copy_kmalloc:
  assumes "fork_copy kpt ps (insert b U) (parent\<lparr>pmem := m\<rparr>) news U' copy" "cells m = cells (pmem parent)"
    "\<forall>p \<in> U. \<forall>y \<in> page_bytes p. bytes m y = bytes (pmem parent) y" "fork_ready kpt ps U parent"
  shows "fork_copy kpt ps U parent news U' copy"
proof -
  have "copied (bytes (pmem parent)) e (pmem copy) (U' - U) e'"
    if "copied (bytes m) e (pmem copy) (U' - insert b U) e'" "e = leaf (cells (pmem parent)) 2 (pagetable parent) x" "x \<in> ranges (areas parent) ps" "e \<noteq> 0" for e e' x
  proof -
    have "PTE2PA e \<in> U" using assms(4) that(2-4) by (auto simp: fork_ready_def)
    then show ?thesis using that(1) assms(3) by (auto simp: copied_def page_bytes_def)
  qed
  then show ?thesis using assms(1-3) unfolding fork_copy_def Let_def by (auto split: if_splits)
qed

text \<open>The copy once the structure for it has been allocated.\<close>

lemma dup_areas:
  assumes "fork_ready kpt ps U parent" "mm \<noteq> 0" "1 + sum_list (map (\<lambda>q. 1 + 3 * area_pages (areas parent q)) ps) \<le> free_count (pmem parent)"
    "dll (sl_links sl) slob_head []"
  shows "\<exists>c. mm_init kpt mm parent = (mm, c) \<and>
    (if touched (cells (pmem parent)) (pagetable parent) (ranges (areas parent) ps)
     then \<exists>news sl' child U'. dup_mmap_loop (pagetable parent) (mmap parent) sl c = Some (Inr (0, sl', child)) \<and>
       fork_copy kpt ps U parent news U' child \<and> (\<forall>n \<in> set news. held (U' - U) n)
     else dup_mmap_loop (pagetable parent) (mmap parent) sl c = Some (Inl (Panic ''dup_vma: page not present'')))"
proof -
  let ?m = "pmem parent" and ?old = "pagetable parent" and ?R = "ranges (areas parent) ps" and ?I = "- kids (cells (pmem parent)) kpt"
  from fork_begin [OF assms(1-3)] obtain c where c: "mm_init kpt mm parent = (mm, c)" "areas c = areas parent" "start_brk c = start_brk parent" "brk c = brk parent"
    "pagetable c \<notin> U" "space_inv c []" "\<forall>x. leaf (cells (pmem c)) 2 (pagetable c) x = leaf (cells ?m) 2 kpt x"
    "dup_inv (cells (pmem c)) (bytes (pmem c)) (insert (pagetable c) U) (pagetable c) ?I (pmem c) (insert (pagetable c) U)"
    "\<forall>x. PGROUNDDOWN x \<in> U \<longrightarrow> cells (pmem c) x = cells ?m x" "\<forall>p y. p \<in> U \<longrightarrow> y \<in> page_bytes p \<longrightarrow> bytes (pmem c) y = bytes ?m y"
    "to_copy (cells (pmem c)) (insert (pagetable c) U) ?old ?I [] ps c" by metis
  have O: "ptree (cells ?m) 2 ?old" "tables (cells ?m) 2 ?old \<subseteq> U" and ch: "chain parent ([] @ ps)"
    using assms(1) by (auto simp: fork_ready_def vm_inv_def space_inv_def)
  have same: "ptree (cells (pmem c)) 2 ?old \<and> tables (cells (pmem c)) 2 ?old = tables (cells ?m) 2 ?old \<and>
      (\<forall>x. desc (cells (pmem c)) 2 ?old x = desc (cells ?m) 2 ?old x) \<and> (\<forall>x. leaf (cells (pmem c)) 2 ?old x = leaf (cells ?m) 2 ?old x)"
    using O(2) c(9) by (intro ptree_cong [OF O(1)]) auto
  have old: "ptree (cells (pmem c)) 2 ?old" "tables (cells (pmem c)) 2 ?old \<subseteq> insert (pagetable c) U - {pagetable c}" using same O(2) c(5) by auto
  have fl: "follows (areas c) ps (mmap parent)" using chain_follows [OF ch] ch c(2) by (simp add: chain_def chained_def)
  have hl: "\<forall>x \<in> set [] \<union> set ps. held (insert (pagetable c) U) x" using assms(1) by (auto simp: fork_ready_def held_def)
  have to: "touched (cells (pmem c)) ?old ?R = touched (cells ?m) ?old ?R" using same by (simp add: touched_def)
  note lp = dup_mmap_loop_correct [OF c(8) old fl c(6) refl c(11) hl assms(4), unfolded c(2) to]
  have "\<exists>news sl' child U'. dup_mmap_loop ?old (mmap parent) sl c = Some (Inr (0, sl', child)) \<and>
       fork_copy kpt ps U parent news U' child \<and> (\<forall>n \<in> set news. held (U' - U) n)" if "touched (cells ?m) ?old ?R"
  proof -
    from lp [unfolded if_P [OF that]] obtain news sl' st' U' where r: "dup_mmap_loop ?old (mmap parent) sl c = Some (Inr (0, sl', st'))"
        "area_done (cells (pmem c)) (bytes (pmem c)) (insert (pagetable c) U) ?old (pagetable c) ?I ?R (free_count (pmem c)) (pmem c) (insert (pagetable c) U) (pmem st') U'"
        "areas_done [] news ps c st'" "\<forall>n \<in> set news. held (U' - insert (pagetable c) U) n"
      by blast
    have D: "dup_inv (cells (pmem c)) (bytes (pmem c)) (insert (pagetable c) U) (pagetable c) ?I (pmem st') U'" "insert (pagetable c) U \<subseteq> U'"
      "\<forall>p \<in> insert (pagetable c) U. \<forall>y \<in> page_bytes p. bytes (pmem st') y = bytes (pmem c) y"
      "area_copied (cells (pmem c)) (bytes (pmem c)) ?old (pagetable c) ?R (pmem c) (insert (pagetable c) U) (pmem st') U'"
      using r(2) by (auto simp: area_done_def)
    have A: "space_inv st' news" "list_all2 (\<lambda>n q. same_area (areas st' n) (areas parent q)) news ps" "\<forall>x. x \<notin> set news \<longrightarrow> areas st' x = areas parent x"
      "pagetable st' = pagetable c" "start_brk st' = start_brk parent" "brk st' = brk parent" using r(3) c(2-4) by (simp_all add: areas_done_def)
    have hp: "has_page (cells (pmem c)) ?old ?R x \<longleftrightarrow> has_page (cells ?m) ?old ?R x" for x using same by (simp add: has_page_def)
    have cp: "copied (bytes ?m) (leaf (cells ?m) 2 ?old x) (pmem st') (U' - U) (leaf (cells (pmem st')) 2 (pagetable c) x)"
      if x: "x < MAXVA" "has_page (cells ?m) ?old ?R x" for x
    proof -
      have "PTE2PA (leaf (cells ?m) 2 ?old x) \<in> U" using assms(1) x(2) by (auto simp: fork_ready_def has_page_def)
      moreover have "copied (bytes (pmem c)) (leaf (cells ?m) 2 ?old x) (pmem st') (U' - insert (pagetable c) U) (leaf (cells (pmem st')) 2 (pagetable c) x)"
        using area_copiedD(1) [OF D(4) x(1)] x(2) hp same by metis
      ultimately show ?thesis using c(10) by (auto simp: copied_def page_bytes_def)
    qed
    have no: "leaf (cells (pmem st')) 2 (pagetable c) x = leaf (cells ?m) 2 kpt x" if "x < MAXVA" "\<not> has_page (cells ?m) ?old ?R x" for x
      using area_copiedD(2) [OF D(4) that(1)] that(2) hp c(7) by metis
    have dis: "PTE2PA (leaf (cells (pmem st')) 2 (pagetable c) x) \<noteq> PTE2PA (leaf (cells (pmem st')) 2 (pagetable c) y)"
      if "has_page (cells ?m) ?old ?R x" "has_page (cells ?m) ?old ?R y" "pn x \<noteq> pn y" for x y
      using D(4) that unfolding area_copied_def hp by blast
    have nps: "x \<notin> set news" if xp: "x \<in> set ps" for x
    proof
      assume "x \<in> set news"
      then obtain p where p: "p \<in> U' - insert (pagetable c) U" "x \<in> page_bytes p" using r(4) by (auto simp: held_def)
      obtain q where q: "q \<in> U" "x \<in> page_bytes q" using assms(1) xp by (auto simp: fork_ready_def held_def)
      have "4096 dvd unat p" "4096 dvd unat q" using D(1,2) p(1) q(1) by (auto simp: dup_inv_def vm_inv_def intro: pages_aligned)
      then show False using page_bytes_disjoint [of p q] p q by blast
    qed
    have "fork_copy kpt ps U parent news U' st'" unfolding fork_copy_def
    proof (intro conjI)
      show "vm_inv (pagetable st') (pmem st') U'" "U \<subseteq> U'" using D(1,2) A(4) by (auto simp: dup_inv_def)
      show "\<forall>x < MAXVA. let e = leaf (cells ?m) 2 ?old x; e' = leaf (cells (pmem st')) 2 (pagetable st') x
         in if x \<in> ?R \<and> e \<noteq> 0 then copied (bytes ?m) e (pmem st') (U' - U) e' else e' = leaf (cells ?m) 2 kpt x"
        using cp no unfolding A(4) has_page_def Let_def by auto
      show "\<forall>x y. has_page (cells ?m) ?old ?R x \<and> has_page (cells ?m) ?old ?R y \<and> pn x \<noteq> pn y \<longrightarrow>
         PTE2PA (leaf (cells (pmem st')) 2 (pagetable st') x) \<noteq> PTE2PA (leaf (cells (pmem st')) 2 (pagetable st') y)"
        using dis unfolding A(4) by blast
      show "\<forall>x \<in> set ps. areas st' x = areas parent x" using A(3) nps by auto
      show "\<forall>x. leaf (cells (pmem st')) 2 ?old x = leaf (cells ?m) 2 ?old x" using parent_same(2) [OF D(1) old] same by simp
      show "\<forall>p \<in> U. \<forall>y \<in> page_bytes p. bytes (pmem st') y = bytes ?m y" using D(3) c(10) by auto
    qed (rule A(1) A(2) A(5) A(6))+
    moreover have "\<forall>n \<in> set news. held (U' - U) n" using r(4) by (auto intro: held_mono)
    ultimately show ?thesis using r(1) by blast
  qed
  then show ?thesis using lp c(1) by (intro exI [of _ c]) (simp split: if_splits)
qed

text \<open>
  C9: \<^verbatim>\<open>fork\<close>'s copy of an address space, \<^verbatim>\<open>dup_mm\<close>, when there are enough free pages: two for the structure and its root table, and for every area one for its record
  (every small object takes a page of its own, C10) and three for each of its pages. Either the parent has touched every page of its areas for which a last-level table exists; then the copy succeeds. The child has the parent's
  areas in their order, with bounds and flags, in records of its own, and the heap's bounds. An address in an area that the parent has a page for is translated in the
  child to a page of the child's own, with the same flags and the same bytes, different pages to different ones; the others in the areas have no page,
  and outside the areas the child has the translations of the kernel. The parent's areas, translations and the
  bytes of all pages that were in use are as before. Or some page of an area has not been touched although a table for it exists, because a page near it was; then \<^verbatim>\<open>dup_vma_mmap\<close> stops
  the machine with a panic.
\<close>

theorem dup_mm_correct:
  assumes "fork_ready kpt ps U parent" "dll (sl_links sl) slob_head []"
    "2 + sum_list (map (\<lambda>q. 1 + 3 * area_pages (areas parent q)) ps) \<le> free_count (pmem parent)"
  shows "if touched (cells (pmem parent)) (pagetable parent) (ranges (areas parent) ps)
    then \<exists>mm news sl' child U'. dup_mm kpt sl parent = Some (Inr (mm, sl', child)) \<and> mm \<noteq> 0 \<and>
      fork_copy kpt ps U parent news U' child \<and> (\<forall>n \<in> set (mm # news). held (U' - U) n)
    else dup_mm kpt sl parent = Some (Inl (Panic ''dup_vma: page not present''))"
proof -
  have use: "pages_in_use (node (pmem parent)) U" using assms(1) by (simp add: fork_ready_def vm_inv_def)
  have "0 < free_count (pmem parent)" "unat MM_SIZE \<le> 4084" using assms(3) by (simp_all add: MM_SIZE_def)
  from vm_kmalloc_page [OF assms(2) use this] obtain a sl1 m b where
    k: "vm_kmalloc MM_SIZE sl (pmem parent) = Some (Inr (a, sl1, m))" "dll (sl_links sl1) slob_head []" "a \<noteq> 0" "unat a \<in> page_bytes b"
      "b \<notin> U" "pages_in_use (node m) (insert b U)" "cells m = cells (pmem parent)"
      "\<forall>p \<in> U. \<forall>y \<in> page_bytes p. bytes m y = bytes (pmem parent) y \<and> y \<noteq> unat a" "free_count (pmem parent) = Suc (free_count m)"
    by metis
  let ?p = "parent\<lparr>pmem := m\<rparr>"
  have rd: "fork_ready kpt ps (insert b U) ?p" by (rule fork_ready_kmalloc [OF assms(1) k(6,7)])
  have "1 + sum_list (map (\<lambda>q. 1 + 3 * area_pages (areas ?p q)) ps) \<le> free_count (pmem ?p)" using assms(3) k(9) by simp
  moreover have "unat a \<noteq> 0" using k(3) by (simp add: unat_eq_zero)
  ultimately obtain c where c: "mm_init kpt (unat a) ?p = (unat a, c)"
    "if touched (cells (pmem ?p)) (pagetable ?p) (ranges (areas ?p) ps)
     then \<exists>news sl' child U'. dup_mmap_loop (pagetable ?p) (mmap ?p) sl1 c = Some (Inr (0, sl', child)) \<and>
       fork_copy kpt ps (insert b U) ?p news U' child \<and> (\<forall>n \<in> set news. held (U' - insert b U) n)
     else dup_mmap_loop (pagetable ?p) (mmap ?p) sl1 c = Some (Inl (Panic ''dup_vma: page not present''))"
    using dup_areas [OF rd _ _ k(2), of "unat a"] by blast
  have e: "dup_mm kpt sl parent = map_option (\<lambda>r. bindR r (\<lambda>(err, sl, child). Inr (if err \<noteq> 0 then 0 else unat a, sl, child)))
      (dup_mmap_loop (pagetable parent) (mmap parent) sl1 c)"
    using k(1,3) c(1) \<open>unat a \<noteq> 0\<close> by (simp add: dup_mm_def)
  show ?thesis
  proof (cases "touched (cells (pmem parent)) (pagetable parent) (ranges (areas parent) ps)")
    case False
    then show ?thesis using c(2) e by (simp add: k(7))
  next
    case True
    then obtain news sl' child U' where r: "dup_mmap_loop (pagetable parent) (mmap parent) sl1 c = Some (Inr (0, sl', child))"
      "fork_copy kpt ps (insert b U) ?p news U' child" "\<forall>n \<in> set news. held (U' - insert b U) n"
      using c(2) by (auto simp: k(7))
    have "fork_copy kpt ps U parent news U' child" using k(8) by (intro fork_copy_kmalloc [OF r(2) k(7) _ assms(1)]) auto
    moreover have "insert b U \<subseteq> U'" using r(2) by (simp add: fork_copy_def)
    then have "\<forall>n \<in> set (unat a # news). held (U' - U) n" using r(3) held_new [OF k(4,5)] by (auto intro: held_mono)
    ultimately show ?thesis using True r(1) \<open>unat a \<noteq> 0\<close> unfolding e by fastforce
  qed
qed

text \<open>
  A parent with one page: 28 free frames, from which the kernel's table, the parent's table, the page and a page for the record of the area are taken, and the
  page mapped at the start of the program. The area ends at \<open>e\<close>, behind this page or the next.
\<close>

definition fork_boot :: pg_data where
  "fork_boot = fold (\<lambda>b. memblock_free_pages (fst b) (snd b)) [(16, 4), (8, 3), (4, 2)] (init_zone_free_area_list small_node)"

lemma fork_boot_use: "pages_in_use fork_boot {}" "card (free_frames fork_boot) = 28"
proof -
  let ?m = "init_zone_free_area_list small_node" and ?bs = "[(16, 4), (8, 3), (4, 2)] :: (nat \<times> nat) list"
  have bl: "\<And>b. b \<in> set ?bs \<Longrightarrow> aligned b" "disjoint_blocks (set ?bs)" "distinct ?bs"
    by (auto simp: aligned_def MAX_ORDER_def disjoint_blocks_def frames_def)
  note init = init_inv [of small_node "set ?bs", OF small_blocks(1) bl(1,2)]
  have co: "coalesced ?m" by (simp only: coalesced_def init(2) ball_empty)
  note boot = boot_blocks [OF init(1) bl(3) co, of fork_boot]
  have bf: "block_frames (set ?bs) = {4 ..< 32}" by (auto simp: block_frames_def frames_def)
  have "alloc_inv fork_boot {}" "free_frames fork_boot = {4 ..< 32}"
    using boot init(2) bf by (simp_all add: fork_boot_def alloc_inv_def free_frames_def block_frames_def)
  then show "pages_in_use fork_boot {}" "card (free_frames fork_boot) = 28"
    by (auto simp: pages_in_use_def page_blocks_def intro!: exI [of _ "{}"])
qed

definition fork_space :: "u64 \<Rightarrow> nat \<Rightarrow> u64 \<Rightarrow> vm \<Rightarrow> space" where
  "fork_space e q t m =
     \<lparr>areas = (\<lambda>_. \<lparr>vm_start = 0, vm_end = 0, vm_next = 0, vm_prev = 0, vm_pgoff = 0, vm_flags = 0\<rparr>)
       (q := \<lparr>vm_start = 0x1000000000, vm_end = e, vm_next = 0, vm_prev = 0, vm_pgoff = 0, vm_flags = VM_EXEC OR VM_READ\<rparr>),
      mmap = q, start_brk = USER_MEM_START, brk = USER_MEM_START, pagetable = t, freed = [], pmem = m\<rparr>"

lemma desc_near: "desc c l t va \<noteq> None \<Longrightarrow> \<forall>j. 0 < j \<and> j \<le> l \<longrightarrow> idx j x = idx j va \<Longrightarrow> desc c l t x \<noteq> None"
proof (induction l arbitrary: t)
  case (Suc l)
  then have "idx (Suc l) x = idx (Suc l) va" by simp
  then show ?case using Suc by (auto simp: desc_Suc simp del: desc.simps split: if_splits)
qed simp

lemma fork_space_ready:
  obtains kpt old q st U where "\<forall>e \<in> {0x1000001000, 0x1000002000}. fork_ready kpt [q] U (fork_space e q old st)" "9 \<le> free_count st"
    "\<forall>x < MAXVA. leaf (cells st) 2 old x \<noteq> 0 \<longleftrightarrow> pn x = 0x1000000" "desc (cells st) 2 old 0x1000001000 \<noteq> None"
proof -
  let ?s0 = "\<lparr>node = fork_boot, cells = \<lambda>_. 0, bytes = of_nat\<rparr> :: vm" and ?va = "0x1000000000 :: u64" and ?fl = "PTE_R OR PTE_U"
  obtain k s1 where k: "alloc_page ?s0 = (k, s1)" by fastforce
  obtain r s1' where r: "alloc_page s1 = (r, s1')" by fastforce
  obtain t s2 where t: "alloc_page s1' = (t, s2)" by fastforce
  obtain d s3 where d: "alloc_page s2 = (d, s3)" by fastforce
  have u0: "pages_in_use (node ?s0) {}" "0 < free_count ?s0" using fork_boot_use by simp_all
  note ek = alloc_page_enough [OF u0(1) k u0(2)] note fk = alloc_page_fresh [OF k u0(1) ek(1)]
  have f1: "free_count s1 = 27" using ek(2) fork_boot_use(2) by simp
  then have "0 < free_count s1" by simp
  note er = alloc_page_enough [OF fk(4) r this] note fr = alloc_page_fresh [OF r fk(4) er(1)]
  have fr1: "free_count s1' = 26" using er(2) f1 by simp
  then have "0 < free_count s1'" by simp
  note et = alloc_page_enough [OF fr(4) t this] note ft = alloc_page_fresh [OF t fr(4) et(1)]
  have f2: "free_count s2 = 25" using et(2) fr1 by simp
  then have "0 < free_count s2" by simp
  note ed = alloc_page_enough [OF ft(4) d this] note fd = alloc_page_fresh [OF d ft(4) ed(1)]
  have f3: "free_count s3 = 24" using ed(2) f2 by simp
  have c: "cells s3 = (\<lambda>_. 0)" using fk(6) fr(6) ft(6) fd(6) by simp
  have tree: "ptree (\<lambda>_. 0) 2 p \<and> tables (\<lambda>_. 0) 2 p = {p}" if "PGROUNDDOWN p = p" for p using fresh_tree [OF that, of "\<lambda>_. 0" 2] by blast
  have inv: "dup_inv (\<lambda>_. 0) (bytes s3) {t, r, k} t UNIV s3 (insert d {t, r, k})"
    using tree [OF ft(3)] fd(4) by (simp add: dup_inv_def vm_inv_def c below_def kids_def)
  have vt: "vm_inv t s3 (insert d {t, r, k})" using inv by (simp add: dup_inv_def)
  have va: "PGROUNDDOWN ?va = ?va" by code_simp
  have mx: "?va < MAXVA" by (simp add: MAXVA_def)
  have z3: "leaf (cells s3) 2 t x = 0" for x unfolding c two_levels leaf_Suc by (simp add: kids_def)
  from mappages_enough [OF vt va mx z3, of d ?fl] obtain s4 where
    m: "mappages t ?va PGSIZE d ?fl s3 = Inr (0, s4)" "free_count s3 \<le> free_count s4 + 2" using f3 by auto
  obtain U where U: "dup_inv (\<lambda>_. 0) (bytes s3) {t, r, k} t UNIV s4 U" "insert d {t, r, k} \<subseteq> U"
    "\<forall>x < MAXVA. leaf (cells s4) 2 t x = (if pn x = pn ?va then PA2PTE d OR ?fl OR PTE_V else leaf (cells s3) 2 t x)"
    using map_fresh_page [OF inv m(1) va mx] by (metis UNIV_I)
  have tk: "t \<noteq> k" using ft(1) by auto
  have z: "cells s4 x = 0" if "PGROUNDDOWN x = k" for x using U(1) that tk by (auto simp: dup_inv_def)
  have kk: "kids (cells s4) k = {}" using z entry_addr_page [OF fk(3)] by (auto simp: kids_def)
  have vk: "vm_inv k s4 U" using fresh_tree [OF fk(3), of "cells s4" 2] z U(1,2) by (auto simp: vm_inv_def dup_inv_def)
  have e: "PA2PTE d OR ?fl OR PTE_V = PA2PTE d OR PTE_FLAGS (?fl OR PTE_V) OR PTE_V"
    by (simp add: PTE_FLAGS_def PTE_R_def PTE_U_def PTE_V_def)
  have pd: "PTE2PA (PA2PTE d OR ?fl OR PTE_V) = d"
    unfolding e by (rule dup_entry(1) [OF fd(3)]) (simp add: PTE_R_def PTE_U_def PTE_V_def)
  have nz: "PA2PTE d OR ?fl OR PTE_V \<noteq> 0" using valid_or_V [of "PA2PTE d OR ?fl"] by (auto simp: or.assoc)
  have lf: "leaf (cells s4) 2 t x = (if pn x = 0x1000000 then PA2PTE d OR ?fl OR PTE_V else 0)" if "x < MAXVA" for x
    using U(3) that z3 by (simp add: pn_def)
  have "leaf (cells s4) 2 t ?va \<noteq> 0" using lf [OF mx] nz by (simp add: pn_def)
  then have "desc (cells s4) 2 t ?va \<noteq> None" by (auto simp: leaf_def split: option.splits)
  moreover have "\<forall>j. 0 < j \<and> j \<le> 2 \<longrightarrow> idx j 0x1000001000 = idx j ?va"
  proof (intro allI impI)
    fix j :: nat assume "0 < j \<and> j \<le> 2"
    then have "j = 1 \<or> j = 2" by auto
    then show "idx j 0x1000001000 = idx j ?va" by (elim disjE) (simp only:, code_simp)+
  qed
  ultimately have ds: "desc (cells s4) 2 t 0x1000001000 \<noteq> None" by (rule desc_near)
  define q where "q = unat r + 8"
  have "q \<in> page_bytes r" "r \<in> U" using U(2) by (auto simp: q_def page_bytes_def)
  then have q: "q \<noteq> 0" "held U q" by (auto simp: q_def held_def)
  have "fork_ready k [q] U (fork_space e q t s4)" if e: "e \<in> {0x1000001000, 0x1000002000}" for e
    unfolding fork_ready_def
  proof (intro conjI)
    show "space_inv (fork_space e q t s4) [q]"
      using e q(1) by (auto simp: space_inv_def chain_def chained_def fork_space_def area_ok_def PGSIZE_def)
    show "vm_inv k (pmem (fork_space e q t s4)) U" "vm_inv (pagetable (fork_space e q t s4)) (pmem (fork_space e q t s4)) U"
      using vk U(1) by (simp_all add: fork_space_def dup_inv_def)
    have em: "e \<le> MAXVA" using e by (auto simp: MAXVA_def)
    then show "\<forall>x \<in> set [q]. vm_end (areas (fork_space e q t s4) x) \<le> MAXVA \<and> held U x" using q(2) by (simp add: fork_space_def)
    show "\<forall>x \<in> ranges (areas (fork_space e q t s4)) [q]. idx 2 x \<notin> kids (cells (pmem (fork_space e q t s4))) k \<and>
        (leaf (cells (pmem (fork_space e q t s4))) 2 (pagetable (fork_space e q t s4)) x \<noteq> 0 \<longrightarrow>
           PTE2PA (leaf (cells (pmem (fork_space e q t s4))) 2 (pagetable (fork_space e q t s4)) x) \<in> U)"
    proof
      fix x assume "x \<in> ranges (areas (fork_space e q t s4)) [q]"
      then have "x < MAXVA" using em by (auto simp: ranges_def area_range_def fork_space_def)
      then show "idx 2 x \<notin> kids (cells (pmem (fork_space e q t s4))) k \<and>
        (leaf (cells (pmem (fork_space e q t s4))) 2 (pagetable (fork_space e q t s4)) x \<noteq> 0 \<longrightarrow>
           PTE2PA (leaf (cells (pmem (fork_space e q t s4))) 2 (pagetable (fork_space e q t s4)) x) \<in> U)"
        using lf [of x] pd U(2) kk by (auto simp: fork_space_def split: if_splits)
    qed
  qed
  moreover have "leaf (cells s4) 2 t x \<noteq> 0 \<longleftrightarrow> pn x = 0x1000000" if "x < MAXVA" for x using lf [OF that] nz by simp
  ultimately show thesis using ds m(2) f3 by (intro that [of k q U t s4]) auto
qed

theorem dup_mm_correct_witness:
  "\<exists>kpt old q st. (\<exists>mm n sl' child P. dup_mm kpt small_slab (fork_space 0x1000001000 q old st) = Some (Inr (mm, sl', child)) \<and>
      space_inv child [n] \<and> vm_start (areas child n) = 0x1000000000 \<and>
      copied (bytes st) (leaf (cells st) 2 old 0x1000000000) (pmem child) P (leaf (cells (pmem child)) 2 (pagetable child) 0x1000000000)) \<and>
    dup_mm kpt small_slab (fork_space 0x1000002000 q old st) = Some (Inl (Panic ''dup_vma: page not present''))"
proof -
  obtain kpt old q st U where r: "\<forall>e \<in> {0x1000001000, 0x1000002000}. fork_ready kpt [q] U (fork_space e q old st)" "9 \<le> free_count st"
    "\<forall>x < MAXVA. leaf (cells st) 2 old x \<noteq> 0 \<longleftrightarrow> pn x = 0x1000000" "desc (cells st) 2 old 0x1000001000 \<noteq> None"
    by (rule fork_space_ready)
  have sl: "dll (sl_links small_slab) slob_head []" by (rule slab_inv_parts(4) [OF small_slab_inv])
  have rg: "ranges (areas (fork_space e q old st)) [q] = {0x1000000000 ..< e}" for e by (simp add: ranges_def area_range_def fork_space_def)
  let ?p = "fork_space 0x1000001000 q old st"
  have first: "0x1000000000 \<in> {0x1000000000 ..< 0x1000001000 :: u64}" by simp
  have pg: "pn x = 0x1000000" "x < MAXVA" if "x \<in> {0x1000000000 ..< 0x1000001000}" for x
  proof -
    have "0x1000000000 \<le> unat x" "unat x < 0x1000001000" using that by (simp_all add: word_le_nat_alt word_less_nat_alt)
    then show "pn x = 0x1000000" "x < MAXVA" by (auto simp: pn_def word_less_nat_alt MAXVA_def)
  qed
  then have "touched (cells (pmem ?p)) (pagetable ?p) (ranges (areas ?p) [q])" using r(3) unfolding touched_def rg by (simp add: fork_space_def)
  moreover have "2 + sum_list (map (\<lambda>q. 1 + 3 * area_pages (areas ?p q)) [q]) \<le> free_count (pmem ?p)" using r(2) by (simp add: fork_space_def area_pages_def)
  ultimately obtain mm news sl' child U' where c: "dup_mm kpt small_slab ?p = Some (Inr (mm, sl', child))" "fork_copy kpt [q] U ?p news U' child"
    using dup_mm_correct [of kpt "[q]" U ?p small_slab] r(1) sl by (auto split: if_splits)
  then obtain n where n: "news = [n]" "same_area (areas child n) (areas ?p q)" "space_inv child [n]"
    by (auto simp: fork_copy_def list_all2_Cons2)
  have "0x1000000000 \<in> ranges (areas ?p) [q]" "(0x1000000000 :: u64) < MAXVA" "leaf (cells st) 2 old 0x1000000000 \<noteq> 0"
    using r(3) pg [OF first] unfolding rg by simp_all
  then have "copied (bytes st) (leaf (cells st) 2 old 0x1000000000) (pmem child) (U' - U) (leaf (cells (pmem child)) 2 (pagetable child) 0x1000000000)"
    using c(2) unfolding fork_copy_def Let_def by (auto simp: fork_space_def)
  moreover have "vm_start (areas child n) = 0x1000000000" using n(2) by (simp add: same_area_def fork_space_def)
  moreover have "dup_mm kpt small_slab (fork_space 0x1000002000 q old st) = Some (Inl (Panic ''dup_vma: page not present''))"
  proof -
    let ?p = "fork_space 0x1000002000 q old st"
    have "0x1000001000 \<in> ranges (areas ?p) [q]" unfolding rg by simp
    moreover have "leaf (cells st) 2 old 0x1000001000 = 0" using r(3) [rule_format, of "0x1000001000"] by (simp add: pn_def MAXVA_def)
    ultimately have "\<not> touched (cells (pmem ?p)) (pagetable ?p) (ranges (areas ?p) [q])" using r(4) by (auto simp: touched_def fork_space_def)
    moreover have "2 + sum_list (map (\<lambda>q. 1 + 3 * area_pages (areas ?p q)) [q]) \<le> free_count (pmem ?p)" using r(2) by (simp add: fork_space_def area_pages_def)
    ultimately show ?thesis using dup_mm_correct [of kpt "[q]" U ?p small_slab] r(1) sl by (auto split: if_splits)
  qed
  ultimately show ?thesis using c(1) n(3) by blast
qed

end
