(* ===== verification/Umalloc.thy ===== *)
theory Umalloc
  imports Chains
begin

text \<open>
  The heap of user programs, \<^verbatim>\<open>user/umalloc.c\<close>: memory is taken from the kernel in large pieces and cut into blocks, each with a header; the free blocks
  are a doubly linked list in the order of their addresses. The headers are a store by address, addresses are
  naturals. The system calls \<^verbatim>\<open>sbrk\<close> and \<^verbatim>\<open>brk\<close> are arguments, on a state \<open>'k\<close> of the kernel; \<open>None\<close> is a call that does not
  return. What they promise is the locale \<open>break_memory\<close>. Messages, the contents of blocks and with them \<^verbatim>\<open>calloc\<close> and \<^verbatim>\<open>realloc\<close> are left out.
\<close>

section \<open>The code\<close>

record block =
  b_prev :: nat
  b_next :: nat
  b_size :: u32

record 'k uheap =
  blocks :: "nat \<Rightarrow> block"
  block_head :: nat
  kern :: 'k

definition BLOCK_META_SIZE :: nat where "BLOCK_META_SIZE = 24"
definition ALLOC_UNIT :: u64 where "ALLOC_UNIT = 4096 * 3"
definition MIN_DEALLOC :: u64 where "MIN_DEALLOC = 4096"

definition PAGE_UP :: "u64 \<Rightarrow> u64" where "PAGE_UP sz = (sz + MIN_DEALLOC - 1) AND NOT (MIN_DEALLOC - 1)"

definition upd_block :: "nat \<Rightarrow> (block \<Rightarrow> block) \<Rightarrow> 'k uheap \<Rightarrow> 'k uheap" where
  "upd_block b f st = st\<lparr>blocks := (blocks st)(b := f (blocks st b))\<rparr>"

text \<open>The size of a block in an expression of type \<^verbatim>\<open>unsigned long\<close>.\<close>

definition lsize :: "'k uheap \<Rightarrow> nat \<Rightarrow> u64" where "lsize st b = scast (b_size (blocks st b))"

text \<open>The new block, 0 when what is left over is too small.\<close>

definition split_block :: "nat \<Rightarrow> u64 \<Rightarrow> 'k uheap \<Rightarrow> nat \<times> 'k uheap" where
  "split_block b sz st =
     (let newb = b + BLOCK_META_SIZE + unat sz;
          fsize = ucast (lsize st b - sz - of_nat BLOCK_META_SIZE) :: u32
      in if sint fsize \<le> 0 then (0, st)
         else let st = upd_block newb (\<lambda>_. \<lparr>b_prev = 0, b_next = 0, b_size = fsize\<rparr>) st;
                  st = upd_block b (\<lambda>x. x\<lparr>b_size := ucast sz\<rparr>) st
              in (newb, st))"

partial_function (option) add_loop :: "nat \<Rightarrow> nat \<Rightarrow> 'k uheap \<Rightarrow> 'k uheap option" where
  "add_loop ptr freeb st =
     (if ptr = 0 then Some st
      else let nx = b_next (blocks st ptr)
           in if nx \<noteq> 0 \<and> nx > freeb
              then let st = upd_block nx (\<lambda>x. x\<lparr>b_prev := freeb\<rparr>) st;
                       st = upd_block freeb (\<lambda>x. x\<lparr>b_next := nx, b_prev := ptr\<rparr>) st
                   in Some (upd_block ptr (\<lambda>x. x\<lparr>b_next := freeb\<rparr>) st)
              else if nx = 0
              then Some (upd_block freeb (\<lambda>x. x\<lparr>b_prev := ptr\<rparr>) (upd_block ptr (\<lambda>x. x\<lparr>b_next := freeb\<rparr>) st))
              else add_loop nx freeb st)"

definition add_to_freelist :: "nat \<Rightarrow> 'k uheap \<Rightarrow> 'k uheap option" where
  "add_to_freelist freeb st =
     (let st = upd_block freeb (\<lambda>x. x\<lparr>b_next := 0, b_prev := 0\<rparr>) st
      in if block_head st = 0 then Some (st\<lparr>block_head := freeb\<rparr>)
         else if freeb \<le> block_head st
         then let st = upd_block freeb (\<lambda>x. x\<lparr>b_next := block_head st\<rparr>) st;
                  st = upd_block (block_head st) (\<lambda>x. x\<lparr>b_prev := freeb\<rparr>) st
              in Some (st\<lparr>block_head := freeb\<rparr>)
         else add_loop (block_head st) freeb st)"

definition remove_from_freelist :: "nat \<Rightarrow> 'k uheap \<Rightarrow> 'k uheap" where
  "remove_from_freelist b st =
     (let p = b_prev (blocks st b); q = b_next (blocks st b);
          st = (if p = 0 then st\<lparr>block_head := q\<rparr> else upd_block p (\<lambda>x. x\<lparr>b_next := q\<rparr>) st)
      in if q \<noteq> 0 then upd_block q (\<lambda>x. x\<lparr>b_prev := p\<rparr>) st else st)"

text \<open>The first free block that is large enough, 0 when there is none.\<close>

partial_function (option) find_fit :: "nat \<Rightarrow> u64 \<Rightarrow> 'k uheap \<Rightarrow> nat option" where
  "find_fit ptr sz st =
     (if ptr = 0 then Some 0
      else if lsize st ptr \<ge> sz then Some ptr
      else find_fit (b_next (blocks st ptr)) sz st)"

definition add_rest :: "nat \<times> 'k uheap \<Rightarrow> 'k uheap option" where
  "add_rest = (\<lambda>(newb, st). if newb \<noteq> 0 then add_to_freelist newb st else Some st)"

definition alloc_size :: "u64 \<Rightarrow> u64" where
  "alloc_size sz = (if sz \<ge> ALLOC_UNIT then PAGE_UP (sz + of_nat BLOCK_META_SIZE) else ALLOC_UNIT)"

definition malloc :: "(u64 \<Rightarrow> 'k \<Rightarrow> (u64 \<times> 'k) option) \<Rightarrow> u64 \<Rightarrow> 'k uheap \<Rightarrow> (nat \<times> 'k uheap) option" where
  "malloc sbrk sz st =
     (case find_fit (block_head st) sz st of
        None \<Rightarrow> None
      | Some ptr \<Rightarrow>
          if ptr \<noteq> 0
          then let st = remove_from_freelist ptr st
               in if lsize st ptr = sz then Some (ptr + BLOCK_META_SIZE, st)
                  else map_option (\<lambda>st. (ptr + BLOCK_META_SIZE, st)) (add_rest (split_block ptr sz st))
          else case sbrk (alloc_size sz) (kern st) of
                 None \<Rightarrow> None
               | Some (p, k) \<Rightarrow>
                   let st = st\<lparr>kern := k\<rparr>; ptr = unat p
                   in if ptr = 0 then Some (0, st)
                      else let st = upd_block ptr (\<lambda>_. \<lparr>b_prev = 0, b_next = 0, b_size = ucast (alloc_size sz - of_nat BLOCK_META_SIZE)\<rparr>) st
                           in map_option (\<lambda>st. (ptr + BLOCK_META_SIZE, st))
                                (if alloc_size sz > sz + of_nat BLOCK_META_SIZE then add_rest (split_block ptr sz st) else Some st))"

partial_function (option) merge_loop :: "nat \<Rightarrow> 'k uheap \<Rightarrow> 'k uheap option" where
  "merge_loop c st =
     (let nx = b_next (blocks st c)
      in if nx = 0 then Some st
         else if of_nat c + of_nat BLOCK_META_SIZE + lsize st c = (of_nat nx :: u64)
         then let st = upd_block c (\<lambda>x. x\<lparr>b_size := b_size x + b_size (blocks st nx) + of_nat BLOCK_META_SIZE\<rparr>) st;
                  tb = b_next (blocks st nx)
              in if tb \<noteq> 0
                 then let st = upd_block tb (\<lambda>x. x\<lparr>b_prev := c\<rparr>) (upd_block c (\<lambda>x. x\<lparr>b_next := tb\<rparr>) st)
                      in merge_loop (block_head st) st
                 else Some (upd_block c (\<lambda>x. x\<lparr>b_next := 0\<rparr>) st)
         else merge_loop nx st)"

partial_function (option) last_block :: "nat \<Rightarrow> 'k uheap \<Rightarrow> nat option" where
  "last_block c st = (if b_next (blocks st c) = 0 then Some c else last_block (b_next (blocks st c)) st)"

definition set_break :: "(u64 \<Rightarrow> 'k \<Rightarrow> (bool \<times> 'k) option) \<Rightarrow> u64 \<Rightarrow> 'k uheap \<Rightarrow> 'k uheap option" where
  "set_break brk a st = map_option (\<lambda>(_, k). st\<lparr>kern := k\<rparr>) (brk a (kern st))"

text \<open>What is given back to the kernel of the last free block \<open>c\<close>.\<close>

definition trim :: "(u64 \<Rightarrow> 'k \<Rightarrow> (bool \<times> 'k) option) \<Rightarrow> nat \<Rightarrow> u64 \<Rightarrow> 'k uheap \<Rightarrow> 'k uheap option" where
  "trim brk c pb st =
     (let total = lsize st c + of_nat BLOCK_META_SIZE; curr_addr = of_nat c :: u64
      in if curr_addr + total = pb \<and> total \<ge> MIN_DEALLOC
         then if curr_addr AND (MIN_DEALLOC - 1) = 0
              then let st = remove_from_freelist c st;
                       st = (if c = block_head st then st\<lparr>block_head := 0\<rparr> else st)
                   in set_break brk curr_addr st
              else let count = ucast (total div MIN_DEALLOC) :: u32; remainder = ucast (total mod MIN_DEALLOC) :: u32;
                       small = (scast remainder :: u64) \<le> of_nat BLOCK_META_SIZE
                   in if small \<and> count = 1 then Some st
                      else if sint count > 1 \<and> small
                      then set_break brk (PAGE_UP curr_addr) (upd_block c (\<lambda>x. x\<lparr>b_size := b_size x - (count - 1) * ucast MIN_DEALLOC\<rparr>) st)
                      else if sint count > 1 \<and> \<not> small
                      then set_break brk (PAGE_UP curr_addr) (upd_block c (\<lambda>x. x\<lparr>b_size := b_size x - count * ucast MIN_DEALLOC\<rparr>) st)
                      else Some st
         else Some st)"

definition scan_and_merge :: "(u64 \<Rightarrow> 'k \<Rightarrow> (u64 \<times> 'k) option) \<Rightarrow> (u64 \<Rightarrow> 'k \<Rightarrow> (bool \<times> 'k) option) \<Rightarrow> 'k uheap \<Rightarrow> 'k uheap option" where
  "scan_and_merge sbrk brk st =
     (case merge_loop (block_head st) st of
        None \<Rightarrow> None
      | Some st \<Rightarrow>
          (case sbrk 0 (kern st) of
             None \<Rightarrow> None
           | Some (pb, k) \<Rightarrow>
               let st = st\<lparr>kern := k\<rparr>
               in if pb = 0 then Some st
                  else case last_block (block_head st) st of None \<Rightarrow> None | Some c \<Rightarrow> trim brk c pb st))"

definition free :: "(u64 \<Rightarrow> 'k \<Rightarrow> (u64 \<times> 'k) option) \<Rightarrow> (u64 \<Rightarrow> 'k \<Rightarrow> (bool \<times> 'k) option) \<Rightarrow> nat \<Rightarrow> 'k uheap \<Rightarrow> 'k uheap option" where
  "free sbrk brk addr st =
     (case add_to_freelist (addr - BLOCK_META_SIZE) st of None \<Rightarrow> None | Some st \<Rightarrow> scan_and_merge sbrk brk st)"

definition cleanup :: "(u64 \<Rightarrow> 'k \<Rightarrow> (bool \<times> 'k) option) \<Rightarrow> 'k uheap \<Rightarrow> 'k uheap option" where
  "cleanup brk st =
     map_option (\<lambda>st. st\<lparr>block_head := 0\<rparr>) (if block_head st \<noteq> 0 then set_break brk (of_nat (block_head st)) st else Some st)"

section \<open>The invariant\<close>

abbreviation bnext :: "'k uheap \<Rightarrow> nat \<Rightarrow> nat" where "bnext st x \<equiv> b_next (blocks st x)"
abbreviation bprev :: "'k uheap \<Rightarrow> nat \<Rightarrow> nat" where "bprev st x \<equiv> b_prev (blocks st x)"

definition bsize :: "'k uheap \<Rightarrow> nat \<Rightarrow> nat" where "bsize st b = unat (b_size (blocks st b))"

definition bend :: "'k uheap \<Rightarrow> nat \<Rightarrow> nat" where "bend st b = b + BLOCK_META_SIZE + bsize st b"

text \<open>Blocks of \<open>S\<close> do not overlap.\<close>

definition apart :: "'k uheap \<Rightarrow> nat set \<Rightarrow> bool" where "apart st S \<longleftrightarrow> (\<forall>a \<in> S. \<forall>b \<in> S. a < b \<longrightarrow> bend st a \<le> b)"

text \<open>Free blocks \<open>fs\<close> in order and blocks \<open>L\<close> in use, between \<open>lo\<close> and \<open>hi\<close>, a heap of less than 2 GB since sizes are of type \<^verbatim>\<open>int\<close>.\<close>

definition heap_ok :: "nat \<Rightarrow> nat \<Rightarrow> 'k uheap \<Rightarrow> nat list \<Rightarrow> nat set \<Rightarrow> bool" where
  "heap_ok lo hi st fs L \<longleftrightarrow>
     chained (bnext st) (bprev st) (block_head st) fs \<and> sorted_wrt (<) fs \<and> set fs \<inter> L = {} \<and> apart st (set fs \<union> L) \<and>
     (\<forall>b \<in> set fs \<union> L. lo \<le> b \<and> bend st b \<le> hi \<and> bsize st b < 2 ^ 31) \<and> 0 < lo \<and> lo \<le> hi \<and> hi < 2 ^ 64 \<and> hi < lo + 2 ^ 31"

section \<open>Lists of free blocks\<close>

text \<open>The operations on the list keep the sizes and the kernel.\<close>

definition sized_alike :: "'k uheap \<Rightarrow> 'k uheap \<Rightarrow> bool" where
  "sized_alike st' st \<longleftrightarrow> (\<forall>x. b_size (blocks st' x) = b_size (blocks st x)) \<and> kern st' = kern st"

lemma sized_alikeD: "sized_alike st' st \<Longrightarrow> bsize st' x = bsize st x" "sized_alike st' st \<Longrightarrow> bend st' x = bend st x"
  "sized_alike st' st \<Longrightarrow> lsize st' x = lsize st x" "sized_alike st' st \<Longrightarrow> apart st' S = apart st S" "sized_alike st' st \<Longrightarrow> kern st' = kern st"
  by (simp_all add: sized_alike_def bsize_def bend_def lsize_def apart_def)

lemma remove_from_freelist_chained:
  assumes "chained (bnext st) (bprev st) (block_head st) (xs @ v # ys)"
  shows "chained (bnext (remove_from_freelist v st)) (bprev (remove_from_freelist v st)) (block_head (remove_from_freelist v st)) (xs @ ys)"
    "sized_alike (remove_from_freelist v st) st"
proof -
  note c = chained_at [OF assms]
  show "chained (bnext (remove_from_freelist v st)) (bprev (remove_from_freelist v st)) (block_head (remove_from_freelist v st)) (xs @ ys)"
    by (rule chained_remove [OF assms refl refl]) (use c in \<open>auto simp: remove_from_freelist_def upd_block_def Let_def\<close>)
  show "sized_alike (remove_from_freelist v st) st" by (simp add: sized_alike_def remove_from_freelist_def upd_block_def Let_def)
qed

lemma add_loop_links:
  assumes "chained (bnext st) (bprev st) (block_head st) (us @ ptr # xs @ ys)" "\<forall>x \<in> set xs. x < f" "\<forall>y \<in> set ys. f < y"
    "bnext st f = 0" "f \<notin> set (us @ ptr # xs @ ys)" "p = last (ptr # xs)" "q = hd (ys @ [0])"
  shows "\<exists>st'. add_loop ptr f st = Some st' \<and> sized_alike st' st \<and> block_head st' = block_head st \<and>
    (\<forall>x. bnext st' x = (if x = p then f else if x = f then q else bnext st x)) \<and>
    (\<forall>x. x \<noteq> 0 \<longrightarrow> bprev st' x = (if x = q then f else if x = f then p else bprev st x))"
  using assms
proof (induction xs arbitrary: us ptr)
  case Nil
  note c = chained_at [OF Nil.prems(1)]
  have "bnext st ptr = q" using c(3) Nil.prems(7) by simp
  moreover have "q \<noteq> 0 \<Longrightarrow> f < q \<and> q \<noteq> ptr" using Nil.prems(1,3,7) by (cases ys) (auto simp: chained_def)
  moreover have "p = ptr" "ptr \<noteq> f" using Nil.prems(5,6) by auto
  ultimately show ?case using c(1) Nil.prems(4)
    by (subst add_loop.simps) (auto simp: Let_def upd_block_def sized_alike_def fun_eq_iff)
next
  case (Cons x xs)
  note c = chained_at [OF Cons.prems(1)]
  have x: "x \<noteq> 0" "x < f" using Cons.prems(1,2) by (auto simp: chained_def)
  have "add_loop ptr f st = add_loop x f st" using c x by (subst add_loop.simps) (auto simp: Let_def)
  then show ?case using Cons.IH [of "us @ [ptr]" x] Cons.prems by simp
qed

lemma add_to_freelist_chained:
  assumes "chained (bnext st) (bprev st) (block_head st) (xs @ ys)" "\<forall>x \<in> set xs. x < f" "\<forall>y \<in> set ys. f < y" "f \<noteq> 0"
  shows "\<exists>st'. add_to_freelist f st = Some st' \<and> sized_alike st' st \<and> chained (bnext st') (bprev st') (block_head st') (xs @ f # ys)"
proof -
  define st1 where "st1 = upd_block f (\<lambda>x. x\<lparr>b_next := 0, b_prev := 0\<rparr>) st"
  have f: "f \<notin> set (xs @ ys)" using assms(2,3) by auto
  have s1: "sized_alike st1 st" "block_head st1 = block_head st" "bnext st1 f = 0" "bprev st1 f = 0" by (simp_all add: st1_def upd_block_def sized_alike_def)
  have c1: "chained (bnext st1) (bprev st1) (block_head st1) (xs @ ys)" unfolding s1(2)
    by (rule chained_cong [OF assms(1)]) (use f in \<open>auto simp: st1_def upd_block_def\<close>)
  have h: "block_head st1 = hd ((xs @ ys) @ [0])" "0 \<notin> set (xs @ ys)" using c1 by (simp_all add: chained_def)
  show ?thesis
  proof (cases xs)
    case Nil
    have hd: "block_head st1 = hd (ys @ [0])" using h Nil by simp
    have "ys \<noteq> [] \<Longrightarrow> f \<le> hd (ys @ [0]) \<and> hd (ys @ [0]) \<noteq> 0 \<and> hd (ys @ [0]) \<noteq> f" using assms(3) h(2) by (cases ys) auto
    then obtain st' where st': "add_to_freelist f st = Some st'" "sized_alike st' st1" "block_head st' = f" "\<And>x. bnext st' x = (if x = f then hd (ys @ [0]) else bnext st1 x)"
      "\<And>x. x \<noteq> 0 \<Longrightarrow> bprev st' x = (if x = hd (ys @ [0]) then f else bprev st1 x)"
      unfolding add_to_freelist_def Let_def st1_def [symmetric] hd using s1(3)
      by (cases ys) (auto simp: upd_block_def sized_alike_def hd fun_eq_iff)
    have "chained (bnext st') (bprev st') f ([] @ f # ys)"
      by (rule chained_insert [where xs = "[]", OF _ _ _ refl refl]) (use c1 Nil assms(4) f st'(4,5) s1(4) in auto)
    then show ?thesis using st' s1(1) Nil unfolding sized_alike_def by auto
  next
    case (Cons a as)
    have a: "block_head st1 = a" "a < f" "a \<noteq> 0" using h Cons assms(2) by auto
    have "\<exists>st'. add_loop a f st1 = Some st' \<and> sized_alike st' st1 \<and> block_head st' = block_head st1 \<and>
      (\<forall>x. bnext st' x = (if x = last (a # as) then f else if x = f then hd (ys @ [0]) else bnext st1 x)) \<and>
      (\<forall>x. x \<noteq> 0 \<longrightarrow> bprev st' x = (if x = hd (ys @ [0]) then f else if x = f then last (a # as) else bprev st1 x))"
      by (rule add_loop_links [where us = "[]"]) (use c1 Cons assms(2,3) f s1(3) in auto)
    then obtain st' where st': "add_loop a f st1 = Some st'" "sized_alike st' st1" "block_head st' = block_head st1"
      "\<forall>x. bnext st' x = (if x = last (a # as) then f else if x = f then hd (ys @ [0]) else bnext st1 x)"
      "\<forall>x. x \<noteq> 0 \<longrightarrow> bprev st' x = (if x = hd (ys @ [0]) then f else if x = f then last (a # as) else bprev st1 x)" by blast
    have "chained (bnext st') (bprev st') (block_head st') (xs @ f # ys)"
      by (rule chained_insert [OF c1 assms(4) f, of "last (a # as)" "hd (ys @ [0])"]) (use st'(3-5) Cons in auto)
    moreover have "add_to_freelist f st = Some st'" unfolding add_to_freelist_def Let_def st1_def [symmetric] using a st'(1) by simp
    ultimately show ?thesis using st'(2) s1(1) unfolding sized_alike_def by auto
  qed
qed

section \<open>Blocks change hands\<close>

lemma sint_small: "unat (w :: u32) < 2 ^ 31 \<Longrightarrow> sint w = int (unat w)"
proof -
  assume "unat w < 2 ^ 31"
  then have "unat w < 2147483648" by simp
  moreover have "int (unat w) = uint w" by simp
  ultimately have "uint w < 2147483648" "-2147483648 \<le> uint w" by linarith+
  then show ?thesis unfolding sint_uint by (simp add: signed_take_bit_int_eq_self)
qed

lemma unat_scast: "unat (w :: u32) < 2 ^ 31 \<Longrightarrow> unat (scast w :: u64) = unat w"
proof -
  assume w: "unat w < 2 ^ 31"
  have "(scast w :: u64) = of_nat (unat w)" using sint_small [OF w] by (simp only: scast_eq of_int_of_nat_eq)
  then have "unat (scast w :: u64) = take_bit 64 (unat w)" by (simp only: unsigned_of_nat) simp
  then show ?thesis using w by (simp add: take_bit_nat_eq_self)
qed

lemma unat_lsize: "bsize st b < 2 ^ 31 \<Longrightarrow> unat (lsize st b) = bsize st b"
  unfolding lsize_def bsize_def by (rule unat_scast)

lemma sint_of_int32: "-2147483648 \<le> k \<Longrightarrow> k < 2147483648 \<Longrightarrow> sint (word_of_int k :: u32) = k"
  by (simp add: signed_of_int signed_take_bit_int_eq_self)

lemma sint_positive: "0 < sint (w :: u32) \<Longrightarrow> unat w = nat (sint w)"
proof -
  assume "0 < sint w"
  moreover have "sint w < 2147483648" using sint_lt [of w] by simp
  ultimately have "uint w = sint w" by (simp add: uint_sint [of w] take_bit_int_eq_self)
  moreover have "int (unat w) = uint w" by simp
  ultimately show ?thesis by linarith
qed

lemma ucast_minus24: "unat (x :: u64) < 2 ^ 31 \<Longrightarrow> sint (ucast (x - 24) :: u32) = int (unat x) - 24"
proof -
  assume x: "unat x < 2 ^ 31"
  have u: "int (unat x) = uint x" by simp
  have "uint (ucast (x - 24) :: u32) = (uint x - 24) mod 2 ^ 64 mod 2 ^ 32" unfolding unsigned_ucast_eq by (simp add: take_bit_eq_mod uint_word_ariths)
  also have "\<dots> = (uint x - 24) mod 2 ^ 32" by (rule mod_mod_cancel) simp
  also have "\<dots> = uint (word_of_int (uint x - 24) :: u32)" by (simp only: uint_word_of_int) simp
  finally have "(ucast (x - 24) :: u32) = word_of_int (uint x - 24)" by (simp only: word_uint_eq_iff)
  moreover have "unat x < 2147483648" using x by simp
  then have "-2147483648 \<le> uint x - 24" "uint x - 24 < 2147483648" using u by linarith+
  ultimately show ?thesis unfolding u by (simp only: sint_of_int32)
qed

text \<open>A block \<open>b\<close> cut in two at \<open>nb\<close>.\<close>

lemma apart_cut:
  assumes ap: "apart st S" and "b \<in> S" "b < nb" "nb < bend st b" "nb \<notin> S"
    and be: "bend st' b = nb" "bend st' nb = bend st b" "\<And>y. y \<noteq> b \<Longrightarrow> y \<noteq> nb \<Longrightarrow> bend st' y = bend st y"
  shows "apart st' (insert nb S)"
  unfolding apart_def
proof (intro ballI impI)
  fix u v assume uv: "u \<in> insert nb S" "v \<in> insert nb S" "u < v"
  have *: "bend st u' \<le> v'" if "u' \<in> S" "v' \<in> S" "u' < v'" for u' v' using ap that by (simp add: apart_def)
  have far: "v \<in> S \<Longrightarrow> b < v \<Longrightarrow> bend st b \<le> v" "u \<in> S \<Longrightarrow> u < b \<Longrightarrow> bend st u \<le> b" using * assms(2) by blast+
  show "bend st' u \<le> v"
  proof (cases "u = b \<or> u = nb")
    case True
    then show ?thesis using be(1,2) far(1) uv assms(3,4) by auto
  next
    case False
    then have u: "u \<in> S" using uv(1) by blast
    moreover have "u < nb \<Longrightarrow> u < b" using * [of b u] False assms(2,4) u by force
    ultimately show ?thesis using be(3) False uv * [of u v] far(2) assms(3) by force
  qed
qed

text \<open>Cutting a block that is in use and large enough.\<close>

lemma split_block_ok:
  assumes "heap_ok lo hi st fs (insert b L)" "b \<notin> L" "unat sz \<le> bsize st b"
  shows "bsize st b \<le> unat sz + BLOCK_META_SIZE \<and> split_block b sz st = (0, st) \<or>
    (\<exists>nb st'. split_block b sz st = (nb, st') \<and> nb \<noteq> 0 \<and> nb \<notin> set fs \<union> insert b L \<and> heap_ok lo hi st' fs (insert nb (insert b L)) \<and>
       bsize st' b = unat sz \<and> (\<forall>x. x \<noteq> b \<and> x \<noteq> nb \<longrightarrow> bsize st' x = bsize st x) \<and> kern st' = kern st)"
proof -
  define x where "x = lsize st b - sz"
  define fsize :: u32 where "fsize = ucast (x - 24)"
  have bs: "bsize st b < 2 ^ 31" using assms(1) by (simp add: heap_ok_def)
  have x: "unat x = bsize st b - unat sz" unfolding x_def using unat_lsize [OF bs] assms(3) by (simp add: unat_sub word_le_nat_alt)
  have sf: "sint fsize = int (bsize st b - unat sz) - 24" unfolding fsize_def x [symmetric] using x bs by (intro ucast_minus24) simp
  show ?thesis
  proof (cases "sint fsize \<le> 0")
    case True
    then have "split_block b sz st = (0, st)" by (simp add: split_block_def Let_def BLOCK_META_SIZE_def x_def [symmetric] fsize_def [symmetric])
    moreover have "bsize st b \<le> unat sz + BLOCK_META_SIZE" using True sf unfolding BLOCK_META_SIZE_def by linarith
    ultimately show ?thesis by blast
  next
    case False
    define nb where "nb = b + BLOCK_META_SIZE + unat sz"
    define st' where "st' = upd_block b (\<lambda>x. x\<lparr>b_size := ucast sz\<rparr>) (upd_block nb (\<lambda>_. \<lparr>b_prev = 0, b_next = 0, b_size = fsize\<rparr>) st)"
    have r: "split_block b sz st = (nb, st')"
      using False by (simp add: split_block_def Let_def BLOCK_META_SIZE_def x_def [symmetric] fsize_def [symmetric] nb_def st'_def)
    have fu: "unat fsize = bsize st b - unat sz - 24" "0 < unat fsize"
      using sint_positive [of fsize] False sf by linarith+
    have nbb: "b < nb" "nb < bend st b" using fu by (simp_all add: nb_def bend_def BLOCK_META_SIZE_def)
    let ?S = "set fs \<union> insert b L"
    have ap: "apart st ?S" using assms(1) by (simp add: heap_ok_def)
    have nb: "nb \<notin> ?S" using ap nbb unfolding apart_def by (metis UnCI insertI1 not_less)
    have szu: "bsize st' b = unat sz" "bsize st' nb = bsize st b - unat sz - 24" "\<And>y. y \<noteq> b \<Longrightarrow> y \<noteq> nb \<Longrightarrow> bsize st' y = bsize st y"
      using nbb(1) fu(1) assms(3) bs by (auto simp: st'_def upd_block_def bsize_def unsigned_ucast_eq take_bit_nat_eq_self)
    have be: "bend st' b = nb" "bend st' nb = bend st b" "\<And>y. y \<noteq> b \<Longrightarrow> y \<noteq> nb \<Longrightarrow> bend st' y = bend st y"
      using szu fu by (auto simp: bend_def nb_def BLOCK_META_SIZE_def)
    have "apart st' (insert nb ?S)" by (rule apart_cut [OF ap _ nbb nb be]) simp
    moreover have "chained (bnext st') (bprev st') (block_head st') fs"
    proof -
      have "chained (bnext st) (bprev st) (block_head st) fs" using assms(1) by (simp add: heap_ok_def)
      then have "chained (bnext st') (bprev st') (block_head st) fs" by (rule chained_cong) (use nb in \<open>auto simp: st'_def upd_block_def\<close>)
      then show ?thesis by (simp add: st'_def upd_block_def)
    qed
    moreover have "\<forall>y \<in> insert nb ?S. lo \<le> y \<and> bend st' y \<le> hi \<and> bsize st' y < 2 ^ 31"
    proof
      fix y assume "y \<in> insert nb ?S"
      moreover have "lo \<le> b" "bend st b \<le> hi" using assms(1) by (simp_all add: heap_ok_def)
      ultimately show "lo \<le> y \<and> bend st' y \<le> hi \<and> bsize st' y < 2 ^ 31"
        using be szu nbb bs assms(1,3) by (cases "y = b \<or> y = nb") (auto simp: heap_ok_def)
    qed
    moreover have "set fs \<union> insert nb (insert b L) = insert nb ?S" by auto
    ultimately have "heap_ok lo hi st' fs (insert nb (insert b L))" using assms(1) nb unfolding heap_ok_def by auto
    then show ?thesis using r nb nbb szu by (intro disjI2 exI [of _ nb] exI [of _ st']) (auto simp: st'_def upd_block_def)
  qed
qed

lemma take_free:
  assumes "heap_ok lo hi st (xs @ v # ys) L"
  shows "heap_ok lo hi (remove_from_freelist v st) (xs @ ys) (insert v L)"
proof -
  have c: "chained (bnext st) (bprev st) (block_head st) (xs @ v # ys)" using assms by (simp add: heap_ok_def)
  note r = remove_from_freelist_chained [OF c]
  have S: "set (xs @ ys) \<union> insert v L = set (xs @ v # ys) \<union> L" by auto
  have "distinct (xs @ v # ys)" using c by (simp add: chained_def)
  then have "set (xs @ ys) \<inter> insert v L = {}" using assms by (auto simp: heap_ok_def)
  moreover have "sorted_wrt (<) (xs @ ys)" using assms by (auto simp: heap_ok_def sorted_wrt_append)
  ultimately show ?thesis using assms r(1) unfolding heap_ok_def S sized_alikeD [OF r(2)] by blast
qed

lemma sorted_cut: "sorted_wrt (<) fs \<Longrightarrow> b \<notin> set fs \<Longrightarrow> fs = filter (\<lambda>x. x < b) fs @ filter (\<lambda>x. b < x) fs" for b :: nat
proof (induction fs)
  case (Cons f fs)
  then have "\<not> f < b \<Longrightarrow> filter (\<lambda>x. x < b) fs = []" by (auto simp: filter_empty_conv)
  then show ?case using Cons by (cases "f < b") auto
qed simp

lemma give_free:
  assumes "heap_ok lo hi st fs (insert b L)" "b \<notin> L"
  shows "\<exists>st' fs'. add_to_freelist b st = Some st' \<and> sized_alike st' st \<and> heap_ok lo hi st' fs' L \<and> set fs' = insert b (set fs)"
proof -
  define xs where "xs = filter (\<lambda>x. x < b) fs"
  define ys where "ys = filter (\<lambda>x. b < x) fs"
  have b: "b \<notin> set fs" "b \<noteq> 0" using assms(1) by (auto simp: heap_ok_def)
  have fs: "fs = xs @ ys" unfolding xs_def ys_def using assms(1) b(1) by (intro sorted_cut) (simp_all add: heap_ok_def)
  have c: "chained (bnext st) (bprev st) (block_head st) (xs @ ys)" using assms(1) fs by (simp add: heap_ok_def)
  obtain st' where st': "add_to_freelist b st = Some st'" "sized_alike st' st" "chained (bnext st') (bprev st') (block_head st') (xs @ b # ys)"
    using add_to_freelist_chained [OF c _ _ b(2)] by (auto simp: xs_def ys_def)
  have S: "set (xs @ b # ys) \<union> L = set fs \<union> insert b L" by (auto simp: fs)
  have srt: "sorted_wrt (<) fs" using assms(1) by (simp add: heap_ok_def)
  have "sorted_wrt (<) (xs @ b # ys)" using srt unfolding fs sorted_wrt_append by (auto simp: xs_def ys_def)
  moreover have "set (xs @ b # ys) \<inter> L = {}" using assms fs by (auto simp: heap_ok_def)
  ultimately have "heap_ok lo hi st' (xs @ b # ys) L" using assms(1) st'(3) unfolding heap_ok_def S sized_alikeD [OF st'(2)] by blast
  then show ?thesis using st'(1,2) fs by (intro exI [of _ st'] exI [of _ "xs @ b # ys"]) auto
qed

lemma find_fit_first:
  "chained (bnext st) (bprev st) h (us @ xs) \<Longrightarrow> \<exists>p. find_fit (hd (xs @ [0])) sz st = Some p \<and>
    (p = 0 \<and> (\<forall>x \<in> set xs. lsize st x < sz) \<or> p \<noteq> 0 \<and> p \<in> set xs \<and> sz \<le> lsize st p)"
proof (induction xs arbitrary: us)
  case Nil
  then show ?case by (simp add: find_fit.simps)
next
  case (Cons x xs)
  note c = chained_at [OF Cons.prems]
  have "find_fit x sz st = (if sz \<le> lsize st x then Some x else find_fit (hd (xs @ [0])) sz st)" using c by (subst find_fit.simps) simp
  moreover have "x \<noteq> 0" using Cons.prems by (auto simp: chained_def)
  ultimately show ?case using Cons.IH [of "us @ [x]"] Cons.prems by (auto simp: not_le)
qed

text \<open>What is left of a block after a cut goes to the free list.\<close>

lemma split_and_add:
  assumes "heap_ok lo hi st fs (insert b L)" "b \<notin> L" "unat sz \<le> bsize st b"
  shows "\<exists>st' fs'. add_rest (split_block b sz st) = Some st' \<and> heap_ok lo hi st' fs' (insert b L) \<and> unat sz \<le> bsize st' b \<and>
    (\<forall>x \<in> L. bsize st' x = bsize st x) \<and> kern st' = kern st"
proof -
  from split_block_ok [OF assms] show ?thesis
  proof (elim disjE conjE exE)
    assume "split_block b sz st = (0, st)"
    then show ?thesis using assms(1,3) by (auto simp: add_rest_def)
  next
    fix nb st1
    assume r: "split_block b sz st = (nb, st1)" "nb \<noteq> 0" "nb \<notin> set fs \<union> insert b L" "heap_ok lo hi st1 fs (insert nb (insert b L))"
      "bsize st1 b = unat sz" "\<forall>x. x \<noteq> b \<and> x \<noteq> nb \<longrightarrow> bsize st1 x = bsize st x" "kern st1 = kern st"
    obtain st' fs' where a: "add_to_freelist nb st1 = Some st'" "sized_alike st' st1" "heap_ok lo hi st' fs' (insert b L)"
      using give_free [OF r(4)] r(3) by blast
    have "\<forall>x \<in> L. x \<noteq> b \<and> x \<noteq> nb" using r(3) assms(2) by blast
    then have "\<forall>x \<in> L. bsize st' x = bsize st x" using r(6) sized_alikeD(1) [OF a(2)] by simp
    then show ?thesis using r a sized_alikeD [OF a(2)] by (intro exI [of _ st'] exI [of _ fs']) (simp add: add_rest_def)
  qed
qed

text \<open>The sizes asked of the kernel.\<close>

lemma unat_PAGE_UP:
  assumes "unat x + 4095 < 2 ^ 64"
  shows "unat (PAGE_UP x) = (unat x + 4095) div 4096 * 4096"
proof -
  have m: "(MIN_DEALLOC - 1 :: u64) = mask 12" by (simp add: MIN_DEALLOC_def mask_eq_exp_minus_1)
  have e: "x + MIN_DEALLOC - 1 = x + 4095" by (simp add: MIN_DEALLOC_def)
  have "unat (x + 4095) = unat x + 4095" using assms by (simp add: unat_word_ariths)
  then show ?thesis unfolding PAGE_UP_def e m unat_and_not_mask by (simp add: minus_mod_eq_div_mult)
qed

lemma alloc_size_fits:
  assumes "unat sz < 2 ^ 30"
  shows "ALLOC_UNIT \<le> sz \<Longrightarrow> unat sz + BLOCK_META_SIZE \<le> unat (alloc_size sz)" "BLOCK_META_SIZE \<le> unat (alloc_size sz)"
    "unat (alloc_size sz) < 2 ^ 31" "unat (alloc_size sz) mod 4096 = 0" "alloc_size sz \<noteq> 0"
proof -
  have lt: "unat sz < 1073741824" using assms by simp
  define P where "P = PAGE_UP (sz + of_nat BLOCK_META_SIZE)"
  have "unat (sz + of_nat BLOCK_META_SIZE) = unat sz + 24" using lt by (simp add: BLOCK_META_SIZE_def unat_word_ariths)
  then have P: "unat P = (unat sz + 24 + 4095) div 4096 * 4096" unfolding P_def using lt by (subst unat_PAGE_UP) simp_all
  then have p: "unat sz + 24 \<le> unat P" "unat P \<le> unat sz + 24 + 4095"
    using div_mult_mod_eq [of "unat sz + 24 + 4095" 4096] mod_less_divisor [of 4096 "unat sz + 24 + 4095"] by linarith+
  have p3: "unat P mod 4096 = 0" unfolding P by simp
  have u: "unat ALLOC_UNIT = 12288" by (simp add: ALLOC_UNIT_def)
  have a: "alloc_size sz = P \<or> alloc_size sz = ALLOC_UNIT" by (simp add: alloc_size_def P_def)
  show "unat sz + BLOCK_META_SIZE \<le> unat (alloc_size sz)" if "ALLOC_UNIT \<le> sz" using p(1) that by (simp add: alloc_size_def P_def BLOCK_META_SIZE_def)
  show r: "BLOCK_META_SIZE \<le> unat (alloc_size sz)" using a p(1) u by (auto simp: BLOCK_META_SIZE_def)
  have "unat (alloc_size sz) < 2147483648" using a p(2) lt u by (elim disjE) simp_all
  then show "unat (alloc_size sz) < 2 ^ 31" by simp
  show "unat (alloc_size sz) mod 4096 = 0" using a p3 u by (elim disjE) simp_all
  show "alloc_size sz \<noteq> 0" using r by (auto simp: BLOCK_META_SIZE_def)
qed

text \<open>
  The sizes within a header below the unit: the unit asked of the kernel holds the size but not the header too.
\<close>

definition short_request :: "u64 \<Rightarrow> bool" where
  "short_request sz \<longleftrightarrow> sz < ALLOC_UNIT \<and> unat ALLOC_UNIT < unat sz + BLOCK_META_SIZE"

lemma alloc_size_large:
  assumes "unat sz < 2 ^ 30" "\<not> short_request sz"
  shows "unat sz + BLOCK_META_SIZE \<le> unat (alloc_size sz)"
  using assms alloc_size_fits(1) [OF assms(1)] by (cases "ALLOC_UNIT \<le> sz") (auto simp: short_request_def alloc_size_def not_le not_less)

lemma alloc_size_short:
  assumes "short_request sz"
  shows "alloc_size sz = ALLOC_UNIT" "\<not> alloc_size sz > sz + of_nat BLOCK_META_SIZE"
proof -
  show a: "alloc_size sz = ALLOC_UNIT" using assms by (auto simp: alloc_size_def short_request_def)
  have "unat sz < 12288" using assms by (simp add: short_request_def word_less_nat_alt ALLOC_UNIT_def)
  then have "unat (sz + 24) = unat sz + 24" by (simp add: unat_word_ariths)
  then show "\<not> alloc_size sz > sz + of_nat BLOCK_META_SIZE"
    using assms unfolding a by (simp add: short_request_def word_less_nat_alt BLOCK_META_SIZE_def)
qed

section \<open>Merging\<close>

text \<open>Between two free blocks there is a gap.\<close>

definition gapped :: "'k uheap \<Rightarrow> nat list \<Rightarrow> bool" where "gapped st fs \<longleftrightarrow> successively (\<lambda>a b. bend st a < b) fs"

lemma gapped_cong: "(\<And>u. u \<in> set us \<Longrightarrow> bend st' u = bend st u) \<Longrightarrow> gapped st' (us @ [c]) = gapped st (us @ [c])"
  by (induction us) (simp_all add: gapped_def successively_Cons)

lemma heap_ok_chained: "heap_ok lo hi st fs L \<Longrightarrow> chained (bnext st) (bprev st) (block_head st) fs"
  by (simp add: heap_ok_def)

definition join :: "nat \<Rightarrow> nat \<Rightarrow> nat \<Rightarrow> 'k uheap \<Rightarrow> 'k uheap" where
  "join c d tb st =
     (let st = upd_block c (\<lambda>x. x\<lparr>b_size := b_size x + b_size (blocks st d) + of_nat BLOCK_META_SIZE\<rparr>) st
      in if tb \<noteq> 0 then upd_block tb (\<lambda>x. x\<lparr>b_prev := c\<rparr>) (upd_block c (\<lambda>x. x\<lparr>b_next := tb\<rparr>) st)
         else upd_block c (\<lambda>x. x\<lparr>b_next := 0\<rparr>) st)"

lemma join_ok:
  assumes "heap_ok lo hi st (us @ c # d # vs) L" "bend st c = d" "tb = hd (vs @ [0])"
  shows "heap_ok lo hi (join c d tb st) (us @ c # vs) L" "\<And>x. x \<noteq> c \<Longrightarrow> bsize (join c d tb st) x = bsize st x" "kern (join c d tb st) = kern st"
    "block_head (join c d tb st) = block_head st"
proof -
  let ?st = "join c d tb st" let ?S = "set (us @ c # d # vs) \<union> L" let ?S' = "set (us @ c # vs) \<union> L"
  have ch: "chained (bnext st) (bprev st) (block_head st) ((us @ [c]) @ d # vs)" using heap_ok_chained [OF assms(1)] by simp
  note c = chained_at [OF ch]
  have dis: "distinct (us @ c # d # vs)" "0 \<notin> set (us @ c # d # vs)" using ch by (simp_all add: chained_def)
  have tb: "tb \<noteq> 0 \<Longrightarrow> tb \<in> set vs" using assms(3) by (cases vs) auto
  have S: "?S' = ?S - {d}" "d \<in> ?S" "c \<in> ?S" using dis assms(1) by (auto simp: heap_ok_def)
  have bd: "bend st d \<le> hi" "lo \<le> c" "hi < lo + 2147483648" using assms(1) by (auto simp: heap_ok_def)
  have "bsize st c + bsize st d + 24 < 2147483648" using bd assms(2) by (simp add: bend_def BLOCK_META_SIZE_def)
  then have sc: "bsize ?st c = bsize st c + bsize st d + 24" using tb dis(1)
    by (auto simp: join_def upd_block_def bsize_def Let_def BLOCK_META_SIZE_def unat_word_ariths)
  show other: "\<And>x. x \<noteq> c \<Longrightarrow> bsize ?st x = bsize st x" and "kern ?st = kern st" and hd: "block_head ?st = block_head st"
    by (simp_all add: join_def upd_block_def bsize_def Let_def)
  have be: "bend ?st c = bend st d" "\<And>x. x \<noteq> c \<Longrightarrow> bend ?st x = bend st x" using sc other assms(2) by (auto simp: bend_def BLOCK_META_SIZE_def)
  have "chained (bnext ?st) (bprev ?st) (block_head ?st) ((us @ [c]) @ vs)" unfolding hd
    by (rule chained_remove [OF ch refl refl]) (use assms(3) c dis tb in \<open>auto simp: join_def upd_block_def Let_def\<close>)
  then have ch': "chained (bnext ?st) (bprev ?st) (block_head ?st) (us @ c # vs)" by simp
  have ap: "bend st u \<le> v" if "u \<in> ?S" "v \<in> ?S" "u < v" for u v using assms(1) that unfolding heap_ok_def apart_def by blast
  have "apart ?st ?S'"
    unfolding apart_def S(1)
  proof (intro ballI impI)
    fix u v assume uv: "u \<in> ?S - {d}" "v \<in> ?S - {d}" "u < v"
    show "bend ?st u \<le> v"
    proof (cases "u = c")
      case True
      then have "d < v" using ap [of c v] uv assms(2) by force
      then show ?thesis using ap [of d v] uv S(2) be(1) True by auto
    next
      case False
      then show ?thesis using ap [of u v] uv be(2) by auto
    qed
  qed
  moreover have "\<forall>x \<in> ?S'. lo \<le> x \<and> bend ?st x \<le> hi \<and> bsize ?st x < 2 ^ 31"
  proof
    fix x assume "x \<in> ?S'"
    then have x: "lo \<le> x \<and> bend st x \<le> hi \<and> bsize st x < 2 ^ 31" using assms(1) S(1) unfolding heap_ok_def by blast
    then show "lo \<le> x \<and> bend ?st x \<le> hi \<and> bsize ?st x < 2 ^ 31" using be other sc bd \<open>_ < 2147483648\<close> by (cases "x = c") simp_all
  qed
  moreover have "sorted_wrt (<) (us @ c # vs)" using assms(1) by (auto simp: heap_ok_def sorted_wrt_append)
  ultimately show "heap_ok lo hi ?st (us @ c # vs) L" using ch' assms(1) unfolding heap_ok_def by auto
qed

text \<open>The test for neighbours is exact.\<close>

lemma adjacent_iff:
  assumes "heap_ok lo hi st fs L" "c \<in> set fs" "d \<in> set fs"
  shows "of_nat c + of_nat BLOCK_META_SIZE + lsize st c = (of_nat d :: u64) \<longleftrightarrow> bend st c = d"
proof -
  have b: "bend st c \<le> hi" "bsize st c < 2 ^ 31" "bend st d \<le> hi" "hi < 2 ^ 64" using assms by (auto simp: heap_ok_def)
  then have lt: "bend st c < 2 ^ 64" "d < 2 ^ 64" by (simp_all add: bend_def)
  have "lsize st c = of_nat (bsize st c)" unfolding unat_lsize [OF b(2), symmetric] by simp
  then have "of_nat c + of_nat BLOCK_META_SIZE + lsize st c = (of_nat (bend st c) :: u64)" by (simp add: bend_def)
  then show ?thesis using lt by (simp add: of_nat_inverse word_of_nat_eq_iff take_bit_nat_eq_self)
qed

definition merged :: "nat \<Rightarrow> nat \<Rightarrow> nat set \<Rightarrow> 'k uheap \<Rightarrow> 'k uheap \<Rightarrow> bool" where
  "merged lo hi L st st' \<longleftrightarrow> (\<exists>fs'. heap_ok lo hi st' fs' L \<and> gapped st' fs' \<and> fs' \<noteq> []) \<and> (\<forall>x \<in> L. bsize st' x = bsize st x) \<and> kern st' = kern st"

lemma merge_pass:
  fixes st :: "'k uheap"
  assumes again: "\<And>c vs st. Suc (length vs) < n \<Longrightarrow> heap_ok lo hi (st :: 'k uheap) (c # vs) L \<Longrightarrow> \<exists>st'. merge_loop c st = Some st' \<and> merged lo hi L st st'"
    and "length (us @ c # vs) = n" "heap_ok lo hi st (us @ c # vs) L" "gapped st (us @ [c])"
  shows "\<exists>st'. merge_loop c st = Some st' \<and> merged lo hi L st st'"
  using assms(2-)
proof (induction vs arbitrary: us c)
  case Nil
  have "bnext st c = 0" using chained_at(3) [OF heap_ok_chained [OF Nil.prems(2)]] by simp
  then have "merge_loop c st = Some st" by (simp add: merge_loop.simps Let_def)
  then show ?case using Nil.prems(2,3) unfolding merged_def by blast
next
  case (Cons d vs)
  have ch: "chained (bnext st) (bprev st) (block_head st) ((us @ [c]) @ d # vs)" using heap_ok_chained [OF Cons.prems(2)] by simp
  note d = chained_at [OF ch]
  have nx: "bnext st c = d" using chained_at(3) [OF heap_ok_chained [OF Cons.prems(2)]] by simp
  define tb where "tb = hd (vs @ [0])"
  have adj: "of_nat c + of_nat BLOCK_META_SIZE + lsize st c = (of_nat d :: u64) \<longleftrightarrow> bend st c = d" by (rule adjacent_iff [OF Cons.prems(2)]) simp_all
  have dc: "d \<noteq> c" "c \<notin> set us" using ch by (auto simp: chained_def)
  show ?case
  proof (cases "bend st c = d")
    case True
    note j = join_ok [OF Cons.prems(2) True tb_def]
    have hd: "block_head st = hd (us @ c # vs)" using ch by (cases us) (simp_all add: chained_def)
    have m: "merge_loop c st = (if tb \<noteq> 0 then merge_loop (block_head st) (join c d tb st) else Some (join c d tb st))"
      using nx d(1,3) True adj dc(1) j(4) by (subst merge_loop.simps) (simp add: Let_def join_def tb_def upd_block_def)
    have "c \<notin> L" using Cons.prems(2) by (simp add: heap_ok_def)
    then have L: "\<forall>x \<in> L. bsize (join c d tb st) x = bsize st x" using j(2) by metis
    show ?thesis
    proof (cases "tb = 0")
      case True
      then have vs: "vs = []" using d(5) by (simp add: tb_def)
      have "bend (join c d tb st) u = bend st u" if "u \<in> set us" for u using j(2) [of u] that dc(2) unfolding bend_def by metis
      then have "gapped (join c d tb st) (us @ [c])" using Cons.prems(3) gapped_cong by blast
      then show ?thesis using m True j(1,3) L vs unfolding merged_def by (intro exI [of _ "join c d tb st"]) auto
    next
      case False
      obtain e es where e: "us @ c # vs = e # es" by (cases "us @ c # vs") auto
      have "Suc (length es) = length (us @ c # vs)" unfolding e by simp
      then have "Suc (length es) < n" using Cons.prems(1) by simp
      then obtain st' where st': "merge_loop e (join c d tb st) = Some st'" "merged lo hi L (join c d tb st) st'" using again [of es "join c d tb st" e] j(1) unfolding e by blast
      then show ?thesis using m False hd e L j(3) unfolding merged_def by auto
    qed
  next
    case False
    have "c < d" using Cons.prems(2) by (auto simp: heap_ok_def sorted_wrt_append)
    moreover have "apart st (set (us @ c # d # vs) \<union> L)" using Cons.prems(2) by (simp only: heap_ok_def)
    ultimately have "bend st c \<le> d" unfolding apart_def by simp
    then have "bend st c < d" using False by simp
    then have "gapped st ((us @ [c]) @ [d])" using Cons.prems(3) by (simp add: gapped_def successively_append_iff)
    moreover have "merge_loop c st = merge_loop d st" using nx d(1) False adj by (subst merge_loop.simps) (simp add: Let_def)
    ultimately show ?thesis using Cons.IH [of "us @ [c]" d] Cons.prems(1,2) by simp
  qed
qed

lemma merge_loop_ok: "heap_ok lo hi st (c # vs) L \<Longrightarrow> \<exists>st'. merge_loop c st = Some st' \<and> merged lo hi L st st'"
proof (induction "Suc (length vs)" arbitrary: c vs st rule: less_induct)
  case less
  show ?case by (rule merge_pass [where us = "[]" and vs = vs and n = "Suc (length vs)"]) (use less in \<open>auto simp: gapped_def\<close>)
qed

lemma last_block_last: "chained (bnext st) (bprev st) h (us @ c # vs) \<Longrightarrow> last_block c st = Some (last (c # vs))"
proof (induction vs arbitrary: us c)
  case Nil
  then show ?case using chained_at(3) [OF Nil] by (simp add: last_block.simps)
next
  case (Cons d vs)
  have "bnext st c = d" "d \<noteq> 0" using chained_at(3) [OF Cons.prems] Cons.prems by (auto simp: chained_def)
  then show ?case using Cons.IH [of "us @ [c]" d] Cons.prems by (subst last_block.simps) simp
qed

section \<open>Giving memory back\<close>

lemma below_last:
  assumes "heap_ok lo hi st (us @ [c]) L" "bend st c = hi" "x \<in> set us \<union> L"
  shows "x < c" "bend st x \<le> c"
proof -
  have ap: "apart st (set (us @ [c]) \<union> L)" and x: "bend st x \<le> hi" "x \<noteq> c" using assms by (auto simp: heap_ok_def sorted_wrt_append)
  then have "c < x \<Longrightarrow> hi \<le> x" using assms(2,3) by (auto simp: apart_def)
  moreover have "x < bend st x" by (simp add: bend_def BLOCK_META_SIZE_def)
  ultimately show "x < c" using x by (meson leD linorder_neqE_nat order.strict_trans2)
  then show "bend st x \<le> c" using ap assms(3) by (auto simp: apart_def)
qed

lemma heap_ok_kern [simp]: "heap_ok lo hi (st\<lparr>kern := k\<rparr>) fs L = heap_ok lo hi st fs L" "bsize (st\<lparr>kern := k\<rparr>) x = bsize st x"
  "bend (st\<lparr>kern := k\<rparr>) x = bend st x" "gapped (st\<lparr>kern := k\<rparr>) fs = gapped st fs"
  by (simp_all add: heap_ok_def apart_def bend_def bsize_def gapped_def)

text \<open>The last block becomes smaller.\<close>

lemma resize_last:
  assumes "heap_ok lo hi st (us @ [c]) L" "bend st c = hi" "unat n \<le> bsize st c" "c + BLOCK_META_SIZE + unat n \<le> hi'" "hi' \<le> hi"
    and st': "st' = upd_block c (\<lambda>x. x\<lparr>b_size := n\<rparr>) st"
  shows "heap_ok lo hi' st' (us @ [c]) L" "bend st' c = c + BLOCK_META_SIZE + unat n" "\<And>x. x \<noteq> c \<Longrightarrow> bsize st' x = bsize st x" "\<And>x. x \<noteq> c \<Longrightarrow> bend st' x = bend st x"
proof -
  show c: "bend st' c = c + BLOCK_META_SIZE + unat n" and o: "\<And>x. x \<noteq> c \<Longrightarrow> bsize st' x = bsize st x" "\<And>x. x \<noteq> c \<Longrightarrow> bend st' x = bend st x"
    by (simp_all add: st' upd_block_def bsize_def bend_def)
  let ?S = "set (us @ [c]) \<union> L"
  note bl = below_last [OF assms(1,2)]
  have cL: "c \<notin> set us \<union> L" using bl(1) by blast
  have "apart st' ?S" unfolding apart_def
  proof (intro ballI impI)
    fix u v assume uv: "u \<in> ?S" "v \<in> ?S" "u < v"
    then have "u \<noteq> c" "u \<in> set us \<union> L" using bl(1) [of v] by auto
    moreover have "bend st u \<le> v" using assms(1) uv unfolding heap_ok_def apart_def by blast
    ultimately show "bend st' u \<le> v" using o(2) by simp
  qed
  moreover have "lo \<le> x \<and> bend st' x \<le> hi' \<and> bsize st' x < 2 ^ 31" if x: "x \<in> ?S" for x
  proof (cases "x = c")
    case True
    have "bsize st c < 2 ^ 31" "lo \<le> c" using assms(1) by (simp_all add: heap_ok_def)
    moreover have "bsize st' c = unat n" by (simp add: st' upd_block_def bsize_def)
    ultimately show ?thesis using True c assms(3,4) by simp
  next
    case False
    have "lo \<le> x" "bsize st x < 2 ^ 31" using assms(1) x unfolding heap_ok_def by blast+
    moreover have "bend st x \<le> c" using bl(2) [of x] x False by simp
    ultimately show ?thesis using False o assms(4) by (simp add: order_trans)
  qed
  moreover have "chained (bnext st') (bprev st') (block_head st') (us @ [c])"
  proof -
    have "chained (bnext st') (bprev st') (block_head st) (us @ [c])" by (rule chained_cong [OF heap_ok_chained [OF assms(1)]]) (auto simp: st' upd_block_def)
    then show ?thesis by (simp add: st' upd_block_def)
  qed
  moreover have "lo \<le> hi'" "hi' < 2 ^ 64" "hi' < lo + 2 ^ 31" using assms(1,4,5) by (auto simp: heap_ok_def)
  ultimately show "heap_ok lo hi' st' (us @ [c]) L" using assms(1) unfolding heap_ok_def by blast
qed

lemma page_up_end:
  assumes "(c + t) mod 4096 = 0"
  shows "(c + 4095) div 4096 * 4096 = c + t mod (4096 :: nat)"
proof -
  define q r s where "q = c div 4096" and "r = c mod 4096" and "s = t mod 4096"
  have c: "c = 4096 * q + r" "r < 4096" "s < 4096" by (simp_all add: q_def r_def s_def)
  have "(r + s) mod 4096 = 0" using assms by (simp add: r_def s_def mod_add_eq)
  then have rs: "r + s = 0 \<or> r + s = 4096" using c by (auto simp: mod_if split: if_splits)
  have "(c + 4095) div 4096 = q + (r + 4095) div 4096" unfolding c(1) by simp
  moreover have "(r + 4095) div 4096 = (if r = 0 then 0 else 1)" using c(2) by auto
  ultimately show ?thesis using rs c(1,3) unfolding s_def [symmetric] by auto
qed

lemma aligned_iff: "n < 2 ^ 64 \<Longrightarrow> (of_nat n :: u64) AND (MIN_DEALLOC - 1) = 0 \<longleftrightarrow> n mod 4096 = 0"
proof -
  assume n: "n < 2 ^ 64"
  have "(MIN_DEALLOC - 1 :: u64) = mask 12" by (simp add: MIN_DEALLOC_def mask_eq_exp_minus_1)
  then have "(of_nat n :: u64) AND (MIN_DEALLOC - 1) = take_bit 12 (of_nat n)" by (simp add: take_bit_eq_mask)
  moreover have "unat (take_bit 12 (of_nat n :: u64)) = n mod 4096"
    using n by (simp add: unsigned_take_bit_eq unsigned_of_nat take_bit_nat_eq_self) (simp add: take_bit_eq_mod)
  ultimately show ?thesis by (metis unat_0 unat_eq_zero)
qed

text \<open>The numbers of pages and bytes that \<^verbatim>\<open>scan_and_merge\<close> computes for a block of \<open>t\<close> bytes.\<close>

lemma page_count:
  fixes total :: u64
  assumes "unat total = t" "t < 2 ^ 31 + 24"
  shows "unat (ucast (total div MIN_DEALLOC) :: u32) = t div 4096" "sint (ucast (total div MIN_DEALLOC) :: u32) = int (t div 4096)"
    "(ucast (total div MIN_DEALLOC) :: u32) = 1 \<longleftrightarrow> t div 4096 = 1"
    "(scast (ucast (total mod MIN_DEALLOC) :: u32) :: u64) \<le> of_nat BLOCK_META_SIZE \<longleftrightarrow> t mod 4096 \<le> 24"
proof -
  have q: "t div 4096 < 1048577" using assms(2) by (simp add: less_mult_imp_div_less)
  show u: "unat (ucast (total div MIN_DEALLOC) :: u32) = t div 4096"
    using q by (simp add: unsigned_ucast_eq unat_div_distrib assms(1) MIN_DEALLOC_def take_bit_nat_eq_self)
  have "unat (ucast (total div MIN_DEALLOC) :: u32) < 2 ^ 31" using u q by simp
  from sint_small [OF this] show "sint (ucast (total div MIN_DEALLOC) :: u32) = int (t div 4096)" by (simp only: u)
  show "(ucast (total div MIN_DEALLOC) :: u32) = 1 \<longleftrightarrow> t div 4096 = 1" using u by (simp add: word_unat_eq_iff)
  have m: "t mod 4096 < 4096" by simp
  then have "unat (ucast (total mod MIN_DEALLOC) :: u32) = t mod 4096"
    by (simp add: unsigned_ucast_eq unat_mod_distrib assms(1) MIN_DEALLOC_def take_bit_nat_eq_self)
  then have "unat (scast (ucast (total mod MIN_DEALLOC) :: u32) :: u64) = t mod 4096" using unat_scast m by simp
  then show "(scast (ucast (total mod MIN_DEALLOC) :: u32) :: u64) \<le> of_nat BLOCK_META_SIZE \<longleftrightarrow> t mod 4096 \<le> 24"
    by (simp add: word_le_nat_alt BLOCK_META_SIZE_def)
qed

lemma drop_pages: "unat k * 4096 \<le> unat b \<Longrightarrow> unat (b - k * ucast MIN_DEALLOC) = unat b - unat k * 4096" for b k :: u32
proof -
  assume le: "unat k * 4096 \<le> unat b"
  moreover have "unat b < 2 ^ 32" using unsigned_less [where 'a = nat, of b] by simp
  ultimately have "unat (k * ucast MIN_DEALLOC) = unat k * 4096" by (simp add: MIN_DEALLOC_def unat_word_ariths)
  then show ?thesis using le by (simp add: unat_sub word_le_nat_alt)
qed

section \<open>The kernel's promise\<close>

text \<open>
  What the allocator relies on: the break lies between a fixed lower end and the end of memory, moves up by whole pages when there is
  room, with the old break as the result, and moves down to a page above the lower end.
\<close>

locale break_memory =
  fixes sbrk :: "u64 \<Rightarrow> 'k \<Rightarrow> (u64 \<times> 'k) option" and brk :: "u64 \<Rightarrow> 'k \<Rightarrow> (bool \<times> 'k) option"
    and cur :: "'k \<Rightarrow> u64" and base :: "'k \<Rightarrow> u64" and ok :: "'k \<Rightarrow> bool" and room :: "u64 \<Rightarrow> 'k \<Rightarrow> bool"
  assumes range: "ok k \<Longrightarrow> 0 < base k \<and> base k \<le> cur k \<and> unat (cur k) mod 4096 = 0"
    and ask: "ok k \<Longrightarrow> sbrk 0 k = Some (cur k, k)"
    and grow: "ok k \<Longrightarrow> n \<noteq> 0 \<Longrightarrow> unat n mod 4096 = 0 \<Longrightarrow> room n k \<Longrightarrow>
      \<exists>k'. sbrk n k = Some (cur k, k') \<and> ok k' \<and> unat (cur k') = unat (cur k) + unat n \<and> base k' = base k"
    and shrink: "ok k \<Longrightarrow> unat a mod 4096 = 0 \<Longrightarrow> base k \<le> a \<Longrightarrow> a < cur k \<Longrightarrow> \<exists>k'. brk a k = Some (False, k') \<and> ok k' \<and> cur k' = a \<and> base k' = base k"
begin

definition uinv :: "'k uheap \<Rightarrow> nat list \<Rightarrow> nat set \<Rightarrow> bool" where
  "uinv st fs L \<longleftrightarrow> ok (kern st) \<and> heap_ok (unat (base (kern st))) (unat (cur (kern st))) st fs L"

definition fits :: "u64 \<Rightarrow> 'k uheap \<Rightarrow> bool" where
  "fits sz st \<longleftrightarrow> unat sz < 2 ^ 30 \<and> room (alloc_size sz) (kern st) \<and> unat (cur (kern st)) + unat (alloc_size sz) < unat (base (kern st)) + 2 ^ 31"

lemma fresh_block:
  assumes "uinv st fs L" "fits sz st"
  shows "\<exists>k' st'. sbrk (alloc_size sz) (kern st) = Some (cur (kern st), k') \<and> cur (kern st) \<noteq> 0 \<and>
    st' = upd_block (unat (cur (kern st))) (\<lambda>_. \<lparr>b_prev = 0, b_next = 0, b_size = ucast (alloc_size sz - of_nat BLOCK_META_SIZE)\<rparr>) (st\<lparr>kern := k'\<rparr>) \<and>
    uinv st' fs (insert (unat (cur (kern st))) L) \<and> unat (cur (kern st)) \<notin> L \<and> bsize st' (unat (cur (kern st))) = unat (alloc_size sz) - BLOCK_META_SIZE \<and>
    (\<forall>x \<in> L. bsize st' x = bsize st x)"
proof -
  let ?k = "kern st" let ?b = "unat (cur (kern st))" let ?n = "alloc_size sz"
  have k: "ok ?k" and H: "heap_ok (unat (base ?k)) ?b st fs L" using assms(1) by (simp_all add: uinv_def)
  have sv: "unat sz < 2 ^ 30" "room ?n ?k" "?b + unat ?n < unat (base ?k) + 2 ^ 31" using assms(2) by (simp_all add: fits_def)
  note f = alloc_size_fits(2-5) [OF sv(1)]
  obtain k' where k': "sbrk ?n ?k = Some (cur ?k, k')" "ok k'" "unat (cur k') = ?b + unat ?n" "base k' = base ?k"
    using grow [OF k f(4,3) sv(2)] by blast
  have b0: "cur ?k \<noteq> 0" using range [OF k] by auto
  define st' where "st' = upd_block ?b (\<lambda>_. \<lparr>b_prev = 0, b_next = 0, b_size = ucast (?n - of_nat BLOCK_META_SIZE)\<rparr>) (st\<lparr>kern := k'\<rparr>)"
  let ?S = "set fs \<union> L"
  have below: "x < ?b" "bend st x \<le> ?b" if "x \<in> ?S" for x
  proof -
    show "bend st x \<le> ?b" using H that by (simp add: heap_ok_def)
    then show "x < ?b" by (simp add: bend_def BLOCK_META_SIZE_def)
  qed
  have nb: "?b \<notin> ?S" using below(1) by blast
  have "unat (?n - 24) = unat ?n - 24" using f(1) by (simp add: unat_sub word_le_nat_alt BLOCK_META_SIZE_def)
  then have u: "unat (ucast (?n - 24) :: u32) = unat ?n - 24" using f(2) by (simp add: unsigned_ucast_eq take_bit_nat_eq_self)
  have sz: "bsize st' ?b = unat ?n - BLOCK_META_SIZE" using u by (simp add: st'_def upd_block_def bsize_def BLOCK_META_SIZE_def)
  have be: "bend st' ?b = ?b + unat ?n" using sz f(1) by (simp add: bend_def)
  have other: "bsize st' x = bsize st x" "bend st' x = bend st x" if "x \<in> ?S" for x using nb that by (auto simp: st'_def upd_block_def bsize_def bend_def)
  have "chained (bnext st) (bprev st) (block_head st) fs" using H by (simp add: heap_ok_def)
  then have c: "chained (bnext st') (bprev st') (block_head st) fs" by (rule chained_cong) (use nb in \<open>auto simp: st'_def upd_block_def\<close>)
  have ap: "apart st' (insert ?b ?S)" using H other below unfolding apart_def heap_ok_def by (auto simp: be) (metis UnCI less_imp_not_less)+
  have S: "set fs \<union> insert ?b L = insert ?b ?S" by auto
  have "heap_ok (unat (base ?k)) (?b + unat ?n) st' fs (insert ?b L)"
    unfolding heap_ok_def S
  proof (intro conjI)
    show "chained (bnext st') (bprev st') (block_head st') fs" using c by (simp add: st'_def upd_block_def)
    show "\<forall>b \<in> insert ?b ?S. unat (base ?k) \<le> b \<and> bend st' b \<le> ?b + unat ?n \<and> bsize st' b < 2 ^ 31"
      using H other below be sz f(2) by (auto simp: heap_ok_def intro: le_SucI trans_le_add1)
    show "?b + unat ?n < 2 ^ 64" using unsigned_less [where 'a = nat, of "cur k'"] k'(3) by simp
    show "?b + unat ?n < unat (base ?k) + 2 ^ 31" by (rule sv(3))
  qed (use H nb ap in \<open>auto simp: heap_ok_def\<close>)
  then have "uinv st' fs (insert ?b L)" using k' by (simp add: uinv_def st'_def upd_block_def)
  then show ?thesis using k'(1) b0 nb sz other unfolding st'_def by blast
qed

text \<open>
  An allocation returns a block that was not in use and is large enough, unless the size is one of the short ones and no free block is large enough.
\<close>

theorem malloc_block:
  assumes "uinv st fs L" "fits sz st"
  shows "\<exists>b st' fs'. malloc sbrk sz st = Some (b + BLOCK_META_SIZE, st') \<and> b \<notin> L \<and> uinv st' fs' (insert b L) \<and>
    (if short_request sz \<and> (\<forall>x \<in> set fs. bsize st x < unat sz) then bsize st' b = unat ALLOC_UNIT - BLOCK_META_SIZE else unat sz \<le> bsize st' b) \<and>
    (\<forall>x \<in> L. bsize st' x = bsize st x)"
proof -
  have k: "ok (kern st)" and H: "heap_ok (unat (base (kern st))) (unat (cur (kern st))) st fs L" using assms(1) by (simp_all add: uinv_def)
  have lsz: "lsize st x < sz \<longleftrightarrow> bsize st x < unat sz" if "x \<in> set fs" for x using H that by (simp add: heap_ok_def word_less_nat_alt unat_lsize)
  have c: "chained (bnext st) (bprev st) (block_head st) fs" using H by (simp add: heap_ok_def)
  then have hd: "block_head st = hd (fs @ [0])" by (simp add: chained_def)
  obtain p where p: "find_fit (block_head st) sz st = Some p" "p = 0 \<Longrightarrow> \<forall>x \<in> set fs. bsize st x < unat sz" "p \<noteq> 0 \<Longrightarrow> p \<in> set fs \<and> sz \<le> lsize st p"
    using find_fit_first [of st _ "[]" fs sz] c lsz unfolding hd by auto
  show ?thesis
  proof (cases "p = 0")
    case False
    obtain xs ys where fs: "fs = xs @ p # ys" using p(3) False by (meson split_list)
    have big: "\<not> (\<forall>x \<in> set fs. bsize st x < unat sz)" using p(3) [OF False] lsz [of p] by (metis leD)
    define st1 where "st1 = remove_from_freelist p st"
    have r: "heap_ok (unat (base (kern st))) (unat (cur (kern st))) st1 (xs @ ys) (insert p L)" "sized_alike st1 st" "p \<notin> L"
      using take_free [OF H [unfolded fs]] remove_from_freelist_chained(2) [OF c [unfolded fs]] H fs by (auto simp: st1_def heap_ok_def)
    have bs: "bsize st1 p < 2 ^ 31" using r(1) by (simp add: heap_ok_def)
    have le: "unat sz \<le> bsize st1 p" using p(3) [OF False] sized_alikeD(3) [OF r(2)] unat_lsize [OF bs] by (simp add: word_le_nat_alt)
    note s = sized_alikeD [OF r(2)]
    have L: "\<forall>x \<in> L. bsize st1 x = bsize st x" by (simp add: s(1))
    obtain st' fs' where a: "add_rest (split_block p sz st1) = Some st'" "heap_ok (unat (base (kern st))) (unat (cur (kern st))) st' fs' (insert p L)"
      "unat sz \<le> bsize st' p" "\<forall>x \<in> L. bsize st' x = bsize st1 x" "kern st' = kern st1" using split_and_add [OF r(1,3) le] by blast
    have m: "malloc sbrk sz st = (if lsize st1 p = sz then Some (p + BLOCK_META_SIZE, st1) else Some (p + BLOCK_META_SIZE, st'))"
      using p(1) False a(1) by (simp add: malloc_def Let_def st1_def)
    have "uinv st1 (xs @ ys) (insert p L)" "uinv st' fs' (insert p L)" using r(1) a(2,5) k by (simp_all add: uinv_def s(5))
    then show ?thesis using m r(3) le a(3,4) L big by (cases "lsize st1 p = sz") auto
  next
    case True
    let ?b = "unat (cur (kern st))"
    obtain k' st1 where f: "sbrk (alloc_size sz) (kern st) = Some (cur (kern st), k')" "cur (kern st) \<noteq> 0"
      "st1 = upd_block ?b (\<lambda>_. \<lparr>b_prev = 0, b_next = 0, b_size = ucast (alloc_size sz - of_nat BLOCK_META_SIZE)\<rparr>) (st\<lparr>kern := k'\<rparr>)"
      "uinv st1 fs (insert ?b L)" "?b \<notin> L" "bsize st1 ?b = unat (alloc_size sz) - BLOCK_META_SIZE" "\<forall>x \<in> L. bsize st1 x = bsize st x"
      using fresh_block [OF assms] by blast
    have b: "?b \<noteq> 0" using f(2) by (simp add: unat_eq_zero)
    show ?thesis
    proof (cases "short_request sz")
      case True
      then have "malloc sbrk sz st = Some (?b + BLOCK_META_SIZE, st1)"
        using p(1) \<open>p = 0\<close> f(1) b alloc_size_short(2) [OF True] unfolding f(3) by (simp add: malloc_def Let_def)
      then show ?thesis using f(4-7) True p(2) [OF \<open>p = 0\<close>] alloc_size_short(1) [OF True] by auto
    next
      case long: False
      have le: "unat sz \<le> bsize st1 ?b" using f(6) alloc_size_large [OF _ long] assms(2) by (simp add: fits_def)
      obtain st' fs' where a: "add_rest (split_block ?b sz st1) = Some st'"
        "heap_ok (unat (base (kern st1))) (unat (cur (kern st1))) st' fs' (insert ?b L)" "unat sz \<le> bsize st' ?b" "\<forall>x \<in> L. bsize st' x = bsize st1 x" "kern st' = kern st1"
        using split_and_add [OF _ f(5) le] f(4) unfolding uinv_def by blast
      have m: "malloc sbrk sz st = (if alloc_size sz > sz + of_nat BLOCK_META_SIZE then Some (?b + BLOCK_META_SIZE, st') else Some (?b + BLOCK_META_SIZE, st1))"
        using p(1) True f(1) b a(1) unfolding f(3) by (simp add: malloc_def Let_def)
      have "uinv st' fs' (insert ?b L)" using a(2,5) f(4) by (simp add: uinv_def)
      then show ?thesis using m f(4,5,7) le a(3,4) long by (cases "alloc_size sz > sz + of_nat BLOCK_META_SIZE") auto
    qed
  qed
qed

text \<open>
  The state in which the last free block ends a page above the break, with its header at the break or beyond.
\<close>

definition overhang :: "'k uheap \<Rightarrow> nat list \<Rightarrow> nat set \<Rightarrow> bool" where
  "overhang st fs L \<longleftrightarrow> ok (kern st) \<and> heap_ok (unat (base (kern st))) (unat (cur (kern st)) + 4096) st fs L \<and> fs \<noteq> [] \<and>
     bend st (last fs) = unat (cur (kern st)) + 4096 \<and> unat (cur (kern st)) \<le> last fs + BLOCK_META_SIZE \<and>
     (\<forall>x \<in> set (butlast fs) \<union> L. bend st x \<le> unat (cur (kern st)))"

lemma trim_aligned:
  assumes "uinv st (us @ [c]) L" "bend st c = unat (cur (kern st))" "c mod 4096 = 0"
    and st1: "st1 = remove_from_freelist c st"
  shows "\<exists>st'. set_break brk (of_nat c) st1 = Some st' \<and> uinv st' us L \<and> (\<forall>x. bsize st' x = bsize st x) \<and> block_head st1 \<noteq> c"
proof -
  let ?k = "kern st"
  have k: "ok ?k" and H: "heap_ok (unat (base ?k)) (unat (cur ?k)) st (us @ [c]) L" using assms(1) by (simp_all add: uinv_def)
  note bl = below_last [OF H assms(2)]
  have r: "chained (bnext st1) (bprev st1) (block_head st1) us" "sized_alike st1 st"
    using remove_from_freelist_chained [of st us c "[]"] heap_ok_chained [OF H] unfolding st1 by simp_all
  note s = sized_alikeD [OF r(2)]
  have c: "c < unat (cur ?k)" "unat (base ?k) \<le> c" "c \<noteq> 0" using assms(2) H by (auto simp: bend_def BLOCK_META_SIZE_def heap_ok_def)
  have u: "unat (of_nat c :: u64) = c" using c(1) unsigned_less [where 'a = nat, of "cur ?k"] by (simp add: unsigned_of_nat take_bit_nat_eq_self)
  obtain k' where k': "brk (of_nat c) ?k = Some (False, k')" "ok k'" "cur k' = of_nat c" "base k' = base ?k"
    using shrink [OF k, of "of_nat c"] u assms(3) c by (auto simp: word_le_nat_alt word_less_nat_alt)
  have hd: "block_head st1 \<noteq> c"
  proof
    assume "block_head st1 = c"
    then have "c \<in> set us" using r(1) c(3) by (cases us) (auto simp: chained_def)
    then show False using bl(1) [of c] by simp
  qed
  have S: "set us \<union> L \<subseteq> set (us @ [c]) \<union> L" by auto
  have "heap_ok (unat (base ?k)) c st1 us L" unfolding heap_ok_def s
  proof (intro conjI ballI)
    show "apart st (set us \<union> L)" using H S unfolding heap_ok_def apart_def by blast
    show "sorted_wrt (<) us" "set us \<inter> L = {}" using H by (auto simp: heap_ok_def sorted_wrt_append)
    fix x assume x: "x \<in> set us \<union> L"
    then show "bend st x \<le> c" by (rule bl(2))
    show "unat (base ?k) \<le> x" "bsize st x < 2 ^ 31" using x H S unfolding heap_ok_def by blast+
  qed (use r(1) c H in \<open>auto simp: heap_ok_def\<close>)
  then have "uinv (st1\<lparr>kern := k'\<rparr>) us L" using k' u by (simp add: uinv_def)
  then show ?thesis using k'(1) s hd by (simp add: set_break_def)
qed

text \<open>The break goes down to the end of the page in which the last block begins.\<close>

lemma trim_unaligned:
  assumes "uinv st (us @ [c]) L" "gapped st (us @ [c])" "c + t = unat (cur (kern st))" "t = bsize st c + 24" "4096 \<le> t" "c mod 4096 \<noteq> 0"
    and n: "unat n \<le> bsize st c" "unat n + 24 = t mod 4096 \<or> unat n + 24 = 4096 + t mod 4096 \<and> t mod 4096 \<le> 24 \<and> 1 < t div 4096"
  shows "\<exists>st'. set_break brk (PAGE_UP (of_nat c)) (upd_block c (\<lambda>x. x\<lparr>b_size := n\<rparr>) st) = Some st' \<and> (\<forall>x \<in> L. bsize st' x = bsize st x) \<and>
    gapped st' (us @ [c]) \<and> (uinv st' (us @ [c]) L \<or> overhang st' (us @ [c]) L)"
proof -
  let ?k = "kern st" let ?m = "t mod 4096" let ?hi = "unat (cur (kern st))"
  define st1 where "st1 = upd_block c (\<lambda>x. x\<lparr>b_size := n\<rparr>) st"
  have k: "ok ?k" and H: "heap_ok (unat (base ?k)) ?hi st (us @ [c]) L" using assms(1) by (simp_all add: uinv_def)
  have hib: "bend st c = ?hi" using assms(3,4) by (simp add: bend_def BLOCK_META_SIZE_def)
  have lt: "c + t < 2 ^ 64" "unat (base ?k) \<le> c" using H assms(3) by (simp_all add: heap_ok_def)
  have al: "(c + t) mod 4096 = 0" using assms(3) range [OF k] by simp
  have "unat (of_nat c :: u64) = c" using lt by (simp add: unsigned_of_nat take_bit_nat_eq_self)
  then have pu: "unat (PAGE_UP (of_nat c)) = c + ?m" using unat_PAGE_UP [of "of_nat c"] page_up_end [OF al] lt assms(5) by simp
  have m: "c + ?m < ?hi" "(c + ?m) mod 4096 = 0" using assms(3,5) al by (auto simp: mod_simps)
  obtain k' where k': "brk (PAGE_UP (of_nat c)) ?k = Some (False, k')" "ok k'" "unat (cur k') = c + ?m" "base k' = base ?k"
    using shrink [OF k, of "PAGE_UP (of_nat c)"] pu m lt(2) by (auto simp: word_le_nat_alt word_less_nat_alt)
  have bl: "x \<noteq> c" "bend st x \<le> c" if "x \<in> set us \<union> L" for x using below_last [OF H hib that] by auto
  have step: "set_break brk (PAGE_UP (of_nat c)) st1 = Some (st1\<lparr>kern := k'\<rparr>)" using k'(1) by (simp add: set_break_def st1_def upd_block_def)
  note rs = resize_last [OF H hib n(1) _ _ st1_def]
  show ?thesis
  proof (cases "unat n + 24 = ?m")
    case True
    note R = rs [of "c + ?m"]
    have R: "heap_ok (unat (base ?k)) (c + ?m) st1 (us @ [c]) L" "\<And>x. x \<noteq> c \<Longrightarrow> bsize st1 x = bsize st x" "\<And>x. x \<noteq> c \<Longrightarrow> bend st1 x = bend st x"
      using R True m(1) by (simp_all add: BLOCK_META_SIZE_def)
    have "gapped st1 (us @ [c])" using assms(2) gapped_cong [of us st1 st c] R(3) bl(1) by auto
    moreover have "uinv (st1\<lparr>kern := k'\<rparr>) (us @ [c]) L" using R(1) k' by (simp add: uinv_def)
    ultimately show ?thesis using step R(2) bl(1) unfolding st1_def [symmetric] by (intro exI [of _ "st1\<lparr>kern := k'\<rparr>"]) auto
  next
    case False
    then have n': "unat n + 24 = 4096 + ?m" "?m \<le> 24" "1 < t div 4096" using n(2) by auto
    have "t = t div 4096 * 4096 + ?m" by simp
    then have hi': "c + ?m + 4096 \<le> ?hi" using n'(3) assms(3) by linarith
    note R = rs [of "c + ?m + 4096"]
    have R: "heap_ok (unat (base ?k)) (c + ?m + 4096) st1 (us @ [c]) L" "bend st1 c = c + ?m + 4096" "\<And>x. x \<noteq> c \<Longrightarrow> bsize st1 x = bsize st x" "\<And>x. x \<noteq> c \<Longrightarrow> bend st1 x = bend st x"
      using R n'(1) hi' by (simp_all add: BLOCK_META_SIZE_def)
    have "gapped st1 (us @ [c])" using assms(2) gapped_cong [of us st1 st c] R(4) bl(1) by auto
    moreover have "overhang (st1\<lparr>kern := k'\<rparr>) (us @ [c]) L" using R k' n'(2) bl by (auto simp: overhang_def BLOCK_META_SIZE_def intro: trans_le_add1)
    ultimately show ?thesis using step R(3) bl(1) unfolding st1_def [symmetric] by (intro exI [of _ "st1\<lparr>kern := k'\<rparr>"]) auto
  qed
qed

lemma trim_ok:
  assumes "uinv st (us @ [c]) L" "gapped st (us @ [c])"
  shows "\<exists>st' fs'. trim brk c (cur (kern st)) st = Some st' \<and> (\<forall>x \<in> L. bsize st' x = bsize st x) \<and> gapped st' fs' \<and> (uinv st' fs' L \<or> overhang st' fs' L)"
proof -
  let ?k = "kern st" define hi where "hi = unat (cur ?k)" define t where "t = bsize st c + 24"
  have k: "ok ?k" and H: "heap_ok (unat (base ?k)) hi st (us @ [c]) L" using assms(1) by (simp_all add: uinv_def hi_def)
  have b: "bsize st c < 2147483648" "bend st c \<le> hi" "unat (base ?k) \<le> c" and hi64: "hi < 2 ^ 64" using H by (auto simp: heap_ok_def)
  define total where "total = lsize st c + of_nat BLOCK_META_SIZE"
  have ut: "unat total = t" using unat_lsize [of st c] b(1) by (simp add: total_def t_def BLOCK_META_SIZE_def unat_word_ariths)
  have be: "bend st c = c + t" by (simp add: bend_def t_def BLOCK_META_SIZE_def)
  have "unat (of_nat c + total :: u64) = c + t" using b(2) hi64 ut unfolding be by (simp add: unat_word_ariths unsigned_of_nat take_bit_nat_eq_self)
  then have eq: "of_nat c + total = cur ?k \<longleftrightarrow> c + t = hi" by (simp add: word_unat_eq_iff hi_def)
  have ge: "total \<ge> MIN_DEALLOC \<longleftrightarrow> t \<ge> 4096" by (simp add: word_le_nat_alt ut MIN_DEALLOC_def)
  have c64: "c < 2 ^ 64" using b(2) hi64 unfolding be by simp
  note al = aligned_iff [OF c64]
  have stay: ?thesis if "trim brk c (cur ?k) st = Some st" using that assms by blast
  show ?thesis
  proof (cases "c + t = hi \<and> t \<ge> 4096")
    case False
    then have "trim brk c (cur ?k) st = Some st" unfolding trim_def Let_def total_def [symmetric] eq ge by auto
    then show ?thesis by (rule stay)
  next
    case big: True
    then have hib: "bend st c = hi" using be by simp
    show ?thesis
    proof (cases "c mod 4096 = 0")
      case True
      obtain st' where st': "set_break brk (of_nat c) (remove_from_freelist c st) = Some st'" "uinv st' us L" "\<forall>x. bsize st' x = bsize st x"
        "block_head (remove_from_freelist c st) \<noteq> c" using trim_aligned [OF assms(1) _ True refl] hib by (auto simp: hi_def)
      have "trim brk c (cur ?k) st = Some st'" unfolding trim_def Let_def total_def [symmetric] eq ge al using big True st'(1,4) by simp
      moreover have "gapped st' us"
      proof -
        have "bend st' u = bend st u" for u using st'(3) by (simp add: bend_def)
        then show ?thesis using assms(2) by (simp add: gapped_def successively_append_iff)
      qed
      ultimately show ?thesis using st'(2,3) by blast
    next
      case unal: False
      note pc = page_count [OF ut]
      have t31: "t < 2 ^ 31 + 24" using b(1) by (simp add: t_def)
      note pc = pc [OF t31]
      define count where "count = (ucast (total div MIN_DEALLOC) :: u32)"
      note tr = trim_unaligned [OF assms _ t_def _ unal]
      have T: "trim brk c (cur ?k) st = (if t mod 4096 \<le> 24 \<and> t div 4096 = 1 then Some st
        else if 1 < t div 4096 \<and> t mod 4096 \<le> 24
        then set_break brk (PAGE_UP (of_nat c)) (upd_block c (\<lambda>x. x\<lparr>b_size := b_size (blocks st c) - (count - 1) * ucast MIN_DEALLOC\<rparr>) st)
        else if 1 < t div 4096 then set_break brk (PAGE_UP (of_nat c)) (upd_block c (\<lambda>x. x\<lparr>b_size := b_size (blocks st c) - count * ucast MIN_DEALLOC\<rparr>) st)
        else Some st)"
        unfolding trim_def Let_def total_def [symmetric] eq ge al pc count_def [symmetric] using big unal pc(2,3) by (simp add: upd_block_def count_def)
      have uc: "unat count = t div 4096" using pc(1) by (simp add: count_def)
      have tq: "t = t div 4096 * 4096 + t mod 4096" by simp
      have bs: "unat (b_size (blocks st c)) = bsize st c" by (simp add: bsize_def)
      consider "t div 4096 \<le> 1" | "1 < t div 4096" "t mod 4096 \<le> 24" | "1 < t div 4096" "24 < t mod 4096" by linarith
      then show ?thesis
      proof cases
        case 1
        then show ?thesis using T stay by auto
      next
        case 2
        define n where "n = b_size (blocks st c) - (count - 1) * ucast MIN_DEALLOC"
        have "unat (count - 1) = t div 4096 - 1" using uc 2(1) by (simp add: unat_sub word_le_nat_alt)
        moreover have "(t div 4096 - 1) * 4096 + 4096 = t div 4096 * 4096" using 2(1) by (simp add: diff_mult_distrib)
        moreover have "bsize st c + 24 = t" by (simp add: t_def)
        ultimately have "unat n = bsize st c - (t div 4096 - 1) * 4096" "(t div 4096 - 1) * 4096 \<le> bsize st c"
          using drop_pages [of "count - 1" "b_size (blocks st c)"] tq unfolding n_def bs by linarith+
        then have u: "unat n + 24 = 4096 + t mod 4096" "unat n \<le> bsize st c"
          using \<open>_ + 4096 = _\<close> \<open>bsize st c + 24 = t\<close> tq by linarith+
        show ?thesis using tr [of n] u 2 T big unfolding n_def [symmetric] by (auto simp: hi_def)
      next
        case 3
        define n where "n = b_size (blocks st c) - count * ucast MIN_DEALLOC"
        have "bsize st c + 24 = t" by (simp add: t_def)
        moreover have "unat n = bsize st c - t div 4096 * 4096" if "t div 4096 * 4096 \<le> bsize st c"
          using drop_pages [of count "b_size (blocks st c)"] that unfolding n_def bs uc by simp
        ultimately have u: "unat n + 24 = t mod 4096" "unat n \<le> bsize st c" using 3(2) tq by linarith+
        show ?thesis using tr [of n] u 3 T big unfolding n_def [symmetric] by (auto simp: hi_def)
      qed
    qed
  qed
qed

text \<open>Freeing a block.\<close>

theorem free_block:
  assumes "uinv st fs L" "b \<in> L"
  shows "\<exists>st' fs'. free sbrk brk (b + BLOCK_META_SIZE) st = Some st' \<and> (\<forall>x \<in> L - {b}. bsize st' x = bsize st x) \<and> gapped st' fs' \<and>
    (uinv st' fs' (L - {b}) \<or> overhang st' fs' (L - {b}))"
proof -
  let ?k = "kern st" let ?L = "L - {b}"
  have k: "ok ?k" and H: "heap_ok (unat (base ?k)) (unat (cur ?k)) st fs (insert b ?L)" using assms by (simp_all add: uinv_def insert_absorb)
  obtain st1 fs1 where a: "add_to_freelist b st = Some st1" "sized_alike st1 st" "heap_ok (unat (base ?k)) (unat (cur ?k)) st1 fs1 ?L" "set fs1 = insert b (set fs)"
    using give_free [OF H] by blast
  obtain c vs where c: "fs1 = c # vs" using a(4) by (cases fs1) auto
  have hd: "block_head st1 = c" using heap_ok_chained [OF a(3)] c by (simp add: chained_def)
  obtain st2 fs2 where m: "merge_loop c st1 = Some st2" "heap_ok (unat (base ?k)) (unat (cur ?k)) st2 fs2 ?L" "gapped st2 fs2" "fs2 \<noteq> []"
    "\<forall>x \<in> ?L. bsize st2 x = bsize st1 x" "kern st2 = kern st1" using merge_loop_ok [OF a(3) [unfolded c]] unfolding merged_def by blast
  have k2: "kern st2 = ?k" using m(6) sized_alikeD(5) [OF a(2)] by simp
  obtain us l where l: "fs2 = us @ [l]" using m(4) by (cases fs2 rule: rev_cases) auto
  have "last_block (block_head st2) st2 = Some l"
  proof -
    obtain h t where ht: "fs2 = h # t" using m(4) by (cases fs2) auto
    then have "block_head st2 = h" using heap_ok_chained [OF m(2)] by (simp add: chained_def)
    moreover have "last (h # t) = l" using ht l by (metis last_snoc)
    ultimately show ?thesis using last_block_last [of st2 _ "[]" h t] heap_ok_chained [OF m(2)] ht by simp
  qed
  moreover have "sbrk 0 ?k = Some (cur ?k, ?k)" "cur ?k \<noteq> 0" using ask [OF k] range [OF k] by auto
  moreover have e: "st2\<lparr>kern := kern st\<rparr> = st2" unfolding k2 [symmetric] by simp
  ultimately have "free sbrk brk (b + BLOCK_META_SIZE) st = trim brk l (cur (kern st2)) st2"
    using a(1) m(1) hd k2 by (simp add: free_def scan_and_merge_def Let_def e)
  moreover have "uinv st2 (us @ [l]) ?L" using m(2) k k2 l by (simp add: uinv_def)
  ultimately show ?thesis using trim_ok [of st2 us l ?L] m(3,5) l sized_alikeD(1) [OF a(2)] by auto
qed

end

end
