(* ===== verification/Uheap.thy ===== *)
theory Uheap
  imports Umalloc Mmap
begin

text \<open>
  The user heap on the kernel's address spaces: the system calls \<^verbatim>\<open>sbrk\<close> and \<^verbatim>\<open>brk\<close> of \<^verbatim>\<open>kernel/syscall_table.c\<close>, which hand over to theory Mmap, keep what
  theory Umalloc expects of them. The state of the kernel is the address space of the process and the object \<^verbatim>\<open>kmalloc\<close> returns
  next; a call that moves the break takes at most one.
\<close>

section \<open>The system calls\<close>

type_synonym kernel = "space \<times> nat"

definition sys_sbrk :: "u64 \<Rightarrow> kernel \<Rightarrow> (u64 \<times> kernel) option" where
  "sys_sbrk n = (\<lambda>(st, new). case sbrk new n st of Some (Inr (r, st)) \<Rightarrow> Some (r, (st, if n = 0 then new else Suc new)) | _ \<Rightarrow> None)"

definition sys_brk :: "u64 \<Rightarrow> kernel \<Rightarrow> (bool \<times> kernel) option" where
  "sys_brk a = (\<lambda>(st, new). case Mmap.sys_brk new a st of Some (Inr (r, st)) \<Rightarrow> Some (r, (st, Suc new)) | _ \<Rightarrow> None)"

definition cur_brk :: "kernel \<Rightarrow> u64" where "cur_brk k = brk (fst k)"

definition base_brk :: "kernel \<Rightarrow> u64" where "base_brk k = start_brk (fst k)"

text \<open>A well-formed heap area, and objects not used for an area yet.\<close>

definition kernel_ok_at :: "kernel \<Rightarrow> nat list \<Rightarrow> nat list \<Rightarrow> nat list \<Rightarrow> bool" where
  "kernel_ok_at k xs hp ys \<longleftrightarrow> heap_inv (fst k) xs hp ys \<and> (\<forall>a \<in> set (xs @ hp @ ys). a < snd k) \<and> 0 < snd k"

definition kernel_ok :: "kernel \<Rightarrow> bool" where "kernel_ok k \<longleftrightarrow> (\<exists>xs hp ys. kernel_ok_at k xs hp ys)"

text \<open>Room for \<open>n\<close> bytes between the break and the next area.\<close>

definition kernel_room :: "u64 \<Rightarrow> kernel \<Rightarrow> bool" where
  "kernel_room n k \<longleftrightarrow> (\<exists>xs hp ys. kernel_ok_at k xs hp ys \<and> unat (cur_brk k) + unat n \<le> unat USER_MEM_END \<and>
     (\<forall>y \<in> set ys. cur_brk k + n < vm_start (areas (fst k) y)))"

lemma kernel_range: "kernel_ok k \<Longrightarrow> 0 < base_brk k \<and> base_brk k \<le> cur_brk k \<and> unat (cur_brk k) mod 4096 = 0"
proof -
  assume "kernel_ok k"
  then have h: "USER_MEM_START \<le> base_brk k" "base_brk k \<le> cur_brk k" "cur_brk k mod PGSIZE = 0"
    by (auto simp: kernel_ok_def kernel_ok_at_def heap_inv_def base_brk_def cur_brk_def)
  have "0 < USER_MEM_START" by (simp add: layout_defs)
  then show ?thesis using h by (auto simp: page_aligned dvd_eq_mod_eq_0)
qed

lemma kernel_grow:
  assumes "n \<noteq> 0" "unat n mod 4096 = 0" "kernel_room n k"
  shows "\<exists>k'. sys_sbrk n k = Some (cur_brk k, k') \<and> kernel_ok k' \<and> unat (cur_brk k') = unat (cur_brk k) + unat n \<and> base_brk k' = base_brk k"
proof -
  obtain st new where k: "k = (st, new)" by fastforce
  obtain xs hp ys where h: "kernel_ok_at k xs hp ys" "unat (brk st) + unat n \<le> unat USER_MEM_END" "\<forall>y \<in> set ys. brk st + n < vm_start (areas st y)"
    using assms(3) by (auto simp: kernel_room_def cur_brk_def k)
  have inv: "heap_inv st xs hp ys" "new \<noteq> 0" "new \<notin> set (xs @ hp @ ys)" "\<forall>a \<in> set (xs @ hp @ ys). a < new" using h(1) by (auto simp: kernel_ok_at_def k)
  have al: "n mod PGSIZE = 0" using assms(2) by (simp add: page_aligned dvd_eq_mod_eq_0)
  obtain st' where s: "do_brk new (brk st + n) st = Some (Inr (brk st + n, st'))" "heap_inv st' xs (if hp = [] then [new] else hp) ys" "brk st' = brk st + n"
    "start_brk st' = start_brk st" using brk_grow [OF inv(1-3) al assms(1) h(2,3)] by blast
  have "sbrk new n st = Some (Inr (brk st, st'))" using s(1) assms(1) al by (simp add: sbrk_def)
  then have r: "sys_sbrk n k = Some (cur_brk k, (st', Suc new))" using assms(1) by (simp add: sys_sbrk_def k cur_brk_def)
  have "kernel_ok_at (st', Suc new) xs (if hp = [] then [new] else hp) ys" using s(2) inv(4) by (auto simp: kernel_ok_at_def less_Suc_eq)
  moreover have "unat (brk st + n) = unat (brk st) + unat n" using h(2) unsigned_less [where 'a = nat, of USER_MEM_END] by (intro word_add_unat) simp
  ultimately show ?thesis using r s(3,4) unfolding kernel_ok_def by (intro exI [of _ "(st', Suc new)"]) (auto simp: cur_brk_def base_brk_def k)
qed

lemma kernel_shrink:
  assumes "kernel_ok k" "unat a mod 4096 = 0" "base_brk k \<le> a" "a < cur_brk k"
  shows "\<exists>k'. sys_brk a k = Some (False, k') \<and> kernel_ok k' \<and> cur_brk k' = a \<and> base_brk k' = base_brk k"
proof -
  obtain st new where k: "k = (st, new)" by fastforce
  obtain xs hp ys where h: "heap_inv st xs hp ys" "\<forall>a \<in> set (xs @ hp @ ys). a < new" using assms(1) by (auto simp: kernel_ok_def kernel_ok_at_def k)
  define R where "R = brk st - a"
  have a: "start_brk st \<le> a" "a < brk st" using assms(3,4) by (simp_all add: k base_brk_def cur_brk_def)
  have u: "unat R = unat (brk st) - unat a" unfolding R_def using a by (simp add: unat_sub)
  have "4096 dvd unat (brk st)" using h(1) by (simp add: heap_inv_def page_aligned)
  then have al: "R mod PGSIZE = 0" using u assms(2) by (simp add: page_aligned dvd_eq_mod_eq_0 [symmetric] dvd_diff_nat)
  have R: "R \<noteq> 0" "R \<le> brk st - start_brk st" "brk st - R = a" using a u by (auto simp: R_def word_le_nat_alt unat_sub word_less_nat_alt order.trans)
  obtain st' where s: "do_brk new a st = Some (Inr (a, st'))" "heap_inv st' xs (if a = start_brk st then [] else hp) ys" "brk st' = a" "start_brk st' = start_brk st"
    using brk_shrink [OF h(1) al R(1,2)] unfolding R(3) by blast
  have "Mmap.sys_brk new a st = Some (Inr (False, st'))" using s(1) a(2) by (auto simp: Mmap.sys_brk_def)
  then have r: "sys_brk a k = Some (False, (st', Suc new))" by (simp add: sys_brk_def k)
  have "kernel_ok_at (st', Suc new) xs (if a = start_brk st then [] else hp) ys" using s(2) h(2) by (auto simp: kernel_ok_at_def less_Suc_eq)
  then show ?thesis using r s(3,4) unfolding kernel_ok_def by (intro exI [of _ "(st', Suc new)"]) (auto simp: cur_brk_def base_brk_def k)
qed

interpretation um: break_memory sys_sbrk sys_brk cur_brk base_brk kernel_ok kernel_room
proof unfold_locales
  fix k :: kernel and n a :: u64
  show "sys_sbrk 0 k = Some (cur_brk k, k)" by (cases k) (simp add: sys_sbrk_def sbrk_def cur_brk_def)
  show "0 < base_brk k \<and> base_brk k \<le> cur_brk k \<and> unat (cur_brk k) mod 4096 = 0" if "kernel_ok k" using that by (rule kernel_range)
  show "\<exists>k'. sys_sbrk n k = Some (cur_brk k, k') \<and> kernel_ok k' \<and> unat (cur_brk k') = unat (cur_brk k) + unat n \<and> base_brk k' = base_brk k"
    if "n \<noteq> 0" "unat n mod 4096 = 0" "kernel_room n k" using that by (rule kernel_grow)
  show "\<exists>k'. sys_brk a k = Some (False, k') \<and> kernel_ok k' \<and> cur_brk k' = a \<and> base_brk k' = base_brk k"
    if "kernel_ok k" "unat a mod 4096 = 0" "base_brk k \<le> a" "a < cur_brk k" using that by (rule kernel_shrink)
qed

section \<open>Properties\<close>

text \<open>A process with a well-formed address space whose heap holds free blocks \<open>fs\<close> and blocks \<open>L\<close> in use.\<close>

definition user_heap :: "kernel uheap \<Rightarrow> nat list \<Rightarrow> nat set \<Rightarrow> bool" where
  "user_heap st fs L \<longleftrightarrow> kernel_ok (kern st) \<and> heap_ok (unat (base_brk (kern st))) (unat (cur_brk (kern st))) st fs L"

definition heap_room :: "u64 \<Rightarrow> kernel uheap \<Rightarrow> bool" where
  "heap_room sz st \<longleftrightarrow> unat sz < 2 ^ 30 \<and> kernel_room (alloc_size sz) (kern st) \<and> unat (cur_brk (kern st)) + unat (alloc_size sz) < unat (base_brk (kern st)) + 2 ^ 31"

definition page_overhang :: "kernel uheap \<Rightarrow> nat list \<Rightarrow> nat set \<Rightarrow> bool" where
  "page_overhang st fs L \<longleftrightarrow> kernel_ok (kern st) \<and> heap_ok (unat (base_brk (kern st))) (unat (cur_brk (kern st)) + 4096) st fs L \<and> fs \<noteq> [] \<and>
     bend st (last fs) = unat (cur_brk (kern st)) + 4096 \<and> unat (cur_brk (kern st)) \<le> last fs + BLOCK_META_SIZE \<and>
     (\<forall>x \<in> set (butlast fs) \<union> L. bend st x \<le> unat (cur_brk (kern st)))"

lemma um_defs: "um.uinv = user_heap" "um.fits = heap_room" "um.overhang = page_overhang"
  by (simp_all add: fun_eq_iff um.uinv_def user_heap_def um.fits_def heap_room_def um.overhang_def page_overhang_def)

text \<open>
  C34: \<^verbatim>\<open>malloc\<close> on the kernel's \<^verbatim>\<open>sbrk\<close>. From a well-formed heap, a request of less than \<open>2 ^ 30\<close> bytes
  for which the kernel has room returns; the block returned was not in use and overlaps no other block; the free list stays sorted and
  linked both ways, all blocks lie between the start of the heap and the break, and the blocks in use keep their sizes. The block is at least as large as asked for, with one exception:
  a request of 12265 to 12287 bytes that no free block can hold is answered with a block of 12264 bytes, because the size is compared with the allocation unit without
  the header that the unit has to hold too.
\<close>

theorem malloc_correct:
  assumes "user_heap st fs L" "heap_room sz st"
  shows "\<exists>b st' fs'. malloc sys_sbrk sz st = Some (b + BLOCK_META_SIZE, st') \<and> b \<notin> L \<and> user_heap st' fs' (insert b L) \<and>
    (if 12264 < unat sz \<and> unat sz < 12288 \<and> (\<forall>x \<in> set fs. bsize st x < unat sz) then bsize st' b = 12264 else unat sz \<le> bsize st' b) \<and>
    (\<forall>x \<in> L. bsize st' x = bsize st x)"
proof -
  have s: "short_request sz \<longleftrightarrow> 12264 < unat sz \<and> unat sz < 12288"
    by (auto simp: short_request_def word_less_nat_alt ALLOC_UNIT_def BLOCK_META_SIZE_def)
  have u: "unat ALLOC_UNIT - BLOCK_META_SIZE = 12264" by (simp add: ALLOC_UNIT_def BLOCK_META_SIZE_def)
  show ?thesis using um.malloc_block [unfolded um_defs, OF assms] unfolding s u conj_assoc .
qed

definition sample_heap :: "kernel uheap" where
  "sample_heap = \<lparr>blocks = (\<lambda>_. \<lparr>b_prev = 0, b_next = 0, b_size = 0\<rparr>), block_head = 0, kern = (sample_space, 4)\<rparr>"

lemma sample_heap_ok: "user_heap sample_heap [] {}" "heap_room 100 sample_heap" "heap_room 12270 sample_heap"
proof -
  have "heap_inv sample_space [1] [] [2]" using sample_space_inv by (simp add: heap_inv_def) (simp add: sample_space_def layout_defs)
  then have at: "kernel_ok_at (sample_space, 4) [1] [] [2]" by (simp add: kernel_ok_at_def)
  then show "user_heap sample_heap [] {}" unfolding user_heap_def kernel_ok_def
    by (auto simp: sample_heap_def heap_ok_def chained_def apart_def base_brk_def cur_brk_def) (simp_all add: sample_space_def layout_defs)
  have "kernel_room ALLOC_UNIT (sample_space, 4)" unfolding kernel_room_def
    using at by (intro exI [of _ "[1]"] exI [of _ "[]"] exI [of _ "[2]"]) (simp add: cur_brk_def, simp add: sample_space_def layout_defs ALLOC_UNIT_def)
  then show "heap_room 100 sample_heap" "heap_room 12270 sample_heap"
    by (simp_all add: heap_room_def alloc_size_def BLOCK_META_SIZE_def sample_heap_def cur_brk_def base_brk_def) (simp_all add: sample_space_def layout_defs ALLOC_UNIT_def)
qed

theorem malloc_correct_witness:
  "(\<exists>b st' fs'. malloc sys_sbrk 100 sample_heap = Some (b + BLOCK_META_SIZE, st') \<and> user_heap st' fs' {b} \<and> 100 \<le> bsize st' b) \<and>
   (\<exists>b st' fs'. malloc sys_sbrk 12270 sample_heap = Some (b + BLOCK_META_SIZE, st') \<and> user_heap st' fs' {b} \<and> bsize st' b = 12264)"
  using malloc_correct [OF sample_heap_ok(1,2)] malloc_correct [OF sample_heap_ok(1,3)] by auto

text \<open>
  C27: \<^verbatim>\<open>free\<close> on the kernel's \<^verbatim>\<open>sbrk\<close> and \<^verbatim>\<open>brk\<close>. Freeing a block in use returns: the search restarted after every merge ends. Afterwards there is a gap between any two free blocks,
  the blocks still in use keep their sizes, and the heap is well formed up to the break, which has gone down when the last free block held whole pages at the end of
  the heap; except that the last free block can then end one page above the break, which happens only when its header fills the rest of its page.
\<close>

theorem free_correct:
  assumes "user_heap st fs L" "b \<in> L"
  shows "\<exists>st' fs'. free sys_sbrk sys_brk (b + BLOCK_META_SIZE) st = Some st' \<and> (\<forall>x \<in> L - {b}. bsize st' x = bsize st x) \<and> gapped st' fs' \<and>
    (user_heap st' fs' (L - {b}) \<or> page_overhang st' fs' (L - {b}))"
  using um.free_block [unfolded um_defs, OF assms] .

theorem free_correct_witness:
  "\<exists>b st st' fs'. malloc sys_sbrk 100 sample_heap = Some (b + BLOCK_META_SIZE, st) \<and> free sys_sbrk sys_brk (b + BLOCK_META_SIZE) st = Some st' \<and> gapped st' fs' \<and>
    (user_heap st' fs' {} \<or> page_overhang st' fs' {})"
proof -
  obtain b st fs where m: "malloc sys_sbrk 100 sample_heap = Some (b + BLOCK_META_SIZE, st)" "user_heap st fs (insert b {})"
    using um.malloc_block [unfolded um_defs, OF sample_heap_ok(1,2)] by blast
  show ?thesis using free_correct [OF m(2), of b] m(1) by auto
qed

end
