(* ===== verification/Sched.thy ===== *)
theory Sched
  imports Lists
begin

text \<open>
  The scheduler, \<^verbatim>\<open>kernel/sched.c\<close> and \<^verbatim>\<open>kernel/sched_simple.c\<close>, and wait queues, \<^verbatim>\<open>kernel/wait.c\<close>. Run queues and wait queues
  are lists of theory Lists in one store of cells; the \<^verbatim>\<open>run_list\<close> cell of a task is named by the address of the task, the
  \<^verbatim>\<open>entry\<close> cell of a wait queue entry by the address of the entry. Switching to another task is assembly: \<^verbatim>\<open>__schedule\<close> is modelled up to the
  choice of the next task. Messages and preemption counts are left out.
\<close>

section \<open>Data\<close>

definition NCPU :: nat where "NCPU = 8"
definition HZ :: u64 where "HZ = 250"
definition DEF_COUNTER :: u64 where "DEF_COUNTER = HZ div 10"

definition TASK_RUNNING :: u64 where "TASK_RUNNING = 0"
definition TASK_INTERRUPTIBLE :: u64 where "TASK_INTERRUPTIBLE = 1"
definition TASK_UNINTERRUPTIBLE :: u64 where "TASK_UNINTERRUPTIBLE = 2"
definition TASK_NORMAL :: u64 where "TASK_NORMAL = TASK_INTERRUPTIBLE OR TASK_UNINTERRUPTIBLE"

definition WQ_FLAG_EXCLUSIVE :: u32 where "WQ_FLAG_EXCLUSIVE = 1"
definition WQ_FLAG_BOOKMARK :: u32 where "WQ_FLAG_BOOKMARK = 4"
definition WQ_FLAG_PRIORITY :: u32 where "WQ_FLAG_PRIORITY = 0x20"
definition WAITQUEUE_WALK_BREAK_CNT :: nat where "WAITQUEUE_WALK_BREAK_CNT = 64"

record task =
  counter :: u32
  priority :: u64
  on_rq :: int
  need_resched :: u64
  state :: u64
  task_cpu :: nat
  next_task :: nat
  prev_task :: nat

record run_queue =
  rq_head :: nat
  nr_running :: u32
  nr_switches :: u64
  curr :: nat

datatype wake_func = Default_wake | Autoremove_wake

record wq_entry =
  wq_flags :: u32
  wq_task :: nat
  wq_func :: wake_func

record sched =
  links :: list_store
  tasks :: "nat \<Rightarrow> task"
  rqs :: "nat \<Rightarrow> run_queue"
  entries :: "nat \<Rightarrow> wq_entry"

definition upd_task :: "nat \<Rightarrow> (task \<Rightarrow> task) \<Rightarrow> sched \<Rightarrow> sched" where
  "upd_task p f s = s\<lparr>tasks := (tasks s)(p := f (tasks s p))\<rparr>"

definition upd_rq :: "nat \<Rightarrow> (run_queue \<Rightarrow> run_queue) \<Rightarrow> sched \<Rightarrow> sched" where
  "upd_rq c f s = s\<lparr>rqs := (rqs s)(c := f (rqs s c))\<rparr>"

definition upd_entry :: "nat \<Rightarrow> (wq_entry \<Rightarrow> wq_entry) \<Rightarrow> sched \<Rightarrow> sched" where
  "upd_entry e f s = s\<lparr>entries := (entries s)(e := f (entries s e))\<rparr>"

section \<open>Run queues\<close>

definition sched_init :: "nat \<Rightarrow> sched \<Rightarrow> sched" where
  "sched_init c s =
     upd_rq c (\<lambda>rq. rq\<lparr>nr_running := 0, nr_switches := 0, curr := 0\<rparr>) (s\<lparr>links := INIT_LIST_HEAD (rq_head (rqs s c)) (links s)\<rparr>)"

definition dequeue_task_simple :: "nat \<Rightarrow> nat \<Rightarrow> sched \<Rightarrow> sched" where
  "dequeue_task_simple c p s =
     (if on_rq (tasks s p) = 1
      then let s = upd_rq c (\<lambda>rq. rq\<lparr>nr_running := nr_running rq - 1\<rparr>) s;
               s = upd_task p (\<lambda>t. t\<lparr>on_rq := 0\<rparr>) s
           in s\<lparr>links := list_del p (links s)\<rparr>
      else s)"

definition enqueue_task_simple :: "nat \<Rightarrow> nat \<Rightarrow> sched \<Rightarrow> sched" where
  "enqueue_task_simple c p s =
     (if on_rq (tasks s p) = 0
      then let s = s\<lparr>links := list_add p (rq_head (rqs s c)) (links s)\<rparr>;
               s = upd_task p (\<lambda>t. t\<lparr>on_rq := 1\<rparr>) s
           in upd_rq c (\<lambda>rq. rq\<lparr>nr_running := nr_running rq + 1\<rparr>) s
      else s)"

definition goodness :: "task \<Rightarrow> int" where "goodness t = sint (counter t)"

text \<open>The sum is computed in 64 bits and stored in an \<^verbatim>\<open>int\<close>.\<close>

definition refill :: "task \<Rightarrow> task" where
  "refill t = (if sint (counter t) \<le> 0 then t\<lparr>counter := ucast (DEF_COUNTER + priority t)\<rparr> else t)"

partial_function (option) for_each_task_reset :: "nat \<Rightarrow> nat \<Rightarrow> sched \<Rightarrow> sched option" where
  "for_each_task_reset init p s =
     (let p = next_task (tasks s p)
      in if p = init then Some s else for_each_task_reset init p (upd_task p refill s))"

definition reset_score :: "nat \<Rightarrow> sched \<Rightarrow> sched option" where
  "reset_score init s = map_option (upd_task init refill) (for_each_task_reset init init s)"

text \<open>\<open>best\<close> is \<open>None\<close> as long as the variable \<^verbatim>\<open>next\<close> has no value.\<close>

partial_function (option) pick_scan :: "nat \<Rightarrow> sched \<Rightarrow> nat \<Rightarrow> int \<Rightarrow> nat option \<Rightarrow> (int \<times> nat option) option" where
  "pick_scan head s tmp c best =
     (if list_is_head tmp head then Some (c, best)
      else let weight = goodness (tasks s tmp)
           in if weight > c then pick_scan head s (nxt (links s tmp)) weight (Some tmp)
              else pick_scan head s (nxt (links s tmp)) c best)"

partial_function (option) pick_next_task_simple :: "nat \<Rightarrow> nat \<Rightarrow> sched \<Rightarrow> (nat option \<times> sched) option" where
  "pick_next_task_simple init c s =
     (case pick_scan (rq_head (rqs s c)) s (nxt (links s (rq_head (rqs s c)))) (-1000) None of
        None \<Rightarrow> None
      | Some (w, best) \<Rightarrow>
          if w = 0
          then (case reset_score init s of None \<Rightarrow> None | Some s \<Rightarrow> pick_next_task_simple init c s)
          else Some (best, s))"

definition task_tick_simple :: "nat \<Rightarrow> sched \<Rightarrow> sched" where
  "task_tick_simple p s =
     upd_task p (\<lambda>t. let t = t\<lparr>counter := counter t - 1\<rparr>
       in if sint (counter t) \<le> 0 then t\<lparr>counter := 0, need_resched := 1\<rparr> else t) s"

text \<open>Up to the switch: the task that runs next, and the state.\<close>

definition uu_schedule :: "nat \<Rightarrow> nat \<Rightarrow> nat \<Rightarrow> sched \<Rightarrow> (nat option \<times> sched) option" where
  "uu_schedule init c prev s =
     (let s = (if state (tasks s prev) \<noteq> TASK_RUNNING then dequeue_task_simple c prev s else s)
      in map_option (\<lambda>(best, s). (best, upd_task prev (\<lambda>t. t\<lparr>need_resched := 0\<rparr>) s)) (pick_next_task_simple init c s))"

text \<open>\<^verbatim>\<open>task_on_runqueue\<close> asks whether the cell of the task is linked.\<close>

definition wake_up_process :: "nat \<Rightarrow> nat \<Rightarrow> sched \<Rightarrow> sched" where
  "wake_up_process c p s =
     (let s = upd_task p (\<lambda>t. t\<lparr>state := TASK_RUNNING\<rparr>) s
      in if nxt (links s p) = 0 then enqueue_task_simple c p s else s)"

section \<open>Waking up\<close>

definition cpu_rq :: "nat \<Rightarrow> nat result" where
  "cpu_rq c = (if c \<ge> NCPU then Inl (Panic ''cpu_rq'') else Inr c)"

definition activate_task :: "nat \<Rightarrow> nat \<Rightarrow> sched \<Rightarrow> sched" where
  "activate_task c p s = upd_task p (\<lambda>t. t\<lparr>on_rq := 1\<rparr>) (enqueue_task_simple c p s)"

definition try_to_wake_up :: "nat \<Rightarrow> nat \<Rightarrow> u64 \<Rightarrow> sched \<Rightarrow> (int \<times> sched) result" where
  "try_to_wake_up current p mode s =
     (if p = current
      then if state (tasks s p) AND mode = 0 then Inr (0, s)
           else Inr (0, upd_task p (\<lambda>t. t\<lparr>state := TASK_RUNNING\<rparr>) s)
      else bindR (cpu_rq (task_cpu (tasks s p))) (\<lambda>c. Inr (0, activate_task c p s)))"

definition wake_func :: "nat \<Rightarrow> nat \<Rightarrow> u64 \<Rightarrow> sched \<Rightarrow> (int \<times> sched) result" where
  "wake_func current e mode s =
     bindR (try_to_wake_up current (wq_task (entries s e)) mode s) (\<lambda>(ret, s).
       case wq_func (entries s e) of
         Default_wake \<Rightarrow> Inr (ret, s)
       | Autoremove_wake \<Rightarrow> Inr (ret, if ret \<noteq> 0 then s\<lparr>links := list_del_init_careful e (links s)\<rparr> else s))"

partial_function (option) wake_loop ::
    "nat \<Rightarrow> u64 \<Rightarrow> nat \<Rightarrow> nat \<Rightarrow> nat \<Rightarrow> nat \<Rightarrow> int \<Rightarrow> nat \<Rightarrow> sched \<Rightarrow> (int \<times> sched) result option" where
  "wake_loop current mode head bookmark e after nr cnt s =
     (if e = head then Some (Inr (nr, s))
      else let flags = wq_flags (entries s e)
           in if flags AND WQ_FLAG_BOOKMARK \<noteq> 0
              then wake_loop current mode head bookmark after (nxt (links s after)) nr cnt s
              else case wake_func current e mode s of
                     Inl f \<Rightarrow> Some (Inl f)
                   | Inr (ret, s) \<Rightarrow>
                       if ret < 0 then Some (Inr (nr, s))
                       else let counts = ret \<noteq> 0 \<and> flags AND WQ_FLAG_EXCLUSIVE \<noteq> 0;
                                nr = (if counts then nr - 1 else nr)
                            in if counts \<and> nr = 0 then Some (Inr (nr, s))
                               else if cnt + 1 > WAITQUEUE_WALK_BREAK_CNT \<and> after \<noteq> head
                               then Some (Inr (nr, (upd_entry bookmark (\<lambda>b. b\<lparr>wq_flags := WQ_FLAG_BOOKMARK\<rparr>) s)\<lparr>links := list_add_tail bookmark after (links s)\<rparr>))
                               else wake_loop current mode head bookmark after (nxt (links s after)) nr (cnt + 1) s)"

definition uu_wake_up_common :: "nat \<Rightarrow> u64 \<Rightarrow> nat \<Rightarrow> nat \<Rightarrow> int \<Rightarrow> sched \<Rightarrow> (int \<times> sched) result option" where
  "uu_wake_up_common current mode head bookmark nr s =
     (let (e, s) = (if wq_flags (entries s bookmark) AND WQ_FLAG_BOOKMARK \<noteq> 0
                    then (nxt (links s bookmark), upd_entry bookmark (\<lambda>b. b\<lparr>wq_flags := 0\<rparr>) (s\<lparr>links := list_del bookmark (links s)\<rparr>))
                    else (nxt (links s head), s))
      in if e = head then Some (Inr (nr, s)) else wake_loop current mode head bookmark e (nxt (links s e)) nr 0 s)"

partial_function (option) wake_rounds :: "nat \<Rightarrow> u64 \<Rightarrow> nat \<Rightarrow> nat \<Rightarrow> int \<Rightarrow> sched \<Rightarrow> sched result option" where
  "wake_rounds current mode head bookmark nr s =
     (case uu_wake_up_common current mode head bookmark nr s of
        None \<Rightarrow> None
      | Some (Inl f) \<Rightarrow> Some (Inl f)
      | Some (Inr (nr, s)) \<Rightarrow>
          if wq_flags (entries s bookmark) AND WQ_FLAG_BOOKMARK \<noteq> 0 then wake_rounds current mode head bookmark nr s
          else Some (Inr s))"

text \<open>\<open>bookmark\<close> is the address of the local variable of that name.\<close>

definition uu_wake_up :: "nat \<Rightarrow> nat \<Rightarrow> nat \<Rightarrow> u64 \<Rightarrow> int \<Rightarrow> sched \<Rightarrow> sched result option" where
  "uu_wake_up current head bookmark mode nr s =
     (let s = upd_entry bookmark (\<lambda>_. \<lparr>wq_flags = 0, wq_task = 0, wq_func = Default_wake\<rparr>) s;
          s = s\<lparr>links := INIT_LIST_HEAD bookmark (links s)\<rparr>
      in wake_rounds current mode head bookmark nr s)"

definition wake_up :: "nat \<Rightarrow> nat \<Rightarrow> nat \<Rightarrow> sched \<Rightarrow> sched result option" where
  "wake_up current head bookmark s = uu_wake_up current head bookmark TASK_NORMAL 1 s"

section \<open>Waiting\<close>

definition init_wait_entry :: "nat \<Rightarrow> nat \<Rightarrow> u32 \<Rightarrow> sched \<Rightarrow> sched" where
  "init_wait_entry current e flags s =
     (upd_entry e (\<lambda>_. \<lparr>wq_flags = flags, wq_task = current, wq_func = Autoremove_wake\<rparr>) s)\<lparr>links := INIT_LIST_HEAD e (links s)\<rparr>"

text \<open>The place behind the entries with priority at the front of the queue.\<close>

partial_function (option) priority_end :: "nat \<Rightarrow> nat \<Rightarrow> nat \<Rightarrow> sched \<Rightarrow> nat option" where
  "priority_end head place wq s =
     (if wq = head then Some place
      else if wq_flags (entries s wq) AND WQ_FLAG_PRIORITY = 0 then Some place
      else priority_end head wq (nxt (links s wq)) s)"

definition uu_add_wait_queue :: "nat \<Rightarrow> nat \<Rightarrow> sched \<Rightarrow> sched option" where
  "uu_add_wait_queue head e s =
     map_option (\<lambda>place. s\<lparr>links := list_add e place (links s)\<rparr>) (priority_end head head (nxt (links s head)) s)"

definition prepare_to_wait_event :: "nat \<Rightarrow> nat \<Rightarrow> nat \<Rightarrow> u64 \<Rightarrow> sched \<Rightarrow> sched option" where
  "prepare_to_wait_event current head e st s =
     (if list_empty e (links s)
      then map_option (upd_task current (\<lambda>t. t\<lparr>state := st\<rparr>))
             (if wq_flags (entries s e) AND WQ_FLAG_EXCLUSIVE \<noteq> 0 then Some (s\<lparr>links := list_add_tail e head (links s)\<rparr>)
              else uu_add_wait_queue head e s)
      else Some s)"

definition finish_wait :: "nat \<Rightarrow> nat \<Rightarrow> sched \<Rightarrow> sched" where
  "finish_wait current e s =
     (let s = upd_task current (\<lambda>t. t\<lparr>state := TASK_RUNNING\<rparr>) s
      in if \<not> list_empty_careful e (links s) then s\<lparr>links := list_del_init e (links s)\<rparr> else s)"

section \<open>Choosing a task\<close>

text \<open>The scan is a fold over the list that looks for the first task with the largest counter.\<close>

definition better :: "sched \<Rightarrow> int \<times> nat option \<Rightarrow> nat \<Rightarrow> int \<times> nat option" where
  "better s = (\<lambda>(c, best) p. if goodness (tasks s p) > c then (goodness (tasks s p), Some p) else (c, best))"

lemma pick_scan_fold:
  "seg (links s) a ys head \<Longrightarrow> head \<notin> set ys \<Longrightarrow> pick_scan head s (nxt (links s a)) c best = Some (foldl (better s) (c, best) ys)"
proof (induction ys arbitrary: a c best)
  case Nil
  then show ?case by (simp add: pick_scan.simps list_is_head_def)
next
  case (Cons y ys)
  then show ?case by (subst pick_scan.simps) (auto simp: list_is_head_def better_def)
qed

lemma better_max:
  "\<forall>q \<in> set ys. goodness (tasks s q) \<le> fst (foldl (better s) (c, best) ys)"
  "c \<le> fst (foldl (better s) (c, best) ys)"
  "foldl (better s) (c, best) ys = (c, best) \<or> (\<exists>p \<in> set ys. foldl (better s) (c, best) ys = (goodness (tasks s p), Some p))"
proof (induction ys arbitrary: c best)
  case (Cons y ys)
  {
    case 1
    show ?case using Cons(1,2) by (auto simp: better_def) (meson linorder_not_le order_trans)+
  next
    case 2
    show ?case using Cons(2) by (auto simp: better_def intro: order_trans [OF less_imp_le])
  next
    case 3
    show ?case using Cons(3) by (fastforce simp: better_def)
  }
qed simp_all

lemma pick_scan_best:
  assumes "dll (links s) head xs" "xs \<noteq> []" "\<forall>q \<in> set xs. -1000 < goodness (tasks s q)"
  shows "\<exists>p \<in> set xs. pick_scan head s (nxt (links s head)) (-1000) None = Some (goodness (tasks s p), Some p) \<and>
    (\<forall>q \<in> set xs. goodness (tasks s q) \<le> goodness (tasks s p))"
proof -
  let ?r = "foldl (better s) (-1000, None) xs"
  have r: "pick_scan head s (nxt (links s head)) (-1000) None = Some ?r" using assms(1) by (intro pick_scan_fold) (auto simp: dll_def)
  have "-1000 < fst ?r" using better_max(1) [where ys = xs and s = s] assms(2,3) by (metis last_in_set order.strict_trans2)
  then obtain p where "p \<in> set xs" "?r = (goodness (tasks s p), Some p)" using better_max(3) [of s "-1000" None xs] by force
  then show ?thesis using r better_max(1) [where ys = xs and s = s] by (metis fst_conv)
qed

text \<open>The ring of tasks.\<close>

fun task_path :: "(nat \<Rightarrow> task) \<Rightarrow> nat \<Rightarrow> nat list \<Rightarrow> nat \<Rightarrow> bool" where
  "task_path t a [] b \<longleftrightarrow> next_task (t a) = b"
| "task_path t a (p # ps) b \<longleftrightarrow> next_task (t a) = p \<and> task_path t p ps b"

lemma next_task_refill [simp]: "next_task (tasks (upd_task p refill s) q) = next_task (tasks s q)"
  by (simp add: upd_task_def refill_def)

lemma task_path_cong: "(\<And>q. next_task (t' q) = next_task (t q)) \<Longrightarrow> task_path t' a ps b = task_path t a ps b"
  by (induction ps arbitrary: a) simp_all

lemma reset_loop: "task_path (tasks s) a ps init \<Longrightarrow> init \<notin> set ps \<Longrightarrow> for_each_task_reset init a s = Some (fold (\<lambda>p. upd_task p refill) ps s)"
proof (induction ps arbitrary: a s)
  case (Cons p ps)
  then have "task_path (tasks (upd_task p refill s)) p ps init" using task_path_cong [of "tasks (upd_task p refill s)" "tasks s"] by simp
  then show ?case using Cons by (subst for_each_task_reset.simps) (simp add: Let_def)
qed (simp add: for_each_task_reset.simps)

lemma fold_refill:
  "distinct ps \<Longrightarrow> fold (\<lambda>p. upd_task p refill) ps s = s\<lparr>tasks := (\<lambda>q. if q \<in> set ps then refill (tasks s q) else tasks s q)\<rparr>"
proof (induction ps arbitrary: s)
  case (Cons p ps)
  then show ?case by (auto simp: upd_task_def fun_eq_iff intro!: sched.equality)
qed (simp add: fun_eq_iff)

lemma reset_score_refills:
  assumes "task_path (tasks s) init ps init" "distinct (init # ps)"
  shows "reset_score init s = Some (s\<lparr>tasks := (\<lambda>q. if q \<in> set (init # ps) then refill (tasks s q) else tasks s q)\<rparr>)"
proof -
  have "reset_score init s = Some (fold (\<lambda>p. upd_task p refill) (ps @ [init]) s)" using reset_loop [OF assms(1)] assms(2) by (simp add: reset_score_def)
  then show ?thesis using fold_refill [of "ps @ [init]" s] assms(2) by (simp add: insert_commute)
qed

lemma refill_positive:
  assumes "0 \<le> sint (counter t)" "unat (priority t) < 2 ^ 30"
  shows "0 < sint (counter (refill t))"
proof (cases "sint (counter t) \<le> 0")
  case True
  let ?w = "DEF_COUNTER + priority t"
  have "unat ?w = 25 + unat (priority t)" using assms(2) by (simp add: DEF_COUNTER_def HZ_def unat_word_ariths)
  then have "0 < unat ?w" "unat ?w < 2147483648" using assms(2) by simp_all
  moreover have "int (unat ?w) = uint ?w" by simp
  ultimately have w: "0 < uint ?w" "uint ?w < 2147483648" by linarith+
  have u: "uint (ucast ?w :: u32) = uint ?w" by (simp only: unsigned_ucast_eq) (rule take_bit_int_eq_self, use w in simp_all)
  have "sint (ucast ?w :: u32) = uint ?w" unfolding sint_uint u using w by (simp add: signed_take_bit_int_eq_self)
  then show ?thesis using True w(1) by (simp add: refill_def)
qed (simp add: refill_def)

section \<open>Run queues and waking\<close>

text \<open>
  Run queues \<open>R\<close> of the CPUs for tasks \<open>T\<close>: each is the list at its head, no two share a cell, and a task is in
  the queue of its CPU exactly when \<^verbatim>\<open>on_rq\<close> says so.
\<close>

definition heads :: "sched \<Rightarrow> nat set" where "heads s = (\<lambda>c. rq_head (rqs s c)) ` {..<NCPU}"

definition rq_inv :: "nat set \<Rightarrow> (nat \<Rightarrow> nat list) \<Rightarrow> sched \<Rightarrow> bool" where
  "rq_inv T R s \<longleftrightarrow>
     (\<forall>c < NCPU. dll (links s) (rq_head (rqs s c)) (R c)) \<and> inj_on (\<lambda>c. rq_head (rqs s c)) {..<NCPU} \<and> heads s \<inter> T = {} \<and>
     (\<forall>p \<in> T. task_cpu (tasks s p) < NCPU \<and> on_rq (tasks s p) \<in> {0, 1}) \<and>
     (\<forall>c < NCPU. \<forall>p. p \<in> set (R c) \<longleftrightarrow> p \<in> T \<and> on_rq (tasks s p) = 1 \<and> task_cpu (tasks s p) = c)"

lemma enqueue_frame:
  assumes "rq_inv T R s" "p \<in> T" "c < NCPU" "x \<notin> T \<union> heads s"
  shows "links (enqueue_task_simple c p s) x = links s x"
proof -
  have "dll (links s) (rq_head (rqs s c)) (R c)" "set (R c) \<subseteq> T" "rq_head (rqs s c) \<in> heads s" using assms(1,3) by (auto simp: rq_inv_def heads_def)
  then have "list_add p (rq_head (rqs s c)) (links s) x = links s x" using assms(2,4) by (intro list_add_frame [where xs = "R c"]) auto
  then show ?thesis by (simp add: enqueue_task_simple_def Let_def upd_task_def upd_rq_def)
qed

lemma enqueue_inv:
  assumes "rq_inv T R s" "p \<in> T" "on_rq (tasks s p) = 0"
  defines "c \<equiv> task_cpu (tasks s p)"
  shows "rq_inv T (R(c := p # R c)) (enqueue_task_simple c p s)"
proof -
  have c: "c < NCPU" using assms(1,2) by (simp add: rq_inv_def c_def)
  let ?h = "\<lambda>d. rq_head (rqs s d)"
  have p: "p \<notin> set (R d)" "p \<noteq> ?h d" if "d < NCPU" for d using that assms(1-3) by (auto simp: rq_inv_def heads_def)
  have dl: "dll (links s) (?h d) (R d)" if "d < NCPU" for d using that assms(1) by (simp add: rq_inv_def)
  have dis: "set (?h c # R c) \<inter> set (?h d # R d) = {}" if "d < NCPU" "d \<noteq> c" for d
    using that c assms(1) inj_onD [of ?h "{..<NCPU}" c d] by (auto simp: rq_inv_def heads_def)
  have l: "dll (list_add p (?h c) (links s)) (?h d) ((R(c := p # R c)) d)" if d: "d < NCPU" for d
  proof (cases "d = c")
    case True
    then show ?thesis using kl.repr_add [OF dl [OF c]] p [OF c] by simp
  next
    case False
    then show ?thesis using kl.frame_add [OF dl [OF c] dl [OF d], of p] dis [OF d False] p [OF d] by simp
  qed
  define s' where "s' = enqueue_task_simple c p s"
  have s': "links s' = list_add p (?h c) (links s)" "rq_head (rqs s' d) = ?h d" "tasks s' = (tasks s)(p := (tasks s p)\<lparr>on_rq := 1\<rparr>)" for d
    using assms(3) by (simp_all add: s'_def enqueue_task_simple_def Let_def upd_task_def upd_rq_def)
  show ?thesis unfolding s'_def [symmetric] rq_inv_def
  proof (intro conjI)
    show "\<forall>d < NCPU. dll (links s') (rq_head (rqs s' d)) ((R(c := p # R c)) d)" using l unfolding s' by blast
    show "inj_on (\<lambda>d. rq_head (rqs s' d)) {..<NCPU}" "heads s' \<inter> T = {}" using assms(1) by (simp_all add: s' heads_def rq_inv_def)
    show "\<forall>q \<in> T. task_cpu (tasks s' q) < NCPU \<and> on_rq (tasks s' q) \<in> {0, 1}" using assms(1) by (simp add: s' rq_inv_def)
    show "\<forall>d < NCPU. \<forall>q. q \<in> set ((R(c := p # R c)) d) \<longleftrightarrow> q \<in> T \<and> on_rq (tasks s' q) = 1 \<and> task_cpu (tasks s' q) = d"
      using assms(1-3) by (simp add: s' rq_inv_def c_def)
  qed
qed

text \<open>What waking the tasks \<open>ps\<close> does: they are runnable afterwards, apart from the current task, which runs; cells of no run queue are unchanged.\<close>

definition wakes :: "nat \<Rightarrow> nat set \<Rightarrow> nat set \<Rightarrow> sched \<Rightarrow> sched \<Rightarrow> bool" where
  "wakes current T ps s s' \<longleftrightarrow>
     (\<exists>R'. rq_inv T R' s') \<and> (\<forall>c. rq_head (rqs s' c) = rq_head (rqs s c)) \<and>
     (\<forall>p. on_rq (tasks s p) = 1 \<longrightarrow> on_rq (tasks s' p) = 1) \<and> (\<forall>p \<in> ps. p \<noteq> current \<longrightarrow> on_rq (tasks s' p) = 1)"

lemma wakes_trans: "wakes current T ps s s' \<Longrightarrow> wakes current T qs s' s'' \<Longrightarrow> wakes current T (ps \<union> qs) s s''"
  unfolding wakes_def by (metis Un_iff)

lemma wakes_heads: "wakes current T ps s s' \<Longrightarrow> heads s' = heads s"
  by (simp add: wakes_def heads_def)

lemma wake_entry:
  assumes "rq_inv T R s" "wq_task (entries s e) \<in> T"
  shows "\<exists>s'. wake_func current e mode s = Inr (0, s') \<and> wakes current T {wq_task (entries s e)} s s' \<and> entries s' = entries s \<and>
    (\<forall>x. x \<notin> T \<union> heads s \<longrightarrow> links s' x = links s x)"
proof -
  define p where "p = wq_task (entries s e)"
  define c where "c = task_cpu (tasks s p)"
  have pT: "p \<in> T" and c: "c < NCPU" using assms by (simp_all add: rq_inv_def c_def p_def)
  show ?thesis
  proof (cases "p = current")
    case True
    define s' where "s' = (if state (tasks s p) AND mode = 0 then s else upd_task p (\<lambda>t. t\<lparr>state := TASK_RUNNING\<rparr>) s)"
    have "wake_func current e mode s = Inr (0, s')"
      using True by (auto simp: wake_func_def try_to_wake_up_def p_def [symmetric] s'_def split: wake_func.split)
    moreover have "rq_inv T R s'" using assms(1) by (auto simp: rq_inv_def s'_def upd_task_def heads_def)
    ultimately show ?thesis using True unfolding p_def [symmetric]
      by (intro exI [of _ s']) (auto simp: wakes_def s'_def upd_task_def)
  next
    case False
    define s' where "s' = activate_task c p s"
    have on: "on_rq (tasks s p) = 0 \<or> on_rq (tasks s p) = 1" using assms(1) pT by (auto simp: rq_inv_def)
    have s': "s' = enqueue_task_simple c p s"
      using on by (auto simp: s'_def activate_task_def enqueue_task_simple_def Let_def upd_task_def upd_rq_def fun_eq_iff intro!: sched.equality)
    have "\<exists>R'. rq_inv T R' s'"
    proof (cases "on_rq (tasks s p) = 0")
      case True
      then show ?thesis using enqueue_inv [OF assms(1) pT True] unfolding s' c_def by blast
    next
      case False
      then show ?thesis using assms(1) unfolding s' enqueue_task_simple_def by auto
    qed
    moreover have "wake_func current e mode s = Inr (0, s')"
      using False c by (auto simp: wake_func_def try_to_wake_up_def p_def [symmetric] cpu_rq_def c_def [symmetric] s'_def split: wake_func.split)
    moreover have "\<forall>q. on_rq (tasks s q) = 1 \<longrightarrow> on_rq (tasks s' q) = 1" "on_rq (tasks s' p) = 1" "entries s' = entries s" "\<forall>d. rq_head (rqs s' d) = rq_head (rqs s d)"
      using on by (auto simp: s' enqueue_task_simple_def Let_def upd_task_def upd_rq_def)
    moreover have "\<forall>x. x \<notin> T \<union> heads s \<longrightarrow> links s' x = links s x" using enqueue_frame [OF assms(1) pT c] unfolding s' by blast
    ultimately show ?thesis unfolding p_def [symmetric] by (intro exI [of _ s']) (auto simp: wakes_def)
  qed
qed

text \<open>Changes of cells that belong to no run queue, and of entries, do not matter to run queues.\<close>

lemma rq_inv_frame:
  assumes "rq_inv T R s" "tasks s' = tasks s" "\<forall>c. rq_head (rqs s' c) = rq_head (rqs s c)" "\<forall>x \<in> T \<union> heads s. links s' x = links s x"
  shows "rq_inv T R s'"
proof -
  have "dll (links s') (rq_head (rqs s' c)) (R c)" if "c < NCPU" for c
  proof -
    have "dll (links s) (rq_head (rqs s c)) (R c)" "set (R c) \<subseteq> T" "rq_head (rqs s c) \<in> heads s" using that assms(1) by (auto simp: rq_inv_def heads_def)
    then show ?thesis using assms(3,4) by (auto intro!: dll_frame [of "links s"])
  qed
  then show ?thesis using assms by (simp add: rq_inv_def heads_def)
qed

lemma wakes_frame:
  assumes "wakes current T ps s s'" "tasks s'' = tasks s'" "rqs s'' = rqs s'" "\<forall>x \<in> T \<union> heads s'. links s'' x = links s' x"
  shows "wakes current T ps s s''"
  using assms rq_inv_frame [of T _ s' s''] by (auto simp: wakes_def)

lemma uu_list_add_other: "x \<notin> {new, p, n} \<Longrightarrow> uu_list_add new p n h x = h x"
  by (simp add: uu_list_add_def link_defs)

definition plain :: "nat set \<Rightarrow> sched \<Rightarrow> nat \<Rightarrow> bool" where
  "plain T s e \<longleftrightarrow> wq_flags (entries s e) AND WQ_FLAG_BOOKMARK = 0 \<and> wq_task (entries s e) \<in> T"

text \<open>A pass over the rest of the queue reaches its end, or leaves the bookmark before the first entry it has not visited.\<close>

lemma wake_loop_run:
  assumes "rq_inv T R s" "dll (links s) head (ds @ rest)" "set (head # bm # ds @ rest) \<inter> (T \<union> heads s) = {}" "bm \<notin> set (head # ds @ rest)"
    "\<forall>e \<in> set rest. plain T s e" "rest \<noteq> [] \<longrightarrow> after = nxt (links s (hd rest))"
  shows "\<exists>s' r1 r2. wake_loop current mode head bm (hd (rest @ [head])) after nr cnt s = Some (Inr (nr, s')) \<and> rest = r1 @ r2 \<and>
    wakes current T ((\<lambda>e. wq_task (entries s e)) ` set r1) s s' \<and>
    (r2 = [] \<and> dll (links s') head (ds @ rest) \<and> entries s' = entries s \<or>
     r1 \<noteq> [] \<and> r2 \<noteq> [] \<and> dll (links s') head (ds @ r1 @ bm # r2) \<and> entries s' = (entries s)(bm := (entries s bm)\<lparr>wq_flags := WQ_FLAG_BOOKMARK\<rparr>))"
  using assms
proof (induction rest arbitrary: R s ds after cnt)
  case Nil
  then have "wakes current T {} s s" by (auto simp: wakes_def)
  then show ?case using Nil.prems(2) by (subst wake_loop.simps) auto
next
  case (Cons e rest)
  have pe: "plain T s e" "e \<noteq> head" using Cons.prems(2,5) by (auto simp: dll_def)
  obtain s1 where s1: "wake_func current e mode s = Inr (0, s1)" "wakes current T {wq_task (entries s e)} s s1" "entries s1 = entries s"
    "\<forall>x. x \<notin> T \<union> heads s \<longrightarrow> links s1 x = links s x" using wake_entry [OF Cons.prems(1), of e current mode] pe(1) by (auto simp: plain_def)
  obtain R1 where R1: "rq_inv T R1 s1" using s1(2) by (auto simp: wakes_def)
  have h1: "heads s1 = heads s" by (rule wakes_heads [OF s1(2)])
  have cells: "links s1 x = links s x" if "x \<in> set (head # ds @ e # rest)" for x using that s1(4) Cons.prems(3) by auto
  have d1: "dll (links s1) head (ds @ e # rest)" by (rule dll_frame [OF Cons.prems(2)]) (use cells in auto)
  have af: "after = hd (rest @ [head])" using dll_neighbours [OF Cons.prems(2)] Cons.prems(6) by simp
  have step: "wake_loop current mode head bm e after nr cnt s =
     (if cnt + 1 > WAITQUEUE_WALK_BREAK_CNT \<and> after \<noteq> head
      then Some (Inr (nr, (upd_entry bm (\<lambda>b. b\<lparr>wq_flags := WQ_FLAG_BOOKMARK\<rparr>) s1)\<lparr>links := list_add_tail bm after (links s1)\<rparr>))
      else wake_loop current mode head bm after (nxt (links s1 after)) nr (cnt + 1) s1)"
    using pe s1(1) by (subst wake_loop.simps) (simp add: plain_def Let_def)
  show ?case
  proof (cases "cnt + 1 > WAITQUEUE_WALK_BREAK_CNT \<and> after \<noteq> head")
    case True
    define s' where "s' = (upd_entry bm (\<lambda>b. b\<lparr>wq_flags := WQ_FLAG_BOOKMARK\<rparr>) s1)\<lparr>links := list_add_tail bm after (links s1)\<rparr>"
    have ne: "rest \<noteq> []" using True af by auto
    then obtain f rest' where f: "rest = f # rest'" by (cases rest) auto
    have prev: "prv (links s1 after) = e" using dll_neighbours [of "links s1" head "ds @ [e]" f rest'] d1 af by (simp add: f)
    have add: "list_add_tail bm after (links s1) = uu_list_add bm (last (head # ds @ [e])) (hd (rest @ [head])) (links s1)"
      using af prev by (simp add: list_add_tail_def)
    have "dll (links s') head (ds @ [e] @ bm # rest)"
      using dll_link [of "links s1" head "ds @ [e]" rest bm] d1 Cons.prems(4) unfolding s'_def add by simp
    moreover have "wakes current T {wq_task (entries s e)} s s'"
    proof (rule wakes_frame [OF s1(2)])
      show "\<forall>x \<in> T \<union> heads s1. links s' x = links s1 x"
        using Cons.prems(3) unfolding s'_def h1 add f by (auto intro!: uu_list_add_other)
    qed (simp_all add: s'_def upd_entry_def)
    moreover have "entries s' = (entries s)(bm := (entries s bm)\<lparr>wq_flags := WQ_FLAG_BOOKMARK\<rparr>)" by (simp add: s'_def upd_entry_def s1(3))
    ultimately show ?thesis using step True ne by (intro exI [of _ s'] exI [of _ "[e]"] exI [of _ rest]) (simp add: s'_def)
  next
    case False
    have "dll (links s1) head ((ds @ [e]) @ rest)" "set (head # bm # (ds @ [e]) @ rest) \<inter> (T \<union> heads s1) = {}" "bm \<notin> set (head # (ds @ [e]) @ rest)"
      "\<forall>x \<in> set rest. plain T s1 x" "rest \<noteq> [] \<longrightarrow> nxt (links s1 after) = nxt (links s1 (hd rest))"
      using d1 Cons.prems(3,4,5) by (simp_all add: plain_def s1(3) h1 af)
    note ih = Cons.IH [OF R1 this, of "cnt + 1", folded af]
    then obtain s' r1 r2 where r: "wake_loop current mode head bm after (nxt (links s1 after)) nr (cnt + 1) s1 = Some (Inr (nr, s'))" "rest = r1 @ r2"
      "wakes current T ((\<lambda>e. wq_task (entries s1 e)) ` set r1) s1 s'"
      "r2 = [] \<and> dll (links s') head ((ds @ [e]) @ rest) \<and> entries s' = entries s1 \<or>
       r1 \<noteq> [] \<and> r2 \<noteq> [] \<and> dll (links s') head ((ds @ [e]) @ r1 @ bm # r2) \<and> entries s' = (entries s1)(bm := (entries s1 bm)\<lparr>wq_flags := WQ_FLAG_BOOKMARK\<rparr>)"
      by blast
    have "wakes current T ((\<lambda>e. wq_task (entries s e)) ` set (e # r1)) s s'" using wakes_trans [OF s1(2) r(3)] by (simp add: s1(3))
    then show ?thesis using step False r s1(3) by (intro exI [of _ s'] exI [of _ "e # r1"] exI [of _ r2]) auto
  qed
qed

lemma list_del_other: "x \<notin> {e, prv (h e), nxt (h e)} \<Longrightarrow> list_del e h x = h x"
  by (simp add: list_del_def uu_list_del_entry_def uu_list_del_def link_defs)

text \<open>A queue that is ready for a pass over \<open>rest\<close>, the bookmark not in it.\<close>

definition pass_ready :: "nat set \<Rightarrow> nat \<Rightarrow> nat \<Rightarrow> nat list \<Rightarrow> nat list \<Rightarrow> sched \<Rightarrow> bool" where
  "pass_ready T head bm ds rest s \<longleftrightarrow>
     (\<exists>R. rq_inv T R s) \<and> dll (links s) head (ds @ rest) \<and> set (head # bm # ds @ rest) \<inter> (T \<union> heads s) = {} \<and> bm \<notin> set (head # ds @ rest) \<and>
     (\<forall>e \<in> set rest. plain T s e) \<and> wq_flags (entries s bm) = 0"

abbreviation waiters :: "sched \<Rightarrow> nat list \<Rightarrow> nat set" where "waiters s es \<equiv> (\<lambda>e. wq_task (entries s e)) ` set es"

text \<open>Resuming at the bookmark takes it out of the queue.\<close>

lemma resume_pass:
  assumes "\<exists>R. rq_inv T R s" "dll (links s) head (ds @ bm # rest)" "set (head # bm # ds @ rest) \<inter> (T \<union> heads s) = {}" "\<forall>e \<in> set rest. plain T s e" "rest \<noteq> []"
    "wq_flags (entries s bm) = WQ_FLAG_BOOKMARK"
  shows "\<exists>s1. uu_wake_up_common current mode head bm nr s = wake_loop current mode head bm (hd (rest @ [head])) (nxt (links s1 (hd (rest @ [head])))) nr 0 s1 \<and>
    pass_ready T head bm ds rest s1 \<and> tasks s1 = tasks s \<and> rqs s1 = rqs s \<and> (\<forall>e \<in> set rest. entries s1 e = entries s e)"
proof -
  define s1 where "s1 = upd_entry bm (\<lambda>b. b\<lparr>wq_flags := 0\<rparr>) (s\<lparr>links := list_del bm (links s)\<rparr>)"
  obtain R where R: "rq_inv T R s" using assms(1) by blast
  have nb: "bm \<notin> set (head # ds @ rest)" using assms(2) by (auto simp: dll_def)
  have nb2: "prv (links s bm) = last (head # ds)" "nxt (links s bm) = hd (rest @ [head])" using dll_neighbours [OF assms(2)] by simp_all
  have d1: "dll (links s1) head (ds @ rest)" using dll_del_split [OF assms(2)] by (simp add: s1_def upd_entry_def)
  have fr: "\<forall>x \<in> T \<union> heads s. links s1 x = links s x"
  proof
    fix x assume x: "x \<in> T \<union> heads s"
    have "last (head # ds) \<in> set (head # ds)" "hd (rest @ [head]) \<in> set (head # rest)" by (rule last_in_set, simp) (cases rest, simp_all)
    then have "x \<notin> {bm, prv (links s bm), nxt (links s bm)}" using x assms(3) unfolding nb2 by (auto simp del: last.simps)
    then show "links s1 x = links s x" by (simp add: s1_def upd_entry_def list_del_other)
  qed
  have i1: "rq_inv T R s1" by (rule rq_inv_frame [OF R _ _ fr]) (simp_all add: s1_def upd_entry_def)
  have hd: "hd (rest @ [head]) \<noteq> head" using assms(5) d1 by (cases rest) (auto simp: dll_def)
  have start: "uu_wake_up_common current mode head bm nr s = wake_loop current mode head bm (hd (rest @ [head])) (nxt (links s1 (hd (rest @ [head])))) nr 0 s1"
    using hd assms(6) by (simp add: uu_wake_up_common_def nb2 s1_def WQ_FLAG_BOOKMARK_def)
  have ent: "\<forall>e \<in> set rest. entries s1 e = entries s e" using nb by (auto simp: s1_def upd_entry_def)
  have "heads s1 = heads s" "wq_flags (entries s1 bm) = 0" by (simp_all add: s1_def upd_entry_def heads_def)
  then have "pass_ready T head bm ds rest s1" using i1 d1 nb assms(3,4) ent by (auto simp: pass_ready_def plain_def)
  then show ?thesis using start ent by (intro exI [of _ s1]) (simp add: s1_def upd_entry_def)
qed

text \<open>All the rounds.\<close>

lemma wake_rounds_run:
  assumes "pass_ready T head bm ds rest s1"
    "uu_wake_up_common current mode head bm nr s = wake_loop current mode head bm (hd (rest @ [head])) (nxt (links s1 (hd (rest @ [head])))) nr 0 s1"
  shows "\<exists>s'. wake_rounds current mode head bm nr s = Some (Inr s') \<and> wakes current T (waiters s1 rest) s1 s' \<and> dll (links s') head (ds @ rest)"
  using assms
proof (induction "length rest" arbitrary: s s1 ds rest rule: less_induct)
  case less
  obtain R where i1: "rq_inv T R s1" and d1: "dll (links s1) head (ds @ rest)" and c1: "set (head # bm # ds @ rest) \<inter> (T \<union> heads s1) = {}"
    and nb: "bm \<notin> set (head # ds @ rest)" and p1: "\<forall>e \<in> set rest. plain T s1 e" and f0: "wq_flags (entries s1 bm) = 0"
    using less.prems(1) by (auto simp: pass_ready_def)
  have a1: "rest \<noteq> [] \<longrightarrow> nxt (links s1 (hd (rest @ [head]))) = nxt (links s1 (hd rest))" by simp
  obtain s2 r1 r2 where r: "uu_wake_up_common current mode head bm nr s = Some (Inr (nr, s2))" "rest = r1 @ r2" "wakes current T (waiters s1 r1) s1 s2"
    "r2 = [] \<and> dll (links s2) head (ds @ rest) \<and> entries s2 = entries s1 \<or>
     r1 \<noteq> [] \<and> r2 \<noteq> [] \<and> dll (links s2) head (ds @ r1 @ bm # r2) \<and> entries s2 = (entries s1)(bm := (entries s1 bm)\<lparr>wq_flags := WQ_FLAG_BOOKMARK\<rparr>)"
    using wake_loop_run [OF i1 d1 c1 nb p1 a1, of current mode nr 0, folded less.prems(2)] by blast
  from r(4) show ?case
  proof
    assume e: "r2 = [] \<and> dll (links s2) head (ds @ rest) \<and> entries s2 = entries s1"
    then have "wake_rounds current mode head bm nr s = Some (Inr s2)" using r(1) f0 by (subst wake_rounds.simps) simp
    then show ?thesis using e r(2,3) by auto
  next
    assume e: "r1 \<noteq> [] \<and> r2 \<noteq> [] \<and> dll (links s2) head (ds @ r1 @ bm # r2) \<and> entries s2 = (entries s1)(bm := (entries s1 bm)\<lparr>wq_flags := WQ_FLAG_BOOKMARK\<rparr>)"
    then have fl: "wq_flags (entries s2 bm) = WQ_FLAG_BOOKMARK" by simp
    have go: "wake_rounds current mode head bm nr s = wake_rounds current mode head bm nr s2"
      using r(1) fl by (subst wake_rounds.simps) (simp add: WQ_FLAG_BOOKMARK_def)
    have ent: "entries s2 x = entries s1 x" if "x \<in> set r2" for x using that e nb r(2) by auto
    have q: "\<exists>R. rq_inv T R s2" "dll (links s2) head ((ds @ r1) @ bm # r2)" "set (head # bm # (ds @ r1) @ r2) \<inter> (T \<union> heads s2) = {}"
      "\<forall>x \<in> set r2. plain T s2 x" "r2 \<noteq> []"
      using r(2,3) e c1 p1 ent wakes_heads [OF r(3)] by (auto simp: wakes_def plain_def)
    obtain s3 where s3: "uu_wake_up_common current mode head bm nr s2 = wake_loop current mode head bm (hd (r2 @ [head])) (nxt (links s3 (hd (r2 @ [head])))) nr 0 s3"
      "pass_ready T head bm (ds @ r1) r2 s3" "tasks s3 = tasks s2" "rqs s3 = rqs s2" "\<forall>x \<in> set r2. entries s3 x = entries s2 x"
      using resume_pass [OF q fl, of current mode nr] by blast
    have "length r2 < length rest" using r(2) e by simp
    from less.hyps [OF this s3(2,1)] obtain s' where s': "wake_rounds current mode head bm nr s2 = Some (Inr s')" "wakes current T (waiters s3 r2) s3 s'"
      "dll (links s') head ((ds @ r1) @ r2)" by blast
    have "waiters s3 r2 = waiters s1 r2" using s3(5) ent by (intro image_cong) auto
    then have "wakes current T (waiters s1 rest) s1 s'" using r(2,3) s'(2) s3(3,4) by (auto simp: wakes_def)
    then show ?thesis using go s' r(2) by auto
  qed
qed

section \<open>Properties\<close>

text \<open>
  C37: choosing the next task ends, after at most one reset. When the run queue is not empty, its tasks are in the ring of tasks of
  the CPU, no counter is negative and priorities are below \<open>2 ^ 30\<close>, the choice returns a task of the run queue whose counter is positive and the
  largest in the queue. If some task of the queue had time left nothing changes; else first every task of the ring without time left gets a new time
  slice, so that the second pass finds a positive counter.
\<close>

theorem pick_next_task_terminates:
  assumes "dll (links s) (rq_head (rqs s c)) xs" "xs \<noteq> []" "task_path (tasks s) init ps init" "distinct (init # ps)" "set xs \<subseteq> set (init # ps)"
    "\<forall>p \<in> set (init # ps). 0 \<le> sint (counter (tasks s p)) \<and> unat (priority (tasks s p)) < 2 ^ 30"
  shows "\<exists>p s'. pick_next_task_simple init c s = Some (Some p, s') \<and> p \<in> set xs \<and> 0 < goodness (tasks s' p) \<and>
    (\<forall>q \<in> set xs. goodness (tasks s' q) \<le> goodness (tasks s' p)) \<and>
    s' = (if \<exists>q \<in> set xs. 0 < goodness (tasks s q) then s
          else s\<lparr>tasks := (\<lambda>q. if q \<in> set (init # ps) then refill (tasks s q) else tasks s q)\<rparr>)"
proof -
  have ge: "0 \<le> goodness (tasks s q)" if "q \<in> set xs" for q using that assms(5,6) by (auto simp: goodness_def)
  have low: "\<forall>q \<in> set xs. -1000 < goodness (tasks s q)" using ge by (force intro: order.strict_trans2)
  obtain p where p: "p \<in> set xs" "pick_scan (rq_head (rqs s c)) s (nxt (links s (rq_head (rqs s c)))) (-1000) None = Some (goodness (tasks s p), Some p)"
    "\<forall>q \<in> set xs. goodness (tasks s q) \<le> goodness (tasks s p)" using pick_scan_best [OF assms(1,2) low] by blast
  show ?thesis
  proof (cases "0 < goodness (tasks s p)")
    case True
    then show ?thesis using p by (subst pick_next_task_simple.simps) auto
  next
    case False
    then have z: "goodness (tasks s p) = 0" "\<not> (\<exists>q \<in> set xs. 0 < goodness (tasks s q))" using ge [OF p(1)] p(3) by force+
    define s' where "s' = s\<lparr>tasks := (\<lambda>q. if q \<in> set (init # ps) then refill (tasks s q) else tasks s q)\<rparr>"
    have pos: "\<forall>q \<in> set xs. 0 < goodness (tasks s' q)" using assms(5,6) refill_positive by (auto simp: s'_def goodness_def)
    have d: "dll (links s') (rq_head (rqs s' c)) xs" using assms(1) by (simp add: s'_def)
    have "\<forall>q \<in> set xs. -1000 < goodness (tasks s' q)" using pos by force
    then obtain p' where p': "p' \<in> set xs" "pick_scan (rq_head (rqs s' c)) s' (nxt (links s' (rq_head (rqs s' c)))) (-1000) None = Some (goodness (tasks s' p'), Some p')"
      "\<forall>q \<in> set xs. goodness (tasks s' q) \<le> goodness (tasks s' p')" using pick_scan_best [OF d assms(2)] by blast
    have "pick_next_task_simple init c s = pick_next_task_simple init c s'"
      using p(2) z(1) reset_score_refills [OF assms(3,4)] by (subst pick_next_task_simple.simps) (simp add: s'_def)
    also have "\<dots> = Some (Some p', s')" using p'(1,2) pos by (subst pick_next_task_simple.simps) force
    finally show ?thesis using p' pos z(2) unfolding s'_def [symmetric] by auto
  qed
qed

text \<open>One run queue with the initial task and a second task, both without time left, and a wait queue with one entry.\<close>

definition sample_sched :: sched where
  "sample_sched =
     \<lparr>links = (\<lambda>_. \<lparr>nxt = 0, prv = 0\<rparr>)(10 := \<lparr>nxt = 2, prv = 1\<rparr>, 2 := \<lparr>nxt = 1, prv = 10\<rparr>, 1 := \<lparr>nxt = 10, prv = 2\<rparr>),
      tasks = (\<lambda>p. \<lparr>counter = 0, priority = (if p = 2 then 7 else 5), on_rq = 1, need_resched = 1, state = TASK_RUNNING, task_cpu = 0,
        next_task = (if p = 1 then 2 else 1), prev_task = (if p = 1 then 2 else 1)\<rparr>),
      rqs = (\<lambda>_. \<lparr>rq_head = 10, nr_running = 2, nr_switches = 0, curr = 0\<rparr>), entries = (\<lambda>_. \<lparr>wq_flags = 0, wq_task = 0, wq_func = Default_wake\<rparr>)\<rparr>"

theorem pick_next_task_terminates_witness: "\<exists>s'. pick_next_task_simple 1 0 sample_sched = Some (Some 2, s') \<and> goodness (tasks s' 2) = 32"
proof -
  have d: "dll (links sample_sched) (rq_head (rqs sample_sched 0)) [2, 1]" by (simp add: dll_def sample_sched_def)
  have t: "task_path (tasks sample_sched) 1 [2] 1" by (simp add: sample_sched_def)
  have l: "[2, 1] \<noteq> ([] :: nat list)" "distinct [1, 2 :: nat]" "set [2, 1 :: nat] \<subseteq> set [1, 2]" by simp_all
  have a: "\<forall>p \<in> set [1, 2]. 0 \<le> sint (counter (tasks sample_sched p)) \<and> unat (priority (tasks sample_sched p)) < 2 ^ 30" by (simp add: sample_sched_def)
  obtain p s' where r: "pick_next_task_simple 1 0 sample_sched = Some (Some p, s')" "p \<in> set [2, 1]"
    "\<forall>q \<in> set [2, 1]. goodness (tasks s' q) \<le> goodness (tasks s' p)"
    "s' = (if \<exists>q \<in> set [2, 1]. 0 < goodness (tasks sample_sched q) then sample_sched
          else sample_sched\<lparr>tasks := (\<lambda>q. if q \<in> set [1, 2] then refill (tasks sample_sched q) else tasks sample_sched q)\<rparr>)"
    using pick_next_task_terminates [OF d l(1) t l(2,3) a] by blast
  have "goodness (tasks sample_sched q) = 0" for q by (simp add: goodness_def sample_sched_def)
  then have g: "goodness (tasks s' 1) = 30" "goodness (tasks s' 2) = 32" unfolding r(4)
    by (simp_all add: refill_def goodness_def sample_sched_def DEF_COUNTER_def HZ_def)
  then show ?thesis using r(1-3) by auto
qed

text \<open>
  C38: \<^verbatim>\<open>wake_up\<close> knows no exclusive waiters, against the comments on \<^verbatim>\<open>WQ_FLAG_EXCLUSIVE\<close> (only the first exclusive waiter is woken) and on
  \<^verbatim>\<open>try_to_wake_up\<close> (it returns 1 on success, and the entry is then removed). Since
  \<^verbatim>\<open>try_to_wake_up\<close> returns 0 whatever it did, a wake-up of a wait queue of any length, whatever the flags of its entries, terminates, in rounds of at most 65 entries with a bookmark left in the
  queue between rounds; afterwards the task of every entry, exclusive or not, is in the run queue
  of its CPU, the current task apart, the run queues are well formed, and the queue holds the same entries in the same order: none is removed.
\<close>

theorem wake_up_ignores_exclusive:
  assumes "rq_inv T R s" "dll (links s) head es" "set (head # bm # es) \<inter> (T \<union> heads s) = {}" "bm \<notin> set (head # es)" "\<forall>e \<in> set es. plain T s e"
  shows "\<exists>s' R'. wake_up current head bm s = Some (Inr s') \<and> rq_inv T R' s' \<and> dll (links s') head es \<and>
    (\<forall>e \<in> set es. wq_task (entries s e) \<noteq> current \<longrightarrow> wq_task (entries s e) \<in> set (R' (task_cpu (tasks s' (wq_task (entries s e))))))"
proof -
  define s1 where "s1 = (upd_entry bm (\<lambda>_. \<lparr>wq_flags = 0, wq_task = 0, wq_func = Default_wake\<rparr>) s)\<lparr>links := INIT_LIST_HEAD bm (links s)\<rparr>"
  have l1: "links s1 x = links s x" if "x \<noteq> bm" for x using that by (simp add: s1_def upd_entry_def INIT_LIST_HEAD_def link_defs)
  have "\<forall>x \<in> T \<union> heads s. links s1 x = links s x" using assms(3) by (intro ballI l1) auto
  then have i1: "rq_inv T R s1" by (rule rq_inv_frame [OF assms(1), rotated 2]) (simp_all add: s1_def upd_entry_def)
  have "dll (links s1) head es" by (rule dll_frame [OF assms(2)], rule l1) (use assms(4) in auto)
  then have d1: "dll (links s1) head ([] @ es)" by simp
  have ent: "entries s1 e = entries s e" if "e \<in> set es" for e using that assms(4) by (auto simp: s1_def upd_entry_def)
  have same: "heads s1 = heads s" "tasks s1 = tasks s" "wq_flags (entries s1 bm) = 0" by (simp_all add: heads_def s1_def upd_entry_def)
  have ready: "pass_ready T head bm [] es s1" using i1 d1 assms(3-5) ent same by (auto simp: pass_ready_def plain_def)
  have n1: "nxt (links s1 head) = hd (es @ [head])" using d1 by (cases es) (auto simp: dll_def)
  have start: "uu_wake_up_common current TASK_NORMAL head bm 1 s1 = wake_loop current TASK_NORMAL head bm (hd (es @ [head])) (nxt (links s1 (hd (es @ [head])))) 1 0 s1"
    by (simp add: uu_wake_up_common_def same(3) n1 wake_loop.simps [of _ _ head _ head])
  have "wake_up current head bm s = wake_rounds current TASK_NORMAL head bm 1 s1" by (simp add: wake_up_def uu_wake_up_def s1_def upd_entry_def)
  then have "\<exists>s'. wake_up current head bm s = Some (Inr s') \<and> wakes current T (waiters s1 es) s1 s' \<and> dll (links s') head es"
    using wake_rounds_run [OF ready start] by simp
  then obtain s' R' where s': "wake_up current head bm s = Some (Inr s')" "rq_inv T R' s'" "dll (links s') head es"
    "\<forall>e \<in> set es. wq_task (entries s e) \<noteq> current \<longrightarrow> on_rq (tasks s' (wq_task (entries s e))) = 1"
    using ent by (auto simp: wakes_def)
  have "\<forall>e \<in> set es. wq_task (entries s e) \<in> T" using assms(5) by (simp add: plain_def)
  then have "\<forall>e \<in> set es. wq_task (entries s e) \<noteq> current \<longrightarrow> wq_task (entries s e) \<in> set (R' (task_cpu (tasks s' (wq_task (entries s e)))))"
    using s'(2,4) by (auto simp: rq_inv_def)
  then show ?thesis using s' by blast
qed

text \<open>Eight empty run queues but for task 1 on the first, and task 2, which waits exclusively.\<close>

definition sample_wait :: sched where
  "sample_wait =
     \<lparr>links = (\<lambda>a. \<lparr>nxt = a, prv = a\<rparr>)(10 := \<lparr>nxt = 1, prv = 1\<rparr>, 1 := \<lparr>nxt = 10, prv = 10\<rparr>, 30 := \<lparr>nxt = 31, prv = 31\<rparr>, 31 := \<lparr>nxt = 30, prv = 30\<rparr>),
      tasks = (\<lambda>p. \<lparr>counter = 5, priority = 5, on_rq = (if p = 1 then 1 else 0), need_resched = 0, state = TASK_UNINTERRUPTIBLE, task_cpu = 0, next_task = 1, prev_task = 1\<rparr>),
      rqs = (\<lambda>c. \<lparr>rq_head = 10 + c, nr_running = 0, nr_switches = 0, curr = 0\<rparr>),
      entries = (\<lambda>_. \<lparr>wq_flags = WQ_FLAG_EXCLUSIVE, wq_task = 2, wq_func = Autoremove_wake\<rparr>)\<rparr>"

theorem wake_up_ignores_exclusive_witness: "\<exists>s' R'. wake_up 1 30 40 sample_wait = Some (Inr s') \<and> rq_inv {1, 2} R' s' \<and> 2 \<in> set (R' (task_cpu (tasks s' 2)))"
proof -
  have d: "dll (links sample_wait) (10 + c) (if c = 0 then [1] else [])" if "c < NCPU" for c
    using that by (auto simp: dll_def sample_wait_def NCPU_def)
  have h: "heads sample_wait = (\<lambda>c. 10 + c) ` {..<8}" by (simp add: heads_def sample_wait_def NCPU_def)
  have i: "rq_inv {1, 2} (\<lambda>c. if c = 0 then [1] else []) sample_wait"
    using d unfolding rq_inv_def h by (auto simp: sample_wait_def NCPU_def inj_on_def)
  have w: "dll (links sample_wait) 30 [31]" by (simp add: dll_def sample_wait_def)
  have c: "set [30, 40, 31] \<inter> ({1, 2} \<union> heads sample_wait) = {}" "40 \<notin> set [30, 31 :: nat]" unfolding h by auto
  have p: "\<forall>e \<in> set [31]. plain {1, 2} sample_wait e" "wq_task (entries sample_wait 31) = 2"
    by (simp_all add: plain_def sample_wait_def WQ_FLAG_EXCLUSIVE_def WQ_FLAG_BOOKMARK_def)
  obtain s' R' where "wake_up 1 30 40 sample_wait = Some (Inr s')" "rq_inv {1, 2} R' s'"
    "\<forall>e \<in> set [31]. wq_task (entries sample_wait e) \<noteq> 1 \<longrightarrow> wq_task (entries sample_wait e) \<in> set (R' (task_cpu (tasks s' (wq_task (entries sample_wait e)))))"
    using wake_up_ignores_exclusive [OF i w c p(1), of 1] by blast
  then show ?thesis using p(2) by (intro exI [of _ s'] exI [of _ R']) simp
qed

end
