(* ===== verification/Net.thy ===== *)
theory Net
  imports Bytes
begin

text \<open>
  The network stack between the driver and sockets: packet buffers, checksums and the Ethernet, ARP, IP and UDP layers of \<^verbatim>\<open>kernel/net.c\<close>,
  the tables of \<^verbatim>\<open>kernel/ip_arp.c\<close> and \<^verbatim>\<open>kernel/ip_neighbor.c\<close>, and the sockets of \<^verbatim>\<open>kernel/sysnet.c\<close>. A buffer's head is an offset
  into its store; an access outside the store is the fault \<open>OutOfBounds\<close>. The driver is the list of frames given to it. A queue of buffers
  is a list. Waiting for an ARP reply is an argument: what happens to the host meanwhile, and whether the wait
  timed out. Whether \<^verbatim>\<open>kmalloc\<close> finds memory for a buffer is a field of the host. Timers and wake-ups of readers are left out.
\<close>

section \<open>Packet buffers\<close>

definition MBUF_SIZE :: nat where "MBUF_SIZE = 2048"
definition MBUF_DEFAULT_HEADROOM :: nat where "MBUF_DEFAULT_HEADROOM = 128"

record mbuf =
  m_head :: int
  m_len :: u32
  m_buf :: "u8 list"

text \<open>The pointer that is returned is the offset of the data.\<close>

definition mbufpull :: "u32 \<Rightarrow> mbuf \<Rightarrow> int option \<times> mbuf" where
  "mbufpull len m = (if m_len m < len then (None, m) else (Some (m_head m), m\<lparr>m_len := m_len m - len, m_head := m_head m + uint len\<rparr>))"

definition mbufpush :: "u32 \<Rightarrow> mbuf \<Rightarrow> (int \<times> mbuf) result" where
  "mbufpush len m =
     (let m = m\<lparr>m_head := m_head m - uint len\<rparr>
      in if m_head m < 0 then Inl (Panic ''mbufpush'') else Inr (m_head m, m\<lparr>m_len := m_len m + len\<rparr>))"

definition mbufput :: "u32 \<Rightarrow> mbuf \<Rightarrow> (int \<times> mbuf) result" where
  "mbufput len m =
     (let tmp = m_head m + uint (m_len m); m = m\<lparr>m_len := m_len m + len\<rparr>
      in if unat (m_len m) > MBUF_SIZE then Inl (Panic ''mbufput'') else Inr (tmp, m))"

definition mbuftrim :: "u32 \<Rightarrow> mbuf \<Rightarrow> int option \<times> mbuf" where
  "mbuftrim len m =
     (if len > m_len m then (None, m)
      else let m = m\<lparr>m_len := m_len m - len\<rparr> in (Some (m_head m + uint (m_len m)), m))"

text \<open>\<open>mem\<close> is whether \<^verbatim>\<open>kmalloc\<close> finds memory.\<close>

definition mbufalloc :: "bool \<Rightarrow> nat \<Rightarrow> mbuf option" where
  "mbufalloc mem headroom =
     (if headroom > MBUF_SIZE then None else if \<not> mem then None else Some \<lparr>m_head = int headroom, m_len = 0, m_buf = replicate MBUF_SIZE 0\<rparr>)"

text \<open>Writing to the store.\<close>

definition store :: "int \<Rightarrow> u8 list \<Rightarrow> mbuf \<Rightarrow> mbuf result" where
  "store off bs m =
     (if 0 \<le> off \<and> off + int (length bs) \<le> int MBUF_SIZE then Inr (m\<lparr>m_buf := put (nat off) bs (m_buf m)\<rparr>) else Inl OutOfBounds)"

definition load :: "int \<Rightarrow> nat \<Rightarrow> mbuf \<Rightarrow> u8 list result" where
  "load off n m = (if 0 \<le> off \<and> off + int n \<le> int MBUF_SIZE then Inr (get (nat off) n (m_buf m)) else Inl OutOfBounds)"

section \<open>Byte order and checksums\<close>

definition bswaps :: "u16 \<Rightarrow> u16" where "bswaps val = push_bit 8 (val AND 0x00ff) OR drop_bit 8 (val AND 0xff00)"

definition bswapl :: "u32 \<Rightarrow> u32" where
  "bswapl val = push_bit 24 (val AND 0x000000ff) OR push_bit 8 (val AND 0x0000ff00) OR drop_bit 8 (val AND 0x00ff0000) OR drop_bit 24 (val AND 0xff000000)"

fun cksum_loop :: "u32 \<Rightarrow> u8 list \<Rightarrow> u32" where
  "cksum_loop sm (a # b # w) = cksum_loop (sm + ucast (un_le16 [a, b])) w"
| "cksum_loop sm [a] = sm + ucast a"
| "cksum_loop sm [] = sm"

definition in_cksum :: "u8 list \<Rightarrow> u16" where
  "in_cksum bs =
     (let sm = cksum_loop 0 bs;
          sm = (sm AND 0xffff) + drop_bit 16 sm;
          sm = sm + drop_bit 16 sm
      in ucast (NOT sm))"

section \<open>Hosts\<close>

definition ETHADDR_LEN :: nat where "ETHADDR_LEN = 6"
definition ETHTYPE_IP :: u16 where "ETHTYPE_IP = 0x0800"
definition ETHTYPE_ARP :: u16 where "ETHTYPE_ARP = 0x0806"
definition IPPROTO_UDP :: u8 where "IPPROTO_UDP = 17"
definition ARP_HRD_ETHER :: u16 where "ARP_HRD_ETHER = 1"
definition ARP_OP_REQUEST :: u16 where "ARP_OP_REQUEST = 1"
definition ARP_OP_REPLY :: u16 where "ARP_OP_REPLY = 2"
definition ARP_ENTRIES :: nat where "ARP_ENTRIES = 8"
definition ARP_MAXAGE_TIME :: u64 where "ARP_MAXAGE_TIME = 120"
definition NEIGHBOR_ENTRIES :: nat where "NEIGHBOR_ENTRIES = 8"
definition MAX_NEIGHBOR_TIME :: u8 where "MAX_NEIGHBOR_TIME = 128"

definition MAKE_IP_ADDR :: "u8 \<Rightarrow> u8 \<Rightarrow> u8 \<Rightarrow> u8 \<Rightarrow> u32" where
  "MAKE_IP_ADDR a b c d = push_bit 24 (ucast a) OR push_bit 16 (ucast b) OR push_bit 8 (ucast c) OR ucast d"

record arp_entry =
  ae_ipaddr :: u32
  ae_ethaddr :: "u8 list"
  ae_time :: u64

record neighbor_entry =
  ne_ipaddr :: u32
  ne_addr :: "u8 list"
  ne_time :: u8

record sock =
  raddr :: u32
  lport :: u16
  rport :: u16
  rxq :: "mbuf list"

record host =
  local_ip :: u32
  local_netmask :: u32
  local_mac :: "u8 list"
  p_arp_table :: "arp_entry list"
  arptime :: u64
  p_entries :: "neighbor_entry list"
  sockets :: "sock list"
  sent :: "u8 list list"
  mem_left :: bool

definition broadcast_mac :: "u8 list" where "broadcast_mac = replicate ETHADDR_LEN 0xff"

section \<open>Address tables\<close>

definition arp_lookup :: "u32 \<Rightarrow> host \<Rightarrow> u8 list option" where
  "arp_lookup ipaddr h = map_option ae_ethaddr (find (\<lambda>e. ae_ipaddr e = ipaddr) (p_arp_table h))"

definition arp_timer :: "host \<Rightarrow> host" where
  "arp_timer h =
     (let h = h\<lparr>arptime := arptime h + 1\<rparr>
      in h\<lparr>p_arp_table := map (\<lambda>e. if ae_ipaddr e \<noteq> 0 \<and> arptime h - ae_time e \<ge> ARP_MAXAGE_TIME then e\<lparr>ae_ipaddr := 0\<rparr> else e) (p_arp_table h)\<rparr>)"

text \<open>The index of the first entry with a property, the length when there is none.\<close>

fun index_of :: "('a \<Rightarrow> bool) \<Rightarrow> 'a list \<Rightarrow> nat" where
  "index_of P [] = 0"
| "index_of P (x # xs) = (if P x then 0 else Suc (index_of P xs))"

fun oldest :: "u64 \<Rightarrow> nat \<Rightarrow> nat \<Rightarrow> u64 \<Rightarrow> arp_entry list \<Rightarrow> nat" where
  "oldest now i c tmpage [] = c"
| "oldest now i c tmpage (e # es) =
     (if now - ae_time e > tmpage then oldest now (i + 1) i (now - ae_time e) es else oldest now (i + 1) c tmpage es)"

definition arp_update :: "u32 \<Rightarrow> u8 list \<Rightarrow> host \<Rightarrow> host" where
  "arp_update ipaddr ethaddr h =
     (let tab = p_arp_table h;
          i = index_of (\<lambda>e. ae_ipaddr e \<noteq> 0 \<and> ipaddr = ae_ipaddr e) tab
      in if i < ARP_ENTRIES
         then h\<lparr>p_arp_table := tab[i := (tab ! i)\<lparr>ae_ethaddr := ethaddr, ae_time := arptime h\<rparr>]\<rparr>
         else let i = index_of (\<lambda>e. ae_ipaddr e = 0) tab;
                  i = (if i = ARP_ENTRIES then oldest (arptime h) 0 0 0 tab else i)
              in h\<lparr>p_arp_table := tab[i := \<lparr>ae_ipaddr = ipaddr, ae_ethaddr = ethaddr, ae_time = arptime h\<rparr>]\<rparr>)"

fun neighbor_slot :: "u32 \<Rightarrow> nat \<Rightarrow> nat \<Rightarrow> u8 \<Rightarrow> neighbor_entry list \<Rightarrow> nat" where
  "neighbor_slot ipaddr i old oldtime [] = old"
| "neighbor_slot ipaddr i old oldtime (e # es) =
     (if ne_ipaddr e = ipaddr then i
      else if ne_time e = MAX_NEIGHBOR_TIME then i
      else if ne_time e > oldtime then neighbor_slot ipaddr (i + 1) i (ne_time e) es
      else neighbor_slot ipaddr (i + 1) old oldtime es)"

definition neighbor_add :: "u32 \<Rightarrow> u8 list \<Rightarrow> host \<Rightarrow> host" where
  "neighbor_add ipaddr addr h =
     h\<lparr>p_entries := (p_entries h)[neighbor_slot ipaddr 0 0 0 (p_entries h) := \<lparr>ne_ipaddr = ipaddr, ne_addr = addr, ne_time = 0\<rparr>]\<rparr>"

definition neighbor_periodic :: "host \<Rightarrow> host" where
  "neighbor_periodic h = h\<lparr>p_entries := map (\<lambda>e. if ne_time e < MAX_NEIGHBOR_TIME then e\<lparr>ne_time := ne_time e + 1\<rparr> else e) (p_entries h)\<rparr>"

definition neighbor_lookup :: "u32 \<Rightarrow> host \<Rightarrow> u8 list option" where
  "neighbor_lookup ipaddr h = map_option ne_addr (find (\<lambda>e. ne_ipaddr e = ipaddr) (p_entries h))"

definition neighbor_add_or_update :: "u32 \<Rightarrow> u8 list \<Rightarrow> host \<Rightarrow> host" where
  "neighbor_add_or_update ipaddr na h =
     (if ipaddr = 0 then h
      else let i = index_of (\<lambda>e. ne_ipaddr e = ipaddr) (p_entries h)
           in if i = length (p_entries h) then neighbor_add ipaddr na h
              else h\<lparr>p_entries := (p_entries h)[i := (p_entries h ! i)\<lparr>ne_addr := na, ne_time := 0\<rparr>]\<rparr>)"

section \<open>Sending\<close>

text \<open>Ethernet addresses, the type, and the frame handed to the driver.\<close>

definition eth_fill :: "(u8 list \<Rightarrow> u8 list) \<Rightarrow> int \<Rightarrow> u16 \<Rightarrow> mbuf \<Rightarrow> host \<Rightarrow> host result" where
  "eth_fill dhost e ethtype m h =
     bindR (load e ETHADDR_LEN m) (\<lambda>old.
     bindR (store e (dhost old @ local_mac h @ le16 (bswaps ethtype)) m) (\<lambda>m.
     bindR (load (m_head m) (unat (m_len m)) m) (\<lambda>frame. Inr (h\<lparr>sent := sent h @ [frame]\<rparr>))))"

definition arp_packet_build :: "u16 \<Rightarrow> u8 list \<Rightarrow> u32 \<Rightarrow> host \<Rightarrow> mbuf option result" where
  "arp_packet_build op dmac dip h =
     (case mbufalloc (mem_left h) MBUF_DEFAULT_HEADROOM of
        None \<Rightarrow> Inr None
      | Some m \<Rightarrow>
          bindR (mbufput 28 m) (\<lambda>(a, m).
          bindR (store a (le16 (bswaps ARP_HRD_ETHER) @ le16 (bswaps ETHTYPE_IP) @ [of_nat ETHADDR_LEN, 4] @ le16 (bswaps op) @
            local_mac h @ le32 (bswapl (local_ip h)) @ dmac @ le32 (bswapl dip)) m) (\<lambda>m. Inr (Some m))))"

text \<open>\<^verbatim>\<open>net_tx_eth\<close> for an ARP packet takes the address of the target from the packet.\<close>

definition net_tx_arp :: "u16 \<Rightarrow> u8 list \<Rightarrow> u32 \<Rightarrow> host \<Rightarrow> host result" where
  "net_tx_arp op dmac dip h =
     bindR (arp_packet_build op dmac dip h) (\<lambda>r.
     case r of
       None \<Rightarrow> Inr h
     | Some m \<Rightarrow>
         bindR (load (m_head m + 18) ETHADDR_LEN m) (\<lambda>tha.
         bindR (mbufpush 14 m) (\<lambda>(e, m). eth_fill (\<lambda>_. tha) e ETHTYPE_ARP m h)))"

definition net_tx_eth :: "(host \<Rightarrow> bool \<times> host) \<Rightarrow> mbuf \<Rightarrow> host \<Rightarrow> host result" where
  "net_tx_eth wait m h =
     bindR (load (m_head m) 20 m) (\<lambda>iphdr.
     bindR (mbufpush 14 m) (\<lambda>(e, m).
     let src = get32 12 iphdr; dst = get32 16 iphdr
     in if src \<noteq> MAKE_IP_ADDR 0 0 0 0 \<and> dst \<noteq> MAKE_IP_ADDR 0xff 0xff 0xff 0xff \<and> local_netmask h \<noteq> MAKE_IP_ADDR 0 0 0 0 \<and>
           bswapl dst AND local_netmask h = local_ip h AND local_netmask h
        then case arp_lookup (bswapl dst) h of
               Some mac \<Rightarrow> eth_fill (\<lambda>_. mac) e ETHTYPE_IP m h
             | None \<Rightarrow>
                 bindR (net_tx_arp ARP_OP_REQUEST broadcast_mac (bswapl dst) h) (\<lambda>h.
                 case wait h of
                   (False, h) \<Rightarrow> eth_fill (\<lambda>_. broadcast_mac) e ETHTYPE_IP m h
                 | (True, h) \<Rightarrow> eth_fill (case arp_lookup dst h of Some mac \<Rightarrow> \<lambda>_. mac | None \<Rightarrow> \<lambda>old. old) e ETHTYPE_IP m h)
        else eth_fill (\<lambda>_. broadcast_mac) e ETHTYPE_IP m h))"

definition net_tx_ip :: "(host \<Rightarrow> bool \<times> host) \<Rightarrow> u8 \<Rightarrow> u32 \<Rightarrow> mbuf \<Rightarrow> host \<Rightarrow> host result" where
  "net_tx_ip wait proto dip m h =
     bindR (mbufpush 20 m) (\<lambda>(p, m).
     bindR (store p ([0x45, 0] @ le16 (bswaps (ucast (m_len m))) @ le16 0 @ le16 0 @ [100, proto] @ le16 0 @ le32 (bswapl (local_ip h)) @ le32 (bswapl dip)) m) (\<lambda>m.
     bindR (load p 20 m) (\<lambda>iphdr.
     bindR (store (p + 10) (le16 (in_cksum iphdr)) m) (\<lambda>m.
     net_tx_eth wait m h))))"

definition net_tx_udp :: "(host \<Rightarrow> bool \<times> host) \<Rightarrow> mbuf \<Rightarrow> u32 \<Rightarrow> u16 \<Rightarrow> u16 \<Rightarrow> host \<Rightarrow> host result" where
  "net_tx_udp wait m dip sport dport h =
     bindR (mbufpush 8 m) (\<lambda>(p, m).
     bindR (store p (le16 (bswaps sport) @ le16 (bswaps dport) @ le16 (bswaps (ucast (m_len m))) @ le16 0) m) (\<lambda>m.
     net_tx_ip wait IPPROTO_UDP dip m h))"

section \<open>Receiving\<close>

fun to_socket :: "mbuf \<Rightarrow> u32 \<Rightarrow> u16 \<Rightarrow> u16 \<Rightarrow> sock list \<Rightarrow> sock list" where
  "to_socket m ra lp rp [] = []"
| "to_socket m ra lp rp (si # ss) =
     (if raddr si = MAKE_IP_ADDR 255 255 255 255 \<and> lport si = lp \<and> rport si = rp \<or> raddr si = ra \<and> lport si = lp \<and> rport si = rp
      then si\<lparr>rxq := rxq si @ [m]\<rparr> # ss else si # to_socket m ra lp rp ss)"

definition sockrecvudp :: "mbuf \<Rightarrow> u32 \<Rightarrow> u16 \<Rightarrow> u16 \<Rightarrow> host \<Rightarrow> host" where
  "sockrecvudp m ra lp rp h = h\<lparr>sockets := to_socket m ra lp rp (sockets h)\<rparr>"

definition arp_packet_handle :: "u8 list \<Rightarrow> host \<Rightarrow> int \<times> host" where
  "arp_packet_handle a h =
     (if bswaps (get16 0 a) \<noteq> ARP_HRD_ETHER \<or> bswaps (get16 2 a) \<noteq> ETHTYPE_IP \<or> a ! 4 \<noteq> of_nat ETHADDR_LEN \<or> a ! 5 \<noteq> 4 then (-1, h)
      else let tip = bswapl (get32 24 a); sip = bswapl (get32 14 a); op = bswaps (get16 6 a); sha = get 8 ETHADDR_LEN a;
               h = (if op = ARP_OP_REPLY then neighbor_add_or_update sip sha h else h)
           in if op \<noteq> ARP_OP_REPLY \<or> tip \<noteq> local_ip h then (-1, h) else (0, arp_update tip sha h))"

definition net_rx_arp :: "mbuf \<Rightarrow> host \<Rightarrow> host result" where
  "net_rx_arp m h =
     (case mbufpull 28 m of
        (None, m) \<Rightarrow> Inr h
      | (Some p, m) \<Rightarrow>
          bindR (load p 28 m) (\<lambda>a.
          case arp_packet_handle a h of (r, h) \<Rightarrow>
            if r < 0 then Inr h else net_tx_arp ARP_OP_REPLY (get 8 ETHADDR_LEN a) (bswapl (get32 14 a)) h))"

definition net_rx_udp :: "mbuf \<Rightarrow> u16 \<Rightarrow> u8 list \<Rightarrow> host \<Rightarrow> host result" where
  "net_rx_udp m len iphdr h =
     (case mbufpull 8 m of
        (None, m) \<Rightarrow> Inr h
      | (Some p, m) \<Rightarrow>
          bindR (load p 8 m) (\<lambda>udphdr.
          if bswaps (get16 4 udphdr) \<noteq> len then Inr h
          else let len = len - 8
               in if ucast len > m_len m then Inr h
                  else let m = snd (mbuftrim (m_len m - ucast len) m)
                       in Inr (sockrecvudp m (bswapl (get32 12 iphdr)) (bswaps (get16 2 udphdr)) (bswaps (get16 0 udphdr)) h)))"

definition net_rx_ip :: "mbuf \<Rightarrow> host \<Rightarrow> host result" where
  "net_rx_ip m h =
     (case mbufpull 20 m of
        (None, m) \<Rightarrow> Inr h
      | (Some p, m) \<Rightarrow>
          bindR (load p 20 m) (\<lambda>iphdr.
          if iphdr ! 0 \<noteq> 0x45 then Inr h
          else if in_cksum iphdr \<noteq> 0 then Inr h
          else if bswaps (get16 6 iphdr) \<noteq> 0 then Inr h
          else if bswapl (get32 16 iphdr) \<noteq> MAKE_IP_ADDR 255 255 255 255 \<and> bswapl (get32 16 iphdr) \<noteq> local_ip h then Inr h
          else if iphdr ! 9 \<noteq> IPPROTO_UDP then Inr h
          else net_rx_udp m (bswaps (get16 2 iphdr) - 20) iphdr h))"

definition net_rx :: "mbuf \<Rightarrow> host \<Rightarrow> host result" where
  "net_rx m h =
     (case mbufpull 14 m of
        (None, m) \<Rightarrow> Inr h
      | (Some p, m) \<Rightarrow>
          bindR (load p 14 m) (\<lambda>ethhdr.
          let type = bswaps (get16 12 ethhdr)
          in if type = ETHTYPE_IP then net_rx_ip m h
             else if type = ETHTYPE_ARP then net_rx_arp m h
             else Inr h))"

section \<open>Sockets\<close>

text \<open>\<open>cin\<close> reads the caller's buffer; \<open>None\<close> when that fails.\<close>

definition sockwrite :: "(host \<Rightarrow> bool \<times> host) \<Rightarrow> sock \<Rightarrow> (u64 \<Rightarrow> nat \<Rightarrow> u8 list option) \<Rightarrow> u64 \<Rightarrow> int \<Rightarrow> host \<Rightarrow> (int \<times> host) result" where
  "sockwrite wait si cin addr n h =
     (case mbufalloc (mem_left h) MBUF_DEFAULT_HEADROOM of
        None \<Rightarrow> Inr (-1, h)
      | Some m \<Rightarrow>
          bindR (mbufput (of_int n) m) (\<lambda>(p, m).
          case cin addr (nat n) of
            None \<Rightarrow> Inr (-1, h)
          | Some bs \<Rightarrow>
              bindR (store p bs m) (\<lambda>m.
              bindR (net_tx_udp wait m (raddr si) (lport si) (rport si) h) (\<lambda>h. Inr (n, h)))))"

text \<open>
  \<open>wait\<close> is the wait for a packet when the queue is empty, whether it ended before the timeout and the socket then; \<open>cout\<close> writes the caller's
  buffer, false when that fails. The bytes written are part of the result.
\<close>

definition sockread :: "(sock \<Rightarrow> bool \<times> sock) \<Rightarrow> (u64 \<Rightarrow> u8 list \<Rightarrow> bool) \<Rightarrow> sock \<Rightarrow> u64 \<Rightarrow> int \<Rightarrow> (int \<times> u8 list \<times> sock) result" where
  "sockread wait cout si addr n =
     (let (ok, si) = (if rxq si = [] then wait si else (True, si))
      in if \<not> ok then Inr (-1, [], si)
         else case rxq si of
                [] \<Rightarrow> Inl NullDeref
              | m # q \<Rightarrow>
                  let len = (if sint (m_len m) > n then n else sint (m_len m)); si = si\<lparr>rxq := q\<rparr>
                  in bindR (load (m_head m) (unat (of_int len :: u32)) m) (\<lambda>bs.
                     if cout addr bs then Inr (len, bs, si) else Inr (-1, [], si)))"

section \<open>The checksum\<close>

text \<open>The sum of the 16-bit words of a text, as a number, and the folding of its carries.\<close>

fun words_sum :: "u8 list \<Rightarrow> nat" where
  "words_sum (a # b # w) = unat a + 256 * unat b + words_sum w"
| "words_sum [a] = unat a"
| "words_sum [] = 0"

definition fold16 :: "nat \<Rightarrow> nat" where
  "fold16 n = (let s = n mod 65536 + n div 65536 in (s + s div 65536) mod 65536)"

lemma un_le16_unat: "unat (un_le16 [a, b]) = unat a + 256 * unat b"
proof -
  have ab: "unat a < 256" "unat b < 256" using unsigned_less [of a] unsigned_less [of b] by simp_all
  have "un_le16 [a, b] = ucast a + push_bit 8 (ucast b)" unfolding un_le16_def
    by (subst disjunctive_add) (auto simp: bit_simps dest: bit_imp_le_length)
  moreover have c: "unat (ucast x :: u16) = unat x" if "unat x < 256" for x :: u8 using that by (simp add: unsigned_ucast_eq take_bit_nat_eq_self)
  moreover have "unat (push_bit 8 (ucast b) :: u16) = 256 * unat b" unfolding unsigned_push_bit_eq c [OF ab(2)]
    using ab(2) by (simp add: push_bit_eq_mult take_bit_nat_eq_self)
  ultimately show ?thesis using ab by (simp add: unat_word_ariths)
qed

lemma words_sum_append: "even (length xs) \<Longrightarrow> words_sum (xs @ ys) = words_sum xs + words_sum ys"
  by (induction xs rule: words_sum.induct) auto

lemma fold16_range:
  assumes "0 < n" "n < 65536 * 65535"
  shows "0 < fold16 n \<and> fold16 n < 65536 \<and> fold16 n mod 65535 = n mod 65535"
proof -
  define h l where "h = n div 65536" and "l = n mod 65536"
  have n: "n = 65536 * h + l" "l < 65536" "h < 65535" using assms(2) by (simp_all add: h_def l_def)
  have m: "n mod 65535 = (h + l) mod 65535"
  proof -
    have "n = h + l + 65535 * h" using n by simp
    then show ?thesis by (metis mod_mult_self2)
  qed
  show ?thesis
  proof (cases "h + l < 65536")
    case True
    then have "fold16 n = h + l" by (simp add: fold16_def Let_def h_def [symmetric] l_def [symmetric] add.commute)
    then show ?thesis using True m n(1) assms(1) by auto
  next
    case False
    then have s: "(l + h) div 65536 = 1" using n by (intro div_nat_eqI) simp_all
    then have f: "fold16 n = (l + h + 1) mod 65536" by (simp add: fold16_def Let_def h_def [symmetric] l_def [symmetric])
    also have "\<dots> = l + h + 1 - 65536" using False n by (simp add: mod_if)
    finally have e: "fold16 n = l + h - 65535" by simp
    then have "h + l = fold16 n + 65535" using False by simp
    then show ?thesis using m n e False by (auto simp del: e)
  qed
qed

lemma unat_ucast_up: "LENGTH('a::len) \<le> LENGTH('b::len) \<Longrightarrow> unat (ucast (x :: 'a word) :: 'b word) = unat x"
proof -
  assume "LENGTH('a) \<le> LENGTH('b)"
  then have "unat x < 2 ^ LENGTH('b)" by (intro less_le_trans [OF unsigned_less power_increasing]) simp_all
  then show ?thesis by (simp add: unsigned_ucast_eq take_bit_nat_eq_self)
qed

lemma unat_not16: "unat (NOT (x :: u16)) = 65535 - unat x"
proof -
  have "NOT x = -1 - x" by (simp add: not_eq_complement)
  moreover have "x \<le> -1" by simp
  ultimately show ?thesis by (simp only: unat_sub) (simp add: unsigned_minus_1_eq_mask mask_eq_exp_minus_1)
qed

text \<open>The code computes the complement of the folded sum, as long as the sum fits in 32 bits.\<close>

lemma cksum_loop_sum: "unat sm + words_sum bs < 2 ^ 32 \<Longrightarrow> unat (cksum_loop sm bs) = unat sm + words_sum bs"
proof (induction sm bs rule: cksum_loop.induct)
  case (1 sm a b w)
  have "unat (ucast (un_le16 [a, b]) :: u32) = unat (un_le16 [a, b])"
    by (rule unat_ucast_up) simp
  then have "unat (sm + ucast (un_le16 [a, b])) = unat sm + (unat a + 256 * unat b)"
    using 1(2) by (simp add: unat_word_ariths un_le16_unat)
  then show ?case using 1 by simp
next
  case (2 sm a)
  have "unat (ucast a :: u32) = unat a" by (rule unat_ucast_up) simp
  then show ?case using 2 by (simp add: unat_word_ariths)
qed simp

lemma in_cksum_fold:
  assumes "words_sum bs < 2 ^ 32"
  shows "unat (in_cksum bs) = 65535 - fold16 (words_sum bs)"
proof -
  define sm where "sm = cksum_loop 0 bs"
  define s1 where "s1 = (sm AND 0xffff) + drop_bit 16 sm"
  define s2 where "s2 = s1 + drop_bit 16 s1"
  have u: "unat sm = words_sum bs" using cksum_loop_sum [of 0 bs] assms by (simp add: sm_def)
  have m: "(0xffff :: u32) = mask 16" by (simp add: mask_eq_exp_minus_1)
  have a: "unat (sm AND 0xffff) = unat sm mod 65536" unfolding m take_bit_eq_mask [symmetric] unsigned_take_bit_eq by (simp add: take_bit_eq_mod)
  have lt: "unat sm < 2 ^ 32" using u assms by simp
  then have d: "unat sm div 65536 < 65536" by simp
  have s1: "unat s1 = unat sm mod 65536 + unat sm div 65536" unfolding s1_def using d
    by (simp add: unat_word_ariths a unat_drop_bit_div)
  have s2: "unat s2 = unat s1 + unat s1 div 65536" unfolding s2_def using d s1 by (simp add: unat_word_ariths unat_drop_bit_div)
  have "(ucast (NOT s2) :: u16) = NOT (ucast s2)" by (rule bit_word_eqI) (simp add: bit_simps)
  then have "unat (ucast (NOT s2) :: u16) = 65535 - unat (ucast s2 :: u16)" by (simp only: unat_not16)
  also have "unat (ucast s2 :: u16) = fold16 (words_sum bs)"
    by (simp add: unsigned_ucast_eq take_bit_eq_mod s2 s1 u fold16_def Let_def)
  finally show ?thesis by (simp add: in_cksum_def Let_def sm_def s1_def s2_def)
qed

lemma words_sum_le: "words_sum bs \<le> 65535 * length bs"
proof (induction bs rule: words_sum.induct)
  case (1 a b w)
  have "unat a < 256" "unat b < 256" using unsigned_less [of a] unsigned_less [of b] by simp_all
  then show ?case using 1 by simp
next
  case (2 a)
  have "unat a < 256" using unsigned_less [of a] by simp
  then show ?case by simp
qed simp

lemma words_sum_le16: "words_sum (le16 c) = unat c"
proof -
  have "words_sum (le16 c) = unat (un_le16 (le16 c))" unfolding le16_def un_le16_unat by simp
  then show ?thesis by simp
qed

text \<open>A header whose checksum field holds the checksum computed with a zero there sums up to zero.\<close>

lemma checksum_verifies:
  assumes "even (length xs)" "0 < words_sum xs" "length xs + length ys < 2 ^ 14"
  shows "in_cksum (xs @ le16 (in_cksum (xs @ le16 0 @ ys)) @ ys) = 0"
proof -
  define S where "S = words_sum xs + words_sum ys"
  define c where "c = in_cksum (xs @ le16 0 @ ys)"
  have "S \<le> 65535 * (length xs + length ys)" using words_sum_le [of xs] words_sum_le [of ys] by (simp add: S_def)
  then have S: "0 < S" "S < 65535 * 2 ^ 14" using assms(2,3) by (auto simp: S_def)
  have sum: "words_sum (xs @ le16 v @ ys) = S + unat v" for v using assms(1) by (simp add: words_sum_append words_sum_le16 S_def)
  have c: "unat c = 65535 - fold16 S" unfolding c_def using in_cksum_fold [of "xs @ le16 0 @ ys"] S by (simp add: sum)
  have f: "0 < fold16 S" "fold16 S < 65536" "fold16 S mod 65535 = S mod 65535" using fold16_range [of S] S by simp_all
  define S' where "S' = S + unat c"
  have S': "0 < S'" "S' < 65536 * 65535" using S c by (simp_all add: S'_def)
  have "S' + fold16 S = S + 65535" using c f(2) by (simp add: S'_def)
  then have "(S' + fold16 S) mod 65535 = S mod 65535" by simp
  then have "(S' + fold16 S) mod 65535 = fold16 S mod 65535" using f(3) by simp
  then have "65535 dvd S'" by (metis add_diff_cancel_right' le_add2 mod_eq_dvd_iff_nat)
  then have "fold16 S' mod 65535 = 0" using fold16_range [OF S'] by (simp add: dvd_eq_mod_eq_0)
  then have "65535 \<le> fold16 S'" using fold16_range [OF S'] by (metis dvd_eq_mod_eq_0 dvd_imp_le)
  then have "unat (in_cksum (xs @ le16 c @ ys)) = 0" using in_cksum_fold [of "xs @ le16 c @ ys"] S' by (simp add: sum S'_def)
  then show ?thesis unfolding c_def by (simp add: unsigned_eq_0_iff)
qed

section \<open>Buffers as byte strings\<close>

definition mbuf_ok :: "mbuf \<Rightarrow> bool" where
  "mbuf_ok m \<longleftrightarrow> length (m_buf m) = MBUF_SIZE \<and> 0 \<le> m_head m \<and> nat (m_head m) + unat (m_len m) \<le> MBUF_SIZE"

definition data :: "mbuf \<Rightarrow> u8 list" where "data m = get (nat (m_head m)) (unat (m_len m)) (m_buf m)"

lemma length_data: "mbuf_ok m \<Longrightarrow> length (data m) = unat (m_len m)"
  by (auto simp: data_def mbuf_ok_def intro!: length_get)

lemma get_append: "get off (j + k) d = get off j d @ get (off + j) k d"
  by (simp add: get_def take_add add.commute)

text \<open>A header pushed in front of the data and filled in.\<close>

lemma push_store:
  assumes "mbuf_ok m" "int (length H) \<le> m_head m" "k = of_nat (length H)" "length H < 2048"
  shows "\<exists>m1 m2. mbufpush k m = Inr (m_head m - int (length H), m1) \<and> store (m_head m - int (length H)) H m1 = Inr m2 \<and>
    mbuf_ok m2 \<and> m_head m2 = m_head m - int (length H) \<and> m_len m2 = m_len m1 \<and> unat (m_len m2) = unat (m_len m) + length H \<and> data m2 = H @ data m"
proof -
  define p where "p = nat (m_head m - int (length H))"
  have hd: "nat (m_head m) = p + length H" "m_head m = int p + int (length H)" using assms(1,2) by (simp_all add: mbuf_ok_def p_def)
  have k: "uint k = int (length H)" "unat k = length H" using assms(3,4) by (simp_all add: unsigned_of_nat take_bit_nat_eq_self take_bit_int_eq_self)
  have len: "unat (m_len m + k) = unat (m_len m) + length H" using assms(1,4) k hd by (simp add: unat_word_ariths mbuf_ok_def MBUF_SIZE_def)
  define m1 where "m1 = m\<lparr>m_head := int p, m_len := m_len m + k\<rparr>"
  define m2 where "m2 = m1\<lparr>m_buf := put p H (m_buf m)\<rparr>"
  have b: "length (m_buf m) = MBUF_SIZE" "p + length H + unat (m_len m) \<le> MBUF_SIZE" using assms(1) hd by (simp_all add: mbuf_ok_def)
  have "mbufpush k m = Inr (int p, m1)" using hd k by (simp add: mbufpush_def Let_def m1_def)
  moreover have "store (int p) H m1 = Inr m2" using b by (simp add: store_def m2_def m1_def)
  moreover have "mbuf_ok m2" using b len by (simp add: mbuf_ok_def m2_def m1_def)
  moreover have "data m2 = H @ data m"
  proof -
    have "data m2 = get p (length H + unat (m_len m)) (put p H (m_buf m))" by (simp add: data_def m2_def m1_def len) (simp add: add.commute)
    also have "\<dots> = H @ get (p + length H) (unat (m_len m)) (m_buf m)" unfolding get_append using b by (simp add: get_put_same get_put_other)
    finally show ?thesis by (simp add: data_def hd(1))
  qed
  ultimately show ?thesis using hd len by (intro exI [of _ m1] exI [of _ m2]) (simp add: m2_def m1_def)
qed

lemma load_in:
  assumes "mbuf_ok m" "data m = A @ B @ C"
  shows "load (m_head m + int (length A)) (length B) m = Inr B"
proof -
  have l: "length A + length B + length C = unat (m_len m)" using length_data [OF assms(1)] assms(2) by simp
  have "get (nat (m_head m) + length A) (length B) (m_buf m) = take (length B) (drop (length A) (data m))"
    using l by (simp add: data_def get_def drop_take min_def add.commute)
  moreover have "m_head m + int (length A) + int (length B) \<le> int MBUF_SIZE" using assms(1) l unfolding mbuf_ok_def by linarith
  ultimately show ?thesis using assms l by (simp add: load_def mbuf_ok_def nat_add_distrib)
qed

lemma store_in:
  assumes "mbuf_ok m" "data m = A @ B @ C" "length B' = length B"
  shows "\<exists>m'. store (m_head m + int (length A)) B' m = Inr m' \<and> mbuf_ok m' \<and> m_head m' = m_head m \<and> m_len m' = m_len m \<and> data m' = A @ B' @ C"
proof -
  define p where "p = nat (m_head m)"
  have l: "length A + length B + length C = unat (m_len m)" using length_data [OF assms(1)] assms(2) by simp
  have b: "length (m_buf m) = MBUF_SIZE" "p + unat (m_len m) \<le> MBUF_SIZE" "m_head m = int p" using assms(1) by (simp_all add: mbuf_ok_def p_def)
  define m' where "m' = m\<lparr>m_buf := put (p + length A) B' (m_buf m)\<rparr>"
  have parts: "get p (length A) (m_buf m) = A" "get (p + length A + length B) (length C) (m_buf m) = C"
  proof -
    have "data m = get p (length A + (length B + length C)) (m_buf m)" using l by (simp add: data_def p_def add.assoc)
    then have d: "get p (length A) (m_buf m) @ get (p + length A) (length B) (m_buf m) @ get (p + length A + length B) (length C) (m_buf m) = A @ B @ C"
      unfolding get_append using assms(2) by simp
    have "length (get p (length A) (m_buf m)) = length A" "length (get (p + length A) (length B) (m_buf m)) = length B" using b l by simp_all
    then show "get p (length A) (m_buf m) = A" "get (p + length A + length B) (length C) (m_buf m) = C" using d by auto
  qed
  have "data m' = get p (length A + (length B' + length C)) (put (p + length A) B' (m_buf m))" using l assms(3) by (simp add: data_def m'_def p_def add.assoc)
  also have "\<dots> = A @ B' @ C" unfolding get_append using b l assms(3) parts by (simp add: get_put_same get_put_other)
  finally have "data m' = A @ B' @ C" .
  moreover have "store (m_head m + int (length A)) B' m = Inr m'" using b l assms(3) by (simp add: store_def m'_def nat_add_distrib)
  moreover have "mbuf_ok m'" using b l assms(1,3) by (simp add: mbuf_ok_def m'_def)
  ultimately show ?thesis by (intro exI [of _ m']) (simp add: m'_def)
qed

text \<open>A header pulled off the front.\<close>

lemma pull_hdr:
  assumes "mbuf_ok m" "data m = H @ R" "k = of_nat (length H)"
  shows "\<exists>m'. mbufpull k m = (Some (m_head m), m') \<and> load (m_head m) (length H) m' = Inr H \<and> mbuf_ok m' \<and> data m' = R"
proof -
  have l: "length H + length R = unat (m_len m)" using length_data [OF assms(1)] assms(2) by simp
  have b: "unat (m_len m) \<le> 2048" using assms(1) by (simp add: mbuf_ok_def MBUF_SIZE_def)
  have k: "uint k = int (length H)" "unat k = length H" using assms(3) l b by (simp_all add: unsigned_of_nat take_bit_nat_eq_self take_bit_int_eq_self)
  then have nl: "\<not> m_len m < k" "unat (m_len m - k) = length R" using l by (simp_all add: word_less_nat_alt unat_sub word_le_nat_alt)
  define m' where "m' = m\<lparr>m_len := m_len m - k, m_head := m_head m + uint k\<rparr>"
  have "load (m_head m) (length H) m' = load (m_head m + int (length ([] :: u8 list))) (length H) m" by (simp add: load_def m'_def)
  then have "load (m_head m) (length H) m' = Inr H" using load_in [OF assms(1), of "[]" H R] assms(2) by simp
  moreover have "data m' = R"
  proof -
    have "data m' = get (nat (m_head m) + length H) (length R) (m_buf m)" using assms(1) k nl by (simp add: data_def m'_def mbuf_ok_def nat_add_distrib)
    moreover have "get (nat (m_head m)) (length H) (m_buf m) @ get (nat (m_head m) + length H) (length R) (m_buf m) = H @ R"
      using assms(2) l by (simp add: data_def get_append [symmetric])
    moreover have "length (get (nat (m_head m)) (length H) (m_buf m)) = length H" using assms(1) l by (simp add: mbuf_ok_def)
    ultimately show ?thesis by simp
  qed
  moreover have "mbuf_ok m'" using assms(1) k nl l by (simp add: mbuf_ok_def m'_def nat_add_distrib)
  ultimately show ?thesis using nl by (intro exI [of _ m']) (simp add: mbufpull_def m'_def)
qed

section \<open>Frames\<close>

lemma bswaps_bswaps [simp]: "bswaps (bswaps v) = v"
proof (rule bit_word_eqI)
  fix n assume n: "n < LENGTH(16)"
  have m: "(0xff :: u16) = mask 8" "(0xff00 :: u16) = push_bit 8 (mask 8)" by (simp_all add: mask_eq_exp_minus_1)
  consider "n < 8" | "8 \<le> n" "n < 16" using n by fastforce
  then show "bit (bswaps (bswaps v)) n = bit v n" by cases (auto simp: bswaps_def m bit_simps)
qed

lemma bswapl_bswapl [simp]: "bswapl (bswapl v) = v"
proof (rule bit_word_eqI)
  fix n assume n: "n < LENGTH(32)"
  have m: "(0xff :: u32) = mask 8" "(0xff00 :: u32) = push_bit 8 (mask 8)" "(0xff0000 :: u32) = push_bit 16 (mask 8)" "(0xff000000 :: u32) = push_bit 24 (mask 8)"
    by (simp_all add: mask_eq_exp_minus_1)
  consider "n < 8" | "8 \<le> n" "n < 16" | "16 \<le> n" "n < 24" | "24 \<le> n" "n < 32" using n by fastforce
  then show "bit (bswapl (bswapl v)) n = bit v n" by cases (auto simp: bswapl_def m bit_simps)
qed

text \<open>Hosts whose hardware addresses have six bytes.\<close>

definition host_ok :: "host \<Rightarrow> bool" where
  "host_ok h \<longleftrightarrow> length (local_mac h) = ETHADDR_LEN \<and> (\<forall>e \<in> set (p_arp_table h). length (ae_ethaddr e) = ETHADDR_LEN)"

lemma arp_lookup_length: "host_ok h \<Longrightarrow> arp_lookup a h = Some mac \<Longrightarrow> length mac = ETHADDR_LEN"
  by (auto simp: host_ok_def arp_lookup_def find_Some_iff)

lemma ucast_of_nat_unat: "(ucast w :: 'b::len word) = of_nat (unat w)"
  by (simp add: word_unat_eq_iff unsigned_ucast_eq unsigned_of_nat)

text \<open>The Ethernet header in front of a packet.\<close>

lemma eth_frame:
  assumes "mbuf_ok m" "14 \<le> m_head m"
  shows "\<exists>m1. mbufpush 14 m = Inr (m_head m - 14, m1) \<and>
    (\<forall>dhost t h. host_ok h \<and> (\<forall>old. length old = ETHADDR_LEN \<longrightarrow> length (dhost old) = ETHADDR_LEN) \<longrightarrow>
      (\<exists>D. length D = 12 \<and> eth_fill dhost (m_head m - 14) t m1 h = Inr (h\<lparr>sent := sent h @ [D @ le16 (bswaps t) @ data m]\<rparr>)))"
proof -
  define H :: "u8 list" where "H = get (nat (m_head m - 14)) 14 (m_buf m)"
  have b: "length (m_buf m) = MBUF_SIZE" "0 \<le> m_head m" "nat (m_head m) + unat (m_len m) \<le> MBUF_SIZE" using assms(1) by (simp_all add: mbuf_ok_def)
  have H: "length H = 14" unfolding H_def using b assms(2) by (intro length_get) linarith
  obtain m1 m2 where p: "mbufpush 14 m = Inr (m_head m - 14, m1)" "store (m_head m - 14) H m1 = Inr m2" "mbuf_ok m2" "m_head m2 = m_head m - 14" "data m2 = H @ data m"
    using push_store [of m H 14] assms H by auto
  have buf1: "m_buf m1 = m_buf m" using p(1) by (auto simp: mbufpush_def Let_def split: if_splits)
  have "m2 = m1"
  proof -
    have "m2 = m1\<lparr>m_buf := put (nat (m_head m - 14)) H (m_buf m)\<rparr>" using p(2) buf1 by (auto simp: store_def split: if_splits)
    moreover have "put (nat (m_head m - 14)) H (m_buf m) = m_buf m" unfolding H_def using b assms(2) by (intro put_get) linarith
    ultimately show ?thesis using buf1 by simp
  qed
  then have m1: "mbuf_ok m1" "m_head m1 = m_head m - 14" "data m1 = H @ data m" using p by simp_all
  have "\<exists>D. length D = 12 \<and> eth_fill dhost (m_head m - 14) t m1 h = Inr (h\<lparr>sent := sent h @ [D @ le16 (bswaps t) @ data m]\<rparr>)"
    if h: "host_ok h" "\<forall>old. length old = ETHADDR_LEN \<longrightarrow> length (dhost old) = ETHADDR_LEN" for dhost t h
  proof -
    have o: "load (m_head m1 + int (length ([] :: u8 list))) (length (take 6 H)) m1 = Inr (take 6 H)"
      by (rule load_in [OF m1(1), of "[]" "take 6 H" "drop 6 H @ data m"]) (simp add: m1(3))
    define D where "D = dhost (take 6 H) @ local_mac h"
    have D: "length D = 12" using h H by (simp add: D_def host_ok_def ETHADDR_LEN_def)
    obtain m3 where m3: "store (m_head m1) (D @ le16 (bswaps t)) m1 = Inr m3" "mbuf_ok m3" "data m3 = (D @ le16 (bswaps t)) @ data m"
      using store_in [OF m1(1), of "[]" H "data m" "D @ le16 (bswaps t)"] m1(3) H D by auto
    have "load (m_head m3 + int (length ([] :: u8 list))) (length (data m3)) m3 = Inr (data m3)"
      by (rule load_in [OF m3(2), of "[]" "data m3" "[]"]) simp
    then have l: "load (m_head m3) (unat (m_len m3)) m3 = Inr (data m3)" using length_data [OF m3(2)] by simp
    show ?thesis using o H m3 l D by (intro exI [of _ D]) (simp add: eth_fill_def m1(2) [symmetric] ETHADDR_LEN_def D_def)
  qed
  then show ?thesis using p(1) by blast
qed

lemma net_tx_arp_total:
  assumes "host_ok h" "length dmac = ETHADDR_LEN"
  shows "\<exists>frames. net_tx_arp op dmac dip h = Inr (h\<lparr>sent := sent h @ frames\<rparr>)"
proof -
  define A where "A = le16 (bswaps ARP_HRD_ETHER) @ le16 (bswaps ETHTYPE_IP) @ [of_nat ETHADDR_LEN, 4] @ le16 (bswaps op) @
    local_mac h @ le32 (bswapl (local_ip h)) @ dmac @ le32 (bswapl dip)"
  have A: "length A = 28" using assms by (simp add: A_def host_ok_def ETHADDR_LEN_def)
  show ?thesis
  proof (cases "mem_left h")
    case mem: False
    have "net_tx_arp op dmac dip h = Inr (h\<lparr>sent := sent h @ []\<rparr>)" by (simp add: net_tx_arp_def arp_packet_build_def mbufalloc_def mem)
    then show ?thesis by blast
  next
    case mem: True
    define m where "m = \<lparr>m_head = 128, m_len = 28, m_buf = put 128 A (replicate MBUF_SIZE 0)\<rparr>"
    have b: "arp_packet_build op dmac dip h = Inr (Some m)"
      unfolding arp_packet_build_def A_def [symmetric] using A mem by (simp add: mbufalloc_def mbufput_def store_def MBUF_SIZE_def MBUF_DEFAULT_HEADROOM_def m_def)
    have m: "mbuf_ok m" "14 \<le> m_head m" using A by (simp_all add: mbuf_ok_def m_def MBUF_SIZE_def)
    have l: "\<exists>tha. load (m_head m + 18) ETHADDR_LEN m = Inr tha \<and> length tha = ETHADDR_LEN"
      using A by (auto simp: load_def m_def MBUF_SIZE_def ETHADDR_LEN_def intro!: length_get)
    then obtain tha where tha: "load (m_head m + 18) ETHADDR_LEN m = Inr tha" "length tha = ETHADDR_LEN" by blast
    obtain m1 where p: "mbufpush 14 m = Inr (m_head m - 14, m1)"
      "\<forall>dhost t h. host_ok h \<and> (\<forall>old. length old = ETHADDR_LEN \<longrightarrow> length (dhost old) = ETHADDR_LEN) \<longrightarrow>
        (\<exists>D. length D = 12 \<and> eth_fill dhost (m_head m - 14) t m1 h = Inr (h\<lparr>sent := sent h @ [D @ le16 (bswaps t) @ data m]\<rparr>))"
      using eth_frame [OF m] by blast
    obtain D where "eth_fill (\<lambda>_. tha) (m_head m - 14) ETHTYPE_ARP m1 h = Inr (h\<lparr>sent := sent h @ [D @ le16 (bswaps ETHTYPE_ARP) @ data m]\<rparr>)"
      using p(2) [rule_format, of h "\<lambda>_. tha" ETHTYPE_ARP] assms(1) tha(2) by blast
    then have "net_tx_arp op dmac dip h = Inr (h\<lparr>sent := sent h @ [D @ le16 (bswaps ETHTYPE_ARP) @ data m]\<rparr>)"
      using b tha(1) p(1) by (simp add: net_tx_arp_def)
    then show ?thesis by blast
  qed
qed

text \<open>Whatever the address tables say, an IP packet goes out as one frame, the last one sent.\<close>

lemma net_tx_eth_frame:
  assumes "mbuf_ok m" "14 \<le> m_head m" "host_ok h" "\<And>h. host_ok h \<Longrightarrow> host_ok (snd (wait h))" "20 \<le> length (data m)"
  shows "\<exists>h' fs D. net_tx_eth wait m h = Inr h' \<and> length D = 12 \<and> sent h' = fs @ [D @ le16 (bswaps ETHTYPE_IP) @ data m]"
proof -
  obtain m1 where p: "mbufpush 14 m = Inr (m_head m - 14, m1)"
    "\<forall>dhost t h. host_ok h \<and> (\<forall>old. length old = ETHADDR_LEN \<longrightarrow> length (dhost old) = ETHADDR_LEN) \<longrightarrow>
      (\<exists>D. length D = 12 \<and> eth_fill dhost (m_head m - 14) t m1 h = Inr (h\<lparr>sent := sent h @ [D @ le16 (bswaps t) @ data m]\<rparr>))"
    using eth_frame [OF assms(1,2)] by blast
  have fill: "\<exists>h' fs D. eth_fill dhost (m_head m - 14) ETHTYPE_IP m1 h = Inr h' \<and> length D = 12 \<and> sent h' = fs @ [D @ le16 (bswaps ETHTYPE_IP) @ data m]"
    if h: "host_ok h" "\<And>old. length old = ETHADDR_LEN \<Longrightarrow> length (dhost old) = ETHADDR_LEN" for dhost h
  proof -
    obtain D where "length D = 12" "eth_fill dhost (m_head m - 14) ETHTYPE_IP m1 h = Inr (h\<lparr>sent := sent h @ [D @ le16 (bswaps ETHTYPE_IP) @ data m]\<rparr>)"
      using p(2) h by blast
    then show ?thesis by (intro exI [of _ "h\<lparr>sent := sent h @ [D @ le16 (bswaps ETHTYPE_IP) @ data m]\<rparr>"] exI [of _ "sent h"] exI [of _ D]) simp
  qed
  have bc: "length broadcast_mac = ETHADDR_LEN" by (simp add: broadcast_mac_def)
  define I where "I = take 20 (data m)"
  have "load (m_head m + int (length ([] :: u8 list))) (length I) m = Inr I"
    by (rule load_in [OF assms(1), of "[]" I "drop 20 (data m)"]) (simp add: I_def)
  moreover have "length I = 20" using assms(5) by (simp add: I_def)
  ultimately have ld: "load (m_head m) 20 m = Inr I" by simp
  define dst where "dst = get32 16 I"
  obtain fs where arp: "net_tx_arp ARP_OP_REQUEST broadcast_mac (bswapl dst) h = Inr (h\<lparr>sent := sent h @ fs\<rparr>)" using net_tx_arp_total [OF assms(3) bc] by blast
  obtain ok h2 where w: "wait (h\<lparr>sent := sent h @ fs\<rparr>) = (ok, h2)" by fastforce
  have h2: "host_ok h2" using assms(4) [of "h\<lparr>sent := sent h @ fs\<rparr>"] assms(3) w by (simp add: host_ok_def)
  have "length ((case arp_lookup dst h2 of Some mac \<Rightarrow> \<lambda>_. mac | None \<Rightarrow> \<lambda>old. old) old) = ETHADDR_LEN" if "length old = ETHADDR_LEN" for old
    using that arp_lookup_length [OF h2] by (auto split: option.split)
  note late = fill [OF h2 this]
  have "\<exists>h' fs D. (case arp_lookup (bswapl dst) h of
        Some mac \<Rightarrow> eth_fill (\<lambda>_. mac) (m_head m - 14) ETHTYPE_IP m1 h
      | None \<Rightarrow> bindR (net_tx_arp ARP_OP_REQUEST broadcast_mac (bswapl dst) h) (\<lambda>h. case wait h of
          (False, h) \<Rightarrow> eth_fill (\<lambda>_. broadcast_mac) (m_head m - 14) ETHTYPE_IP m1 h
        | (True, h) \<Rightarrow> eth_fill (case arp_lookup dst h of Some mac \<Rightarrow> \<lambda>_. mac | None \<Rightarrow> \<lambda>old. old) (m_head m - 14) ETHTYPE_IP m1 h)) = Inr h' \<and>
      length D = 12 \<and> sent h' = fs @ [D @ le16 (bswaps ETHTYPE_IP) @ data m]"
  proof (cases "arp_lookup (bswapl dst) h")
    case (Some mac)
    then show ?thesis using fill [OF assms(3), of "\<lambda>_. mac"] arp_lookup_length [OF assms(3) Some] by simp
  next
    case None
    show ?thesis
    proof (cases ok)
      case True
      then show ?thesis using None late by (simp add: arp w)
    next
      case False
      then show ?thesis using None fill [OF h2, of "\<lambda>_. broadcast_mac"] bc by (simp add: arp w)
    qed
  qed
  moreover have "\<exists>h' fs D. eth_fill (\<lambda>_. broadcast_mac) (m_head m - 14) ETHTYPE_IP m1 h = Inr h' \<and> length D = 12 \<and> sent h' = fs @ [D @ le16 (bswaps ETHTYPE_IP) @ data m]"
    using fill [OF assms(3), of "\<lambda>_. broadcast_mac"] bc by blast
  ultimately show ?thesis unfolding net_tx_eth_def ld p(1) bindR.simps prod.case Let_def dst_def by (simp del: bindR.simps split: if_split)
qed

text \<open>The headers that go out for a payload.\<close>

definition udp_header :: "u16 \<Rightarrow> u16 \<Rightarrow> nat \<Rightarrow> u8 list" where
  "udp_header sport dport n = le16 (bswaps sport) @ le16 (bswaps dport) @ le16 (bswaps (of_nat (8 + n))) @ le16 0"

definition ip_front :: "nat \<Rightarrow> u8 list" where
  "ip_front n = [0x45, 0] @ le16 (bswaps (of_nat (28 + n))) @ le16 0 @ le16 0 @ [100, IPPROTO_UDP]"

definition ip_header :: "u16 \<Rightarrow> u32 \<Rightarrow> u32 \<Rightarrow> nat \<Rightarrow> u8 list" where
  "ip_header ck sip dip n = ip_front n @ le16 ck @ le32 (bswapl sip) @ le32 (bswapl dip)"

definition ip_packet :: "u32 \<Rightarrow> u32 \<Rightarrow> u16 \<Rightarrow> u16 \<Rightarrow> u8 list \<Rightarrow> u8 list" where
  "ip_packet sip dip sport dport P =
     ip_header (in_cksum (ip_header 0 sip dip (length P))) sip dip (length P) @ udp_header sport dport (length P) @ P"

lemma header_lengths [simp]: "length (udp_header sp dp n) = 8" "length (ip_front n) = 10" "length (ip_header ck sip dip n) = 20"
  by (simp_all add: udp_header_def ip_front_def ip_header_def)

lemma net_tx_udp_frame:
  assumes "mbuf_ok m" "42 \<le> m_head m" "host_ok h" "\<And>h. host_ok h \<Longrightarrow> host_ok (snd (wait h))"
  shows "\<exists>h' fs D. net_tx_udp wait m dip sport dport h = Inr h' \<and> length D = 12 \<and>
    sent h' = fs @ [D @ le16 (bswaps ETHTYPE_IP) @ ip_packet (local_ip h) dip sport dport (data m)]"
proof -
  let ?P = "data m" let ?n = "length (data m)"
  let ?U = "udp_header sport dport ?n" let ?I0 = "ip_header 0 (local_ip h) dip ?n"
  have n: "unat (m_len m) = ?n" by (simp add: length_data [OF assms(1)])
  obtain m1 m2 where 1: "mbufpush 8 m = Inr (m_head m - 8, m1)" "store (m_head m - 8) ?U m1 = Inr m2" "mbuf_ok m2" "m_head m2 = m_head m - 8"
    "m_len m2 = m_len m1" "unat (m_len m2) = ?n + 8" "data m2 = ?U @ ?P" using push_store [OF assms(1), of ?U 8] assms(2) n by auto
  have L1: "(ucast (m_len m1) :: u16) = of_nat (8 + ?n)" unfolding ucast_of_nat_unat 1(5) [symmetric] 1(6) by (simp add: add.commute)
  obtain m3 m4 where 2: "mbufpush 20 m2 = Inr (m_head m - 28, m3)" "store (m_head m - 28) ?I0 m3 = Inr m4" "mbuf_ok m4" "m_head m4 = m_head m - 28"
    "m_len m4 = m_len m3" "unat (m_len m4) = ?n + 28" "data m4 = ?I0 @ ?U @ ?P" using push_store [OF 1(3), of ?I0 20] assms(2) 1(4,6,7) by auto
  have L2: "(ucast (m_len m3) :: u16) = of_nat (28 + ?n)" unfolding ucast_of_nat_unat 2(5) [symmetric] 2(6) by (simp add: add.commute)
  have ld: "load (m_head m - 28) 20 m4 = Inr ?I0" using load_in [OF 2(3), of "[]" ?I0 "?U @ ?P"] 2(4,7) by simp
  let ?ck = "in_cksum ?I0"
  have "data m4 = ip_front ?n @ le16 0 @ (le32 (bswapl (local_ip h)) @ le32 (bswapl dip) @ ?U @ ?P)" using 2(7) by (simp add: ip_header_def)
  from store_in [OF 2(3) this, of "le16 ?ck"] obtain m5 where 3: "store (m_head m - 28 + 10) (le16 ?ck) m4 = Inr m5" "mbuf_ok m5" "m_head m5 = m_head m - 28"
    "data m5 = ip_packet (local_ip h) dip sport dport ?P" using 2(4) by (auto simp: ip_packet_def ip_header_def)
  have "net_tx_udp wait m dip sport dport h = net_tx_ip wait IPPROTO_UDP dip m2 h" using 1(1,2) unfolding net_tx_udp_def udp_header_def L1 by (simp add: L1)
  also have "\<dots> = net_tx_eth wait m5 h" using 2(1,2) ld 3(1) unfolding net_tx_ip_def by (simp add: L2 ip_header_def ip_front_def)
  finally show ?thesis using net_tx_eth_frame [OF 3(2) _ assms(3,4)] assms(2) unfolding 3(3,4) by (simp add: ip_packet_def)
qed

text \<open>And how they come in.\<close>

lemma udp_fields:
  "get16 0 (udp_header sp dp n) = bswaps sp" "get16 2 (udp_header sp dp n) = bswaps dp" "get16 4 (udp_header sp dp n) = bswaps (of_nat (8 + n))"
  by (simp_all add: udp_header_def get16_def get_def)

lemma ip_fields:
  "ip_header ck sip dip n ! 0 = 0x45" "ip_header ck sip dip n ! 9 = IPPROTO_UDP" "get16 2 (ip_header ck sip dip n) = bswaps (of_nat (28 + n))"
  "get16 6 (ip_header ck sip dip n) = 0" "get32 12 (ip_header ck sip dip n) = bswapl sip" "get32 16 (ip_header ck sip dip n) = bswapl dip"
  by (simp_all add: ip_header_def ip_front_def get16_def get32_def get_def nth_append)

lemma ip_checksum: "in_cksum (ip_header (in_cksum (ip_header 0 sip dip n)) sip dip n) = 0"
  unfolding ip_header_def by (rule checksum_verifies) (simp_all, simp add: ip_front_def)

lemma trim_data:
  assumes "mbuf_ok m" "data m = P @ pad" "unat k = length P"
  shows "data (snd (mbuftrim (m_len m - k) m)) = P"
proof -
  have l: "unat (m_len m) = length P + length pad" using length_data [OF assms(1)] assms(2) by simp
  then have u: "unat (m_len m - k) = length pad" using assms(3) by (simp add: unat_sub word_le_nat_alt)
  then have "\<not> m_len m - k > m_len m" using l by (simp add: word_less_nat_alt)
  then have "snd (mbuftrim (m_len m - k) m) = m\<lparr>m_len := k\<rparr>" by (simp add: mbuftrim_def Let_def)
  moreover have "data (m\<lparr>m_len := k\<rparr>) = take (length P) (data m)" using l by (simp add: data_def get_def assms(3) min_def)
  ultimately show ?thesis using assms(2) by simp
qed

lemma net_rx_udp_packet:
  assumes "mbuf_ok m" "data m = udp_header sport dport (length P) @ P @ pad"
  shows "\<exists>m'. net_rx_udp m (of_nat (8 + length P)) (ip_header ck sip dip n) h = Inr (sockrecvudp m' sip dport sport h) \<and> data m' = P"
proof -
  let ?U = "udp_header sport dport (length P)"
  obtain m1 where 1: "mbufpull 8 m = (Some (m_head m), m1)" "load (m_head m) 8 m1 = Inr ?U" "mbuf_ok m1" "data m1 = P @ pad"
    using pull_hdr [OF assms(1), of ?U "P @ pad" 8] assms(2) by auto
  have l: "length P + length pad = unat (m_len m1)" "unat (m_len m1) \<le> 2048"
    using length_data [OF 1(3)] 1(3,4) by (simp_all add: mbuf_ok_def MBUF_SIZE_def)
  define k :: u32 where "k = ucast (of_nat (length P) :: u16)"
  have k: "unat k = length P" using l by (simp add: k_def unat_ucast_up unsigned_of_nat take_bit_nat_eq_self)
  have len: "(of_nat (8 + length P) :: u16) - 8 = of_nat (length P)" by simp
  have "\<not> k > m_len m1" using k l by (simp add: word_less_nat_alt)
  then have "net_rx_udp m (of_nat (8 + length P)) (ip_header ck sip dip n) h = Inr (sockrecvudp (snd (mbuftrim (m_len m1 - k) m1)) sip dport sport h)"
    using 1(1,2) unfolding net_rx_udp_def len by (simp add: udp_fields ip_fields k_def [symmetric] Let_def)
  then show ?thesis using trim_data [OF 1(3,4) k] by blast
qed

section \<open>Properties\<close>

text \<open>
  C39: a UDP packet arrives as it was sent. Sending a buffer with room for the headers always gives the driver a frame, whatever the address
  tables hold and whatever happens while an ARP request is waited for. When a host with the destination address, or any host for a broadcast,
  receives this frame, padded or not, it accepts the checksum and the lengths and hands a buffer with exactly the payload to the sockets, with the
  sender's address and the two ports in place.
\<close>

theorem udp_roundtrip:
  assumes "mbuf_ok m" "42 \<le> m_head m" "host_ok h" "\<forall>h. host_ok h \<longrightarrow> host_ok (snd (wait h))"
  shows "\<exists>h' frame. net_tx_udp wait m dip sport dport h = Inr h' \<and> last (sent h') = frame \<and> length frame = 42 + length (data m) \<and>
    (\<forall>r m2 pad. mbuf_ok m2 \<and> data m2 = frame @ pad \<and> (local_ip r = dip \<or> dip = MAKE_IP_ADDR 255 255 255 255) \<longrightarrow>
      (\<exists>m3. net_rx m2 r = Inr (sockrecvudp m3 (local_ip h) dport sport r) \<and> data m3 = data m))"
proof -
  let ?P = "data m" let ?n = "length (data m)"
  let ?I = "ip_header (in_cksum (ip_header 0 (local_ip h) dip ?n)) (local_ip h) dip ?n"
  obtain h' fs D where t: "net_tx_udp wait m dip sport dport h = Inr h'" "length D = 12"
    "sent h' = fs @ [D @ le16 (bswaps ETHTYPE_IP) @ ip_packet (local_ip h) dip sport dport ?P]"
    using net_tx_udp_frame [OF assms(1-3), of wait] assms(4) by blast
  have "\<exists>m3. net_rx m2 r = Inr (sockrecvudp m3 (local_ip h) dport sport r) \<and> data m3 = ?P"
    if m2: "mbuf_ok m2" "data m2 = (D @ le16 (bswaps ETHTYPE_IP) @ ip_packet (local_ip h) dip sport dport ?P) @ pad"
      and r: "local_ip r = dip \<or> dip = MAKE_IP_ADDR 255 255 255 255" for r m2 pad
  proof -
    let ?E = "D @ le16 (bswaps ETHTYPE_IP)"
    have E: "length ?E = 14" "get16 12 ?E = bswaps ETHTYPE_IP" using t(2) by (simp_all add: get16_def get_def)
    obtain ma where a: "mbufpull 14 m2 = (Some (m_head m2), ma)" "load (m_head m2) 14 ma = Inr ?E" "mbuf_ok ma" "data ma = ip_packet (local_ip h) dip sport dport ?P @ pad"
      using pull_hdr [OF m2(1), of ?E "ip_packet (local_ip h) dip sport dport ?P @ pad" 14] m2(2) E(1) by auto
    obtain mb where b: "mbufpull 20 ma = (Some (m_head ma), mb)" "load (m_head ma) 20 mb = Inr ?I" "mbuf_ok mb" "data mb = udp_header sport dport ?n @ ?P @ pad"
      using pull_hdr [OF a(3), of ?I "udp_header sport dport ?n @ ?P @ pad" 20] a(4) by (auto simp: ip_packet_def)
    have len: "(of_nat (28 + ?n) :: u16) - 20 = of_nat (8 + ?n)" by simp
    obtain m3 where m3: "net_rx_udp mb (of_nat (8 + ?n)) ?I r = Inr (sockrecvudp m3 (local_ip h) dport sport r)" "data m3 = ?P"
      using net_rx_udp_packet [OF b(3,4)] by blast
    have "net_rx_ip ma r = net_rx_udp mb (of_nat (28 + ?n) - 20) ?I r"
      using b(1,2) r unfolding net_rx_ip_def by (auto simp: ip_fields ip_checksum bswaps_def [of 0])
    then have "net_rx m2 r = Inr (sockrecvudp m3 (local_ip h) dport sport r)"
      using a(1,2) m3(1) unfolding net_rx_def len by (simp add: E(2))
    then show ?thesis using m3(2) by blast
  qed
  then show ?thesis using t by (intro exI [of _ h'] exI [of _ "D @ le16 (bswaps ETHTYPE_IP) @ ip_packet (local_ip h) dip sport dport ?P"])
    (simp add: ip_packet_def)
qed

definition sample_host :: host where
  "sample_host = \<lparr>local_ip = 0x0A000002, local_netmask = 0xFFFFFF00, local_mac = [0x52, 0x54, 0, 0x12, 0x34, 0x56],
     p_arp_table = replicate ARP_ENTRIES \<lparr>ae_ipaddr = 0, ae_ethaddr = replicate ETHADDR_LEN 0, ae_time = 0\<rparr>, arptime = 0,
     p_entries = replicate NEIGHBOR_ENTRIES \<lparr>ne_ipaddr = 0, ne_addr = replicate ETHADDR_LEN 0, ne_time = MAX_NEIGHBOR_TIME\<rparr>, sockets = [], sent = [], mem_left = True\<rparr>"

definition sample_mbuf :: mbuf where "sample_mbuf = \<lparr>m_head = 128, m_len = 3, m_buf = replicate MBUF_SIZE 7\<rparr>"

theorem udp_roundtrip_witness:
  "\<exists>h' m2 m3. net_tx_udp (\<lambda>h. (False, h)) sample_mbuf 0x0A000003 7 9 sample_host = Inr h' \<and> data m2 = last (sent h') \<and>
    net_rx m2 (sample_host\<lparr>local_ip := 0x0A000003\<rparr>) = Inr (sockrecvudp m3 0x0A000002 9 7 (sample_host\<lparr>local_ip := 0x0A000003\<rparr>)) \<and> data m3 = [7, 7, 7]"
proof -
  have "data sample_mbuf = replicate 3 7" by (simp add: sample_mbuf_def MBUF_SIZE_def data_def get_def)
  then have d: "data sample_mbuf = [7, 7, 7]" by (simp add: numeral_3_eq_3)
  have m: "mbuf_ok sample_mbuf" "42 \<le> m_head sample_mbuf" by (simp_all add: mbuf_ok_def sample_mbuf_def MBUF_SIZE_def)
  have h: "host_ok sample_host" by (simp add: host_ok_def sample_host_def ETHADDR_LEN_def)
  obtain h' frame where r: "net_tx_udp (\<lambda>h. (False, h)) sample_mbuf 0x0A000003 7 9 sample_host = Inr h'" "last (sent h') = frame" "length frame = 45"
    "\<forall>r m2 pad. mbuf_ok m2 \<and> data m2 = frame @ pad \<and> (local_ip r = 0x0A000003 \<or> 0x0A000003 = MAKE_IP_ADDR 255 255 255 255) \<longrightarrow>
      (\<exists>m3. net_rx m2 r = Inr (sockrecvudp m3 (local_ip sample_host) 9 7 r) \<and> data m3 = data sample_mbuf)"
    using udp_roundtrip [OF m(1,2) h, of "\<lambda>h. (False, h)" "0x0A000003" 7 9] d by auto
  define m2 where "m2 = \<lparr>m_head = 0, m_len = 45, m_buf = frame @ replicate (MBUF_SIZE - 45) 0\<rparr>"
  have "mbuf_ok m2" "data m2 = frame @ []" using r(3) by (simp_all add: mbuf_ok_def m2_def data_def get_def MBUF_SIZE_def)
  then obtain m3 where "net_rx m2 (sample_host\<lparr>local_ip := 0x0A000003\<rparr>) = Inr (sockrecvudp m3 (local_ip sample_host) 9 7 (sample_host\<lparr>local_ip := 0x0A000003\<rparr>))" "data m3 = [7, 7, 7]"
    using r(4) [rule_format, of m2 "[]" "sample_host\<lparr>local_ip := 0x0A000003\<rparr>"] d by auto
  then show ?thesis using r \<open>data m2 = frame @ []\<close> by (intro exI [of _ h'] exI [of _ m2] exI [of _ m3]) (simp add: sample_host_def)
qed

text \<open>Lookups after an update of the table.\<close>

lemma index_of_le: "index_of P xs \<le> length xs" "index_of P xs < length xs \<longleftrightarrow> (\<exists>x \<in> set xs. P x)" "index_of P xs < length xs \<Longrightarrow> P (xs ! index_of P xs)"
  by (induction xs) auto

lemma find_index_of: "find P xs = (if index_of P xs < length xs then Some (xs ! index_of P xs) else None)"
  by (induction xs) auto

lemma index_of_update: "P y \<Longrightarrow> index_of P xs < length xs \<Longrightarrow> find P (xs[index_of P xs := y]) = Some y"
  by (induction xs) auto

lemma find_update_None: "find P xs = None \<Longrightarrow> i < length xs \<Longrightarrow> find P (xs[i := y]) = (if P y then Some y else None)"
  by (induction xs arbitrary: i) (auto split: nat.split if_splits)

lemma oldest_less: "c < n \<Longrightarrow> i + length es \<le> n \<Longrightarrow> oldest now i c a es < n"
  by (induction es arbitrary: i c a) auto

lemma arp_update_lookup:
  assumes "length (p_arp_table h) = ARP_ENTRIES" "ip \<noteq> 0" "other \<noteq> ip" "arp_lookup other h = None"
  shows "arp_lookup ip (arp_update ip mac h) = Some mac" "arp_lookup other (arp_update ip mac h) = None"
proof -
  let ?tab = "p_arp_table h"
  have P: "(\<lambda>e. ae_ipaddr e \<noteq> 0 \<and> ip = ae_ipaddr e) = (\<lambda>e. ae_ipaddr e = ip)" using assms(2) by auto
  define i where "i = index_of (\<lambda>e. ae_ipaddr e = ip) ?tab"
  have oth: "find (\<lambda>e. ae_ipaddr e = other) ?tab = None" using assms(4) by (simp add: arp_lookup_def)
  have "arp_lookup ip (arp_update ip mac h) = Some mac \<and> arp_lookup other (arp_update ip mac h) = None"
  proof (cases "i < ARP_ENTRIES")
    case True
    let ?e = "(?tab ! i)\<lparr>ae_ethaddr := mac, ae_time := arptime h\<rparr>"
    have ip: "ae_ipaddr (?tab ! i) = ip" using index_of_le(3) [of "\<lambda>e. ae_ipaddr e = ip" ?tab] True assms(1) by (simp add: i_def)
    have "arp_update ip mac h = h\<lparr>p_arp_table := ?tab[i := ?e]\<rparr>" using True unfolding arp_update_def P i_def [symmetric] Let_def by simp
    moreover have "find (\<lambda>e. ae_ipaddr e = ip) (?tab[i := ?e]) = Some ?e" unfolding i_def by (rule index_of_update) (use ip True assms(1) in \<open>simp_all add: i_def [symmetric]\<close>)
    moreover have "find (\<lambda>e. ae_ipaddr e = other) (?tab[i := ?e]) = None" using find_update_None [OF oth, of i ?e] True assms(1,3) ip by simp
    ultimately show ?thesis by (simp add: arp_lookup_def)
  next
    case False
    define j where "j = (if index_of (\<lambda>e. ae_ipaddr e = 0) ?tab = ARP_ENTRIES then oldest (arptime h) 0 0 0 ?tab else index_of (\<lambda>e. ae_ipaddr e = 0) ?tab)"
    let ?e = "\<lparr>ae_ipaddr = ip, ae_ethaddr = mac, ae_time = arptime h\<rparr>"
    have j: "j < length ?tab" using oldest_less [of 0 ARP_ENTRIES 0 ?tab "arptime h" 0] index_of_le(1) [of "\<lambda>e. ae_ipaddr e = 0" ?tab] assms(1)
      by (auto simp: j_def ARP_ENTRIES_def)
    have no: "find (\<lambda>e. ae_ipaddr e = ip) ?tab = None" using False assms(1) by (simp add: find_index_of i_def)
    have "arp_update ip mac h = h\<lparr>p_arp_table := ?tab[j := ?e]\<rparr>" using False unfolding arp_update_def P i_def [symmetric] Let_def j_def by simp
    then show ?thesis using find_update_None [OF no j, of ?e] find_update_None [OF oth j, of ?e] assms(3) by (simp add: arp_lookup_def)
  qed
  then show "arp_lookup ip (arp_update ip mac h) = Some mac" "arp_lookup other (arp_update ip mac h) = None" by auto
qed

lemma neighbor_frame: "p_arp_table (neighbor_add_or_update ip na h) = p_arp_table h" "local_ip (neighbor_add_or_update ip na h) = local_ip h"
  by (simp_all add: neighbor_add_or_update_def neighbor_add_def Let_def)

text \<open>
  An ARP reply teaches the host the wrong address. When a well-formed reply from \<open>sip\<close> to this host is handled, the table used for sending
  gets the hardware address of the sender under the address of this host itself, and \<open>sip\<close>, if it was not in the table, is still
  not in it; so packets to \<open>sip\<close> go on asking.
\<close>

theorem arp_reply_wrong_entry:
  assumes "length (p_arp_table h) = ARP_ENTRIES" "local_ip h \<noteq> 0"
    "bswaps (get16 0 a) = ARP_HRD_ETHER" "bswaps (get16 2 a) = ETHTYPE_IP" "a ! 4 = 6" "a ! 5 = 4" "bswaps (get16 6 a) = ARP_OP_REPLY"
    "bswapl (get32 24 a) = local_ip h" "bswapl (get32 14 a) = sip" "sip \<noteq> local_ip h" "arp_lookup sip h = None"
  shows "\<exists>h'. arp_packet_handle a h = (0, h') \<and> arp_lookup (local_ip h) h' = Some (get 8 ETHADDR_LEN a) \<and> arp_lookup sip h' = None"
proof -
  define h1 where "h1 = neighbor_add_or_update sip (get 8 ETHADDR_LEN a) h"
  have h1: "p_arp_table h1 = p_arp_table h" "local_ip h1 = local_ip h" by (simp_all add: h1_def neighbor_frame)
  then have "arp_lookup sip h1 = None" using assms(11) by (simp add: arp_lookup_def)
  note u = arp_update_lookup [of h1 "local_ip h" sip, OF _ assms(2,10) this]
  have "arp_packet_handle a h = (0, arp_update (local_ip h) (get 8 ETHADDR_LEN a) h1)"
    using assms(3-9) h1(2) by (simp add: arp_packet_handle_def Let_def ETHADDR_LEN_def h1_def)
  then show ?thesis using u assms(1) h1(1) by simp
qed

definition sample_arp :: "u8 list" where
  "sample_arp = [0, 1, 8, 0, 6, 4, 0, 2, 1, 2, 3, 4, 5, 6, 10, 0, 0, 3, 82, 84, 0, 18, 52, 86, 10, 0, 0, 2]"

theorem arp_reply_wrong_entry_witness:
  "\<exists>h'. arp_packet_handle sample_arp sample_host = (0, h') \<and> arp_lookup 0x0A000002 h' = Some [1, 2, 3, 4, 5, 6] \<and> arp_lookup 0x0A000003 h' = None"
proof -
  have f: "bswaps (get16 0 sample_arp) = ARP_HRD_ETHER" "bswaps (get16 2 sample_arp) = ETHTYPE_IP" "sample_arp ! 4 = 6" "sample_arp ! 5 = 4"
    "bswaps (get16 6 sample_arp) = ARP_OP_REPLY" "bswapl (get32 24 sample_arp) = local_ip sample_host" "bswapl (get32 14 sample_arp) = 0x0A000003"
    "get 8 ETHADDR_LEN sample_arp = [1, 2, 3, 4, 5, 6]" by code_simp+
  have t: "length (p_arp_table sample_host) = ARP_ENTRIES" "local_ip sample_host \<noteq> 0" "0x0A000003 \<noteq> local_ip sample_host" "local_ip sample_host = 0x0A000002"
    by (simp_all add: sample_host_def)
  have "arp_lookup 0x0A000003 sample_host = None" by code_simp
  then show ?thesis using arp_reply_wrong_entry [OF t(1,2) f(1-7) t(3)] f(8) t(4) by simp
qed

end
