(* ===== verification/Triples.thy ===== *)
theory Triples
  imports Monad
begin

text \<open>
  Triples for the computations of theory Monad: from a state with the precondition a computation that returns gives a
  result with the postcondition, and one that fails does so with a fault of the set \<open>F\<close>.
  The rules follow the structure of a computation, so that a proof applies them as introduction rules.
\<close>

definition trip :: "fault set \<Rightarrow> ('s \<Rightarrow> bool) \<Rightarrow> ('s, 'a) comp \<Rightarrow> ('a \<Rightarrow> 's \<Rightarrow> bool) \<Rightarrow> bool" where
  "trip F P m Q \<longleftrightarrow> (\<forall>s. P s \<longrightarrow> (case m s of None \<Rightarrow> True | Some (Inl e) \<Rightarrow> e \<in> F | Some (Inr (x, t)) \<Rightarrow> Q x t))"

lemma tripI:
  "(\<And>s e. P s \<Longrightarrow> m s = Some (Inl e) \<Longrightarrow> e \<in> F) \<Longrightarrow> (\<And>s x t. P s \<Longrightarrow> m s = Some (Inr (x, t)) \<Longrightarrow> Q x t) \<Longrightarrow> trip F P m Q"
  by (auto simp: trip_def split: option.splits sum.splits)

lemma tripD: "trip F P m Q \<Longrightarrow> P s \<Longrightarrow> m s = Some (Inr (x, t)) \<Longrightarrow> Q x t"
  by (auto simp: trip_def)

lemma trip_fault: "trip F P m Q \<Longrightarrow> P s \<Longrightarrow> m s = Some (Inl e) \<Longrightarrow> e \<in> F"
  by (auto simp: trip_def)

named_theorems trip_rules \<open>one rule per form of computation\<close>

lemma trip_bind [trip_rules]: "trip F P m R \<Longrightarrow> (\<And>x. trip F (R x) (f x) Q) \<Longrightarrow> trip F P (bindC m f) Q"
  by (intro tripI) (auto simp: bindC_def dest: trip_fault tripD split: option.splits sum.splits)

lemma trip_then [trip_rules]: "trip F P m (\<lambda>_. R) \<Longrightarrow> trip F R k Q \<Longrightarrow> trip F P (thenC m k) Q"
  unfolding thenC_def by (rule trip_bind)

lemma trip_ret: "(\<And>s. P s \<Longrightarrow> Q x s) \<Longrightarrow> trip F P (retC x) Q"
  by (simp add: trip_def retC_def)

lemma trip_fail: "(\<And>s. P s \<Longrightarrow> e \<in> F) \<Longrightarrow> trip F P (failC e) Q"
  by (simp add: trip_def failC_def)

lemma trip_get: "(\<And>s. P s \<Longrightarrow> Q (g s) s) \<Longrightarrow> trip F P (getC g) Q"
  by (simp add: trip_def getC_def)

lemma trip_mod: "(\<And>s. P s \<Longrightarrow> Q () (u s)) \<Longrightarrow> trip F P (modC u) Q"
  by (simp add: trip_def modC_def)

lemma trip_if [trip_rules]: "(b \<Longrightarrow> trip F P m Q) \<Longrightarrow> (\<not> b \<Longrightarrow> trip F P k Q) \<Longrightarrow> trip F P (if b then m else k) Q"
  by simp

lemma trip_let: "(\<And>y. y = x \<Longrightarrow> trip F P (f y) Q) \<Longrightarrow> trip F P (Let x f) Q"
  by simp

lemma trip_option: "(x = None \<Longrightarrow> trip F P m Q) \<Longrightarrow> (\<And>y. x = Some y \<Longrightarrow> trip F P (f y) Q) \<Longrightarrow> trip F P (case x of None \<Rightarrow> m | Some y \<Rightarrow> f y) Q"
  by (cases x) auto

lemma trip_prod: "(\<And>a b. x = (a, b) \<Longrightarrow> trip F P (f a b) Q) \<Longrightarrow> trip F P (case x of (a, b) \<Rightarrow> f a b) Q"
  by (cases x) auto

lemma trip_weaken: "trip F P m Q \<Longrightarrow> (\<And>s. P' s \<Longrightarrow> P s) \<Longrightarrow> (\<And>x s. Q x s \<Longrightarrow> Q' x s) \<Longrightarrow> trip F P' m Q'"
  by (intro tripI) (auto dest: trip_fault tripD)

lemma trip_pre: "trip F P m Q \<Longrightarrow> (\<And>s. P' s \<Longrightarrow> P s) \<Longrightarrow> trip F P' m Q"
  by (rule trip_weaken)

lemma trip_post: "trip F P m Q \<Longrightarrow> (\<And>x s. Q x s \<Longrightarrow> Q' x s) \<Longrightarrow> trip F P m Q'"
  by (rule trip_weaken)

lemma trip_faults: "trip F P m Q \<Longrightarrow> F \<subseteq> G \<Longrightarrow> trip G P m Q"
  by (auto simp: trip_def split: option.splits sum.splits)

lemma trip_exists: "(\<And>a. trip F (P a) m Q) \<Longrightarrow> trip F (\<lambda>s. \<exists>a. P a s) m Q"
  by (auto simp: trip_def)

lemma trip_imp: "(b \<Longrightarrow> trip F P m Q) \<Longrightarrow> trip F (\<lambda>s. b \<and> P s) m Q"
  by (auto simp: trip_def)

text \<open>Loops that keep an invariant.\<close>

lemma trip_forC: "(\<And>i. i \<in> set is \<Longrightarrow> trip F I (f i) (\<lambda>_. I)) \<Longrightarrow> trip F I (forC f is) (\<lambda>_. I)"
proof (induction "is")
  case (Cons i "is")
  have "trip F I (bindC (f i) (\<lambda>_. forC f is)) (\<lambda>_. I)"
    by (rule trip_bind [where R = "\<lambda>_. I"]) (use Cons in auto)
  then show ?case by (simp add: trip_def)
qed (simp add: trip_def)

lemma trip_searchC: "(\<And>i. i \<in> set is \<Longrightarrow> trip F I (f i) (\<lambda>_. I)) \<Longrightarrow> trip F I (searchC f is) (\<lambda>_. I)"
proof (induction "is")
  case (Cons i "is")
  have "trip F I (bindC (f i) (\<lambda>r. case r of Some x \<Rightarrow> retC (Some x) | None \<Rightarrow> searchC f is)) (\<lambda>_. I)"
    by (rule trip_bind [where R = "\<lambda>_. I"]) (use Cons in \<open>auto split: option.split intro: trip_ret\<close>)
  then show ?case by (simp add: trip_def)
qed (simp add: trip_def)

text \<open>A loop whose invariant counts the turns.\<close>

lemma trip_forC_upt:
  "(\<And>i. i < n \<Longrightarrow> trip F (I i) (f i) (\<lambda>_. I (Suc i))) \<Longrightarrow> k \<le> n \<Longrightarrow> trip F (I k) (forC f [k..<n]) (\<lambda>_. I n)"
proof (induction "n - k" arbitrary: k)
  case (Suc m)
  have "trip F (I k) (bindC (f k) (\<lambda>_. forC f [Suc k..<n])) (\<lambda>_. I n)"
    by (rule trip_bind [where R = "\<lambda>_. I (Suc k)"]) (use Suc in auto)
  moreover have "[k..<n] = k # [Suc k..<n]" using Suc by (simp add: upt_conv_Cons)
  ultimately show ?case by (simp add: trip_def)
qed (simp add: trip_def)

end
