(* ===== verification/Files.thy ===== *)
theory Files
  imports Fs Pipe Net Triples
begin

text \<open>
  Open files and descriptors: the file table of \<^verbatim>\<open>kernel/file.c\<close>, the descriptor tables of tasks with the
  calls of \<^verbatim>\<open>kernel/sysfile.c\<close> that act on them, the creation of pipes (\<^verbatim>\<open>kernel/pipe.c\<close>) and the opening and closing
  of sockets (\<^verbatim>\<open>kernel/sysnet.c\<close>). A pointer to \<^verbatim>\<open>ftable.file[i]\<close> is \<open>i + 1\<close> and 0 is \<^verbatim>\<open>NULL\<close>, as for
  inodes in theory Fs. What \<^verbatim>\<open>kmalloc\<close> and \<^verbatim>\<open>get_free_page\<close> return is a list of addresses in the state, used up in order; the
  addresses in use are part of the state. Copies between kernel and user memory, and device
  routines, are arguments; the memory they change is a value of any type.
\<close>

section \<open>State\<close>

definition NOFILE :: nat where "NOFILE = 16"
definition NFILE :: nat where "NFILE = 100"
definition NDEV :: nat where "NDEV = 10"
definition EIO :: int where "EIO = 5"
definition EPIPE :: int where "EPIPE = 32"

datatype ftype = FD_NONE | FD_PIPE | FD_INODE | FD_DEVICE | FD_SOCK

record kfile =
  f_type :: ftype
  f_ref :: int
  f_readable :: bool
  f_writable :: bool
  f_pipe :: nat
  f_ip :: nat
  f_sock :: nat
  f_off :: u32
  f_major :: u16

text \<open>
  \<open>k_pdata\<close> is the page of a pipe; \<open>k_sockets\<close> the list of sockets from its head on; \<open>k_task\<close> is
  \<^verbatim>\<open>current\<close>, whose directory is \<open>fs_cwd\<close> of \<open>k_fs\<close>.
\<close>

record ker =
  k_fs :: fs
  k_ftable :: "kfile list"
  k_pipes :: "nat \<Rightarrow> pipe"
  k_pdata :: "nat \<Rightarrow> nat"
  k_sock :: "nat \<Rightarrow> sock"
  k_sockets :: "nat list"
  k_mem :: "nat list"
  k_live :: "nat list"
  k_bad :: "nat list"
  k_tasks :: "nat list"
  k_task :: nat
  k_ofile :: "nat \<Rightarrow> nat list"
  k_cwd :: "nat \<Rightarrow> nat"

definition file_at :: "ker \<Rightarrow> nat \<Rightarrow> kfile" where
  "file_at s p = k_ftable s ! (p - 1)"

definition upd_file :: "nat \<Rightarrow> (kfile \<Rightarrow> kfile) \<Rightarrow> ker \<Rightarrow> ker" where
  "upd_file p g s = s\<lparr>k_ftable := (k_ftable s)[p - 1 := g (file_at s p)]\<rparr>"

text \<open>An operation of the file system, and the brackets of a transaction.\<close>

definition fsC :: "(fs, 'a) comp \<Rightarrow> (ker, 'a) comp" where
  "fsC m s = (case m (k_fs s) of
       None \<Rightarrow> None | Some (Inl e) \<Rightarrow> Some (Inl e) | Some (Inr (x, t)) \<Rightarrow> Some (Inr (x, s\<lparr>k_fs := t\<rparr>)))"

definition f_begin_op :: "(fs, unit) comp" where
  "f_begin_op s = (case log_begin_op (fs_log s, fs_cache s) of
       Inl e \<Rightarrow> Some (Inl e) | Inr (l, c) \<Rightarrow> Some (Inr ((), s\<lparr>fs_log := l, fs_cache := c\<rparr>)))"

definition f_end_op :: "(fs, unit) comp" where
  "f_end_op s = (case log_end_op (fs_pid s) (fs_log s, fs_cache s) of
       None \<Rightarrow> None | Some (Inl e) \<Rightarrow> Some (Inl e)
     | Some (Inr (l, c)) \<Rightarrow> Some (Inr ((), s\<lparr>fs_log := l, fs_cache := c\<rparr>)))"

text \<open>
  \<open>k_mem\<close> are the addresses the allocator will return, \<open>k_live\<close> those in use: an address in use is not returned
  again. The return of an address that is not in use is recorded in \<open>k_bad\<close>.
\<close>

definition k_alloc :: "(ker, nat) comp" where
  "k_alloc s = Some (Inr (case k_mem s of
       [] \<Rightarrow> (0, s)
     | a # as \<Rightarrow> if a = 0 \<or> a \<in> set (k_live s) then (0, s\<lparr>k_mem := as\<rparr>) else (a, s\<lparr>k_mem := as, k_live := a # k_live s\<rparr>)))"

definition k_free :: "nat \<Rightarrow> (ker, unit) comp" where
  "k_free a = modC (\<lambda>s. if a \<in> set (k_live s) then s\<lparr>k_live := removeAll a (k_live s)\<rparr> else s\<lparr>k_bad := a # k_bad s\<rparr>)"

section \<open>The file table\<close>

definition filealloc :: "(ker, nat) comp" where
  "filealloc s =
     (case find (\<lambda>i. f_ref (k_ftable s ! i) = 0) [0..<NFILE] of
        None \<Rightarrow> Some (Inr (0, s))
      | Some i \<Rightarrow> Some (Inr (i + 1, upd_file (i + 1) (\<lambda>f. f\<lparr>f_ref := 1\<rparr>) s)))"

definition filedup :: "nat \<Rightarrow> (ker, nat) comp" where
  "filedup p =
     (if p = 0 then failC NullDeref
      else bindC (getC (\<lambda>s. file_at s p)) (\<lambda>f.
           if f_ref f < 1 then failC (Panic ''filedup'')
           else thenC (modC (upd_file p (\<lambda>f. f\<lparr>f_ref := f_ref f + 1\<rparr>))) (retC p)))"

definition k_pipeclose :: "nat \<Rightarrow> bool \<Rightarrow> (ker, unit) comp" where
  "k_pipeclose pi writable =
     bindC (getC (\<lambda>s. pipeclose writable (k_pipes s pi))) (\<lambda>(gone, p).
     thenC (modC (\<lambda>s. s\<lparr>k_pipes := (k_pipes s)(pi := p)\<rparr>))
     (if gone then bindC (getC (\<lambda>s. k_pdata s pi)) (\<lambda>d. thenC (k_free d) (k_free pi)) else retC ()))"

text \<open>The pending packets of a socket are freed with it.\<close>

definition sockclose :: "nat \<Rightarrow> (ker, unit) comp" where
  "sockclose si =
     thenC (modC (\<lambda>s. s\<lparr>k_sockets := remove1 si (k_sockets s)\<rparr>))
     (thenC (modC (\<lambda>s. s\<lparr>k_sock := (k_sock s)(si := (k_sock s si)\<lparr>rxq := []\<rparr>)\<rparr>))
     (k_free si))"

definition close_object :: "kfile \<Rightarrow> (ker, unit) comp" where
  "close_object ff =
     (case f_type ff of
        FD_INODE \<Rightarrow> thenC (fsC f_begin_op) (thenC (fsC (iput (f_ip ff))) (fsC f_end_op))
      | FD_PIPE \<Rightarrow> k_pipeclose (f_pipe ff) (f_writable ff)
      | FD_SOCK \<Rightarrow> sockclose (f_sock ff)
      | _ \<Rightarrow> retC ())"

definition fileclose :: "nat \<Rightarrow> (ker, unit) comp" where
  "fileclose p =
     (if p = 0 then failC NullDeref
      else bindC (getC (\<lambda>s. file_at s p)) (\<lambda>f.
           if f_ref f < 1 then failC (Panic ''fileclose'')
           else if f_ref f - 1 > 0 then modC (upd_file p (\<lambda>f. f\<lparr>f_ref := f_ref f - 1\<rparr>))
           else thenC (modC (upd_file p (\<lambda>f. f\<lparr>f_ref := 0, f_type := FD_NONE\<rparr>))) (close_object f)))"

text \<open>
  Reading. \<open>devs\<close> is \<^verbatim>\<open>devsw\<close> as far as reading goes, on the memory \<open>d\<close> and the devices' own state in it;
  \<open>wait\<close> is the wait of \<^verbatim>\<open>sockread\<close> for a packet.
\<close>

definition fileread :: "(u64 \<Rightarrow> u8 list \<Rightarrow> 'd \<Rightarrow> int \<times> 'd) \<Rightarrow> (sock \<Rightarrow> bool \<times> sock) \<Rightarrow> (nat \<Rightarrow> (u64 \<Rightarrow> int \<Rightarrow> 'd \<Rightarrow> int run \<times> 'd) option)
    \<Rightarrow> nat \<Rightarrow> u64 \<Rightarrow> int \<Rightarrow> 'd \<Rightarrow> (ker, int run \<times> 'd) comp" where
  "fileread cout wait devs p addr n d =
     bindC (getC (\<lambda>s. file_at s p)) (\<lambda>f.
     if \<not> f_readable f then retC (Returns (-1), d)
     else case f_type f of
       FD_INODE \<Rightarrow>
         thenC (fsC (ilock (f_ip f)))
         (bindC (fsC (readi cout (f_ip f) addr (f_off f) (of_int n) d)) (\<lambda>(r, d).
          thenC (if sint r > 0 then modC (upd_file p (\<lambda>f. f\<lparr>f_off := f_off f + r\<rparr>)) else retC ())
          (thenC (fsC (iunlock (f_ip f))) (retC (Returns (sint r), d)))))
     | FD_DEVICE \<Rightarrow>
         if sint (f_major f) < 0 \<or> sint (f_major f) \<ge> int NDEV then retC (Returns (-1), d)
         else (case devs (unat (f_major f)) of None \<Rightarrow> retC (Returns (-1), d) | Some rd \<Rightarrow> retC (rd addr n d))
     | FD_PIPE \<Rightarrow>
         bindC (getC (\<lambda>s. piperead (\<lambda>a ch. cout a [ch]) addr n (k_pipes s (f_pipe f)) d)) (\<lambda>(r, pi, d).
         thenC (modC (\<lambda>s. s\<lparr>k_pipes := (k_pipes s)(f_pipe f := pi)\<rparr>)) (retC (r, d)))
     | FD_SOCK \<Rightarrow>
         bindC (getC (\<lambda>s. sockread wait (\<lambda>a bs. fst (cout a bs d) \<noteq> -1) (k_sock s (f_sock f)) addr n)) (\<lambda>r.
         case r of
           Inl e \<Rightarrow> failC e
         | Inr (len, bs, si) \<Rightarrow>
             thenC (modC (\<lambda>s. s\<lparr>k_sock := (k_sock s)(f_sock f := si)\<rparr>))
             (retC (Returns len, if len = -1 then d else snd (cout addr bs d))))
     | FD_NONE \<Rightarrow> failC (Panic ''file read''))"

text \<open>
  Writing to an inode goes in transactions of at most three blocks; \<open>cin\<close> reads the caller's memory. One turn of the
  loop at \<open>i\<close> gives \<open>Some i\<close> when it leaves the loop.
\<close>

definition write_max :: int where "write_max = int ((MAXOPBLOCKS - 1 - 1 - 2) div 2 * BSIZE)"

definition filewrite_chunk :: "(u64 \<Rightarrow> u8 list \<Rightarrow> int \<times> u8 list) \<Rightarrow> nat \<Rightarrow> u64 \<Rightarrow> int \<Rightarrow> int \<Rightarrow> (ker, int option) comp" where
  "filewrite_chunk cin p addr n i =
     (let n1 = min (n - i) write_max
      in thenC (fsC f_begin_op)
         (bindC (getC (\<lambda>s. file_at s p)) (\<lambda>f.
          thenC (fsC (ilock (f_ip f)))
          (bindC (fsC (writei cin (f_ip f) (addr + of_int i) (f_off f) (of_int n1))) (\<lambda>r.
           thenC (if sint r > 0 then modC (upd_file p (\<lambda>f. f\<lparr>f_off := f_off f + r\<rparr>)) else retC ())
           (thenC (fsC (iunlock (f_ip f)))
           (thenC (fsC f_end_op)
           (retC (if sint r \<noteq> n1 then Some i else None)))))))))"

definition chunk_starts :: "int \<Rightarrow> int list" where
  "chunk_starts n = map (\<lambda>j. int j * write_max) [0..<nat ((n + write_max - 1) div write_max)]"

definition filewrite :: "(u64 \<Rightarrow> u8 list \<Rightarrow> int \<times> u8 list) \<Rightarrow> (host \<Rightarrow> bool \<times> host) \<Rightarrow> (nat \<Rightarrow> (u64 \<Rightarrow> int \<Rightarrow> 'd \<Rightarrow> int run \<times> 'd) option)
    \<Rightarrow> nat \<Rightarrow> u64 \<Rightarrow> int \<Rightarrow> nat \<Rightarrow> host \<times> 'd \<Rightarrow> (ker, int run \<times> host \<times> 'd) comp" where
  "filewrite cin wait devs p addr n i0 hm =
     bindC (getC (\<lambda>s. file_at s p)) (\<lambda>f.
     if \<not> f_writable f then retC (Returns (-1), hm)
     else case f_type f of
       FD_INODE \<Rightarrow>
         bindC (searchC (filewrite_chunk cin p addr n) (chunk_starts n)) (\<lambda>r.
         let i = (case r of None \<Rightarrow> max n 0 | Some i \<Rightarrow> i)
         in retC (Returns (if i = n then n else -1), hm))
     | FD_DEVICE \<Rightarrow>
         if sint (f_major f) < 0 \<or> sint (f_major f) \<ge> int NDEV then retC (Returns (-1), hm)
         else (case devs (unat (f_major f)) of
                 None \<Rightarrow> retC (Returns (-1), hm)
               | Some wr \<Rightarrow> (case wr addr n (snd hm) of (r, d) \<Rightarrow> retC (r, fst hm, d)))
     | FD_PIPE \<Rightarrow>
         bindC (getC (\<lambda>s. pipewrite (\<lambda>a. case cin a [0] of (r, bs) \<Rightarrow> if r < 0 then None else Some (bs ! 0)) addr n i0 (k_pipes s (f_pipe f)))) (\<lambda>(r, pi).
         thenC (modC (\<lambda>s. s\<lparr>k_pipes := (k_pipes s)(f_pipe f := pi)\<rparr>)) (retC (r, hm)))
     | FD_SOCK \<Rightarrow>
         bindC (getC (\<lambda>s. sockwrite wait (k_sock s (f_sock f))
                            (\<lambda>a k. case cin a (replicate k 0) of (r, bs) \<Rightarrow> if r = -1 then None else Some bs) addr n (fst hm))) (\<lambda>r.
         case r of Inl e \<Rightarrow> failC e | Inr (k, h) \<Rightarrow> retC (Returns k, h, snd hm))
     | FD_NONE \<Rightarrow> failC (Panic ''file write''))"

text \<open>\<^verbatim>\<open>struct stat\<close> as bytes; \<open>pad\<close> are the four bytes between \<^verbatim>\<open>nlink\<close> and \<^verbatim>\<open>size\<close>, which nobody sets.\<close>

definition stat_bytes :: "u8 list \<Rightarrow> stat \<Rightarrow> u8 list" where
  "stat_bytes pad st = le32 (st_dev st) @ le32 (st_ino st) @ le16 (st_type st) @ le16 (st_nlink st) @ pad
     @ le32 (ucast (st_size st)) @ le32 (ucast (drop_bit 32 (st_size st)))"

definition filestat :: "(u64 \<Rightarrow> u8 list \<Rightarrow> 'd \<Rightarrow> int \<times> 'd) \<Rightarrow> u8 list \<Rightarrow> nat \<Rightarrow> u64 \<Rightarrow> 'd \<Rightarrow> (ker, int \<times> 'd) comp" where
  "filestat cout pad p addr d =
     bindC (getC (\<lambda>s. file_at s p)) (\<lambda>f.
     if f_type f = FD_INODE \<or> f_type f = FD_DEVICE
     then thenC (fsC (ilock (f_ip f)))
          (bindC (fsC (stati (f_ip f))) (\<lambda>st.
           thenC (fsC (iunlock (f_ip f)))
           (case cout addr (stat_bytes pad st) d of (r, d) \<Rightarrow> retC (if r < 0 then -1 else 0, d))))
     else retC (-1, d))"

section \<open>Descriptors\<close>

text \<open>\<^verbatim>\<open>current->ofile[fd]\<close>: an index outside the array is a fault.\<close>

definition cur_file :: "int \<Rightarrow> (ker, nat) comp" where
  "cur_file fd =
     (if fd < 0 \<or> fd \<ge> int NOFILE then failC OutOfBounds
      else getC (\<lambda>s. k_ofile s (k_task s) ! nat fd))"

definition set_ofile :: "nat \<Rightarrow> nat \<Rightarrow> nat \<Rightarrow> ker \<Rightarrow> ker" where
  "set_ofile t fd p s = s\<lparr>k_ofile := (k_ofile s)(t := (k_ofile s t)[fd := p])\<rparr>"

definition fdalloc :: "nat \<Rightarrow> (ker, int) comp" where
  "fdalloc p s =
     (case find (\<lambda>fd. k_ofile s (k_task s) ! fd = 0) [0..<NOFILE] of
        None \<Rightarrow> Some (Inr (-1, s))
      | Some fd \<Rightarrow> Some (Inr (int fd, set_ofile (k_task s) fd p s)))"

definition sys_read :: "(u64 \<Rightarrow> u8 list \<Rightarrow> 'd \<Rightarrow> int \<times> 'd) \<Rightarrow> (sock \<Rightarrow> bool \<times> sock) \<Rightarrow> (nat \<Rightarrow> (u64 \<Rightarrow> int \<Rightarrow> 'd \<Rightarrow> int run \<times> 'd) option)
    \<Rightarrow> int \<Rightarrow> u64 \<Rightarrow> int \<Rightarrow> 'd \<Rightarrow> (ker, int run \<times> 'd) comp" where
  "sys_read cout wait devs fd buf count d =
     bindC (cur_file fd) (\<lambda>p.
     if buf = 0 \<or> count < 0 \<or> p = 0 then retC (Returns (-1), d) else fileread cout wait devs p buf count d)"

definition sys_write :: "(u64 \<Rightarrow> u8 list \<Rightarrow> int \<times> u8 list) \<Rightarrow> (host \<Rightarrow> bool \<times> host) \<Rightarrow> (nat \<Rightarrow> (u64 \<Rightarrow> int \<Rightarrow> 'd \<Rightarrow> int run \<times> 'd) option)
    \<Rightarrow> int \<Rightarrow> u64 \<Rightarrow> int \<Rightarrow> nat \<Rightarrow> host \<times> 'd \<Rightarrow> (ker, int run \<times> host \<times> 'd) comp" where
  "sys_write cin wait devs fd buf count i0 hm =
     bindC (cur_file fd) (\<lambda>p.
     if buf = 0 \<or> count < 0 \<or> p = 0 then retC (Returns (-1), hm) else filewrite cin wait devs p buf count i0 hm)"

definition sys_close :: "int \<Rightarrow> (ker, int) comp" where
  "sys_close fd =
     bindC (cur_file fd) (\<lambda>p.
     if p = 0 then retC (-1)
     else thenC (modC (\<lambda>s. set_ofile (k_task s) (nat fd) 0 s)) (thenC (fileclose p) (retC 0)))"

definition sys_fstat :: "(u64 \<Rightarrow> u8 list \<Rightarrow> 'd \<Rightarrow> int \<times> 'd) \<Rightarrow> u8 list \<Rightarrow> int \<Rightarrow> u64 \<Rightarrow> 'd \<Rightarrow> (ker, int \<times> 'd) comp" where
  "sys_fstat cout pad fd st d =
     (if fd < 0 \<or> st = 0 then retC (-1, d)
      else bindC (cur_file fd) (\<lambda>p. if p = 0 then retC (-1, d) else filestat cout pad p st d))"

definition sys_dup :: "int \<Rightarrow> (ker, int) comp" where
  "sys_dup oldfd =
     bindC (cur_file oldfd) (\<lambda>p.
     bindC (fdalloc p) (\<lambda>newfd.
     if newfd < 0 then retC (-1) else thenC (filedup p) (retC newfd)))"

section \<open>Pipes and sockets\<close>

text \<open>The two ends: the reading and the writing file. \<open>page\<close> is what the page from the allocator holds.\<close>

definition pipealloc :: "u8 list \<Rightarrow> (ker, int \<times> nat \<times> nat) comp" where
  "pipealloc page =
     (let bad = (\<lambda>pi f0 f1 data.
            thenC (if pi \<noteq> 0 then k_free pi else retC ())
            (thenC (if f0 \<noteq> 0 then fileclose f0 else retC ())
            (thenC (if f1 \<noteq> 0 then fileclose f1 else retC ())
            (thenC (if data \<noteq> 0 then k_free data else retC ())
            (retC (-1, f0, f1))))))
      in bindC filealloc (\<lambda>f0.
         if f0 = 0 then bad 0 0 0 0
         else bindC filealloc (\<lambda>f1.
         if f1 = 0 then bad 0 f0 0 0
         else bindC k_alloc (\<lambda>pi.
         if pi = 0 then bad 0 f0 f1 0
         else bindC k_alloc (\<lambda>data.
         if data = 0 then bad pi f0 f1 0
         else thenC (modC (\<lambda>s. s\<lparr>k_pipes := (k_pipes s)(pi := new_pipe page), k_pdata := (k_pdata s)(pi := data)\<rparr>))
              (thenC (modC (upd_file f0 (\<lambda>f. f\<lparr>f_type := FD_PIPE, f_readable := True, f_writable := False, f_pipe := pi\<rparr>)))
              (thenC (modC (upd_file f1 (\<lambda>f. f\<lparr>f_type := FD_PIPE, f_readable := False, f_writable := True, f_pipe := pi\<rparr>)))
              (retC (0, f0, f1)))))))))"

text \<open>Descriptors for the two ends, which are stored at the user address \<open>fd\<close>.\<close>

definition pipe_fds :: "(u64 \<Rightarrow> u8 list \<Rightarrow> 'd \<Rightarrow> int \<times> 'd) \<Rightarrow> u64 \<Rightarrow> nat \<Rightarrow> nat \<Rightarrow> 'd \<Rightarrow> (ker, int \<times> 'd) comp" where
  "pipe_fds cout fd rfl wfl d =
     bindC (fdalloc rfl) (\<lambda>fd0.
     if fd0 < 0 then thenC (fileclose rfl) (thenC (fileclose wfl) (retC (- EIO, d)))
     else bindC (fdalloc wfl) (\<lambda>fd1.
     if fd1 < 0
     then thenC (modC (\<lambda>s. set_ofile (k_task s) (nat fd0) 0 s))
          (thenC (fileclose rfl) (thenC (fileclose wfl) (retC (- EIO, d))))
     else let (r0, d) = cout fd (le32 (of_int fd0)) d;
              (r1, d) = (if r0 < 0 then (r0, d) else cout (fd + 4) (le32 (of_int fd1)) d)
          in if r1 < 0
             then thenC (modC (\<lambda>s. set_ofile (k_task s) (nat fd0) 0 s))
                  (thenC (modC (\<lambda>s. set_ofile (k_task s) (nat fd1) 0 s))
                  (thenC (fileclose rfl) (thenC (fileclose wfl) (retC (- EPIPE, d)))))
             else retC (0, d)))"

definition sys_pipe :: "(u64 \<Rightarrow> u8 list \<Rightarrow> 'd \<Rightarrow> int \<times> 'd) \<Rightarrow> u8 list \<Rightarrow> u64 \<Rightarrow> 'd \<Rightarrow> (ker, int \<times> 'd) comp" where
  "sys_pipe cout page fd d =
     bindC (pipealloc page) (\<lambda>(r, rfl, wfl).
     if r < 0 then retC (- EIO, d) else pipe_fds cout fd rfl wfl d)"

text \<open>
  A new socket. When the addresses and ports are in use, the socket has been stored in the file already: it is
  freed, and closing the file then closes the socket.
\<close>

definition sock_used :: "u32 \<Rightarrow> u16 \<Rightarrow> u16 \<Rightarrow> ker \<Rightarrow> bool" where
  "sock_used ra lp rp s = list_ex (\<lambda>q. raddr (k_sock s q) = ra \<and> lport (k_sock s q) = lp \<and> rport (k_sock s q) = rp) (k_sockets s)"

definition sock_setup :: "u32 \<Rightarrow> u16 \<Rightarrow> u16 \<Rightarrow> nat \<Rightarrow> nat \<Rightarrow> (ker, int \<times> nat) comp" where
  "sock_setup ra lp rp p si =
     thenC (modC (\<lambda>s. s\<lparr>k_sock := (k_sock s)(si := \<lparr>raddr = ra, lport = lp, rport = rp, rxq = []\<rparr>)\<rparr>))
     (thenC (modC (upd_file p (\<lambda>f. f\<lparr>f_type := FD_SOCK, f_readable := True, f_writable := True, f_sock := si\<rparr>)))
     (bindC (getC (sock_used ra lp rp)) (\<lambda>used.
      if used then thenC (k_free si) (thenC (fileclose p) (retC (-1, p)))
      else thenC (modC (\<lambda>s. s\<lparr>k_sockets := si # k_sockets s\<rparr>)) (retC (0, p)))))"

definition sockalloc :: "u32 \<Rightarrow> u16 \<Rightarrow> u16 \<Rightarrow> (ker, int \<times> nat) comp" where
  "sockalloc ra lp rp =
     bindC filealloc (\<lambda>p.
     if p = 0 then retC (-1, 0)
     else bindC k_alloc (\<lambda>si.
     if si = 0 then thenC (fileclose p) (retC (-1, p)) else sock_setup ra lp rp p si))"

definition sys_connect :: "u32 \<Rightarrow> u16 \<Rightarrow> u16 \<Rightarrow> (ker, int) comp" where
  "sys_connect ra lp rp =
     bindC (sockalloc ra lp rp) (\<lambda>(r, p).
     if r < 0 then retC (-1)
     else bindC (fdalloc p) (\<lambda>fd. if fd < 0 then thenC (fileclose p) (retC (-1)) else retC fd))"

section \<open>Tasks\<close>

text \<open>
  The descriptors and the directory of a new task in \<^verbatim>\<open>copy_process\<close>, and their release in \<^verbatim>\<open>do_exit\<close>. The task
  structure of a child is cleared when it is made.
\<close>

definition fork_file :: "nat \<Rightarrow> nat \<Rightarrow> (ker, unit) comp" where
  "fork_file child i =
     bindC (getC (\<lambda>s. k_ofile s (k_task s) ! i)) (\<lambda>p.
     if p \<noteq> 0 then bindC (filedup p) (\<lambda>p. modC (set_ofile child i p)) else retC ())"

definition fork_files :: "nat \<Rightarrow> (ker, unit) comp" where
  "fork_files child =
     thenC (modC (\<lambda>s. s\<lparr>k_tasks := child # k_tasks s, k_ofile := (k_ofile s)(child := replicate NOFILE 0)\<rparr>))
     (thenC (forC (fork_file child) [0..<NOFILE])
     (bindC (getC (\<lambda>s. fs_cwd (k_fs s))) (\<lambda>cwd.
      bindC (fsC (idup cwd)) (\<lambda>cwd.
      modC (\<lambda>s. s\<lparr>k_cwd := (k_cwd s)(child := cwd)\<rparr>)))))"

definition exit_file :: "nat \<Rightarrow> (ker, unit) comp" where
  "exit_file fd =
     bindC (getC (\<lambda>s. k_ofile s (k_task s) ! fd)) (\<lambda>p.
     if p \<noteq> 0 then thenC (fileclose p) (modC (\<lambda>s. set_ofile (k_task s) fd 0 s)) else retC ())"

definition exit_files :: "(ker, unit) comp" where
  "exit_files =
     thenC (forC exit_file [0..<NOFILE])
     (thenC (fsC f_begin_op)
     (bindC (getC (\<lambda>s. fs_cwd (k_fs s))) (\<lambda>cwd.
      thenC (if cwd \<noteq> 0 then fsC (iput cwd) else retC ())
      (fsC f_end_op))))"

text \<open>\<^verbatim>\<open>current\<close> changes to another task.\<close>

definition switch_to :: "nat \<Rightarrow> ker \<Rightarrow> ker" where
  "switch_to t s = s\<lparr>k_cwd := (k_cwd s)(k_task s := fs_cwd (k_fs s)), k_task := t, k_fs := (k_fs s)\<lparr>fs_cwd := k_cwd s t\<rparr>\<rparr>"

end
