(* ===== verification/Sysfile.thy ===== *)
theory Sysfile
  imports Files
begin

text \<open>
  The system calls of \<^verbatim>\<open>kernel/sysfile.c\<close> that take path names, over the file system of theory Fs and the file table of
  theory Files. Names and paths are byte lists without the terminating NUL, null pointers \<open>None\<close>. Each call is a transaction of the log from
  \<^verbatim>\<open>log_begin_op\<close> to \<^verbatim>\<open>log_end_op\<close>. Panic messages are given without the final newline.
\<close>

definition MAXPATH :: nat where "MAXPATH = 128"
definition O_RDONLY :: u32 where "O_RDONLY = 0"
definition O_WRONLY :: u32 where "O_WRONLY = 1"
definition O_RDWR :: u32 where "O_RDWR = 2"
definition O_CREATE :: u32 where "O_CREATE = 0x200"
definition O_TRUNC :: u32 where "O_TRUNC = 0x400"
definition ENOENT :: int where "ENOENT = 2"
definition EINVAL :: int where "EINVAL = 22"
definition ENAMETOOLONG :: int where "ENAMETOOLONG = 36"

definition upd_ip :: "nat \<Rightarrow> (inode \<Rightarrow> inode) \<Rightarrow> (fs, unit) comp" where
  "upd_ip p g = modC (upd_inode p g)"

section \<open>Creating\<close>

definition create_dots :: "nat \<Rightarrow> nat \<Rightarrow> (fs, unit) comp" where
  "create_dots dp ip =
     thenC (upd_ip dp (\<lambda>d. d\<lparr>i_nlink := i_nlink d + 1\<rparr>))
     (thenC (iupdate dp)
     (bindC (getC (\<lambda>s. i_inum (inode_at s ip))) (\<lambda>inum.
      bindC (dirlink ip (bytes ''.'') inum) (\<lambda>r.
      if r < 0 then failC (Panic ''create dots'')
      else bindC (getC (\<lambda>s. i_inum (inode_at s dp))) (\<lambda>dnum.
      bindC (dirlink ip (bytes ''..'') dnum) (\<lambda>r.
      if r < 0 then failC (Panic ''create dots'') else retC ()))))))"

definition create_new :: "nat \<Rightarrow> u8 list \<Rightarrow> u16 \<Rightarrow> u16 \<Rightarrow> u16 \<Rightarrow> (fs, nat) comp" where
  "create_new dp name ty mj mn =
     bindC (getC (\<lambda>s. i_dev (inode_at s dp))) (\<lambda>dev.
     bindC (ialloc dev ty) (\<lambda>ip.
     thenC (ilock ip)
     (thenC (upd_ip ip (\<lambda>i. i\<lparr>i_major := mj, i_minor := mn, i_nlink := 1\<rparr>))
     (thenC (iupdate ip)
     (thenC (if ty = T_DIR then create_dots dp ip else retC ())
     (bindC (getC (\<lambda>s. i_inum (inode_at s ip))) (\<lambda>inum.
      bindC (dirlink dp name inum) (\<lambda>r.
      if r < 0 then failC (Panic ''create: dirlink'')
      else thenC (iunlockput dp) (retC ip)))))))))"

text \<open>The result is a locked inode, or 0.\<close>

definition create :: "u8 list \<Rightarrow> u16 \<Rightarrow> u16 \<Rightarrow> u16 \<Rightarrow> (fs, nat) comp" where
  "create path ty mj mn =
     bindC (nameiparent path) (\<lambda>(dp, name).
     if dp = 0 then retC 0
     else thenC (ilock dp)
     (bindC (dirlookup dp name) (\<lambda>r.
      case r of
        Some (ip, _) \<Rightarrow>
          thenC (iunlockput dp)
          (thenC (ilock ip)
          (bindC (getC (\<lambda>s. i_type (inode_at s ip))) (\<lambda>t.
           if ty = T_FILE \<and> (t = T_FILE \<or> t = T_DEVICE) then retC ip
           else thenC (iunlockput ip) (retC 0))))
      | None \<Rightarrow> create_new dp name ty mj mn)))"

section \<open>Opening\<close>

text \<open>The inode to open, locked, or 0; the operation of the log is still open.\<close>

definition open_inode :: "u8 list \<Rightarrow> u32 \<Rightarrow> (fs, nat) comp" where
  "open_inode path omode =
     (if omode AND O_CREATE \<noteq> 0 then create path T_FILE 0 0
      else bindC (namei path) (\<lambda>ip.
           if ip = 0 then retC 0
           else thenC (ilock ip)
           (bindC (getC (\<lambda>s. i_type (inode_at s ip))) (\<lambda>t.
            if t = T_DIR \<and> omode \<noteq> O_RDONLY then thenC (iunlockput ip) (retC 0) else retC ip))))"

text \<open>
  \<^verbatim>\<open>strncpy\<close> copies at most \<^verbatim>\<open>MAXPATH\<close> bytes into an array of that size: a path that fills it has no terminating NUL,
  and its use is a run past the end.
\<close>

definition copy_path :: "u8 list \<Rightarrow> ('s, u8 list) comp" where
  "copy_path path = (if length path < MAXPATH then retC path else failC OutOfBounds)"

text \<open>The last part of \<^verbatim>\<open>__sys_open\<close>, for file \<open>p\<close> with descriptor \<open>fd\<close> on the inode \<open>ip\<close>, which is \<open>i\<close> at this point.\<close>

definition open_setup :: "u32 \<Rightarrow> nat \<Rightarrow> inode \<Rightarrow> nat \<Rightarrow> int \<Rightarrow> (ker, int) comp" where
  "open_setup omode ip i p fd =
     thenC (modC (upd_file p (\<lambda>f. if i_type i = T_DEVICE then f\<lparr>f_type := FD_DEVICE, f_major := i_major i\<rparr>
                                    else f\<lparr>f_type := FD_INODE, f_off := 0\<rparr>)))
     (thenC (modC (upd_file p (\<lambda>f. f\<lparr>f_ip := ip, f_readable := omode AND O_WRONLY = 0,
                                    f_writable := omode AND O_WRONLY \<noteq> 0 \<or> omode AND O_RDWR \<noteq> 0\<rparr>)))
     (thenC (if omode AND O_TRUNC \<noteq> 0 \<and> i_type i = T_FILE then fsC (itrunc ip) else retC ())
     (thenC (fsC (iunlock ip))
     (thenC (fsC f_end_op) (retC fd)))))"

text \<open>The failures after the inode has been found and locked.\<close>

definition open_fail :: "nat \<Rightarrow> (ker, int) comp" where
  "open_fail ip = thenC (fsC (iunlockput ip)) (thenC (fsC f_end_op) (retC (-1)))"

definition open_file :: "u32 \<Rightarrow> nat \<Rightarrow> inode \<Rightarrow> (ker, int) comp" where
  "open_file omode ip i =
     bindC filealloc (\<lambda>p.
     if p = 0 then open_fail ip
     else bindC (fdalloc p) (\<lambda>fd.
          if fd < 0 then thenC (fileclose p) (open_fail ip) else open_setup omode ip i p fd))"

definition sys_open :: "u8 list option \<Rightarrow> u32 \<Rightarrow> (ker, int) comp" where
  "sys_open pathname omode =
     (case pathname of
        None \<Rightarrow> retC (-1)
      | Some path \<Rightarrow>
          if length path > MAXPATH then retC (-1)
          else bindC (copy_path path) (\<lambda>path.
          thenC (fsC f_begin_op)
          (bindC (fsC (open_inode path omode)) (\<lambda>ip.
           if ip = 0 then thenC (fsC f_end_op) (retC (-1))
           else bindC (getC (\<lambda>s. inode_at (k_fs s) ip)) (\<lambda>i.
           if i_type i = T_DEVICE \<and> (sint (i_major i) < 0 \<or> sint (i_major i) \<ge> int NDEV) then open_fail ip
           else open_file omode ip i)))))"

section \<open>Other calls\<close>

definition sys_mknod :: "u8 list option \<Rightarrow> u16 \<Rightarrow> u16 \<Rightarrow> (fs, int) comp" where
  "sys_mknod pathname mj mn =
     (case pathname of
        None \<Rightarrow> retC (-1)
      | Some path \<Rightarrow>
          bindC (copy_path path) (\<lambda>path.
          thenC f_begin_op
          (bindC (create path T_DEVICE mj mn) (\<lambda>ip.
           if ip = 0 then thenC f_end_op (retC (-1))
           else thenC (iunlockput ip) (thenC f_end_op (retC 0))))))"

definition sys_mkdir :: "u8 list option \<Rightarrow> (fs, int) comp" where
  "sys_mkdir pt =
     (case pt of
        None \<Rightarrow> retC (-1)
      | Some path \<Rightarrow>
          if length path > MAXPATH - 1 then retC (- ENAMETOOLONG)
          else thenC f_begin_op
          (bindC (create path T_DIR 0 0) (\<lambda>ip.
           if ip = 0 then thenC f_end_op (retC (-1))
           else thenC (iunlockput ip) (thenC f_end_op (retC 0)))))"

text \<open>The null inode that \<^verbatim>\<open>namei\<close> gives for a path that does not exist goes to \<^verbatim>\<open>ilock\<close>.\<close>

definition sys_chdir :: "u8 list option \<Rightarrow> (fs, int) comp" where
  "sys_chdir pathname =
     (case pathname of
        None \<Rightarrow> retC (- EINVAL)
      | Some path \<Rightarrow>
          thenC f_begin_op
          (bindC (namei path) (\<lambda>ip.
           thenC (ilock ip)
           (bindC (getC (\<lambda>s. i_type (inode_at s ip))) (\<lambda>t.
            if t \<noteq> T_DIR then thenC (iunlock ip) (thenC f_end_op (retC (- ENOENT)))
            else thenC (iunlock ip)
                 (bindC (getC fs_cwd) (\<lambda>cwd.
                  thenC (iput cwd)
                  (thenC f_end_op
                  (thenC (modC (\<lambda>s. s\<lparr>fs_cwd := ip\<rparr>)) (retC 0))))))))))"

lemma chdir_missing_panics:
  "f_begin_op s = Some (Inr ((), s1)) \<Longrightarrow> namei path s1 = Some (Inr (0, s2)) \<Longrightarrow> sys_chdir (Some path) s = Some (Inl (Panic ''ilock''))"
  by (simp add: sys_chdir_def ilock_def thenC_def bindC_def getC_def failC_def)

definition isdirempty_entry :: "nat \<Rightarrow> u32 \<Rightarrow> (fs, unit option) comp" where
  "isdirempty_entry dp off =
     bindC (readi struct_out dp 0 off 16 (replicate 16 0)) (\<lambda>(r, de).
     if r \<noteq> 16 then failC (Panic ''isdirempty: readi'')
     else retC (if get16 0 de \<noteq> 0 then Some () else None))"

definition isdirempty :: "nat \<Rightarrow> (fs, bool) comp" where
  "isdirempty dp =
     bindC (getC (\<lambda>s. i_size (inode_at s dp))) (\<lambda>sz.
     bindC (searchC (isdirempty_entry dp) (drop 2 (dir_offsets sz))) (\<lambda>r. retC (r = None)))"

definition unlink_entry :: "nat \<Rightarrow> nat \<Rightarrow> u32 \<Rightarrow> (fs, int) comp" where
  "unlink_entry dp ip off =
     bindC (writei (struct_in (replicate 16 0)) dp 0 off 16) (\<lambda>w.
     if w \<noteq> 16 then failC (Panic ''unlink: writei'')
     else bindC (getC (\<lambda>s. i_type (inode_at s ip))) (\<lambda>t.
          thenC (if t = T_DIR then thenC (upd_ip dp (\<lambda>d. d\<lparr>i_nlink := i_nlink d - 1\<rparr>)) (iupdate dp) else retC ())
          (thenC (iunlock dp)
          (thenC (upd_ip ip (\<lambda>i. i\<lparr>i_nlink := i_nlink i - 1\<rparr>))
          (thenC (iupdate ip)
          (thenC (iunlockput ip)
          (thenC f_end_op (retC 0))))))))"

definition sys_unlink :: "u8 list option \<Rightarrow> (fs, int) comp" where
  "sys_unlink pathname =
     (case pathname of
        None \<Rightarrow> retC (- EINVAL)
      | Some path \<Rightarrow>
          thenC f_begin_op
          (bindC (nameiparent path) (\<lambda>(dp, name).
           if dp = 0 then thenC f_end_op (retC (-1))
           else let bad = thenC (iunlockput dp) (thenC f_end_op (retC (-1)))
           in thenC (ilock dp)
              (if namecmp name (bytes ''.'') = 0 \<or> namecmp name (bytes ''..'') = 0 then bad
               else bindC (dirlookup dp name) (\<lambda>r.
               case r of
                 None \<Rightarrow> bad
               | Some (ip, off) \<Rightarrow>
                   thenC (ilock ip)
                   (bindC (getC (\<lambda>s. inode_at s ip)) (\<lambda>i.
                    if sint (i_nlink i) < 1 then failC (Panic ''unlink: nlink < 1'')
                    else bindC (if i_type i = T_DIR then isdirempty ip else retC True) (\<lambda>empty.
                    if \<not> empty then thenC (iunlockput ip) bad
                    else unlink_entry dp ip off))))))))"

definition sys_link :: "u8 list option \<Rightarrow> u8 list option \<Rightarrow> (fs, int) comp" where
  "sys_link oldname newname =
     (case (oldname, newname) of
        (Some oldp, Some newp) \<Rightarrow>
          thenC f_begin_op
          (bindC (namei oldp) (\<lambda>ip.
           if ip = 0 then thenC f_end_op (retC (-1))
           else thenC (ilock ip)
           (bindC (getC (\<lambda>s. i_type (inode_at s ip))) (\<lambda>t.
            if t = T_DIR then thenC (iunlockput ip) (thenC f_end_op (retC (-1)))
            else let bad = thenC (ilock ip)
                           (thenC (upd_ip ip (\<lambda>i. i\<lparr>i_nlink := i_nlink i - 1\<rparr>))
                           (thenC (iupdate ip)
                           (thenC (iunlockput ip)
                           (thenC f_end_op (retC (-1))))))
            in thenC (upd_ip ip (\<lambda>i. i\<lparr>i_nlink := i_nlink i + 1\<rparr>))
               (thenC (iupdate ip)
               (thenC (iunlock ip)
               (bindC (nameiparent newp) (\<lambda>(dp, name).
                if dp = 0 then bad
                else thenC (ilock dp)
                (bindC (getC (\<lambda>s. (i_dev (inode_at s dp), i_dev (inode_at s ip), i_inum (inode_at s ip)))) (\<lambda>(ddev, idev, inum).
                 bindC (if ddev \<noteq> idev then retC (-1) else dirlink dp name inum) (\<lambda>r.
                 if r < 0 then thenC (iunlockput dp) bad
                 else thenC (iunlockput dp)
                      (thenC (iput ip)
                      (thenC f_end_op (retC 0))))))))))))))
      | _ \<Rightarrow> retC (- EINVAL))"

end
