(* ===== verification/Fs_safe.thy ===== *)
theory Fs_safe
  imports Sysfile Fs_blocks
begin

text \<open>
  The faults of the layers below the file table: the block cache, the log, inodes, directories and paths never fail the way
  the file table and the descriptors do. One lemma per operation, from rules that follow the structure of computations.
\<close>

section \<open>Faults below the file table\<close>

text \<open>The faults that the file table and the descriptors can cause; the layers below cause none of them.\<close>

definition table_faults :: "fault set" where
  "table_faults = {NullDeref, OutOfBounds, Panic ''fileclose'', Panic ''filedup'', Panic ''file read'', Panic ''file write''}"

definition fs_safe :: "('s, 'a) comp \<Rightarrow> bool" where
  "fs_safe m \<longleftrightarrow> trip (- table_faults) (\<lambda>_. True) m (\<lambda>_ _. True)"

named_theorems safe_rules \<open>computations that cause no fault of the file table\<close>

lemma safe_bind [safe_rules]: "fs_safe m \<Longrightarrow> (\<And>x. fs_safe (f x)) \<Longrightarrow> fs_safe (bindC m f)"
  unfolding fs_safe_def by (rule trip_bind)

lemma safe_then [safe_rules]: "fs_safe m \<Longrightarrow> fs_safe k \<Longrightarrow> fs_safe (thenC m k)"
  unfolding fs_safe_def by (rule trip_then)

lemma safe_basic [safe_rules]:
  "fs_safe (retC x)" "fs_safe (getC g)" "fs_safe (modC u)"
  "e \<notin> table_faults \<Longrightarrow> fs_safe (failC e)"
  "(b \<Longrightarrow> fs_safe m) \<Longrightarrow> (\<not> b \<Longrightarrow> fs_safe k) \<Longrightarrow> fs_safe (if b then m else k)"
  by (auto simp: fs_safe_def intro: trip_ret trip_get trip_mod trip_fail)

lemma safe_cases [safe_rules]:
  "(o1 = None \<Longrightarrow> fs_safe m) \<Longrightarrow> (\<And>y. o1 = Some y \<Longrightarrow> fs_safe (h y)) \<Longrightarrow> fs_safe (case o1 of None \<Rightarrow> m | Some y \<Rightarrow> h y)"
  "(\<And>a b. pr = (a, b) \<Longrightarrow> fs_safe (w a b)) \<Longrightarrow> fs_safe (case pr of (a, b) \<Rightarrow> w a b)"
  "(\<And>y. fs_safe (h' y)) \<Longrightarrow> fs_safe (Let z h')"
  by (auto simp: Let_def split: option.splits prod.splits)

lemma safe_loops [safe_rules]:
  "(\<And>i. i \<in> set is \<Longrightarrow> fs_safe (f i)) \<Longrightarrow> fs_safe (forC f is)"
  "(\<And>i. i \<in> set js \<Longrightarrow> fs_safe (g i)) \<Longrightarrow> fs_safe (searchC g js)"
  unfolding fs_safe_def by (auto intro: trip_forC trip_searchC)

lemma safeI: "(\<And>s e. m s = Some (Inl e) \<Longrightarrow> e \<notin> table_faults) \<Longrightarrow> fs_safe m"
  by (auto simp: fs_safe_def intro: tripI)

lemma safe_apply: "(\<And>s. \<exists>m'. fs_safe m' \<and> m s = m' s) \<Longrightarrow> fs_safe m"
  by (rule safeI) (metis ComplD UNIV_I fs_safe_def trip_fault)

text \<open>The cache and the log.\<close>

lemma tf_panic [simp]: "Blocked \<notin> table_faults"
  "Panic m \<in> table_faults \<longleftrightarrow> m \<in> {''fileclose'', ''filedup'', ''file read'', ''file write''}"
  by (auto simp: table_faults_def)

lemma lock_buf_faults: "lock_buf pid b c = Inl e \<Longrightarrow> e \<notin> table_faults"
  by (auto simp: lock_buf_def acquiresleep_def split: if_splits)

lemma bread_faults: "bread pid dev b c = Some (Inl e) \<Longrightarrow> e \<notin> table_faults"
  unfolding bread_def bget_def
  by (auto dest: lock_buf_faults simp del: scan_next.simps scan_prev.simps split: option.splits sum.splits if_splits)

lemma brelse_faults: "brelse pid b c = Inl e \<Longrightarrow> e \<notin> table_faults"
  by (auto simp: brelse_def Let_def split: if_splits)

lemma bwrite_faults: "bwrite pid b c = Inl e \<Longrightarrow> e \<notin> table_faults"
  by (auto simp: bwrite_def split: if_splits)

lemma log_write_faults: "log_write b s = Inl e \<Longrightarrow> e \<notin> table_faults"
  by (auto simp: log_write_def Let_def split: if_splits prod.splits)

lemma bindR_Inl: "bindR m f = Inl e \<longleftrightarrow> m = Inl e \<or> (\<exists>x. m = Inr x \<and> f x = Inl e)"
  by (cases m) auto

lemma with_buf_faults:
  "with_buf pid dev n c f = Some (Inl e) \<Longrightarrow> (\<And>b c. f b c = Some (Inl e) \<Longrightarrow> e \<notin> table_faults) \<Longrightarrow> e \<notin> table_faults"
  by (auto simp: with_buf_def dest: bread_faults split: option.splits sum.splits)

lemma for_steps_faults:
  "for_steps f is c = Some (Inl e) \<Longrightarrow> (\<And>i c. f i c = Some (Inl e) \<Longrightarrow> e \<notin> table_faults) \<Longrightarrow> e \<notin> table_faults"
  by (induction "is" arbitrary: c) (auto split: option.splits sum.splits)

lemmas cache_faults = brelse_faults bwrite_faults

lemma log_step_faults:
  "write_log_step pid l i c = Some (Inl e) \<Longrightarrow> e \<notin> table_faults"
  "install_step pid r l i c = Some (Inl e) \<Longrightarrow> e \<notin> table_faults"
  "write_head pid s = Some (Inl e) \<Longrightarrow> e \<notin> table_faults"
  by (auto simp: write_log_step_def install_step_def write_head_def bindR_Inl Let_def dest!: cache_faults elim!: with_buf_faults split: prod.splits)

lemma then_cache_faults:
  "then_cache r f = Some (Inl e) \<Longrightarrow> (r = Some (Inl e) \<Longrightarrow> e \<notin> table_faults) \<Longrightarrow> (\<And>c. f c = Some (Inl e) \<Longrightarrow> e \<notin> table_faults) \<Longrightarrow> e \<notin> table_faults"
  by (auto simp: then_cache_def split: option.splits sum.splits)

lemma commit_faults: "commit pid s = Some (Inl e) \<Longrightarrow> e \<notin> table_faults"
  unfolding commit_def write_log_def install_trans_def
  by (cases s, simp add: Let_def split: if_splits) (elim then_cache_faults for_steps_faults log_step_faults; simp)

lemma log_end_faults: "log_end_op pid s = Some (Inl e) \<Longrightarrow> e \<notin> table_faults"
  by (auto simp: log_end_op_def Let_def dest: commit_faults split: prod.splits if_splits option.splits sum.splits)

lemma safe_calls [safe_rules]:
  "fs_safe (f_bread dev b)" "fs_safe (f_brelse h)" "fs_safe (f_data h)" "fs_safe (f_set h d)" "fs_safe (f_log_write h)"
  "fs_safe f_begin_op" "fs_safe f_end_op" "fs_safe (ilock_acquire p)" "fs_safe (iget dev inum)"
  by (rule safeI; auto simp: f_bread_def f_brelse_def f_data_def f_set_def f_log_write_def f_begin_op_def f_end_op_def log_begin_op_def
      ilock_acquire_def acquiresleep_def iget_def getC_def modC_def Let_def
      dest: bread_faults brelse_faults log_write_faults log_end_faults split: option.splits sum.splits prod.splits if_splits)+

text \<open>The operations of theories Fs and Sysfile.\<close>

lemma safe_blocks [safe_rules]: "fs_safe (bzero dev b)" "fs_safe (balloc dev)" "fs_safe (bfree dev b)"
  by (auto simp: bzero_def balloc_def balloc_block_def bfree_def intro!: safe_rules)

lemma safe_inodes [safe_rules]:
  "fs_safe (ialloc dev ty)" "fs_safe (ilock p)" "fs_safe (iunlock p)" "fs_safe (iupdate p)" "fs_safe (idup p)" "fs_safe (stati p)" "fs_safe (upd_ip p g)"
  by (auto simp: ialloc_def ialloc_try_def ilock_def iunlock_def iupdate_def idup_def stati_def upd_ip_def intro!: safe_rules)

lemma safe_itrunc [safe_rules]: "fs_safe (itrunc p)"
  by (auto simp: itrunc_def itrunc_direct_def itrunc_entry_def intro!: safe_rules)

lemma safe_iput [safe_rules]: "fs_safe (iput p)" "fs_safe (iunlockput p)"
  by (auto simp: iput_def iunlockput_def intro!: safe_rules)

lemma safe_bmap [safe_rules]: "fs_safe (bmap p bn)"
  by (auto simp: bmap_def intro!: safe_rules)

lemma safe_split: "(\<And>s. m s = (if b then m1 s else m2 s)) \<Longrightarrow> (b \<Longrightarrow> fs_safe m1) \<Longrightarrow> (\<not> b \<Longrightarrow> fs_safe m2) \<Longrightarrow> fs_safe m"
  by (cases b) (auto simp: fs_safe_def trip_def)

lemma safe_readi_loop: "fs_safe (readi_loop k cout p n tot dst off m)"
proof (induction k arbitrary: tot dst off m)
  case 0
  show ?case by (rule safeI) (simp split: if_splits)
next
  case (Suc k)
  show ?case
    by (rule safe_split [where ?m2.0 = "retC (tot, m)"], subst readi_loop.simps, simp only: retC_def) (intro safe_rules Suc)+
qed

lemma safe_writei_loop: "fs_safe (writei_loop k cin p n tot src off)"
proof (induction k arbitrary: tot src off)
  case 0
  show ?case by (rule safeI) (simp split: if_splits)
next
  case (Suc k)
  show ?case
    by (rule safe_split [where ?m2.0 = "retC (tot, off)"], subst writei_loop.simps, simp only: retC_def) (intro safe_rules Suc)+
qed

lemma safe_rw [safe_rules]: "fs_safe (readi cout p dst off n m)" "fs_safe (writei cin p src off n)"
  by (auto simp: readi_def writei_def intro!: safe_rules safe_readi_loop safe_writei_loop)

lemma safe_dirs [safe_rules]: "fs_safe (dirlookup dp name)" "fs_safe (dirlink dp name inum)"
  by (auto simp: dirlookup_def dirlookup_entry_def dirlink_def dirlink_slot_def intro!: safe_rules)

lemma safe_namex_loop: "fs_safe (namex_loop ip path parent name)"
proof (induction "length path" arbitrary: ip path name rule: less_induct)
  case less
  show ?case
  proof (cases "skipelem path")
    case None
    show ?thesis
      by (rule safe_split [where b = parent and ?m2.0 = "retC (ip, name)"], subst namex_loop.simps, simp only: retC_def None option.case) (auto intro!: safe_rules)
  next
    case (Some nr)
    obtain nm rest where nr: "nr = (nm, rest)" by (cases nr)
    have sh: "length rest < length path" using skipelem_shorter Some nr by blast
    show ?thesis
      by (rule safe_split [where b = True and ?m2.0 = "retC (ip, name)"], subst namex_loop.simps, simp only: Some nr option.case prod.case if_True)
        (intro safe_rules less sh)+
  qed
qed

lemma safe_names [safe_rules]: "fs_safe (namei path)" "fs_safe (nameiparent path)"
  by (auto simp: namei_def nameiparent_def namex_def intro!: safe_rules safe_namex_loop)

lemma safe_create [safe_rules]: "fs_safe (create path ty mj mn)" "fs_safe (open_inode path omode)"
  by (auto simp: create_def create_new_def create_dots_def open_inode_def intro!: safe_rules)

end
