(* ===== verification/Files_inv.thy ===== *)
theory Files_inv
  imports Fs_safe
begin

text \<open>
  The invariants of open files: the reference count of a file is the number of descriptors that refer to it, and the
  memory in use for pipes and sockets is what open files refer to. Every operation of the file table keeps them, with
  the references and the memory that a running call holds as parameters.
\<close>

section \<open>References\<close>

definition refs_to :: "ker \<Rightarrow> nat \<Rightarrow> nat" where
  "refs_to s p = sum_list (map (\<lambda>t. count_list (k_ofile s t) p) (k_tasks s))"

text \<open>
  \<open>e p\<close> is the number of references to the file that are not in a descriptor table now (or, when negative, those in a table that are not
  counted yet).
\<close>

definition refs_inv :: "(nat \<Rightarrow> int) \<Rightarrow> ker \<Rightarrow> bool" where
  "refs_inv e s \<longleftrightarrow> length (k_ftable s) = NFILE \<and> distinct (k_tasks s) \<and> k_task s \<in> set (k_tasks s) \<and>
     (\<forall>t \<in> set (k_tasks s). length (k_ofile s t) = NOFILE \<and> (\<forall>p \<in> set (k_ofile s t). p \<le> NFILE)) \<and>
     (\<forall>p. 0 < p \<longrightarrow> p \<le> NFILE \<longrightarrow> f_ref (file_at s p) = int (refs_to s p) + e p)"

text \<open>The files of \<open>U\<close> have been allocated and not yet set up; every other one has a type exactly when it is in use.\<close>

definition typed :: "nat set \<Rightarrow> ker \<Rightarrow> bool" where
  "typed U s \<longleftrightarrow> (\<forall>p. 0 < p \<longrightarrow> p \<le> NFILE \<longrightarrow>
     (if p \<in> U then f_type (file_at s p) = FD_NONE \<and> f_ref (file_at s p) = 1 else f_type (file_at s p) = FD_NONE \<longleftrightarrow> f_ref (file_at s p) = 0))"

definition live_file :: "ker \<Rightarrow> nat \<Rightarrow> bool" where
  "live_file s p \<longleftrightarrow> 0 < p \<and> p \<le> NFILE \<and> f_ref (file_at s p) > 0"

section \<open>Objects\<close>

text \<open>What an address in use is for: a pipe, the page of a pipe, the socket of a file, or nothing yet.\<close>

datatype owner = Pipe_obj | Page_of nat | Sock_of nat | Pending

definition pipe_file :: "ker \<Rightarrow> nat \<Rightarrow> nat \<Rightarrow> bool \<Rightarrow> bool" where
  "pipe_file s p P w \<longleftrightarrow> live_file s p \<and> f_type (file_at s p) = FD_PIPE \<and> f_pipe (file_at s p) = P \<and> f_writable (file_at s p) = w"

definition sock_file :: "ker \<Rightarrow> nat \<Rightarrow> nat \<Rightarrow> bool" where
  "sock_file s p S \<longleftrightarrow> live_file s p \<and> f_type (file_at s p) = FD_SOCK \<and> f_sock (file_at s p) = S"

definition end_open :: "bool \<Rightarrow> pipe \<Rightarrow> bool" where
  "end_open w p \<longleftrightarrow> (if w then writeopen p else readopen p)"

definition pipes_ok :: "(nat \<Rightarrow> owner) \<Rightarrow> ker \<Rightarrow> bool" where
  "pipes_ok own s \<longleftrightarrow>
     (\<forall>p P w. pipe_file s p P w \<longrightarrow> P \<in> set (k_live s) \<and> own P = Pipe_obj \<and>
        k_pdata s P \<in> set (k_live s) \<and> own (k_pdata s P) = Page_of P \<and> end_open w (k_pipes s P)) \<and>
     (\<forall>p q P w. pipe_file s p P w \<longrightarrow> pipe_file s q P w \<longrightarrow> p = q) \<and>
     (\<forall>p P w. pipe_file s p P w \<longrightarrow> end_open (\<not> w) (k_pipes s P) \<longrightarrow> (\<exists>q. pipe_file s q P (\<not> w)))"

definition socks_ok :: "(nat \<Rightarrow> owner) \<Rightarrow> ker \<Rightarrow> bool" where
  "socks_ok own s \<longleftrightarrow>
     (\<forall>p S. sock_file s p S \<longrightarrow> S \<in> set (k_live s) \<and> own S = Sock_of p) \<and>
     distinct (k_sockets s) \<and> set (k_sockets s) = {S. \<exists>p. sock_file s p S}"

text \<open>Nothing is leaked: every address in use is reached from an open file, except those of \<open>X\<close>, which the running call holds.\<close>

definition owned :: "(nat \<Rightarrow> owner) \<Rightarrow> nat set \<Rightarrow> ker \<Rightarrow> bool" where
  "owned own X s \<longleftrightarrow> X \<subseteq> set (k_live s) \<and> (\<forall>a \<in> X. own a = Pending) \<and> 0 \<notin> set (k_live s) \<and>
     (\<forall>a \<in> set (k_live s). case own a of
        Pipe_obj \<Rightarrow> \<exists>p w. pipe_file s p a w
      | Page_of P \<Rightarrow> (\<exists>p w. pipe_file s p P w) \<and> k_pdata s P = a
      | Sock_of p \<Rightarrow> sock_file s p a
      | Pending \<Rightarrow> a \<in> X)"

definition objs_ok :: "nat set \<Rightarrow> ker \<Rightarrow> bool" where
  "objs_ok X s \<longleftrightarrow> (\<exists>own. pipes_ok own s \<and> socks_ok own s \<and> owned own X s) \<and> k_bad s = []"

definition files_inv :: "(nat \<Rightarrow> int) \<Rightarrow> nat set \<Rightarrow> nat set \<Rightarrow> ker \<Rightarrow> bool" where
  "files_inv e U X s \<longleftrightarrow> refs_inv e s \<and> typed U s \<and> objs_ok X s"

subsection \<open>Descriptor tables\<close>

lemma count_list_update:
  "i < length xs \<Longrightarrow> int (count_list (xs[i := q]) p) = int (count_list xs p) - (if xs ! i = p then 1 else 0) + (if q = p then 1 else 0)"
proof (induction xs arbitrary: i)
  case (Cons x xs)
  show ?case
  proof (cases i)
    case (Suc j)
    then show ?thesis using Cons.IH [of j] Cons.prems by (simp split: if_splits)
  qed simp
qed simp

lemma sum_list_update_at:
  assumes "distinct ts" "t \<in> set ts"
  shows "int (sum_list (map (f(t := n)) ts)) = int (sum_list (map f ts)) - int (f t) + int n"
proof -
  have s: "sum_list (map g ts) = g t + sum g (set ts - {t})" for g :: "'a \<Rightarrow> nat"
    using assms by (simp add: sum_list_distinct_conv_sum_set sum.remove)
  have "sum (f(t := n)) (set ts - {t}) = sum f (set ts - {t})" by (rule sum.cong) auto
  then show ?thesis using s [of f] s [of "f(t := n)"] by simp
qed

lemma refs_to_set:
  assumes "distinct (k_tasks s)" "t \<in> set (k_tasks s)" "fd < length (k_ofile s t)"
  shows "int (refs_to (set_ofile t fd q s) p) = int (refs_to s p) - (if k_ofile s t ! fd = p then 1 else 0) + (if q = p then 1 else 0)"
proof -
  have "(\<lambda>u. count_list (k_ofile (set_ofile t fd q s) u) p) = (\<lambda>u. count_list (k_ofile s u) p)(t := count_list ((k_ofile s t)[fd := q]) p)"
    by (auto simp: set_ofile_def)
  then show ?thesis
    unfolding refs_to_def using sum_list_update_at [OF assms(1,2)] count_list_update [OF assms(3)]
    by (simp add: set_ofile_def)
qed

lemma set_ofile_frame [simp]:
  "k_fs (set_ofile t fd q s) = k_fs s" "k_ftable (set_ofile t fd q s) = k_ftable s" "k_pipes (set_ofile t fd q s) = k_pipes s"
  "k_pdata (set_ofile t fd q s) = k_pdata s" "k_sockets (set_ofile t fd q s) = k_sockets s" "k_live (set_ofile t fd q s) = k_live s"
  "k_bad (set_ofile t fd q s) = k_bad s" "k_tasks (set_ofile t fd q s) = k_tasks s" "k_task (set_ofile t fd q s) = k_task s"
  "file_at (set_ofile t fd q s) = file_at s"
  by (simp_all add: set_ofile_def file_at_def fun_eq_iff)

text \<open>The object invariant does not look at descriptors, offsets, contents of pipes or the file system.\<close>

lemma files_cong:
  assumes "k_ftable t = k_ftable s"
  shows "live_file t = live_file s" "pipe_file t = pipe_file s" "sock_file t = sock_file s" "typed U t = typed U s"
  using assms by (auto simp: fun_eq_iff live_file_def pipe_file_def sock_file_def typed_def file_at_def)

lemma objs_cong:
  assumes "pipe_file t = pipe_file s" "sock_file t = sock_file s"
    "k_pdata t = k_pdata s" "k_sockets t = k_sockets s" "k_live t = k_live s" "k_bad t = k_bad s"
    and "\<And>P w. end_open w (k_pipes t P) = end_open w (k_pipes s P)"
  shows "objs_ok X t = objs_ok X s"
  unfolding objs_ok_def pipes_ok_def socks_ok_def owned_def assms by (rule refl)

lemma set_ofile_inv:
  assumes "files_inv e U X s" "t \<in> set (k_tasks s)" "fd < NOFILE" "q \<le> NFILE"
  shows "files_inv (\<lambda>p. e p + (if k_ofile s t ! fd = p then 1 else 0) - (if q = p then 1 else 0)) U X (set_ofile t fd q s)"
proof -
  have r: "refs_inv e s" using assms(1) by (simp add: files_inv_def)
  have l: "distinct (k_tasks s)" "length (k_ofile s t) = NOFILE" using r assms(2) by (auto simp: refs_inv_def)
  have "length (k_ofile (set_ofile t fd q s) u) = NOFILE \<and> (\<forall>p \<in> set (k_ofile (set_ofile t fd q s) u). p \<le> NFILE)" if "u \<in> set (k_tasks s)" for u
    using r that assms(4) by (auto simp: refs_inv_def set_ofile_def dest: subsetD [OF set_update_subset_insert])
  then have "refs_inv (\<lambda>p. e p + (if k_ofile s t ! fd = p then 1 else 0) - (if q = p then 1 else 0)) (set_ofile t fd q s)"
    using r refs_to_set [OF l(1) assms(2)] assms(3) l(2) by (simp add: refs_inv_def)
  then show ?thesis
    using assms(1) objs_cong [of "set_ofile t fd q s" s X] files_cong [of "set_ofile t fd q s" s] by (simp add: files_inv_def)
qed

subsection \<open>Files\<close>

lemma upd_file_frame [simp]:
  "k_fs (upd_file p g s) = k_fs s" "k_ofile (upd_file p g s) = k_ofile s" "k_pipes (upd_file p g s) = k_pipes s"
  "k_pdata (upd_file p g s) = k_pdata s" "k_sockets (upd_file p g s) = k_sockets s" "k_live (upd_file p g s) = k_live s"
  "k_bad (upd_file p g s) = k_bad s" "k_tasks (upd_file p g s) = k_tasks s" "k_task (upd_file p g s) = k_task s"
  "length (k_ftable (upd_file p g s)) = length (k_ftable s)" "refs_to (upd_file p g s) = refs_to s"
  by (simp_all add: upd_file_def refs_to_def fun_eq_iff)

lemma file_at_upd:
  "length (k_ftable s) = NFILE \<Longrightarrow> 0 < p \<Longrightarrow> p \<le> NFILE \<Longrightarrow> 0 < q \<Longrightarrow> file_at (upd_file p g s) q = (if q = p then g (file_at s p) else file_at s q)"
  by (auto simp: upd_file_def file_at_def nth_list_update)

lemma refs_upd_file:
  assumes "refs_inv e s" "0 < p" "p \<le> NFILE" "f_ref (g (file_at s p)) = f_ref (file_at s p) + d"
  shows "refs_inv (e(p := e p + d)) (upd_file p g s)"
  using assms by (auto simp: refs_inv_def file_at_upd)

lemma objs_upd_file:
  assumes "length (k_ftable s) = NFILE" "0 < p" "p \<le> NFILE" and g: "f' = g (file_at s p)"
    "\<And>ty. ty \<in> {FD_PIPE, FD_SOCK} \<Longrightarrow> (f_ref f' > 0 \<and> f_type f' = ty) = (f_ref (file_at s p) > 0 \<and> f_type (file_at s p) = ty)"
    "f_type f' \<in> {FD_PIPE, FD_SOCK} \<Longrightarrow> f_pipe f' = f_pipe (file_at s p) \<and> f_writable f' = f_writable (file_at s p) \<and> f_sock f' = f_sock (file_at s p)"
  shows "objs_ok X (upd_file p g s) = objs_ok X s"
proof (rule objs_cong)
  have a: "live_file (upd_file p g s) q = (if q = p then f_ref f' > 0 else live_file s q)" for q
    using assms(2,3) by (auto simp: live_file_def file_at_upd [OF assms(1-3)] g)
  have "pipe_file (upd_file p g s) q P w = pipe_file s q P w" for q P w
    using g(2) [of FD_PIPE] g(3) assms(2,3) unfolding pipe_file_def a by (cases "0 < q") (auto simp: file_at_upd [OF assms(1-3)] g(1) live_file_def)
  then show "pipe_file (upd_file p g s) = pipe_file s" by (simp add: fun_eq_iff)
  have "sock_file (upd_file p g s) q S = sock_file s q S" for q S
    using g(2) [of FD_SOCK] g(3) assms(2,3) unfolding sock_file_def a by (cases "0 < q") (auto simp: file_at_upd [OF assms(1-3)] g(1) live_file_def)
  then show "sock_file (upd_file p g s) = sock_file s" by (simp add: fun_eq_iff)
qed simp_all

lemma find_upt_Some: "find P [0..<n] = Some i \<Longrightarrow> i < n \<and> P i"
  by (auto simp: find_Some_iff)

lemma filealloc_inv:
  "trip (- table_faults) (files_inv e U X) filealloc
     (\<lambda>p s. if p = 0 then files_inv e U X s else p \<le> NFILE \<and> p \<notin> U \<and> files_inv (e(p := e p + 1)) (insert p U) X s)"
proof (rule tripI)
  fix s p t assume I: "files_inv e U X s" and r: "filealloc s = Some (Inr (p, t))"
  show "if p = 0 then files_inv e U X t else p \<le> NFILE \<and> p \<notin> U \<and> files_inv (e(p := e p + 1)) (insert p U) X t"
  proof (cases "find (\<lambda>i. f_ref (k_ftable s ! i) = 0) [0..<NFILE]")
    case None
    then show ?thesis using I r by (simp add: filealloc_def)
  next
    case (Some i)
    have i: "i < NFILE" "f_ref (k_ftable s ! i) = 0" using find_upt_Some [OF Some] by auto
    have t: "p = i + 1" "t = upd_file p (\<lambda>f. f\<lparr>f_ref := 1\<rparr>) s" using r Some by (auto simp: filealloc_def)
    have I': "refs_inv e s" "typed U s" "objs_ok X s" using I by (auto simp: files_inv_def)
    have l: "length (k_ftable s) = NFILE" using I'(1) by (simp add: refs_inv_def)
    have p: "0 < p" "p \<le> NFILE" "f_ref (file_at s p) = 0" using i t by (auto simp: file_at_def)
    have u: "p \<notin> U" "f_type (file_at s p) = FD_NONE" using I'(2) p by (auto simp: typed_def split: if_splits)
    have "refs_inv (e(p := e p + 1)) t" unfolding t(2) by (rule refs_upd_file [OF I'(1) p(1,2)]) (simp add: p)
    moreover have "typed (insert p U) t" using I'(2) u p by (auto simp: typed_def t(2) file_at_upd [OF l p(1,2)])
    moreover have "objs_ok X t" unfolding t(2) by (subst objs_upd_file [OF l p(1,2) refl]) (use u I' in auto)
    ultimately show ?thesis using p u by (simp add: files_inv_def)
  qed
qed (auto simp: filealloc_def split: option.splits)

lemma filedup_inv:
  "trip (- table_faults) (\<lambda>s. files_inv e U X s \<and> live_file s p \<and> p \<notin> U) (filedup p) (\<lambda>q s. q = p \<and> files_inv (e(p := e p + 1)) U X s)"
proof (rule tripI)
  fix s e' assume "files_inv e U X s \<and> live_file s p \<and> p \<notin> U" "filedup p s = Some (Inl e')"
  then show "e' \<in> - table_faults" by (auto simp: filedup_def live_file_def retC_def split: if_splits)
next
  fix s q t assume I: "files_inv e U X s \<and> live_file s p \<and> p \<notin> U" and r: "filedup p s = Some (Inr (q, t))"
  have I': "refs_inv e s" "typed U s" "objs_ok X s" and p: "0 < p" "p \<le> NFILE" "f_ref (file_at s p) > 0" "p \<notin> U"
    using I by (auto simp: files_inv_def live_file_def)
  have t: "q = p" "t = upd_file p (\<lambda>f. f\<lparr>f_ref := f_ref f + 1\<rparr>) s" using r p by (auto simp: filedup_def retC_def)
  have l: "length (k_ftable s) = NFILE" using I'(1) by (simp add: refs_inv_def)
  have "refs_inv (e(p := e p + 1)) t" unfolding t(2) by (rule refs_upd_file [OF I'(1) p(1,2)]) simp
  moreover have "typed U t" using I'(2) p by (auto simp: typed_def t(2) file_at_upd [OF l p(1,2)])
  moreover have "objs_ok X t" unfolding t(2) by (subst objs_upd_file [OF l p(1,2) refl]) (use p I' in auto)
  ultimately show "q = p \<and> files_inv (e(p := e p + 1)) U X t" using t by (simp add: files_inv_def)
qed

subsection \<open>Closing\<close>

text \<open>States that differ in the file system, in the contents of pipes, or in the descriptors of no task.\<close>

lemma inv_fs [simp]: "files_inv e U X (s\<lparr>k_fs := f\<rparr>) = files_inv e U X s"
proof -
  have "objs_ok X (s\<lparr>k_fs := f\<rparr>) = objs_ok X s" by (rule objs_cong) (simp_all add: files_cong [of "s\<lparr>k_fs := f\<rparr>" s])
  then show ?thesis by (simp add: files_inv_def refs_inv_def refs_to_def file_at_def typed_def)
qed

lemma trip_fsC: "fs_safe m \<Longrightarrow> (\<And>s f. P s \<Longrightarrow> P (s\<lparr>k_fs := f\<rparr>)) \<Longrightarrow> trip (- table_faults) P (fsC m) (\<lambda>_. P)"
  unfolding fs_safe_def by (rule tripI) (auto simp: fsC_def dest: trip_fault split: option.splits sum.splits)

lemma fsC_eq_Inr: "fsC m s = Some (Inr (x, t)) \<longleftrightarrow> (\<exists>f. m (k_fs s) = Some (Inr (x, f)) \<and> t = s\<lparr>k_fs := f\<rparr>)"
  by (auto simp: fsC_def split: option.splits sum.splits)

lemma safe_fsC [safe_rules]: "fs_safe m \<Longrightarrow> fs_safe (fsC m)"
  using trip_fsC [of m "\<lambda>_. True"] by (simp add: fs_safe_def)

lemma fsC_inv: "fs_safe m \<Longrightarrow> trip (- table_faults) (files_inv e U X) (fsC m) (\<lambda>_. files_inv e U X)"
  by (rule trip_fsC) simp_all

text \<open>
  After the last reference of a file is gone, the file no longer counts; what it referred to is released. \<open>s\<close> is the state before, \<open>t\<close> the one after the
  entry of the table has been cleared.
\<close>

lemma cleared:
  assumes "length (k_ftable s) = NFILE" "0 < p" "p \<le> NFILE" and t: "t = upd_file p (\<lambda>f. f\<lparr>f_ref := 0, f_type := FD_NONE\<rparr>) s"
  shows "pipe_file t q P w \<longleftrightarrow> q \<noteq> p \<and> pipe_file s q P w" "sock_file t q S \<longleftrightarrow> q \<noteq> p \<and> sock_file s q S"
  using assms(2,3) unfolding t by (cases "q = p"; auto simp: pipe_file_def sock_file_def live_file_def file_at_upd [OF assms(1-3)])+

lemma pipes_ok_own: "pipes_ok own s \<Longrightarrow> pipe_file s p P w \<Longrightarrow>
    P \<in> set (k_live s) \<and> own P = Pipe_obj \<and> k_pdata s P \<in> set (k_live s) \<and> own (k_pdata s P) = Page_of P \<and> end_open w (k_pipes s P)"
  unfolding pipes_ok_def by blast

lemma pipes_ok_unique: "pipes_ok own s \<Longrightarrow> pipe_file s p P w \<Longrightarrow> pipe_file s q P w \<Longrightarrow> p = q"
  unfolding pipes_ok_def by blast

lemma pipes_ok_other: "pipes_ok own s \<Longrightarrow> pipe_file s p P w \<Longrightarrow> end_open (\<not> w) (k_pipes s P) \<Longrightarrow> \<exists>q. pipe_file s q P (\<not> w)"
  unfolding pipes_ok_def by blast

lemma owned_cases:
  "owned own X s \<Longrightarrow> a \<in> set (k_live s) \<Longrightarrow> own a = Pipe_obj \<Longrightarrow> \<exists>p w. pipe_file s p a w"
  "owned own X s \<Longrightarrow> a \<in> set (k_live s) \<Longrightarrow> own a = Page_of P \<Longrightarrow> (\<exists>p w. pipe_file s p P w) \<and> k_pdata s P = a"
  "owned own X s \<Longrightarrow> a \<in> set (k_live s) \<Longrightarrow> own a = Sock_of p \<Longrightarrow> sock_file s p a"
  "owned own X s \<Longrightarrow> a \<in> set (k_live s) \<Longrightarrow> own a = Pending \<Longrightarrow> a \<in> X"
  unfolding owned_def by (fastforce)+

lemma pipeclose_open: "pipeclose w p = (gone, p') \<Longrightarrow> end_open v p' = (v \<noteq> w \<and> end_open v p) \<and> gone = (\<not> end_open (\<not> w) p)"
  by (auto simp: pipeclose_def end_open_def Let_def)

lemma close_pipe_objs:
  assumes own: "pipes_ok own s" "socks_ok own s" "owned own X s" and bad: "k_bad s = []"
    and pf: "pipe_file s p P w" and l: "length (k_ftable s) = NFILE"
    and t: "t = upd_file p (\<lambda>f. f\<lparr>f_ref := 0, f_type := FD_NONE\<rparr>) s" and r: "k_pipeclose P w t = Some (Inr (x, u))"
  shows "objs_ok X u"
proof -
  have p: "0 < p" "p \<le> NFILE" using pf by (auto simp: pipe_file_def live_file_def)
  note cl = cleared [OF l p t]
  obtain gone pi where c: "pipeclose w (k_pipes s P) = (gone, pi)" by fastforce
  have op: "end_open v pi \<longleftrightarrow> v \<noteq> w \<and> end_open v (k_pipes s P)" "gone = (\<not> end_open (\<not> w) (k_pipes s P))" for v using pipeclose_open [OF c] by auto
  define L where "L = (if gone then removeAll P (removeAll (k_pdata s P) (k_live s)) else k_live s)"
  have Pl: "P \<in> set (k_live s)" "own P = Pipe_obj" "k_pdata s P \<in> set (k_live s)" "own (k_pdata s P) = Page_of P"
    using pipes_ok_own [OF own(1) pf] by auto
  then have "P \<noteq> k_pdata s P" by force
  then have u: "k_live u = L" "k_bad u = []" "k_pipes u = (k_pipes s)(P := pi)" "k_pdata u = k_pdata s" "k_sockets u = k_sockets s" "k_ftable u = k_ftable t"
    using r c Pl bad by (auto simp: k_pipeclose_def k_free_def t L_def retC_def modC_def split: if_splits)
  have f: "pipe_file u = pipe_file t" "sock_file u = sock_file t" using files_cong(2,3) [OF u(6)] .
  have none: "\<not> pipe_file t q P v" if "gone" for q v
    using that op(2) pipes_ok_own [OF own(1), of q P v] pipes_ok_unique [OF own(1) pf, of q] cl(1) by (cases "v = w") auto
  have keep: "Q \<in> set L \<and> k_pdata s Q \<in> set L" if "pipe_file t q Q v" for q Q v
  proof -
    have q: "pipe_file s q Q v" using that cl(1) by blast
    have "gone \<Longrightarrow> Q \<noteq> P" using none that by blast
    then show ?thesis using pipes_ok_own [OF own(1) q] Pl by (auto simp: L_def)
  qed
  have "pipes_ok own u"
    unfolding pipes_ok_def f u
  proof (intro conjI allI impI)
    fix q Q v assume q: "pipe_file t q Q v"
    then have qs: "pipe_file s q Q v" "q \<noteq> p" using cl(1) by auto
    show "Q \<in> set L" "k_pdata s Q \<in> set L" using keep [OF q] by auto
    show "own Q = Pipe_obj" "own (k_pdata s Q) = Page_of Q" using pipes_ok_own [OF own(1) qs(1)] by auto
    have "v \<noteq> w" if "Q = P" using pipes_ok_unique [OF own(1) pf, of q] qs that by blast
    then show "end_open v (((k_pipes s)(P := pi)) Q)" using pipes_ok_own [OF own(1) qs(1)] op(1) [of v] by (cases "Q = P") simp_all
    show "\<exists>q. pipe_file t q Q (\<not> v)" if "end_open (\<not> v) (((k_pipes s)(P := pi)) Q)"
    proof -
      have "end_open (\<not> v) (k_pipes s Q)" "Q = P \<Longrightarrow> v = w" using that op(1) by (auto split: if_splits)
      moreover obtain q' where "pipe_file s q' Q (\<not> v)" using pipes_ok_other [OF own(1) qs(1)] calculation(1) by blast
      moreover have "q' \<noteq> p" using calculation pf by (auto simp: pipe_file_def)
      ultimately show ?thesis using cl(1) by blast
    qed
  next
    fix q r Q v assume "pipe_file t q Q v" "pipe_file t r Q v"
    then show "q = r" using pipes_ok_unique [OF own(1)] cl(1) by blast
  qed
  moreover have so: "sock_file t = sock_file s" using cl(2) pf by (auto simp: fun_eq_iff sock_file_def pipe_file_def)
  have "S \<in> set L" if "sock_file s q S" for q S
    using own(2) that Pl by (auto simp: socks_ok_def L_def)
  then have "socks_ok own u" using own(2) unfolding socks_ok_def f u so by blast
  moreover have "owned own X u"
    unfolding owned_def f u so
  proof (intro conjI ballI)
    show "X \<subseteq> set L" using own(3) Pl by (force simp: owned_def L_def)
    show "own a = Pending" if "a \<in> X" for a using that own(3) by (simp add: owned_def)
    show "0 \<notin> set L" using own(3) by (auto simp: owned_def L_def)
    fix a assume a: "a \<in> set L"
    then have as: "a \<in> set (k_live s)" by (auto simp: L_def split: if_splits)
    have st: "\<exists>q v. pipe_file t q Q v" if "pipe_file s q Q v" "gone \<Longrightarrow> Q \<noteq> P" for q Q v
    proof (cases "q = p")
      case True
      then have "Q = P" "v = w" using that(1) pf by (auto simp: pipe_file_def)
      then show ?thesis using that(2) op(2) pipes_ok_other [OF own(1) pf] cl(1) pf by (metis (full_types) pipe_file_def)
    qed (use that(1) cl(1) in blast)
    show "case own a of Pipe_obj \<Rightarrow> \<exists>p w. pipe_file t p a w | Page_of P \<Rightarrow> (\<exists>p w. pipe_file t p P w) \<and> k_pdata s P = a
        | Sock_of p \<Rightarrow> sock_file s p a | Pending \<Rightarrow> a \<in> X"
    proof (cases "own a")
      case Pipe_obj
      then show ?thesis using owned_cases(1) [OF own(3) as] st a by (fastforce simp: L_def)
    next
      case (Page_of Q)
      then have "(\<exists>p w. pipe_file s p Q w) \<and> k_pdata s Q = a" using owned_cases(2) [OF own(3) as] by blast
      then show ?thesis using Page_of st a by (fastforce simp: L_def)
    qed (use owned_cases [OF own(3) as] in auto)
  qed
  ultimately show ?thesis using u(2) by (auto simp: objs_ok_def)
qed

lemma close_sock_objs:
  assumes own: "pipes_ok own s" "socks_ok own s" "owned own X s" and bad: "k_bad s = []"
    and sf: "sock_file s p S" and l: "length (k_ftable s) = NFILE"
    and t: "t = upd_file p (\<lambda>f. f\<lparr>f_ref := 0, f_type := FD_NONE\<rparr>) s" and r: "sockclose S t = Some (Inr (x, u))"
  shows "objs_ok X u"
proof -
  have p: "0 < p" "p \<le> NFILE" using sf by (auto simp: sock_file_def live_file_def)
  note cl = cleared [OF l p t]
  have S: "S \<in> set (k_live s)" "own S = Sock_of p" using own(2) sf by (auto simp: socks_ok_def)
  have u: "k_live u = removeAll S (k_live s)" "k_bad u = []" "k_pipes u = k_pipes s" "k_pdata u = k_pdata s" "k_sockets u = remove1 S (k_sockets s)" "k_ftable u = k_ftable t"
    using r S bad by (auto simp: sockclose_def k_free_def t modC_def)
  have f: "pipe_file u = pipe_file s" "sock_file u = sock_file t"
    using files_cong(2,3) [OF u(6)] cl(1) sf by (auto simp: fun_eq_iff sock_file_def pipe_file_def)
  have one: "q = p" if "sock_file s q S" for q using that own(2) S by (auto simp: socks_ok_def)
  have "Q \<noteq> S \<and> k_pdata s Q \<noteq> S" if "pipe_file s q Q v" for q Q v using pipes_ok_own [OF own(1) that] S by auto
  then have "pipes_ok own u" using own(1) unfolding pipes_ok_def f u by (auto simp del: not_ex)
  moreover have "socks_ok own u"
    unfolding socks_ok_def f u
  proof (intro conjI allI impI)
    fix q T assume q: "sock_file t q T"
    then have "T \<noteq> S" using one cl(2) by blast
    then show "T \<in> set (removeAll S (k_live s))" "own T = Sock_of q" using own(2) q cl(2) by (auto simp: socks_ok_def)
  next
    have ds: "distinct (k_sockets s)" "set (k_sockets s) = {S. \<exists>p. sock_file s p S}" using own(2) by (auto simp: socks_ok_def)
    then show "distinct (remove1 S (k_sockets s))" by simp
    have "T \<noteq> S \<longleftrightarrow> q \<noteq> p" if "sock_file s q T" for q T using that one [of q] sf unfolding sock_file_def by blast
    then have "{T. \<exists>q. sock_file t q T} = {T. \<exists>q. sock_file s q T} - {S}" unfolding cl(2) by blast
    then show "set (remove1 S (k_sockets s)) = {S. \<exists>p. sock_file t p S}" using ds by (simp add: set_remove1_distinct)
  qed
  moreover have "owned own X u"
    unfolding owned_def f u
  proof (intro conjI ballI)
    show "X \<subseteq> set (removeAll S (k_live s))" using own(3) S by (force simp: owned_def)
    show "own a = Pending" if "a \<in> X" for a using that own(3) by (simp add: owned_def)
    show "0 \<notin> set (removeAll S (k_live s))" using own(3) by (auto simp: owned_def)
    fix a assume a: "a \<in> set (removeAll S (k_live s))"
    then have as: "a \<in> set (k_live s)" "a \<noteq> S" by auto
    have "sock_file t q a" if "own a = Sock_of q" for q
      using owned_cases(3) [OF own(3) as(1) that] cl(2) as(2) sf by (auto simp: sock_file_def)
    then show "case own a of Pipe_obj \<Rightarrow> \<exists>p w. pipe_file s p a w | Page_of P \<Rightarrow> (\<exists>p w. pipe_file s p P w) \<and> k_pdata s P = a
        | Sock_of p \<Rightarrow> sock_file t p a | Pending \<Rightarrow> a \<in> X"
      using owned_cases [OF own(3) as(1)] by (cases "own a") auto
  qed
  ultimately show ?thesis using u(2) by (auto simp: objs_ok_def)
qed

text \<open>What closing an object leaves alone.\<close>

lemma close_object_frame:
  assumes "close_object f s = Some (Inr (x, t))"
  shows "k_ftable t = k_ftable s" "k_ofile t = k_ofile s" "k_tasks t = k_tasks s" "k_task t = k_task s"
  using assms by (auto simp: close_object_def k_pipeclose_def sockclose_def k_free_def fsC_eq_Inr thenC_eq_Inr bindC_eq_Inr getC_def modC_def retC_def
      split: ftype.splits if_splits prod.splits)

lemma safe_free [safe_rules]: "fs_safe (k_free a)"
  unfolding k_free_def by (rule safe_rules)

lemma close_object_faults: "fs_safe (close_object f)"
  by (cases "f_type f"; simp add: close_object_def k_pipeclose_def sockclose_def; intro safe_rules)

lemma frame_inv:
  assumes "k_ftable t = k_ftable s" "k_ofile t = k_ofile s" "k_tasks t = k_tasks s" "k_task t = k_task s"
  shows "refs_inv e t = refs_inv e s" "typed U t = typed U s"
  using assms files_cong(4) [OF assms(1)] by (simp_all add: refs_inv_def refs_to_def file_at_def)

lemma fileclose_inv:
  "trip (- table_faults) (\<lambda>s. files_inv e U X s \<and> live_file s p) (fileclose p) (\<lambda>_. files_inv (e(p := e p - 1)) (U - {p}) X)"
proof (rule tripI)
  fix s e' assume "files_inv e U X s \<and> live_file s p" "fileclose p s = Some (Inl e')"
  then show "e' \<in> - table_faults"
    using trip_fault [OF close_object_faults [of "file_at s p", unfolded fs_safe_def] TrueI]
    by (auto simp: fileclose_def live_file_def modC_def thenC_def split: if_splits)
next
  fix s x u assume I: "files_inv e U X s \<and> live_file s p" and r: "fileclose p s = Some (Inr (x, u))"
  then have I': "refs_inv e s" "typed U s" "objs_ok X s" and p: "0 < p" "p \<le> NFILE" "f_ref (file_at s p) \<ge> 1" by (auto simp: files_inv_def live_file_def)
  have l: "length (k_ftable s) = NFILE" using I'(1) by (simp add: refs_inv_def)
  show "files_inv (e(p := e p - 1)) (U - {p}) X u"
  proof (cases "f_ref (file_at s p) = 1")
    case False
    then have u: "u = upd_file p (\<lambda>f. f\<lparr>f_ref := f_ref f - 1\<rparr>) s" and nU: "p \<notin> U"
      using r p I'(2) by (auto simp: fileclose_def modC_def typed_def split: if_splits)
    have "refs_inv (e(p := e p - 1)) u" unfolding u using refs_upd_file [OF I'(1) p(1,2), of "\<lambda>f. f\<lparr>f_ref := f_ref f - 1\<rparr>" "-1"] by simp
    moreover have "typed (U - {p}) u" using I'(2) p nU False by (auto simp: typed_def u file_at_upd [OF l p(1,2)])
    moreover have "objs_ok X u" unfolding u by (subst objs_upd_file [OF l p(1,2) refl]) (use p I' False in auto)
    ultimately show ?thesis by (simp add: files_inv_def)
  next
    case True
    define t where "t = upd_file p (\<lambda>f. f\<lparr>f_ref := 0, f_type := FD_NONE\<rparr>) s"
    have u: "close_object (file_at s p) t = Some (Inr (x, u))" using r True p by (simp add: fileclose_def t_def thenC_eq_Inr modC_def split: if_splits)
    have "refs_inv (e(p := e p - 1)) t" unfolding t_def using refs_upd_file [OF I'(1) p(1,2), of "\<lambda>f. f\<lparr>f_ref := 0, f_type := FD_NONE\<rparr>" "-1"] True by simp
    moreover have "typed (U - {p}) t" using I'(2) p by (auto simp: typed_def t_def file_at_upd [OF l p(1,2)])
    moreover have "objs_ok X u"
    proof -
      obtain own where own: "pipes_ok own s" "socks_ok own s" "owned own X s" "k_bad s = []" using I'(3) by (auto simp: objs_ok_def)
      consider "f_type (file_at s p) = FD_PIPE" | "f_type (file_at s p) = FD_SOCK" | "f_type (file_at s p) \<in> {FD_NONE, FD_INODE, FD_DEVICE}"
        by (cases "f_type (file_at s p)") auto
      then show ?thesis
      proof cases
        case 1
        have "pipe_file s p (f_pipe (file_at s p)) (f_writable (file_at s p))" using 1 p by (simp add: pipe_file_def live_file_def)
        from close_pipe_objs [OF own this l t_def] show ?thesis using u 1 by (simp add: close_object_def)
      next
        case 2
        have "sock_file s p (f_sock (file_at s p))" using 2 p by (simp add: sock_file_def live_file_def)
        from close_sock_objs [OF own this l t_def] show ?thesis using u 2 by (simp add: close_object_def)
      next
        case 3
        have ts: "objs_ok X t = objs_ok X s" unfolding t_def by (rule objs_upd_file [OF l p(1,2) refl]) (use 3 in auto)
        have "u = t\<lparr>k_fs := k_fs u\<rparr>"
          using u 3 by (auto simp: close_object_def fsC_eq_Inr thenC_eq_Inr retC_def)
        then obtain g where g: "u = t\<lparr>k_fs := g\<rparr>" by blast
        have "objs_ok X u = objs_ok X t" by (rule objs_cong) (simp_all add: g files_cong [of "t\<lparr>k_fs := g\<rparr>" t])
        then show ?thesis using ts I'(3) by simp
      qed
    qed
    ultimately show ?thesis using frame_inv [OF close_object_frame [OF u]] by (simp add: files_inv_def)
  qed
qed

subsection \<open>Allocation\<close>

lemma k_alloc_inv:
  "trip (- table_faults) (files_inv e U X) k_alloc (\<lambda>a s. if a = 0 then files_inv e U X s else a \<notin> X \<and> files_inv e U (insert a X) s)"
proof (rule tripI)
  fix s a t assume I: "files_inv e U X s" and r: "k_alloc s = Some (Inr (a, t))"
  then obtain own where own: "pipes_ok own s" "socks_ok own s" "owned own X s" "k_bad s = []" by (auto simp: files_inv_def objs_ok_def)
  have fr: "k_ftable t = k_ftable s" "k_ofile t = k_ofile s" "k_tasks t = k_tasks s" "k_task t = k_task s"
    "k_pipes t = k_pipes s" "k_pdata t = k_pdata s" "k_sockets t = k_sockets s" "k_bad t = k_bad s"
    using r by (auto simp: k_alloc_def split: list.splits if_splits)
  note f = files_cong(2,3) [OF fr(1)]
  have lv: "if a = 0 then k_live t = k_live s else a \<notin> set (k_live s) \<and> k_live t = a # k_live s"
    using r by (auto simp: k_alloc_def split: list.splits if_splits)
  show "if a = 0 then files_inv e U X t else a \<notin> X \<and> files_inv e U (insert a X) t"
  proof (cases "a = 0")
    case True
    then have "objs_ok X t = objs_ok X s" using lv by (intro objs_cong) (simp_all add: fr f)
    then show ?thesis using True I frame_inv [OF fr(1-4)] by (simp add: files_inv_def)
  next
    case False
    have a: "a \<notin> set (k_live s)" "k_live t = a # k_live s" using lv False by auto
    define own' where "own' = own(a := Pending)"
    have "pipes_ok own' t"
      using own(1) a unfolding pipes_ok_def f fr own'_def by fastforce
    moreover have "socks_ok own' t" using own(2) a unfolding socks_ok_def f fr own'_def by fastforce
    moreover have "owned own' (insert a X) t"
      unfolding owned_def f fr a(2)
    proof (intro conjI ballI)
      fix b assume b: "b \<in> set (a # k_live s)"
      show "case own' b of Pipe_obj \<Rightarrow> \<exists>p w. pipe_file s p b w | Page_of P \<Rightarrow> (\<exists>p w. pipe_file s p P w) \<and> k_pdata s P = b
          | Sock_of p \<Rightarrow> sock_file s p b | Pending \<Rightarrow> b \<in> insert a X"
      proof (cases "b = a")
        case False
        then have "b \<in> set (k_live s)" using b by simp
        from owned_cases [OF own(3) this] show ?thesis using False by (cases "own b") (auto simp: own'_def)
      qed (simp add: own'_def)
    qed (use own(3) False in \<open>auto simp: owned_def own'_def\<close>)
    moreover have "a \<notin> X" using own(3) a(1) by (auto simp: owned_def)
    ultimately show ?thesis using False I frame_inv [OF fr(1-4)] own(4) fr(8) by (auto simp: files_inv_def objs_ok_def)
  qed
qed (simp add: k_alloc_def)

lemma k_free_inv: "trip (- table_faults) (\<lambda>s. files_inv e U X s \<and> a \<in> X) (k_free a) (\<lambda>_. files_inv e U (X - {a}))"
  unfolding k_free_def
proof (rule trip_mod)
  fix s assume "files_inv e U X s \<and> a \<in> X"
  then obtain own where I: "files_inv e U X s" "a \<in> X" and own: "pipes_ok own s" "socks_ok own s" "owned own X s" "k_bad s = []" by (auto simp: files_inv_def objs_ok_def)
  have a: "a \<in> set (k_live s)" "own a = Pending" using own(3) I(2) by (auto simp: owned_def)
  define t where "t = s\<lparr>k_live := removeAll a (k_live s)\<rparr>"
  have fr: "k_ftable t = k_ftable s" "k_ofile t = k_ofile s" "k_tasks t = k_tasks s" "k_task t = k_task s"
    "k_pipes t = k_pipes s" "k_pdata t = k_pdata s" "k_sockets t = k_sockets s" "k_bad t = k_bad s" "k_live t = removeAll a (k_live s)" by (simp_all add: t_def)
  note f = files_cong(2,3) [OF fr(1)]
  have "Q \<noteq> a \<and> k_pdata s Q \<noteq> a" if "pipe_file s q Q v" for q Q v using pipes_ok_own [OF own(1) that] a by auto
  then have "pipes_ok own t" using own(1) unfolding pipes_ok_def f fr by (auto simp del: not_ex)
  moreover have "socks_ok own t" using own(2) a unfolding socks_ok_def f fr by fastforce
  moreover have "owned own (X - {a}) t"
    unfolding owned_def f fr
  proof (intro conjI ballI)
    fix b assume b: "b \<in> set (removeAll a (k_live s))"
    then have b': "b \<in> set (k_live s)" "b \<noteq> a" by auto
    from owned_cases [OF own(3) b'(1)]
    show "case own b of Pipe_obj \<Rightarrow> \<exists>p w. pipe_file s p b w | Page_of P \<Rightarrow> (\<exists>p w. pipe_file s p P w) \<and> k_pdata s P = b
          | Sock_of p \<Rightarrow> sock_file s p b | Pending \<Rightarrow> b \<in> X - {a}" using b'(2) by (cases "own b") auto
  qed (use own(3) in \<open>auto simp: owned_def\<close>)
  ultimately have "files_inv e U (X - {a}) t" using I frame_inv [OF fr(1-4)] own(4) fr(8) by (auto simp: files_inv_def objs_ok_def)
  then show "files_inv e U (X - {a}) (if a \<in> set (k_live s) then s\<lparr>k_live := removeAll a (k_live s)\<rparr> else s\<lparr>k_bad := a # k_bad s\<rparr>)"
    using a by (simp add: t_def)
qed

text \<open>Setting up a file on an inode or a device.\<close>

lemma set_type_inv:
  assumes I: "files_inv e U X s" and p: "p \<in> U" "0 < p" "p \<le> NFILE"
    and g: "f_ref (g (file_at s p)) = f_ref (file_at s p)" "f_type (g (file_at s p)) \<in> {FD_INODE, FD_DEVICE}"
  shows "files_inv e (U - {p}) X (upd_file p g s)"
proof -
  have I': "refs_inv e s" "typed U s" "objs_ok X s" using I by (auto simp: files_inv_def)
  have l: "length (k_ftable s) = NFILE" using I'(1) by (simp add: refs_inv_def)
  have f: "f_type (file_at s p) = FD_NONE" "f_ref (file_at s p) = 1" using I'(2) p by (auto simp: typed_def)
  have "refs_inv e (upd_file p g s)" using refs_upd_file [OF I'(1) p(2,3), of g 0] g by simp
  moreover have "typed (U - {p}) (upd_file p g s)" using I'(2) p g f by (auto simp: typed_def file_at_upd [OF l p(2,3)])
  moreover have "objs_ok X (upd_file p g s)" by (subst objs_upd_file [OF l p(2,3) refl]) (use g f I' in auto)
  ultimately show ?thesis by (simp add: files_inv_def)
qed

text \<open>A new pipe and its two ends.\<close>

abbreviation pipe_end :: "bool \<Rightarrow> nat \<Rightarrow> kfile \<Rightarrow> kfile" where
  "pipe_end w pi f \<equiv> f\<lparr>f_type := FD_PIPE, f_readable := \<not> w, f_writable := w, f_pipe := pi\<rparr>"

lemma make_pipe_inv:
  assumes I: "files_inv e U X s" and f: "f0 \<in> U" "f1 \<in> U" "f0 \<noteq> f1" "0 < f0" "f0 \<le> NFILE" "0 < f1" "f1 \<le> NFILE"
    and X: "pi \<in> X" "pg \<in> X" "pi \<noteq> pg"
    and t: "t = upd_file f1 (pipe_end True pi) (upd_file f0 (pipe_end False pi)
        (s\<lparr>k_pipes := (k_pipes s)(pi := new_pipe page), k_pdata := (k_pdata s)(pi := pg)\<rparr>))"
  shows "files_inv e (U - {f0, f1}) (X - {pi, pg}) t"
proof -
  obtain own where own: "pipes_ok own s" "socks_ok own s" "owned own X s" "k_bad s = []" and I': "refs_inv e s" "typed U s"
    using I by (auto simp: files_inv_def objs_ok_def)
  have l: "length (k_ftable s) = NFILE" using I'(1) by (simp add: refs_inv_def)
  have n: "f_type (file_at s f0) = FD_NONE" "f_ref (file_at s f0) = 1" "f_type (file_at s f1) = FD_NONE" "f_ref (file_at s f1) = 1"
    using I'(2) f by (auto simp: typed_def)
  have fa: "file_at t q = (if q = f1 then pipe_end True pi (file_at s f1) else if q = f0 then pipe_end False pi (file_at s f0) else file_at s q)" if "0 < q" for q
    using that f l unfolding t by (simp add: file_at_upd) (simp add: file_at_def)
  have fr: "k_ofile t = k_ofile s" "k_tasks t = k_tasks s" "k_task t = k_task s" "length (k_ftable t) = NFILE" "refs_to t = refs_to s" "k_sockets t = k_sockets s"
    "k_live t = k_live s" "k_bad t = k_bad s" "k_pipes t = (k_pipes s)(pi := new_pipe page)" "k_pdata t = (k_pdata s)(pi := pg)"
    using l by (simp_all add: t) (simp add: refs_to_def fun_eq_iff)
  have pf: "pipe_file t q Q v \<longleftrightarrow> pipe_file s q Q v \<or> Q = pi \<and> q = (if v then f1 else f0)" for q Q v
    using n f by (cases "0 < q") (auto simp: pipe_file_def live_file_def fa)
  have sf: "sock_file t = sock_file s" using n f by (auto simp: fun_eq_iff sock_file_def live_file_def fa split: if_splits)
  have P: "own pi = Pending" "own pg = Pending" "pi \<in> set (k_live s)" "pg \<in> set (k_live s)" using own(3) X by (auto simp: owned_def)
  have ne: "Q \<noteq> pi \<and> Q \<noteq> pg \<and> k_pdata s Q \<noteq> pi \<and> k_pdata s Q \<noteq> pg" if "pipe_file s q Q v" for q Q v
    using pipes_ok_own [OF own(1) that] P by auto
  define own' where "own' = own(pi := Pipe_obj, pg := Page_of pi)"
  have op: "end_open v (new_pipe page)" for v by (simp add: end_open_def new_pipe_def)
  have "pipes_ok own' t"
    unfolding pipes_ok_def pf fr
  proof (intro conjI allI impI)
    fix q Q v assume q: "pipe_file s q Q v \<or> Q = pi \<and> q = (if v then f1 else f0)"
    show "Q \<in> set (k_live s)" "own' Q = Pipe_obj" "((k_pdata s)(pi := pg)) Q \<in> set (k_live s)" "own' (((k_pdata s)(pi := pg)) Q) = Page_of Q"
      "end_open v (((k_pipes s)(pi := new_pipe page)) Q)"
      using q pipes_ok_own [OF own(1), of q Q v] ne [of q Q v] P X(3) op by (auto simp: own'_def)
    show "\<exists>q. pipe_file s q Q (\<not> v) \<or> Q = pi \<and> q = (if \<not> v then f1 else f0)" if "end_open (\<not> v) (((k_pipes s)(pi := new_pipe page)) Q)"
      using q that pipes_ok_other [OF own(1), of q Q v] by (cases "Q = pi") auto
  next
    fix q r Q v assume "pipe_file s q Q v \<or> Q = pi \<and> q = (if v then f1 else f0)" "pipe_file s r Q v \<or> Q = pi \<and> r = (if v then f1 else f0)"
    then show "q = r" using pipes_ok_unique [OF own(1), of q Q v r] ne [of q Q v] ne [of r Q v] by blast
  qed
  moreover have "socks_ok own' t" using own(2) P unfolding socks_ok_def sf fr own'_def by fastforce
  moreover have "owned own' (X - {pi, pg}) t"
    unfolding owned_def sf fr
  proof (intro conjI ballI)
    fix a assume a: "a \<in> set (k_live s)"
    show "case own' a of Pipe_obj \<Rightarrow> \<exists>p w. pipe_file t p a w | Page_of P \<Rightarrow> (\<exists>p w. pipe_file t p P w) \<and> ((k_pdata s)(pi := pg)) P = a
        | Sock_of p \<Rightarrow> sock_file s p a | Pending \<Rightarrow> a \<in> X - {pi, pg}"
    proof (cases "a = pi \<or> a = pg")
      case True
      moreover have "pipe_file t f0 pi False" using pf by simp
      ultimately show ?thesis using X(3) by (auto simp: own'_def)
    next
      case False
      have old: "pipe_file s q Q v \<Longrightarrow> pipe_file t q Q v" for q Q v using pf by simp
      have "own a \<noteq> Page_of pi" using owned_cases(2) [OF own(3) a, of pi] ne by blast
      then show ?thesis using owned_cases [OF own(3) a] False by (cases "own a") (auto simp: own'_def dest!: old)
    qed
  qed (use own(3) in \<open>auto simp: owned_def own'_def\<close>)
  moreover have "refs_inv e t" using I'(1) n fr(4) unfolding refs_inv_def fr by (auto simp: fa)
  moreover have "typed (U - {f0, f1}) t" using I'(2) n unfolding typed_def by (auto simp: fa)
  ultimately show ?thesis using own(4) fr(8) by (auto simp: files_inv_def objs_ok_def)
qed

lemma make_sock_inv:
  assumes I: "files_inv e U X s" and f: "p \<in> U" "0 < p" "p \<le> NFILE" and X: "si \<in> X"
    and t: "t = upd_file p (\<lambda>f. f\<lparr>f_type := FD_SOCK, f_readable := True, f_writable := True, f_sock := si\<rparr>) (s\<lparr>k_sock := ks, k_sockets := si # k_sockets s\<rparr>)"
  shows "files_inv e (U - {p}) (X - {si}) t"
proof -
  obtain own where own: "pipes_ok own s" "socks_ok own s" "owned own X s" "k_bad s = []" and I': "refs_inv e s" "typed U s"
    using I by (auto simp: files_inv_def objs_ok_def)
  have l: "length (k_ftable s) = NFILE" using I'(1) by (simp add: refs_inv_def)
  have n: "f_type (file_at s p) = FD_NONE" "f_ref (file_at s p) = 1" using I'(2) f by (auto simp: typed_def)
  have fa: "file_at t q = (if q = p then (file_at s p)\<lparr>f_type := FD_SOCK, f_readable := True, f_writable := True, f_sock := si\<rparr> else file_at s q)" if "0 < q" for q
    using that f l unfolding t by (simp add: file_at_upd) (simp add: file_at_def)
  have fr: "k_ofile t = k_ofile s" "k_tasks t = k_tasks s" "k_task t = k_task s" "length (k_ftable t) = NFILE" "refs_to t = refs_to s" "k_sockets t = si # k_sockets s"
    "k_live t = k_live s" "k_bad t = k_bad s" "k_pipes t = k_pipes s" "k_pdata t = k_pdata s"
    using l by (simp_all add: t) (simp add: refs_to_def fun_eq_iff)
  have pf: "pipe_file t = pipe_file s" using n f by (auto simp: fun_eq_iff pipe_file_def live_file_def fa split: if_splits)
  have sf: "sock_file t q S \<longleftrightarrow> sock_file s q S \<or> q = p \<and> S = si" for q S
    using n f by (cases "0 < q") (auto simp: sock_file_def live_file_def fa)
  have P: "own si = Pending" "si \<in> set (k_live s)" using own(3) X by (auto simp: owned_def)
  define own' where "own' = own(si := Sock_of p)"
  have "pipes_ok own' t" using own(1) P unfolding pipes_ok_def pf fr own'_def by fastforce
  moreover have "si \<notin> set (k_sockets s)" using own(2) P(1) by (force simp: socks_ok_def)
  then have "socks_ok own' t" using own(2) P unfolding socks_ok_def sf fr own'_def by fastforce
  moreover have "owned own' (X - {si}) t"
    unfolding owned_def pf sf fr
  proof (intro conjI ballI)
    fix a assume a: "a \<in> set (k_live s)"
    from owned_cases [OF own(3) a]
    show "case own' a of Pipe_obj \<Rightarrow> \<exists>p w. pipe_file s p a w | Page_of P \<Rightarrow> (\<exists>p w. pipe_file s p P w) \<and> k_pdata s P = a
        | Sock_of q \<Rightarrow> sock_file s q a \<or> q = p \<and> a = si | Pending \<Rightarrow> a \<in> X - {si}"
      by (cases "own a"; cases "a = si") (auto simp: own'_def)
  qed (use own(3) in \<open>auto simp: owned_def own'_def\<close>)
  moreover have "refs_inv e t" using I'(1) n fr(4) unfolding refs_inv_def fr by (auto simp: fa)
  moreover have "typed (U - {p}) t" using I'(2) n unfolding typed_def by (auto simp: fa)
  ultimately show ?thesis using own(4) fr(8) by (auto simp: files_inv_def objs_ok_def)
qed

end
