(* ===== verification/Files_calls.thy ===== *)
theory Files_calls
  imports Files_inv
begin

text \<open>
  The system calls keep the invariants of theory Files\_inv, and so does every history of calls of any number of
  tasks.
\<close>

section \<open>System calls\<close>

abbreviation quiet :: "ker \<Rightarrow> bool" where
  "quiet s \<equiv> files_inv (\<lambda>_. 0) {} {} s"

text \<open>A file that a descriptor refers to is live and set up.\<close>

lemma refs_to_pos: "t \<in> set (k_tasks s) \<Longrightarrow> p \<in> set (k_ofile s t) \<Longrightarrow> refs_to s p > 0"
proof -
  assume "t \<in> set (k_tasks s)" "p \<in> set (k_ofile s t)"
  then have "count_list (k_ofile s t) p \<noteq> 0" "count_list (k_ofile s t) p \<le> refs_to s p"
    by (auto simp: refs_to_def count_list_0_iff intro: member_le_sum_list)
  then show ?thesis by linarith
qed

lemma open_live:
  assumes "files_inv e U X s" "t \<in> set (k_tasks s)" "fd < NOFILE" "p = k_ofile s t ! fd" "p \<noteq> 0" "e p = 0"
  shows "live_file s p"
proof -
  have "p \<in> set (k_ofile s t)" using assms by (auto simp: files_inv_def refs_inv_def)
  then have "0 < refs_to s p" "p \<le> NFILE" using refs_to_pos assms by (auto simp: files_inv_def refs_inv_def)
  then show ?thesis using assms by (auto simp: live_file_def files_inv_def refs_inv_def)
qed

lemma cur_file_trip: "0 \<le> fd \<Longrightarrow> fd < int NOFILE \<Longrightarrow> trip F P (cur_file fd) (\<lambda>p s. P s \<and> p = k_ofile s (k_task s) ! nat fd)"
  by (simp add: cur_file_def trip_get)

lemma fdalloc_inv:
  assumes "0 < p" "p \<le> NFILE"
  shows "trip (- table_faults) (files_inv e U X) (fdalloc p)
     (\<lambda>fd s. if fd < 0 then files_inv e U X s else fd < int NOFILE \<and> k_ofile s (k_task s) ! nat fd = p \<and> files_inv (e(p := e p - 1)) U X s)"
proof (rule tripI)
  fix s fd t assume I: "files_inv e U X s" and r: "fdalloc p s = Some (Inr (fd, t))"
  show "if fd < 0 then files_inv e U X t else fd < int NOFILE \<and> k_ofile t (k_task t) ! nat fd = p \<and> files_inv (e(p := e p - 1)) U X t"
  proof (cases "find (\<lambda>fd. k_ofile s (k_task s) ! fd = 0) [0..<NOFILE]")
    case (Some i)
    have i: "i < NOFILE" "k_ofile s (k_task s) ! i = 0" using find_upt_Some [OF Some] by auto
    have t: "fd = int i" "t = set_ofile (k_task s) i p s" using r Some by (auto simp: fdalloc_def)
    have k: "k_task s \<in> set (k_tasks s)" "length (k_ofile s (k_task s)) = NOFILE" using I by (auto simp: files_inv_def refs_inv_def)
    have j: "files_inv (\<lambda>q. e q + (if k_ofile s (k_task s) ! i = q then 1 else 0) - (if p = q then 1 else 0)) U X t"
      unfolding t(2) by (rule set_ofile_inv [OF I k(1) i(1) assms(2)])
    have "refs_inv (\<lambda>q. e q + (if k_ofile s (k_task s) ! i = q then 1 else 0) - (if p = q then 1 else 0)) t = refs_inv (e(p := e p - 1)) t"
      unfolding refs_inv_def i(2) by auto
    then have "files_inv (e(p := e p - 1)) U X t" using j by (simp add: files_inv_def)
    then show ?thesis using t i k by (simp add: set_ofile_def)
  qed (use I r in \<open>simp add: fdalloc_def\<close>)
qed (auto simp: fdalloc_def split: option.splits)

lemma clear_slot_inv:
  assumes "files_inv e U X s" "fd < NOFILE" "k_ofile s (k_task s) ! fd = p" "p \<noteq> 0"
  shows "files_inv (e(p := e p + 1)) U X (set_ofile (k_task s) fd 0 s)"
proof -
  have k: "k_task s \<in> set (k_tasks s)" using assms(1) by (auto simp: files_inv_def refs_inv_def)
  have j: "files_inv (\<lambda>q. e q + (if p = q then 1 else 0) - (if 0 = q then 1 else 0)) U X (set_ofile (k_task s) fd 0 s)"
    using set_ofile_inv [OF assms(1) k assms(2), of 0] assms(3) by simp
  have "refs_inv (\<lambda>q. e q + (if p = q then 1 else 0) - (if 0 = q then 1 else 0)) (set_ofile (k_task s) fd 0 s) = refs_inv (e(p := e p + 1)) (set_ofile (k_task s) fd 0 s)"
    unfolding refs_inv_def using assms(4) by auto
  then show ?thesis using j by (simp add: files_inv_def)
qed

lemma sys_close_inv:
  assumes fd: "0 \<le> fd" "fd < int NOFILE"
  shows "trip (- table_faults) quiet (sys_close fd) (\<lambda>_. quiet)"
  unfolding sys_close_def
proof (rule trip_bind [OF cur_file_trip [OF fd]], rule trip_if)
  fix p :: nat assume p: "\<not> p = 0"
  show "trip (- table_faults) (\<lambda>s. quiet s \<and> p = k_ofile s (k_task s) ! nat fd)
      (thenC (modC (\<lambda>s. set_ofile (k_task s) (nat fd) 0 s)) (thenC (fileclose p) (retC 0))) (\<lambda>_. quiet)"
  proof (rule trip_then [OF trip_mod [where Q = "\<lambda>_ s. files_inv ((\<lambda>_. 0)(p := 1)) {} {} s \<and> live_file s p"]])
    fix s assume s: "quiet s \<and> p = k_ofile s (k_task s) ! nat fd"
    have "nat fd < NOFILE" "k_task s \<in> set (k_tasks s)" using fd s by (auto simp: files_inv_def refs_inv_def)
    then have "live_file s p" using open_live s p by blast
    moreover have "files_inv ((\<lambda>_. 0)(p := 1)) {} {} (set_ofile (k_task s) (nat fd) 0 s)"
      using clear_slot_inv [of "\<lambda>_. 0" _ _ s "nat fd" p] s p fd by simp
    ultimately show "files_inv ((\<lambda>_. 0)(p := 1)) {} {} (set_ofile (k_task s) (nat fd) 0 s) \<and> live_file (set_ofile (k_task s) (nat fd) 0 s) p"
      by (simp add: live_file_def)
  next
    have "((\<lambda>_. 0)(p := 1))(p := ((\<lambda>_. 0)(p := 1)) p - 1) = (\<lambda>_. 0 :: int)" by auto
    then show "trip (- table_faults) (\<lambda>s. files_inv ((\<lambda>_. 0)(p := 1)) {} {} s \<and> live_file s p) (thenC (fileclose p) (retC 0)) (\<lambda>_. quiet)"
      using fileclose_inv [of "(\<lambda>_. 0)(p := 1)" "{}" "{}" p] by (intro trip_then [OF _ trip_ret]) simp_all
  qed
qed (auto intro: trip_ret)

lemma upd_const [simp]: "(\<lambda>_. c)(x := c) = (\<lambda>_. c)"
  by auto

lemma trip_False [simp]: "trip F (\<lambda>_. False) m Q"
  by (simp add: trip_def)

lemma trip_conj: "trip F P m Q \<Longrightarrow> trip G P' m Q' \<Longrightarrow> trip F (\<lambda>s. P s \<and> P' s) m (\<lambda>x s. Q x s \<and> Q' x s)"
  by (intro tripI) (auto dest: trip_fault tripD)

lemma live_by_count: "files_inv e U X s \<Longrightarrow> 0 < p \<Longrightarrow> p \<le> NFILE \<Longrightarrow> 1 \<le> e p \<Longrightarrow> live_file s p"
  by (auto simp: files_inv_def refs_inv_def live_file_def)

lemma fileclose_held:
  "0 < p \<Longrightarrow> p \<le> NFILE \<Longrightarrow> 1 \<le> e p \<Longrightarrow> trip (- table_faults) (files_inv e U X) (fileclose p) (\<lambda>_. files_inv (e(p := e p - 1)) (U - {p}) X)"
  by (rule trip_pre [OF fileclose_inv]) (auto intro: live_by_count)

lemma fdalloc_live: "trip (- table_faults) (\<lambda>s. live_file s p) (fdalloc q) (\<lambda>_ s. live_file s p)"
  by (rule tripI) (auto simp: fdalloc_def live_file_def split: option.splits)

text \<open>The allocations as rules: one premise per outcome.\<close>

lemma filealloc_rule:
  assumes "trip (- table_faults) (files_inv e U X) (k 0) Q"
    "\<And>p. 0 < p \<Longrightarrow> p \<le> NFILE \<Longrightarrow> p \<notin> U \<Longrightarrow> trip (- table_faults) (files_inv (e(p := e p + 1)) (insert p U) X) (k p) Q"
  shows "trip (- table_faults) (files_inv e U X) (bindC filealloc k) Q"
proof (rule trip_bind [OF filealloc_inv])
  fix p show "trip (- table_faults) (\<lambda>s. if p = 0 then files_inv e U X s else p \<le> NFILE \<and> p \<notin> U \<and> files_inv (e(p := e p + 1)) (insert p U) X s) (k p) Q"
    using assms by (cases "p = 0") (auto intro!: trip_imp)
qed

lemma k_alloc_rule:
  assumes "trip (- table_faults) (files_inv e U X) (k 0) Q"
    "\<And>a. a \<noteq> 0 \<Longrightarrow> a \<notin> X \<Longrightarrow> trip (- table_faults) (files_inv e U (insert a X)) (k a) Q"
  shows "trip (- table_faults) (files_inv e U X) (bindC k_alloc k) Q"
proof (rule trip_bind [OF k_alloc_inv])
  fix a show "trip (- table_faults) (\<lambda>s. if a = 0 then files_inv e U X s else a \<notin> X \<and> files_inv e U (insert a X) s) (k a) Q"
    using assms by (cases "a = 0") (auto intro!: trip_imp)
qed

lemma filealloc_if:
  assumes "trip (- table_faults) (files_inv e U X) (kz 0) Q"
    "\<And>p. 0 < p \<Longrightarrow> p \<le> NFILE \<Longrightarrow> p \<notin> U \<Longrightarrow> trip (- table_faults) (files_inv (e(p := e p + 1)) (insert p U) X) (k p) Q"
  shows "trip (- table_faults) (files_inv e U X) (bindC filealloc (\<lambda>p. if p = 0 then kz p else k p)) Q"
  by (rule filealloc_rule) (use assms in simp_all)

lemma k_alloc_if:
  assumes "trip (- table_faults) (files_inv e U X) (kz 0) Q"
    "\<And>a. a \<noteq> 0 \<Longrightarrow> a \<notin> X \<Longrightarrow> trip (- table_faults) (files_inv e U (insert a X)) (k a) Q"
  shows "trip (- table_faults) (files_inv e U X) (bindC k_alloc (\<lambda>a. if a = 0 then kz a else k a)) Q"
  by (rule k_alloc_rule) (use assms in simp_all)

lemma fdalloc_rule:
  assumes p: "0 < p" "p \<le> NFILE" and R: "\<And>s fd. R s \<Longrightarrow> k_ofile s (k_task s) ! fd = 0 \<Longrightarrow> R (set_ofile (k_task s) fd p s)"
    and k: "\<And>fd. fd < 0 \<Longrightarrow> trip (- table_faults) (\<lambda>s. R s \<and> files_inv e U X s) (k fd) Q"
    "\<And>fd. 0 \<le> fd \<Longrightarrow> fd < int NOFILE \<Longrightarrow>
      trip (- table_faults) (\<lambda>s. R s \<and> k_ofile s (k_task s) ! nat fd = p \<and> files_inv (e(p := e p - 1)) U X s) (k fd) Q"
  shows "trip (- table_faults) (\<lambda>s. R s \<and> files_inv e U X s) (bindC (fdalloc p) k) Q"
proof (rule trip_bind [OF trip_conj [OF _ fdalloc_inv [OF p, of e U X]]])
  show "trip (- table_faults) R (fdalloc p) (\<lambda>_. R)"
    by (rule tripI) (auto simp: fdalloc_def intro: R dest!: find_upt_Some split: option.splits)
  fix fd show "trip (- table_faults) (\<lambda>s. R s \<and> (if fd < 0 then files_inv e U X s
      else fd < int NOFILE \<and> k_ofile s (k_task s) ! nat fd = p \<and> files_inv (e(p := e p - 1)) U X s)) (k fd) Q"
  proof (cases "fd < 0 \<or> \<not> fd < int NOFILE")
    case True
    then show ?thesis using k(1) [of fd] by (cases "fd < 0") (auto simp: trip_def)
  next
    case False
    then show ?thesis using k(2) [of fd] by (intro trip_pre [OF k(2)]) auto
  qed
qed

lemma fileclose_then:
  assumes "0 < p" "p \<le> NFILE" "1 \<le> e p" "e' = e(p := e p - 1)" "U' = U - {p}" "trip (- table_faults) (files_inv e' U' X) k Q"
  shows "trip (- table_faults) (files_inv e U X) (thenC (fileclose p) k) Q"
  using trip_then [OF fileclose_held [where e = e, OF assms(1-3)]] assms(4-6) by simp

lemma k_free_then:
  assumes "a \<in> X" "X' = X - {a}" "trip (- table_faults) (files_inv e U X') k Q"
  shows "trip (- table_faults) (files_inv e U X) (thenC (k_free a) k) Q"
proof (rule trip_then)
  show "trip (- table_faults) (files_inv e U X) (k_free a) (\<lambda>_. files_inv e U X')"
    by (rule trip_weaken [OF k_free_inv [of e U X a]]) (use assms in auto)
qed (rule assms(3))

lemma sys_dup_inv:
  assumes fd: "0 \<le> fd" "fd < int NOFILE"
  shows "trip (- table_faults) (\<lambda>s. quiet s \<and> k_ofile s (k_task s) ! nat fd \<noteq> 0) (sys_dup fd) (\<lambda>_. quiet)"
  unfolding sys_dup_def
proof (rule trip_bind [OF trip_post [OF cur_file_trip [OF fd], where Q' = "\<lambda>p s. p \<noteq> 0 \<and> p \<le> NFILE \<and> live_file s p \<and> quiet s"]])
  fix p s assume s: "(quiet s \<and> k_ofile s (k_task s) ! nat fd \<noteq> 0) \<and> p = k_ofile s (k_task s) ! nat fd"
  have "nat fd < NOFILE" "k_task s \<in> set (k_tasks s)" using fd s by (auto simp: files_inv_def refs_inv_def)
  then have "live_file s p" using open_live s by blast
  then show "p \<noteq> 0 \<and> p \<le> NFILE \<and> live_file s p \<and> quiet s" using s by (simp add: live_file_def)
next
  fix p :: nat
  have z: "((\<lambda>_. 0)(p := 0 - 1))(p := ((\<lambda>_. 0)(p := 0 - 1)) p + 1) = (\<lambda>_. 0 :: int)" by auto
  show "trip (- table_faults) (\<lambda>s. p \<noteq> 0 \<and> p \<le> NFILE \<and> live_file s p \<and> quiet s)
     (bindC (fdalloc p) (\<lambda>newfd. if newfd < 0 then retC (-1) else thenC (filedup p) (retC newfd))) (\<lambda>_. quiet)"
    using filedup_inv [of "(\<lambda>_. 0)(p := 0 - 1)" "{}" "{}" p] unfolding z
    by (intro trip_imp fdalloc_rule trip_if trip_then [where R = quiet] trip_ret) (auto simp: live_file_def elim!: trip_weaken)
qed

lemma pipealloc_inv:
  "trip (- table_faults) quiet (pipealloc page)
     (\<lambda>(r, f0, f1) s. if r < 0 then quiet s
        else 0 < f0 \<and> f0 \<le> NFILE \<and> 0 < f1 \<and> f1 \<le> NFILE \<and> f0 \<noteq> f1 \<and> files_inv ((\<lambda>_. 0)(f0 := 1, f1 := 1)) {} {} s)"
  (is "trip _ _ _ ?Q")
proof -
  define Q where "Q = ?Q"
  have Q: "Q (-1, f0, f1) s = quiet s" "Q (0, f0, f1) s = (0 < f0 \<and> f0 \<le> NFILE \<and> 0 < f1 \<and> f1 \<le> NFILE \<and> f0 \<noteq> f1 \<and> files_inv ((\<lambda>_. 0)(f0 := 1, f1 := 1)) {} {} s)" for f0 f1 s
    by (simp_all add: Q_def)
  define bad where "bad = (\<lambda>pi f0 f1 pg. thenC (if pi \<noteq> 0 then k_free pi else retC ())
            (thenC (if f0 \<noteq> 0 then fileclose f0 else retC ())
            (thenC (if f1 \<noteq> 0 then fileclose f1 else retC ())
            (thenC (if pg \<noteq> 0 then k_free pg else retC ())
            (retC (-1 :: int, f0, f1))))))"
  have end1: "trip (- table_faults) quiet (retC (-1 :: int, f0, f1)) Q" for f0 f1 by (auto simp: Q intro!: trip_ret)
  have end0: "trip (- table_faults) quiet (thenC (retC ()) (retC (-1 :: int, f0, f1))) Q" for f0 f1 by (rule trip_then [OF trip_ret end1])
  have then_ret: "trip F P k Q \<Longrightarrow> trip F P (thenC (retC ()) k) Q" for F P k Q by (rule trip_then [OF trip_ret])
  have b0: "trip (- table_faults) quiet (bad 0 0 0 0) Q"
    unfolding bad_def by (simp only: simp_thms if_False) (intro then_ret end0)
  have b1: "trip (- table_faults) (files_inv ((\<lambda>_. 0)(f0 := 1)) {f0} {}) (bad 0 f0 0 0) Q" if "0 < f0" "f0 \<le> NFILE" for f0
  proof -
    have "trip (- table_faults) (files_inv ((\<lambda>_. 0)(f0 := 1)) {f0} {}) (thenC (fileclose f0) (thenC (retC ()) (thenC (retC ()) (retC (-1 :: int, f0, 0))))) Q"
      using that by (intro fileclose_then [where e' = "\<lambda>_. 0" and U' = "{}"] then_ret end1) auto
    moreover have "bad 0 f0 0 0 = thenC (retC ()) (thenC (fileclose f0) (thenC (retC ()) (thenC (retC ()) (retC (-1 :: int, f0, 0)))))"
      using that by (simp add: bad_def)
    ultimately show ?thesis by (simp only: then_ret)
  qed
  have b2: "trip (- table_faults) (files_inv ((\<lambda>_. 0)(f0 := 1, f1 := 1)) {f0, f1} X) (bad pi f0 f1 0) Q"
    if f: "0 < f0" "f0 \<le> NFILE" "0 < f1" "f1 \<le> NFILE" "f0 \<noteq> f1" "X = (if pi = 0 then {} else {pi})" for pi f0 f1 X
  proof -
    have "trip (- table_faults) (files_inv ((\<lambda>_. 0)(f0 := 1, f1 := 1)) {f0, f1} {})
        (thenC (fileclose f0) (thenC (fileclose f1) (thenC (retC ()) (retC (-1 :: int, f0, f1))))) Q"
      using f by (intro fileclose_then [where e' = "\<lambda>_. 0" and U' = "{}"] fileclose_then [where e' = "(\<lambda>_. 0)(f1 := 1)" and U' = "{f1}"] end0) auto
    then show ?thesis unfolding bad_def using f
      by (cases "pi = 0") (auto intro!: k_free_then [where X' = "{}"] then_ret)
  qed
  have mk: "trip (- table_faults) (files_inv ((\<lambda>_. 0)(f0 := 1, f1 := 1)) {f0, f1} {pg, pi})
     (thenC (modC (\<lambda>s. s\<lparr>k_pipes := (k_pipes s)(pi := new_pipe page), k_pdata := (k_pdata s)(pi := pg)\<rparr>))
     (thenC (modC (upd_file f0 (\<lambda>f. f\<lparr>f_type := FD_PIPE, f_readable := True, f_writable := False, f_pipe := pi\<rparr>)))
     (thenC (modC (upd_file f1 (\<lambda>f. f\<lparr>f_type := FD_PIPE, f_readable := False, f_writable := True, f_pipe := pi\<rparr>)))
     (retC (0 :: int, f0, f1))))) Q"
    if f: "0 < f0" "f0 \<le> NFILE" "0 < f1" "f1 \<le> NFILE" "f0 \<noteq> f1" "pi \<noteq> pg" for pi pg f0 f1
    using f make_pipe_inv [of "(\<lambda>_. 0)(f0 := 1, f1 := 1)" "{f0, f1}" "{pg, pi}" _ f0 f1 pi pg _ page]
    by (auto simp: trip_def retC_def Q)
  have e2: "((\<lambda>_. 0)(f0 := (0 :: int) + 1))(f1 := ((\<lambda>_. 0)(f0 := 0 + 1)) f1 + 1) = (\<lambda>_. 0)(f0 := 1, f1 := 1)" if "f1 \<notin> {f0}" for f0 f1 :: nat
    using that by auto
  show ?thesis
    unfolding pipealloc_def Let_def bad_def [symmetric] Q_def [symmetric]
  proof (intro filealloc_if k_alloc_if, goal_cases)
    case 1
    show ?case using b0 by simp
  next
    case (2 f0)
    then show ?case using b1 [of f0] by simp
  next
    case (3 f0 f1)
    then show ?case using b2 [of f0 f1 "{}" 0] e2 [of f1 f0] by (simp add: insert_commute)
  next
    case (4 f0 f1 pi)
    then show ?case using b2 [of f0 f1 "{pi}" pi] e2 [of f1 f0] by (simp add: insert_commute)
  next
    case (5 f0 f1 pi pg)
    then show ?case using mk [of f0 f1 pi pg] e2 [of f1 f0] by (simp add: insert_commute)
  qed
qed

text \<open>A slot is cleared, which gives the file a reference that is in no table.\<close>

lemma clear_then:
  assumes "fd < NOFILE" "p \<noteq> 0" "e' = e(p := e p + 1)" "\<And>s. R s \<Longrightarrow> R' (set_ofile (k_task s) fd 0 s)" "trip F (\<lambda>s. R' s \<and> files_inv e' U X s) k Q"
  shows "trip F (\<lambda>s. R s \<and> k_ofile s (k_task s) ! fd = p \<and> files_inv e U X s) (thenC (modC (\<lambda>s. set_ofile (k_task s) fd 0 s)) k) Q"
  using clear_slot_inv [of e U X _ fd p] assms by (intro trip_then [OF trip_mod assms(5)]) auto

lemma pipe_fds_inv:
  assumes f: "0 < f0" "f0 \<le> NFILE" "0 < f1" "f1 \<le> NFILE" "f0 \<noteq> f1"
  shows "trip (- table_faults) (files_inv ((\<lambda>_. 0)(f0 := 1, f1 := 1)) {} {}) (pipe_fds cout fd f0 f1 d) (\<lambda>_. quiet)"
proof -
  have close: "trip (- table_faults) (files_inv ((\<lambda>_. 0)(f0 := 1, f1 := 1)) {} {}) (thenC (fileclose f0) (thenC (fileclose f1) (retC v))) (\<lambda>_. quiet)" for v :: "int \<times> 'a"
    using f by (intro fileclose_then [where e' = "\<lambda>_. 0" and U' = "{}"] fileclose_then [where e' = "(\<lambda>_. 0)(f1 := 1)" and U' = "{}"] trip_ret) auto
  have one: "(\<lambda>_. 0 :: int)(f0 := 1, f1 := 1) = ((\<lambda>_. 0)(f1 := 1))(f0 := ((\<lambda>_. 0)(f1 := 1)) f0 + 1)" "((\<lambda>_. 0 :: int)(f0 := 1, f1 := 1))(f0 := ((\<lambda>_. 0)(f0 := 1, f1 := 1)) f0 - 1) = (\<lambda>_. 0)(f1 := 1)"
    "((\<lambda>_. 0 :: int)(f1 := 1))(f1 := ((\<lambda>_. 0)(f1 := 1)) f1 - 1) = (\<lambda>_. 0)" using f(5) by auto
  have back1: "trip (- table_faults) (\<lambda>s. True \<and> k_ofile s (k_task s) ! nat fd0 = f0 \<and> files_inv ((\<lambda>_. 0)(f1 := 1)) {} {} s)
     (thenC (modC (\<lambda>s. set_ofile (k_task s) (nat fd0) 0 s)) (thenC (fileclose f0) (thenC (fileclose f1) (retC v)))) (\<lambda>_. quiet)"
    if "0 \<le> fd0" "fd0 < int NOFILE" for fd0 and v :: "int \<times> 'a"
    by (rule clear_then [where R' = "\<lambda>_. True", OF _ _ one(1)]) (use that f close in auto)
  have back2: "trip (- table_faults) (\<lambda>s. k_ofile s (k_task s) ! nat fd1 = f1 \<and> k_ofile s (k_task s) ! nat fd0 = f0 \<and> quiet s)
     (thenC (modC (\<lambda>s. set_ofile (k_task s) (nat fd0) 0 s)) (thenC (modC (\<lambda>s. set_ofile (k_task s) (nat fd1) 0 s))
       (thenC (fileclose f0) (thenC (fileclose f1) (retC v))))) (\<lambda>_. quiet)"
    if "0 \<le> fd0" "fd0 < int NOFILE" "0 \<le> fd1" "fd1 < int NOFILE" "fd0 \<noteq> fd1" for fd0 fd1 and v :: "int \<times> 'a"
  proof (rule clear_then [where R' = "\<lambda>s. True \<and> k_ofile s (k_task s) ! nat fd1 = f1" and e' = "(\<lambda>_. 0)(f0 := 1)"])
    have "trip (- table_faults) (\<lambda>s. True \<and> k_ofile s (k_task s) ! nat fd1 = f1 \<and> files_inv ((\<lambda>_. 0)(f0 := 1)) {} {} s)
       (thenC (modC (\<lambda>s. set_ofile (k_task s) (nat fd1) 0 s)) (thenC (fileclose f0) (thenC (fileclose f1) (retC v)))) (\<lambda>_. quiet)"
      by (rule clear_then [where R' = "\<lambda>_. True" and e' = "(\<lambda>_. 0)(f0 := 1, f1 := 1)"]) (use that f close in auto)
    then show "trip (- table_faults) (\<lambda>s. (True \<and> k_ofile s (k_task s) ! nat fd1 = f1) \<and> files_inv ((\<lambda>_. 0)(f0 := 1)) {} {} s)
       (thenC (modC (\<lambda>s. set_ofile (k_task s) (nat fd1) 0 s)) (thenC (fileclose f0) (thenC (fileclose f1) (retC v)))) (\<lambda>_. quiet)" by simp
  qed (use that f in \<open>auto simp: set_ofile_def nth_list_update\<close>)
  show ?thesis
    unfolding pipe_fds_def
  proof (rule trip_pre [OF fdalloc_rule [OF f(1,2), where R = "\<lambda>_. True" and e = "(\<lambda>_. 0)(f0 := 1, f1 := 1)" and U = "{}" and X = "{}"]], goal_cases)
    case (3 fd0)
    note fd0 = 3
    show ?case
      unfolding one(2)
    proof (rule trip_if, goal_cases)
      case 2
      show ?case
      proof (rule trip_pre [OF fdalloc_rule [OF f(3,4), where R = "\<lambda>s. k_ofile s (k_task s) ! nat fd0 = f0" and e = "(\<lambda>_. 0)(f1 := 1)" and U = "{}" and X = "{}"]], goal_cases)
        case (1 s fd)
        then show ?case using f by (cases "fd = nat fd0") (auto simp: set_ofile_def)
      next
        case (2 fd1)
        then show ?case using back1 [OF fd0] by simp
      next
        case (3 fd1)
        note fd1 = 3
        show ?case
        proof (cases "fd0 = fd1")
          case True
          then show ?thesis using f(5) by (auto simp: trip_def)
        next
          case False
          have "trip (- table_faults) (\<lambda>s. k_ofile s (k_task s) ! nat fd0 = f0 \<and> k_ofile s (k_task s) ! nat fd1 = f1 \<and> quiet s)
             (thenC (modC (\<lambda>s. set_ofile (k_task s) (nat fd0) 0 s)) (thenC (modC (\<lambda>s. set_ofile (k_task s) (nat fd1) 0 s))
               (thenC (fileclose f0) (thenC (fileclose f1) (retC v))))) (\<lambda>_. quiet)" for v :: "int \<times> 'a"
            by (rule trip_pre [OF back2 [OF fd0 fd1 False]]) simp
          then show ?thesis unfolding one(3) using fd1
            by (auto simp: Let_def intro!: trip_ret split: prod.splits)
        qed
      qed simp
    qed (use fd0 in simp)
  qed (use close in auto)
qed

lemma sys_pipe_inv: "trip (- table_faults) quiet (sys_pipe cout page fd d) (\<lambda>_. quiet)"
  unfolding sys_pipe_def
proof (rule trip_bind [OF pipealloc_inv], rule trip_prod, rule trip_prod, goal_cases)
  case (1 x r y f0 f1)
  then show ?case using pipe_fds_inv [of f0 f1 cout fd d] by (auto simp: trip_def retC_def)
qed

subsection \<open>Sockets\<close>

lemma sock_used_upd:
  "si \<notin> set (k_sockets s) \<Longrightarrow> k_sockets t = k_sockets s \<Longrightarrow> k_sock t = (k_sock s)(si := v) \<Longrightarrow> sock_used ra lp rp t = sock_used ra lp rp s"
  by (auto simp: sock_used_def list_ex_iff)

lemma sock_setup_inv:
  assumes p: "0 < p" "p \<le> NFILE" "si \<noteq> 0"
  shows "trip (- table_faults) (\<lambda>s. files_inv ((\<lambda>_. 0)(p := 1)) {p} {si} s \<and> \<not> sock_used ra lp rp s) (sock_setup ra lp rp p si)
     (\<lambda>(r, q) s. r = 0 \<and> q = p \<and> files_inv ((\<lambda>_. 0)(p := 1)) {} {} s)"
proof (rule tripI)
  fix s x t
  assume "files_inv ((\<lambda>_. 0)(p := 1)) {p} {si} s \<and> \<not> sock_used ra lp rp s"
  then have I: "files_inv ((\<lambda>_. 0)(p := 1)) {p} {si} s" and n: "\<not> sock_used ra lp rp s" by auto
  have "si \<notin> set (k_sockets s)"
    using I by (auto simp: files_inv_def objs_ok_def socks_ok_def owned_def)
  then have u: "\<not> sock_used ra lp rp (upd_file p g (s\<lparr>k_sock := (k_sock s)(si := v)\<rparr>))" for g v
    using n sock_used_upd [of si s "upd_file p g (s\<lparr>k_sock := (k_sock s)(si := v)\<rparr>)" v] by (simp add: upd_file_def)
  assume "sock_setup ra lp rp p si s = Some (Inr (x, t))"
  then have t: "x = (0, p)" "t = upd_file p (\<lambda>f. f\<lparr>f_type := FD_SOCK, f_readable := True, f_writable := True, f_sock := si\<rparr>)
      (s\<lparr>k_sock := (k_sock s)(si := \<lparr>raddr = ra, lport = lp, rport = rp, rxq = []\<rparr>), k_sockets := si # k_sockets s\<rparr>)"
    using u by (auto simp: sock_setup_def retC_def) (auto simp: upd_file_def file_at_def)
  show "(case x of (r, q) \<Rightarrow> \<lambda>s. r = 0 \<and> q = p \<and> files_inv ((\<lambda>_. 0)(p := 1)) {} {} s) t"
    using make_sock_inv [OF I _ p(1,2) _ t(2)] t(1) by simp
next
  fix s e
  assume I: "files_inv ((\<lambda>_. 0)(p := 1)) {p} {si} s \<and> \<not> sock_used ra lp rp s" and r: "sock_setup ra lp rp p si s = Some (Inl e)"
  have "si \<notin> set (k_sockets s)" using I by (auto simp: files_inv_def objs_ok_def socks_ok_def owned_def)
  then have "\<not> sock_used ra lp rp (upd_file p g (s\<lparr>k_sock := (k_sock s)(si := v)\<rparr>))" for g v
    using I sock_used_upd [of si s "upd_file p g (s\<lparr>k_sock := (k_sock s)(si := v)\<rparr>)" v] by (simp add: upd_file_def)
  then show "e \<in> - table_faults" using r by (simp add: sock_setup_def retC_def)
qed

text \<open>The allocator has no memory for the next object.\<close>

definition no_mem :: "ker \<Rightarrow> bool" where
  "no_mem s \<longleftrightarrow> (case k_mem s of [] \<Rightarrow> True | a # as \<Rightarrow> a = 0 \<or> a \<in> set (k_live s))"

lemma sys_connect_inv:
  "trip (- table_faults) (\<lambda>s. quiet s \<and> (sock_used ra lp rp s \<longrightarrow> no_mem s)) (sys_connect ra lp rp) (\<lambda>_. quiet)"
proof -
  have fa: "trip (- table_faults) (\<lambda>s. sock_used ra lp rp s \<longrightarrow> no_mem s) filealloc (\<lambda>_ s. sock_used ra lp rp s \<longrightarrow> no_mem s)"
    by (rule tripI) (auto simp: filealloc_def sock_used_def no_mem_def upd_file_def split: option.splits list.splits)
  have ka: "trip (- table_faults) (\<lambda>s. sock_used ra lp rp s \<longrightarrow> no_mem s) k_alloc (\<lambda>si s. si \<noteq> 0 \<longrightarrow> \<not> sock_used ra lp rp s)"
    by (rule tripI) (auto simp: k_alloc_def sock_used_def no_mem_def split: list.splits if_splits)
  have held: "trip (- table_faults) (files_inv ((\<lambda>_. 0)(p := 1)) U {}) (thenC (fileclose p) (retC v)) (\<lambda>x s. x = v \<and> quiet s)"
    if "0 < p" "p \<le> NFILE" "U - {p} = {}" for p U and v :: 'v
    by (rule fileclose_then [where e' = "\<lambda>_. 0" and U' = "{}"]) (use that in \<open>auto intro: trip_ret\<close>)
  have al: "trip (- table_faults) (\<lambda>s. quiet s \<and> (sock_used ra lp rp s \<longrightarrow> no_mem s)) (sockalloc ra lp rp)
     (\<lambda>(r, p) s. if r < 0 then quiet s else 0 < p \<and> p \<le> NFILE \<and> files_inv ((\<lambda>_. 0)(p := 1)) {} {} s)"
    unfolding sockalloc_def
  proof (rule trip_bind [OF trip_conj [OF filealloc_inv fa]], rule trip_if, goal_cases)
    case (1 p)
    then show ?case by (auto intro: trip_ret)
  next
    case (2 p)
    show ?case
    proof (cases "p \<le> NFILE")
      case True
      have "trip (- table_faults) (\<lambda>s. files_inv ((\<lambda>_. 0)(p := 1)) {p} {} s \<and> (sock_used ra lp rp s \<longrightarrow> no_mem s))
        (bindC k_alloc (\<lambda>si. if si = 0 then thenC (fileclose p) (retC (-1, p)) else sock_setup ra lp rp p si))
        (\<lambda>(r, p) s. if r < 0 then quiet s else 0 < p \<and> p \<le> NFILE \<and> files_inv ((\<lambda>_. 0)(p := 1)) {} {} s)"
      proof (rule trip_bind [OF trip_conj [OF k_alloc_inv ka]], rule trip_if, goal_cases)
        case (1 si)
        then show ?case using True 2 by (auto intro!: trip_weaken [OF held [of p "{p}" "(-1, p)"]])
      next
        case (2 si)
        then show ?case using sock_setup_inv [of p si ra lp rp] True \<open>\<not> p = 0\<close> by (auto elim!: trip_weaken)
      qed
      then show ?thesis by (rule trip_pre) (use 2 in simp)
    qed (use 2 in \<open>auto simp: trip_def\<close>)
  qed
  show ?thesis
    unfolding sys_connect_def
  proof (rule trip_bind [OF al], rule trip_prod, rule trip_if, goal_cases)
    case (1 x r p)
    then show ?case by (auto intro: trip_ret)
  next
    case (2 x r p)
    have "trip (- table_faults) (files_inv ((\<lambda>_. 0)(p := 1)) {} {}) (bindC (fdalloc p) (\<lambda>fd. if fd < 0 then thenC (fileclose p) (retC (-1)) else retC fd)) (\<lambda>_. quiet)"
      if p: "0 < p" "p \<le> NFILE"
    proof (rule trip_pre)
      have e: "((\<lambda>_. 0 :: int)(p := 1))(p := ((\<lambda>_. 0)(p := 1)) p - 1) = (\<lambda>_. 0)" by auto
      show "trip (- table_faults) (\<lambda>s. True \<and> files_inv ((\<lambda>_. 0)(p := 1)) {} {} s)
        (bindC (fdalloc p) (\<lambda>fd. if fd < 0 then thenC (fileclose p) (retC (-1)) else retC fd)) (\<lambda>_. quiet)"
        by (rule fdalloc_rule [OF p]) (auto simp: e intro!: trip_ret trip_weaken [OF held [OF p, of "{}" "-1"]])
    qed simp
    then show ?case using 2 by (auto simp: trip_def)
  qed
qed

text \<open>
  A socket for addresses and ports that are in use: the socket is freed, and the file that refers to it is closed
  afterwards, which frees it a second time.
\<close>

lemma connect_double_free:
  assumes q: "quiet s" and used: "sock_used ra lp rp s"
    and fr: "find (\<lambda>i. f_ref (k_ftable s ! i) = 0) [0..<NFILE] = Some i"
    and mem: "k_mem s = a # as" "a \<noteq> 0" "a \<notin> set (k_live s)"
  shows "\<exists>t. sys_connect ra lp rp s = Some (Inr (-1, t)) \<and> k_bad t = [a]"
proof -
  have l: "length (k_ftable s) = NFILE" and b: "k_bad s = []" using q by (auto simp: files_inv_def refs_inv_def objs_ok_def)
  have i: "i < NFILE" using find_upt_Some [OF fr] by simp
  define s1 where "s1 = upd_file (Suc i) (\<lambda>f. f\<lparr>f_ref := 1\<rparr>) s"
  define s2 where "s2 = s1\<lparr>k_mem := as, k_live := a # k_live s\<rparr>"
  define s3 where "s3 = s2\<lparr>k_sock := (k_sock s2)(a := \<lparr>raddr = ra, lport = lp, rport = rp, rxq = []\<rparr>)\<rparr>"
  define s4 where "s4 = upd_file (Suc i) (\<lambda>f. f\<lparr>f_type := FD_SOCK, f_readable := True, f_writable := True, f_sock := a\<rparr>) s3"
  note defs = s1_def s2_def s3_def s4_def
  have al: "filealloc s = Some (Inr (Suc i, s1))" "k_alloc s1 = Some (Inr (a, s2))"
    using fr mem by (simp_all add: filealloc_def k_alloc_def s1_def s2_def upd_file_def)
  have "a \<notin> set (k_sockets s)" using q mem by (auto simp: files_inv_def objs_ok_def socks_ok_def)
  then have used4: "sock_used ra lp rp s4" using used sock_used_upd [of a s s4] by (simp add: defs upd_file_def)
  have f4: "f_ref (file_at s4 (Suc i)) = 1" "f_type (file_at s4 (Suc i)) = FD_SOCK" "f_sock (file_at s4 (Suc i)) = a" "a \<in> set (k_live s4)" "k_bad s4 = []"
    using i l b by (simp_all add: defs upd_file_def file_at_def)
  define s5 where "s5 = s4\<lparr>k_live := removeAll a (k_live s4)\<rparr>"
  have "sock_setup ra lp rp (Suc i) a s2 = thenC (fileclose (Suc i)) (retC (-1, Suc i)) s5"
    using used4 f4 by (simp add: sock_setup_def k_free_def s5_def s3_def [symmetric] s4_def [symmetric])
  also have "\<dots> = Some (Inr ((-1, Suc i), (\<lambda>s6. s6\<lparr>k_sockets := remove1 a (k_sockets s6), k_sock := (k_sock s6)(a := (k_sock s6 a)\<lparr>rxq := []\<rparr>), k_bad := [a]\<rparr>)
      (upd_file (Suc i) (\<lambda>f. f\<lparr>f_ref := 0, f_type := FD_NONE\<rparr>) s5)))"
    using f4 by (simp add: fileclose_def close_object_def sockclose_def k_free_def s5_def file_at_def thenC_def bindC_def modC_def retC_def getC_def upd_file_def)
  finally show ?thesis unfolding sys_connect_def sockalloc_def using mem(2) al by (simp add: bindC_def retC_def)
qed

text \<open>
  What a call to \<^verbatim>\<open>connect\<close> that returns can do: it keeps the invariant, or it frees a socket twice, which happens exactly when the addresses and
  ports are in use and there are a file and memory for another socket.
\<close>

lemma sys_connect_cases:
  assumes "quiet s" "sys_connect ra lp rp s = Some (Inr (r, t))"
  shows "quiet t \<or> sock_used ra lp rp s \<and> k_bad t \<noteq> []"
proof (cases "sock_used ra lp rp s \<and> \<not> no_mem s")
  case False
  then show ?thesis using tripD [OF sys_connect_inv, of s ra lp rp] assms by blast
next
  case True
  then obtain a as where m: "k_mem s = a # as" "a \<noteq> 0" "a \<notin> set (k_live s)" by (auto simp: no_mem_def split: list.splits)
  show ?thesis
  proof (cases "find (\<lambda>i. f_ref (k_ftable s ! i) = 0) [0..<NFILE]")
    case None
    then have "t = s" using assms(2) by (auto simp: sys_connect_def sockalloc_def filealloc_def bindC_def retC_def)
    then show ?thesis using assms(1) by simp
  next
    case (Some i)
    show ?thesis using connect_double_free [OF assms(1) _ Some m, of ra lp rp] True assms(2) by auto
  qed
qed

subsection \<open>Opening, forking, exiting\<close>

lemma then_fs: "fs_safe m \<Longrightarrow> trip (- table_faults) (files_inv f U X) k Q \<Longrightarrow> trip (- table_faults) (files_inv f U X) (thenC (fsC m) k) Q"
  by (rule trip_then [OF fsC_inv])

lemma open_fail_inv: "trip (- table_faults) quiet (open_fail ip) (\<lambda>_. quiet)"
  unfolding open_fail_def by (intro then_fs trip_ret safe_rules)

lemma upd_quiet:
  assumes I: "quiet s" and p: "0 < p" "p \<le> NFILE" and ty: "f_type (file_at s p) \<in> {FD_INODE, FD_DEVICE}"
    and g: "\<And>f. f_ref (g f) = f_ref f \<and> f_type (g f) = f_type f"
  shows "quiet (upd_file p g s)"
proof -
  have l: "length (k_ftable s) = NFILE" using I by (simp add: files_inv_def refs_inv_def)
  have "refs_inv (\<lambda>_. 0) (upd_file p g s)" using refs_upd_file [OF _ p, of "\<lambda>_. 0" s g 0] I g by (simp add: files_inv_def)
  moreover have "typed {} (upd_file p g s)" using I g by (auto simp: files_inv_def typed_def file_at_upd [OF l p])
  moreover have "objs_ok {} (upd_file p g s)" by (subst objs_upd_file [OF l p refl]) (use g ty I in \<open>auto simp: files_inv_def\<close>)
  ultimately show ?thesis by (simp add: files_inv_def)
qed

lemma open_setup_inv:
  assumes p: "0 < p" "p \<le> NFILE"
  shows "trip (- table_faults) (files_inv (\<lambda>_. 0) {p} {}) (open_setup omode ip i p fd) (\<lambda>_. quiet)"
  unfolding open_setup_def
proof (rule trip_then [OF trip_mod [where Q = "\<lambda>_ s. quiet s \<and> f_type (file_at s p) \<in> {FD_INODE, FD_DEVICE}"]], goal_cases)
  case (1 s)
  have l: "length (k_ftable s) = NFILE" using 1 by (simp add: files_inv_def refs_inv_def)
  have "quiet (upd_file p (\<lambda>f. if i_type i = T_DEVICE then f\<lparr>f_type := FD_DEVICE, f_major := i_major i\<rparr> else f\<lparr>f_type := FD_INODE, f_off := 0\<rparr>) s)"
    using set_type_inv [of "\<lambda>_. 0" "{p}" "{}" s p] 1 p by simp
  then show ?case using p by (simp add: file_at_upd [OF l p])
next
  case 2
  show ?case
  proof (rule trip_then [OF trip_mod [where Q = "\<lambda>_. quiet"]], goal_cases)
    case (1 s)
    then show ?case using p by (intro upd_quiet) auto
  next
    case 2
    have "trip (- table_faults) quiet (if omode AND O_TRUNC \<noteq> 0 \<and> i_type i = T_FILE then fsC (itrunc ip) else retC ()) (\<lambda>_. quiet)"
      by (auto intro!: fsC_inv safe_rules trip_ret)
    then show ?case by (rule trip_then) (intro then_fs trip_ret safe_rules; simp)
  qed
qed

lemma open_file_inv: "trip (- table_faults) quiet (open_file omode ip i) (\<lambda>_. quiet)"
  unfolding open_file_def
proof (rule filealloc_if [OF open_fail_inv], goal_cases)
  case (1 p)
  have "trip (- table_faults) (\<lambda>s. True \<and> files_inv ((\<lambda>_. 0)(p := 1)) {p} {} s)
     (bindC (fdalloc p) (\<lambda>fd. if fd < 0 then thenC (fileclose p) (open_fail ip) else open_setup omode ip i p fd)) (\<lambda>_. quiet)"
  proof (rule fdalloc_rule [OF 1(1,2)], goal_cases)
    case (2 fd)
    then show ?case using 1 open_fail_inv by (auto intro!: fileclose_then [where e' = "\<lambda>_. 0" and U' = "{}"])
  next
    case (3 fd)
    then show ?case using open_setup_inv [OF 1(1,2), of omode ip i fd] by (auto elim!: trip_pre)
  qed simp
  then show ?case using 1 by simp
qed

text \<open>Rules for an invariant that every part of a computation keeps.\<close>

lemma trip_inv_bind: "trip F I m (\<lambda>_. I) \<Longrightarrow> (\<And>x. trip F I (f x) (\<lambda>_. I)) \<Longrightarrow> trip F I (bindC m f) (\<lambda>_. I)"
  by (rule trip_bind)

lemma trip_inv_get: "trip F I (getC g) (\<lambda>_. I)"
  by (rule trip_get)

lemma trip_inv_ret: "trip F I (retC x) (\<lambda>_. I)"
  by (rule trip_ret)

lemmas trip_inv = trip_inv_bind trip_inv_get trip_inv_ret trip_if trip_option trip_prod

lemma sys_open_inv:
  assumes "pathname = None \<or> length (the pathname) \<noteq> MAXPATH"
  shows "trip (- table_faults) quiet (sys_open pathname omode) (\<lambda>_. quiet)"
proof (cases pathname)
  case (Some path)
  have "trip (- table_faults) quiet (copy_path path) (\<lambda>_. quiet)" if "\<not> length path > MAXPATH"
    using that assms Some by (auto simp: copy_path_def intro: trip_ret)
  then show ?thesis
    unfolding sys_open_def Some option.case
    by (intro trip_inv then_fs safe_rules fsC_inv open_fail_inv open_file_inv) auto
qed (auto simp: sys_open_def intro: trip_ret)

lemma fork_files_inv:
  "trip (- table_faults) (\<lambda>s. quiet s \<and> child \<notin> set (k_tasks s)) (fork_files child) (\<lambda>_. quiet)"
proof -
  define J where "J = (\<lambda>i s. quiet s \<and> child \<in> set (k_tasks s) \<and> k_task s \<noteq> child \<and> (\<forall>j. i \<le> j \<longrightarrow> j < NOFILE \<longrightarrow> k_ofile s child ! j = 0))"
  have start: "J 0 (s\<lparr>k_tasks := child # k_tasks s, k_ofile := (k_ofile s)(child := replicate NOFILE 0)\<rparr>)" if s: "quiet s" "child \<notin> set (k_tasks s)" for s
  proof -
    define t where "t = s\<lparr>k_tasks := child # k_tasks s, k_ofile := (k_ofile s)(child := replicate NOFILE 0)\<rparr>"
    have ft: "k_ftable t = k_ftable s" by (simp add: t_def)
    have r: "refs_inv (\<lambda>_. 0) s" using s(1) by (simp add: files_inv_def)
    have "refs_to t p = refs_to s p" if "0 < p" for p
    proof -
      have k: "k_tasks t = child # k_tasks s" "count_list (k_ofile t child) p = 0" using that by (auto simp: t_def count_list_0_iff)
      have "sum_list (map (\<lambda>u. count_list (k_ofile t u) p) (k_tasks s)) = refs_to s p"
        unfolding refs_to_def by (rule arg_cong [where f = sum_list], rule map_cong) (use s(2) in \<open>auto simp: t_def\<close>)
      then show ?thesis unfolding refs_to_def [of t] k(1) by (simp only: list.map sum_list.Cons k(2) add_0)
    qed
    then have "refs_inv (\<lambda>_. 0) t" using r s(2) by (auto simp: refs_inv_def files_cong [OF ft] file_at_def ft) (auto simp: t_def split: if_splits)
    moreover have "objs_ok {} t = objs_ok {} s" by (rule objs_cong [OF files_cong(2,3) [OF ft]]) (simp_all add: t_def)
    moreover have "typed {} t = typed {} s" by (rule files_cong(4) [OF ft])
    moreover have "k_task s \<noteq> child" using r s(2) by (auto simp: refs_inv_def)
    ultimately have q: "quiet t" "k_task s \<noteq> child" using s(1) by (simp_all add: files_inv_def)
    have "child \<in> set (k_tasks t)" "k_task t = k_task s" "k_ofile t child = replicate NOFILE 0" by (simp_all add: t_def)
    then have "J 0 t" using q by (simp add: J_def)
    then show ?thesis by (simp add: t_def)
  qed
  have step: "trip (- table_faults) (J i) (fork_file child i) (\<lambda>_. J (Suc i))" if i: "i < NOFILE" for i
    unfolding fork_file_def
  proof (rule trip_bind [OF trip_get [where Q = "\<lambda>p s. J i s \<and> p = k_ofile s (k_task s) ! i"]], simp, rule trip_if, goal_cases)
    case (1 p)
    show ?case
    proof (rule tripI)
      fix s e assume s: "J i s \<and> p = k_ofile s (k_task s) ! i" and r: "bindC (filedup p) (\<lambda>p. modC (set_ofile child i p)) s = Some (Inl e)"
      have "live_file s p" using open_live [of "\<lambda>_. 0" "{}" "{}" s "k_task s" i p] s 1 i by (auto simp: J_def files_inv_def refs_inv_def)
      then show "e \<in> - table_faults" using trip_fault [OF filedup_inv [of "\<lambda>_. 0" "{}" "{}" p], of s] r s
        by (auto simp: J_def bindC_def modC_def split: option.splits sum.splits)
    next
      fix s x u assume s: "J i s \<and> p = k_ofile s (k_task s) ! i" and r: "bindC (filedup p) (\<lambda>p. modC (set_ofile child i p)) s = Some (Inr (x, u))"
      have live: "live_file s p" using open_live [of "\<lambda>_. 0" "{}" "{}" s "k_task s" i p] s 1 i by (auto simp: J_def files_inv_def refs_inv_def)
      obtain t where t: "filedup p s = Some (Inr (p, t))" "u = set_ofile child i p t"
        using r tripD [OF filedup_inv [of "\<lambda>_. 0" "{}" "{}" p], of s] live s by (auto simp: bindC_eq_Inr modC_def J_def)
      have I: "files_inv ((\<lambda>_. 0)(p := 1)) {} {} t" using tripD [OF filedup_inv [of "\<lambda>_. 0" "{}" "{}" p] _ t(1)] live s by (simp add: J_def)
      have fr: "k_ofile t = k_ofile s" "k_tasks t = k_tasks s" "k_task t = k_task s"
        using t(1) live by (auto simp: filedup_def retC_def live_file_def split: if_splits)
      have "files_inv (\<lambda>q. ((\<lambda>_. 0)(p := 1)) q + (if k_ofile t child ! i = q then 1 else 0) - (if p = q then 1 else 0)) {} {} u"
        unfolding t(2) by (rule set_ofile_inv [OF I _ i]) (use s live fr in \<open>auto simp: J_def live_file_def\<close>)
      moreover have "k_ofile t child ! i = 0" using s i fr by (simp add: J_def)
      ultimately have "quiet u" using 1 unfolding files_inv_def refs_inv_def by auto
      moreover have "length (k_ofile s child) = NOFILE" using s by (auto simp: J_def files_inv_def refs_inv_def)
      ultimately show "J (Suc i) u" using s fr t(2) i by (auto simp: J_def set_ofile_def)
    qed
  next
    case (2 p)
    then show ?case by (intro trip_ret) (auto simp: J_def)
  qed
  have a: "trip (- table_faults) (\<lambda>s. quiet s \<and> child \<notin> set (k_tasks s)) (modC (\<lambda>s. s\<lparr>k_tasks := child # k_tasks s, k_ofile := (k_ofile s)(child := replicate NOFILE 0)\<rparr>)) (\<lambda>_. J 0)"
    by (rule trip_mod) (use start in blast)
  have b: "trip (- table_faults) (J 0) (forC (fork_file child) [0..<NOFILE]) (\<lambda>_. quiet)"
    by (rule trip_post [OF trip_forC_upt [where I = J, OF step]]) (auto simp: J_def)
  have c: "quiet (s\<lparr>k_cwd := c\<rparr>)" if "quiet s" for s c
  proof -
    have "objs_ok {} (s\<lparr>k_cwd := c\<rparr>) = objs_ok {} s" by (rule objs_cong) (simp_all add: files_cong [of "s\<lparr>k_cwd := c\<rparr>" s])
    then show ?thesis using that by (simp add: files_inv_def refs_inv_def refs_to_def file_at_def typed_def)
  qed
  show ?thesis
    unfolding fork_files_def
    by (rule trip_then [OF a], rule trip_then [OF b]) (intro trip_inv_bind trip_inv_get fsC_inv safe_rules trip_mod c)
qed

lemma exit_files_inv: "trip (- table_faults) quiet exit_files (\<lambda>_. quiet)"
proof -
  have "trip (- table_faults) quiet (exit_file fd) (\<lambda>_. quiet)" if fd: "fd < NOFILE" for fd
    unfolding exit_file_def
  proof (rule trip_bind [OF trip_get [where Q = "\<lambda>p s. quiet s \<and> p = k_ofile s (k_task s) ! fd"]], simp, rule trip_if, goal_cases)
    case (1 p)
    show ?case
    proof (rule trip_then [where R = "\<lambda>s. k_ofile s (k_task s) ! fd = p \<and> files_inv ((\<lambda>_. 0)(p := -1)) {} {} s"])
      have live: "live_file s p" if "quiet s \<and> p = k_ofile s (k_task s) ! fd" for s
        using open_live [of "\<lambda>_. 0" "{}" "{}" s "k_task s" fd p] that 1 fd by (auto simp: files_inv_def refs_inv_def)
      have fr: "k_ofile t = k_ofile s \<and> k_task t = k_task s" if "fileclose p s = Some (Inr (x, t))" for s x t
        using that by (auto simp: fileclose_def modC_def thenC_eq_Inr bindC_eq_Inr getC_def failC_def split: if_splits dest: close_object_frame)
      show "trip (- table_faults) (\<lambda>s. quiet s \<and> p = k_ofile s (k_task s) ! fd) (fileclose p)
          (\<lambda>_ s. k_ofile s (k_task s) ! fd = p \<and> files_inv ((\<lambda>_. 0)(p := -1)) {} {} s)"
      proof (rule tripI)
        fix s e assume "quiet s \<and> p = k_ofile s (k_task s) ! fd" "fileclose p s = Some (Inl e)"
        then show "e \<in> - table_faults" using trip_fault [OF fileclose_inv [of "\<lambda>_. 0" "{}" "{}" p]] live by blast
      next
        fix s x t assume s: "quiet s \<and> p = k_ofile s (k_task s) ! fd" "fileclose p s = Some (Inr (x, t))"
        then show "k_ofile t (k_task t) ! fd = p \<and> files_inv ((\<lambda>_. 0)(p := -1)) {} {} t"
          using tripD [OF fileclose_inv [of "\<lambda>_. 0" "{}" "{}" p] _ s(2)] live fr [OF s(2)] by simp
      qed
      show "trip (- table_faults) (\<lambda>s. k_ofile s (k_task s) ! fd = p \<and> files_inv ((\<lambda>_. 0)(p := -1)) {} {} s) (modC (\<lambda>s. set_ofile (k_task s) fd 0 s)) (\<lambda>_. quiet)"
        using 1 fd clear_slot_inv [of "(\<lambda>_. 0)(p := -1)" "{}" "{}" _ fd p] by (intro trip_mod) auto
    qed
  qed (auto intro: trip_ret)
  then have "trip (- table_faults) quiet (forC exit_file [0..<NOFILE]) (\<lambda>_. quiet)" by (intro trip_forC) auto
  then show ?thesis
    unfolding exit_files_def by (rule trip_then) (intro then_fs trip_inv_bind trip_inv_get trip_then [where R = quiet] trip_if fsC_inv trip_inv_ret safe_rules)
qed

lemma switch_inv: "quiet s \<Longrightarrow> t \<in> set (k_tasks s) \<Longrightarrow> quiet (switch_to t s)"
proof -
  assume "quiet s" "t \<in> set (k_tasks s)"
  moreover have "objs_ok {} (switch_to t s) = objs_ok {} s" by (rule objs_cong [OF files_cong(2,3)]) (simp_all add: switch_to_def)
  ultimately show ?thesis by (simp add: files_inv_def refs_inv_def refs_to_def file_at_def typed_def switch_to_def)
qed

text \<open>A task that has closed its files leaves the list of tasks.\<close>

definition drop_task :: "nat \<Rightarrow> ker \<Rightarrow> ker" where
  "drop_task t s = s\<lparr>k_tasks := remove1 t (k_tasks s)\<rparr>"

lemma drop_task_inv:
  assumes "quiet s" "t \<noteq> k_task s" "set (k_ofile s t) \<subseteq> {0}"
  shows "quiet (drop_task t s)"
proof -
  have "objs_ok {} (drop_task t s) = objs_ok {} s" by (rule objs_cong [OF files_cong(2,3)]) (simp_all add: drop_task_def)
  moreover have "refs_to (drop_task t s) p = refs_to s p" if "0 < p" for p
  proof (cases "t \<in> set (k_tasks s)")
    case True
    have "count_list (k_ofile s t) p = 0" using assms(3) that by (auto simp: count_list_0_iff)
    then show ?thesis using True sum_list_map_remove1 [of t "k_tasks s" "\<lambda>u. count_list (k_ofile s u) p"] by (simp add: refs_to_def drop_task_def)
  qed (simp add: refs_to_def drop_task_def)
  ultimately show ?thesis using assms(1,2)
    by (auto simp: files_inv_def refs_inv_def file_at_def typed_def) (auto simp: drop_task_def dest: notin_set_remove1 set_remove1_subset [THEN subsetD])
qed

subsection \<open>Reading and writing\<close>

lemma trip_any: "trip F P m Q \<Longrightarrow> trip UNIV P m Q"
  by (rule trip_faults) auto

lemma piperead_ends: "piperead cout addr n p d = (r, p', d') \<Longrightarrow> readopen p' = readopen p \<and> writeopen p' = writeopen p"
proof -
  have "piperead_loop cout addr n i p d = (r, p', d') \<Longrightarrow> readopen p' = readopen p \<and> writeopen p' = writeopen p" for r p' d' i
  proof (induction cout addr n i p d arbitrary: r p' d' rule: piperead_loop.induct)
    case (1 cout addr n i p d)
    show ?case using 1(2) 1(1) by (subst (asm) piperead_loop.simps) (auto simp: Let_def split: if_splits prod.splits)
  qed
  then show "piperead cout addr n p d = (r, p', d') \<Longrightarrow> readopen p' = readopen p \<and> writeopen p' = writeopen p"
    by (auto simp: piperead_def split: if_splits prod.splits)
qed

lemma pipewrite_ends: "pipewrite cin addr n i p = (r, p') \<Longrightarrow> readopen p' = readopen p \<and> writeopen p' = writeopen p"
proof (induction cin addr n i p arbitrary: r p' rule: pipewrite.induct)
  case (1 cin addr n i p)
  show ?case using 1(2) 1(1) by (subst (asm) pipewrite.simps) (auto split: if_splits option.splits)
qed

lemma pipes_inv:
  assumes "quiet s" "readopen pi = readopen (k_pipes s Q) \<and> writeopen pi = writeopen (k_pipes s Q)"
  shows "quiet (s\<lparr>k_pipes := (k_pipes s)(Q := pi)\<rparr>)"
proof -
  have ft: "k_ftable (s\<lparr>k_pipes := (k_pipes s)(Q := pi)\<rparr>) = k_ftable s" by simp
  have "objs_ok {} (s\<lparr>k_pipes := (k_pipes s)(Q := pi)\<rparr>) = objs_ok {} s"
    by (rule objs_cong [OF files_cong(2,3) [OF ft]]) (use assms(2) in \<open>simp_all add: end_open_def\<close>)
  then show ?thesis using assms(1) by (simp add: files_inv_def refs_inv_def refs_to_def file_at_def typed_def)
qed

lemma sock_inv: "quiet s \<Longrightarrow> quiet (s\<lparr>k_sock := f\<rparr>)"
proof -
  have ft: "k_ftable (s\<lparr>k_sock := f\<rparr>) = k_ftable s" by simp
  have "objs_ok {} (s\<lparr>k_sock := f\<rparr>) = objs_ok {} s" by (rule objs_cong [OF files_cong(2,3) [OF ft]]) simp_all
  then show "quiet s \<Longrightarrow> ?thesis" by (simp add: files_inv_def refs_inv_def refs_to_def file_at_def typed_def)
qed

lemma off_inv:
  assumes I: "quiet s" and p: "0 < p" "p \<le> NFILE"
  shows "quiet (upd_file p (\<lambda>f. f\<lparr>f_off := h f\<rparr>) s)"
proof -
  let ?g = "\<lambda>f. f\<lparr>f_off := h f\<rparr>"
  have l: "length (k_ftable s) = NFILE" using I by (simp add: files_inv_def refs_inv_def)
  have "refs_inv (\<lambda>_. 0) (upd_file p ?g s)" using refs_upd_file [OF _ p, of "\<lambda>_. 0" s ?g 0] I by (simp add: files_inv_def)
  moreover have "typed {} (upd_file p ?g s)" using I by (auto simp: files_inv_def typed_def file_at_upd [OF l p])
  moreover have "objs_ok {} (upd_file p ?g s)" by (subst objs_upd_file [OF l p refl]) (use I in \<open>auto simp: files_inv_def\<close>)
  ultimately show ?thesis by (simp add: files_inv_def)
qed

lemma fs_any: "trip UNIV quiet (fsC m) (\<lambda>_. quiet)"
  by (rule tripI) (auto simp: fsC_eq_Inr)

lemma fileread_inv:
  assumes p: "0 < p" "p \<le> NFILE"
  shows "trip UNIV quiet (fileread cout wait devs p addr n d) (\<lambda>_. quiet)"
  unfolding fileread_def
proof (rule trip_inv_bind [OF trip_inv_get], rule trip_if, goal_cases)
  case (1 f)
  show ?case by (rule trip_inv_ret)
next
  case (2 f)
  have off: "trip UNIV quiet (if b then modC (upd_file p (\<lambda>f. f\<lparr>f_off := f_off f + r\<rparr>)) else retC ()) (\<lambda>_. quiet)" for b r
    using off_inv [OF _ p] by (auto intro!: trip_mod trip_inv_ret)
  show ?case
  proof (cases "f_type f")
    case FD_INODE
    then show ?thesis by simp (intro trip_then [OF fs_any] trip_inv_bind fs_any trip_prod trip_then [OF off] trip_inv_ret)
  next
    case FD_DEVICE
    then show ?thesis by simp (intro conjI impI trip_option trip_inv_ret)
  next
    case FD_PIPE
    have "trip UNIV quiet (bindC (getC (\<lambda>s. piperead (\<lambda>a ch. cout a [ch]) addr n (k_pipes s (f_pipe f)) d)) (\<lambda>(r, pi, d).
         thenC (modC (\<lambda>s. s\<lparr>k_pipes := (k_pipes s)(f_pipe f := pi)\<rparr>)) (retC (r, d)))) (\<lambda>_. quiet)"
      by (rule tripI) (auto simp: retC_def split: prod.splits dest!: piperead_ends intro!: pipes_inv)
    then show ?thesis using FD_PIPE by simp
  next
    case FD_SOCK
    then show ?thesis by (intro tripI) (auto simp: retC_def failC_def split: sum.splits intro!: sock_inv)
  qed (auto intro: trip_fail)
qed

lemma filewrite_inv:
  assumes p: "0 < p" "p \<le> NFILE"
  shows "trip UNIV quiet (filewrite cin wait devs p addr n i0 hm) (\<lambda>_. quiet)"
  unfolding filewrite_def
proof (rule trip_inv_bind [OF trip_inv_get], rule trip_if, goal_cases)
  case (1 f)
  show ?case by (rule trip_inv_ret)
next
  case (2 f)
  have off: "trip UNIV quiet (if b then modC (upd_file p (\<lambda>f. f\<lparr>f_off := f_off f + r\<rparr>)) else retC ()) (\<lambda>_. quiet)" for b r
    using off_inv [OF _ p] by (auto intro!: trip_mod trip_inv_ret)
  show ?case
  proof (cases "f_type f")
    case FD_INODE
    have "trip UNIV quiet (filewrite_chunk cin p addr n i) (\<lambda>_. quiet)" for i
      unfolding filewrite_chunk_def Let_def
      by (intro trip_then [OF fs_any] trip_inv_bind trip_inv_get fs_any trip_then [OF off] trip_inv_ret)
    then show ?thesis using FD_INODE by (auto intro!: trip_inv_bind trip_searchC trip_inv_ret simp: Let_def)
  next
    case FD_DEVICE
    then show ?thesis by simp (intro conjI impI trip_option trip_prod trip_inv_ret)
  next
    case FD_PIPE
    then show ?thesis by (intro tripI) (auto simp: retC_def split: prod.splits dest!: pipewrite_ends intro!: pipes_inv)
  next
    case FD_SOCK
    then show ?thesis by (intro tripI) (auto simp: retC_def failC_def split: sum.splits)
  qed (auto intro: trip_fail)
qed

section \<open>Histories\<close>

text \<open>
  A step of the system: a call of the current task that returns, or a change of the current task. The calls that only use
  the file system (making and removing names, changing the directory) are the computations of theory Fs. A clean step is one after which no memory has been freed twice.
\<close>

inductive kstep :: "ker \<Rightarrow> ker \<Rightarrow> bool" where
  close: "sys_close fd s = Some (Inr (r, t)) \<Longrightarrow> kstep s t"
| dup: "sys_dup fd s = Some (Inr (r, t)) \<Longrightarrow> kstep s t"
| openf: "sys_open path omode s = Some (Inr (r, t)) \<Longrightarrow> kstep s t"
| pipe: "sys_pipe (cout :: u64 \<Rightarrow> u8 list \<Rightarrow> (u64 \<Rightarrow> u8) \<Rightarrow> int \<times> (u64 \<Rightarrow> u8)) page fdp d s = Some (Inr (r, t)) \<Longrightarrow> kstep s t"
| connect: "sys_connect ra lp rp s = Some (Inr (r, t)) \<Longrightarrow> kstep s t"
| readf: "sys_read (cout :: u64 \<Rightarrow> u8 list \<Rightarrow> (u64 \<Rightarrow> u8) \<Rightarrow> int \<times> (u64 \<Rightarrow> u8)) wait devs fd buf n d s = Some (Inr (r, t)) \<Longrightarrow> kstep s t"
| writef: "sys_write cin hwait (wdevs :: nat \<Rightarrow> (u64 \<Rightarrow> int \<Rightarrow> (u64 \<Rightarrow> u8) \<Rightarrow> int run \<times> (u64 \<Rightarrow> u8)) option) fd buf n i0 hm s = Some (Inr (r, t)) \<Longrightarrow> kstep s t"
| files: "fsC (m :: (fs, int) comp) s = Some (Inr (r, t)) \<Longrightarrow> kstep s t"
| fork: "fork_files child s = Some (Inr (r, t)) \<Longrightarrow> child \<notin> set (k_tasks s) \<Longrightarrow> kstep s t"
| exit: "exit_files s = Some (Inr (r, t)) \<Longrightarrow> kstep s t"
| switch: "t \<in> set (k_tasks s) \<Longrightarrow> kstep s (switch_to t s)"
| reap: "t \<noteq> k_task s \<Longrightarrow> set (k_ofile s t) \<subseteq> {0} \<Longrightarrow> kstep s (drop_task t s)"

definition clean_step :: "ker \<Rightarrow> ker \<Rightarrow> bool" where "clean_step s t \<longleftrightarrow> kstep s t \<and> k_bad t = []"

text \<open>The step is a connection to addresses and ports that are in use.\<close>

definition reconnects :: "ker \<Rightarrow> ker \<Rightarrow> bool" where
  "reconnects s t \<longleftrightarrow> (\<exists>ra lp rp r. sock_used ra lp rp s \<and> sys_connect ra lp rp s = Some (Inr (r, t)))"

lemma cur_file_any: "trip UNIV quiet (cur_file fd) (\<lambda>p s. quiet s \<and> (p \<noteq> 0 \<longrightarrow> live_file s p))"
proof (cases "0 \<le> fd \<and> fd < int NOFILE")
  case True
  have "live_file s p" if "quiet s" "p = k_ofile s (k_task s) ! nat fd" "p \<noteq> 0" for s p
    using open_live [of "\<lambda>_. 0" "{}" "{}" s "k_task s" "nat fd" p] that True by (auto simp: files_inv_def refs_inv_def)
  then show ?thesis using True by (auto simp: cur_file_def intro: trip_get)
qed (auto simp: cur_file_def intro: trip_fail)

lemma sys_dup_any: "trip UNIV quiet (sys_dup fd) (\<lambda>_. quiet)"
proof (cases "0 \<le> fd \<and> fd < int NOFILE")
  case True
  show ?thesis
  proof (rule tripI)
    fix s r t assume q: "quiet s" and r: "sys_dup fd s = Some (Inr (r, t))"
    show "quiet t"
    proof (cases "k_ofile s (k_task s) ! nat fd = 0")
      case True
      then have "t = s" using r \<open>0 \<le> fd \<and> fd < int NOFILE\<close>
        by (auto simp: sys_dup_def cur_file_def fdalloc_def bindC_eq_Inr getC_def thenC_def filedup_def failC_def retC_def split: option.splits if_splits)
      then show ?thesis using q by simp
    next
      case False
      then show ?thesis using tripD [OF sys_dup_inv] q r \<open>0 \<le> fd \<and> fd < int NOFILE\<close> by blast
    qed
  qed simp
qed (auto simp: sys_dup_def cur_file_def trip_def)

lemma on_open:
  assumes "0 < p \<Longrightarrow> p \<le> NFILE \<Longrightarrow> trip UNIV quiet m (\<lambda>_. quiet)"
  shows "trip UNIV (\<lambda>s. quiet s \<and> (p \<noteq> 0 \<longrightarrow> live_file s p)) (if b \<or> c \<or> p = 0 then retC z else m) (\<lambda>_. quiet)"
proof (rule trip_if)
  assume "\<not> (b \<or> c \<or> p = 0)"
  then show "trip UNIV (\<lambda>s. quiet s \<and> (p \<noteq> 0 \<longrightarrow> live_file s p)) m (\<lambda>_. quiet)"
    using tripD [OF assms] by (intro tripI) (auto simp: live_file_def)
qed (auto intro: trip_ret)

lemma rw_any:
  "trip UNIV quiet (sys_read cout wait devs fd buf n d) (\<lambda>_. quiet)" "trip UNIV quiet (sys_write cin hwait wdevs fd buf n i0 hm) (\<lambda>_. quiet)"
  unfolding sys_read_def sys_write_def
  by (rule trip_bind [OF cur_file_any], rule on_open, rule fileread_inv, assumption, assumption)
    (rule trip_bind [OF cur_file_any], rule on_open, rule filewrite_inv, assumption, assumption)

lemma kstep_inv: "kstep s t \<Longrightarrow> quiet s \<Longrightarrow> quiet t \<or> reconnects s t \<and> k_bad t \<noteq> []"
proof (induction rule: kstep.induct)
  case (close fd s r t)
  have "trip UNIV quiet (sys_close fd) (\<lambda>_. quiet)"
  proof (cases "0 \<le> fd \<and> fd < int NOFILE")
    case False
    then show ?thesis unfolding sys_close_def cur_file_def by (intro trip_bind [OF _ trip_False]) (auto intro: trip_fail)
  qed (use trip_any [OF sys_close_inv] in blast)
  from tripD [OF this close(2) close(1)] show ?case ..
next
  case (openf path omode s r t)
  have "trip UNIV quiet (sys_open path omode) (\<lambda>_. quiet)"
  proof (cases "path = None \<or> length (the path) \<noteq> MAXPATH")
    case False
    then obtain pt where "path = Some pt" "length pt = MAXPATH" by auto
    then show ?thesis by (simp add: sys_open_def copy_path_def) (intro trip_bind [OF _ trip_False], auto intro: trip_fail)
  qed (use trip_any [OF sys_open_inv] in blast)
  from tripD [OF this openf(2) openf(1)] show ?case ..
next
  case (connect ra lp rp s r t)
  then show ?case using sys_connect_cases [OF connect(2,1)] unfolding reconnects_def by blast
next
  case (fork child s r t)
  then show ?case using tripD [OF fork_files_inv _ fork(1)] by simp
next
  case (switch t s)
  then show ?case by (intro disjI1 switch_inv)
next
  case (reap t s)
  then show ?case by (intro disjI1 drop_task_inv)
qed (rule disjI1, erule (1) tripD [OF sys_dup_any, rotated] tripD [OF sys_pipe_inv, rotated] tripD [OF rw_any(1), rotated] tripD [OF rw_any(2), rotated]
    tripD [OF exit_files_inv, rotated] tripD [OF fs_any, rotated])+

lemma ksteps_inv: "clean_step\<^sup>*\<^sup>* s t \<Longrightarrow> quiet s \<Longrightarrow> quiet t"
  by (induction rule: rtranclp_induct) (auto simp: clean_step_def dest: kstep_inv)

text \<open>The state before any file has been opened.\<close>

definition no_files :: "ker \<Rightarrow> bool" where
  "no_files s \<longleftrightarrow> length (k_ftable s) = NFILE \<and> list_all (\<lambda>f. f_ref f = 0 \<and> f_type f = FD_NONE) (k_ftable s) \<and>
     k_tasks s = [k_task s] \<and> k_ofile s (k_task s) = replicate NOFILE 0 \<and> k_sockets s = [] \<and> k_live s = [] \<and> k_bad s = []"

lemma no_files_quiet: "no_files s \<Longrightarrow> quiet s"
proof -
  assume s: "no_files s"
  have f: "f_ref (file_at s p) = 0 \<and> f_type (file_at s p) = FD_NONE" if "0 < p" "p \<le> NFILE" for p
    using s that by (auto simp: no_files_def list_all_length file_at_def)
  have r: "refs_to s p = 0" if "0 < p" for p using s that by (auto simp: no_files_def refs_to_def count_list_0_iff)
  have none: "\<not> pipe_file s p P w" "\<not> sock_file s p S" for p P w S using f by (auto simp: pipe_file_def sock_file_def live_file_def)
  have "refs_inv (\<lambda>_. 0) s" using s f r by (auto simp: refs_inv_def no_files_def)
  moreover have "typed {} s" using f by (simp add: typed_def)
  moreover have "objs_ok {} s" unfolding objs_ok_def pipes_ok_def socks_ok_def owned_def using s none by (auto simp: no_files_def)
  ultimately show ?thesis by (simp add: files_inv_def)
qed

text \<open>Descriptors that are not open: what closing and duplicating them does.\<close>

lemma not_open:
  "fd < 0 \<or> int NOFILE \<le> fd \<Longrightarrow> sys_close fd s = Some (Inl OutOfBounds) \<and> sys_dup fd s = Some (Inl OutOfBounds)"
  "0 \<le> fd \<Longrightarrow> fd < int NOFILE \<Longrightarrow> k_ofile s (k_task s) ! nat fd = 0 \<Longrightarrow> sys_close fd s = Some (Inr (-1, s)) \<and> sys_dup fd s = Some (Inl NullDeref)"
proof -
  show "sys_close fd s = Some (Inl OutOfBounds) \<and> sys_dup fd s = Some (Inl OutOfBounds)" if "fd < 0 \<or> int NOFILE \<le> fd"
    using that by (auto simp: sys_close_def sys_dup_def cur_file_def bindC_def failC_def)
  assume fd: "0 \<le> fd" "fd < int NOFILE" "k_ofile s (k_task s) ! nat fd = 0"
  then have "nat fd \<in> set [0..<NOFILE]" by auto
  then have "find (\<lambda>i. k_ofile s (k_task s) ! i = 0) [0..<NOFILE] \<noteq> None" using fd(3) unfolding find_None_iff by blast
  then obtain i where "find (\<lambda>i. k_ofile s (k_task s) ! i = 0) [0..<NOFILE] = Some i" by auto
  then show "sys_close fd s = Some (Inr (-1, s)) \<and> sys_dup fd s = Some (Inl NullDeref)"
    using fd by (simp add: sys_close_def sys_dup_def cur_file_def fdalloc_def filedup_def bindC_def getC_def retC_def thenC_def failC_def)
qed

text \<open>
  C6: open files are counted right. From the start on, after any history of system calls of any tasks that return (opening, closing, duplicating,
  reading and writing, pipes and connections, forks and exits, in any order) in which no memory has been freed twice, the reference count of every file of the
  table is the number of descriptors of all tasks that refer to it, and it has a type exactly when there is one. What closing and duplicating a descriptor then do: out of the
  range of the table both read outside of it; on a descriptor in range that is not open, closing returns -1 and changes nothing, while duplicating dereferences the null pointer; and on an open one
  they never meet a file with no references: what can fail is only what the
  release of an inode fails with. (A double free ends such a history; C14 says which calls do that.)
\<close>

theorem descriptors_counted:
  assumes "no_files s0" "clean_step\<^sup>*\<^sup>* s0 s"
  shows "(\<forall>p. 0 < p \<and> p \<le> NFILE \<longrightarrow> f_ref (file_at s p) = int (refs_to s p) \<and> (f_type (file_at s p) = FD_NONE \<longleftrightarrow> refs_to s p = 0)) \<and>
    (\<forall>fd. fd < 0 \<or> int NOFILE \<le> fd \<longrightarrow> sys_close fd s = Some (Inl OutOfBounds) \<and> sys_dup fd s = Some (Inl OutOfBounds)) \<and>
    (\<forall>fd. 0 \<le> fd \<and> fd < int NOFILE \<longrightarrow>
       (if k_ofile s (k_task s) ! nat fd = 0 then sys_close fd s = Some (Inr (-1, s)) \<and> sys_dup fd s = Some (Inl NullDeref)
        else (\<forall>e. sys_close fd s = Some (Inl e) \<or> sys_dup fd s = Some (Inl e) \<longrightarrow> e \<notin> table_faults)))"
proof -
  have q: "quiet s" using ksteps_inv [OF assms(2)] no_files_quiet [OF assms(1)] .
  have "f_ref (file_at s p) = int (refs_to s p) \<and> (f_type (file_at s p) = FD_NONE \<longleftrightarrow> refs_to s p = 0)" if "0 < p \<and> p \<le> NFILE" for p
    using q that by (auto simp: files_inv_def refs_inv_def typed_def)
  moreover have "e \<notin> table_faults" if "0 \<le> fd \<and> fd < int NOFILE \<and> sys_close fd s = Some (Inl e)" for fd e
    using trip_fault [OF sys_close_inv [of fd] q] that by auto
  moreover have "e \<notin> table_faults" if "0 \<le> fd \<and> fd < int NOFILE \<and> k_ofile s (k_task s) ! nat fd \<noteq> 0 \<and> sys_dup fd s = Some (Inl e)" for fd e
    using trip_fault [OF sys_dup_inv [of fd], of s e] q that by auto
  ultimately show ?thesis using not_open by auto
qed

text \<open>
  C14: the memory behind open files. After any history of system calls in which no memory has been freed twice, the memory in use for pipes and sockets is exactly that of the files in use: a pipe with
  its page as long as one of its ends is open, a socket as long as its file is; nothing is lost. An end of a pipe
  is marked open exactly as long as a file refers to it. The first double free can come from one call only, a \<^verbatim>\<open>connect\<close> to addresses and ports that are in use: any
  other next step frees nothing twice. And such a \<^verbatim>\<open>connect\<close> does free its socket twice whenever there are a file and memory for it.
\<close>

theorem objects_owned:
  assumes "no_files s0" "clean_step\<^sup>*\<^sup>* s0 s"
  shows "set (k_live s) = {P. \<exists>p w. pipe_file s p P w} \<union> {k_pdata s P | P. \<exists>p w. pipe_file s p P w} \<union> {S. \<exists>p. sock_file s p S} \<and>
    (\<forall>p P w v. pipe_file s p P w \<longrightarrow> (end_open v (k_pipes s P) \<longleftrightarrow> (\<exists>q. pipe_file s q P v))) \<and>
    set (k_sockets s) = {S. \<exists>p. sock_file s p S} \<and> k_bad s = [] \<and>
    (\<forall>t. kstep s t \<and> k_bad t \<noteq> [] \<longrightarrow> reconnects s t) \<and>
    (\<forall>ra lp rp i a as. sock_used ra lp rp s \<and> find (\<lambda>i. f_ref (k_ftable s ! i) = 0) [0..<NFILE] = Some i \<and> k_mem s = a # as \<and> a \<noteq> 0 \<and> a \<notin> set (k_live s) \<longrightarrow>
       (\<exists>t. sys_connect ra lp rp s = Some (Inr (-1, t)) \<and> k_bad t = [a]))"
proof -
  have q: "quiet s" using ksteps_inv [OF assms(2)] no_files_quiet [OF assms(1)] .
  then obtain own where own: "pipes_ok own s" "socks_ok own s" "owned own {} s" and bad: "k_bad s = []"
    by (auto simp: files_inv_def objs_ok_def)
  have step: "reconnects s t" if "kstep s t \<and> k_bad t \<noteq> []" for t
    using kstep_inv [of s t] q that by (auto simp: files_inv_def objs_ok_def)
  have live: "set (k_live s) = {P. \<exists>p w. pipe_file s p P w} \<union> {k_pdata s P | P. \<exists>p w. pipe_file s p P w} \<union> {S. \<exists>p. sock_file s p S}" (is "_ = ?R")
  proof (intro equalityI subsetI)
    fix a assume a: "a \<in> set (k_live s)"
    show "a \<in> ?R"
    proof (cases "own a")
      case (Page_of P)
      then have "(\<exists>p w. pipe_file s p P w) \<and> k_pdata s P = a" using owned_cases(2) [OF own(3) a] by blast
      then show ?thesis by blast
    qed (use owned_cases [OF own(3) a] in auto)
  next
    fix a assume "a \<in> ?R"
    then show "a \<in> set (k_live s)" using pipes_ok_own [OF own(1)] own(2) unfolding socks_ok_def by blast
  qed
  have "end_open v (k_pipes s P) \<longleftrightarrow> (\<exists>q. pipe_file s q P v)" if "pipe_file s p P w" for p P w v
    using that pipes_ok_own [OF own(1)] pipes_ok_other [OF own(1) that] by (cases "v = w") auto
  moreover have "\<exists>t. sys_connect ra lp rp s = Some (Inr (-1, t)) \<and> k_bad t = [a]"
    if "sock_used ra lp rp s \<and> find (\<lambda>i. f_ref (k_ftable s ! i) = 0) [0..<NFILE] = Some i \<and> k_mem s = a # as \<and> a \<noteq> 0 \<and> a \<notin> set (k_live s)" for ra lp rp i a as
    using connect_double_free [OF q] that by blast
  ultimately show ?thesis using bad live own(2) step unfolding socks_ok_def by blast
qed

subsection \<open>A sample history\<close>

definition sample_ker :: "fs \<Rightarrow> ker" where
  "sample_ker f = \<lparr>k_fs = f, k_ftable = replicate NFILE \<lparr>f_type = FD_NONE, f_ref = 0, f_readable = False, f_writable = False, f_pipe = 0, f_ip = 0, f_sock = 0, f_off = 0, f_major = 0\<rparr>,
     k_pipes = (\<lambda>_. new_pipe []), k_pdata = (\<lambda>_. 0), k_sock = (\<lambda>_. \<lparr>raddr = 0, lport = 0, rport = 0, rxq = []\<rparr>), k_sockets = [],
     k_mem = [40, 48], k_live = [], k_bad = [], k_tasks = [1], k_task = 1, k_ofile = (\<lambda>_. replicate NOFILE 0), k_cwd = (\<lambda>_. 0)\<rparr>"

lemma sample_no_files: "no_files (sample_ker f)"
  by (simp add: no_files_def sample_ker_def list_all_length)

text \<open>A pipe is made, its reading end duplicated and the first descriptor of it closed.\<close>

definition sample_calls :: "(ker, ker \<times> ker) comp" where
  "sample_calls =
     bindC (sys_pipe (\<lambda>a bs m. (0 :: int, m)) [] 8 (\<lambda>_ :: u64. 0 :: u8)) (\<lambda>_. bindC (getC id) (\<lambda>u.
     bindC (sys_dup 0) (\<lambda>_. bindC (getC id) (\<lambda>v. bindC (sys_close 0) (\<lambda>_. retC (u, v))))))"

lemma sample_runs:
  "\<exists>t. refs_to t 1 = 1 \<and> refs_to t 2 = 1 \<and> k_live t = [48, 40] \<and> clean_step\<^sup>*\<^sup>* (sample_ker f) t \<and> k_ofile t (k_task t) ! 5 = 0"
proof -
  have ev: "case sample_calls (sample_ker f) of Some (Inr ((u, v), t)) \<Rightarrow> k_bad u = [] \<and> k_bad v = [] \<and> k_bad t = [] \<and>
      refs_to t 1 = 1 \<and> refs_to t 2 = 1 \<and> k_live t = [48, 40] \<and> k_ofile t (k_task t) ! 5 = 0 | _ \<Rightarrow> False"
    by code_simp
  then obtain u v t where t: "sample_calls (sample_ker f) = Some (Inr ((u, v), t))" "k_bad u = []" "k_bad v = []" "k_bad t = []"
      "refs_to t 1 = 1" "refs_to t 2 = 1" "k_live t = [48, 40]" "k_ofile t (k_task t) ! 5 = 0"
    by (auto split: option.splits sum.splits prod.splits)
  from t(1) obtain x y z where st: "sys_pipe (\<lambda>a bs m. (0 :: int, m)) [] 8 (\<lambda>_ :: u64. 0 :: u8) (sample_ker f) = Some (Inr (x, u))"
      "sys_dup 0 u = Some (Inr (y, v))" "sys_close 0 v = Some (Inr (z, t))"
    unfolding sample_calls_def bindC_eq_Inr getC_def retC_def by auto
  then have "clean_step (sample_ker f) u" "clean_step u v" "clean_step v t"
    using kstep.pipe [OF st(1)] kstep.dup [OF st(2)] kstep.close [OF st(3)] t(2-4) by (simp_all add: clean_step_def)
  then have "clean_step\<^sup>*\<^sup>* (sample_ker f) t" by (meson r_into_rtranclp rtranclp_trans)
  then show ?thesis using t by blast
qed

theorem descriptors_counted_witness:
  "\<exists>t. clean_step\<^sup>*\<^sup>* (sample_ker sample_fs) t \<and> f_ref (file_at t 1) = 1 \<and> f_ref (file_at t 3) = int (refs_to t 3) \<and> sys_dup 5 t = Some (Inl NullDeref)"
proof -
  obtain t where t: "refs_to t 1 = 1" "clean_step\<^sup>*\<^sup>* (sample_ker sample_fs) t" "k_ofile t (k_task t) ! 5 = 0" using sample_runs by blast
  note d = descriptors_counted [OF sample_no_files t(2)]
  have "f_ref (file_at t 1) = 1 \<and> f_ref (file_at t 3) = int (refs_to t 3)" using conjunct1 [OF d] t(1) by (simp add: NFILE_def)
  moreover have "sys_dup 5 t = Some (Inl NullDeref)"
    using conjunct2 [OF conjunct2 [OF d], rule_format, of 5] t(3) by (simp add: NOFILE_def)
  ultimately show ?thesis using t by blast
qed

lemma sample_connected:
  "\<exists>t. clean_step\<^sup>*\<^sup>* (sample_ker f) t \<and> sock_used 1 2 3 t \<and> find (\<lambda>i. f_ref (k_ftable t ! i) = 0) [0..<NFILE] = Some 1 \<and> k_mem t = [48] \<and> k_live t = [40]"
proof -
  have "case sys_connect 1 2 3 (sample_ker f) of Some (Inr (_, t)) \<Rightarrow> k_bad t = [] \<and> sock_used 1 2 3 t \<and>
      find (\<lambda>i. f_ref (k_ftable t ! i) = 0) [0..<NFILE] = Some 1 \<and> k_mem t = [48] \<and> k_live t = [40] | _ \<Rightarrow> False"
    by code_simp
  then obtain r t where t: "sys_connect 1 2 3 (sample_ker f) = Some (Inr (r, t))" "k_bad t = []" "sock_used 1 2 3 t"
      "find (\<lambda>i. f_ref (k_ftable t ! i) = 0) [0..<NFILE] = Some 1" "k_mem t = [48]" "k_live t = [40]"
    by (auto split: option.splits sum.splits prod.splits)
  then have "clean_step (sample_ker f) t" using kstep.connect [OF t(1)] by (simp add: clean_step_def)
  then show ?thesis using t(3-6) by blast
qed

theorem objects_owned_witness:
  "(\<exists>t. clean_step\<^sup>*\<^sup>* (sample_ker sample_fs) t \<and> {48, 40} = {P. \<exists>p w. pipe_file t p P w} \<union> {k_pdata t P | P. \<exists>p w. pipe_file t p P w} \<union> {S. \<exists>p. sock_file t p S}) \<and>
   (\<exists>t u. clean_step\<^sup>*\<^sup>* (sample_ker sample_fs) t \<and> {40} = set (k_live t) \<and> sys_connect 1 2 3 t = Some (Inr (-1, u)) \<and> k_bad u = [48])"
proof
  obtain t where t: "k_live t = [48, 40]" "clean_step\<^sup>*\<^sup>* (sample_ker sample_fs) t" using sample_runs by blast
  then have "set [48, 40] = {P. \<exists>p w. pipe_file t p P w} \<union> {k_pdata t P | P. \<exists>p w. pipe_file t p P w} \<union> {S. \<exists>p. sock_file t p S}"
    using objects_owned [OF sample_no_files t(2)] by metis
  then show "\<exists>t. clean_step\<^sup>*\<^sup>* (sample_ker sample_fs) t \<and> {48, 40} = {P. \<exists>p w. pipe_file t p P w} \<union> {k_pdata t P | P. \<exists>p w. pipe_file t p P w} \<union> {S. \<exists>p. sock_file t p S}"
    using t(2) by auto
  obtain t where s: "clean_step\<^sup>*\<^sup>* (sample_ker sample_fs) t" "sock_used 1 2 3 t" "find (\<lambda>i. f_ref (k_ftable t ! i) = 0) [0..<NFILE] = Some 1" "k_mem t = [48]" "k_live t = [40]"
    using sample_connected by blast
  note own = objects_owned [OF sample_no_files s(1), THEN conjunct2, THEN conjunct2, THEN conjunct2, THEN conjunct2, THEN conjunct2]
  have "\<exists>u. sys_connect 1 2 3 t = Some (Inr (-1, u)) \<and> k_bad u = [48]"
    by (rule own [rule_format, of 1 2 3 1 48 "[]"]) (simp add: s)
  then show "\<exists>t u. clean_step\<^sup>*\<^sup>* (sample_ker sample_fs) t \<and> {40} = set (k_live t) \<and> sys_connect 1 2 3 t = Some (Inr (-1, u)) \<and> k_bad u = [48]"
    using s by auto
qed

end
