(* ===== verification/Virtio.thy ===== *)
theory Virtio
  imports Monad Ring
begin

text \<open>
  The disk driver of \<^verbatim>\<open>kernel/virtio_disk.c\<close>: descriptors, the two rings it shares with the device, the
  submission of a request, the interrupt handler and the end of a request. Requests of any number of tasks, the
  device and the interrupt handler interleave: \<open>vstep\<close> is one section of the driver under
  \<^verbatim>\<open>vdisk_lock\<close>, or one action of the device or of the owner of a buffer.

  The device is not part of the repository. It is a parameter \<open>serve\<close> of the model, of which
  \<open>device_ok\<close> assumes what the virtio specification promises: for a chain of three descriptors
  that name a request header, a buffer and a status byte it transfers the two sectors of the block, writes
  the status and appends the head of the chain to the used ring. It takes heads off the available ring in order and
  serves them in any order. An address given to the device is the object it points to.
\<close>

section \<open>State\<close>

definition NUM :: nat where "NUM = 8"
definition VRING_DESC_F_NEXT :: u16 where "VRING_DESC_F_NEXT = 1"
definition VRING_DESC_F_WRITE :: u16 where "VRING_DESC_F_WRITE = 2"
definition VIRTIO_BLK_T_IN :: u32 where "VIRTIO_BLK_T_IN = 0"
definition VIRTIO_BLK_T_OUT :: u32 where "VIRTIO_BLK_T_OUT = 1"

datatype dma = Nowhere | OpAddr nat | DataAddr nat | StatusAddr nat

record virtq_desc =
  d_addr :: dma
  d_len :: u32
  d_flags :: u16
  d_next :: u16

record virtio_blk_req =
  rq_type :: u32
  rq_reserved :: u32
  rq_sector :: u64

text \<open>The fields of a \<^verbatim>\<open>struct buf\<close> the driver uses; \<open>vb_disk\<close> is set while the device owns the buffer.\<close>

record vbuf =
  vb_blockno :: u32
  vb_disk :: int
  vb_data :: "u8 list"

text \<open>
  A ring with the counter of its reader and of its writer. Of the available ring the driver is the writer
  (\<^verbatim>\<open>avail->idx\<close>), of the used ring the reader (\<^verbatim>\<open>disk.used_idx\<close>).
\<close>

record 'a vring =
  r_buf :: "'a list"
  r_rd :: u16
  r_wr :: u16

record vdisk =
  vd_desc :: "nat \<Rightarrow> virtq_desc"
  vd_avail :: "u16 vring"
  vd_used :: "u32 vring"
  vd_free :: "nat \<Rightarrow> bool"
  vd_b :: "nat \<Rightarrow> nat"
  vd_status :: "nat \<Rightarrow> u8"
  vd_ops :: "nat \<Rightarrow> virtio_blk_req"
  vd_bufs :: "nat \<Rightarrow> vbuf"
  free_buf_condition :: int

definition upd_desc :: "nat \<Rightarrow> virtq_desc \<Rightarrow> vdisk \<Rightarrow> vdisk" where
  "upd_desc i x d = d\<lparr>vd_desc := (vd_desc d)(i := x)\<rparr>"

definition upd_vbuf :: "nat \<Rightarrow> (vbuf \<Rightarrow> vbuf) \<Rightarrow> vdisk \<Rightarrow> vdisk" where
  "upd_vbuf b f d = d\<lparr>vd_bufs := (vd_bufs d)(b := f (vd_bufs d b))\<rparr>"

definition ring_put :: "'a \<Rightarrow> 'a vring \<Rightarrow> 'a vring" where
  "ring_put x r = r\<lparr>r_buf := (r_buf r)[unat (r_wr r) mod NUM := x], r_wr := r_wr r + 1\<rparr>"

definition ring_first :: "'a vring \<Rightarrow> 'a" where "ring_first r = r_buf r ! (unat (r_rd r) mod NUM)"

definition ring_skip :: "'a vring \<Rightarrow> 'a vring" where "ring_skip r = r\<lparr>r_rd := r_rd r + 1\<rparr>"

section \<open>The driver\<close>

definition free_desc :: "nat \<Rightarrow> (vdisk, unit) comp" where
  "free_desc i d =
     (if i \<ge> NUM then Some (Inl (Panic ''free_desc 1''))
      else if vd_free d i then Some (Inl (Panic ''free_desc 2''))
      else Some (Inr ((), (upd_desc i \<lparr>d_addr = Nowhere, d_len = 0, d_flags = 0, d_next = 0\<rparr> d)
                            \<lparr>vd_free := (vd_free d)(i := True), free_buf_condition := 1\<rparr>)))"

partial_function (option) free_chain :: "nat \<Rightarrow> vdisk \<Rightarrow> (unit \<times> vdisk) result option" where
  "free_chain i d =
     (let flag = d_flags (vd_desc d i);
          nx = unat (d_next (vd_desc d i))
      in bindC (free_desc i) (\<lambda>_ d. if flag AND VRING_DESC_F_NEXT \<noteq> 0 then free_chain nx d else Some (Inr ((), d))) d)"

definition alloc_desc :: "(vdisk, nat option) comp" where
  "alloc_desc d =
     (case List.find (vd_free d) [0..<NUM] of
        Some i \<Rightarrow> Some (Inr (Some i, d\<lparr>vd_free := (vd_free d)(i := False)\<rparr>))
      | None \<Rightarrow> Some (Inr (None, d)))"

text \<open>\<open>idx\<close> are the descriptors allocated so far; when one is missing they are freed again.\<close>

fun alloc3_loop :: "nat \<Rightarrow> nat list \<Rightarrow> vdisk \<Rightarrow> (nat list option \<times> vdisk) result option" where
  "alloc3_loop 0 idx d = Some (Inr (Some idx, d))"
| "alloc3_loop (Suc k) idx d =
     bindC alloc_desc (\<lambda>r. case r of Some i \<Rightarrow> alloc3_loop k (idx @ [i]) | None \<Rightarrow> thenC (forC free_desc idx) (retC None)) d"

definition alloc3_desc :: "(vdisk, nat list option) comp" where "alloc3_desc = alloc3_loop 3 []"

definition sector_of :: "u32 \<Rightarrow> u64" where "sector_of blockno = ucast (blockno * 2)"

text \<open>The part of \<^verbatim>\<open>virtio_disk_rw\<close> that fills three descriptors and hands them to the device.\<close>

definition rw_submit :: "nat \<Rightarrow> bool \<Rightarrow> nat list \<Rightarrow> vdisk \<Rightarrow> vdisk" where
  "rw_submit b wr idx d =
     (let i0 = idx ! 0; i1 = idx ! 1; i2 = idx ! 2;
          sector = sector_of (vb_blockno (vd_bufs d b));
          d = d\<lparr>vd_ops := (vd_ops d)(i0 := \<lparr>rq_type = (if wr then VIRTIO_BLK_T_OUT else VIRTIO_BLK_T_IN), rq_reserved = 0, rq_sector = sector\<rparr>)\<rparr>;
          d = upd_desc i0 \<lparr>d_addr = OpAddr i0, d_len = 16, d_flags = VRING_DESC_F_NEXT, d_next = of_nat i1\<rparr> d;
          d = upd_desc i1 \<lparr>d_addr = DataAddr b, d_len = 1024, d_flags = (if wr then 0 else VRING_DESC_F_WRITE) OR VRING_DESC_F_NEXT, d_next = of_nat i2\<rparr> d;
          d = d\<lparr>vd_status := (vd_status d)(i0 := 0xff)\<rparr>;
          d = upd_desc i2 \<lparr>d_addr = StatusAddr i0, d_len = 1, d_flags = VRING_DESC_F_WRITE, d_next = 0\<rparr> d;
          d = upd_vbuf b (\<lambda>x. x\<lparr>vb_disk := 1\<rparr>) d;
          d = d\<lparr>vd_b := (vd_b d)(i0 := b)\<rparr>
      in d\<lparr>vd_avail := ring_put (of_nat i0) (vd_avail d)\<rparr>)"

text \<open>
  \<^verbatim>\<open>virtio_disk_rw\<close> up to the end of its first section: the descriptors of the request, or \<open>None\<close> when
  it has to wait for descriptors; and its last section, when the device is done with the buffer.
\<close>

definition rw_begin :: "nat \<Rightarrow> bool \<Rightarrow> (vdisk, nat list option) comp" where
  "rw_begin b wr =
     bindC alloc3_desc (\<lambda>r. case r of
       None \<Rightarrow> retC None
     | Some idx \<Rightarrow> thenC (modC (\<lambda>d. rw_submit b wr idx (d\<lparr>free_buf_condition := 0\<rparr>))) (retC (Some idx)))"

definition rw_end :: "nat list \<Rightarrow> (vdisk, unit) comp" where
  "rw_end idx = thenC (modC (\<lambda>d. d\<lparr>vd_b := (vd_b d)(idx ! 0 := 0)\<rparr>)) (free_chain (idx ! 0))"

partial_function (option) virtio_disk_intr :: "vdisk \<Rightarrow> (unit \<times> vdisk) result option" where
  "virtio_disk_intr d =
     (if r_rd (vd_used d) \<noteq> r_wr (vd_used d)
      then let id = unat (ring_first (vd_used d))
           in if id \<ge> NUM then Some (Inl OutOfBounds)
              else if vd_status d id \<noteq> 0 then Some (Inl (Panic ''virtio_disk_intr status''))
              else if vd_b d id = 0 then Some (Inl NullDeref)
              else let d = upd_vbuf (vd_b d id) (\<lambda>x. x\<lparr>vb_disk := 0\<rparr>) d;
                       d = d\<lparr>vd_used := ring_skip (vd_used d)\<rparr>
                   in virtio_disk_intr d
      else Some (Inr ((), d)))"

section \<open>Initialisation\<close>

text \<open>
  \<open>regs\<close> are the registers as the device lets the driver read them, \<open>pages\<close> is the address of
  \<^verbatim>\<open>disk.pages\<close>; the result holds the registers written, in order.
\<close>

definition clear_features :: "nat list \<Rightarrow> u64 \<Rightarrow> u64" where
  "clear_features bs f = fold (\<lambda>n f. f AND NOT (2 ^ n)) bs f"

definition virtio_disk_init :: "(u64 \<Rightarrow> u32) \<Rightarrow> u64 \<Rightarrow> (vdisk, (u64 \<times> u32) list) comp" where
  "virtio_disk_init regs pages d =
     (if regs 0 \<noteq> 0x74726976 \<or> regs 4 \<noteq> 1 \<or> regs 8 \<noteq> 2 \<or> regs 0xc \<noteq> 0x554d4551
      then Some (Inl (Panic ''could not find virtio disk''))
      else if regs 0x34 = 0 then Some (Inl (Panic ''virtio disk has no queue 0''))
      else if regs 0x34 < 8 then Some (Inl (Panic ''virtio disk max queue too short''))
      else Some (Inr
        ([(0x70, 1), (0x70, 3), (0x20, ucast (clear_features [5, 7, 11, 12, 27, 29, 28] (ucast (regs 0x10)))),
          (0x70, 11), (0x70, 15), (0x28, 4096), (0x30, 0), (0x38, 8), (0x40, ucast (drop_bit 12 pages))],
         d\<lparr>vd_desc := (\<lambda>_. \<lparr>d_addr = Nowhere, d_len = 0, d_flags = 0, d_next = 0\<rparr>),
           vd_avail := (vd_avail d)\<lparr>r_buf := replicate NUM 0, r_wr := 0\<rparr>,
           vd_used := (vd_used d)\<lparr>r_buf := replicate NUM 0, r_wr := 0\<rparr>,
           vd_free := (\<lambda>i. i < NUM \<or> vd_free d i)\<rparr>)))"

section \<open>Tasks, device and interrupts\<close>

text \<open>
  A task has no request, is about to enter the driver with one, sleeps until \<^verbatim>\<open>free_buf_condition\<close> is set, or waits
  for its request. With the latter goes the contents that buffer and block will have in the end: those of
  the buffer for a write, of the block for a read, when the request was made.
\<close>

datatype vtask = Absent | Entering nat bool | Sleeping nat bool | InFlight "nat list" nat bool "u8 list"

record vsys =
  vs_d :: vdisk
  vs_todo :: "nat list"
  vs_sec :: "nat \<Rightarrow> u8 list"
  vs_task :: "nat \<Rightarrow> vtask"

fun uses :: "vtask \<Rightarrow> nat option" where
  "uses Absent = None"
| "uses (Entering b wr) = Some b"
| "uses (Sleeping b wr) = Some b"
| "uses (InFlight idx b wr v) = Some b"

definition block_of :: "(nat \<Rightarrow> u8 list) \<Rightarrow> u32 \<Rightarrow> u8 list" where
  "block_of sec n = sec (2 * unat n) @ sec (2 * unat n + 1)"

text \<open>The chain \<open>[h, i, j]\<close> of a request for buffer \<open>b\<close> as the specification wants it.\<close>

definition chain :: "vdisk \<Rightarrow> nat \<Rightarrow> nat \<Rightarrow> nat \<Rightarrow> nat \<Rightarrow> bool \<Rightarrow> bool" where
  "chain d h i j b wr \<longleftrightarrow>
     vd_desc d h = \<lparr>d_addr = OpAddr h, d_len = 16, d_flags = VRING_DESC_F_NEXT, d_next = of_nat i\<rparr> \<and>
     vd_desc d i = \<lparr>d_addr = DataAddr b, d_len = 1024, d_flags = (if wr then 0 else VRING_DESC_F_WRITE) OR VRING_DESC_F_NEXT, d_next = of_nat j\<rparr> \<and>
     vd_desc d j = \<lparr>d_addr = StatusAddr h, d_len = 1, d_flags = VRING_DESC_F_WRITE, d_next = 0\<rparr> \<and>
     rq_type (vd_ops d h) = (if wr then VIRTIO_BLK_T_OUT else VIRTIO_BLK_T_IN)"

definition completed :: "nat \<Rightarrow> vdisk \<Rightarrow> vdisk" where
  "completed h d = d\<lparr>vd_status := (vd_status d)(h := 0), vd_used := ring_put (of_nat h) (vd_used d)\<rparr>"

definition device_ok :: "(nat \<Rightarrow> vdisk \<Rightarrow> (nat \<Rightarrow> u8 list) \<Rightarrow> vdisk \<times> (nat \<Rightarrow> u8 list)) \<Rightarrow> bool" where
  "device_ok serve \<longleftrightarrow> (\<forall>h i j b wr d sec. h < NUM \<and> i < NUM \<and> j < NUM \<and> chain d h i j b wr \<and> length (vb_data (vd_bufs d b)) = 1024 \<longrightarrow>
     (let n = unat (rq_sector (vd_ops d h))
      in serve h d sec =
           (if wr then (completed h d, sec(n := take 512 (vb_data (vd_bufs d b)), n + 1 := drop 512 (vb_data (vd_bufs d b))))
            else (completed h (upd_vbuf b (\<lambda>x. x\<lparr>vb_data := sec n @ sec (n + 1)\<rparr>) d), sec))))"

inductive vstep :: "(nat \<Rightarrow> vdisk \<Rightarrow> (nat \<Rightarrow> u8 list) \<Rightarrow> vdisk \<times> (nat \<Rightarrow> u8 list)) \<Rightarrow> vsys \<Rightarrow> vsys \<Rightarrow> bool"
  for serve where
  owner: "\<forall>t. uses (vs_task S t) \<noteq> Some b \<Longrightarrow> length x = 1024 \<Longrightarrow>
    vstep serve S (S\<lparr>vs_d := upd_vbuf b (\<lambda>y. y\<lparr>vb_blockno := n, vb_data := x\<rparr>) (vs_d S)\<rparr>)"
| request: "vs_task S t = Absent \<Longrightarrow> b \<noteq> 0 \<Longrightarrow> length (vb_data (vd_bufs (vs_d S) b)) = 1024 \<Longrightarrow> unat (vb_blockno (vd_bufs (vs_d S) b)) < 2 ^ 31 \<Longrightarrow>
    \<forall>t b'. uses (vs_task S t) = Some b' \<longrightarrow> b' \<noteq> b \<and> vb_blockno (vd_bufs (vs_d S) b') \<noteq> vb_blockno (vd_bufs (vs_d S) b) \<Longrightarrow>
    vstep serve S (S\<lparr>vs_task := (vs_task S)(t := Entering b wr)\<rparr>)"
| submit: "vs_task S t = Entering b wr \<Longrightarrow> rw_begin b wr (vs_d S) = Some (Inr (Some idx, d)) \<Longrightarrow>
    vstep serve S (S\<lparr>vs_d := d, vs_task := (vs_task S)(t := InFlight idx b wr
      (if wr then vb_data (vd_bufs (vs_d S) b) else block_of (vs_sec S) (vb_blockno (vd_bufs (vs_d S) b))))\<rparr>)"
| full: "vs_task S t = Entering b wr \<Longrightarrow> rw_begin b wr (vs_d S) = Some (Inr (None, d)) \<Longrightarrow>
    vstep serve S (S\<lparr>vs_d := d, vs_task := (vs_task S)(t := Sleeping b wr)\<rparr>)"
| awake: "vs_task S t = Sleeping b wr \<Longrightarrow> free_buf_condition (vs_d S) = 1 \<Longrightarrow>
    vstep serve S (S\<lparr>vs_task := (vs_task S)(t := Entering b wr)\<rparr>)"
| fetch: "r_rd (vd_avail (vs_d S)) \<noteq> r_wr (vd_avail (vs_d S)) \<Longrightarrow>
    vstep serve S (S\<lparr>vs_d := (vs_d S)\<lparr>vd_avail := ring_skip (vd_avail (vs_d S))\<rparr>,
      vs_todo := vs_todo S @ [unat (ring_first (vd_avail (vs_d S)))]\<rparr>)"
| serve: "h \<in> set (vs_todo S) \<Longrightarrow> serve h (vs_d S) (vs_sec S) = (d, sec) \<Longrightarrow>
    vstep serve S (S\<lparr>vs_d := d, vs_sec := sec, vs_todo := remove1 h (vs_todo S)\<rparr>)"
| intr: "virtio_disk_intr (vs_d S) = Some (Inr ((), d)) \<Longrightarrow> vstep serve S (S\<lparr>vs_d := d\<rparr>)"
| finish: "vs_task S t = InFlight idx b wr v \<Longrightarrow> vb_disk (vd_bufs (vs_d S) b) = 0 \<Longrightarrow> rw_end idx (vs_d S) = Some (Inr ((), d)) \<Longrightarrow>
    vstep serve S (S\<lparr>vs_d := d, vs_task := (vs_task S)(t := Absent)\<rparr>)"

section \<open>The rings\<close>

definition ring_ok :: "'a vring \<Rightarrow> bool" where
  "ring_ok r \<longleftrightarrow> length (r_buf r) = NUM \<and> unat (r_wr r - r_rd r) \<le> NUM"

definition ring_list :: "'a vring \<Rightarrow> 'a list" where
  "ring_list r = window NUM (r_buf r) (r_rd r) (unat (r_wr r - r_rd r))"

interpretation vr: ring_buffer NUM r_buf r_rd r_wr ring_ok ring_list "\<lambda>r. r_wr r = r_rd r + of_nat NUM" "\<lambda>r. r_wr r = r_rd r"
    ring_put ring_first ring_skip
  by unfold_locales (simp_all add: NUM_def ring_ok_def ring_list_def ring_put_def ring_first_def ring_skip_def slot_def)

lemma ring_put_list: "ring_ok r \<Longrightarrow> length (ring_list r) < NUM \<Longrightarrow> ring_ok (ring_put x r) \<and> ring_list (ring_put x r) = ring_list r @ [x]"
  using vr.enq [of r x] vr.full [of r] by auto

lemma ring_skip_list: "ring_ok r \<Longrightarrow> r_rd r \<noteq> r_wr r \<Longrightarrow> ring_ok (ring_skip r) \<and> ring_list r = ring_first r # ring_list (ring_skip r)"
  using vr.deq [of r] by auto

lemma ring_list_Nil: "ring_ok r \<Longrightarrow> r_rd r = r_wr r \<longleftrightarrow> ring_list r = []"
  using vr.empty [of r] by auto

section \<open>What the sections of the driver do\<close>

lemma unat_idx: "i < NUM \<Longrightarrow> unat (of_nat i :: u16) = i" "i < NUM \<Longrightarrow> unat (of_nat i :: u32) = i"
  by (simp_all add: NUM_def unat_of_nat take_bit_nat_eq_self)

lemma alloc_desc_cases:
  obtains (none) "alloc_desc d = Some (Inr (None, d))" "\<forall>i < NUM. \<not> vd_free d i"
  | (some) i where "alloc_desc d = Some (Inr (Some i, d\<lparr>vd_free := (vd_free d)(i := False)\<rparr>))" "i < NUM" "vd_free d i"
proof (cases "List.find (vd_free d) [0..<NUM]")
  case None
  then have "\<forall>i < NUM. \<not> vd_free d i" by (auto simp: find_None_iff)
  then show thesis using none None by (simp add: alloc_desc_def)
next
  case (Some i)
  then have "i < NUM" "vd_free d i" by (auto simp: find_Some_iff)
  then show thesis using some [of i] Some by (simp add: alloc_desc_def)
qed

text \<open>A state that differs only in the contents of free descriptors and in the condition of the waiters.\<close>

definition free_differ :: "vdisk \<Rightarrow> vdisk \<Rightarrow> bool" where
  "free_differ d d' \<longleftrightarrow> (\<exists>D c. d' = d\<lparr>vd_desc := D, free_buf_condition := c\<rparr> \<and> (\<forall>k. \<not> vd_free d k \<longrightarrow> D k = vd_desc d k))"

lemma alloc3_cases:
  obtains (none) d' where "alloc3_desc d = Some (Inr (None, d'))" "free_differ d d'"
  | (some) h i j where "alloc3_desc d = Some (Inr (Some [h, i, j], d\<lparr>vd_free := (vd_free d)(h := False, i := False, j := False)\<rparr>))"
      "distinct [h, i, j]" "h < NUM" "i < NUM" "j < NUM" "vd_free d h" "vd_free d i" "vd_free d j"
proof (cases d rule: alloc_desc_cases)
  case none
  have "free_differ d d" by (auto simp: free_differ_def intro!: exI [of _ "vd_desc d"] exI [of _ "free_buf_condition d"])
  then show thesis using none that(1) by (simp add: alloc3_desc_def numeral_3_eq_3 thenC_def retC_def)
next
  case (some h)
  define d1 where "d1 = d\<lparr>vd_free := (vd_free d)(h := False)\<rparr>"
  note h = some [folded d1_def]
  show thesis
  proof (cases d1 rule: alloc_desc_cases)
    case none
    let ?d = "(upd_desc h \<lparr>d_addr = Nowhere, d_len = 0, d_flags = 0, d_next = 0\<rparr> d1)\<lparr>vd_free := (vd_free d1)(h := True), free_buf_condition := 1\<rparr>"
    have "alloc3_desc d = Some (Inr (None, ?d))"
      using h none by (simp add: alloc3_desc_def numeral_3_eq_3 thenC_def retC_def free_desc_def bindC_def d1_def)
    moreover have "(vd_free d1)(h := True) = vd_free d" using h(3) by (auto simp: d1_def fun_eq_iff)
    then have "free_differ d ?d"
      using h(3) by (auto simp: free_differ_def d1_def upd_desc_def intro!: exI [of _ "(vd_desc d)(h := _)"] exI [of _ 1])
    ultimately show thesis by (rule that(1))
  next
    case (some i)
    define d2 where "d2 = d1\<lparr>vd_free := (vd_free d1)(i := False)\<rparr>"
    note i = some [folded d2_def]
    have ih: "i \<noteq> h" using i(3) by (auto simp: d1_def)
    show thesis
    proof (cases d2 rule: alloc_desc_cases)
      case none
      let ?z = "\<lparr>d_addr = Nowhere, d_len = 0, d_flags = 0, d_next = 0\<rparr>"
      let ?d = "d\<lparr>vd_desc := (vd_desc d)(h := ?z, i := ?z), free_buf_condition := 1\<rparr>"
      have "(vd_free d)(h := False, i := False, h := True, i := True) = vd_free d" using h(3) i(3) ih by (auto simp: d1_def fun_eq_iff)
      then have "alloc3_desc d = Some (Inr (None, ?d))"
        using h i none ih by (simp add: alloc3_desc_def numeral_3_eq_3 thenC_def retC_def free_desc_def bindC_def d1_def d2_def upd_desc_def fun_upd_twist)
      moreover have "free_differ d ?d"
        using h(3) i(3) ih by (auto simp: free_differ_def d1_def intro!: exI [of _ "(vd_desc d)(h := ?z, i := ?z)"] exI [of _ 1])
      ultimately show thesis by (rule that(1))
    next
      case (some j)
      have "j \<noteq> h" "j \<noteq> i" using some(3) by (auto simp: d1_def d2_def split: if_splits)
      then show thesis
        using that(2) [of h i j] some h i ih by (simp add: alloc3_desc_def numeral_3_eq_3 d1_def d2_def)
    qed
  qed
qed

abbreviation zero_desc :: virtq_desc where
  "zero_desc \<equiv> \<lparr>d_addr = Nowhere, d_len = 0, d_flags = 0, d_next = 0\<rparr>"

lemma flag_facts:
  "VRING_DESC_F_NEXT AND VRING_DESC_F_NEXT \<noteq> 0" "VRING_DESC_F_WRITE AND VRING_DESC_F_NEXT = 0"
  "((if wr then 0 else VRING_DESC_F_WRITE) OR VRING_DESC_F_NEXT) AND VRING_DESC_F_NEXT \<noteq> 0"
  by (simp_all add: VRING_DESC_F_NEXT_def VRING_DESC_F_WRITE_def)

lemma free_chain_chain:
  assumes "chain d h i j b wr" "distinct [h, i, j]" "h < NUM" "i < NUM" "j < NUM" "\<not> vd_free d h" "\<not> vd_free d i" "\<not> vd_free d j"
  shows "free_chain h d = Some (Inr ((), d\<lparr>vd_desc := (vd_desc d)(h := zero_desc, i := zero_desc, j := zero_desc),
    vd_free := (vd_free d)(h := True, i := True, j := True), free_buf_condition := 1\<rparr>))"
proof -
  have c: "vd_desc d h = \<lparr>d_addr = OpAddr h, d_len = 16, d_flags = VRING_DESC_F_NEXT, d_next = of_nat i\<rparr>"
    "vd_desc d i = \<lparr>d_addr = DataAddr b, d_len = 1024, d_flags = (if wr then 0 else VRING_DESC_F_WRITE) OR VRING_DESC_F_NEXT, d_next = of_nat j\<rparr>"
    "vd_desc d j = \<lparr>d_addr = StatusAddr h, d_len = 1, d_flags = VRING_DESC_F_WRITE, d_next = 0\<rparr>"
    using assms(1) by (auto simp: chain_def)
  let ?d1 = "d\<lparr>vd_desc := (vd_desc d)(h := zero_desc), vd_free := (vd_free d)(h := True), free_buf_condition := 1\<rparr>"
  let ?d2 = "d\<lparr>vd_desc := (vd_desc d)(h := zero_desc, i := zero_desc), vd_free := (vd_free d)(h := True, i := True), free_buf_condition := 1\<rparr>"
  have "free_chain h d = free_chain i ?d1"
    using assms c(1) flag_facts(1) by (subst free_chain.simps) (simp add: Let_def free_desc_def upd_desc_def bindC_def unat_idx)
  also have "\<dots> = free_chain j ?d2"
    using assms c(2) flag_facts(3) by (subst free_chain.simps) (simp add: Let_def free_desc_def upd_desc_def bindC_def unat_idx)
  also have "\<dots> = Some (Inr ((), d\<lparr>vd_desc := (vd_desc d)(h := zero_desc, i := zero_desc, j := zero_desc),
    vd_free := (vd_free d)(h := True, i := True, j := True), free_buf_condition := 1\<rparr>))"
    using assms c(3) flag_facts(2) by (subst free_chain.simps) (simp add: Let_def free_desc_def upd_desc_def bindC_def unat_idx)
  finally show ?thesis .
qed

text \<open>The interrupt handler releases the buffers of all requests on the used ring.\<close>

definition clear_disk :: "nat set \<Rightarrow> (nat \<Rightarrow> vbuf) \<Rightarrow> nat \<Rightarrow> vbuf" where
  "clear_disk X B b = (if b \<in> X then (B b)\<lparr>vb_disk := 0\<rparr> else B b)"

lemma virtio_disk_intr_all:
  assumes "ring_ok (vd_used d)" "\<forall>x \<in> set (ring_list (vd_used d)). unat x < NUM \<and> vd_status d (unat x) = 0 \<and> vd_b d (unat x) \<noteq> 0"
  shows "\<exists>u. virtio_disk_intr d = Some (Inr ((), d\<lparr>vd_used := u,
      vd_bufs := clear_disk (vd_b d ` unat ` set (ring_list (vd_used d))) (vd_bufs d)\<rparr>)) \<and> ring_ok u \<and> ring_list u = []"
  using assms
proof (induction "length (ring_list (vd_used d))" arbitrary: d)
  case 0
  then have "r_rd (vd_used d) = r_wr (vd_used d)" using ring_list_Nil by auto
  moreover have "clear_disk {} (vd_bufs d) = vd_bufs d" by (simp add: clear_disk_def fun_eq_iff)
  ultimately show ?case using 0 by (subst virtio_disk_intr.simps) (auto intro!: exI [of _ "vd_used d"])
next
  case (Suc n)
  let ?r = "vd_used d"
  have ne: "r_rd ?r \<noteq> r_wr ?r" using Suc.hyps(2) ring_list_Nil [OF Suc.prems(1)] by auto
  from ring_skip_list [OF Suc.prems(1) ne] have sk: "ring_ok (ring_skip ?r)" "ring_list ?r = ring_first ?r # ring_list (ring_skip ?r)" by auto
  let ?id = "unat (ring_first ?r)"
  have id: "?id < NUM" "vd_status d ?id = 0" "vd_b d ?id \<noteq> 0" using Suc.prems(2) sk(2) by auto
  define d1 where "d1 = (upd_vbuf (vd_b d ?id) (\<lambda>x. x\<lparr>vb_disk := 0\<rparr>) d)\<lparr>vd_used := ring_skip ?r\<rparr>"
  have "virtio_disk_intr d = virtio_disk_intr d1"
    using ne id by (subst virtio_disk_intr.simps) (simp add: Let_def d1_def upd_vbuf_def)
  moreover have "\<exists>u. virtio_disk_intr d1 = Some (Inr ((), d1\<lparr>vd_used := u,
      vd_bufs := clear_disk (vd_b d1 ` unat ` set (ring_list (vd_used d1))) (vd_bufs d1)\<rparr>)) \<and> ring_ok u \<and> ring_list u = []"
    by (rule Suc.hyps(1)) (use Suc.hyps(2) Suc.prems(2) sk in \<open>auto simp: d1_def upd_vbuf_def\<close>)
  moreover have "clear_disk (vd_b d1 ` unat ` set (ring_list (vd_used d1))) (vd_bufs d1) =
      clear_disk (vd_b d ` unat ` set (ring_list ?r)) (vd_bufs d)"
    unfolding sk(2) by (auto simp: d1_def upd_vbuf_def clear_disk_def fun_eq_iff)
  ultimately show ?case by (auto simp: d1_def upd_vbuf_def)
qed

section \<open>The invariant\<close>

definition avail_heads :: "vdisk \<Rightarrow> nat list" where "avail_heads d = map unat (ring_list (vd_avail d))"
definition used_heads :: "vdisk \<Rightarrow> nat list" where "used_heads d = map unat (ring_list (vd_used d))"

text \<open>The heads of the requests between submission and interrupt, and those not yet served.\<close>

definition unserved :: "vsys \<Rightarrow> nat list" where "unserved S = avail_heads (vs_d S) @ vs_todo S"
definition pending :: "vsys \<Rightarrow> nat list" where "pending S = unserved S @ used_heads (vs_d S)"

definition op_ok :: "vsys \<Rightarrow> nat list \<Rightarrow> nat \<Rightarrow> bool \<Rightarrow> u8 list \<Rightarrow> bool" where
  "op_ok S idx b wr v \<longleftrightarrow> (\<exists>h i j. idx = [h, i, j] \<and> distinct idx \<and> h < NUM \<and> i < NUM \<and> j < NUM \<and> chain (vs_d S) h i j b wr \<and>
     rq_sector (vd_ops (vs_d S) h) = sector_of (vb_blockno (vd_bufs (vs_d S) b)) \<and> vd_b (vs_d S) h = b \<and>
     vb_disk (vd_bufs (vs_d S) b) = of_bool (h \<in> set (pending S)) \<and> length v = 1024 \<and>
     (wr \<longrightarrow> vb_data (vd_bufs (vs_d S) b) = v) \<and> (\<not> wr \<longrightarrow> block_of (vs_sec S) (vb_blockno (vd_bufs (vs_d S) b)) = v) \<and>
     (h \<notin> set (unserved S) \<longrightarrow> vb_data (vd_bufs (vs_d S) b) = v \<and> block_of (vs_sec S) (vb_blockno (vd_bufs (vs_d S) b)) = v \<and>
        vd_status (vs_d S) h = 0))"

definition ops_inv :: "vsys \<Rightarrow> bool" where
  "ops_inv S \<longleftrightarrow> (\<forall>t idx b wr v. vs_task S t = InFlight idx b wr v \<longrightarrow> op_ok S idx b wr v)"

definition desc_inv :: "vsys \<Rightarrow> bool" where
  "desc_inv S \<longleftrightarrow>
     (\<forall>t t' idx b wr v idx' b' wr' v'. t \<noteq> t' \<and> vs_task S t = InFlight idx b wr v \<and> vs_task S t' = InFlight idx' b' wr' v' \<longrightarrow>
        set idx \<inter> set idx' = {}) \<and>
     (\<forall>k < NUM. vd_free (vs_d S) k \<longleftrightarrow> (\<forall>t idx b wr v. vs_task S t = InFlight idx b wr v \<longrightarrow> k \<notin> set idx))"

definition bufs_inv :: "vsys \<Rightarrow> bool" where
  "bufs_inv S \<longleftrightarrow>
     (\<forall>t t' b b'. t \<noteq> t' \<and> uses (vs_task S t) = Some b \<and> uses (vs_task S t') = Some b' \<longrightarrow>
        b \<noteq> b' \<and> vb_blockno (vd_bufs (vs_d S) b) \<noteq> vb_blockno (vd_bufs (vs_d S) b')) \<and>
     (\<forall>t b. uses (vs_task S t) = Some b \<longrightarrow>
        b \<noteq> 0 \<and> unat (vb_blockno (vd_bufs (vs_d S) b)) < 2 ^ 31 \<and> length (vb_data (vd_bufs (vs_d S) b)) = 1024)"

definition rings_inv :: "vsys \<Rightarrow> bool" where
  "rings_inv S \<longleftrightarrow> ring_ok (vd_avail (vs_d S)) \<and> ring_ok (vd_used (vs_d S)) \<and> distinct (pending S) \<and>
     (\<forall>h \<in> set (pending S). \<exists>t idx b wr v. vs_task S t = InFlight idx b wr v \<and> h = hd idx)"

definition disk_inv :: "vsys \<Rightarrow> bool" where
  "disk_inv S \<longleftrightarrow> ops_inv S \<and> desc_inv S \<and> bufs_inv S \<and> rings_inv S \<and> (\<forall>n. length (vs_sec S n) = 512)"

lemma disk_inv_op: "disk_inv S \<Longrightarrow> vs_task S t = InFlight idx b wr v \<Longrightarrow> op_ok S idx b wr v"
  by (simp add: disk_inv_def ops_inv_def)

lemma disk_inv_buf:
  assumes "disk_inv S" "uses (vs_task S t) = Some b"
  shows "b \<noteq> 0" "unat (vb_blockno (vd_bufs (vs_d S) b)) < 2 ^ 31" "length (vb_data (vd_bufs (vs_d S) b)) = 1024"
    "t' \<noteq> t \<Longrightarrow> uses (vs_task S t') = Some b' \<Longrightarrow> b' \<noteq> b \<and> vb_blockno (vd_bufs (vs_d S) b') \<noteq> vb_blockno (vd_bufs (vs_d S) b)"
  using assms unfolding disk_inv_def bufs_inv_def by metis+

definition in_flight :: "vsys \<Rightarrow> nat \<Rightarrow> nat list \<Rightarrow> bool" where
  "in_flight S t idx \<longleftrightarrow> (\<exists>b wr v. vs_task S t = InFlight idx b wr v)"

lemma desc_invD:
  assumes "disk_inv S"
  shows "t \<noteq> t' \<Longrightarrow> in_flight S t idx \<Longrightarrow> in_flight S t' idx' \<Longrightarrow> set idx \<inter> set idx' = {}"
    "k < NUM \<Longrightarrow> vd_free (vs_d S) k \<longleftrightarrow> (\<forall>t idx. in_flight S t idx \<longrightarrow> k \<notin> set idx)"
  using assms unfolding disk_inv_def desc_inv_def in_flight_def by blast+

lemma desc_invI:
  assumes "\<And>t t' idx idx'. t \<noteq> t' \<Longrightarrow> in_flight S t idx \<Longrightarrow> in_flight S t' idx' \<Longrightarrow> set idx \<inter> set idx' = {}"
    "\<And>k. k < NUM \<Longrightarrow> vd_free (vs_d S) k \<longleftrightarrow> (\<forall>t idx. in_flight S t idx \<longrightarrow> k \<notin> set idx)"
  shows "desc_inv S"
  using assms unfolding desc_inv_def in_flight_def by blast

lemma in_flight_upd:
  "in_flight (S\<lparr>vs_d := d, vs_task := (vs_task S)(t := x)\<rparr>) t' idx \<longleftrightarrow>
     (if t' = t then \<exists>b wr v. x = InFlight idx b wr v else in_flight S t' idx)"
  by (simp add: in_flight_def)

lemma in_flight_all:
  "(\<forall>t' idx. in_flight (S\<lparr>vs_d := d, vs_task := (vs_task S)(t := x)\<rparr>) t' idx \<longrightarrow> P idx) \<longleftrightarrow>
     (\<forall>idx b wr v. x = InFlight idx b wr v \<longrightarrow> P idx) \<and> (\<forall>t' idx. t' \<noteq> t \<and> in_flight S t' idx \<longrightarrow> P idx)"
  unfolding in_flight_upd by metis

lemma op_okE:
  assumes "op_ok S idx b wr v"
  obtains h i j where "idx = [h, i, j]" "distinct [h, i, j]" "h < NUM" "i < NUM" "j < NUM" "chain (vs_d S) h i j b wr"
    "rq_sector (vd_ops (vs_d S) h) = sector_of (vb_blockno (vd_bufs (vs_d S) b))" "vd_b (vs_d S) h = b"
    "vb_disk (vd_bufs (vs_d S) b) = of_bool (h \<in> set (pending S))" "length v = 1024"
    "wr \<longrightarrow> vb_data (vd_bufs (vs_d S) b) = v" "\<not> wr \<longrightarrow> block_of (vs_sec S) (vb_blockno (vd_bufs (vs_d S) b)) = v"
    "h \<notin> set (unserved S) \<longrightarrow> vb_data (vd_bufs (vs_d S) b) = v \<and> block_of (vs_sec S) (vb_blockno (vd_bufs (vs_d S) b)) = v \<and>
        vd_status (vs_d S) h = 0"
  using assms unfolding op_ok_def by blast

text \<open>A request is not affected by changes elsewhere.\<close>

lemma op_ok_cong:
  assumes "op_ok S idx b wr v" "\<forall>k \<in> set idx. vd_desc (vs_d T) k = vd_desc (vs_d S) k"
    "vd_ops (vs_d T) (hd idx) = vd_ops (vs_d S) (hd idx)" "vd_b (vs_d T) (hd idx) = vd_b (vs_d S) (hd idx)"
    "vd_status (vs_d T) (hd idx) = vd_status (vs_d S) (hd idx)" "vd_bufs (vs_d T) b = vd_bufs (vs_d S) b"
    "block_of (vs_sec T) (vb_blockno (vd_bufs (vs_d S) b)) = block_of (vs_sec S) (vb_blockno (vd_bufs (vs_d S) b))"
    "hd idx \<in> set (unserved T) \<longleftrightarrow> hd idx \<in> set (unserved S)" "hd idx \<in> set (pending T) \<longleftrightarrow> hd idx \<in> set (pending S)"
  shows "op_ok T idx b wr v"
  using assms(1)
proof (rule op_okE)
  fix h i j assume o: "idx = [h, i, j]" "distinct [h, i, j]" "h < NUM" "i < NUM" "j < NUM" "chain (vs_d S) h i j b wr"
    "rq_sector (vd_ops (vs_d S) h) = sector_of (vb_blockno (vd_bufs (vs_d S) b))" "vd_b (vs_d S) h = b"
    "vb_disk (vd_bufs (vs_d S) b) = of_bool (h \<in> set (pending S))" "length v = 1024"
    "wr \<longrightarrow> vb_data (vd_bufs (vs_d S) b) = v" "\<not> wr \<longrightarrow> block_of (vs_sec S) (vb_blockno (vd_bufs (vs_d S) b)) = v"
    "h \<notin> set (unserved S) \<longrightarrow> vb_data (vd_bufs (vs_d S) b) = v \<and> block_of (vs_sec S) (vb_blockno (vd_bufs (vs_d S) b)) = v \<and>
        vd_status (vs_d S) h = 0"
  have "chain (vs_d T) h i j b wr" using o(1,6) assms(2,3) by (simp add: chain_def)
  then show ?thesis unfolding op_ok_def using o assms(3-9) by (intro exI [of _ h] exI [of _ i] exI [of _ j]) simp
qed

lemma head_unique:
  assumes "disk_inv S" "vs_task S t = InFlight idx b wr v" "vs_task S t' = InFlight idx' b' wr' v'" "hd idx = hd idx'"
  shows "t = t'"
proof (rule ccontr)
  assume "t \<noteq> t'"
  then have "set idx \<inter> set idx' = {}" using assms(1-3) unfolding disk_inv_def desc_inv_def by blast
  moreover have "hd idx \<in> set idx" "hd idx' \<in> set idx'"
    using disk_inv_op [OF assms(1,2)] disk_inv_op [OF assms(1,3)] by (auto simp: op_ok_def)
  ultimately show False using assms(4) by auto
qed

lemma pending_task:
  assumes "disk_inv S" "h \<in> set (pending S)"
  obtains t i j b wr v where "vs_task S t = InFlight [h, i, j] b wr v"
proof -
  obtain t idx b wr v where t: "vs_task S t = InFlight idx b wr v" "h = hd idx"
    using assms by (auto simp: disk_inv_def rings_inv_def)
  then show thesis using disk_inv_op [OF assms(1) t(1)] that by (auto simp: op_ok_def)
qed

lemma pending_bound:
  assumes "disk_inv S" "h \<in> set (pending S)"
  shows "h < NUM" "\<not> vd_free (vs_d S) h"
proof -
  obtain t i j b wr v where t: "vs_task S t = InFlight [h, i, j] b wr v" by (rule pending_task [OF assms])
  show "h < NUM" using disk_inv_op [OF assms(1) t] by (auto simp: op_ok_def)
  then show "\<not> vd_free (vs_d S) h" using t assms(1) by (fastforce simp: disk_inv_def desc_inv_def)
qed

text \<open>There is room in a ring for a head that is not in it.\<close>

lemma ring_room:
  assumes "disk_inv S" "set xs \<subseteq> set (pending S)" "distinct xs" "h < NUM" "h \<notin> set xs"
  shows "length xs < NUM"
proof -
  have "set (h # xs) \<subseteq> {..<NUM}" using pending_bound(1) [OF assms(1)] assms(2,4) by auto
  then have "card (set (h # xs)) \<le> NUM" using card_mono [of "{..<NUM}" "set (h # xs)"] by simp
  then show ?thesis using assms(3,5) distinct_card [of "h # xs"] by simp
qed

section \<open>Every step keeps the invariant\<close>

lemma step_owner:
  assumes "disk_inv S" "\<forall>t. uses (vs_task S t) \<noteq> Some b" "length x = 1024"
  shows "disk_inv (S\<lparr>vs_d := upd_vbuf b (\<lambda>y. y\<lparr>vb_blockno := n, vb_data := x\<rparr>) (vs_d S)\<rparr>)"
proof -
  let ?T = "S\<lparr>vs_d := upd_vbuf b (\<lambda>y. y\<lparr>vb_blockno := n, vb_data := x\<rparr>) (vs_d S)\<rparr>"
  have same: "vd_bufs (vs_d ?T) b' = vd_bufs (vs_d S) b'" if "uses (vs_task S t) = Some b'" for t b'
    using assms(2) that by (auto simp: upd_vbuf_def)
  have eq: "pending ?T = pending S" "unserved ?T = unserved S"
    by (simp_all add: pending_def unserved_def avail_heads_def used_heads_def upd_vbuf_def)
  have "op_ok ?T idx b' wr v" if "vs_task S t = InFlight idx b' wr v" for t idx b' wr v
  proof (rule op_ok_cong [OF disk_inv_op [OF assms(1) that]])
    show "vd_bufs (vs_d ?T) b' = vd_bufs (vs_d S) b'" by (rule same [of t]) (simp add: that)
  qed (simp_all only: eq, simp_all add: upd_vbuf_def)
  then have "ops_inv ?T" by (simp add: ops_inv_def)
  moreover have "bufs_inv ?T" using assms(1) same unfolding disk_inv_def bufs_inv_def by fastforce
  moreover have "desc_inv ?T" "rings_inv ?T" using assms(1) unfolding disk_inv_def desc_inv_def rings_inv_def eq
    by (simp_all add: upd_vbuf_def)
  ultimately show ?thesis using assms(1) by (simp add: disk_inv_def)
qed

text \<open>A step that changes only what a task is about to do.\<close>

lemma step_task:
  assumes "disk_inv S" "\<forall>idx b wr v. vs_task S t \<noteq> InFlight idx b wr v" "\<forall>idx b wr v. x \<noteq> InFlight idx b wr v"
    "bufs_inv (S\<lparr>vs_task := (vs_task S)(t := x)\<rparr>)"
  shows "disk_inv (S\<lparr>vs_task := (vs_task S)(t := x)\<rparr>)"
proof -
  let ?T = "S\<lparr>vs_task := (vs_task S)(t := x)\<rparr>"
  have fl: "vs_task ?T t' = InFlight idx b wr v \<longleftrightarrow> vs_task S t' = InFlight idx b wr v" for t' idx b wr v
    using assms(2,3) by auto
  have eq: "pending ?T = pending S" "unserved ?T = unserved S" by (simp_all add: pending_def unserved_def)
  have "ops_inv ?T" unfolding ops_inv_def fl using disk_inv_op [OF assms(1)]
    by (auto simp: op_ok_def eq simp del: distinct.simps)
  moreover have "desc_inv ?T" "rings_inv ?T"
    using assms(1) unfolding disk_inv_def desc_inv_def rings_inv_def fl eq by simp_all
  ultimately show ?thesis using assms(1,4) by (simp add: disk_inv_def)
qed

lemma step_request:
  assumes "disk_inv S" "vs_task S t = Absent" "b \<noteq> 0" "length (vb_data (vd_bufs (vs_d S) b)) = 1024" "unat (vb_blockno (vd_bufs (vs_d S) b)) < 2 ^ 31"
    "\<forall>t b'. uses (vs_task S t) = Some b' \<longrightarrow> b' \<noteq> b \<and> vb_blockno (vd_bufs (vs_d S) b') \<noteq> vb_blockno (vd_bufs (vs_d S) b)"
  shows "disk_inv (S\<lparr>vs_task := (vs_task S)(t := Entering b wr)\<rparr>)"
proof (rule step_task [OF assms(1)])
  have "bufs_inv S" using assms(1) by (simp add: disk_inv_def)
  then show "bufs_inv (S\<lparr>vs_task := (vs_task S)(t := Entering b wr)\<rparr>)"
    using assms(3-6) unfolding bufs_inv_def by (auto split: if_splits) (metis assms(6))+
qed (simp_all add: assms(2))

lemma bufs_inv_task:
  assumes "disk_inv S" "\<And>t. uses (vs_task T t) = uses (vs_task S t) \<or> uses (vs_task T t) = None"
    "\<And>t b. uses (vs_task S t) = Some b \<Longrightarrow> vb_blockno (vd_bufs (vs_d T) b) = vb_blockno (vd_bufs (vs_d S) b) \<and>
       length (vb_data (vd_bufs (vs_d T) b)) = 1024"
  shows "bufs_inv T"
  unfolding bufs_inv_def
proof (intro conjI allI impI, goal_cases)
  case (1 t t' b b')
  then show ?case using assms(2) [of t] assms(2) [of t'] disk_inv_buf(4) [OF assms(1), of t' b' t b] by auto
next
  case (2 t t' b b')
  then have u: "uses (vs_task S t) = Some b" "uses (vs_task S t') = Some b'" "t \<noteq> t'" using assms(2) [of t] assms(2) [of t'] by auto
  then show ?case using disk_inv_buf(4) [OF assms(1) u(2), of t b] assms(3) [OF u(1)] assms(3) [OF u(2)] by auto
next
  case (3 t b)
  then show ?case using assms(2) [of t] disk_inv_buf(1) [OF assms(1), of t b] by auto
next
  case (4 t b)
  then have u: "uses (vs_task S t) = Some b" using assms(2) [of t] by auto
  then show ?case using disk_inv_buf(2) [OF assms(1) u] assms(3) [OF u] by auto
next
  case (5 t b)
  then show ?case using assms(2) [of t] assms(3) [of t b] by auto
qed

lemma step_awake:
  assumes "disk_inv S" "vs_task S t = Sleeping b wr"
  shows "disk_inv (S\<lparr>vs_task := (vs_task S)(t := Entering b wr)\<rparr>)"
proof (rule step_task [OF assms(1)])
  show "bufs_inv (S\<lparr>vs_task := (vs_task S)(t := Entering b wr)\<rparr>)"
    by (rule bufs_inv_task [OF assms(1)]) (auto simp: assms(2) disk_inv_buf [OF assms(1)])
qed (simp_all add: assms(2))

lemma rw_begin_cases:
  obtains (none) d' where "rw_begin b wr d = Some (Inr (None, d'))" "free_differ d d'"
  | (some) h i j where "rw_begin b wr d = Some (Inr (Some [h, i, j], rw_submit b wr [h, i, j]
        (d\<lparr>vd_free := (vd_free d)(h := False, i := False, j := False), free_buf_condition := 0\<rparr>)))"
      "distinct [h, i, j]" "h < NUM" "i < NUM" "j < NUM" "vd_free d h" "vd_free d i" "vd_free d j"
proof (cases d rule: alloc3_cases)
  case (none d')
  then show thesis using that(1) by (simp add: rw_begin_def retC_def)
next
  case (some h i j)
  then show thesis using that(2) by (simp add: rw_begin_def retC_def)
qed

lemma step_full:
  assumes "disk_inv S" "vs_task S t = Entering b wr" "free_differ (vs_d S) d"
  shows "disk_inv (S\<lparr>vs_d := d, vs_task := (vs_task S)(t := Sleeping b wr)\<rparr>)"
proof -
  let ?T = "S\<lparr>vs_d := d, vs_task := (vs_task S)(t := Sleeping b wr)\<rparr>"
  obtain D c where d: "d = (vs_d S)\<lparr>vd_desc := D, free_buf_condition := c\<rparr>" "\<And>k. \<not> vd_free (vs_d S) k \<Longrightarrow> D k = vd_desc (vs_d S) k"
    using assms(3) by (auto simp: free_differ_def)
  have fl: "vs_task ?T t' = InFlight idx b' wr' v \<longleftrightarrow> vs_task S t' = InFlight idx b' wr' v" for t' idx b' wr' v
    using assms(2) by auto
  have eq: "pending ?T = pending S" "unserved ?T = unserved S"
    by (simp_all add: pending_def unserved_def d(1) avail_heads_def used_heads_def)
  have "op_ok ?T idx b' wr' v" if "vs_task S t' = InFlight idx b' wr' v" for t' idx b' wr' v
  proof (rule op_ok_cong [OF disk_inv_op [OF assms(1) that]], unfold eq)
    show "\<forall>k \<in> set idx. vd_desc (vs_d ?T) k = vd_desc (vs_d S) k"
    proof
      fix k assume k: "k \<in> set idx"
      then have "k < NUM" using disk_inv_op [OF assms(1) that] by (auto simp: op_ok_def)
      then have "\<not> vd_free (vs_d S) k" using assms(1) that k unfolding disk_inv_def desc_inv_def by blast
      then show "vd_desc (vs_d ?T) k = vd_desc (vs_d S) k" by (simp add: d)
    qed
  qed (simp_all add: d(1))
  then have "ops_inv ?T" unfolding ops_inv_def fl by blast
  moreover have "bufs_inv ?T"
    by (rule bufs_inv_task [OF assms(1)]) (auto simp: assms(2) d(1) disk_inv_buf [OF assms(1)])
  moreover have "desc_inv ?T" "rings_inv ?T"
    using assms(1) unfolding disk_inv_def desc_inv_def rings_inv_def fl eq by (simp_all add: d(1))
  ultimately show ?thesis using assms(1) by (simp add: disk_inv_def)
qed

lemma step_fetch:
  assumes "disk_inv S" "r_rd (vd_avail (vs_d S)) \<noteq> r_wr (vd_avail (vs_d S))"
  shows "disk_inv (S\<lparr>vs_d := (vs_d S)\<lparr>vd_avail := ring_skip (vd_avail (vs_d S))\<rparr>,
      vs_todo := vs_todo S @ [unat (ring_first (vd_avail (vs_d S)))]\<rparr>)" (is "disk_inv ?T")
proof -
  have rk: "ring_ok (vd_avail (vs_d S))" using assms(1) by (simp add: disk_inv_def rings_inv_def)
  note sk = ring_skip_list [OF rk assms(2)]
  have un: "set (unserved ?T) = set (unserved S)" and pd: "set (pending ?T) = set (pending S)" and ds: "distinct (pending ?T) = distinct (pending S)"
    using sk by (auto simp: pending_def unserved_def avail_heads_def used_heads_def)
  have "op_ok ?T idx b' wr' v" if "vs_task S t' = InFlight idx b' wr' v" for t' idx b' wr' v
    by (rule op_ok_cong [OF disk_inv_op [OF assms(1) that]], unfold un pd) simp_all
  then have "ops_inv ?T" by (simp add: ops_inv_def)
  moreover have "bufs_inv ?T" by (rule bufs_inv_task [OF assms(1)]) (auto simp: disk_inv_buf [OF assms(1)])
  moreover have "desc_inv ?T" "rings_inv ?T"
    using assms(1) sk unfolding disk_inv_def desc_inv_def rings_inv_def ds pd by simp_all
  ultimately show ?thesis using assms(1) by (simp add: disk_inv_def)
qed

lemma rw_submit_fields:
  assumes "distinct [h, i, j]"
  shows "vd_desc (rw_submit b wr [h, i, j] d) = (vd_desc d)
      (h := \<lparr>d_addr = OpAddr h, d_len = 16, d_flags = VRING_DESC_F_NEXT, d_next = of_nat i\<rparr>,
       i := \<lparr>d_addr = DataAddr b, d_len = 1024, d_flags = (if wr then 0 else VRING_DESC_F_WRITE) OR VRING_DESC_F_NEXT, d_next = of_nat j\<rparr>,
       j := \<lparr>d_addr = StatusAddr h, d_len = 1, d_flags = VRING_DESC_F_WRITE, d_next = 0\<rparr>)"
    "vd_ops (rw_submit b wr [h, i, j] d) = (vd_ops d)(h := \<lparr>rq_type = (if wr then VIRTIO_BLK_T_OUT else VIRTIO_BLK_T_IN),
       rq_reserved = 0, rq_sector = sector_of (vb_blockno (vd_bufs d b))\<rparr>)"
    "vd_status (rw_submit b wr [h, i, j] d) = (vd_status d)(h := 0xff)"
    "vd_bufs (rw_submit b wr [h, i, j] d) = (vd_bufs d)(b := (vd_bufs d b)\<lparr>vb_disk := 1\<rparr>)"
    "vd_b (rw_submit b wr [h, i, j] d) = (vd_b d)(h := b)" "vd_free (rw_submit b wr [h, i, j] d) = vd_free d"
    "vd_avail (rw_submit b wr [h, i, j] d) = ring_put (of_nat h) (vd_avail d)" "vd_used (rw_submit b wr [h, i, j] d) = vd_used d"
  by (simp_all add: rw_submit_def Let_def upd_desc_def upd_vbuf_def)

lemma step_submit:
  assumes "disk_inv S" "vs_task S t = Entering b wr" "distinct [h, i, j]" "h < NUM" "i < NUM" "j < NUM"
    "vd_free (vs_d S) h" "vd_free (vs_d S) i" "vd_free (vs_d S) j"
    "d = rw_submit b wr [h, i, j] ((vs_d S)\<lparr>vd_free := (vd_free (vs_d S))(h := False, i := False, j := False), free_buf_condition := 0\<rparr>)"
    "v = (if wr then vb_data (vd_bufs (vs_d S) b) else block_of (vs_sec S) (vb_blockno (vd_bufs (vs_d S) b)))"
  shows "disk_inv (S\<lparr>vs_d := d, vs_task := (vs_task S)(t := InFlight [h, i, j] b wr v)\<rparr>)" (is "disk_inv ?T")
proof -
  note F = rw_submit_fields [OF assms(3), of b wr "(vs_d S)\<lparr>vd_free := (vd_free (vs_d S))(h := False, i := False, j := False), free_buf_condition := 0\<rparr>",
      folded assms(10), simplified]
  have rk: "ring_ok (vd_avail (vs_d S))" "distinct (pending S)" using assms(1) by (simp_all add: disk_inv_def rings_inv_def)
  have hp: "h \<notin> set (pending S)" using pending_bound(2) [OF assms(1)] assms(7) by blast
  have "length (avail_heads (vs_d S)) < NUM"
    by (rule ring_room [OF assms(1) _ _ assms(4)]) (use rk(2) hp in \<open>auto simp: pending_def unserved_def\<close>)
  then have rp: "ring_ok (vd_avail d)" "avail_heads d = avail_heads (vs_d S) @ [h]"
    using ring_put_list [OF rk(1), of "of_nat h"] by (simp_all add: avail_heads_def F unat_idx assms(4))
  have un: "set (unserved ?T) = insert h (set (unserved S))" and pd: "set (pending ?T) = insert h (set (pending S))"
    using rp(2) by (auto simp: pending_def unserved_def used_heads_def F)
  have dist: "distinct (pending ?T)" using rk(2) hp rp(2) by (auto simp: pending_def unserved_def used_heads_def F)
  have free: "k \<notin> set idx" if "vs_task S t' = InFlight idx b' wr' v'" "vd_free (vs_d S) k" "k < NUM" for t' idx b' wr' v' k
    using assms(1) that unfolding disk_inv_def desc_inv_def by blast
  have fr: "h \<notin> set idx" "i \<notin> set idx" "j \<notin> set idx" if "in_flight S t' idx" for t' idx
    using that free assms(4-9) unfolding in_flight_def by blast+
  have nf: "\<not> in_flight S t idx" for idx using assms(2) by (simp add: in_flight_def)
  have bne: "b' \<noteq> b" if "vs_task S t' = InFlight idx b' wr' v'" for t' idx b' wr' v'
    using disk_inv_buf(4) [OF assms(1), of t b t' b'] that assms(2) by (cases "t' = t") auto
  have len: "length v = 1024"
    using disk_inv_buf(3) [OF assms(1), of t b] assms(1,2,11) by (auto simp: disk_inv_def block_of_def)
  have "chain d h i j b wr" using assms(3) by (simp add: chain_def F)
  then have new: "op_ok ?T [h, i, j] b wr v"
    unfolding op_ok_def un pd using assms(3-6,11) len by (intro exI [of _ h] exI [of _ i] exI [of _ j]) (simp add: F)
  have old: "op_ok ?T idx b' wr' v'" if "vs_task S t' = InFlight idx b' wr' v'" for t' idx b' wr' v'
  proof (rule op_ok_cong [OF disk_inv_op [OF assms(1) that]], unfold un pd)
    have n: "h \<notin> set idx" "i \<notin> set idx" "j \<notin> set idx" using free [OF that] assms(4-9) by blast+
    have hd: "hd idx \<in> set idx" using disk_inv_op [OF assms(1) that] by (auto simp: op_ok_def)
    then have hh: "hd idx \<noteq> h" using n by auto
    show "\<forall>k \<in> set idx. vd_desc (vs_d ?T) k = vd_desc (vs_d S) k" using n by (auto simp: F)
    show "vd_ops (vs_d ?T) (hd idx) = vd_ops (vs_d S) (hd idx)" "vd_b (vs_d ?T) (hd idx) = vd_b (vs_d S) (hd idx)"
      "vd_status (vs_d ?T) (hd idx) = vd_status (vs_d S) (hd idx)" using hh by (simp_all add: F)
    show "vd_bufs (vs_d ?T) b' = vd_bufs (vs_d S) b'" using bne [OF that] by (simp add: F)
    show "(hd idx \<in> insert h (set (unserved S))) = (hd idx \<in> set (unserved S))"
      "(hd idx \<in> insert h (set (pending S))) = (hd idx \<in> set (pending S))" using hh by simp_all
  qed simp
  have "ops_inv ?T" unfolding ops_inv_def using new old by auto
  moreover have "desc_inv ?T"
  proof (rule desc_invI)
    show "set idx \<inter> set idx' = {}" if "t1 \<noteq> t2" "in_flight ?T t1 idx" "in_flight ?T t2 idx'" for t1 t2 idx idx'
      using that desc_invD(1) [OF assms(1), of t1 t2 idx idx'] fr by (auto simp: in_flight_upd split: if_splits)
    show "vd_free (vs_d ?T) k \<longleftrightarrow> (\<forall>t' idx. in_flight ?T t' idx \<longrightarrow> k \<notin> set idx)" if "k < NUM" for k
    proof -
      have "(\<forall>t' idx. t' \<noteq> t \<and> in_flight S t' idx \<longrightarrow> k \<notin> set idx) \<longleftrightarrow> (\<forall>t' idx. in_flight S t' idx \<longrightarrow> k \<notin> set idx)" using nf by metis
      then show ?thesis unfolding in_flight_all using desc_invD(2) [OF assms(1) that] by (simp add: F)
    qed
  qed
  moreover have "bufs_inv ?T"
    by (rule bufs_inv_task [OF assms(1)]) (auto simp: F assms(2) disk_inv_buf [OF assms(1)])
  moreover have "rings_inv ?T"
    unfolding rings_inv_def pd
  proof (intro conjI ballI)
    fix k assume k: "k \<in> insert h (set (pending S))"
    show "\<exists>t idx b wr v. vs_task ?T t = InFlight idx b wr v \<and> k = hd idx"
    proof (cases "k = h")
      case False
      with k obtain t' i' j' b' wr' v' where "vs_task S t' = InFlight [k, i', j'] b' wr' v'"
        using pending_task [OF assms(1), of k] by blast
      then have "vs_task ?T t' = InFlight [k, i', j'] b' wr' v'" using assms(2) by auto
      then show ?thesis by (metis list.sel(1))
    qed (auto intro: exI [of _ t])
  qed (use assms(1) rp(1) dist in \<open>auto simp: F disk_inv_def rings_inv_def\<close>)
  ultimately show ?thesis using assms(1) by (simp add: disk_inv_def)
qed

lemma sector_of_unat: "unat n < 2 ^ 31 \<Longrightarrow> unat (sector_of n) = 2 * unat n"
proof -
  assume n: "unat n < 2 ^ 31"
  then have "unat (n * 2) = 2 * unat n" by (simp add: unat_word_ariths)
  then show ?thesis using n by (simp add: sector_of_def unsigned_ucast_eq take_bit_nat_eq_self)
qed

text \<open>What the device does to a request that is as the driver makes it.\<close>

lemma serve_op:
  assumes "device_ok serve" "disk_inv S" "vs_task S t = InFlight [h, i, j] b wr v" "serve h (vs_d S) (vs_sec S) = (d, sec)"
  shows "vd_desc d = vd_desc (vs_d S)" "vd_ops d = vd_ops (vs_d S)" "vd_b d = vd_b (vs_d S)" "vd_free d = vd_free (vs_d S)"
    "vd_avail d = vd_avail (vs_d S)" "vd_used d = ring_put (of_nat h) (vd_used (vs_d S))" "vd_status d = (vd_status (vs_d S))(h := 0)"
    "vd_bufs d = (vd_bufs (vs_d S))(b := (vd_bufs (vs_d S) b)\<lparr>vb_data := v\<rparr>)"
    "block_of sec (vb_blockno (vd_bufs (vs_d S) b)) = v"
    "m \<noteq> vb_blockno (vd_bufs (vs_d S) b) \<Longrightarrow> block_of sec m = block_of (vs_sec S) m" "length (sec k) = 512"
proof -
  let ?n = "2 * unat (vb_blockno (vd_bufs (vs_d S) b))"
  note b = disk_inv_buf [OF assms(2), of t b, simplified assms(3), simplified]
  have sl: "\<forall>n. length (vs_sec S n) = 512" using assms(2) by (simp add: disk_inv_def)
  from disk_inv_op [OF assms(2,3)] have o: "chain (vs_d S) h i j b wr" "h < NUM" "i < NUM" "j < NUM"
    "unat (rq_sector (vd_ops (vs_d S) h)) = ?n" "length v = 1024"
    "wr \<longrightarrow> vb_data (vd_bufs (vs_d S) b) = v" "\<not> wr \<longrightarrow> block_of (vs_sec S) (vb_blockno (vd_bufs (vs_d S) b)) = v"
    using b(2) by (auto simp: op_ok_def sector_of_unat)
  have eq: "serve h (vs_d S) (vs_sec S) =
     (if wr then (completed h (vs_d S), (vs_sec S)(?n := take 512 v, ?n + 1 := drop 512 v))
      else (completed h (upd_vbuf b (\<lambda>x. x\<lparr>vb_data := v\<rparr>) (vs_d S)), vs_sec S))"
    using assms(1) o b(3) unfolding device_ok_def block_of_def Let_def by auto
  have r: "d = completed h (if wr then vs_d S else upd_vbuf b (\<lambda>x. x\<lparr>vb_data := v\<rparr>) (vs_d S))"
    "sec = (if wr then (vs_sec S)(?n := take 512 v, ?n + 1 := drop 512 v) else vs_sec S)"
    using eq assms(4) by (auto split: if_splits)
  show "vd_desc d = vd_desc (vs_d S)" "vd_ops d = vd_ops (vs_d S)" "vd_b d = vd_b (vs_d S)" "vd_free d = vd_free (vs_d S)"
    "vd_avail d = vd_avail (vs_d S)" "vd_used d = ring_put (of_nat h) (vd_used (vs_d S))" "vd_status d = (vd_status (vs_d S))(h := 0)"
    by (simp_all add: r completed_def upd_vbuf_def)
  show "vd_bufs d = (vd_bufs (vs_d S))(b := (vd_bufs (vs_d S) b)\<lparr>vb_data := v\<rparr>)"
    using o(7) by (auto simp: r completed_def upd_vbuf_def)
  show "block_of sec (vb_blockno (vd_bufs (vs_d S) b)) = v" using o(8) by (simp add: r block_of_def)
  show "block_of sec m = block_of (vs_sec S) m" if "m \<noteq> vb_blockno (vd_bufs (vs_d S) b)"
  proof -
    have "unat m \<noteq> unat (vb_blockno (vd_bufs (vs_d S) b))" using that by (metis unsigned_word_eqI)
    then have "2 * unat m \<noteq> ?n" "2 * unat m + 1 \<noteq> ?n" "2 * unat m \<noteq> ?n + 1" "2 * unat m + 1 \<noteq> ?n + 1" by presburger+
    then show ?thesis unfolding r block_of_def by simp
  qed
  show "length (sec k) = 512" using sl o(6) by (simp add: r)
qed

lemma step_serve:
  assumes "device_ok serve" "disk_inv S" "h \<in> set (vs_todo S)" "serve h (vs_d S) (vs_sec S) = (d, sec)"
  shows "disk_inv (S\<lparr>vs_d := d, vs_sec := sec, vs_todo := remove1 h (vs_todo S)\<rparr>)" (is "disk_inv ?T")
proof -
  have hp: "h \<in> set (pending S)" using assms(3) by (simp add: pending_def unserved_def)
  obtain t i j b wr v where t: "vs_task S t = InFlight [h, i, j] b wr v" by (rule pending_task [OF assms(2) hp])
  note F = serve_op [OF assms(1,2) t assms(4)]
  note bh = pending_bound(1) [OF assms(2) hp]
  have rk: "ring_ok (vd_used (vs_d S))" "distinct (pending S)" using assms(2) by (simp_all add: disk_inv_def rings_inv_def)
  have nin: "h \<notin> set (used_heads (vs_d S))" "h \<notin> set (avail_heads (vs_d S))" "distinct (vs_todo S)"
    using rk(2) assms(3) by (auto simp: pending_def unserved_def)
  have "length (used_heads (vs_d S)) < NUM"
    by (rule ring_room [OF assms(2) _ _ bh nin(1)]) (use rk(2) in \<open>auto simp: pending_def\<close>)
  then have rp: "ring_ok (vd_used d)" "used_heads d = used_heads (vs_d S) @ [h]"
    using ring_put_list [OF rk(1), of "of_nat h"] by (simp_all add: used_heads_def F unat_idx bh)
  have ah: "avail_heads d = avail_heads (vs_d S)" by (simp add: avail_heads_def F)
  have un: "set (unserved ?T) = set (unserved S) - {h}" using nin by (auto simp: unserved_def ah set_remove1_distinct)
  have pd: "set (pending ?T) = set (pending S)" using nin assms(3) rp(2) by (auto simp: pending_def unserved_def ah set_remove1_distinct)
  have dist: "distinct (pending ?T)"
    using rk(2) nin rp(2) by (auto simp: pending_def unserved_def ah set_remove1_distinct)
  have new: "op_ok ?T [h, i, j] b wr v"
  proof -
    have "h \<notin> set (unserved ?T)" using un by simp
    moreover have "chain d h i j b wr" using disk_inv_op [OF assms(2) t] F by (auto simp: op_ok_def chain_def)
    ultimately show ?thesis using disk_inv_op [OF assms(2) t] unfolding op_ok_def pd by (auto simp: F)
  qed
  have old: "op_ok ?T idx b' wr' v'" if t': "vs_task S t' = InFlight idx b' wr' v'" "t' \<noteq> t" for t' idx b' wr' v'
  proof (rule op_ok_cong [OF disk_inv_op [OF assms(2) t'(1)]], unfold un pd)
    have hh: "hd idx \<noteq> h" using head_unique [OF assms(2) t'(1) t] t'(2) by auto
    have bb: "b' \<noteq> b" "vb_blockno (vd_bufs (vs_d S) b') \<noteq> vb_blockno (vd_bufs (vs_d S) b)"
      using disk_inv_buf(4) [OF assms(2), of t b t' b'] t t' by auto
    show "vd_status (vs_d ?T) (hd idx) = vd_status (vs_d S) (hd idx)" using hh by (simp add: F)
    show "vd_bufs (vs_d ?T) b' = vd_bufs (vs_d S) b'" using bb(1) by (simp add: F)
    show "block_of (vs_sec ?T) (vb_blockno (vd_bufs (vs_d S) b')) = block_of (vs_sec S) (vb_blockno (vd_bufs (vs_d S) b'))"
      using F(10) [OF bb(2)] by simp
    show "(hd idx \<in> set (unserved S) - {h}) = (hd idx \<in> set (unserved S))" using hh by simp
  qed (simp_all add: F)
  have "op_ok ?T idx b' wr' v'" if "vs_task S t' = InFlight idx b' wr' v'" for t' idx b' wr' v'
    using new old [of t'] t that by (cases "t' = t") auto
  then have "ops_inv ?T" by (simp add: ops_inv_def)
  moreover have "length v = 1024" using disk_inv_op [OF assms(2) t] by (auto simp: op_ok_def)
  then have "bufs_inv ?T" by (intro bufs_inv_task [OF assms(2)]) (auto simp: F disk_inv_buf [OF assms(2)])
  moreover have "desc_inv ?T" using assms(2) by (simp add: disk_inv_def desc_inv_def F)
  moreover have "rings_inv ?T" using assms(2) rp(1) dist unfolding disk_inv_def rings_inv_def pd by (simp add: F)
  ultimately show ?thesis using F(11) by (simp add: disk_inv_def)
qed

lemma used_op:
  assumes "disk_inv S" "h \<in> set (used_heads (vs_d S))"
  obtains t i j b wr v where "vs_task S t = InFlight [h, i, j] b wr v" "h < NUM" "vd_b (vs_d S) h = b" "b \<noteq> 0" "vd_status (vs_d S) h = 0"
proof -
  have hp: "h \<in> set (pending S)" using assms(2) by (simp add: pending_def)
  obtain t i j b wr v where t: "vs_task S t = InFlight [h, i, j] b wr v" by (rule pending_task [OF assms(1) hp])
  have "distinct (pending S)" using assms(1) by (simp add: disk_inv_def rings_inv_def)
  then have "h \<notin> set (unserved S)" using assms(2) by (auto simp: pending_def)
  then show thesis
    using disk_inv_op [OF assms(1) t] disk_inv_buf(1) [OF assms(1), of t b] t by (intro that) (auto simp: op_ok_def)
qed

lemma intr_total:
  assumes "disk_inv S"
  shows "\<exists>u. virtio_disk_intr (vs_d S) = Some (Inr ((), (vs_d S)\<lparr>vd_used := u,
      vd_bufs := clear_disk (vd_b (vs_d S) ` set (used_heads (vs_d S))) (vd_bufs (vs_d S))\<rparr>)) \<and> ring_ok u \<and> ring_list u = []"
proof -
  have "\<forall>x \<in> set (ring_list (vd_used (vs_d S))). unat x < NUM \<and> vd_status (vs_d S) (unat x) = 0 \<and> vd_b (vs_d S) (unat x) \<noteq> 0"
  proof
    fix x assume "x \<in> set (ring_list (vd_used (vs_d S)))"
    then have "unat x \<in> set (used_heads (vs_d S))" by (simp add: used_heads_def)
    from used_op [OF assms this] show "unat x < NUM \<and> vd_status (vs_d S) (unat x) = 0 \<and> vd_b (vs_d S) (unat x) \<noteq> 0" by metis
  qed
  moreover have "ring_ok (vd_used (vs_d S))" using assms by (simp add: disk_inv_def rings_inv_def)
  ultimately show ?thesis using virtio_disk_intr_all [of "vs_d S"] by (simp add: used_heads_def)
qed

lemma step_intr:
  assumes "disk_inv S" "virtio_disk_intr (vs_d S) = Some (Inr ((), d))"
  shows "disk_inv (S\<lparr>vs_d := d\<rparr>)" (is "disk_inv ?T")
proof -
  let ?X = "vd_b (vs_d S) ` set (used_heads (vs_d S))"
  obtain u where d: "d = (vs_d S)\<lparr>vd_used := u, vd_bufs := clear_disk ?X (vd_bufs (vs_d S))\<rparr>" "ring_ok u" "ring_list u = []"
    using intr_total [OF assms(1)] assms(2) by auto
  have un: "unserved ?T = unserved S" by (simp add: unserved_def avail_heads_def d(1))
  have pd: "pending ?T = unserved S" by (simp add: pending_def un) (simp add: used_heads_def d)
  have dist: "distinct (pending S)" using assms(1) by (simp add: disk_inv_def rings_inv_def)
  have X: "b \<in> ?X \<longleftrightarrow> h \<in> set (used_heads (vs_d S))" if t: "vs_task S t = InFlight [h, i, j] b wr v" for t h i j b wr v
  proof
    assume "b \<in> ?X"
    then obtain k where k: "k \<in> set (used_heads (vs_d S))" "vd_b (vs_d S) k = b" by auto
    from used_op [OF assms(1) k(1)] obtain t' i' j' wr' v' where t': "vs_task S t' = InFlight [k, i', j'] b wr' v'" using k(2) by metis
    have "t' = t" using disk_inv_buf(4) [OF assms(1), of t b t' b] t t' by auto
    then show "h \<in> set (used_heads (vs_d S))" using t t' k(1) by simp
  next
    assume "h \<in> set (used_heads (vs_d S))"
    moreover have "vd_b (vs_d S) h = b" using disk_inv_op [OF assms(1) t] by (auto simp: op_ok_def)
    ultimately show "b \<in> ?X" by blast
  qed
  have "op_ok ?T idx b wr v" if t: "vs_task S t = InFlight idx b wr v" for t idx b wr v
  proof -
    from disk_inv_op [OF assms(1) t] obtain h i j where o: "idx = [h, i, j]" "chain (vs_d S) h i j b wr"
      "vb_disk (vd_bufs (vs_d S) b) = of_bool (h \<in> set (pending S))" by (auto simp: op_ok_def)
    have ch: "chain d h i j b wr" using o(2) by (simp add: chain_def d(1))
    have "b \<in> ?X \<longleftrightarrow> h \<in> set (used_heads (vs_d S))" using X t o(1) by simp
    moreover have "h \<in> set (used_heads (vs_d S)) \<Longrightarrow> h \<notin> set (unserved S)" using dist by (auto simp: pending_def)
    ultimately have "vb_disk (clear_disk ?X (vd_bufs (vs_d S)) b) = of_bool (h \<in> set (unserved S))"
      using o(3) by (auto simp: clear_disk_def pending_def)
    moreover have "vb_blockno (clear_disk ?X (vd_bufs (vs_d S)) b) = vb_blockno (vd_bufs (vs_d S) b)"
      "vb_data (clear_disk ?X (vd_bufs (vs_d S)) b) = vb_data (vd_bufs (vs_d S) b)" by (simp_all add: clear_disk_def)
    ultimately show ?thesis
      using disk_inv_op [OF assms(1) t] ch o(1) unfolding op_ok_def pd un by (auto simp: d(1))
  qed
  then have "ops_inv ?T" by (simp add: ops_inv_def)
  moreover have "bufs_inv ?T"
    by (rule bufs_inv_task [OF assms(1)]) (auto simp: d(1) clear_disk_def disk_inv_buf [OF assms(1)])
  moreover have "desc_inv ?T" using assms(1) by (simp add: disk_inv_def desc_inv_def d(1))
  moreover have "rings_inv ?T"
    using assms(1) d dist unfolding disk_inv_def rings_inv_def pd by (auto simp: pending_def)
  ultimately show ?thesis using assms(1) by (simp add: disk_inv_def)
qed

lemma finish_total:
  assumes "disk_inv S" "vs_task S t = InFlight [h, i, j] b wr v"
  shows "rw_end [h, i, j] (vs_d S) = Some (Inr ((), (vs_d S)\<lparr>vd_b := (vd_b (vs_d S))(h := 0),
    vd_desc := (vd_desc (vs_d S))(h := zero_desc, i := zero_desc, j := zero_desc),
    vd_free := (vd_free (vs_d S))(h := True, i := True, j := True), free_buf_condition := 1\<rparr>))"
proof -
  from disk_inv_op [OF assms] have o: "chain (vs_d S) h i j b wr" "distinct [h, i, j]" "h < NUM" "i < NUM" "j < NUM" by (auto simp: op_ok_def)
  have "in_flight S t [h, i, j]" using assms(2) by (simp add: in_flight_def)
  then have nf: "\<not> vd_free (vs_d S) k" if "k \<in> {h, i, j}" for k
    using desc_invD(2) [OF assms(1), of k] o that by (metis insertE list.set_intros(1,2) empty_iff)
  let ?d = "(vs_d S)\<lparr>vd_b := (vd_b (vs_d S))(h := 0)\<rparr>"
  have "chain ?d h i j b wr" using o(1) by (simp add: chain_def)
  from free_chain_chain [OF this o(2-5)] nf show ?thesis by (simp add: rw_end_def)
qed

lemma step_finish:
  assumes "disk_inv S" "vs_task S t = InFlight idx b wr v" "vb_disk (vd_bufs (vs_d S) b) = 0" "rw_end idx (vs_d S) = Some (Inr ((), d))"
  shows "disk_inv (S\<lparr>vs_d := d, vs_task := (vs_task S)(t := Absent)\<rparr>)" (is "disk_inv ?T")
proof -
  from disk_inv_op [OF assms(1,2)] obtain h i j where o: "idx = [h, i, j]" "h \<notin> set (pending S)" using assms(3) by (auto simp: op_ok_def)
  note t = assms(2) [unfolded o(1)]
  have d: "d = (vs_d S)\<lparr>vd_b := (vd_b (vs_d S))(h := 0),
    vd_desc := (vd_desc (vs_d S))(h := zero_desc, i := zero_desc, j := zero_desc),
    vd_free := (vd_free (vs_d S))(h := True, i := True, j := True), free_buf_condition := 1\<rparr>"
    using finish_total [OF assms(1) t] assms(4) by (simp add: o(1))
  have eq: "unserved ?T = unserved S" "pending ?T = pending S" by (simp_all add: pending_def unserved_def avail_heads_def used_heads_def d)
  have fl: "in_flight S t [h, i, j]" using t by (simp add: in_flight_def)
  have dj: "h \<notin> set idx' \<and> i \<notin> set idx' \<and> j \<notin> set idx'" if "in_flight S t' idx'" "t' \<noteq> t" for t' idx'
    using desc_invD(1) [OF assms(1) _ that(1) fl] that(2) by auto
  have "op_ok ?T idx' b' wr' v'" if t': "vs_task S t' = InFlight idx' b' wr' v'" "t' \<noteq> t" for t' idx' b' wr' v'
  proof (rule op_ok_cong [OF disk_inv_op [OF assms(1) t'(1)]], unfold eq)
    have n: "h \<notin> set idx' \<and> i \<notin> set idx' \<and> j \<notin> set idx'" using dj [of t'] t' by (auto simp: in_flight_def)
    moreover have "hd idx' \<in> set idx'" using disk_inv_op [OF assms(1) t'(1)] by (auto simp: op_ok_def)
    ultimately show "vd_b (vs_d ?T) (hd idx') = vd_b (vs_d S) (hd idx')" by (auto simp: d)
    show "\<forall>k \<in> set idx'. vd_desc (vs_d ?T) k = vd_desc (vs_d S) k" using n by (auto simp: d)
  qed (simp_all add: d)
  then have "ops_inv ?T" by (auto simp: ops_inv_def)
  moreover have "desc_inv ?T"
  proof (rule desc_invI)
    show "set idx1 \<inter> set idx2 = {}" if "t1 \<noteq> t2" "in_flight ?T t1 idx1" "in_flight ?T t2 idx2" for t1 t2 idx1 idx2
      using that desc_invD(1) [OF assms(1), of t1 t2 idx1 idx2] by (auto simp: in_flight_upd split: if_splits)
    show "vd_free (vs_d ?T) k \<longleftrightarrow> (\<forall>t' idx. in_flight ?T t' idx \<longrightarrow> k \<notin> set idx)" if k: "k < NUM" for k
    proof (cases "k \<in> {h, i, j}")
      case True
      then show ?thesis unfolding in_flight_all using dj by (auto simp: d)
    next
      case False
      then have "(\<forall>t' idx. t' \<noteq> t \<and> in_flight S t' idx \<longrightarrow> k \<notin> set idx) \<longleftrightarrow> (\<forall>t' idx. in_flight S t' idx \<longrightarrow> k \<notin> set idx)"
        using t by (metis (no_types, lifting) in_flight_def empty_set list.simps(15) vtask.inject(3))
      then show ?thesis unfolding in_flight_all using desc_invD(2) [OF assms(1) k] False by (simp add: d)
    qed
  qed
  moreover have "bufs_inv ?T" by (rule bufs_inv_task [OF assms(1)]) (auto simp: d disk_inv_buf [OF assms(1)])
  moreover have "rings_inv ?T"
    unfolding rings_inv_def eq
  proof (intro conjI ballI)
    fix k assume k: "k \<in> set (pending S)"
    obtain t' i' j' b' wr' v' where t': "vs_task S t' = InFlight [k, i', j'] b' wr' v'" by (rule pending_task [OF assms(1) k])
    have "t' \<noteq> t" using t' t k o(2) by auto
    then have "vs_task ?T t' = InFlight [k, i', j'] b' wr' v'" using t' by simp
    then show "\<exists>t idx b wr v. vs_task ?T t = InFlight idx b wr v \<and> k = hd idx" by (metis list.sel(1))
  qed (use assms(1) in \<open>auto simp: d disk_inv_def rings_inv_def\<close>)
  ultimately show ?thesis using assms(1) by (simp add: disk_inv_def)
qed

lemma vstep_inv:
  assumes "vstep serve S T" "device_ok serve" "disk_inv S"
  shows "disk_inv T"
  using assms(1)
proof cases
  case (owner b x n)
  then show ?thesis using step_owner [OF assms(3)] by simp
next
  case (request t b wr)
  then show ?thesis using step_request [OF assms(3)] by simp
next
  case (submit t b wr idx d)
  show ?thesis
  proof (cases b wr "vs_d S" rule: rw_begin_cases)
    case (none d')
    then show ?thesis using submit(3) by simp
  next
    case (some h i j)
    then have "idx = [h, i, j]" "d = rw_submit b wr [h, i, j]
      ((vs_d S)\<lparr>vd_free := (vd_free (vs_d S))(h := False, i := False, j := False), free_buf_condition := 0\<rparr>)"
      using submit(3) by auto
    then show ?thesis using submit(1) step_submit [OF assms(3) submit(2) some(2-8)] by simp
  qed
next
  case (full t b wr d)
  show ?thesis
  proof (cases b wr "vs_d S" rule: rw_begin_cases)
    case (none d')
    then show ?thesis using full(1,3) step_full [OF assms(3) full(2), of d] by simp
  next
    case (some h i j)
    then show ?thesis using full(3) by simp
  qed
next
  case (awake t b wr)
  then show ?thesis using step_awake [OF assms(3)] by simp
next
  case fetch
  then show ?thesis using step_fetch [OF assms(3)] by simp
next
  case (serve h d sec)
  then show ?thesis using step_serve [OF assms(2,3)] by simp
next
  case (intr d)
  then show ?thesis using step_intr [OF assms(3)] by simp
next
  case (finish t idx b wr v d)
  then show ?thesis using step_finish [OF assms(3)] by simp
qed

lemma vsteps_inv: "(vstep serve)\<^sup>*\<^sup>* S T \<Longrightarrow> device_ok serve \<Longrightarrow> disk_inv S \<Longrightarrow> disk_inv T"
  by (induction rule: rtranclp_induct) (auto intro: vstep_inv)

section \<open>Requests in any interleaving\<close>

text \<open>After \<^verbatim>\<open>virtio_disk_init\<close>, before the first request; the disk is any sequence of sectors.\<close>

definition boot_sys :: "(nat \<Rightarrow> u8 list) \<Rightarrow> vdisk \<Rightarrow> vsys" where
  "boot_sys sec d = \<lparr>vs_d = d, vs_todo = [], vs_sec = sec, vs_task = \<lambda>_. Absent\<rparr>"

lemma virtio_disk_init_inv:
  assumes "virtio_disk_init regs pages d0 = Some (Inr (ws, d))" "r_rd (vd_avail d0) = 0" "r_rd (vd_used d0) = 0" "\<forall>n. length (sec n) = 512"
  shows "disk_inv (boot_sys sec d)"
proof -
  have d: "vd_avail d = \<lparr>r_buf = replicate NUM 0, r_rd = 0, r_wr = 0\<rparr>" "vd_used d = \<lparr>r_buf = replicate NUM 0, r_rd = 0, r_wr = 0\<rparr>"
    "\<forall>i < NUM. vd_free d i"
    using assms(1-3) by (auto simp: virtio_disk_init_def split: if_splits)
  have "ring_list (vd_avail d) = []" "ring_list (vd_used d) = []" by (simp_all add: d ring_list_def)
  then show ?thesis
    using assms(4) d by (auto simp: disk_inv_def boot_sys_def ops_inv_def desc_inv_def bufs_inv_def rings_inv_def ring_ok_def
        pending_def unserved_def avail_heads_def used_heads_def)
qed

section \<open>A device and a run\<close>

text \<open>A device that follows the descriptors, to show that the assumption can be met.\<close>

definition model_device :: "nat \<Rightarrow> vdisk \<Rightarrow> (nat \<Rightarrow> u8 list) \<Rightarrow> vdisk \<times> (nat \<Rightarrow> u8 list)" where
  "model_device h d sec =
     (let i = unat (d_next (vd_desc d h));
          n = unat (rq_sector (vd_ops d h))
      in case d_addr (vd_desc d i) of
           DataAddr b \<Rightarrow>
             if rq_type (vd_ops d h) = VIRTIO_BLK_T_OUT
             then (completed h d, sec(n := take 512 (vb_data (vd_bufs d b)), n + 1 := drop 512 (vb_data (vd_bufs d b))))
             else (completed h (upd_vbuf b (\<lambda>x. x\<lparr>vb_data := sec n @ sec (n + 1)\<rparr>) d), sec)
         | _ \<Rightarrow> (d, sec))"

lemma model_device_ok: "device_ok model_device"
  by (auto simp: device_ok_def model_device_def chain_def unat_idx Let_def VIRTIO_BLK_T_IN_def VIRTIO_BLK_T_OUT_def)

definition blank_disk :: "nat \<Rightarrow> u8 list" where "blank_disk _ = replicate 512 0"

definition fives :: "u8 list" where "fives = replicate 1024 5"

definition new_vdisk :: vdisk where
  "new_vdisk = \<lparr>vd_desc = \<lambda>_. zero_desc, vd_avail = \<lparr>r_buf = [], r_rd = 0, r_wr = 0\<rparr>, vd_used = \<lparr>r_buf = [], r_rd = 0, r_wr = 0\<rparr>,
     vd_free = \<lambda>_. False, vd_b = \<lambda>_. 0, vd_status = \<lambda>_. 0, vd_ops = \<lambda>_. \<lparr>rq_type = 0, rq_reserved = 0, rq_sector = 0\<rparr>,
     vd_bufs = \<lambda>_. \<lparr>vb_blockno = 7, vb_disk = 0, vb_data = fives\<rparr>, free_buf_condition = 0\<rparr>"

definition qemu_regs :: "u64 \<Rightarrow> u32" where
  "qemu_regs r = (if r = 0 then 0x74726976 else if r = 4 then 1 else if r = 8 then 2 else if r = 0xc then 0x554d4551 else 1024)"

text \<open>One write, from the request to the interrupt.\<close>

lemma one_write_run:
  assumes "virtio_disk_init qemu_regs 0x80000000 new_vdisk = Some (Inr (ws, d))"
  shows "\<exists>S. (vstep model_device)\<^sup>*\<^sup>* (boot_sys blank_disk d) S \<and> vs_task S 0 = InFlight [0, 1, 2] 3 True fives \<and>
    vb_disk (vd_bufs (vs_d S) 3) = 0 \<and> vb_blockno (vd_bufs (vs_d S) 3) = 7"
proof -
  have d: "vd_avail d = \<lparr>r_buf = replicate NUM 0, r_rd = 0, r_wr = 0\<rparr>" "vd_used d = \<lparr>r_buf = replicate NUM 0, r_rd = 0, r_wr = 0\<rparr>"
    "\<forall>i < NUM. vd_free d i" "vd_bufs d = vd_bufs new_vdisk"
    using assms by (auto simp: virtio_disk_init_def new_vdisk_def split: if_splits)
  have b1: "vd_bufs d 3 = \<lparr>vb_blockno = 7, vb_disk = 0, vb_data = fives\<rparr>" by (simp add: d(4) new_vdisk_def)
  define S0 where "S0 = boot_sys blank_disk d"
  have i0: "disk_inv S0" unfolding S0_def by (rule virtio_disk_init_inv [OF assms]) (simp_all add: new_vdisk_def blank_disk_def)
  define S1 where "S1 = S0\<lparr>vs_task := (vs_task S0)(0 := Entering 3 True)\<rparr>"
  have s1: "vstep model_device S0 S1"
    unfolding S1_def by (rule vstep.request) (simp_all add: S0_def boot_sys_def b1 fives_def)
  have i1: "disk_inv S1" by (rule vstep_inv [OF s1 model_device_ok i0])
  have d1: "vs_d S1 = d" "vs_task S1 0 = Entering 3 True" by (simp_all add: S1_def S0_def boot_sys_def)
  have "[0..<NUM] = [0, 1, 2, 3, 4, 5, 6, 7]" by (simp add: NUM_def upt_conv_Cons)
  then obtain e where e: "rw_begin 3 True d = Some (Inr (Some [0, 1, 2], e))" "e = rw_submit 3 True [0, 1, 2]
      (d\<lparr>vd_free := (vd_free d)(0 := False, 1 := False, 2 := False), free_buf_condition := 0\<rparr>)"
    using d(3) by (simp add: rw_begin_def alloc3_desc_def numeral_3_eq_3 alloc_desc_def bindC_def retC_def NUM_def)
  define S2 where "S2 = S1\<lparr>vs_d := e, vs_task := (vs_task S1)(0 := InFlight [0, 1, 2] 3 True fives)\<rparr>"
  have s2: "vstep model_device S1 S2"
    using vstep.submit [of S1 0 3 True "[0, 1, 2]" e model_device] e(1) b1 unfolding S2_def d1 by simp
  have i2: "disk_inv S2" by (rule vstep_inv [OF s2 model_device_ok i1])
  have e': "vd_avail e = ring_put 0 (vd_avail d)" "vd_used e = vd_used d" "vd_b e 0 = 3" "vd_bufs e 3 = \<lparr>vb_blockno = 7, vb_disk = 1, vb_data = fives\<rparr>"
    by (simp_all add: e(2) rw_submit_fields b1)
  define S3 where "S3 = S2\<lparr>vs_d := e\<lparr>vd_avail := ring_skip (vd_avail e)\<rparr>, vs_todo := [0]\<rparr>"
  have s3: "vstep model_device S2 S3"
    using vstep.fetch [of S2 model_device] unfolding S3_def
    by (simp add: S2_def S1_def S0_def boot_sys_def e'(1) d(1) ring_put_def ring_skip_def ring_first_def NUM_def)
  have i3: "disk_inv S3" by (rule vstep_inv [OF s3 model_device_ok i2])
  obtain f sec where f: "model_device 0 (vs_d S3) (vs_sec S3) = (f, sec)" by (cases "model_device 0 (vs_d S3) (vs_sec S3)") auto
  have t3: "vs_task S3 0 = InFlight [0, 1, 2] 3 True fives" by (simp add: S3_def S2_def)
  note F = serve_op [OF model_device_ok i3 t3 f]
  define S4 where "S4 = S3\<lparr>vs_d := f, vs_sec := sec, vs_todo := remove1 0 (vs_todo S3)\<rparr>"
  have s4: "vstep model_device S3 S4"
    unfolding S4_def by (rule vstep.serve [of 0 S3 model_device f sec, OF _ f]) (simp add: S3_def)
  have i4: "disk_inv S4" by (rule vstep_inv [OF s4 model_device_ok i3])
  obtain u where u: "virtio_disk_intr (vs_d S4) = Some (Inr ((), (vs_d S4)\<lparr>vd_used := u,
      vd_bufs := clear_disk (vd_b (vs_d S4) ` set (used_heads (vs_d S4))) (vd_bufs (vs_d S4))\<rparr>))"
    using intr_total [OF i4] by blast
  define S5 where "S5 = S4\<lparr>vs_d := (vs_d S4)\<lparr>vd_used := u,
      vd_bufs := clear_disk (vd_b (vs_d S4) ` set (used_heads (vs_d S4))) (vd_bufs (vs_d S4))\<rparr>\<rparr>"
  have s5: "vstep model_device S4 S5" unfolding S5_def by (rule vstep.intr [OF u])
  have "vd_used (vs_d S4) = ring_put 0 (vd_used d)" "vd_b (vs_d S4) 0 = 3" using F(3,6) by (simp_all add: S4_def S3_def e')
  moreover have "0 \<in> set (used_heads (vs_d S4))"
    by (simp add: used_heads_def calculation(1) d(2) ring_put_def ring_list_def window_def slot_def NUM_def)
  ultimately have "3 \<in> vd_b (vs_d S4) ` set (used_heads (vs_d S4))" by (metis image_eqI)
  then have "vb_disk (vd_bufs (vs_d S5) 3) = 0 \<and> vb_blockno (vd_bufs (vs_d S5) 3) = 7"
    by (simp add: S5_def clear_disk_def) (simp add: S4_def F(8), simp add: S3_def e')
  moreover have "vs_task S5 0 = InFlight [0, 1, 2] 3 True fives" by (simp add: S5_def S4_def t3)
  moreover have "(vstep model_device)\<^sup>*\<^sup>* S0 S5"
    using s1 s2 s3 s4 s5 by (meson rtranclp.rtrancl_into_rtrancl rtranclp.rtrancl_refl)
  ultimately show ?thesis unfolding S0_def by blast
qed

section \<open>The driver is correct\<close>

text \<open>
  C32: The disk driver is correct in every interleaving of requests, device and interrupts. With a device that
  serves requests as the specification says, in any order, starting from the state
  \<^verbatim>\<open>virtio_disk_init\<close> leaves: the sections of \<^verbatim>\<open>virtio_disk_rw\<close> and the interrupt handler never panic and always return;
  a request is never lost, the device or the interrupt handler has it as long as the buffer is marked; when
  the mark is gone buffer and block agree, on the contents the buffer had (for a write) or the block had (for a read)
  when the request was made; and the descriptors that no request holds are free.
\<close>

theorem virtio_disk_correct:
  assumes "virtio_disk_init regs pages d0 = Some (Inr (ws, d))" "r_rd (vd_avail d0) = 0" "r_rd (vd_used d0) = 0" "\<forall>n. length (sec n) = 512"
    "device_ok serve" "(vstep serve)\<^sup>*\<^sup>* (boot_sys sec d) S"
  shows "(\<forall>b wr. \<exists>r d'. rw_begin b wr (vs_d S) = Some (Inr (r, d'))) \<and>
    (\<exists>d'. virtio_disk_intr (vs_d S) = Some (Inr ((), d'))) \<and>
    (\<forall>t idx b wr v. vs_task S t = InFlight idx b wr v \<longrightarrow>
       (\<exists>d'. rw_end idx (vs_d S) = Some (Inr ((), d'))) \<and>
       (vb_disk (vd_bufs (vs_d S) b) \<noteq> 0 \<longrightarrow> hd idx \<in> set (pending S)) \<and>
       (vb_disk (vd_bufs (vs_d S) b) = 0 \<longrightarrow>
          vb_data (vd_bufs (vs_d S) b) = v \<and> block_of (vs_sec S) (vb_blockno (vd_bufs (vs_d S) b)) = v)) \<and>
    (\<forall>k < NUM. (\<forall>t idx b wr v. vs_task S t = InFlight idx b wr v \<longrightarrow> k \<notin> set idx) \<longrightarrow> vd_free (vs_d S) k)"
proof (intro conjI allI impI)
  have inv: "disk_inv S" by (rule vsteps_inv [OF assms(6,5) virtio_disk_init_inv [OF assms(1-4)]])
  show "\<exists>r d'. rw_begin b wr (vs_d S) = Some (Inr (r, d'))" for b wr
    by (cases b wr "vs_d S" rule: rw_begin_cases) auto
  show "\<exists>d'. virtio_disk_intr (vs_d S) = Some (Inr ((), d'))" using intr_total [OF inv] by blast
  show "vd_free (vs_d S) k" if "k < NUM" "\<forall>t idx b wr v. vs_task S t = InFlight idx b wr v \<longrightarrow> k \<notin> set idx" for k
    using desc_invD(2) [OF inv that(1)] that(2) by (auto simp: in_flight_def)
  fix t idx b wr v assume t: "vs_task S t = InFlight idx b wr v"
  from disk_inv_op [OF inv t] obtain h i j where o: "idx = [h, i, j]" by (auto simp: op_ok_def)
  show "\<exists>d'. rw_end idx (vs_d S) = Some (Inr ((), d'))" using finish_total [OF inv t [unfolded o]] o by blast
  show "vb_disk (vd_bufs (vs_d S) b) \<noteq> 0 \<Longrightarrow> hd idx \<in> set (pending S)" using disk_inv_op [OF inv t] by (auto simp: op_ok_def split: if_splits)
  have un: "hd idx \<notin> set (unserved S)" if "vb_disk (vd_bufs (vs_d S) b) = 0"
    using disk_inv_op [OF inv t] that by (auto simp: op_ok_def pending_def)
  show "vb_data (vd_bufs (vs_d S) b) = v" "block_of (vs_sec S) (vb_blockno (vd_bufs (vs_d S) b)) = v"
    if "vb_disk (vd_bufs (vs_d S) b) = 0" using disk_inv_op [OF inv t] un [OF that] by (auto simp: op_ok_def)
qed

theorem virtio_disk_correct_witness:
  "\<exists>ws d S. virtio_disk_init qemu_regs 0x80000000 new_vdisk = Some (Inr (ws, d)) \<and>
     (vstep model_device)\<^sup>*\<^sup>* (boot_sys blank_disk d) S \<and> vs_task S 0 = InFlight [0, 1, 2] 3 True fives \<and>
     block_of (vs_sec S) 7 = fives"
proof -
  have "\<exists>ws d. virtio_disk_init qemu_regs 0x80000000 new_vdisk = Some (Inr (ws, d))"
    by (simp add: virtio_disk_init_def qemu_regs_def word_less_nat_alt)
  then obtain ws d where init: "virtio_disk_init qemu_regs 0x80000000 new_vdisk = Some (Inr (ws, d))" by blast
  from one_write_run [OF init] obtain S where S: "(vstep model_device)\<^sup>*\<^sup>* (boot_sys blank_disk d) S"
    "vs_task S 0 = InFlight [0, 1, 2] 3 True fives" "vb_disk (vd_bufs (vs_d S) 3) = 0" "vb_blockno (vd_bufs (vs_d S) 3) = 7" by blast
  have "r_rd (vd_avail new_vdisk) = 0" "r_rd (vd_used new_vdisk) = 0" "\<forall>n. length (blank_disk n) = 512"
    by (simp_all add: new_vdisk_def blank_disk_def)
  from virtio_disk_correct [OF init this model_device_ok S(1)] S init show ?thesis by fastforce
qed

end
