(* ===== verification/Spec2Isabelle.thy ===== *)
theory Spec2Isabelle
  imports Prelude Bitops Lists Page_alloc Memblock Strings Vm Locks Bio Bcache_abs Bytes Log Monad Fs Fs_blocks Fs_file Fs_rw
    Kallsyms Ksyms Ksyms_codes Ksyms_tables Printk Printk_fmt Ring Pipe Console Chains Mmap Fork
    Umalloc Uheap Sched Net Triples Files Sysfile Fs_safe Files_inv Files_calls Slab Virtio
begin

text \<open>
  A verification of risc-v-bm, a small Unix-like kernel for 64-bit RISC-V (\<^verbatim>\<open>src/kernel\<close>), with the
  tools that build it (\<^verbatim>\<open>src/scripts\<close>, \<^verbatim>\<open>src/mkfs\<close>) and its user library (\<^verbatim>\<open>src/user\<close>). The kernel boots on
  memory described by memblock regions, hands what is free to a buddy allocator, builds page tables
  on its pages, and runs a file system with a write-ahead log over a cache of disk blocks. Files,
  pipes and the console are reached through descriptors of processes.

  \<^bold>\<open>How code is modelled.\<close> Every theory opens with the files it translates. C integers are words of
  their width where they can wrap, naturals or integers where they cannot; pointers are naturals or the
  index of the object; structures are records, arrays lists or functions, linked lists a store of
  \<open>next\<close> and \<open>prev\<close> fields. A routine is a function on the state it changes. A panic, a wild pointer, a run
  past the end of an object and a wait that nobody ends are values of type \<open>fault\<close> (theory Prelude);
  a loop whose end is not evident is a partial function into \<open>option\<close> or takes fuel, and the
  properties prove that it ends, or that the fuel suffices. Locks are taken and released by the
  caller of the modelled operation and do not appear in it, except where waiting matters: the
  ticket lock, the log's admission, pipes and the console, where a call is a sequence of runs between
  waits.

  \<^bold>\<open>Memory.\<close> Bitops is \<^verbatim>\<open>bitops.h\<close> and the page arithmetic of \<^verbatim>\<open>page.h\<close>. Lists is \<^verbatim>\<open>list.h\<close>, with the abstraction
  of a circular list to a list of nodes that its users share. Page_alloc is \<^verbatim>\<open>page_alloc.c\<close>: the
  invariant of the buddy system (free blocks aligned, disjoint, on the list of their order, none
  mergeable), and that allocation, release and initialisation keep it and do what they promise
  (C1 to C4). Memblock is \<^verbatim>\<open>memblock.c\<close> and \<^verbatim>\<open>mm.c\<close>: the boot path up to the hand-over (C5), and the
  entity handed out twice by a reservation inside a region. Strings is \<^verbatim>\<open>string.c\<close> and the routines of
  the user library that the kernel does not have, over a byte memory (C7, C8). Slab is \<^verbatim>\<open>slab.c\<close>: objects over the pages
  of the allocator: that every small object takes a page of its own, against the design (C10), what holds after any history (C40), and where the order recorded with a page is wrong. Vm is \<^verbatim>\<open>vm.c\<close>:
  three-level page tables in the pages of the allocator, mapping (C11) and copies between kernel
  and user memory (C12).

  \<^bold>\<open>Locks.\<close> Locks is \<^verbatim>\<open>spinlock.c\<close> and \<^verbatim>\<open>sleeplock.c\<close>: the ticket lock as interleaved steps of any number of CPUs,
  with mutual exclusion, fairness and the wrap-around of tickets (C13), and \<^verbatim>\<open>try_lock\<close>. Memory is sequentially consistent, and the panic of a CPU that has waited too long is left out.

  \<^bold>\<open>The file system.\<close> Bio is \<^verbatim>\<open>bio.c\<close>, the LRU cache of buffers over the disk (C15, C16); Bcache_abs states
  what its clients rely on as the locale \<open>block_cache\<close>, interpreted on Bio. Log is \<^verbatim>\<open>log.c\<close>:
  commit (C17), the commit point (C18), recovery, which discards what was committed (C19), and admission, which is one block too generous for the images of \<^verbatim>\<open>mkfs\<close> (C20). Fs is \<^verbatim>\<open>fs.c\<close>, written in the monad of theory
  Monad (state, faults, loops with early exit) on blocks as byte lists (theory Bytes). Fs_blocks proves the block
  bitmap (C21, C22), Fs_file the block map of a file with its indirect block, Fs_rw that what
  \<^verbatim>\<open>writei\<close> writes \<^verbatim>\<open>readi\<close> reads (C23).

  \<^bold>\<open>The disk.\<close> Virtio is \<^verbatim>\<open>virtio_disk.c\<close>: descriptors, rings (interpretations of the ring buffer of theory Ring), requests and interrupts, as an
  interleaving of the sections of the driver with a device that is a parameter and of which only the promises of the virtio specification
  are assumed. In every interleaving requests are neither lost nor mixed up (C32), which is the disk as Bio sees it.

  \<^bold>\<open>Symbols and output.\<close> Kallsyms is \<^verbatim>\<open>scripts/kallsyms.c\<close> and Ksyms \<^verbatim>\<open>kernel/kallsyms.c\<close>; Ksyms_codes proves that
  the compression of names can be undone, Ksyms_tables that the kernel finds in the generated
  tables the symbols the generator read (C24). Printk is \<^verbatim>\<open>printk.c\<close>; Printk_fmt proves numerals (C25), a round trip
  (C26), both with the byte that is written behind the local buffer, and that the short conversions print stale bits.

  \<^bold>\<open>Channels.\<close> Ring holds ring buffers with free-running counters: the locales \<open>bounded_queue\<close>, what a client relies on, and
  \<open>ring_buffer\<close>, what the code does, with the second a sublocale of the first. Pipe is \<^verbatim>\<open>pipe.c\<close>, an interpretation
  of it, refined to a queue (C28) and, with the byte that a failing copy loses, a stream (C29). Console is \<^verbatim>\<open>console.c\<close> and \<^verbatim>\<open>uart.c\<close>: the input
  buffer as a line discipline (C30), the transmit buffer, a second interpretation (C31), and a wake-up that is lost.

  \<^bold>\<open>Open files.\<close> Files is \<^verbatim>\<open>file.c\<close>, the descriptor calls of \<^verbatim>\<open>sysfile.c\<close>, the creation of pipes and sockets, and the descriptors in \<^verbatim>\<open>fork.c\<close>
  and \<^verbatim>\<open>exit.c\<close>; Sysfile is the calls of \<^verbatim>\<open>sysfile.c\<close> on path names. The state puts the file system, the file table, pipes, sockets and the tables of all tasks together. Triples has
  rules for computations of theory Monad with a set of faults; with them Fs_safe shows which faults the layers below can cause, and Files_inv that every
  operation keeps the invariants of open files. Files_calls draws the conclusions for histories of calls: reference counts (C6) and the memory of pipes and sockets (C14), up to the one call that frees memory twice.

  \<^bold>\<open>Address spaces.\<close> Mmap is \<^verbatim>\<open>mmap.c\<close> and the page fault handler of \<^verbatim>\<open>trap.c\<close>: the list of areas (C33), with an overlap
  that insertion accepts, the heap (C35) and page faults (C36). Umalloc is \<^verbatim>\<open>user/umalloc.c\<close>, the allocator of user programs, over the system calls stated as the locale
  \<open>break_memory\<close>; Uheap interprets the locale on Mmap, so that \<^verbatim>\<open>malloc\<close> (C34, with the sizes for which its block is short) and \<^verbatim>\<open>free\<close> (C27) are proved down to the kernel's areas. Fork is the copy
  of an address space in \<^verbatim>\<open>fork.c\<close>: areas, page tables and pages together, with the records from the object allocator (C9). Both lists end in null pointers: their
  abstraction is theory Chains.

  \<^bold>\<open>Scheduling.\<close> Sched is \<^verbatim>\<open>sched.c\<close>, \<^verbatim>\<open>sched_simple.c\<close> and \<^verbatim>\<open>wait.c\<close>: run queues and wait queues as lists of theory Lists in one store.
  The loops are partial functions into \<open>option\<close>; the choice of the next task returns (C37), and so does waking, which for long
  queues goes in rounds with a bookmark and treats exclusive waiters as all others (C38).

  \<^bold>\<open>The network.\<close> Net is \<^verbatim>\<open>net.c\<close>, \<^verbatim>\<open>ip_arp.c\<close>, \<^verbatim>\<open>ip_neighbor.c\<close> and the data path of \<^verbatim>\<open>sysnet.c\<close>: what one host sends another
  receives (C39), and that an ARP reply makes the wrong entry.

  \<^bold>\<open>Bounds and fuel.\<close> List walks of the block cache take \<open>NBUF + 1\<close> steps, one more than the list has buffers. The
  loops of \<^verbatim>\<open>readi\<close> and \<^verbatim>\<open>writei\<close> take as many turns as bytes are asked for, since each turn moves one at
  least. The expansion of a symbol code takes a depth of 257, one more than there are codes, each of
  which is defined by codes defined before it.

  \<^bold>\<open>Simplifications.\<close> Page-table entries and data bytes are two views of memory in theory Vm, kept apart by the pages they lie in. The disk that Bio sees is
  a function of device and block, which is what C32 proves of the driver for the one disk there is. The free lists of the page allocator are HOL lists. The network card takes every frame.

  \<^bold>\<open>Not modelled.\<close> Assembly and control registers (context switch, traps, interrupt controllers, the
  atomic instructions behind locks), device registers other than those of the disk, and the descriptor rings of the network
  driver. Code outside the repository appears as a parameter:
  the assembler's reading of a string directive, with its law as a hypothesis of C24. Left out as well are the
  timer list and the soft interrupts (driven by interrupts), the life cycle of tasks (it rests on the context
  switch), the ELF loader, the drivers of the network card, the PLIC and the PCI bus, \<^verbatim>\<open>mkfs\<close>, the user programs
  and the red-black trees, which only their own test uses.
\<close>

end
